(* ===== verification/Prelude.thy ===== *)
theory Prelude
  imports Main "HOL-Library.Word" "HOL-Library.Signed_Division"
begin

text \<open>
  The vocabulary the components share: machine integers of the 64-bit little-endian build,
  C++'s conversions between them, byte buffers written in place (\<open>memcpy\<close>), blocks of a
  byte stream, and the byte order conversions. Every component theory imports this one.
\<close>

unbundle bit_operations_syntax

type_synonym u8 = "8 word"
type_synonym u16 = "16 word"
type_synonym u32 = "32 word"
type_synonym u64 = "64 word"

named_theorems c_arith \<open>conversions and arithmetic of C++ integer types\<close>
named_theorems buf_simps \<open>buffers written in place\<close>

section \<open>Integer conversions\<close>

text \<open>
  A \<open>std::size_t\<close> is a \<open>nat\<close> below \<open>2 ^ 64\<close>; its subtraction and addition wrap.
  An \<open>int32_t\<close> or \<open>int64_t\<close> is an \<open>int\<close> in range; the casts below are the
  two's complement truncations the compiler performs.
\<close>

definition size_add :: "nat \<Rightarrow> nat \<Rightarrow> nat" where
  "size_add a b = (a + b) mod 2 ^ 64"

definition size_sub :: "nat \<Rightarrow> nat \<Rightarrow> nat" where
  "size_sub a b = (if b \<le> a then a - b else a + 2 ^ 64 - b)"

definition size_add_int :: "nat \<Rightarrow> int \<Rightarrow> nat" where
  "size_add_int a m = nat ((int a + m) mod 2 ^ 64)"

definition to_i32 :: "int \<Rightarrow> int" where
  "to_i32 x = (x + 2 ^ 31) mod 2 ^ 32 - 2 ^ 31"

definition to_i64 :: "int \<Rightarrow> int" where
  "to_i64 x = (x + 2 ^ 63) mod 2 ^ 64 - 2 ^ 63"

definition to_u32 :: "int \<Rightarrow> int" where
  "to_u32 x = x mod 2 ^ 32"

definition to_u64 :: "int \<Rightarrow> int" where
  "to_u64 x = x mod 2 ^ 64"

text \<open>\<open>abs\<close> on \<open>int\<close>: the least value has no positive counterpart and stays.\<close>

definition abs_i32 :: "int \<Rightarrow> int" where
  "abs_i32 x = to_i32 \<bar>x\<bar>"

text \<open>C++ division truncates towards zero.\<close>

definition c_div :: "int \<Rightarrow> int \<Rightarrow> int" where
  "c_div a b = a sdiv b"

definition c_mod :: "int \<Rightarrow> int \<Rightarrow> int" where
  "c_mod a b = a smod b"

lemma size_sub_le [c_arith]: "b \<le> a \<Longrightarrow> size_sub a b = a - b"
  by (simp add: size_sub_def)

lemma size_add_small [c_arith]: "a + b < 2 ^ 64 \<Longrightarrow> size_add a b = a + b"
  by (simp add: size_add_def)

lemma size_add_int_small:
  "0 \<le> int a + m \<Longrightarrow> int a + m < 2 ^ 64 \<Longrightarrow> size_add_int a m = nat (int a + m)"
  by (simp add: size_add_int_def)

lemma to_i32_id [c_arith]: "- (2 ^ 31) \<le> x \<Longrightarrow> x < 2 ^ 31 \<Longrightarrow> to_i32 x = x"
  by (simp add: to_i32_def)

lemma to_i64_id [c_arith]: "- (2 ^ 63) \<le> x \<Longrightarrow> x < 2 ^ 63 \<Longrightarrow> to_i64 x = x"
  by (simp add: to_i64_def)

lemma to_u64_id [c_arith]: "0 \<le> x \<Longrightarrow> x < 2 ^ 64 \<Longrightarrow> to_u64 x = x"
  by (simp add: to_u64_def)

lemma to_u32_id [c_arith]: "0 \<le> x \<Longrightarrow> x < 2 ^ 32 \<Longrightarrow> to_u32 x = x"
  by (simp add: to_u32_def)

lemma to_i64_bounds: "- (2 ^ 63) \<le> to_i64 x \<and> to_i64 x < 2 ^ 63"
  by (simp add: to_i64_def)

lemma to_i32_bounds: "- (2 ^ 31) \<le> to_i32 x \<and> to_i32 x < 2 ^ 31"
  by (simp add: to_i32_def)

lemma to_u64_bounds: "0 \<le> to_u64 x \<and> to_u64 x < 2 ^ 64"
  by (simp add: to_u64_def)

lemma to_i64_to_u64: "to_i64 (to_u64 x) = to_i64 x"
  by (simp add: to_i64_def to_u64_def mod_simps)

lemma to_u64_to_i64: "to_u64 (to_i64 x) = to_u64 x"
  by (simp add: to_i64_def to_u64_def mod_simps)

lemma to_i32_add: "to_i32 (to_i32 a + b) = to_i32 (a + b)"
proof -
  have "(to_i32 a + b + 2 ^ 31) mod 2 ^ 32 = (a + b + 2 ^ 31) mod 2 ^ 32"
    by (simp add: to_i32_def) presburger
  thus ?thesis by (simp only: to_i32_def[of "to_i32 a + b"] to_i32_def[of "a + b"])
qed

lemma to_i32_add_left [simp]: "to_i32 (to_i32 a + b) = to_i32 (a + b)"
  by (rule to_i32_add)

lemma to_i32_diff_left [simp]: "to_i32 (to_i32 a - b) = to_i32 (a - b)"
  using to_i32_add[of a "- b"] by simp

lemma to_i32_add_right [simp]: "to_i32 (a + to_i32 b) = to_i32 (a + b)"
  using to_i32_add[of b a] by (simp add: add.commute)

lemma to_i32_diff_right [simp]: "to_i32 (a - to_i32 b) = to_i32 (a - b)"
proof -
  have "(a - to_i32 b + 2 ^ 31) mod 2 ^ 32 = (a + 2 ^ 32 - (b + 2 ^ 31) mod 2 ^ 32) mod 2 ^ 32"
    by (simp add: to_i32_def algebra_simps)
  also have "\<dots> = (a + 2 ^ 32 - (b + 2 ^ 31)) mod 2 ^ 32" by (rule mod_diff_right_eq)
  also have "\<dots> = (a - b + 2 ^ 31) mod 2 ^ 32" by (simp add: algebra_simps)
  finally have "(a - to_i32 b + 2 ^ 31) mod 2 ^ 32 = (a - b + 2 ^ 31) mod 2 ^ 32" .
  thus ?thesis by (simp only: to_i32_def[of "a - to_i32 b"] to_i32_def[of "a - b"])
qed


lemma to_u64_add: "to_u64 (to_u64 x + y) = to_u64 (x + y)" "to_u64 (x + to_u64 y) = to_u64 (x + y)"
  by (simp_all add: to_u64_def mod_simps)

lemma to_u64_add_i64: "to_u64 (x + to_i64 y) = to_u64 (x + y)"
  by (metis to_u64_add(2) to_u64_to_i64)

lemma c_div_nonneg [c_arith]: "0 \<le> a \<Longrightarrow> 0 < b \<Longrightarrow> c_div a b = a div b"
  by (cases "a = 0") (auto simp: c_div_def signed_divide_int_def)

lemma c_mod_nonneg [c_arith]: "0 \<le> a \<Longrightarrow> 0 < b \<Longrightarrow> c_mod a b = a mod b"
  by (cases "a = 0") (auto simp: c_mod_def signed_modulo_int_def)

lemma c_div_mod: "c_div a b * b + c_mod a b = a"
  by (simp add: c_div_def c_mod_def signed_modulo_int_def signed_divide_int_def)
    (metis abs_sgn div_mult_mod_eq distrib_left mult.assoc mult.commute mult_sgn_abs)

lemma abs_i32_neg [c_arith]: "- (2 ^ 31) < x \<Longrightarrow> x < 0 \<Longrightarrow> abs_i32 x = - x"
  by (simp add: abs_i32_def to_i32_def)

section \<open>Writing into a buffer\<close>

text \<open>\<open>memcpy\<close> of \<open>xs\<close> to offset \<open>i\<close> of a buffer \<open>ys\<close>, in range.\<close>

definition overwrite :: "nat \<Rightarrow> 'a list \<Rightarrow> 'a list \<Rightarrow> 'a list" where
  "overwrite i xs ys = take i ys @ xs @ drop (i + length xs) ys"

lemma length_overwrite [simp, buf_simps]:
  "i + length xs \<le> length ys \<Longrightarrow> length (overwrite i xs ys) = length ys"
  by (simp add: overwrite_def)

lemma overwrite_Nil [simp, buf_simps]: "overwrite i [] ys = ys"
  by (simp add: overwrite_def)

lemma take_overwrite [buf_simps]:
  "i + length xs \<le> length ys \<Longrightarrow> take (i + length xs) (overwrite i xs ys) = take i ys @ xs"
  by (simp add: overwrite_def)

lemma take_overwrite_before [buf_simps]:
  "k \<le> i \<Longrightarrow> i \<le> length ys \<Longrightarrow> take k (overwrite i xs ys) = take k ys"
  by (simp add: overwrite_def min_def)

lemma drop_overwrite_after:
  "i + length xs \<le> length ys \<Longrightarrow>
   drop (i + length xs) (overwrite i xs ys) = drop (i + length xs) ys"
  by (simp add: overwrite_def)

lemma overwrite_full [buf_simps]:
  "length xs = length ys \<Longrightarrow> overwrite 0 xs ys = xs"
  by (simp add: overwrite_def)

text \<open>The window \<open>[i, j)\<close> of a buffer.\<close>

definition slice :: "nat \<Rightarrow> nat \<Rightarrow> 'a list \<Rightarrow> 'a list" where
  "slice i j xs = drop i (take j xs)"

lemma length_slice [simp, buf_simps]: "j \<le> length xs \<Longrightarrow> length (slice i j xs) = j - i"
  by (simp add: slice_def)

lemma slice_self [simp]: "slice i i xs = []"
  by (simp add: slice_def)

lemma slice_empty: "j \<le> i \<Longrightarrow> slice i j xs = []"
  by (simp add: slice_def)

lemma slice_overwrite_append:
  assumes "i \<le> j" and "j + length ys \<le> length xs"
  shows "slice i (j + length ys) (overwrite j ys xs) = slice i j xs @ ys"
  using assms by (simp add: slice_def take_overwrite)

lemma take_slice: "take k (slice i j xs) = slice i (min j (i + k)) xs"
  by (simp add: slice_def take_drop min.commute add.commute)

lemma drop_slice: "drop k (slice i j xs) = slice (i + k) j xs"
  by (simp add: slice_def add.commute)

section \<open>Splitting a stream into blocks\<close>

function blocks :: "nat \<Rightarrow> 'a list \<Rightarrow> 'a list list" where
  "blocks n xs = (if n = 0 \<or> length xs < n then [] else take n xs # blocks n (drop n xs))"
  by pat_completeness auto
termination
  by (relation "measure (\<lambda>(n, xs). length xs)") auto

declare blocks.simps [simp del]

lemma blocks_short [simp]: "length xs < n \<Longrightarrow> blocks n xs = []"
  by (subst blocks.simps) simp

lemma blocks_step: "0 < n \<Longrightarrow> n \<le> length xs \<Longrightarrow> blocks n xs = take n xs # blocks n (drop n xs)"
  by (subst blocks.simps) simp

lemma blocks_append:
  "0 < n \<Longrightarrow> n dvd length xs \<Longrightarrow> blocks n (xs @ ys) = blocks n xs @ blocks n ys"
proof (induction n xs rule: blocks.induct)
  case (1 n xs)
  show ?case
  proof (cases "length xs < n")
    case True
    with "1.prems" have "xs = []" by (auto dest: dvd_imp_le)
    with "1.prems" show ?thesis by simp
  next
    case False
    with 1 show ?thesis
      by (simp add: blocks_step[of n "xs @ ys"] blocks_step[of n xs])
  qed
qed

lemma blocks_length: "0 < n \<Longrightarrow> b \<in> set (blocks n xs) \<Longrightarrow> length b = n"
proof (induction n xs rule: blocks.induct)
  case (1 n xs)
  then show ?case
    by (cases "length xs < n") (auto simp: blocks_step)
qed

text \<open>The bytes after the last whole block.\<close>

definition rest_block :: "nat \<Rightarrow> 'a list \<Rightarrow> 'a list" where
  "rest_block n xs = drop (n * (length xs div n)) xs"

lemma length_rest_block [simp]: "length (rest_block n xs) = length xs mod n"
  by (simp add: rest_block_def minus_mult_div_eq_mod)

lemma rest_block_append:
  "n dvd length xs \<Longrightarrow> rest_block n (xs @ ys) = rest_block n ys"
  by (cases "n = 0") (auto simp: rest_block_def distrib_left elim!: dvdE)

lemma blocks_rest: "0 < n \<Longrightarrow> blocks n (take (n * (length xs div n)) xs) = blocks n xs"
proof -
  assume n: "0 < n"
  let ?a = "take (n * (length xs div n)) xs" and ?b = "drop (n * (length xs div n)) xs"
  have "n dvd length ?a" by (simp add: min_absorb2)
  with n have "blocks n (?a @ ?b) = blocks n ?a @ blocks n ?b" by (rule blocks_append)
  moreover have "length ?b < n"
    using n by (simp add: minus_mult_div_eq_mod)
  ultimately show ?thesis by simp
qed

section \<open>Words\<close>

lemma unat_u8_less [simp]: "unat (b :: u8) < 256"
  using unsigned_less[of b, where 'a = nat] by simp

lemma unat_ucast_u8_u32 [simp]: "unat (ucast (b :: u8) :: u32) = unat b"
proof -
  have "unat b < 2 ^ 32" using unat_u8_less[of b] by (rule order_less_trans) simp
  then show ?thesis by (simp add: unsigned_ucast_eq take_bit_nat_eq_self)
qed

text \<open>The rotations and the byte order conversions of a 32-bit value.\<close>

definition rol32 :: "u32 \<Rightarrow> nat \<Rightarrow> u32" where
  "rol32 x n = push_bit n x OR drop_bit (32 - n) x"

definition byte32 :: "nat \<Rightarrow> u32 \<Rightarrow> u8" where
  "byte32 k x = ucast (drop_bit (8 * k) x)"

definition le_bytes32 :: "u32 \<Rightarrow> u8 list" where
  "le_bytes32 x = [byte32 0 x, byte32 1 x, byte32 2 x, byte32 3 x]"

definition be_bytes32 :: "u32 \<Rightarrow> u8 list" where
  "be_bytes32 x = [byte32 3 x, byte32 2 x, byte32 1 x, byte32 0 x]"

definition le_word32 :: "u8 \<Rightarrow> u8 \<Rightarrow> u8 \<Rightarrow> u8 \<Rightarrow> u32" where
  "le_word32 a b c d = ucast a OR push_bit 8 (ucast b) OR push_bit 16 (ucast c) OR push_bit 24 (ucast d)"

lemma le_word32_bytes [simp]:
  "le_word32 (byte32 0 x) (byte32 1 x) (byte32 2 x) (byte32 3 x) = x"
proof (rule bit_word_eqI)
  fix n assume "n < LENGTH(32)"
  then consider "n < 8" | "8 \<le> n" "n < 16" | "16 \<le> n" "n < 24" | "24 \<le> n" "n < 32"
    by fastforce
  then show "bit (le_word32 (byte32 0 x) (byte32 1 x) (byte32 2 x) (byte32 3 x)) n = bit x n"
    by cases (auto simp: le_word32_def byte32_def bit_simps)
qed

lemma byte32_le_word32 [simp]:
  "byte32 0 (le_word32 a b c d) = a" "byte32 1 (le_word32 a b c d) = b"
  "byte32 2 (le_word32 a b c d) = c" "byte32 3 (le_word32 a b c d) = d"
  by (rule bit_word_eqI; auto simp: le_word32_def byte32_def bit_simps dest: bit_imp_le_length)+

lemma length_le_bytes32 [simp]: "length (le_bytes32 x) = 4"
  by (simp add: le_bytes32_def)

lemma length_be_bytes32 [simp]: "length (be_bytes32 x) = 4"
  by (simp add: be_bytes32_def)

text \<open>Bytes in memory seen as 32-bit words of the machine, and back.\<close>

fun block_words :: "u8 list \<Rightarrow> u32 list" where
  "block_words (a # b # c # d # bs) = le_word32 a b c d # block_words bs"
| "block_words _ = []"

definition words_block :: "u32 list \<Rightarrow> u8 list" where
  "words_block ws = concat (map le_bytes32 ws)"

lemma length_block_words: "length (block_words b) = length b div 4"
  by (induction b rule: block_words.induct) simp_all

lemma length_words_block: "length (words_block ws) = 4 * length ws"
  by (induction ws) (simp_all add: words_block_def)

lemma block_words_block [simp]: "block_words (words_block ws) = ws"
proof (induction ws)
  case (Cons w ws)
  have "block_words (words_block (w # ws)) = le_word32 (byte32 0 w) (byte32 1 w) (byte32 2 w) (byte32 3 w) #
      block_words (words_block ws)"
    by (simp add: words_block_def le_bytes32_def)
  then show ?case by (simp only: le_word32_bytes Cons)
qed (simp add: words_block_def)

lemma words_block_words: "4 dvd length bs \<Longrightarrow> words_block (block_words bs) = bs"
proof (induction bs rule: block_words.induct)
  case (1 a b c d bs)
  have "length (a # b # c # d # bs) = length bs + 4" by simp
  with "1.prems" have "4 dvd length bs" by (metis dvd_add_triv_right_iff)
  with 1 show ?case by (simp add: words_block_def le_bytes32_def byte32_le_word32[simplified])
qed (simp_all add: words_block_def nat_dvd_not_less)

lemma concat_blocks: "0 < n \<Longrightarrow> n dvd length xs \<Longrightarrow> concat (blocks n xs) = xs"
proof (induction n xs rule: blocks.induct)
  case (1 n xs)
  show ?case
  proof (cases "length xs < n")
    case True
    with "1.prems" have "xs = []" by (auto dest: dvd_imp_le)
    with "1.prems" show ?thesis by simp
  next
    case False
    with 1 show ?thesis by (simp add: blocks_step[of n xs] dvd_diff_nat)
  qed
qed

lemma blocks_concat: "0 < n \<Longrightarrow> (\<And>b. b \<in> set bs \<Longrightarrow> length b = n) \<Longrightarrow> blocks n (concat bs) = bs"
  by (induction bs) (simp_all add: blocks_step)

end
