(* ===== verification/Crc32.thy ===== *)
theory Crc32
  imports Prelude
begin

text \<open>
  \<open>tdk::crypto::crc32\<close> (\<open>src/tdk/crypto/crc32.cpp\<close>): the lookup table, the register and
  its three operations, and the bitwise polynomial division the table is meant to speed up.
  The arguments \<open>void* ptr, int size\<close> of \<open>update\<close> are the list of the \<open>size\<close> bytes at
  \<open>ptr\<close> (a negative size reads nothing, like the empty list).
\<close>

section \<open>The table and the register\<close>

definition crc_table :: "u32 list" where
  "crc_table = [
    0x00000000, 0x77073096, 0xEE0E612C, 0x990951BA,
    0x076DC419, 0x706AF48F, 0xE963A535, 0x9E6495A3,
    0x0EDB8832, 0x79DCB8A4, 0xE0D5E91E, 0x97D2D988,
    0x09B64C2B, 0x7EB17CBD, 0xE7B82D07, 0x90BF1D91,
    0x1DB71064, 0x6AB020F2, 0xF3B97148, 0x84BE41DE,
    0x1ADAD47D, 0x6DDDE4EB, 0xF4D4B551, 0x83D385C7,
    0x136C9856, 0x646BA8C0, 0xFD62F97A, 0x8A65C9EC,
    0x14015C4F, 0x63066CD9, 0xFA0F3D63, 0x8D080DF5,
    0x3B6E20C8, 0x4C69105E, 0xD56041E4, 0xA2677172,
    0x3C03E4D1, 0x4B04D447, 0xD20D85FD, 0xA50AB56B,
    0x35B5A8FA, 0x42B2986C, 0xDBBBC9D6, 0xACBCF940,
    0x32D86CE3, 0x45DF5C75, 0xDCD60DCF, 0xABD13D59,
    0x26D930AC, 0x51DE003A, 0xC8D75180, 0xBFD06116,
    0x21B4F4B5, 0x56B3C423, 0xCFBA9599, 0xB8BDA50F,
    0x2802B89E, 0x5F058808, 0xC60CD9B2, 0xB10BE924,
    0x2F6F7C87, 0x58684C11, 0xC1611DAB, 0xB6662D3D,
    0x76DC4190, 0x01DB7106, 0x98D220BC, 0xEFD5102A,
    0x71B18589, 0x06B6B51F, 0x9FBFE4A5, 0xE8B8D433,
    0x7807C9A2, 0x0F00F934, 0x9609A88E, 0xE10E9818,
    0x7F6A0DBB, 0x086D3D2D, 0x91646C97, 0xE6635C01,
    0x6B6B51F4, 0x1C6C6162, 0x856530D8, 0xF262004E,
    0x6C0695ED, 0x1B01A57B, 0x8208F4C1, 0xF50FC457,
    0x65B0D9C6, 0x12B7E950, 0x8BBEB8EA, 0xFCB9887C,
    0x62DD1DDF, 0x15DA2D49, 0x8CD37CF3, 0xFBD44C65,
    0x4DB26158, 0x3AB551CE, 0xA3BC0074, 0xD4BB30E2,
    0x4ADFA541, 0x3DD895D7, 0xA4D1C46D, 0xD3D6F4FB,
    0x4369E96A, 0x346ED9FC, 0xAD678846, 0xDA60B8D0,
    0x44042D73, 0x33031DE5, 0xAA0A4C5F, 0xDD0D7CC9,
    0x5005713C, 0x270241AA, 0xBE0B1010, 0xC90C2086,
    0x5768B525, 0x206F85B3, 0xB966D409, 0xCE61E49F,
    0x5EDEF90E, 0x29D9C998, 0xB0D09822, 0xC7D7A8B4,
    0x59B33D17, 0x2EB40D81, 0xB7BD5C3B, 0xC0BA6CAD,
    0xEDB88320, 0x9ABFB3B6, 0x03B6E20C, 0x74B1D29A,
    0xEAD54739, 0x9DD277AF, 0x04DB2615, 0x73DC1683,
    0xE3630B12, 0x94643B84, 0x0D6D6A3E, 0x7A6A5AA8,
    0xE40ECF0B, 0x9309FF9D, 0x0A00AE27, 0x7D079EB1,
    0xF00F9344, 0x8708A3D2, 0x1E01F268, 0x6906C2FE,
    0xF762575D, 0x806567CB, 0x196C3671, 0x6E6B06E7,
    0xFED41B76, 0x89D32BE0, 0x10DA7A5A, 0x67DD4ACC,
    0xF9B9DF6F, 0x8EBEEFF9, 0x17B7BE43, 0x60B08ED5,
    0xD6D6A3E8, 0xA1D1937E, 0x38D8C2C4, 0x4FDFF252,
    0xD1BB67F1, 0xA6BC5767, 0x3FB506DD, 0x48B2364B,
    0xD80D2BDA, 0xAF0A1B4C, 0x36034AF6, 0x41047A60,
    0xDF60EFC3, 0xA867DF55, 0x316E8EEF, 0x4669BE79,
    0xCB61B38C, 0xBC66831A, 0x256FD2A0, 0x5268E236,
    0xCC0C7795, 0xBB0B4703, 0x220216B9, 0x5505262F,
    0xC5BA3BBE, 0xB2BD0B28, 0x2BB45A92, 0x5CB36A04,
    0xC2D7FFA7, 0xB5D0CF31, 0x2CD99E8B, 0x5BDEAE1D,
    0x9B64C2B0, 0xEC63F226, 0x756AA39C, 0x026D930A,
    0x9C0906A9, 0xEB0E363F, 0x72076785, 0x05005713,
    0x95BF4A82, 0xE2B87A14, 0x7BB12BAE, 0x0CB61B38,
    0x92D28E9B, 0xE5D5BE0D, 0x7CDCEFB7, 0x0BDBDF21,
    0x86D3D2D4, 0xF1D4E242, 0x68DDB3F8, 0x1FDA836E,
    0x81BE16CD, 0xF6B9265B, 0x6FB077E1, 0x18B74777,
    0x88085AE6, 0xFF0F6A70, 0x66063BCA, 0x11010B5C,
    0x8F659EFF, 0xF862AE69, 0x616BFFD3, 0x166CCF45,
    0xA00AE278, 0xD70DD2EE, 0x4E048354, 0x3903B3C2,
    0xA7672661, 0xD06016F7, 0x4969474D, 0x3E6E77DB,
    0xAED16A4A, 0xD9D65ADC, 0x40DF0B66, 0x37D83BF0,
    0xA9BCAE53, 0xDEBB9EC5, 0x47B2CF7F, 0x30B5FFE9,
    0xBDBDF21C, 0xCABAC28A, 0x53B39330, 0x24B4A3A6,
    0xBAD03605, 0xCDD70693, 0x54DE5729, 0x23D967BF,
    0xB3667A2E, 0xC4614AB8, 0x5D681B02, 0x2A6F2B94,
    0xB40BBE37, 0xC30C8EA1, 0x5A05DF1B, 0x2D02EF8D]"

record crc32 =
  crc32_reg :: u32

definition crc32_new :: crc32 where
  "crc32_new = \<lparr>crc32_reg = 0xFFFFFFFF\<rparr>"

definition crc32_step :: "u32 \<Rightarrow> u8 \<Rightarrow> u32" where
  "crc32_step c d = drop_bit 8 c XOR crc_table ! unat (ucast d XOR (c AND 0x000000FF))"

definition crc32_update :: "u8 list \<Rightarrow> crc32 \<Rightarrow> crc32" where
  "crc32_update data s = s\<lparr>crc32_reg := foldl crc32_step (crc32_reg s) data\<rparr>"

definition crc32_value :: "crc32 \<Rightarrow> u32" where
  "crc32_value s = NOT (crc32_reg s)"

definition crc32_reset :: "crc32 \<Rightarrow> crc32" where
  "crc32_reset s = s\<lparr>crc32_reg := 0xFFFFFFFF\<rparr>"

section \<open>Division by the polynomial, bit by bit\<close>

definition crc_bit :: "u32 \<Rightarrow> u32" where
  "crc_bit c = (if c AND 1 = 1 then drop_bit 1 c XOR 0xEDB88320 else drop_bit 1 c)"

definition crc_byte :: "u32 \<Rightarrow> u32" where
  "crc_byte c = (crc_bit ^^ 8) c"

definition crc_ref_step :: "u32 \<Rightarrow> u8 \<Rightarrow> u32" where
  "crc_ref_step c d = crc_byte (c XOR ucast d)"

definition crc_ref :: "u8 list \<Rightarrow> u32" where
  "crc_ref data = NOT (foldl crc_ref_step 0xFFFFFFFF data)"

lemma crc_bit_alt: "crc_bit c = drop_bit 1 c XOR (if bit c 0 then 0xEDB88320 else 0)"
proof -
  have "(c AND 1 = 1) = bit c 0"
    by (metis and_one_eq bit_0 mod2_eq_if zero_neq_one)
  then show ?thesis by (simp add: crc_bit_def)
qed

lemma crc_bit_xor: "crc_bit (a XOR b) = crc_bit a XOR crc_bit b"
  by (auto simp: crc_bit_alt bit_simps intro!: bit_word_eqI)

lemma crc_bits_xor: "(crc_bit ^^ n) (a XOR b) = (crc_bit ^^ n) a XOR (crc_bit ^^ n) b"
  by (induction n) (simp_all add: crc_bit_xor)

lemma crc_byte_xor: "crc_byte (a XOR b) = crc_byte a XOR crc_byte b"
  by (simp add: crc_byte_def crc_bits_xor)

text \<open>A register whose low \<open>n\<close> bits are clear is only shifted.\<close>

lemma crc_bits_shift: "(\<And>k. k < n \<Longrightarrow> \<not> bit c k) \<Longrightarrow> (crc_bit ^^ n) c = drop_bit n c"
proof (induction n)
  case (Suc n)
  then have "(crc_bit ^^ n) c = drop_bit n c" by simp
  moreover have "\<not> bit (drop_bit n c) 0" using Suc.prems[of n] by (simp add: bit_simps)
  ultimately show ?case by (simp add: crc_bit_alt[of "drop_bit n c"])
qed simp

lemma crc_byte_shift: "(\<And>k. k < 8 \<Longrightarrow> \<not> bit c k) \<Longrightarrow> crc_byte c = drop_bit 8 c"
  unfolding crc_byte_def by (rule crc_bits_shift)

section \<open>The table holds the division of every byte\<close>

text \<open>
  The division is linear, so the entry of an index is the exclusive or of the entries of its
  bits: the table is checked against eight divisions and one exclusive or per entry.
\<close>

fun crc_double :: "u32 list \<Rightarrow> u32 \<Rightarrow> u32 list" where
  "crc_double xs b = xs @ map (\<lambda>x. x XOR b) xs"

lemma crc_byte_unfold:
  "crc_byte c = crc_bit (crc_bit (crc_bit (crc_bit (crc_bit (crc_bit (crc_bit (crc_bit c)))))))"
  by (simp add: crc_byte_def numeral_eq_Suc)

lemma crc_byte_basis:
  "crc_byte 1 = 0x77073096"
  "crc_byte 2 = 0xEE0E612C"
  "crc_byte 4 = 0x076DC419"
  "crc_byte 8 = 0x0EDB8832"
  "crc_byte 16 = 0x1DB71064"
  "crc_byte 32 = 0x3B6E20C8"
  "crc_byte 64 = 0x76DC4190"
  "crc_byte 128 = 0xEDB88320"
  by (simp_all add: crc_byte_unfold crc_bit_def)

lemma crc_table_doubling:
  "crc_table = foldl crc_double [0] (map (\<lambda>k. crc_byte (push_bit k 1)) [0, 1, 2, 3, 4, 5, 6, 7])"
  by (simp add: crc_byte_basis crc_table_def)

lemma word_of_nat_add_exp:
  assumes "i < 2 ^ n"
  shows "(word_of_nat (i + 2 ^ n) :: u32) = word_of_nat i XOR push_bit n 1"
proof -
  have "\<not> bit i m" if "n \<le> m" for m
    using assms that by (metis bit_take_bit_iff leD take_bit_nat_eq_self)
  then have "(word_of_nat i :: u32) AND push_bit n 1 = 0"
    by (auto intro!: bit_word_eqI simp: bit_simps)
  then have "(word_of_nat i :: u32) + push_bit n 1 = word_of_nat i XOR push_bit n 1"
    by (rule disjunctive_add_eq_xor)
  then show ?thesis by (simp add: push_bit_eq_mult)
qed

lemma crc_doubling_bytes:
  "foldl crc_double [0] (map (\<lambda>k. crc_byte (push_bit k 1)) [0..<n]) =
   map (\<lambda>i. crc_byte (word_of_nat i)) [0..<2 ^ n]"
proof (induction n)
  case 0
  show ?case by (simp add: crc_byte_shift)
next
  case (Suc n)
  have "[0..<2 ^ Suc n] = [0..<2 ^ n + 2 ^ n]" by (simp only: power_Suc mult_2)
  also have "\<dots> = [0..<2 ^ n] @ [2 ^ n..<2 ^ n + 2 ^ n]" by (rule upt_add_eq_append) simp
  also have "[2 ^ n..<2 ^ n + 2 ^ n] = map (\<lambda>i. i + 2 ^ n) [0..<2 ^ n]"
    by (rule map_add_upt[symmetric])
  finally have "[0..<2 ^ Suc n] = [0..<2 ^ n] @ map (\<lambda>i. i + 2 ^ n) [0..<2 ^ n]" .
  moreover have "map (\<lambda>i. crc_byte (word_of_nat (i + 2 ^ n))) [0..<2 ^ n] =
      map (\<lambda>i. crc_byte (word_of_nat i) XOR crc_byte (push_bit n 1)) [0..<2 ^ n]"
    by (rule map_cong) (simp_all del: of_nat_add add: word_of_nat_add_exp crc_byte_xor)
  ultimately have "map (\<lambda>i. crc_byte (word_of_nat i)) [0..<2 ^ Suc n] =
      crc_double (map (\<lambda>i. crc_byte (word_of_nat i)) [0..<2 ^ n]) (crc_byte (push_bit n 1))"
    by (simp only: crc_double.simps map_append map_map comp_def)
  then show ?case by (simp only: upt_Suc_append[OF le0] map_append foldl_append Suc.IH) simp
qed

lemma crc_table_bytes: "crc_table = map (\<lambda>i. crc_byte (word_of_nat i)) [0..<256]"
proof -
  have "crc_table = foldl crc_double [0] (map (\<lambda>k. crc_byte (push_bit k 1)) [0..<8])"
    unfolding crc_table_doubling by (simp add: upt_rec)
  then show ?thesis by (simp only: crc_doubling_bytes) simp
qed

lemma crc_table_nth: "crc_table ! unat (ucast b :: u32) = crc_byte (ucast (b :: u8))"
  by (simp add: crc_table_bytes)

section \<open>The register after a message\<close>

lemma crc32_step_ref: "crc32_step c d = crc_ref_step c d"
proof -
  let ?lo = "c AND 0xFF" and ?hi = "c AND NOT 0xFF"
  have ff: "(0xFF :: u32) = mask 8" by (simp add: mask_eq_exp_minus_1)
  have idx: "ucast d XOR ?lo = ucast (d XOR ucast c)"
    unfolding ff by (rule bit_word_eqI) (auto simp: bit_simps)
  have split: "c XOR ucast d = ucast (d XOR ucast c) XOR ?hi"
    unfolding ff by (rule bit_word_eqI) (auto simp: bit_simps dest: bit_imp_le_length)
  have "crc_byte ?hi = drop_bit 8 ?hi"
    unfolding ff by (rule crc_byte_shift) (simp add: bit_simps)
  also have "\<dots> = drop_bit 8 c"
    unfolding ff using bit_imp_le_length[of c]
    by (intro bit_word_eqI) (fastforce simp: bit_simps)
  finally have "crc_byte (c XOR ucast d) = crc_table ! unat (ucast d XOR ?lo) XOR drop_bit 8 c"
    by (simp only: split crc_byte_xor idx crc_table_nth)
  then show ?thesis by (simp add: crc32_step_def crc_ref_step_def xor.commute)
qed

lemma crc32_update_append:
  "crc32_update (xs @ ys) s = crc32_update ys (crc32_update xs s)"
  by (simp add: crc32_update_def)

lemma crc32_reset_new: "crc32_reset s = crc32_new"
  by (simp add: crc32_reset_def crc32_new_def)

lemma crc32_fold_ref: "foldl crc32_step c xs = foldl crc_ref_step c xs"
  by (induction xs arbitrary: c) (simp_all add: crc32_step_ref)

text \<open>C29. Whatever a checksum object was used for before, after \<open>reset\<close> and any sequence of
  \<open>update\<close> calls \<open>value\<close> is the CRC-32 of all the bytes passed, in order: the table driven
  loop computes the bitwise division by the reflected polynomial \<open>0xEDB88320\<close>, and how the
  message was cut into pieces does not matter.\<close>

theorem crc32_stream_correct:
  "crc32_value (foldl (\<lambda>s d. crc32_update d s) (crc32_reset s) pieces) = crc_ref (concat pieces)"
proof -
  have "foldl (\<lambda>s d. crc32_update d s) s' pieces = crc32_update (concat pieces) s'" for s'
    by (induction pieces arbitrary: s') (simp_all add: crc32_update_append, simp add: crc32_update_def)
  then show ?thesis
    by (simp add: crc32_reset_new crc32_new_def crc32_update_def crc32_value_def crc_ref_def
        crc32_fold_ref)
qed

text \<open>The check value of the CRC-32 catalogue: the checksum of the digits 1 to 9.\<close>

lemma crc32_check_value:
  "crc32_value (crc32_update [0x31, 0x32, 0x33, 0x34, 0x35, 0x36, 0x37, 0x38, 0x39] crc32_new) = 0xCBF43926"
  by (simp add: crc32_value_def crc32_update_def crc32_new_def crc32_step_def crc_table_def)

end
