(* ===== verification/Block_Hash.thy ===== *)
theory Block_Hash
  imports Prelude
begin

text \<open>
  What the two hash functions share: the 64-bit count of message bits kept in two 32-bit
  words, the relation between a context and the bytes it has absorbed, and the interface of
  an update operation. \<open>Md5\<close> and \<open>Sha1\<close> interpret the locale \<open>stream_hash\<close> on their models;
  the facts proved once here say that a message may be absorbed in any pieces.
\<close>

section \<open>The count of bits in two words\<close>

text \<open>
  \<open>if ((count[0] += len << 3) < (len << 3)) count[1]++; count[1] += (len >> 29);\<close>
  with \<open>len\<close> of 32 bits, as both update functions have it.
\<close>

definition bit_count_add :: "u32 \<times> u32 \<Rightarrow> nat \<Rightarrow> u32 \<times> u32" where
  "bit_count_add c len =
    (let n = (word_of_nat len :: u32);
         c0 = fst c + push_bit 3 n;
         c1 = (if c0 < push_bit 3 n then snd c + 1 else snd c)
     in (c0, c1 + drop_bit 29 n))"

definition bit_count :: "u32 \<times> u32 \<Rightarrow> nat" where
  "bit_count c = unat (fst c) + 2 ^ 32 * unat (snd c)"

lemma u32_less [simp]: "unat (x :: u32) < 4294967296"
  using unsigned_less[of x, where 'a = nat] by simp

lemma bit_count_less: "bit_count c < 2 ^ 64"
proof -
  have "unat (fst c) \<le> 4294967295" "unat (snd c) \<le> 4294967295"
    using u32_less[of "fst c"] u32_less[of "snd c"] by linarith+
  then show ?thesis by (simp add: bit_count_def)
qed

lemma wrap_64:
  "(x :: nat) mod 2 ^ 32 + 2 ^ 32 * ((x div 2 ^ 32 + y) mod 2 ^ 32) = (x + 2 ^ 32 * y) mod 2 ^ 64"
  using mod_mult2_eq[of "x + 2 ^ 32 * y" "2 ^ 32" "2 ^ 32"] by (simp add: add.commute)

lemma wrap_div8: "(x :: nat) mod 2 ^ 64 div 8 = x div 8 mod 2 ^ 61"
  using mod_mult2_eq[of x 8 "2 ^ 61"] by simp

lemma bit_count_add:
  assumes "len < 2 ^ 32"
  shows "bit_count (bit_count_add c len) = (bit_count c + 8 * len) mod 2 ^ 64"
proof -
  define a b where "a = unat (fst c)" and "b = unat (snd c)"
  define l where "l = 8 * len mod 2 ^ 32"
  define h where "h = len div 2 ^ 29"
  have bounds: "a < 2 ^ 32" "b < 2 ^ 32" "l < 2 ^ 32"
    by (simp_all add: a_def b_def l_def)
  have len8: "8 * len = l + 2 ^ 32 * h"
  proof -
    have "h = 8 * len div 2 ^ 32" using div_mult_mult1[of 8 len "2 ^ 29"] by (simp add: h_def)
    then show ?thesis by (simp only: l_def mod_mult_div_eq)
  qed
  have ul: "unat (push_bit 3 (word_of_nat len :: u32)) = l"
    by (simp add: l_def push_bit_eq_mult unat_word_ariths unsigned_of_nat take_bit_eq_mod mod_simps mult.commute)
  have uh: "unat (drop_bit 29 (word_of_nat len :: u32)) = h"
    using assms
    by (simp only: h_def unat_drop_bit_eq) (simp add: drop_bit_eq_div unsigned_of_nat take_bit_eq_mod)
  let ?c0 = "fst c + push_bit 3 (word_of_nat len :: u32)"
  have u0: "unat ?c0 = (a + l) mod 2 ^ 32"
    by (simp add: unat_word_ariths ul a_def)
  have carry: "?c0 < push_bit 3 (word_of_nat len :: u32) \<longleftrightarrow> 2 ^ 32 \<le> a + l"
    using bounds by (auto simp: word_less_nat_alt u0 ul mod_if)
  have plus: "unat (x + y) = (unat x + unat y) mod 2 ^ 32" for x y :: u32
    by (simp add: unat_word_ariths)
  have hi: "unat (snd (bit_count_add c len)) = ((a + l) div 2 ^ 32 + (b + h)) mod 2 ^ 32"
  proof (cases "2 ^ 32 \<le> a + l")
    case True
    then have "(a + l) div 2 ^ 32 = 1" using bounds by (simp add: div_if)
    moreover have "snd (bit_count_add c len) = (snd c + 1) + drop_bit 29 (word_of_nat len)"
      using True carry by (simp add: bit_count_add_def Let_def)
    ultimately show ?thesis
      by (simp only: plus uh b_def[symmetric] unsigned_1 mod_add_left_eq mod_add_right_eq ac_simps)
  next
    case False
    then have "(a + l) div 2 ^ 32 = 0" by simp
    moreover have "snd (bit_count_add c len) = snd c + drop_bit 29 (word_of_nat len)"
      using False carry by (simp add: bit_count_add_def Let_def)
    ultimately show ?thesis by (simp only: plus uh b_def[symmetric] add_0)
  qed
  have "bit_count (bit_count_add c len) = (a + l) mod 2 ^ 32 + 2 ^ 32 * (((a + l) div 2 ^ 32 + (b + h)) mod 2 ^ 32)"
    by (simp only: bit_count_def hi) (simp add: bit_count_add_def Let_def u0)
  also have "\<dots> = ((a + l) + 2 ^ 32 * (b + h)) mod 2 ^ 64" by (rule wrap_64)
  also have "(a + l) + 2 ^ 32 * (b + h) = bit_count c + 8 * len"
    unfolding len8 bit_count_def a_def b_def by (simp add: algebra_simps)
  finally show ?thesis .
qed

text \<open>\<open>(count[0] >> 3) & 63\<close>: the offset in the buffer at which the next byte goes.\<close>

definition block_index :: "u32 \<times> u32 \<Rightarrow> nat" where
  "block_index c = unat (drop_bit 3 (fst c) AND 0x3F)"

lemma block_index: "block_index c = bit_count c div 8 mod 64"
proof -
  have "(0x3F :: u32) = mask 6" by (simp add: mask_eq_exp_minus_1)
  then have "block_index c = unat (fst c) div 8 mod 64"
    unfolding block_index_def
    by (simp only: unsigned_take_bit_eq take_bit_eq_mask[symmetric] unat_drop_bit_eq)
      (simp add: take_bit_eq_mod drop_bit_eq_div)
  moreover have "bit_count c div 8 = unat (fst c) div 8 + 64 * (8388608 * unat (snd c))"
    using div_mult_self2[of 8 "unat (fst c)" "2 ^ 29 * unat (snd c)"] by (simp add: bit_count_def)
  ultimately show ?thesis by (simp only: mod_mult_self2)
qed

lemma block_index_less: "block_index c < 64"
  by (simp add: block_index)

lemma bit_count_words:
  assumes "bit_count c = n mod 2 ^ 64"
  shows "fst c = word_of_nat n" and "snd c = word_of_nat (n div 2 ^ 32)"
proof -
  have n: "n mod 2 ^ 64 = n mod 2 ^ 32 + 2 ^ 32 * (n div 2 ^ 32 mod 2 ^ 32)"
    using mod_mult2_eq[of n "2 ^ 32" "2 ^ 32"] by simp
  have "unat (fst c) = bit_count c mod 2 ^ 32" and "unat (snd c) = bit_count c div 2 ^ 32"
    by (simp_all add: bit_count_def)
  with assms n have "unat (fst c) = n mod 2 ^ 32" and "unat (snd c) = n div 2 ^ 32 mod 2 ^ 32"
    by simp_all
  then show "fst c = word_of_nat n" and "snd c = word_of_nat (n div 2 ^ 32)"
    by (simp_all add: word_unat_eq_iff unsigned_of_nat take_bit_eq_mod)
qed

text \<open>The zero bytes between the mark and the length: up to 8 bytes short of a block.\<close>

definition pad_zeros :: "nat \<Rightarrow> nat" where
  "pad_zeros n = (119 - n mod 64) mod 64"

lemma pad_zeros_index:
  assumes "k = n mod 64"
  shows "Suc (pad_zeros n) = (if k < 56 then 56 - k else 120 - k)"
proof -
  have "k < 64" using assms by simp
  show ?thesis
  proof (cases "k < 56")
    case True
    then have "119 - k = (55 - k) + 64" by simp
    then have "(119 - k) mod 64 = 55 - k" using True by (simp only: mod_add_self2) simp
    with True show ?thesis by (simp only: pad_zeros_def assms[symmetric]) simp
  next
    case False
    with \<open>k < 64\<close> show ?thesis by (simp only: pad_zeros_def assms[symmetric]) simp
  qed
qed

section \<open>Filling the buffer\<close>

lemma overwrite_fill:
  "length buf = 64 \<Longrightarrow> idx < 64 \<Longrightarrow> 64 - idx \<le> length d \<Longrightarrow>
   overwrite idx (take (64 - idx) d) buf = take idx buf @ take (64 - idx) d"
  by (simp add: overwrite_def)

lemma blocks_fill:
  "length buf = 64 \<Longrightarrow> idx < 64 \<Longrightarrow> 64 - idx \<le> length d \<Longrightarrow>
   blocks 64 (take idx buf @ d) = (take idx buf @ take (64 - idx) d) # blocks 64 (drop (64 - idx) d)"
  by (subst blocks_step) (auto simp: min_def)

lemma rest_block_fill:
  assumes "length buf = 64" "idx < 64" "64 - idx \<le> length d"
  shows "rest_block 64 (take idx buf @ d) = rest_block 64 (drop (64 - idx) d)"
proof -
  have "64 dvd length (take idx buf @ take (64 - idx) d)" using assms by (simp add: min_def)
  from rest_block_append[OF this, of "drop (64 - idx) d"] show ?thesis by simp
qed

text \<open>Where a loop over whole blocks from offset \<open>i\<close> stops.\<close>

lemma drop_whole_blocks: "drop (i + 64 * ((length d - i) div 64)) d = rest_block 64 (drop i d)"
  by (simp add: rest_block_def add.commute)

lemma overwrite_rest:
  "length buf = 64 \<Longrightarrow> length (overwrite 0 (rest_block 64 d) buf) = 64 \<and>
   take (length d mod 64) (overwrite 0 (rest_block 64 d) buf) = rest_block 64 d"
proof -
  have "length (rest_block 64 d) < 64" by simp
  then show "length buf = 64 \<Longrightarrow> ?thesis" by (simp add: overwrite_def)
qed

lemma overwrite_short:
  "length buf = 64 \<Longrightarrow> idx + length d < 64 \<Longrightarrow> length (overwrite idx d buf) = 64 \<and>
   take (idx + length d) (overwrite idx d buf) = take idx buf @ d"
  by (simp add: overwrite_def)

lemma rest_block_short: "length d < 64 \<Longrightarrow> rest_block 64 d = d"
  by (simp add: rest_block_def)

section \<open>What a context has absorbed\<close>

definition absorbed :: "('s \<Rightarrow> u8 list \<Rightarrow> 's) \<Rightarrow> 's \<Rightarrow> u8 list \<Rightarrow> 's \<times> (u32 \<times> u32) \<times> u8 list \<Rightarrow> bool" where
  "absorbed compress start m c \<longleftrightarrow>
    fst c = foldl compress start (blocks 64 m) \<and>
    bit_count (fst (snd c)) = 8 * length m mod 2 ^ 64 \<and>
    length (snd (snd c)) = 64 \<and>
    take (length m mod 64) (snd (snd c)) = rest_block 64 m"

lemma absorbed_index:
  assumes "absorbed compress start m c"
  shows "block_index (fst (snd c)) = length m mod 64"
proof -
  have "8 * n mod 2 ^ 64 div 8 mod 64 = n mod 64" for n :: nat
  proof -
    have "8 * n mod 2 ^ 64 = 8 * (n mod 2 ^ 61)" using mult_mod_right[of 8 n "2 ^ 61"] by simp
    then show ?thesis using mod_mod_cancel[of 64 "2 ^ 61" n] by simp
  qed
  with assms show ?thesis by (simp add: absorbed_def block_index)
qed

locale stream_hash =
  fixes compress :: "'s \<Rightarrow> u8 list \<Rightarrow> 's"
    and view :: "'c \<Rightarrow> 's \<times> (u32 \<times> u32) \<times> u8 list"
    and upd :: "u8 list \<Rightarrow> 'c \<Rightarrow> 'c"
  assumes upd_state: "length (snd (snd (view c))) = 64 \<Longrightarrow> length d < 2 ^ 31 \<Longrightarrow>
      fst (view (upd d c)) =
        foldl compress (fst (view c))
          (blocks 64 (take (block_index (fst (snd (view c)))) (snd (snd (view c))) @ d))"
    and upd_count: "fst (snd (view (upd d c))) = bit_count_add (fst (snd (view c))) (length d)"
    and upd_buffer_length: "length (snd (snd (view c))) = 64 \<Longrightarrow> length (snd (snd (view (upd d c)))) = 64"
    and upd_buffer: "length (snd (snd (view c))) = 64 \<Longrightarrow> length d < 2 ^ 31 \<Longrightarrow>
      take ((block_index (fst (snd (view c))) + length d) mod 64) (snd (snd (view (upd d c)))) =
        rest_block 64 (take (block_index (fst (snd (view c)))) (snd (snd (view c))) @ d)"
begin

lemma absorbed_upd:
  assumes m: "absorbed compress start m (view c)" and d: "length d < 2 ^ 31"
  shows "absorbed compress start (m @ d) (view (upd d c))"
proof -
  let ?k = "64 * (length m div 64)" and ?b = "snd (snd (view c))"
  note idx = absorbed_index[OF m]
  from m have len: "length ?b = 64" and st: "fst (view c) = foldl compress start (blocks 64 m)"
    and cnt: "bit_count (fst (snd (view c))) = 8 * length m mod 2 ^ 64"
    and buf: "take (length m mod 64) ?b = rest_block 64 m"
    by (auto simp: absorbed_def)
  have dvd: "64 dvd length (take ?k m)" by (simp add: min_absorb2)
  have split: "m @ d = take ?k m @ (rest_block 64 m @ d)" by (simp add: rest_block_def)
  have "foldl compress start (blocks 64 (m @ d)) =
      foldl compress start (blocks 64 (take ?k m) @ blocks 64 (rest_block 64 m @ d))"
    by (subst split) (simp only: blocks_append[OF _ dvd] zero_less_numeral)
  also have "\<dots> = fst (view (upd d c))"
    using upd_state[OF len d] by (simp add: idx buf st blocks_rest)
  finally have 1: "fst (view (upd d c)) = foldl compress start (blocks 64 (m @ d))" by simp
  have 2: "bit_count (fst (snd (view (upd d c)))) = 8 * length (m @ d) mod 2 ^ 64"
    using d by (simp add: upd_count bit_count_add cnt mod_simps)
  have "rest_block 64 (m @ d) = rest_block 64 (rest_block 64 m @ d)"
    by (subst split) (rule rest_block_append[OF dvd])
  then have 3: "take (length (m @ d) mod 64) (snd (snd (view (upd d c)))) = rest_block 64 (m @ d)"
    using upd_buffer[OF len d] by (simp add: idx buf mod_simps)
  from 1 2 3 upd_buffer_length[OF len] show ?thesis by (simp add: absorbed_def)
qed

lemma absorbed_pieces:
  assumes "absorbed compress start m (view c)" and "\<And>d. d \<in> set ds \<Longrightarrow> length d < 2 ^ 31"
  shows "absorbed compress start (m @ concat ds) (view (foldl (\<lambda>c d. upd d c) c ds))"
  using assms
proof (induction ds arbitrary: c m)
  case (Cons d ds)
  from Cons.prems have "absorbed compress start (m @ d) (view (upd d c))"
    by (auto intro: absorbed_upd)
  then have "absorbed compress start ((m @ d) @ concat ds) (view (foldl (\<lambda>c d. upd d c) (upd d c) ds))"
    by (rule Cons.IH) (use Cons.prems in auto)
  then show ?case by simp
qed simp

lemma absorbed_stream:
  "absorbed compress start [] (view c) \<Longrightarrow> (\<And>d. d \<in> set ds \<Longrightarrow> length d < 2 ^ 31) \<Longrightarrow>
   absorbed compress start (concat ds) (view (foldl (\<lambda>c d. upd d c) c ds))"
  using absorbed_pieces[of start "[]" c ds] by simp

lemma absorbed_state: "absorbed compress start m (view c) \<Longrightarrow> fst (view c) = foldl compress start (blocks 64 m)"
  by (simp add: absorbed_def)

end

end
