(* ===== verification/Md5.thy ===== *)
theory Md5
  imports Block_Hash
begin

text \<open>
  \<open>tdk::crypto::md5\<close> (\<open>src/tdk/crypto/md5.cpp\<close>): the compression function
  \<open>MD5Transform\<close> with its 64 steps, the buffering update, the finalisation, and the class
  that wraps them. Arguments \<open>input, inputLen\<close> are the list of the bytes read.
\<close>

section \<open>The compression function\<close>

record md5_ctx =
  md5_state :: "u32 list"
  md5_count :: "u32 \<times> u32"
  md5_buffer :: "u8 list"

definition md5_F :: "u32 \<Rightarrow> u32 \<Rightarrow> u32 \<Rightarrow> u32" where
  "md5_F x y z = (x AND y) OR (NOT x AND z)"

definition md5_G :: "u32 \<Rightarrow> u32 \<Rightarrow> u32 \<Rightarrow> u32" where
  "md5_G x y z = (x AND z) OR (y AND NOT z)"

definition md5_H :: "u32 \<Rightarrow> u32 \<Rightarrow> u32 \<Rightarrow> u32" where
  "md5_H x y z = x XOR y XOR z"

definition md5_I :: "u32 \<Rightarrow> u32 \<Rightarrow> u32 \<Rightarrow> u32" where
  "md5_I x y z = y XOR (x OR NOT z)"

text \<open>
  One step \<open>FF(a, b, c, d, x, s, ac)\<close>: the new \<open>a\<close>. The code names the four variables in
  rotated order from one step to the next; the tuple rotates instead.
\<close>

fun md5_step :: "(u32 \<Rightarrow> u32 \<Rightarrow> u32 \<Rightarrow> u32) \<Rightarrow> u32 list \<Rightarrow>
    u32 \<times> u32 \<times> u32 \<times> u32 \<Rightarrow> nat \<times> nat \<times> u32 \<Rightarrow> u32 \<times> u32 \<times> u32 \<times> u32" where
  "md5_step f x (a, b, c, d) (k, s, ac) = (d, rol32 (a + f b c d + x ! k + ac) s + b, b, c)"

text \<open>The steps of each round: word index, rotation, constant.\<close>

definition md5_round1 :: "(nat \<times> nat \<times> u32) list" where
  "md5_round1 =
    [(0, 7, 0xd76aa478), (1, 12, 0xe8c7b756), (2, 17, 0x242070db), (3, 22, 0xc1bdceee),
     (4, 7, 0xf57c0faf), (5, 12, 0x4787c62a), (6, 17, 0xa8304613), (7, 22, 0xfd469501),
     (8, 7, 0x698098d8), (9, 12, 0x8b44f7af), (10, 17, 0xffff5bb1), (11, 22, 0x895cd7be),
     (12, 7, 0x6b901122), (13, 12, 0xfd987193), (14, 17, 0xa679438e), (15, 22, 0x49b40821)]"

definition md5_round2 :: "(nat \<times> nat \<times> u32) list" where
  "md5_round2 =
    [(1, 5, 0xf61e2562), (6, 9, 0xc040b340), (11, 14, 0x265e5a51), (0, 20, 0xe9b6c7aa),
     (5, 5, 0xd62f105d), (10, 9, 0x2441453), (15, 14, 0xd8a1e681), (4, 20, 0xe7d3fbc8),
     (9, 5, 0x21e1cde6), (14, 9, 0xc33707d6), (3, 14, 0xf4d50d87), (8, 20, 0x455a14ed),
     (13, 5, 0xa9e3e905), (2, 9, 0xfcefa3f8), (7, 14, 0x676f02d9), (12, 20, 0x8d2a4c8a)]"

definition md5_round3 :: "(nat \<times> nat \<times> u32) list" where
  "md5_round3 =
    [(5, 4, 0xfffa3942), (8, 11, 0x8771f681), (11, 16, 0x6d9d6122), (14, 23, 0xfde5380c),
     (1, 4, 0xa4beea44), (4, 11, 0x4bdecfa9), (7, 16, 0xf6bb4b60), (10, 23, 0xbebfbc70),
     (13, 4, 0x289b7ec6), (0, 11, 0xeaa127fa), (3, 16, 0xd4ef3085), (6, 23, 0x4881d05),
     (9, 4, 0xd9d4d039), (12, 11, 0xe6db99e5), (15, 16, 0x1fa27cf8), (2, 23, 0xc4ac5665)]"

definition md5_round4 :: "(nat \<times> nat \<times> u32) list" where
  "md5_round4 =
    [(0, 6, 0xf4292244), (7, 10, 0x432aff97), (14, 15, 0xab9423a7), (5, 21, 0xfc93a039),
     (12, 6, 0x655b59c3), (3, 10, 0x8f0ccc92), (10, 15, 0xffeff47d), (1, 21, 0x85845dd1),
     (8, 6, 0x6fa87e4f), (15, 10, 0xfe2ce6e0), (6, 15, 0xa3014314), (13, 21, 0x4e0811a1),
     (4, 6, 0xf7537e82), (11, 10, 0xbd3af235), (2, 15, 0x2ad7d2bb), (9, 21, 0xeb86d391)]"

fun md5_decode :: "u8 list \<Rightarrow> u32 list" where
  "md5_decode (a # b # c # d # bs) = le_word32 a b c d # md5_decode bs"
| "md5_decode _ = []"

definition md5_encode :: "u32 list \<Rightarrow> u8 list" where
  "md5_encode ws = concat (map le_bytes32 ws)"

definition md5_transform :: "u32 list \<Rightarrow> u8 list \<Rightarrow> u32 list" where
  "md5_transform state block =
    (let x = md5_decode block;
         r1 = foldl (md5_step md5_F x) (state ! 0, state ! 1, state ! 2, state ! 3) md5_round1;
         r2 = foldl (md5_step md5_G x) r1 md5_round2;
         r3 = foldl (md5_step md5_H x) r2 md5_round3;
         (a, b, c, d) = foldl (md5_step md5_I x) r3 md5_round4
     in [state ! 0 + a, state ! 1 + b, state ! 2 + c, state ! 3 + d])"

section \<open>Context operations\<close>

definition md5_init :: "md5_ctx \<Rightarrow> md5_ctx" where
  "md5_init ctx = ctx\<lparr>md5_count := (0, 0),
     md5_state := [0x67452301, 0xefcdab89, 0x98badcfe, 0x10325476]\<rparr>"

text \<open>\<open>for (i = partLen; i + 63 < inputLen; i += 64) MD5Transform(state, &input[i])\<close>\<close>

function md5_update_loop :: "nat \<Rightarrow> u8 list \<Rightarrow> u32 list \<Rightarrow> nat \<times> u32 list" where
  "md5_update_loop i input state =
    (if i + 63 < length input
     then md5_update_loop (i + 64) input (md5_transform state (slice i (i + 64) input))
     else (i, state))"
  by pat_completeness auto
termination
  by (relation "measure (\<lambda>(i, input, state). length input - i)") auto

declare md5_update_loop.simps [simp del]

definition md5_update :: "u8 list \<Rightarrow> md5_ctx \<Rightarrow> md5_ctx" where
  "md5_update input ctx =
    (let index = block_index (md5_count ctx);
         count = bit_count_add (md5_count ctx) (length input);
         partLen = 64 - index
     in if partLen \<le> length input
        then let buf = overwrite index (take partLen input) (md5_buffer ctx);
                 (i, state) = md5_update_loop partLen input (md5_transform (md5_state ctx) buf)
             in \<lparr>md5_state = state, md5_count = count, md5_buffer = overwrite 0 (drop i input) buf\<rparr>
        else ctx\<lparr>md5_count := count, md5_buffer := overwrite index input (md5_buffer ctx)\<rparr>)"

definition md5_PADDING :: "u8 list" where
  "md5_PADDING = 0x80 # replicate 63 0"

text \<open>The digest, and the context as \<open>memset\<close> leaves it.\<close>

definition md5_final :: "md5_ctx \<Rightarrow> u8 list \<times> md5_ctx" where
  "md5_final ctx =
    (let bits = md5_encode [fst (md5_count ctx), snd (md5_count ctx)];
         index = block_index (md5_count ctx);
         padLen = (if index < 56 then 56 - index else 120 - index);
         ctx1 = md5_update bits (md5_update (take padLen md5_PADDING) ctx)
     in (md5_encode (md5_state ctx1),
         \<lparr>md5_state = replicate 4 0, md5_count = (0, 0), md5_buffer = replicate 64 0\<rparr>))"

section \<open>The class\<close>

definition md5_reset :: "md5_ctx \<Rightarrow> md5_ctx" where
  "md5_reset ctx = md5_init ctx"

definition md5_new :: "md5_ctx \<Rightarrow> md5_ctx" where
  "md5_new uninitialised = md5_reset uninitialised"

definition md5_value :: "md5_ctx \<Rightarrow> u8 list \<times> md5_ctx" where
  "md5_value ctx = md5_final ctx"

definition md5_class_update :: "u8 list \<Rightarrow> md5_ctx \<Rightarrow> md5_ctx" where
  "md5_class_update data ctx = md5_update data ctx"

section \<open>The update absorbs its input\<close>

definition md5_view :: "md5_ctx \<Rightarrow> u32 list \<times> (u32 \<times> u32) \<times> u8 list" where
  "md5_view ctx = (md5_state ctx, md5_count ctx, md5_buffer ctx)"

lemma md5_update_loop:
  "i \<le> length input \<Longrightarrow> md5_update_loop i input state =
    (i + 64 * ((length input - i) div 64), foldl md5_transform state (blocks 64 (drop i input)))"
proof (induction i input state rule: md5_update_loop.induct)
  case (1 i input state)
  show ?case
  proof (cases "i + 63 < length input")
    case True
    then have "(length input - i) div 64 = Suc ((length input - (i + 64)) div 64)"
      using div_add_self2[of 64 "length input - (i + 64)"] by simp
    moreover have "blocks 64 (drop i input) = slice i (i + 64) input # blocks 64 (drop (i + 64) input)"
      using True by (subst blocks_step) (simp_all add: slice_def take_drop add.commute)
    ultimately show ?thesis
      using 1 True by (simp add: md5_update_loop.simps[of i])
  next
    case False
    with 1 show ?thesis by (simp add: md5_update_loop.simps[of i])
  qed
qed

lemma md5_update_short:
  "length d < 64 - block_index (md5_count ctx) \<Longrightarrow> md5_update d ctx =
    ctx\<lparr>md5_count := bit_count_add (md5_count ctx) (length d),
       md5_buffer := overwrite (block_index (md5_count ctx)) d (md5_buffer ctx)\<rparr>"
  by (simp add: md5_update_def Let_def)

lemma md5_update_long:
  assumes "length (md5_buffer ctx) = 64" and "64 - block_index (md5_count ctx) \<le> length d"
  shows "md5_update d ctx =
    (let buf = take (block_index (md5_count ctx)) (md5_buffer ctx) @ take (64 - block_index (md5_count ctx)) d;
         d' = drop (64 - block_index (md5_count ctx)) d
     in \<lparr>md5_state = foldl md5_transform (md5_transform (md5_state ctx) buf) (blocks 64 d'),
         md5_count = bit_count_add (md5_count ctx) (length d),
         md5_buffer = overwrite 0 (rest_block 64 d') buf\<rparr>)"
  using assms
  by (simp only: md5_update_def Let_def md5_update_loop overwrite_fill[OF assms(1) block_index_less assms(2)]
      drop_whole_blocks if_True prod.case)

interpretation md5_stream: stream_hash md5_transform md5_view md5_update
proof (unfold_locales, goal_cases)
  case (1 c d)
  with block_index_less[of "md5_count c"] show ?case
    by (cases "length d < 64 - block_index (md5_count c)")
      (simp_all add: md5_view_def md5_update_short md5_update_long Let_def blocks_fill)
next
  case (2 d c)
  show ?case
    by (cases "length d < 64 - block_index (md5_count c)")
      (simp_all add: md5_view_def md5_update_def Let_def split: prod.split)
next
  case (3 c d)
  with block_index_less[of "md5_count c"] show ?case
    by (cases "length d < 64 - block_index (md5_count c)")
      (simp_all add: md5_view_def md5_update_short md5_update_long Let_def overwrite_short overwrite_rest)
next
  case (4 c d)
  let ?i = "block_index (md5_count c)"
  show ?case
  proof (cases "length d < 64 - ?i")
    case True
    with 4 show ?thesis
      by (simp add: md5_view_def md5_update_short overwrite_short rest_block_short)
  next
    case False
    with block_index_less[of "md5_count c"] have "(?i + length d) mod 64 = length (drop (64 - ?i) d) mod 64"
      using mod_add_self2[of "?i + length d - 64" 64] by (simp add: add.commute)
    with 4 False block_index_less[of "md5_count c"] show ?thesis
      by (simp add: md5_view_def md5_update_long Let_def rest_block_fill overwrite_rest del: length_drop)
  qed
qed

section \<open>The digest\<close>

text \<open>The digest of a message: padded to whole blocks, then compressed block by block.\<close>

definition md5_iv :: "u32 list" where
  "md5_iv = [0x67452301, 0xefcdab89, 0x98badcfe, 0x10325476]"

definition md5_padded :: "u8 list \<Rightarrow> u8 list" where
  "md5_padded m = m @ 0x80 # replicate (pad_zeros (length m)) 0 @
     le_bytes32 (word_of_nat (8 * length m)) @ le_bytes32 (word_of_nat (8 * length m div 2 ^ 32))"

definition md5_ref :: "u8 list \<Rightarrow> u8 list" where
  "md5_ref m = md5_encode (foldl md5_transform md5_iv (blocks 64 (md5_padded m)))"

lemma md5_init_absorbed:
  "length (md5_buffer ctx) = 64 \<Longrightarrow> absorbed md5_transform md5_iv [] (md5_view (md5_init ctx))"
  by (simp add: absorbed_def md5_view_def md5_init_def md5_iv_def bit_count_def rest_block_def)

lemma md5_final_absorbed:
  assumes m: "absorbed md5_transform md5_iv m (md5_view c)"
  shows "fst (md5_final c) = md5_ref m"
proof -
  let ?k = "length m mod 64"
  let ?pad = "take (if ?k < 56 then 56 - ?k else 120 - ?k) md5_PADDING"
  let ?bits = "md5_encode [fst (md5_count c), snd (md5_count c)]"
  have idx: "block_index (md5_count c) = ?k"
    using absorbed_index[OF m] by (simp add: md5_view_def)
  have cnt: "bit_count (md5_count c) = 8 * length m mod 2 ^ 64"
    using m by (simp add: absorbed_def md5_view_def)
  have "pad_zeros (length m) < 64" by (simp add: pad_zeros_def)
  then have pad: "?pad = 0x80 # replicate (pad_zeros (length m)) 0"
    by (simp only: pad_zeros_index[OF refl, symmetric]) (simp add: md5_PADDING_def)
  have "length ?pad < 2 ^ 31" "length ?bits < 2 ^ 31"
    by (simp_all add: md5_PADDING_def md5_encode_def)
  with m have "absorbed md5_transform md5_iv ((m @ ?pad) @ ?bits) (md5_view (md5_update ?bits (md5_update ?pad c)))"
    by (intro md5_stream.absorbed_upd)
  moreover have "(m @ ?pad) @ ?bits = md5_padded m"
    by (simp only: pad md5_padded_def md5_encode_def bit_count_words[OF cnt]) simp
  ultimately have "md5_state (md5_update ?bits (md5_update ?pad c)) =
      foldl md5_transform md5_iv (blocks 64 (md5_padded m))"
    using md5_stream.absorbed_state by (fastforce simp: md5_view_def)
  then show ?thesis by (simp only: md5_final_def Let_def idx fst_conv md5_ref_def)
qed

text \<open>C27. The MD5 class computes MD5: after \<open>reset\<close>, whatever the object held before, and any
  sequence of \<open>update\<close> calls (each below 2 GB, the range of its \<open>int\<close> size), \<open>value\<close> is the
  digest of the concatenated input, padded and compressed block by block. Buffering across calls,
  the carry between the two count words and the padding that spills into another block are
  all covered.\<close>

theorem md5_stream_correct:
  assumes "length (md5_buffer ctx) = 64" and "list_all (\<lambda>d. length d < 2 ^ 31) pieces"
  shows "fst (md5_value (foldl (\<lambda>c d. md5_class_update d c) (md5_reset ctx) pieces)) = md5_ref (concat pieces)"
proof -
  have "absorbed md5_transform md5_iv (concat pieces)
      (md5_view (foldl (\<lambda>c d. md5_update d c) (md5_init ctx) pieces))"
    using md5_init_absorbed[OF assms(1)] assms(2)
    by (intro md5_stream.absorbed_stream) (auto simp: list_all_iff)
  then show ?thesis
    by (simp add: md5_value_def md5_reset_def md5_class_update_def md5_final_absorbed)
qed

definition md5_sample :: md5_ctx where
  "md5_sample = \<lparr>md5_state = [7, 7, 7, 7], md5_count = (5, 6), md5_buffer = replicate 64 9\<rparr>"

theorem md5_stream_correct_witness:
  "fst (md5_value (foldl (\<lambda>c d. md5_class_update d c) (md5_reset md5_sample) [[0x61], [0x62, 0x63]])) =
   md5_ref [0x61, 0x62, 0x63]"
proof -
  have "length (md5_buffer md5_sample) = 64" by (simp add: md5_sample_def)
  from md5_stream_correct[OF this, of "[[0x61], [0x62, 0x63]]"] show ?thesis by auto
qed


text \<open>The digest of \<open>abc\<close>, as RFC 1321 lists it.\<close>

definition md5_block_abc :: "u8 list" where
  "md5_block_abc = [0x61, 0x62, 0x63, 0x80, 0, 0, 0, 0, 0, 0, 0, 0, 0, 0, 0, 0,
     0, 0, 0, 0, 0, 0, 0, 0, 0, 0, 0, 0, 0, 0, 0, 0, 0, 0, 0, 0, 0, 0, 0, 0, 0, 0, 0, 0, 0, 0, 0, 0,
     0, 0, 0, 0, 0, 0, 0, 0, 24, 0, 0, 0, 0, 0, 0, 0]"

definition md5_words_abc :: "u32 list" where
  "md5_words_abc = [0x80636261, 0, 0, 0, 0, 0, 0, 0, 0, 0, 0, 0, 0, 0, 24, 0]"

lemma md5_padded_abc: "md5_padded [0x61, 0x62, 0x63] = md5_block_abc"
  by (simp add: md5_padded_def pad_zeros_def le_bytes32_def byte32_def md5_block_abc_def)
    (simp add: numeral_eq_Suc)

lemma md5_decode_abc: "md5_decode md5_block_abc = md5_words_abc"
  by (simp add: md5_block_abc_def md5_words_abc_def le_word32_def)

lemma md5_rounds_abc:
  "foldl (md5_step md5_F md5_words_abc) (0x67452301, 0xefcdab89, 0x98badcfe, 0x10325476) md5_round1 = (0xdda9b9a6, 0x72aff2e0, 0xe396856b, 0xa1051895)"
  "foldl (md5_step md5_G md5_words_abc) (0xdda9b9a6, 0x72aff2e0, 0xe396856b, 0xa1051895) md5_round2 = (0x790a77fb, 0x726342d3, 0xa62884aa, 0x9f47e4f8)"
  "foldl (md5_step md5_H md5_words_abc) (0x790a77fb, 0x726342d3, 0xa62884aa, 0x9f47e4f8) md5_round3 = (0x7f2e507b, 0x7beb9700, 0x8fae6399, 0x99d9679d)"
  "foldl (md5_step md5_I md5_words_abc) (0x7f2e507b, 0x7beb9700, 0x8fae6399, 0x99d9679d) md5_round4 = (0x310ade8f, 0xc08226b3, 0xe484b9d8, 0x624d8cb2)"
  by (simp_all add: md5_words_abc_def rol32_def md5_F_def md5_G_def md5_H_def md5_I_def
      md5_round1_def md5_round2_def md5_round3_def md5_round4_def)

lemma md5_transform_abc:
  "md5_transform md5_iv md5_block_abc = [0x98500190, 0xb04fd23c, 0x7d3f96d6, 0x727fe128]"
proof -
  have "md5_iv ! 0 = 0x67452301" "md5_iv ! 1 = 0xefcdab89" "md5_iv ! 2 = 0x98badcfe" "md5_iv ! 3 = 0x10325476"
    by (simp_all add: md5_iv_def)
  then show ?thesis by (simp add: md5_transform_def md5_decode_abc md5_rounds_abc)
qed

lemma md5_ref_abc:
  "md5_ref [0x61, 0x62, 0x63] =
    [0x90, 0x01, 0x50, 0x98, 0x3c, 0xd2, 0x4f, 0xb0, 0xd6, 0x96, 0x3f, 0x7d, 0x28, 0xe1, 0x7f, 0x72]"
proof -
  have "blocks 64 (md5_padded [0x61, 0x62, 0x63]) = [md5_padded [0x61, 0x62, 0x63]]"
    by (simp add: blocks_step md5_padded_abc md5_block_abc_def)
  then have "md5_ref [0x61, 0x62, 0x63] = md5_encode [0x98500190, 0xb04fd23c, 0x7d3f96d6, 0x727fe128]"
    by (simp only: md5_ref_def md5_padded_abc foldl.simps md5_transform_abc)
  then show ?thesis by (simp add: md5_encode_def le_bytes32_def byte32_def)
qed

end
