(* ===== verification/Sha1.thy ===== *)
theory Sha1
  imports Block_Hash
begin

text \<open>
  \<open>tdk::crypto::sha1\<close> (\<open>src/tdk/crypto/sha1.cpp\<close>), for the builds it is written for: those
  where \<open>unsigned long\<close> has 32 bits (its \<open>CHAR64LONG16\<close> union overlays 64 bytes with 16
  \<open>unsigned long\<close>, and \<open>rol\<close> rotates in 32 bits), on a little-endian machine.
  \<open>SHA1HANDSOFF\<close> is not defined, so the transform works inside the block it is given:
  it returns the new state and the block as it leaves it, and an update returns the caller's
  bytes as it leaves them.
\<close>

section \<open>The compression function\<close>

record sha1_ctx =
  sha1_state :: "u32 list"
  sha1_count :: "u32 \<times> u32"
  sha1_buffer :: "u8 list"

text \<open>\<open>htonl\<close> on a little-endian machine reverses the four bytes.\<close>

definition htonl :: "u32 \<Rightarrow> u32" where
  "htonl x = le_word32 (byte32 3 x) (byte32 2 x) (byte32 1 x) (byte32 0 x)"

text \<open>The macros \<open>blk0\<close> and \<open>blk\<close>: store word \<open>i\<close> of the schedule in place.\<close>

definition sha1_blk0 :: "nat \<Rightarrow> u32 list \<Rightarrow> u32 list" where
  "sha1_blk0 i l = l[i := htonl (l ! i)]"

definition sha1_blk :: "nat \<Rightarrow> u32 list \<Rightarrow> u32 list" where
  "sha1_blk i l = l[i mod 16 := rol32 (l ! ((i + 13) mod 16) XOR l ! ((i + 8) mod 16)
      XOR l ! ((i + 2) mod 16) XOR l ! (i mod 16)) 1]"

definition sha1_Ch :: "u32 \<Rightarrow> u32 \<Rightarrow> u32 \<Rightarrow> u32" where
  "sha1_Ch w x y = (w AND (x XOR y)) XOR y"

definition sha1_Parity :: "u32 \<Rightarrow> u32 \<Rightarrow> u32 \<Rightarrow> u32" where
  "sha1_Parity w x y = w XOR x XOR y"

definition sha1_Maj :: "u32 \<Rightarrow> u32 \<Rightarrow> u32 \<Rightarrow> u32" where
  "sha1_Maj w x y = ((w OR x) AND y) OR (w AND x)"

type_synonym sha1_vars = "u32 \<times> u32 \<times> u32 \<times> u32 \<times> u32"

text \<open>The assignments of a round macro; the names rotate from one line to the next.\<close>

fun sha1_mix :: "(u32 \<Rightarrow> u32 \<Rightarrow> u32 \<Rightarrow> u32) \<Rightarrow> u32 \<Rightarrow> u32 \<Rightarrow> sha1_vars \<Rightarrow> sha1_vars" where
  "sha1_mix f k wi (v, w, x, y, z) = (z + f w x y + wi + k + rol32 v 5, v, rol32 w 30, x, y)"

definition sha1_R0 :: "sha1_vars \<times> u32 list \<Rightarrow> nat \<Rightarrow> sha1_vars \<times> u32 list" where
  "sha1_R0 s i = (let l = sha1_blk0 i (snd s) in (sha1_mix sha1_Ch 0x5A827999 (l ! i) (fst s), l))"

definition sha1_R1 :: "sha1_vars \<times> u32 list \<Rightarrow> nat \<Rightarrow> sha1_vars \<times> u32 list" where
  "sha1_R1 s i = (let l = sha1_blk i (snd s) in (sha1_mix sha1_Ch 0x5A827999 (l ! (i mod 16)) (fst s), l))"

definition sha1_R2 :: "sha1_vars \<times> u32 list \<Rightarrow> nat \<Rightarrow> sha1_vars \<times> u32 list" where
  "sha1_R2 s i = (let l = sha1_blk i (snd s) in (sha1_mix sha1_Parity 0x6ED9EBA1 (l ! (i mod 16)) (fst s), l))"

definition sha1_R3 :: "sha1_vars \<times> u32 list \<Rightarrow> nat \<Rightarrow> sha1_vars \<times> u32 list" where
  "sha1_R3 s i = (let l = sha1_blk i (snd s) in (sha1_mix sha1_Maj 0x8F1BBCDC (l ! (i mod 16)) (fst s), l))"

definition sha1_R4 :: "sha1_vars \<times> u32 list \<Rightarrow> nat \<Rightarrow> sha1_vars \<times> u32 list" where
  "sha1_R4 s i = (let l = sha1_blk i (snd s) in (sha1_mix sha1_Parity 0xCA62C1D6 (l ! (i mod 16)) (fst s), l))"

definition sha1_transform :: "u32 list \<Rightarrow> u8 list \<Rightarrow> u32 list \<times> u8 list" where
  "sha1_transform state block =
    (let s0 = ((state ! 0, state ! 1, state ! 2, state ! 3, state ! 4), block_words block);
         s1 = foldl sha1_R0 s0 [0..<16];
         s2 = foldl sha1_R1 s1 [16..<20];
         s3 = foldl sha1_R2 s2 [20..<40];
         s4 = foldl sha1_R3 s3 [40..<60];
         ((a, b, c, d, e), l) = foldl sha1_R4 s4 [60..<80]
     in ([state ! 0 + a, state ! 1 + b, state ! 2 + c, state ! 3 + d, state ! 4 + e], words_block l))"

section \<open>Context operations\<close>

definition SHA1_Init :: "sha1_ctx \<Rightarrow> sha1_ctx" where
  "SHA1_Init ctx = ctx\<lparr>sha1_state := [0x67452301, 0xEFCDAB89, 0x98BADCFE, 0x10325476, 0xC3D2E1F0],
     sha1_count := (0, 0)\<rparr>"

text \<open>
  \<open>for ( ; i + 63 < len; i += 64) SHA1_Transform(context->state, &data[i])\<close>: each block of
  the caller's data is hashed where it stands.
\<close>

function sha1_update_loop :: "nat \<Rightarrow> u8 list \<Rightarrow> u32 list \<Rightarrow> nat \<times> u8 list \<times> u32 list" where
  "sha1_update_loop i data state =
    (if i + 63 < length data
     then let (state', block') = sha1_transform state (slice i (i + 64) data)
          in sha1_update_loop (i + 64) (overwrite i (take 64 block') data) state'
     else (i, data, state))"
  by pat_completeness auto
termination
  by (relation "measure (\<lambda>(i, data, state). length data - i)") (auto simp: overwrite_def)

declare sha1_update_loop.simps [simp del]

definition SHA1_Update :: "u8 list \<Rightarrow> sha1_ctx \<Rightarrow> sha1_ctx \<times> u8 list" where
  "SHA1_Update data ctx =
    (let j = block_index (sha1_count ctx);
         count = bit_count_add (sha1_count ctx) (length data)
     in if j + length data > 63
        then let buf = overwrite j (take (64 - j) data) (sha1_buffer ctx);
                 (state, buf') = sha1_transform (sha1_state ctx) buf;
                 (i, data', state') = sha1_update_loop (64 - j) data state
             in (\<lparr>sha1_state = state', sha1_count = count, sha1_buffer = overwrite 0 (drop i data') buf'\<rparr>, data')
        else (ctx\<lparr>sha1_count := count, sha1_buffer := overwrite j data (sha1_buffer ctx)\<rparr>, data))"

lemma SHA1_Update_count [simp]:
  "sha1_count (fst (SHA1_Update d ctx)) = bit_count_add (sha1_count ctx) (length d)"
  by (simp add: SHA1_Update_def Let_def split: prod.split)

text \<open>\<open>while ((context->count[0] & 504) != 448) SHA1_Update(context, "\0", 1)\<close>\<close>

lemma block_index_add_1: "block_index (bit_count_add c 1) = (block_index c + 1) mod 64"
proof -
  have "(bit_count c + 8) mod 2 ^ 64 div 8 mod 64 = (bit_count c div 8 + 1) mod 64"
    unfolding wrap_div8 using mod_mod_cancel[of 64 "2 ^ 61" "bit_count c div 8 + 1"]
    by (simp add: div_add_self2)
  then show ?thesis by (simp add: block_index bit_count_add mod_simps)
qed

lemma count_and_504: "fst c AND 504 = 448 \<longleftrightarrow> block_index c = 56"
proof
  have m: "(504 :: u32) = push_bit 3 (mask 6)" "(63 :: u32) = mask 6" by (simp_all add: mask_eq_exp_minus_1)
  have i: "drop_bit 3 (fst c) AND 63 = drop_bit 3 (fst c AND 504)"
    unfolding m by (rule bit_word_eqI) (auto simp: bit_simps dest: bit_imp_le_length)
  show "fst c AND 504 = 448 \<Longrightarrow> block_index c = 56" by (simp add: block_index_def i)
  assume "block_index c = 56"
  then have "unat (drop_bit 3 (fst c) AND 63) = unat (56 :: u32)" by (simp add: block_index_def)
  then have "drop_bit 3 (fst c) AND 63 = 56" by (simp only: word_unat_eq_iff)
  then have "push_bit 3 (drop_bit 3 (fst c) AND 63) = 448" by simp
  moreover have "push_bit 3 (drop_bit 3 (fst c) AND 63) = fst c AND 504"
    unfolding m by (rule bit_word_eqI) (auto simp: bit_simps)
  ultimately show "fst c AND 504 = 448" by simp
qed

text \<open>Each turn writes one zero byte; the loop stops when the next byte goes to offset 56.\<close>

function sha1_pad_loop :: "sha1_ctx \<Rightarrow> sha1_ctx" where
  "sha1_pad_loop ctx =
    (if fst (sha1_count ctx) AND 504 \<noteq> 448 then sha1_pad_loop (fst (SHA1_Update [0] ctx)) else ctx)"
  by pat_completeness auto
termination
proof (relation "measure (\<lambda>ctx. let k = block_index (sha1_count ctx) in if k \<le> 56 then 56 - k else 120 - k)",
    goal_cases)
  case (2 ctx)
  let ?k = "block_index (sha1_count ctx)"
  from 2 have "?k \<noteq> 56" by (simp add: count_and_504)
  moreover have "?k < 64" by (rule block_index_less)
  moreover have "(?k + 1) mod 64 = (if ?k = 63 then 0 else ?k + 1)" using \<open>?k < 64\<close> by auto
  ultimately show ?case
    using block_index_add_1[of "sha1_count ctx"] by (auto simp: Let_def)
qed simp

declare sha1_pad_loop.simps [simp del]

definition SHA1_Final :: "sha1_ctx \<Rightarrow> u8 list \<times> sha1_ctx" where
  "SHA1_Final ctx =
    (let finalcount = be_bytes32 (snd (sha1_count ctx)) @ be_bytes32 (fst (sha1_count ctx));
         ctx1 = fst (SHA1_Update [0x80] ctx);
         ctx2 = sha1_pad_loop ctx1;
         ctx3 = fst (SHA1_Update finalcount ctx2)
     in (concat (map be_bytes32 (take 5 (sha1_state ctx3))),
         \<lparr>sha1_state = replicate 5 0, sha1_count = (0, 0), sha1_buffer = replicate 64 0\<rparr>))"

section \<open>The class\<close>

definition sha1_reset :: "sha1_ctx \<Rightarrow> sha1_ctx" where
  "sha1_reset ctx = SHA1_Init ctx"

definition sha1_new :: "sha1_ctx \<Rightarrow> sha1_ctx" where
  "sha1_new uninitialised = sha1_reset uninitialised"

definition sha1_update :: "u8 list \<Rightarrow> sha1_ctx \<Rightarrow> sha1_ctx \<times> u8 list" where
  "sha1_update data ctx = SHA1_Update data ctx"

definition sha1_value :: "sha1_ctx \<Rightarrow> u8 list \<times> sha1_ctx" where
  "sha1_value ctx = SHA1_Final ctx"

section \<open>The update absorbs its input\<close>

definition sha1_compress :: "u32 list \<Rightarrow> u8 list \<Rightarrow> u32 list" where
  "sha1_compress state block = fst (sha1_transform state block)"

definition sha1_view :: "sha1_ctx \<Rightarrow> u32 list \<times> (u32 \<times> u32) \<times> u8 list" where
  "sha1_view ctx = (sha1_state ctx, sha1_count ctx, sha1_buffer ctx)"

lemma sha1_blk_length [simp]: "length (sha1_blk0 i l) = length l" "length (sha1_blk i l) = length l"
  by (simp_all add: sha1_blk0_def sha1_blk_def)

lemma sha1_R_length [simp]:
  "length (snd (sha1_R0 s i)) = length (snd s)" "length (snd (sha1_R1 s i)) = length (snd s)"
  "length (snd (sha1_R2 s i)) = length (snd s)" "length (snd (sha1_R3 s i)) = length (snd s)"
  "length (snd (sha1_R4 s i)) = length (snd s)"
  by (simp_all add: sha1_R0_def sha1_R1_def sha1_R2_def sha1_R3_def sha1_R4_def Let_def)

lemma foldl_snd_length:
  "(\<And>s i. length (snd (f s i)) = length (snd s)) \<Longrightarrow> length (snd (foldl f s xs)) = length (snd s)"
  by (induction xs arbitrary: s) simp_all

lemma sha1_transform_length:
  "length b = 64 \<Longrightarrow> length (snd (sha1_transform st b)) = 64"
  by (simp only: sha1_transform_def Let_def case_prod_beta snd_conv length_words_block
      foldl_snd_length sha1_R_length length_block_words) simp

lemma sha1_update_loop:
  "i \<le> length data \<Longrightarrow> sha1_update_loop i data state = (i', data', state') \<Longrightarrow>
   i' = i + 64 * ((length data - i) div 64) \<and>
   state' = foldl sha1_compress state (blocks 64 (drop i data)) \<and>
   length data' = length data \<and> take i data' = take i data \<and> drop i' data' = drop i' data"
proof (induction i data state arbitrary: i' data' state' rule: sha1_update_loop.induct)
  case (1 i data state)
  show ?case
  proof (cases "i + 63 < length data")
    case True
    let ?b = "slice i (i + 64) data"
    let ?d = "overwrite i (take 64 (snd (sha1_transform state ?b))) data"
    have lb: "length (snd (sha1_transform state ?b)) = 64"
      using True by (intro sha1_transform_length) simp
    have ld: "length ?d = length data" using True lb by simp
    have dd: "drop k ?d = drop k data" if "i + 64 \<le> k" for k
    proof -
      have "drop (i + 64) ?d = drop (i + 64) data" using True lb by (simp add: overwrite_def)
      then have "drop (k - (i + 64)) (drop (i + 64) ?d) = drop (k - (i + 64)) (drop (i + 64) data)" by simp
      with that show ?thesis by (simp only: drop_drop le_add_diff_inverse2)
    qed
    have td: "take i ?d = take i data" using True lb by (simp add: overwrite_def)
    have rec: "sha1_update_loop (i + 64) ?d (sha1_compress state ?b) = (i', data', state')"
      using True "1.prems"(2) by (simp add: sha1_update_loop.simps[of i] sha1_compress_def case_prod_beta)
    have "i' = i + 64 + 64 * ((length ?d - (i + 64)) div 64) \<and>
        state' = foldl sha1_compress (sha1_compress state ?b) (blocks 64 (drop (i + 64) ?d)) \<and>
        length data' = length ?d \<and> take (i + 64) data' = take (i + 64) ?d \<and> drop i' data' = drop i' ?d"
    proof (unfold sha1_compress_def[of state], rule "1.IH"[OF True refl prod.collapse])
      show "i + 64 \<le> length ?d" using True ld by simp
      show "sha1_update_loop (i + 64) ?d (fst (sha1_transform state ?b)) = (i', data', state')"
        using rec by (simp only: sha1_compress_def)
    qed
    moreover have "(length data - i) div 64 = Suc ((length data - (i + 64)) div 64)"
      using True div_add_self2[of 64 "length data - (i + 64)"] by simp
    moreover have "blocks 64 (drop i data) = ?b # blocks 64 (drop (i + 64) data)"
      using True by (subst blocks_step) (simp_all add: slice_def take_drop add.commute)
    moreover have "take i data' = take i data" if "take (i + 64) data' = take (i + 64) ?d"
    proof -
      from that have "take i (take (i + 64) data') = take i (take (i + 64) ?d)" by (rule arg_cong)
      with td show ?thesis by (simp add: min_def)
    qed
    ultimately show ?thesis by (elim conjE) (simp add: ld dd)
  next
    case False
    with 1 show ?thesis by (simp add: sha1_update_loop.simps[of i])
  qed
qed

lemma SHA1_Update_short:
  assumes "length d < 64 - block_index (sha1_count ctx)"
  shows "SHA1_Update d ctx =
    (ctx\<lparr>sha1_count := bit_count_add (sha1_count ctx) (length d),
        sha1_buffer := overwrite (block_index (sha1_count ctx)) d (sha1_buffer ctx)\<rparr>, d)"
proof -
  have "\<not> block_index (sha1_count ctx) + length d > 63" using assms by linarith
  then show ?thesis by (simp only: SHA1_Update_def Let_def if_False)
qed

lemma SHA1_Update_long:
  assumes "length (sha1_buffer ctx) = 64" and "64 - block_index (sha1_count ctx) \<le> length d"
  defines "buf \<equiv> take (block_index (sha1_count ctx)) (sha1_buffer ctx) @ take (64 - block_index (sha1_count ctx)) d"
    and "d' \<equiv> drop (64 - block_index (sha1_count ctx)) d"
  shows "\<exists>b. length b = 64 \<and> fst (SHA1_Update d ctx) =
    \<lparr>sha1_state = foldl sha1_compress (sha1_compress (sha1_state ctx) buf) (blocks 64 d'),
     sha1_count = bit_count_add (sha1_count ctx) (length d),
     sha1_buffer = overwrite 0 (rest_block 64 d') b\<rparr>"
proof -
  let ?j = "block_index (sha1_count ctx)"
  obtain i data' st' where loop: "sha1_update_loop (64 - ?j) d (sha1_compress (sha1_state ctx) buf) = (i, data', st')"
    by (cases "sha1_update_loop (64 - ?j) d (sha1_compress (sha1_state ctx) buf)")
  note facts = sha1_update_loop[OF assms(2) loop]
  have "length buf = 64" using assms(1,2) block_index_less[of "sha1_count ctx"] by (simp add: buf_def)
  then have "length (snd (sha1_transform (sha1_state ctx) buf)) = 64" by (rule sha1_transform_length)
  moreover have "63 < ?j + length d" using assms(2) by simp
  moreover have "drop i data' = rest_block 64 d'"
    using facts drop_whole_blocks[of "64 - ?j" d] by (metis d'_def)
  ultimately show ?thesis
    using facts loop overwrite_fill[OF assms(1) block_index_less assms(2)]
    by (intro exI[of _ "snd (sha1_transform (sha1_state ctx) buf)"])
      (simp add: SHA1_Update_def Let_def case_prod_beta sha1_compress_def buf_def d'_def)
qed

definition sha1_absorb :: "u8 list \<Rightarrow> sha1_ctx \<Rightarrow> sha1_ctx" where
  "sha1_absorb d ctx = fst (SHA1_Update d ctx)"

interpretation sha1_stream: stream_hash sha1_compress sha1_view sha1_absorb
proof (unfold_locales, goal_cases)
  case (1 c d)
  then show ?case
    using block_index_less[of "sha1_count c"] SHA1_Update_long[of c d]
    by (cases "length d < 64 - block_index (sha1_count c)")
      (auto simp: sha1_absorb_def sha1_view_def SHA1_Update_short blocks_fill)
next
  case (2 d c)
  show ?case by (simp add: sha1_absorb_def sha1_view_def)
next
  case (3 c d)
  then show ?case
    using block_index_less[of "sha1_count c"] SHA1_Update_long[of c d] overwrite_rest
    by (cases "length d < 64 - block_index (sha1_count c)")
      (auto simp: sha1_absorb_def sha1_view_def SHA1_Update_short overwrite_short)
next
  case (4 c d)
  let ?i = "block_index (sha1_count c)"
  show ?case
  proof (cases "length d < 64 - ?i")
    case True
    with 4 show ?thesis
      by (simp add: sha1_absorb_def sha1_view_def SHA1_Update_short overwrite_short rest_block_short)
  next
    case False
    with block_index_less[of "sha1_count c"] have "(?i + length d) mod 64 = length (drop (64 - ?i) d) mod 64"
      using mod_add_self2[of "?i + length d - 64" 64] by (simp add: add.commute)
    with 4 False block_index_less[of "sha1_count c"] SHA1_Update_long[of c d] show ?thesis
      by (auto simp: sha1_absorb_def sha1_view_def rest_block_fill overwrite_rest simp del: length_drop)
  qed
qed

section \<open>The message schedule in sixteen words\<close>

text \<open>The standard's compression: an 80-word schedule and one round function per step.\<close>

function fips_W :: "u32 list \<Rightarrow> nat \<Rightarrow> u32" where
  "fips_W M t = (if t < 16 then M ! t
     else rol32 (fips_W M (t - 3) XOR fips_W M (t - 8) XOR fips_W M (t - 14) XOR fips_W M (t - 16)) 1)"
  by pat_completeness auto
termination
  by (relation "measure snd") auto

declare fips_W.simps [simp del]

definition fips_f :: "nat \<Rightarrow> u32 \<Rightarrow> u32 \<Rightarrow> u32 \<Rightarrow> u32" where
  "fips_f t x y z =
    (if t < 20 then (x AND y) XOR (NOT x AND z)
     else if t < 40 then x XOR y XOR z
     else if t < 60 then (x AND y) XOR (x AND z) XOR (y AND z)
     else x XOR y XOR z)"

definition fips_K :: "nat \<Rightarrow> u32" where
  "fips_K t = (if t < 20 then 0x5A827999 else if t < 40 then 0x6ED9EBA1
     else if t < 60 then 0x8F1BBCDC else 0xCA62C1D6)"

fun fips_step :: "u32 list \<Rightarrow> sha1_vars \<Rightarrow> nat \<Rightarrow> sha1_vars" where
  "fips_step M (a, b, c, d, e) t =
    (rol32 a 5 + fips_f t b c d + e + fips_K t + fips_W M t, a, rol32 b 30, c, d)"

definition fips_compress :: "u32 list \<Rightarrow> u8 list \<Rightarrow> u32 list" where
  "fips_compress H block =
    (let M = map htonl (block_words block);
         (a, b, c, d, e) = foldl (fips_step M) (H ! 0, H ! 1, H ! 2, H ! 3, H ! 4) [0..<80]
     in [a + H ! 0, b + H ! 1, c + H ! 2, d + H ! 3, e + H ! 4])"

lemma fips_f_rounds:
  "t < 20 \<Longrightarrow> fips_f t = sha1_Ch" "20 \<le> t \<Longrightarrow> t < 40 \<Longrightarrow> fips_f t = sha1_Parity"
  "40 \<le> t \<Longrightarrow> t < 60 \<Longrightarrow> fips_f t = sha1_Maj" "60 \<le> t \<Longrightarrow> fips_f t = sha1_Parity"
  by (auto simp: fun_eq_iff fips_f_def sha1_Ch_def sha1_Parity_def sha1_Maj_def bit_simps intro!: bit_word_eqI)

lemma fips_step_mix: "fips_step M v t = sha1_mix (fips_f t) (fips_K t) (fips_W M t) v"
  by (cases v) (simp add: algebra_simps)

text \<open>
  The window invariant: before step \<open>i\<close> the word at offset \<open>t mod 16\<close> is the schedule's word
  \<open>t\<close>, for the sixteen \<open>t\<close> below \<open>i\<close>.
\<close>

definition sched_window :: "u32 list \<Rightarrow> nat \<Rightarrow> u32 list \<Rightarrow> bool" where
  "sched_window M i l \<longleftrightarrow> length l = 16 \<and> (\<forall>t. i \<le> t + 16 \<and> t < i \<longrightarrow> l ! (t mod 16) = fips_W M t)"

lemma sched_window_step:
  assumes w: "sched_window M i l" and i: "16 \<le> i"
  shows "sha1_blk i l ! (i mod 16) = fips_W M i" and "sched_window M (Suc i) (sha1_blk i l)"
proof -
  have at: "l ! ((i + k) mod 16) = fips_W M (i + k - 16)" if "k < 16" for k
  proof -
    have "(i + k) mod 16 = (i + k - 16) mod 16" using i mod_add_self2[of "i + k - 16" 16] by simp
    moreover have "l ! ((i + k - 16) mod 16) = fips_W M (i + k - 16)"
      using w i that unfolding sched_window_def by simp
    ultimately show ?thesis by simp
  qed
  have len: "length l = 16" using w by (simp add: sched_window_def)
  have new: "sha1_blk i l ! (i mod 16) = fips_W M i"
    using at[of 13] at[of 8] at[of 2] at[of 0] i len fips_W.simps[of M i] by (simp add: sha1_blk_def)
  then show "sha1_blk i l ! (i mod 16) = fips_W M i" .
  have "sha1_blk i l ! (t mod 16) = fips_W M t" if t: "Suc i \<le> t + 16" "t < Suc i" for t
  proof (cases "t = i")
    case True
    then show ?thesis using new by simp
  next
    case False
    with t have "0 < i - t" "i - t < 16" "t \<le> i" by auto
    then have "t mod 16 \<noteq> i mod 16" by (metis mod_eq_dvd_iff_nat nat_dvd_not_less)
    then show ?thesis using w t False by (simp add: sha1_blk_def sched_window_def)
  qed
  then show "sched_window M (Suc i) (sha1_blk i l)" by (simp add: sched_window_def len)
qed

lemma sched_window_R0:
  assumes "length M = 16" and "n \<le> 16"
  shows "fst (foldl sha1_R0 (v, M) [0..<n]) = foldl (fips_step (map htonl M)) v [0..<n] \<and>
    snd (foldl sha1_R0 (v, M) [0..<n]) = map htonl (take n M) @ drop n M"
  using assms(2)
proof (induction n)
  case (Suc n)
  then have n: "n < length M" and W: "fips_W (map htonl M) n = htonl (M ! n)"
    using assms(1) by (simp_all add: fips_W.simps[of _ n])
  have "(map htonl (take n M) @ drop n M)[n := htonl (M ! n)] = map htonl (take (Suc n) M) @ drop (Suc n) M"
    using n by (simp add: list_update_append take_Suc_conv_app_nth Cons_nth_drop_Suc[symmetric] min_def)
  with Suc n show ?case
    by (simp add: sha1_R0_def sha1_blk0_def Let_def fips_step_mix W fips_f_rounds(1) fips_K_def nth_append min_def)
qed simp

lemma sched_window_rounds:
  assumes R: "\<And>s i. R s i = (sha1_mix f k (sha1_blk i (snd s) ! (i mod 16)) (fst s), sha1_blk i (snd s))"
    and fk: "\<And>t. a \<le> t \<Longrightarrow> t < b \<Longrightarrow> fips_f t = f \<and> fips_K t = k"
    and "16 \<le> a" and "a \<le> n" and "n \<le> b" and "sched_window M a l"
  shows "fst (foldl R (v, l) [a..<n]) = foldl (fips_step M) v [a..<n] \<and>
    sched_window M n (snd (foldl R (v, l) [a..<n]))"
  using assms(4,5)
proof (induction n rule: dec_induct)
  case base
  show ?case using assms(6) by simp
next
  case (step n)
  let ?s = "foldl R (v, l) [a..<n]"
  from step have s: "fst ?s = foldl (fips_step M) v [a..<n]"
    and w: "sched_window M n (snd ?s)" by auto
  have u: "[a..<Suc n] = [a..<n] @ [n]" using step by simp
  have f: "fips_f n = f" "fips_K n = k" using fk step by simp_all
  have n: "16 \<le> n" using step assms(3) by simp
  show ?case
    unfolding u foldl_append foldl.simps R[of ?s n] fst_conv snd_conv s[symmetric]
      fips_step_mix[of M "fst ?s" n] f sched_window_step(1)[OF w n]
    using sched_window_step(2)[OF w n] by simp
qed

lemma upt_split: "i \<le> j \<Longrightarrow> j \<le> k \<Longrightarrow> [i..<k] = [i..<j] @ [j..<k]"
  by (metis le_Suc_ex upt_add_eq_append)

lemma sha1_rounds:
  fixes v :: sha1_vars
  assumes "length M = 16"
  defines "s \<equiv> foldl sha1_R4 (foldl sha1_R3 (foldl sha1_R2 (foldl sha1_R1 (foldl sha1_R0 (v, M) [0..<16])
    [16..<20]) [20..<40]) [40..<60]) [60..<80]"
  shows "fst s = foldl (fips_step (map htonl M)) v [0..<80]"
proof -
  let ?M = "map htonl M"
  have split: "[0..<80] = ((([0..<16] @ [16..<20]) @ [20..<40]) @ [40..<60]) @ [60..<80::nat]"
    by (simp only: upt_split[of 0 16 20] upt_split[of 0 20 40] upt_split[of 0 40 60] upt_split[of 0 60 80]
        zero_le numeral_le_iff semiring_norm)
  have r1: "\<And>s i. sha1_R1 s i = (sha1_mix sha1_Ch 0x5A827999 (sha1_blk i (snd s) ! (i mod 16)) (fst s), sha1_blk i (snd s))"
   and r2: "\<And>s i. sha1_R2 s i = (sha1_mix sha1_Parity 0x6ED9EBA1 (sha1_blk i (snd s) ! (i mod 16)) (fst s), sha1_blk i (snd s))"
   and r3: "\<And>s i. sha1_R3 s i = (sha1_mix sha1_Maj 0x8F1BBCDC (sha1_blk i (snd s) ! (i mod 16)) (fst s), sha1_blk i (snd s))"
   and r4: "\<And>s i. sha1_R4 s i = (sha1_mix sha1_Parity 0xCA62C1D6 (sha1_blk i (snd s) ! (i mod 16)) (fst s), sha1_blk i (snd s))"
    by (simp_all add: sha1_R1_def sha1_R2_def sha1_R3_def sha1_R4_def Let_def)
  define s0 where "s0 = foldl sha1_R0 (v, M) [0..<16]"
  define s1 where "s1 = foldl sha1_R1 s0 [16..<20]"
  define s2 where "s2 = foldl sha1_R2 s1 [20..<40]"
  define s3 where "s3 = foldl sha1_R3 s2 [40..<60]"
  have 0: "fst s0 = foldl (fips_step ?M) v [0..<16]" "snd s0 = ?M"
    using sched_window_R0[OF assms(1) order_refl, of v] assms(1) by (simp_all add: s0_def del: upt_rec_numeral)
  have w: "sched_window ?M 16 (snd s0)" using assms(1) by (simp add: 0(2) sched_window_def fips_W.simps)
  have 1: "fst s1 = foldl (fips_step ?M) (fst s0) [16..<20] \<and> sched_window ?M 20 (snd s1)"
    using sched_window_rounds[OF r1, of 16 20 20 ?M "snd s0" "fst s0"] w
    by (simp add: s1_def fips_f_rounds fips_K_def fun_eq_iff del: upt_rec_numeral)
  have 2: "fst s2 = foldl (fips_step ?M) (fst s1) [20..<40] \<and> sched_window ?M 40 (snd s2)"
    using sched_window_rounds[OF r2, of 20 40 40 ?M "snd s1" "fst s1"] conjunct2[OF 1]
    by (simp add: s2_def fips_f_rounds fips_K_def del: upt_rec_numeral)
  have 3: "fst s3 = foldl (fips_step ?M) (fst s2) [40..<60] \<and> sched_window ?M 60 (snd s3)"
    using sched_window_rounds[OF r3, of 40 60 60 ?M "snd s2" "fst s2"] conjunct2[OF 2]
    by (simp add: s3_def fips_f_rounds fips_K_def del: upt_rec_numeral)
  have 4: "fst s = foldl (fips_step ?M) (fst s3) [60..<80]"
    using sched_window_rounds[OF r4, of 60 80 80 ?M "snd s3" "fst s3"] conjunct2[OF 3]
    by (simp add: s_def s0_def[symmetric] s1_def[symmetric] s2_def[symmetric] s3_def[symmetric]
       fips_f_rounds fips_K_def del: upt_rec_numeral)
  show ?thesis
    by (simp only: split foldl_append 0(1) conjunct1[OF 1] conjunct1[OF 2] conjunct1[OF 3] 4)
qed

lemma sha1_compress_fips:
  assumes "length block = 64"
  shows "sha1_compress H block = fips_compress H block"
proof -
  have "length (block_words block) = 16" using assms by (simp add: length_block_words)
  note r = sha1_rounds[OF this, of "(H ! 0, H ! 1, H ! 2, H ! 3, H ! 4)"]
  show ?thesis
    by (simp only: sha1_compress_def sha1_transform_def fips_compress_def Let_def case_prod_beta fst_conv r add.commute)
qed

lemma foldl_blocks_fips: "foldl sha1_compress H (blocks 64 m) = foldl fips_compress H (blocks 64 m)"
  by (rule foldl_cong) (simp_all add: sha1_compress_fips blocks_length)
section \<open>The digest\<close>

definition sha1_iv :: "u32 list" where
  "sha1_iv = [0x67452301, 0xEFCDAB89, 0x98BADCFE, 0x10325476, 0xC3D2E1F0]"

text \<open>The digest of a message, as FIPS 180-4 defines it.\<close>

definition sha1_padded :: "u8 list \<Rightarrow> u8 list" where
  "sha1_padded m = m @ 0x80 # replicate (pad_zeros (length m)) 0 @
     be_bytes32 (word_of_nat (8 * length m div 2 ^ 32)) @ be_bytes32 (word_of_nat (8 * length m))"

definition sha1_ref :: "u8 list \<Rightarrow> u8 list" where
  "sha1_ref m = concat (map be_bytes32 (foldl fips_compress sha1_iv (blocks 64 (sha1_padded m))))"

lemma fips_compress_length: "length H = 5 \<Longrightarrow> length (foldl fips_compress H bs) = 5"
proof (induction bs arbitrary: H)
  case (Cons b bs)
  have "length (fips_compress H b) = 5" by (simp only: fips_compress_def Let_def case_prod_beta) simp
  with Cons show ?case by simp
qed simp

lemma sha1_init_absorbed:
  "length (sha1_buffer ctx) = 64 \<Longrightarrow> absorbed sha1_compress sha1_iv [] (sha1_view (SHA1_Init ctx))"
  by (simp add: absorbed_def sha1_view_def SHA1_Init_def sha1_iv_def bit_count_def rest_block_def)

lemma sha1_pad_loop_absorbed:
  assumes "absorbed sha1_compress iv m (sha1_view c)" and "k = length m mod 64"
  shows "absorbed sha1_compress iv (m @ replicate (if k \<le> 56 then 56 - k else 120 - k) 0) (sha1_view (sha1_pad_loop c))"
  using assms
proof (induction c arbitrary: m k rule: sha1_pad_loop.induct)
  case (1 ctx)
  have idx: "block_index (sha1_count ctx) = k"
    using absorbed_index[OF "1.prems"(1)] "1.prems"(2) by (simp add: sha1_view_def)
  show ?case
  proof (cases "k = 56")
    case True
    with 1 idx show ?thesis by (simp add: sha1_pad_loop.simps[of ctx] count_and_504)
  next
    case False
    let ?n = "Suc k mod 64"
    have k: "k < 64" using "1.prems"(2) by simp
    have "absorbed sha1_compress iv (m @ [0]) (sha1_view (fst (SHA1_Update [0] ctx)))"
      using sha1_stream.absorbed_upd[OF "1.prems"(1), of "[0]"] by (simp add: sha1_absorb_def)
    moreover have "?n = length (m @ [0]) mod 64" using "1.prems"(2) by (simp add: mod_Suc_eq)
    moreover have "fst (sha1_count ctx) AND 504 \<noteq> 448" using False idx by (simp add: count_and_504)
    ultimately have A: "absorbed sha1_compress iv ((m @ [0]) @ replicate (if ?n \<le> 56 then 56 - ?n else 120 - ?n) 0)
        (sha1_view (sha1_pad_loop ctx))"
      by (subst sha1_pad_loop.simps) (simp only: if_True not_False_eq_True "1.IH")
    have "Suc (if ?n \<le> 56 then 56 - ?n else 120 - ?n) = (if k \<le> 56 then 56 - k else 120 - k)"
      using k False by (cases "k = 63") auto
    from A[unfolded append.assoc append_Cons append_Nil, folded replicate_Suc, unfolded this]
    show ?thesis .
  qed
qed

lemma sha1_final_absorbed:
  assumes m: "absorbed sha1_compress sha1_iv m (sha1_view c)"
  shows "fst (SHA1_Final c) = sha1_ref m"
proof -
  let ?fc = "be_bytes32 (snd (sha1_count c)) @ be_bytes32 (fst (sha1_count c))"
  let ?c3 = "fst (SHA1_Update ?fc (sha1_pad_loop (fst (SHA1_Update [0x80] c))))"
  let ?k = "length (m @ [0x80 :: u8]) mod 64" and ?j = "length m mod 64"
  have cnt: "bit_count (sha1_count c) = 8 * length m mod 2 ^ 64"
    using m by (simp add: absorbed_def sha1_view_def)
  have "absorbed sha1_compress sha1_iv (m @ [0x80]) (sha1_view (fst (SHA1_Update [0x80] c)))"
    using sha1_stream.absorbed_upd[OF m, of "[0x80]"] by (simp add: sha1_absorb_def)
  note sha1_pad_loop_absorbed[OF this refl]
  moreover have "pad_zeros (length m) = (if ?k \<le> 56 then 56 - ?k else 120 - ?k)"
  proof -
    have "?k = (if ?j = 63 then 0 else Suc ?j)" by (simp add: mod_Suc)
    with pad_zeros_index[OF refl, of "length m"] show ?thesis by (simp split: if_splits)
  qed
  ultimately have "absorbed sha1_compress sha1_iv ((m @ [0x80]) @ replicate (pad_zeros (length m)) 0)
      (sha1_view (sha1_pad_loop (fst (SHA1_Update [0x80] c))))" by simp
  from sha1_stream.absorbed_upd[OF this, of ?fc]
  have "absorbed sha1_compress sha1_iv (sha1_padded m) (sha1_view ?c3)"
    by (simp add: sha1_absorb_def be_bytes32_def sha1_padded_def bit_count_words[OF cnt])
  from sha1_stream.absorbed_state[OF this]
  have "sha1_state ?c3 = foldl fips_compress sha1_iv (blocks 64 (sha1_padded m))"
    by (simp add: sha1_view_def foldl_blocks_fips)
  moreover have "length sha1_iv = 5" by (simp add: sha1_iv_def)
  ultimately show ?thesis
    by (simp add: SHA1_Final_def Let_def sha1_ref_def fips_compress_length)
qed

text \<open>C28. The SHA-1 class computes the SHA-1 of FIPS 180-4: after \<open>reset\<close>, whatever the object
  held before, and any sequence of \<open>update\<close> calls, \<open>value\<close> is the digest the standard defines for
  the concatenated input. The sixteen-word schedule overwritten in place, the rotating register names
  of the unrolled rounds, buffering across calls and byte-by-byte padding are all covered.\<close>

theorem sha1_stream_correct:
  assumes "length (sha1_buffer ctx) = 64" and "list_all (\<lambda>d. length d < 2 ^ 31) pieces"
  shows "fst (sha1_value (foldl (\<lambda>c d. fst (sha1_update d c)) (sha1_reset ctx) pieces)) = sha1_ref (concat pieces)"
proof -
  have "absorbed sha1_compress sha1_iv (concat pieces)
      (sha1_view (foldl (\<lambda>c d. sha1_absorb d c) (SHA1_Init ctx) pieces))"
    using sha1_init_absorbed[OF assms(1)] assms(2)
    by (intro sha1_stream.absorbed_stream) (auto simp: list_all_iff)
  then show ?thesis
    by (simp add: sha1_value_def sha1_reset_def sha1_update_def sha1_absorb_def sha1_final_absorbed)
qed

definition sha1_sample :: sha1_ctx where
  "sha1_sample = \<lparr>sha1_state = [7, 7, 7, 7, 7], sha1_count = (5, 6), sha1_buffer = replicate 64 9\<rparr>"

theorem sha1_stream_correct_witness:
  "fst (sha1_value (foldl (\<lambda>c d. fst (sha1_update d c)) (sha1_reset sha1_sample) [[0x61], [0x62, 0x63]])) =
   sha1_ref [0x61, 0x62, 0x63]"
proof -
  have "length (sha1_buffer sha1_sample) = 64" by (simp add: sha1_sample_def)
  from sha1_stream_correct[OF this, of "[[0x61], [0x62, 0x63]]"] show ?thesis by auto
qed

end
