(* ===== verification/Base64.thy ===== *)
theory Base64
  imports Prelude "HOL-Library.Char_ord"
begin

text \<open>
  \<open>tdk::crypto::base64\<close> (\<open>src/tdk/crypto/base64.cpp\<close>). A \<open>std::string\<close> is the list of its
  bytes; \<open>char\<close> is signed, so a byte of 128 or more is a negative \<open>int\<close>. A read or a write
  outside an array is undefined in C++: the decoder's result is \<open>None\<close> there.
\<close>

section \<open>The code\<close>

definition b64_table :: "u8 list" where
  "b64_table = map of_char ''ABCDEFGHIJKLMNOPQRSTUVWXYZabcdefghijklmnopqrstuvwxyz0123456789+/''"

definition reverse_table :: "u32 list" where
  "reverse_table = [
   64, 64, 64, 64, 64, 64, 64, 64, 64, 64, 64, 64, 64, 64, 64, 64,
   64, 64, 64, 64, 64, 64, 64, 64, 64, 64, 64, 64, 64, 64, 64, 64,
   64, 64, 64, 64, 64, 64, 64, 64, 64, 64, 64, 62, 64, 64, 64, 63,
   52, 53, 54, 55, 56, 57, 58, 59, 60, 61, 64, 64, 64, 64, 64, 64,
   64,  0,  1,  2,  3,  4,  5,  6,  7,  8,  9, 10, 11, 12, 13, 14,
   15, 16, 17, 18, 19, 20, 21, 22, 23, 24, 25, 64, 64, 64, 64, 64,
   64, 26, 27, 28, 29, 30, 31, 32, 33, 34, 35, 36, 37, 38, 39, 40,
   41, 42, 43, 44, 45, 46, 47, 48, 49, 50, 51, 64, 64, 64, 64, 64]"

text \<open>\<open>while (bits_collected >= 6)\<close>: write out the sextets that are complete.\<close>

function b64_emit :: "u32 \<Rightarrow> nat \<Rightarrow> u8 list \<Rightarrow> nat \<Rightarrow> u8 list \<times> nat \<times> nat" where
  "b64_emit accumulator bits retval outpos =
    (if 6 \<le> bits
     then b64_emit accumulator (bits - 6)
       (retval[outpos := b64_table ! unat (drop_bit (bits - 6) accumulator AND 0x3F)]) (outpos + 1)
     else (retval, outpos, bits))"
  by pat_completeness auto
termination
  by (relation "measure (\<lambda>(acc, bits, _). bits)") auto

declare b64_emit.simps [simp del]

fun b64_encode_loop :: "u8 list \<Rightarrow> u32 \<Rightarrow> nat \<Rightarrow> u8 list \<Rightarrow> nat \<Rightarrow> u8 list \<times> nat \<times> nat \<times> u32" where
  "b64_encode_loop [] accumulator bits retval outpos = (retval, outpos, bits, accumulator)"
| "b64_encode_loop (x # buffer) accumulator bits retval outpos =
    (let acc = push_bit 8 accumulator OR (ucast x AND 0xFF);
         (retval', outpos', bits') = b64_emit acc (bits + 8) retval outpos
     in b64_encode_loop buffer acc bits' retval' outpos')"

definition b64_encode :: "u8 list \<Rightarrow> u8 list" where
  "b64_encode buffer =
    (if 1024968 < length buffer then []
     else
       let (retval, outpos, bits, acc) =
             b64_encode_loop buffer 0 0 (replicate ((length buffer + 2) div 3 * 4) 0x3D) 0
       in if 0 < bits
          then retval[outpos := b64_table ! unat (push_bit (6 - bits) acc AND 0x3F)]
          else retval)"

definition c_isspace :: "u8 \<Rightarrow> bool" where
  "c_isspace c \<longleftrightarrow> c = 32 \<or> (9 \<le> c \<and> c \<le> 13)"

text \<open>
  The test for characters outside the alphabet has an empty body: such a character goes on to
  the table, where one below 128 contributes the value 64 and one above reads out of bounds.
\<close>

fun b64_decode_loop :: "u8 list \<Rightarrow> nat \<Rightarrow> nat \<Rightarrow> u32 \<Rightarrow> u8 list \<Rightarrow> (nat \<times> u8 list) option" where
  "b64_decode_loop [] index bits accumulator buffer = Some (index, buffer)"
| "b64_decode_loop (c # src) index bits accumulator buffer =
    (if c_isspace c \<or> c = 0x3D then b64_decode_loop src index bits accumulator buffer
     else if 128 \<le> unat c then None
     else
       let acc = push_bit 6 accumulator OR reverse_table ! unat c
       in if 8 \<le> bits + 6
          then if index < length buffer
               then b64_decode_loop src (index + 1) (bits + 6 - 8) acc
                 (buffer[index := ucast (drop_bit (bits + 6 - 8) acc AND 0xFF)])
               else None
          else b64_decode_loop src index (bits + 6) acc buffer)"

definition b64_decode :: "u8 list \<Rightarrow> u8 list \<Rightarrow> nat \<Rightarrow> (nat \<times> u8 list) option" where
  "b64_decode src ptr sz = b64_decode_loop src 0 0 0 ptr"

section \<open>The encoding of RFC 4648\<close>

definition sextet :: "u8 \<Rightarrow> u8" where
  "sextet k = b64_table ! unat k"

fun b64_ref :: "u8 list \<Rightarrow> u8 list" where
  "b64_ref [] = []"
| "b64_ref [a] = [sextet (drop_bit 2 a), sextet (push_bit 4 (a AND 3)), 0x3D, 0x3D]"
| "b64_ref [a, b] = [sextet (drop_bit 2 a), sextet (push_bit 4 (a AND 3) OR drop_bit 4 b),
     sextet (push_bit 2 (b AND 15)), 0x3D]"
| "b64_ref (a # b # c # m) = [sextet (drop_bit 2 a), sextet (push_bit 4 (a AND 3) OR drop_bit 4 b),
     sextet (push_bit 2 (b AND 15) OR drop_bit 6 c), sextet (c AND 63)] @ b64_ref m"

section \<open>Sextets of the accumulator\<close>

lemma mask_numerals:
  "(0x3F :: 'a::len word) = mask 6" "(0xFF :: 'a::len word) = mask 8" "(3 :: 'a::len word) = mask 2"
  "(15 :: 'a::len word) = mask 4" "(63 :: 'a::len word) = mask 6"
  by (simp_all add: mask_eq_exp_minus_1)

lemma unat_ucast_eqI: "(x :: u32) = ucast (y :: u8) \<Longrightarrow> unat x = unat y"
  by (simp add: unat_ucast_u8_u32)

definition acc8 :: "u32 \<Rightarrow> u8 \<Rightarrow> u32" where
  "acc8 acc x = push_bit 8 acc OR (ucast x AND 0xFF)"

lemma sextets_of_acc:
  "unat (drop_bit 2 (acc8 acc a) AND 0x3F) = unat (drop_bit 2 a)"
  "unat (push_bit 4 (acc8 acc a) AND 0x3F) = unat (push_bit 4 (a AND 3))"
  "unat (drop_bit 4 (acc8 (acc8 acc a) b) AND 0x3F) = unat (push_bit 4 (a AND 3) OR drop_bit 4 b)"
  "unat (push_bit 2 (acc8 acc b) AND 0x3F) = unat (push_bit 2 (b AND 15))"
  "unat (drop_bit 6 (acc8 (acc8 acc b) c) AND 0x3F) = unat (push_bit 2 (b AND 15) OR drop_bit 6 c)"
  "unat (acc8 acc c AND 0x3F) = unat (c AND 63)"
  unfolding acc8_def mask_numerals
  by (rule unat_ucast_eqI, rule bit_word_eqI, auto simp: bit_simps dest: bit_imp_le_length)+

section \<open>Encoding and decoding\<close>

lemma b64_table_bytes: "b64_table = [
     65, 66, 67, 68, 69, 70, 71, 72, 73, 74, 75, 76, 77, 78, 79, 80,
     81, 82, 83, 84, 85, 86, 87, 88, 89, 90, 97, 98, 99, 100, 101, 102,
     103, 104, 105, 106, 107, 108, 109, 110, 111, 112, 113, 114, 115, 116, 117, 118,
     119, 120, 121, 122, 48, 49, 50, 51, 52, 53, 54, 55, 56, 57, 43, 47]"
  by (simp add: b64_table_def)

lemma b64_table_ok:
  "list_all (\<lambda>k. let c = b64_table ! k in
     \<not> c_isspace c \<and> c \<noteq> 0x3D \<and> unat c < 128 \<and> reverse_table ! unat c = word_of_nat k) [0..<64]"
  by (simp add: upt_conv_Cons b64_table_bytes reverse_table_def c_isspace_def Let_def)

lemma b64_alphabet:
  assumes "unat k < 64"
  shows "\<not> c_isspace (sextet k) \<and> sextet k \<noteq> 0x3D \<and> unat (sextet k) < 128 \<and>
    reverse_table ! unat (sextet k) = ucast k"
proof -
  have "unat k \<in> set [0..<64]" using assms by simp
  then show ?thesis
    using b64_table_ok by (simp only: list_all_iff Let_def sextet_def) (simp add: unsigned_ucast_eq)
qed

lemma list_update_fill: "0 < k \<Longrightarrow> (out @ replicate k x)[length out := c] = (out @ [c]) @ replicate (k - 1) x"
  by (cases k) (simp_all add: list_update_append)

lemma b64_emit_steps:
  "b64_emit acc 8 r p = (r[p := b64_table ! unat (drop_bit 2 acc AND 0x3F)], p + 1, 2)"
  "b64_emit acc 10 r p = (r[p := b64_table ! unat (drop_bit 4 acc AND 0x3F)], p + 1, 4)"
  "b64_emit acc 12 r p = (r[p := b64_table ! unat (drop_bit 6 acc AND 0x3F),
     p + 1 := b64_table ! unat (acc AND 0x3F)], p + 2, 0)"
  by (simp_all add: b64_emit.simps)

lemma b64_encode_loop_0: 
  "b64_encode_loop (x # m) acc 0 r p = b64_encode_loop m (acc8 acc x) 2
     (r[p := sextet (drop_bit 2 x)]) (p + 1)"
  by (simp add: b64_emit_steps sextets_of_acc acc8_def[symmetric] sextet_def)

lemma b64_encode_loop_2: 
  "b64_encode_loop (y # m) (acc8 acc x) 2 r p = b64_encode_loop m (acc8 (acc8 acc x) y) 4
     (r[p := sextet (push_bit 4 (x AND 3) OR drop_bit 4 y)]) (p + 1)"
  by (simp add: b64_emit_steps sextets_of_acc acc8_def[of "acc8 acc x", symmetric] sextet_def)

lemma b64_encode_loop_4: 
  "b64_encode_loop (z # m) (acc8 acc y) 4 r p = b64_encode_loop m (acc8 (acc8 acc y) z) 0
     (r[p := sextet (push_bit 2 (y AND 15) OR drop_bit 6 z), p + 1 := sextet (z AND 63)]) (p + 2)"
  by (simp add: b64_emit_steps sextets_of_acc acc8_def[of "acc8 acc y", symmetric] sextet_def)

definition b64_flush :: "u8 list \<times> nat \<times> nat \<times> u32 \<Rightarrow> u8 list" where
  "b64_flush s = (case s of (retval, outpos, bits, acc) \<Rightarrow>
     if 0 < bits then retval[outpos := b64_table ! unat (push_bit (6 - bits) acc AND 0x3F)] else retval)"

lemma b64_flush_simps:
  "b64_flush (r, p, 0, acc) = r"
  "b64_flush (r, p, 2, acc8 acc a) = r[p := sextet (push_bit 4 (a AND 3))]"
  "b64_flush (r, p, 4, acc8 acc a) = r[p := sextet (push_bit 2 (a AND 15))]"
  by (simp_all add: b64_flush_def sextets_of_acc sextet_def)

lemma b64_encode_ref_gen:
  "k = (length m + 2) div 3 * 4 \<Longrightarrow>
   b64_flush (b64_encode_loop m acc 0 (out @ replicate k 0x3D) (length out)) = out @ b64_ref m"
proof (induction m arbitrary: acc out k rule: b64_ref.induct)
  case 1
  then show ?case by (simp add: b64_flush_simps)
next
  case (2 a)
  then have k: "k = Suc (Suc (Suc (Suc 0)))" by simp
  then show ?case
    by (simp add: b64_encode_loop_0 b64_flush_simps k list_update_append del: b64_encode_loop.simps(2))
next
  case (3 a b)
  then have k: "k = Suc (Suc (Suc (Suc 0)))" by simp
  then show ?case
    by (simp add: b64_encode_loop_0 b64_encode_loop_2 b64_flush_simps k list_update_append
       del: b64_encode_loop.simps(2))
next
  case (4 a b c m)
  let ?k = "(length m + 2) div 3 * 4"
  have k: "k = Suc (Suc (Suc (Suc ?k)))" using "4.prems" div_add_self2[of 3 "length m + 2"] by simp
  let ?out = "out @ [sextet (drop_bit 2 a), sextet (push_bit 4 (a AND 3) OR drop_bit 4 b),
     sextet (push_bit 2 (b AND 15) OR drop_bit 6 c), sextet (c AND 63)]"
  have "b64_encode_loop (a # b # c # m) acc 0 (out @ replicate k 0x3D) (length out) =
     b64_encode_loop m (acc8 (acc8 (acc8 acc a) b) c) 0 (?out @ replicate ?k 0x3D) (length ?out)"
    by (simp add: b64_encode_loop_0 b64_encode_loop_2 b64_encode_loop_4 k list_update_append
       del: b64_encode_loop.simps(2))
  then show ?case by (simp only: "4.IH" refl) simp
qed

definition dec6 :: "u32 \<Rightarrow> u8 \<Rightarrow> u32" where
  "dec6 acc k = push_bit 6 acc OR ucast k"

lemma b64_decode_loop_sextet:
  assumes "unat k < 64"
  shows "b64_decode_loop (sextet k # src) index bits acc buf =
    (if 8 \<le> bits + 6
     then if index < length buf
          then b64_decode_loop src (index + 1) (bits + 6 - 8) (dec6 acc k)
            (buf[index := ucast (drop_bit (bits + 6 - 8) (dec6 acc k) AND 0xFF)])
          else None
     else b64_decode_loop src index (bits + 6) (dec6 acc k) buf)"
  using b64_alphabet[OF assms] by (simp add: Let_def dec6_def del: b64_decode_loop.simps) (simp add: Let_def)

lemma b64_decode_loop_end: "b64_decode_loop (0x3D # src) index bits acc buf = b64_decode_loop src index bits acc buf"
  by simp

lemma u8_eqI:
  assumes "\<And>n. n \<in> {0, 1, 2, 3, 4, 5, 6, 7} \<Longrightarrow> bit x n = bit (y :: u8) n"
  shows "x = y"
proof (rule bit_word_eqI)
  fix n assume "n < LENGTH(8)"
  then have "n \<in> {0, 1, 2, 3, 4, 5, 6, 7}" by auto
  then show "bit x n = bit y n" by (rule assms)
qed

lemma u8_high_bit: "8 \<le> n \<Longrightarrow> bit (x :: u8) n = False"
  by (auto dest: bit_imp_le_length)

lemma bytes_of_sextets:
  "ucast (drop_bit 4 (dec6 (dec6 acc (drop_bit 2 a)) (push_bit 4 (a AND 3) OR drop_bit 4 b)) AND 0xFF) = a"
  "ucast (drop_bit 4 (dec6 (dec6 acc (drop_bit 2 a)) (push_bit 4 (a AND 3))) AND 0xFF) = a"
  "ucast (drop_bit 2 (dec6 (dec6 acc (push_bit 4 (a AND 3) OR drop_bit 4 b)) (push_bit 2 (b AND 15))) AND 0xFF) = b"
  "ucast (drop_bit 2 (dec6 (dec6 acc (push_bit 4 (a AND 3) OR drop_bit 4 b)) (push_bit 2 (b AND 15) OR drop_bit 6 c)) AND 0xFF) = b"
  "ucast (dec6 (dec6 acc (push_bit 2 (b AND 15) OR drop_bit 6 c)) (c AND 63) AND 0xFF) = c"
  unfolding dec6_def mask_numerals
  by (rule u8_eqI, elim insertE emptyE, simp_all add: bit_simps u8_high_bit numeral_2_eq_2[symmetric])+

lemma sextet_range:
  "unat (drop_bit 2 (a :: u8)) < 64" "unat (push_bit 4 (a AND 3) :: u8) < 64"
  "unat (push_bit 4 (a AND 3) OR drop_bit 4 b :: u8) < 64" "unat (push_bit 2 (b AND 15) :: u8) < 64"
  "unat (push_bit 2 (b AND 15) OR drop_bit 6 c :: u8) < 64" "unat (c AND 63 :: u8) < 64"
proof -
  have r: "unat x < 64" if "take_bit 6 x = x" for x :: u8
  proof -
    have "unat (take_bit 6 x) < 2 ^ 6" by (simp only: unsigned_take_bit_eq take_bit_nat_less_exp)
    with that have "unat x < 2 ^ 6" by metis
    then show ?thesis by simp
  qed
  show "unat (drop_bit 2 (a :: u8)) < 64" "unat (push_bit 4 (a AND 3) :: u8) < 64"
    "unat (push_bit 4 (a AND 3) OR drop_bit 4 b :: u8) < 64" "unat (push_bit 2 (b AND 15) :: u8) < 64"
    "unat (push_bit 2 (b AND 15) OR drop_bit 6 c :: u8) < 64" "unat (c AND 63 :: u8) < 64"
    unfolding mask_numerals
    by (rule r, rule bit_word_eqI, auto simp: bit_simps dest: bit_imp_le_length)+
qed

lemma b64_decode_ref_gen:
  "length m \<le> length r \<Longrightarrow>
   b64_decode_loop (b64_ref m) (length out) 0 acc (out @ r) = Some (length out + length m, out @ m @ drop (length m) r)"
proof (induction m arbitrary: acc out r rule: b64_ref.induct)
  case 1
  show ?case by simp
next
  case (2 a)
  then obtain x r' where r: "r = x # r'" by (cases r) auto
  show ?case
    by (simp add: r b64_decode_loop_sextet sextet_range bytes_of_sextets b64_decode_loop_end list_update_append
      del: b64_decode_loop.simps(2) push_bit_and)
next
  case (3 a b)
  then obtain x y r' where r: "r = x # y # r'" by (cases r; cases "tl r") auto
  show ?case
    by (simp add: r b64_decode_loop_sextet sextet_range bytes_of_sextets b64_decode_loop_end list_update_append
      del: b64_decode_loop.simps(2) push_bit_and)
next
  case (4 a b c m)
  then obtain x y z r' where r: "r = x # y # z # r'" by (cases r; cases "tl r"; cases "tl (tl r)") auto
  have "b64_decode_loop (b64_ref (a # b # c # m)) (length out) 0 acc (out @ r) =
    b64_decode_loop (b64_ref m) (length (out @ [a, b, c])) 0
      (dec6 (dec6 (dec6 (dec6 acc (drop_bit 2 a)) (push_bit 4 (a AND 3) OR drop_bit 4 b))
        (push_bit 2 (b AND 15) OR drop_bit 6 c)) (c AND 63)) ((out @ [a, b, c]) @ r')"
    by (simp add: r b64_decode_loop_sextet sextet_range bytes_of_sextets list_update_append
      del: b64_decode_loop.simps(2) push_bit_and)
  also have "\<dots> = Some (length (out @ [a, b, c]) + length m, (out @ [a, b, c]) @ m @ drop (length m) r')"
    by (rule "4.IH") (use 4 r in simp)
  finally show ?case by (simp add: r)
qed

section \<open>Properties\<close>

lemma b64_encode_ref: "b64_encode m = (if 1024968 < length m then [] else b64_ref m)"
  using b64_encode_ref_gen[OF refl, of m 0 "[]"]
  by (auto simp: b64_encode_def b64_flush_def Let_def split: prod.splits)

text \<open>The encoder computes the encoding of RFC 4648 for every message it accepts: the sextets
  of each three bytes, and the padding of the last group, with no write outside the string it
  allocates.\<close>

theorem b64_encode_correct:
  "b64_encode m = (if 1024968 < length m then [] else b64_ref m)"
  by (rule b64_encode_ref)

text \<open>C30. Decoding what the encoder returns gives the message back, in a buffer that holds it: the
  result is the message's length, the bytes before it are the message and the rest of the buffer
  is untouched.\<close>

theorem b64_decode_encode:
  assumes "length m \<le> 1024968" and "length m \<le> length buf"
  shows "b64_decode (b64_encode m) buf n = Some (length m, overwrite 0 m buf)"
  using b64_decode_ref_gen[OF assms(2), of "[]"] assms(1)
  by (simp add: b64_decode_def b64_encode_ref overwrite_def)

theorem b64_decode_encode_witness:
  "b64_decode (b64_encode [0x66, 0x6F]) [0, 0, 7] 0 = Some (2, [0x66, 0x6F, 7]) \<and>
   b64_encode [0x66, 0x6F] = map of_char ''Zm8=''"
  using b64_decode_encode[of "[0x66, 0x6F]" "[0, 0, 7]" 0]
  by (simp add: overwrite_def b64_encode_ref sextet_def b64_table_bytes)

end
