(* ===== verification/Buffer_Base.thy ===== *)
theory Buffer_Base
  imports Prelude "HOL-Library.Multiset"
begin

text \<open>
  \<open>tdk::buffer::buffer_base\<close> (\<open>src/tdk/buffer/buffer_base.cpp\<close>): a block of memory with a
  reference count in front of it, shared by the objects copied from one another. The store
  holds the blocks taken from the allocator (count and bytes; the four bytes of the count are
  not part of the bytes) and the caller's buffers that an object may wrap. Reading or
  releasing a block that is not allocated is \<open>Undefined\<close>. An allocation always succeeds, as the
  code assumes; what fresh memory contains is arbitrary (\<open>hjunk\<close>).
\<close>

section \<open>The store and the objects\<close>

datatype ptr = NullP | ExtP nat | BlkP nat

record mblock =
  bcount :: int
  bdata :: "u8 list"

record heap =
  hblocks :: "nat \<rightharpoonup> mblock"
  hext :: "nat \<rightharpoonup> u8 list"
  hnext :: nat
  hjunk :: "nat \<Rightarrow> nat \<Rightarrow> u8"

record buffer_base =
  bb_base :: ptr
  bb_size :: nat
  bb_alloc :: bool

datatype cpp_exception = Invalid_argument

datatype 'a outcome = Returns 'a | Throws cpp_exception | Undefined

section \<open>Operations\<close>

definition bb_new :: "nat \<Rightarrow> heap \<Rightarrow> heap \<times> buffer_base" where
  "bb_new sz h =
    (let b = hnext h;
         h1 = h\<lparr>hblocks := (hblocks h)(b \<mapsto> \<lparr>bcount = 0, bdata = map (hjunk h b) [0..<sz]\<rparr>), hnext := b + 1\<rparr>;
         h2 = h1\<lparr>hblocks := (hblocks h1)(b \<mapsto> \<lparr>bcount = 1, bdata = map (hjunk h b) [0..<sz]\<rparr>)\<rparr>
     in (h2, \<lparr>bb_base = BlkP b, bb_size = sz, bb_alloc = True\<rparr>))"

text \<open>Wrapping the caller's memory, without an allocator: nothing is counted.\<close>

definition bb_wrap :: "nat \<Rightarrow> nat \<Rightarrow> buffer_base" where
  "bb_wrap e sz = \<lparr>bb_base = ExtP e, bb_size = sz, bb_alloc = False\<rparr>"

definition bb_counter :: "heap \<Rightarrow> buffer_base \<Rightarrow> mblock option" where
  "bb_counter h x = (case bb_base x of BlkP b \<Rightarrow> hblocks h b | _ \<Rightarrow> None)"

definition bb_add_ref :: "heap \<Rightarrow> buffer_base \<Rightarrow> heap outcome" where
  "bb_add_ref h x =
    (if bb_alloc x
     then case bb_base x of
         BlkP b \<Rightarrow> (case hblocks h b of
             Some m \<Rightarrow> Returns (h\<lparr>hblocks := (hblocks h)(b \<mapsto> m\<lparr>bcount := bcount m + 1\<rparr>)\<rparr>)
           | None \<Rightarrow> Undefined)
       | _ \<Rightarrow> Undefined
     else Returns h)"

definition bb_dec_ref :: "heap \<Rightarrow> buffer_base \<Rightarrow> (heap \<times> buffer_base) outcome" where
  "bb_dec_ref h x =
    (if bb_alloc x
     then case bb_base x of
         BlkP b \<Rightarrow> (case hblocks h b of
             Some m \<Rightarrow>
               if bcount m = 1
               then Returns (h\<lparr>hblocks := (hblocks h)(b := None)\<rparr>, x\<lparr>bb_alloc := False, bb_base := NullP\<rparr>)
               else Returns (h\<lparr>hblocks := (hblocks h)(b \<mapsto> m\<lparr>bcount := bcount m - 1\<rparr>)\<rparr>, x)
           | None \<Rightarrow> Undefined)
       | _ \<Rightarrow> Undefined
     else Returns (h, x))"

definition bb_destroy :: "heap \<Rightarrow> buffer_base \<Rightarrow> heap outcome" where
  "bb_destroy h x = (case bb_dec_ref h x of
      Returns (h', _) \<Rightarrow> Returns h' | Throws e \<Rightarrow> Throws e | Undefined \<Rightarrow> Undefined)"

definition bb_copy :: "heap \<Rightarrow> buffer_base \<Rightarrow> (heap \<times> buffer_base) outcome" where
  "bb_copy h rhs =
    (let this = \<lparr>bb_base = bb_base rhs, bb_size = bb_size rhs, bb_alloc = bb_alloc rhs\<rparr>
     in if \<not> bb_alloc rhs then Throws Invalid_argument
        else case bb_add_ref h this of
            Returns h' \<Rightarrow> Returns (h', this) | Throws e \<Rightarrow> Throws e | Undefined \<Rightarrow> Undefined)"

definition bb_swap :: "buffer_base \<Rightarrow> buffer_base \<Rightarrow> buffer_base \<times> buffer_base" where
  "bb_swap this rhs = (rhs, this)"

definition bb_assign :: "heap \<Rightarrow> buffer_base \<Rightarrow> buffer_base \<Rightarrow> (heap \<times> buffer_base) outcome" where
  "bb_assign h this rhs =
    (if \<not> bb_alloc rhs then Throws Invalid_argument
     else case bb_copy h rhs of
         Returns (h1, new) \<Rightarrow>
           (let (this', new') = bb_swap this new
            in case bb_destroy h1 new' of
                Returns h2 \<Rightarrow> Returns (h2, this') | Throws e \<Rightarrow> Throws e | Undefined \<Rightarrow> Undefined)
       | Throws e \<Rightarrow> Throws e | Undefined \<Rightarrow> Undefined)"

definition bb_empty :: buffer_base where
  "bb_empty = \<lparr>bb_base = NullP, bb_size = 0, bb_alloc = False\<rparr>"

text \<open>The moved-to object, and what is left of the source.\<close>

definition bb_move :: "buffer_base \<Rightarrow> buffer_base \<times> buffer_base" where
  "bb_move rhs = (\<lparr>bb_base = bb_base rhs, bb_size = bb_size rhs, bb_alloc = bb_alloc rhs\<rparr>, bb_empty)"

definition bb_move_assign :: "heap \<Rightarrow> buffer_base \<Rightarrow> buffer_base \<Rightarrow> (heap \<times> buffer_base \<times> buffer_base) outcome" where
  "bb_move_assign h this rhs = (case bb_dec_ref h this of
      Returns (h', _) \<Rightarrow> Returns (h', fst (bb_move rhs), snd (bb_move rhs))
    | Throws e \<Rightarrow> Throws e | Undefined \<Rightarrow> Undefined)"

definition bb_ref_count :: "heap \<Rightarrow> buffer_base \<Rightarrow> int outcome" where
  "bb_ref_count h x =
    (if bb_alloc x
     then case bb_counter h x of Some m \<Rightarrow> Returns (bcount m) | None \<Rightarrow> Undefined
     else Returns 1)"

text \<open>The bytes at \<open>data_ptr()\<close>, and \<open>memcpy\<close> to an offset of them.\<close>

definition bb_bytes :: "heap \<Rightarrow> buffer_base \<Rightarrow> u8 list option" where
  "bb_bytes h x = (case bb_base x of
      NullP \<Rightarrow> Some []
    | ExtP e \<Rightarrow> hext h e
    | BlkP b \<Rightarrow> map_option bdata (hblocks h b))"

definition bb_store :: "nat \<Rightarrow> u8 list \<Rightarrow> heap \<Rightarrow> buffer_base \<Rightarrow> heap outcome" where
  "bb_store i xs h x = (case bb_bytes h x of
      None \<Rightarrow> Undefined
    | Some bs \<Rightarrow>
        if length bs < i + length xs then Undefined
        else Returns (case bb_base x of
            NullP \<Rightarrow> h
          | ExtP e \<Rightarrow> h\<lparr>hext := (hext h)(e \<mapsto> overwrite i xs bs)\<rparr>
          | BlkP b \<Rightarrow> h\<lparr>hblocks := (hblocks h)(b := map_option (\<lambda>m. m\<lparr>bdata := overwrite i xs bs\<rparr>) (hblocks h b))\<rparr>))"

text \<open>\<open>reserve\<close>: keep the block when nobody shares it and it is large enough; otherwise copy the
  bytes that fit into a new block of exactly the size asked for.\<close>

definition bb_reserve :: "nat \<Rightarrow> heap \<Rightarrow> buffer_base \<Rightarrow> (heap \<times> buffer_base) outcome" where
  "bb_reserve sz h x = (case bb_ref_count h x of
      Returns n \<Rightarrow>
        if n = 1 \<and> sz \<le> bb_size x then Returns (h, x)
        else
          (let (h1, new) = bb_new sz h
           in case bb_bytes h1 x of
                None \<Rightarrow> Undefined
              | Some bs \<Rightarrow>
                  (case bb_store 0 (take (min (bb_size x) sz) bs) h1 new of
                     Returns h2 \<Rightarrow>
                       (let (this', new') = bb_swap x new
                        in case bb_destroy h2 new' of
                            Returns h3 \<Rightarrow> Returns (h3, this'\<lparr>bb_size := sz\<rparr>)
                          | Throws e \<Rightarrow> Throws e | Undefined \<Rightarrow> Undefined)
                   | Throws e \<Rightarrow> Throws e | Undefined \<Rightarrow> Undefined))
    | Throws e \<Rightarrow> Throws e | Undefined \<Rightarrow> Undefined)"

section \<open>The invariant\<close>

text \<open>
  Of the live objects \<open>L\<close>: every block is counted by exactly the objects that own it and is
  freed with the last of them; every object owns an allocated block of its size, wraps a buffer
  of its size, or is empty.
\<close>

definition owns :: "nat \<Rightarrow> buffer_base \<Rightarrow> bool" where
  "owns b x \<longleftrightarrow> bb_alloc x \<and> bb_base x = BlkP b"

definition owners :: "nat \<Rightarrow> buffer_base multiset \<Rightarrow> nat" where
  "owners b L = size (filter_mset (owns b) L)"

definition object_ok :: "heap \<Rightarrow> buffer_base \<Rightarrow> bool" where
  "object_ok h x \<longleftrightarrow> (case bb_base x of
      NullP \<Rightarrow> \<not> bb_alloc x \<and> bb_size x = 0
    | ExtP e \<Rightarrow> \<not> bb_alloc x \<and> (case hext h e of Some bs \<Rightarrow> length bs = bb_size x | None \<Rightarrow> False)
    | BlkP b \<Rightarrow> bb_alloc x \<and> (case hblocks h b of Some m \<Rightarrow> length (bdata m) = bb_size x | None \<Rightarrow> False))"

definition heap_ok :: "heap \<Rightarrow> buffer_base multiset \<Rightarrow> bool" where
  "heap_ok h L \<longleftrightarrow>
    (\<forall>b m. hblocks h b = Some m \<longrightarrow> bcount m = int (owners b L) \<and> 0 < bcount m \<and> b < hnext h) \<and>
    (\<forall>x \<in># L. object_ok h x)"

text \<open>The objects of \<open>L\<close> see the same bytes in both stores.\<close>

definition same_bytes :: "heap \<Rightarrow> heap \<Rightarrow> buffer_base multiset \<Rightarrow> bool" where
  "same_bytes h h' L \<longleftrightarrow> (\<forall>x \<in># L. bb_bytes h' x = bb_bytes h x)"

lemma owners_simps [simp]:
  "owners b {#} = 0" "owners b (add_mset x L) = (if owns b x then Suc (owners b L) else owners b L)"
  by (simp_all add: owners_def)

lemma owners_pos: "x \<in># L \<Longrightarrow> owns b x \<Longrightarrow> 0 < owners b L"
  by (auto simp: owners_def size_eq_0_iff_empty filter_mset_eq_conv gr0_conv_Suc dest!: multi_member_split)

lemma owners_0: "owners b L = 0 \<Longrightarrow> x \<in># L \<Longrightarrow> \<not> owns b x"
  using owners_pos by fastforce

lemma same_bytes_refl [simp]: "same_bytes h h L"
  by (simp add: same_bytes_def)

lemma same_bytes_trans: "same_bytes h h' L \<Longrightarrow> same_bytes h' h'' L \<Longrightarrow> same_bytes h h'' L"
  by (simp add: same_bytes_def)

lemma object_cases:
  assumes "object_ok h x"
  obtains "bb_base x = NullP" "\<not> bb_alloc x" "bb_size x = 0" "bb_bytes h x = Some []"
  | e bs where "bb_base x = ExtP e" "\<not> bb_alloc x" "hext h e = Some bs" "length bs = bb_size x" "bb_bytes h x = Some bs"
  | b m where "bb_base x = BlkP b" "bb_alloc x" "hblocks h b = Some m" "length (bdata m) = bb_size x"
      "bb_bytes h x = Some (bdata m)" "owns b x"
  using assms
  by (cases "bb_base x") (auto simp: object_ok_def bb_bytes_def owns_def split: option.splits)

lemma object_bytes:
  assumes "object_ok h x"
  obtains bs where "bb_bytes h x = Some bs" "length bs = bb_size x"
  using assms by (cases rule: object_cases) auto

section \<open>Every operation preserves the invariant\<close>

lemma owners_zeroI: "(\<And>y. y \<in># L \<Longrightarrow> \<not> owns b y) \<Longrightarrow> owners b L = 0"
  by (induction L) auto

lemma heap_okI:
  "(\<And>b m. hblocks h b = Some m \<Longrightarrow> bcount m = int (owners b L) \<and> 0 < bcount m \<and> b < hnext h) \<Longrightarrow>
   (\<And>x. x \<in># L \<Longrightarrow> object_ok h x) \<Longrightarrow> heap_ok h L"
  unfolding heap_ok_def by blast

lemma heap_ok_unowned: "\<not> bb_alloc x \<Longrightarrow> heap_ok h (add_mset x L) \<longleftrightarrow> object_ok h x \<and> heap_ok h L"
  by (auto simp: heap_ok_def owns_def)

lemma heap_ok_object: "heap_ok h L \<Longrightarrow> x \<in># L \<Longrightarrow> object_ok h x"
  by (simp add: heap_ok_def)

lemma heap_ok_block:
  "heap_ok h L \<Longrightarrow> hblocks h b = Some m \<Longrightarrow> bcount m = int (owners b L) \<and> 0 < bcount m \<and> b < hnext h"
  unfolding heap_ok_def by blast

lemma object_ok_frame:
  assumes "object_ok h y"
    and "\<And>b. bb_base y = BlkP b \<Longrightarrow>
      map_option (\<lambda>m. length (bdata m)) (hblocks h' b) = map_option (\<lambda>m. length (bdata m)) (hblocks h b)"
    and "\<And>e. bb_base y = ExtP e \<Longrightarrow> map_option length (hext h' e) = map_option length (hext h e)"
  shows "object_ok h' y"
  using assms by (cases "bb_base y") (auto simp: object_ok_def split: option.splits)

lemma bb_new_ok:
  assumes "heap_ok h L" and "bb_new sz h = (h', x)"
  shows "heap_ok h' (add_mset x L)" and "same_bytes h h' L" and "owners (hnext h) L = 0"
    and "x = \<lparr>bb_base = BlkP (hnext h), bb_size = sz, bb_alloc = True\<rparr>"
    and "bb_bytes h' x = Some (map (hjunk h (hnext h)) [0..<sz])"
    and "hblocks h' (hnext h) = Some \<lparr>bcount = 1, bdata = map (hjunk h (hnext h)) [0..<sz]\<rparr>"
proof -
  have fresh: "hblocks h (hnext h) = None"
  proof (cases "hblocks h (hnext h)")
    case (Some m)
    with assms(1) have "hnext h < hnext h" unfolding heap_ok_def by blast
    then show ?thesis by simp
  qed
  have ne: "bb_base y \<noteq> BlkP (hnext h)" if "y \<in># L" for y
    using assms(1) that fresh by (auto simp: heap_ok_def object_ok_def split: ptr.splits)
  then show o: "owners (hnext h) L = 0" by (intro owners_zeroI) (auto simp: owns_def)
  show x: "x = \<lparr>bb_base = BlkP (hnext h), bb_size = sz, bb_alloc = True\<rparr>"
    and "bb_bytes h' x = Some (map (hjunk h (hnext h)) [0..<sz])"
    and "hblocks h' (hnext h) = Some \<lparr>bcount = 1, bdata = map (hjunk h (hnext h)) [0..<sz]\<rparr>"
    using assms(2) by (auto simp: bb_new_def Let_def bb_bytes_def)
  show "same_bytes h h' L"
    using ne assms(2) by (auto simp: same_bytes_def bb_new_def Let_def bb_bytes_def split: ptr.split)
  have "object_ok h' y" if "y \<in># L" for y
    by (rule object_ok_frame[of h])
      (use heap_ok_object[OF assms(1) that] assms(2) ne[OF that] in \<open>auto simp: bb_new_def Let_def\<close>)
  moreover have "object_ok h' x"
    using assms(2) by (auto simp: object_ok_def bb_new_def Let_def)
  moreover have "bcount m = int (owners b (add_mset x L)) \<and> 0 < bcount m \<and> b < hnext h'"
    if "hblocks h' b = Some m" for b m
    using that assms(2) o heap_ok_block[OF assms(1), of b m]
    by (auto simp: bb_new_def Let_def owns_def split: if_splits)
  moreover have "object_ok h' y" if "y \<in># add_mset x L" for y using that calculation by auto
  ultimately show "heap_ok h' (add_mset x L)" by (intro heap_okI) blast+
qed

lemma bb_add_ref_ok:
  assumes "heap_ok h L" and "x \<in># L"
  shows "\<exists>h'. bb_add_ref h x = Returns h' \<and> heap_ok h' (add_mset x L) \<and> same_bytes h h' L"
proof -
  have ok: "object_ok h x" using assms by (simp add: heap_ok_def)
  then show ?thesis
  proof (cases rule: object_cases)
    case (3 b m)
    let ?h = "h\<lparr>hblocks := (hblocks h)(b \<mapsto> m\<lparr>bcount := bcount m + 1\<rparr>)\<rparr>"
    have "object_ok ?h y" if "y \<in># add_mset x L" for y
      by (rule object_ok_frame[of h]) (use assms(2) that 3 in \<open>auto intro: heap_ok_object[OF assms(1)]\<close>)
    moreover have "bcount m' = int (owners b' (add_mset x L)) \<and> 0 < bcount m' \<and> b' < hnext ?h"
      if "hblocks ?h b' = Some m'" for b' m'
      using heap_ok_block[OF assms(1), of b'] that 3 by (auto simp: owns_def split: if_splits)
    ultimately have "heap_ok ?h (add_mset x L)" by (intro heap_okI) blast+
    moreover have "same_bytes h ?h L"
      using 3 by (auto simp: same_bytes_def bb_bytes_def split: ptr.split)
    ultimately show ?thesis using 3 by (simp add: bb_add_ref_def)
  qed (use assms ok in \<open>simp_all add: bb_add_ref_def heap_ok_unowned\<close>)
qed

text \<open>\<open>dec_ref\<close> takes one object out of the live ones.\<close>

lemma bb_dec_ref_ok:
  assumes "heap_ok h (add_mset x L)"
  shows "\<exists>h' x'. bb_dec_ref h x = Returns (h', x') \<and> heap_ok h' L \<and> same_bytes h h' L \<and> hnext h' = hnext h"
proof -
  have ok: "object_ok h x" using assms by (simp add: heap_ok_def)
  then show ?thesis
  proof (cases rule: object_cases)
    case (3 b m)
    have cnt: "bcount m = int (owners b L) + 1"
      using assms 3 by (simp add: heap_ok_def)
    show ?thesis
    proof (cases "owners b L = 0")
      case True
      let ?h = "h\<lparr>hblocks := (hblocks h)(b := None)\<rparr>"
      have ne: "bb_base y \<noteq> BlkP b" if "y \<in># L" for y
        using owners_0[OF True that] assms that by (auto simp: owns_def heap_ok_def object_ok_def)
      have "object_ok ?h y" if "y \<in># L" for y
        by (rule object_ok_frame[of h]) (use that ne[OF that] in \<open>auto intro: heap_ok_object[OF assms]\<close>)
      moreover have "bcount m' = int (owners b' L) \<and> 0 < bcount m' \<and> b' < hnext ?h"
        if "hblocks ?h b' = Some m'" for b' m'
        using heap_ok_block[OF assms, of b' m'] that 3 by (auto simp: owns_def split: if_splits)
      ultimately have "heap_ok ?h L" by (intro heap_okI) blast+
      moreover have "same_bytes h ?h L"
        using ne by (auto simp: same_bytes_def bb_bytes_def split: ptr.split)
      ultimately show ?thesis using 3 True cnt by (simp add: bb_dec_ref_def)
    next
      case False
      let ?h = "h\<lparr>hblocks := (hblocks h)(b \<mapsto> m\<lparr>bcount := bcount m - 1\<rparr>)\<rparr>"
      have "object_ok ?h y" if "y \<in># L" for y
        by (rule object_ok_frame[of h]) (use that 3 in \<open>auto intro: heap_ok_object[OF assms]\<close>)
      moreover have "bcount m' = int (owners b' L) \<and> 0 < bcount m' \<and> b' < hnext ?h"
        if "hblocks ?h b' = Some m'" for b' m'
        using heap_ok_block[OF assms, of b'] that 3 cnt False by (auto simp: owns_def split: if_splits)
      ultimately have "heap_ok ?h L" by (intro heap_okI) blast+
      moreover have "same_bytes h ?h L"
        using 3 by (auto simp: same_bytes_def bb_bytes_def split: ptr.split)
      ultimately show ?thesis using 3 False cnt by (simp add: bb_dec_ref_def)
    qed
  qed (use assms ok in \<open>simp_all add: bb_dec_ref_def heap_ok_unowned\<close>)
qed

lemma bb_destroy_ok:
  assumes "heap_ok h (add_mset x L)"
  obtains h' where "bb_destroy h x = Returns h'" "heap_ok h' L" "same_bytes h h' L"
  using bb_dec_ref_ok[OF assms] by (auto simp: bb_destroy_def)

lemma bb_copy_ok:
  assumes "heap_ok h L" and "x \<in># L" and "bb_alloc x"
  obtains h' where "bb_copy h x = Returns (h', x)" "heap_ok h' (add_mset x L)" "same_bytes h h' L"
  using bb_add_ref_ok[OF assms(1,2)] assms(3) by (cases x) (auto simp: bb_copy_def Let_def)

lemma bb_assign_ok:
  assumes "heap_ok h (add_mset this L)" and "rhs \<in># add_mset this L" and "bb_alloc rhs"
  obtains h' where "bb_assign h this rhs = Returns (h', rhs)" "heap_ok h' (add_mset rhs L)"
    "same_bytes h h' L"
proof -
  obtain h1 where 1: "bb_copy h rhs = Returns (h1, rhs)" "heap_ok h1 (add_mset rhs (add_mset this L))"
      "same_bytes h h1 (add_mset this L)"
    using assms by (rule bb_copy_ok)
  then have "heap_ok h1 (add_mset this (add_mset rhs L))" by (simp add: add_mset_commute)
  then obtain h2 where 2: "bb_destroy h1 this = Returns h2" "heap_ok h2 (add_mset rhs L)"
      "same_bytes h1 h2 (add_mset rhs L)"
    by (rule bb_destroy_ok)
  have "same_bytes h h2 L" using 1(3) 2(3) by (auto simp: same_bytes_def)
  with 1 2 assms(3) show ?thesis by (intro that) (simp_all add: bb_assign_def bb_swap_def)
qed

lemma heap_ok_empty [simp]: "heap_ok h (add_mset bb_empty L) \<longleftrightarrow> heap_ok h L"
  by (simp add: heap_ok_unowned bb_empty_def object_ok_def)

lemma bb_move_assign_ok:
  assumes "heap_ok h (add_mset this (add_mset rhs L))"
  obtains h' where "bb_move_assign h this rhs = Returns (h', rhs, bb_empty)"
    "heap_ok h' (add_mset rhs (add_mset bb_empty L))" "same_bytes h h' (add_mset rhs L)"
proof -
  from bb_dec_ref_ok[OF assms] obtain h' x' where "bb_dec_ref h this = Returns (h', x')"
    "heap_ok h' (add_mset rhs L)" "same_bytes h h' (add_mset rhs L)" by blast
  then show ?thesis
    by (intro that) (simp_all add: bb_move_assign_def bb_move_def add_mset_commute[of rhs bb_empty])
qed

lemma bb_ref_count_ok:
  assumes "heap_ok h L" and "x \<in># L"
  shows "\<exists>n. bb_ref_count h x = Returns n \<and> 0 < n"
proof -
  have "object_ok h x" using assms by (simp add: heap_ok_def)
  then show ?thesis
    by (cases rule: object_cases)
      (auto simp: bb_ref_count_def bb_counter_def dest: heap_ok_block[OF assms(1)])
qed

text \<open>Writing through an object that nobody else shares its block with.\<close>

definition exclusive :: "heap \<Rightarrow> buffer_base \<Rightarrow> bool" where
  "exclusive h x \<longleftrightarrow> bb_ref_count h x = Returns 1"

text \<open>Objects that wrap the same memory of the caller do see one another's writes.\<close>

definition apart :: "buffer_base \<Rightarrow> buffer_base \<Rightarrow> bool" where
  "apart x y \<longleftrightarrow> (case bb_base x of ExtP e \<Rightarrow> bb_base y \<noteq> ExtP e | _ \<Rightarrow> True)"

lemma exclusive_apart:
  assumes "heap_ok h (add_mset x L)" and "exclusive h x" and "y \<in># L" and "owns b x"
  shows "bb_base y \<noteq> BlkP b"
proof -
  have "object_ok h x" using assms(1) by (simp add: heap_ok_def)
  then obtain m where "hblocks h b = Some m" "bcount m = 1"
    using assms(2,4) by (auto simp: object_ok_def owns_def exclusive_def bb_ref_count_def bb_counter_def split: option.splits)
  then have "owners b L = 0" using assms(1,4) by (auto simp: heap_ok_def)
  from owners_0[OF this assms(3)] have "\<not> owns b y" .
  moreover have "object_ok h y" using assms(1,3) by (simp add: heap_ok_def)
  ultimately show ?thesis by (auto simp: owns_def object_ok_def)
qed

lemma exclusive_owner:
  assumes "heap_ok h (add_mset x L)" and "owns b x" and "owners b L = 0"
  shows "exclusive h x"
proof -
  have "object_ok h x" using assms(1) by (simp add: heap_ok_def)
  then obtain m where m: "hblocks h b = Some m"
    using assms(2) by (auto simp: object_ok_def owns_def split: option.splits)
  with assms have "bcount m = 1" by (simp add: heap_ok_def)
  with m assms(2) show ?thesis by (simp add: exclusive_def bb_ref_count_def bb_counter_def owns_def)
qed

lemma bb_store_ok:
  assumes "heap_ok h (add_mset x L)" and "exclusive h x" and "i + length xs \<le> bb_size x"
    and "bb_bytes h x = Some bs"
  obtains h' where "bb_store i xs h x = Returns h'" "heap_ok h' (add_mset x L)" "exclusive h' x"
    "bb_bytes h' x = Some (overwrite i xs bs)" "same_bytes h h' (filter_mset (apart x) L)"
proof -
  have ok: "object_ok h x" using assms by (simp add: heap_ok_def)
  then have len: "length bs = bb_size x" using assms(4) by (elim object_cases) auto
  from ok show ?thesis
  proof (cases rule: object_cases)
    case 1
    then have "i = 0" "xs = []" "bs = []" using assms(3) len by auto
    then have "bb_store i xs h x = Returns h" using 1 by (simp add: bb_store_def)
    with assms 1 \<open>xs = []\<close> show ?thesis by (intro that) auto
  next
    case (2 e bs')
    let ?h = "h\<lparr>hext := (hext h)(e \<mapsto> overwrite i xs bs)\<rparr>"
    have "object_ok ?h y" if "y \<in># add_mset x L" for y
      by (rule object_ok_frame[of h]) (use that 2 len assms(3,4) in \<open>auto intro: heap_ok_object[OF assms(1)]\<close>)
    moreover have "bcount m' = int (owners b' (add_mset x L)) \<and> 0 < bcount m' \<and> b' < hnext ?h"
      if "hblocks ?h b' = Some m'" for b' m'
      using heap_ok_block[OF assms(1), of b' m'] that by simp
    ultimately have "heap_ok ?h (add_mset x L)" by (intro heap_okI) blast+
    moreover have "same_bytes h ?h (filter_mset (apart x) L)"
      using 2 by (auto simp: same_bytes_def bb_bytes_def apart_def split: ptr.split)
    ultimately show ?thesis
      using 2 assms(3,4) len
      by (intro that) (auto simp: bb_store_def bb_bytes_def exclusive_def bb_ref_count_def)
  next
    case (3 b m)
    let ?h = "h\<lparr>hblocks := (hblocks h)(b \<mapsto> m\<lparr>bdata := overwrite i xs bs\<rparr>)\<rparr>"
    have ne: "bb_base y \<noteq> BlkP b" if "y \<in># L" for y
      using exclusive_apart[OF assms(1,2) that 3(6)] .
    have "object_ok ?h y" if "y \<in># add_mset x L" for y
      by (rule object_ok_frame[of h]) (use that 3 len assms(3,4) in \<open>auto intro: heap_ok_object[OF assms(1)]\<close>)
    moreover have "bcount m' = int (owners b' (add_mset x L)) \<and> 0 < bcount m' \<and> b' < hnext ?h"
      if "hblocks ?h b' = Some m'" for b' m'
      using heap_ok_block[OF assms(1), of b'] that 3 by (auto split: if_splits)
    ultimately have "heap_ok ?h (add_mset x L)" by (intro heap_okI) blast+
    moreover have "same_bytes h ?h (filter_mset (apart x) L)"
      using ne by (auto simp: same_bytes_def bb_bytes_def split: ptr.split)
    ultimately show ?thesis
      using 3 assms(2,3,4) len
      by (intro that) (auto simp: bb_store_def bb_bytes_def exclusive_def bb_ref_count_def bb_counter_def)
  qed
qed

text \<open>After \<open>reserve\<close> the object is alone with a block of at least the size asked for, and keeps the
  bytes that fit; the other objects see no change.\<close>

definition reserve_bytes :: "nat \<Rightarrow> bool \<Rightarrow> u8 list \<Rightarrow> (nat \<Rightarrow> u8) \<Rightarrow> u8 list" where
  "reserve_bytes sz keep bs junk =
    (if keep then bs else take (min (length bs) sz) bs @ map junk [min (length bs) sz..<sz])"

lemma map_upt_overwrite:
  "length xs \<le> n \<Longrightarrow> overwrite 0 xs (map f [0..<n]) = xs @ map f [length xs..<n]"
  by (simp add: overwrite_def drop_map)

lemma bb_reserve_ok:
  assumes "heap_ok h (add_mset x L)" and "bb_bytes h x = Some bs"
  obtains h' x' where "bb_reserve sz h x = Returns (h', x')" "heap_ok h' (add_mset x' L)" "exclusive h' x'"
    "same_bytes h h' L" "sz \<le> bb_size x'"
    "bb_bytes h' x' = Some (reserve_bytes sz (exclusive h x \<and> sz \<le> bb_size x) bs (hjunk h (hnext h)))"
    "exclusive h x \<and> sz \<le> bb_size x \<longrightarrow> x' = x \<and> h' = h"
    "\<not> (exclusive h x \<and> sz \<le> bb_size x) \<longrightarrow> bb_alloc x' \<and> bb_size x' = sz"
proof -
  from bb_ref_count_ok[OF assms(1), of x] obtain n where n: "bb_ref_count h x = Returns n" by auto
  show ?thesis
  proof (cases "exclusive h x \<and> sz \<le> bb_size x")
    case True
    with n have "n = 1" by (simp add: exclusive_def)
    show ?thesis
    proof (rule that[of h x])
      show "bb_reserve sz h x = Returns (h, x)" using True n \<open>n = 1\<close> by (simp add: bb_reserve_def)
    qed (use True assms in \<open>simp_all add: reserve_bytes_def\<close>)
  next
    case False
    with n have n1: "\<not> (n = 1 \<and> sz \<le> bb_size x)" by (simp add: exclusive_def)
    obtain h1 new where new: "bb_new sz h = (h1, new)" by (cases "bb_new sz h")
    note 1 = bb_new_ok[OF assms(1) new]
    have ok: "object_ok h x" using assms(1) by (simp add: heap_ok_def)
    have len: "length bs = bb_size x" using ok assms(2) by (elim object_cases) auto
    have b1: "bb_bytes h1 x = Some bs" using 1(2) assms(2) by (simp add: same_bytes_def)
    let ?xs = "take (min (bb_size x) sz) bs"
    have ex1: "exclusive h1 new" using 1(4,6) by (simp add: exclusive_def bb_ref_count_def bb_counter_def)
    have "0 + length ?xs \<le> bb_size new" using 1(4) by simp
    then obtain h2 where 2: "bb_store 0 ?xs h1 new = Returns h2" "heap_ok h2 (add_mset new (add_mset x L))"
        "exclusive h2 new" "bb_bytes h2 new = Some (overwrite 0 ?xs (map (hjunk h (hnext h)) [0..<sz]))"
        "same_bytes h1 h2 (filter_mset (apart new) (add_mset x L))"
      using bb_store_ok[OF 1(1) ex1 _ 1(5)] by metis
    have "apart new = (\<lambda>_. True)" using 1(4) by (intro ext) (simp add: apart_def)
    then have ap: "filter_mset (apart new) M = M" for M by simp
    from 2(2) have "heap_ok h2 (add_mset x (add_mset new L))" by (simp add: add_mset_commute)
    then obtain h3 where 3: "bb_destroy h2 x = Returns h3" "heap_ok h3 (add_mset new L)" "same_bytes h2 h3 (add_mset new L)"
      by (rule bb_destroy_ok)
    have "owns (hnext h) new" using 1(4) by (simp add: owns_def)
    moreover have "owners (hnext h) L = 0" using 1(3) by (auto split: if_splits)
    ultimately have "exclusive h3 new" using 3(2) exclusive_owner by blast
    moreover have "bb_reserve sz h x = Returns (h3, new)"
      unfolding bb_reserve_def n outcome.case if_not_P[OF n1] new prod.case Let_def b1 option.case 2(1) bb_swap_def 3(1)
      using 1(4) by simp
    moreover have "same_bytes h h3 L"
      using 1(2) 2(5) 3(3) by (auto simp: ap same_bytes_def)
    moreover have "bb_bytes h3 new = Some (reserve_bytes sz False bs (hjunk h (hnext h)))"
      using 2(4) 3(3) len by (simp add: same_bytes_def reserve_bytes_def map_upt_overwrite)
    ultimately show ?thesis
      using 3(2) 1(4) False by (intro that[of h3 new]) (simp_all only: buffer_base.simps order_refl simp_thms)
  qed
qed

end
