(* ===== verification/Memory_Block.thy ===== *)
theory Memory_Block
  imports Buffer_Base
begin

text \<open>
  \<open>tdk::buffer::memory_block\<close> (\<open>src/tdk/buffer/memory_block.cpp\<close>), a byte queue over a
  shared buffer: the bytes between the read and the write position are the ones written and not
  yet read. Positions are \<open>std::size_t\<close> and wrap; the moves are \<open>int32_t\<close>.
\<close>

section \<open>The code\<close>

record memory_block =
  mb_base :: buffer_base
  mb_rd :: nat
  mb_wr :: nat

record marker =
  read_mark :: nat
  write_mark :: nat

definition mb_default :: "heap \<Rightarrow> heap \<times> memory_block" where
  "mb_default h = (let (h', b) = bb_new 0 h in (h', \<lparr>mb_base = b, mb_rd = 0, mb_wr = 0\<rparr>))"

definition mb_new :: "nat \<Rightarrow> heap \<Rightarrow> heap \<times> memory_block" where
  "mb_new sz h = (let (h', b) = bb_new sz h in (h', \<lparr>mb_base = b, mb_rd = 0, mb_wr = 0\<rparr>))"

definition mb_wrap :: "nat \<Rightarrow> nat \<Rightarrow> nat \<Rightarrow> memory_block" where
  "mb_wrap e buf_size data_size = \<lparr>mb_base = bb_wrap e buf_size, mb_rd = 0, mb_wr = data_size\<rparr>"

definition mb_copy :: "heap \<Rightarrow> memory_block \<Rightarrow> (heap \<times> memory_block) outcome" where
  "mb_copy h rhs = (case bb_copy h (mb_base rhs) of
      Returns (h', b) \<Rightarrow> Returns (h', \<lparr>mb_base = b, mb_rd = mb_rd rhs, mb_wr = mb_wr rhs\<rparr>)
    | Throws e \<Rightarrow> Throws e | Undefined \<Rightarrow> Undefined)"

definition mb_swap :: "memory_block \<Rightarrow> memory_block \<Rightarrow> memory_block \<times> memory_block" where
  "mb_swap this rhs =
    (let (b, b') = bb_swap (mb_base this) (mb_base rhs)
     in (\<lparr>mb_base = b, mb_rd = mb_rd rhs, mb_wr = mb_wr rhs\<rparr>,
         \<lparr>mb_base = b', mb_rd = mb_rd this, mb_wr = mb_wr this\<rparr>))"

definition mb_destroy :: "heap \<Rightarrow> memory_block \<Rightarrow> heap outcome" where
  "mb_destroy h x = bb_destroy h (mb_base x)"

definition mb_assign :: "heap \<Rightarrow> memory_block \<Rightarrow> memory_block \<Rightarrow> (heap \<times> memory_block) outcome" where
  "mb_assign h this rhs = (case mb_copy h rhs of
      Returns (h1, temp) \<Rightarrow>
        (let (this', temp') = mb_swap this temp
         in case mb_destroy h1 temp' of
             Returns h2 \<Rightarrow> Returns (h2, this') | Throws e \<Rightarrow> Throws e | Undefined \<Rightarrow> Undefined)
    | Throws e \<Rightarrow> Throws e | Undefined \<Rightarrow> Undefined)"

definition mb_move :: "memory_block \<Rightarrow> memory_block \<times> memory_block" where
  "mb_move rhs =
    (let (b, b') = bb_move (mb_base rhs)
     in (\<lparr>mb_base = b, mb_rd = mb_rd rhs, mb_wr = mb_wr rhs\<rparr>, \<lparr>mb_base = b', mb_rd = 0, mb_wr = 0\<rparr>))"

text \<open>Move assignment leaves the positions of the source as they were.\<close>

definition mb_move_assign :: "heap \<Rightarrow> memory_block \<Rightarrow> memory_block \<Rightarrow> (heap \<times> memory_block \<times> memory_block) outcome" where
  "mb_move_assign h this rhs = (case bb_move_assign h (mb_base this) (mb_base rhs) of
      Returns (h', b, b') \<Rightarrow>
        Returns (h', \<lparr>mb_base = b, mb_rd = mb_rd rhs, mb_wr = mb_wr rhs\<rparr>, rhs\<lparr>mb_base := b'\<rparr>)
    | Throws e \<Rightarrow> Throws e | Undefined \<Rightarrow> Undefined)"

definition mb_size :: "memory_block \<Rightarrow> nat" where
  "mb_size x = bb_size (mb_base x)"

definition mb_space :: "memory_block \<Rightarrow> nat" where
  "mb_space x = size_sub (mb_size x) (mb_wr x)"

definition mb_length :: "memory_block \<Rightarrow> nat" where
  "mb_length x = size_sub (mb_wr x) (mb_rd x)"

definition mb_set_length :: "nat \<Rightarrow> memory_block \<Rightarrow> memory_block" where
  "mb_set_length l x = x\<lparr>mb_wr := size_add (mb_rd x) l\<rparr>"

definition mb_wr_ptr :: "int \<Rightarrow> memory_block \<Rightarrow> memory_block \<times> int" where
  "mb_wr_ptr move x =
    (let m = (if 0 \<le> move then min move (to_i32 (int (mb_space x)))
              else - min (abs_i32 move) (to_i32 (int (mb_length x))))
     in (x\<lparr>mb_wr := size_add_int (mb_wr x) m\<rparr>, m))"

definition mb_rd_ptr :: "int \<Rightarrow> memory_block \<Rightarrow> memory_block \<times> int" where
  "mb_rd_ptr move x =
    (let m = (if 0 \<le> move then min move (to_i32 (int (mb_length x)))
              else - min (abs_i32 move) (to_i32 (int (mb_rd x))))
     in (x\<lparr>mb_rd := size_add_int (mb_rd x) m\<rparr>, m))"

text \<open>The setters by pointer: the argument is the offset of the pointer from \<open>data_ptr()\<close>.\<close>

definition mb_set_wr_ptr :: "nat \<Rightarrow> memory_block \<Rightarrow> memory_block" where
  "mb_set_wr_ptr off x = x\<lparr>mb_wr := off\<rparr>"

definition mb_set_rd_ptr :: "nat \<Rightarrow> memory_block \<Rightarrow> memory_block" where
  "mb_set_rd_ptr off x = x\<lparr>mb_rd := off\<rparr>"

definition mb_reserve :: "nat \<Rightarrow> heap \<Rightarrow> memory_block \<Rightarrow> (heap \<times> memory_block) outcome" where
  "mb_reserve sz h x = (case bb_reserve sz h (mb_base x) of
      Returns (h', b) \<Rightarrow>
        Returns (h', \<lparr>mb_base = b, mb_rd = min (bb_size b) (mb_rd x), mb_wr = min (bb_size b) (mb_wr x)\<rparr>)
    | Throws e \<Rightarrow> Throws e | Undefined \<Rightarrow> Undefined)"

definition mb_clear :: "heap \<Rightarrow> memory_block \<Rightarrow> (heap \<times> memory_block) outcome" where
  "mb_clear h x = (case bb_reserve (bb_size (mb_base x)) h (mb_base x) of
      Returns (h', b) \<Rightarrow> Returns (h', \<lparr>mb_base = b, mb_rd = 0, mb_wr = 0\<rparr>)
    | Throws e \<Rightarrow> Throws e | Undefined \<Rightarrow> Undefined)"

text \<open>\<open>n\<close> bytes of the buffer from offset \<open>i\<close>; outside it the read is undefined.\<close>

definition mb_load :: "heap \<Rightarrow> memory_block \<Rightarrow> nat \<Rightarrow> nat \<Rightarrow> u8 list outcome" where
  "mb_load h x i n = (case bb_bytes h (mb_base x) of
      Some bs \<Rightarrow> if i + n \<le> length bs then Returns (slice i (i + n) bs) else Undefined
    | None \<Rightarrow> Undefined)"

definition mb_align :: "heap \<Rightarrow> memory_block \<Rightarrow> (heap \<times> memory_block) outcome" where
  "mb_align h x = (case mb_reserve (mb_size x) h x of
      Returns (h1, x1) \<Rightarrow>
        if mb_wr x1 \<noteq> mb_rd x1
        then (case mb_load h1 x1 (mb_rd x1) (mb_length x1) of
            Returns xs \<Rightarrow>
              (case bb_store 0 xs h1 (mb_base x1) of
                Returns h2 \<Rightarrow> Returns (h2, x1\<lparr>mb_wr := mb_length x1, mb_rd := 0\<rparr>)
              | Throws e \<Rightarrow> Throws e | Undefined \<Rightarrow> Undefined)
          | Throws e \<Rightarrow> Throws e | Undefined \<Rightarrow> Undefined)
        else mb_clear h1 x1
    | Throws e \<Rightarrow> Throws e | Undefined \<Rightarrow> Undefined)"

definition mb_ref_count :: "heap \<Rightarrow> memory_block \<Rightarrow> int outcome" where
  "mb_ref_count h x = bb_ref_count h (mb_base x)"

definition mb_mark :: "memory_block \<Rightarrow> marker" where
  "mb_mark x = \<lparr>read_mark = mb_rd x, write_mark = mb_wr x\<rparr>"

definition mb_move_to :: "marker \<Rightarrow> memory_block \<Rightarrow> memory_block \<times> bool" where
  "mb_move_to m x =
    (if write_mark m < mb_size x
     then (x\<lparr>mb_rd := read_mark m, mb_wr := write_mark m\<rparr>, True)
     else (x, False))"

text \<open>\<open>write\<close> (and \<open>copy\<close>, which calls it): the bytes are read before the store changes.\<close>

definition mb_write :: "u8 list \<Rightarrow> heap \<Rightarrow> memory_block \<Rightarrow> (heap \<times> memory_block \<times> nat) outcome" where
  "mb_write buf h x = (case mb_reserve (size_add (mb_wr x) (length buf)) h x of
      Returns (h1, x1) \<Rightarrow>
        (let n = min (mb_space x1) (length buf)
         in case bb_store (mb_wr x1) (take n buf) h1 (mb_base x1) of
             Returns h2 \<Rightarrow>
               (let (x2, moved) = mb_wr_ptr (to_i32 (int n)) x1
                in Returns (h2, x2, nat (to_u64 moved)))
           | Throws e \<Rightarrow> Throws e | Undefined \<Rightarrow> Undefined)
    | Throws e \<Rightarrow> Throws e | Undefined \<Rightarrow> Undefined)"

definition mb_peek :: "nat \<Rightarrow> heap \<Rightarrow> memory_block \<Rightarrow> u8 list outcome" where
  "mb_peek peek_size h x = mb_load h x (mb_rd x) (min (mb_length x) peek_size)"

definition mb_read :: "nat \<Rightarrow> heap \<Rightarrow> memory_block \<Rightarrow> (u8 list \<times> memory_block \<times> nat) outcome" where
  "mb_read read_size h x = (case mb_peek read_size h x of
      Returns xs \<Rightarrow>
        (let (x', moved) = mb_rd_ptr (to_i32 (int (length xs))) x
         in Returns (xs, x', nat (to_u64 moved)))
    | Throws e \<Rightarrow> Throws e | Undefined \<Rightarrow> Undefined)"

text \<open>\<open>operator<<\<close> between two objects: the bytes of \<open>data\<close> not yet read.\<close>

definition mb_append :: "heap \<Rightarrow> memory_block \<Rightarrow> memory_block \<Rightarrow> (heap \<times> memory_block \<times> nat) outcome" where
  "mb_append h x data = (case mb_load h data (mb_rd data) (mb_length data) of
      Returns xs \<Rightarrow> mb_write xs h x | Throws e \<Rightarrow> Throws e | Undefined \<Rightarrow> Undefined)"

text \<open>\<open>while (append > 0) *this << val\<close>\<close>

fun mb_pad_loop :: "nat \<Rightarrow> u8 \<Rightarrow> heap \<Rightarrow> memory_block \<Rightarrow> (heap \<times> memory_block) outcome" where
  "mb_pad_loop 0 val h x = Returns (h, x)"
| "mb_pad_loop (Suc k) val h x = (case mb_write [val] h x of
      Returns (h', x', _) \<Rightarrow> mb_pad_loop k val h' x'
    | Throws e \<Rightarrow> Throws e | Undefined \<Rightarrow> Undefined)"

text \<open>\<open>int mod = length() % align\<close> is a 64-bit unsigned remainder; \<open>align\<close> is a positive \<open>int\<close>.\<close>

definition mb_padding :: "nat \<Rightarrow> u8 \<Rightarrow> heap \<Rightarrow> memory_block \<Rightarrow> (heap \<times> memory_block \<times> nat) outcome" where
  "mb_padding align val h x =
    (let m = mb_length x mod align
     in if m = 0 then Returns (h, x, 0)
        else case mb_pad_loop (align - m) val h x of
            Returns (h', x') \<Rightarrow> Returns (h', x', align - m)
          | Throws e \<Rightarrow> Throws e | Undefined \<Rightarrow> Undefined)"

section \<open>The invariant and the contents\<close>

definition mb_ok :: "memory_block \<Rightarrow> bool" where
  "mb_ok x \<longleftrightarrow> mb_rd x \<le> mb_wr x \<and> mb_wr x \<le> mb_size x \<and> mb_size x < 2 ^ 31"

definition mb_contents :: "heap \<Rightarrow> memory_block \<Rightarrow> u8 list" where
  "mb_contents h x = slice (mb_rd x) (mb_wr x) (case bb_bytes h (mb_base x) of Some bs \<Rightarrow> bs | None \<Rightarrow> [])"

lemma mb_ok_sizes:
  assumes "mb_ok x"
  shows "mb_space x = mb_size x - mb_wr x" "mb_length x = mb_wr x - mb_rd x"
    "to_i32 (int (mb_space x)) = int (mb_size x - mb_wr x)" "to_i32 (int (mb_length x)) = int (mb_wr x - mb_rd x)"
    "to_i32 (int (mb_rd x)) = int (mb_rd x)"
proof -
  show sp: "mb_space x = mb_size x - mb_wr x" and ln: "mb_length x = mb_wr x - mb_rd x"
    using assms by (simp_all add: mb_ok_def mb_space_def mb_length_def size_sub_le)
  have "int n = to_i32 (int n)" if "n < 2 ^ 31" for n
    using that by (simp add: to_i32_id)
  moreover have "mb_size x - mb_wr x < 2 ^ 31" "mb_wr x - mb_rd x < 2 ^ 31" "mb_rd x < 2 ^ 31"
    using assms unfolding mb_ok_def by linarith+
  ultimately show "to_i32 (int (mb_space x)) = int (mb_size x - mb_wr x)"
    "to_i32 (int (mb_length x)) = int (mb_wr x - mb_rd x)" "to_i32 (int (mb_rd x)) = int (mb_rd x)"
    unfolding sp ln by metis+
qed

section \<open>What the operations do to the contents\<close>

text \<open>The live objects with one memory block among them, and the rest seen from it.\<close>

definition mb_live :: "buffer_base multiset \<Rightarrow> heap \<times> memory_block \<Rightarrow> bool" where
  "mb_live L s \<longleftrightarrow> heap_ok (fst s) (add_mset (mb_base (snd s)) L) \<and> mb_ok (snd s)"

definition mb_others :: "memory_block \<Rightarrow> buffer_base multiset \<Rightarrow> buffer_base multiset" where
  "mb_others x L = filter_mset (apart (mb_base x)) L"

lemma mb_live_bytes:
  assumes "mb_live L (h, x)"
  obtains bs where "bb_bytes h (mb_base x) = Some bs" "length bs = mb_size x"
proof -
  have "object_ok h (mb_base x)" using assms by (simp add: mb_live_def heap_ok_def)
  then show ?thesis by (rule object_bytes) (simp add: that mb_size_def)
qed

lemma reserve_bytes_prefix:
  "k \<le> length bs \<Longrightarrow> k \<le> sz \<Longrightarrow> take k (reserve_bytes sz keep bs junk) = take k bs"
  by (simp add: reserve_bytes_def min_def)

lemma length_reserve_bytes: "length (reserve_bytes sz keep bs junk) = (if keep then length bs else sz)"
  by (simp add: reserve_bytes_def)

text \<open>Reserving at least the bytes written so far keeps positions and contents.\<close>

lemma mb_reserve_ok:
  assumes "mb_live L (h, x)" and "mb_wr x \<le> sz" and "sz < 2 ^ 31"
  obtains h' x' where "mb_reserve sz h x = Returns (h', x')" "mb_live L (h', x')" "exclusive h' (mb_base x')"
    "mb_rd x' = mb_rd x" "mb_wr x' = mb_wr x" "mb_contents h' x' = mb_contents h x" "sz \<le> mb_size x'"
    "same_bytes h h' L" "mb_size x' \<le> max sz (mb_size x)"
proof -
  from assms(1) have ok: "heap_ok h (add_mset (mb_base x) L)" and x: "mb_ok x" by (simp_all add: mb_live_def)
  obtain bs where bs: "bb_bytes h (mb_base x) = Some bs" "length bs = mb_size x"
    using assms(1) by (rule mb_live_bytes)
  let ?keep = "exclusive h (mb_base x) \<and> sz \<le> bb_size (mb_base x)"
  obtain h' b where r: "bb_reserve sz h (mb_base x) = Returns (h', b)" "heap_ok h' (add_mset b L)" "exclusive h' b"
      "same_bytes h h' L" "sz \<le> bb_size b"
      "bb_bytes h' b = Some (reserve_bytes sz ?keep bs (hjunk h (hnext h)))"
      "?keep \<longrightarrow> b = mb_base x \<and> h' = h" "\<not> ?keep \<longrightarrow> bb_alloc b \<and> bb_size b = sz"
    by (rule bb_reserve_ok[OF ok bs(1), where sz = sz])
  let ?x = "\<lparr>mb_base = b, mb_rd = mb_rd x, mb_wr = mb_wr x\<rparr>"
  have pos: "mb_rd x \<le> mb_wr x" "mb_wr x \<le> bb_size b" using x assms(2) r(5) by (auto simp: mb_ok_def)
  have "bb_size b < 2 ^ 31 \<and> bb_size b \<le> max sz (mb_size x)"
    using r(7,8) x assms(3) by (cases ?keep) (auto simp: mb_ok_def mb_size_def)
  moreover have "mb_reserve sz h x = Returns (h', ?x)"
    using r(1) pos by (simp add: mb_reserve_def)
  moreover have "mb_contents h' ?x = mb_contents h x"
    using r(6) bs pos assms(2) x reserve_bytes_prefix[of "mb_wr x" bs sz ?keep]
    by (simp add: mb_contents_def slice_def mb_ok_def)
  ultimately show ?thesis
    using r(2-5) pos by (intro that[of h' ?x]) (simp_all add: mb_live_def mb_ok_def mb_size_def)
qed

lemma mb_contents_length: "mb_live L (h, x) \<Longrightarrow> length (mb_contents h x) = mb_wr x - mb_rd x"
proof -
  assume a: "mb_live L (h, x)"
  then obtain bs where "bb_bytes h (mb_base x) = Some bs" "length bs = mb_size x" by (rule mb_live_bytes)
  with a show ?thesis by (simp add: mb_contents_def mb_live_def mb_ok_def)
qed

text \<open>\<open>write\<close> appends to the contents and changes nobody else's bytes.\<close>

lemma mb_write_ok:
  assumes "mb_live L (h, x)" and "mb_wr x + length buf < 2 ^ 31"
  obtains h' x' where "mb_write buf h x = Returns (h', x', length buf)" "mb_live L (h', x')"
    "mb_contents h' x' = mb_contents h x @ buf" "mb_rd x' = mb_rd x" "mb_wr x' = mb_wr x + length buf"
    "same_bytes h h' (mb_others x' L)" "exclusive h' (mb_base x')"
proof -
  let ?n = "length buf"
  have sz: "size_add (mb_wr x) ?n = mb_wr x + ?n" using assms(2) by (simp add: size_add_small)
  obtain h1 x1 where 1: "mb_reserve (mb_wr x + ?n) h x = Returns (h1, x1)" "mb_live L (h1, x1)"
      "exclusive h1 (mb_base x1)" "mb_rd x1 = mb_rd x" "mb_wr x1 = mb_wr x" "mb_contents h1 x1 = mb_contents h x"
      "mb_wr x + ?n \<le> mb_size x1" "same_bytes h h1 L"
    using mb_reserve_ok[OF assms(1) le_add1 assms(2)] by metis
  obtain bs where bs: "bb_bytes h1 (mb_base x1) = Some bs" "length bs = mb_size x1"
    using 1(2) by (rule mb_live_bytes)
  have ok1: "heap_ok h1 (add_mset (mb_base x1) L)" and x1: "mb_ok x1" using 1(2) by (simp_all add: mb_live_def)
  have n: "min (mb_space x1) ?n = ?n" using 1(5,7) by (simp add: mb_ok_sizes[OF x1])
  have "mb_wr x1 + ?n \<le> bb_size (mb_base x1)" using 1(5,7) by (simp add: mb_size_def)
  then obtain h2 where 2: "bb_store (mb_wr x1) buf h1 (mb_base x1) = Returns h2" "heap_ok h2 (add_mset (mb_base x1) L)"
      "exclusive h2 (mb_base x1)" "bb_bytes h2 (mb_base x1) = Some (overwrite (mb_wr x1) buf bs)"
      "same_bytes h1 h2 (mb_others x1 L)"
    unfolding mb_others_def using bb_store_ok[OF ok1 1(3) _ bs(1)] by metis
  let ?x = "x1\<lparr>mb_wr := mb_wr x1 + ?n\<rparr>"
  have mv: "mb_wr_ptr (to_i32 (int ?n)) x1 = (?x, int ?n)"
  proof -
    have "to_i32 (int ?n) = int ?n" using assms(2) by (simp add: to_i32_id)
    moreover have "?n \<le> mb_size x1 - mb_wr x1" using 1(5,7) by simp
    moreover have "size_add_int (mb_wr x1) (int ?n) = mb_wr x1 + ?n"
      using assms(2) 1(5) by (simp add: size_add_int_small nat_int_add)
    ultimately show ?thesis
      by (simp only: mb_wr_ptr_def mb_ok_sizes(3)[OF x1] Let_def) (simp add: min_def)
  qed
  have w: "mb_write buf h x = Returns (h2, ?x, ?n)"
    using assms(2) by (simp add: mb_write_def sz 1(1) n Let_def 2(1) mv to_u64_id)
  have "mb_live L (h2, ?x)"
    using 2(2) x1 1(5,7) by (simp add: mb_live_def mb_ok_def mb_size_def)
  moreover have "mb_contents h2 ?x = mb_contents h x @ buf"
  proof -
    have "slice (mb_rd x1) (mb_wr x1 + ?n) (overwrite (mb_wr x1) buf bs) = slice (mb_rd x1) (mb_wr x1) bs @ buf"
      by (rule slice_overwrite_append) (use x1 bs(2) 1(5,7) in \<open>simp_all add: mb_ok_def\<close>)
    then show ?thesis using 2(4) bs(1) 1(6) by (simp add: mb_contents_def)
  qed
  moreover have "same_bytes h h2 (mb_others ?x L)"
    using 1(8) 2(5) by (auto simp: same_bytes_def mb_others_def)
  ultimately show ?thesis
    using w 1(4,5) 2(3) by (intro that[of h2 ?x]) simp_all
qed

text \<open>\<open>peek\<close> and \<open>read\<close> give the oldest bytes; \<open>read\<close> takes them out.\<close>

lemma mb_peek_ok:
  assumes "mb_live L (h, x)"
  shows "mb_peek n h x = Returns (take n (mb_contents h x))"
proof -
  obtain bs where bs: "bb_bytes h (mb_base x) = Some bs" "length bs = mb_size x"
    using assms by (rule mb_live_bytes)
  have x: "mb_ok x" using assms by (simp add: mb_live_def)
  let ?m = "min (mb_wr x - mb_rd x) n"
  have "mb_rd x + ?m \<le> length bs" "min (mb_wr x) (mb_rd x + n) = mb_rd x + ?m"
    using x bs by (auto simp: mb_ok_def)
  then show ?thesis
    by (simp add: mb_peek_def mb_load_def mb_ok_sizes[OF x] bs mb_contents_def take_slice)
qed

lemma mb_read_ok:
  assumes "mb_live L (h, x)"
  obtains x' where "mb_read n h x = Returns (take n (mb_contents h x), x', min n (length (mb_contents h x)))"
    "mb_live L (h, x')" "mb_contents h x' = drop n (mb_contents h x)" "mb_wr x' = mb_wr x" "mb_base x' = mb_base x"
proof -
  have x: "mb_ok x" using assms by (simp add: mb_live_def)
  let ?m = "length (take n (mb_contents h x))"
  have m: "?m = min n (mb_wr x - mb_rd x)" using mb_contents_length[OF assms] by (simp add: min.commute)
  let ?x = "x\<lparr>mb_rd := mb_rd x + ?m\<rparr>"
  have "?m < 2 ^ 31" "mb_rd x + ?m < 2 ^ 31" using x m by (auto simp: mb_ok_def)
  then have "to_i32 (int ?m) = int ?m" "size_add_int (mb_rd x) (int ?m) = mb_rd x + ?m" "to_u64 (int ?m) = int ?m"
    by (simp_all add: to_i32_id size_add_int_small nat_int_add to_u64_id)
  then have mv: "mb_rd_ptr (to_i32 (int ?m)) x = (?x, int ?m)" and "nat (to_u64 (int ?m)) = ?m"
    using m by (simp_all only: mb_rd_ptr_def mb_ok_sizes(4)[OF x] Let_def) (auto simp: min_def)
  then have "mb_read n h x = Returns (take n (mb_contents h x), ?x, ?m)"
    by (simp only: mb_read_def mb_peek_ok[OF assms] outcome.case Let_def mv prod.case)
  moreover have "mb_live L (h, ?x)" using assms x m by (auto simp: mb_live_def mb_ok_def mb_size_def)
  moreover have "mb_contents h ?x = drop n (mb_contents h x)"
    using m by (cases "n \<le> mb_wr x - mb_rd x") (simp_all add: mb_contents_def drop_slice slice_empty)
  ultimately show ?thesis by (intro that[of ?x]) (simp_all add: min.commute)
qed

lemma mb_append_ok:
  assumes "mb_live L (h, x)" and "y \<in># L" and "mb_live (L - {#y#} + {#mb_base x#}) (h, d)" and "mb_base d = y"
    and "mb_wr x + mb_length d < 2 ^ 31"
  obtains h' x' where "mb_append h x d = Returns (h', x', mb_length d)" "mb_live L (h', x')"
    "mb_contents h' x' = mb_contents h x @ mb_contents h d" "same_bytes h h' (mb_others x' L)"
proof -
  have d: "mb_ok d" using assms(3) by (simp add: mb_live_def)
  obtain bs where bs: "bb_bytes h (mb_base d) = Some bs" "length bs = mb_size d"
    using assms(3) by (rule mb_live_bytes)
  have "mb_rd d + mb_length d = mb_wr d" "mb_wr d \<le> length bs"
    using d bs by (simp_all add: mb_ok_sizes[OF d] mb_ok_def)
  then have l: "mb_load h d (mb_rd d) (mb_length d) = Returns (mb_contents h d)"
    by (simp add: mb_load_def bs mb_contents_def)
  have n: "length (mb_contents h d) = mb_length d"
    using mb_contents_length[OF assms(3)] by (simp add: mb_ok_sizes[OF d])
  obtain h' x' where "mb_write (mb_contents h d) h x = Returns (h', x', length (mb_contents h d))" "mb_live L (h', x')"
    "mb_contents h' x' = mb_contents h x @ mb_contents h d" "mb_rd x' = mb_rd x"
    "mb_wr x' = mb_wr x + length (mb_contents h d)" "same_bytes h h' (mb_others x' L)" "exclusive h' (mb_base x')"
    by (rule mb_write_ok[OF assms(1), of "mb_contents h d"]) (use assms(5) n in simp_all)
  then show ?thesis using l n by (intro that[of h' x']) (simp_all add: mb_append_def)
qed

lemma mb_pad_loop_ok:
  "mb_live L (h, x) \<Longrightarrow> mb_wr x + k < 2 ^ 31 \<Longrightarrow>
   \<exists>h' x'. mb_pad_loop k val h x = Returns (h', x') \<and> mb_live L (h', x') \<and>
     mb_contents h' x' = mb_contents h x @ replicate k val \<and> mb_rd x' = mb_rd x \<and> mb_wr x' = mb_wr x + k"
proof (induction k arbitrary: h x)
  case (Suc k)
  from Suc.prems obtain h1 x1 where 1: "mb_write [val] h x = Returns (h1, x1, length [val])" "mb_live L (h1, x1)"
    "mb_contents h1 x1 = mb_contents h x @ [val]" "mb_rd x1 = mb_rd x" "mb_wr x1 = mb_wr x + length [val]"
    by (elim mb_write_ok[of L h x "[val]"]) simp_all
  moreover have "mb_wr x1 + k < 2 ^ 31" using Suc.prems 1(5) by simp
  ultimately show ?case using Suc.IH[of h1 x1] by auto
qed auto

text \<open>\<open>align\<close> moves the contents to the front of a block nobody shares.\<close>

lemma mb_align_ok:
  assumes "mb_live L (h, x)"
  obtains h' x' where "mb_align h x = Returns (h', x')" "mb_live L (h', x')" "mb_rd x' = 0"
    "mb_wr x' = mb_length x" "mb_contents h' x' = mb_contents h x" "same_bytes h h' (mb_others x' L)"
proof -
  have x: "mb_ok x" using assms by (simp add: mb_live_def)
  then have "mb_wr x \<le> mb_size x" "mb_size x < 2 ^ 31" by (simp_all add: mb_ok_def)
  then obtain h1 x1 where 1: "mb_reserve (mb_size x) h x = Returns (h1, x1)" "mb_live L (h1, x1)"
      "exclusive h1 (mb_base x1)" "mb_rd x1 = mb_rd x" "mb_wr x1 = mb_wr x" "mb_contents h1 x1 = mb_contents h x"
      "mb_size x \<le> mb_size x1" "same_bytes h h1 L" "mb_size x1 \<le> max (mb_size x) (mb_size x)"
    by (rule mb_reserve_ok[OF assms])
  have ok1: "heap_ok h1 (add_mset (mb_base x1) L)" and x1: "mb_ok x1" using 1(2) by (simp_all add: mb_live_def)
  obtain bs where bs: "bb_bytes h1 (mb_base x1) = Some bs" "length bs = mb_size x1"
    using 1(2) by (rule mb_live_bytes)
  have ln: "mb_length x1 = mb_length x" by (simp add: mb_ok_sizes[OF x1] mb_ok_sizes[OF x] 1(4,5))
  show ?thesis
  proof (cases "mb_wr x1 = mb_rd x1")
    case True
    obtain h2 b where 2: "bb_reserve (bb_size (mb_base x1)) h1 (mb_base x1) = Returns (h2, b)" "heap_ok h2 (add_mset b L)"
      "exclusive h2 b" "same_bytes h1 h2 L" "bb_size (mb_base x1) \<le> bb_size b"
      "bb_bytes h2 b = Some (reserve_bytes (bb_size (mb_base x1))
         (exclusive h1 (mb_base x1) \<and> bb_size (mb_base x1) \<le> bb_size (mb_base x1)) bs (hjunk h1 (hnext h1)))"
      "exclusive h1 (mb_base x1) \<and> bb_size (mb_base x1) \<le> bb_size (mb_base x1) \<longrightarrow> b = mb_base x1 \<and> h2 = h1"
      "\<not> (exclusive h1 (mb_base x1) \<and> bb_size (mb_base x1) \<le> bb_size (mb_base x1)) \<longrightarrow> bb_alloc b \<and> bb_size b = bb_size (mb_base x1)"
      by (rule bb_reserve_ok[OF ok1 bs(1), where sz = "bb_size (mb_base x1)"])
    have b: "b = mb_base x1" "h2 = h1" using 2(7) 1(3) by simp_all
    let ?x = "\<lparr>mb_base = mb_base x1, mb_rd = 0, mb_wr = 0\<rparr>"
    have "mb_align h x = Returns (h1, ?x)"
      using 1(1) True 2(1) b by (simp add: mb_align_def mb_clear_def)
    moreover have "mb_live L (h1, ?x)" using ok1 x1 by (simp add: mb_live_def mb_ok_def mb_size_def)
    moreover have "mb_contents h x = []" "mb_length x = 0"
      using True 1(4,5) by (simp_all add: mb_contents_def mb_ok_sizes[OF x])
    moreover have "same_bytes h h1 (mb_others ?x L)" using 1(8) by (simp add: same_bytes_def mb_others_def)
    ultimately show ?thesis by (intro that[of h1 ?x]) (simp_all add: mb_contents_def)
  next
    case False
    let ?xs = "mb_contents h1 x1"
    have r: "mb_rd x1 + mb_length x1 = mb_wr x1" "mb_wr x1 \<le> length bs"
      using x1 bs by (simp_all add: mb_ok_sizes[OF x1] mb_ok_def)
    then have l: "mb_load h1 x1 (mb_rd x1) (mb_length x1) = Returns ?xs"
      by (simp add: mb_load_def bs mb_contents_def)
    have n: "length ?xs = mb_length x1"
      using mb_contents_length[OF 1(2)] by (simp add: mb_ok_sizes[OF x1])
    have "0 + length ?xs \<le> bb_size (mb_base x1)" using n r bs by (simp add: mb_size_def)
    then obtain h2 where 2: "bb_store 0 ?xs h1 (mb_base x1) = Returns h2" "heap_ok h2 (add_mset (mb_base x1) L)"
        "exclusive h2 (mb_base x1)" "bb_bytes h2 (mb_base x1) = Some (overwrite 0 ?xs bs)"
        "same_bytes h1 h2 (filter_mset (apart (mb_base x1)) L)"
      using bb_store_ok[OF ok1 1(3) _ bs(1)] by metis
    let ?x = "x1\<lparr>mb_wr := mb_length x1, mb_rd := 0\<rparr>"
    have "mb_align h x = Returns (h2, ?x)"
      using 1(1) False l 2(1) by (simp add: mb_align_def)
    moreover have "mb_live L (h2, ?x)" using 2(2) x1 r bs by (simp add: mb_live_def mb_ok_def mb_size_def)
    moreover have "mb_contents h2 ?x = mb_contents h x"
      using 2(4) n 1(6) by (simp add: mb_contents_def[of h2] slice_def overwrite_def)
    moreover have "same_bytes h h2 (mb_others ?x L)"
      using 1(8) 2(5) by (auto simp: same_bytes_def mb_others_def)
    ultimately show ?thesis using ln by (intro that[of h2 ?x]) simp_all
  qed
qed

section \<open>A byte queue\<close>

datatype fifo_op = Put "u8 list" | Get nat

text \<open>Run a sequence of writes and reads; the result is everything read, in order.\<close>

fun fifo_run :: "(u8 list \<Rightarrow> 's \<Rightarrow> 's option) \<Rightarrow> (nat \<Rightarrow> 's \<Rightarrow> (u8 list \<times> 's) option) \<Rightarrow>
    fifo_op list \<Rightarrow> 's \<Rightarrow> (u8 list \<times> 's) option" where
  "fifo_run put get [] s = Some ([], s)"
| "fifo_run put get (Put xs # ops) s = (case put xs s of
      Some s' \<Rightarrow> fifo_run put get ops s' | None \<Rightarrow> None)"
| "fifo_run put get (Get n # ops) s = (case get n s of
      Some (xs, s') \<Rightarrow> (case fifo_run put get ops s' of
          Some (ys, s'') \<Rightarrow> Some (xs @ ys, s'') | None \<Rightarrow> None)
    | None \<Rightarrow> None)"

fun fifo_input :: "fifo_op list \<Rightarrow> u8 list" where
  "fifo_input [] = []"
| "fifo_input (Put xs # ops) = xs @ fifo_input ops"
| "fifo_input (Get n # ops) = fifo_input ops"

locale byte_fifo =
  fixes put :: "u8 list \<Rightarrow> 's \<Rightarrow> 's option"
    and get :: "nat \<Rightarrow> 's \<Rightarrow> (u8 list \<times> 's) option"
    and ok :: "'s \<Rightarrow> bool"
    and view :: "'s \<Rightarrow> u8 list"
    and room :: "'s \<Rightarrow> nat"
  assumes put_ok: "ok s \<Longrightarrow> length xs \<le> room s \<Longrightarrow>
      \<exists>s'. put xs s = Some s' \<and> ok s' \<and> view s' = view s @ xs \<and> room s' = room s - length xs"
    and get_ok: "ok s \<Longrightarrow>
      \<exists>s'. get n s = Some (take n (view s), s') \<and> ok s' \<and> view s' = drop n (view s) \<and> room s' = room s"
begin

lemma in_order:
  "ok s \<Longrightarrow> length (fifo_input ops) \<le> room s \<Longrightarrow>
   \<exists>out s'. fifo_run put get ops s = Some (out, s') \<and> ok s' \<and> out @ view s' = view s @ fifo_input ops"
proof (induction ops arbitrary: s)
  case (Cons op ops)
  show ?case
  proof (cases op)
    case (Put xs)
    with Cons.prems put_ok[of s xs] obtain s' where 1: "put xs s = Some s'" "ok s'" "view s' = view s @ xs"
      "room s' = room s - length xs" by auto
    moreover have "length (fifo_input ops) \<le> room s'" using Cons.prems Put 1 by simp
    ultimately show ?thesis using Cons.IH[of s'] Put by auto
  next
    case (Get n)
    from Cons.prems get_ok[of s n] obtain s' where 1: "get n s = Some (take n (view s), s')" "ok s'"
      "view s' = drop n (view s)" "room s' = room s" by auto
    with Cons.prems Get Cons.IH[of s'] obtain out s'' where
      "fifo_run put get ops s' = Some (out, s'')" "ok s''" "out @ view s'' = drop n (view s) @ fifo_input ops" by auto
    with 1 Get show ?thesis by simp
  qed
qed auto

end

definition mb_put :: "u8 list \<Rightarrow> heap \<times> memory_block \<Rightarrow> (heap \<times> memory_block) option" where
  "mb_put xs s = (case mb_write xs (fst s) (snd s) of Returns (h', x', _) \<Rightarrow> Some (h', x') | _ \<Rightarrow> None)"

definition mb_get :: "nat \<Rightarrow> heap \<times> memory_block \<Rightarrow> (u8 list \<times> heap \<times> memory_block) option" where
  "mb_get n s = (case mb_read n (fst s) (snd s) of Returns (xs, x', _) \<Rightarrow> Some (xs, fst s, x') | _ \<Rightarrow> None)"

interpretation mb_fifo: byte_fifo mb_put mb_get "mb_live L" "\<lambda>s. mb_contents (fst s) (snd s)"
    "\<lambda>s. 2 ^ 31 - 1 - mb_wr (snd s)" for L
proof
  fix s :: "heap \<times> memory_block" and xs :: "u8 list"
  assume "mb_live L s" and n: "length xs \<le> 2 ^ 31 - 1 - mb_wr (snd s)"
  then have l: "mb_live L (fst s, snd s)" by simp
  then have "mb_wr (snd s) < 2 ^ 31" by (auto simp: mb_live_def mb_ok_def)
  with n have "mb_wr (snd s) + length xs < 2 ^ 31" by simp
  with l obtain h' x' where "mb_write xs (fst s) (snd s) = Returns (h', x', length xs)" "mb_live L (h', x')"
    "mb_contents h' x' = mb_contents (fst s) (snd s) @ xs" "mb_wr x' = mb_wr (snd s) + length xs"
    by (rule mb_write_ok)
  then show "\<exists>s'. mb_put xs s = Some s' \<and> mb_live L s' \<and> mb_contents (fst s') (snd s') = mb_contents (fst s) (snd s) @ xs \<and>
      2 ^ 31 - 1 - mb_wr (snd s') = 2 ^ 31 - 1 - mb_wr (snd s) - length xs"
    by (simp add: mb_put_def)
next
  fix s :: "heap \<times> memory_block" and n :: nat
  assume "mb_live L s"
  then have "mb_live L (fst s, snd s)" by simp
  then obtain x' where "mb_read n (fst s) (snd s) =
      Returns (take n (mb_contents (fst s) (snd s)), x', min n (length (mb_contents (fst s) (snd s))))"
    "mb_live L (fst s, x')" "mb_contents (fst s) x' = drop n (mb_contents (fst s) (snd s))" "mb_wr x' = mb_wr (snd s)"
    by (rule mb_read_ok)
  then show "\<exists>s'. mb_get n s = Some (take n (mb_contents (fst s) (snd s)), s') \<and> mb_live L s' \<and>
      mb_contents (fst s') (snd s') = drop n (mb_contents (fst s) (snd s)) \<and>
      2 ^ 31 - 1 - mb_wr (snd s') = 2 ^ 31 - 1 - mb_wr (snd s)"
    by (simp add: mb_get_def)
qed

text \<open>C14. A memory block is a queue of bytes: whatever the sequence of writes and reads, short
  reads included, the bytes come out in the order they went in, none lost and none twice, as long
  as the write position stays below 2 GB (the \<open>int32_t\<close> of the moves).\<close>

theorem mb_bytes_in_order:
  assumes "mb_live L (h, x)" and "mb_wr x + length (fifo_input ops) < 2 ^ 31"
  shows "\<exists>out h' x'. fifo_run mb_put mb_get ops (h, x) = Some (out, h', x') \<and> mb_live L (h', x') \<and>
    out @ mb_contents h' x' = mb_contents h x @ fifo_input ops"
proof -
  have "length (fifo_input ops) \<le> 2 ^ 31 - 1 - mb_wr (snd (h, x))" using assms(2) by simp
  from mb_fifo.in_order[OF assms(1) this] show ?thesis by auto
qed

definition heap_empty :: heap where
  "heap_empty = \<lparr>hblocks = Map.empty, hext = Map.empty, hnext = 0, hjunk = \<lambda>_ _. 0\<rparr>"

lemma mb_default_live: "mb_live {#} (mb_default heap_empty)"
  by (simp add: mb_live_def mb_default_def bb_new_def Let_def heap_empty_def heap_ok_def object_ok_def owns_def mb_ok_def mb_size_def)

theorem mb_bytes_in_order_witness:
  "\<exists>out h' x'. fifo_run mb_put mb_get [Put [1, 2, 3], Get 2, Put [4], Get 5] (mb_default heap_empty) = Some (out, h', x') \<and>
    mb_live {#} (h', x') \<and> out @ mb_contents h' x' = [1, 2, 3, 4]"
proof -
  have "mb_live {#} (fst (mb_default heap_empty), snd (mb_default heap_empty))" using mb_default_live by simp
  moreover have "mb_wr (snd (mb_default heap_empty)) + length (fifo_input [Put [1, 2, 3], Get 2, Put [4], Get 5]) < 2 ^ 31"
    by (simp add: mb_default_def bb_new_def Let_def)
  moreover have "mb_contents (fst (mb_default heap_empty)) (snd (mb_default heap_empty)) = []"
    by (simp add: mb_default_def bb_new_def Let_def mb_contents_def)
  ultimately show ?thesis
    using mb_bytes_in_order[of "{#}" "fst (mb_default heap_empty)" "snd (mb_default heap_empty)" "[Put [1, 2, 3], Get 2, Put [4], Get 5]"]
    by simp
qed

text \<open>Copies share their bytes until one of them is written: after a copy, a write to the
  original goes to a block of its own, and the copy still holds the contents it was made from.\<close>

theorem mb_copy_on_write:
  assumes "mb_live L (h, x)" and "bb_alloc (mb_base x)" and "mb_wr x + length buf < 2 ^ 31"
  shows "\<exists>h1 y h2 x'. mb_copy h x = Returns (h1, y) \<and> bb_base (mb_base y) = bb_base (mb_base x) \<and>
    mb_write buf h1 x = Returns (h2, x', length buf) \<and>
    mb_contents h2 y = mb_contents h x \<and> mb_contents h2 x' = mb_contents h x @ buf \<and>
    bb_base (mb_base x') \<noteq> bb_base (mb_base y)"
proof -
  let ?b = "mb_base x"
  from assms(1) have ok: "heap_ok h (add_mset ?b L)" and x: "mb_ok x" by (simp_all add: mb_live_def)
  obtain h1 where 1: "bb_copy h ?b = Returns (h1, ?b)" "heap_ok h1 (add_mset ?b (add_mset ?b L))"
      "same_bytes h h1 (add_mset ?b L)"
    using bb_copy_ok[OF ok _ assms(2)] by auto
  then have c: "mb_copy h x = Returns (h1, x)" by (simp add: mb_copy_def)
  have "mb_live (add_mset ?b L) (h1, x)" using 1(2) x by (simp add: mb_live_def)
  then obtain h2 x' where 2: "mb_write buf h1 x = Returns (h2, x', length buf)" "mb_live (add_mset ?b L) (h2, x')"
      "mb_contents h2 x' = mb_contents h1 x @ buf" "mb_rd x' = mb_rd x" "mb_wr x' = mb_wr x + length buf"
      "same_bytes h1 h2 (mb_others x' (add_mset ?b L))" "exclusive h2 (mb_base x')"
    using assms(3) by (rule mb_write_ok)
  have blk: "bb_base ?b \<noteq> ExtP e" for e
    using ok assms(2) by (auto simp: heap_ok_def object_ok_def)
  then have "apart (mb_base x') ?b" by (simp add: apart_def split: ptr.split)
  then have "bb_bytes h2 ?b = bb_bytes h ?b"
    using 1(3) 2(6) by (simp add: same_bytes_def mb_others_def)
  then have "mb_contents h2 x = mb_contents h x" by (simp add: mb_contents_def)
  moreover have "mb_contents h1 x = mb_contents h x" using 1(3) by (simp add: same_bytes_def mb_contents_def)
  moreover have "bb_base (mb_base x') \<noteq> bb_base ?b"
  proof (cases "bb_base ?b")
    case (BlkP b)
    have live: "heap_ok h2 (add_mset (mb_base x') (add_mset ?b L))" using 2(2) by (simp add: mb_live_def)
    show ?thesis
    proof
      assume e: "bb_base (mb_base x') = bb_base ?b"
      then have "owns b (mb_base x')" using live BlkP by (auto simp: owns_def heap_ok_def object_ok_def)
      from exclusive_apart[OF live 2(7) _ this, of ?b] e BlkP show False by simp
    qed
  qed (use ok assms(2) blk in \<open>auto simp: heap_ok_def object_ok_def\<close>)
  ultimately show ?thesis using c 2(1,3) by auto
qed

theorem mb_copy_on_write_witness:
  "\<exists>h1 y h2 x'. mb_copy (fst (mb_default heap_empty)) (snd (mb_default heap_empty)) = Returns (h1, y) \<and>
    mb_write [7] h1 (snd (mb_default heap_empty)) = Returns (h2, x', 1) \<and>
    mb_contents h2 y = [] \<and> mb_contents h2 x' = [7]"
proof -
  let ?h = "fst (mb_default heap_empty)" and ?x = "snd (mb_default heap_empty)"
  have "mb_live {#} (?h, ?x)" using mb_default_live by simp
  moreover have "bb_alloc (mb_base ?x)" "mb_wr ?x + length [7 :: u8] < 2 ^ 31" "mb_contents ?h ?x = []"
    by (simp_all add: mb_default_def bb_new_def Let_def mb_contents_def)
  ultimately show ?thesis using mb_copy_on_write[of "{#}" ?h ?x "[7]"] by auto
qed

section \<open>Programs over many objects\<close>

text \<open>
  A program that constructs, copies, assigns, moves, uses and destroys memory blocks: the state
  is the store and the list of live objects. A move assignment here ends the life of its source,
  since it leaves that object with positions beyond its (empty) buffer.
\<close>

datatype mb_cmd =
    New nat | Copy nat | Assign nat nat | Move nat | MoveAssign nat nat | Destroy nat
  | Write nat "u8 list" | Read nat nat | Align nat | Swap nat nat

fun out_bind :: "'a outcome \<Rightarrow> ('a \<Rightarrow> 'b outcome) \<Rightarrow> 'b outcome" where
  "out_bind (Returns x) f = f x"
| "out_bind (Throws e) f = Throws e"
| "out_bind Undefined f = Undefined"

definition remove_nth :: "nat \<Rightarrow> 'a list \<Rightarrow> 'a list" where
  "remove_nth i xs = take i xs @ drop (Suc i) xs"

fun mb_exec :: "mb_cmd \<Rightarrow> heap \<times> memory_block list \<Rightarrow> (heap \<times> memory_block list) outcome" where
  "mb_exec (New n) (h, os) = (let (h', x) = mb_new n h in Returns (h', os @ [x]))"
| "mb_exec (Copy i) (h, os) = out_bind (mb_copy h (os ! i)) (\<lambda>(h', x). Returns (h', os @ [x]))"
| "mb_exec (Assign i j) (h, os) =
    out_bind (mb_assign h (os ! i) (os ! j)) (\<lambda>(h', x). Returns (h', os[i := x]))"
| "mb_exec (Move i) (h, os) = (let (x, y) = mb_move (os ! i) in Returns (h, os[i := y] @ [x]))"
| "mb_exec (MoveAssign i j) (h, os) =
    out_bind (mb_move_assign h (os ! i) (os ! j)) (\<lambda>(h', x, y).
      out_bind (mb_destroy h' y) (\<lambda>h''. Returns (h'', remove_nth j (os[i := x]))))"
| "mb_exec (Destroy i) (h, os) = out_bind (mb_destroy h (os ! i)) (\<lambda>h'. Returns (h', remove_nth i os))"
| "mb_exec (Write i xs) (h, os) = out_bind (mb_write xs h (os ! i)) (\<lambda>(h', x, _). Returns (h', os[i := x]))"
| "mb_exec (Read i n) (h, os) = out_bind (mb_read n h (os ! i)) (\<lambda>(_, x, _). Returns (h, os[i := x]))"
| "mb_exec (Align i) (h, os) = out_bind (mb_align h (os ! i)) (\<lambda>(h', x). Returns (h', os[i := x]))"
| "mb_exec (Swap i j) (h, os) =
    (let (x, y) = mb_swap (os ! i) (os ! j) in Returns (h, os[i := x, j := y]))"

text \<open>What a command needs of the program: live objects, and sizes below 2 GB.\<close>

fun mb_enabled :: "mb_cmd \<Rightarrow> memory_block list \<Rightarrow> bool" where
  "mb_enabled (New n) os \<longleftrightarrow> n < 2 ^ 31"
| "mb_enabled (Copy i) os \<longleftrightarrow> i < length os"
| "mb_enabled (Assign i j) os \<longleftrightarrow> i < length os \<and> j < length os"
| "mb_enabled (Move i) os \<longleftrightarrow> i < length os"
| "mb_enabled (MoveAssign i j) os \<longleftrightarrow> i < length os \<and> j < length os \<and> i \<noteq> j"
| "mb_enabled (Destroy i) os \<longleftrightarrow> i < length os"
| "mb_enabled (Write i xs) os \<longleftrightarrow> i < length os \<and> mb_wr (os ! i) + length xs < 2 ^ 31"
| "mb_enabled (Read i n) os \<longleftrightarrow> i < length os"
| "mb_enabled (Align i) os \<longleftrightarrow> i < length os"
| "mb_enabled (Swap i j) os \<longleftrightarrow> i < length os \<and> j < length os"

definition bases :: "memory_block list \<Rightarrow> buffer_base multiset" where
  "bases os = mset (map mb_base os)"

definition mb_world_ok :: "heap \<times> memory_block list \<Rightarrow> bool" where
  "mb_world_ok w \<longleftrightarrow> heap_ok (fst w) (bases (snd w)) \<and> list_all mb_ok (snd w)"

lemma bases_pick:
  assumes "i < length os"
  obtains L where "bases os = add_mset (mb_base (os ! i)) L" "\<And>y. bases (os[i := y]) = add_mset (mb_base y) L"
    "bases (remove_nth i os) = L"
proof (rule that[of "bases (remove_nth i os)"])
  show "bases os = add_mset (mb_base (os ! i)) (bases (remove_nth i os))"
    using arg_cong[OF id_take_nth_drop[OF assms], of bases] by (simp add: bases_def remove_nth_def)
  show "bases (os[i := y]) = add_mset (mb_base y) (bases (remove_nth i os))" for y
    using assms by (simp add: bases_def remove_nth_def upd_conv_take_nth_drop)
qed simp

lemma bases_append [simp]: "bases (os @ [x]) = add_mset (mb_base x) (bases os)"
  by (simp add: bases_def)

lemma list_all_update: "list_all P os \<Longrightarrow> P x \<Longrightarrow> list_all P (os[i := x])"
  by (auto simp: list_all_iff dest!: subsetD[OF set_update_subset_insert])

lemma list_all_remove: "list_all P os \<Longrightarrow> list_all P (remove_nth i os)"
  by (auto simp: list_all_iff remove_nth_def dest: in_set_takeD in_set_dropD)

lemma mb_eta [simp]: "\<lparr>mb_base = mb_base x, mb_rd = mb_rd x, mb_wr = mb_wr x\<rparr> = x"
  by simp

text \<open>One command keeps the world well formed, or throws and leaves it as it was.\<close>

definition mb_step_safe :: "mb_cmd \<Rightarrow> heap \<times> memory_block list \<Rightarrow> bool" where
  "mb_step_safe c w \<longleftrightarrow> (\<exists>w'. mb_exec c w = Returns w' \<and> mb_world_ok w') \<or> mb_exec c w = Throws Invalid_argument"

lemma mb_step_safeI: "mb_exec c w = Returns w' \<Longrightarrow> mb_world_ok w' \<Longrightarrow> mb_step_safe c w"
  by (auto simp: mb_step_safe_def)

lemma mb_world_live:
  assumes "mb_world_ok (h, os)" and "i < length os"
  obtains L where "mb_live L (h, os ! i)" "bases os = add_mset (mb_base (os ! i)) L"
    "\<And>h' y. mb_live L (h', y) \<Longrightarrow> mb_world_ok (h', os[i := y])"
    "\<And>h'. heap_ok h' L \<Longrightarrow> mb_world_ok (h', remove_nth i os)"
proof -
  obtain L where L: "bases os = add_mset (mb_base (os ! i)) L" "\<And>y. bases (os[i := y]) = add_mset (mb_base y) L"
    "bases (remove_nth i os) = L"
    using bases_pick[OF assms(2)] by blast
  from assms have all: "list_all mb_ok os" by (simp add: mb_world_ok_def)
  then have "mb_ok (os ! i)" using assms(2) by (simp add: list_all_iff)
  then have "mb_live L (h, os ! i)" using assms(1) L by (simp add: mb_live_def mb_world_ok_def)
  moreover have "mb_world_ok (h', os[i := y])" if "mb_live L (h', y)" for h' y
    using that L(2) all by (simp add: mb_live_def mb_world_ok_def list_all_update)
  moreover have "mb_world_ok (h', remove_nth i os)" if "heap_ok h' L" for h'
    using that L(3) all by (simp add: mb_world_ok_def list_all_remove)
  ultimately show ?thesis using that L(1) by blast
qed

lemma mb_safe_new: "mb_world_ok (h, os) \<Longrightarrow> n < 2 ^ 31 \<Longrightarrow> mb_step_safe (New n) (h, os)"
  using bb_new_ok(1,4)[of h "bases os" n]
  by (cases "bb_new n h") (simp add: mb_step_safe_def mb_new_def mb_world_ok_def mb_ok_def mb_size_def)

lemma mb_safe_copy:
  assumes "mb_world_ok (h, os)" and "i < length os"
  shows "mb_step_safe (Copy i) (h, os)"
proof (cases "bb_alloc (mb_base (os ! i))")
  case True
  obtain L where L: "bases os = add_mset (mb_base (os ! i)) L" using bases_pick[OF assms(2)] by blast
  have ok: "heap_ok h (bases os)" and all: "list_all mb_ok os" using assms(1) by (simp_all add: mb_world_ok_def)
  obtain h' where "bb_copy h (mb_base (os ! i)) = Returns (h', mb_base (os ! i))"
    "heap_ok h' (add_mset (mb_base (os ! i)) (bases os))"
    using bb_copy_ok[OF ok _ True] L by auto
  moreover have "mb_ok (os ! i)" using all assms(2) by (simp add: list_all_iff)
  ultimately show ?thesis using all by (simp add: mb_step_safe_def mb_copy_def mb_world_ok_def)
next
  case False
  then show ?thesis by (simp add: mb_step_safe_def mb_copy_def bb_copy_def)
qed

lemma mb_safe_assign:
  assumes "mb_world_ok (h, os)" and "i < length os" and "j < length os"
  shows "mb_step_safe (Assign i j) (h, os)"
proof (cases "bb_alloc (mb_base (os ! j))")
  case True
  let ?x = "os ! i" and ?y = "os ! j"
  obtain L where L: "mb_live L (h, ?x)" "bases os = add_mset (mb_base ?x) L"
    "\<And>h' y. mb_live L (h', y) \<Longrightarrow> mb_world_ok (h', os[i := y])"
    using assms(1,2) by (rule mb_world_live) blast
  have ok: "heap_ok h (add_mset (mb_base ?x) L)" using L(1) by (simp add: mb_live_def)
  have "mb_base ?y \<in># bases os" using assms(3) by (simp add: bases_def)
  then have mem: "mb_base ?y \<in># add_mset (mb_base ?x) L" using L(2) by simp
  obtain h1 where 1: "bb_copy h (mb_base ?y) = Returns (h1, mb_base ?y)"
      "heap_ok h1 (add_mset (mb_base ?y) (add_mset (mb_base ?x) L))"
    using bb_copy_ok[OF ok mem True] by blast
  then have "heap_ok h1 (add_mset (mb_base ?x) (add_mset (mb_base ?y) L))" by (simp add: add_mset_commute)
  then obtain h2 where 2: "bb_destroy h1 (mb_base ?x) = Returns h2" "heap_ok h2 (add_mset (mb_base ?y) L)"
    by (rule bb_destroy_ok)
  have "mb_ok ?y" using assms(1,3) by (simp add: mb_world_ok_def list_all_iff)
  with 2(2) have "mb_world_ok (h2, os[i := ?y])" by (intro L(3)) (simp add: mb_live_def)
  moreover have "mb_assign h ?x ?y = Returns (h2, ?y)"
    using 1 2 by (simp add: mb_assign_def mb_copy_def mb_swap_def bb_swap_def mb_destroy_def)
  ultimately show ?thesis by (simp add: mb_step_safe_def)
next
  case False
  then show ?thesis by (simp add: mb_step_safe_def mb_assign_def mb_copy_def bb_copy_def)
qed

lemma mb_safe_move:
  assumes "mb_world_ok (h, os)" and "i < length os"
  shows "mb_step_safe (Move i) (h, os)"
proof -
  let ?x = "os ! i" and ?e = "\<lparr>mb_base = bb_empty, mb_rd = 0, mb_wr = 0\<rparr>"
  obtain L where L: "bases os = add_mset (mb_base ?x) L" "\<And>y. bases (os[i := y]) = add_mset (mb_base y) L"
    using bases_pick[OF assms(2)] by blast
  have ok: "heap_ok h (add_mset (mb_base ?x) L)" and all: "list_all mb_ok os"
    using assms(1) L by (simp_all add: mb_world_ok_def)
  have "mb_ok ?e" by (simp add: mb_ok_def mb_size_def bb_empty_def)
  moreover have "mb_ok ?x" using all assms(2) by (simp add: list_all_iff)
  ultimately have "mb_world_ok (h, os[i := ?e] @ [?x])"
    using ok L all by (simp add: mb_world_ok_def list_all_update add_mset_commute[of _ bb_empty])
  then show ?thesis by (intro mb_step_safeI) (simp_all add: mb_move_def bb_move_def)
qed

lemma mb_safe_move_assign:
  assumes "mb_world_ok (h, os)" and "i < length os" and "j < length os" and "i \<noteq> j"
  shows "mb_step_safe (MoveAssign i j) (h, os)"
proof -
  let ?x = "os ! i" and ?y = "os ! j"
  obtain L where L: "bases os = add_mset (mb_base ?x) L" "\<And>y. bases (os[i := y]) = add_mset (mb_base y) L"
    using bases_pick[OF assms(2)] by blast
  have j: "j < length (os[i := ?y])" "os[i := ?y] ! j = ?y" using assms by simp_all
  obtain M where M: "bases (os[i := ?y]) = add_mset (mb_base ?y) M" "bases (remove_nth j (os[i := ?y])) = M"
    using bases_pick[OF j(1)] j(2) by metis
  have LM: "L = M" using L(2)[of ?y] M(1) by simp
  have all: "list_all mb_ok os" using assms(1) by (simp add: mb_world_ok_def)
  let ?e = "\<lparr>mb_base = (mb_base ?y)\<lparr>bb_size := Suc (bb_size (mb_base ?y))\<rparr>, mb_rd = 0, mb_wr = 0\<rparr>"
  have "mb_base ?e \<noteq> mb_base ?y"
  proof
    assume "mb_base ?e = mb_base ?y"
    then have "bb_size (mb_base ?e) = bb_size (mb_base ?y)" by (rule arg_cong)
    then show False by simp
  qed
  moreover have "mb_base (os[i := ?e] ! j) \<in># bases (os[i := ?e])" using assms(3) by (simp add: bases_def)
  ultimately have "mb_base ?y \<in># L" using assms(4) L(2)[of ?e] by simp
  then obtain K where K: "L = add_mset (mb_base ?y) K" by (rule mset_add)
  then have "heap_ok h (add_mset (mb_base ?x) (add_mset (mb_base ?y) K))"
    using assms(1) L(1) by (simp add: mb_world_ok_def)
  then obtain h' where h': "bb_move_assign h (mb_base ?x) (mb_base ?y) = Returns (h', mb_base ?y, bb_empty)"
      "heap_ok h' (add_mset (mb_base ?y) (add_mset bb_empty K))"
    by (rule bb_move_assign_ok)
  then have "heap_ok h' M" using LM K by (simp add: add_mset_commute[of _ bb_empty])
  moreover have "mb_ok ?y" using all assms(3) by (simp add: list_all_iff)
  ultimately have "mb_world_ok (h', remove_nth j (os[i := ?y]))"
    using M(2) all by (simp add: mb_world_ok_def list_all_remove list_all_update)
  moreover have "bb_destroy h' bb_empty = Returns h'" by (simp add: bb_destroy_def bb_dec_ref_def bb_empty_def)
  ultimately show ?thesis
    by (intro mb_step_safeI) (simp_all add: mb_move_assign_def h'(1) mb_destroy_def)
qed

lemma mb_safe_swap:
  assumes "mb_world_ok (h, os)" and "i < length os" and "j < length os"
  shows "mb_step_safe (Swap i j) (h, os)"
proof -
  have "mset (os[i := os ! j, j := os ! i]) = mset os" by (rule mset_swap[OF assms(3,2)])
  then have "bases (os[i := os ! j, j := os ! i]) = bases os" by (simp only: bases_def mset_map)
  moreover have "list_all mb_ok (os[i := os ! j, j := os ! i])"
  proof -
    have "list_all mb_ok os" using assms(1) by (simp add: mb_world_ok_def)
    moreover from this have "mb_ok (os ! i)" "mb_ok (os ! j)" using assms(2,3) by (simp_all add: list_all_length)
    ultimately show ?thesis by (simp add: list_all_update)
  qed
  ultimately have "mb_world_ok (h, os[i := os ! j, j := os ! i])" using assms(1) by (simp add: mb_world_ok_def)
  then show ?thesis by (intro mb_step_safeI) (simp_all add: mb_swap_def bb_swap_def)
qed

lemma mb_safe_use:
  assumes "mb_world_ok (h, os)" and "i < length os"
  shows "mb_step_safe (Destroy i) (h, os)" "mb_wr (os ! i) + length xs < 2 ^ 31 \<Longrightarrow> mb_step_safe (Write i xs) (h, os)"
    "mb_step_safe (Read i n) (h, os)" "mb_step_safe (Align i) (h, os)"
proof -
  let ?x = "os ! i"
  obtain L where L: "mb_live L (h, ?x)" "\<And>h' y. mb_live L (h', y) \<Longrightarrow> mb_world_ok (h', os[i := y])"
    "\<And>h'. heap_ok h' L \<Longrightarrow> mb_world_ok (h', remove_nth i os)"
    using assms by (rule mb_world_live) blast
  have ok: "heap_ok h (add_mset (mb_base ?x) L)" using L(1) by (simp add: mb_live_def)
  obtain h' where "bb_destroy h (mb_base ?x) = Returns h'" "heap_ok h' L"
    using ok by (rule bb_destroy_ok)
  then show "mb_step_safe (Destroy i) (h, os)"
    using L(3) by (intro mb_step_safeI) (auto simp: mb_destroy_def)
  show "mb_step_safe (Write i xs) (h, os)" if w: "mb_wr ?x + length xs < 2 ^ 31"
  proof -
    obtain h' x' where "mb_write xs h ?x = Returns (h', x', length xs)" "mb_live L (h', x')"
      by (rule mb_write_ok[OF L(1) w]) blast
    then show ?thesis using L(2) by (intro mb_step_safeI) auto
  qed
  obtain x' where "mb_read n h ?x = Returns (take n (mb_contents h ?x), x', min n (length (mb_contents h ?x)))"
    "mb_live L (h, x')"
    by (rule mb_read_ok[OF L(1), of n]) blast
  then show "mb_step_safe (Read i n) (h, os)" using L(2) by (intro mb_step_safeI) auto
  obtain h' x' where "mb_align h ?x = Returns (h', x')" "mb_live L (h', x')"
    by (rule mb_align_ok[OF L(1)]) blast
  then show "mb_step_safe (Align i) (h, os)" using L(2) by (intro mb_step_safeI) auto
qed

lemma mb_step_safe: "mb_world_ok (h, os) \<Longrightarrow> mb_enabled c os \<Longrightarrow> mb_step_safe c (h, os)"
  by (cases c) (simp_all add: mb_safe_new mb_safe_copy mb_safe_assign mb_safe_move mb_safe_move_assign
      mb_safe_swap mb_safe_use)

text \<open>A program: a command that is not enabled is not run; an exception is caught.\<close>

fun mb_run :: "mb_cmd list \<Rightarrow> heap \<times> memory_block list \<Rightarrow> (heap \<times> memory_block list) outcome" where
  "mb_run [] w = Returns w"
| "mb_run (c # cs) w =
    (if mb_enabled c (snd w)
     then case mb_exec c w of
         Returns w' \<Rightarrow> mb_run cs w' | Throws e \<Rightarrow> mb_run cs w | Undefined \<Rightarrow> Undefined
     else mb_run cs w)"

text \<open>C4. Reference counting is safe for every program of constructions, copies, assignments, moves,
  swaps, destructions, reads, writes and alignments: no command touches freed memory or runs out
  of a buffer, every count is the number of objects that own the block, and when no object is
  left every block has been freed, exactly once.\<close>

theorem mb_programs_safe:
  assumes "mb_world_ok w"
  shows "\<exists>w'. mb_run cs w = Returns w' \<and> mb_world_ok w' \<and> (snd w' = [] \<longrightarrow> hblocks (fst w') = Map.empty)"
  using assms
proof (induction cs arbitrary: w)
  case Nil
  have "hblocks (fst w) b = None" if "snd w = []" for b
  proof (cases "hblocks (fst w) b")
    case (Some m)
    have "heap_ok (fst w) {#}" using Nil that by (simp add: mb_world_ok_def bases_def)
    from heap_ok_block[OF this Some] have "0 < int (owners b {#})" by metis
    then show ?thesis by simp
  qed simp
  with Nil show ?case by auto
next
  case (Cons c cs)
  show ?case
  proof (cases "mb_enabled c (snd w)")
    case True
    with Cons.prems have "mb_step_safe c w" by (cases w) (simp add: mb_step_safe)
    then show ?thesis using Cons.IH Cons.prems True unfolding mb_step_safe_def by (elim disjE exE) simp_all
  qed (use Cons in simp)
qed

theorem mb_programs_safe_witness:
  "\<exists>w'. mb_run [New 4, Write 0 [1, 2], Copy 0, Assign 1 0, Write 1 [3], Move 0, Destroy 2, Destroy 1, Destroy 0] (heap_empty, []) =
     Returns w' \<and> mb_world_ok w' \<and> (snd w' = [] \<longrightarrow> hblocks (fst w') = Map.empty)"
proof (rule mb_programs_safe)
  show "mb_world_ok (heap_empty, [])" by (simp add: mb_world_ok_def heap_ok_def heap_empty_def bases_def)
qed

end
