(* ===== verification/Calendar.thy ===== *)
theory Calendar
  imports Prelude
begin

text \<open>
  \<open>tdk::time::ctime\<close> (\<open>src/tdk/time/ctime.cpp\<close>): the leap years, the day counts, and the
  conversions between a \<open>time_t\<close> (64 bits) and a broken-down \<open>tm\<close> in UTC. \<open>int\<close> products are
  truncated to 32 bits where the code computes them in \<open>int\<close>; an access outside the table of
  month lengths is \<open>None\<close>.
\<close>

section \<open>The code\<close>

definition month_table :: "bool \<Rightarrow> int list" where
  "month_table leap =
    (if leap then [31, 29, 31, 30, 31, 30, 31, 31, 30, 31, 30, 31]
     else [31, 28, 31, 30, 31, 30, 31, 31, 30, 31, 30, 31])"

record tm =
  tm_sec :: int
  tm_min :: int
  tm_hour :: int
  tm_mday :: int
  tm_mon :: int
  tm_year :: int
  tm_wday :: int
  tm_yday :: int
  tm_isdst :: int

definition isleapyear :: "int \<Rightarrow> bool" where
  "isleapyear year =
    (if c_mod year 4 = 0
     then if c_mod year 100 = 0
          then if c_mod year 400 = 0 then True else False
          else True
     else False)"

definition daycount_year :: "int \<Rightarrow> int" where
  "daycount_year year = (if isleapyear year then 366 else 365)"

function daycount_loop :: "int \<Rightarrow> int \<Rightarrow> int \<Rightarrow> int" where
  "daycount_loop stYear endYear v =
    (if stYear \<le> endYear then daycount_loop (stYear + 1) endYear (v + daycount_year stYear) else v)"
  by pat_completeness auto
termination
  by (relation "measure (\<lambda>(s, e, v). nat (e + 1 - s))") auto

declare daycount_loop.simps [simp del]

definition daycount_years :: "int \<Rightarrow> int \<Rightarrow> int" where
  "daycount_years startYear endYear = daycount_loop startYear endYear 0"

fun daycount_months :: "int list \<Rightarrow> nat \<Rightarrow> nat \<Rightarrow> int \<Rightarrow> int option" where
  "daycount_months table i 0 v = Some v"
| "daycount_months table i (Suc n) v =
    (if i < length table then daycount_months table (i + 1) n (v + table ! i) else None)"

definition daycount_date :: "int \<Rightarrow> int \<Rightarrow> int \<Rightarrow> int option" where
  "daycount_date year month day =
    map_option (\<lambda>v. v + day) (daycount_months (month_table (isleapyear year)) 0 (nat (month - 1)) 0)"

definition ctime_of_tm :: "tm \<Rightarrow> int" where
  "ctime_of_tm aTm =
    (let t = 0;
         t = to_i64 (t + tm_sec aTm);
         t = to_i64 (t + to_i32 (tm_min aTm * 60));
         t = to_i64 (t + to_i32 (tm_hour aTm * 60 * 60));
         t = to_i64 (t + to_i32 (tm_yday aTm * 60 * 60 * 24));
         t = to_i64 (t + to_i32 (daycount_years 1970 (tm_year aTm + 1900 - 1) * (60 * 60 * 24)))
     in t)"

function ctime_year :: "int \<Rightarrow> int \<Rightarrow> int \<times> int" where
  "ctime_year year daycount =
    (if daycount < daycount_year year then (year, daycount)
     else ctime_year (year + 1) (daycount - daycount_year year))"
  by pat_completeness auto
termination
  by (relation "measure (\<lambda>(y, d). nat d)") (auto simp: daycount_year_def split: if_splits)

declare ctime_year.simps [simp del]

function ctime_month :: "int list \<Rightarrow> nat \<Rightarrow> int \<Rightarrow> (nat \<times> int) option" where
  "ctime_month table month daycount =
    (if month < length table
     then if daycount < table ! month then Some (month, daycount)
          else ctime_month table (month + 1) (daycount - table ! month)
     else None)"
  by pat_completeness auto
termination
  by (relation "measure (\<lambda>(t, m, d). length t - m)") auto

declare ctime_month.simps [simp del]

definition ctime_to_tm :: "int \<Rightarrow> tm option" where
  "ctime_to_tm aTime =
    (let daycount = to_i32 (c_div aTime (60 * 60 * 24));
         (year, yday) = ctime_year 1970 daycount
     in case ctime_month (month_table (isleapyear year)) 0 yday of
         None \<Rightarrow> None
       | Some (month, rest) \<Rightarrow> Some \<lparr>
           tm_sec = c_mod aTime 60,
           tm_min = c_div (c_mod aTime (60 * 60)) 60,
           tm_hour = c_div (c_mod aTime (60 * 60 * 24)) (60 * 60),
           tm_mday = rest + 1,
           tm_mon = int month,
           tm_year = year - 1900,
           tm_wday = c_mod (c_div aTime (60 * 60 * 24) + 4) 7,
           tm_yday = yday,
           tm_isdst = 0\<rparr>)"

section \<open>Years and months\<close>

lemma isleapyear_Gregorian:
  "0 \<le> y \<Longrightarrow> isleapyear y \<longleftrightarrow> 4 dvd y \<and> (\<not> 100 dvd y \<or> 400 dvd y)"
  by (simp add: isleapyear_def c_mod_nonneg dvd_eq_mod_eq_0)

lemma daycount_year_pos: "0 < daycount_year y" "daycount_year y \<le> 366"
  by (simp_all add: daycount_year_def)

lemma daycount_loop_add: "daycount_loop s e v = v + daycount_loop s e 0"
proof (induction "nat (e + 1 - s)" arbitrary: s v)
  case 0
  then show ?case by (simp add: daycount_loop.simps)
next
  case (Suc n)
  then have "n = nat (e + 1 - (s + 1))" "s \<le> e" by auto
  from Suc.hyps(1)[OF this(1), of "v + daycount_year s"] Suc.hyps(1)[OF this(1), of "daycount_year s"] this(2)
  show ?case by (simp add: daycount_loop.simps[of s])
qed

lemma daycount_years_step:
  "s \<le> e \<Longrightarrow> daycount_years s e = daycount_year s + daycount_years (s + 1) e"
  using daycount_loop_add[of "s + 1" e "daycount_year s"]
  by (simp add: daycount_years_def daycount_loop.simps[of s])

lemma daycount_years_none: "e < s \<Longrightarrow> daycount_years s e = 0"
  by (simp add: daycount_years_def daycount_loop.simps)

lemma daycount_years_nonneg: "0 \<le> daycount_years s e"
proof (induction "nat (e + 1 - s)" arbitrary: s)
  case (Suc n)
  then have "s \<le> e" "n = nat (e + 1 - (s + 1))" by auto
  then show ?case using Suc.hyps(1)[of "s + 1"] daycount_year_pos(1)[of s] by (simp add: daycount_years_step)
qed (simp add: daycount_years_none)

text \<open>The year loop splits a day number into the years before and a day of the year.\<close>

lemma ctime_year:
  "0 \<le> d \<Longrightarrow> ctime_year y d = (y', r) \<Longrightarrow>
   y \<le> y' \<and> 0 \<le> r \<and> r < daycount_year y' \<and> d = daycount_years y (y' - 1) + r"
proof (induction y d rule: ctime_year.induct)
  case (1 y d)
  show ?case
  proof (cases "d < daycount_year y")
    case True
    with 1 show ?thesis by (simp add: ctime_year.simps[of y] daycount_years_none)
  next
    case False
    with 1 have "y + 1 \<le> y' \<and> 0 \<le> r \<and> r < daycount_year y' \<and>
        d - daycount_year y = daycount_years (y + 1) (y' - 1) + r"
      by (simp add: ctime_year.simps[of y])
    then show ?thesis using daycount_years_step[of y "y' - 1"] by simp
  qed
qed

lemma ctime_year_days:
  "s \<le> y' \<Longrightarrow> 0 \<le> r \<Longrightarrow> r < daycount_year y' \<Longrightarrow> ctime_year s (daycount_years s (y' - 1) + r) = (y', r)"
proof (induction "nat (y' - s)" arbitrary: s)
  case 0
  then show ?case by (simp add: ctime_year.simps daycount_years_none)
next
  case (Suc n)
  then have s: "s + 1 \<le> y'" "n = nat (y' - (s + 1))" by auto
  have "\<not> daycount_years s (y' - 1) + r < daycount_year s"
    using s Suc.prems daycount_years_nonneg[of "s + 1" "y' - 1"] by (simp add: daycount_years_step)
  then show ?case
    using s Suc by (simp add: ctime_year.simps[of s] daycount_years_step[of s])
qed

lemma daycount_months_sum:
  "i + n \<le> length table \<Longrightarrow> daycount_months table i n v = Some (v + sum_list (take n (drop i table)))"
proof (induction table i n v rule: daycount_months.induct)
  case (2 table i n v)
  then have "drop i table = table ! i # drop (Suc i) table" by (simp add: Cons_nth_drop_Suc)
  with 2 show ?case by (simp add: drop_Suc)
qed simp

lemma month_table_length [simp]: "length (month_table leap) = 12"
  by (simp add: month_table_def)

lemma sum_month_table: "sum_list (month_table (isleapyear y)) = daycount_year y"
  by (simp add: month_table_def daycount_year_def)

lemma month_table_range: "m < 12 \<Longrightarrow> 28 \<le> month_table leap ! m \<and> month_table leap ! m \<le> 31"
proof -
  have "\<forall>x \<in> set (month_table leap). 28 \<le> x \<and> x \<le> 31" by (simp add: month_table_def)
  moreover assume "m < 12"
  ultimately show ?thesis by (simp add: all_set_conv_all_nth)
qed

lemma ctime_month:
  "m \<le> length table \<Longrightarrow> 0 \<le> d \<Longrightarrow> d < sum_list (drop m table) \<Longrightarrow>
   \<exists>k r. ctime_month table m d = Some (k, r) \<and> m \<le> k \<and> k < length table \<and> 0 \<le> r \<and> r < table ! k \<and>
     d = sum_list (take (k - m) (drop m table)) + r"
proof (induction table m d rule: ctime_month.induct)
  case (1 table m d)
  from 1(2-4) have m: "m < length table" by (cases "m = length table") auto
  then have dr: "drop m table = table ! m # drop (Suc m) table" by (simp add: Cons_nth_drop_Suc)
  show ?case
  proof (cases "d < table ! m")
    case True
    with m 1 show ?thesis by (auto simp: ctime_month.simps[of table m])
  next
    case False
    have "\<exists>k r. ctime_month table (m + 1) (d - table ! m) = Some (k, r) \<and> m + 1 \<le> k \<and> k < length table \<and>
        0 \<le> r \<and> r < table ! k \<and> d - table ! m = sum_list (take (k - (m + 1)) (drop (m + 1) table)) + r"
      using "1.IH"[OF m False] m False "1.prems" dr by simp
    then obtain k r where k: "ctime_month table (m + 1) (d - table ! m) = Some (k, r)" "m + 1 \<le> k"
      "k < length table" "0 \<le> r" "r < table ! k" "d - table ! m = sum_list (take (k - (m + 1)) (drop (m + 1) table)) + r"
      by blast
    moreover have "take (k - m) (drop m table) = table ! m # take (k - (m + 1)) (drop (m + 1) table)"
    proof -
      have "k - m = Suc (k - (m + 1))" using k(2) by simp
      then show ?thesis by (simp only: take_Suc_Cons dr) simp
    qed
    ultimately show ?thesis using m False by (auto simp: ctime_month.simps[of table m])
  qed
qed

lemma ctime_month_days:
  "m \<le> k \<Longrightarrow> k < length table \<Longrightarrow> 0 \<le> r \<Longrightarrow> r < table ! k \<Longrightarrow> (\<forall>x \<in> set table. 0 < x) \<Longrightarrow>
   ctime_month table m (sum_list (take (k - m) (drop m table)) + r) = Some (k, r)"
proof (induction "k - m" arbitrary: m)
  case 0
  then show ?case by (simp add: ctime_month.simps)
next
  case (Suc n)
  then have m: "m + 1 \<le> k" "m < length table" "n = k - (m + 1)" by auto
  then have dr: "drop m table = table ! m # drop (Suc m) table" by (simp add: Cons_nth_drop_Suc)
  have tk: "take (k - m) (drop m table) = table ! m # take (k - (m + 1)) (drop (m + 1) table)"
  proof -
    have "k - m = Suc (k - (m + 1))" using m(1) by simp
    then show ?thesis by (simp only: take_Suc_Cons dr) simp
  qed
  have "0 \<le> sum_list (take (k - (m + 1)) (drop (m + 1) table))"
    by (rule sum_list_nonneg) (use Suc.prems(5) in \<open>auto dest!: in_set_takeD in_set_dropD intro: less_imp_le\<close>)
  then have "\<not> sum_list (take (k - m) (drop m table)) + r < table ! m"
    using Suc.prems(3) by (simp add: tk)
  then show ?case using Suc m tk by (simp add: ctime_month.simps[of table m])
qed

section \<open>The conversions\<close>

text \<open>The fields of a time within one day, and the date they belong to.\<close>

definition tm_ok :: "tm \<Rightarrow> bool" where
  "tm_ok x \<longleftrightarrow> 0 \<le> tm_sec x \<and> tm_sec x < 60 \<and> 0 \<le> tm_min x \<and> tm_min x < 60 \<and> 0 \<le> tm_hour x \<and> tm_hour x < 24 \<and>
    0 \<le> tm_mon x \<and> tm_mon x < 12 \<and> 1 \<le> tm_mday x \<and>
    tm_mday x \<le> month_table (isleapyear (tm_year x + 1900)) ! nat (tm_mon x) \<and>
    0 \<le> tm_wday x \<and> tm_wday x < 7 \<and> 70 \<le> tm_year x \<and>
    daycount_date (tm_year x + 1900) (tm_mon x + 1) (tm_mday x) = Some (tm_yday x + 1)"

lemma seconds_of_day:
  fixes t :: int
  assumes "0 \<le> t"
  shows "t mod 60 + t mod 3600 div 60 * 60 + t mod 86400 div 3600 * 3600 + t div 86400 * 86400 = t"
proof -
  have "t mod 3600 mod 60 = t mod 60" "t mod 86400 mod 3600 = t mod 3600"
    by (simp_all add: mod_mod_cancel)
  then show ?thesis
    using div_mult_mod_eq[of "t mod 3600" 60] div_mult_mod_eq[of "t mod 86400" 3600] div_mult_mod_eq[of t 86400]
    by linarith
qed

lemma ctime_to_tm_split:
  assumes "0 \<le> t" and "t < 2 ^ 31 * 86400"
  obtains y yd m r where "ctime_to_tm t = Some \<lparr>tm_sec = t mod 60, tm_min = t mod 3600 div 60,
      tm_hour = t mod 86400 div 3600, tm_mday = r + 1, tm_mon = int m, tm_year = y - 1900,
      tm_wday = (t div 86400 + 4) mod 7, tm_yday = yd, tm_isdst = 0\<rparr>"
    "1970 \<le> y" "0 \<le> yd" "yd < daycount_year y" "t div 86400 = daycount_years 1970 (y - 1) + yd"
    "m < 12" "0 \<le> r" "r < month_table (isleapyear y) ! m"
    "yd = sum_list (take m (month_table (isleapyear y))) + r"
proof -
  have "t div 86400 < 2 ^ 31" using assms by (simp add: div_less_iff_less_mult)
  moreover have "0 \<le> t div 86400" using assms(1) by (simp add: pos_imp_zdiv_nonneg_iff)
  ultimately have d: "to_i32 (t div 86400) = t div 86400" by (simp add: to_i32_id)
  obtain y yd where y: "ctime_year 1970 (t div 86400) = (y, yd)" by (cases "ctime_year 1970 (t div 86400)")
  note yr = ctime_year[OF \<open>0 \<le> t div 86400\<close> y]
  obtain m r where m: "ctime_month (month_table (isleapyear y)) 0 yd = Some (m, r)" "m < 12" "0 \<le> r"
      "r < month_table (isleapyear y) ! m" "yd = sum_list (take m (month_table (isleapyear y))) + r"
    using ctime_month[of 0 "month_table (isleapyear y)" yd] yr by (auto simp: sum_month_table)
  have "ctime_to_tm t = Some \<lparr>tm_sec = t mod 60, tm_min = t mod 3600 div 60,
      tm_hour = t mod 86400 div 3600, tm_mday = r + 1, tm_mon = int m, tm_year = y - 1900,
      tm_wday = (t div 86400 + 4) mod 7, tm_yday = yd, tm_isdst = 0\<rparr>"
    using assms(1) \<open>0 \<le> t div 86400\<close> by (simp add: ctime_to_tm_def c_div_nonneg c_mod_nonneg y d m(1))
  with yr m show ?thesis by (intro that[of r m y yd]) blast+
qed

lemma ctime_tm_ok:
  assumes "0 \<le> t" and "t < 2 ^ 31 * 86400"
  shows "\<exists>x. ctime_to_tm t = Some x \<and> tm_ok x"
proof -
  obtain y yd m r where x: "ctime_to_tm t = Some \<lparr>tm_sec = t mod 60, tm_min = t mod 3600 div 60,
      tm_hour = t mod 86400 div 3600, tm_mday = r + 1, tm_mon = int m, tm_year = y - 1900,
      tm_wday = (t div 86400 + 4) mod 7, tm_yday = yd, tm_isdst = 0\<rparr>"
    and f: "1970 \<le> y" "m < 12" "0 \<le> r" "r < month_table (isleapyear y) ! m"
      "yd = sum_list (take m (month_table (isleapyear y))) + r"
    using assms by (rule ctime_to_tm_split)
  have "daycount_date y (int m + 1) (r + 1) = Some (yd + 1)"
    using f daycount_months_sum[of 0 m "month_table (isleapyear y)" 0] by (simp add: daycount_date_def)
  moreover have "t mod 3600 div 60 < 60" "t mod 86400 div 3600 < 24" by (simp_all add: div_less_iff_less_mult)
  moreover have "0 \<le> t mod 3600 div 60" "0 \<le> t mod 86400 div 3600" by (simp_all add: pos_imp_zdiv_nonneg_iff)
  ultimately show ?thesis using x f by (simp add: tm_ok_def)
qed



lemma ctime_of_tm_exact:
  assumes "0 \<le> tm_sec x" "0 \<le> tm_min x" "0 \<le> tm_hour x" "0 \<le> tm_yday x"
    and "tm_sec x + tm_min x * 60 + tm_hour x * 3600 + tm_yday x * 86400 +
      daycount_years 1970 (tm_year x + 1900 - 1) * 86400 < 2 ^ 31"
  shows "ctime_of_tm x = tm_sec x + tm_min x * 60 + tm_hour x * 3600 + tm_yday x * 86400 +
      daycount_years 1970 (tm_year x + 1900 - 1) * 86400"
proof -
  have n: "0 \<le> daycount_years 1970 (tm_year x + 1900 - 1)" by (rule daycount_years_nonneg)
  define a b c d e where "a = tm_sec x" and "b = tm_min x" and "c = tm_hour x" and "d = tm_yday x"
    and "e = daycount_years 1970 (tm_year x + 1900 - 1)"
  note vars = this
  have r: "to_i32 v = v" "to_i64 v = v" if "0 \<le> v" "v < 2 ^ 31" for v
    using that by (simp_all add: to_i32_id to_i64_id)
  from assms n have nn: "0 \<le> a" "0 \<le> b" "0 \<le> c" "0 \<le> d" "0 \<le> e"
    and lt: "a + b * 60 + c * 3600 + d * 86400 + e * 86400 < 2 ^ 31" by (simp_all add: vars)
  show ?thesis
    unfolding ctime_of_tm_def Let_def vars[symmetric] add_0 using nn lt by (simp add: r mult.assoc)
qed

lemma ctime_to_tm_sum:
  assumes "0 \<le> t" and "t < 2 ^ 31 * 86400"
  obtains x where "ctime_to_tm t = Some x" "0 \<le> tm_sec x" "0 \<le> tm_min x" "0 \<le> tm_hour x" "0 \<le> tm_yday x"
    "tm_sec x + tm_min x * 60 + tm_hour x * 3600 + tm_yday x * 86400 +
      daycount_years 1970 (tm_year x + 1900 - 1) * 86400 = t"
proof -
  obtain y yd m r where x: "ctime_to_tm t = Some \<lparr>tm_sec = t mod 60, tm_min = t mod 3600 div 60,
      tm_hour = t mod 86400 div 3600, tm_mday = r + 1, tm_mon = int m, tm_year = y - 1900,
      tm_wday = (t div 86400 + 4) mod 7, tm_yday = yd, tm_isdst = 0\<rparr>"
    and f: "0 \<le> yd" "t div 86400 = daycount_years 1970 (y - 1) + yd"
    using assms by (rule ctime_to_tm_split)
  have sum: "t mod 60 + t mod 3600 div 60 * 60 + t mod 86400 div 3600 * 3600 + yd * 86400 +
      daycount_years 1970 (y - 1900 + 1900 - 1) * 86400 = t"
    using seconds_of_day[OF assms(1)] f(2) by (simp add: algebra_simps)
  have nn: "0 \<le> t mod 60" "0 \<le> t mod 3600 div 60" "0 \<le> t mod 86400 div 3600"
    by (simp_all add: pos_imp_zdiv_nonneg_iff)
  show ?thesis
    by (rule that[OF x]; unfold tm.simps; rule nn sum f(1))
qed

text \<open>\<open>convert\<close> to \<open>tm\<close> and back is the identity on every time below \<open>2 ^ 31\<close>.\<close>

theorem ctime_roundtrip:
  assumes "0 \<le> t" and "t < 2 ^ 31"
  shows "map_option ctime_of_tm (ctime_to_tm t) = Some t"
proof -
  have "t < 2 ^ 31 * 86400" using assms by simp
  with assms(1) obtain x where x: "ctime_to_tm t = Some x" "0 \<le> tm_sec x" "0 \<le> tm_min x" "0 \<le> tm_hour x" "0 \<le> tm_yday x"
    "tm_sec x + tm_min x * 60 + tm_hour x * 3600 + tm_yday x * 86400 +
      daycount_years 1970 (tm_year x + 1900 - 1) * 86400 = t"
    by (rule ctime_to_tm_sum)
  from ctime_of_tm_exact[OF x(2-5)] have "ctime_of_tm x = t" using assms(2) unfolding x(6) by simp
  with x(1) show ?thesis by simp
qed

theorem ctime_roundtrip_witness: "map_option ctime_of_tm (ctime_to_tm 951782400) = Some 951782400"
  by (rule ctime_roundtrip) simp_all

text \<open>The other direction is wrong from the year 2039 on: \<open>convert\<close> multiplies the days before
  the year by 86400 in \<open>int\<close>, and 25202 days no longer fit; the result falls short by
  \<open>2 ^ 32\<close> seconds.\<close>

theorem ctime_2039_overflow:
  "map_option ctime_of_tm (ctime_to_tm 2177452800) = Some (2177452800 - 2 ^ 32)"
proof -
  have "ctime_year 1970 25202 = (2039, 0)"
    by (simp add: ctime_year.simps daycount_year_def isleapyear_def c_mod_nonneg)
  moreover have "daycount_years 1970 2038 = 25202"
    by (simp add: daycount_years_def daycount_loop.simps daycount_year_def isleapyear_def c_mod_nonneg)
  ultimately show ?thesis
    by (simp add: ctime_to_tm_def ctime_of_tm_def c_div_nonneg c_mod_nonneg to_i32_def to_i64_def
        month_table_def isleapyear_def ctime_month.simps)
qed

end
