(* ===== verification/Time.thy ===== *)
theory Time
  imports Calendar
begin

text \<open>
  \<open>tdk::time::tick\<close>, \<open>tdk::time_span\<close>, \<open>tdk::date_time\<close> and \<open>tdk::remote_time\<close>
  (\<open>src/tdk/time\<close>): microseconds since 1970 as \<open>uint64_t\<close>, spans as \<open>int64_t\<close>, and their
  conversions to the structures of the C library. Both integer types wrap here (for the signed one
  C++ leaves an overflow undefined). The clock and \<open>localtime_r\<close> are arguments.
\<close>

section \<open>Ticks\<close>

definition SECOND_TO_MICRO :: int where
  "SECOND_TO_MICRO = 1000 * 1000"

definition EPOCH_SECONDS :: int where
  "EPOCH_SECONDS = 11644473600"

text \<open>\<open>timeval\<close> and \<open>timespec\<close> are pairs of seconds and micro- or nanoseconds.\<close>

definition tick_from_timeval :: "int \<times> int \<Rightarrow> int" where
  "tick_from_timeval tv =
    (let v = to_u64 (fst tv);
         v = to_u64 (v * SECOND_TO_MICRO)
     in to_u64 (v + snd tv))"

definition tick_from_time_t :: "int \<Rightarrow> int" where
  "tick_from_time_t t = tick_from_timeval (t, 0)"

definition tick_from_tm :: "tm \<Rightarrow> int" where
  "tick_from_tm t = tick_from_time_t (ctime_of_tm t)"

definition tick_from_timespec :: "int \<times> int \<Rightarrow> int" where
  "tick_from_timespec ts =
    (let v = to_u64 (fst ts);
         v = to_u64 (v * SECOND_TO_MICRO)
     in to_u64 (v + c_div (snd ts) 1000))"

definition tick_to_timespec :: "int \<Rightarrow> int \<times> int" where
  "tick_to_timespec v = (to_i64 (v div SECOND_TO_MICRO), v mod SECOND_TO_MICRO * 1000)"

definition tick_to_time_t :: "int \<Rightarrow> int" where
  "tick_to_time_t v = to_i64 (v div SECOND_TO_MICRO)"

definition tick_to_timeval :: "int \<Rightarrow> int \<times> int" where
  "tick_to_timeval v = (to_i64 (v div SECOND_TO_MICRO), v mod SECOND_TO_MICRO)"

definition tick_to_tm :: "int \<Rightarrow> tm option" where
  "tick_to_tm v = ctime_to_tm (to_i64 (v div SECOND_TO_MICRO))"

record filetime =
  dwLowDateTime :: int
  dwHighDateTime :: int

definition tick_from_filetime :: "filetime \<Rightarrow> int" where
  "tick_from_filetime ft =
    (let v = dwHighDateTime ft;
         v = to_u64 (v * 2 ^ 32);
         v = to_u64 (v + dwLowDateTime ft);
         v = v div 10
     in to_u64 (v - to_u64 (EPOCH_SECONDS * SECOND_TO_MICRO)))"

definition tick_to_filetime :: "int \<Rightarrow> filetime" where
  "tick_to_filetime v =
    (let tv = to_u64 (v + to_u64 (EPOCH_SECONDS * SECOND_TO_MICRO));
         tv = to_u64 (tv * 10)
     in \<lparr>dwLowDateTime = to_u32 tv, dwHighDateTime = tv div 2 ^ 32\<rparr>)"

record systemtime =
  wYear :: int
  wMonth :: int
  wDayOfWeek :: int
  wDay :: int
  wHour :: int
  wMinute :: int
  wSecond :: int
  wMilliseconds :: int

definition to_u16 :: "int \<Rightarrow> int" where
  "to_u16 x = x mod 2 ^ 16"

text \<open>\<open>wDayOfWeek\<close> is not set: it is what the uninitialised structure held.\<close>

definition tick_to_systemtime :: "int \<Rightarrow> int \<Rightarrow> systemtime option" where
  "tick_to_systemtime junk v = (case tick_to_tm v of
      None \<Rightarrow> None
    | Some tm_date \<Rightarrow> Some \<lparr>
        wYear = to_u16 (tm_year tm_date + 1900),
        wMonth = to_u16 (tm_mon tm_date + 1),
        wDayOfWeek = junk,
        wDay = to_u16 (tm_mday tm_date),
        wHour = to_u16 (tm_hour tm_date),
        wMinute = to_u16 (tm_min tm_date),
        wSecond = to_u16 (tm_sec tm_date),
        wMilliseconds = to_u16 (v mod SECOND_TO_MICRO div 1000)\<rparr>)"

text \<open>The fields of \<open>tm_date\<close> the code does not assign (the day of the year among them) are
  those of \<open>junk\<close>.\<close>

definition tick_from_systemtime :: "tm \<Rightarrow> systemtime \<Rightarrow> int" where
  "tick_from_systemtime junk st =
    tick_from_time_t (ctime_of_tm (junk\<lparr>
        tm_hour := wHour st,
        tm_min := wMinute st,
        tm_mday := wDay st,
        tm_mon := wMonth st - 1,
        tm_sec := wSecond st,
        tm_year := wYear st - 1900\<rparr>))"

text \<open>\<open>clock_gettime\<close> gives a \<open>timespec\<close> or fails; then \<open>std::time\<close> is used.\<close>

definition tick_utc :: "(int \<times> int) option \<Rightarrow> int \<Rightarrow> int" where
  "tick_utc clock time = (case clock of Some ts \<Rightarrow> tick_from_timespec ts | None \<Rightarrow> tick_from_time_t time)"

section \<open>Spans\<close>

type_synonym time_span = int

definition ts_hms :: "int \<Rightarrow> int \<Rightarrow> int \<Rightarrow> time_span" where
  "ts_hms hours minutes seconds =
    (let d = hours; d = to_i64 (d * 60); d = to_i64 (d + minutes); d = to_i64 (d * 60);
         d = to_i64 (d + seconds) in to_i64 (d * SECOND_TO_MICRO))"

definition ts_dhms :: "int \<Rightarrow> int \<Rightarrow> int \<Rightarrow> int \<Rightarrow> time_span" where
  "ts_dhms days hours minutes seconds =
    (let d = days; d = to_i64 (d * 24); d = to_i64 (d + hours); d = to_i64 (d * 60);
         d = to_i64 (d + minutes); d = to_i64 (d * 60); d = to_i64 (d + seconds)
     in to_i64 (d * SECOND_TO_MICRO))"

definition ts_dhmsm :: "int \<Rightarrow> int \<Rightarrow> int \<Rightarrow> int \<Rightarrow> int \<Rightarrow> time_span" where
  "ts_dhmsm days hours minutes seconds milliseconds =
    (let d = days; d = to_i64 (d * 24); d = to_i64 (d + hours); d = to_i64 (d * 60);
         d = to_i64 (d + minutes); d = to_i64 (d * 60); d = to_i64 (d + seconds);
         d = to_i64 (d * 1000); d = to_i64 (d + milliseconds)
     in to_i64 (d * 1000))"

definition ts_from_milli_seconds :: "int \<Rightarrow> time_span" where
  "ts_from_milli_seconds v = to_i64 (v * 1000)"

definition ts_from_seconds :: "int \<Rightarrow> time_span" where
  "ts_from_seconds v = to_i64 (v * SECOND_TO_MICRO)"

definition ts_from_minutes :: "int \<Rightarrow> time_span" where
  "ts_from_minutes v = to_i64 (v * (SECOND_TO_MICRO * 60))"

definition ts_from_hours :: "int \<Rightarrow> time_span" where
  "ts_from_hours v = to_i64 (v * (SECOND_TO_MICRO * (60 * 60)))"

definition ts_from_days :: "int \<Rightarrow> time_span" where
  "ts_from_days v = to_i64 (v * (SECOND_TO_MICRO * (60 * 60 * 24)))"

definition ts_infinite :: time_span where
  "ts_infinite = 0x7FFFFFFFFFFFFFFF"

definition ts_total_milli_seconds :: "time_span \<Rightarrow> int" where
  "ts_total_milli_seconds d = c_div d 1000"

definition ts_total_seconds :: "time_span \<Rightarrow> int" where
  "ts_total_seconds d = c_div d SECOND_TO_MICRO"

definition ts_total_minutes :: "time_span \<Rightarrow> int" where
  "ts_total_minutes d = c_div d (SECOND_TO_MICRO * 60)"

definition ts_total_hours :: "time_span \<Rightarrow> int" where
  "ts_total_hours d = c_div d (SECOND_TO_MICRO * (60 * 60))"

definition ts_total_days :: "time_span \<Rightarrow> int" where
  "ts_total_days d = c_div d (SECOND_TO_MICRO * (60 * 60 * 24))"

definition ts_micro_seconds :: "time_span \<Rightarrow> int" where
  "ts_micro_seconds d = c_mod d 1000"

definition ts_milli_seconds :: "time_span \<Rightarrow> int" where
  "ts_milli_seconds d = c_mod (ts_total_milli_seconds d) 1000"

definition ts_seconds :: "time_span \<Rightarrow> int" where
  "ts_seconds d = c_mod (ts_total_seconds d) 60"

definition ts_minutes :: "time_span \<Rightarrow> int" where
  "ts_minutes d = c_mod (ts_total_minutes d) 60"

definition ts_hours :: "time_span \<Rightarrow> int" where
  "ts_hours d = c_mod (ts_total_hours d) 24"

definition ts_days :: "time_span \<Rightarrow> int" where
  "ts_days d = ts_total_days d"

text \<open>The remainder is taken against an unsigned constant, so the count is converted first.\<close>

definition ts_to_timeval :: "time_span \<Rightarrow> int \<times> int" where
  "ts_to_timeval d = (to_i32 (ts_total_seconds d), to_i32 (to_u64 d mod SECOND_TO_MICRO))"

definition ts_times :: "time_span \<Rightarrow> int \<Rightarrow> time_span" where
  "ts_times d n = to_i64 (d * n)"

definition ts_divide :: "time_span \<Rightarrow> int \<Rightarrow> time_span" where
  "ts_divide d n = c_div d (if 0 < n then n else 1)"

definition ts_ratio :: "time_span \<Rightarrow> time_span \<Rightarrow> int" where
  "ts_ratio d e = c_div d (if 0 < e then e else 1)"

definition ts_plus :: "time_span \<Rightarrow> time_span \<Rightarrow> time_span" where
  "ts_plus a b = to_i64 (a + b)"

definition ts_minus :: "time_span \<Rightarrow> time_span \<Rightarrow> time_span" where
  "ts_minus a b = to_i64 (a - b)"

definition ts_negate :: "time_span \<Rightarrow> time_span" where
  "ts_negate a = to_i64 (- a)"

definition ts_less :: "time_span \<Rightarrow> time_span \<Rightarrow> bool" where
  "ts_less a b \<longleftrightarrow> a < b"

section \<open>Dates\<close>

type_synonym date_time = int

definition dt_civil :: "int \<Rightarrow> int \<Rightarrow> int \<Rightarrow> int \<Rightarrow> int \<Rightarrow> int \<Rightarrow> date_time option" where
  "dt_civil year month day hour minute second =
    (let span = ts_from_seconds second;
         span = ts_plus span (ts_from_minutes minute);
         span = ts_plus span (ts_from_hours hour);
         span = ts_plus span (ts_from_days (daycount_years 1970 (year - 1)))
     in case daycount_date year month (day - 1) of
          None \<Rightarrow> None
        | Some n \<Rightarrow> Some (to_u64 (ts_plus span (ts_from_days n))))"

definition dt_plus :: "date_time \<Rightarrow> time_span \<Rightarrow> date_time" where
  "dt_plus d s = to_u64 (d + s)"

definition dt_minus :: "date_time \<Rightarrow> time_span \<Rightarrow> date_time" where
  "dt_minus d s = to_u64 (d - s)"

definition dt_diff :: "date_time \<Rightarrow> date_time \<Rightarrow> time_span" where
  "dt_diff a b = to_i64 (to_u64 (a - b))"

definition ts_plus_date :: "time_span \<Rightarrow> date_time \<Rightarrow> date_time" where
  "ts_plus_date s d = dt_plus d s"

definition dt_less :: "date_time \<Rightarrow> date_time \<Rightarrow> bool" where
  "dt_less a b \<longleftrightarrow> a < b"

definition dt_to_milli_seconds :: "date_time \<Rightarrow> int" where
  "dt_to_milli_seconds d = d div 1000"

definition dt_year :: "date_time \<Rightarrow> int option" where
  "dt_year d = map_option (\<lambda>x. tm_year x + 1900) (tick_to_tm d)"

definition dt_month :: "date_time \<Rightarrow> int option" where
  "dt_month d = map_option (\<lambda>x. tm_mon x + 1) (tick_to_tm d)"

definition dt_day :: "date_time \<Rightarrow> int option" where
  "dt_day d = map_option tm_mday (tick_to_tm d)"

definition dt_hour :: "date_time \<Rightarrow> int option" where
  "dt_hour d = map_option tm_hour (tick_to_tm d)"

definition dt_minute :: "date_time \<Rightarrow> int option" where
  "dt_minute d = map_option tm_min (tick_to_tm d)"

definition dt_second :: "date_time \<Rightarrow> int option" where
  "dt_second d = map_option tm_sec (tick_to_tm d)"

definition dt_wday :: "date_time \<Rightarrow> int option" where
  "dt_wday d = map_option tm_wday (tick_to_tm d)"

definition dt_local :: "(int \<Rightarrow> tm) \<Rightarrow> date_time \<Rightarrow> date_time" where
  "dt_local localtime utc =
    (let (sec, usec) = tick_to_timeval utc
     in to_u64 (tick_from_tm (localtime sec) + usec))"

text \<open>The two readings of the clock in \<open>utc() - local()\<close> are arguments.\<close>

definition dt_utc_of_local :: "(int \<Rightarrow> tm) \<Rightarrow> date_time \<Rightarrow> date_time \<Rightarrow> date_time \<Rightarrow> date_time" where
  "dt_utc_of_local localtime now now' local = dt_plus local (dt_diff now (dt_local localtime now'))"

type_synonym remote_time = "string \<rightharpoonup> time_span"

definition remote_register :: "string \<Rightarrow> time_span \<Rightarrow> remote_time \<Rightarrow> remote_time" where
  "remote_register name diff r = r(name \<mapsto> diff)"

definition remote_diff :: "string \<Rightarrow> remote_time \<Rightarrow> time_span" where
  "remote_diff name r = (case r name of Some d \<Rightarrow> d | None \<Rightarrow> 0)"

definition dt_remote :: "date_time \<Rightarrow> string \<Rightarrow> remote_time \<Rightarrow> date_time" where
  "dt_remote now name r = dt_plus now (remote_diff name r)"

section \<open>Properties\<close>

lemma c_div_neg: "d < 0 \<Longrightarrow> 0 < a \<Longrightarrow> c_div d a = - ((- d) div a)"
  by (simp add: c_div_def signed_divide_int_def)

lemma c_div_c_div: "0 < a \<Longrightarrow> 0 < b \<Longrightarrow> c_div (c_div d a) b = c_div d (a * b)"
proof (cases "0 \<le> d")
  case True
  assume a: "0 < a" "0 < b"
  then have "0 \<le> d div a" using True by (simp add: pos_imp_zdiv_nonneg_iff)
  with a True show ?thesis by (simp add: c_div_nonneg zdiv_zmult2_eq)
next
  case False
  assume a: "0 < a" "0 < b"
  have n: "0 \<le> (- d) div a" using False a by (simp add: pos_imp_zdiv_nonneg_iff)
  have "c_div (c_div d a) b = - (((- d) div a) div b)"
  proof (cases "(- d) div a = 0")
    case True
    then show ?thesis using False a by (simp add: c_div_neg c_div_nonneg)
  next
    case nz: False
    then show ?thesis using False a n by (simp add: c_div_neg)
  qed
  then show ?thesis using False a by (simp add: c_div_neg zdiv_zmult2_eq)
qed

text \<open>The components of a span put together again give the span, for every value of its 64-bit
  count, negative ones included (division and remainder truncate, so all components carry the
  sign of the span).\<close>

theorem ts_components:
  "((((ts_days d * 24 + ts_hours d) * 60 + ts_minutes d) * 60 + ts_seconds d) * 1000 + ts_milli_seconds d) * 1000
     + ts_micro_seconds d = d"
proof -
  have "ts_total_milli_seconds d * 1000 + ts_micro_seconds d = d"
    by (simp add: ts_total_milli_seconds_def ts_micro_seconds_def c_div_mod)
  moreover have "ts_total_seconds d * 1000 + ts_milli_seconds d = ts_total_milli_seconds d"
    using c_div_mod[of "c_div d 1000" 1000]
    by (simp add: ts_total_seconds_def ts_total_milli_seconds_def ts_milli_seconds_def c_div_c_div SECOND_TO_MICRO_def)
  moreover have "ts_total_minutes d * 60 + ts_seconds d = ts_total_seconds d"
    using c_div_mod[of "c_div d 1000000" 60]
    by (simp add: ts_total_seconds_def ts_total_minutes_def ts_seconds_def c_div_c_div SECOND_TO_MICRO_def)
  moreover have "ts_total_hours d * 60 + ts_minutes d = ts_total_minutes d"
    using c_div_mod[of "c_div d 60000000" 60]
    by (simp add: ts_total_minutes_def ts_total_hours_def ts_minutes_def c_div_c_div SECOND_TO_MICRO_def)
  moreover have "ts_days d * 24 + ts_hours d = ts_total_hours d"
    using c_div_mod[of "c_div d 3600000000" 24]
    by (simp add: ts_total_hours_def ts_days_def ts_total_days_def ts_hours_def c_div_c_div SECOND_TO_MICRO_def)
  ultimately show ?thesis by simp
qed

text \<open>Dates and spans: adding a span and taking it off again is the identity on every date, and
  the difference of two dates added to the second is the first, whatever wraps on the way.\<close>

theorem date_span_arithmetic:
  assumes "0 \<le> a" "a < 2 ^ 64" "0 \<le> b" "b < 2 ^ 64"
  shows "dt_minus (dt_plus a s) s = a \<and> dt_plus b (dt_diff a b) = a"
proof -
  have "dt_plus b (dt_diff a b) = to_u64 a"
    by (simp add: dt_plus_def dt_diff_def to_u64_add_i64 to_u64_add)
  moreover have "dt_minus (dt_plus a s) s = to_u64 a"
    using to_u64_add(1)[of "a + s" "- s"] by (simp add: dt_minus_def dt_plus_def)
  ultimately show ?thesis using assms by (simp add: to_u64_id)
qed

theorem date_span_arithmetic_witness:
  "dt_minus (dt_plus 5 (- 7)) (- 7) = 5 \<and> dt_plus (2 ^ 64 - 1) (dt_diff 5 (2 ^ 64 - 1)) = 5"
  using date_span_arithmetic[of 5 "2 ^ 64 - 1" "- 7"] by simp

text \<open>A tick survives the conversion to \<open>FILETIME\<close> and back up to the year 60000, and to
  \<open>timespec\<close> or \<open>timeval\<close> and back over its whole range.\<close>

theorem tick_roundtrips:
  assumes "0 \<le> v" and "v < 2 ^ 64"
  shows "tick_from_timespec (tick_to_timespec v) = v \<and> tick_from_timeval (tick_to_timeval v) = v \<and>
    ((v + EPOCH_SECONDS * SECOND_TO_MICRO) * 10 < 2 ^ 64 \<longrightarrow> tick_from_filetime (tick_to_filetime v) = v)"
proof -
  have s: "to_i64 (v div 1000000) = v div 1000000" "to_u64 (v div 1000000) = v div 1000000"
    "to_u64 (v div 1000000 * 1000000) = v div 1000000 * 1000000"
  proof -
    have "0 \<le> v div 1000000" using assms(1) by (simp add: pos_imp_zdiv_nonneg_iff)
    moreover have "v div 1000000 * 1000000 \<le> v" using div_mult_mod_eq[of v 1000000] by (smt (verit) pos_mod_sign)
    moreover have "v div 1000000 < 2 ^ 63" using assms(2) by (simp add: div_less_iff_less_mult)
    ultimately show "to_i64 (v div 1000000) = v div 1000000" "to_u64 (v div 1000000) = v div 1000000"
      "to_u64 (v div 1000000 * 1000000) = v div 1000000 * 1000000"
      using assms(2) by (simp_all add: to_i64_id to_u64_id)
  qed
  have m: "v div 1000000 * 1000000 + v mod 1000000 = v" by simp
  have c: "c_div (v mod 1000000 * 1000) 1000 = v mod 1000000" by (simp add: c_div_nonneg)
  have "tick_from_timespec (tick_to_timespec v) = v"
    unfolding tick_from_timespec_def tick_to_timespec_def SECOND_TO_MICRO_def Let_def fst_conv snd_conv
    using assms by (simp add: s m c to_u64_id del: div_mult_mod_eq)
  moreover have "tick_from_timeval (tick_to_timeval v) = v"
    unfolding tick_from_timeval_def tick_to_timeval_def SECOND_TO_MICRO_def Let_def fst_conv snd_conv
    using assms by (simp add: s m to_u64_id)
  moreover have "tick_from_filetime (tick_to_filetime v) = v" if b: "(v + EPOCH_SECONDS * SECOND_TO_MICRO) * 10 < 2 ^ 64"
  proof -
    define t where "t = (v + 11644473600 * 1000000) * 10"
    have t: "0 \<le> t" "t < 2 ^ 64" using b assms by (simp_all add: t_def EPOCH_SECONDS_def SECOND_TO_MICRO_def)
    have f: "tick_to_filetime v = \<lparr>dwLowDateTime = t mod 2 ^ 32, dwHighDateTime = t div 2 ^ 32\<rparr>"
      using assms t by (simp add: tick_to_filetime_def t_def EPOCH_SECONDS_def SECOND_TO_MICRO_def to_u64_id to_u32_def Let_def)
    have h: "0 \<le> t div 2 ^ 32 * 2 ^ 32" "t div 2 ^ 32 * 2 ^ 32 \<le> t" "t div 2 ^ 32 * 2 ^ 32 + t mod 2 ^ 32 = t"
      using t div_mult_mod_eq[of t "2 ^ 32"] by (simp_all add: pos_imp_zdiv_nonneg_iff)
    have "t div 10 = v + 11644473600 * 1000000" by (simp add: t_def)
    then show ?thesis
      unfolding f tick_from_filetime_def Let_def filetime.simps EPOCH_SECONDS_def SECOND_TO_MICRO_def
      using h t assms by (simp add: to_u64_id del: div_mult_mod_eq)
  qed
  ultimately show ?thesis by blast
qed

theorem tick_roundtrips_witness:
  "tick_from_filetime (tick_to_filetime 1234567890123456) = 1234567890123456"
  using tick_roundtrips[of 1234567890123456] by (simp add: EPOCH_SECONDS_def SECOND_TO_MICRO_def)

text \<open>A date of the calendar, from 1970 to the last year a \<open>uint16_t\<close> holds.\<close>

definition civil_ok :: "int \<Rightarrow> int \<Rightarrow> int \<Rightarrow> bool" where
  "civil_ok y m d \<longleftrightarrow> 1970 \<le> y \<and> y < 2 ^ 16 \<and> 1 \<le> m \<and> m \<le> 12 \<and> 1 \<le> d \<and>
    d \<le> month_table (isleapyear y) ! nat (m - 1)"

lemma daycount_years_le: "s \<le> e + 1 \<Longrightarrow> daycount_years s e \<le> 366 * (e + 1 - s)"
proof (induction "nat (e + 1 - s)" arbitrary: s)
  case (Suc n)
  then have "s \<le> e" "n = nat (e + 1 - (s + 1))" by auto
  then show ?case using Suc.hyps(1)[of "s + 1"] daycount_year_pos(2)[of s] by (simp add: daycount_years_step)
qed (simp add: daycount_years_none)

lemma daycount_years_ge: "s \<le> e + 1 \<Longrightarrow> 365 * (e + 1 - s) \<le> daycount_years s e"
proof (induction "nat (e + 1 - s)" arbitrary: s)
  case (Suc n)
  then have "s \<le> e" "n = nat (e + 1 - (s + 1))" by auto
  moreover have "365 \<le> daycount_year s" by (simp add: daycount_year_def)
  ultimately show ?case using Suc.hyps(1)[of "s + 1"] by (simp add: daycount_years_step)
qed (simp add: daycount_years_none)

lemma sum_month_prefix:
  assumes "m < 12" "0 \<le> r" "r < month_table leap ! m"
  shows "0 \<le> sum_list (take m (month_table leap))"
    "sum_list (take m (month_table leap)) + r < sum_list (month_table leap)"
proof -
  have pos: "\<forall>x \<in> set (month_table leap). 0 \<le> x" by (simp add: month_table_def)
  show "0 \<le> sum_list (take m (month_table leap))"
    by (rule sum_list_nonneg) (use pos in \<open>auto dest: in_set_takeD\<close>)
  have "month_table leap = take m (month_table leap) @ month_table leap ! m # drop (Suc m) (month_table leap)"
    using assms(1) by (intro id_take_nth_drop) simp
  from arg_cong[OF this, of sum_list]
  have "sum_list (month_table leap) = sum_list (take m (month_table leap)) + month_table leap ! m +
      sum_list (drop (Suc m) (month_table leap))" by simp
  moreover have "0 \<le> sum_list (drop (Suc m) (month_table leap))"
    by (rule sum_list_nonneg) (use pos in \<open>auto dest: in_set_dropD\<close>)
  ultimately show "sum_list (take m (month_table leap)) + r < sum_list (month_table leap)" using assms(3) by linarith
qed

text \<open>The number of days before a civil date, and the loops that find the date again.\<close>

lemma civil_days:
  assumes "civil_ok y m d"
  defines "k \<equiv> nat (m - 1)" and "n \<equiv> sum_list (take (nat (m - 1)) (month_table (isleapyear y))) + (d - 1)"
  shows "daycount_date y m (d - 1) = Some n" and "0 \<le> n" and "n < daycount_year y"
    and "ctime_year 1970 (daycount_years 1970 (y - 1) + n) = (y, n)"
    and "ctime_month (month_table (isleapyear y)) 0 n = Some (k, d - 1)"
    and "daycount_years 1970 (y - 1) + n < 2 ^ 25"
proof -
  have k: "k < 12" "0 \<le> d - 1" "d - 1 < month_table (isleapyear y) ! k" and y: "1970 \<le> y" "y < 2 ^ 16"
    using assms(1) by (auto simp: civil_ok_def k_def)
  show "daycount_date y m (d - 1) = Some n"
    using daycount_months_sum[of 0 k "month_table (isleapyear y)" 0] k(1)
    by (simp add: daycount_date_def n_def k_def)
  show n: "0 \<le> n" "n < daycount_year y"
    using sum_month_prefix[OF k] k(2) by (simp_all add: n_def k_def[symmetric] sum_month_table)
  show "ctime_year 1970 (daycount_years 1970 (y - 1) + n) = (y, n)"
    using y(1) n by (rule ctime_year_days)
  have "\<forall>x \<in> set (month_table (isleapyear y)). 0 < x" by (simp add: month_table_def)
  with ctime_month_days[of 0 k "month_table (isleapyear y)" "d - 1"] k
  show "ctime_month (month_table (isleapyear y)) 0 n = Some (k, d - 1)" by (simp add: n_def k_def)
  show "daycount_years 1970 (y - 1) + n < 2 ^ 25"
    using daycount_years_le[of 1970 "y - 1"] y n daycount_year_pos(2)[of y] by simp
qed

lemma dt_civil_value:
  assumes c: "civil_ok y m d" and t: "0 \<le> h" "h < 24" "0 \<le> i" "i < 60" "0 \<le> s" "s < 60"
  defines "days \<equiv> daycount_years 1970 (y - 1) + (sum_list (take (nat (m - 1)) (month_table (isleapyear y))) + (d - 1))"
  shows "dt_civil y m d h i s = Some ((s + i * 60 + h * 3600 + days * 86400) * 1000000)"
proof -
  let ?n = "sum_list (take (nat (m - 1)) (month_table (isleapyear y))) + (d - 1)"
  define a where "a = daycount_years 1970 (y - 1)"
  define n where "n = ?n"
  note cd = civil_days[OF c]
  have nn: "0 \<le> a" "0 \<le> n" "a + n < 2 ^ 25"
    using cd(2,6) daycount_years_nonneg[of 1970 "y - 1"] by (simp_all add: a_def n_def)
  have r: "to_i64 v = v" if "0 \<le> v" "v < 2 ^ 62" for v using that by (simp add: to_i64_id)
  have u: "to_u64 v = v" if "0 \<le> v" "v < 2 ^ 62" for v using that by (simp add: to_u64_id)
  show ?thesis
    using t nn cd(1)
    unfolding dt_civil_def ts_plus_def ts_from_seconds_def ts_from_minutes_def ts_from_hours_def ts_from_days_def
      SECOND_TO_MICRO_def Let_def days_def a_def[symmetric] n_def[symmetric]
    by (simp add: r u algebra_simps)
qed

text \<open>A date built from year, month, day, hour, minute and second gives every one of them back, for
  all dates of the Gregorian calendar from 1970 to 65535.\<close>

theorem dt_civil_fields:
  assumes c: "civil_ok y m d" and t: "0 \<le> h" "h < 24" "0 \<le> i" "i < 60" "0 \<le> s" "s < 60"
  shows "\<exists>v. dt_civil y m d h i s = Some v \<and> dt_year v = Some y \<and> dt_month v = Some m \<and> dt_day v = Some d \<and>
    dt_hour v = Some h \<and> dt_minute v = Some i \<and> dt_second v = Some s"
proof -
  let ?n = "sum_list (take (nat (m - 1)) (month_table (isleapyear y))) + (d - 1)"
  define days where "days = daycount_years 1970 (y - 1) + ?n"
  define x where "x = s + i * 60 + h * 3600"
  define sec where "sec = x + days * 86400"
  note cd = civil_days[OF c, folded days_def]
  have x: "0 \<le> x" "x < 86400" using t by (simp_all add: x_def)
  have days: "0 \<le> days" "days < 2 ^ 25"
    using cd(2,6) daycount_years_nonneg[of 1970 "y - 1"] by (simp_all add: days_def)
  have sec: "0 \<le> sec" "sec < 2 ^ 63" using x days by (simp_all add: sec_def)
  have dv: "sec div 86400 = days" "sec mod 86400 = x" using x by (simp_all add: sec_def)
  have "sec mod 3600 = x mod 3600" "sec mod 60 = x mod 60"
    using mod_mod_cancel[of 3600 86400 sec] mod_mod_cancel[of 60 86400 sec] by (simp_all add: dv)
  moreover have "x mod 60 = s" "x mod 3600 div 60 = i" "x div 3600 = h"
  proof -
    have "x = s + (i + h * 60) * 60" "x = (s + i * 60) + h * 3600" by (simp_all add: x_def)
    moreover have "0 \<le> s + i * 60" "s + i * 60 < 3600" using t by simp_all
    ultimately have "x mod 60 = s" "x mod 3600 = s + i * 60" "x div 3600 = h"
      using t by (metis mod_mult_self1 mod_pos_pos_trivial, metis mod_mult_self1 mod_pos_pos_trivial,
        metis div_mult_self1 div_pos_pos_trivial add.commute add_0 zero_neq_numeral)
    then show "x mod 60 = s" "x mod 3600 div 60 = i" "x div 3600 = h" using t by simp_all
  qed
  ultimately have f: "sec mod 60 = s" "sec mod 3600 div 60 = i" "sec mod 86400 div 3600 = h" by (simp_all add: dv)
  have "to_i32 days = days" using days by (simp add: to_i32_id)
  then have tm: "ctime_to_tm sec = Some \<lparr>tm_sec = s, tm_min = i, tm_hour = h, tm_mday = d, tm_mon = int (nat (m - 1)),
      tm_year = y - 1900, tm_wday = (days + 4) mod 7, tm_yday = ?n, tm_isdst = 0\<rparr>"
    using sec(1) days(1) x(1) f cd(4,5)
    by (simp add: ctime_to_tm_def c_div_nonneg c_mod_nonneg dv)
  have "sec * 1000000 div 1000000 = sec" by simp
  moreover have "to_i64 sec = sec" using sec by (simp add: to_i64_id)
  ultimately have "tick_to_tm (sec * 1000000) = ctime_to_tm sec"
    by (simp only: tick_to_tm_def SECOND_TO_MICRO_def) simp
  moreover have "dt_civil y m d h i s = Some (sec * 1000000)"
    using dt_civil_value[OF c t] by (simp add: sec_def x_def days_def)
  moreover have "1 \<le> m" using c by (simp add: civil_ok_def)
  ultimately show ?thesis
    by (simp add: dt_year_def dt_month_def dt_day_def dt_hour_def dt_minute_def dt_second_def tm)
qed

theorem dt_civil_fields_witness:
  "\<exists>v. dt_civil 2000 2 29 23 59 58 = Some v \<and> dt_year v = Some 2000 \<and> dt_month v = Some 2 \<and> dt_day v = Some 29 \<and>
    dt_hour v = Some 23 \<and> dt_minute v = Some 59 \<and> dt_second v = Some 58"
  by (rule dt_civil_fields) (simp_all add: civil_ok_def month_table_def isleapyear_def c_mod_nonneg)

text \<open>On Linux \<open>tick::from(systemtime)\<close> leaves the day of the year of its \<open>tm\<close> uninitialised,
  and the result depends on it: a day is added for every unit by which it differs from the right
  value, in spite of the month and the day of the month that were set.\<close>

theorem systemtime_uninitialised:
  assumes v: "0 \<le> v" "v < 2 ^ 31 * 1000000" and j: "0 \<le> tm_yday junk" "tm_yday junk < 366"
    and lim: "v + (tm_yday junk + 1) * 86400000000 < 2 ^ 31 * 1000000"
  shows "\<exists>st x. tick_to_tm v = Some x \<and> tick_to_systemtime w v = Some st \<and>
    tick_from_systemtime junk st = v - v mod 1000000 + (tm_yday junk - tm_yday x) * 86400000000"
proof -
  let ?t = "v div 1000000"
  have t: "0 \<le> ?t" "?t < 2 ^ 31" using v by (simp_all add: pos_imp_zdiv_nonneg_iff div_less_iff_less_mult)
  then have "?t < 2 ^ 31 * 86400" by simp
  with t(1) obtain x where x: "ctime_to_tm ?t = Some x" "0 \<le> tm_sec x" "0 \<le> tm_min x" "0 \<le> tm_hour x" "0 \<le> tm_yday x"
    "tm_sec x + tm_min x * 60 + tm_hour x * 3600 + tm_yday x * 86400 +
      daycount_years 1970 (tm_year x + 1900 - 1) * 86400 = ?t"
    by (rule ctime_to_tm_sum)
  have "tm_ok x" using ctime_tm_ok[OF t(1) \<open>?t < 2 ^ 31 * 86400\<close>] x(1) by simp
  then have r: "tm_sec x < 60" "tm_min x < 60" "tm_hour x < 24" "0 \<le> tm_mon x" "tm_mon x < 12" "1 \<le> tm_mday x"
      "tm_mday x \<le> month_table (isleapyear (tm_year x + 1900)) ! nat (tm_mon x)" "70 \<le> tm_year x"
    by (simp_all add: tm_ok_def)
  moreover have "nat (tm_mon x) < 12" using r by simp
  ultimately have md: "tm_mday x \<le> 31"
    using month_table_range[of "nat (tm_mon x)" "isleapyear (tm_year x + 1900)"] by linarith
  have y: "tm_year x < 200"
  proof (rule ccontr)
    assume "\<not> tm_year x < 200"
    then have "47450 \<le> daycount_years 1970 (tm_year x + 1900 - 1)"
      using daycount_years_ge[of 1970 "tm_year x + 1900 - 1"] by simp
    moreover have "?t < 2147483648" using t(2) by simp
    ultimately show False using x(2-6) by linarith
  qed
  have u: "to_u16 n = n" if "0 \<le> n" "n < 65536" for n using that by (simp add: to_u16_def)
  define st where "st = \<lparr>wYear = tm_year x + 1900, wMonth = tm_mon x + 1, wDayOfWeek = w, wDay = tm_mday x,
      wHour = tm_hour x, wMinute = tm_min x, wSecond = tm_sec x, wMilliseconds = to_u16 (v mod 1000000 div 1000)\<rparr>"
  have tk: "tick_to_tm v = Some x" using t x(1) by (simp add: tick_to_tm_def SECOND_TO_MICRO_def to_i64_id)
  have st: "tick_to_systemtime w v = Some st"
    using x(2-5) r md y by (simp add: tick_to_systemtime_def tk st_def u SECOND_TO_MICRO_def)
  let ?x = "junk\<lparr>tm_hour := tm_hour x, tm_min := tm_min x, tm_mday := tm_mday x, tm_mon := tm_mon x + 1 - 1,
      tm_sec := tm_sec x, tm_year := tm_year x + 1900 - 1900\<rparr>"
  let ?s = "?t + (tm_yday junk - tm_yday x) * 86400"
  have vt: "?t * 1000000 + v mod 1000000 = v" "0 \<le> v mod 1000000" by simp_all
  have lt: "?s < 2 ^ 31" using lim vt x(5) by (simp add: algebra_simps)
  have "ctime_of_tm ?x = ?s"
    using x(2-4,6) j lt by (subst ctime_of_tm_exact) (simp_all add: algebra_simps)
  moreover have "0 \<le> ?s"
    using x(2-4,6) j daycount_years_nonneg[of 1970 "tm_year x + 1900 - 1"] by (simp add: algebra_simps)
  moreover have "tick_from_systemtime junk st = tick_from_time_t (ctime_of_tm ?x)"
    by (simp only: tick_from_systemtime_def st_def systemtime.simps)
  ultimately have "tick_from_systemtime junk st = ?s * 1000000"
    using lt by (simp add: tick_from_time_t_def tick_from_timeval_def SECOND_TO_MICRO_def to_u64_id)
  also have "\<dots> = v - v mod 1000000 + (tm_yday junk - tm_yday x) * 86400000000"
    using vt(1) by (simp add: algebra_simps)
  finally show ?thesis using tk st by blast
qed

theorem systemtime_uninitialised_witness:
  "\<exists>st x. tick_to_tm 951782400123456 = Some x \<and> tick_to_systemtime 9 951782400123456 = Some st \<and>
    tick_from_systemtime \<lparr>tm_sec = 1, tm_min = 1, tm_hour = 1, tm_mday = 1, tm_mon = 1, tm_year = 1, tm_wday = 1,
      tm_yday = 7, tm_isdst = 1\<rparr> st = 951782400000000 + (7 - tm_yday x) * 86400000000"
  using systemtime_uninitialised[of 951782400123456 "\<lparr>tm_sec = 1, tm_min = 1, tm_hour = 1, tm_mday = 1, tm_mon = 1,
      tm_year = 1, tm_wday = 1, tm_yday = 7, tm_isdst = 1\<rparr>" 9] by simp

end
