(* ===== verification/Slist.thy ===== *)
theory Slist
  imports Prelude
begin

text \<open>
  The intrusive singly linked queue of \<open>util/list_node.hpp\<close>: the nodes carry the links, a
  queue is a pair of pointers. The links of all nodes are one store \<open>links\<close>, so that two
  queues over the same nodes, and a node left in two queues, are visible in the model. A null
  pointer is \<open>None\<close>; an operation that dereferences one has no result.
\<close>

type_synonym node = nat

type_synonym links = "node \<Rightarrow> node option"

record slist =
  sl_head :: "node option"
  sl_tail :: "node option"

section \<open>Nodes\<close>

definition slist_node_new :: "links \<Rightarrow> node \<Rightarrow> links" where
  "slist_node_new nx n = nx(n := None)"

definition node_next :: "links \<Rightarrow> node \<Rightarrow> node option" where
  "node_next nx n = nx n"

definition node_set_next :: "links \<Rightarrow> node \<Rightarrow> node option \<Rightarrow> links \<times> node option" where
  "node_set_next nx n p = (nx(n := p), nx n)"

section \<open>Queues\<close>

partial_function (option) slist_last :: "links \<Rightarrow> node \<Rightarrow> node option" where
  "slist_last nx it = (case nx it of None \<Rightarrow> Some it | Some b \<Rightarrow> slist_last nx b)"

text \<open>The constructor walks from the given head to the last node.\<close>

definition slist_queue :: "links \<Rightarrow> node option \<Rightarrow> slist option" where
  "slist_queue nx h =
     (case h of
        None \<Rightarrow> Some \<lparr>sl_head = None, sl_tail = None\<rparr>
      | Some it \<Rightarrow>
          (case slist_last nx it of
             None \<Rightarrow> None
           | Some t \<Rightarrow> Some \<lparr>sl_head = Some it, sl_tail = Some t\<rparr>))"

definition sl_empty :: slist where
  "sl_empty = \<lparr>sl_head = None, sl_tail = None\<rparr>"

definition sl_add_front :: "links \<Rightarrow> slist \<Rightarrow> node \<Rightarrow> (links \<times> slist) option" where
  "sl_add_front nx q n =
     (if sl_head q = None then Some (nx, q\<lparr>sl_head := Some n, sl_tail := Some n\<rparr>)
      else Some (fst (node_set_next nx n (sl_head q)), q\<lparr>sl_head := Some n\<rparr>))"

definition sl_add_tail :: "links \<Rightarrow> slist \<Rightarrow> node \<Rightarrow> (links \<times> slist) option" where
  "sl_add_tail nx q n =
     (if sl_head q = None then Some (nx, q\<lparr>sl_head := Some n, sl_tail := Some n\<rparr>)
      else
        (case sl_tail q of
           None \<Rightarrow> None
         | Some t \<Rightarrow> Some (fst (node_set_next nx t (Some n)), q\<lparr>sl_tail := Some n\<rparr>)))"

definition sl_front :: "slist \<Rightarrow> node option" where
  "sl_front q = sl_head q"

definition sl_pop_front :: "links \<Rightarrow> slist \<Rightarrow> links \<times> slist" where
  "sl_pop_front nx q =
     (case sl_head q of
        None \<Rightarrow> (nx, q)
      | Some h \<Rightarrow>
          if sl_head q = sl_tail q then (nx, q\<lparr>sl_head := None, sl_tail := None\<rparr>)
          else
            let (nx', p) = node_set_next nx h None
            in (nx', q\<lparr>sl_head := p\<rparr>))"

definition sl_is_empty :: "slist \<Rightarrow> bool" where
  "sl_is_empty q = (sl_head q = None)"

text \<open>
  \<open>add_tail( slist_queue& )\<close> appends another queue and leaves that one empty. The result
  is the new links, this queue and the other one.
\<close>

definition sl_splice :: "links \<Rightarrow> slist \<Rightarrow> slist \<Rightarrow> (links \<times> slist \<times> slist) option" where
  "sl_splice nx q l =
     (if sl_is_empty l then Some (nx, q, l)
      else
        (case sl_front l of
           None \<Rightarrow> None
         | Some n \<Rightarrow>
             (case sl_add_tail nx q n of
                None \<Rightarrow> None
              | Some (nx', q') \<Rightarrow>
                  Some (nx', q'\<lparr>sl_tail := sl_tail l\<rparr>, l\<lparr>sl_head := None, sl_tail := None\<rparr>))))"

text \<open>The same call with the queue itself as the argument: one object, written twice.\<close>

definition sl_splice_self :: "links \<Rightarrow> slist \<Rightarrow> (links \<times> slist) option" where
  "sl_splice_self nx q =
     (if sl_is_empty q then Some (nx, q)
      else
        (case sl_front q of
           None \<Rightarrow> None
         | Some n \<Rightarrow>
             (case sl_add_tail nx q n of
                None \<Rightarrow> None
              | Some (nx', q') \<Rightarrow> Some (nx', q'\<lparr>sl_head := None, sl_tail := None\<rparr>))))"

partial_function (option) count_from :: "links \<Rightarrow> node option \<Rightarrow> int \<Rightarrow> int option" where
  "count_from nx p cnt =
     (case p of None \<Rightarrow> Some cnt | Some a \<Rightarrow> count_from nx (nx a) (to_i32 (cnt + 1)))"

definition sl_count :: "links \<Rightarrow> slist \<Rightarrow> int option" where
  "sl_count nx q = count_from nx (sl_head q) 0"

section \<open>Iterators\<close>

definition sl_begin :: "slist \<Rightarrow> node option" where
  "sl_begin q = sl_head q"

text \<open>\<open>end()\<close> reads the link of the tail, also when there is none.\<close>

definition sl_end :: "links \<Rightarrow> slist \<Rightarrow> node option option" where
  "sl_end nx q = (case sl_tail q of None \<Rightarrow> None | Some t \<Rightarrow> Some (nx t))"

definition it_incr :: "links \<Rightarrow> node option \<Rightarrow> node option" where
  "it_incr nx it = (case it of None \<Rightarrow> None | Some n \<Rightarrow> nx n)"

text \<open>The postfix form returns the old position too.\<close>

definition it_post_incr :: "links \<Rightarrow> node option \<Rightarrow> node option \<times> node option" where
  "it_post_incr nx it = (let old = it in (it_incr nx it, old))"

definition it_eq :: "node option \<Rightarrow> node option \<Rightarrow> bool" where
  "it_eq a b = (a = b)"

text \<open>\<open>for ( it = q.begin() ; it != q.end() ; ++it )\<close>, the nodes it visits.\<close>

partial_function (option) it_visit ::
  "links \<Rightarrow> node option \<Rightarrow> node option \<Rightarrow> node list \<Rightarrow> node list option" where
  "it_visit nx it e acc =
     (if it_eq it e then Some (rev acc)
      else (case it of None \<Rightarrow> None | Some n \<Rightarrow> it_visit nx (it_incr nx it) e (n # acc)))"

definition sl_visit :: "links \<Rightarrow> slist \<Rightarrow> node list option" where
  "sl_visit nx q =
     (case sl_end nx q of None \<Rightarrow> None | Some e \<Rightarrow> it_visit nx (sl_begin q) e [])"

section \<open>What a queue stands for\<close>

fun chain :: "links \<Rightarrow> node list \<Rightarrow> bool" where
  "chain nx [] = True"
| "chain nx [x] = (nx x = None)"
| "chain nx (x # y # xs) = (nx x = Some y \<and> chain nx (y # xs))"

definition slist_rep :: "links \<Rightarrow> slist \<Rightarrow> node list \<Rightarrow> bool" where
  "slist_rep nx q xs \<longleftrightarrow>
     distinct xs \<and> chain nx xs \<and>
     sl_head q = (if xs = [] then None else Some (hd xs)) \<and>
     sl_tail q = (if xs = [] then None else Some (last xs))"

lemma chain_upd [simp]: "a \<notin> set xs \<Longrightarrow> chain (nx(a := v)) xs = chain nx xs"
  by (induction nx xs rule: chain.induct) auto

lemma chain_Cons: "chain nx (x # xs) \<longleftrightarrow> nx x = (if xs = [] then None else Some (hd xs)) \<and> chain nx xs"
  by (cases xs) auto

lemma chain_append:
  "distinct (xs @ ys) \<Longrightarrow> chain nx xs \<Longrightarrow> chain nx ys \<Longrightarrow> xs \<noteq> [] \<Longrightarrow> ys \<noteq> [] \<Longrightarrow>
   chain (nx(last xs := Some (hd ys))) (xs @ ys)"
  by (induction xs) (auto simp: chain_Cons split: if_splits)

lemma chain_last: "chain nx xs \<Longrightarrow> xs \<noteq> [] \<Longrightarrow> nx (last xs) = None"
  by (induction nx xs rule: chain.induct) auto

lemma rep_empty [simp]: "slist_rep nx sl_empty []"
  by (simp add: slist_rep_def sl_empty_def)

lemma rep_front: "slist_rep nx q xs \<Longrightarrow> sl_front q = (if xs = [] then None else Some (hd xs))"
  by (simp add: slist_rep_def sl_front_def)

lemma rep_is_empty: "slist_rep nx q xs \<Longrightarrow> sl_is_empty q = (xs = [])"
  by (simp add: slist_rep_def sl_is_empty_def)

lemma rep_frame:
  assumes "slist_rep nx q xs" "\<And>a. a \<in> set xs \<Longrightarrow> nx' a = nx a"
  shows "slist_rep nx' q xs"
proof -
  have "chain nx' xs = chain nx xs"
    using assms(2) by (induction nx xs rule: chain.induct) auto
  thus ?thesis using assms(1) by (simp add: slist_rep_def)
qed

lemma rep_add_front:
  assumes "slist_rep nx q xs" "n \<notin> set xs" "nx n = None"
  shows "\<exists>nx' q'. sl_add_front nx q n = Some (nx', q') \<and> slist_rep nx' q' (n # xs) \<and>
           (\<forall>a. a \<noteq> n \<longrightarrow> nx' a = nx a)"
  using assms
  by (cases xs) (auto simp: slist_rep_def sl_add_front_def node_set_next_def chain_Cons)

lemma rep_splice:
  assumes q: "slist_rep nx q xs" and l: "slist_rep nx l ys" and d: "set xs \<inter> set ys = {}"
  shows "\<exists>nx' q' l'. sl_splice nx q l = Some (nx', q', l') \<and> slist_rep nx' q' (xs @ ys) \<and>
           slist_rep nx' l' [] \<and> (\<forall>a. a \<notin> set xs \<longrightarrow> nx' a = nx a)"
proof (cases "ys = []")
  case True
  thus ?thesis using q l by (auto simp: sl_splice_def rep_is_empty)
next
  case False
  show ?thesis
  proof (cases "xs = []")
    case True
    thus ?thesis using q l False
      by (auto simp: sl_splice_def sl_add_tail_def slist_rep_def sl_front_def sl_is_empty_def)
  next
    case xs: False
    have "chain (nx(last xs := Some (hd ys))) (xs @ ys)"
      using q l d False xs by (intro chain_append) (auto simp: slist_rep_def)
    thus ?thesis using q l d False xs
      by (auto simp: sl_splice_def sl_add_tail_def slist_rep_def sl_front_def sl_is_empty_def
            node_set_next_def)
  qed
qed

lemma rep_add_tail:
  assumes q: "slist_rep nx q xs" and n: "n \<notin> set xs" "nx n = None"
  shows "\<exists>nx' q'. sl_add_tail nx q n = Some (nx', q') \<and> slist_rep nx' q' (xs @ [n]) \<and>
           (\<forall>a. a \<notin> set xs \<longrightarrow> nx' a = nx a)"
proof (cases "xs = []")
  case True
  thus ?thesis using q n by (auto simp: sl_add_tail_def slist_rep_def)
next
  case False
  have "chain (nx(last xs := Some (hd [n]))) (xs @ [n])"
    using q n False by (intro chain_append) (auto simp: slist_rep_def)
  thus ?thesis using q n False
    by (auto simp: sl_add_tail_def slist_rep_def node_set_next_def)
qed

lemma rep_pop:
  assumes q: "slist_rep nx q (x # xs)"
  shows "\<exists>nx' q'. sl_pop_front nx q = (nx', q') \<and> slist_rep nx' q' xs \<and> nx' x = None \<and>
           (\<forall>a. a \<noteq> x \<longrightarrow> nx' a = nx a)"
proof (cases xs)
  case Nil
  thus ?thesis using q by (auto simp: sl_pop_front_def slist_rep_def)
next
  case (Cons y ys)
  have "last xs \<noteq> x" using q Cons by (auto simp: slist_rep_def)
  thus ?thesis using q Cons
    by (auto simp: sl_pop_front_def slist_rep_def node_set_next_def chain_Cons)
qed

lemma rep_pop_empty: "slist_rep nx q [] \<Longrightarrow> sl_pop_front nx q = (nx, q)"
  by (simp add: sl_pop_front_def slist_rep_def)

section \<open>Observers\<close>

lemma slist_last_chain: "chain nx (x # xs) \<Longrightarrow> slist_last nx x = Some (last (x # xs))"
  by (induction xs arbitrary: x) (auto simp: slist_last.simps)

lemma slist_queue_rep:
  assumes "distinct xs" "chain nx xs"
  shows "\<exists>q. slist_queue nx (if xs = [] then None else Some (hd xs)) = Some q \<and> slist_rep nx q xs"
proof (cases xs)
  case Nil
  thus ?thesis by (simp add: slist_queue_def slist_rep_def)
next
  case (Cons y ys)
  thus ?thesis using assms slist_last_chain[of nx y ys] by (simp add: slist_queue_def slist_rep_def)
qed

lemma count_from_chain:
  "chain nx xs \<Longrightarrow> count_from nx (if xs = [] then None else Some (hd xs)) (to_i32 c) =
     Some (to_i32 (c + int (length xs)))"
proof (induction xs arbitrary: c)
  case (Cons x xs)
  have "count_from nx (Some x) (to_i32 c) = count_from nx (nx x) (to_i32 (c + 1))"
    by (subst count_from.simps) (simp add: to_i32_add)
  also have "nx x = (if xs = [] then None else Some (hd xs))"
    using Cons.prems by (simp add: chain_Cons)
  also have "count_from nx \<dots> (to_i32 (c + 1)) = Some (to_i32 (c + 1 + int (length xs)))"
    using Cons.prems by (intro Cons.IH) (simp add: chain_Cons)
  finally show ?case by (simp add: ac_simps)
qed (simp add: count_from.simps)

lemma rep_count: "slist_rep nx q xs \<Longrightarrow> sl_count nx q = Some (to_i32 (int (length xs)))"
  using count_from_chain[of nx xs 0] by (simp add: sl_count_def slist_rep_def to_i32_def)

lemma it_visit_chain:
  "chain nx xs \<Longrightarrow>
   it_visit nx (if xs = [] then None else Some (hd xs)) None acc = Some (rev acc @ xs)"
proof (induction xs arbitrary: acc)
  case (Cons x xs)
  have "it_visit nx (Some x) None acc = it_visit nx (nx x) None (x # acc)"
    by (subst it_visit.simps) (simp add: it_eq_def it_incr_def)
  also have "nx x = (if xs = [] then None else Some (hd xs))"
    using Cons.prems by (simp add: chain_Cons)
  also have "it_visit nx \<dots> None (x # acc) = Some (rev (x # acc) @ xs)"
    using Cons.prems by (intro Cons.IH) (simp add: chain_Cons)
  finally show ?case by simp
qed (simp add: it_visit.simps it_eq_def)

lemma rep_visit:
  "slist_rep nx q xs \<Longrightarrow> sl_visit nx q = (if xs = [] then None else Some xs)"
  using it_visit_chain[of nx xs "[]"]
  by (auto simp: sl_visit_def sl_end_def sl_begin_def slist_rep_def chain_last)

section \<open>Queues that share their nodes\<close>

text \<open>
  A program over any number of queues. The abstract program moves nodes between lists; it
  refuses to add a node that some queue holds, which the code does not check.
\<close>

datatype sl_action =
  Push_Front nat node
| Push_Back nat node
| Pop_Front nat
| Splice nat nat

type_synonym pool = "links \<times> (nat \<Rightarrow> slist)"

fun pool_step :: "sl_action \<Rightarrow> pool \<Rightarrow> pool option" where
  "pool_step (Push_Front i n) (nx, qs) =
     (case sl_add_front nx (qs i) n of None \<Rightarrow> None | Some (nx', q) \<Rightarrow> Some (nx', qs(i := q)))"
| "pool_step (Push_Back i n) (nx, qs) =
     (case sl_add_tail nx (qs i) n of None \<Rightarrow> None | Some (nx', q) \<Rightarrow> Some (nx', qs(i := q)))"
| "pool_step (Pop_Front i) (nx, qs) =
     (case sl_pop_front nx (qs i) of (nx', q) \<Rightarrow> Some (nx', qs(i := q)))"
| "pool_step (Splice i j) (nx, qs) =
     (if i = j then
        (case sl_splice_self nx (qs i) of None \<Rightarrow> None | Some (nx', q) \<Rightarrow> Some (nx', qs(i := q)))
      else
        (case sl_splice nx (qs i) (qs j) of None \<Rightarrow> None
         | Some (nx', q, l) \<Rightarrow> Some (nx', qs(i := q, j := l))))"

fun pool_run :: "sl_action list \<Rightarrow> pool \<Rightarrow> pool option" where
  "pool_run [] p = Some p"
| "pool_run (a # as) p = (case pool_step a p of None \<Rightarrow> None | Some p' \<Rightarrow> pool_run as p')"

definition fresh :: "(nat \<Rightarrow> node list) \<Rightarrow> node \<Rightarrow> bool" where
  "fresh ls n \<longleftrightarrow> (\<forall>i. n \<notin> set (ls i))"

fun lists_step :: "sl_action \<Rightarrow> (nat \<Rightarrow> node list) \<Rightarrow> (nat \<Rightarrow> node list)" where
  "lists_step (Push_Front i n) ls = ls(i := n # ls i)"
| "lists_step (Push_Back i n) ls = ls(i := ls i @ [n])"
| "lists_step (Pop_Front i) ls = ls(i := tl (ls i))"
| "lists_step (Splice i j) ls = ls(i := ls i @ ls j, j := [])"

fun legal :: "sl_action \<Rightarrow> (nat \<Rightarrow> node list) \<Rightarrow> bool" where
  "legal (Push_Front i n) ls = fresh ls n"
| "legal (Push_Back i n) ls = fresh ls n"
| "legal (Pop_Front i) ls = True"
| "legal (Splice i j) ls = (i \<noteq> j)"

fun legal_run :: "sl_action list \<Rightarrow> (nat \<Rightarrow> node list) \<Rightarrow> bool" where
  "legal_run [] ls = True"
| "legal_run (a # as) ls = (legal a ls \<and> legal_run as (lists_step a ls))"

definition pool_ok :: "pool \<Rightarrow> (nat \<Rightarrow> node list) \<Rightarrow> bool" where
  "pool_ok p ls \<longleftrightarrow>
     (\<forall>i. slist_rep (fst p) (snd p i) (ls i)) \<and>
     (\<forall>i j. i \<noteq> j \<longrightarrow> set (ls i) \<inter> set (ls j) = {}) \<and>
     (\<forall>n. fresh ls n \<longrightarrow> fst p n = None)"

lemma pool_okI:
  assumes p: "pool_ok (nx, qs) ls" and q: "slist_rep nx' q xs"
    and d: "\<And>j. j \<noteq> i \<Longrightarrow> set xs \<inter> set (ls j) = {}"
    and f: "\<And>a. a \<notin> set (ls i) \<Longrightarrow> a \<notin> set xs \<Longrightarrow> nx' a = nx a"
    and c: "\<And>a. a \<in> set (ls i) \<Longrightarrow> a \<notin> set xs \<Longrightarrow> nx' a = None"
  shows "pool_ok (nx', qs(i := q)) (ls(i := xs))"
proof -
  have dj: "set (ls i) \<inter> set (ls j) = {}" if "i \<noteq> j" for i j
    using p that by (simp add: pool_ok_def)
  have o: "slist_rep nx' (qs j) (ls j)" if "j \<noteq> i" for j
  proof (rule rep_frame[of nx])
    show "slist_rep nx (qs j) (ls j)" using p by (simp add: pool_ok_def)
    show "nx' a = nx a" if "a \<in> set (ls j)" for a
      using that dj[OF \<open>j \<noteq> i\<close>] d[OF \<open>j \<noteq> i\<close>] by (intro f) blast+
  qed
  have n: "nx' n = None" if fr: "fresh (ls(i := xs)) n" for n
  proof -
    have nxs: "n \<notin> set xs" using fr by (auto simp: fresh_def dest: spec[of _ i])
    have nls: "n \<notin> set (ls j)" if "j \<noteq> i" for j
      using fr that by (auto simp: fresh_def dest: spec[of _ j])
    show ?thesis
    proof (cases "n \<in> set (ls i)")
      case True
      thus ?thesis using nxs by (rule c)
    next
      case False
      hence "fresh ls n" using nls unfolding fresh_def by metis
      thus ?thesis using p f[OF False nxs] by (simp add: pool_ok_def)
    qed
  qed
  have "set ((ls(i := xs)) j) \<inter> set ((ls(i := xs)) k) = {}" if "j \<noteq> k" for j k
    using that d dj by (cases "j = i"; cases "k = i") (simp_all, blast+)
  thus ?thesis using o n q by (simp add: pool_ok_def)
qed

lemma fresh_spec: "fresh ls n \<Longrightarrow> n \<notin> set (ls i)"
  by (simp add: fresh_def)

lemma fresh_null: "pool_ok p ls \<Longrightarrow> fresh ls n \<Longrightarrow> fst p n = None"
  by (simp add: pool_ok_def)

lemma pool_rep: "pool_ok p ls \<Longrightarrow> slist_rep (fst p) (snd p i) (ls i)"
  by (simp add: pool_ok_def)

lemma pool_disjoint: "pool_ok p ls \<Longrightarrow> i \<noteq> j \<Longrightarrow> set (ls i) \<inter> set (ls j) = {}"
  by (simp add: pool_ok_def)

lemma pool_step_ok:
  assumes p: "pool_ok (nx, qs) ls" and a: "legal a ls"
  shows "\<exists>p'. pool_step a (nx, qs) = Some p' \<and> pool_ok p' (lists_step a ls)"
proof (cases a)
  case (Push_Front i n)
  have n: "n \<notin> set (ls j)" "nx n = None" for j
    using a p Push_Front fresh_null[OF p] by (auto simp: fresh_spec)
  obtain nx' q where r: "sl_add_front nx (qs i) n = Some (nx', q)" "slist_rep nx' q (n # ls i)"
    "\<forall>a. a \<noteq> n \<longrightarrow> nx' a = nx a"
    using rep_add_front[OF pool_rep[OF p, of i, simplified], of n] n by blast
  have "pool_ok (nx', qs(i := q)) (ls(i := n # ls i))"
    using r n pool_disjoint[OF p, of i] by (intro pool_okI[OF p]) auto
  thus ?thesis using r Push_Front by simp
next
  case (Push_Back i n)
  have n: "n \<notin> set (ls j)" "nx n = None" for j
    using a p Push_Back fresh_null[OF p] by (auto simp: fresh_spec)
  obtain nx' q where r: "sl_add_tail nx (qs i) n = Some (nx', q)" "slist_rep nx' q (ls i @ [n])"
    "\<forall>a. a \<notin> set (ls i) \<longrightarrow> nx' a = nx a"
    using rep_add_tail[OF pool_rep[OF p, of i, simplified], of n] n by blast
  have "pool_ok (nx', qs(i := q)) (ls(i := ls i @ [n]))"
    using r n pool_disjoint[OF p, of i] by (intro pool_okI[OF p]) auto
  thus ?thesis using r Push_Back by simp
next
  case (Pop_Front i)
  show ?thesis
  proof (cases "ls i")
    case Nil
    thus ?thesis using Pop_Front p rep_pop_empty[of nx "qs i"] pool_rep[OF p, of i]
      by (simp add: fun_upd_idem)
  next
    case (Cons x xs)
    obtain nx' q where r: "sl_pop_front nx (qs i) = (nx', q)" "slist_rep nx' q xs" "nx' x = None"
      "\<forall>a. a \<noteq> x \<longrightarrow> nx' a = nx a"
      using rep_pop[of nx "qs i" x xs] pool_rep[OF p, of i] Cons by auto
    have "pool_ok (nx', qs(i := q)) (ls(i := xs))"
      using r Cons pool_disjoint[OF p, of i] by (intro pool_okI[OF p]) auto
    thus ?thesis using r Pop_Front Cons by simp
  qed
next
  case (Splice i j)
  hence ij: "i \<noteq> j" using a by simp
  obtain nx' q l where r: "sl_splice nx (qs i) (qs j) = Some (nx', q, l)"
    "slist_rep nx' q (ls i @ ls j)" "slist_rep nx' l []" "\<forall>a. a \<notin> set (ls i) \<longrightarrow> nx' a = nx a"
    using rep_splice[OF pool_rep[OF p, of i, simplified] pool_rep[OF p, of j, simplified]
        pool_disjoint[OF p ij]] by blast
  let ?ls = "ls(i := ls i @ ls j, j := [])"
  have c: "?ls k =
      (if k = i then ls i @ ls j else if k = j then [] else ls k)" for k using ij by simp
  have o: "slist_rep nx' (qs k) (ls k)" if "k \<noteq> i" for k
  proof (rule rep_frame[of nx])
    show "slist_rep nx (qs k) (ls k)" using pool_rep[OF p, of k] by simp
    show "nx' a = nx a" if "a \<in> set (ls k)" for a
      using that pool_disjoint[OF p \<open>k \<noteq> i\<close>] r(4) by blast
  qed
  have d: "set (ls k) \<inter> set (ls m) = {}" if "k \<noteq> m" for k m by (rule pool_disjoint[OF p that])
  have "nx' n = None" if "fresh (ls(i := ls i @ ls j, j := [])) n" for n
  proof -
    have "n \<notin> set (ls k)" for k
      using fresh_spec[OF that, of k] fresh_spec[OF that, of i] ij by (auto simp: c split: if_splits)
    thus ?thesis using r(4) fresh_null[OF p] by (simp add: fresh_def)
  qed
  moreover have "set (?ls k) \<inter> set (?ls m) = {}" if km: "k \<noteq> m" for k m
  proof -
    have w: "\<exists>k'. x \<in> set (ls k') \<and> k \<noteq> j \<and> (k' = k \<or> k = i \<and> k' = j)"
      if "x \<in> set (?ls k)" for x k
      using that ij by (auto simp: c split: if_splits)
    have False if "x \<in> set (?ls k)" "x \<in> set (?ls m)" for x
      using w[OF that(1)] w[OF that(2)] d km by blast
    thus ?thesis by blast
  qed
  ultimately have "pool_ok (nx', qs(i := q, j := l)) (ls(i := ls i @ ls j, j := []))"
    using r o ij by (simp add: pool_ok_def)
  thus ?thesis using r ij Splice by simp
qed

lemma pool_run_ok:
  "pool_ok p ls \<Longrightarrow> legal_run as ls \<Longrightarrow>
   \<exists>p'. pool_run as p = Some p' \<and> pool_ok p' (fold lists_step as ls)"
proof (induction as arbitrary: p ls)
  case (Cons a as)
  obtain p' where "pool_step a p = Some p'" "pool_ok p' (lists_step a ls)"
    using pool_step_ok[of "fst p" "snd p" ls a] Cons.prems by auto
  thus ?case using Cons.IH[of p' "lists_step a ls"] Cons.prems by simp
qed simp

lemma pool_start: "pool_ok (\<lambda>n. None, \<lambda>i. sl_empty) (\<lambda>i. [])"
  by (simp add: pool_ok_def)

text \<open>C34. Intrusive queues over shared nodes (\<open>util/list_node.hpp\<close>): every program that adds
  only nodes no queue holds, and never appends a queue to itself, runs without dereferencing a
  null pointer, and afterwards the front, the count (a 32-bit int) and the iteration of every
  queue are those of the list the program describes. Iterating an empty queue is the exception:
  \<open>end()\<close> dereferences its null tail.\<close>

theorem slist_programs_refine:
  assumes "legal_run as (\<lambda>i. [])" "ls = fold lists_step as (\<lambda>i. [])"
  shows "\<exists>nx qs. pool_run as (\<lambda>n. None, \<lambda>i. sl_empty) = Some (nx, qs) \<and>
    (\<forall>i. sl_is_empty (qs i) = (ls i = []) \<and>
         sl_front (qs i) = (if ls i = [] then None else Some (hd (ls i))) \<and>
         sl_count nx (qs i) = Some (to_i32 (int (length (ls i)))) \<and>
         sl_visit nx (qs i) = (if ls i = [] then None else Some (ls i)))"
proof -
  obtain p where "pool_run as (\<lambda>n. None, \<lambda>i. sl_empty) = Some p" "pool_ok p ls"
    using pool_run_ok[OF pool_start assms(1)] assms(2) by auto
  moreover have "sl_is_empty (snd p i) = (ls i = [])"
    "sl_front (snd p i) = (if ls i = [] then None else Some (hd (ls i)))"
    "sl_count (fst p) (snd p i) = Some (to_i32 (int (length (ls i))))"
    "sl_visit (fst p) (snd p i) = (if ls i = [] then None else Some (ls i))" for i
    using pool_rep[OF \<open>pool_ok p ls\<close>, of i]
    by (simp_all only: rep_is_empty rep_front rep_count rep_visit)
  ultimately show ?thesis by (intro exI[of _ "fst p"] exI[of _ "snd p"]) simp
qed

lemma slist_programs_refine_witness:
  "\<exists>nx qs. pool_run [Push_Back 0 3, Push_Back 1 4, Push_Front 1 5, Splice 0 1, Pop_Front 0]
      (\<lambda>n. None, \<lambda>i. sl_empty) = Some (nx, qs) \<and>
    sl_visit nx (qs 0) = Some [5, 4] \<and> sl_visit nx (qs 1) = None"
proof -
  let ?as = "[Push_Back 0 3, Push_Back 1 4, Push_Front 1 5, Splice 0 1, Pop_Front 0]"
  have "legal_run ?as (\<lambda>i. [])" by (simp add: fresh_def)
  from slist_programs_refine[OF this refl] obtain nx qs where
    r: "pool_run ?as (\<lambda>n. None, \<lambda>i. sl_empty) = Some (nx, qs)"
    and v: "\<And>i. sl_visit nx (qs i) = (if fold lists_step ?as (\<lambda>i. []) i = [] then None
                else Some (fold lists_step ?as (\<lambda>i. []) i))"
    by blast
  have "sl_visit nx (qs 0) = Some [5, 4]" "sl_visit nx (qs 1) = None"
    by (simp_all add: v)
  thus ?thesis using r by blast
qed

lemma count_from_cycle:
  assumes "\<And>a. a \<in> S \<Longrightarrow> \<exists>b\<in>S. nx a = Some b" "a \<in> S"
  shows "count_from nx (Some a) c = None"
proof -
  have "nx' = nx \<longrightarrow> (\<forall>a\<in>S. p \<noteq> Some a)" if "count_from nx' p c = Some r" for nx' p c r
  proof (rule count_from.raw_induct
      [where P = "\<lambda>nx' p c r. nx' = nx \<longrightarrow> (\<forall>a\<in>S. p \<noteq> Some a)", OF _ that], intro impI ballI)
    fix f :: "links \<Rightarrow> node option \<Rightarrow> int \<Rightarrow> int option" and nx' p c r a
    assume f: "\<And>nx' p c r. f nx' p c = Some r \<Longrightarrow> nx' = nx \<longrightarrow> (\<forall>a\<in>S. p \<noteq> Some a)"
      and r: "(case p of None \<Rightarrow> Some c | Some a \<Rightarrow> f nx' (nx' a) (to_i32 (c + 1))) = Some r"
      and a: "nx' = nx" "a \<in> S"
    obtain b where "b \<in> S" "nx a = Some b" using a assms(1) by blast
    thus "p \<noteq> Some a" using f[of nx' "nx' a" "to_i32 (c + 1)" r] r a by (auto split: option.splits)
  qed
  thus ?thesis using assms(2) by (cases "count_from nx (Some a) c") blast+
qed

lemma chain_next:
  "chain nx xs \<Longrightarrow> a \<in> set xs \<Longrightarrow> a = last xs \<or> (\<exists>b\<in>set xs. nx a = Some b)"
  by (induction nx xs rule: chain.induct) auto

text \<open>Appending a queue to itself (\<open>add_tail( slist_queue& )\<close> with \<open>*this\<close>) loses every
  node: the queue is empty afterwards, and the nodes are left in a cycle, so that a walk over
  them (\<open>count()\<close> of a queue that is given such a node) never ends.\<close>

theorem slist_self_splice_loses:
  assumes "slist_rep nx q xs" "xs \<noteq> []"
  shows "\<exists>nx' q'. sl_splice_self nx q = Some (nx', q') \<and> sl_is_empty q' \<and>
           (\<forall>q2. sl_head q2 = Some (hd xs) \<longrightarrow> sl_count nx' q2 = None)"
proof -
  let ?n = "nx(last xs := Some (hd xs))"
  have "sl_splice_self nx q = Some (?n, q\<lparr>sl_head := None, sl_tail := None\<rparr>)"
    using assms
    by (simp add: sl_splice_self_def sl_is_empty_def sl_front_def sl_add_tail_def slist_rep_def
        node_set_next_def)
  moreover have "sl_count ?n q2 = None" if "sl_head q2 = Some (hd xs)" for q2
  proof -
    have "\<exists>b\<in>set xs. ?n a = Some b" if "a \<in> set xs" for a
      using chain_next[of nx xs a] assms that by (auto simp: slist_rep_def)
    thus ?thesis using that assms(2) count_from_cycle[of "set xs" ?n "hd xs" 0]
      by (simp add: sl_count_def)
  qed
  ultimately show ?thesis by (simp add: sl_is_empty_def)
qed

lemma slist_self_splice_loses_witness:
  "\<exists>nx' q'. sl_splice_self (\<lambda>n. None) \<lparr>sl_head = Some 3, sl_tail = Some 3\<rparr> = Some (nx', q') \<and>
     sl_is_empty q' \<and> sl_count nx' \<lparr>sl_head = Some 3, sl_tail = None\<rparr> = None"
  using slist_self_splice_loses[of "\<lambda>n. None" "\<lparr>sl_head = Some 3, sl_tail = Some 3\<rparr>" "[3]"]
  by (fastforce simp: slist_rep_def)

end
