(* ===== verification/Event_Loop.thy ===== *)
theory Event_Loop
  imports Slist Time "HOL-Library.Multiset"
begin

text \<open>
  The event loop: tasks (\<open>event_loop/task.cpp\<close>, \<open>timer_task.cpp\<close>, \<open>io/task.cpp\<close>), the timer
  list of \<open>event_loop/scheduler.cpp\<close>, the poller of \<open>io/epoll.cpp\<close> and
  \<open>event_loop/event_loop.cpp\<close>. Tasks are nodes of intrusive queues (theory \<open>Slist\<close>); the code
  a task runs is a parameter (\<open>body\<close>) for the handlers the user supplies, and is written out
  for the tasks the loop makes itself. What the kernel and other threads do while the loop
  waits is the parameter \<open>kern\<close>; the readings of the clock are the parameter \<open>clk\<close>.
\<close>

section \<open>State\<close>

text \<open>The handler of a task: null, the user's, the two closures the loop wraps in one-shot
  tasks for other threads, and the event descriptor's.\<close>

datatype task_kind =
  No_Handler
| User_Handler
| Schedule_Shot node
| Cancel_Shot node
| Event_Fd_Handler

record epoll_state =
  ep_interest :: "int \<rightharpoonup> node \<times> int"
  ep_evt :: "node \<Rightarrow> int"
  ep_eventfd :: nat

record loop_state =
  el_links :: links
  el_tasks :: slist
  el_queue :: slist
  el_timers :: "node list"
  el_expiry :: "node \<Rightarrow> date_time"
  el_kind :: "node \<Rightarrow> task_kind"
  el_active :: int
  el_handles :: int
  el_thread :: nat
  el_clock :: nat
  el_io :: epoll_state

section \<open>The timer list\<close>

text \<open>\<open>std::upper_bound\<close> finds the first timer that expires later than the new one.\<close>

definition sch_insert :: "(node \<Rightarrow> date_time) \<Rightarrow> node \<Rightarrow> node list \<Rightarrow> node list" where
  "sch_insert e tt ts =
     takeWhile (\<lambda>x. \<not> dt_less (e tt) (e x)) ts @ tt # dropWhile (\<lambda>x. \<not> dt_less (e tt) (e x)) ts"

definition sch_cancel :: "node \<Rightarrow> node list \<Rightarrow> node list \<times> bool" where
  "sch_cancel tt ts = (if tt \<in> set ts then (remove1 tt ts, True) else (ts, False))"

section \<open>The poller\<close>

definition evt :: "epoll_state \<Rightarrow> node \<Rightarrow> int" where
  "evt io t = ep_evt io t"

definition set_evt :: "node \<Rightarrow> int \<Rightarrow> epoll_state \<Rightarrow> epoll_state" where
  "set_evt t e io = io\<lparr>ep_evt := (ep_evt io)(t := e)\<rparr>"

text \<open>
  \<open>EPOLL_CTL_MOD\<close> of an unknown descriptor fails with \<open>ENOENT\<close>, and the descriptor is added
  if the kernel accepts it (\<open>ok\<close>). The kernel keeps a copy of the task's event mask.
\<close>

definition ep_register :: "bool \<Rightarrow> int \<Rightarrow> node \<Rightarrow> epoll_state \<Rightarrow> epoll_state \<times> bool" where
  "ep_register ok fd t io =
     (if fd \<in> dom (ep_interest io) then
        (io\<lparr>ep_interest := (ep_interest io)(fd \<mapsto> (t, evt io t))\<rparr>, True)
      else if ok then (io\<lparr>ep_interest := (ep_interest io)(fd \<mapsto> (t, evt io t))\<rparr>, True)
      else (io, False))"

definition ep_unregister :: "int \<Rightarrow> epoll_state \<Rightarrow> epoll_state" where
  "ep_unregister fd io = io\<lparr>ep_interest := (ep_interest io)(fd := None)\<rparr>"

text \<open>The event descriptor is a 64-bit counter; a write that would overflow it is refused.\<close>

definition event_fd_set :: "epoll_state \<Rightarrow> epoll_state" where
  "event_fd_set io =
     (if ep_eventfd io + 1 < 2 ^ 64 - 1 then io\<lparr>ep_eventfd := ep_eventfd io + 1\<rparr> else io)"

definition event_fd_task_handler :: "epoll_state \<Rightarrow> epoll_state" where
  "event_fd_task_handler io = io\<lparr>ep_eventfd := 0\<rparr>"

definition ep_wake_up :: "epoll_state \<Rightarrow> epoll_state" where
  "ep_wake_up io = event_fd_set io"

section \<open>The loop's operations\<close>

definition el_add_active :: "loop_state \<Rightarrow> loop_state" where
  "el_add_active st = st\<lparr>el_active := to_i32 (el_active st + 1)\<rparr>"

definition el_remove_active :: "loop_state \<Rightarrow> loop_state" where
  "el_remove_active st = st\<lparr>el_active := to_i32 (el_active st - 1)\<rparr>"

text \<open>The same called by the owner of a handle: \<open>el_handles\<close> is what these calls add up to.\<close>

definition el_add_handle :: "loop_state \<Rightarrow> loop_state" where
  "el_add_handle st = (el_add_active st)\<lparr>el_handles := el_handles st + 1\<rparr>"

definition el_remove_handle :: "loop_state \<Rightarrow> loop_state" where
  "el_remove_handle st = (el_remove_active st)\<lparr>el_handles := el_handles st - 1\<rparr>"

definition el_execute :: "node \<Rightarrow> loop_state \<Rightarrow> loop_state option" where
  "el_execute t st =
     (let st1 = el_add_active st in
      case sl_add_tail (el_links st1) (el_tasks st1) t of
        None \<Rightarrow> None
      | Some (nx, q) \<Rightarrow>
          Some (st1\<lparr>el_links := nx, el_tasks := q, el_io := ep_wake_up (el_io st1)\<rparr>))"

definition el_in_loop :: "nat \<Rightarrow> loop_state \<Rightarrow> bool" where
  "el_in_loop tid st \<longleftrightarrow> tid = el_thread st"

text \<open>\<open>new handler_task_auto_delete\<close>: the address \<open>n\<close> comes from the allocator.\<close>

definition make_one_shot_task :: "node \<Rightarrow> task_kind \<Rightarrow> loop_state \<Rightarrow> loop_state" where
  "make_one_shot_task n k st =
     st\<lparr>el_links := slist_node_new (el_links st) n, el_kind := (el_kind st)(n := k)\<rparr>"

definition el_schedule :: "nat \<Rightarrow> node \<Rightarrow> node \<Rightarrow> loop_state \<Rightarrow> loop_state option" where
  "el_schedule tid n tt st =
     (if el_in_loop tid st then
        Some (el_add_active (st\<lparr>el_timers := sch_insert (el_expiry st) tt (el_timers st)\<rparr>))
      else el_execute n (make_one_shot_task n (Schedule_Shot tt) st))"

definition el_cancel :: "nat \<Rightarrow> node \<Rightarrow> node \<Rightarrow> loop_state \<Rightarrow> loop_state option" where
  "el_cancel tid n tt st =
     (if el_in_loop tid st then
        (let (ts, found) = sch_cancel tt (el_timers st)
         in Some (if found then (el_remove_active (st\<lparr>el_timers := ts\<rparr>)) else st))
      else el_execute n (make_one_shot_task n (Cancel_Shot tt) st))"

text \<open>\<open>task::operator()\<close>. The closures run in the loop's thread, where \<open>schedule\<close> and
  \<open>cancel\<close> work on the list at once (so the spare address they are given is not used).\<close>

definition task_call :: "(node \<Rightarrow> loop_state \<Rightarrow> loop_state option) \<Rightarrow> node \<Rightarrow> loop_state \<Rightarrow> loop_state option" where
  "task_call body t st =
     (case el_kind st t of
        No_Handler \<Rightarrow> Some st
      | User_Handler \<Rightarrow> body t st
      | Schedule_Shot tt \<Rightarrow> el_schedule (el_thread st) t tt st
      | Cancel_Shot tt \<Rightarrow> el_cancel (el_thread st) t tt st
      | Event_Fd_Handler \<Rightarrow> Some (st\<lparr>el_io := event_fd_task_handler (el_io st)\<rparr>))"

text \<open>\<open>event_loop::schedule( handler , expired_at )\<close>: a new timer with the given expiry.\<close>

definition el_schedule_handler :: "nat \<Rightarrow> node \<Rightarrow> node \<Rightarrow> date_time \<Rightarrow> loop_state \<Rightarrow> loop_state option" where
  "el_schedule_handler tid n op d st =
     (let st1 = st\<lparr>el_links := slist_node_new (el_links st) op,
                   el_kind := (el_kind st)(op := User_Handler),
                   el_expiry := (el_expiry st)(op := d)\<rparr>
      in el_schedule tid n op st1)"

section \<open>The loop\<close>

type_synonym task_run = "node \<Rightarrow> loop_state \<Rightarrow> loop_state option"

text \<open>A reading of \<open>date_time::utc()\<close>.\<close>

definition clock_utc :: "(nat \<Rightarrow> date_time) \<Rightarrow> loop_state \<Rightarrow> loop_state \<times> date_time" where
  "clock_utc clk st = (st\<lparr>el_clock := Suc (el_clock st)\<rparr>, clk (el_clock st))"

text \<open>\<open>scheduler::schedule()\<close> runs the expired timers and counts them; it reads the clock
  again for each, and does not return while the timers it runs put expired ones in the list.\<close>

partial_function (option) sch_run ::
  "(nat \<Rightarrow> date_time) \<Rightarrow> task_run \<Rightarrow> loop_state \<Rightarrow> int \<Rightarrow> (loop_state \<times> int) option" where
  "sch_run clk call st cnt =
     (case el_timers st of
        [] \<Rightarrow> Some (st, cnt)
      | tt # ts \<Rightarrow>
          if el_expiry st tt \<le> snd (clock_utc clk st) then
            (case call tt ((fst (clock_utc clk st))\<lparr>el_timers := ts\<rparr>) of
               None \<Rightarrow> None
             | Some st' \<Rightarrow> sch_run clk call st' (to_i32 (cnt + 1)))
          else Some (fst (clock_utc clk st), cnt))"

text \<open>\<open>scheduler::schedule( slist_queue& )\<close> moves the expired timers to a queue.\<close>

function sch_collect ::
  "(nat \<Rightarrow> date_time) \<Rightarrow> slist \<Rightarrow> loop_state \<Rightarrow> (loop_state \<times> slist) option" where
  "sch_collect clk expireds st =
     (case el_timers st of
        [] \<Rightarrow> Some (st, expireds)
      | tt # ts \<Rightarrow>
          (let (st1, now) = clock_utc clk st in
           if el_expiry st tt \<le> now then
             (case sl_add_tail (el_links st1) expireds tt of
                None \<Rightarrow> None
              | Some (nx, q) \<Rightarrow> sch_collect clk q (st1\<lparr>el_timers := ts, el_links := nx\<rparr>))
           else Some (st1, expireds)))"
  by pat_completeness auto
termination
  by (relation "measure (\<lambda>(clk, q, st). length (el_timers st))") (auto simp: clock_utc_def)

definition sch_schedule_after ::
  "(nat \<Rightarrow> date_time) \<Rightarrow> loop_state \<Rightarrow> loop_state \<times> time_span" where
  "sch_schedule_after clk st =
     (case el_timers st of
        [] \<Rightarrow> (st, ts_from_seconds 100)
      | tt # ts \<Rightarrow>
          (let (st1, now) = clock_utc clk st
           in if dt_less (el_expiry st tt) now then (st1, 0)
              else (st1, dt_diff (el_expiry st tt) now)))"

text \<open>
  \<open>epoll::wait\<close>: the events the kernel reports, at most 256, each with the pointer it was
  registered with, also when a handler called earlier in the batch has unregistered it.
  \<open>None\<close> is an error of \<open>epoll_wait\<close>. The kernel is given the state and the
  timeout in milliseconds; the state it returns is what other threads made of it meanwhile.
\<close>

type_synonym kernel = "loop_state \<Rightarrow> int \<Rightarrow> loop_state \<times> (node option \<times> int) list option"

fun ep_dispatch :: "task_run \<Rightarrow> (node option \<times> int) list \<Rightarrow> loop_state \<Rightarrow> loop_state option" where
  "ep_dispatch call [] st = Some st"
| "ep_dispatch call ((p, e) # evs) st =
     (case p of
        None \<Rightarrow> ep_dispatch call evs st
      | Some t \<Rightarrow>
          (case call t (st\<lparr>el_io := set_evt t e (el_io st)\<rparr>) of
             None \<Rightarrow> None
           | Some st' \<Rightarrow> ep_dispatch call evs st'))"

definition ep_wait :: "kernel \<Rightarrow> task_run \<Rightarrow> time_span \<Rightarrow> loop_state \<Rightarrow> loop_state option" where
  "ep_wait kern call w st =
     (let (st1, r) = kern st (to_i32 (ts_total_milli_seconds w))
      in case r of None \<Rightarrow> Some st1 | Some evs \<Rightarrow> ep_dispatch call evs st1)"

text \<open>\<open>_run_tasks\<close>: the tasks queued at this moment move to a local queue; then each runs.\<close>

definition el_take :: "loop_state \<Rightarrow> loop_state option" where
  "el_take st =
     (case sl_splice (el_links st) sl_empty (el_tasks st) of
        None \<Rightarrow> None
      | Some (nx, q, ts) \<Rightarrow> Some (st\<lparr>el_links := nx, el_queue := q, el_tasks := ts\<rparr>))"

definition el_pop :: "loop_state \<Rightarrow> loop_state" where
  "el_pop st =
     (let (nx, q) = sl_pop_front (el_links st) (el_queue st)
      in st\<lparr>el_links := nx, el_queue := q\<rparr>)"

partial_function (option) el_drain ::
  "task_run \<Rightarrow> loop_state \<Rightarrow> int \<Rightarrow> (loop_state \<times> int) option" where
  "el_drain call st cnt =
     (if sl_is_empty (el_queue st) then Some (st, cnt)
      else
        (case sl_front (el_queue st) of
           None \<Rightarrow> None
         | Some t \<Rightarrow>
             (case call t (el_pop st) of
                None \<Rightarrow> None
              | Some st' \<Rightarrow> el_drain call st' (to_i32 (cnt + 1)))))"

definition el_run_tasks :: "task_run \<Rightarrow> loop_state \<Rightarrow> (loop_state \<times> int) option" where
  "el_run_tasks call st = (case el_take st of None \<Rightarrow> None | Some st' \<Rightarrow> el_drain call st' 0)"

text \<open>One turn of \<open>run()\<close>.\<close>

definition el_turn :: "(nat \<Rightarrow> date_time) \<Rightarrow> kernel \<Rightarrow> task_run \<Rightarrow> loop_state \<Rightarrow> loop_state option" where
  "el_turn clk kern call st =
     (let (st1, w) = sch_schedule_after clk st in
      case ep_wait kern call w st1 of
        None \<Rightarrow> None
      | Some st2 \<Rightarrow>
          (case sch_run clk call st2 0 of
             None \<Rightarrow> None
           | Some (st3, cnt) \<Rightarrow>
               (case el_run_tasks call st3 of
                  None \<Rightarrow> None
                | Some (st4, n) \<Rightarrow>
                    Some (st4\<lparr>el_active := to_i32 (el_active st4 - to_i32 (cnt + n))\<rparr>))))"

partial_function (option) el_loop ::
  "(nat \<Rightarrow> date_time) \<Rightarrow> kernel \<Rightarrow> task_run \<Rightarrow> loop_state \<Rightarrow> loop_state option" where
  "el_loop clk kern call st =
     (if el_active st = 0 then Some st
      else (case el_turn clk kern call st of
              None \<Rightarrow> None | Some st' \<Rightarrow> el_loop clk kern call st'))"

definition el_run ::
  "nat \<Rightarrow> (nat \<Rightarrow> date_time) \<Rightarrow> kernel \<Rightarrow> task_run \<Rightarrow> loop_state \<Rightarrow> loop_state option" where
  "el_run tid clk kern body st =
     el_loop clk kern (task_call body) (st\<lparr>el_thread := tid\<rparr>)"

section \<open>The invariant of the loop\<close>

definition st_pool :: "loop_state \<Rightarrow> pool" where
  "st_pool st = (el_links st, (\<lambda>i. sl_empty)(0 := el_tasks st, 1 := el_queue st))"

definition two_lists :: "node list \<Rightarrow> node list \<Rightarrow> nat \<Rightarrow> node list" where
  "two_lists xs ys = (\<lambda>i. [])(0 := xs, 1 := ys)"

text \<open>\<open>xs\<close> are the tasks queued, \<open>ys\<close> the ones the present round has still to run.\<close>

definition queued :: "loop_state \<Rightarrow> node list \<Rightarrow> node list \<Rightarrow> bool" where
  "queued st xs ys \<longleftrightarrow> pool_ok (st_pool st) (two_lists xs ys)"

definition timers_sorted :: "loop_state \<Rightarrow> bool" where
  "timers_sorted st \<longleftrightarrow> sorted (map (el_expiry st) (el_timers st))"

text \<open>
  The active count is the number of queued tasks and timers, plus the handles registered with
  \<open>add_active\<close> (\<open>h\<close> before, \<open>el_handles\<close> since), plus \<open>k\<close> tasks run in this turn and not yet subtracted, as a 32-bit
  int. The task of the event descriptor is \<open>wk\<close>; nothing queues or schedules it.
\<close>

definition loop_inv :: "node \<Rightarrow> int \<Rightarrow> int \<Rightarrow> loop_state \<Rightarrow> bool" where
  "loop_inv wk h k st \<longleftrightarrow>
     (\<exists>xs ys. queued st xs ys \<and> wk \<notin> set xs \<union> set ys \<union> set (el_timers st) \<and>
        el_active st = to_i32 (int (length xs + length ys + length (el_timers st)) + (h + el_handles st) + k)) \<and>
     timers_sorted st \<and>
     (\<forall>t. el_kind st t = Event_Fd_Handler \<longrightarrow> t = wk) \<and>
     (\<forall>t. el_kind st t \<noteq> Schedule_Shot wk)"

text \<open>A queued task has its wake-up: the loop's next \<open>epoll_wait\<close> returns at once.\<close>

definition wake_ok :: "loop_state \<Rightarrow> bool" where
  "wake_ok st \<longleftrightarrow> sl_is_empty (el_tasks st) \<or> 0 < ep_eventfd (el_io st)"

text \<open>
  What handlers and other threads may do: the loop's operations, on task objects that are not
  queued, setting up tasks and timers that are not in use, and the poller's operations.
\<close>

definition not_queued :: "node \<Rightarrow> loop_state \<Rightarrow> bool" where
  "not_queued n st \<longleftrightarrow> (\<exists>xs ys. queued st xs ys \<and> n \<notin> set xs \<union> set ys)"

inductive api :: "node \<Rightarrow> loop_state \<Rightarrow> loop_state \<Rightarrow> bool" for wk where
  api_execute: "not_queued t st \<Longrightarrow> t \<noteq> wk \<Longrightarrow> el_execute t st = Some st' \<Longrightarrow> api wk st st'"
| api_schedule: "tt \<noteq> wk \<Longrightarrow> n \<noteq> wk \<Longrightarrow> not_queued n st \<Longrightarrow>
    el_schedule tid n tt st = Some st' \<Longrightarrow> api wk st st'"
| api_cancel: "n \<noteq> wk \<Longrightarrow> not_queued n st \<Longrightarrow> el_cancel tid n tt st = Some st' \<Longrightarrow> api wk st st'"
| api_expiry: "n \<notin> set (el_timers st) \<Longrightarrow> api wk st (st\<lparr>el_expiry := (el_expiry st)(n := d)\<rparr>)"
| api_handler: "k \<in> {No_Handler, User_Handler} \<Longrightarrow>
    api wk st (st\<lparr>el_kind := (el_kind st)(n := k)\<rparr>)"
| api_clock: "api wk st (fst (clock_utc clk st))"
| api_add_active: "api wk st (el_add_handle st)"
| api_remove_active: "api wk st (el_remove_handle st)"
| api_register: "api wk st (st\<lparr>el_io := fst (ep_register ok fd t (el_io st))\<rparr>)"
| api_unregister: "api wk st (st\<lparr>el_io := ep_unregister fd (el_io st)\<rparr>)"
| api_evt: "api wk st (st\<lparr>el_io := set_evt t e (el_io st)\<rparr>)"

lemmas loop_defs = loop_inv_def queued_def st_pool_def timers_sorted_def

lemma queued_cong:
  "el_links st' = el_links st \<Longrightarrow> el_tasks st' = el_tasks st \<Longrightarrow> el_queue st' = el_queue st \<Longrightarrow>
   queued st' xs ys = queued st xs ys"
  by (simp add: queued_def st_pool_def)

lemma queued_rep:
  assumes "queued st xs ys"
  shows "slist_rep (el_links st) (el_tasks st) xs" "slist_rep (el_links st) (el_queue st) ys"
  using assms pool_rep[of "st_pool st" "two_lists xs ys" 0] pool_rep[of "st_pool st" "two_lists xs ys" 1]
  by (simp_all add: queued_def st_pool_def two_lists_def)

lemma rep_unique: "slist_rep nx q xs \<Longrightarrow> slist_rep nx q ys \<Longrightarrow> xs = ys"
  using rep_visit[of nx q xs] rep_visit[of nx q ys] by (cases "xs = []"; cases "ys = []") auto

lemma queued_unique: "queued st xs ys \<Longrightarrow> queued st xs' ys' \<Longrightarrow> xs = xs' \<and> ys = ys'"
  using queued_rep rep_unique by metis

lemma not_queued_iff: "queued st xs ys \<Longrightarrow> not_queued n st \<longleftrightarrow> n \<notin> set xs \<union> set ys"
  unfolding not_queued_def using queued_unique by metis

lemma fresh_two: "fresh (two_lists xs ys) n \<longleftrightarrow> n \<notin> set xs \<union> set ys"
  by (auto simp: fresh_def two_lists_def)

lemma queued_null: "queued st xs ys \<Longrightarrow> n \<notin> set xs \<union> set ys \<Longrightarrow> el_links st n = None"
  using fresh_null[of "st_pool st" "two_lists xs ys" n] by (simp add: queued_def fresh_two st_pool_def)

lemma queued_push:
  assumes "queued st xs ys" "n \<notin> set xs \<union> set ys"
  shows "\<exists>nx q. sl_add_tail (el_links st) (el_tasks st) n = Some (nx, q) \<and>
           queued (st\<lparr>el_links := nx, el_tasks := q\<rparr>) (xs @ [n]) ys"
proof -
  have "\<exists>p'. pool_step (Push_Back 0 n) (st_pool st) = Some p' \<and>
          pool_ok p' (lists_step (Push_Back 0 n) (two_lists xs ys))"
    using assms pool_step_ok[of "fst (st_pool st)" "snd (st_pool st)" "two_lists xs ys" "Push_Back 0 n"]
    by (simp add: queued_def fresh_two)
  moreover have "lists_step (Push_Back 0 n) (two_lists xs ys) = two_lists (xs @ [n]) ys"
    by (auto simp: two_lists_def fun_eq_iff)
  ultimately show ?thesis
    by (auto simp: queued_def st_pool_def split: option.splits) (simp add: fun_upd_twist)
qed

lemma queued_take:
  assumes "queued st xs []" "el_queue st = sl_empty"
  shows "\<exists>st'. el_take st = Some st' \<and> queued st' [] xs \<and>
           st' = st\<lparr>el_links := el_links st', el_queue := el_queue st', el_tasks := el_tasks st'\<rparr>"
proof -
  have "\<exists>p'. pool_step (Splice 1 0) (st_pool st) = Some p' \<and>
          pool_ok p' (lists_step (Splice 1 0) (two_lists xs []))"
    using assms pool_step_ok[of "fst (st_pool st)" "snd (st_pool st)" "two_lists xs []" "Splice 1 0"]
    by (simp add: queued_def)
  moreover have "lists_step (Splice 1 0) (two_lists xs []) = two_lists [] xs"
    by (auto simp: two_lists_def fun_eq_iff)
  ultimately show ?thesis using assms(2)
    by (auto simp: queued_def st_pool_def el_take_def split: option.splits) (simp add: fun_upd_twist)
qed

lemma queued_pop:
  assumes "queued st xs (t # ys)"
  shows "queued (el_pop st) xs ys" "sl_front (el_queue st) = Some t"
    "\<not> sl_is_empty (el_queue st)"
proof -
  have "\<exists>p'. pool_step (Pop_Front 1) (st_pool st) = Some p' \<and>
          pool_ok p' (lists_step (Pop_Front 1) (two_lists xs (t # ys)))"
    using assms pool_step_ok[of "fst (st_pool st)" "snd (st_pool st)" "two_lists xs (t # ys)" "Pop_Front 1"]
    by (simp add: queued_def)
  moreover have "lists_step (Pop_Front 1) (two_lists xs (t # ys)) = two_lists xs ys"
    by (auto simp: two_lists_def fun_eq_iff)
  ultimately show "queued (el_pop st) xs ys"
    by (auto simp: queued_def st_pool_def el_pop_def split: prod.splits)
  show "sl_front (el_queue st) = Some t" "\<not> sl_is_empty (el_queue st)"
    using queued_rep(2)[OF assms] by (simp_all add: rep_front rep_is_empty)
qed

section \<open>The timer list is a stable sort\<close>

lemma sch_insert_Cons:
  "sch_insert e tt (x # xs) = (if e tt < e x then tt # x # xs else x # sch_insert e tt xs)"
  by (simp add: sch_insert_def dt_less_def)

lemma sch_insert_Nil [simp]: "sch_insert e tt [] = [tt]"
  by (simp add: sch_insert_def)

lemma set_sch_insert [simp]: "set (sch_insert e tt ts) = insert tt (set ts)"
  by (induction ts) (auto simp: sch_insert_Cons)

lemma length_sch_insert [simp]: "length (sch_insert e tt ts) = Suc (length ts)"
  by (induction ts) (auto simp: sch_insert_Cons)

lemma sorted_sch_insert: "sorted (map e ts) \<Longrightarrow> sorted (map e (sch_insert e tt ts))"
  by (induction ts) (auto simp: sch_insert_Cons)

lemma filter_sch_insert:
  "sorted (map e ts) \<Longrightarrow>
   filter (\<lambda>x. e x = k) (sch_insert e tt ts) = filter (\<lambda>x. e x = k) ts @ (if e tt = k then [tt] else [])"
proof (induction ts)
  case (Cons x xs)
  have "filter (\<lambda>y. e y = k) xs = []" if "e tt < e x" "e tt = k"
    using Cons.prems that by (fastforce simp: filter_empty_conv)
  thus ?case using Cons by (auto simp: sch_insert_Cons)
qed simp

lemma sorted_map_cong: "(\<And>x. x \<in> set xs \<Longrightarrow> f x = g x) \<Longrightarrow> sorted (map f xs) = sorted (map g xs)"
  by (simp cong: map_cong)

lemma sch_insert_sort:
  "fold (sch_insert e) ts (sort_key e us) = sort_key e (us @ ts)"
proof (induction ts arbitrary: us)
  case (Cons t ts)
  have "sch_insert e t (sort_key e us) = sort_key e (us @ [t])"
  proof (rule sym, rule properties_for_sort_key)
    show "mset (sch_insert e t (sort_key e us)) = mset (us @ [t])"
    proof -
      have "mset (sch_insert e t vs) = add_mset t (mset vs)" for vs
        by (induction vs) (auto simp: sch_insert_Cons)
      thus ?thesis by simp
    qed
    show "filter (\<lambda>x. e k = e x) (sch_insert e t (sort_key e us)) = filter (\<lambda>x. e k = e x) (us @ [t])" for k
      using filter_sch_insert[of e "sort_key e us" "e k" t]
      by (simp add: eq_commute[of "e k"] sort_key_stable)
    show "sorted (map e (sch_insert e t (sort_key e us)))"
      by (simp add: sorted_sch_insert)
  qed
  thus ?case using Cons.IH[of "us @ [t]"] by simp
qed simp

lemma sorted_remove1_map: "sorted (map e ts) \<Longrightarrow> sorted (map e (remove1 t ts))"
  by (induction ts) (auto dest: notin_set_remove1)

lemma length_remove1_int: "t \<in> set ts \<Longrightarrow> int (length ts) = int (length (remove1 t ts)) + 1"
  by (induction ts) auto

section \<open>The operations keep the invariant\<close>

lemma loop_invE:
  assumes "loop_inv wk h k st"
  obtains xs ys where "queued st xs ys" "wk \<notin> set xs \<union> set ys \<union> set (el_timers st)"
    "el_active st = to_i32 (int (length xs + length ys + length (el_timers st)) + (h + el_handles st) + k)"
  using assms unfolding loop_inv_def by blast

lemma execute_inv:
  assumes i: "loop_inv wk h k st" and n: "not_queued t st" "t \<noteq> wk"
  shows "\<exists>st'. el_execute t st = Some st' \<and> loop_inv wk h k st' \<and> 0 < ep_eventfd (el_io st') \<and>
           el_thread st' = el_thread st \<and> el_clock st' = el_clock st"
proof -
  obtain xs ys where q: "queued st xs ys" "wk \<notin> set xs \<union> set ys \<union> set (el_timers st)"
    "el_active st = to_i32 (int (length xs + length ys + length (el_timers st)) + (h + el_handles st) + k)"
    using i by (rule loop_invE)
  obtain nx p where r: "sl_add_tail (el_links st) (el_tasks st) t = Some (nx, p)"
    "queued (st\<lparr>el_links := nx, el_tasks := p\<rparr>) (xs @ [t]) ys"
    using queued_push[OF q(1), of t] n not_queued_iff[OF q(1)] by blast
  let ?st' = "(el_add_active st)\<lparr>el_links := nx, el_tasks := p, el_io := ep_wake_up (el_io st)\<rparr>"
  have e: "el_execute t st = Some ?st'"
    using r by (simp add: el_execute_def el_add_active_def)
  have "queued ?st' (xs @ [t]) ys"
    using r(2) by (subst queued_cong[of _ "st\<lparr>el_links := nx, el_tasks := p\<rparr>"]) (simp_all add: el_add_active_def)
  hence "loop_inv wk h k ?st'"
    using i q n unfolding loop_inv_def
    by (intro conjI exI[of _ "xs @ [t]"] exI[of _ ys])
       (simp_all add: el_add_active_def timers_sorted_def ac_simps)
  moreover have "0 < ep_eventfd (el_io ?st')"
    by (simp add: ep_wake_up_def event_fd_set_def)
  ultimately show ?thesis using e by (simp add: el_add_active_def)
qed

lemma loop_inv_cong:
  "el_links st' = el_links st \<Longrightarrow> el_tasks st' = el_tasks st \<Longrightarrow> el_queue st' = el_queue st \<Longrightarrow>
   el_timers st' = el_timers st \<Longrightarrow> el_expiry st' = el_expiry st \<Longrightarrow> el_kind st' = el_kind st \<Longrightarrow>
   el_active st' = el_active st \<Longrightarrow> el_handles st' = el_handles st \<Longrightarrow>
   loop_inv wk h k st' = loop_inv wk h k st"
  by (simp add: loop_inv_def queued_def st_pool_def timers_sorted_def)

lemma one_shot_inv:
  assumes i: "loop_inv wk h k st" and n: "not_queued n st" "n \<noteq> wk"
    and kd: "kd = Schedule_Shot tt \<and> tt \<noteq> wk \<or> kd = Cancel_Shot tt \<or> kd = User_Handler"
  shows "loop_inv wk h k (make_one_shot_task n kd st)" "not_queued n (make_one_shot_task n kd st)"
proof -
  obtain xs ys where q: "queued st xs ys" "wk \<notin> set xs \<union> set ys \<union> set (el_timers st)"
    "el_active st = to_i32 (int (length xs + length ys + length (el_timers st)) + (h + el_handles st) + k)"
    using i by (rule loop_invE)
  have "el_links st n = None" using queued_null[OF q(1)] n not_queued_iff[OF q(1)] by blast
  hence l: "el_links (make_one_shot_task n kd st) = el_links st"
    by (auto simp: make_one_shot_task_def slist_node_new_def)
  have q': "queued (make_one_shot_task n kd st) xs ys"
    using q(1) l by (subst queued_cong[of _ st]) (simp_all add: make_one_shot_task_def)
  show "not_queued n (make_one_shot_task n kd st)"
    using n not_queued_iff[OF q(1)] not_queued_iff[OF q'] by simp
  show "loop_inv wk h k (make_one_shot_task n kd st)"
    using i q q' n kd unfolding loop_inv_def
    by (intro conjI exI[of _ xs] exI[of _ ys])
       (auto simp: make_one_shot_task_def timers_sorted_def)
qed

lemma timers_inv:
  assumes i: "loop_inv wk h k st" and ts: "wk \<notin> set ts" "sorted (map (el_expiry st) ts)"
  shows "loop_inv wk h (k + int (length (el_timers st)) - int (length ts) + d)
           (st\<lparr>el_timers := ts, el_active := to_i32 (el_active st + d)\<rparr>)"
proof -
  obtain xs ys where q: "queued st xs ys" "wk \<notin> set xs \<union> set ys \<union> set (el_timers st)"
    "el_active st = to_i32 (int (length xs + length ys + length (el_timers st)) + (h + el_handles st) + k)"
    using i by (rule loop_invE)
  let ?st = "st\<lparr>el_timers := ts, el_active := to_i32 (el_active st + d)\<rparr>"
  have "queued ?st xs ys" using q(1) by (subst queued_cong[of _ st]) simp_all
  thus ?thesis
    using i q ts unfolding loop_inv_def
    by (intro conjI exI[of _ xs] exI[of _ ys]) (simp_all add: timers_sorted_def algebra_simps)
qed

lemma schedule_inv:
  assumes i: "loop_inv wk h k st" and tt: "tt \<noteq> wk"
    and n: "tid = el_thread st \<or> n \<noteq> wk \<and> not_queued n st"
  shows "\<exists>st'. el_schedule tid n tt st = Some st' \<and> loop_inv wk h k st' \<and>
           (wake_ok st \<longrightarrow> wake_ok st') \<and> el_thread st' = el_thread st"
proof (cases "tid = el_thread st")
  case True
  let ?ts = "sch_insert (el_expiry st) tt (el_timers st)"
  have "sorted (map (el_expiry st) ?ts)"
    using i by (intro sorted_sch_insert) (simp add: loop_inv_def timers_sorted_def)
  moreover have "wk \<notin> set ?ts" using i tt by (auto simp: loop_inv_def)
  ultimately have "loop_inv wk h k (st\<lparr>el_timers := ?ts, el_active := to_i32 (el_active st + 1)\<rparr>)"
    using timers_inv[OF i, of ?ts 1] by simp
  thus ?thesis using True
    by (simp add: el_schedule_def el_in_loop_def el_add_active_def wake_ok_def)
next
  case False
  hence n: "n \<noteq> wk" "not_queued n st" using n by auto
  from one_shot_inv[OF i n(2,1), of "Schedule_Shot tt" tt] tt
  have "loop_inv wk h k (make_one_shot_task n (Schedule_Shot tt) st)"
    "not_queued n (make_one_shot_task n (Schedule_Shot tt) st)" by auto
  from execute_inv[OF this n(1)] show ?thesis using False
    by (auto simp: el_schedule_def el_in_loop_def wake_ok_def make_one_shot_task_def)
qed

lemma cancel_inv:
  assumes i: "loop_inv wk h k st" and n: "tid = el_thread st \<or> n \<noteq> wk \<and> not_queued n st"
  shows "\<exists>st'. el_cancel tid n tt st = Some st' \<and> loop_inv wk h k st' \<and>
           (wake_ok st \<longrightarrow> wake_ok st') \<and> el_thread st' = el_thread st"
proof (cases "tid = el_thread st")
  case True
  show ?thesis
  proof (cases "tt \<in> set (el_timers st)")
    case m: True
    let ?ts = "remove1 tt (el_timers st)"
    have "sorted (map (el_expiry st) ?ts)"
      using i by (intro sorted_remove1_map) (simp add: loop_inv_def timers_sorted_def)
    moreover have "wk \<notin> set ?ts" using i by (auto simp: loop_inv_def dest: notin_set_remove1)
    moreover have l: "int (length (el_timers st)) = int (length ?ts) + 1"
      using m by (rule length_remove1_int)
    ultimately have "loop_inv wk h k (st\<lparr>el_timers := ?ts, el_active := to_i32 (el_active st - 1)\<rparr>)"
      using timers_inv[OF i, of ?ts "-1"] by (simp add: algebra_simps l)
    thus ?thesis using True m
      by (simp add: el_cancel_def el_in_loop_def el_remove_active_def wake_ok_def sch_cancel_def)
  next
    case False
    thus ?thesis using True i by (simp add: el_cancel_def el_in_loop_def sch_cancel_def)
  qed
next
  case False
  hence n: "n \<noteq> wk" "not_queued n st" using n by auto
  from one_shot_inv[OF i n(2,1), of "Cancel_Shot tt" tt]
  have "loop_inv wk h k (make_one_shot_task n (Cancel_Shot tt) st)"
    "not_queued n (make_one_shot_task n (Cancel_Shot tt) st)" by auto
  from execute_inv[OF this n(1)] show ?thesis using False
    by (auto simp: el_cancel_def el_in_loop_def wake_ok_def make_one_shot_task_def)
qed

lemma handle_inv:
  assumes "loop_inv wk h k st"
  shows "loop_inv wk h k (el_add_handle st)" "loop_inv wk h k (el_remove_handle st)"
proof -
  obtain xs ys where q: "queued st xs ys" "wk \<notin> set xs \<union> set ys \<union> set (el_timers st)"
    "el_active st = to_i32 (int (length xs + length ys + length (el_timers st)) + (h + el_handles st) + k)"
    using assms by (rule loop_invE)
  note d = el_add_handle_def el_remove_handle_def el_add_active_def el_remove_active_def
  have "queued (el_add_handle st) xs ys" "queued (el_remove_handle st) xs ys"
    using q(1) by (subst queued_cong[of _ st]; simp add: d)+
  thus "loop_inv wk h k (el_add_handle st)" "loop_inv wk h k (el_remove_handle st)"
    using assms q unfolding loop_inv_def
    by (intro conjI exI[of _ xs] exI[of _ ys]; simp add: d timers_sorted_def algebra_simps)+
qed

lemma api_inv:
  assumes "api wk st st'" "loop_inv wk h k st"
  shows "loop_inv wk h k st' \<and> (wake_ok st \<longrightarrow> wake_ok st') \<and> el_thread st' = el_thread st"
  using assms
proof (induction rule: api.induct)
  case (api_execute t st st')
  thus ?case using execute_inv[of wk h k st t] by (auto simp: wake_ok_def)
next
  case (api_schedule tt n st tid st')
  thus ?case using schedule_inv[of wk h k st tt tid n] by auto
next
  case (api_cancel n st tid tt st')
  thus ?case using cancel_inv[of wk h k st tid n tt] by auto
next
  case (api_expiry n st d)
  hence "sorted (map ((el_expiry st)(n := d)) (el_timers st)) = sorted (map (el_expiry st) (el_timers st))"
    by (intro sorted_map_cong) auto
  thus ?case using api_expiry by (auto simp: loop_inv_def timers_sorted_def wake_ok_def queued_def st_pool_def)
next
  case (api_handler kd st n)
  thus ?case by (auto simp: loop_inv_def timers_sorted_def wake_ok_def queued_def st_pool_def)
next
  case (api_clock st clk)
  moreover have "loop_inv wk h k (fst (clock_utc clk st)) = loop_inv wk h k st"
    by (rule loop_inv_cong) (simp_all add: clock_utc_def)
  ultimately show ?case by (simp add: clock_utc_def wake_ok_def)
next
  case (api_add_active st)
  thus ?case using handle_inv by (simp add: el_add_handle_def el_add_active_def wake_ok_def)
next
  case (api_remove_active st)
  thus ?case using handle_inv by (simp add: el_remove_handle_def el_remove_active_def wake_ok_def)
next
  case (api_register st ok fd t)
  moreover have "loop_inv wk h k (st\<lparr>el_io := fst (ep_register ok fd t (el_io st))\<rparr>) = loop_inv wk h k st"
    by (rule loop_inv_cong) simp_all
  ultimately show ?case by (simp add: ep_register_def wake_ok_def)
next
  case (api_unregister st fd)
  moreover have "loop_inv wk h k (st\<lparr>el_io := ep_unregister fd (el_io st)\<rparr>) = loop_inv wk h k st"
    by (rule loop_inv_cong) simp_all
  ultimately show ?case by (simp add: ep_unregister_def wake_ok_def)
next
  case (api_evt st t e)
  moreover have "loop_inv wk h k (st\<lparr>el_io := set_evt t e (el_io st)\<rparr>) = loop_inv wk h k st"
    by (rule loop_inv_cong) simp_all
  ultimately show ?case by (simp add: set_evt_def wake_ok_def)
qed

lemma apis_inv:
  assumes "(api wk)\<^sup>*\<^sup>* st st'" "loop_inv wk h k st"
  shows "loop_inv wk h k st' \<and> (wake_ok st \<longrightarrow> wake_ok st') \<and> el_thread st' = el_thread st"
  using assms by (induction rule: rtranclp_induct) (auto dest: api_inv)

section \<open>A task that runs keeps the invariant\<close>

text \<open>User code that keeps to the operations of the loop.\<close>

definition well_behaved :: "node \<Rightarrow> task_run \<Rightarrow> bool" where
  "well_behaved wk body \<longleftrightarrow> (\<forall>t st st'. body t st = Some st' \<longrightarrow> (api wk)\<^sup>*\<^sup>* st st')"

definition kernel_ok :: "node \<Rightarrow> kernel \<Rightarrow> bool" where
  "kernel_ok wk kern \<longleftrightarrow> (\<forall>st ms. (api wk)\<^sup>*\<^sup>* st (fst (kern st ms)))"

lemma call_inv:
  assumes b: "well_behaved wk body" and i: "loop_inv wk h k st" and c: "task_call body t st = Some st'"
  shows "loop_inv wk h k st' \<and> (t \<noteq> wk \<and> wake_ok st \<longrightarrow> wake_ok st')"
proof (cases "el_kind st t")
  case No_Handler
  thus ?thesis using i c by (simp add: task_call_def)
next
  case User_Handler
  hence "(api wk)\<^sup>*\<^sup>* st st'" using b c by (simp add: task_call_def well_behaved_def)
  thus ?thesis using i by (blast dest: apis_inv)
next
  case (Schedule_Shot tt)
  hence "tt \<noteq> wk" using i by (auto simp: loop_inv_def)
  thus ?thesis
    using schedule_inv[OF i, of tt "el_thread st" t] Schedule_Shot c by (simp add: task_call_def)
next
  case (Cancel_Shot tt)
  thus ?thesis using cancel_inv[OF i, of "el_thread st" t tt] c by (simp add: task_call_def)
next
  case Event_Fd_Handler
  moreover have "loop_inv wk h k (st\<lparr>el_io := event_fd_task_handler (el_io st)\<rparr>) = loop_inv wk h k st"
    by (rule loop_inv_cong) simp_all
  moreover have "t = wk" using Event_Fd_Handler i by (simp add: loop_inv_def)
  ultimately show ?thesis using i c by (simp add: task_call_def)
qed

text \<open>Calls that keep the invariant are all the loops below rely on.\<close>

definition keeps :: "node \<Rightarrow> int \<Rightarrow> task_run \<Rightarrow> bool" where
  "keeps wk h call \<longleftrightarrow>
     (\<forall>t st st' k. loop_inv wk h k st \<and> call t st = Some st' \<longrightarrow>
        loop_inv wk h k st' \<and> (t \<noteq> wk \<and> wake_ok st \<longrightarrow> wake_ok st'))"

lemma keepsD:
  assumes "keeps wk h call" "loop_inv wk h k st" "call t st = Some st'"
  shows "loop_inv wk h k st'" "t \<noteq> wk \<Longrightarrow> wake_ok st \<Longrightarrow> wake_ok st'"
  using assms unfolding keeps_def by blast+

lemma task_call_keeps: "well_behaved wk body \<Longrightarrow> keeps wk h (task_call body)"
  unfolding keeps_def using call_inv by blast

lemma clock_inv [simp]: "loop_inv wk h k (fst (clock_utc clk st)) = loop_inv wk h k st"
  by (rule loop_inv_cong) (simp_all add: clock_utc_def)

lemma clock_timers [simp]:
  "el_timers (fst (clock_utc clk st)) = el_timers st" "el_expiry (fst (clock_utc clk st)) = el_expiry st"
  "el_active (fst (clock_utc clk st)) = el_active st"
  by (simp_all add: clock_utc_def)

lemma pop_timer_inv:
  assumes i: "loop_inv wk h k st" and t: "el_timers st = tt # ts"
  shows "loop_inv wk h (k + 1) (st\<lparr>el_timers := ts\<rparr>)" "tt \<noteq> wk"
proof -
  have w: "wk \<notin> set (tt # ts)" "sorted (map (el_expiry st) (tt # ts))"
    using i t by (auto simp: loop_inv_def timers_sorted_def)
  have "to_i32 (el_active st) = el_active st"
    using i to_i32_add_left[of _ 0] by (auto simp: loop_inv_def)
  hence "st\<lparr>el_timers := ts, el_active := to_i32 (el_active st + 0)\<rparr> = st\<lparr>el_timers := ts\<rparr>" by simp
  moreover have "loop_inv wk h (k + int (length (el_timers st)) - int (length ts) + 0)
      (st\<lparr>el_timers := ts, el_active := to_i32 (el_active st + 0)\<rparr>)"
    using w by (intro timers_inv[OF i]) simp_all
  ultimately show "loop_inv wk h (k + 1) (st\<lparr>el_timers := ts\<rparr>)" using t by simp
  show "tt \<noteq> wk" using w by simp
qed

section \<open>A round runs what was queued when it began\<close>

text \<open>The specification of \<open>_run_tasks\<close>: pop and run each of the given tasks, in order.\<close>

fun run_each :: "task_run \<Rightarrow> node list \<Rightarrow> loop_state \<Rightarrow> loop_state option" where
  "run_each call [] st = Some st"
| "run_each call (t # ts) st =
     (case call t (el_pop st) of None \<Rightarrow> None | Some st' \<Rightarrow> run_each call ts st')"

text \<open>User code cannot reach the local queue, which is exactly the tasks still to run.\<close>

definition local_kept :: "task_run \<Rightarrow> bool" where
  "local_kept call \<longleftrightarrow>
     (\<forall>t st st' xs ys. queued st xs ys \<and> call t st = Some st' \<longrightarrow> (\<exists>xs'. queued st' xs' ys))"

lemma drain_run_each:
  assumes "local_kept call" "queued st xs ys"
  shows "el_drain call st (to_i32 c) =
           (case run_each call ys st of None \<Rightarrow> None | Some st' \<Rightarrow> Some (st', to_i32 (c + int (length ys))))"
  using assms(2)
proof (induction ys arbitrary: st xs c)
  case Nil
  show ?case using queued_rep(2)[OF Nil]
    by (subst el_drain.simps) (simp add: rep_is_empty)
next
  case (Cons t ys)
  note q = queued_pop[OF Cons.prems]
  show ?case
  proof (cases "call t (el_pop st)")
    case None
    thus ?thesis using q by (subst el_drain.simps) simp
  next
    case (Some st1)
    then obtain xs' where "queued st1 xs' ys"
      using assms(1) q(1) unfolding local_kept_def by blast
    from Cons.IH[OF this, of "c + 1"] show ?thesis
      using q Some by (subst el_drain.simps) (simp add: ac_simps split: option.split)
  qed
qed


lemma execute_local:
  assumes "queued st xs ys" "t \<notin> set xs \<union> set ys" "el_execute t st = Some st'"
  shows "queued st' (xs @ [t]) ys"
proof -
  obtain nx q where r: "sl_add_tail (el_links st) (el_tasks st) t = Some (nx, q)"
    "queued (st\<lparr>el_links := nx, el_tasks := q\<rparr>) (xs @ [t]) ys"
    using queued_push[OF assms(1,2)] by blast
  hence "st' = (el_add_active st)\<lparr>el_links := nx, el_tasks := q, el_io := ep_wake_up (el_io st)\<rparr>"
    using assms(3) by (simp add: el_execute_def el_add_active_def)
  thus ?thesis
    using r(2) by (subst queued_cong[of _ "st\<lparr>el_links := nx, el_tasks := q\<rparr>"]) (simp_all add: el_add_active_def)
qed

lemma one_shot_local:
  assumes "queued st xs ys" "n \<notin> set xs \<union> set ys"
  shows "queued (make_one_shot_task n kd st) xs ys"
proof -
  have "el_links (make_one_shot_task n kd st) = el_links st"
    using queued_null[OF assms] by (auto simp: make_one_shot_task_def slist_node_new_def)
  thus ?thesis using assms(1) by (subst queued_cong[of _ st]) (simp_all add: make_one_shot_task_def)
qed

lemma schedule_local:
  assumes "queued st xs ys" "tid = el_thread st \<or> n \<notin> set xs \<union> set ys" "el_schedule tid n tt st = Some st'"
  shows "\<exists>xs'. queued st' xs' ys"
proof (cases "tid = el_thread st")
  case True
  hence "queued st' xs ys" using assms(1,3)
    by (subst queued_cong[of _ st]) (auto simp: el_schedule_def el_in_loop_def el_add_active_def)
  thus ?thesis by blast
next
  case False
  hence n: "n \<notin> set xs \<union> set ys" using assms(2) by blast
  have "el_execute n (make_one_shot_task n (Schedule_Shot tt) st) = Some st'"
    using assms(3) False by (simp add: el_schedule_def el_in_loop_def)
  with execute_local[OF one_shot_local[OF assms(1) n] n] show ?thesis by blast
qed

lemma cancel_local:
  assumes "queued st xs ys" "tid = el_thread st \<or> n \<notin> set xs \<union> set ys" "el_cancel tid n tt st = Some st'"
  shows "\<exists>xs'. queued st' xs' ys"
proof (cases "tid = el_thread st")
  case True
  hence "queued st' xs ys" using assms(1,3)
    by (subst queued_cong[of _ st])
       (auto simp: el_cancel_def el_in_loop_def el_remove_active_def sch_cancel_def split: if_splits)
  thus ?thesis by blast
next
  case False
  hence n: "n \<notin> set xs \<union> set ys" using assms(2) by blast
  have "el_execute n (make_one_shot_task n (Cancel_Shot tt) st) = Some st'"
    using assms(3) False by (simp add: el_cancel_def el_in_loop_def)
  with execute_local[OF one_shot_local[OF assms(1) n] n] show ?thesis by blast
qed

lemma api_local:
  assumes "api wk st st'" "queued st xs ys"
  shows "\<exists>xs'. queued st' xs' ys"
  using assms
proof (induction rule: api.induct)
  case (api_execute t st st')
  thus ?case using execute_local not_queued_iff by metis
next
  case (api_schedule tt n st tid st')
  thus ?case using schedule_local not_queued_iff by metis
next
  case (api_cancel n st tid tt st')
  thus ?case using cancel_local not_queued_iff by metis
qed (auto simp: queued_def st_pool_def clock_utc_def el_add_handle_def el_remove_handle_def el_add_active_def
    el_remove_active_def)

lemma apis_local: "(api wk)\<^sup>*\<^sup>* st st' \<Longrightarrow> queued st xs ys \<Longrightarrow> \<exists>xs'. queued st' xs' ys"
  by (induction rule: rtranclp_induct) (auto dest: api_local)

lemma call_local: "well_behaved wk body \<Longrightarrow> local_kept (task_call body)"
  unfolding local_kept_def
proof (intro allI impI, elim conjE)
  fix t st st' xs ys
  assume b: "well_behaved wk body" and q: "queued st xs ys" and c: "task_call body t st = Some st'"
  show "\<exists>xs'. queued st' xs' ys"
  proof (cases "el_kind st t")
    case User_Handler
    thus ?thesis using b c q apis_local unfolding well_behaved_def task_call_def by fastforce
  next
    case (Schedule_Shot tt)
    thus ?thesis using c q by (intro schedule_local[of st xs ys "el_thread st" t tt]) (simp_all add: task_call_def)
  next
    case (Cancel_Shot tt)
    thus ?thesis using c q by (intro cancel_local[of st xs ys "el_thread st" t tt]) (simp_all add: task_call_def)
  next
    case Event_Fd_Handler
    thus ?thesis using c q by (auto simp: task_call_def queued_def st_pool_def)
  qed (use c q in \<open>auto simp: task_call_def\<close>)
qed

lemma run_tasks_rounds:
  assumes "well_behaved wk body" "queued st xs []"
  shows "\<exists>st1. el_take st = Some st1 \<and> queued st1 [] xs \<and>
    el_run_tasks (task_call body) st =
      (case run_each (task_call body) xs st1 of
         None \<Rightarrow> None | Some st' \<Rightarrow> Some (st', to_i32 (int (length xs))))"
proof -
  have "el_queue st = sl_empty"
    using queued_rep(2)[OF assms(2)] by (cases "el_queue st") (simp add: slist_rep_def sl_empty_def)
  then obtain st1 where s: "el_take st = Some st1" "queued st1 [] xs"
    using queued_take[OF assms(2)] by blast
  from drain_run_each[OF call_local[OF assms(1)] s(2), of 0] s show ?thesis
    by (simp add: el_run_tasks_def to_i32_def split: option.split)
qed

text \<open>\<open>event_loop::_run_tasks\<close> runs exactly the tasks that were queued when it was called,
  each once and in the order they were given to \<open>execute\<close>, and returns their number; tasks
  the handlers queue meanwhile wait for the next round, so the round always ends when its
  handlers do.\<close>

theorem run_tasks_snapshot:
  assumes "well_behaved wk body" "queued st xs []"
  shows "\<exists>st1. el_take st = Some st1 \<and> queued st1 [] xs \<and>
    el_run_tasks (task_call body) st =
      (case run_each (task_call body) xs st1 of
         None \<Rightarrow> None | Some st' \<Rightarrow> Some (st', to_i32 (int (length xs))))"
  using assms by (rule run_tasks_rounds)

section \<open>Construction\<close>

text \<open>\<open>event_fd_task()\<close>, \<open>epoll()\<close> and \<open>event_loop()\<close>: the event descriptor \<open>fd\<close> is
  registered for \<open>EPOLLIN\<close> with its task \<open>wk\<close>.\<close>

definition EPOLLIN :: int where
  "EPOLLIN = 1"

definition event_fd_task_new :: "node \<Rightarrow> epoll_state \<Rightarrow> epoll_state" where
  "event_fd_task_new wk io = set_evt wk EPOLLIN io"

definition epoll_new :: "node \<Rightarrow> int \<Rightarrow> epoll_state" where
  "epoll_new wk fd =
     (let io = event_fd_task_new wk \<lparr>ep_interest = Map.empty, ep_evt = (\<lambda>t. 0), ep_eventfd = 0\<rparr>
      in fst (ep_register True fd wk io))"

definition event_loop_new :: "nat \<Rightarrow> node \<Rightarrow> int \<Rightarrow> loop_state" where
  "event_loop_new tid wk fd =
     \<lparr>el_links = (\<lambda>n. None), el_tasks = sl_empty, el_queue = sl_empty, el_timers = [],
      el_expiry = (\<lambda>t. 0), el_kind = (\<lambda>t. No_Handler)(wk := Event_Fd_Handler),
      el_active = 0, el_handles = 0, el_thread = tid, el_clock = 0, el_io = epoll_new wk fd\<rparr>"

lemma new_queued: "queued (event_loop_new tid wk fd) [] []"
proof -
  have "st_pool (event_loop_new tid wk fd) = (\<lambda>n. None, \<lambda>i. sl_empty)" "two_lists [] [] = (\<lambda>i. [])"
    by (auto simp: st_pool_def event_loop_new_def two_lists_def)
  thus ?thesis unfolding queued_def using pool_start by simp
qed

lemma new_inv: "loop_inv wk 0 0 (event_loop_new tid wk fd)" "wake_ok (event_loop_new tid wk fd)"
proof -
  show "loop_inv wk 0 0 (event_loop_new tid wk fd)"
    using new_queued[of tid wk fd] unfolding loop_inv_def
    by (intro conjI exI[of _ "[]"])
       (auto simp: event_loop_new_def timers_sorted_def to_i32_def split: if_splits)
  show "wake_ok (event_loop_new tid wk fd)"
    by (simp add: wake_ok_def event_loop_new_def sl_is_empty_def sl_empty_def)
qed

lemma idle_well_behaved [simp]: "well_behaved wk (\<lambda>t st. Some st)"
  by (simp add: well_behaved_def)

lemma run_tasks_snapshot_witness:
  "\<exists>st st'. el_execute 4 (event_loop_new 7 2 3) = Some st \<and>
     el_run_tasks (task_call (\<lambda>t s. Some s)) st = Some (st', 1)"
proof -
  let ?s = "event_loop_new 7 2 3"
  have "not_queued 4 ?s" using not_queued_iff[OF new_queued] by simp
  then obtain st where e: "el_execute 4 ?s = Some st"
    using execute_inv[OF new_inv(1)[of 2 7 3], of 4] by auto
  have q: "queued st [4] []" using execute_local[OF new_queued _ e] by simp
  obtain st1 where st1: "el_take st = Some st1"
    "el_run_tasks (task_call (\<lambda>t s. Some s)) st =
      (case run_each (task_call (\<lambda>t s. Some s)) [4] st1 of
         None \<Rightarrow> None | Some st' \<Rightarrow> Some (st', to_i32 (int (length [4::nat]))))"
    using run_tasks_snapshot[OF idle_well_behaved q] by blast
  have "el_kind st = el_kind ?s" using e
    by (auto simp: el_execute_def el_add_active_def Let_def split: option.splits)
  moreover have "el_kind st1 = el_kind st" using st1(1)
    by (auto simp: el_take_def split: option.splits)
  ultimately have "el_kind (el_pop st1) 4 = No_Handler"
    by (simp add: el_pop_def event_loop_new_def split: prod.splits)
  hence "run_each (task_call (\<lambda>t s. Some s)) [4] st1 = Some (el_pop st1)"
    by (simp add: task_call_def)
  thus ?thesis using e st1(2) by (auto simp: to_i32_def)
qed

lemma filter_remove1_if:
  "filter P (remove1 x xs) = (if P x then remove1 x (filter P xs) else filter P xs)"
  by (induction xs) auto

lemma sort_key_remove1: "sort_key e (remove1 x xs) = remove1 x (sort_key e xs)"
proof (rule properties_for_sort_key)
  show "mset (remove1 x (sort_key e xs)) = mset (remove1 x xs)" by simp
  show "filter (\<lambda>y. e k = e y) (remove1 x (sort_key e xs)) = filter (\<lambda>y. e k = e y) (remove1 x xs)" for k
    by (simp add: filter_remove1_if sort_key_stable eq_commute[of "e k"])
  show "sorted (map e (remove1 x (sort_key e xs)))" by (simp add: sorted_remove1_map)
qed

text \<open>The timer list (\<open>scheduler::schedule( tt )\<close>): scheduling timers one after another
  sorts them by expiry, and keeps timers of equal expiry in the order they were scheduled;
  \<open>cancel\<close> removes one entry of the timer and keeps the order.\<close>

theorem timers_stable_sort:
  "fold (sch_insert e) ts [] = sort_key e ts \<and>
   fst (sch_cancel tt (sort_key e ts)) = sort_key e (remove1 tt ts) \<and>
   snd (sch_cancel tt ts) = (tt \<in> set ts)"
  using sch_insert_sort[of e ts "[]"] by (simp add: sch_cancel_def sort_key_remove1 remove1_idem)

section \<open>Timers run when they are due, earliest first\<close>

text \<open>A run that stops with no result when a timer runs before its expiry by the last clock
  reading, or before a timer that expires earlier.\<close>

definition due_checked :: "(nat \<Rightarrow> date_time) \<Rightarrow> task_run \<Rightarrow> task_run" where
  "due_checked clk call t st =
     (if el_clock st \<noteq> 0 \<and> el_expiry st t \<le> clk (el_clock st - 1) \<and>
         (\<forall>m\<in>set (el_timers st). el_expiry st t \<le> el_expiry st m)
      then call t st else None)"

lemma sch_run_agree:
  assumes "sch_run clk c1 st cnt = Some r" "loop_inv wk h k st" "keeps wk h c1"
    "\<And>t st k. loop_inv wk h k st \<Longrightarrow> due_checked clk c1 t st = due_checked clk c2 t st"
  shows "sch_run clk c2 st cnt = Some r"
proof -
  have "clk' = clk \<and> c1' = c1 \<longrightarrow> (\<forall>k. loop_inv wk h k st \<longrightarrow> sch_run clk c2 st cnt = Some r)"
    if "sch_run clk' c1' st cnt = Some r" for clk' c1' st cnt r
  proof (rule sch_run.raw_induct[where P = "\<lambda>clk' c1' st cnt r. clk' = clk \<and> c1' = c1 \<longrightarrow>
      (\<forall>k. loop_inv wk h k st \<longrightarrow> sch_run clk c2 st cnt = Some r)", OF _ that], intro impI allI)
    fix f :: "(nat \<Rightarrow> date_time) \<Rightarrow> task_run \<Rightarrow> loop_state \<Rightarrow> int \<Rightarrow> (loop_state \<times> int) option"
      and clk' c1' st cnt r k
    assume ih: "\<And>clk' c1' st cnt r. f clk' c1' st cnt = Some r \<Longrightarrow> clk' = clk \<and> c1' = c1 \<longrightarrow>
        (\<forall>k. loop_inv wk h k st \<longrightarrow> sch_run clk c2 st cnt = Some r)"
      and r: "(case el_timers st of
        [] \<Rightarrow> Some (st, cnt)
      | tt # ts \<Rightarrow>
          if el_expiry st tt \<le> snd (clock_utc clk' st) then
            (case c1' tt ((fst (clock_utc clk' st))\<lparr>el_timers := ts\<rparr>) of
               None \<Rightarrow> None
             | Some st' \<Rightarrow> f clk' c1' st' (to_i32 (cnt + 1)))
          else Some (fst (clock_utc clk' st), cnt)) = Some r"
      and c: "clk' = clk \<and> c1' = c1" and i: "loop_inv wk h k st"
    show "sch_run clk c2 st cnt = Some r"
    proof (cases "el_timers st")
      case Nil
      thus ?thesis using r by (subst sch_run.simps) simp
    next
      case (Cons tt ts)
      let ?s = "(fst (clock_utc clk st))\<lparr>el_timers := ts\<rparr>"
      show ?thesis
      proof (cases "el_expiry st tt \<le> snd (clock_utc clk st)")
        case True
        then obtain st1 where s: "c1 tt ?s = Some st1" "f clk c1 st1 (to_i32 (cnt + 1)) = Some r"
          using r c Cons by (auto split: option.splits)
        have s_inv: "loop_inv wk h (k + 1) ?s"
          using i Cons by (intro pop_timer_inv[where tt = tt]) simp_all
        have "el_expiry st tt \<le> el_expiry st m" if "m \<in> set ts" for m
          using i Cons that by (auto simp: loop_inv_def timers_sorted_def)
        hence "due_checked clk c tt ?s = c tt ?s" for c
          using True by (simp add: due_checked_def clock_utc_def)
        hence "c2 tt ?s = Some st1" using assms(4)[OF s_inv, of tt] s(1) by simp
        moreover have "sch_run clk c2 st1 (to_i32 (cnt + 1)) = Some r"
          using ih[OF s(2)] keepsD(1)[OF assms(3) s_inv s(1)] by blast
        ultimately show ?thesis using Cons True by (subst sch_run.simps) simp
      next
        case False
        thus ?thesis using r c Cons by (subst sch_run.simps) simp
      qed
    qed
  qed
  thus ?thesis using assms by blast
qed

text \<open>\<open>scheduler::schedule()\<close> runs a timer only when the clock has reached its expiry, and
  no timer that expires earlier is then waiting: checking both at every call changes no run,
  whatever well-behaved handlers schedule and cancel meanwhile.\<close>

theorem timers_run_when_due:
  assumes "well_behaved wk body" "loop_inv wk h k st"
  shows "sch_run clk (due_checked clk (task_call body)) st cnt = sch_run clk (task_call body) st cnt"
proof -
  let ?c = "task_call body" and ?d = "due_checked clk (task_call body)"
  have c: "keeps wk h ?c" by (rule task_call_keeps[OF assms(1)])
  have d: "keeps wk h ?d"
    unfolding keeps_def due_checked_def using keepsD[OF c] by (auto split: if_splits)
  have e: "due_checked clk ?c t st = due_checked clk ?d t st" for t st
    by (simp add: due_checked_def)
  show ?thesis
  proof (cases "sch_run clk ?c st cnt")
    case (Some r)
    thus ?thesis using sch_run_agree[OF Some assms(2) c, of ?d] e by simp
  next
    case None
    show ?thesis
    proof (cases "sch_run clk ?d st cnt")
      case (Some r)
      from sch_run_agree[OF Some assms(2) d, of ?c] e None show ?thesis by simp
    qed (simp add: None)
  qed
qed


lemma timers_run_when_due_witness:
  "sch_run (\<lambda>i. 9) (due_checked (\<lambda>i. 9) (task_call (\<lambda>t s. Some s)))
     ((event_loop_new 7 2 3)\<lparr>el_timers := [5], el_active := 1\<rparr>) 0 =
   sch_run (\<lambda>i. 9) (task_call (\<lambda>t s. Some s)) ((event_loop_new 7 2 3)\<lparr>el_timers := [5], el_active := 1\<rparr>) 0"
proof (rule timers_run_when_due[OF idle_well_behaved])
  show "loop_inv 2 0 0 ((event_loop_new 7 2 3)\<lparr>el_timers := [5], el_active := 1\<rparr>)"
    using timers_inv[OF new_inv(1)[of 2 7 3], of "[5]" 1]
    by (simp add: event_loop_new_def to_i32_def)
qed

section \<open>A turn of the loop, and the whole run\<close>

lemma run_each_inv:
  "loop_inv wk h k st \<Longrightarrow> queued st xs ys \<Longrightarrow> keeps wk h call \<Longrightarrow> local_kept call \<Longrightarrow>
   run_each call ys st = Some st' \<Longrightarrow>
   loop_inv wk h (k + int (length ys)) st' \<and> (wake_ok st \<longrightarrow> wake_ok st')"
proof (induction ys arbitrary: st xs k)
  case (Cons t ys)
  obtain st1 where s: "call t (el_pop st) = Some st1" "run_each call ys st1 = Some st'"
    using Cons.prems(5) by (auto split: option.splits)
  note q = queued_pop[OF Cons.prems(2)]
  have "t \<noteq> wk" "loop_inv wk h (k + 1) (el_pop st)"
  proof -
    obtain xs' ys' where i: "queued st xs' ys'" "wk \<notin> set xs' \<union> set ys' \<union> set (el_timers st)"
      "el_active st = to_i32 (int (length xs' + length ys' + length (el_timers st)) + (h + el_handles st) + k)"
      using Cons.prems(1) by (rule loop_invE)
    have e: "xs' = xs" "ys' = t # ys" using queued_unique[OF i(1) Cons.prems(2)] by auto
    thus "t \<noteq> wk" using i(2) by auto
    show "loop_inv wk h (k + 1) (el_pop st)"
      using Cons.prems(1) i e q(1) unfolding loop_inv_def
      by (intro conjI exI[of _ xs] exI[of _ ys])
         (simp_all add: el_pop_def timers_sorted_def algebra_simps split: prod.splits)
  qed
  moreover have "wake_ok (el_pop st) = wake_ok st"
    by (simp add: wake_ok_def el_pop_def split: prod.splits)
  ultimately have "loop_inv wk h (k + 1) st1" "wake_ok st \<longrightarrow> wake_ok st1"
    using keepsD[OF Cons.prems(3) _ s(1)] by blast+
  moreover obtain xs' where "queued st1 xs' ys"
    using Cons.prems(4) q(1) s(1) unfolding local_kept_def by blast
  ultimately show ?case
    using Cons.IH[of "k + 1" st1 xs'] Cons.prems(3,4) s(2) by (simp add: ac_simps)
qed simp

lemma take_inv:
  assumes i: "loop_inv wk h k st" and q: "queued st xs []" and t: "el_take st = Some st'" and q': "queued st' [] xs"
  shows "loop_inv wk h k st' \<and> wake_ok st'"
proof -
  obtain xs' ys' where e: "queued st xs' ys'" "wk \<notin> set xs' \<union> set ys' \<union> set (el_timers st)"
    "el_active st = to_i32 (int (length xs' + length ys' + length (el_timers st)) + (h + el_handles st) + k)"
    using i by (rule loop_invE)
  have "xs' = xs" "ys' = []" using queued_unique[OF e(1) q] by auto
  hence "loop_inv wk h k st'"
    using i e t q' unfolding loop_inv_def
    by (intro conjI exI[of _ "[]"] exI[of _ xs])
       (auto simp: el_take_def timers_sorted_def split: option.splits)
  moreover have "wake_ok st'" using queued_rep(1)[OF q'] by (simp add: wake_ok_def rep_is_empty)
  ultimately show ?thesis by blast
qed

text \<open>Between turns, and while timers and I/O handlers run, no task is in the local queue.\<close>

definition at_head :: "loop_state \<Rightarrow> bool" where
  "at_head st \<longleftrightarrow> (\<exists>xs. queued st xs [])"

definition head_inv :: "node \<Rightarrow> int \<Rightarrow> int \<Rightarrow> loop_state \<Rightarrow> bool" where
  "head_inv wk h k st \<longleftrightarrow> loop_inv wk h k st \<and> at_head st"

lemma at_head_cong:
  "el_links st' = el_links st \<Longrightarrow> el_tasks st' = el_tasks st \<Longrightarrow> el_queue st' = el_queue st \<Longrightarrow>
   at_head st' = at_head st"
  by (simp add: at_head_def queued_def st_pool_def)

lemma head_inv_cong:
  "el_links st' = el_links st \<Longrightarrow> el_tasks st' = el_tasks st \<Longrightarrow> el_queue st' = el_queue st \<Longrightarrow>
   el_timers st' = el_timers st \<Longrightarrow> el_expiry st' = el_expiry st \<Longrightarrow> el_kind st' = el_kind st \<Longrightarrow>
   el_active st' = el_active st \<Longrightarrow> el_handles st' = el_handles st \<Longrightarrow>
   head_inv wk h k st' = head_inv wk h k st"
  by (simp add: head_inv_def at_head_def loop_inv_def queued_def st_pool_def timers_sorted_def)

lemma head_inv_clock [simp]: "head_inv wk h k (fst (clock_utc clk st)) = head_inv wk h k st"
  by (rule head_inv_cong) (simp_all add: clock_utc_def)

lemma head_inv_pop:
  assumes "head_inv wk h k st" "el_timers st = tt # ts"
  shows "head_inv wk h (k + 1) (st\<lparr>el_timers := ts\<rparr>)"
proof -
  have "at_head (st\<lparr>el_timers := ts\<rparr>) = at_head st" by (rule at_head_cong) simp_all
  thus ?thesis using assms pop_timer_inv(1)[OF _ assms(2)] by (simp add: head_inv_def)
qed

lemma head_inv_call:
  assumes "keeps wk h call" "local_kept call" "head_inv wk h k st" "call t st = Some st'"
  shows "head_inv wk h k st'"
  using assms keepsD(1)[OF assms(1) _ assms(4)] unfolding head_inv_def at_head_def local_kept_def by blast

lemma subtract_inv:
  assumes "loop_inv wk h k st"
  shows "loop_inv wk h 0 (st\<lparr>el_active := to_i32 (el_active st - k)\<rparr>)"
proof -
  obtain xs ys where q: "queued st xs ys" "wk \<notin> set xs \<union> set ys \<union> set (el_timers st)"
    "el_active st = to_i32 (int (length xs + length ys + length (el_timers st)) + (h + el_handles st) + k)"
    using assms by (rule loop_invE)
  have "queued (st\<lparr>el_active := to_i32 (el_active st - k)\<rparr>) xs ys"
    using q(1) by (subst queued_cong[of _ st]) simp_all
  thus ?thesis using assms q unfolding loop_inv_def
    by (intro conjI exI[of _ xs] exI[of _ ys]) (simp_all add: timers_sorted_def)
qed

lemma run_each_local:
  "local_kept call \<Longrightarrow> queued st xs ys \<Longrightarrow> run_each call ys st = Some st' \<Longrightarrow> \<exists>xs'. queued st' xs' []"
proof (induction ys arbitrary: st xs)
  case (Cons t ys)
  obtain st1 where s: "call t (el_pop st) = Some st1" "run_each call ys st1 = Some st'"
    using Cons.prems(3) by (auto split: option.splits)
  then obtain xs' where "queued st1 xs' ys"
    using Cons.prems(1) queued_pop(1)[OF Cons.prems(2)] unfolding local_kept_def by blast
  thus ?case using Cons.IH Cons.prems(1) s(2) by blast
qed auto

lemma sch_run_inv:
  assumes "sch_run clk call st cnt = Some (st', cnt')" "keeps wk h call" "local_kept call"
    "head_inv wk h k st" "cnt = to_i32 k"
  shows "\<exists>k'. head_inv wk h k' st' \<and> cnt' = to_i32 k'"
proof -
  have "call' = call \<longrightarrow> (\<forall>k. head_inv wk h k st \<and> cnt = to_i32 k \<longrightarrow>
          (\<exists>k'. head_inv wk h k' (fst r) \<and> snd r = to_i32 k'))"
    if "sch_run clk call' st cnt = Some r" for clk call' st cnt r
  proof (rule sch_run.raw_induct[where P = "\<lambda>clk call' st cnt r. call' = call \<longrightarrow>
      (\<forall>k. head_inv wk h k st \<and> cnt = to_i32 k \<longrightarrow>
         (\<exists>k'. head_inv wk h k' (fst r) \<and> snd r = to_i32 k'))", OF _ that], intro impI allI)
    fix f :: "(nat \<Rightarrow> date_time) \<Rightarrow> task_run \<Rightarrow> loop_state \<Rightarrow> int \<Rightarrow> (loop_state \<times> int) option"
      and clk call' st cnt r k
    assume ih: "\<And>clk call' st cnt r. f clk call' st cnt = Some r \<Longrightarrow> call' = call \<longrightarrow>
        (\<forall>k. head_inv wk h k st \<and> cnt = to_i32 k \<longrightarrow>
           (\<exists>k'. head_inv wk h k' (fst r) \<and> snd r = to_i32 k'))"
      and r: "(case el_timers st of
        [] \<Rightarrow> Some (st, cnt)
      | tt # ts \<Rightarrow>
          if el_expiry st tt \<le> snd (clock_utc clk st) then
            (case call' tt ((fst (clock_utc clk st))\<lparr>el_timers := ts\<rparr>) of
               None \<Rightarrow> None
             | Some st' \<Rightarrow> f clk call' st' (to_i32 (cnt + 1)))
          else Some (fst (clock_utc clk st), cnt)) = Some r"
      and c: "call' = call" and i: "head_inv wk h k st \<and> cnt = to_i32 k"
    show "\<exists>k'. head_inv wk h k' (fst r) \<and> snd r = to_i32 k'"
    proof (cases "el_timers st")
      case Nil
      thus ?thesis using r i by auto
    next
      case (Cons tt ts)
      show ?thesis
      proof (cases "el_expiry st tt \<le> snd (clock_utc clk st)")
        case True
        then obtain st1 where s: "call tt ((fst (clock_utc clk st))\<lparr>el_timers := ts\<rparr>) = Some st1"
          "f clk call st1 (to_i32 (cnt + 1)) = Some r"
          using r c Cons by (auto split: option.splits)
        have "head_inv wk h (k + 1) ((fst (clock_utc clk st))\<lparr>el_timers := ts\<rparr>)"
          using i Cons by (intro head_inv_pop[where tt = tt]) simp_all
        hence "head_inv wk h (k + 1) st1" by (rule head_inv_call[OF assms(2,3) _ s(1)])
        moreover have "to_i32 (cnt + 1) = to_i32 (k + 1)" using i by simp
        ultimately show ?thesis using ih[OF s(2)] by blast
      next
        case False
        thus ?thesis using r i Cons by auto
      qed
    qed
  qed
  thus ?thesis using assms by fastforce
qed


lemma dispatch_inv:
  "keeps wk h call \<Longrightarrow> local_kept call \<Longrightarrow> head_inv wk h k st \<Longrightarrow> ep_dispatch call evs st = Some st' \<Longrightarrow>
   head_inv wk h k st'"
proof (induction call evs st rule: ep_dispatch.induct)
  case (2 call p e evs st)
  show ?case
  proof (cases p)
    case None
    thus ?thesis using 2 by simp
  next
    case (Some t)
    let ?s = "st\<lparr>el_io := set_evt t e (el_io st)\<rparr>"
    obtain st1 where s: "call t ?s = Some st1" "ep_dispatch call evs st1 = Some st'"
      using 2(6) Some by (auto split: option.splits)
    have "head_inv wk h k ?s = head_inv wk h k st" by (rule head_inv_cong) simp_all
    hence "head_inv wk h k st1" using head_inv_call[OF 2(3,4) _ s(1)] 2(5) by blast
    thus ?thesis using 2(2)[OF Some s(1)] 2(3,4) s(2) by blast
  qed
qed simp

lemma wait_inv:
  assumes "keeps wk h call" "local_kept call" "kernel_ok wk kern" "head_inv wk h k st"
    "ep_wait kern call w st = Some st'"
  shows "head_inv wk h k st'"
proof -
  have "head_inv wk h k (fst (kern st ms))" for ms
    using assms(3,4) apis_inv apis_local unfolding kernel_ok_def head_inv_def at_head_def by metis
  from this[of "to_i32 (ts_total_milli_seconds w)"] show ?thesis
    using assms(1,2,5) by (auto simp: ep_wait_def split: prod.splits option.splits intro: dispatch_inv)
qed

lemma schedule_after_inv: "head_inv wk h k (fst (sch_schedule_after clk st)) = head_inv wk h k st"
  "wake_ok (fst (sch_schedule_after clk st)) = wake_ok st"
  by (cases "el_timers st"; simp add: sch_schedule_after_def Let_def split_beta)
     (cases "el_timers st"; simp add: sch_schedule_after_def Let_def split_beta wake_ok_def clock_utc_def)

text \<open>What holds between two turns.\<close>

definition loop_ok :: "node \<Rightarrow> int \<Rightarrow> loop_state \<Rightarrow> bool" where
  "loop_ok wk h st \<longleftrightarrow> head_inv wk h 0 st \<and> wake_ok st"

lemma turn_ok:
  assumes b: "well_behaved wk body" "kernel_ok wk kern" and i: "loop_ok wk h st"
    and t: "el_turn clk kern (task_call body) st = Some st'"
  shows "loop_ok wk h st'"
proof -
  let ?c = "task_call body"
  note kp = task_call_keeps[OF b(1), of h] call_local[OF b(1)]
  obtain st2 st3 st4 cnt n where
    s2: "ep_wait kern ?c (snd (sch_schedule_after clk st)) (fst (sch_schedule_after clk st)) = Some st2" and
    s3: "sch_run clk ?c st2 0 = Some (st3, cnt)" and
    s4: "el_run_tasks ?c st3 = Some (st4, n)" and
    st': "st' = st4\<lparr>el_active := to_i32 (el_active st4 - to_i32 (cnt + n))\<rparr>"
    using t by (auto simp: el_turn_def Let_def split_beta split: option.splits prod.splits)
  have "head_inv wk h 0 st2"
    using i by (intro wait_inv[OF kp b(2) _ s2]) (simp add: schedule_after_inv loop_ok_def)
  then obtain k where k: "head_inv wk h k st3" "cnt = to_i32 k"
    using sch_run_inv[OF s3 kp, of 0] by (auto simp: to_i32_id)
  then obtain xs where xs: "queued st3 xs []" by (auto simp: head_inv_def at_head_def)
  obtain st1 where st1: "el_take st3 = Some st1" "queued st1 [] xs"
    "(case run_each ?c xs st1 of None \<Rightarrow> None | Some st' \<Rightarrow> Some (st', to_i32 (int (length xs)))) = Some (st4, n)"
    using run_tasks_rounds[OF b(1) xs] s4 by auto
  hence r: "run_each ?c xs st1 = Some st4" "n = to_i32 (int (length xs))"
    by (auto split: option.splits)
  have ti: "loop_inv wk h k st1 \<and> wake_ok st1"
    using k(1) by (intro take_inv[OF _ xs st1(1,2)]) (simp add: head_inv_def)
  have f: "loop_inv wk h (k + int (length xs)) st4" "wake_ok st4"
    using run_each_inv[OF _ st1(2) kp r(1)] ti by blast+
  obtain xs' where q4: "queued st4 xs' []"
    using run_each_local[OF kp(2) st1(2) r(1)] by blast
  have c: "st' = st4\<lparr>el_active := to_i32 (el_active st4 - (k + int (length xs)))\<rparr>"
    using st' k(2) r(2) by simp
  have "loop_inv wk h 0 st'"
    unfolding c by (rule subtract_inv[OF f(1)])
  moreover have "queued st' xs' []" unfolding c using q4 by (subst queued_cong[of _ st4]) simp_all
  moreover have "wake_ok st'" unfolding c using f(2) by (simp add: wake_ok_def)
  ultimately show ?thesis unfolding loop_ok_def head_inv_def at_head_def by blast
qed


lemma loop_returns:
  assumes "well_behaved wk body" "kernel_ok wk kern" "loop_ok wk h st"
    "el_loop clk kern (task_call body) st = Some st'"
  shows "loop_ok wk h st' \<and> el_active st' = 0"
proof -
  have "kern' = kern \<and> call' = task_call body \<longrightarrow> loop_ok wk h st \<longrightarrow> loop_ok wk h r \<and> el_active r = 0"
    if "el_loop clk kern' call' st = Some r" for clk kern' call' st r
  proof (rule el_loop.raw_induct[where P = "\<lambda>clk kern' call' st r. kern' = kern \<and> call' = task_call body \<longrightarrow>
      loop_ok wk h st \<longrightarrow> loop_ok wk h r \<and> el_active r = 0", OF _ that], intro impI)
    fix f :: "(nat \<Rightarrow> date_time) \<Rightarrow> kernel \<Rightarrow> task_run \<Rightarrow> loop_state \<Rightarrow> loop_state option"
      and clk kern' call' st r
    assume ih: "\<And>clk kern' call' st r. f clk kern' call' st = Some r \<Longrightarrow> kern' = kern \<and> call' = task_call body \<longrightarrow>
        loop_ok wk h st \<longrightarrow> loop_ok wk h r \<and> el_active r = 0"
      and r: "(if el_active st = 0 then Some st
               else case el_turn clk kern' call' st of
                      None \<Rightarrow> None | Some st' \<Rightarrow> f clk kern' call' st') = Some r"
      and e: "kern' = kern \<and> call' = task_call body" and i: "loop_ok wk h st"
    show "loop_ok wk h r \<and> el_active r = 0"
    proof (cases "el_active st = 0")
      case True
      thus ?thesis using r i by simp
    next
      case False
      then obtain st1 where "el_turn clk kern (task_call body) st = Some st1" "f clk kern (task_call body) st1 = Some r"
        using r e by (auto split: option.splits)
      thus ?thesis using ih turn_ok[OF assms(1,2) i] by blast
    qed
  qed
  thus ?thesis using assms(3,4) by blast
qed

lemma thread_ok: "loop_ok wk h (st\<lparr>el_thread := tid\<rparr>) = loop_ok wk h st"
proof -
  have "head_inv wk h 0 (st\<lparr>el_thread := tid\<rparr>) = head_inv wk h 0 st" by (rule head_inv_cong) simp_all
  thus ?thesis by (simp add: loop_ok_def wake_ok_def)
qed

lemma new_ok: "loop_ok wk 0 (event_loop_new tid wk fd)"
  using new_inv new_queued unfolding loop_ok_def head_inv_def at_head_def by blast

lemma loop_ok_pending:
  assumes "loop_ok wk h st"
  shows "\<exists>xs. slist_rep (el_links st) (el_tasks st) xs \<and> sorted (map (el_expiry st) (el_timers st)) \<and>
    el_active st = to_i32 (int (length xs) + int (length (el_timers st)) + (h + el_handles st)) \<and>
    (xs = [] \<or> 0 < ep_eventfd (el_io st))"
proof -
  have i: "loop_inv wk h 0 st" "at_head st" "wake_ok st"
    using assms by (auto simp: loop_ok_def head_inv_def)
  obtain xs where q: "queued st xs []" using i(2) by (auto simp: at_head_def)
  obtain xs' ys' where e: "queued st xs' ys'"
    "el_active st = to_i32 (int (length xs' + length ys' + length (el_timers st)) + (h + el_handles st) + 0)"
    using i(1) by (rule loop_invE)
  have "xs' = xs" "ys' = []" using queued_unique[OF e(1) q] by auto
  moreover have "sorted (map (el_expiry st) (el_timers st))"
    using i(1) by (simp add: loop_inv_def timers_sorted_def)
  ultimately show ?thesis using e queued_rep(1)[OF q] i(3)
    by (intro exI[of _ xs]) (auto simp: wake_ok_def rep_is_empty)
qed

text \<open>C1. Every turn of \<open>event_loop::run()\<close> keeps the loop's invariant, whatever well-behaved
  handlers and threads do: the intrusive queue stays a list, the timers stay sorted, the active
  count is the number of queued tasks and timers plus the registered handles (as a 32-bit int; \<open>h\<close> of
  them before, the balance of \<open>add_active\<close> and \<open>remove_active\<close> since), and no wake-up is lost: when a
  task is queued at the next \<open>epoll_wait\<close>, the event descriptor is readable.\<close>

theorem loop_turn_invariant:
  assumes "well_behaved wk body" "kernel_ok wk kern" "loop_ok wk h st"
    "el_turn clk kern (task_call body) st = Some st'"
  shows "loop_ok wk h st' \<and>
    (\<exists>xs. slist_rep (el_links st') (el_tasks st') xs \<and> sorted (map (el_expiry st') (el_timers st')) \<and>
      el_active st' = to_i32 (int (length xs) + int (length (el_timers st')) + (h + el_handles st')) \<and>
      (xs = [] \<or> 0 < ep_eventfd (el_io st')))"
  using turn_ok[OF assms] loop_ok_pending by blast

text \<open>C2. \<open>event_loop::run()\<close> returns only when nothing is pending: when no handle is registered then,
  no task is queued and no timer scheduled (up to a multiple of \<open>2 ^ 32\<close> of them, where
  the count wraps); a registered handle keeps it from returning.\<close>

theorem run_returns_idle:
  assumes "well_behaved wk body" "kernel_ok wk kern" "loop_ok wk h st"
    "el_run tid clk kern body st = Some st'"
  shows "\<exists>xs. slist_rep (el_links st') (el_tasks st') xs \<and>
    (int (length xs) + int (length (el_timers st')) + (h + el_handles st')) mod 2 ^ 32 = 0"
proof -
  have ok: "loop_ok wk h (st\<lparr>el_thread := tid\<rparr>)" using assms(3) thread_ok by simp
  have "loop_ok wk h st' \<and> el_active st' = 0"
    using loop_returns[OF assms(1,2) ok] assms(4) by (simp add: el_run_def)
  then obtain xs where "slist_rep (el_links st') (el_tasks st') xs"
    "to_i32 (int (length xs) + int (length (el_timers st')) + (h + el_handles st')) = 0"
    using loop_ok_pending by metis
  moreover have "x mod 2 ^ 32 = 0" if "to_i32 x = 0" for x
  proof -
    have "x mod 2 ^ 32 = ((x + 2 ^ 31) mod 2 ^ 32 - 2 ^ 31) mod 2 ^ 32"
      by (simp add: mod_diff_left_eq)
    also have "\<dots> = 0" using that by (simp add: to_i32_def)
    finally show ?thesis .
  qed
  ultimately show ?thesis by blast
qed


section \<open>A loop with nothing but timers ends\<close>

text \<open>The kernel when the event descriptor is the only one registered and no other thread runs:
  \<open>epoll_wait\<close> fails, or times out, or reports the event descriptor.\<close>

definition quiet_kernel :: "node \<Rightarrow> kernel \<Rightarrow> bool" where
  "quiet_kernel wk kern \<longleftrightarrow>
     (\<forall>st ms. fst (kern st ms) = st \<and>
        (case snd (kern st ms) of None \<Rightarrow> True | Some evs \<Rightarrow> set (map fst evs) \<subseteq> {Some wk}))"

text \<open>The level-triggered poller of the manual: it reports the descriptor as long as it is readable.\<close>

definition level_kernel :: "node \<Rightarrow> kernel" where
  "level_kernel wk = (\<lambda>st ms. (st, Some (if 0 < ep_eventfd (el_io st) then [(Some wk, EPOLLIN)] else [])))"

lemma level_kernel_quiet: "quiet_kernel wk (level_kernel wk)"
  by (auto simp: quiet_kernel_def level_kernel_def)

lemma quiet_kernel_ok: "quiet_kernel wk kern \<Longrightarrow> kernel_ok wk kern"
  by (simp add: quiet_kernel_def kernel_ok_def)

text \<open>Handlers that leave the loop alone, and a clock that passes every expiry.\<close>

definition idle_state :: "node \<Rightarrow> (node \<Rightarrow> date_time) \<Rightarrow> node set \<Rightarrow> loop_state \<Rightarrow> bool" where
  "idle_state wk e T st \<longleftrightarrow>
     (\<forall>t. t \<noteq> wk \<longrightarrow> el_kind st t \<in> {No_Handler, User_Handler}) \<and> el_kind st wk = Event_Fd_Handler \<and>
     el_handles st = 0 \<and> wk \<notin> T \<and>
     el_expiry st = e \<and> set (el_timers st) \<subseteq> T"

lemma idle_call:
  assumes "idle_state wk e T st" "t \<noteq> wk"
  shows "task_call (\<lambda>t s. Some s) t st = Some st"
proof -
  have "el_kind st t = No_Handler \<or> el_kind st t = User_Handler"
    using assms by (simp add: idle_state_def)
  thus ?thesis by (auto simp: task_call_def)
qed

lemma sch_run_idle:
  "idle_state wk e T st \<Longrightarrow> (\<And>i t. N \<le> i \<Longrightarrow> t \<in> T \<Longrightarrow> e t \<le> clk i) \<Longrightarrow>
   \<exists>st' c. sch_run clk (task_call (\<lambda>t s. Some s)) st cnt = Some (st', c) \<and> idle_state wk e T st' \<and>
     el_clock st \<le> el_clock st' \<and> (el_timers st \<noteq> [] \<longrightarrow> el_clock st < el_clock st') \<and>
     (N \<le> el_clock st \<longrightarrow> el_timers st' = []) \<and> length (el_timers st') \<le> length (el_timers st)"
proof (induction "el_timers st" arbitrary: st cnt)
  case Nil
  thus ?case by (subst sch_run.simps) simp
next
  case (Cons tt ts)
  let ?s = "(fst (clock_utc clk st))\<lparr>el_timers := ts\<rparr>"
  have t: "el_timers st = tt # ts" using Cons.hyps(2) by simp
  have s: "idle_state wk e T ?s" "idle_state wk e T (fst (clock_utc clk st))" "el_clock ?s = Suc (el_clock st)"
    using Cons.prems(1) t by (auto simp: idle_state_def clock_utc_def)
  have tt: "tt \<in> T" "tt \<noteq> wk" "el_expiry st = e"
    using Cons.prems(1) t by (auto simp: idle_state_def)
  show ?case
  proof (cases "el_expiry st tt \<le> snd (clock_utc clk st)")
    case True
    obtain st' c where r: "sch_run clk (task_call (\<lambda>t s. Some s)) ?s (to_i32 (cnt + 1)) = Some (st', c)"
      "idle_state wk e T st'" "el_clock ?s \<le> el_clock st'" "N \<le> el_clock ?s \<longrightarrow> el_timers st' = []"
      "length (el_timers st') \<le> length ts"
      using Cons.hyps(1)[of ?s "to_i32 (cnt + 1)"] Cons.prems(2) s(1) by auto
    have "sch_run clk (task_call (\<lambda>t s. Some s)) st cnt = Some (st', c)"
      using r(1) t True idle_call[OF s(1) tt(2)] by (subst sch_run.simps) simp
    thus ?thesis using r s(3) t by auto
  next
    case False
    hence "sch_run clk (task_call (\<lambda>t s. Some s)) st cnt = Some (fst (clock_utc clk st), cnt)"
      using t by (subst sch_run.simps) simp
    moreover have "\<not> N \<le> el_clock st"
      using False Cons.prems(2)[of "el_clock st" tt] tt by (auto simp: clock_utc_def)
    ultimately show ?thesis using s t by (auto simp: clock_utc_def)
  qed
qed

lemma idle_cong:
  "el_kind st' = el_kind st \<Longrightarrow> el_expiry st' = el_expiry st \<Longrightarrow> el_timers st' = el_timers st \<Longrightarrow>
   el_handles st' = el_handles st \<Longrightarrow> idle_state wk e T st' = idle_state wk e T st"
  by (simp add: idle_state_def)

lemma pop_idle: "idle_state wk e T (el_pop st) = idle_state wk e T st" "el_clock (el_pop st) = el_clock st"
  "el_timers (el_pop st) = el_timers st"
  by (rule idle_cong; simp add: el_pop_def split_beta) (simp_all add: el_pop_def split_beta)

lemma run_each_idle:
  "idle_state wk e T st \<Longrightarrow> wk \<notin> set ys \<Longrightarrow> \<exists>st'. run_each (task_call (\<lambda>t s. Some s)) ys st = Some st' \<and>
     idle_state wk e T st' \<and> el_clock st' = el_clock st \<and> el_timers st' = el_timers st \<and> el_tasks st' = el_tasks st"
proof (induction ys arbitrary: st)
  case (Cons t ys)
  have "idle_state wk e T (el_pop st)" "el_tasks (el_pop st) = el_tasks st"
    using Cons.prems(1) by (simp_all add: pop_idle) (simp add: el_pop_def split_beta)
  thus ?case using Cons.IH[of "el_pop st"] idle_call[of wk e T "el_pop st" t] Cons.prems(2)
    by (auto simp: pop_idle)
qed simp

lemma dispatch_quiet:
  "el_kind st wk = Event_Fd_Handler \<Longrightarrow> set (map fst evs) \<subseteq> {Some wk} \<Longrightarrow>
   \<exists>io. ep_dispatch (task_call body) evs st = Some (st\<lparr>el_io := io\<rparr>)"
proof (induction evs arbitrary: st)
  case Nil
  show ?case by (rule exI[of _ "el_io st"]) simp
next
  case (Cons pe evs)
  obtain e where pe: "pe = (Some wk, e)" using Cons.prems(2) by (cases pe) auto
  let ?s = "st\<lparr>el_io := event_fd_task_handler (set_evt wk e (el_io st))\<rparr>"
  obtain io where "ep_dispatch (task_call body) evs ?s = Some (?s\<lparr>el_io := io\<rparr>)"
    using Cons.IH[of ?s] Cons.prems by auto
  moreover have "task_call body wk (st\<lparr>el_io := set_evt wk e (el_io st)\<rparr>) = Some ?s"
    using Cons.prems(1) by (simp add: task_call_def)
  ultimately show ?case using pe by (intro exI[of _ io]) simp
qed

lemma wait_quiet:
  assumes "quiet_kernel wk kern" "idle_state wk e T st"
  shows "\<exists>io. ep_wait kern (task_call body) w st = Some (st\<lparr>el_io := io\<rparr>)"
proof -
  obtain x where k: "kern st (to_i32 (ts_total_milli_seconds w)) = (st, x)"
    using assms(1) unfolding quiet_kernel_def by (metis prod.collapse)
  show ?thesis
  proof (cases x)
    case None
    thus ?thesis using k by (intro exI[of _ "el_io st"]) (simp add: ep_wait_def)
  next
    case (Some evs)
    hence "snd (kern st (to_i32 (ts_total_milli_seconds w))) = Some evs" using k by simp
    hence "set (map fst evs) \<subseteq> {Some wk}"
      using assms(1) unfolding quiet_kernel_def by (metis option.simps(5))
    thus ?thesis using dispatch_quiet[of st wk evs body] assms(2) k Some by (simp add: ep_wait_def idle_state_def)
  qed
qed

lemma turn_idle:
  assumes q: "quiet_kernel wk kern" and i: "idle_state wk e T st" "loop_ok wk 0 st" and N: "\<And>i t. N \<le> i \<Longrightarrow> t \<in> T \<Longrightarrow> e t \<le> clk i"
  shows "\<exists>st'. el_turn clk kern (task_call (\<lambda>t s. Some s)) st = Some st' \<and>
    idle_state wk e T st' \<and> loop_ok wk 0 st' \<and> sl_is_empty (el_tasks st') \<and>
    (el_timers st' = [] \<or> el_clock st < el_clock st' \<and> \<not> N \<le> el_clock st)"
proof -
  let ?c = "task_call (\<lambda>t s. Some s)"
  let ?s0 = "fst (sch_schedule_after clk st)" and ?w = "snd (sch_schedule_after clk st)"
  have s0: "idle_state wk e T ?s0" "el_clock st \<le> el_clock ?s0" "head_inv wk 0 0 ?s0"
    using i schedule_after_inv(1)[of wk 0 0 clk st]
    by (auto simp: sch_schedule_after_def Let_def split_beta idle_state_def clock_utc_def loop_ok_def
        split: list.splits)
  obtain io where w: "ep_wait kern ?c ?w ?s0 = Some (?s0\<lparr>el_io := io\<rparr>)" using wait_quiet[OF q s0(1)] by blast
  let ?s1 = "?s0\<lparr>el_io := io\<rparr>"
  have "idle_state wk e T ?s1 = idle_state wk e T ?s0" by (rule idle_cong) simp_all
  moreover have "head_inv wk 0 0 ?s1 = head_inv wk 0 0 ?s0" by (rule head_inv_cong) simp_all
  ultimately have s1: "idle_state wk e T ?s1" "el_clock st \<le> el_clock ?s1" "head_inv wk 0 0 ?s1" using s0 by simp_all
  obtain s3 cnt where s3: "sch_run clk ?c ?s1 0 = Some (s3, cnt)" "idle_state wk e T s3"
    "el_clock ?s1 \<le> el_clock s3" "el_timers ?s1 \<noteq> [] \<longrightarrow> el_clock ?s1 < el_clock s3"
    "N \<le> el_clock ?s1 \<longrightarrow> el_timers s3 = []" "length (el_timers s3) \<le> length (el_timers ?s1)"
    using sch_run_idle[where N = N and clk = clk, OF s1(1) N, of 0] by blast
  have "\<exists>k. head_inv wk 0 k s3 \<and> cnt = to_i32 k"
    using sch_run_inv[OF s3(1) task_call_keeps[OF idle_well_behaved, of wk 0]
        call_local[OF idle_well_behaved] s1(3)] by (simp add: to_i32_id)
  then obtain k where k: "loop_inv wk 0 k s3" "at_head s3" by (auto simp: head_inv_def)
  then obtain xs where xs: "queued s3 xs []" by (auto simp: at_head_def)
  obtain xs' ys' where "queued s3 xs' ys'" "wk \<notin> set xs' \<union> set ys' \<union> set (el_timers s3)"
    using k(1) by (rule loop_invE)
  hence wk: "wk \<notin> set xs" using queued_unique[OF _ xs] by blast
  obtain s4 where s4: "el_take s3 = Some s4" "queued s4 [] xs"
    "el_run_tasks ?c s3 = (case run_each ?c xs s4 of None \<Rightarrow> None | Some st' \<Rightarrow> Some (st', to_i32 (int (length xs))))"
    using run_tasks_rounds[OF idle_well_behaved xs] by blast
  have t4: "idle_state wk e T s4" "el_clock s4 = el_clock s3" "el_timers s4 = el_timers s3" "sl_is_empty (el_tasks s4)"
    using s4(1) s3(2) queued_rep(1)[OF s4(2)]
    by (auto simp: el_take_def idle_state_def rep_is_empty split: option.splits)
  obtain s5 where s5: "run_each ?c xs s4 = Some s5" "idle_state wk e T s5" "el_clock s5 = el_clock s3"
    "el_timers s5 = el_timers s3" "sl_is_empty (el_tasks s5)"
    using run_each_idle[OF t4(1) wk] t4 by auto
  let ?s' = "s5\<lparr>el_active := to_i32 (el_active s5 - (cnt + int (length xs)))\<rparr>"
  have e: "el_turn clk kern ?c st = Some ?s'"
    using w s3(1) s4(3) s5(1) by (simp add: el_turn_def split_beta add_diff_eq diff_diff_eq[symmetric])
  moreover have "loop_ok wk 0 ?s'"
    by (rule turn_ok[OF idle_well_behaved quiet_kernel_ok[OF q] i(2) e])
  moreover have "idle_state wk e T ?s'" using s5(2) by (simp add: idle_state_def)
  moreover have "el_timers ?s' = [] \<or> el_clock st < el_clock ?s' \<and> \<not> N \<le> el_clock st"
    using s3 s1(2) s5 by auto
  ultimately show ?thesis using s5(5) by auto
qed

lemma idle_loop_ends:
  assumes q: "quiet_kernel wk kern" and "idle_state wk e T st" "loop_ok wk 0 st" "\<And>i t. N \<le> i \<Longrightarrow> t \<in> T \<Longrightarrow> e t \<le> clk i"
  shows "\<exists>st'. el_loop clk kern (task_call (\<lambda>t s. Some s)) st = Some st'"
  using assms(2-)
proof (induction "N - el_clock st" arbitrary: st rule: less_induct)
  case less
  let ?t = "el_turn clk kern (task_call (\<lambda>t s. Some s))"
  show ?case
  proof (cases "el_active st = 0")
    case True
    thus ?thesis by (subst el_loop.simps) simp
  next
    case False
    obtain st1 where s: "?t st = Some st1" "idle_state wk e T st1" "loop_ok wk 0 st1"
      "sl_is_empty (el_tasks st1)" "el_timers st1 = [] \<or> el_clock st < el_clock st1 \<and> \<not> N \<le> el_clock st"
      using turn_idle[where N = N and clk = clk, OF q less.prems] by blast
    have "\<exists>st'. el_loop clk kern (task_call (\<lambda>t s. Some s)) st1 = Some st'"
    proof (cases "el_timers st1 = []")
      case True
      obtain xs where "slist_rep (el_links st1) (el_tasks st1) xs"
        "el_active st1 = to_i32 (int (length xs) + int (length (el_timers st1)) + (0 + el_handles st1))"
        using loop_ok_pending[OF s(3)] by blast
      hence "el_active st1 = 0" using True s(2,4) unfolding idle_state_def by (simp add: rep_is_empty to_i32_id)
      thus ?thesis by (subst el_loop.simps) simp
    next
      case False
      hence "N - el_clock st1 < N - el_clock st" using s(5) by linarith
      thus ?thesis using less.hyps s(2,3) less.prems(3) by blast
    qed
    thus ?thesis using False s(1) by (subst el_loop.simps) simp
  qed
qed



text \<open>A loop with one timer, for the witnesses.\<close>

definition one_timer :: loop_state where
  "one_timer = (event_loop_new 7 2 3)\<lparr>el_timers := [5], el_active := 1\<rparr>"

lemma one_timer_ok: "loop_ok 2 0 one_timer" "idle_state 2 (\<lambda>t. 0) {5} one_timer" "queued one_timer [] []"
proof -
  have q: "queued one_timer [] []"
    using new_queued[of 7 2 3] by (subst queued_cong[of _ "event_loop_new 7 2 3"]) (simp_all add: one_timer_def)
  show "queued one_timer [] []" by (rule q)
  have "loop_inv 2 0 0 one_timer"
    using timers_inv[OF new_inv(1)[of 2 7 3], of "[5]" 1]
    by (simp add: one_timer_def event_loop_new_def to_i32_def)
  moreover have "wake_ok one_timer"
    using new_inv(2)[of 7 2 3] by (simp add: wake_ok_def one_timer_def)
  ultimately show "loop_ok 2 0 one_timer"
    using q unfolding loop_ok_def head_inv_def at_head_def by blast
  show "idle_state 2 (\<lambda>t. 0) {5} one_timer"
    by (simp add: idle_state_def one_timer_def event_loop_new_def)
qed


lemma loop_turn_invariant_witness:
  "\<exists>st'. el_turn (\<lambda>i. 9) (level_kernel 2) (task_call (\<lambda>t s. Some s)) one_timer = Some st' \<and>
     loop_ok 2 0 st'"
proof -
  obtain st' where t: "el_turn (\<lambda>i. 9) (level_kernel 2) (task_call (\<lambda>t s. Some s)) one_timer = Some st'"
    using turn_idle[OF level_kernel_quiet one_timer_ok(2,1), of 0 "\<lambda>i. 9"] by auto
  from loop_turn_invariant[OF idle_well_behaved quiet_kernel_ok[OF level_kernel_quiet] one_timer_ok(1) t] t
  show ?thesis by blast
qed

lemma run_returns_idle_witness:
  "\<exists>st' xs. el_run 7 (\<lambda>i. 9) (level_kernel 2) (\<lambda>t s. Some s) one_timer = Some st' \<and>
     slist_rep (el_links st') (el_tasks st') xs \<and>
     (int (length xs) + int (length (el_timers st')) + el_handles st') mod 2 ^ 32 = 0"
proof -
  have "idle_state 2 (\<lambda>t. 0) {5} (one_timer\<lparr>el_thread := 7\<rparr>)"
    using one_timer_ok(2) by (subst idle_cong[of _ one_timer]) simp_all
  moreover have "loop_ok 2 0 (one_timer\<lparr>el_thread := 7\<rparr>)" using one_timer_ok(1) thread_ok by simp
  ultimately obtain st' where r: "el_run 7 (\<lambda>i. 9) (level_kernel 2) (\<lambda>t s. Some s) one_timer = Some st'"
    using idle_loop_ends[of 2 "level_kernel 2" "\<lambda>t. 0" "{5}" "one_timer\<lparr>el_thread := 7\<rparr>" 0 "\<lambda>i. 9"] level_kernel_quiet
    by (auto simp: el_run_def)
  obtain xs where x: "slist_rep (el_links st') (el_tasks st') xs"
    "(int (length xs) + int (length (el_timers st')) + (0 + el_handles st')) mod 2 ^ 32 = 0"
    using run_returns_idle[OF idle_well_behaved quiet_kernel_ok[OF level_kernel_quiet] one_timer_ok(1) r]
    by (elim exE conjE)
  show ?thesis
    by (intro exI[of _ st'] exI[of _ xs] conjI r x(1) x(2)[unfolded add_0_left])
qed

end
