(* ===== verification/Pipeline.thy ===== *)
theory Pipeline
  imports Prelude "HOL-Library.Monad_Syntax"
begin

text \<open>
  The filters of a channel (\<open>io/ip/tcp/pipeline\<close>): a doubly linked chain of filter objects.
  Events travel from the first filter to the last, writes from the last to the first and then to
  the channel. The objects are one store, addressed by number; a null pointer is \<open>None\<close>. The
  methods modelled are the ones of the class \<open>filter\<close>, which a filter inherits unless it
  overrides them.
\<close>

record filter_store =
  fl_channel :: "nat \<Rightarrow> nat option"
  fl_in :: "nat \<Rightarrow> nat option"
  fl_out :: "nat \<Rightarrow> nat option"
  fl_name :: "nat \<Rightarrow> string"
  fl_deleted :: "nat list"

record filter_chain =
  chain_head :: "nat option"
  chain_tail :: "nat option"

record pipeline =
  pl_channel :: nat
  pl_chain :: filter_chain

section \<open>Filters\<close>

definition filter_new :: "nat \<Rightarrow> filter_store \<Rightarrow> filter_store" where
  "filter_new f s =
     s\<lparr>fl_channel := (fl_channel s)(f := None), fl_in := (fl_in s)(f := None),
       fl_out := (fl_out s)(f := None), fl_name := (fl_name s)(f := [])\<rparr>"

definition set_channel :: "nat \<Rightarrow> nat \<Rightarrow> filter_store \<Rightarrow> filter_store" where
  "set_channel f c s = s\<lparr>fl_channel := (fl_channel s)(f := Some c)\<rparr>"

definition set_in_bound :: "nat \<Rightarrow> nat option \<Rightarrow> filter_store \<Rightarrow> filter_store" where
  "set_in_bound f g s = s\<lparr>fl_in := (fl_in s)(f := g)\<rparr>"

definition set_out_bound :: "nat \<Rightarrow> nat option \<Rightarrow> filter_store \<Rightarrow> filter_store" where
  "set_out_bound f g s = s\<lparr>fl_out := (fl_out s)(f := g)\<rparr>"

definition set_name :: "nat \<Rightarrow> string \<Rightarrow> filter_store \<Rightarrow> filter_store" where
  "set_name f n s = s\<lparr>fl_name := (fl_name s)(f := n)\<rparr>"

definition on_delete :: "nat \<Rightarrow> filter_store \<Rightarrow> filter_store" where
  "on_delete f s = s\<lparr>fl_deleted := fl_deleted s @ [f]\<rparr>"

text \<open>\<open>on_accepted\<close>, \<open>on_connected\<close>, \<open>on_error\<close>, \<open>on_read\<close>, \<open>on_write\<close> and \<open>on_closed\<close>
  all forward their event to the next filter; the result is the filters it passes.\<close>

partial_function (option) on_event :: "filter_store \<Rightarrow> nat \<Rightarrow> nat list option" where
  "on_event s f =
     (case fl_in s f of
        None \<Rightarrow> Some [f]
      | Some g \<Rightarrow> do { fs \<leftarrow> on_event s g; Some (f # fs) })"

text \<open>\<open>do_write\<close> forwards to the filter before, the first filter to its channel (a null channel
  is dereferenced): the filters passed, and the channel.\<close>

partial_function (option) do_write :: "filter_store \<Rightarrow> nat \<Rightarrow> (nat list \<times> nat) option" where
  "do_write s f =
     (case fl_out s f of
        Some g \<Rightarrow> do { (fs, c) \<leftarrow> do_write s g; Some (f # fs, c) }
      | None \<Rightarrow> (case fl_channel s f of None \<Rightarrow> None | Some c \<Rightarrow> Some ([f], c)))"

section \<open>Chain and pipeline\<close>

definition chain_new :: filter_chain where
  "chain_new = \<lparr>chain_head = None, chain_tail = None\<rparr>"

definition chain_add :: "nat \<Rightarrow> filter_chain \<Rightarrow> filter_store \<Rightarrow> filter_chain \<times> filter_store" where
  "chain_add f ch s =
     (case chain_tail ch of
        None \<Rightarrow> (ch\<lparr>chain_head := Some f, chain_tail := Some f\<rparr>, s)
      | Some t \<Rightarrow>
          (ch\<lparr>chain_tail := Some f\<rparr>, set_out_bound f (Some t) (set_in_bound t (Some f) s)))"

text \<open>The destructor reads the next filter before it deletes one; reading a deleted filter has
  no result.\<close>

partial_function (option) chain_destroy :: "nat option \<Rightarrow> filter_store \<Rightarrow> filter_store option" where
  "chain_destroy h s =
     (case h of
        None \<Rightarrow> Some s
      | Some d \<Rightarrow>
          if d \<in> set (fl_deleted s) then None
          else chain_destroy (fl_in s d) (on_delete d s))"

definition in_bound_filter :: "filter_chain \<Rightarrow> nat option" where
  "in_bound_filter ch = chain_head ch"

definition out_bound_filter :: "filter_chain \<Rightarrow> nat option" where
  "out_bound_filter ch = chain_tail ch"

definition pipeline_new :: "nat \<Rightarrow> pipeline" where
  "pipeline_new c = \<lparr>pl_channel = c, pl_chain = chain_new\<rparr>"

definition pipeline_add :: "string \<Rightarrow> nat \<Rightarrow> pipeline \<Rightarrow> filter_store \<Rightarrow> pipeline \<times> filter_store" where
  "pipeline_add name f p s =
     (let (ch, s') = chain_add f (pl_chain p) (set_channel f (pl_channel p) (set_name f name s))
      in (p\<lparr>pl_chain := ch\<rparr>, s'))"

partial_function (option) find_from :: "string \<Rightarrow> filter_store \<Rightarrow> nat option \<Rightarrow> nat option option" where
  "find_from name s fp =
     (case fp of
        None \<Rightarrow> Some None
      | Some f \<Rightarrow> if fl_name s f = name then Some (Some f) else find_from name s (fl_in s f))"

definition pipeline_find :: "string \<Rightarrow> pipeline \<Rightarrow> filter_store \<Rightarrow> nat option option" where
  "pipeline_find name p s = find_from name s (in_bound_filter (pl_chain p))"

section \<open>What a chain stands for\<close>

fun linked :: "(nat \<Rightarrow> nat option) \<Rightarrow> nat list \<Rightarrow> bool" where
  "linked nx [] = True"
| "linked nx [f] = (nx f = None)"
| "linked nx (f # g # fs) = (nx f = Some g \<and> linked nx (g # fs))"

definition chain_rep :: "filter_store \<Rightarrow> pipeline \<Rightarrow> (nat \<times> string) list \<Rightarrow> bool" where
  "chain_rep s p fs \<longleftrightarrow>
     distinct (map fst fs) \<and> linked (fl_in s) (map fst fs) \<and> linked (fl_out s) (rev (map fst fs)) \<and>
     chain_head (pl_chain p) = (if fs = [] then None else Some (fst (hd fs))) \<and>
     chain_tail (pl_chain p) = (if fs = [] then None else Some (fst (last fs))) \<and>
     (\<forall>(f, n)\<in>set fs. fl_name s f = n \<and> fl_channel s f = Some (pl_channel p))"

lemma linked_upd [simp]: "f \<notin> set fs \<Longrightarrow> linked (nx(f := v)) fs = linked nx fs"
  by (induction nx fs rule: linked.induct) auto

lemma linked_Cons:
  "linked nx (f # fs) \<longleftrightarrow> nx f = (if fs = [] then None else Some (hd fs)) \<and> linked nx fs"
  by (cases fs) auto

lemma linked_snoc:
  "fs \<noteq> [] \<Longrightarrow> f \<notin> set fs \<Longrightarrow> distinct fs \<Longrightarrow> linked nx fs \<Longrightarrow> nx f = None \<Longrightarrow>
   linked (nx(last fs := Some f)) (fs @ [f])"
  by (induction fs) (auto simp: linked_Cons split: if_splits)

lemma add_rep:
  assumes r: "chain_rep s p fs" and f: "f \<notin> fst ` set fs" "fl_in s f = None" "fl_out s f = None"
  shows "\<exists>p' s'. pipeline_add name f p s = (p', s') \<and> chain_rep s' p' (fs @ [(f, name)]) \<and>
    pl_channel p' = pl_channel p \<and> fl_deleted s' = fl_deleted s \<and>
    (\<forall>g. g \<notin> fst ` set fs \<and> g \<noteq> f \<longrightarrow> fl_in s' g = fl_in s g \<and> fl_out s' g = fl_out s g)"
proof (cases "fs = []")
  case True
  thus ?thesis using r f
    by (auto simp: pipeline_add_def chain_add_def chain_rep_def set_channel_def set_name_def)
next
  case False
  let ?xs = "map fst fs"
  have "linked ((fl_in s)(last ?xs := Some f)) (?xs @ [f])"
    using r f False by (intro linked_snoc) (auto simp: chain_rep_def)
  moreover have "last ?xs = fst (last fs)" using False by (simp add: last_map)
  moreover have "linked ((fl_out s)(f := Some (fst (last fs)))) (f # rev ?xs)"
    using r f False by (auto simp: chain_rep_def linked_Cons hd_rev last_map)
  moreover have "fst (last fs) \<noteq> f" using f False by (metis image_eqI last_in_set)
  moreover note ends = calculation
  let ?t = "fst (last fs)"
  let ?s = "s\<lparr>fl_channel := (fl_channel s)(f := Some (pl_channel p)), fl_name := (fl_name s)(f := name),
      fl_in := (fl_in s)(?t := Some f), fl_out := (fl_out s)(f := Some ?t)\<rparr>"
  let ?p = "p\<lparr>pl_chain := (pl_chain p)\<lparr>chain_tail := Some f\<rparr>\<rparr>"
  have "chain_tail (pl_chain p) = Some ?t" using r False by (simp add: chain_rep_def)
  hence e: "pipeline_add name f p s = (?p, ?s)"
    by (simp add: pipeline_add_def chain_add_def set_channel_def set_name_def set_in_bound_def
        set_out_bound_def)
  have "fl_name ?s g = n \<and> fl_channel ?s g = Some (pl_channel p)" if "(g, n) \<in> set (fs @ [(f, name)])" for g n
  proof (cases "(g, n) \<in> set fs")
    case True
    hence "g \<noteq> f" using f(1) by force
    thus ?thesis using True r by (auto simp: chain_rep_def)
  next
    case False
    thus ?thesis using that by simp
  qed
  hence "\<forall>(g, n)\<in>set (fs @ [(f, name)]). fl_name ?s g = n \<and> fl_channel ?s g = Some (pl_channel ?p)" by auto
  moreover have "distinct (map fst (fs @ [(f, name)]))" using r f(1) by (auto simp: chain_rep_def)
  moreover have "chain_head (pl_chain ?p) = Some (fst (hd (fs @ [(f, name)])))"
    using r False by (simp add: chain_rep_def)
  ultimately have "chain_rep ?s ?p (fs @ [(f, name)])"
    using ends unfolding chain_rep_def by simp
  moreover have "?t \<in> fst ` set fs" using False by simp
  ultimately show ?thesis using e by auto
qed

lemma on_event_linked:
  "linked (fl_in s) (f # fs) \<Longrightarrow> on_event s f = Some (f # fs)"
  by (induction fs arbitrary: f) (simp_all add: on_event.simps)

lemma do_write_linked:
  "linked (fl_out s) (f # fs) \<Longrightarrow> \<forall>g\<in>set (f # fs). fl_channel s g = Some c \<Longrightarrow>
   do_write s f = Some (f # fs, c)"
  by (induction fs arbitrary: f) (simp_all add: do_write.simps)

lemma find_linked:
  "linked (fl_in s) fs \<Longrightarrow>
   find_from name s (if fs = [] then None else Some (hd fs)) = Some (find (\<lambda>f. fl_name s f = name) fs)"
proof (induction fs)
  case (Cons f fs)
  thus ?case by (subst find_from.simps) (simp add: linked_Cons split: if_splits)
qed (simp add: find_from.simps)

lemma destroy_linked:
  "linked (fl_in s) fs \<Longrightarrow> distinct fs \<Longrightarrow> set fs \<inter> set (fl_deleted s) = {} \<Longrightarrow>
   chain_destroy (if fs = [] then None else Some (hd fs)) s = Some (s\<lparr>fl_deleted := fl_deleted s @ fs\<rparr>)"
proof (induction fs arbitrary: s)
  case (Cons f fs)
  have "chain_destroy (if fs = [] then None else Some (hd fs)) (on_delete f s) =
      Some ((on_delete f s)\<lparr>fl_deleted := fl_deleted (on_delete f s) @ fs\<rparr>)"
    using Cons.prems by (intro Cons.IH) (auto simp: linked_Cons on_delete_def)
  thus ?case using Cons.prems
    by (subst chain_destroy.simps) (simp add: linked_Cons on_delete_def)
qed (simp add: chain_destroy.simps)

fun add_all :: "(nat \<times> string) list \<Rightarrow> pipeline \<Rightarrow> filter_store \<Rightarrow> pipeline \<times> filter_store" where
  "add_all [] p s = (p, s)"
| "add_all ((f, n) # fs) p s = (let (p', s') = pipeline_add n f p (filter_new f s) in add_all fs p' s')"

lemma new_rep: "chain_rep s (pipeline_new c) []"
  by (simp add: chain_rep_def pipeline_new_def chain_new_def)

lemma filter_new_rep:
  assumes "chain_rep s p fs" "f \<notin> fst ` set fs"
  shows "chain_rep (filter_new f s) p fs"
proof -
  have "f \<notin> set (map fst fs)" using assms(2) by simp
  moreover have "g \<noteq> f" if "(g, n) \<in> set fs" for g n using assms(2) that by force
  ultimately show ?thesis using assms(1) by (auto simp: chain_rep_def filter_new_def)
qed

lemma add_all_rep:
  "chain_rep s p gs \<Longrightarrow> distinct (map fst (gs @ fs)) \<Longrightarrow>
   \<exists>p' s'. add_all fs p s = (p', s') \<and> chain_rep s' p' (gs @ fs) \<and> pl_channel p' = pl_channel p \<and>
     fl_deleted s' = fl_deleted s"
proof (induction fs arbitrary: p s gs)
  case (Cons x fs)
  obtain f n where x: "x = (f, n)" by (cases x)
  have f: "f \<notin> fst ` set gs" using Cons.prems(2) x by auto
  obtain p1 s1 where s1: "pipeline_add n f p (filter_new f s) = (p1, s1)"
    "chain_rep s1 p1 (gs @ [(f, n)])" "pl_channel p1 = pl_channel p" "fl_deleted s1 = fl_deleted s"
    using add_rep[OF filter_new_rep[OF Cons.prems(1) f] f, of n] by (auto simp: filter_new_def)
  thus ?case using Cons.IH[OF s1(2)] Cons.prems(2) x by auto
qed auto

text \<open>The pipeline of a channel: after any sequence of \<open>add\<close> calls with new filters, events
  pass the filters in the order they were added, writes pass them in the opposite order and end
  at the channel, \<open>find\<close> returns the first filter of the name, and the destructor deletes every
  filter exactly once, reading none after it is deleted.\<close>

theorem pipeline_order:
  assumes "distinct (map fst fs)" "fs \<noteq> []" "add_all fs (pipeline_new c) s = (p, s')" "fl_deleted s = []"
  shows "\<exists>h t. in_bound_filter (pl_chain p) = Some h \<and> out_bound_filter (pl_chain p) = Some t \<and>
    on_event s' h = Some (map fst fs) \<and>
    do_write s' t = Some (rev (map fst fs), c) \<and>
    pipeline_find name p s' = Some (map_option fst (find (\<lambda>(f, n). n = name) fs)) \<and>
    chain_destroy (chain_head (pl_chain p)) s' = Some (s'\<lparr>fl_deleted := map fst fs\<rparr>)"
proof -
  have r: "chain_rep s' p fs" "pl_channel p = c" "fl_deleted s' = []"
    using add_all_rep[OF new_rep[of s c], of fs] assms by (auto simp: pipeline_new_def)
  obtain f n gs where fs: "fs = (f, n) # gs" using assms(2) by (cases fs) auto
  obtain t m hs where tl: "fs = hs @ [(t, m)]" using assms(2) by (metis rev_exhaust surj_pair)
  have ch: "in_bound_filter (pl_chain p) = Some f" "out_bound_filter (pl_chain p) = Some t"
    using r(1) fs by (simp add: chain_rep_def in_bound_filter_def)
      (use r(1) tl in \<open>simp add: chain_rep_def out_bound_filter_def\<close>)
  have "on_event s' f = Some (map fst fs)"
    using on_event_linked[of s' f "map fst gs"] r(1) fs by (simp add: chain_rep_def)
  moreover have "\<forall>g\<in>set (t # rev (map fst hs)). fl_channel s' g = Some c"
    using r tl by (fastforce simp: chain_rep_def)
  hence "do_write s' t = Some (rev (map fst fs), c)"
    using do_write_linked[of s' t "rev (map fst hs)" c] r tl by (simp add: chain_rep_def)
  moreover have "pipeline_find name p s' = Some (map_option fst (find (\<lambda>(f, n). n = name) fs))"
  proof -
    have "find (\<lambda>f. fl_name s' f = name) (map fst xs) = map_option fst (find (\<lambda>(f, n). n = name) xs)"
      if "set xs \<subseteq> set fs" for xs
      using that r(1) by (induction xs) (auto simp: chain_rep_def)
    thus ?thesis using find_linked[of s' "map fst fs" name] r(1) assms(2)
      by (auto simp: pipeline_find_def in_bound_filter_def chain_rep_def hd_map)
  qed
  moreover have "chain_destroy (chain_head (pl_chain p)) s' = Some (s'\<lparr>fl_deleted := map fst fs\<rparr>)"
    using destroy_linked[of s' "map fst fs"] r(1,3) assms(1,2) by (simp add: chain_rep_def hd_map)
  ultimately show ?thesis using ch by blast
qed

lemma pipeline_order_witness:
  "\<exists>p s' t. add_all [(4, ''log''), (7, ''app'')] (pipeline_new 1)
      \<lparr>fl_channel = (\<lambda>f. None), fl_in = (\<lambda>f. None), fl_out = (\<lambda>f. None), fl_name = (\<lambda>f. []), fl_deleted = []\<rparr> = (p, s') \<and>
    out_bound_filter (pl_chain p) = Some t \<and> do_write s' t = Some ([7, 4], 1)"
proof -
  let ?s = "\<lparr>fl_channel = (\<lambda>f. None), fl_in = (\<lambda>f. None), fl_out = (\<lambda>f. None), fl_name = (\<lambda>f. []), fl_deleted = []\<rparr> :: filter_store"
  obtain p s' where a: "add_all [(4, ''log''), (7, ''app'')] (pipeline_new 1) ?s = (p, s')"
    by (metis surj_pair)
  from pipeline_order[OF _ _ a] a show ?thesis by auto
qed

end
