(* ===== verification/Errors.thy ===== *)
theory Errors
  imports Prelude
begin

text \<open>
  Error codes (\<open>src/tdk/error\<close>): the enumeration \<open>errc\<close>, the categories and their messages,
  and the last error of a thread (\<open>last_error.cpp\<close>, \<open>threading/thread_data.cpp\<close>). An error
  code is a value with its category; it is an error when its value is not zero.
  \<open>strerror_r\<close> is a parameter.
\<close>

section \<open>Codes\<close>

datatype errc =
  Tdk_Success
| Tdk_Fail
| Tdk_Tls_Not_Initialized
| Tdk_User_Abort
| Tdk_Invalid_Call
| Tdk_Network_User_Abort
| Tdk_Network_Remote_Closed
| Tdk_Epoll_Error
| Tdk_Epoll_Hang_Up
| Tdk_Invalid_Event
| Tdk_Errc_End

primrec errc_value :: "errc \<Rightarrow> int" where
  "errc_value Tdk_Success = 0"
| "errc_value Tdk_Fail = 1"
| "errc_value Tdk_Tls_Not_Initialized = 2"
| "errc_value Tdk_User_Abort = 3"
| "errc_value Tdk_Invalid_Call = 4"
| "errc_value Tdk_Network_User_Abort = 0x1000"
| "errc_value Tdk_Network_Remote_Closed = 0x1001"
| "errc_value Tdk_Epoll_Error = 0x1002"
| "errc_value Tdk_Epoll_Hang_Up = 0x1003"
| "errc_value Tdk_Invalid_Event = 0x1004"
| "errc_value Tdk_Errc_End = 0x1005"

text \<open>\<open>std::error_code()\<close> has the system category; \<open>epoll_category\<close> decorates the
  platform's.\<close>

datatype err_category =
  System_Category
| Tdk_Category
| Platform_Category
| Decorated string err_category

record error_code =
  ec_value :: int
  ec_category :: err_category

definition no_error :: error_code where
  "no_error = \<lparr>ec_value = 0, ec_category = System_Category\<rparr>"

definition is_error :: "error_code \<Rightarrow> bool" where
  "is_error e \<longleftrightarrow> ec_value e \<noteq> 0"

definition tdk_error :: "errc \<Rightarrow> error_code" where
  "tdk_error ec = \<lparr>ec_value = errc_value ec, ec_category = Tdk_Category\<rparr>"

definition platform_error :: "int \<Rightarrow> error_code" where
  "platform_error ec = \<lparr>ec_value = ec, ec_category = Platform_Category\<rparr>"

definition platform_timeout :: error_code where
  "platform_timeout = platform_error 110"

definition epoll_category :: err_category where
  "epoll_category = Decorated ''epoll'' Platform_Category"

definition epoll_error :: "int \<Rightarrow> error_code" where
  "epoll_error err = \<lparr>ec_value = err, ec_category = epoll_category\<rparr>"

text \<open>\<open>errno\<close> values of Linux.\<close>

definition EINTR :: int where "EINTR = 4"

section \<open>Messages\<close>

definition tdk_error_tables :: "(errc \<times> string) list" where
  "tdk_error_tables =
    [(Tdk_Success, ''tdk_success''),
     (Tdk_Tls_Not_Initialized, ''tdk_tls_not_initialized''),
     (Tdk_User_Abort, ''tdk_user_abort''),
     (Tdk_Invalid_Call, ''tdk_invalid_call''),
     (Tdk_Network_User_Abort, ''tdk_network_user_abort''),
     (Tdk_Network_Remote_Closed, ''tdk_network_remote_closed''),
     (Tdk_Epoll_Error, ''tdk_epoll_error''),
     (Tdk_Epoll_Hang_Up, ''tdk_epoll_hang_up''),
     (Tdk_Invalid_Event, ''tdk_invalid_event''),
     (Tdk_Epoll_Hang_Up, ''tdk_epoll_hang_up'')]"

text \<open>The scan stops at an entry with \<open>tdk_errc_end\<close>; past the last entry of the table it
  reads memory that is not the table's (\<open>None\<close>).\<close>

fun scan_table :: "(errc \<times> string) list \<Rightarrow> int \<Rightarrow> string option" where
  "scan_table [] v = None"
| "scan_table ((ec, msg) # tab) v =
     (if ec = Tdk_Errc_End then Some ''undefined''
      else if errc_value ec = v then Some msg
      else scan_table tab v)"

definition tdk_message :: "int \<Rightarrow> string option" where
  "tdk_message v = scan_table tdk_error_tables v"

fun category_message :: "(int \<Rightarrow> string) \<Rightarrow> err_category \<Rightarrow> int \<Rightarrow> string option" where
  "category_message strerror System_Category v = Some (strerror v)"
| "category_message strerror Tdk_Category v = tdk_message v"
| "category_message strerror Platform_Category v = Some (strerror v)"
| "category_message strerror (Decorated deco base) v =
     (case category_message strerror base v of
        None \<Rightarrow> None | Some m \<Rightarrow> Some (''['' @ deco @ ''] '' @ m))"

fun category_name :: "err_category \<Rightarrow> string" where
  "category_name System_Category = ''system''"
| "category_name Tdk_Category = ''tdk_category''"
| "category_name Platform_Category = ''linux_platform_error''"
| "category_name (Decorated deco base) = deco"

section \<open>The last error of a thread\<close>

text \<open>Each thread has a pointer to its \<open>threading::data\<close>, null until it is set; two threads
  may share one object.\<close>

record thread_store =
  ts_data :: "nat \<Rightarrow> nat option"
  ts_error :: "nat \<Rightarrow> error_code"

definition set_data :: "nat \<Rightarrow> nat option \<Rightarrow> thread_store \<Rightarrow> thread_store" where
  "set_data tid d s = s\<lparr>ts_data := (ts_data s)(tid := d)\<rparr>"

definition get_data :: "nat \<Rightarrow> thread_store \<Rightarrow> nat option" where
  "get_data tid s = ts_data s tid"

definition set_last_error :: "nat \<Rightarrow> error_code \<Rightarrow> thread_store \<Rightarrow> thread_store" where
  "set_last_error tid ec s =
     (case get_data tid s of None \<Rightarrow> s | Some td \<Rightarrow> s\<lparr>ts_error := (ts_error s)(td := ec)\<rparr>)"

definition get_last_error :: "nat \<Rightarrow> thread_store \<Rightarrow> error_code" where
  "get_last_error tid s =
     (case get_data tid s of
        None \<Rightarrow> tdk_error Tdk_Tls_Not_Initialized | Some td \<Rightarrow> ts_error s td)"

section \<open>Properties\<close>

lemma errc_value_inj: "errc_value a = errc_value b \<longleftrightarrow> a = b"
  by (cases a; cases b) simp_all

text \<open>\<open>error_category_tdk::message\<close>: the message of a code in the table is its entry; for
  every other value, \<open>tdk_fail\<close> among them, the scan runs off the end of the table, because
  the table has no \<open>tdk_errc_end\<close> entry.\<close>

theorem tdk_message_table:
  "tdk_message (errc_value ec) =
     (if ec \<in> fst ` set tdk_error_tables then map_of tdk_error_tables ec else None) \<and>
   (v \<notin> errc_value ` fst ` set tdk_error_tables \<longrightarrow> tdk_message v = None) \<and>
   tdk_message (errc_value Tdk_Fail) = None"
proof -
  have "tdk_message (errc_value ec) =
     (if ec \<in> fst ` set tdk_error_tables then map_of tdk_error_tables ec else None)"
    by (cases ec) (simp_all add: tdk_message_def tdk_error_tables_def)
  moreover have "scan_table tab v = None" if "v \<notin> errc_value ` fst ` set tab" "Tdk_Errc_End \<notin> fst ` set tab"
    for tab v using that by (induction tab v rule: scan_table.induct) auto
  hence "v \<notin> errc_value ` fst ` set tdk_error_tables \<Longrightarrow> tdk_message v = None"
    unfolding tdk_message_def by (simp add: tdk_error_tables_def)
  moreover have "tdk_message (errc_value Tdk_Fail) = None"
    by (simp add: tdk_message_def tdk_error_tables_def)
  ultimately show ?thesis by blast
qed

text \<open>The last error: a thread that has set its data reads the error it set last, threads
  with different data objects do not disturb each other, and a thread without data drops what it
  sets and always reads \<open>tdk_tls_not_initialized\<close>.\<close>

theorem last_error_per_thread:
  "get_last_error tid (set_last_error tid ec s) =
     (if get_data tid s = None then tdk_error Tdk_Tls_Not_Initialized else ec) \<and>
   (get_data tid s \<noteq> get_data tid' s \<longrightarrow>
      get_last_error tid' (set_last_error tid ec s) = get_last_error tid' s) \<and>
   get_last_error tid (set_last_error tid ec (set_data tid (Some d) s)) = ec"
  by (auto simp: get_last_error_def set_last_error_def get_data_def set_data_def split: option.splits)

lemma tdk_message_table_witness: "tdk_message 0x1002 = Some ''tdk_epoll_error'' \<and> tdk_message 7 = None"
  using tdk_message_table[of Tdk_Epoll_Error 7] by (simp add: tdk_error_tables_def)

lemma last_error_per_thread_witness:
  "get_last_error 2 (set_last_error 1 no_error
     \<lparr>ts_data = (\<lambda>t. if t = 1 then Some 5 else None), ts_error = (\<lambda>d. no_error)\<rparr>) =
   tdk_error Tdk_Tls_Not_Initialized"
  using last_error_per_thread[of 1 no_error
      "\<lparr>ts_data = (\<lambda>t. if t = 1 then Some 5 else None), ts_error = (\<lambda>d. no_error)\<rparr>" 2 5]
  by (simp add: get_data_def get_last_error_def)

end
