(* ===== verification/Tcp_Channel.thy ===== *)
theory Tcp_Channel
  imports Errors "HOL-Library.Monad_Syntax" "HOL-Library.Sublist"
begin

text \<open>
  A TCP channel on Linux (\<open>io/ip/tcp/channel_epoll.cpp\<close>) with the scatter list of
  \<open>io/buffer_adapter.cpp\<close>. The channel counts its references itself and deletes itself; the
  tasks it gives to its loop are listed in the order they are queued (theory \<open>Event_Loop\<close>
  shows that the loop runs them in this order). A message is the bytes between the read and the
  write position of its memory block (theory \<open>Memory_Block\<close>). The kernel and the filters of
  the pipeline are parameters.
\<close>

section \<open>Scatter list\<close>

type_synonym iovec = "u8 list"
type_synonym buffer_adapter = "iovec list"

definition k_buffer_size :: nat where
  "k_buffer_size = 64"

definition ba_new :: buffer_adapter where
  "ba_new = []"

definition ba_of :: "iovec \<Rightarrow> buffer_adapter" where
  "ba_of p = [p]"

definition ba_count :: "buffer_adapter \<Rightarrow> nat" where
  "ba_count b = length b"

definition ba_size :: "buffer_adapter \<Rightarrow> int" where
  "ba_size b = fold (\<lambda>v s. to_i32 (s + int (length v))) b 0"

definition ba_push_back :: "iovec \<Rightarrow> buffer_adapter \<Rightarrow> buffer_adapter \<times> bool" where
  "ba_push_back p b = (if k_buffer_size \<le> ba_count b then (b, False) else (b @ [p], True))"

section \<open>State\<close>

datatype chan_event =
  On_Connected
| On_Accepted nat
| On_Read "u8 list"
| On_Write int bool
| On_Error error_code
| On_Closed

text \<open>What the channel gives to its loop: the three tasks it owns and the one-shot tasks of
  \<open>write\<close> and \<open>continue_read\<close>.\<close>

datatype chan_task =
  Do_Close
| On_Send
| Do_Error_Propagation
| Write_Shot "u8 list"
| Continue_Shot

text \<open>
  \<open>ch_handles\<close> is what the channel has added to the active count of its loop, \<open>ch_interest\<close>
  the events its socket is registered for, \<open>ch_calls\<close> the system calls made, \<open>ch_wire\<close> the
  bytes the kernel has taken, \<open>ch_trace\<close> the callbacks of the pipeline in order.
  \<open>ch_fault\<close> records that the channel was used after it was deleted, \<open>ch_overrun\<close> that the front of an
  empty list was taken, \<open>ch_stale\<close> that the kernel took bytes from a scatter list that still held
  the entries of an earlier \<open>writev\<close>.
\<close>

record channel =
  ch_state :: u32
  ch_queue :: "u8 list list"
  ch_refs :: int
  ch_reg_events :: int
  ch_evt :: int
  ch_send_error :: error_code
  ch_send_bytes :: int
  ch_prop_error :: error_code
  ch_open :: bool
  ch_deleted :: bool
  ch_pending :: "chan_task list"
  ch_handles :: int
  ch_interest :: "int option"
  ch_calls :: nat
  ch_wire :: "u8 list"
  ch_trace :: "chan_event list"
  ch_fault :: bool
  ch_overrun :: bool
  ch_stale :: bool

text \<open>The kernel: what the \<open>n\<close>-th system call of the channel returns. \<open>Failed\<close> carries
  \<open>errno\<close>; a socket option is absent when \<open>getsockopt\<close> fails.\<close>

datatype write_result = Written nat | Write_Failed int
datatype read_result = Received "u8 list" | Read_Failed int

record kernel_io =
  k_writev :: "nat \<Rightarrow> buffer_adapter \<Rightarrow> write_result"
  k_readv :: "nat \<Rightarrow> nat \<Rightarrow> read_result"
  k_register :: "nat \<Rightarrow> int option"
  k_so_error :: "nat \<Rightarrow> int option"

record filters =
  in_bound :: "chan_event \<Rightarrow> channel \<Rightarrow> channel"
  out_bound :: "u8 list \<Rightarrow> channel \<Rightarrow> channel"

definition k_error_bit :: u32 where "k_error_bit = 0x01"
definition k_close_bit :: u32 where "k_close_bit = 0x02"
definition k_read_pending_bit :: u32 where "k_read_pending_bit = 0x04"

definition EAGAIN :: int where "EAGAIN = 11"
definition EPOLL_IN :: int where "EPOLL_IN = 0x001"
definition EPOLL_OUT :: int where "EPOLL_OUT = 0x004"
definition EPOLL_ERR :: int where "EPOLL_ERR = 0x008"
definition EPOLL_HUP :: int where "EPOLL_HUP = 0x010"

definition channel_config :: nat where
  "channel_config = 4096"

definition channel_new :: channel where
  "channel_new =
     \<lparr>ch_state = 0, ch_queue = [], ch_refs = 0, ch_reg_events = 0, ch_evt = 0,
      ch_send_error = no_error, ch_send_bytes = 0, ch_prop_error = no_error, ch_open = True,
      ch_deleted = False, ch_pending = [], ch_handles = 0, ch_interest = None, ch_calls = 0,
      ch_wire = [], ch_trace = [], ch_fault = False, ch_overrun = False, ch_stale = False\<rparr>"

section \<open>References, bits and tasks\<close>

definition touch :: "channel \<Rightarrow> channel" where
  "touch c = c\<lparr>ch_fault := ch_fault c \<or> ch_deleted c\<rparr>"

definition retain :: "channel \<Rightarrow> channel" where
  "retain c = (touch c)\<lparr>ch_refs := ch_refs c + 1\<rparr>"

definition release :: "channel \<Rightarrow> channel" where
  "release c =
     (touch c)\<lparr>ch_refs := ch_refs c - 1, ch_deleted := ch_deleted c \<or> ch_refs c - 1 = 0\<rparr>"

definition is_bits_on :: "u32 \<Rightarrow> channel \<Rightarrow> bool" where
  "is_bits_on b c \<longleftrightarrow> ch_state c AND b \<noteq> 0"

text \<open>\<open>_state.fetch_or( b )\<close>; the test of the old value is the second result.\<close>

definition fetch_or :: "u32 \<Rightarrow> channel \<Rightarrow> channel \<times> bool" where
  "fetch_or b c = (c\<lparr>ch_state := ch_state c OR b\<rparr>, ch_state c AND b \<noteq> 0)"

definition loop_execute :: "chan_task \<Rightarrow> channel \<Rightarrow> channel" where
  "loop_execute t c = c\<lparr>ch_pending := ch_pending c @ [t]\<rparr>"

definition ch_close :: "channel \<Rightarrow> channel" where
  "ch_close c =
     (let (c1, was) = fetch_or k_close_bit (touch c)
      in if was then c1 else loop_execute Do_Close (retain c1))"

definition ch_write :: "u8 list \<Rightarrow> channel \<Rightarrow> channel" where
  "ch_write msg c = loop_execute (Write_Shot msg) (retain c)"

definition pending_read :: "channel \<Rightarrow> channel" where
  "pending_read c = (touch c)\<lparr>ch_state := ch_state c OR k_read_pending_bit\<rparr>"

definition continue_read :: "channel \<Rightarrow> channel" where
  "continue_read c =
     (let old = ch_state c;
          c1 = (touch c)\<lparr>ch_state := old XOR NOT k_read_pending_bit\<rparr>
      in if old AND k_read_pending_bit \<noteq> 0 then loop_execute Continue_Shot (retain c1) else c1)"

definition error_propagation :: "error_code \<Rightarrow> channel \<Rightarrow> channel" where
  "error_propagation err c =
     (let (c1, was) = fetch_or k_error_bit (touch c)
      in if was then c1
         else loop_execute Do_Error_Propagation ((retain c1)\<lparr>ch_prop_error := err\<rparr>))"

definition ch_do_write :: "u8 list \<Rightarrow> channel \<Rightarrow> channel" where
  "ch_do_write msg c =
     (let process = (ch_queue c = []);
          c1 = (touch c)\<lparr>ch_queue := ch_queue c @ [msg]\<rparr>
      in if \<not> process then c1 else loop_execute On_Send (retain c1))"

section \<open>Registration and callbacks\<close>

definition register_handle :: "kernel_io \<Rightarrow> channel \<Rightarrow> channel" where
  "register_handle k c =
     (if is_bits_on (k_error_bit OR k_close_bit) c then c
      else
        let e = (if is_bits_on k_read_pending_bit c then 0 else EPOLL_IN);
            e = (if ch_queue c \<noteq> [] then e OR EPOLL_OUT else e)
        in if ch_reg_events c \<noteq> e then
             (let c1 = c\<lparr>ch_reg_events := e, ch_evt := e, ch_calls := Suc (ch_calls c)\<rparr>
              in case k_register k (ch_calls c) of
                   None \<Rightarrow> c1\<lparr>ch_interest := Some e\<rparr>
                 | Some err \<Rightarrow> error_propagation (epoll_error err) c1)
           else c)"

definition fire :: "filters \<Rightarrow> chan_event \<Rightarrow> channel \<Rightarrow> channel" where
  "fire p e c = in_bound p e (c\<lparr>ch_trace := ch_trace c @ [e]\<rparr>)"

definition loop_add_active :: "channel \<Rightarrow> channel" where
  "loop_add_active c = c\<lparr>ch_handles := ch_handles c + 1\<rparr>"

definition loop_remove_active :: "channel \<Rightarrow> channel" where
  "loop_remove_active c = c\<lparr>ch_handles := ch_handles c - 1\<rparr>"

text \<open>Closing a descriptor drops its registration.\<close>

definition socket_close :: "channel \<Rightarrow> channel" where
  "socket_close c = c\<lparr>ch_open := False, ch_interest := None\<rparr>"

definition fire_on_connected :: "kernel_io \<Rightarrow> filters \<Rightarrow> channel \<Rightarrow> channel" where
  "fire_on_connected k p c = fire p On_Connected (loop_add_active (register_handle k (retain c)))"

definition fire_on_accepted :: "kernel_io \<Rightarrow> filters \<Rightarrow> nat \<Rightarrow> channel \<Rightarrow> channel" where
  "fire_on_accepted k p addr c =
     fire p (On_Accepted addr) (loop_add_active (register_handle k (retain c)))"

definition fire_on_read :: "filters \<Rightarrow> u8 list \<Rightarrow> channel \<Rightarrow> channel" where
  "fire_on_read p msg c = fire p (On_Read msg) c"

definition fire_on_write :: "filters \<Rightarrow> int \<Rightarrow> bool \<Rightarrow> channel \<Rightarrow> channel" where
  "fire_on_write p writed flushed c = fire p (On_Write writed flushed) c"

definition fire_on_error :: "filters \<Rightarrow> error_code \<Rightarrow> channel \<Rightarrow> channel" where
  "fire_on_error p ec c = fire p (On_Error ec) (socket_close c)"

definition fire_on_close :: "filters \<Rightarrow> channel \<Rightarrow> channel" where
  "fire_on_close p c =
     (let (c1, was) = fetch_or k_error_bit (socket_close c);
          c2 = (if was then c1 else fire_on_error p (tdk_error Tdk_User_Abort) c1)
      in release (loop_remove_active (fire p On_Closed c2)))"

definition fire_do_write :: "filters \<Rightarrow> u8 list \<Rightarrow> channel \<Rightarrow> channel" where
  "fire_do_write p msg c =
     (if is_bits_on (k_error_bit OR k_close_bit) c then c else out_bound p msg c)"

text \<open>\<open>_error_propagation\<close>, which calls the pipeline at once.\<close>

definition error_propagation_now :: "filters \<Rightarrow> error_code \<Rightarrow> channel \<Rightarrow> channel" where
  "error_propagation_now p err c =
     (let (c1, was) = fetch_or k_error_bit c in if was then c1 else fire_on_error p err c1)"

section \<open>Reading\<close>

text \<open>A call interrupted by a signal is made again.\<close>

partial_function (option) readv_retry :: "kernel_io \<Rightarrow> nat \<Rightarrow> (read_result \<times> nat) option" where
  "readv_retry k n =
     (case k_readv k n channel_config of
        Received bs \<Rightarrow> Some (Received bs, Suc n)
      | Read_Failed e \<Rightarrow> if e = EINTR then readv_retry k (Suc n) else Some (Read_Failed e, Suc n))"

definition handle_readable :: "kernel_io \<Rightarrow> filters \<Rightarrow> channel \<Rightarrow> channel option" where
  "handle_readable k p c =
     (if is_bits_on (k_error_bit OR k_close_bit OR k_read_pending_bit) c then Some c
      else do {
        (r, n) \<leftarrow> readv_retry k (ch_calls c);
        let c1 = c\<lparr>ch_calls := n\<rparr>;
        Some (case r of
            Read_Failed e \<Rightarrow> error_propagation_now p (platform_error e) c1
          | Received bs \<Rightarrow>
              if bs = [] then error_propagation_now p (tdk_error Tdk_Network_Remote_Closed) c1
              else fire_on_read p bs c1)
      })"

section \<open>Writing\<close>

partial_function (option) writev_retry ::
  "kernel_io \<Rightarrow> buffer_adapter \<Rightarrow> nat \<Rightarrow> (write_result \<times> nat) option" where
  "writev_retry k buf n =
     (case k_writev k n buf of
        Written w \<Rightarrow> Some (Written w, Suc n)
      | Write_Failed e \<Rightarrow> if e = EINTR then writev_retry k buf (Suc n) else Some (Write_Failed e, Suc n))"

text \<open>The messages of the queue are pushed until the adapter is full.\<close>

fun fill_adapter :: "buffer_adapter \<Rightarrow> u8 list list \<Rightarrow> buffer_adapter" where
  "fill_adapter buf [] = buf"
| "fill_adapter buf (m # q) =
     (let (buf', pushed) = ba_push_back m buf in if pushed then fill_adapter buf' q else buf')"

text \<open>The inner loop advances the messages by the size written; \<open>None\<close> is the front of an
  empty queue.\<close>

fun consume :: "u8 list list \<Rightarrow> nat \<Rightarrow> u8 list list option" where
  "consume [] w = (if w = 0 then Some [] else None)"
| "consume (m # q) w =
     (if w = 0 then Some (m # q)
      else if length m \<le> w then consume q (w - length m)
      else Some (drop w m # q))"

text \<open>The adapter \<open>buf\<close> is declared outside the loop and is not emptied between its rounds.\<close>

partial_function (option) send_loop ::
  "kernel_io \<Rightarrow> buffer_adapter \<Rightarrow> int \<Rightarrow> channel \<Rightarrow> (channel \<times> bool) option" where
  "send_loop k buf sent c =
     (if ch_queue c = [] then Some (c\<lparr>ch_send_bytes := sent\<rparr>, True)
      else do {
        (r, n) \<leftarrow> writev_retry k (fill_adapter buf (ch_queue c)) (ch_calls c);
        (case r of
           Write_Failed e \<Rightarrow>
             if e = EAGAIN then Some (c\<lparr>ch_calls := n, ch_send_bytes := sent\<rparr>, True)
             else Some (c\<lparr>ch_calls := n, ch_send_error := platform_error e\<rparr>, False)
         | Written w \<Rightarrow>
             let c1 = c\<lparr>ch_calls := n, ch_wire := ch_wire c @ take w (concat (fill_adapter buf (ch_queue c))),
                        ch_stale := ch_stale c \<or> buf \<noteq> [] \<and> 0 < w\<rparr>
             in case consume (ch_queue c) w of
                  None \<Rightarrow> Some (c1\<lparr>ch_overrun := True\<rparr>, False)
                | Some q \<Rightarrow> send_loop k (fill_adapter buf (ch_queue c)) (to_i32 (sent + int w)) (c1\<lparr>ch_queue := q\<rparr>))
      })"

definition send_remains :: "kernel_io \<Rightarrow> channel \<Rightarrow> (channel \<times> bool) option" where
  "send_remains k c = send_loop k ba_new 0 (c\<lparr>ch_send_error := no_error, ch_send_bytes := 0\<rparr>)"

definition handle_writeable :: "kernel_io \<Rightarrow> filters \<Rightarrow> channel \<Rightarrow> channel option" where
  "handle_writeable k p c =
     (if is_bits_on (k_error_bit OR k_close_bit) c then Some c
      else if ch_queue c = [] then Some c
      else do {
        (c1, ok) \<leftarrow> send_remains k c;
        Some (if is_error (ch_send_error c1) then error_propagation_now p (ch_send_error c1) c1
              else fire_on_write p (ch_send_bytes c1) (ch_queue c1 = []) c1)
      })"

section \<open>Handlers\<close>

definition handle_io_events :: "kernel_io \<Rightarrow> filters \<Rightarrow> int \<Rightarrow> channel \<Rightarrow> channel option" where
  "handle_io_events k p e c0 =
     (let c = touch c0 in
      if is_bits_on (k_error_bit OR k_close_bit) c then Some c
      else if e AND EPOLL_ERR \<noteq> 0 then
        (let c1 = c\<lparr>ch_calls := Suc (ch_calls c)\<rparr>
         in Some (error_propagation_now p
              (case k_so_error k (ch_calls c) of
                 None \<Rightarrow> tdk_error Tdk_Epoll_Error
               | Some v \<Rightarrow> if v \<noteq> 0 then platform_error v else tdk_error Tdk_Epoll_Error) c1))
      else if e AND EPOLL_HUP \<noteq> 0 then
        Some (error_propagation_now p (tdk_error Tdk_Epoll_Hang_Up) c)
      else do {
        c1 \<leftarrow> (if e AND EPOLL_IN \<noteq> 0 then handle_readable k p c else Some c);
        c2 \<leftarrow> (if e AND EPOLL_OUT \<noteq> 0 then handle_writeable k p c1 else Some c1);
        Some (register_handle k c2)
      })"

text \<open>The poller has written the events it reports to the task of the channel.\<close>

definition on_io_events :: "kernel_io \<Rightarrow> filters \<Rightarrow> int \<Rightarrow> channel \<Rightarrow> channel option" where
  "on_io_events k p e c = (let c1 = c\<lparr>ch_evt := e\<rparr> in handle_io_events k p (ch_evt c1) c1)"

definition handle_send :: "kernel_io \<Rightarrow> filters \<Rightarrow> channel \<Rightarrow> channel option" where
  "handle_send k p c = do { c1 \<leftarrow> handle_io_events k p EPOLL_OUT c; Some (release c1) }"

definition handle_close :: "filters \<Rightarrow> channel \<Rightarrow> channel" where
  "handle_close p c = release (fire_on_close p (touch c))"

definition handle_error_propagation :: "filters \<Rightarrow> channel \<Rightarrow> channel" where
  "handle_error_propagation p c = release (fire_on_error p (ch_prop_error c) (touch c))"

definition handle_write_shot :: "filters \<Rightarrow> u8 list \<Rightarrow> channel \<Rightarrow> channel" where
  "handle_write_shot p msg c = release (fire_do_write p msg (touch c))"

definition handle_continue_shot :: "kernel_io \<Rightarrow> channel \<Rightarrow> channel" where
  "handle_continue_shot k c = release (register_handle k (touch c))"

text \<open>The loop takes the next task of the channel and calls it.\<close>

fun chan_call :: "kernel_io \<Rightarrow> filters \<Rightarrow> chan_task \<Rightarrow> channel \<Rightarrow> channel option" where
  "chan_call k p Do_Close c = Some (handle_close p c)"
| "chan_call k p On_Send c = handle_send k p c"
| "chan_call k p Do_Error_Propagation c = Some (handle_error_propagation p c)"
| "chan_call k p (Write_Shot m) c = Some (handle_write_shot p m c)"
| "chan_call k p Continue_Shot c = Some (handle_continue_shot k c)"

definition chan_run_next :: "kernel_io \<Rightarrow> filters \<Rightarrow> channel \<Rightarrow> channel option" where
  "chan_run_next k p c =
     (case ch_pending c of [] \<Rightarrow> Some c | t # ts \<Rightarrow> chan_call k p t (c\<lparr>ch_pending := ts\<rparr>))"

section \<open>State bits\<close>

abbreviation has_error :: "channel \<Rightarrow> bool" where "has_error c \<equiv> bit (ch_state c) 0"
abbreviation has_close :: "channel \<Rightarrow> bool" where "has_close c \<equiv> bit (ch_state c) 1"
abbreviation read_pending :: "channel \<Rightarrow> bool" where "read_pending c \<equiv> bit (ch_state c) 2"

lemma and_bit:
  fixes x :: u32
  shows "x AND 1 \<noteq> 0 \<longleftrightarrow> bit x 0" "x AND 2 \<noteq> 0 \<longleftrightarrow> bit x 1" "x AND 4 \<noteq> 0 \<longleftrightarrow> bit x 2"
  using and_exp_eq_0_iff_not_bit[of x 0] and_exp_eq_0_iff_not_bit[of x 1] and_exp_eq_0_iff_not_bit[of x 2]
  by simp_all

lemma and_or_bits:
  fixes x :: u32
  shows "x AND (a OR b) \<noteq> 0 \<longleftrightarrow> x AND a \<noteq> 0 \<or> x AND b \<noteq> 0"
  by (simp add: bit.conj_disj_distrib) (metis or_eq_0_iff)

lemma is_bits:
  "is_bits_on k_error_bit c = has_error c" "is_bits_on k_close_bit c = has_close c"
  "is_bits_on k_read_pending_bit c = read_pending c"
  "is_bits_on (k_error_bit OR k_close_bit) c = (has_error c \<or> has_close c)"
  "is_bits_on (k_error_bit OR k_close_bit OR k_read_pending_bit) c = (has_error c \<or> has_close c \<or> read_pending c)"
  unfolding is_bits_on_def and_or_bits by (simp_all add: k_error_bit_def k_close_bit_def k_read_pending_bit_def and_bit)

lemma or_bits:
  fixes x :: u32
  shows "bit (x OR k_error_bit) 0" "bit (x OR k_error_bit) 1 = bit x 1" "bit (x OR k_error_bit) 2 = bit x 2"
    "bit (x OR k_close_bit) 1" "bit (x OR k_close_bit) 0 = bit x 0" "bit (x OR k_close_bit) 2 = bit x 2"
    "bit (x OR k_read_pending_bit) 0 = bit x 0" "bit (x OR k_read_pending_bit) 1 = bit x 1"
    "bit (x OR k_read_pending_bit) 2"
  by (simp_all add: k_error_bit_def k_close_bit_def k_read_pending_bit_def bit_or_iff bit_numeral_rec bit_1_iff
      flip: numeral_2_eq_2)

lemma fetch_or_bits:
  "snd (fetch_or k_error_bit c) = has_error c" "snd (fetch_or k_close_bit c) = has_close c"
  "fst (fetch_or b c) = c\<lparr>ch_state := ch_state c OR b\<rparr>"
  by (simp_all add: fetch_or_def k_error_bit_def k_close_bit_def and_bit)

section \<open>The bytes on the wire\<close>

lemma consume_exact:
  "w \<le> length (concat q) \<Longrightarrow> \<exists>q'. consume q w = Some q' \<and> concat q' = drop w (concat q)"
  by (induction q w rule: consume.induct) auto

lemma consume_all: "[] \<notin> set q \<Longrightarrow> consume q (length (concat q)) = Some []"
  by (induction q) auto

lemma fill_adapter_take:
  "length buf \<le> k_buffer_size \<Longrightarrow> fill_adapter buf q = buf @ take (k_buffer_size - length buf) q"
proof (induction buf q rule: fill_adapter.induct)
  case (2 buf m q)
  show ?case
  proof (cases "k_buffer_size \<le> length buf")
    case True
    thus ?thesis by (simp add: ba_push_back_def ba_count_def)
  next
    case False
    hence "take (k_buffer_size - length buf) (m # q) = m # take (k_buffer_size - Suc (length buf)) q"
      by (simp add: take_Cons')
    thus ?thesis using 2 False by (simp add: ba_push_back_def ba_count_def)
  qed
qed simp

text \<open>What \<open>writev\<close> promises: it takes no more than it is given.\<close>

definition writev_ok :: "kernel_io \<Rightarrow> bool" where
  "writev_ok k \<longleftrightarrow> (\<forall>n buf w. k_writev k n buf = Written w \<longrightarrow> w \<le> length (concat buf))"

lemma writev_retry_ok:
  assumes "writev_ok k"
  shows "writev_retry k buf n = Some (Written w, n') \<Longrightarrow> w \<le> length (concat buf)"
proof -
  have "k' = k \<and> buf' = buf \<and> fst r = Written w \<longrightarrow> w \<le> length (concat buf)"
    if "writev_retry k' buf' n = Some r" for k' buf' n r
  proof (rule writev_retry.raw_induct[where P = "\<lambda>k' buf' n r. k' = k \<and> buf' = buf \<and> fst r = Written w \<longrightarrow>
      w \<le> length (concat buf)", OF _ that], intro impI)
    fix f :: "kernel_io \<Rightarrow> buffer_adapter \<Rightarrow> nat \<Rightarrow> (write_result \<times> nat) option" and k' buf' n r
    assume ih: "\<And>k' buf' n r. f k' buf' n = Some r \<Longrightarrow> k' = k \<and> buf' = buf \<and> fst r = Written w \<longrightarrow> w \<le> length (concat buf)"
      and r: "(case k_writev k' n buf' of
        Written w \<Rightarrow> Some (Written w, Suc n)
      | Write_Failed e \<Rightarrow> if e = EINTR then f k' buf' (Suc n) else Some (Write_Failed e, Suc n)) = Some r"
      and e: "k' = k \<and> buf' = buf \<and> fst r = Written w"
    show "w \<le> length (concat buf)"
      using r e ih[of k' buf' "Suc n" r] assms unfolding writev_ok_def by (auto split: write_result.splits if_splits)
  qed
  thus "writev_retry k buf n = Some (Written w, n') \<Longrightarrow> w \<le> length (concat buf)" by fastforce
qed

text \<open>The rounds of the loop, as an induction: what holds of a round that stops and is kept by one that
  goes on holds of the loop.\<close>

lemma send_loop_rounds:
  assumes r: "send_loop k buf sent c = Some r"
    and stop: "\<And>buf c d b. (d = c \<or> (\<exists>n. d = c\<lparr>ch_calls := n\<rparr>) \<or> (\<exists>n e. d = c\<lparr>ch_calls := n, ch_send_error := e\<rparr>)) \<Longrightarrow>
        P buf c (d, b) \<and> (\<forall>x. P buf c (d\<lparr>ch_send_bytes := x\<rparr>, b))"
    and over: "\<And>buf c w n n'. writev_retry k (fill_adapter buf (ch_queue c)) n' = Some (Written w, n) \<Longrightarrow> ch_queue c \<noteq> [] \<Longrightarrow>
        consume (ch_queue c) w = None \<Longrightarrow>
        P buf c (c\<lparr>ch_calls := n, ch_wire := ch_wire c @ take w (concat (fill_adapter buf (ch_queue c))),
           ch_stale := ch_stale c \<or> buf \<noteq> [] \<and> 0 < w, ch_overrun := True\<rparr>, False)"
    and go: "\<And>buf c w n n' q r. writev_retry k (fill_adapter buf (ch_queue c)) n' = Some (Written w, n) \<Longrightarrow> ch_queue c \<noteq> [] \<Longrightarrow>
        consume (ch_queue c) w = Some q \<Longrightarrow>
        P (fill_adapter buf (ch_queue c)) (c\<lparr>ch_calls := n, ch_wire := ch_wire c @ take w (concat (fill_adapter buf (ch_queue c))),
           ch_stale := ch_stale c \<or> buf \<noteq> [] \<and> 0 < w, ch_queue := q\<rparr>) r \<Longrightarrow> P buf c r"
  shows "P buf c r"
proof -
  have "k' = k \<longrightarrow> P buf c r" if "send_loop k' buf sent c = Some r" for k' buf sent c r
  proof (rule send_loop.raw_induct[where P = "\<lambda>k' buf sent c r. k' = k \<longrightarrow> P buf c r", OF _ that], intro impI)
    fix f :: "kernel_io \<Rightarrow> buffer_adapter \<Rightarrow> int \<Rightarrow> channel \<Rightarrow> (channel \<times> bool) option" and k' buf sent c r
    assume ih: "\<And>k' buf sent c r. f k' buf sent c = Some r \<Longrightarrow> k' = k \<longrightarrow> P buf c r" and k': "k' = k"
      and r: "(if ch_queue c = [] then Some (c\<lparr>ch_send_bytes := sent\<rparr>, True)
       else do {
        (r, n) \<leftarrow> writev_retry k' (fill_adapter buf (ch_queue c)) (ch_calls c);
        (case r of
           Write_Failed e \<Rightarrow>
             if e = EAGAIN then Some (c\<lparr>ch_calls := n, ch_send_bytes := sent\<rparr>, True)
             else Some (c\<lparr>ch_calls := n, ch_send_error := platform_error e\<rparr>, False)
         | Written w \<Rightarrow>
             let c1 = c\<lparr>ch_calls := n, ch_wire := ch_wire c @ take w (concat (fill_adapter buf (ch_queue c))),
                        ch_stale := ch_stale c \<or> buf \<noteq> [] \<and> 0 < w\<rparr>
             in case consume (ch_queue c) w of
                  None \<Rightarrow> Some (c1\<lparr>ch_overrun := True\<rparr>, False)
                | Some q \<Rightarrow> f k' (fill_adapter buf (ch_queue c)) (to_i32 (sent + int w)) (c1\<lparr>ch_queue := q\<rparr>))
      }) = Some r"
    show "P buf c r"
    proof (cases "ch_queue c = []")
      case True
      thus ?thesis using r stop[of c c buf True] by auto
    next
      case False
      obtain res n where w: "writev_retry k (fill_adapter buf (ch_queue c)) (ch_calls c) = Some (res, n)"
        using r False k' by (auto simp: bind_eq_Some_conv)
      show ?thesis
      proof (cases res)
        case (Write_Failed e)
        thus ?thesis
          using r w False k' stop[of "c\<lparr>ch_calls := n\<rparr>" c buf True] stop[of "c\<lparr>ch_calls := n, ch_send_error := platform_error e\<rparr>" c buf False]
          by (auto split: if_splits)
      next
        case (Written x)
        show ?thesis
        proof (cases "consume (ch_queue c) x")
          case None
          thus ?thesis using r w False Written k' over[of buf c "ch_calls c" x n] by (simp add: Let_def)
        next
          case (Some q)
          have "f k' (fill_adapter buf (ch_queue c)) (to_i32 (sent + int x))
              (c\<lparr>ch_calls := n, ch_wire := ch_wire c @ take x (concat (fill_adapter buf (ch_queue c))),
                 ch_stale := ch_stale c \<or> buf \<noteq> [] \<and> 0 < x, ch_queue := q\<rparr>) = Some r"
            using r w False Written Some k' by (simp add: Let_def)
          from go[OF w[unfolded Written] False Some] ih[OF this] k' show ?thesis by blast
        qed
      qed
    qed
  qed
  thus ?thesis using r by blast
qed

lemma fill_adapter_prefix: "prefix buf (fill_adapter buf q)"
proof (induction buf q rule: fill_adapter.induct)
  case (2 buf m q)
  show ?case
  proof (cases "k_buffer_size \<le> ba_count buf")
    case False
    hence "prefix (buf @ [m]) (fill_adapter (buf @ [m]) q)" using 2 by (simp add: ba_push_back_def)
    thus ?thesis using False by (auto simp: ba_push_back_def dest: append_prefixD)
  qed (simp add: ba_push_back_def)
qed simp

lemma fill_adapter_new: "fill_adapter [] q = take k_buffer_size q"
  using fill_adapter_take[of "[]" q] by simp

text \<open>A loop that starts with entries in its list either moves no byte, or takes the first of them again.\<close>

definition repeats :: "buffer_adapter \<Rightarrow> channel \<Rightarrow> channel \<Rightarrow> bool" where
  "repeats buf c c' \<longleftrightarrow> (\<exists>a v rest. prefix buf a \<and> 0 < v \<and> ch_wire c' = ch_wire c @ take v (concat a) @ rest)"

lemma send_loop_wire: "send_loop k buf sent c = Some (c', ok) \<Longrightarrow> prefix (ch_wire c) (ch_wire c') \<and> (ch_stale c \<longrightarrow> ch_stale c')"
  by (drule send_loop_rounds[where P = "\<lambda>buf c r. prefix (ch_wire c) (ch_wire (fst r)) \<and> (ch_stale c \<longrightarrow> ch_stale (fst r))"])
    (auto dest: append_prefixD)

lemma consume_0: "consume q 0 = Some q"
  by (cases q) auto

lemma send_loop_stale:
  assumes "send_loop k buf sent c = Some (c', ok)" "buf \<noteq> []" "\<not> ch_stale c"
  shows "if ch_stale c' then repeats buf c c'
    else ch_wire c' = ch_wire c \<and> ch_queue c' = ch_queue c \<and> ch_overrun c' = ch_overrun c"
proof -
  define P where "P buf c r \<longleftrightarrow>
      prefix (ch_wire c) (ch_wire (fst r)) \<and> (ch_stale c \<longrightarrow> ch_stale (fst r)) \<and>
      (buf \<noteq> [] \<longrightarrow> \<not> ch_stale c \<longrightarrow> (if ch_stale (fst r) then repeats buf c (fst r)
        else ch_wire (fst r) = ch_wire c \<and> ch_queue (fst r) = ch_queue c \<and> ch_overrun (fst r) = ch_overrun c))"
    for buf and c :: channel and r :: "channel \<times> bool"
  have "P buf c (c', ok)"
  proof (rule send_loop_rounds[OF assms(1)])
    fix buf w n n' and c :: channel assume "consume (ch_queue c) w = None"
    hence "0 < w" using consume_0[of "ch_queue c"] by (cases w) auto
    thus "P buf c (c\<lparr>ch_calls := n, ch_wire := ch_wire c @ take w (concat (fill_adapter buf (ch_queue c))),
           ch_stale := ch_stale c \<or> buf \<noteq> [] \<and> 0 < w, ch_overrun := True\<rparr>, False)"
      using fill_adapter_prefix[of buf "ch_queue c"] unfolding P_def repeats_def by fastforce
  next
    fix buf w n n' q and c :: channel and r :: "channel \<times> bool"
    let ?b = "fill_adapter buf (ch_queue c)"
    let ?c = "c\<lparr>ch_calls := n, ch_wire := ch_wire c @ take w (concat ?b), ch_stale := ch_stale c \<or> buf \<noteq> [] \<and> 0 < w, ch_queue := q\<rparr>"
    assume q: "consume (ch_queue c) w = Some q" and ih: "P ?b ?c r"
    have pre: "prefix buf ?b" by (rule fill_adapter_prefix)
    show "P buf c r"
    proof (cases "w = 0")
      case True
      hence "q = ch_queue c" using q consume_0 by simp
      thus ?thesis using ih True pre unfolding P_def repeats_def by (auto split: if_splits dest: prefix_order.trans)
    next
      case False
      have "prefix (ch_wire c @ take w (concat ?b)) (ch_wire (fst r))" using ih by (simp add: P_def)
      then obtain rest where "ch_wire (fst r) = ch_wire c @ take w (concat ?b) @ rest" by (auto simp: prefix_def)
      hence "repeats buf c (fst r)" using pre False unfolding repeats_def by blast
      moreover have "prefix (ch_wire c) (ch_wire (fst r))" using \<open>ch_wire (fst r) = _\<close> by simp
      ultimately show ?thesis using ih False unfolding P_def by auto
    qed
  qed (auto simp: P_def)
  thus ?thesis using assms unfolding P_def by (cases "ch_stale c'") simp_all
qed

lemma send_loop_overrun:
  assumes k: "writev_ok k" and r: "send_loop k buf sent c = Some (c', ok)" and o: "ch_overrun c \<longrightarrow> ch_stale c"
  shows "ch_overrun c' \<longrightarrow> ch_stale c'"
proof -
  have "(ch_overrun c \<longrightarrow> ch_stale c) \<longrightarrow> (ch_overrun (fst (c', ok)) \<longrightarrow> ch_stale (fst (c', ok)))"
  proof (rule send_loop_rounds[OF r, where P = "\<lambda>buf c r. (ch_overrun c \<longrightarrow> ch_stale c) \<longrightarrow> ch_overrun (fst r) \<longrightarrow> ch_stale (fst r)"])
    fix buf w n n' and c :: channel assume w: "writev_retry k (fill_adapter buf (ch_queue c)) n' = Some (Written w, n)" "consume (ch_queue c) w = None"
    have "0 < w" using w(2) consume_0[of "ch_queue c"] by (cases w) auto
    moreover have "buf \<noteq> []"
    proof
      assume "buf = []"
      hence "w \<le> length (concat (take k_buffer_size (ch_queue c)))"
        using writev_retry_ok[OF k w(1)] by (simp add: fill_adapter_new)
      also have "\<dots> \<le> length (concat (ch_queue c))" by (metis append_take_drop_id concat_append le_add1 length_append)
      finally show False using consume_exact w(2) by fastforce
    qed
    ultimately show "(ch_overrun c \<longrightarrow> ch_stale c) \<longrightarrow>
        ch_overrun (fst (c\<lparr>ch_calls := n, ch_wire := ch_wire c @ take w (concat (fill_adapter buf (ch_queue c))),
           ch_stale := ch_stale c \<or> buf \<noteq> [] \<and> 0 < w, ch_overrun := True\<rparr>, False)) \<longrightarrow>
        ch_stale (fst (c\<lparr>ch_calls := n, ch_wire := ch_wire c @ take w (concat (fill_adapter buf (ch_queue c))),
           ch_stale := ch_stale c \<or> buf \<noteq> [] \<and> 0 < w, ch_overrun := True\<rparr>, False))" by simp
  qed auto
  thus ?thesis using o by simp
qed


text \<open>A kernel for the witness: the first write takes two bytes, every other one would block.\<close>

definition short_kernel :: kernel_io where
  "short_kernel =
     \<lparr>k_writev = (\<lambda>n buf. if n = 0 \<and> 2 \<le> length (concat buf) then Written 2 else Write_Failed EAGAIN),
      k_readv = (\<lambda>n m. Read_Failed EAGAIN), k_register = (\<lambda>n. None), k_so_error = (\<lambda>n. None)\<rparr>"

lemma short_kernel_ok: "writev_ok short_kernel"
  by (auto simp: writev_ok_def short_kernel_def split: if_splits)


lemma fill_two: "fill_adapter [a] [b] = [a, b]" "fill_adapter [] [a] = [a]"
  by (simp_all add: ba_push_back_def k_buffer_size_def ba_count_def)

text \<open>The stale adapter corrupts the stream: when the kernel takes only \<open>i\<close> bytes of a message
  and has room again at once, the next write sends the message from its start. When that write
  takes as many bytes as are left, the queue is empty, the channel reports every byte of the
  message written, and the peer has received its first \<open>i\<close> bytes and then its first
  \<open>length m - i\<close> bytes.\<close>

theorem send_remains_repeats:
  assumes "ch_queue c = [m]" "0 < i" "i < length m"
    "\<And>buf. k_writev k (ch_calls c) buf = Written i"
    "\<And>buf. k_writev k (Suc (ch_calls c)) buf = Written (length m - i)"
  shows "\<exists>c'. send_remains k c = Some (c', True) \<and> ch_queue c' = [] \<and> ch_stale c' \<and>
    ch_send_bytes c' = to_i32 (int (length m)) \<and>
    ch_wire c' = ch_wire c @ take i m @ take (length m - i) m"
proof -
  have r: "writev_retry k buf (ch_calls c) = Some (Written i, Suc (ch_calls c))"
    "writev_retry k buf (Suc (ch_calls c)) = Some (Written (length m - i), Suc (Suc (ch_calls c)))" for buf
    using assms(4,5) by (simp_all add: writev_retry.simps)
  have t: "to_i32 (to_i32 (int i) + int (length m - i)) = to_i32 (int (length m))"
    using assms(3) by (simp add: of_nat_diff)
  show ?thesis
    unfolding send_remains_def
    apply (subst send_loop.simps)
    apply (simp add: assms(1) r(1) fill_two ba_new_def)
    apply (insert assms(2,3))
    apply (simp add: not_le)
    apply (subst send_loop.simps)
    apply (simp add: r(2) fill_two)
    apply (subst send_loop.simps)
    apply (simp add: t ba_push_back_def k_buffer_size_def ba_count_def)
    done
qed


lemma send_remains_repeats_witness:
  "\<exists>c'. send_remains (short_kernel\<lparr>k_writev := (\<lambda>n buf. Written (if n = 0 then 2 else 1))\<rparr>)
      (channel_new\<lparr>ch_queue := [[7, 8, 9]]\<rparr>) = Some (c', True) \<and> ch_wire c' = [7, 8, 7]"
  using send_remains_repeats[of "channel_new\<lparr>ch_queue := [[7, 8, 9]]\<rparr>" "[7, 8, 9]" 2
      "short_kernel\<lparr>k_writev := (\<lambda>n buf. Written (if n = 0 then 2 else 1))\<rparr>"]
  by (auto simp: channel_new_def)

text \<open>An empty message at the head of the queue stops the loop for good: the kernel writes
  nothing, the queue does not shrink, and \<open>_send_remains\<close> never returns.\<close>

theorem empty_message_hangs:
  assumes "ch_queue c = [[]]" "\<And>n buf. concat buf = [] \<Longrightarrow> k_writev k n buf = Written 0"
  shows "send_remains k c = None"
proof -
  have "k' = k \<and> concat buf = [] \<and> ch_queue c' = [[]] \<longrightarrow> False"
    if "send_loop k' buf sent c' = Some r" for k' buf sent c' r
  proof (rule send_loop.raw_induct[where P = "\<lambda>k' buf sent c' r. k' = k \<and> concat buf = [] \<and>
      ch_queue c' = [[]] \<longrightarrow> False", OF _ that], intro impI)
    fix f :: "kernel_io \<Rightarrow> buffer_adapter \<Rightarrow> int \<Rightarrow> channel \<Rightarrow> (channel \<times> bool) option" and k' buf sent c' r
    assume ih: "\<And>k' buf sent c' r. f k' buf sent c' = Some r \<Longrightarrow> k' = k \<and> concat buf = [] \<and> ch_queue c' = [[]] \<longrightarrow> False"
      and r: "(if ch_queue c' = [] then Some (c'\<lparr>ch_send_bytes := sent\<rparr>, True)
       else do {
        (r, n) \<leftarrow> writev_retry k' (fill_adapter buf (ch_queue c')) (ch_calls c');
        (case r of
           Write_Failed e \<Rightarrow>
             if e = EAGAIN then Some (c'\<lparr>ch_calls := n, ch_send_bytes := sent\<rparr>, True)
             else Some (c'\<lparr>ch_calls := n, ch_send_error := platform_error e\<rparr>, False)
         | Written w \<Rightarrow>
             let c1 = c'\<lparr>ch_calls := n, ch_wire := ch_wire c' @ take w (concat (fill_adapter buf (ch_queue c'))),
                        ch_stale := ch_stale c' \<or> buf \<noteq> [] \<and> 0 < w\<rparr>
             in case consume (ch_queue c') w of
                  None \<Rightarrow> Some (c1\<lparr>ch_overrun := True\<rparr>, False)
                | Some q \<Rightarrow> f k' (fill_adapter buf (ch_queue c')) (to_i32 (sent + int w)) (c1\<lparr>ch_queue := q\<rparr>))
      }) = Some r"
      and e: "k' = k \<and> concat buf = [] \<and> ch_queue c' = [[]]"
    let ?buf = "fill_adapter buf [[]]"
    have "?buf = buf \<or> ?buf = buf @ [[]]" by (simp add: ba_push_back_def)
    hence b: "concat ?buf = []"
    proof
      assume "?buf = buf"
      thus ?thesis using e by (simp only:)
    next
      assume "?buf = buf @ [[]]"
      thus ?thesis using e by (simp only: concat_append) simp
    qed
    hence "writev_retry k ?buf (ch_calls c') = Some (Written 0, Suc (ch_calls c'))"
      using assms(2) by (subst writev_retry.simps) simp
    hence "f k ?buf (to_i32 (sent + 0)) (c'\<lparr>ch_calls := Suc (ch_calls c'), ch_wire := ch_wire c' @ [], ch_stale := ch_stale c',
             ch_queue := [[]]\<rparr>) = Some r"
      using r e b by (simp add: Let_def)
    thus False by (rule ih[THEN mp]) (intro conjI refl b, simp)
  qed
  from this[of k ba_new 0 "c\<lparr>ch_send_error := no_error, ch_send_bytes := 0\<rparr>"] assms(1)
  show ?thesis unfolding send_remains_def by (cases "send_loop k ba_new 0
      (c\<lparr>ch_send_error := no_error, ch_send_bytes := 0\<rparr>)") (auto simp: ba_new_def)
qed

lemma empty_message_hangs_witness:
  "send_remains (short_kernel\<lparr>k_writev := (\<lambda>n buf. Written (length (concat buf)))\<rparr>)
     (channel_new\<lparr>ch_queue := [[]]\<rparr>) = None"
  by (rule empty_message_hangs) (simp_all add: short_kernel_def)

section \<open>The life of a channel\<close>

definition errors_seen :: "channel \<Rightarrow> nat" where
  "errors_seen c = length (filter (\<lambda>e. case e of On_Error _ \<Rightarrow> True | _ \<Rightarrow> False) (ch_trace c))"

definition closes_seen :: "channel \<Rightarrow> nat" where
  "closes_seen c = count_list (ch_trace c) On_Closed"

definition closes_made :: "nat \<Rightarrow> channel \<Rightarrow> nat" where
  "closes_made z c = closes_seen c + z + count_list (ch_pending c) Do_Close"

definition errors_made :: "nat \<Rightarrow> channel \<Rightarrow> nat" where
  "errors_made y c = errors_seen c + y + count_list (ch_pending c) Do_Error_Propagation"

text \<open>\<open>continue_read\<close> flips all bits but the one it means (\<open>continue_read_kills\<close>): on a channel on
  which no error and no close was made it sets the bits of both, and a second call clears them.\<close>

definition frozen :: "nat \<Rightarrow> nat \<Rightarrow> channel \<Rightarrow> bool" where
  "frozen z y c \<longleftrightarrow> closes_made z c = 0 \<and> errors_made y c = 0 \<and> (has_close c \<or> has_error c)"

text \<open>
  The invariant of a connected channel, while handlers that hold \<open>r\<close> references run; \<open>z\<close> and \<open>y\<close>
  are 1 while \<open>_do_close\<close> and \<open>_do_error_propagation\<close> have been taken from the queue but
  have not yet called the pipeline, \<open>w\<close> is 1 between \<open>on_closed\<close> and the end of the
  active handle.
\<close>

definition chan_inv :: "nat \<Rightarrow> nat \<Rightarrow> nat \<Rightarrow> nat \<Rightarrow> channel \<Rightarrow> bool" where
  "chan_inv r z y w c \<longleftrightarrow>
     \<not> ch_fault c \<and>
     ch_refs c = ch_handles c + int (length (ch_pending c) + r) \<and>
     ch_deleted c = (ch_refs c = 0) \<and>
     ch_handles c = 1 - int (closes_seen c) + int w \<and> w \<le> closes_seen c \<and>
     (if frozen z y c then has_close c \<and> has_error c
      else closes_made z c = of_bool (has_close c) \<and> errors_made y c = of_bool (has_error c)) \<and>
     (ch_interest c \<noteq> None \<longrightarrow> closes_seen c = 0) \<and> (ch_overrun c \<longrightarrow> ch_stale c)"

text \<open>What filters, the user and other threads do with a channel. \<open>continue_read\<close> is called as long as
  no error and no close was made; after one it clears the bit that stands for it, so that a second
  close is possible (\<open>continue_read_closes_twice\<close>).\<close>

definition unended :: "channel \<Rightarrow> bool" where
  "unended c \<longleftrightarrow> closes_made 0 c = 0 \<and> errors_made 0 c = 0"

inductive chan_api :: "channel \<Rightarrow> channel \<Rightarrow> bool" where
  api_close: "chan_api c (ch_close c)"
| api_write: "chan_api c (ch_write m c)"
| api_pending_read: "chan_api c (pending_read c)"
| api_error: "chan_api c (error_propagation e c)"
| api_do_write: "chan_api c (ch_do_write m c)"
| api_continue_read: "unended c \<Longrightarrow> chan_api c (continue_read c)"

definition filters_ok :: "filters \<Rightarrow> bool" where
  "filters_ok p \<longleftrightarrow> (\<forall>e c. chan_api\<^sup>*\<^sup>* c (in_bound p e c)) \<and> (\<forall>m c. chan_api\<^sup>*\<^sup>* c (out_bound p m c))"

lemmas chan_ops = ch_close_def ch_write_def pending_read_def error_propagation_def ch_do_write_def
  retain_def touch_def loop_execute_def Let_def split_beta fetch_or_bits or_bits or_bits[unfolded One_nat_def]

lemma continue_bits:
  "has_error (continue_read c) = (\<not> has_error c)" "has_close (continue_read c) = (\<not> has_close c)"
  "read_pending (continue_read c) = read_pending c"
proof -
  have st: "ch_state (continue_read c) = ch_state c XOR NOT k_read_pending_bit"
    by (simp add: continue_read_def Let_def loop_execute_def retain_def touch_def)
  show "has_error (continue_read c) = (\<not> has_error c)" "has_close (continue_read c) = (\<not> has_close c)"
    "read_pending (continue_read c) = read_pending c"
    unfolding st by (simp_all add: bit_xor_iff bit_not_iff k_read_pending_bit_def bit_numeral_rec flip: numeral_2_eq_2)
qed

lemma seen_upd [simp]:
  "closes_seen (c\<lparr>ch_state := x\<rparr>) = closes_seen c" "errors_seen (c\<lparr>ch_state := x\<rparr>) = errors_seen c"
  "closes_seen (c\<lparr>ch_refs := i\<rparr>) = closes_seen c" "errors_seen (c\<lparr>ch_refs := i\<rparr>) = errors_seen c"
  "closes_seen (c\<lparr>ch_pending := p\<rparr>) = closes_seen c" "errors_seen (c\<lparr>ch_pending := p\<rparr>) = errors_seen c"
  "closes_seen (c\<lparr>ch_prop_error := e\<rparr>) = closes_seen c" "errors_seen (c\<lparr>ch_prop_error := e\<rparr>) = errors_seen c"
  by (simp_all add: closes_seen_def errors_seen_def)

lemmas inv_defs = chan_inv_def frozen_def closes_made_def errors_made_def errors_seen_def closes_seen_def

text \<open>A handler that was given a task of the channel has not yet called the pipeline only when it is
  about to do so: while filters run, what was taken from the queue was seen.\<close>

definition settled :: "nat \<Rightarrow> nat \<Rightarrow> channel \<Rightarrow> bool" where
  "settled z y c \<longleftrightarrow> z = 0 \<and> y = 0 \<or> 0 < closes_seen c + errors_seen c"

lemma continue_read_inv:
  assumes u: "unended c" "settled z y c" and i: "chan_inv r z y w c" "0 < ch_refs c"
  shows "chan_inv r z y w (continue_read c) \<and> 0 < ch_refs (continue_read c)"
proof -
  have zy: "z = 0" "y = 0" using u by (auto simp: unended_def settled_def closes_made_def errors_made_def)
  have b: "has_close c = has_error c"
    using i(1) u(1) zy by (auto simp: chan_inv_def unended_def frozen_def split: if_splits)
  have p: "ch_pending (continue_read c) = ch_pending c @ (if read_pending c then [Continue_Shot] else [])"
    "ch_trace (continue_read c) = ch_trace c" "ch_interest (continue_read c) = ch_interest c"
    "ch_refs (continue_read c) = ch_refs c + of_bool (read_pending c)" "ch_deleted (continue_read c) = ch_deleted c"
    "ch_handles (continue_read c) = ch_handles c" "ch_overrun (continue_read c) = ch_overrun c"
    "ch_stale (continue_read c) = ch_stale c" "ch_fault (continue_read c) = (ch_fault c \<or> ch_deleted c)"
    by (auto simp: continue_read_def Let_def loop_execute_def retain_def touch_def k_read_pending_bit_def and_bit)
  have s: "closes_seen (continue_read c) = closes_seen c" "errors_seen (continue_read c) = errors_seen c"
    using p(2) by (simp_all add: closes_seen_def errors_seen_def)
  have m: "closes_made z (continue_read c) = 0" "errors_made y (continue_read c) = 0"
    using u(1) zy p(1) s by (auto simp: unended_def closes_made_def errors_made_def count_list_append)
  show ?thesis
    using i u(1) zy b p s m continue_bits[of c] by (auto simp: chan_inv_def frozen_def unended_def)
qed

lemma touch_inv: "chan_inv r z y w c \<Longrightarrow> 0 < ch_refs c \<Longrightarrow> touch c = c"
  by (cases c) (auto simp: chan_inv_def touch_def)

lemma bit_close: "bit k_close_bit n \<longleftrightarrow> n = 1"
  using bit_exp_iff[of 1 n, where ?'a = "32 word"] by (auto simp: k_close_bit_def)

lemma or_same: "has_close c \<Longrightarrow> ch_state c OR k_close_bit = ch_state c" "has_error c \<Longrightarrow> ch_state c OR k_error_bit = ch_state c"
proof -
  show "has_close c \<Longrightarrow> ch_state c OR k_close_bit = ch_state c"
    by (intro bit_word_eqI) (auto simp: bit_or_iff bit_close)
  show "has_error c \<Longrightarrow> ch_state c OR k_error_bit = ch_state c"
    by (intro bit_word_eqI) (auto simp: bit_or_iff k_error_bit_def bit_1_iff)
qed

text \<open>A step that makes no error and no close and keeps the bits.\<close>

lemma chan_inv_keep:
  assumes i: "chan_inv r z y w c" "0 < ch_refs c"
    and m: "ch_trace c' = ch_trace c" "count_list (ch_pending c') Do_Close = count_list (ch_pending c) Do_Close"
      "count_list (ch_pending c') Do_Error_Propagation = count_list (ch_pending c) Do_Error_Propagation"
      "has_close c' = has_close c" "has_error c' = has_error c"
    and f: "ch_refs c' - int (length (ch_pending c')) = ch_refs c - int (length (ch_pending c))" "0 < ch_refs c'"
      "ch_handles c' = ch_handles c" "ch_fault c' = ch_fault c" "ch_deleted c' = ch_deleted c"
      "ch_interest c' \<noteq> None \<longrightarrow> closes_seen c = 0" "ch_overrun c' \<longrightarrow> ch_stale c'"
  shows "chan_inv r z y w c' \<and> 0 < ch_refs c'"
proof -
  have s: "closes_seen c' = closes_seen c" "errors_seen c' = errors_seen c" using m(1) by (simp_all add: closes_seen_def errors_seen_def)
  have "closes_made z c' = closes_made z c" "errors_made y c' = errors_made y c"
    using s m(2,3) by (simp_all add: closes_made_def errors_made_def)
  moreover from this have "frozen z y c' = frozen z y c" using m(4,5) by (simp add: frozen_def)
  ultimately show ?thesis using i f m s unfolding chan_inv_def by auto
qed

lemma chan_api_inv:
  assumes "chan_api c c'" "chan_inv r z y w c" "0 < ch_refs c" "settled z y c"
  shows "chan_inv r z y w c' \<and> 0 < ch_refs c'"
  using assms
proof (induction rule: chan_api.induct)
  case (api_close c)
  note t = touch_inv[OF api_close(1,2)]
  show ?case
  proof (cases "has_close c")
    case True
    thus ?thesis using t api_close or_same by (simp add: ch_close_def split_beta Let_def fetch_or_bits)
  next
    case False
    hence m: "closes_made z c = 0" "\<not> frozen z y c" "errors_made y c = of_bool (has_error c)"
      using api_close(1) by (auto simp: chan_inv_def split: if_splits)
    have c': "ch_close c = c\<lparr>ch_state := ch_state c OR k_close_bit, ch_refs := ch_refs c + 1, ch_pending := ch_pending c @ [Do_Close]\<rparr>"
      using t False api_close by (auto simp: chan_ops chan_inv_def)
    have m': "closes_made z (ch_close c) = 1" "errors_made y (ch_close c) = errors_made y c" "closes_seen (ch_close c) = closes_seen c"
      using m(1) unfolding c' by (simp_all add: closes_made_def errors_made_def closes_seen_def errors_seen_def)
    hence f: "\<not> frozen z y (ch_close c)" by (simp add: frozen_def)
    have "ch_refs (ch_close c) = ch_refs c + 1" "ch_pending (ch_close c) = ch_pending c @ [Do_Close]"
      "has_close (ch_close c)" "has_error (ch_close c) = has_error c" "ch_handles (ch_close c) = ch_handles c"
      "ch_fault (ch_close c) = ch_fault c" "ch_deleted (ch_close c) = ch_deleted c" "ch_interest (ch_close c) = ch_interest c"
      "ch_overrun (ch_close c) = ch_overrun c" "ch_stale (ch_close c) = ch_stale c"
      unfolding c' by (simp_all add: or_bits or_bits[unfolded One_nat_def])
    thus ?thesis using api_close(1,2) m m' f False unfolding chan_inv_def by simp
  qed
next
  case (api_write c m)
  show ?case by (rule chan_inv_keep[OF api_write(1,2)]) (use api_write in \<open>auto simp: chan_ops chan_inv_def\<close>)
next
  case (api_pending_read c)
  show ?case by (rule chan_inv_keep[OF api_pending_read(1,2)]) (use api_pending_read in \<open>auto simp: chan_ops chan_inv_def\<close>)
next
  case (api_error c e)
  note t = touch_inv[OF api_error(1,2)]
  show ?case
  proof (cases "has_error c")
    case True
    thus ?thesis using t api_error or_same by (simp add: error_propagation_def split_beta Let_def fetch_or_bits)
  next
    case False
    hence m: "errors_made y c = 0" "\<not> frozen z y c" "closes_made z c = of_bool (has_close c)"
      using api_error(1) by (auto simp: chan_inv_def split: if_splits)
    have c': "error_propagation e c = c\<lparr>ch_state := ch_state c OR k_error_bit, ch_refs := ch_refs c + 1, ch_prop_error := e,
        ch_pending := ch_pending c @ [Do_Error_Propagation]\<rparr>"
      using t False api_error by (auto simp: chan_ops chan_inv_def)
    have m': "errors_made y (error_propagation e c) = 1" "closes_made z (error_propagation e c) = closes_made z c"
      "closes_seen (error_propagation e c) = closes_seen c"
      using m(1) unfolding c' by (simp_all add: closes_made_def errors_made_def closes_seen_def errors_seen_def)
    hence f: "\<not> frozen z y (error_propagation e c)" by (simp add: frozen_def)
    have "ch_refs (error_propagation e c) = ch_refs c + 1" "ch_pending (error_propagation e c) = ch_pending c @ [Do_Error_Propagation]"
      "has_error (error_propagation e c)" "has_close (error_propagation e c) = has_close c"
      "ch_handles (error_propagation e c) = ch_handles c" "ch_fault (error_propagation e c) = ch_fault c"
      "ch_deleted (error_propagation e c) = ch_deleted c" "ch_interest (error_propagation e c) = ch_interest c"
      "ch_overrun (error_propagation e c) = ch_overrun c" "ch_stale (error_propagation e c) = ch_stale c"
      unfolding c' by (simp_all add: or_bits or_bits[unfolded One_nat_def])
    thus ?thesis using api_error(1,2) m m' f False unfolding chan_inv_def by simp
  qed
next
  case (api_do_write c m)
  show ?case by (rule chan_inv_keep[OF api_do_write(1,2)]) (use api_do_write in \<open>auto simp: chan_ops chan_inv_def\<close>)
next
  case (api_continue_read c)
  thus ?case using continue_read_inv by blast
qed

lemma api_trace: "chan_api c c' \<Longrightarrow> ch_trace c' = ch_trace c"
  by (induction rule: chan_api.induct) (auto simp: chan_ops continue_read_def)

lemma settled_trace: "ch_trace c' = ch_trace c \<Longrightarrow> settled z y c' = settled z y c"
  by (simp add: settled_def closes_seen_def errors_seen_def)

lemma chan_apis_inv:
  "chan_api\<^sup>*\<^sup>* c c' \<Longrightarrow> chan_inv r z y w c \<Longrightarrow> 0 < ch_refs c \<Longrightarrow> settled z y c \<Longrightarrow>
   chan_inv r z y w c' \<and> 0 < ch_refs c' \<and> settled z y c'"
  by (induction rule: rtranclp_induct) (auto dest: chan_api_inv simp: settled_trace[OF api_trace])

lemma made_le: "chan_inv r z y w c \<Longrightarrow> closes_made z c \<le> 1" "chan_inv r z y w c \<Longrightarrow> errors_made y c \<le> 1"
  by (auto simp: chan_inv_def frozen_def split: if_splits)

lemma seen_le: "chan_inv r z y w c \<Longrightarrow> closes_seen c \<le> 1" "chan_inv r z y w c \<Longrightarrow> errors_seen c \<le> 1"
  using made_le[of r z y w c] by (auto simp: closes_made_def errors_made_def)

lemma release_closed:
  assumes f: "chan_inv r 0 y (Suc 0) f" "0 < ch_refs f" "ch_interest f = None" and r: "0 < r"
  shows "chan_inv r 0 y 0 (release (loop_remove_active f)) \<and> 0 < ch_refs (release (loop_remove_active f))"
proof -
  have c: "closes_seen f = 1" using seen_le(1)[OF f(1)] f(1) by (simp add: chan_inv_def)
  let ?g = "release (loop_remove_active f)"
  have g: "ch_state ?g = ch_state f" "ch_refs ?g = ch_refs f - 1" "ch_handles ?g = ch_handles f - 1"
    "ch_pending ?g = ch_pending f" "ch_interest ?g = None" "ch_queue ?g = ch_queue f"
    "ch_trace ?g = ch_trace f" "ch_fault ?g = (ch_fault f \<or> ch_deleted f)"
    "ch_deleted ?g = (ch_deleted f \<or> ch_refs f = 1)"
    using f(3) by (auto simp: release_def loop_remove_active_def touch_def)
  have "closes_seen ?g = closes_seen f" "errors_seen ?g = errors_seen f"
    using g(7) by (simp_all add: closes_seen_def errors_seen_def)
  moreover from this have "closes_made 0 ?g = closes_made 0 f" "errors_made y ?g = errors_made y f" "ch_overrun ?g = ch_overrun f"
    "ch_stale ?g = ch_stale f"
    using g(4) by (simp_all add: closes_made_def errors_made_def release_def loop_remove_active_def touch_def)
  moreover from this have "frozen 0 y ?g = frozen 0 y f" using g(1) by (simp add: frozen_def)
  ultimately show ?thesis using f r c g unfolding chan_inv_def by auto
qed

lemma api_interest: "chan_api c c' \<Longrightarrow> ch_interest c' = ch_interest c"
  by (induction rule: chan_api.induct) (auto simp: chan_ops continue_read_def)

lemma apis_interest: "chan_api\<^sup>*\<^sup>* c c' \<Longrightarrow> ch_interest c' = ch_interest c"
  by (induction rule: rtranclp_induct) (auto dest: api_interest)

text \<open>
  The contract of the life cycle with those who call a channel while a callback runs: what they do
  keeps the invariant, and they do not register a closed socket again. \<open>view\<close> is the channel in
  the state that the calls change, which may be another implementation's.
\<close>

locale channel_client =
  fixes view :: "'u \<Rightarrow> channel" and calls :: "'u \<Rightarrow> 'u \<Rightarrow> bool"
  assumes calls_inv: "calls u u' \<Longrightarrow> chan_inv r z y w (view u) \<Longrightarrow> 0 < ch_refs (view u) \<Longrightarrow> settled z y (view u) \<Longrightarrow>
      chan_inv r z y w (view u') \<and> 0 < ch_refs (view u')"
    and calls_unregistered: "calls u u' \<Longrightarrow> ch_interest (view u) = None \<Longrightarrow> ch_interest (view u') = None"
begin

text \<open>A callback other than \<open>on_error\<close> and \<open>on_closed\<close> is invisible to the invariant.\<close>

lemma traced_inv:
  assumes "calls u u'" "view u = c\<lparr>ch_trace := ch_trace c @ [e]\<rparr>" "chan_inv r z y w c" "0 < ch_refs c" "settled z y c"
    and e: "\<And>x. e \<noteq> On_Error x" "e \<noteq> On_Closed"
  shows "chan_inv r z y w (view u') \<and> 0 < ch_refs (view u')"
proof -
  have e: "errors_seen (view u) = errors_seen c" using e assms(2) by (cases e) (auto simp: errors_seen_def)
  have c: "closes_seen (view u) = closes_seen c"
    using e(1) \<open>e \<noteq> On_Closed\<close> assms(2) by (auto simp: closes_seen_def count_list_append)
  have "closes_made z (view u) = closes_made z c" "errors_made y (view u) = errors_made y c"
    using e c assms(2) by (simp_all add: closes_made_def errors_made_def)
  moreover from this have "frozen z y (view u) = frozen z y c" using assms(2) by (simp add: frozen_def)
  ultimately have "chan_inv r z y w (view u)" using assms(2,3) c by (auto simp: chan_inv_def)
  moreover have "settled z y (view u)" using assms(5) e c by (simp add: settled_def)
  ultimately show ?thesis using calls_inv[OF assms(1)] assms(2,4) by simp
qed

lemma errored_inv:
  assumes "calls u u'" "view u = (socket_close c)\<lparr>ch_trace := ch_trace c @ [On_Error e]\<rparr>"
    "chan_inv r z (Suc y) w c" "0 < ch_refs c"
  shows "chan_inv r z y w (view u') \<and> 0 < ch_refs (view u')"
proof (rule calls_inv[OF assms(1)])
  have s: "errors_seen (view u) = Suc (errors_seen c)" "closes_seen (view u) = closes_seen c"
    unfolding assms(2) by (simp_all add: errors_seen_def closes_seen_def count_list_append)
  thus "settled z y (view u)" by (simp add: settled_def)
  have "closes_made z (view u) = closes_made z c" "errors_made y (view u) = errors_made (Suc y) c"
    using s assms(2) by (simp_all add: closes_made_def errors_made_def socket_close_def)
  moreover from this have "frozen z y (view u) = frozen z (Suc y) c" using assms(2) by (simp add: frozen_def socket_close_def)
  ultimately show "chan_inv r z y w (view u)" using s assms(2,3) by (auto simp: chan_inv_def socket_close_def)
qed (use assms(2,4) in \<open>simp add: socket_close_def\<close>)

lemma closed_inv:
  assumes "calls u u'" "view u = c\<lparr>ch_trace := ch_trace c @ [On_Closed]\<rparr>"
    "chan_inv r (Suc 0) y 0 c" "0 < ch_refs c" "ch_interest c = None" "0 < r"
  shows "chan_inv r 0 y 0 (release (loop_remove_active (view u'))) \<and>
    0 < ch_refs (release (loop_remove_active (view u')))"
proof -
  have s: "closes_seen (view u) = Suc (closes_seen c)" "errors_seen (view u) = errors_seen c"
    unfolding assms(2) by (simp_all add: closes_seen_def errors_seen_def count_list_append)
  have "closes_made 0 (view u) = closes_made (Suc 0) c" "errors_made y (view u) = errors_made y c"
    using s assms(2) by (simp_all add: closes_made_def errors_made_def)
  moreover from this have "frozen 0 y (view u) = frozen (Suc 0) y c" using assms(2) by (simp add: frozen_def)
  ultimately have "chan_inv r 0 y (Suc 0) (view u)" "0 < ch_refs (view u)" "ch_interest (view u) = None"
    using assms(2-5) s by (auto simp: chan_inv_def)
  moreover have "settled 0 y (view u)" using s by (simp add: settled_def)
  ultimately have "chan_inv r 0 y (Suc 0) (view u')" "0 < ch_refs (view u')" "ch_interest (view u') = None"
    using calls_inv[OF assms(1)] calls_unregistered[OF assms(1)] by blast+
  thus ?thesis using release_closed assms(6) by blast
qed

end

interpretation tc: channel_client "\<lambda>c. c" "chan_api\<^sup>*\<^sup>*"
  by unfold_locales (use chan_apis_inv apis_interest in \<open>auto\<close>)

lemma fire_inv:
  assumes p: "filters_ok p" and i: "chan_inv r z y w c" "0 < ch_refs c" "settled z y c"
    and e: "\<And>x. e \<noteq> On_Error x" "e \<noteq> On_Closed"
  shows "chan_inv r z y w (fire p e c) \<and> 0 < ch_refs (fire p e c)"
  using tc.traced_inv[OF _ refl i e] p unfolding filters_ok_def fire_def by blast

lemma fire_error_inv:
  assumes p: "filters_ok p" and i: "chan_inv r z (Suc y) w c" "0 < ch_refs c"
  shows "chan_inv r z y w (fire_on_error p e c) \<and> 0 < ch_refs (fire_on_error p e c)"
proof -
  have "fire_on_error p e c = in_bound p (On_Error e) ((socket_close c)\<lparr>ch_trace := ch_trace c @ [On_Error e]\<rparr>)"
    by (simp add: fire_on_error_def fire_def socket_close_def)
  thus ?thesis using tc.errored_inv[OF _ refl i] p unfolding filters_ok_def by metis
qed

lemma error_bit_inv:
  assumes "chan_inv r z y w c" "\<not> has_error c"
  shows "chan_inv r z (Suc y) w (c\<lparr>ch_state := ch_state c OR k_error_bit\<rparr>)"
proof -
  let ?c = "c\<lparr>ch_state := ch_state c OR k_error_bit\<rparr>"
  have "\<not> frozen z y c" using assms by (auto simp: chan_inv_def)
  moreover have "errors_made (Suc y) ?c = Suc (errors_made y c)" "closes_made z ?c = closes_made z c"
    by (simp_all add: errors_made_def closes_made_def)
  moreover from this have "\<not> frozen z (Suc y) ?c" by (simp add: frozen_def)
  moreover have "has_error ?c" "has_close ?c = has_close c" by (simp_all add: or_bits or_bits[unfolded One_nat_def])
  ultimately show ?thesis using assms unfolding chan_inv_def by simp
qed

lemma error_now_inv:
  assumes p: "filters_ok p" and i: "chan_inv r z y w c" "0 < ch_refs c"
  shows "chan_inv r z y w (error_propagation_now p e c) \<and> 0 < ch_refs (error_propagation_now p e c)"
proof (cases "has_error c")
  case True
  thus ?thesis using i or_same by (simp add: error_propagation_now_def split_beta Let_def fetch_or_bits)
next
  case False
  from fire_error_inv[OF p error_bit_inv[OF i(1) False]] False i(2) show ?thesis
    by (simp add: error_propagation_now_def split_beta Let_def fetch_or_bits)
qed

lemma in_bound_interest: "filters_ok p \<Longrightarrow> ch_interest (in_bound p e c) = ch_interest c"
  using apis_interest unfolding filters_ok_def by blast

lemma open_closes: "chan_inv r z y w c \<Longrightarrow> \<not> has_close c \<Longrightarrow> closes_seen c = 0"
  by (auto simp: chan_inv_def closes_made_def split: if_splits)

lemma open_handles: "chan_inv r z y w c \<Longrightarrow> \<not> has_close c \<Longrightarrow> ch_handles c = 1"
proof -
  assume a: "chan_inv r z y w c" "\<not> has_close c"
  from open_closes[OF a] a(1) show ?thesis by (simp add: chan_inv_def)
qed

lemma register_inv:
  assumes i: "chan_inv r 0 0 w c" "0 < ch_refs c"
  shows "chan_inv r 0 0 w (register_handle k c) \<and> 0 < ch_refs (register_handle k c)"
proof (cases "has_error c \<or> has_close c")
  case True
  thus ?thesis using i by (simp add: register_handle_def is_bits)
next
  case False
  have c: "closes_seen c = 0" using open_closes[OF i(1)] False by blast
  have "chan_inv r 0 0 w (c\<lparr>ch_reg_events := e, ch_evt := e, ch_calls := n, ch_interest := Some e\<rparr>)" for e n
    by (rule conjunct1[OF chan_inv_keep[OF i]]) (use i c in \<open>simp_all add: chan_inv_def\<close>)
  moreover have "chan_inv r 0 0 w (c\<lparr>ch_reg_events := e, ch_evt := e, ch_calls := n\<rparr>)" for e n
    by (rule conjunct1[OF chan_inv_keep[OF i]]) (use i in \<open>simp_all add: chan_inv_def\<close>)
  ultimately show ?thesis
    using i False chan_api_inv[OF api_error, where r = r and z = 0 and y = 0 and w = w]
    by (auto simp: register_handle_def is_bits Let_def settled_def split: option.splits)
qed

lemma fire_close_inv:
  assumes p: "filters_ok p" and i: "chan_inv r (Suc 0) y 0 c" "0 < ch_refs c" and r: "0 < r"
  shows "chan_inv r 0 y 0 (fire_on_close p c) \<and> 0 < ch_refs (fire_on_close p c)"
proof -
  let ?s = "socket_close c"
  have "chan_inv r (Suc 0) y 0 ?s \<and> 0 < ch_refs ?s"
    by (rule chan_inv_keep[OF i]) (use i in \<open>simp_all add: chan_inv_def socket_close_def\<close>)
  hence s: "chan_inv r (Suc 0) y 0 ?s" "0 < ch_refs ?s" by simp_all
  let ?e = "error_propagation_now p (tdk_error Tdk_User_Abort) ?s"
  have close_eq: "fire_on_close p c = release (loop_remove_active (fire p On_Closed ?e))"
    by (simp add: fire_on_close_def error_propagation_now_def split_beta Let_def)
  have e: "chan_inv r (Suc 0) y 0 ?e" "0 < ch_refs ?e" using error_now_inv[OF p s] by simp_all
  have n: "ch_interest ?e = None"
    using in_bound_interest[OF p]
    by (auto simp: error_propagation_now_def split_beta Let_def fetch_or_bits fire_on_error_def fire_def
        socket_close_def)
  have "chan_api\<^sup>*\<^sup>* (?e\<lparr>ch_trace := ch_trace ?e @ [On_Closed]\<rparr>) (fire p On_Closed ?e)"
    using p unfolding filters_ok_def fire_def by blast
  from tc.closed_inv[OF this refl e n r] show ?thesis unfolding close_eq .
qed


lemma calls_inv [simp]:
  "chan_inv r z y w (c\<lparr>ch_calls := n\<rparr>) = chan_inv r z y w c"
  "chan_inv r z y w (c\<lparr>ch_evt := n'\<rparr>) = chan_inv r z y w c"
  by (auto simp: inv_defs)

lemma settled_idle: "settled 0 0 c"
  by (simp add: settled_def)

lemma readable_inv:
  assumes p: "filters_ok p" and i: "chan_inv r 0 0 w c" "0 < ch_refs c" and h: "handle_readable k p c = Some c'"
  shows "chan_inv r 0 0 w c' \<and> 0 < ch_refs c'"
proof (cases "is_bits_on (k_error_bit OR k_close_bit OR k_read_pending_bit) c")
  case True
  thus ?thesis using i h by (simp add: handle_readable_def)
next
  case False
  then obtain res n where c': "c' = (case res of
            Read_Failed e \<Rightarrow> error_propagation_now p (platform_error e) (c\<lparr>ch_calls := n\<rparr>)
          | Received bs \<Rightarrow>
              if bs = [] then error_propagation_now p (tdk_error Tdk_Network_Remote_Closed) (c\<lparr>ch_calls := n\<rparr>)
              else fire_on_read p bs (c\<lparr>ch_calls := n\<rparr>))"
    using h by (auto simp: handle_readable_def bind_eq_Some_conv Let_def)
  have "chan_inv r 0 0 w (c\<lparr>ch_calls := n\<rparr>)" "0 < ch_refs (c\<lparr>ch_calls := n\<rparr>)" using i by simp_all
  note j = error_now_inv[OF p this] fire_inv[OF p this settled_idle]
  show ?thesis unfolding c' fire_on_read_def using j by (auto split: read_result.split)
qed

text \<open>Sending changes nothing the invariant looks at, apart from the queue.\<close>

lemma send_loop_frame:
  assumes "send_loop k buf sent c = Some (c', ok)"
  shows "ch_state c' = ch_state c \<and> ch_refs c' = ch_refs c \<and> ch_deleted c' = ch_deleted c \<and>
    ch_pending c' = ch_pending c \<and> ch_handles c' = ch_handles c \<and> ch_interest c' = ch_interest c \<and>
    ch_trace c' = ch_trace c \<and> ch_fault c' = ch_fault c"
proof -
  define P where "P buf c r \<longleftrightarrow> ch_state (fst r) = ch_state c \<and> ch_refs (fst r) = ch_refs c \<and>
    ch_deleted (fst r) = ch_deleted c \<and> ch_pending (fst r) = ch_pending c \<and> ch_handles (fst r) = ch_handles c \<and>
    ch_interest (fst r) = ch_interest c \<and> ch_trace (fst r) = ch_trace c \<and> ch_fault (fst r) = ch_fault c"
    for buf :: buffer_adapter and c :: channel and r :: "channel \<times> bool"
  have "P buf c (c', ok)" by (rule send_loop_rounds[OF assms]) (auto simp: P_def)
  thus ?thesis by (simp add: P_def)
qed

lemma writeable_inv:
  assumes p: "filters_ok p" and k: "writev_ok k"
    and i: "chan_inv r 0 0 w c" "0 < ch_refs c" and h: "handle_writeable k p c = Some c'"
  shows "chan_inv r 0 0 w c' \<and> 0 < ch_refs c'"
proof (cases "is_bits_on (k_error_bit OR k_close_bit) c \<or> ch_queue c = []")
  case True
  thus ?thesis using i h by (auto simp: handle_writeable_def split: if_splits)
next
  case False
  then obtain c1 ok where s: "send_remains k c = Some (c1, ok)"
    and c': "c' = (if is_error (ch_send_error c1) then error_propagation_now p (ch_send_error c1) c1
                   else fire_on_write p (ch_send_bytes c1) (ch_queue c1 = []) c1)"
    using h by (auto simp: handle_writeable_def bind_eq_Some_conv)
  have s1: "send_loop k ba_new 0 (c\<lparr>ch_send_error := no_error, ch_send_bytes := 0\<rparr>) = Some (c1, ok)"
    using s by (simp add: send_remains_def)
  have "chan_inv r 0 0 w c1 \<and> 0 < ch_refs c1"
    by (rule chan_inv_keep[OF i]) (use send_loop_frame[OF s1] send_loop_overrun[OF k s1] i in \<open>simp_all add: chan_inv_def\<close>)
  thus ?thesis unfolding c' fire_on_write_def using error_now_inv[OF p] fire_inv[OF p _ _ settled_idle] by auto
qed

lemma io_events_inv:
  assumes p: "filters_ok p" and k: "writev_ok k"
    and i: "chan_inv r 0 0 w c" "0 < ch_refs c" and h: "handle_io_events k p e c = Some c'"
  shows "chan_inv r 0 0 w c' \<and> 0 < ch_refs c'"
proof -
  note t = touch_inv[OF i]
  consider (off) "is_bits_on (k_error_bit OR k_close_bit) c"
    | (err) "\<not> is_bits_on (k_error_bit OR k_close_bit) c" "e AND EPOLL_ERR \<noteq> 0"
    | (hup) "\<not> is_bits_on (k_error_bit OR k_close_bit) c" "e AND EPOLL_ERR = 0" "e AND EPOLL_HUP \<noteq> 0"
    | (io) "\<not> is_bits_on (k_error_bit OR k_close_bit) c" "e AND EPOLL_ERR = 0" "e AND EPOLL_HUP = 0"
    by blast
  thus ?thesis
  proof cases
    case off
    thus ?thesis using h i t by (simp add: handle_io_events_def Let_def)
  next
    case err
    thus ?thesis using h t error_now_inv[OF p, of r 0 0 w "c\<lparr>ch_calls := Suc (ch_calls c)\<rparr>"] i
      by (auto simp: handle_io_events_def Let_def)
  next
    case hup
    thus ?thesis using h t error_now_inv[OF p i] by (auto simp: handle_io_events_def Let_def)
  next
    case io
    then obtain c1 c2 where s: "(if e AND EPOLL_IN \<noteq> 0 then handle_readable k p c else Some c) = Some c1"
      "(if e AND EPOLL_OUT \<noteq> 0 then handle_writeable k p c1 else Some c1) = Some c2"
      "c' = register_handle k c2"
      using h t by (auto simp: handle_io_events_def Let_def bind_eq_Some_conv)
    have "chan_inv r 0 0 w c1 \<and> 0 < ch_refs c1"
      using s(1) i readable_inv[OF p i, of k c1] by (auto split: if_splits)
    hence "chan_inv r 0 0 w c2 \<and> 0 < ch_refs c2"
      using s(2) writeable_inv[OF p k, of r w c1 c2] by (auto split: if_splits)
    thus ?thesis using s(3) register_inv by blast
  qed
qed


lemma release_inv:
  assumes "chan_inv (Suc r) 0 0 w c" "0 < ch_refs c"
  shows "chan_inv r 0 0 w (release c)"
proof -
  have "closes_seen (release c) = closes_seen c" "errors_seen (release c) = errors_seen c"
    by (simp_all add: release_def touch_def closes_seen_def errors_seen_def)
  moreover from this have "closes_made 0 (release c) = closes_made 0 c" "errors_made 0 (release c) = errors_made 0 c"
    by (simp_all add: closes_made_def errors_made_def release_def touch_def)
  moreover from this have "frozen 0 0 (release c) = frozen 0 0 c" by (simp add: frozen_def release_def touch_def)
  ultimately show ?thesis using assms unfolding chan_inv_def by (auto simp: release_def touch_def)
qed

lemma fire_do_write_inv:
  assumes p: "filters_ok p" and i: "chan_inv r 0 0 w c" "0 < ch_refs c"
  shows "chan_inv r 0 0 w (fire_do_write p m c) \<and> 0 < ch_refs (fire_do_write p m c)"
proof -
  have "chan_api\<^sup>*\<^sup>* c (out_bound p m c)" using p unfolding filters_ok_def by blast
  from chan_apis_inv[OF this i(1,2) settled_idle] i show ?thesis by (simp add: fire_do_write_def)
qed

text \<open>Taking a task from the queue: its reference is held by the handler now.\<close>

lemma take_task_inv:
  assumes i: "chan_inv 0 0 0 0 c" and t: "ch_pending c = t # ts"
  shows "chan_inv 1 (of_bool (t = Do_Close)) (of_bool (t = Do_Error_Propagation)) 0 (c\<lparr>ch_pending := ts\<rparr>)"
    "0 < ch_refs (c\<lparr>ch_pending := ts\<rparr>)"
proof -
  have "closes_seen c \<le> 1" using seen_le[OF i] by simp
  thus "0 < ch_refs (c\<lparr>ch_pending := ts\<rparr>)" using i t by (auto simp: chan_inv_def)
  let ?c = "c\<lparr>ch_pending := ts\<rparr>"
  have m: "closes_made (of_bool (t = Do_Close)) ?c = closes_made 0 c"
    "errors_made (of_bool (t = Do_Error_Propagation)) ?c = errors_made 0 c"
    using t by (auto simp: closes_made_def errors_made_def)
  hence "frozen (of_bool (t = Do_Close)) (of_bool (t = Do_Error_Propagation)) ?c = frozen 0 0 c" by (simp add: frozen_def)
  thus "chan_inv 1 (of_bool (t = Do_Close)) (of_bool (t = Do_Error_Propagation)) 0 ?c"
    using i t m unfolding chan_inv_def by auto
qed

lemma run_next_inv:
  assumes p: "filters_ok p" and k: "writev_ok k"
    and i: "chan_inv 0 0 0 0 c" and h: "chan_run_next k p c = Some c'"
  shows "chan_inv 0 0 0 0 c'"
proof (cases "ch_pending c")
  case Nil
  thus ?thesis using i h by (simp add: chan_run_next_def)
next
  case (Cons t ts)
  let ?c = "c\<lparr>ch_pending := ts\<rparr>"
  note j = take_task_inv[OF i Cons]
  note t = touch_inv[OF j]
  have c': "chan_call k p t ?c = Some c'" using h Cons by (simp add: chan_run_next_def)
  show ?thesis
  proof (cases t)
    case Do_Close
    hence a: "chan_inv (Suc 0) (Suc 0) 0 0 ?c" using j(1) by simp
    have "c' = release (fire_on_close p ?c)" using c' t Do_Close by (simp add: handle_close_def)
    thus ?thesis using fire_close_inv[OF p a j(2)] release_inv by blast
  next
    case On_Send
    then obtain c1 where c1: "handle_io_events k p EPOLL_OUT ?c = Some c1" "c' = release c1"
      using c' by (auto simp: handle_send_def bind_eq_Some_conv)
    have a: "chan_inv (Suc 0) 0 0 0 ?c" using j(1) On_Send by simp
    show ?thesis using io_events_inv[OF p k a j(2) c1(1)] c1(2) release_inv by blast
  next
    case Do_Error_Propagation
    have a: "chan_inv (Suc 0) 0 (Suc 0) 0 ?c" using j(1) Do_Error_Propagation by simp
    have "c' = release (fire_on_error p (ch_prop_error ?c) ?c)"
      using c' t Do_Error_Propagation by (simp add: handle_error_propagation_def)
    thus ?thesis using fire_error_inv[OF p a j(2)] release_inv by blast
  next
    case (Write_Shot m)
    have a: "chan_inv (Suc 0) 0 0 0 ?c" using j(1) Write_Shot by simp
    have "c' = release (fire_do_write p m ?c)" using c' t Write_Shot by (simp add: handle_write_shot_def)
    thus ?thesis using fire_do_write_inv[OF p a j(2)] release_inv by blast
  next
    case Continue_Shot
    have a: "chan_inv (Suc 0) 0 0 0 ?c" using j(1) Continue_Shot by simp
    have "c' = release (register_handle k ?c)" using c' t Continue_Shot by (simp add: handle_continue_shot_def)
    thus ?thesis using register_inv[OF a j(2)] release_inv by blast
  qed
qed


section \<open>Runs of a channel\<close>

text \<open>The loop runs the tasks of the channel in order, the poller reports events while the socket
  is registered, and user code calls the channel as long as it is not deleted.\<close>

inductive chan_step :: "kernel_io \<Rightarrow> filters \<Rightarrow> channel \<Rightarrow> channel \<Rightarrow> bool" for k p where
  step_task: "chan_run_next k p c = Some c' \<Longrightarrow> chan_step k p c c'"
| step_event: "ch_interest c \<noteq> None \<Longrightarrow> on_io_events k p e c = Some c' \<Longrightarrow> chan_step k p c c'"
| step_call: "\<not> ch_deleted c \<Longrightarrow> chan_api c c' \<Longrightarrow> chan_step k p c c'"

lemma not_deleted_refs: "chan_inv r z y w c \<Longrightarrow> \<not> ch_deleted c \<Longrightarrow> 0 < ch_refs c"
  using seen_le(1) by (fastforce simp: chan_inv_def)

lemma step_inv:
  assumes p: "filters_ok p" and k: "writev_ok k"
    and s: "chan_step k p c c'" and i: "chan_inv 0 0 0 0 c"
  shows "chan_inv 0 0 0 0 c'"
  using s
proof (cases rule: chan_step.cases)
  case step_task
  show ?thesis by (rule run_next_inv[OF p k i step_task])
next
  case (step_event e)
  have "closes_seen c = 0" using i step_event(1) by (simp add: chan_inv_def)
  hence "0 < ch_refs (c\<lparr>ch_evt := e\<rparr>)" using i by (simp add: chan_inv_def)
  moreover have "chan_inv 0 0 0 0 (c\<lparr>ch_evt := e\<rparr>)" using i by simp
  moreover have "handle_io_events k p e (c\<lparr>ch_evt := e\<rparr>) = Some c'"
    using step_event(2) by (simp add: on_io_events_def)
  ultimately show ?thesis using io_events_inv[OF p k] by blast
next
  case step_call
  show ?thesis using chan_api_inv[OF step_call(2) i not_deleted_refs[OF i step_call(1)] settled_idle] by blast
qed

lemma add_active_register: "loop_add_active (register_handle k c) = register_handle k (loop_add_active c)"
  by (simp add: register_handle_def loop_add_active_def is_bits_on_def error_propagation_def fetch_or_def
      retain_def touch_def loop_execute_def Let_def split: option.split)

lemma accepted_inv:
  assumes "filters_ok p"
  shows "chan_inv 0 0 0 0 (fire_on_accepted k p addr channel_new)"
proof -
  have i: "chan_inv 0 0 0 0 (loop_add_active (retain channel_new))"
    "0 < ch_refs (loop_add_active (retain channel_new))"
    by (simp_all add: inv_defs loop_add_active_def retain_def touch_def channel_new_def)
  show ?thesis
    using fire_inv[OF assms, of 0 0 0 0 _ "On_Accepted addr"] settled_idle register_inv[OF i, of k]
    by (simp add: fire_on_accepted_def add_active_register)
qed

lemma reachable_inv:
  assumes p: "filters_ok p" and k: "writev_ok k"
    and r: "(chan_step k p)\<^sup>*\<^sup>* (fire_on_accepted k p addr channel_new) c"
  shows "chan_inv 0 0 0 0 c"
  using r by (induction rule: rtranclp_induct) (auto intro: accepted_inv[OF p] step_inv[OF p k])

text \<open>C3. The life of an accepted channel (\<open>channel_epoll.cpp\<close>), for any kernel whose \<open>writev\<close> takes no
  more than it is given: in every run with filters and users that keep to the channel's operations,
  \<open>continue_read\<close> among them as long as no error and no close was made, the channel is never used
  after it has deleted itself; \<open>on_error\<close> and \<open>on_closed\<close> are called at most once; the references
  are the open connection and the queued tasks, so that the channel is deleted exactly when it has
  been closed and its last task has run; and it holds its loop's active count exactly until it is
  closed. The front of an empty queue is taken (after which C++ promises nothing) only by a round
  of sending that used a stale scatter list, see \<open>send_remains_exact\<close>.\<close>

theorem channel_lifecycle:
  assumes "filters_ok p" "writev_ok k"
    "(chan_step k p)\<^sup>*\<^sup>* (fire_on_accepted k p addr channel_new) c"
  shows "\<not> ch_fault c \<and> errors_seen c \<le> 1 \<and> closes_seen c \<le> 1 \<and>
    ch_handles c = 1 - int (closes_seen c) \<and>
    ch_refs c = ch_handles c + int (length (ch_pending c)) \<and>
    (ch_deleted c \<longleftrightarrow> closes_seen c = 1 \<and> ch_pending c = []) \<and> (ch_overrun c \<longrightarrow> ch_stale c)"
proof -
  have i: "chan_inv 0 0 0 0 c" by (rule reachable_inv[OF assms])
  have "ch_refs c = 0 \<longleftrightarrow> closes_seen c = 1 \<and> ch_pending c = []"
    using i seen_le[OF i] by (cases "ch_pending c") (auto simp: chan_inv_def)
  thus ?thesis using i seen_le[OF i] by (auto simp: chan_inv_def)
qed

text \<open>Filters that do nothing, for the witnesses.\<close>

definition quiet_filters :: filters where
  "quiet_filters = \<lparr>in_bound = (\<lambda>e c. c), out_bound = (\<lambda>m c. c)\<rparr>"

lemma quiet_filters_ok: "filters_ok quiet_filters"
  by (simp add: filters_ok_def quiet_filters_def)

lemma channel_lifecycle_witness:
  "\<exists>c. (chan_step short_kernel quiet_filters)\<^sup>*\<^sup>* (fire_on_accepted short_kernel quiet_filters 9 channel_new) c \<and>
     ch_deleted c \<and> \<not> ch_fault c \<and> closes_seen c = 1"
proof -
  let ?c0 = "fire_on_accepted short_kernel quiet_filters 9 channel_new"
  let ?s = "chan_step short_kernel quiet_filters"
  let ?a = "channel_new\<lparr>ch_refs := 1, ch_handles := 1, ch_reg_events := EPOLL_IN, ch_evt := EPOLL_IN,
      ch_calls := 1, ch_interest := Some EPOLL_IN, ch_trace := [On_Accepted 9]\<rparr>"
  have c0: "?c0 = ?a"
    by (simp add: fire_on_accepted_def fire_def quiet_filters_def loop_add_active_def register_handle_def
        retain_def touch_def channel_new_def is_bits_on_def Let_def short_kernel_def EPOLL_IN_def)
  have c1: "ch_close ?a = ?a\<lparr>ch_state := 2, ch_refs := 2, ch_pending := [Do_Close]\<rparr>"
    by (simp add: ch_close_def fetch_or_def retain_def touch_def loop_execute_def channel_new_def k_close_bit_def)
  have c2: "closes_seen (handle_close quiet_filters (?a\<lparr>ch_state := 2, ch_refs := 2\<rparr>)) = 1"
    "ch_pending (handle_close quiet_filters (?a\<lparr>ch_state := 2, ch_refs := 2\<rparr>)) = []"
    by (simp_all add: handle_close_def fire_on_close_def fire_def quiet_filters_def release_def
        loop_remove_active_def fire_on_error_def socket_close_def touch_def fetch_or_def channel_new_def
        k_error_bit_def closes_seen_def)
  have s: "?s ?a (ch_close ?a)" by (rule step_call[OF _ api_close]) (simp add: channel_new_def)
  have t: "?s (ch_close ?a) (handle_close quiet_filters (?a\<lparr>ch_state := 2, ch_refs := 2\<rparr>))"
    unfolding c1 by (rule step_task) (simp add: chan_run_next_def channel_new_def)
  have r: "?s\<^sup>*\<^sup>* ?c0 (handle_close quiet_filters (?a\<lparr>ch_state := 2, ch_refs := 2\<rparr>))"
    unfolding c0 by (rule rtranclp_trans[OF r_into_rtranclp[where r = ?s, OF s] r_into_rtranclp[where r = ?s, OF t]])
  note l = channel_lifecycle[OF quiet_filters_ok short_kernel_ok r]
  show ?thesis by (rule exI[of _ "handle_close quiet_filters (?a\<lparr>ch_state := 2, ch_refs := 2\<rparr>)"])
      (intro conjI r c2(1) l[THEN conjunct1], use l c2 in blast)
qed

text \<open>A channel that is closed before it is connected is used after it has deleted itself: its
  only reference is the one of the closing task, \<open>fire_on_close\<close> releases it, and the task
  releases it again.\<close>

theorem close_before_connect_faults:
  "\<exists>c. chan_run_next k quiet_filters (ch_close channel_new) = Some c \<and> ch_fault c \<and> ch_handles c = - 1"
  by (simp add: chan_run_next_def ch_close_def fetch_or_def touch_def retain_def loop_execute_def
      channel_new_def handle_close_def fire_on_close_def fire_def quiet_filters_def release_def
      loop_remove_active_def fire_on_error_def socket_close_def Let_def k_close_bit_def k_error_bit_def)

text \<open>\<open>continue_read\<close> ends the channel's use instead of resuming its reads: it flips every
  state bit but the one it means to clear. On a channel without errors the error and close bits
  are then set and reads stay suspended (or, when none were, the same bits are set): every later
  event is ignored, and \<open>close\<close> does nothing, so that \<open>on_closed\<close> is never called and the
  active count of the loop is never given back.\<close>

theorem continue_read_kills:
  assumes "\<not> has_error c" "\<not> has_close c" "\<not> ch_deleted c"
  shows "let c' = continue_read c in
    has_error c' \<and> has_close c' \<and> read_pending c' = read_pending c \<and>
    handle_io_events k p e c' = Some (touch c') \<and> ch_close c' = touch c' \<and> register_handle k c' = c'"
proof -
  let ?c = "continue_read c"
  have b: "has_error ?c" "has_close ?c" "read_pending ?c = read_pending c" using continue_bits[of c] assms by simp_all
  have or: "ch_state ?c OR k_close_bit = ch_state ?c"
    using b(2) by (intro bit_word_eqI) (auto simp: bit_or_iff bit_close)
  have "handle_io_events k p e ?c = Some (touch ?c)"
    using b(1) by (simp add: handle_io_events_def Let_def is_bits touch_def)
  moreover have "ch_close ?c = touch ?c"
    using b(2) or by (simp add: ch_close_def split_beta Let_def fetch_or_bits touch_def)
  moreover have "register_handle k ?c = ?c" using b(1) by (simp add: register_handle_def is_bits)
  ultimately show ?thesis using b by (simp add: Let_def)
qed

lemma continue_read_kills_witness:
  "has_close (continue_read (pending_read (retain channel_new)))"
  using continue_read_kills[of "pending_read (retain channel_new)" short_kernel quiet_filters 1]
  by (simp add: Let_def pending_read_def retain_def touch_def channel_new_def k_read_pending_bit_def
      bit_numeral_rec)

text \<open>After a close \<open>continue_read\<close> clears its bit: the channel can be closed a second time, and gives
  up an active count it does not hold.\<close>

theorem continue_read_closes_twice:
  "\<exists>c1 c2. chan_run_next k quiet_filters (ch_close (continue_read (ch_close (loop_add_active (retain channel_new))))) = Some c1 \<and>
     chan_run_next k quiet_filters c1 = Some c2 \<and> closes_seen c2 = 2 \<and> ch_handles c2 = -1 \<and> ch_fault c2"
proof -
  let ?o = "channel_new\<lparr>ch_refs := 1, ch_handles := 1\<rparr>"
  have o: "loop_add_active (retain channel_new) = ?o"
    by (simp add: loop_add_active_def retain_def touch_def channel_new_def)
  have c1: "ch_close ?o = ?o\<lparr>ch_state := 2, ch_refs := 2, ch_pending := [Do_Close]\<rparr>"
    by (simp add: ch_close_def fetch_or_def touch_def retain_def loop_execute_def channel_new_def k_close_bit_def)
  have "continue_read (ch_close ?o) = ?o\<lparr>ch_state := - 7, ch_refs := 2, ch_pending := [Do_Close]\<rparr>"
    unfolding c1 continue_read_def Let_def touch_def k_read_pending_bit_def by (simp add: channel_new_def)
  hence c0: "ch_close (continue_read (ch_close ?o)) = ?o\<lparr>ch_state := - 5, ch_refs := 3, ch_pending := [Do_Close, Do_Close]\<rparr>"
    by (simp add: ch_close_def fetch_or_def touch_def retain_def loop_execute_def channel_new_def k_close_bit_def)
  have close: "handle_close quiet_filters c = release (release (c\<lparr>ch_open := False, ch_interest := None,
      ch_trace := ch_trace c @ [On_Closed], ch_handles := ch_handles c - 1\<rparr>))"
    if "ch_state c = - 5" "\<not> ch_deleted c" "\<not> ch_fault c" for c
    using that by (cases c) (simp add: handle_close_def fire_on_close_def fire_def quiet_filters_def
        loop_remove_active_def socket_close_def fetch_or_def touch_def k_error_bit_def)
  let ?c1 = "?o\<lparr>ch_state := - 5, ch_refs := 1, ch_pending := [Do_Close], ch_open := False, ch_trace := [On_Closed], ch_handles := 0\<rparr>"
  have "chan_run_next k quiet_filters (ch_close (continue_read (ch_close ?o))) = Some ?c1"
    unfolding c0 by (simp add: chan_run_next_def close release_def touch_def channel_new_def)
  moreover have "chan_run_next k quiet_filters ?c1 = Some (release (release (?c1\<lparr>ch_pending := [],
      ch_trace := [On_Closed, On_Closed], ch_handles := -1\<rparr>)))"
    by (simp add: chan_run_next_def close channel_new_def)
  moreover have "closes_seen (release (release (?c1\<lparr>ch_pending := [], ch_trace := [On_Closed, On_Closed], ch_handles := -1\<rparr>))) = 2"
    "ch_handles (release (release (?c1\<lparr>ch_pending := [], ch_trace := [On_Closed, On_Closed], ch_handles := -1\<rparr>))) = -1"
    "ch_fault (release (release (?c1\<lparr>ch_pending := [], ch_trace := [On_Closed, On_Closed], ch_handles := -1\<rparr>)))"
    by (simp_all add: release_def touch_def closes_seen_def)
  ultimately show ?thesis unfolding o by blast
qed

text \<open>\<open>on_error\<close> can follow \<open>on_closed\<close>: when \<open>error_propagation\<close> is called after
  \<open>close\<close> and before the loop has run the closing task, both tasks run in this order.\<close>

theorem error_after_closed:
  assumes "ch_pending c = []" "\<not> has_error c" "\<not> has_close c" "is_error err"
  shows "\<exists>c1 c2. chan_run_next k quiet_filters (error_propagation err (ch_close c)) = Some c1 \<and>
    chan_run_next k quiet_filters c1 = Some c2 \<and> ch_trace c2 = ch_trace c @ [On_Closed, On_Error err]"
proof -
  have "\<not> bit (ch_state c OR k_close_bit) 0" using assms(2) by (simp add: or_bits)
  thus ?thesis using assms
    by (simp add: chan_ops chan_run_next_def handle_close_def fire_on_close_def fire_def quiet_filters_def
        release_def loop_remove_active_def socket_close_def handle_error_propagation_def fire_on_error_def)
qed

lemma error_after_closed_witness:
  "\<exists>c1 c2. chan_run_next short_kernel quiet_filters
       (error_propagation platform_timeout (ch_close channel_new)) = Some c1 \<and>
     chan_run_next short_kernel quiet_filters c1 = Some c2 \<and>
     ch_trace c2 = [On_Closed, On_Error platform_timeout]"
  using error_after_closed[of channel_new platform_timeout short_kernel]
  by (simp add: channel_new_def is_error_def platform_timeout_def platform_error_def)

end
