(* ===== verification/Address.thy ===== *)
theory Address
  imports Prelude
begin

text \<open>
  Internet addresses (\<open>io/ip/address.cpp\<close>): a \<open>sockaddr_storage\<close> of 128 bytes and a length.
  The layouts are those of Linux: the family in the order of the host, which is little-endian,
  the port in network order, then the address. What the storage holds before it is written
  (\<open>junk\<close>), \<open>getaddrinfo\<close> and \<open>getnameinfo\<close> are parameters. An access outside the storage
  is \<open>None\<close>.
\<close>

section \<open>Layouts\<close>

definition AF_INET :: int where "AF_INET = 2"
definition AF_INET6 :: int where "AF_INET6 = 10"
definition storage_size :: nat where "storage_size = 128"

record address =
  addr_storage :: "u8 list"
  addr_length :: nat

definition host16 :: "int \<Rightarrow> u8 list" where
  "host16 v = [word_of_int v, word_of_int (v div 256)]"

definition htons :: "int \<Rightarrow> u8 list" where
  "htons v = [word_of_int (v div 256), word_of_int v]"

definition ntohs :: "u8 list \<Rightarrow> int" where
  "ntohs b = uint (b ! 0) * 256 + uint (b ! 1)"

definition sockaddr_in :: "u8 list \<Rightarrow> int \<Rightarrow> u8 list" where
  "sockaddr_in ip p = host16 AF_INET @ htons p @ ip @ replicate 8 0"

definition sockaddr_in6 :: "u8 list \<Rightarrow> int \<Rightarrow> u8 list" where
  "sockaddr_in6 ip p = host16 AF_INET6 @ htons p @ replicate 4 0 @ ip @ replicate 4 0"

section \<open>Construction\<close>

definition address_new :: address where
  "address_new = \<lparr>addr_storage = replicate storage_size 0, addr_length = storage_size\<rparr>"

definition address_copy :: "address \<Rightarrow> address" where
  "address_copy rhs = \<lparr>addr_storage = addr_storage rhs, addr_length = addr_length rhs\<rparr>"

text \<open>\<open>memcpy\<close> of \<open>n\<close> bytes from \<open>sa\<close> into the storage.\<close>

definition address_set :: "u8 list \<Rightarrow> nat \<Rightarrow> address \<Rightarrow> address option" where
  "address_set sa n a =
     (if length sa < n \<or> storage_size < n then None
      else Some \<lparr>addr_storage = overwrite 0 (take n sa) (addr_storage a), addr_length = n\<rparr>)"

definition address_of :: "u8 list \<Rightarrow> u8 list \<Rightarrow> nat \<Rightarrow> address option" where
  "address_of junk sa n = address_set sa n \<lparr>addr_storage = junk, addr_length = n\<rparr>"

definition address_v4 :: "u8 list \<Rightarrow> u8 list \<Rightarrow> int \<Rightarrow> address" where
  "address_v4 junk ip p = \<lparr>addr_storage = overwrite 0 (sockaddr_in ip p) junk, addr_length = 16\<rparr>"

definition address_v6 :: "u8 list \<Rightarrow> u8 list \<Rightarrow> int \<Rightarrow> address" where
  "address_v6 junk ip p = \<lparr>addr_storage = overwrite 0 (sockaddr_in6 ip p) junk, addr_length = 28\<rparr>"

definition address_assign :: "address \<Rightarrow> address \<Rightarrow> address option" where
  "address_assign a rhs = address_set (addr_storage rhs) (addr_length rhs) a"

definition address_any :: "u8 list \<Rightarrow> int \<Rightarrow> int \<Rightarrow> address" where
  "address_any junk p family =
     (if family = AF_INET6 then address_v6 junk (replicate 16 0) p
      else address_v4 junk (replicate 4 0) p)"

section \<open>Parts\<close>

definition addr_port :: "address \<Rightarrow> int" where
  "addr_port a = ntohs (slice 2 4 (addr_storage a))"

definition addr_family :: "address \<Rightarrow> int" where
  "addr_family a = uint (addr_storage a ! 0) + 256 * uint (addr_storage a ! 1)"

text \<open>\<open>operator==\<close> compares as many bytes as both addresses are long.\<close>

definition addr_eq :: "address \<Rightarrow> address \<Rightarrow> bool" where
  "addr_eq lhs rhs \<longleftrightarrow>
     addr_length lhs = addr_length rhs \<and>
     take (addr_length rhs) (addr_storage lhs) = take (addr_length rhs) (addr_storage rhs)"

definition addr_neq :: "address \<Rightarrow> address \<Rightarrow> bool" where
  "addr_neq lhs rhs \<longleftrightarrow> \<not> addr_eq lhs rhs"

section \<open>Text\<close>

text \<open>
  \<open>inet_ntop\<close> puts the address bytes \<open>src\<close> into a fresh \<open>sockaddr_storage\<close> and gives
  its first bytes to \<open>getnameinfo\<close>; when that fails, or the family is not known, the result
  is the buffer as it was, which \<open>ip_address\<close> has cleared.
\<close>

definition inet_ntop :: "(u8 list \<Rightarrow> string option) \<Rightarrow> u8 list \<Rightarrow> int \<Rightarrow> u8 list \<Rightarrow> string" where
  "inet_ntop getnameinfo junk af src =
     (if af = AF_INET then
        (let storage = overwrite 4 (take 4 src) (overwrite 0 (host16 AF_INET) junk)
         in case getnameinfo (take 16 storage) of None \<Rightarrow> [] | Some s \<Rightarrow> s)
      else if af = AF_INET6 then
        (let storage = overwrite 8 (take 16 src) (overwrite 0 (host16 AF_INET6) junk)
         in case getnameinfo (take 28 storage) of None \<Rightarrow> [] | Some s \<Rightarrow> s)
      else [])"

text \<open>\<open>sin_addr\<close> is at offset 4 whatever the family.\<close>

definition addr_ip_address :: "(u8 list \<Rightarrow> string option) \<Rightarrow> u8 list \<Rightarrow> address \<Rightarrow> string" where
  "addr_ip_address getnameinfo junk a =
     inet_ntop getnameinfo junk (addr_family a) (drop 4 (addr_storage a))"

section \<open>Resolution\<close>

text \<open>\<open>getaddrinfo\<close>: host, port, and the family, socket type and flags of the hints; \<open>None\<close>
  is an error, an entry of the list a \<open>sockaddr\<close> with its length.\<close>

type_synonym addrinfo = "string \<Rightarrow> int \<Rightarrow> int \<times> int \<times> int \<Rightarrow> (u8 list \<times> nat) list option"

definition SOCK_STREAM :: int where "SOCK_STREAM = 1"
definition AI_PASSIVE :: int where "AI_PASSIVE = 1"
definition AF_UNSPEC :: int where "AF_UNSPEC = 0"

definition inet_pton :: "addrinfo \<Rightarrow> int \<Rightarrow> string \<Rightarrow> int \<Rightarrow> address \<Rightarrow> (address \<times> bool) option" where
  "inet_pton gai af host p out =
     (case gai host p (af, 0, 0) of
        None \<Rightarrow> Some (out, False)
      | Some [] \<Rightarrow> Some (out, False)
      | Some ((sa, n) # r) \<Rightarrow> (case address_set sa n out of None \<Rightarrow> None | Some a \<Rightarrow> Some (a, True)))"

definition address_from :: "addrinfo \<Rightarrow> u8 list \<Rightarrow> string \<Rightarrow> int \<Rightarrow> int \<Rightarrow> address option" where
  "address_from gai junk host p family =
     (case inet_pton gai family host p address_new of
        None \<Rightarrow> None
      | Some (resolved, ok) \<Rightarrow>
          if ok then Some resolved else address_assign resolved (address_any junk p family))"

text \<open>The constructor from a name does the same on a storage that is not cleared.\<close>

definition address_of_name :: "addrinfo \<Rightarrow> u8 list \<Rightarrow> u8 list \<Rightarrow> string \<Rightarrow> int \<Rightarrow> int \<Rightarrow> address option" where
  "address_of_name gai junk junk' host p af =
     (case inet_pton gai af host p \<lparr>addr_storage = junk, addr_length = storage_size\<rparr> of
        None \<Rightarrow> None
      | Some (a, ok) \<Rightarrow>
          if ok then Some a
          else address_set (addr_storage (address_any junk' p af)) (addr_length (address_any junk' p af)) a)"

text \<open>The storage of the address built for each entry is not cleared.\<close>

fun resolve_all :: "(nat \<Rightarrow> u8 list) \<Rightarrow> (address \<Rightarrow> bool) \<Rightarrow> (u8 list \<times> nat) list \<Rightarrow> address list \<Rightarrow> address list option" where
  "resolve_all junk ok [] addrs = Some addrs"
| "resolve_all junk ok ((sa, n) # r) addrs =
     (case address_of (junk (length r)) sa n of
        None \<Rightarrow> None
      | Some a \<Rightarrow> resolve_all junk ok r (if ok a then addrs @ [a] else addrs))"

definition resolve_family ::
  "addrinfo \<Rightarrow> (nat \<Rightarrow> u8 list) \<Rightarrow> string \<Rightarrow> int \<Rightarrow> address list \<Rightarrow> int \<Rightarrow> (address list \<times> bool) option" where
  "resolve_family gai junk host p addrs af =
     (case gai host p (AF_UNSPEC, SOCK_STREAM, AI_PASSIVE) of
        None \<Rightarrow> Some (addrs, False)
      | Some res \<Rightarrow>
          (case resolve_all junk (\<lambda>a. addr_family a = af) res addrs of
             None \<Rightarrow> None | Some l \<Rightarrow> Some (l, True)))"

definition resolve :: "addrinfo \<Rightarrow> (nat \<Rightarrow> u8 list) \<Rightarrow> string \<Rightarrow> int \<Rightarrow> address list \<Rightarrow> (address list \<times> bool) option" where
  "resolve gai junk host p addrs =
     (case gai host p (AF_UNSPEC, SOCK_STREAM, AI_PASSIVE) of
        None \<Rightarrow> Some (addrs, False)
      | Some res \<Rightarrow>
          (case resolve_all junk (\<lambda>a. True) res addrs of None \<Rightarrow> None | Some l \<Rightarrow> Some (l, True)))"


section \<open>Properties\<close>

lemma uint_i8 [simp]: "uint (word_of_int v :: u8) = v mod 256"
  by (simp add: uint_word_of_int)

lemma ntohs_htons [simp]: "ntohs (htons v) = v mod 65536"
  using zmod_zmult2_eq[of 256 v 256] by (simp add: ntohs_def htons_def)

lemma htons_eq: "htons p = htons q \<longleftrightarrow> p mod 65536 = q mod 65536"
proof
  assume "htons p = htons q"
  thus "p mod 65536 = q mod 65536" by (metis ntohs_htons)
next
  assume a: "p mod 65536 = q mod 65536"
  have m: "v mod 65536 mod 256 = v mod 256" "v mod 65536 div 256 = v div 256 mod 256" for v :: int
    using zmod_zmult2_eq[of 256 v 256] by simp_all
  have "(word_of_int p :: u8) = word_of_int q" "(word_of_int (p div 256) :: u8) = word_of_int (q div 256)"
    unfolding word_uint_eq_iff uint_i8 using m[of p] m[of q] a by metis+
  thus "htons p = htons q" by (simp only: htons_def)
qed

lemma length_htons [simp]: "length (htons p) = 2"
  by (simp add: htons_def)

lemma length_host16 [simp]: "length (host16 p) = 2"
  by (simp add: host16_def)

lemma length_sockaddr [simp]:
  "length (sockaddr_in ip p) = 12 + length ip" "length (sockaddr_in6 ip p) = 12 + length ip"
  by (simp_all add: sockaddr_in_def sockaddr_in6_def)

lemma take_overwrite_0 [simp]: "take (length xs) (overwrite 0 xs ys) = xs"
  by (simp add: overwrite_def)

lemma addr_parts:
  assumes "addr_storage a = overwrite 0 (host16 fam @ htons p @ r) junk"
  shows "addr_port a = p mod 65536" "0 \<le> fam \<Longrightarrow> fam < 65536 \<Longrightarrow> addr_family a = fam"
  using assms ntohs_htons[of p]
  by (auto simp: addr_port_def addr_family_def overwrite_def slice_def host16_def htons_def ntohs_def)

lemma addr_eq_prefix:
  assumes "addr_storage a = overwrite 0 xs junk" "addr_length a = length xs"
    "addr_storage b = overwrite 0 ys junk'" "addr_length b = length ys"
  shows "addr_eq a b \<longleftrightarrow> xs = ys"
  using assms by (auto simp: addr_eq_def) (metis take_overwrite_0)

text \<open>The constructors of an address from its parts: the family and the port, reduced modulo
  65536, read back; addresses are equal exactly when family, bytes and port agree, whatever the
  storage held before; \<open>any\<close> is the zero address of the family; the length is that of the
  layout.\<close>

theorem address_constructors:
  assumes "length ip = 4" "length ip' = 4" "length ip6 = 16" "length ip6' = 16"
  shows "addr_family (address_v4 j ip p) = AF_INET \<and> addr_port (address_v4 j ip p) = p mod 65536 \<and>
    addr_family (address_v6 j ip6 p) = AF_INET6 \<and> addr_port (address_v6 j ip6 p) = p mod 65536 \<and>
    (addr_eq (address_v4 j ip p) (address_v4 j' ip' p') \<longleftrightarrow> ip = ip' \<and> p mod 65536 = p' mod 65536) \<and>
    (addr_eq (address_v6 j ip6 p) (address_v6 j' ip6' p') \<longleftrightarrow> ip6 = ip6' \<and> p mod 65536 = p' mod 65536) \<and>
    addr_neq (address_v4 j ip p) (address_v6 j' ip6 p') \<and>
    addr_eq (address_any j p fam)
      (if fam = AF_INET6 then address_v6 j' (replicate 16 0) p else address_v4 j' (replicate 4 0) p)"
proof -
  have f: "addr_family (address_v4 j ip p) = AF_INET" "addr_port (address_v4 j ip p) = p mod 65536"
    "addr_family (address_v6 j ip6 p) = AF_INET6" "addr_port (address_v6 j ip6 p) = p mod 65536"
    by (rule addr_parts; simp add: address_v4_def address_v6_def sockaddr_in_def sockaddr_in6_def
        AF_INET_def AF_INET6_def)+
  have e4: "addr_eq (address_v4 j ip p) (address_v4 j' ip' p') \<longleftrightarrow> sockaddr_in ip p = sockaddr_in ip' p'"
    if "length ip = 4" "length ip' = 4" for j j' ip ip' p p'
    using that by (intro addr_eq_prefix) (simp_all add: address_v4_def)
  have e6: "addr_eq (address_v6 j ip p) (address_v6 j' ip' p') \<longleftrightarrow> sockaddr_in6 ip p = sockaddr_in6 ip' p'"
    if "length ip = 16" "length ip' = 16" for j j' ip ip' p p'
    using that by (intro addr_eq_prefix) (simp_all add: address_v6_def)
  have s4: "sockaddr_in ip p = sockaddr_in ip' p' \<longleftrightarrow> ip = ip' \<and> p mod 65536 = p' mod 65536"
    using assms by (auto simp: sockaddr_in_def htons_eq)
  have s6: "sockaddr_in6 ip6 p = sockaddr_in6 ip6' p' \<longleftrightarrow> ip6 = ip6' \<and> p mod 65536 = p' mod 65536"
    using assms by (auto simp: sockaddr_in6_def htons_eq)
  have "addr_neq (address_v4 j ip p) (address_v6 j' ip6 p')"
    by (simp add: addr_neq_def addr_eq_def address_v4_def address_v6_def)
  moreover have "addr_eq (address_any j p fam)
      (if fam = AF_INET6 then address_v6 j' (replicate 16 0) p else address_v4 j' (replicate 4 0) p)"
    by (simp add: address_any_def e4 e6)
  ultimately show ?thesis using f e4 e6 s4 s6 assms by simp
qed

lemma address_constructors_witness:
  "addr_family (address_v4 (replicate 128 7) [127, 0, 0, 1] 65616) = AF_INET \<and>
   addr_port (address_v4 (replicate 128 7) [127, 0, 0, 1] 65616) = 80 \<and>
   addr_eq (address_v4 (replicate 128 7) [127, 0, 0, 1] 65616) (address_v4 (replicate 128 9) [127, 0, 0, 1] 80)"
  using address_constructors[of "[127, 0, 0, 1]" "[127, 0, 0, 1]" "replicate 16 0" "replicate 16 0"
      "replicate 128 7" 65616 "replicate 128 9" 80 0] by simp

text \<open>\<open>ip_address\<close>: for an IPv4 address it asks \<open>getnameinfo\<close> about the address, for
  an IPv6 address about the four bytes of the flow information followed by the first twelve bytes
  of the address, because it takes the address of \<open>sin_addr\<close> for both.\<close>

theorem ip_address_v6_shifted:
  assumes "length ip = 4" "length ip6 = 16"
  shows "addr_ip_address gni j (address_v4 j' ip p) = inet_ntop gni j AF_INET ip \<and>
    addr_ip_address gni j (address_v6 j' ip6 p) = inet_ntop gni j AF_INET6 (replicate 4 0 @ take 12 ip6) \<and>
    (take 12 ip6 = take 12 ip6' \<and> length ip6' = 16 \<longrightarrow>
       addr_ip_address gni j (address_v6 j' ip6 p) = addr_ip_address gni j (address_v6 j' ip6' p))"
proof -
  have f: "addr_family (address_v4 j' ip p) = AF_INET" "addr_family (address_v6 j' x p) = AF_INET6" for x
    by (rule addr_parts; simp add: address_v4_def address_v6_def sockaddr_in_def sockaddr_in6_def
        AF_INET_def AF_INET6_def)+
  have t: "inet_ntop gni j AF_INET xs = inet_ntop gni j AF_INET (take 4 xs)"
    "inet_ntop gni j AF_INET6 xs = inet_ntop gni j AF_INET6 (take 16 xs)" for xs
    by (simp_all add: inet_ntop_def)
  have v6: "addr_ip_address gni j (address_v6 j' x p) = inet_ntop gni j AF_INET6 (replicate 4 0 @ take 12 x)"
    if "length x = 16" for x
    unfolding addr_ip_address_def f using that
    by (subst t) (simp add: address_v6_def overwrite_def sockaddr_in6_def)
  have "addr_ip_address gni j (address_v4 j' ip p) = inet_ntop gni j AF_INET ip"
    unfolding addr_ip_address_def f using assms
    by (subst t) (simp add: address_v4_def overwrite_def sockaddr_in_def)
  thus ?thesis using v6 assms by auto
qed

lemma ip_address_v6_shifted_witness:
  "addr_ip_address (\<lambda>sa. Some (if sa ! 23 = 1 then ''::1'' else ''::'')) (replicate 128 0)
     (address_v6 (replicate 128 0) (replicate 15 0 @ [1]) 80) =
   addr_ip_address (\<lambda>sa. Some (if sa ! 23 = 1 then ''::1'' else ''::'')) (replicate 128 0)
     (address_v6 (replicate 128 0) (replicate 16 0) 80)"
  by (rule conjunct2[OF conjunct2[OF ip_address_v6_shifted[of "[1, 2, 3, 4]"]], THEN mp]) simp_all

text \<open>Resolution keeps the order of the entries and appends those of the family.\<close>

lemma resolve_all_appends:
  "resolve_all junk ok res addrs = Some l \<Longrightarrow>
   \<exists>new. l = addrs @ filter ok new \<and> length new = length res \<and>
     list_all2 (\<lambda>(sa, n) a. addr_length a = n \<and> take n (addr_storage a) = take n sa) res new"
proof (induction junk ok res addrs rule: resolve_all.induct)
  case (2 junk ok sa n r addrs)
  then obtain a where a: "address_of (junk (length r)) sa n = Some a"
    "resolve_all junk ok r (if ok a then addrs @ [a] else addrs) = Some l" by (auto split: option.splits)
  obtain new where "l = (if ok a then addrs @ [a] else addrs) @ filter ok new" "length new = length r"
    "list_all2 (\<lambda>(sa, n) a. addr_length a = n \<and> take n (addr_storage a) = take n sa) r new"
    using 2(1)[OF a] by blast
  moreover have "addr_length a = n" "take n (addr_storage a) = take n sa"
    using a(1) by (auto simp: address_of_def address_set_def overwrite_def split: if_splits)
  ultimately show ?case by (intro exI[of _ "a # new"]) auto
qed auto

end
