(* ===== verification/Socket.thy ===== *)
theory Socket
  imports Address Errors Time "HOL-Library.Monad_Syntax"
begin

text \<open>
  Sockets (\<open>io/ip/socket.cpp\<close>, \<open>socket.hpp\<close>) on Linux, in builds without assertions. A
  socket is its descriptor, -1 when it is invalid. The kernel is a parameter: what it replies to
  a system call after the calls made so far. The calls made, \<open>errno\<close>, the last errors of the
  threads (theory \<open>Errors\<close>) and, for the statements, the bytes the kernel delivered and took
  are the state.
\<close>

section \<open>System calls\<close>

datatype syscall =
  Sys_Socket int int int
| Sys_Close int
| Sys_Shutdown int int
| Sys_Bind int address
| Sys_Listen int int
| Sys_Getsockname int
| Sys_Getpeername int
| Sys_Connect int address
| Sys_Accept int
| Sys_Recv int int int
| Sys_Send int "u8 list" int
| Sys_Recvfrom int int int
| Sys_Sendto int "u8 list" int address
| Sys_Select_Read int "int \<times> int"
| Sys_Select_Write int "int \<times> int"
| Sys_Fcntl_Getfl int
| Sys_Fcntl_Setfl int int
| Sys_Setsockopt int int int "u8 list"
| Sys_Getsockopt int int int
| Sys_Epoll_Register int int
| Sys_Readv int "nat list"
| Sys_Writev int "u8 list list"

text \<open>\<open>r_set\<close> is whether the descriptor is in the set \<open>select\<close> leaves, \<open>r_left\<close> the time it
  leaves, \<open>r_data\<close> what a call writes for the caller. Registering with the poller (theory
  \<open>Event_Loop\<close>) is a call like the others.\<close>

record sys_reply =
  r_ret :: int
  r_errno :: int
  r_data :: "u8 list"
  r_addr :: "u8 list"
  r_set :: bool
  r_left :: "int \<times> int"

type_synonym kernel_calls = "syscall list \<Rightarrow> syscall \<Rightarrow> sys_reply"

record net =
  net_calls :: "syscall list"
  net_errno :: int
  net_thread :: nat
  net_threads :: thread_store
  net_in :: "u8 list"
  net_out :: "u8 list"

definition sys :: "kernel_calls \<Rightarrow> syscall \<Rightarrow> net \<Rightarrow> sys_reply \<times> net" where
  "sys k c n =
     (let r = k (net_calls n) c
      in (r, n\<lparr>net_calls := net_calls n @ [c],
              net_errno := (if r_ret r = -1 then r_errno r else net_errno n)\<rparr>))"

text \<open>\<open>set_last_error( platform::error() )\<close>\<close>

definition set_error :: "net \<Rightarrow> net" where
  "set_error n =
     n\<lparr>net_threads := set_last_error (net_thread n) (platform_error (net_errno n)) (net_threads n)\<rparr>"

definition INVALID_SOCKET :: int where "INVALID_SOCKET = -1"
definition SOCKET_ERROR :: int where "SOCKET_ERROR = -1"
definition SOCK_DGRAM :: int where "SOCK_DGRAM = 2"
definition IPPROTO_TCP :: int where "IPPROTO_TCP = 6"
definition IPPROTO_UDP :: int where "IPPROTO_UDP = 17"
definition EINPROGRESS :: int where "EINPROGRESS = 115"
definition O_NONBLOCK :: int where "O_NONBLOCK = 2048"
definition FD_SETSIZE :: int where "FD_SETSIZE = 1024"

section \<open>Descriptors\<close>

definition sock_open :: "kernel_calls \<Rightarrow> int \<Rightarrow> int \<Rightarrow> int \<Rightarrow> net \<Rightarrow> int \<times> bool \<times> net" where
  "sock_open k family ty protocol n =
     (let (r, n1) = sys k (Sys_Socket family ty protocol) n
      in if r_ret r = INVALID_SOCKET then (r_ret r, False, set_error n1) else (r_ret r, True, n1))"

definition sock_open_tcp :: "kernel_calls \<Rightarrow> int \<Rightarrow> net \<Rightarrow> int \<times> bool \<times> net" where
  "sock_open_tcp k family n =
     (if family = AF_INET6 then sock_open k AF_INET6 SOCK_STREAM IPPROTO_TCP n
      else sock_open k AF_INET SOCK_STREAM IPPROTO_TCP n)"

definition sock_open_udp :: "kernel_calls \<Rightarrow> int \<Rightarrow> net \<Rightarrow> int \<times> bool \<times> net" where
  "sock_open_udp k family n =
     (if family = AF_INET6 then sock_open k AF_INET6 SOCK_DGRAM IPPROTO_UDP n
      else sock_open k AF_INET SOCK_DGRAM IPPROTO_UDP n)"

definition sock_close :: "kernel_calls \<Rightarrow> int \<Rightarrow> net \<Rightarrow> int \<times> net" where
  "sock_close k fd n =
     (if fd \<noteq> INVALID_SOCKET then (INVALID_SOCKET, snd (sys k (Sys_Close fd) n)) else (INVALID_SOCKET, n))"

definition sock_handle :: "int \<Rightarrow> int \<Rightarrow> int \<times> int" where
  "sock_handle fd old = (fd, old)"

definition invalid_socket :: int where
  "invalid_socket = -1"

definition sock_eq :: "int \<Rightarrow> int \<Rightarrow> bool" where
  "sock_eq rhs lhs \<longleftrightarrow> rhs = lhs"

text \<open>A call whose failure is \<open>SOCKET_ERROR\<close> and becomes the last error.\<close>

definition sock_checked :: "kernel_calls \<Rightarrow> syscall \<Rightarrow> net \<Rightarrow> bool \<times> net" where
  "sock_checked k c n =
     (let (r, n1) = sys k c n in if r_ret r = SOCKET_ERROR then (False, set_error n1) else (True, n1))"

definition sock_shutdown :: "kernel_calls \<Rightarrow> int \<Rightarrow> int \<Rightarrow> net \<Rightarrow> bool \<times> net" where
  "sock_shutdown k fd ty n = sock_checked k (Sys_Shutdown fd ty) n"

definition sock_bind :: "kernel_calls \<Rightarrow> int \<Rightarrow> address \<Rightarrow> net \<Rightarrow> bool \<times> net" where
  "sock_bind k fd addr n = sock_checked k (Sys_Bind fd addr) n"

definition sock_listen :: "kernel_calls \<Rightarrow> int \<Rightarrow> int \<Rightarrow> net \<Rightarrow> bool \<times> net" where
  "sock_listen k fd pending n = sock_checked k (Sys_Listen fd pending) n"

text \<open>The kernel writes an address into the storage of an \<open>address\<close> and its length.\<close>

definition addr_written :: "sys_reply \<Rightarrow> address \<Rightarrow> address" where
  "addr_written r a =
     (if r_ret r = -1 then a
      else \<lparr>addr_storage = overwrite 0 (take storage_size (r_addr r)) (addr_storage a),
           addr_length = length (r_addr r)\<rparr>)"

definition local_address :: "kernel_calls \<Rightarrow> int \<Rightarrow> net \<Rightarrow> address \<times> net" where
  "local_address k fd n =
     (let (r, n1) = sys k (Sys_Getsockname fd) n
      in (addr_written r address_new, if r_ret r \<noteq> 0 then set_error n1 else n1))"

definition remote_address :: "kernel_calls \<Rightarrow> int \<Rightarrow> net \<Rightarrow> address \<times> net" where
  "remote_address k fd n =
     (let (r, n1) = sys k (Sys_Getpeername fd) n
      in (addr_written r address_new, if r_ret r \<noteq> 0 then set_error n1 else n1))"

definition sock_connect :: "kernel_calls \<Rightarrow> int \<Rightarrow> address \<Rightarrow> net \<Rightarrow> bool \<times> net" where
  "sock_connect k fd addr n =
     (let (r, n1) = sys k (Sys_Connect fd addr) n
      in if r_ret r \<noteq> 0 then (False, set_error n1) else (True, n1))"

definition sock_accept :: "kernel_calls \<Rightarrow> int \<Rightarrow> address \<Rightarrow> net \<Rightarrow> int \<times> address \<times> net" where
  "sock_accept k fd addr n =
     (let (r, n1) = sys k (Sys_Accept fd) n in (r_ret r, addr_written r addr, n1))"

section \<open>Transfer\<close>

definition sock_recv :: "kernel_calls \<Rightarrow> int \<Rightarrow> int \<Rightarrow> int \<Rightarrow> net \<Rightarrow> int \<times> u8 list \<times> net" where
  "sock_recv k fd sz flag n =
     (let (r, n1) = sys k (Sys_Recv fd sz flag) n;
          bs = take (nat (r_ret r)) (r_data r)
      in (r_ret r, bs, n1\<lparr>net_in := net_in n1 @ bs\<rparr>))"

definition sock_send :: "kernel_calls \<Rightarrow> int \<Rightarrow> u8 list \<Rightarrow> int \<Rightarrow> net \<Rightarrow> int \<times> net" where
  "sock_send k fd buf flag n =
     (let (r, n1) = sys k (Sys_Send fd buf flag) n
      in (r_ret r, n1\<lparr>net_out := net_out n1 @ take (nat (r_ret r)) buf\<rparr>))"

definition sock_recvfrom :: "kernel_calls \<Rightarrow> int \<Rightarrow> int \<Rightarrow> address \<Rightarrow> int \<Rightarrow> net \<Rightarrow> int \<times> u8 list \<times> address \<times> net" where
  "sock_recvfrom k fd sz addr flag n =
     (let (r, n1) = sys k (Sys_Recvfrom fd sz flag) n
      in (r_ret r, take (nat (r_ret r)) (r_data r), addr_written r addr, n1))"

definition sock_sendto :: "kernel_calls \<Rightarrow> int \<Rightarrow> u8 list \<Rightarrow> address \<Rightarrow> int \<Rightarrow> net \<Rightarrow> int \<times> net" where
  "sock_sendto k fd buf addr flag n =
     (let (r, n1) = sys k (Sys_Sendto fd buf flag addr) n in (r_ret r, n1))"

section \<open>Waiting\<close>

text \<open>\<open>select\<close> is repeated while a signal interrupts it; each round waits for the time the
  call before left. \<open>FD_SET\<close> writes outside the set for a descriptor that is negative or at
  least 1024 (\<open>None\<close>).\<close>

partial_function (option) select_loop ::
  "kernel_calls \<Rightarrow> (int \<times> int \<Rightarrow> syscall) \<Rightarrow> int \<times> int \<Rightarrow> net \<Rightarrow> (sys_reply \<times> net) option" where
  "select_loop k c tval n =
     (if r_ret (fst (sys k (c tval) n)) = -1 \<and> r_errno (fst (sys k (c tval) n)) = EINTR
      then select_loop k c (r_left (fst (sys k (c tval) n))) (snd (sys k (c tval) n))
      else Some (sys k (c tval) n))"

definition sock_wait :: "kernel_calls \<Rightarrow> (int \<times> int \<Rightarrow> syscall) \<Rightarrow> int \<Rightarrow> time_span \<Rightarrow> net \<Rightarrow> (bool \<times> net) option" where
  "sock_wait k c fd wait n =
     (if fd = INVALID_SOCKET then Some (False, set_error n)
      else if fd < 0 \<or> FD_SETSIZE \<le> fd then None
      else do {
        (r, n1) \<leftarrow> select_loop k c (ts_to_timeval wait) n;
        Some (if r_ret r \<le> 0 then (False, n1)
              else if \<not> r_set r then (False, set_error n1)
              else (True, n1))
      })"

definition wait_for_recv :: "kernel_calls \<Rightarrow> int \<Rightarrow> time_span \<Rightarrow> net \<Rightarrow> (bool \<times> net) option" where
  "wait_for_recv k fd wait n = sock_wait k (Sys_Select_Read fd) fd wait n"

definition wait_for_send :: "kernel_calls \<Rightarrow> int \<Rightarrow> time_span \<Rightarrow> net \<Rightarrow> (bool \<times> net) option" where
  "wait_for_send k fd wait n = sock_wait k (Sys_Select_Write fd) fd wait n"

section \<open>Operations with a time-out\<close>

definition connect_time_out :: "kernel_calls \<Rightarrow> int \<Rightarrow> address \<Rightarrow> time_span \<Rightarrow> net \<Rightarrow> (bool \<times> net) option" where
  "connect_time_out k fd addr wait n =
     (let (ok, n1) = sock_connect k fd addr n
      in if ok then Some (True, n1)
         else if net_errno n1 \<noteq> EINPROGRESS then Some (False, n1)
         else wait_for_send k fd wait n1)"

partial_function (option) send_all_loop ::
  "kernel_calls \<Rightarrow> int \<Rightarrow> u8 list \<Rightarrow> time_span \<Rightarrow> int \<Rightarrow> net \<Rightarrow> (bool \<times> net) option" where
  "send_all_loop k fd buf wait sendsize n =
     (if sendsize < int (length buf) then
        (case sock_send k fd (drop (nat sendsize) buf) 0 n of
           (ret, n1) \<Rightarrow>
             if ret \<le> 0 then Some (False, set_error n1)
             else do {
               (ok, n2) \<leftarrow> wait_for_send k fd wait n1;
               if \<not> ok then Some (False, n2) else send_all_loop k fd buf wait (sendsize + ret) n2
             })
      else Some (True, n))"

definition send_time_out :: "kernel_calls \<Rightarrow> int \<Rightarrow> u8 list \<Rightarrow> time_span \<Rightarrow> net \<Rightarrow> (bool \<times> net) option" where
  "send_time_out k fd buf wait n = send_all_loop k fd buf wait 0 n"

definition recv_time_out :: "kernel_calls \<Rightarrow> int \<Rightarrow> int \<Rightarrow> time_span \<Rightarrow> net \<Rightarrow> (int \<times> u8 list \<times> net) option" where
  "recv_time_out k fd sz wait n = do {
     (ok, n1) \<leftarrow> wait_for_recv k fd wait n;
     Some (if ok then
             (let (ret, bs, n2) = sock_recv k fd sz 0 n1
              in (ret, bs, if ret \<le> 0 then set_error n2 else n2))
           else (SOCKET_ERROR, [], n1))
   }"

text \<open>The buffer holds the bytes received so far at its beginning.\<close>

partial_function (option) recv_loop ::
  "kernel_calls \<Rightarrow> int \<Rightarrow> int \<Rightarrow> time_span \<Rightarrow> u8 list \<Rightarrow> int \<Rightarrow> net \<Rightarrow> (bool \<times> u8 list \<times> net) option" where
  "recv_loop k fd reqsize wait buf recvsize n =
     (if recvsize < reqsize then
        do {
          (ret, bs, n1) \<leftarrow> recv_time_out k fd (reqsize - recvsize) wait n;
          if ret \<le> 0 then Some (False, overwrite (nat recvsize) bs buf, n1)
          else recv_loop k fd reqsize wait (overwrite (nat recvsize) bs buf) (recvsize + ret) n1
        }
      else Some (True, buf, n))"

definition recv_fixed_size ::
  "kernel_calls \<Rightarrow> int \<Rightarrow> u8 list \<Rightarrow> int \<Rightarrow> time_span \<Rightarrow> net \<Rightarrow> (bool \<times> u8 list \<times> net) option" where
  "recv_fixed_size k fd buf sz wait n = recv_loop k fd sz wait buf 0 n"

text \<open>The overloads in milliseconds.\<close>

definition connect_time_out_ms :: "kernel_calls \<Rightarrow> int \<Rightarrow> address \<Rightarrow> int \<Rightarrow> net \<Rightarrow> (bool \<times> net) option" where
  "connect_time_out_ms k fd addr msec n = connect_time_out k fd addr (ts_from_milli_seconds msec) n"

definition send_time_out_ms :: "kernel_calls \<Rightarrow> int \<Rightarrow> u8 list \<Rightarrow> int \<Rightarrow> net \<Rightarrow> (bool \<times> net) option" where
  "send_time_out_ms k fd buf msec n = send_time_out k fd buf (ts_from_milli_seconds msec) n"

definition recv_time_out_ms :: "kernel_calls \<Rightarrow> int \<Rightarrow> int \<Rightarrow> int \<Rightarrow> net \<Rightarrow> (int \<times> u8 list \<times> net) option" where
  "recv_time_out_ms k fd sz msec n = recv_time_out k fd sz (ts_from_milli_seconds msec) n"

definition recv_fixed_size_ms ::
  "kernel_calls \<Rightarrow> int \<Rightarrow> u8 list \<Rightarrow> int \<Rightarrow> int \<Rightarrow> net \<Rightarrow> (bool \<times> u8 list \<times> net) option" where
  "recv_fixed_size_ms k fd buf sz msec n = recv_fixed_size k fd buf sz (ts_from_milli_seconds msec) n"

section \<open>Options\<close>

definition set_option :: "(int \<Rightarrow> net \<Rightarrow> bool \<times> net) \<Rightarrow> int \<Rightarrow> net \<Rightarrow> bool \<times> net" where
  "set_option opt fd n = (if fd \<noteq> INVALID_SOCKET then opt fd n else (False, n))"

definition get_option :: "(int \<Rightarrow> net \<Rightarrow> 'a option \<times> net) \<Rightarrow> int \<Rightarrow> net \<Rightarrow> 'a option \<times> net" where
  "get_option opt fd n = (if fd \<noteq> INVALID_SOCKET then opt fd n else (None, n))"

definition blocking :: "kernel_calls \<Rightarrow> int \<Rightarrow> net \<Rightarrow> bool \<times> net" where
  "blocking k fd n =
     (let (x, n1) = sys k (Sys_Fcntl_Getfl fd) n;
          (r, n2) = sys k (Sys_Fcntl_Setfl fd (r_ret x AND NOT O_NONBLOCK)) n1
      in (r_ret r \<noteq> -1, n2))"

definition non_blocking :: "kernel_calls \<Rightarrow> int \<Rightarrow> net \<Rightarrow> bool \<times> net" where
  "non_blocking k fd n =
     (let (x, n1) = sys k (Sys_Fcntl_Getfl fd) n;
          (r, n2) = sys k (Sys_Fcntl_Setfl fd (r_ret x OR O_NONBLOCK)) n1
      in (r_ret r \<noteq> -1, n2))"

definition value_option_set :: "kernel_calls \<Rightarrow> int \<Rightarrow> int \<Rightarrow> u8 list \<Rightarrow> int \<Rightarrow> net \<Rightarrow> bool \<times> net" where
  "value_option_set k level opt value fd n =
     (let (r, n1) = sys k (Sys_Setsockopt fd level opt value) n in (r_ret r \<noteq> SOCKET_ERROR, n1))"

definition value_option_get :: "kernel_calls \<Rightarrow> int \<Rightarrow> int \<Rightarrow> int \<Rightarrow> net \<Rightarrow> u8 list option \<times> net" where
  "value_option_get k level opt fd n =
     (let (r, n1) = sys k (Sys_Getsockopt fd level opt) n
      in (if r_ret r \<noteq> SOCKET_ERROR then Some (r_data r) else None, n1))"


section \<open>Properties\<close>

text \<open>What \<open>recv\<close>, \<open>send\<close> and \<open>select\<close> promise: no more than was asked for, and
  signals that stop interrupting once \<open>m\<close> calls were made.\<close>

definition kernel_ok :: "kernel_calls \<Rightarrow> bool" where
  "kernel_ok k \<longleftrightarrow>
     (\<forall>h fd sz fl. 0 \<le> sz \<longrightarrow> r_ret (k h (Sys_Recv fd sz fl)) \<le> sz \<and>
        (0 \<le> r_ret (k h (Sys_Recv fd sz fl)) \<longrightarrow>
           int (length (r_data (k h (Sys_Recv fd sz fl)))) = r_ret (k h (Sys_Recv fd sz fl)))) \<and>
     (\<forall>h fd bs fl. r_ret (k h (Sys_Send fd bs fl)) \<le> int (length bs))"

definition quiet_after :: "kernel_calls \<Rightarrow> nat \<Rightarrow> bool" where
  "quiet_after k m \<longleftrightarrow> (\<forall>h c. m \<le> length h \<longrightarrow> \<not> (r_ret (k h c) = -1 \<and> r_errno (k h c) = EINTR))"

lemma sys_simps [simp]:
  "fst (sys k c n) = k (net_calls n) c"
  "net_calls (snd (sys k c n)) = net_calls n @ [c]"
  "net_in (snd (sys k c n)) = net_in n" "net_out (snd (sys k c n)) = net_out n"
  by (simp_all add: sys_def Let_def)

lemma set_error_simps [simp]:
  "net_calls (set_error n) = net_calls n" "net_in (set_error n) = net_in n" "net_out (set_error n) = net_out n"
  by (simp_all add: set_error_def)

lemma select_loop_returns:
  assumes "quiet_after k m"
  shows "\<exists>r n'. select_loop k c tval n = Some (r, n') \<and> net_in n' = net_in n \<and> net_out n' = net_out n"
proof (induction "m - length (net_calls n)" arbitrary: tval n rule: less_induct)
  case less
  show ?case
  proof (cases "r_ret (k (net_calls n) (c tval)) = -1 \<and> r_errno (k (net_calls n) (c tval)) = EINTR")
    case True
    hence "length (net_calls n) < m" using assms by (auto simp: quiet_after_def not_le[symmetric])
    thus ?thesis
      using less[of "snd (sys k (c tval) n)" "r_left (k (net_calls n) (c tval))"] True
      by (subst select_loop.simps) auto
  next
    case False
    thus ?thesis by (subst select_loop.simps) (auto simp: prod_eq_iff)
  qed
qed

abbreviation fd_ok :: "int \<Rightarrow> bool" where
  "fd_ok fd \<equiv> fd = INVALID_SOCKET \<or> 0 \<le> fd \<and> fd < FD_SETSIZE"

lemma sock_wait_returns:
  assumes "quiet_after k m" "fd_ok fd"
  shows "\<exists>ok n'. sock_wait k c fd wait n = Some (ok, n') \<and> net_in n' = net_in n \<and> net_out n' = net_out n"
  using assms(2) select_loop_returns[OF assms(1), of c "ts_to_timeval wait" n] by (auto simp: sock_wait_def)

lemma sock_recv_ok:
  assumes "kernel_ok k" "0 \<le> sz" "sock_recv k fd sz fl n = (ret, bs, n')"
  shows "ret \<le> sz" "length bs = nat ret" "net_in n' = net_in n @ bs"
proof -
  let ?r = "k (net_calls n) (Sys_Recv fd sz fl)"
  have r: "ret = r_ret ?r" "bs = take (nat (r_ret ?r)) (r_data ?r)" "net_in n' = net_in n @ bs"
    using assms(3) by (auto simp: sock_recv_def sys_def Let_def)
  have k: "r_ret ?r \<le> sz" "0 \<le> r_ret ?r \<Longrightarrow> int (length (r_data ?r)) = r_ret ?r"
    using assms(1,2) by (auto simp: kernel_ok_def)
  show "ret \<le> sz" "length bs = nat ret" "net_in n' = net_in n @ bs"
    using r k by (cases "0 \<le> r_ret ?r"; simp)+
qed

lemma recv_time_out_returns:
  assumes "kernel_ok k" "quiet_after k m" "fd_ok fd" "0 \<le> sz"
  shows "\<exists>ret bs n'. recv_time_out k fd sz wait n = Some (ret, bs, n') \<and> ret \<le> sz \<and>
    length bs = nat ret \<and> net_in n' = net_in n @ bs"
proof -
  obtain ok n1 where w: "wait_for_recv k fd wait n = Some (ok, n1)" "net_in n1 = net_in n"
    using sock_wait_returns[OF assms(2,3), of "Sys_Select_Read fd" wait n] by (auto simp: wait_for_recv_def)
  show ?thesis
  proof (cases ok)
    case True
    obtain ret bs n2 where r: "sock_recv k fd sz 0 n1 = (ret, bs, n2)" by (cases "sock_recv k fd sz 0 n1") auto
    thus ?thesis using sock_recv_ok[OF assms(1,4) r] w True by (simp add: recv_time_out_def)
  next
    case False
    thus ?thesis using w assms(4) by (simp add: recv_time_out_def SOCKET_ERROR_def)
  qed
qed

lemma overwrite_twice:
  "i + length xs + length ys \<le> length buf \<Longrightarrow>
   overwrite (i + length xs) ys (overwrite i xs buf) = overwrite i (xs @ ys) buf"
  by (simp add: overwrite_def ac_simps)

lemma recv_loop_returns:
  assumes "kernel_ok k" "quiet_after k m" "fd_ok fd"
  shows "int (length got) \<le> sz \<Longrightarrow> sz \<le> int (length buf) \<Longrightarrow>
    \<exists>ok bs n'. recv_loop k fd sz wait (overwrite 0 got buf) (int (length got)) n =
      Some (ok, overwrite 0 (got @ bs) buf, n') \<and> net_in n' = net_in n @ bs \<and>
      int (length (got @ bs)) \<le> sz \<and> (ok \<longleftrightarrow> int (length (got @ bs)) = sz)"
proof (induction "nat (sz - int (length got))" arbitrary: got n rule: less_induct)
  case less
  show ?case
  proof (cases "int (length got) < sz")
    case False
    thus ?thesis using less.prems by (subst recv_loop.simps) (auto intro: exI[of _ "[]"])
  next
    case True
    obtain ret bs n1 where r: "recv_time_out k fd (sz - int (length got)) wait n = Some (ret, bs, n1)"
      "ret \<le> sz - int (length got)" "length bs = nat ret" "net_in n1 = net_in n @ bs"
      using recv_time_out_returns[OF assms, of "sz - int (length got)" wait n] True by auto
    have o: "overwrite (length got) bs (overwrite 0 got buf) = overwrite 0 (got @ bs) buf"
      using overwrite_twice[of 0 got bs buf] r less.prems True by simp
    show ?thesis
    proof (cases "ret \<le> 0")
      case True': True
      thus ?thesis using r o True by (subst recv_loop.simps) (auto intro: exI[of _ "[]"])
    next
      case False
      obtain ok cs n' where "recv_loop k fd sz wait (overwrite 0 (got @ bs) buf) (int (length (got @ bs))) n1 =
          Some (ok, overwrite 0 ((got @ bs) @ cs) buf, n')" "net_in n' = net_in n1 @ cs"
        "int (length ((got @ bs) @ cs)) \<le> sz" "ok \<longleftrightarrow> int (length ((got @ bs) @ cs)) = sz"
        using less.hyps[of "got @ bs" n1] r less.prems False True by auto
      thus ?thesis using r o True False by (subst recv_loop.simps) (auto intro!: exI[of _ "bs @ cs"])
    qed
  qed
qed

text \<open>C38. \<open>recv_fixed_size\<close>: once signals stop interrupting \<open>select\<close> it returns; the bytes
  delivered on the socket are at the beginning of the buffer, in order, the rest of the buffer is
  untouched, nothing beyond the size asked for is taken from the socket, and the result is true
  exactly when the size was reached.\<close>

theorem recv_fixed_size_exact:
  assumes "kernel_ok k" "quiet_after k m" "fd = INVALID_SOCKET \<or> 0 \<le> fd \<and> fd < FD_SETSIZE"
    "0 \<le> sz" "sz \<le> int (length buf)"
  shows "\<exists>ok bs n'. recv_fixed_size k fd buf sz wait n = Some (ok, overwrite 0 bs buf, n') \<and>
    net_in n' = net_in n @ bs \<and> int (length bs) \<le> sz \<and> (ok \<longleftrightarrow> int (length bs) = sz)"
  using recv_loop_returns[OF assms(1-3), of "[]" sz buf wait n] assms(4,5) by (simp add: recv_fixed_size_def)

text \<open>A kernel that delivers 1, 2, 3 one byte at a time, is interrupted once, and is always
  ready.\<close>

definition trickle :: kernel_calls where
  "trickle h c =
     (case c of
        Sys_Recv fd sz fl \<Rightarrow> \<lparr>r_ret = min 1 sz, r_errno = 0, r_data = take (nat (min 1 sz)) [of_nat (length h div 2)],
                              r_addr = [], r_set = True, r_left = (0, 0)\<rparr>
      | Sys_Send fd bs fl \<Rightarrow> \<lparr>r_ret = int (length bs), r_errno = 0, r_data = [],
                              r_addr = [], r_set = True, r_left = (0, 0)\<rparr>
      | _ \<Rightarrow> if length h = 0 then \<lparr>r_ret = -1, r_errno = EINTR, r_data = [], r_addr = [], r_set = False, r_left = (0, 7)\<rparr>
            else if 5 < length h then \<lparr>r_ret = 0, r_errno = 0, r_data = [], r_addr = [], r_set = False, r_left = (0, 0)\<rparr>
            else \<lparr>r_ret = 1, r_errno = 0, r_data = [], r_addr = [], r_set = True, r_left = (0, 0)\<rparr>)"

definition net_new :: net where
  "net_new = \<lparr>net_calls = [], net_errno = 0, net_thread = 0,
     net_threads = \<lparr>ts_data = (\<lambda>t. None), ts_error = (\<lambda>d. no_error)\<rparr>, net_in = [], net_out = []\<rparr>"

lemma trickle_ok: "kernel_ok trickle" "quiet_after trickle 1"
  by (auto simp: kernel_ok_def quiet_after_def trickle_def EINTR_def split: syscall.splits)

lemma recv_fixed_size_exact_witness:
  "\<exists>ok bs n'. recv_fixed_size trickle 5 [9, 9, 9, 9] 3 1000 net_new = Some (ok, overwrite 0 bs [9, 9, 9, 9], n') \<and>
    net_in n' = bs \<and> length bs \<le> 3 \<and> (ok \<longleftrightarrow> length bs = 3)"
  using recv_fixed_size_exact[OF trickle_ok, of 5 3 "[9, 9, 9, 9]" 1000 net_new]
  by (simp add: net_new_def INVALID_SOCKET_def FD_SETSIZE_def)

lemma sock_send_ok:
  assumes "kernel_ok k" "sock_send k fd bs fl n = (ret, n')"
  shows "ret \<le> int (length bs)" "net_out n' = net_out n @ take (nat ret) bs"
    "ret = r_ret (k (net_calls n) (Sys_Send fd bs fl))"
    "net_calls n' = net_calls n @ [Sys_Send fd bs fl]"
  using assms by (auto simp: sock_send_def sys_def Let_def kernel_ok_def)

lemma send_all_loop_returns:
  assumes "kernel_ok k" "quiet_after k m" "fd_ok fd"
  shows "i \<le> length buf \<Longrightarrow>
    \<exists>ok j n'. send_all_loop k fd buf wait (int i) n = Some (ok, n') \<and>
      net_out n' = net_out n @ take j (drop i buf) \<and> i + j \<le> length buf \<and> (ok \<longrightarrow> i + j = length buf)"
proof (induction "length buf - i" arbitrary: i n rule: less_induct)
  case less
  show ?case
  proof (cases "i < length buf")
    case False
    thus ?thesis using less.prems by (subst send_all_loop.simps) (auto intro!: exI[of _ 0])
  next
    case True
    obtain ret n1 where s: "sock_send k fd (drop i buf) 0 n = (ret, n1)" by (cases "sock_send k fd (drop i buf) 0 n") auto
    note so = sock_send_ok[OF assms(1) s]
    show ?thesis
    proof (cases "ret \<le> 0")
      case True': True
      thus ?thesis using s so True by (subst send_all_loop.simps) (auto intro!: exI[of _ 0])
    next
      case False
      obtain ok n2 where w: "wait_for_send k fd wait n1 = Some (ok, n2)" "net_out n2 = net_out n1"
        using sock_wait_returns[OF assms(2,3), of "Sys_Select_Write fd" wait n1] by (auto simp: wait_for_send_def)
      show ?thesis
      proof (cases ok)
        case nok: False
        have "send_all_loop k fd buf wait (int i) n = Some (False, n2)"
          using nok s w True False by (subst send_all_loop.simps) simp
        thus ?thesis using so(1,2) w(2) True False
          by (intro exI[of _ False] exI[of _ "nat ret"] exI[of _ n2]) simp
      next
        case ok: True
        have i': "i + nat ret \<le> length buf" using so(1) True False by simp
        obtain ok' j n' where r: "send_all_loop k fd buf wait (int (i + nat ret)) n2 = Some (ok', n')"
          "net_out n' = net_out n2 @ take j (drop (i + nat ret) buf)" "i + nat ret + j \<le> length buf"
          "ok' \<longrightarrow> i + nat ret + j = length buf"
          using less.hyps[OF _ i', of n2] True False by (auto simp: diff_less_mono2)
        have "take (nat ret) (drop i buf) @ take j (drop (i + nat ret) buf) = take (nat ret + j) (drop i buf)"
          by (simp add: take_add) (simp add: add.commute)
        moreover have "send_all_loop k fd buf wait (int i) n = Some (ok', n')"
          using ok s w True False r(1) by (subst send_all_loop.simps) simp
        ultimately show ?thesis using so(2) w(2) r(2-4)
          by (intro exI[of _ ok'] exI[of _ "nat ret + j"] exI[of _ n']) (simp add: ac_simps)
      qed
    qed
  qed
qed

text \<open>\<open>send_time_out\<close>: once signals stop interrupting \<open>select\<close> it returns; the kernel
  has taken a prefix of the buffer, all of it when the result is true. The converse fails: after
  the last bytes are sent the function still waits for the socket to be writable, and when that
  wait runs out it reports failure for a buffer that was sent completely.\<close>

theorem send_time_out_prefix:
  assumes "kernel_ok k" "quiet_after k m" "0 \<le> fd" "fd < FD_SETSIZE"
  shows "(\<exists>ok j n'. send_time_out k fd buf wait n = Some (ok, n') \<and> j \<le> length buf \<and>
      net_out n' = net_out n @ take j buf \<and> (ok \<longrightarrow> j = length buf)) \<and>
    (buf \<noteq> [] \<and> r_ret (k (net_calls n) (Sys_Send fd buf 0)) = int (length buf) \<and>
       r_ret (k (net_calls n @ [Sys_Send fd buf 0]) (Sys_Select_Write fd (ts_to_timeval wait))) = 0 \<longrightarrow>
     (\<exists>n'. send_time_out k fd buf wait n = Some (False, n') \<and> net_out n' = net_out n @ buf))"
proof
  show "\<exists>ok j n'. send_time_out k fd buf wait n = Some (ok, n') \<and> j \<le> length buf \<and>
      net_out n' = net_out n @ take j buf \<and> (ok \<longrightarrow> j = length buf)"
    using send_all_loop_returns[OF assms(1,2), of fd 0 buf wait n] assms(3,4) by (simp add: send_time_out_def) blast
  show "buf \<noteq> [] \<and> r_ret (k (net_calls n) (Sys_Send fd buf 0)) = int (length buf) \<and>
       r_ret (k (net_calls n @ [Sys_Send fd buf 0]) (Sys_Select_Write fd (ts_to_timeval wait))) = 0 \<longrightarrow>
     (\<exists>n'. send_time_out k fd buf wait n = Some (False, n') \<and> net_out n' = net_out n @ buf)"
  proof (intro impI, elim conjE)
    assume a: "buf \<noteq> []" "r_ret (k (net_calls n) (Sys_Send fd buf 0)) = int (length buf)"
      "r_ret (k (net_calls n @ [Sys_Send fd buf 0]) (Sys_Select_Write fd (ts_to_timeval wait))) = 0"
    obtain ret n1 where s: "sock_send k fd buf 0 n = (ret, n1)" by (cases "sock_send k fd buf 0 n") auto
    note so = sock_send_ok[OF assms(1) s]
    have "select_loop k (Sys_Select_Write fd) (ts_to_timeval wait) n1 =
        Some (sys k (Sys_Select_Write fd (ts_to_timeval wait)) n1)"
      using a(3) so by (subst select_loop.simps) simp
    hence "\<exists>n2. wait_for_send k fd wait n1 = Some (False, n2) \<and> net_out n2 = net_out n1"
      using a(3) so assms(3,4)
      by (auto simp: wait_for_send_def sock_wait_def INVALID_SOCKET_def sys_def Let_def)
    then obtain n2 where "wait_for_send k fd wait n1 = Some (False, n2)" "net_out n2 = net_out n1" by blast
    thus "\<exists>n'. send_time_out k fd buf wait n = Some (False, n') \<and> net_out n' = net_out n @ buf"
      unfolding send_time_out_def using s so a by (subst send_all_loop.simps) auto
  qed
qed

lemma send_time_out_prefix_witness:
  "(\<exists>ok j n'. send_time_out trickle 5 [1, 2] 1000 net_new = Some (ok, n') \<and> j \<le> 2 \<and> net_out n' = take j [1, 2] \<and>
     (ok \<longrightarrow> j = 2)) \<and>
   (\<exists>n'. send_time_out trickle 5 [1, 2] 1000 (net_new\<lparr>net_calls := replicate 5 (Sys_Close 9)\<rparr>) = Some (False, n') \<and>
     net_out n' = [1, 2])"
  using send_time_out_prefix[OF trickle_ok, of 5 "[1, 2]" 1000 net_new]
    send_time_out_prefix[OF trickle_ok, of 5 "[1, 2]" 1000 "net_new\<lparr>net_calls := replicate 5 (Sys_Close 9)\<rparr>"]
  by (simp add: net_new_def FD_SETSIZE_def trickle_def numeral_2_eq_2)

text \<open>Closing is idempotent: the second call makes no system call.\<close>

lemma sock_close_twice: "sock_close k (fst (sock_close k fd n)) n' = (INVALID_SOCKET, n')"
  by (simp add: sock_close_def)

text \<open>Options of an invalid socket fail without a system call.\<close>

lemma options_invalid [simp]:
  "set_option opt INVALID_SOCKET n = (False, n)" "get_option opt' INVALID_SOCKET n = (None, n)"
  by (simp_all add: set_option_def get_option_def)

end
