(* ===== verification/Udp_Channel.thy ===== *)
theory Udp_Channel
  imports Socket Tcp_Channel
begin

text \<open>
  A UDP channel on Linux (\<open>io/ip/udp/channel_epoll.cpp\<close>) and the functions that start one
  (\<open>io/ip/udp/bootstrap.cpp\<close>). Its life is that of a TCP channel (theory \<open>Tcp_Channel\<close>): the
  proofs view it as one and use the contract stated there. It has no send queue: a datagram is sent
  where it is written, so that an error of \<open>sendto\<close> calls the pipeline inside the call that wrote.
  The kernel and the filters of the pipeline are parameters.
\<close>

section \<open>State\<close>

datatype udp_event =
  Udp_Open
| Udp_Read address "u8 list"
| Udp_Error error_code
| Udp_Closed

datatype udp_task =
  Udp_Do_Close
| Udp_Do_Error
| Udp_Write_Shot address "u8 list"
| Udp_Continue_Shot

text \<open>The fields are those of the TCP channel; \<open>uc_wire\<close> is the datagrams the kernel has taken,
  with their destinations.\<close>

record udp_channel =
  uc_state :: u32
  uc_refs :: int
  uc_reg_events :: int
  uc_evt :: int
  uc_prop_error :: error_code
  uc_open :: bool
  uc_deleted :: bool
  uc_pending :: "udp_task list"
  uc_handles :: int
  uc_interest :: "int option"
  uc_calls :: nat
  uc_wire :: "(address \<times> u8 list) list"
  uc_trace :: "udp_event list"
  uc_fault :: bool

text \<open>The kernel: what the \<open>n\<close>-th system call of the channel returns; a datagram comes with the
  \<open>sockaddr\<close> of its sender. \<open>uk_errno n\<close> is what \<open>errno\<close> holds after \<open>n\<close> calls when the last
  one has not failed and so has not set it.\<close>

datatype send_result = Sent nat | Send_Failed int
datatype recv_result = Datagram "u8 list" "u8 list" | Recv_Failed int

record udp_io =
  uk_sendto :: "nat \<Rightarrow> address \<Rightarrow> u8 list \<Rightarrow> send_result"
  uk_recvfrom :: "nat \<Rightarrow> nat \<Rightarrow> recv_result"
  uk_errno :: "nat \<Rightarrow> int"
  uk_register :: "nat \<Rightarrow> int option"
  uk_so_error :: "nat \<Rightarrow> int option"

record udp_filters =
  udp_in_bound :: "udp_event \<Rightarrow> udp_channel \<Rightarrow> udp_channel"
  udp_out_bound :: "address \<Rightarrow> u8 list \<Rightarrow> udp_channel \<Rightarrow> udp_channel"

definition udp_channel_new :: udp_channel where
  "udp_channel_new =
     \<lparr>uc_state = 0, uc_refs = 0, uc_reg_events = 0, uc_evt = 0, uc_prop_error = no_error,
      uc_open = True, uc_deleted = False, uc_pending = [], uc_handles = 0, uc_interest = None,
      uc_calls = 0, uc_wire = [], uc_trace = [], uc_fault = False\<rparr>"

section \<open>References, bits and tasks\<close>

definition udp_touch :: "udp_channel \<Rightarrow> udp_channel" where
  "udp_touch u = u\<lparr>uc_fault := uc_fault u \<or> uc_deleted u\<rparr>"

definition udp_retain :: "udp_channel \<Rightarrow> udp_channel" where
  "udp_retain u = (udp_touch u)\<lparr>uc_refs := uc_refs u + 1\<rparr>"

definition udp_release :: "udp_channel \<Rightarrow> udp_channel" where
  "udp_release u =
     (udp_touch u)\<lparr>uc_refs := uc_refs u - 1, uc_deleted := uc_deleted u \<or> uc_refs u - 1 = 0\<rparr>"

definition udp_is_bits_on :: "u32 \<Rightarrow> udp_channel \<Rightarrow> bool" where
  "udp_is_bits_on b u \<longleftrightarrow> uc_state u AND b \<noteq> 0"

definition udp_fetch_or :: "u32 \<Rightarrow> udp_channel \<Rightarrow> udp_channel \<times> bool" where
  "udp_fetch_or b u = (u\<lparr>uc_state := uc_state u OR b\<rparr>, uc_state u AND b \<noteq> 0)"

definition udp_execute :: "udp_task \<Rightarrow> udp_channel \<Rightarrow> udp_channel" where
  "udp_execute t u = u\<lparr>uc_pending := uc_pending u @ [t]\<rparr>"

definition udp_close :: "udp_channel \<Rightarrow> udp_channel" where
  "udp_close u =
     (let (u1, was) = udp_fetch_or k_close_bit (udp_touch u)
      in if was then u1 else udp_execute Udp_Do_Close (udp_retain u1))"

definition udp_write :: "address \<Rightarrow> u8 list \<Rightarrow> udp_channel \<Rightarrow> udp_channel" where
  "udp_write addr msg u = udp_execute (Udp_Write_Shot addr msg) (udp_retain u)"

definition udp_pending_read :: "udp_channel \<Rightarrow> udp_channel" where
  "udp_pending_read u = (udp_touch u)\<lparr>uc_state := uc_state u OR k_read_pending_bit\<rparr>"

definition udp_continue_read :: "udp_channel \<Rightarrow> udp_channel" where
  "udp_continue_read u =
     (let old = uc_state u;
          u1 = (udp_touch u)\<lparr>uc_state := old XOR NOT k_read_pending_bit\<rparr>
      in if old AND k_read_pending_bit \<noteq> 0 then udp_execute Udp_Continue_Shot (udp_retain u1) else u1)"

definition udp_error_propagation :: "error_code \<Rightarrow> udp_channel \<Rightarrow> udp_channel" where
  "udp_error_propagation err u =
     (let (u1, was) = udp_fetch_or k_error_bit (udp_touch u)
      in if was then u1
         else udp_execute Udp_Do_Error ((udp_retain u1)\<lparr>uc_prop_error := err\<rparr>))"

section \<open>Registration and callbacks\<close>

definition udp_register_handle :: "udp_io \<Rightarrow> udp_channel \<Rightarrow> udp_channel" where
  "udp_register_handle k u =
     (if udp_is_bits_on (k_error_bit OR k_close_bit) u then u
      else
        let e = (if udp_is_bits_on k_read_pending_bit u then 0 else EPOLL_IN)
        in if uc_reg_events u \<noteq> e then
             (let u1 = u\<lparr>uc_reg_events := e, uc_evt := e, uc_calls := Suc (uc_calls u)\<rparr>
              in case uk_register k (uc_calls u) of
                   None \<Rightarrow> u1\<lparr>uc_interest := Some e\<rparr>
                 | Some err \<Rightarrow> udp_error_propagation (epoll_error err) u1)
           else u)"

definition udp_fire :: "udp_filters \<Rightarrow> udp_event \<Rightarrow> udp_channel \<Rightarrow> udp_channel" where
  "udp_fire p e u = udp_in_bound p e (u\<lparr>uc_trace := uc_trace u @ [e]\<rparr>)"

definition udp_add_active :: "udp_channel \<Rightarrow> udp_channel" where
  "udp_add_active u = u\<lparr>uc_handles := uc_handles u + 1\<rparr>"

definition udp_remove_active :: "udp_channel \<Rightarrow> udp_channel" where
  "udp_remove_active u = u\<lparr>uc_handles := uc_handles u - 1\<rparr>"

definition udp_socket_close :: "udp_channel \<Rightarrow> udp_channel" where
  "udp_socket_close u = u\<lparr>uc_open := False, uc_interest := None\<rparr>"

definition udp_fire_on_open :: "udp_io \<Rightarrow> udp_filters \<Rightarrow> udp_channel \<Rightarrow> udp_channel" where
  "udp_fire_on_open k p u =
     udp_fire p Udp_Open (udp_add_active (udp_register_handle k (udp_retain u)))"

definition udp_fire_on_read :: "udp_filters \<Rightarrow> address \<Rightarrow> u8 list \<Rightarrow> udp_channel \<Rightarrow> udp_channel" where
  "udp_fire_on_read p addr msg u = udp_fire p (Udp_Read addr msg) u"

definition udp_fire_on_error :: "udp_filters \<Rightarrow> error_code \<Rightarrow> udp_channel \<Rightarrow> udp_channel" where
  "udp_fire_on_error p ec u = udp_fire p (Udp_Error ec) (udp_socket_close u)"

definition udp_fire_on_close :: "udp_filters \<Rightarrow> udp_channel \<Rightarrow> udp_channel" where
  "udp_fire_on_close p u =
     (let (u1, was) = udp_fetch_or k_error_bit (udp_socket_close u);
          u2 = (if was then u1 else udp_fire_on_error p (tdk_error Tdk_User_Abort) u1)
      in udp_release (udp_remove_active (udp_fire p Udp_Closed u2)))"

definition udp_fire_do_write :: "udp_filters \<Rightarrow> address \<Rightarrow> u8 list \<Rightarrow> udp_channel \<Rightarrow> udp_channel" where
  "udp_fire_do_write p addr msg u =
     (if udp_is_bits_on (k_error_bit OR k_close_bit) u then u else udp_out_bound p addr msg u)"

definition udp_error_now :: "udp_filters \<Rightarrow> error_code \<Rightarrow> udp_channel \<Rightarrow> udp_channel" where
  "udp_error_now p err u =
     (let (u1, was) = udp_fetch_or k_error_bit u in if was then u1 else udp_fire_on_error p err u1)"

section \<open>Datagrams\<close>

text \<open>A call interrupted by a signal is made again.\<close>

partial_function (option) sendto_retry ::
  "udp_io \<Rightarrow> address \<Rightarrow> u8 list \<Rightarrow> nat \<Rightarrow> (send_result \<times> nat) option" where
  "sendto_retry k addr msg n =
     (case uk_sendto k n addr msg of
        Sent w \<Rightarrow> Some (Sent w, Suc n)
      | Send_Failed e \<Rightarrow>
          if e = EINTR then sendto_retry k addr msg (Suc n) else Some (Send_Failed e, Suc n))"

text \<open>A result that is not positive is an error, also the zero of an empty datagram; the error is
  what \<open>errno\<close> holds then.\<close>

definition udp_do_write ::
  "udp_io \<Rightarrow> udp_filters \<Rightarrow> address \<Rightarrow> u8 list \<Rightarrow> udp_channel \<Rightarrow> udp_channel option" where
  "udp_do_write k p addr msg u0 =
     (let u = udp_touch u0 in
      if udp_is_bits_on (k_error_bit OR k_close_bit) u then Some u
      else do {
        (r, n) \<leftarrow> sendto_retry k addr msg (uc_calls u);
        let u1 = u\<lparr>uc_calls := n\<rparr>;
        Some (case r of
            Send_Failed e \<Rightarrow> udp_error_now p (platform_error e) u1
          | Sent w \<Rightarrow>
              (let u2 = u1\<lparr>uc_wire := uc_wire u @ [(addr, take w msg)]\<rparr>
               in if w = 0 then udp_error_now p (platform_error (uk_errno k n)) u2 else u2))
      })"

definition udp_mtu :: nat where
  "udp_mtu = 1440"

partial_function (option) recvfrom_retry :: "udp_io \<Rightarrow> nat \<Rightarrow> (recv_result \<times> nat) option" where
  "recvfrom_retry k n =
     (case uk_recvfrom k n udp_mtu of
        Datagram bs sa \<Rightarrow> Some (Datagram bs sa, Suc n)
      | Recv_Failed e \<Rightarrow> if e = EINTR then recvfrom_retry k (Suc n) else Some (Recv_Failed e, Suc n))"

text \<open>The kernel writes the \<open>sockaddr\<close> into a cleared address, whose length is the whole storage.\<close>

definition recv_addr :: "u8 list \<Rightarrow> address" where
  "recv_addr sa =
     \<lparr>addr_storage = overwrite 0 (take storage_size sa) (addr_storage address_new),
      addr_length = length sa\<rparr>"

definition udp_handle_readable :: "udp_io \<Rightarrow> udp_filters \<Rightarrow> udp_channel \<Rightarrow> udp_channel option" where
  "udp_handle_readable k p u =
     (if udp_is_bits_on (k_error_bit OR k_close_bit OR k_read_pending_bit) u then Some u
      else do {
        (r, n) \<leftarrow> recvfrom_retry k (uc_calls u);
        let u1 = u\<lparr>uc_calls := n\<rparr>;
        Some (case r of
            Recv_Failed e \<Rightarrow> udp_error_now p (platform_error e) u1
          | Datagram bs sa \<Rightarrow>
              if bs = [] then udp_error_now p (tdk_error Tdk_Network_Remote_Closed) u1
              else udp_fire_on_read p (recv_addr sa) bs u1)
      })"

section \<open>Handlers\<close>

definition udp_handle_io_events :: "udp_io \<Rightarrow> udp_filters \<Rightarrow> int \<Rightarrow> udp_channel \<Rightarrow> udp_channel option" where
  "udp_handle_io_events k p e u0 =
     (let u = udp_touch u0 in
      if udp_is_bits_on (k_error_bit OR k_close_bit) u then Some u
      else if e AND EPOLL_ERR \<noteq> 0 then
        (let u1 = u\<lparr>uc_calls := Suc (uc_calls u)\<rparr>
         in Some (udp_error_now p
              (case uk_so_error k (uc_calls u) of
                 None \<Rightarrow> tdk_error Tdk_Epoll_Error
               | Some v \<Rightarrow> if v \<noteq> 0 then platform_error v else tdk_error Tdk_Epoll_Error) u1))
      else if e AND EPOLL_HUP \<noteq> 0 then
        Some (udp_error_now p (tdk_error Tdk_Epoll_Hang_Up) u)
      else do {
        u1 \<leftarrow> (if e AND EPOLL_IN \<noteq> 0 then udp_handle_readable k p u else Some u);
        Some (udp_register_handle k u1)
      })"

definition udp_on_io_events :: "udp_io \<Rightarrow> udp_filters \<Rightarrow> int \<Rightarrow> udp_channel \<Rightarrow> udp_channel option" where
  "udp_on_io_events k p e u = (let u1 = u\<lparr>uc_evt := e\<rparr> in udp_handle_io_events k p (uc_evt u1) u1)"

definition udp_handle_close :: "udp_filters \<Rightarrow> udp_channel \<Rightarrow> udp_channel" where
  "udp_handle_close p u = udp_release (udp_fire_on_close p (udp_touch u))"

definition udp_handle_error :: "udp_filters \<Rightarrow> udp_channel \<Rightarrow> udp_channel" where
  "udp_handle_error p u = udp_release (udp_fire_on_error p (uc_prop_error u) (udp_touch u))"

definition udp_handle_write_shot :: "udp_filters \<Rightarrow> address \<Rightarrow> u8 list \<Rightarrow> udp_channel \<Rightarrow> udp_channel" where
  "udp_handle_write_shot p addr msg u = udp_release (udp_fire_do_write p addr msg (udp_touch u))"

definition udp_handle_continue_shot :: "udp_io \<Rightarrow> udp_channel \<Rightarrow> udp_channel" where
  "udp_handle_continue_shot k u = udp_release (udp_register_handle k (udp_touch u))"

fun udp_call :: "udp_io \<Rightarrow> udp_filters \<Rightarrow> udp_task \<Rightarrow> udp_channel \<Rightarrow> udp_channel" where
  "udp_call k p Udp_Do_Close u = udp_handle_close p u"
| "udp_call k p Udp_Do_Error u = udp_handle_error p u"
| "udp_call k p (Udp_Write_Shot a m) u = udp_handle_write_shot p a m u"
| "udp_call k p Udp_Continue_Shot u = udp_handle_continue_shot k u"

definition udp_run_next :: "udp_io \<Rightarrow> udp_filters \<Rightarrow> udp_channel \<Rightarrow> udp_channel" where
  "udp_run_next k p u =
     (case uc_pending u of [] \<Rightarrow> u | t # ts \<Rightarrow> udp_call k p t (u\<lparr>uc_pending := ts\<rparr>))"

section \<open>Starting\<close>

text \<open>\<open>build\<close> is the pipeline builder on the channel of a descriptor. The results: success, the
  descriptor whose channel gets \<open>fire_on_open\<close> on the loop, and the system.\<close>

definition start_channel ::
  "kernel_calls \<Rightarrow> (int \<Rightarrow> error_code) \<Rightarrow> int \<Rightarrow> net \<Rightarrow> bool \<times> int option \<times> net" where
  "start_channel k build fd n =
     (if is_error (build fd) then (False, None, snd (sock_close k fd n)) else (True, Some fd, n))"

definition udp_start_family ::
  "kernel_calls \<Rightarrow> (int \<Rightarrow> error_code) \<Rightarrow> int \<Rightarrow> net \<Rightarrow> bool \<times> int option \<times> net" where
  "udp_start_family k build af n =
     (let (fd, opened, n1) = sock_open_udp k af n
      in if opened then start_channel k build fd (snd (set_option (non_blocking k) fd n1))
         else (False, None, n1))"

definition udp_start_address ::
  "kernel_calls \<Rightarrow> (int \<Rightarrow> error_code) \<Rightarrow> address \<Rightarrow> net \<Rightarrow> bool \<times> int option \<times> net" where
  "udp_start_address k build addr n =
     (let (fd, opened, n1) = sock_open_udp k (addr_family addr) n
      in if opened then
           (let (bound, n3) = sock_bind k fd addr (snd (set_option (non_blocking k) fd n1))
            in if bound then start_channel k build fd n3
               else (False, None, snd (sock_close k fd n3)))
         else (False, None, n1))"


section \<open>A UDP channel as a TCP channel\<close>

primrec event_view :: "udp_event \<Rightarrow> chan_event" where
  "event_view Udp_Open = On_Accepted 0"
| "event_view (Udp_Read a m) = On_Read m"
| "event_view (Udp_Error e) = On_Error e"
| "event_view Udp_Closed = On_Closed"

primrec task_view :: "udp_task \<Rightarrow> chan_task" where
  "task_view Udp_Do_Close = Do_Close"
| "task_view Udp_Do_Error = Do_Error_Propagation"
| "task_view (Udp_Write_Shot a m) = Write_Shot m"
| "task_view Udp_Continue_Shot = Continue_Shot"

definition view :: "udp_channel \<Rightarrow> channel" where
  "view u =
     \<lparr>ch_state = uc_state u, ch_queue = [], ch_refs = uc_refs u, ch_reg_events = uc_reg_events u,
      ch_evt = uc_evt u, ch_send_error = no_error, ch_send_bytes = 0, ch_prop_error = uc_prop_error u,
      ch_open = uc_open u, ch_deleted = uc_deleted u, ch_pending = map task_view (uc_pending u),
      ch_handles = uc_handles u, ch_interest = uc_interest u, ch_calls = uc_calls u, ch_wire = [],
      ch_trace = map event_view (uc_trace u), ch_fault = uc_fault u, ch_overrun = False, ch_stale = False\<rparr>"

lemma view_simps [simp]:
  "ch_state (view u) = uc_state u" "ch_refs (view u) = uc_refs u" "ch_deleted (view u) = uc_deleted u"
  "ch_handles (view u) = uc_handles u" "ch_interest (view u) = uc_interest u" "ch_queue (view u) = []"
  "ch_fault (view u) = uc_fault u" "ch_pending (view u) = map task_view (uc_pending u)"
  "ch_trace (view u) = map event_view (uc_trace u)" "ch_overrun (view u) = False"
  by (simp_all add: view_def)

abbreviation udp_has_error :: "udp_channel \<Rightarrow> bool" where "udp_has_error u \<equiv> bit (uc_state u) 0"
abbreviation udp_has_close :: "udp_channel \<Rightarrow> bool" where "udp_has_close u \<equiv> bit (uc_state u) 1"

text \<open>The operations that both channels have are the same under the view.\<close>

lemma udp_bits_view: "udp_is_bits_on b u = is_bits_on b (view u)"
  by (simp add: udp_is_bits_on_def is_bits_on_def)

lemma view_base:
  "view (udp_touch u) = touch (view u)" "view (udp_retain u) = retain (view u)"
  "view (udp_release u) = release (view u)" "view (udp_socket_close u) = socket_close (view u)"
  "view (udp_add_active u) = loop_add_active (view u)"
  "view (udp_remove_active u) = loop_remove_active (view u)"
  "view (udp_execute t u) = loop_execute (task_view t) (view u)"
  by (simp_all add: view_def udp_touch_def touch_def udp_retain_def retain_def udp_release_def release_def
      udp_socket_close_def socket_close_def udp_add_active_def loop_add_active_def udp_remove_active_def
      loop_remove_active_def udp_execute_def loop_execute_def)

lemma view_fetch_or:
  "view (fst (udp_fetch_or b u)) = fst (fetch_or b (view u))"
  "snd (udp_fetch_or b u) = snd (fetch_or b (view u))"
  by (simp_all add: view_def udp_fetch_or_def fetch_or_def)

lemma view_ops:
  "view (udp_close u) = ch_close (view u)" "view (udp_write a m u) = ch_write m (view u)"
  "view (udp_pending_read u) = pending_read (view u)"
  "view (udp_continue_read u) = continue_read (view u)"
proof -
  show "view (udp_close u) = ch_close (view u)"
    by (simp add: udp_close_def ch_close_def split_beta Let_def view_fetch_or view_base)
  show "view (udp_write a m u) = ch_write m (view u)" by (simp add: udp_write_def ch_write_def view_base)
  show "view (udp_pending_read u) = pending_read (view u)"
    by (simp add: view_def udp_pending_read_def pending_read_def udp_touch_def touch_def)
  have "view ((udp_touch u)\<lparr>uc_state := x\<rparr>) = (touch (view u))\<lparr>ch_state := x\<rparr>" for x
    by (simp add: view_def udp_touch_def touch_def)
  thus "view (udp_continue_read u) = continue_read (view u)"
    by (simp add: udp_continue_read_def continue_read_def Let_def view_base)
qed

lemma view_error_propagation: "view (udp_error_propagation e u) = error_propagation e (view u)"
proof -
  have "view (u\<lparr>uc_prop_error := e\<rparr>) = (view u)\<lparr>ch_prop_error := e\<rparr>" for u
    by (simp add: view_def)
  thus ?thesis by (simp add: udp_error_propagation_def error_propagation_def split_beta Let_def view_fetch_or view_base)
qed

text \<open>The TCP kernel that registers as the UDP kernel does.\<close>

definition view_kernel :: "udp_io \<Rightarrow> kernel_io" where
  "view_kernel k =
     \<lparr>k_writev = (\<lambda>n b. Write_Failed EAGAIN), k_readv = (\<lambda>n m. Read_Failed EAGAIN),
      k_register = uk_register k, k_so_error = uk_so_error k\<rparr>"

lemma view_register: "view (udp_register_handle k u) = register_handle (view_kernel k) (view u)"
proof -
  have "view (u\<lparr>uc_reg_events := e, uc_evt := e, uc_calls := n\<rparr>) =
      (view u)\<lparr>ch_reg_events := e, ch_evt := e, ch_calls := n\<rparr>"
    "view (u\<lparr>uc_reg_events := e, uc_evt := e, uc_calls := n, uc_interest := i\<rparr>) =
      (view u)\<lparr>ch_reg_events := e, ch_evt := e, ch_calls := n, ch_interest := i\<rparr>" for e n i
    by (simp_all add: view_def)
  moreover have "ch_calls (view u) = uc_calls u" "ch_reg_events (view u) = uc_reg_events u"
    by (simp_all add: view_def)
  ultimately show ?thesis
    by (simp add: udp_register_handle_def register_handle_def udp_bits_view Let_def view_kernel_def
        view_error_propagation split: option.split)
qed

lemma view_frame [simp]:
  "chan_inv r z y w (view (u\<lparr>uc_calls := n\<rparr>)) = chan_inv r z y w (view u)"
  "chan_inv r z y w (view (u\<lparr>uc_evt := e\<rparr>)) = chan_inv r z y w (view u)"
  "chan_inv r z y w (view (u\<lparr>uc_wire := x\<rparr>)) = chan_inv r z y w (view u)"
  by (auto simp: inv_defs)

lemma settled_frame [simp]:
  "settled z y (view (u\<lparr>uc_calls := n\<rparr>)) = settled z y (view u)"
  "settled z y (view (u\<lparr>uc_wire := x\<rparr>)) = settled z y (view u)"
  by (simp_all add: settled_def errors_seen_def closes_seen_def)

section \<open>The life of a UDP channel\<close>

text \<open>What filters, the user and other threads do with a channel, \<open>continue_read\<close> as long as no error
  and no close was made, as for TCP. \<open>do_write\<close> may call the filters of \<open>p\<close>.\<close>

inductive udp_api :: "udp_io \<Rightarrow> udp_filters \<Rightarrow> udp_channel \<Rightarrow> udp_channel \<Rightarrow> bool" for k p where
  udp_api_close: "udp_api k p u (udp_close u)"
| udp_api_write: "udp_api k p u (udp_write a m u)"
| udp_api_pending_read: "udp_api k p u (udp_pending_read u)"
| udp_api_error: "udp_api k p u (udp_error_propagation e u)"
| udp_api_continue_read: "unended (view u) \<Longrightarrow> udp_api k p u (udp_continue_read u)"
| udp_api_do_write: "udp_do_write k p a m u = Some u' \<Longrightarrow> udp_api k p u u'"

definition udp_filters_ok :: "udp_io \<Rightarrow> udp_filters \<Rightarrow> bool" where
  "udp_filters_ok k p \<longleftrightarrow>
     (\<forall>e u. (udp_api k p)\<^sup>*\<^sup>* u (udp_in_bound p e u)) \<and> (\<forall>a m u. (udp_api k p)\<^sup>*\<^sup>* u (udp_out_bound p a m u))"

text \<open>The calls are those of a TCP channel, or a datagram was sent, or an error was reported.\<close>

lemma do_write_touch: "udp_has_error u \<Longrightarrow> udp_do_write k p a m u = Some (udp_touch u)"
  by (simp add: udp_do_write_def udp_bits_view is_bits Let_def udp_touch_def)

text \<open>After an error its bit stays.\<close>

definition erred :: "channel \<Rightarrow> bool" where
  "erred c \<longleftrightarrow> has_error c \<and> 0 < errors_seen c"

lemma api_sticky_view:
  assumes "chan_api c c'" "erred c"
  shows "erred c'"
proof -
  have "has_error c'" using assms
  proof (induction rule: chan_api.induct)
    case (api_continue_read c)
    thus ?case by (simp add: unended_def errors_made_def erred_def)
  qed (auto simp: chan_ops erred_def)
  thus ?thesis using assms(2) api_trace[OF assms(1)] by (simp add: erred_def errors_seen_def)
qed

lemma api_cases:
  assumes "udp_api k p u u'"
  obtains "chan_api (view u) (view u')" | a m where "udp_do_write k p a m u = Some u'"
  using assms by (cases rule: udp_api.cases) (auto simp: view_ops view_error_propagation intro: chan_api.intros)

lemma sticky_step:
  assumes "udp_api k p u u'" "erred (view u)"
  shows "erred (view u') \<and> ch_trace (view u') = ch_trace (view u) \<and> uc_interest u' = uc_interest u \<and>
    (chan_api (view u) (view u') \<or> u' = udp_touch u)"
  using assms(1)
proof (cases rule: api_cases)
  case 1
  thus ?thesis using api_sticky_view[OF 1 assms(2)] api_interest[OF 1] api_trace[OF 1] by simp
next
  case (2 a m)
  have "udp_has_error u" using assms(2) by (simp add: erred_def)
  hence "u' = udp_touch u" using do_write_touch 2 by simp
  thus ?thesis using assms(2) by (simp add: udp_touch_def erred_def errors_seen_def)
qed

lemma view_touch: "chan_inv r z y w (view u) \<Longrightarrow> 0 < uc_refs u \<Longrightarrow> view (udp_touch u) = view u"
  using touch_inv[of r z y w "view u"] by (simp add: view_base)

lemma untouched: "chan_inv r z y w (view u) \<Longrightarrow> 0 < uc_refs u \<Longrightarrow> udp_touch u = u"
  by (cases u) (auto simp: chan_inv_def udp_touch_def)

lemma sticky_runs: "(udp_api k p)\<^sup>*\<^sup>* u u' \<Longrightarrow> erred (view u) \<Longrightarrow>
    erred (view u') \<and> uc_interest u' = uc_interest u \<and> ch_trace (view u') = ch_trace (view u)"
  by (induction rule: rtranclp_induct) (auto dest: sticky_step)

lemma sticky_inv:
  assumes "(udp_api k p)\<^sup>*\<^sup>* u u'" "erred (view u)" "chan_inv r z y w (view u)" "0 < uc_refs u" "settled z y (view u)"
  shows "chan_inv r z y w (view u') \<and> 0 < uc_refs u'"
  using assms(1)
proof (induction rule: rtranclp_induct)
  case base
  show ?case using assms by simp
next
  case (step v v')
  have e: "erred (view v)" "settled z y (view v)"
    using sticky_runs[OF step(1) assms(2)] assms(5) settled_trace[of "view v" "view u"] by simp_all
  from sticky_step[OF step(2) e(1)] show ?case
    using step(3) chan_api_inv[of "view v" "view v'" r z y w] untouched[of r z y w v] e(2) by auto
qed

text \<open>Once an error was made, the contract holds for all they do.\<close>

interpretation us: channel_client view "\<lambda>u u'. erred (view u) \<and> (udp_api k p)\<^sup>*\<^sup>* u u'" for k p
  by unfold_locales (use sticky_inv sticky_runs in auto)

lemma error_bit_again: "udp_has_error u \<Longrightarrow> fst (udp_fetch_or k_error_bit u) = u"
proof -
  assume "udp_has_error u"
  hence "uc_state u OR k_error_bit = uc_state u"
    by (intro bit_word_eqI) (auto simp: bit_or_iff k_error_bit_def bit_1_iff)
  thus ?thesis by (simp add: udp_fetch_or_def)
qed

lemma udp_error_now_eq:
  "udp_error_now p e u = (if udp_has_error u then u
     else udp_in_bound p (Udp_Error e)
       (u\<lparr>uc_state := uc_state u OR k_error_bit, uc_open := False, uc_interest := None,
          uc_trace := uc_trace u @ [Udp_Error e]\<rparr>))"
proof (cases "udp_has_error u")
  case True
  have "snd (udp_fetch_or k_error_bit u)" using True by (simp add: view_fetch_or fetch_or_bits)
  thus ?thesis using True error_bit_again[OF True] by (simp add: udp_error_now_def split_beta Let_def)
next
  case False
  hence "\<not> snd (udp_fetch_or k_error_bit u)" by (simp add: view_fetch_or fetch_or_bits)
  thus ?thesis using False
    by (simp add: udp_error_now_def split_beta Let_def udp_fire_on_error_def udp_fire_def udp_fetch_or_def
        udp_socket_close_def)
qed

lemma udp_error_now_inv:
  assumes p: "udp_filters_ok k p" and i: "chan_inv r z y w (view u)" "0 < uc_refs u"
  shows "chan_inv r z y w (view (udp_error_now p e u)) \<and> 0 < uc_refs (udp_error_now p e u)"
proof (cases "udp_has_error u")
  case True
  thus ?thesis using i by (simp add: udp_error_now_eq)
next
  case False
  let ?c = "(view u)\<lparr>ch_state := uc_state u OR k_error_bit\<rparr>"
  let ?v = "u\<lparr>uc_state := uc_state u OR k_error_bit, uc_open := False, uc_interest := None,
      uc_trace := uc_trace u @ [Udp_Error e]\<rparr>"
  have c: "chan_inv r z (Suc y) w ?c" "0 < ch_refs ?c" using error_bit_inv[OF i(1)] i(2) False by simp_all
  have v: "view ?v = (socket_close ?c)\<lparr>ch_trace := ch_trace ?c @ [On_Error e]\<rparr>"
    by (simp add: view_def socket_close_def)
  have "erred (view ?v) \<and> (udp_api k p)\<^sup>*\<^sup>* ?v (udp_in_bound p (Udp_Error e) ?v)"
    using p by (simp add: udp_filters_ok_def or_bits erred_def errors_seen_def)
  from us.errored_inv[OF this v c] False show ?thesis by (simp add: udp_error_now_eq)
qed

lemma udp_error_now_closed:
  assumes "udp_filters_ok k p"
  shows "udp_has_error (udp_error_now p e u)"
    "\<not> udp_has_error u \<or> uc_interest u = None \<Longrightarrow> uc_interest (udp_error_now p e u) = None"
    "settled z y (view u) \<Longrightarrow> settled z y (view (udp_error_now p e u))"
proof -
  let ?v = "u\<lparr>uc_state := uc_state u OR k_error_bit, uc_open := False, uc_interest := None,
      uc_trace := uc_trace u @ [Udp_Error e]\<rparr>"
  have a: "(udp_api k p)\<^sup>*\<^sup>* ?v (udp_in_bound p (Udp_Error e) ?v)" using assms by (simp add: udp_filters_ok_def)
  have v: "erred (view ?v)" "settled z y (view ?v)" by (simp_all add: or_bits erred_def errors_seen_def settled_def)
  note r = sticky_runs[OF a v(1)]
  from r show "udp_has_error (udp_error_now p e u)"
    "\<not> udp_has_error u \<or> uc_interest u = None \<Longrightarrow> uc_interest (udp_error_now p e u) = None"
    by (auto simp: udp_error_now_eq erred_def)
  show "settled z y (view u) \<Longrightarrow> settled z y (view (udp_error_now p e u))"
    using r v(2) settled_trace[of "view (udp_in_bound p (Udp_Error e) ?v)" "view ?v"] by (simp add: udp_error_now_eq)
qed

text \<open>So it holds for all they do.\<close>

lemma do_write_cases:
  assumes "udp_do_write k p a m u = Some u'"
  obtains (off) "udp_has_error u \<or> udp_has_close u" "u' = udp_touch u"
  | (failed) n e where "\<not> udp_has_error u" "\<not> udp_has_close u"
      "sendto_retry k a m (uc_calls u) = Some (Send_Failed e, n)"
      "u' = udp_error_now p (platform_error e) ((udp_touch u)\<lparr>uc_calls := n\<rparr>)"
  | (sent) n x v where "\<not> udp_has_error u" "\<not> udp_has_close u"
      "sendto_retry k a m (uc_calls u) = Some (Sent x, n)"
      "v = (udp_touch u)\<lparr>uc_calls := n, uc_wire := uc_wire u @ [(a, take x m)]\<rparr>"
      "u' = (if x = 0 then udp_error_now p (platform_error (uk_errno k n)) v else v)"
proof (cases "udp_has_error u \<or> udp_has_close u")
  case True
  thus ?thesis using assms off by (simp add: udp_do_write_def udp_bits_view is_bits Let_def udp_touch_def)
next
  case False
  hence b: "\<not> udp_is_bits_on (k_error_bit OR k_close_bit) (udp_touch u)"
    by (simp add: udp_bits_view is_bits udp_touch_def)
  obtain r n where r: "sendto_retry k a m (uc_calls u) = Some (r, n)"
    using assms b by (auto simp: udp_do_write_def Let_def bind_eq_Some_conv udp_touch_def)
  show ?thesis
  proof (cases r)
    case (Sent x)
    show ?thesis using sent[OF _ _ r[unfolded Sent] refl] False assms b r Sent
      by (auto simp: udp_do_write_def Let_def udp_touch_def)
  next
    case (Send_Failed e)
    show ?thesis using failed[OF _ _ r[unfolded Send_Failed]] False assms b r Send_Failed
      by (simp add: udp_do_write_def Let_def udp_touch_def)
  qed
qed

lemma do_write_inv:
  assumes p: "udp_filters_ok k p" and i: "chan_inv r z y w (view u)" "0 < uc_refs u"
    and d: "udp_do_write k p a m u = Some u'"
  shows "chan_inv r z y w (view u') \<and> 0 < uc_refs u'"
  using d
proof (cases rule: do_write_cases)
  case off
  thus ?thesis using i untouched[OF i] by simp
next
  case (failed n e)
  thus ?thesis using i untouched[OF i] udp_error_now_inv[OF p] by simp
next
  case (sent n x v)
  hence "chan_inv r z y w (view v)" "0 < uc_refs v" using i untouched[OF i] by simp_all
  thus ?thesis using sent(5) udp_error_now_inv[OF p] by simp
qed

lemma do_write_unregistered:
  assumes p: "udp_filters_ok k p" and d: "udp_do_write k p a m u = Some u'"
  shows "uc_interest u = None \<Longrightarrow> uc_interest u' = None" "settled z y (view u) \<Longrightarrow> settled z y (view u')"
proof -
  have t: "settled z y (view (udp_touch u)) = settled z y (view u)" by (rule settled_trace) (simp add: udp_touch_def)
  show "uc_interest u = None \<Longrightarrow> uc_interest u' = None" "settled z y (view u) \<Longrightarrow> settled z y (view u')"
    using d
    by (cases rule: do_write_cases; use udp_error_now_closed(2,3)[OF p] t in \<open>auto simp: udp_touch_def\<close>)+
qed

lemma apis_laws:
  assumes p: "udp_filters_ok k p" and a: "(udp_api k p)\<^sup>*\<^sup>* u u'"
  shows "chan_inv r z y w (view u) \<Longrightarrow> 0 < uc_refs u \<Longrightarrow> settled z y (view u) \<Longrightarrow> chan_inv r z y w (view u') \<and> 0 < uc_refs u'"
    "uc_interest u = None \<Longrightarrow> uc_interest u' = None"
proof -
  have "chan_inv r z y w (view v') \<and> 0 < uc_refs v' \<and> settled z y (view v')"
    if "udp_api k p v v'" "chan_inv r z y w (view v)" "0 < uc_refs v" "settled z y (view v)" for v v'
    using that(1) chan_api_inv[of "view v" "view v'" r z y w] do_write_inv[OF p that(2,3)] that(2-4)
      settled_trace[OF api_trace, of "view v" "view v'"] do_write_unregistered(2)[OF p]
    by (cases rule: api_cases) auto
  note one = this
  have "chan_inv r z y w (view u) \<Longrightarrow> 0 < uc_refs u \<Longrightarrow> settled z y (view u) \<Longrightarrow>
      chan_inv r z y w (view u') \<and> 0 < uc_refs u' \<and> settled z y (view u')"
    using a by (induction rule: rtranclp_induct) (use one in auto)
  thus "chan_inv r z y w (view u) \<Longrightarrow> 0 < uc_refs u \<Longrightarrow> settled z y (view u) \<Longrightarrow> chan_inv r z y w (view u') \<and> 0 < uc_refs u'"
    by blast
  have "uc_interest v' = None" if "udp_api k p v v'" "uc_interest v = None" for v v'
    using that(1) api_interest[of "view v" "view v'"] do_write_unregistered(1)[OF p] that(2)
    by (cases rule: api_cases) auto
  note one = this
  show "uc_interest u = None \<Longrightarrow> uc_interest u' = None"
    using a by (induction rule: rtranclp_induct) (use one in auto)
qed

interpretation uc: channel_client view "\<lambda>u u'. udp_filters_ok k p \<and> (udp_api k p)\<^sup>*\<^sup>* u u'" for k p
  by unfold_locales (use apis_laws in auto)

lemma udp_fire_inv:
  assumes p: "udp_filters_ok k p" and i: "chan_inv r 0 0 w (view u)" "0 < uc_refs u"
    and e: "\<And>x. e \<noteq> Udp_Error x" "e \<noteq> Udp_Closed"
  shows "chan_inv r 0 0 w (view (udp_fire p e u)) \<and> 0 < uc_refs (udp_fire p e u)"
proof -
  let ?v = "u\<lparr>uc_trace := uc_trace u @ [e]\<rparr>"
  have v: "view ?v = (view u)\<lparr>ch_trace := ch_trace (view u) @ [event_view e]\<rparr>" by (simp add: view_def)
  have "udp_filters_ok k p \<and> (udp_api k p)\<^sup>*\<^sup>* ?v (udp_fire p e u)"
    using p by (simp add: udp_filters_ok_def udp_fire_def)
  from uc.traced_inv[OF this v i(1) _ settled_idle] i(2) e show ?thesis by (cases e) auto
qed

lemma udp_fire_error_inv:
  assumes p: "udp_filters_ok k p" and i: "chan_inv r z (Suc y) w (view u)" "0 < uc_refs u"
  shows "chan_inv r z y w (view (udp_fire_on_error p e u)) \<and> 0 < uc_refs (udp_fire_on_error p e u)"
proof -
  let ?v = "(udp_socket_close u)\<lparr>uc_trace := uc_trace u @ [Udp_Error e]\<rparr>"
  have v: "view ?v = (socket_close (view u))\<lparr>ch_trace := ch_trace (view u) @ [On_Error e]\<rparr>"
    by (simp add: view_def udp_socket_close_def socket_close_def)
  have "udp_filters_ok k p \<and> (udp_api k p)\<^sup>*\<^sup>* ?v (udp_fire_on_error p e u)"
    using p by (simp add: udp_filters_ok_def udp_fire_def udp_fire_on_error_def udp_socket_close_def)
  from uc.errored_inv[OF this v i(1)] i(2) show ?thesis by simp
qed

lemma udp_fire_close_inv:
  assumes p: "udp_filters_ok k p" and i: "chan_inv r (Suc 0) y 0 (view u)" "0 < uc_refs u" and r: "0 < r"
  shows "chan_inv r 0 y 0 (view (udp_fire_on_close p u)) \<and> 0 < uc_refs (udp_fire_on_close p u)"
proof -
  let ?s = "udp_socket_close u"
  have "chan_inv r (Suc 0) y 0 (view ?s) \<and> 0 < ch_refs (view ?s)"
    by (rule chan_inv_keep[OF i(1)]) (use i in \<open>simp_all add: chan_inv_def udp_socket_close_def\<close>)
  hence s: "chan_inv r (Suc 0) y 0 (view ?s)" "0 < uc_refs ?s" "uc_interest ?s = None"
    by (simp_all add: udp_socket_close_def)
  let ?e = "udp_error_now p (tdk_error Tdk_User_Abort) ?s"
  let ?v = "?e\<lparr>uc_trace := uc_trace ?e @ [Udp_Closed]\<rparr>"
  have e: "chan_inv r (Suc 0) y 0 (view ?e)" "0 < ch_refs (view ?e)" "ch_interest (view ?e) = None"
    using udp_error_now_inv[OF p s(1,2)] udp_error_now_closed(2)[OF p] s(3) by simp_all
  have v: "view ?v = (view ?e)\<lparr>ch_trace := ch_trace (view ?e) @ [On_Closed]\<rparr>" by (simp add: view_def)
  have "udp_fire_on_close p u = udp_release (udp_remove_active (udp_fire p Udp_Closed ?e))"
    by (simp add: udp_fire_on_close_def udp_error_now_def split_beta Let_def)
  moreover have "udp_filters_ok k p \<and> (udp_api k p)\<^sup>*\<^sup>* ?v (udp_fire p Udp_Closed ?e)"
    using p by (simp add: udp_filters_ok_def udp_fire_def)
  from uc.closed_inv[OF this v e r]
  have "chan_inv r 0 y 0 (view (udp_release (udp_remove_active (udp_fire p Udp_Closed ?e)))) \<and>
      0 < ch_refs (view (udp_release (udp_remove_active (udp_fire p Udp_Closed ?e))))"
    by (simp only: view_base)
  ultimately show ?thesis by (simp only: view_simps)
qed

lemma udp_register_inv:
  assumes "chan_inv r 0 0 w (view u)" "0 < uc_refs u"
  shows "chan_inv r 0 0 w (view (udp_register_handle k u)) \<and> 0 < uc_refs (udp_register_handle k u)"
  using register_inv[of r w "view u" "view_kernel k"] assms view_register[of k u] view_simps(2) by metis

lemma udp_readable_inv:
  assumes p: "udp_filters_ok k p" and i: "chan_inv r 0 0 w (view u)" "0 < uc_refs u"
    and h: "udp_handle_readable k p u = Some u'"
  shows "chan_inv r 0 0 w (view u') \<and> 0 < uc_refs u'"
proof (cases "udp_is_bits_on (k_error_bit OR k_close_bit OR k_read_pending_bit) u")
  case True
  thus ?thesis using i h by (simp add: udp_handle_readable_def)
next
  case False
  then obtain res n where u': "u' = (case res of
            Recv_Failed e \<Rightarrow> udp_error_now p (platform_error e) (u\<lparr>uc_calls := n\<rparr>)
          | Datagram bs sa \<Rightarrow>
              if bs = [] then udp_error_now p (tdk_error Tdk_Network_Remote_Closed) (u\<lparr>uc_calls := n\<rparr>)
              else udp_fire_on_read p (recv_addr sa) bs (u\<lparr>uc_calls := n\<rparr>))"
    using h by (auto simp: udp_handle_readable_def bind_eq_Some_conv Let_def)
  have "chan_inv r 0 0 w (view (u\<lparr>uc_calls := n\<rparr>))" "0 < uc_refs (u\<lparr>uc_calls := n\<rparr>)" using i by simp_all
  note j = udp_error_now_inv[OF p this] udp_fire_inv[OF p this]
  show ?thesis unfolding u' udp_fire_on_read_def using j by (auto split: recv_result.split)
qed

lemma udp_io_events_inv:
  assumes p: "udp_filters_ok k p" and i: "chan_inv r 0 0 w (view u)" "0 < uc_refs u"
    and h: "udp_handle_io_events k p e u = Some u'"
  shows "chan_inv r 0 0 w (view u') \<and> 0 < uc_refs u'"
proof -
  let ?off = "udp_is_bits_on (k_error_bit OR k_close_bit) u"
  note t = untouched[OF i]
  have c: "chan_inv r 0 0 w (view (u\<lparr>uc_calls := n\<rparr>))" "0 < uc_refs (u\<lparr>uc_calls := n\<rparr>)" for n
    using i by simp_all
  consider "?off" | "\<not> ?off" "e AND EPOLL_ERR \<noteq> 0" | "\<not> ?off" "e AND EPOLL_ERR = 0" "e AND EPOLL_HUP \<noteq> 0"
    | (io) "\<not> ?off" "e AND EPOLL_ERR = 0" "e AND EPOLL_HUP = 0" by blast
  thus ?thesis
  proof cases
    case io
    then obtain u1 where s: "(if e AND EPOLL_IN \<noteq> 0 then udp_handle_readable k p u else Some u) = Some u1"
      "u' = udp_register_handle k u1"
      using h t by (auto simp: udp_handle_io_events_def Let_def bind_eq_Some_conv)
    have "chan_inv r 0 0 w (view u1) \<and> 0 < uc_refs u1"
      using s(1) i udp_readable_inv[OF p i, of u1] by (auto split: if_splits)
    thus ?thesis using s(2) udp_register_inv by blast
  qed (use h i t udp_error_now_inv[OF p c] udp_error_now_inv[OF p i] in \<open>auto simp: udp_handle_io_events_def Let_def\<close>)
qed

lemma udp_release_inv:
  "chan_inv (Suc r) 0 0 w (view u) \<Longrightarrow> 0 < uc_refs u \<Longrightarrow> chan_inv r 0 0 w (view (udp_release u))"
  using release_inv[of r w "view u"] by (simp add: view_base)

lemma udp_run_next_inv:
  assumes p: "udp_filters_ok k p" and i: "chan_inv 0 0 0 0 (view u)"
  shows "chan_inv 0 0 0 0 (view (udp_run_next k p u))"
proof (cases "uc_pending u")
  case Nil
  thus ?thesis using i by (simp add: udp_run_next_def)
next
  case (Cons t ts)
  let ?u = "u\<lparr>uc_pending := ts\<rparr>"
  have v: "view ?u = (view u)\<lparr>ch_pending := map task_view ts\<rparr>" by (simp add: view_def)
  have "ch_pending (view u) = task_view t # map task_view ts" using Cons by simp
  note j = take_task_inv[OF i this, folded v]
  have refs: "0 < uc_refs ?u" using j(2) by simp
  note t = untouched[OF j(1) refs]
  have r: "udp_run_next k p u = udp_call k p t ?u" using Cons by (simp add: udp_run_next_def)
  show ?thesis
  proof (cases t)
    case Udp_Do_Close
    hence a: "chan_inv (Suc 0) (Suc 0) 0 0 (view ?u)" using j(1) by simp
    show ?thesis using udp_fire_close_inv[OF p a refs] udp_release_inv Udp_Do_Close r t
      by (simp add: udp_handle_close_def)
  next
    case Udp_Do_Error
    hence a: "chan_inv (Suc 0) 0 (Suc 0) 0 (view ?u)" using j(1) by simp
    show ?thesis using udp_fire_error_inv[OF p a refs] udp_release_inv Udp_Do_Error r t
      by (simp add: udp_handle_error_def)
  next
    case (Udp_Write_Shot addr m)
    hence a: "chan_inv (Suc 0) 0 0 0 (view ?u)" using j(1) by simp
    have "(udp_api k p)\<^sup>*\<^sup>* ?u (udp_out_bound p addr m ?u)" using p by (simp add: udp_filters_ok_def)
    from apis_laws(1)[OF p this a refs settled_idle] a refs
    have "chan_inv (Suc 0) 0 0 0 (view (udp_fire_do_write p addr m ?u)) \<and> 0 < uc_refs (udp_fire_do_write p addr m ?u)"
      by (simp add: udp_fire_do_write_def)
    thus ?thesis using udp_release_inv Udp_Write_Shot r t by (simp add: udp_handle_write_shot_def)
  next
    case Udp_Continue_Shot
    hence a: "chan_inv (Suc 0) 0 0 0 (view ?u)" using j(1) by simp
    show ?thesis using udp_register_inv[OF a refs] udp_release_inv Udp_Continue_Shot r t
      by (simp add: udp_handle_continue_shot_def)
  qed
qed

section \<open>Runs of a UDP channel\<close>

inductive udp_step :: "udp_io \<Rightarrow> udp_filters \<Rightarrow> udp_channel \<Rightarrow> udp_channel \<Rightarrow> bool" for k p where
  udp_step_task: "udp_step k p u (udp_run_next k p u)"
| udp_step_event: "uc_interest u \<noteq> None \<Longrightarrow> udp_on_io_events k p e u = Some u' \<Longrightarrow> udp_step k p u u'"
| udp_step_call: "\<not> uc_deleted u \<Longrightarrow> udp_api k p u u' \<Longrightarrow> udp_step k p u u'"

lemma udp_step_inv:
  assumes p: "udp_filters_ok k p" and s: "udp_step k p u u'" and i: "chan_inv 0 0 0 0 (view u)"
  shows "chan_inv 0 0 0 0 (view u')"
  using s
proof (cases rule: udp_step.cases)
  case udp_step_task
  thus ?thesis using udp_run_next_inv[OF p i] by simp
next
  case (udp_step_event e)
  have "closes_seen (view u) = 0" using i udp_step_event(1) by (simp add: chan_inv_def)
  hence "0 < uc_refs (u\<lparr>uc_evt := e\<rparr>)" using i by (simp add: chan_inv_def)
  moreover have "chan_inv 0 0 0 0 (view (u\<lparr>uc_evt := e\<rparr>))" using i by simp
  moreover have "udp_handle_io_events k p e (u\<lparr>uc_evt := e\<rparr>) = Some u'"
    using udp_step_event(2) by (simp add: udp_on_io_events_def)
  ultimately show ?thesis using udp_io_events_inv[OF p] by blast
next
  case udp_step_call
  have "0 < uc_refs u" using not_deleted_refs[OF i] udp_step_call(1) by simp
  from apis_laws(1)[OF p r_into_rtranclp[where r = "udp_api k p", OF udp_step_call(2)] i this settled_idle]
  show ?thesis by (rule conjunct1)
qed

lemma udp_opened_inv:
  assumes "udp_filters_ok k p"
  shows "chan_inv 0 0 0 0 (view (udp_fire_on_open k p udp_channel_new))"
proof -
  let ?a = "udp_add_active (udp_register_handle k (udp_retain udp_channel_new))"
  have "chan_inv 0 0 0 0 (loop_add_active (retain (view udp_channel_new)))"
    "0 < ch_refs (loop_add_active (retain (view udp_channel_new)))"
    by (simp_all add: inv_defs loop_add_active_def retain_def touch_def view_def udp_channel_new_def)
  note register_inv[OF this, of "view_kernel k"]
  moreover have "view ?a = register_handle (view_kernel k) (loop_add_active (retain (view udp_channel_new)))"
    by (simp add: view_base view_register add_active_register)
  ultimately have "chan_inv 0 0 0 0 (view ?a)" "0 < uc_refs ?a" using view_simps(2)[of ?a] by metis+
  thus ?thesis using udp_fire_inv[OF assms] by (simp add: udp_fire_on_open_def)
qed

definition udp_errors :: "udp_channel \<Rightarrow> nat" where
  "udp_errors u = length (filter (\<lambda>e. case e of Udp_Error _ \<Rightarrow> True | _ \<Rightarrow> False) (uc_trace u))"

definition udp_closes :: "udp_channel \<Rightarrow> nat" where
  "udp_closes u = count_list (uc_trace u) Udp_Closed"

lemma seen_view: "errors_seen (view u) = udp_errors u" "closes_seen (view u) = udp_closes u"
proof -
  have e: "(case event_view e of On_Error _ \<Rightarrow> True | _ \<Rightarrow> False) = (case e of Udp_Error _ \<Rightarrow> True | _ \<Rightarrow> False)"
    "(event_view e = On_Closed) = (e = Udp_Closed)" for e
    by (cases e; simp)+
  have "length (filter (\<lambda>e. case e of On_Error _ \<Rightarrow> True | _ \<Rightarrow> False) (map event_view es)) =
      length (filter (\<lambda>e. case e of Udp_Error _ \<Rightarrow> True | _ \<Rightarrow> False) es)"
    "count_list (map event_view es) On_Closed = count_list es Udp_Closed" for es
    by (induction es) (simp_all only: list.map filter.simps count_list.simps e list.size if_cancel split: if_split, simp_all)
  thus "errors_seen (view u) = udp_errors u" "closes_seen (view u) = udp_closes u"
    by (simp_all add: errors_seen_def closes_seen_def udp_errors_def udp_closes_def)
qed

text \<open>C6. The life of a UDP channel (\<open>udp/channel_epoll.cpp\<close>), although its writes can call the
  filters in the middle of a filter: in every run from \<open>fire_on_open\<close>, with filters and users that
  keep to the channel's operations, \<open>continue_read\<close> among them as long as no error and no close was
  made (after one it clears the bit that stands for it: \<open>continue_read_closes_twice\<close>), the channel is never used after it has deleted itself;
  \<open>on_error\<close> and \<open>on_closed\<close> are called at most once; the references are the open channel and
  the queued tasks, so that the channel is deleted exactly when it has been closed and its last
  task has run; and it holds its loop's active count exactly until it is closed.\<close>

theorem udp_lifecycle:
  assumes "udp_filters_ok k p" "(udp_step k p)\<^sup>*\<^sup>* (udp_fire_on_open k p udp_channel_new) u"
  shows "\<not> uc_fault u \<and> udp_errors u \<le> 1 \<and> udp_closes u \<le> 1 \<and>
    uc_handles u = 1 - int (udp_closes u) \<and>
    uc_refs u = uc_handles u + int (length (uc_pending u)) \<and>
    (uc_deleted u \<longleftrightarrow> udp_closes u = 1 \<and> uc_pending u = [])"
proof -
  have i: "chan_inv 0 0 0 0 (view u)"
    using assms(2) by (induction rule: rtranclp_induct)
      (auto intro: udp_opened_inv[OF assms(1)] udp_step_inv[OF assms(1)])
  have "udp_closes u \<le> 1" "udp_errors u \<le> 1" using seen_le[OF i] by (simp_all add: seen_view)
  moreover have "uc_refs u = 0 \<longleftrightarrow> udp_closes u = 1 \<and> uc_pending u = []"
    using i \<open>udp_closes u \<le> 1\<close> by (cases "uc_pending u") (auto simp: chan_inv_def seen_view)
  ultimately show ?thesis using i by (auto simp: chan_inv_def seen_view)
qed

text \<open>Filters that pass everything on: a write of the pipeline reaches the channel's \<open>do_write\<close>.\<close>

definition plain_udp_filters :: "udp_io \<Rightarrow> udp_filters" where
  "plain_udp_filters k =
     \<lparr>udp_in_bound = (\<lambda>e u. u),
      udp_out_bound = (\<lambda>a m u.
        case udp_do_write k \<lparr>udp_in_bound = (\<lambda>e u. u), udp_out_bound = (\<lambda>a m u. u)\<rparr> a m u of
          Some u' \<Rightarrow> u' | None \<Rightarrow> u)\<rparr>"

lemma do_write_in_bound:
  "udp_in_bound p = udp_in_bound q \<Longrightarrow> udp_do_write k p a m u = udp_do_write k q a m u"
proof -
  assume "udp_in_bound p = udp_in_bound q"
  hence "udp_error_now p = udp_error_now q" by (intro ext) (simp add: udp_error_now_eq)
  thus ?thesis unfolding udp_do_write_def by (rule ssubst) (rule refl)
qed

lemma plain_udp_filters_ok: "udp_filters_ok k (plain_udp_filters k)"
proof -
  let ?p = "plain_udp_filters k"
  have "udp_out_bound ?p a m u = (case udp_do_write k ?p a m u of Some u' \<Rightarrow> u' | None \<Rightarrow> u)" for a m u
    using do_write_in_bound[of ?p "\<lparr>udp_in_bound = (\<lambda>e u. u), udp_out_bound = (\<lambda>a m u. u)\<rparr>" k a m u]
    by (simp add: plain_udp_filters_def)
  hence "(udp_api k ?p)\<^sup>*\<^sup>* u (udp_out_bound ?p a m u)" for a m u
    by (auto split: option.split intro: r_into_rtranclp[where r = "udp_api k ?p", OF udp_api_do_write])
  thus ?thesis by (simp add: udp_filters_ok_def plain_udp_filters_def)
qed

text \<open>A kernel that takes every datagram, and has one of two bytes to receive after a signal.\<close>

definition small_udp :: udp_io where
  "small_udp =
     \<lparr>uk_sendto = (\<lambda>n a m. Sent (length m)),
      uk_recvfrom = (\<lambda>n mtu. if n = 0 then Recv_Failed EINTR else Datagram [5, 6] (replicate 16 2)),
      uk_errno = (\<lambda>n. 0), uk_register = (\<lambda>n. None), uk_so_error = (\<lambda>n. None)\<rparr>"

lemmas udp_defs = udp_fire_on_open_def udp_fire_def udp_add_active_def udp_remove_active_def
  udp_register_handle_def udp_retain_def udp_release_def udp_touch_def udp_is_bits_on_def udp_channel_new_def
  udp_write_def udp_close_def udp_execute_def udp_fetch_or_def udp_run_next_def udp_handle_write_shot_def
  udp_fire_do_write_def udp_do_write_def udp_handle_close_def udp_fire_on_close_def udp_fire_on_error_def
  udp_socket_close_def Let_def plain_udp_filters_def small_udp_def EPOLL_IN_def k_error_bit_def k_close_bit_def
  k_read_pending_bit_def

lemma udp_lifecycle_witness:
  "\<exists>u. (udp_step small_udp (plain_udp_filters small_udp))\<^sup>*\<^sup>*
       (udp_fire_on_open small_udp (plain_udp_filters small_udp) udp_channel_new) u \<and>
     uc_wire u = [(address_new, [1, 2])] \<and> udp_closes u = 1 \<and> \<not> uc_fault u \<and> uc_deleted u"
proof -
  let ?p = "plain_udp_filters small_udp" and ?m = "[1, 2] :: u8 list"
  let ?s = "udp_step small_udp ?p"
  define a where "a = udp_fire_on_open small_udp ?p udp_channel_new"
  define b where "b = udp_run_next small_udp ?p (udp_write address_new ?m a)"
  define c where "c = udp_run_next small_udp ?p (udp_close b)"
  have a: "a = udp_channel_new\<lparr>uc_refs := 1, uc_handles := 1, uc_reg_events := 1, uc_evt := 1,
      uc_calls := 1, uc_interest := Some 1, uc_trace := [Udp_Open]\<rparr>"
    unfolding a_def by (simp add: udp_defs)
  have b: "b = a\<lparr>uc_calls := 2, uc_wire := [(address_new, ?m)]\<rparr>"
    unfolding b_def a by (simp add: udp_defs sendto_retry.simps)
  have c: "uc_wire c = [(address_new, ?m)]" "uc_pending c = []" "udp_closes c = 1"
    unfolding c_def b a by (simp_all add: udp_defs udp_closes_def)
  have "\<not> uc_deleted a" "\<not> uc_deleted b" unfolding b a by (simp_all add: udp_channel_new_def)
  hence "?s a (udp_write address_new ?m a)" "?s b (udp_close b)"
    by (auto intro: udp_step_call udp_api_write udp_api_close)
  moreover have "?s (udp_write address_new ?m a) b" "?s (udp_close b) c"
    unfolding b_def c_def by (rule udp_step_task)+
  ultimately have r: "?s\<^sup>*\<^sup>* a c" by (meson converse_rtranclp_into_rtranclp rtranclp.rtrancl_refl)
  show ?thesis
    using udp_lifecycle[OF plain_udp_filters_ok r[unfolded a_def]] r c unfolding a_def by blast
qed

section \<open>Sending, receiving, starting\<close>

lemma sendto_retry_after:
  assumes "\<forall>i<j. uk_sendto k (n + i) a m = Send_Failed EINTR" "uk_sendto k (n + j) a m = r" "r \<noteq> Send_Failed EINTR"
  shows "sendto_retry k a m n = Some (r, Suc (n + j))"
  using assms(1,2)
proof (induction j arbitrary: n)
  case 0
  thus ?case using assms(3) by (subst sendto_retry.simps) (auto split: send_result.split)
next
  case (Suc j)
  have "uk_sendto k n a m = Send_Failed EINTR" using Suc.prems(1) by fastforce
  moreover have "\<forall>i<j. uk_sendto k (Suc n + i) a m = Send_Failed EINTR" using Suc.prems(1) by fastforce
  ultimately show ?case using Suc.IH[of "Suc n"] Suc.prems(2) by (subst sendto_retry.simps) simp
qed

lemma recvfrom_retry_after:
  assumes "\<forall>i<j. uk_recvfrom k (n + i) udp_mtu = Recv_Failed EINTR" "uk_recvfrom k (n + j) udp_mtu = r"
    "r \<noteq> Recv_Failed EINTR"
  shows "recvfrom_retry k n = Some (r, Suc (n + j))"
  using assms(1,2)
proof (induction j arbitrary: n)
  case 0
  thus ?case using assms(3) by (subst recvfrom_retry.simps) (auto split: recv_result.split)
next
  case (Suc j)
  have "uk_recvfrom k n udp_mtu = Recv_Failed EINTR" using Suc.prems(1) by fastforce
  moreover have "\<forall>i<j. uk_recvfrom k (Suc n + i) udp_mtu = Recv_Failed EINTR" using Suc.prems(1) by fastforce
  ultimately show ?case using Suc.IH[of "Suc n"] Suc.prems(2) by (subst recvfrom_retry.simps) simp
qed

text \<open>What the pipeline's \<open>on_error\<close> is called with: the error bit is set, the socket is closed.\<close>

definition failed_channel :: "error_code \<Rightarrow> udp_channel \<Rightarrow> udp_channel" where
  "failed_channel ec u =
     u\<lparr>uc_state := uc_state u OR k_error_bit, uc_open := False, uc_interest := None,
       uc_trace := uc_trace u @ [Udp_Error ec]\<rparr>"

text \<open>\<open>channel::do_write\<close> of an open UDP channel, after any number of interrupted calls: the
  datagram is given to the kernel once, and a positive result changes nothing else. Every other
  result ends the channel: a failure, also one that only says that the send would block, with the
  error of \<open>sendto\<close>; and the zero with which the kernel accepts an empty datagram, although the
  datagram was sent, with whatever \<open>errno\<close> happens to hold.\<close>

theorem udp_do_write_outcomes:
  assumes "\<not> udp_has_error u" "\<not> udp_has_close u" "\<not> uc_deleted u"
    "\<forall>i<j. uk_sendto k (uc_calls u + i) a m = Send_Failed EINTR"
    "uk_sendto k (uc_calls u + j) a m = r" "r \<noteq> Send_Failed EINTR"
  shows "let u1 = u\<lparr>uc_calls := Suc (uc_calls u + j)\<rparr> in
    udp_do_write k p a m u = Some (case r of
        Send_Failed e \<Rightarrow> udp_in_bound p (Udp_Error (platform_error e)) (failed_channel (platform_error e) u1)
      | Sent 0 \<Rightarrow> (let ec = platform_error (uk_errno k (Suc (uc_calls u + j)))
                   in udp_in_bound p (Udp_Error ec) (failed_channel ec (u1\<lparr>uc_wire := uc_wire u @ [(a, [])]\<rparr>)))
      | Sent x \<Rightarrow> u1\<lparr>uc_wire := uc_wire u @ [(a, take x m)]\<rparr>)"
proof -
  have t: "udp_touch u = u" using assms(3) by (simp add: udp_touch_def)
  have "\<not> udp_is_bits_on (k_error_bit OR k_close_bit) u" using assms(1,2) by (simp add: udp_bits_view is_bits)
  thus ?thesis using assms(1) sendto_retry_after[OF assms(4-6)] t
    by (simp add: udp_do_write_def Let_def udp_error_now_eq failed_channel_def split: send_result.split nat.split)
qed

lemma udp_do_write_outcomes_witness:
  "\<exists>u'. udp_do_write small_udp (plain_udp_filters small_udp) address_new [] udp_channel_new = Some u' \<and>
     uc_trace u' = [Udp_Error (platform_error 0)] \<and> \<not> uc_open u' \<and> uc_wire u' = [(address_new, [])]"
  using udp_do_write_outcomes[of udp_channel_new 0 small_udp address_new "[]" "Sent 0" "plain_udp_filters small_udp"]
  by (simp add: udp_channel_new_def small_udp_def plain_udp_filters_def failed_channel_def)

text \<open>\<open>channel::_handle_readable\<close> of an open UDP channel that has not suspended its reads,
  after any number of interrupted calls: a datagram with content is given to the pipeline
  unchanged, with the address of its sender. An empty datagram, which any host can send, ends the
  channel as a connection its peer has closed, and so does a failure, also one that only says that
  there is nothing to read.\<close>

theorem udp_readable_outcomes:
  assumes "\<not> udp_has_error u" "\<not> udp_has_close u" "\<not> bit (uc_state u) 2"
    "\<forall>i<j. uk_recvfrom k (uc_calls u + i) udp_mtu = Recv_Failed EINTR"
    "uk_recvfrom k (uc_calls u + j) udp_mtu = r" "r \<noteq> Recv_Failed EINTR"
    "\<forall>bs sa. r = Datagram bs sa \<longrightarrow> length sa \<le> storage_size"
  shows "let u1 = u\<lparr>uc_calls := Suc (uc_calls u + j)\<rparr> in
    (case r of
       Datagram bs sa \<Rightarrow>
         if bs = [] then
           udp_handle_readable k p u = Some (udp_in_bound p (Udp_Error (tdk_error Tdk_Network_Remote_Closed))
             (failed_channel (tdk_error Tdk_Network_Remote_Closed) u1))
         else
           (\<exists>addr. addr_length addr = length sa \<and> length (addr_storage addr) = storage_size \<and>
              take (length sa) (addr_storage addr) = sa \<and>
              udp_handle_readable k p u = Some (udp_in_bound p (Udp_Read addr bs)
                (u1\<lparr>uc_trace := uc_trace u @ [Udp_Read addr bs]\<rparr>)))
     | Recv_Failed e \<Rightarrow>
         udp_handle_readable k p u =
           Some (udp_in_bound p (Udp_Error (platform_error e)) (failed_channel (platform_error e) u1)))"
proof -
  have b: "\<not> udp_is_bits_on (k_error_bit OR k_close_bit OR k_read_pending_bit) u"
    using assms(1-3) by (simp add: udp_bits_view is_bits)
  note r = recvfrom_retry_after[OF assms(4-6)]
  show ?thesis
  proof (cases r)
    case (Recv_Failed e)
    thus ?thesis using b r assms(1)
      by (simp add: udp_handle_readable_def Let_def udp_error_now_eq failed_channel_def)
  next
    case (Datagram bs sa)
    hence "length sa \<le> storage_size" using assms(7) by simp
    hence "addr_length (recv_addr sa) = length sa" "length (addr_storage (recv_addr sa)) = storage_size"
      "take (length sa) (addr_storage (recv_addr sa)) = sa"
      by (simp_all add: recv_addr_def address_new_def overwrite_def)
    thus ?thesis using b r assms(1) Datagram
      by (auto simp: udp_handle_readable_def Let_def udp_error_now_eq failed_channel_def udp_fire_on_read_def
          udp_fire_def)
  qed
qed

lemma udp_readable_outcomes_witness:
  "\<exists>u' addr. udp_handle_readable small_udp (plain_udp_filters small_udp) udp_channel_new = Some u' \<and>
     uc_trace u' = [Udp_Read addr [5, 6]] \<and> take 16 (addr_storage addr) = replicate 16 2"
proof -
  have "small_udp \<in> {k. \<forall>i<1. uk_recvfrom k (uc_calls udp_channel_new + i) udp_mtu = Recv_Failed EINTR}"
    by (simp add: small_udp_def udp_channel_new_def)
  thus ?thesis
    using udp_readable_outcomes[of udp_channel_new 1 small_udp "Datagram [5, 6] (replicate 16 2)" "plain_udp_filters small_udp"]
    by (auto simp: udp_channel_new_def small_udp_def plain_udp_filters_def storage_size_def Let_def)
qed

text \<open>\<open>bootstrap::start\<close> with an address makes one socket and keeps account of it: when it
  returns true, the descriptor is the one of the channel it starts, it was bound to the address
  before and was not closed; when it returns false, there is no channel, and the descriptor was
  never made or its last use is to close it.\<close>

theorem udp_start_keeps_or_closes:
  "let (ok, ch, n') = udp_start_address k build addr n;
       c = Sys_Socket (if addr_family addr = AF_INET6 then AF_INET6 else AF_INET) SOCK_DGRAM IPPROTO_UDP;
       fd = r_ret (k (net_calls n) c)
   in \<exists>cs. net_calls n' = net_calls n @ c # cs \<and>
     (if ok then ch = Some fd \<and> fd \<noteq> -1 \<and> Sys_Bind fd addr \<in> set cs \<and> Sys_Close fd \<notin> set cs
      else ch = None \<and> (if fd = -1 then cs = [] else cs \<noteq> [] \<and> last cs = Sys_Close fd))"
proof -
  let ?c = "Sys_Socket (if addr_family addr = AF_INET6 then AF_INET6 else AF_INET) SOCK_DGRAM IPPROTO_UDP"
  obtain r n1 where s: "sys k ?c n = (r, n1)" by fastforce
  have r: "r = k (net_calls n) ?c" "net_calls n1 = net_calls n @ [?c]" using s by (auto simp: sys_def Let_def)
  have o: "sock_open_udp k (addr_family addr) n =
      (if r_ret r = -1 then (-1, False, set_error n1) else (r_ret r, True, n1))"
    using s by (simp add: sock_open_udp_def sock_open_def INVALID_SOCKET_def split: if_splits)
  have set: "\<exists>xs. net_calls (snd (set_option (non_blocking k) fd m)) = net_calls m @ xs \<and> Sys_Close fd \<notin> set xs" for fd m
    by (auto simp: set_option_def non_blocking_def Let_def sys_def)
  have bind: "net_calls (snd (sock_bind k fd addr m)) = net_calls m @ [Sys_Bind fd addr]" for fd m
    by (simp add: sock_bind_def sock_checked_def Let_def sys_def set_error_def)
  have close: "fd \<noteq> -1 \<Longrightarrow> net_calls (snd (sock_close k fd m)) = net_calls m @ [Sys_Close fd]" for fd m
    by (simp add: sock_close_def INVALID_SOCKET_def)
  show ?thesis
  proof (cases "r_ret r = -1")
    case True
    thus ?thesis using r o by (simp add: udp_start_address_def Let_def)
  next
    case False
    let ?fd = "r_ret r"
    obtain xs where xs: "net_calls (snd (set_option (non_blocking k) ?fd n1)) = net_calls n1 @ xs"
      "Sys_Close ?fd \<notin> set xs" using set by blast
    obtain b n3 where b: "sock_bind k ?fd addr (snd (set_option (non_blocking k) ?fd n1)) = (b, n3)" by fastforce
    hence n3: "net_calls n3 = net_calls n @ ?c # xs @ [Sys_Bind ?fd addr]"
      using bind[of ?fd "snd (set_option (non_blocking k) ?fd n1)"] xs r by simp
    show ?thesis using False o b n3 xs close[of ?fd n3] r
      by (simp add: udp_start_address_def start_channel_def Let_def)
  qed
qed

text \<open>The binding fails: the descriptor 5 is closed again.\<close>

lemma udp_start_keeps_or_closes_witness:
  "let k = (\<lambda>h c. \<lparr>r_ret = (case c of Sys_Socket f t p \<Rightarrow> 5 | Sys_Bind fd a \<Rightarrow> -1 | _ \<Rightarrow> 0), r_errno = 98,
        r_data = [], r_addr = [], r_set = False, r_left = (0, 0)\<rparr>);
       (ok, ch, n') = udp_start_address k (\<lambda>fd. no_error) address_new net_new
   in \<not> ok \<and> ch = None \<and> last (net_calls n') = Sys_Close 5"
proof -
  let ?k = "\<lambda>h c. \<lparr>r_ret = (case c of Sys_Socket f t p \<Rightarrow> 5 | Sys_Bind fd a \<Rightarrow> -1 | _ \<Rightarrow> 0), r_errno = 98,
        r_data = [], r_addr = [], r_set = False, r_left = (0, 0)\<rparr> :: sys_reply"
  obtain ok ch n' where s: "udp_start_address ?k (\<lambda>fd. no_error) address_new net_new = (ok, ch, n')"
    by (metis surj_pair)
  hence "\<not> ok" by (auto simp: udp_start_address_def sock_open_udp_def sock_open_def sock_bind_def sock_checked_def
      Let_def sys_def SOCKET_ERROR_def INVALID_SOCKET_def split: if_splits)
  thus ?thesis
    using udp_start_keeps_or_closes[of ?k "\<lambda>fd. no_error" address_new net_new] unfolding Let_def s
    by auto
qed

end
