(* ===== verification/Connector.thy ===== *)
theory Connector
  imports Socket Tcp_Channel
begin

text \<open>
  The connector of TCP channels on Linux (\<open>io/ip/tcp/channel_connector.cpp\<close>): it tries the
  addresses one after the other, each under a time limit when one is set, and reports one outcome
  through its loop. The kernel, the clock, the user's \<open>on_connnect\<close> and the pipeline builder
  are parameters.
\<close>

section \<open>State\<close>

text \<open>
  \<open>cn_timer\<close> is the expiry of the timer task while it is scheduled, \<open>cn_armed\<close> the
  descriptor registered for one event, \<open>cn_active\<close> what the connector has added to the active
  count of its loop, \<open>cn_pending\<close> how often \<open>_on_connect\<close> is queued, \<open>cn_outcomes\<close>
  what the user was told, \<open>cn_channels\<close> the channels that were connected.
\<close>

datatype outcome =
  Connected address
| Declined address
| Build_Error address error_code
| Connect_Fail error_code

record connector =
  cn_fd :: int
  cn_addrs :: "address list"
  cn_index :: nat
  cn_error :: error_code
  cn_evt :: int
  cn_time_out :: time_span
  cn_timer :: "date_time option"
  cn_armed :: "int option"
  cn_active :: int
  cn_pending :: nat
  cn_clock :: nat
  cn_outcomes :: "outcome list"
  cn_channels :: "int list"
  cn_net :: net

record connector_env =
  ce_kernel :: kernel_calls
  ce_clock :: "nat \<Rightarrow> date_time"
  ce_on_connect :: "address \<Rightarrow> bool"
  ce_build :: "int \<Rightarrow> error_code"

definition EPOLLONESHOT :: int where "EPOLLONESHOT = 0x40000000"
definition ETIMEDOUT :: int where "ETIMEDOUT = 110"
definition SOL_SOCKET :: int where "SOL_SOCKET = 1"
definition SO_ERROR :: int where "SO_ERROR = 4"

definition connector_new :: "net \<Rightarrow> connector" where
  "connector_new n =
     \<lparr>cn_fd = INVALID_SOCKET, cn_addrs = [], cn_index = 0, cn_error = no_error, cn_evt = 0,
      cn_time_out = 0, cn_timer = None, cn_armed = None, cn_active = 0, cn_pending = 0, cn_clock = 0,
      cn_outcomes = [], cn_channels = [], cn_net = n\<rparr>"

definition cn_add_active :: "connector \<Rightarrow> connector" where
  "cn_add_active c = c\<lparr>cn_active := cn_active c + 1\<rparr>"

definition cn_remove_active :: "connector \<Rightarrow> connector" where
  "cn_remove_active c = c\<lparr>cn_active := cn_active c - 1\<rparr>"

text \<open>Closing the descriptor ends its registration.\<close>

definition cn_close :: "kernel_calls \<Rightarrow> connector \<Rightarrow> connector" where
  "cn_close k c =
     (let (fd, n) = sock_close k (cn_fd c) (cn_net c)
      in c\<lparr>cn_fd := fd, cn_net := n, cn_armed := None\<rparr>)"

definition platform_errno :: "connector \<Rightarrow> error_code" where
  "platform_errno c = platform_error (net_errno (cn_net c))"

section \<open>Attempts\<close>

text \<open>\<open>::connect\<close>, made again while a signal interrupts it.\<close>

partial_function (option) connect_retry :: "kernel_calls \<Rightarrow> int \<Rightarrow> address \<Rightarrow> net \<Rightarrow> (int \<times> net) option" where
  "connect_retry k fd addr n =
     (if r_ret (fst (sys k (Sys_Connect fd addr) n)) = -1 \<and>
         net_errno (snd (sys k (Sys_Connect fd addr) n)) = EINTR
      then connect_retry k fd addr (snd (sys k (Sys_Connect fd addr) n))
      else Some (r_ret (fst (sys k (Sys_Connect fd addr) n)), snd (sys k (Sys_Connect fd addr) n)))"

text \<open>The attempt is under way: the socket waits for one event, and for the timer.\<close>

definition attempt_started :: "connector_env \<Rightarrow> connector \<Rightarrow> connector" where
  "attempt_started e c =
     (let c1 = cn_add_active c
      in if cn_time_out c1 \<noteq> 0 then
           c1\<lparr>cn_timer := Some (dt_plus (ce_clock e (cn_clock c1)) (cn_time_out c1)),
              cn_clock := Suc (cn_clock c1)\<rparr>
         else c1)"

text \<open>A fresh socket that does not block.\<close>

definition attempt_open :: "connector_env \<Rightarrow> address \<Rightarrow> connector \<Rightarrow> connector \<times> bool" where
  "attempt_open e addr c0 =
     (let c = cn_close (ce_kernel e) c0;
          (fd, opened, n) = sock_open_tcp (ce_kernel e) (addr_family addr) (cn_net c)
      in if opened then
           (let (nb, n') = set_option (non_blocking (ce_kernel e)) fd n
            in (c\<lparr>cn_fd := fd, cn_net := n'\<rparr>, nb))
         else (c\<lparr>cn_fd := fd, cn_net := n\<rparr>, False))"

definition attempt_register :: "connector_env \<Rightarrow> connector \<Rightarrow> connector \<times> bool" where
  "attempt_register e c0 =
     (let c = c0\<lparr>cn_evt := EPOLL_OUT OR EPOLLONESHOT\<rparr>;
          (r, n) = sys (ce_kernel e) (Sys_Epoll_Register (cn_fd c) (cn_evt c)) (cn_net c)
      in if r_ret r = -1 then (c\<lparr>cn_net := n\<rparr>, False)
         else (attempt_started e (c\<lparr>cn_net := n, cn_armed := Some (cn_fd c)\<rparr>), True))"

definition connect_address :: "connector_env \<Rightarrow> address \<Rightarrow> connector \<Rightarrow> (connector \<times> bool) option" where
  "connect_address e addr c0 =
     (let (c, ready) = attempt_open e addr c0
      in if \<not> ready then Some (c, False)
         else do {
           (r, n) \<leftarrow> connect_retry (ce_kernel e) (cn_fd c) addr (cn_net c);
           Some (if r = 0 \<or> net_errno n = EINPROGRESS then attempt_register e (c\<lparr>cn_net := n\<rparr>)
                 else (c\<lparr>cn_net := n\<rparr>, False))
         })"

text \<open>What an attempt leaves alone.\<close>

definition same_request :: "connector \<Rightarrow> connector \<Rightarrow> bool" where
  "same_request c c1 \<longleftrightarrow>
     cn_addrs c1 = cn_addrs c \<and> cn_index c1 = cn_index c \<and> cn_time_out c1 = cn_time_out c \<and>
     cn_error c1 = cn_error c \<and> cn_pending c1 = cn_pending c \<and> cn_outcomes c1 = cn_outcomes c"

definition attempt_result :: "connector \<Rightarrow> connector \<Rightarrow> bool \<Rightarrow> bool" where
  "attempt_result c c1 ok \<longleftrightarrow>
     (if ok then cn_armed c1 = Some (cn_fd c1) \<and> cn_active c1 = cn_active c + 1 \<and>
        (if cn_time_out c \<noteq> 0 then cn_timer c1 \<noteq> None else cn_timer c1 = cn_timer c)
      else cn_armed c1 = None \<and> cn_active c1 = cn_active c \<and> cn_timer c1 = cn_timer c)"

lemma attempt_open_keeps:
  assumes "attempt_open e addr c = (c1, ready)"
  shows "same_request c c1 \<and> cn_armed c1 = None \<and> cn_active c1 = cn_active c \<and> cn_timer c1 = cn_timer c"
  using assms by (auto simp: attempt_open_def same_request_def cn_close_def Let_def split: prod.splits if_splits)

lemma attempt_register_keeps:
  assumes "attempt_register e c = (c1, ok)" "cn_armed c = None"
  shows "same_request c c1 \<and> attempt_result c c1 ok"
  using assms by (auto simp: attempt_register_def same_request_def attempt_result_def attempt_started_def
      cn_add_active_def Let_def split: prod.splits if_splits)

lemma connect_address_keeps:
  assumes "connect_address e addr c = Some (c1, ok)"
  shows "same_request c c1 \<and> attempt_result c c1 ok"
proof -
  obtain c2 ready where o: "attempt_open e addr c = (c2, ready)" by fastforce
  note k = attempt_open_keeps[OF o]
  show ?thesis
  proof (cases ready)
    case False
    thus ?thesis using assms o k by (simp add: connect_address_def attempt_result_def)
  next
    case True
    then obtain r n where "connect_retry (ce_kernel e) (cn_fd c2) addr (cn_net c2) = Some (r, n)"
      "(if r = 0 \<or> net_errno n = EINPROGRESS then attempt_register e (c2\<lparr>cn_net := n\<rparr>)
        else (c2\<lparr>cn_net := n\<rparr>, False)) = (c1, ok)"
      using assms o by (auto simp: connect_address_def bind_eq_Some_conv)
    thus ?thesis
      using k attempt_register_keeps[of e "c2\<lparr>cn_net := n\<rparr>" c1 ok]
      by (auto simp: same_request_def attempt_result_def split: if_splits)
  qed
qed

text \<open>\<open>while ( _addr_index < _addrs.size() )\<close>; the second result tells that an attempt is
  under way.\<close>

function try_addresses :: "connector_env \<Rightarrow> connector \<Rightarrow> (connector \<times> bool) option" where
  "try_addresses e c =
     (if cn_index c < length (cn_addrs c) then
        (case connect_address e (cn_addrs c ! cn_index c) (c\<lparr>cn_index := Suc (cn_index c)\<rparr>) of
           None \<Rightarrow> None
         | Some (c1, ok) \<Rightarrow> if ok then Some (c1, True) else try_addresses e c1)
      else Some (c, False))"
  by pat_completeness auto
termination
  by (relation "measure (\<lambda>(e, c). length (cn_addrs c) - cn_index c)")
    (auto dest!: connect_address_keeps simp: same_request_def)

declare try_addresses.simps [simp del]

section \<open>Operations\<close>

definition cn_execute :: "connector \<Rightarrow> connector" where
  "cn_execute c = c\<lparr>cn_pending := Suc (cn_pending c)\<rparr>"

definition cn_connect :: "connector_env \<Rightarrow> address list \<Rightarrow> connector \<Rightarrow> connector option" where
  "cn_connect e addrs c0 =
     (let c = c0\<lparr>cn_addrs := addrs, cn_index := 0\<rparr>
      in if addrs \<noteq> [] then do {
           (c, ok) \<leftarrow> try_addresses e c;
           Some (if ok then c else cn_execute (cn_add_active (c\<lparr>cn_error := platform_errno c\<rparr>)))
         }
         else Some (cn_execute (cn_add_active (c\<lparr>cn_error := tdk_error Tdk_Invalid_Call\<rparr>))))"

definition cn_connect_time_out :: "connector_env \<Rightarrow> address list \<Rightarrow> time_span \<Rightarrow> connector \<Rightarrow> connector option" where
  "cn_connect_time_out e addrs time c = cn_connect e addrs (c\<lparr>cn_time_out := time\<rparr>)"

definition cn_reconnect :: "connector_env \<Rightarrow> connector \<Rightarrow> connector option" where
  "cn_reconnect e c = do {
     (c, ok) \<leftarrow> try_addresses e (c\<lparr>cn_index := 0\<rparr>);
     Some (if ok then c else cn_execute ((cn_add_active c)\<lparr>cn_error := platform_errno c\<rparr>))
   }"

definition on_connect_fail :: "error_code \<Rightarrow> connector \<Rightarrow> connector" where
  "on_connect_fail ec c = c\<lparr>cn_outcomes := cn_outcomes c @ [Connect_Fail ec]\<rparr>"

section \<open>Handlers\<close>

definition on_timer_handler :: "connector_env \<Rightarrow> connector \<Rightarrow> connector option" where
  "on_timer_handler e c0 = do {
     let c = cn_remove_active (cn_close (ce_kernel e) c0);
     (c, ok) \<leftarrow> try_addresses e c;
     Some (if ok then c else on_connect_fail (platform_error ETIMEDOUT) c)
   }"

text \<open>\<open>SO_ERROR\<close>, when it can be read and is not zero.\<close>

definition pending_error :: "connector_env \<Rightarrow> connector \<Rightarrow> connector \<times> error_code option" where
  "pending_error e c =
     (if cn_fd c \<noteq> INVALID_SOCKET then
        (let (r, n) = sys (ce_kernel e) (Sys_Getsockopt (cn_fd c) SOL_SOCKET SO_ERROR) (cn_net c)
         in (c\<lparr>cn_net := n\<rparr>,
             if r_ret r = SOCKET_ERROR \<or> r_data r = [0, 0, 0, 0] then None
             else Some (platform_error (sint (le_word32 (r_data r ! 0) (r_data r ! 1) (r_data r ! 2) (r_data r ! 3))))))
      else (c, None))"

definition connect_verdict :: "connector_env \<Rightarrow> connector \<Rightarrow> connector" where
  "connect_verdict e c =
     (if cn_evt c AND EPOLL_OUT \<noteq> 0 then
        (let (c1, err) = pending_error e c
         in c1\<lparr>cn_error := (case err of None \<Rightarrow> no_error | Some ec \<Rightarrow> ec)\<rparr>)
      else if cn_evt c AND EPOLL_ERR \<noteq> 0 then
        (let (c1, err) = pending_error e c
         in c1\<lparr>cn_error := (case err of None \<Rightarrow> tdk_error Tdk_Epoll_Error | Some ec \<Rightarrow> ec)\<rparr>)
      else if cn_evt c AND EPOLL_HUP \<noteq> 0 then c\<lparr>cn_error := tdk_error Tdk_Epoll_Hang_Up\<rparr>
      else c\<lparr>cn_error := tdk_error Tdk_Invalid_Event\<rparr>)"

definition cn_told :: "outcome \<Rightarrow> connector \<Rightarrow> connector" where
  "cn_told out c = c\<lparr>cn_outcomes := cn_outcomes c @ [out]\<rparr>"

definition on_connect_handler :: "connector_env \<Rightarrow> connector \<Rightarrow> connector option" where
  "on_connect_handler e c0 =
     (let c = connect_verdict e c0;
          c = (if cn_time_out c \<noteq> 0 then c\<lparr>cn_timer := None\<rparr> else c);
          c = cn_remove_active c
      in if is_error (cn_error c) then do {
           (c, ok) \<leftarrow> try_addresses e (cn_close (ce_kernel e) c);
           Some (if ok then c else on_connect_fail (cn_error c) c)
         }
         else if cn_index c = 0 \<or> length (cn_addrs c) < cn_index c then None
         else
           (let addr = cn_addrs c ! (cn_index c - 1)
            in if \<not> ce_on_connect e addr then Some (cn_told (Declined addr) c)
               else if is_error (ce_build e (cn_fd c)) then
                 Some (cn_told (Build_Error addr (ce_build e (cn_fd c))) c)
               else Some ((cn_told (Connected addr) c)\<lparr>cn_channels := cn_channels c @ [cn_fd c]\<rparr>)))"

text \<open>What the loop delivers: the event of the registered descriptor, which the one-shot flag
  disarms, the expired timer, or the queued task.\<close>

datatype cn_event = Ready int | Expired | Queued

fun cn_enabled :: "connector \<Rightarrow> cn_event \<Rightarrow> bool" where
  "cn_enabled c (Ready ev) = (cn_armed c \<noteq> None)"
| "cn_enabled c Expired = (cn_timer c \<noteq> None)"
| "cn_enabled c Queued = (0 < cn_pending c)"

fun cn_deliver :: "connector_env \<Rightarrow> cn_event \<Rightarrow> connector \<Rightarrow> connector option" where
  "cn_deliver e (Ready ev) c = on_connect_handler e (c\<lparr>cn_armed := None, cn_evt := ev\<rparr>)"
| "cn_deliver e Expired c = on_timer_handler e (c\<lparr>cn_timer := None\<rparr>)"
| "cn_deliver e Queued c = on_connect_handler e (c\<lparr>cn_pending := cn_pending c - 1\<rparr>)"

fun cn_run :: "connector_env \<Rightarrow> cn_event list \<Rightarrow> connector \<Rightarrow> connector option" where
  "cn_run e [] c = Some c"
| "cn_run e (ev # evs) c =
     (if cn_enabled c ev then do { c1 \<leftarrow> cn_deliver e ev c; cn_run e evs c1 } else None)"

section \<open>Phases\<close>

text \<open>\<open>b\<close> is the active count before the request, \<open>outs\<close> what was reported before it.\<close>

definition cn_waiting :: "int \<Rightarrow> outcome list \<Rightarrow> connector \<Rightarrow> bool" where
  "cn_waiting b outs c \<longleftrightarrow>
     cn_armed c = Some (cn_fd c) \<and> cn_pending c = 0 \<and> cn_active c = b + 1 \<and>
     (cn_timer c = None \<longleftrightarrow> cn_time_out c = 0) \<and> cn_outcomes c = outs \<and>
     0 < cn_index c \<and> cn_index c \<le> length (cn_addrs c)"

definition cn_queued :: "int \<Rightarrow> outcome list \<Rightarrow> connector \<Rightarrow> bool" where
  "cn_queued b outs c \<longleftrightarrow>
     cn_armed c = None \<and> cn_pending c = 1 \<and> cn_active c = b + 1 \<and> cn_timer c = None \<and>
     cn_outcomes c = outs \<and> cn_index c = length (cn_addrs c) \<and> cn_addrs c \<noteq> []"

definition cn_done :: "int \<Rightarrow> outcome list \<Rightarrow> connector \<Rightarrow> bool" where
  "cn_done b outs c \<longleftrightarrow>
     cn_armed c = None \<and> cn_pending c = 0 \<and> cn_active c = b \<and> cn_timer c = None \<and>
     (\<exists>out. cn_outcomes c = outs @ [out])"

definition cn_idle :: "connector \<Rightarrow> bool" where
  "cn_idle c \<longleftrightarrow> cn_armed c = None \<and> cn_pending c = 0 \<and> cn_timer c = None"

lemma connect_retry_returns:
  assumes "quiet_after k m"
  shows "connect_retry k fd addr n \<noteq> None"
proof (induction "m - length (net_calls n)" arbitrary: n rule: less_induct)
  case less
  show ?case
  proof (cases "r_ret (k (net_calls n) (Sys_Connect fd addr)) = -1 \<and> r_errno (k (net_calls n) (Sys_Connect fd addr)) = EINTR")
    case True
    hence "length (net_calls n) < m" using assms by (auto simp: quiet_after_def not_le[symmetric])
    thus ?thesis using less[of "snd (sys k (Sys_Connect fd addr) n)"]
      by (subst connect_retry.simps) auto
  next
    case False
    hence "(r_ret (fst (sys k (Sys_Connect fd addr) n)) = -1 \<and>
        net_errno (snd (sys k (Sys_Connect fd addr) n)) = EINTR) = False" by (auto simp: sys_def Let_def)
    thus ?thesis by (subst connect_retry.simps) (simp only: if_False option.distinct simp_thms)
  qed
qed

lemma connect_address_returns:
  assumes "quiet_after (ce_kernel e) m"
  shows "\<exists>c1 ok. connect_address e addr c = Some (c1, ok)"
proof -
  obtain c2 ready where o: "attempt_open e addr c = (c2, ready)" by fastforce
  obtain r n where "connect_retry (ce_kernel e) (cn_fd c2) addr (cn_net c2) = Some (r, n)"
    using connect_retry_returns[OF assms] by fastforce
  thus ?thesis using o by (auto simp: connect_address_def)
qed

lemma try_addresses_spec:
  assumes "quiet_after (ce_kernel e) m" "cn_armed c = None" "cn_index c \<le> length (cn_addrs c)"
  shows "\<exists>c1 ok. try_addresses e c = Some (c1, ok) \<and> attempt_result c c1 ok \<and>
    same_request c (c1\<lparr>cn_index := cn_index c\<rparr>) \<and>
    (if ok then cn_index c < cn_index c1 \<and> cn_index c1 \<le> length (cn_addrs c)
     else cn_index c1 = length (cn_addrs c))"
  using assms
proof (induction e c rule: try_addresses.induct)
  case (1 e c)
  show ?case
  proof (cases "cn_index c < length (cn_addrs c)")
    case True
    obtain c1 ok where a: "connect_address e (cn_addrs c ! cn_index c) (c\<lparr>cn_index := Suc (cn_index c)\<rparr>) = Some (c1, ok)"
      using connect_address_returns[OF "1.prems"(1)] by blast
    note k = connect_address_keeps[OF a]
    show ?thesis
    proof (cases ok)
      case True': True
      hence "try_addresses e c = Some (c1, True)" using a True by (subst try_addresses.simps) simp
      thus ?thesis using k True True' by (auto simp: same_request_def attempt_result_def)
    next
      case False
      have "try_addresses e c = try_addresses e c1" using a True False by (subst try_addresses.simps) simp
      thus ?thesis using "1.IH"[OF True a refl False "1.prems"(1)] k False True
        by (fastforce simp: same_request_def attempt_result_def)
    qed
  next
    case False
    hence "try_addresses e c = Some (c, False)" by (subst try_addresses.simps) simp
    thus ?thesis using "1.prems" False
      by (intro exI[of _ c] exI[of _ False]) (simp add: same_request_def attempt_result_def)
  qed
qed

lemma connect_verdict_keeps [simp]:
  "cn_addrs (connect_verdict e c) = cn_addrs c" "cn_index (connect_verdict e c) = cn_index c"
  "cn_time_out (connect_verdict e c) = cn_time_out c" "cn_timer (connect_verdict e c) = cn_timer c"
  "cn_armed (connect_verdict e c) = cn_armed c" "cn_active (connect_verdict e c) = cn_active c"
  "cn_pending (connect_verdict e c) = cn_pending c" "cn_outcomes (connect_verdict e c) = cn_outcomes c"
  by (simp_all add: connect_verdict_def pending_error_def Let_def split: prod.splits)

lemma cn_close_keeps [simp]:
  "cn_addrs (cn_close k c) = cn_addrs c" "cn_index (cn_close k c) = cn_index c"
  "cn_time_out (cn_close k c) = cn_time_out c" "cn_timer (cn_close k c) = cn_timer c"
  "cn_armed (cn_close k c) = None" "cn_active (cn_close k c) = cn_active c"
  "cn_pending (cn_close k c) = cn_pending c" "cn_outcomes (cn_close k c) = cn_outcomes c"
  "cn_error (cn_close k c) = cn_error c"
  by (simp_all add: cn_close_def Let_def split: prod.splits)

text \<open>A request goes on with a later address, or it is over.\<close>

definition cn_next :: "int \<Rightarrow> outcome list \<Rightarrow> connector \<Rightarrow> connector \<Rightarrow> bool" where
  "cn_next b outs c c1 \<longleftrightarrow>
     cn_addrs c1 = cn_addrs c \<and> (cn_waiting b outs c1 \<and> cn_index c < cn_index c1 \<or> cn_done b outs c1)"

lemma try_then_fail:
  assumes "quiet_after (ce_kernel e) m" "cn_armed c = None" "cn_index c \<le> length (cn_addrs c)"
    "cn_pending c = 0" "cn_active c = b" "cn_timer c = None" "cn_outcomes c = outs"
  shows "\<exists>c1 ok. try_addresses e c = Some (c1, ok) \<and> cn_addrs c1 = cn_addrs c \<and>
    (if ok then cn_waiting b outs c1 \<and> cn_index c < cn_index c1 else \<forall>ec. cn_done b outs (on_connect_fail ec c1))"
proof -
  obtain c1 ok where t: "try_addresses e c = Some (c1, ok)" "attempt_result c c1 ok"
    "same_request c (c1\<lparr>cn_index := cn_index c\<rparr>)"
    "if ok then cn_index c < cn_index c1 \<and> cn_index c1 \<le> length (cn_addrs c) else cn_index c1 = length (cn_addrs c)"
    using try_addresses_spec[OF assms(1-3)] by blast
  have "if ok then cn_waiting b outs c1 \<and> cn_index c < cn_index c1 else \<forall>ec. cn_done b outs (on_connect_fail ec c1)"
    using t(2-4) assms(4-7)
    by (cases ok) (auto simp: attempt_result_def same_request_def cn_waiting_def cn_done_def on_connect_fail_def
        split: if_splits)
  thus ?thesis using t(1,3) by (intro exI[of _ c1] exI[of _ ok]) (simp add: same_request_def)
qed

lemma on_connect_handler_next:
  assumes "quiet_after (ce_kernel e) m" "cn_armed c = None" "0 < cn_index c" "cn_index c \<le> length (cn_addrs c)"
    "cn_pending c = 0" "cn_active c = b + 1" "cn_time_out c = 0 \<longrightarrow> cn_timer c = None" "cn_outcomes c = outs"
  shows "\<exists>c1. on_connect_handler e c = Some c1 \<and> cn_next b outs c c1"
proof -
  let ?d = "connect_verdict e c"
  let ?c = "cn_remove_active (if cn_time_out ?d \<noteq> 0 then ?d\<lparr>cn_timer := None\<rparr> else ?d)"
  have c: "cn_armed ?c = None" "cn_index ?c = cn_index c" "cn_addrs ?c = cn_addrs c" "cn_pending ?c = 0"
    "cn_active ?c = b" "cn_timer ?c = None" "cn_outcomes ?c = outs"
    using assms by (auto simp: cn_remove_active_def)
  show ?thesis
  proof (cases "is_error (cn_error ?c)")
    case True
    define cc where "cc = cn_close (ce_kernel e) ?c"
    have cc: "cn_armed cc = None" "cn_index cc \<le> length (cn_addrs cc)" "cn_pending cc = 0" "cn_active cc = b"
      "cn_timer cc = None" "cn_outcomes cc = outs" "cn_index cc = cn_index c" "cn_addrs cc = cn_addrs c"
      unfolding cc_def cn_close_keeps c using assms(4) by simp_all
    obtain c1 ok where t: "try_addresses e cc = Some (c1, ok)" "cn_addrs c1 = cn_addrs c"
      "if ok then cn_waiting b outs c1 \<and> cn_index c < cn_index c1 else \<forall>ec. cn_done b outs (on_connect_fail ec c1)"
      using try_then_fail[OF assms(1) cc(1-6)] unfolding cc(7,8) by blast
    have "on_connect_handler e c = Some (if ok then c1 else on_connect_fail (cn_error c1) c1)"
      unfolding on_connect_handler_def Let_def using True t(1) unfolding cc_def by simp
    thus ?thesis using t by (auto simp: cn_next_def on_connect_fail_def)
  next
    case False
    hence "\<exists>c1. on_connect_handler e c = Some c1 \<and> cn_addrs c1 = cn_addrs c \<and> cn_done b outs c1"
      unfolding on_connect_handler_def Let_def using c assms(3,4)
      by (auto simp: cn_done_def cn_told_def)
    thus ?thesis by (auto simp: cn_next_def)
  qed
qed

lemma on_timer_handler_next:
  assumes "quiet_after (ce_kernel e) m" "cn_index c \<le> length (cn_addrs c)"
    "cn_pending c = 0" "cn_active c = b + 1" "cn_timer c = None" "cn_outcomes c = outs"
  shows "\<exists>c1. on_timer_handler e c = Some c1 \<and> cn_next b outs c c1"
proof -
  define cc where "cc = cn_remove_active (cn_close (ce_kernel e) c)"
  have cc: "cn_armed cc = None" "cn_index cc \<le> length (cn_addrs cc)" "cn_pending cc = 0" "cn_active cc = b"
    "cn_timer cc = None" "cn_outcomes cc = outs" "cn_index cc = cn_index c" "cn_addrs cc = cn_addrs c"
    using assms by (simp_all add: cc_def cn_remove_active_def)
  obtain c1 ok where t: "try_addresses e cc = Some (c1, ok)" "cn_addrs c1 = cn_addrs c"
    "if ok then cn_waiting b outs c1 \<and> cn_index c < cn_index c1 else \<forall>ec. cn_done b outs (on_connect_fail ec c1)"
    using try_then_fail[OF assms(1) cc(1-6)] unfolding cc(7,8) by blast
  have "on_timer_handler e c = Some (if ok then c1 else on_connect_fail (platform_error ETIMEDOUT) c1)"
    unfolding on_timer_handler_def Let_def using t(1) unfolding cc_def by simp
  thus ?thesis using t by (auto simp: cn_next_def on_connect_fail_def)
qed

text \<open>The phase of a request, with a bound on the events it still takes.\<close>

definition cn_phase :: "int \<Rightarrow> outcome list \<Rightarrow> nat \<Rightarrow> connector \<Rightarrow> bool" where
  "cn_phase b outs k c \<longleftrightarrow>
     cn_waiting b outs c \<and> k = Suc (length (cn_addrs c) - cn_index c) \<or>
     cn_queued b outs c \<and> k = 1 \<or> cn_done b outs c \<and> k = 0"

lemma cn_deliver_phase:
  assumes "quiet_after (ce_kernel e) m" "cn_phase b outs k c" "cn_enabled c ev"
  shows "\<exists>c1 j. cn_deliver e ev c = Some c1 \<and> cn_phase b outs j c1 \<and> j < k \<and> cn_addrs c1 = cn_addrs c"
proof -
  have step: ?thesis if w: "cn_waiting b outs c \<or> cn_queued b outs c"
    and d: "\<exists>c1. cn_deliver e ev c = Some c1 \<and> cn_next b outs d c1" "cn_addrs d = cn_addrs c" "cn_index d = cn_index c" for d
  proof -
    obtain c1 where c1: "cn_deliver e ev c = Some c1" "cn_next b outs d c1" using d(1) by blast
    have k: "0 < k" "cn_waiting b outs c \<Longrightarrow> k = Suc (length (cn_addrs c) - cn_index c)"
      using assms(2) w by (auto simp: cn_phase_def cn_waiting_def cn_queued_def cn_done_def)
    show ?thesis
    proof (cases "cn_done b outs c1")
      case True
      thus ?thesis using c1 k d(2) by (auto simp: cn_next_def cn_phase_def)
    next
      case False
      hence n: "cn_waiting b outs c1" "cn_index c < cn_index c1" "cn_addrs c1 = cn_addrs c"
        using c1(2) d(2,3) by (auto simp: cn_next_def)
      hence "cn_waiting b outs c"
        using w by (auto simp: cn_waiting_def cn_queued_def)
      moreover have "cn_phase b outs (Suc (length (cn_addrs c1) - cn_index c1)) c1" using n by (simp add: cn_phase_def)
      ultimately show ?thesis using c1(1) k n
        by (intro exI[of _ c1] exI[of _ "Suc (length (cn_addrs c1) - cn_index c1)"]) (auto simp: cn_waiting_def)
    qed
  qed
  from assms(2) consider "cn_waiting b outs c" | "cn_queued b outs c" | "cn_done b outs c"
    by (auto simp: cn_phase_def)
  thus ?thesis
  proof cases
    case 1
    show ?thesis
    proof (cases ev)
      case (Ready x)
      show ?thesis
        using 1 Ready on_connect_handler_next[OF assms(1), of "c\<lparr>cn_armed := None, cn_evt := x\<rparr>" b outs]
        by (intro step[of "c\<lparr>cn_armed := None, cn_evt := x\<rparr>"]) (auto simp: cn_waiting_def)
    next
      case Expired
      show ?thesis using 1 Expired on_timer_handler_next[OF assms(1), of "c\<lparr>cn_timer := None\<rparr>" b outs]
        by (intro step[of "c\<lparr>cn_timer := None\<rparr>"]) (auto simp: cn_waiting_def)
    next
      case Queued
      thus ?thesis using 1 assms(3) by (simp add: cn_waiting_def)
    qed
  next
    case 2
    hence "ev = Queued" using assms(3) by (cases ev) (auto simp: cn_queued_def)
    thus ?thesis
      using 2 on_connect_handler_next[OF assms(1), of "c\<lparr>cn_pending := 0\<rparr>" b outs]
      by (intro step[of "c\<lparr>cn_pending := 0\<rparr>"]) (auto simp: cn_queued_def)
  next
    case 3
    thus ?thesis using assms(3) by (cases ev) (auto simp: cn_done_def)
  qed
qed

lemma cn_run_phase:
  assumes "quiet_after (ce_kernel e) m"
  shows "cn_phase b outs k c \<Longrightarrow> cn_run e evs c = Some c2 \<Longrightarrow>
    \<exists>j. cn_phase b outs j c2 \<and> j + length evs \<le> k"
proof (induction evs arbitrary: k c)
  case (Cons ev evs)
  hence "cn_enabled c ev" by (auto split: if_splits)
  then obtain c1 j where s: "cn_deliver e ev c = Some c1" "cn_phase b outs j c1" "j < k"
    using cn_deliver_phase[OF assms Cons.prems(1)] by blast
  hence "cn_run e evs c1 = Some c2" using Cons.prems(2) by (auto split: if_splits)
  thus ?case using Cons.IH[OF s(2)] s(3) by fastforce
qed auto

lemma cn_connect_phase:
  assumes "quiet_after (ce_kernel e) m" "cn_idle c" "addrs \<noteq> []"
  shows "\<exists>c1 k. cn_connect e addrs c = Some c1 \<and> cn_phase (cn_active c) (cn_outcomes c) k c1 \<and> k \<le> length addrs"
proof -
  define d where "d = c\<lparr>cn_addrs := addrs, cn_index := 0\<rparr>"
  have d: "cn_armed d = None" "cn_index d \<le> length (cn_addrs d)" using assms(2) by (simp_all add: d_def cn_idle_def)
  obtain c1 ok where t: "try_addresses e d = Some (c1, ok)" "attempt_result d c1 ok"
    "same_request d (c1\<lparr>cn_index := cn_index d\<rparr>)"
    "if ok then cn_index d < cn_index c1 \<and> cn_index c1 \<le> length (cn_addrs d) else cn_index c1 = length (cn_addrs d)"
    using try_addresses_spec[OF assms(1) d] by blast
  have r: "cn_connect e addrs c =
      Some (if ok then c1 else cn_execute (cn_add_active (c1\<lparr>cn_error := platform_errno c1\<rparr>)))"
    using t(1) assms(3) by (simp add: cn_connect_def d_def)
  show ?thesis
  proof (cases ok)
    case True
    hence "cn_phase (cn_active c) (cn_outcomes c) (Suc (length addrs - cn_index c1)) c1"
      using t assms(2) by (auto simp: cn_phase_def cn_waiting_def attempt_result_def same_request_def d_def cn_idle_def split: if_splits)
    thus ?thesis using r True t by (intro exI conjI) (auto simp: d_def)
  next
    case False
    hence "cn_queued (cn_active c) (cn_outcomes c) (cn_execute (cn_add_active (c1\<lparr>cn_error := platform_errno c1\<rparr>)))"
      using t assms(2,3) by (auto simp: cn_queued_def attempt_result_def same_request_def d_def cn_idle_def
          cn_execute_def cn_add_active_def)
    thus ?thesis using r False assms(3) by (auto simp: cn_phase_def Suc_le_eq)
  qed
qed

lemma cn_phase_enabled:
  assumes "cn_phase b outs k c"
  shows "if \<exists>ev. cn_enabled c ev then cn_active c = b + 1 \<and> cn_outcomes c = outs
    else cn_active c = b \<and> (\<exists>out. cn_outcomes c = outs @ [out])"
proof -
  from assms consider "cn_waiting b outs c" | "cn_queued b outs c" | "cn_done b outs c"
    by (auto simp: cn_phase_def)
  thus ?thesis
  proof cases
    case 1
    have "cn_enabled c (Ready 0)" using 1 by (simp add: cn_waiting_def)
    hence "\<exists>ev. cn_enabled c ev" by blast
    thus ?thesis using 1 by (simp only: if_P) (simp add: cn_waiting_def)
  next
    case 2
    have "cn_enabled c Queued" using 2 by (simp add: cn_queued_def)
    hence "\<exists>ev. cn_enabled c ev" by blast
    thus ?thesis using 2 by (simp only: if_P) (simp add: cn_queued_def)
  next
    case 3
    hence "\<not> cn_enabled c ev" for ev by (cases ev) (auto simp: cn_done_def)
    thus ?thesis using 3 by (auto simp: cn_done_def)
  qed
qed

text \<open>C16. A request to connect to a list of addresses, once signals stop interrupting: it
  returns, its handlers return, it is over after at most as many events as there are addresses,
  and until then it keeps its loop active once and has told the user nothing; when no event of it
  is left, the user was told exactly one outcome and the active count of the loop is what it
  was.\<close>

theorem connector_one_outcome:
  assumes "quiet_after (ce_kernel e) m" "cn_idle c" "addrs \<noteq> []"
  shows "\<exists>c1. cn_connect e addrs c = Some c1 \<and>
    (\<forall>evs c2. cn_run e evs c1 = Some c2 \<longrightarrow>
       length evs \<le> length addrs \<and> (\<forall>ev. cn_enabled c2 ev \<longrightarrow> cn_deliver e ev c2 \<noteq> None) \<and>
       (if \<exists>ev. cn_enabled c2 ev then cn_active c2 = cn_active c + 1 \<and> cn_outcomes c2 = cn_outcomes c
        else cn_active c2 = cn_active c \<and> (\<exists>out. cn_outcomes c2 = cn_outcomes c @ [out])))"
proof -
  obtain c1 k where c1: "cn_connect e addrs c = Some c1"
    "cn_phase (cn_active c) (cn_outcomes c) k c1" "k \<le> length addrs"
    using cn_connect_phase[OF assms] by blast
  have "length evs \<le> length addrs \<and> (\<forall>ev. cn_enabled c2 ev \<longrightarrow> cn_deliver e ev c2 \<noteq> None) \<and>
       (if \<exists>ev. cn_enabled c2 ev then cn_active c2 = cn_active c + 1 \<and> cn_outcomes c2 = cn_outcomes c
        else cn_active c2 = cn_active c \<and> (\<exists>out. cn_outcomes c2 = cn_outcomes c @ [out]))"
    if r: "cn_run e evs c1 = Some c2" for evs c2
  proof -
    obtain j where j: "cn_phase (cn_active c) (cn_outcomes c) j c2" "j + length evs \<le> k"
      using cn_run_phase[OF assms(1) c1(2) r] by blast
    have "cn_deliver e ev c2 \<noteq> None" if "cn_enabled c2 ev" for ev
      using cn_deliver_phase[OF assms(1) j(1) that] by auto
    moreover have "length evs \<le> length addrs" using j(2) c1(3) by simp
    ultimately show ?thesis using cn_phase_enabled[OF j(1)] by blast
  qed
  thus ?thesis using c1(1) by blast
qed

text \<open>A kernel where every call succeeds: descriptor 5, ready at once.\<close>

definition easy_kernel :: kernel_calls where
  "easy_kernel h c =
     \<lparr>r_ret = (case c of Sys_Socket f t p \<Rightarrow> 5 | _ \<Rightarrow> 0), r_errno = 0, r_data = [0, 0, 0, 0],
      r_addr = [], r_set = True, r_left = (0, 0)\<rparr>"

definition easy_env :: "kernel_calls \<Rightarrow> connector_env" where
  "easy_env k = \<lparr>ce_kernel = k, ce_clock = (\<lambda>n. 0), ce_on_connect = (\<lambda>a. True), ce_build = (\<lambda>fd. no_error)\<rparr>"

lemma easy_quiet: "quiet_after easy_kernel 0"
  by (simp add: quiet_after_def easy_kernel_def EINTR_def)

lemma connector_one_outcome_witness:
  "\<exists>c1. cn_connect (easy_env easy_kernel) [address_new] (connector_new net_new) = Some c1 \<and>
     (\<forall>evs c2. cn_run (easy_env easy_kernel) evs c1 = Some c2 \<longrightarrow> length evs \<le> 1 \<and> cn_active c2 \<in> {0, 1})"
  using connector_one_outcome[of "easy_env easy_kernel" 0 "connector_new net_new" "[address_new]"] easy_quiet
  by (fastforce simp: easy_env_def cn_idle_def connector_new_def split: if_splits)

text \<open>When every attempt fails at its socket, no address gets as far as the event mask.\<close>

lemma sock_open_tcp_fails:
  "\<forall>h f t p. r_ret (k h (Sys_Socket f t p)) = -1 \<Longrightarrow> \<exists>n'. sock_open_tcp k fam n = (-1, False, n')"
  by (simp add: sock_open_tcp_def sock_open_def sys_def Let_def INVALID_SOCKET_def)

lemma connect_no_socket:
  assumes "\<And>h f t p. r_ret (ce_kernel e h (Sys_Socket f t p)) = -1"
  shows "\<exists>c1. connect_address e addr c = Some (c1, False) \<and> cn_evt c1 = cn_evt c"
proof -
  obtain n where "sock_open_tcp (ce_kernel e) (addr_family addr) (cn_net (cn_close (ce_kernel e) c)) = (-1, False, n)"
    using sock_open_tcp_fails[of "ce_kernel e"] assms by blast
  thus ?thesis by (auto simp: connect_address_def attempt_open_def Let_def cn_close_def split: prod.splits)
qed

lemma try_no_socket:
  assumes "\<And>h f t p. r_ret (ce_kernel e h (Sys_Socket f t p)) = -1" "cn_index c \<le> length (cn_addrs c)"
  shows "\<exists>c1. try_addresses e c = Some (c1, False) \<and> cn_evt c1 = cn_evt c \<and> cn_addrs c1 = cn_addrs c \<and>
    cn_index c1 = length (cn_addrs c) \<and> cn_outcomes c1 = cn_outcomes c \<and> cn_pending c1 = cn_pending c \<and>
    cn_error c1 = cn_error c \<and> cn_time_out c1 = cn_time_out c"
  using assms
proof (induction e c rule: try_addresses.induct)
  case (1 e c)
  show ?case
  proof (cases "cn_index c < length (cn_addrs c)")
    case True
    obtain c1 where a: "connect_address e (cn_addrs c ! cn_index c) (c\<lparr>cn_index := Suc (cn_index c)\<rparr>) = Some (c1, False)"
      "cn_evt c1 = cn_evt c"
      using connect_no_socket[OF "1.prems"(1), of "cn_addrs c ! cn_index c" "c\<lparr>cn_index := Suc (cn_index c)\<rparr>"] by auto
    note k = connect_address_keeps[OF a(1)]
    have "try_addresses e c = try_addresses e c1" using a True by (subst try_addresses.simps) simp
    thus ?thesis using "1.IH"[OF True a(1) refl _ "1.prems"(1)] k True a(2) by (auto simp: same_request_def)
  next
    case False
    hence "try_addresses e c = Some (c, False)" by (subst try_addresses.simps) simp
    thus ?thesis using "1.prems" False by simp
  qed
qed

text \<open>A kernel where every call succeeds but the poller refuses the socket.\<close>

definition poller_refuses :: "kernel_calls \<Rightarrow> bool" where
  "poller_refuses k \<longleftrightarrow>
     (\<forall>h c. r_ret (k h c) = (case c of Sys_Socket f t p \<Rightarrow> 5 | Sys_Epoll_Register fd ev \<Rightarrow> -1 | _ \<Rightarrow> 0)) \<and>
     (\<forall>h. r_data (k h (Sys_Getsockopt 5 SOL_SOCKET SO_ERROR)) = [0, 0, 0, 0])"

lemma connect_refused:
  assumes "poller_refuses (ce_kernel e)"
  shows "\<exists>c1. connect_address e addr c = Some (c1, False) \<and> cn_evt c1 = EPOLL_OUT OR EPOLLONESHOT \<and> cn_fd c1 = 5"
proof -
  let ?k = "ce_kernel e"
  have k: "r_ret (?k h (Sys_Socket f t p)) = 5" "r_ret (?k h (Sys_Fcntl_Setfl fd v)) = 0"
    "r_ret (?k h (Sys_Connect fd ad)) = 0" "r_ret (?k h (Sys_Epoll_Register fd v)) = -1" for h f t p fd v ad
    using assms by (simp_all add: poller_refuses_def)
  have o: "\<exists>n'. sock_open_tcp ?k fam n = (5, True, n')" for fam n
    by (simp add: sock_open_tcp_def sock_open_def sys_def Let_def INVALID_SOCKET_def k)
  have b: "\<exists>n'. set_option (non_blocking ?k) 5 n = (True, n')" for n
    by (simp add: set_option_def non_blocking_def INVALID_SOCKET_def sys_def Let_def k)
  obtain n1 where n1: "sock_open_tcp ?k (addr_family addr) (cn_net (cn_close ?k c)) = (5, True, n1)" using o by blast
  obtain n2 where "set_option (non_blocking ?k) 5 n1 = (True, n2)" using b by blast
  then obtain c2 where a: "attempt_open e addr c = (c2, True)" "cn_fd c2 = 5"
    using n1 by (simp add: attempt_open_def)
  have r: "connect_retry ?k fd addr m = Some (0, snd (sys ?k (Sys_Connect fd addr) m))" for fd m
    by (subst connect_retry.simps) (simp add: k)
  have "\<exists>c1. attempt_register e (c2\<lparr>cn_net := m\<rparr>) = (c1, False) \<and> cn_evt c1 = EPOLL_OUT OR EPOLLONESHOT \<and> cn_fd c1 = 5" for m
    using a(2) by (simp add: attempt_register_def sys_def Let_def k)
  thus ?thesis using a(1) r by (simp add: connect_address_def)
qed

text \<open>The first part of the statement below.\<close>

lemma connector_no_socket:
  assumes a: "addrs \<noteq> []" "\<And>h f t p. r_ret (ce_kernel e h (Sys_Socket f t p)) = -1"
  shows "\<exists>c1 c2. cn_connect e addrs (connector_new n) = Some c1 \<and> cn_deliver e Queued c1 = Some c2 \<and>
        cn_outcomes c2 = [Connect_Fail (tdk_error Tdk_Invalid_Event)]"
proof -
  define d where "d = (connector_new n)\<lparr>cn_addrs := addrs, cn_index := 0\<rparr>"
  obtain c1 where t: "try_addresses e d = Some (c1, False)" "cn_evt c1 = 0" "cn_addrs c1 = addrs"
    "cn_index c1 = length addrs" "cn_outcomes c1 = []" "cn_pending c1 = 0"
    using try_no_socket[of e d] a by (auto simp: d_def connector_new_def)
  define c2 where "c2 = cn_execute (cn_add_active (c1\<lparr>cn_error := platform_errno c1\<rparr>))"
  have 1: "cn_connect e addrs (connector_new n) = Some c2"
    using t(1) a by (simp add: cn_connect_def d_def c2_def)
  define v where "v = connect_verdict e (c2\<lparr>cn_pending := 0\<rparr>)"
  have "cn_pending c2 = 1" using t by (simp add: c2_def cn_execute_def cn_add_active_def)
  have v: "cn_error v = tdk_error Tdk_Invalid_Event" "cn_index v = length (cn_addrs v)" "cn_outcomes v = []"
    using t by (simp_all add: v_def c2_def connect_verdict_def cn_execute_def cn_add_active_def)
  define w where "w = cn_close (ce_kernel e) (cn_remove_active (if cn_time_out v \<noteq> 0 then v\<lparr>cn_timer := None\<rparr> else v))"
  have w: "cn_error w = tdk_error Tdk_Invalid_Event" "\<not> cn_index w < length (cn_addrs w)" "cn_outcomes w = []"
    using v by (auto simp: w_def cn_remove_active_def)
  have "try_addresses e w = Some (w, False)" using w by (subst try_addresses.simps) simp
  moreover have "is_error (cn_error (cn_remove_active (if cn_time_out v \<noteq> 0 then v\<lparr>cn_timer := None\<rparr> else v)))"
    using v(1) by (simp add: cn_remove_active_def is_error_def tdk_error_def)
  ultimately have "on_connect_handler e (c2\<lparr>cn_pending := 0\<rparr>) = Some (on_connect_fail (cn_error w) w)"
    unfolding on_connect_handler_def Let_def v_def[symmetric] w_def[symmetric] by simp
  hence "cn_deliver e Queued c2 = Some (on_connect_fail (cn_error w) w)"
    using \<open>cn_pending c2 = 1\<close> by simp
  thus ?thesis using 1 w by (auto simp: on_connect_fail_def)
qed

lemma connector_refused:
  assumes a: "ce_on_connect e a" "\<not> is_error (ce_build e 5)" "poller_refuses (ce_kernel e)"
  shows "\<exists>c1 c2. cn_connect e [a] (connector_new n) = Some c1 \<and> cn_deliver e Queued c1 = Some c2 \<and>
        cn_outcomes c2 = [Connected a]"
proof -
  define d where "d = (connector_new n)\<lparr>cn_addrs := [a], cn_index := Suc 0\<rparr>"
  obtain c1 where t: "connect_address e a d = Some (c1, False)" "cn_evt c1 = EPOLL_OUT OR EPOLLONESHOT" "cn_fd c1 = 5"
    using connect_refused[OF a(3), of a d] by blast
  have k: "cn_addrs c1 = [a]" "cn_index c1 = Suc 0" "cn_outcomes c1 = []" "cn_pending c1 = 0"
    using connect_address_keeps[OF t(1)] by (auto simp: d_def same_request_def connector_new_def)
  have "try_addresses e c1 = Some (c1, False)" using k by (subst try_addresses.simps) simp
  hence "try_addresses e ((connector_new n)\<lparr>cn_addrs := [a], cn_index := 0\<rparr>) = Some (c1, False)"
    using t(1) by (subst try_addresses.simps) (simp add: d_def)
  define c2 where "c2 = cn_execute (cn_add_active (c1\<lparr>cn_error := platform_errno c1\<rparr>))"
  have 1: "cn_connect e [a] (connector_new n) = Some c2"
    using \<open>try_addresses e ((connector_new n)\<lparr>cn_addrs := [a], cn_index := 0\<rparr>) = Some (c1, False)\<close>
    by (simp add: cn_connect_def c2_def)
  have c2: "cn_pending c2 = 1" "cn_evt c2 = EPOLL_OUT OR EPOLLONESHOT" "cn_fd c2 = 5" "cn_addrs c2 = [a]"
    "cn_index c2 = Suc 0" "cn_outcomes c2 = []"
    using t k by (simp_all add: c2_def cn_execute_def cn_add_active_def)
  have "(EPOLL_OUT OR EPOLLONESHOT) AND EPOLL_OUT \<noteq> 0" by (simp add: EPOLL_OUT_def EPOLLONESHOT_def)
  hence v: "cn_error (connect_verdict e (c2\<lparr>cn_pending := 0\<rparr>)) = no_error" "cn_fd (connect_verdict e (c2\<lparr>cn_pending := 0\<rparr>)) = 5"
    using c2 a(3) by (simp_all add: connect_verdict_def pending_error_def INVALID_SOCKET_def sys_def poller_refuses_def)
  have "\<exists>c3. on_connect_handler e (c2\<lparr>cn_pending := 0\<rparr>) = Some c3 \<and> cn_outcomes c3 = [Connected a]"
    unfolding on_connect_handler_def Let_def using v c2 a(1,2)
    by (simp add: cn_remove_active_def is_error_def no_error_def cn_told_def)
  thus ?thesis using 1 c2(1) by simp
qed

text \<open>Errors of \<open>connect\<close> that is over before it waits: the error code given to the
  task is replaced by the verdict on an event that never came. When every attempt fails at its
  socket, the user is told \<open>tdk_invalid_event\<close> and not the error of the system; when the
  attempt fails because the poller refuses the socket, the event mask set for it is taken for an
  event, and with no error pending on the socket the user is told that it is connected.\<close>

theorem connector_error_replaced:
  "(addrs \<noteq> [] \<and> (\<forall>h f t p. r_ret (ce_kernel e h (Sys_Socket f t p)) = -1) \<longrightarrow>
     (\<exists>c1 c2. cn_connect e addrs (connector_new n) = Some c1 \<and> cn_deliver e Queued c1 = Some c2 \<and>
        cn_outcomes c2 = [Connect_Fail (tdk_error Tdk_Invalid_Event)])) \<and>
   (ce_on_connect e a \<and> \<not> is_error (ce_build e 5) \<and> poller_refuses (ce_kernel e) \<longrightarrow>
     (\<exists>c1 c2. cn_connect e [a] (connector_new n) = Some c1 \<and> cn_deliver e Queued c1 = Some c2 \<and>
        cn_outcomes c2 = [Connected a]))"
  using connector_no_socket connector_refused by blast

lemma connector_error_replaced_witness:
  "\<exists>c1 c2. cn_connect (easy_env (\<lambda>h c. (easy_kernel h c)\<lparr>r_ret := (case c of Sys_Socket f t p \<Rightarrow> 5 | Sys_Epoll_Register fd ev \<Rightarrow> -1 | _ \<Rightarrow> 0)\<rparr>))
       [address_new] (connector_new net_new) = Some c1 \<and>
     cn_deliver (easy_env (\<lambda>h c. (easy_kernel h c)\<lparr>r_ret := (case c of Sys_Socket f t p \<Rightarrow> 5 | Sys_Epoll_Register fd ev \<Rightarrow> -1 | _ \<Rightarrow> 0)\<rparr>))
       Queued c1 = Some c2 \<and> cn_outcomes c2 = [Connected address_new]"
  by (rule conjunct2[OF connector_error_replaced, THEN mp])
    (simp add: easy_env_def poller_refuses_def easy_kernel_def is_error_def no_error_def)

end
