(* ===== verification/Acceptor.thy ===== *)
theory Acceptor
  imports Socket Tcp_Channel
begin

text \<open>
  Listening sockets on Linux: \<open>channel_acceptor\<close> (\<open>io/ip/tcp/channel_acceptor.cpp\<close>), which
  makes a channel for every connection, and \<open>acceptor\<close> (\<open>io/ip/tcp/socket/acceptor.cpp\<close>),
  which hands one descriptor per event to the user's task. The kernel, the user's \<open>condition\<close>
  and the pipeline builder are parameters.
\<close>

section \<open>State\<close>

text \<open>
  \<open>ac_active\<close> is what the acceptor has added to the active count of its loop,
  \<open>ac_registered\<close> the descriptor the poller watches, \<open>ac_closing\<close> the tasks that call
  \<open>close\<close> again on the loop, \<open>ac_channels\<close> the channels whose \<open>fire_on_accepted\<close> is queued,
  and, for the statements, \<open>ac_taken\<close> and \<open>ac_dropped\<close> the descriptors the kernel gave and
  those closed again.
\<close>

record acceptor =
  ac_fd :: int
  ac_address :: address
  ac_evt :: int
  ac_active :: int
  ac_registered :: "int option"
  ac_closing :: nat
  ac_channels :: "(int \<times> address) list"
  ac_taken :: "int list"
  ac_dropped :: "int list"
  ac_net :: net

record acceptor_env =
  ae_kernel :: kernel_calls
  ae_condition :: "address \<Rightarrow> bool"
  ae_build :: "int \<Rightarrow> error_code"

definition SO_REUSEADDR :: int where "SO_REUSEADDR = 2"
definition SOMAXCONN :: int where "SOMAXCONN = 4096"
definition LEVEL_SOCKET :: int where "LEVEL_SOCKET = 1"

definition acceptor_new :: "net \<Rightarrow> acceptor" where
  "acceptor_new n =
     \<lparr>ac_fd = INVALID_SOCKET, ac_address = address_new, ac_evt = 0, ac_active = 0,
      ac_registered = None, ac_closing = 0, ac_channels = [], ac_taken = [], ac_dropped = [], ac_net = n\<rparr>"

section \<open>Opening and closing\<close>

definition ac_close_fd :: "kernel_calls \<Rightarrow> acceptor \<Rightarrow> acceptor" where
  "ac_close_fd k a =
     (let (fd, n) = sock_close k (ac_fd a) (ac_net a)
      in a\<lparr>ac_fd := fd, ac_net := n, ac_registered := None\<rparr>)"

text \<open>A call on the open socket; when it fails the socket is closed and the rest is skipped.\<close>

definition ac_try :: "kernel_calls \<Rightarrow> (int \<Rightarrow> net \<Rightarrow> bool \<times> net) \<Rightarrow> acceptor \<times> bool \<Rightarrow> acceptor \<times> bool" where
  "ac_try k f ar =
     (case ar of (a, going) \<Rightarrow>
        if \<not> going then (a, False)
        else (let (ok, n) = f (ac_fd a) (ac_net a);
                  a1 = a\<lparr>ac_net := n\<rparr>
              in if ok then (a1, True) else (ac_close_fd k a1, False)))"

definition epoll_register :: "kernel_calls \<Rightarrow> int \<Rightarrow> int \<Rightarrow> net \<Rightarrow> bool \<times> net" where
  "epoll_register k ev fd n = (let (r, n1) = sys k (Sys_Epoll_Register fd ev) n in (r_ret r \<noteq> -1, n1))"

definition ac_setup :: "kernel_calls \<Rightarrow> address \<Rightarrow> acceptor \<Rightarrow> acceptor \<times> bool" where
  "ac_setup k addr a0 =
     (let (fd, opened, n) = sock_open_tcp k (addr_family addr) (ac_net a0);
          a = a0\<lparr>ac_fd := fd, ac_net := n\<rparr>
      in if fd = invalid_socket then (a, False)
         else
           (let s1 = ac_try k (set_option (non_blocking k)) (a, True);
                s2 = ac_try k (set_option (value_option_set k LEVEL_SOCKET SO_REUSEADDR [1, 0, 0, 0])) s1;
                s3 = ac_try k (\<lambda>fd. sock_bind k fd addr) s2
            in ac_try k (\<lambda>fd. sock_listen k fd SOMAXCONN) s3))"

definition ac_open :: "kernel_calls \<Rightarrow> address \<Rightarrow> acceptor \<Rightarrow> acceptor \<times> bool" where
  "ac_open k addr a0 =
     (let (a, ok) = ac_setup k addr (a0\<lparr>ac_address := addr\<rparr>)
      in if \<not> ok then (a, False)
         else
           (let (a1, reg) = ac_try k (epoll_register k EPOLL_IN) (a\<lparr>ac_evt := EPOLL_IN\<rparr>, True)
            in if reg then (a1\<lparr>ac_registered := Some (ac_fd a1), ac_active := ac_active a1 + 1\<rparr>, True)
               else (a1, False)))"

definition ac_close :: "kernel_calls \<Rightarrow> bool \<Rightarrow> acceptor \<Rightarrow> acceptor" where
  "ac_close k in_loop a =
     (if in_loop then
        (if sock_eq (ac_fd a) invalid_socket then a
         else (ac_close_fd k a)\<lparr>ac_active := ac_active a - 1\<rparr>)
      else a\<lparr>ac_closing := Suc (ac_closing a)\<rparr>)"

section \<open>Accepting\<close>

text \<open>\<open>::accept\<close>, made again while a signal interrupts it; a result of -1 is the only failure.\<close>

partial_function (option) accept_retry :: "kernel_calls \<Rightarrow> int \<Rightarrow> net \<Rightarrow> (int \<times> address \<times> net) option" where
  "accept_retry k fd n =
     (let (r, n1) = sys k (Sys_Accept fd) n
      in if r_ret r = -1 \<and> net_errno n1 = EINTR then accept_retry k fd n1
         else Some (r_ret r, addr_written r address_new, n1))"

definition ac_drop :: "kernel_calls \<Rightarrow> int \<Rightarrow> acceptor \<Rightarrow> acceptor" where
  "ac_drop k fd a =
     a\<lparr>ac_net := snd (sys k (Sys_Close fd) (ac_net a)), ac_dropped := ac_dropped a @ [fd]\<rparr>"

definition ac_accepted :: "acceptor_env \<Rightarrow> int \<Rightarrow> address \<Rightarrow> acceptor \<Rightarrow> acceptor" where
  "ac_accepted e fd addr a =
     (if \<not> ae_condition e addr then ac_drop (ae_kernel e) fd a
      else
        (let (nb, n) = set_option (non_blocking (ae_kernel e)) fd (ac_net a);
             a1 = a\<lparr>ac_net := n\<rparr>
         in if is_error (ae_build e fd) then ac_drop (ae_kernel e) fd a1
            else a1\<lparr>ac_channels := ac_channels a1 @ [(fd, addr)]\<rparr>))"

partial_function (option) accept_loop :: "acceptor_env \<Rightarrow> acceptor \<Rightarrow> acceptor option" where
  "accept_loop e a =
     (case accept_retry (ae_kernel e) (ac_fd a) (ac_net a) of
        None \<Rightarrow> None
      | Some r \<Rightarrow>
          if fst r < 0 then Some (a\<lparr>ac_net := snd (snd r)\<rparr>)
          else accept_loop e (ac_accepted e (fst r) (fst (snd r))
                 (a\<lparr>ac_net := snd (snd r), ac_taken := ac_taken a @ [fst r]\<rparr>)))"

definition on_accept_handler :: "acceptor_env \<Rightarrow> acceptor \<Rightarrow> acceptor option" where
  "on_accept_handler e a = (if ac_evt a AND EPOLL_IN \<noteq> 0 then accept_loop e a else Some a)"

definition on_accept_task :: "acceptor_env \<Rightarrow> int \<Rightarrow> acceptor \<Rightarrow> acceptor option" where
  "on_accept_task e ev a =
     (case on_accept_handler e (a\<lparr>ac_evt := ev\<rparr>) of
        None \<Rightarrow> None | Some a1 \<Rightarrow> Some (a1\<lparr>ac_active := ac_active a1 - 1\<rparr>))"

section \<open>The acceptor of plain sockets\<close>

text \<open>\<open>sa_reports\<close> is what the user's task is called with: its error and its descriptor.\<close>

record sock_acceptor =
  sa_fd :: int
  sa_evt :: int
  sa_active :: int
  sa_registered :: "int option"
  sa_closing :: nat
  sa_reports :: "(error_code \<times> int) list"
  sa_net :: net

definition sa_close :: "kernel_calls \<Rightarrow> bool \<Rightarrow> sock_acceptor \<Rightarrow> sock_acceptor" where
  "sa_close k in_loop a =
     (if in_loop then
        (if sock_eq (sa_fd a) invalid_socket then a
         else (let (fd, n) = sock_close k (sa_fd a) (sa_net a)
               in a\<lparr>sa_fd := fd, sa_net := n, sa_registered := None, sa_active := sa_active a - 1\<rparr>))
      else a\<lparr>sa_closing := Suc (sa_closing a)\<rparr>)"

text \<open>Leaving \<open>open\<close> early destroys \<open>acceptor_auto_close\<close>, which calls \<open>close\<close>.\<close>

definition sa_try ::
  "kernel_calls \<Rightarrow> bool \<Rightarrow> (int \<Rightarrow> net \<Rightarrow> bool \<times> net) \<Rightarrow> sock_acceptor \<times> bool \<Rightarrow> sock_acceptor \<times> bool" where
  "sa_try k in_loop f ar =
     (case ar of (a, going) \<Rightarrow>
        if \<not> going then (a, False)
        else (let (ok, n) = f (sa_fd a) (sa_net a);
                  a1 = a\<lparr>sa_net := n\<rparr>
              in if ok then (a1, True) else (sa_close k in_loop a1, False)))"

definition sa_open :: "kernel_calls \<Rightarrow> bool \<Rightarrow> address \<Rightarrow> sock_acceptor \<Rightarrow> sock_acceptor \<times> bool" where
  "sa_open k in_loop addr a00 =
     (let a0 = sa_close k in_loop a00;
          (fd, opened, n) = sock_open_tcp k (addr_family addr) (sa_net a0);
          a = a0\<lparr>sa_fd := fd, sa_net := n\<rparr>
      in if sock_eq fd invalid_socket then (a, False)
         else
           (let s1 = sa_try k in_loop (set_option (non_blocking k)) (a, True);
                s2 = sa_try k in_loop (set_option (value_option_set k LEVEL_SOCKET SO_REUSEADDR [1, 0, 0, 0])) s1;
                s3 = sa_try k in_loop (\<lambda>fd. sock_bind k fd addr) s2;
                s4 = sa_try k in_loop (\<lambda>fd. sock_listen k fd SOMAXCONN) s3
            in if \<not> snd s4 then s4
               else
                 (let (a5, reg) = sa_try k in_loop (epoll_register k EPOLL_IN) ((fst s4)\<lparr>sa_evt := EPOLL_IN\<rparr>, True)
                  in if reg then (a5\<lparr>sa_registered := Some (sa_fd a5), sa_active := sa_active a5 + 1\<rparr>, True)
                     else (a5, False))))"

definition sa_report :: "error_code \<Rightarrow> int \<Rightarrow> sock_acceptor \<Rightarrow> sock_acceptor" where
  "sa_report ec fd a = a\<lparr>sa_reports := sa_reports a @ [(ec, fd)]\<rparr>"

text \<open>\<open>SO_ERROR\<close> when it can be read and is not zero.\<close>

definition sa_sock_error :: "kernel_calls \<Rightarrow> sock_acceptor \<Rightarrow> sock_acceptor \<times> error_code" where
  "sa_sock_error k a =
     (let (v, n) = get_option (value_option_get k LEVEL_SOCKET 4) (sa_fd a) (sa_net a)
      in (a\<lparr>sa_net := n\<rparr>,
          case v of
            None \<Rightarrow> tdk_error Tdk_Epoll_Error
          | Some b \<Rightarrow>
              if b = [0, 0, 0, 0] then tdk_error Tdk_Epoll_Error
              else platform_error (sint (le_word32 (b ! 0) (b ! 1) (b ! 2) (b ! 3)))))"

definition sa_handle_event :: "kernel_calls \<Rightarrow> int \<Rightarrow> sock_acceptor \<Rightarrow> sock_acceptor option" where
  "sa_handle_event k ev a =
     (if ev AND EPOLL_ERR \<noteq> 0 then (let (a1, ec) = sa_sock_error k a in Some (sa_report ec (-1) a1))
      else if ev AND EPOLL_HUP \<noteq> 0 then Some (sa_report (tdk_error Tdk_Epoll_Hang_Up) (-1) a)
      else if ev AND EPOLL_IN \<noteq> 0 then
        (case accept_retry k (sa_fd a) (sa_net a) of
           None \<Rightarrow> None
         | Some r \<Rightarrow>
             let a1 = a\<lparr>sa_net := snd (snd r)\<rparr>
             in if 0 < fst r then Some (sa_report no_error (fst r) a1)
                else Some (sa_report (platform_error (net_errno (sa_net a1))) (-1) a1))
      else Some (sa_report no_error (-1) a))"

section \<open>Properties\<close>

text \<open>Connections run out after \<open>m\<close> calls.\<close>

definition backlog_ends :: "kernel_calls \<Rightarrow> nat \<Rightarrow> bool" where
  "backlog_ends k m \<longleftrightarrow> (\<forall>h fd. m \<le> length h \<longrightarrow> r_ret (k h (Sys_Accept fd)) < 0)"

lemma accept_retry_returns:
  assumes "quiet_after k m"
  shows "\<exists>fd' addr n'. accept_retry k fd n = Some (fd', addr, n') \<and>
    length (net_calls n) < length (net_calls n') \<and>
    (backlog_ends k m \<longrightarrow> m \<le> length (net_calls n) \<longrightarrow> fd' < 0)"
proof (induction "m - length (net_calls n)" arbitrary: n rule: less_induct)
  case less
  obtain r n1 where s: "sys k (Sys_Accept fd) n = (r, n1)" by fastforce
  hence r: "r = k (net_calls n) (Sys_Accept fd)" "net_calls n1 = net_calls n @ [Sys_Accept fd]"
    "r_ret r = -1 \<Longrightarrow> net_errno n1 = r_errno r"
    by (auto simp: sys_def Let_def)
  show ?case
  proof (cases "r_ret r = -1 \<and> net_errno n1 = EINTR")
    case True
    hence "r_ret (k (net_calls n) (Sys_Accept fd)) = -1 \<and> r_errno (k (net_calls n) (Sys_Accept fd)) = EINTR"
      using r by simp
    hence "length (net_calls n) < m" using assms unfolding quiet_after_def not_le[symmetric] by blast
    moreover have "accept_retry k fd n = accept_retry k fd n1"
      using True s by (subst accept_retry.simps) simp
    moreover obtain fd' addr n' where "accept_retry k fd n1 = Some (fd', addr, n')"
      "length (net_calls n1) < length (net_calls n')" "backlog_ends k m \<longrightarrow> m \<le> length (net_calls n1) \<longrightarrow> fd' < 0"
      using less[of n1] \<open>length (net_calls n) < m\<close> r(2) by (auto simp: diff_less_mono2)
    ultimately show ?thesis using r(2) by auto
  next
    case False
    hence "accept_retry k fd n = Some (r_ret r, addr_written r address_new, n1)"
      using s by (subst accept_retry.simps) auto
    thus ?thesis using r by (simp add: backlog_ends_def)
  qed
qed

definition wanted :: "acceptor_env \<Rightarrow> int \<times> address \<Rightarrow> bool" where
  "wanted e c \<longleftrightarrow> ae_condition e (snd c) \<and> \<not> is_error (ae_build e (fst c))"

text \<open>What a run of the handler did with the connections it took.\<close>

definition took :: "acceptor_env \<Rightarrow> (int \<times> address) list \<Rightarrow> acceptor \<Rightarrow> acceptor \<Rightarrow> bool" where
  "took e conns a a' \<longleftrightarrow>
     ac_taken a' = ac_taken a @ map fst conns \<and>
     ac_channels a' = ac_channels a @ filter (wanted e) conns \<and>
     ac_dropped a' = ac_dropped a @ map fst (filter (\<lambda>c. \<not> wanted e c) conns) \<and>
     ac_fd a' = ac_fd a \<and> ac_active a' = ac_active a \<and> ac_registered a' = ac_registered a \<and>
     ac_evt a' = ac_evt a \<and> ac_closing a' = ac_closing a"

lemma ac_accepted_took:
  "took e [(fd, addr)] a (ac_accepted e fd addr (a\<lparr>ac_net := n, ac_taken := ac_taken a @ [fd]\<rparr>))"
  by (auto simp: took_def wanted_def ac_accepted_def ac_drop_def Let_def split: prod.splits)

lemma ac_accepted_calls: "length (net_calls (ac_net a)) \<le> length (net_calls (ac_net (ac_accepted e fd addr a)))"
  by (simp add: ac_accepted_def ac_drop_def set_option_def non_blocking_def Let_def split: prod.splits)
    (auto dest!: arg_cong[of _ _ snd])

lemma took_trans: "took e xs a b \<Longrightarrow> took e ys b c \<Longrightarrow> took e (xs @ ys) a c"
  by (auto simp: took_def)

lemma accept_loop_took:
  assumes "quiet_after (ae_kernel e) m" "backlog_ends (ae_kernel e) m"
  shows "\<exists>a' conns. accept_loop e a = Some a' \<and> took e conns a a'"
proof (induction "m - length (net_calls (ac_net a))" arbitrary: a rule: less_induct)
  case less
  obtain fd addr n where r: "accept_retry (ae_kernel e) (ac_fd a) (ac_net a) = Some (fd, addr, n)"
    "length (net_calls (ac_net a)) < length (net_calls n)" "m \<le> length (net_calls (ac_net a)) \<Longrightarrow> fd < 0"
    using accept_retry_returns[OF assms(1), of "ac_fd a" "ac_net a"] assms(2) by blast
  show ?case
  proof (cases "fd < 0")
    case True
    hence "accept_loop e a = Some (a\<lparr>ac_net := n\<rparr>)" using r(1) by (subst accept_loop.simps) simp
    thus ?thesis by (auto simp: took_def intro: exI[of _ "[]"])
  next
    case False
    let ?b = "ac_accepted e fd addr (a\<lparr>ac_net := n, ac_taken := ac_taken a @ [fd]\<rparr>)"
    have "accept_loop e a = accept_loop e ?b" using r(1) False by (subst accept_loop.simps) simp
    moreover have l: "length (net_calls (ac_net a)) < m" using r(3) False by force
    moreover have l': "length (net_calls (ac_net a)) < length (net_calls (ac_net ?b))"
      using r(2) ac_accepted_calls[of "a\<lparr>ac_net := n, ac_taken := ac_taken a @ [fd]\<rparr>" e fd addr] by simp
    ultimately obtain a' conns where "accept_loop e a = Some a'" "took e conns ?b a'"
      using less.hyps[OF diff_less_mono2[OF l' l]] by metis
    thus ?thesis using took_trans[OF ac_accepted_took] by blast
  qed
qed

text \<open>C37. One event of the listening socket, once signals stop interrupting and the kernel has
  no more connections: the handler returns; it has taken a list of connections, made a channel, in
  the order of their arrival, for every one that passes the condition and whose pipeline is built,
  and closed the descriptor of every other one, so that no descriptor is lost; an event without
  \<open>EPOLLIN\<close> takes none.\<close>

theorem accept_keeps_or_closes:
  assumes "quiet_after (ae_kernel e) m" "backlog_ends (ae_kernel e) m"
  shows "\<exists>a' conns. on_accept_task e ev a = Some a' \<and>
    ac_taken a' = ac_taken a @ map fst conns \<and>
    ac_channels a' = ac_channels a @ filter (wanted e) conns \<and>
    ac_dropped a' = ac_dropped a @ map fst (filter (\<lambda>c. \<not> wanted e c) conns) \<and>
    (ev AND EPOLL_IN = 0 \<longrightarrow> conns = [])"
proof (cases "ev AND EPOLL_IN = 0")
  case True
  thus ?thesis by (auto simp: on_accept_task_def on_accept_handler_def intro!: exI[of _ "[]"])
next
  case False
  obtain a' conns where "accept_loop e (a\<lparr>ac_evt := ev\<rparr>) = Some a'" "took e conns (a\<lparr>ac_evt := ev\<rparr>) a'"
    using accept_loop_took[OF assms] by blast
  thus ?thesis using False by (auto simp: on_accept_task_def on_accept_handler_def took_def)
qed

text \<open>Two connections, of which the first is declined.\<close>

definition two_calls :: kernel_calls where
  "two_calls h c =
     \<lparr>r_ret = (case c of Sys_Accept fd \<Rightarrow> if length h = 0 then 7 else if length h < 4 then 8 else -1
                | Sys_Socket f t p \<Rightarrow> 5 | Sys_Bind fd a \<Rightarrow> (if addr_port a = 1 then -1 else 0) | _ \<Rightarrow> 0),
      r_errno = 11, r_data = [], r_addr = [], r_set = False, r_left = (0, 0)\<rparr>"

lemma two_calls_ok: "quiet_after two_calls 4" "backlog_ends two_calls 4"
  by (auto simp: quiet_after_def backlog_ends_def two_calls_def EINTR_def)

definition picky_env :: acceptor_env where
  "picky_env = \<lparr>ae_kernel = two_calls, ae_condition = (\<lambda>a. True),
     ae_build = (\<lambda>fd. if fd = 7 then tdk_error Tdk_Fail else no_error)\<rparr>"

lemma wanted_picky: "wanted picky_env = (\<lambda>c. fst c \<noteq> 7)"
  by (auto simp: fun_eq_iff wanted_def picky_env_def is_error_def tdk_error_def no_error_def)

lemma accept_keeps_or_closes_witness:
  "\<exists>a' conns. on_accept_task picky_env EPOLL_IN (acceptor_new net_new) = Some a' \<and>
     ac_taken a' = map fst conns \<and> ac_channels a' = filter (\<lambda>c. fst c \<noteq> 7) conns"
  using accept_keeps_or_closes[of picky_env 4 EPOLL_IN "acceptor_new net_new"] two_calls_ok
  unfolding wanted_picky by (auto simp: acceptor_new_def picky_env_def)

fun accept_events :: "acceptor_env \<Rightarrow> int list \<Rightarrow> acceptor \<Rightarrow> acceptor option" where
  "accept_events e [] a = Some a"
| "accept_events e (ev # evs) a =
     (case on_accept_task e ev a of None \<Rightarrow> None | Some a1 \<Rightarrow> accept_events e evs a1)"

lemma accept_events_active:
  assumes "quiet_after (ae_kernel e) m" "backlog_ends (ae_kernel e) m"
  shows "\<exists>a'. accept_events e evs a = Some a' \<and> ac_active a' = ac_active a - int (length evs) \<and>
    ac_fd a' = ac_fd a \<and> ac_registered a' = ac_registered a"
proof (induction evs arbitrary: a)
  case (Cons ev evs)
  obtain a1 where "on_accept_task e ev a = Some a1" "ac_active a1 = ac_active a - 1" "ac_fd a1 = ac_fd a"
    "ac_registered a1 = ac_registered a"
  proof (cases "ev AND EPOLL_IN = 0")
    case True
    thus ?thesis using that by (simp add: on_accept_task_def on_accept_handler_def)
  next
    case False
    obtain b conns where "accept_loop e (a\<lparr>ac_evt := ev\<rparr>) = Some b" "took e conns (a\<lparr>ac_evt := ev\<rparr>) b"
      using accept_loop_took[OF assms] by blast
    thus ?thesis using False that by (simp add: on_accept_task_def on_accept_handler_def took_def)
  qed
  thus ?case using Cons[of a1] by auto
qed simp

definition tried :: "int \<Rightarrow> acceptor \<times> bool \<Rightarrow> bool" where
  "tried n s \<longleftrightarrow>
     (snd s \<longleftrightarrow> ac_fd (fst s) \<noteq> INVALID_SOCKET) \<and> ac_active (fst s) = n \<and> ac_registered (fst s) = None"

lemma ac_try_tried: "tried n s \<Longrightarrow> tried n (ac_try k f s)"
  by (cases s) (auto simp: tried_def ac_try_def ac_close_fd_def sock_close_def Let_def split: prod.splits)

lemma ac_setup_tried: "ac_registered a = None \<Longrightarrow> tried (ac_active a) (ac_setup k addr a)"
  unfolding ac_setup_def Let_def
  by (auto split: prod.splits intro!: ac_try_tried simp: invalid_socket_def INVALID_SOCKET_def)
    (simp_all add: tried_def INVALID_SOCKET_def)

text \<open>\<open>channel_acceptor\<close>: opening either succeeds and adds one to the active count of the
  loop, or leaves the acceptor closed and the count alone. But every event of the socket, also
  the first, takes one from the count while the socket stays registered, and \<open>close\<close> takes one
  more: after \<open>n\<close> events the count is short by \<open>n\<close>.\<close>

theorem acceptor_active_drift:
  assumes "quiet_after (ae_kernel e) m" "backlog_ends (ae_kernel e) m" "ac_registered a = None"
    "ac_open (ae_kernel e) addr a = (a1, ok)"
  shows "(\<not> ok \<longrightarrow> ac_fd a1 = -1 \<and> ac_active a1 = ac_active a \<and> ac_registered a1 = None) \<and>
    (ok \<longrightarrow> ac_active a1 = ac_active a + 1 \<and> ac_registered a1 = Some (ac_fd a1) \<and>
       (\<exists>a2. accept_events e evs a1 = Some a2 \<and>
          ac_registered a2 = Some (ac_fd a2) \<and> ac_active a2 = ac_active a + 1 - int (length evs) \<and>
          ac_active (ac_close (ae_kernel e) True a2) = ac_active a - int (length evs)))"
proof -
  obtain a3 s where s: "ac_setup (ae_kernel e) addr (a\<lparr>ac_address := addr\<rparr>) = (a3, s)" by fastforce
  have 3: "tried (ac_active a) (a3, s)" using ac_setup_tried[of "a\<lparr>ac_address := addr\<rparr>" "ae_kernel e" addr] assms(3) s by simp
  obtain a4 r where r: "ac_try (ae_kernel e) (epoll_register (ae_kernel e) EPOLL_IN) (a3\<lparr>ac_evt := EPOLL_IN\<rparr>, True) = (a4, r)"
    by fastforce
  show ?thesis
  proof (cases s)
    case False
    thus ?thesis using assms(4) s 3 by (simp add: ac_open_def tried_def INVALID_SOCKET_def)
  next
    case True
    hence 4: "tried (ac_active a) (a4, r)"
      using ac_try_tried[of "ac_active a" "(a3\<lparr>ac_evt := EPOLL_IN\<rparr>, True)" "ae_kernel e"
          "epoll_register (ae_kernel e) EPOLL_IN"] 3 r by (simp add: tried_def)
    have o: "(a1, ok) = (if r then (a4\<lparr>ac_registered := Some (ac_fd a4), ac_active := ac_active a4 + 1\<rparr>, True)
        else (a4, False))"
      using assms(4) s r True by (simp add: ac_open_def)
    obtain a2 where "accept_events e evs a1 = Some a2" "ac_active a2 = ac_active a1 - int (length evs)"
      "ac_fd a2 = ac_fd a1" "ac_registered a2 = ac_registered a1"
      using accept_events_active[OF assms(1,2)] by blast
    thus ?thesis using o 4
      by (auto simp: tried_def ac_close_def sock_eq_def invalid_socket_def INVALID_SOCKET_def ac_close_fd_def
          Let_def split: prod.splits if_splits)
  qed
qed

lemma acceptor_active_drift_witness:
  "\<exists>a2. accept_events picky_env [1, 1] (fst (ac_open two_calls address_new (acceptor_new net_new))) = Some a2 \<and>
     ac_active a2 = -1 \<and> ac_registered a2 = Some (ac_fd a2)"
proof -
  have o: "snd (ac_open two_calls address_new (acceptor_new net_new))"
    "ac_fd (fst (ac_open two_calls address_new (acceptor_new net_new))) = 5"
    by (simp_all add: ac_open_def ac_setup_def ac_try_def sock_open_tcp_def sock_open_def set_option_def
        non_blocking_def value_option_set_def sock_bind_def sock_listen_def sock_checked_def epoll_register_def
        sys_def Let_def two_calls_def acceptor_new_def net_new_def invalid_socket_def INVALID_SOCKET_def SOCKET_ERROR_def
        address_new_def addr_port_def addr_family_def ntohs_def slice_def storage_size_def)
  obtain a1 where a1: "ac_open two_calls address_new (acceptor_new net_new) = (a1, True)" "ac_fd a1 = 5"
    using o by (metis prod.collapse fst_conv)
  show ?thesis
    using acceptor_active_drift[of picky_env 4 "acceptor_new net_new" address_new a1 True "[1, 1]"] two_calls_ok a1
    by (auto simp: picky_env_def acceptor_new_def)
qed

text \<open>The acceptor of plain sockets closes itself when opening fails, and \<open>close\<close> takes one from
  the active count, which nobody has added.\<close>

definition sa_tried :: "int \<Rightarrow> sock_acceptor \<times> bool \<Rightarrow> bool" where
  "sa_tried n s \<longleftrightarrow>
     (snd s \<longleftrightarrow> sa_fd (fst s) \<noteq> INVALID_SOCKET) \<and> sa_active (fst s) = (if snd s then n else n - 1)"

lemma sa_try_tried: "sa_tried n s \<Longrightarrow> sa_tried n (sa_try k True f s)"
  by (cases s) (auto simp: sa_tried_def sa_try_def sa_close_def sock_close_def sock_eq_def invalid_socket_def
      INVALID_SOCKET_def Let_def split: prod.splits)

lemma sa_open_active:
  assumes "sa_fd a = INVALID_SOCKET" "sock_open_tcp k (addr_family addr) (sa_net a) = (fd, opened, n)"
    "fd \<noteq> INVALID_SOCKET" "sa_open k True addr a = (a1, ok)"
  shows "sa_active a1 = (if ok then sa_active a + 1 else sa_active a - 1)"
proof -
  have 0: "sa_close k True a = a" using assms(1) by (simp add: sa_close_def sock_eq_def invalid_socket_def INVALID_SOCKET_def)
  define s4 where "s4 = sa_try k True (\<lambda>fd. sock_listen k fd SOMAXCONN) (sa_try k True (\<lambda>fd. sock_bind k fd addr)
      (sa_try k True (set_option (value_option_set k LEVEL_SOCKET SO_REUSEADDR [1, 0, 0, 0]))
        (sa_try k True (set_option (non_blocking k)) (a\<lparr>sa_fd := fd, sa_net := n\<rparr>, True))))"
  have 4: "sa_tried (sa_active a) s4"
    unfolding s4_def by (intro sa_try_tried) (simp add: sa_tried_def assms(3))
  define s5 where "s5 = sa_try k True (epoll_register k EPOLL_IN) ((fst s4)\<lparr>sa_evt := EPOLL_IN\<rparr>, True)"
  have 5: "sa_tried (sa_active a) s5" if "snd s4"
    unfolding s5_def using 4 that by (intro sa_try_tried) (simp add: sa_tried_def)
  have "sa_open k True addr a = (if \<not> snd s4 then s4 else
      (let (a5, reg) = s5 in if reg then (a5\<lparr>sa_registered := Some (sa_fd a5), sa_active := sa_active a5 + 1\<rparr>, True)
       else (a5, False)))"
    unfolding sa_open_def 0 assms(2) s4_def s5_def Let_def
    using assms(3) by (simp add: sock_eq_def invalid_socket_def INVALID_SOCKET_def)
  hence "(a1, ok) = (if \<not> snd s4 then (fst s4, False) else
      if snd s5 then ((fst s5)\<lparr>sa_registered := Some (sa_fd (fst s5)), sa_active := sa_active (fst s5) + 1\<rparr>, True)
      else (fst s5, False))"
    using assms(4) by (cases s4; cases s5) auto
  thus ?thesis using 4 5 by (auto simp: sa_tried_def split: if_splits)
qed

end
