(* ===== verification/Async_Socket.thy ===== *)
theory Async_Socket
  imports Acceptor Connector "HOL-Library.Multiset"
begin

text \<open>
  The asynchronous socket (\<open>io/ip/tcp/socket/socket.cpp\<close>) and the tasks it takes
  (\<open>connect_task\<close>, \<open>read_task\<close>, \<open>write_task\<close>, \<open>close_task\<close>). A user submits a task with
  its buffers or addresses and is called back when it is done. The socket links the tasks into its
  own queues and into the loop's; a queue is a list here (theory \<open>Slist\<close>). A task has one link: the
  flag \<open>so_twice\<close> says that a task was linked that was linked already, after which the lists are no
  longer what the pointers are. The front of an empty queue, a null pointer that is used, has no result
  (\<open>None\<close>). The kernel and what the user does when he is called back are parameters.
\<close>

section \<open>Tasks\<close>

text \<open>\<open>rq_addrs\<close> is the addresses a connect task has not tried, and \<open>None\<close> for the other
  tasks; \<open>rq_data\<close> is what was read into the buffers.\<close>

record request =
  rq_bufs :: buffer_adapter
  rq_bytes :: int
  rq_error :: error_code
  rq_addrs :: "address list option"
  rq_data :: "u8 list"

text \<open>\<open>remain_buffers\<close> skips what is written; sizes are of type \<open>size_t\<close>. The size it takes
  off for a buffer is that of the first one, \<open>f\<close>.\<close>

fun remain_loop :: "nat \<Rightarrow> iovec list \<Rightarrow> nat \<Rightarrow> buffer_adapter \<Rightarrow> buffer_adapter" where
  "remain_loop f [] w buf = buf"
| "remain_loop f (b # bs) w buf =
     (if length b \<le> w then remain_loop f bs (nat (to_u64 (int w - int f))) buf
      else remain_loop f bs 0 (fst (ba_push_back (drop w b) buf)))"

definition remain_buffers :: "request \<Rightarrow> buffer_adapter" where
  "remain_buffers q =
     (case rq_bufs q of
        [] \<Rightarrow> ba_new
      | b # bs \<Rightarrow> remain_loop (length b) (b # bs) (nat (to_u64 (rq_bytes q))) ba_new)"

definition address_is_eof :: "address list \<Rightarrow> bool" where
  "address_is_eof it \<longleftrightarrow> it = []"

definition address_next :: "address list \<Rightarrow> address list \<times> bool" where
  "address_next it = (if address_is_eof it then (it, False) else (tl it, address_is_eof (tl it)))"

section \<open>State\<close>

datatype memfn = Handle_Io_Event | Handle_Connect_Event

text \<open>What the socket gives to its loop: tasks of the user to call, the forwarding tasks that
  other threads make, and the inner task of a close task.\<close>

datatype loop_task =
  Call nat
| Forward_Connect nat
| Forward_Read nat
| Forward_Write nat
| Close_Internal nat

text \<open>
  \<open>so_queue\<close> is the queue that \<open>handle_io_event\<close> and \<open>close_impl\<close> keep on the stack;
  \<open>so_completing\<close> is whether \<open>_complete_tasks\<close> points to it. \<open>so_armed\<close> is the events the
  descriptor is registered for, once; \<open>so_active\<close> what the socket has added to the active count.
  \<open>so_issued\<close> and \<open>so_called\<close> record the tasks submitted and called back, \<open>so_refused\<close> that the
  poller refused the descriptor of a connect task, which \<open>connect_impl\<close> leaves linked.
\<close>

record async_socket =
  so_fd :: int
  so_memfn :: memfn
  so_evt :: int
  so_armed :: "int option"
  so_reads :: "nat list"
  so_writes :: "nat list"
  so_queue :: "nat list"
  so_completing :: bool
  so_req :: "nat \<Rightarrow> request"
  so_pending :: "loop_task list"
  so_active :: int
  so_net :: net
  so_issued :: "nat list"
  so_called :: "nat list"
  so_refused :: bool
  so_twice :: bool

record socket_env =
  se_kernel :: kernel_calls
  se_handler :: "nat \<Rightarrow> async_socket \<Rightarrow> async_socket option"

definition write_try_count :: nat where
  "write_try_count = 4"

definition no_request :: request where
  "no_request = \<lparr>rq_bufs = [], rq_bytes = 0, rq_error = no_error, rq_addrs = None, rq_data = []\<rparr>"

definition async_socket_new :: "net \<Rightarrow> async_socket" where
  "async_socket_new n =
     \<lparr>so_fd = INVALID_SOCKET, so_memfn = Handle_Io_Event, so_evt = 0, so_armed = None, so_reads = [],
      so_writes = [], so_queue = [], so_completing = False, so_req = (\<lambda>t. no_request),
      so_pending = [], so_active = 0, so_net = n, so_issued = [], so_called = [],
      so_refused = False, so_twice = False\<rparr>"

section \<open>Queues\<close>

primrec called_task :: "loop_task \<Rightarrow> nat list" where
  "called_task (Call t) = [t]"
| "called_task (Forward_Connect t) = []"
| "called_task (Forward_Read t) = []"
| "called_task (Forward_Write t) = []"
| "called_task (Close_Internal t) = []"

text \<open>The user's tasks that a queue links.\<close>

definition so_linked :: "async_socket \<Rightarrow> nat list" where
  "so_linked s = so_reads s @ so_writes s @ so_queue s @ concat (map called_task (so_pending s))"

definition so_link :: "nat \<Rightarrow> async_socket \<Rightarrow> async_socket" where
  "so_link t s = s\<lparr>so_twice := so_twice s \<or> t \<in> set (so_linked s)\<rparr>"

definition link_read :: "nat \<Rightarrow> async_socket \<Rightarrow> async_socket" where
  "link_read t s = (so_link t s)\<lparr>so_reads := so_reads s @ [t]\<rparr>"

definition link_write :: "nat \<Rightarrow> async_socket \<Rightarrow> async_socket" where
  "link_write t s = (so_link t s)\<lparr>so_writes := so_writes s @ [t]\<rparr>"

definition link_write_front :: "nat \<Rightarrow> async_socket \<Rightarrow> async_socket" where
  "link_write_front t s = (so_link t s)\<lparr>so_writes := t # so_writes s\<rparr>"

definition so_loop_call :: "nat \<Rightarrow> async_socket \<Rightarrow> async_socket" where
  "so_loop_call t s = (so_link t s)\<lparr>so_pending := so_pending s @ [Call t]\<rparr>"

definition so_loop_execute :: "loop_task \<Rightarrow> async_socket \<Rightarrow> async_socket" where
  "so_loop_execute lt s = s\<lparr>so_pending := so_pending s @ [lt]\<rparr>"

definition so_add_active :: "async_socket \<Rightarrow> async_socket" where
  "so_add_active s = s\<lparr>so_active := so_active s + 1\<rparr>"

definition execute_task :: "nat \<Rightarrow> async_socket \<Rightarrow> async_socket" where
  "execute_task t s =
     (if so_completing s then so_add_active ((so_link t s)\<lparr>so_queue := so_queue s @ [t]\<rparr>)
      else so_loop_call t s)"

definition set_req :: "nat \<Rightarrow> (request \<Rightarrow> request) \<Rightarrow> async_socket \<Rightarrow> async_socket" where
  "set_req t f s = s\<lparr>so_req := (so_req s)(t := f (so_req s t))\<rparr>"

definition req_error :: "nat \<Rightarrow> error_code \<Rightarrow> async_socket \<Rightarrow> async_socket" where
  "req_error t ec s = set_req t (\<lambda>q. q\<lparr>rq_error := ec\<rparr>) s"

section \<open>System calls\<close>

definition so_close_fd :: "kernel_calls \<Rightarrow> async_socket \<Rightarrow> async_socket" where
  "so_close_fd k s =
     (let (fd, n) = sock_close k (so_fd s) (so_net s) in s\<lparr>so_fd := fd, so_net := n, so_armed := None\<rparr>)"

definition so_register :: "kernel_calls \<Rightarrow> int \<Rightarrow> async_socket \<Rightarrow> async_socket \<times> bool" where
  "so_register k ev s =
     (let (ok, n) = epoll_register k ev (so_fd s) (so_net s);
          s1 = s\<lparr>so_evt := ev, so_net := n\<rparr>
      in if ok then (s1\<lparr>so_armed := Some ev\<rparr>, True) else (s1, False))"

definition so_last_errno :: "async_socket \<Rightarrow> error_code" where
  "so_last_errno s = platform_error (net_errno (so_net s))"

text \<open>\<open>SO_ERROR\<close>, when it can be read and is not zero.\<close>

definition so_sock_error :: "kernel_calls \<Rightarrow> async_socket \<Rightarrow> async_socket \<times> error_code option" where
  "so_sock_error k s =
     (let (v, n) = get_option (value_option_get k LEVEL_SOCKET 4) (so_fd s) (so_net s)
      in (s\<lparr>so_net := n\<rparr>,
          case v of
            None \<Rightarrow> None
          | Some b \<Rightarrow>
              if b = [0, 0, 0, 0] then None
              else Some (platform_error (sint (le_word32 (b ! 0) (b ! 1) (b ! 2) (b ! 3))))))"

partial_function (option) so_connect_retry :: "kernel_calls \<Rightarrow> int \<Rightarrow> address \<Rightarrow> net \<Rightarrow> (int \<times> net) option" where
  "so_connect_retry k fd addr n =
     (let (r, n1) = sys k (Sys_Connect fd addr) n
      in if r_ret r = -1 \<and> net_errno n1 = EINTR then so_connect_retry k fd addr n1
         else Some (r_ret r, n1))"

partial_function (option) so_readv_retry ::
  "kernel_calls \<Rightarrow> int \<Rightarrow> nat list \<Rightarrow> net \<Rightarrow> (int \<times> u8 list \<times> net) option" where
  "so_readv_retry k fd caps n =
     (let (r, n1) = sys k (Sys_Readv fd caps) n;
          bs = take (nat (r_ret r)) (r_data r)
      in if r_ret r < 0 \<and> net_errno n1 = EINTR then so_readv_retry k fd caps n1
         else Some (r_ret r, bs, n1\<lparr>net_in := net_in n1 @ bs\<rparr>))"

partial_function (option) so_writev_retry ::
  "kernel_calls \<Rightarrow> int \<Rightarrow> buffer_adapter \<Rightarrow> net \<Rightarrow> (int \<times> net) option" where
  "so_writev_retry k fd buf n =
     (let (r, n1) = sys k (Sys_Writev fd buf) n
      in if r_ret r < 0 \<and> net_errno n1 = EINTR then so_writev_retry k fd buf n1
         else Some (r_ret r, n1\<lparr>net_out := net_out n1 @ take (nat (r_ret r)) (concat buf)\<rparr>))"

section \<open>Accepting and connecting\<close>

text \<open>\<open>fd\<close> is what the acceptor has put into the accept task.\<close>

definition so_accept :: "kernel_calls \<Rightarrow> int \<Rightarrow> async_socket \<Rightarrow> async_socket \<times> bool" where
  "so_accept k fd s =
     (if fd = -1 then (s, False)
      else
        (let (ok, n) = set_option (non_blocking k) fd (so_net s);
             s1 = s\<lparr>so_fd := fd, so_net := n, so_armed := None\<rparr>
         in if ok then (s1, True) else (s1\<lparr>so_fd := -1\<rparr>, False)))"

text \<open>One turn of the loop of \<open>connect_impl\<close>; the task stays linked when the poller refuses.\<close>

definition connect_attempt :: "kernel_calls \<Rightarrow> nat \<Rightarrow> address \<Rightarrow> async_socket \<Rightarrow> (async_socket \<times> bool) option" where
  "connect_attempt k t addr s0 =
     (let s = so_close_fd k s0;
          (fd, opened, n) = sock_open_tcp k (addr_family addr) (so_net s);
          s1 = s\<lparr>so_fd := fd, so_net := n\<rparr>
      in if \<not> opened then Some (s1, False)
         else
           (let (ok, n) = set_option (non_blocking k) fd (so_net s1);
                s2 = s1\<lparr>so_net := n\<rparr>
            in if \<not> ok then Some (s2, False)
               else do {
                 (r, n) \<leftarrow> so_connect_retry k fd addr (so_net s2);
                 let s3 = s2\<lparr>so_net := n\<rparr>;
                 Some (if r = 0 \<or> net_errno n = EINPROGRESS then
                    (let s4 = (link_write_front t s3)\<lparr>so_memfn := Handle_Connect_Event\<rparr>;
                         (s5, reg) = so_register k (EPOLL_OUT OR EPOLLONESHOT) s4
                     in if reg then (so_add_active s5, True) else (s5\<lparr>so_refused := True\<rparr>, False))
                  else (s3, False))
               }))"

fun connect_loop :: "kernel_calls \<Rightarrow> nat \<Rightarrow> address list \<Rightarrow> async_socket \<Rightarrow> (async_socket \<times> bool) option" where
  "connect_loop k t [] s = Some (set_req t (\<lambda>q. q\<lparr>rq_addrs := Some []\<rparr>) s, False)"
| "connect_loop k t (a # as) s = do {
     (s1, ok) \<leftarrow> connect_attempt k t a (set_req t (\<lambda>q. q\<lparr>rq_addrs := Some (a # as)\<rparr>) s);
     (if ok then Some (s1, True) else connect_loop k t as s1)
   }"

definition connect_impl :: "kernel_calls \<Rightarrow> nat \<Rightarrow> address list \<Rightarrow> async_socket \<Rightarrow> async_socket option" where
  "connect_impl k t addrs s = do {
     (s1, ok) \<leftarrow> connect_loop k t addrs s;
     Some (if ok then s1
      else
        (let s2 = (so_close_fd k s1)\<lparr>so_memfn := Handle_Io_Event\<rparr>
         in so_loop_call t (set_req t (\<lambda>q. q\<lparr>rq_error := so_last_errno s2, rq_bytes := 0\<rparr>) s2)))
   }"

definition so_issue :: "nat \<Rightarrow> request \<Rightarrow> async_socket \<Rightarrow> async_socket" where
  "so_issue t q s = s\<lparr>so_req := (so_req s)(t := q), so_issued := so_issued s @ [t]\<rparr>"

definition so_connect :: "kernel_calls \<Rightarrow> bool \<Rightarrow> address list \<Rightarrow> nat \<Rightarrow> async_socket \<Rightarrow> async_socket option" where
  "so_connect k in_loop addrs t s =
     (let s1 = so_issue t (no_request\<lparr>rq_addrs := Some addrs\<rparr>) s
      in if in_loop then connect_impl k t addrs s1 else Some (so_loop_execute (Forward_Connect t) s1))"

section \<open>Reading\<close>

definition read_impl :: "kernel_calls \<Rightarrow> nat \<Rightarrow> async_socket \<Rightarrow> async_socket" where
  "read_impl k t s =
     (if so_fd s = INVALID_SOCKET then execute_task t (req_error t (tdk_error Tdk_Invalid_Call) s)
      else if so_reads s = [] \<and> \<not> so_completing s then
        (let (s1, ok) = so_register k (EPOLLONESHOT OR EPOLL_IN OR (if so_writes s \<noteq> [] then EPOLL_OUT else 0)) s
         in if ok then so_add_active (link_read t s1)
            else execute_task t (req_error t (so_last_errno s1) s1))
      else so_add_active (link_read t s))"

definition so_read :: "kernel_calls \<Rightarrow> bool \<Rightarrow> buffer_adapter \<Rightarrow> nat \<Rightarrow> async_socket \<Rightarrow> async_socket option" where
  "so_read k in_loop buf t s =
     (let s1 = so_issue t (no_request\<lparr>rq_bufs := buf\<rparr>) s
      in if in_loop then Some (read_impl k t s1) else Some (so_loop_execute (Forward_Read t) s1))"

text \<open>The loop of \<open>handle_readable\<close> over the read tasks; the result is its \<open>error\<close>.\<close>

fun read_loop :: "kernel_calls \<Rightarrow> nat list \<Rightarrow> async_socket \<Rightarrow> (async_socket \<times> error_code) option" where
  "read_loop k [] s = Some (s, no_error)"
| "read_loop k (t # ts) s = do {
     (ret, bs, n) \<leftarrow> so_readv_retry k (so_fd s) (map length (rq_bufs (so_req s t))) (so_net s);
     let s1 = s\<lparr>so_net := n\<rparr>;
     (if ret < 0 then Some (s1, if net_errno n = EAGAIN then no_error else so_last_errno s1)
      else if ret = 0 \<and> ba_size (rq_bufs (so_req s t)) \<noteq> 0 then Some (s1, tdk_error Tdk_Network_Remote_Closed)
      else read_loop k ts
        ((set_req t (\<lambda>q. q\<lparr>rq_bytes := ret, rq_data := bs\<rparr>) s1)\<lparr>so_reads := ts, so_queue := so_queue s @ [t]\<rparr>))
   }"

text \<open>\<open>handle_error\<close> gives every task its error and moves it to the queue.\<close>

fun fail_tasks :: "error_code \<Rightarrow> nat list \<Rightarrow> async_socket \<Rightarrow> async_socket" where
  "fail_tasks ec [] s = s"
| "fail_tasks ec (t # ts) s = fail_tasks ec ts ((req_error t ec s)\<lparr>so_queue := so_queue s @ [t]\<rparr>)"

definition so_handle_error :: "kernel_calls \<Rightarrow> error_code \<Rightarrow> async_socket \<Rightarrow> async_socket" where
  "so_handle_error k ec s0 =
     (let s = so_close_fd k s0
      in (fail_tasks ec (so_writes s) ((fail_tasks ec (so_reads s) s)\<lparr>so_reads := []\<rparr>))\<lparr>so_writes := []\<rparr>)"

definition so_handle_readable :: "kernel_calls \<Rightarrow> async_socket \<Rightarrow> async_socket option" where
  "so_handle_readable k s = do {
     (s1, ec) \<leftarrow> read_loop k (so_reads s) s;
     Some (if is_error ec then so_handle_error k ec s1 else s1)
   }"

section \<open>Writing\<close>

text \<open>The tries of \<open>write_impl\<close>; the second result is whether it has returned.\<close>

fun write_tries :: "nat \<Rightarrow> kernel_calls \<Rightarrow> nat \<Rightarrow> async_socket \<Rightarrow> (async_socket \<times> bool) option" where
  "write_tries 0 k t s = Some (s, False)"
| "write_tries (Suc i) k t s = do {
     (ret, n) \<leftarrow> so_writev_retry k (so_fd s) (remain_buffers (so_req s t)) (so_net s);
     let s1 = s\<lparr>so_net := n\<rparr>;
     (if ret < 0 then
        (if net_errno n = EAGAIN then Some (s1, False)
         else Some (execute_task t (req_error t (so_last_errno s1) s1), True))
      else
        (let writed = to_i32 (rq_bytes (so_req s t) + ret);
             s2 = set_req t (\<lambda>q. q\<lparr>rq_bytes := writed\<rparr>) s1
         in if writed = ba_size (rq_bufs (so_req s t)) then Some (execute_task t s2, True)
            else write_tries i k t s2))
   }"

definition write_impl :: "kernel_calls \<Rightarrow> nat \<Rightarrow> async_socket \<Rightarrow> async_socket option" where
  "write_impl k t s =
     (if so_fd s = INVALID_SOCKET then Some (execute_task t (req_error t (tdk_error Tdk_Invalid_Call) s))
      else if so_writes s \<noteq> [] then Some (link_write t s)
      else do {
        (s1, returned) \<leftarrow> write_tries write_try_count k t s;
        Some (if returned then s1
         else if \<not> so_completing s1 then
           (let (s2, ok) = so_register k (EPOLLONESHOT OR EPOLL_OUT OR (if so_reads s1 \<noteq> [] then EPOLL_IN else 0)) s1
            in if ok then so_add_active (link_write t s2)
               else so_loop_call t (req_error t (so_last_errno s2) s2))
         else so_add_active (link_write t s1))
      })"

definition so_write :: "kernel_calls \<Rightarrow> bool \<Rightarrow> buffer_adapter \<Rightarrow> nat \<Rightarrow> async_socket \<Rightarrow> async_socket option" where
  "so_write k in_loop buf t s =
     (let s1 = so_issue t (no_request\<lparr>rq_bufs := buf\<rparr>) s
      in if in_loop then write_impl k t s1 else Some (so_loop_execute (Forward_Write t) s1))"

text \<open>The inner loop of \<open>handle_writeable\<close>: it takes the front of the queue in every try, also after
  a task was completed. The results are \<open>error\<close> and \<open>cont\<close>.\<close>

fun writeable_tries :: "nat \<Rightarrow> kernel_calls \<Rightarrow> async_socket \<Rightarrow> (async_socket \<times> error_code \<times> bool) option" where
  "writeable_tries 0 k s = Some (s, no_error, True)"
| "writeable_tries (Suc i) k s =
     (case so_writes s of
        [] \<Rightarrow> None
      | t # ts \<Rightarrow> do {
          (ret, n) \<leftarrow> so_writev_retry k (so_fd s) (remain_buffers (so_req s t)) (so_net s);
          let s1 = s\<lparr>so_net := n\<rparr>;
          (if ret < 0 then Some (s1, if net_errno n = EAGAIN then no_error else so_last_errno s1, False)
           else
             (let writed = to_i32 (rq_bytes (so_req s t) + ret);
                  s2 = set_req t (\<lambda>q. q\<lparr>rq_bytes := writed\<rparr>) s1
              in if writed = ba_size (rq_bufs (so_req s t)) then
                   writeable_tries i k (s2\<lparr>so_writes := ts, so_queue := so_queue s @ [t]\<rparr>)
                 else writeable_tries i k s2))
        })"

partial_function (option) writeable_loop :: "kernel_calls \<Rightarrow> async_socket \<Rightarrow> (async_socket \<times> error_code) option" where
  "writeable_loop k s =
     (if so_writes s = [] then Some (s, no_error)
      else do {
        (s1, ec, cont) \<leftarrow> writeable_tries write_try_count k s;
        (if cont then writeable_loop k s1 else Some (s1, ec))
      })"

definition so_handle_writeable :: "kernel_calls \<Rightarrow> async_socket \<Rightarrow> async_socket option" where
  "so_handle_writeable k s = do {
     (s1, ec) \<leftarrow> writeable_loop k s;
     Some (if is_error ec then so_handle_error k ec s1 else s1)
   }"

section \<open>Events\<close>

definition so_invoke :: "socket_env \<Rightarrow> nat \<Rightarrow> async_socket \<Rightarrow> async_socket option" where
  "so_invoke e t s = se_handler e t (s\<lparr>so_called := so_called s @ [t]\<rparr>)"

text \<open>The loop that empties the queue on the stack, while the tasks it calls may add to it.\<close>

partial_function (option) run_queue :: "socket_env \<Rightarrow> async_socket \<Rightarrow> async_socket option" where
  "run_queue e s =
     (case so_queue s of
        [] \<Rightarrow> Some s
      | t # ts \<Rightarrow> do {
          s1 \<leftarrow> so_invoke e t (s\<lparr>so_queue := ts, so_active := so_active s - 1\<rparr>);
          run_queue e s1
        })"

definition register_again :: "kernel_calls \<Rightarrow> async_socket \<Rightarrow> async_socket \<times> bool" where
  "register_again k s =
     (let ev = EPOLLONESHOT OR (if so_reads s \<noteq> [] then EPOLL_IN else 0)
                 OR (if so_writes s \<noteq> [] then EPOLL_OUT else 0)
      in if ev = EPOLLONESHOT then (s, True) else so_register k ev s)"

definition dispatch_event :: "kernel_calls \<Rightarrow> int \<Rightarrow> async_socket \<Rightarrow> async_socket option" where
  "dispatch_event k ev s =
     (if ev AND EPOLL_ERR \<noteq> 0 then
        (let (s1, err) = so_sock_error k s
         in Some (so_handle_error k (case err of None \<Rightarrow> tdk_error Tdk_Epoll_Error | Some ec \<Rightarrow> ec) s1))
      else if ev AND EPOLL_HUP \<noteq> 0 then Some (so_handle_error k (tdk_error Tdk_Epoll_Hang_Up) s)
      else do {
        s1 \<leftarrow> (if ev AND EPOLL_IN \<noteq> 0 then so_handle_readable k s else Some s);
        (if ev AND EPOLL_OUT \<noteq> 0 then so_handle_writeable k s1 else Some s1)
      })"

definition so_handle_io_event :: "socket_env \<Rightarrow> int \<Rightarrow> async_socket \<Rightarrow> async_socket option" where
  "so_handle_io_event e ev s = do {
     s1 \<leftarrow> dispatch_event (se_kernel e) ev (s\<lparr>so_queue := [], so_completing := True\<rparr>);
     s2 \<leftarrow> run_queue e s1;
     let (s3, ok) = register_again (se_kernel e) (s2\<lparr>so_completing := False\<rparr>);
     (if ok then Some s3
      else run_queue e (so_handle_error (se_kernel e) (epoll_error (net_errno (so_net s3))) s3))
   }"

definition so_connect_verdict :: "kernel_calls \<Rightarrow> int \<Rightarrow> async_socket \<Rightarrow> async_socket \<times> error_code" where
  "so_connect_verdict k ev s =
     (if ev AND EPOLL_OUT \<noteq> 0 then
        (let (s1, err) = so_sock_error k s in (s1, case err of None \<Rightarrow> no_error | Some ec \<Rightarrow> ec))
      else if ev AND EPOLL_ERR \<noteq> 0 then
        (let (s1, err) = so_sock_error k s in (s1, case err of None \<Rightarrow> tdk_error Tdk_Epoll_Error | Some ec \<Rightarrow> ec))
      else if ev AND EPOLL_HUP \<noteq> 0 then (s, tdk_error Tdk_Epoll_Hang_Up)
      else (s, tdk_error Tdk_Invalid_Event))"

definition so_handle_connect_event :: "socket_env \<Rightarrow> int \<Rightarrow> async_socket \<Rightarrow> async_socket option" where
  "so_handle_connect_event e ev s0 =
     (case so_writes s0 of
        [] \<Rightarrow> None
      | t # ts \<Rightarrow>
          (case rq_addrs (so_req s0 t) of
             None \<Rightarrow> None
           | Some it \<Rightarrow>
               (let (s1, ec) = so_connect_verdict (se_kernel e) ev (s0\<lparr>so_writes := ts\<rparr>);
                    s2 = req_error t ec s1;
                    (it', again) = (if is_error ec then address_next it else (it, False));
                    s3 = set_req t (\<lambda>q. q\<lparr>rq_addrs := Some it'\<rparr>) s2
                in if again then connect_impl (se_kernel e) t it' s3
                   else so_invoke e t (s3\<lparr>so_memfn := Handle_Io_Event, so_active := so_active s3 - 1\<rparr>))))"

text \<open>An event of the descriptor, whose registration ends with it.\<close>

definition so_on_event :: "socket_env \<Rightarrow> int \<Rightarrow> async_socket \<Rightarrow> async_socket option" where
  "so_on_event e ev s =
     (let s1 = s\<lparr>so_armed := None, so_evt := ev\<rparr>
      in case so_memfn s1 of
           Handle_Io_Event \<Rightarrow> so_handle_io_event e ev s1
         | Handle_Connect_Event \<Rightarrow> so_handle_connect_event e ev s1)"

section \<open>Closing, and the tasks of the loop\<close>

definition so_close :: "nat \<Rightarrow> async_socket \<Rightarrow> async_socket" where
  "so_close t s = so_loop_execute (Close_Internal t) (s\<lparr>so_issued := so_issued s @ [t]\<rparr>)"

definition close_impl :: "socket_env \<Rightarrow> nat \<Rightarrow> async_socket \<Rightarrow> async_socket option" where
  "close_impl e t s = do {
     s1 \<leftarrow> run_queue e (so_handle_error (se_kernel e) (tdk_error Tdk_User_Abort) (s\<lparr>so_queue := []\<rparr>));
     so_invoke e t s1
   }"

fun so_run :: "socket_env \<Rightarrow> loop_task \<Rightarrow> async_socket \<Rightarrow> async_socket option" where
  "so_run e (Call t) s = so_invoke e t s"
| "so_run e (Forward_Connect t) s =
     (case rq_addrs (so_req s t) of None \<Rightarrow> None | Some as \<Rightarrow> connect_impl (se_kernel e) t as s)"
| "so_run e (Forward_Read t) s = Some (read_impl (se_kernel e) t s)"
| "so_run e (Forward_Write t) s = write_impl (se_kernel e) t s"
| "so_run e (Close_Internal t) s = close_impl e t s"

definition so_run_next :: "socket_env \<Rightarrow> async_socket \<Rightarrow> async_socket option" where
  "so_run_next e s =
     (case so_pending s of [] \<Rightarrow> Some s | lt # lts \<Rightarrow> so_run e lt (s\<lparr>so_pending := lts\<rparr>))"

section \<open>Every task is called once\<close>

primrec task_of :: "loop_task \<Rightarrow> nat" where
  "task_of (Call t) = t"
| "task_of (Forward_Connect t) = t"
| "task_of (Forward_Read t) = t"
| "task_of (Forward_Write t) = t"
| "task_of (Close_Internal t) = t"

definition so_held :: "async_socket \<Rightarrow> nat multiset" where
  "so_held s = mset (so_reads s) + mset (so_writes s) + mset (so_queue s) + mset (map task_of (so_pending s))"

text \<open>The account of the tasks, while the operations that run have those of \<open>x\<close> in their hands:
  a task that was submitted is held by one queue, or was called. No task is linked twice. \<open>inhand\<close>: a
  task in hand is in no queue. A refused connect task is not accounted for.\<close>

definition so_once :: "nat multiset \<Rightarrow> bool" where
  "so_once m \<longleftrightarrow> (\<forall>t. count m t \<le> 1)"

definition acct :: "nat multiset \<Rightarrow> async_socket \<Rightarrow> bool" where
  "acct x s \<longleftrightarrow> so_refused s \<or>
     (mset (so_issued s) = so_held s + mset (so_called s) + x \<and> so_once (so_held s) \<and> \<not> so_twice s)"

definition inhand :: "nat \<Rightarrow> nat multiset \<Rightarrow> async_socket \<Rightarrow> bool" where
  "inhand t x s \<longleftrightarrow> acct (add_mset t x) s \<and> (so_refused s \<or> t \<notin># so_held s)"

lemma once_add: "so_once m \<Longrightarrow> t \<notin># m \<Longrightarrow> so_once (add_mset t m)"
  by (auto simp: so_once_def not_in_iff)

lemma once_take: "so_once (add_mset t m) \<Longrightarrow> so_once m \<and> t \<notin># m"
  unfolding so_once_def not_in_iff
  by (metis count_add_mset le_SucI One_nat_def Suc_le_mono le_zero_eq)

lemma linked_held: "mset (so_linked s) \<subseteq># so_held s"
proof -
  have "mset (concat (map called_task lts)) \<subseteq># mset (map task_of lts)" for lts
  proof (induction lts)
    case (Cons lt lts)
    thus ?case by (cases lt) (auto intro: subset_mset.order_trans)
  qed simp
  thus ?thesis by (simp add: so_linked_def so_held_def)
qed

lemma once_distinct:
  assumes "so_once (so_held s)" shows "distinct (so_linked s)"
  unfolding distinct_count_atmost_1
proof
  fix a
  have le: "count (mset (so_linked s)) a \<le> 1"
    using assms mset_subset_eq_count[OF linked_held[of s], of a] unfolding so_once_def by (metis le_trans)
  show "count (mset (so_linked s)) a = (if a \<in> set (so_linked s) then 1 else 0)"
  proof (cases "a \<in> set (so_linked s)")
    case True
    hence "0 < count (mset (so_linked s)) a" by (simp only: count_greater_zero_iff set_mset_mset)
    thus ?thesis using le True by (simp only: if_True le_antisym One_nat_def Suc_leI)
  qed (simp add: count_mset)
qed

lemma inhand_acct: "inhand t x s \<Longrightarrow> acct (add_mset t x) s"
  by (simp add: inhand_def)

text \<open>An operation leaves the queue on the stack alone when there is none.\<close>

definition same_frame :: "async_socket \<Rightarrow> async_socket \<Rightarrow> bool" where
  "same_frame s s' \<longleftrightarrow>
     so_completing s' = so_completing s \<and> (\<not> so_completing s \<longrightarrow> so_queue s' = so_queue s)"

lemma same_frame_refl [simp]: "same_frame s s"
  by (simp add: same_frame_def)

lemma same_frame_trans: "same_frame s s1 \<Longrightarrow> same_frame s1 s2 \<Longrightarrow> same_frame s s2"
  by (auto simp: same_frame_def)

text \<open>What the account does not look at.\<close>

lemma acct_frame [simp]:
  "acct x (s\<lparr>so_fd := a\<rparr>) = acct x s" "acct x (s\<lparr>so_memfn := b\<rparr>) = acct x s"
  "acct x (s\<lparr>so_evt := c\<rparr>) = acct x s" "acct x (s\<lparr>so_armed := d\<rparr>) = acct x s"
  "acct x (s\<lparr>so_completing := e\<rparr>) = acct x s" "acct x (s\<lparr>so_req := f\<rparr>) = acct x s"
  "acct x (s\<lparr>so_active := g\<rparr>) = acct x s" "acct x (s\<lparr>so_net := h\<rparr>) = acct x s"
  by (simp_all add: acct_def so_held_def)

text \<open>Two states with the same queues and records.\<close>

definition same_tasks :: "async_socket \<Rightarrow> async_socket \<Rightarrow> bool" where
  "same_tasks s s' \<longleftrightarrow> so_reads s' = so_reads s \<and> so_writes s' = so_writes s \<and> so_queue s' = so_queue s \<and>
     so_pending s' = so_pending s \<and> so_issued s' = so_issued s \<and> so_called s' = so_called s \<and>
     so_completing s' = so_completing s \<and> so_refused s' = so_refused s \<and> so_twice s' = so_twice s"

lemma same_tasks_acct: "same_tasks s s' \<Longrightarrow> acct x s' = acct x s"
  by (simp add: same_tasks_def acct_def so_held_def)

lemma same_tasks_inhand: "same_tasks s s' \<Longrightarrow> inhand t x s' = inhand t x s"
  by (simp add: same_tasks_def inhand_def acct_def so_held_def)

lemma same_tasks_frame: "same_tasks s s' \<Longrightarrow> same_frame s s'"
  by (simp add: same_tasks_def same_frame_def)

lemma same_tasks_linked: "same_tasks s s' \<Longrightarrow> so_linked s' = so_linked s"
  by (simp add: same_tasks_def so_linked_def)

lemma same_tasks_trans: "same_tasks s s1 \<Longrightarrow> same_tasks s1 s2 \<Longrightarrow> same_tasks s s2"
  by (simp add: same_tasks_def)

lemma same_tasks_ops [simp]:
  "same_tasks s s" "same_tasks s (set_req t f s)" "same_tasks s (req_error t ec s)"
  "same_tasks s (so_add_active s)" "same_tasks s (so_close_fd k s)"
  "same_tasks s (fst (so_register k ev s))" "same_tasks s (fst (so_sock_error k s))"
  "same_tasks s (fst (so_accept k fd s))"
  by (simp_all add: same_tasks_def set_req_def req_error_def so_add_active_def so_close_fd_def so_register_def
      so_sock_error_def so_accept_def Let_def split_beta)

lemma same_tasks_register: "so_register k ev s = (s1, ok) \<Longrightarrow> same_tasks s s1"
  using same_tasks_ops(6)[of s k ev] by simp

text \<open>Linking a task that was in hand.\<close>

lemma push_acct:
  assumes "inhand t x s" "so_held s' = add_mset t (so_held s)"
    "so_issued s' = so_issued s" "so_called s' = so_called s" "so_refused s' = so_refused s"
    "so_twice s' = (so_twice s \<or> t \<in> set (so_linked s))"
  shows "acct x s'"
proof -
  have "t \<notin># so_held s \<Longrightarrow> t \<notin> set (so_linked s)" using mset_subset_eqD[OF linked_held[of s], of t] by auto
  thus ?thesis using assms once_add by (auto simp: inhand_def acct_def)
qed

lemma link_acct:
  assumes a: "inhand t x s"
  shows "acct x (link_read t s) \<and> same_frame s (link_read t s)"
    "acct x (link_write t s) \<and> same_frame s (link_write t s)"
    "acct x (link_write_front t s) \<and> same_frame s (link_write_front t s)"
    "acct x (so_loop_call t s) \<and> same_frame s (so_loop_call t s)"
  using push_acct[OF a]
  by (simp_all add: link_read_def link_write_def link_write_front_def so_loop_call_def so_link_def so_held_def same_frame_def)

lemma execute_task_acct:
  assumes "inhand t x s"
  shows "acct x (execute_task t s) \<and> same_frame s (execute_task t s)"
proof (cases "so_completing s")
  case True
  thus ?thesis using push_acct[OF assms]
    by (simp add: execute_task_def so_held_def so_link_def same_frame_def so_add_active_def)
next
  case False
  thus ?thesis using assms link_acct(4) by (simp add: execute_task_def)
qed

lemma issue_acct: "acct x s \<Longrightarrow> t \<notin># so_held s \<Longrightarrow> inhand t x (so_issue t q s) \<and> same_frame s (so_issue t q s)"
  by (auto simp: so_issue_def inhand_def acct_def so_held_def same_frame_def)

lemma forward_acct:
  "inhand (task_of lt) x s \<Longrightarrow> acct x (so_loop_execute lt s) \<and> same_frame s (so_loop_execute lt s)"
  using once_add by (auto simp: so_loop_execute_def inhand_def acct_def so_held_def same_frame_def)

text \<open>What runs before may change nothing of the account.\<close>

lemma after_same:
  "same_tasks s s1 \<Longrightarrow> acct x s' \<and> same_frame s1 s' \<Longrightarrow> acct x s' \<and> same_frame s s'"
  using same_frame_trans same_tasks_frame by blast

lemma before_same:
  "acct x s1 \<and> same_frame s s1 \<Longrightarrow> same_tasks s1 s' \<Longrightarrow> acct x s' \<and> same_frame s s'"
  using same_frame_trans same_tasks_frame same_tasks_acct by blast

lemma link_active_acct:
  assumes "inhand t x s"
  shows "acct x (so_add_active (link_read t s)) \<and> same_frame s (so_add_active (link_read t s))"
    "acct x (so_add_active (link_write t s)) \<and> same_frame s (so_add_active (link_write t s))"
  by (rule before_same[OF link_acct(1)[OF assms]], simp) (rule before_same[OF link_acct(2)[OF assms]], simp)

lemma error_acct:
  assumes "inhand t x s"
  shows "acct x (execute_task t (req_error t ec s)) \<and> same_frame s (execute_task t (req_error t ec s))"
  by (rule after_same[OF same_tasks_ops(3)], rule execute_task_acct) (use assms same_tasks_inhand[OF same_tasks_ops(3)] in blast)

lemma read_impl_acct:
  assumes a: "inhand t x s"
  shows "acct x (read_impl k t s) \<and> same_frame s (read_impl k t s)"
proof (cases "so_fd s \<noteq> INVALID_SOCKET \<and> so_reads s = [] \<and> \<not> so_completing s")
  case reg: True
  obtain s1 ok where g: "so_register k (EPOLLONESHOT OR EPOLL_IN OR (if so_writes s \<noteq> [] then EPOLL_OUT else 0)) s = (s1, ok)"
    by fastforce
  note st = same_tasks_register[OF g]
  have "inhand t x s1" using a same_tasks_inhand[OF st] by simp
  hence "acct x (read_impl k t s) \<and> same_frame s1 (read_impl k t s)"
    using reg g link_active_acct(1) error_acct by (simp add: read_impl_def)
  thus ?thesis by (rule after_same[OF st])
next
  case False
  thus ?thesis using link_active_acct(1)[OF a] error_acct[OF a] by (auto simp: read_impl_def)
qed

lemma write_tries_acct:
  "inhand t x s \<Longrightarrow> write_tries i k t s = Some (s', ret) \<Longrightarrow>
   same_frame s s' \<and> (if ret then acct x s' else inhand t x s')"
proof (induction i arbitrary: s)
  case (Suc i)
  obtain r n where w: "so_writev_retry k (so_fd s) (remain_buffers (so_req s t)) (so_net s) = Some (r, n)"
    using Suc.prems(2) by (auto simp: bind_eq_Some_conv)
  let ?s1 = "s\<lparr>so_net := n\<rparr>"
  let ?s2 = "set_req t (\<lambda>q. q\<lparr>rq_bytes := to_i32 (rq_bytes (so_req s t) + r)\<rparr>) ?s1"
  let ?e = "req_error t (so_last_errno ?s1) ?s1"
  have st: "same_tasks s ?s1" by (simp add: same_tasks_def)
  have st2: "same_tasks s ?s2" "same_tasks s ?e" using same_tasks_trans[OF st] by simp_all
  have h: "inhand t x ?s1" "inhand t x ?s2" using Suc.prems(1) same_tasks_inhand[OF st] same_tasks_inhand[OF st2(1)] by auto
  show ?case
  proof (cases "r < 0")
    case neg: True
    show ?thesis
    proof (cases "net_errno n = EAGAIN")
      case True
      thus ?thesis using Suc.prems w neg same_tasks_frame[OF st] h by auto
    next
      case False
      hence "s' = execute_task t ?e \<and> ret" using Suc.prems(2) w neg by (auto simp: Let_def)
      thus ?thesis using error_acct[OF h(1)] after_same[OF st] by metis
    qed
  next
    case pos: False
    show ?thesis
    proof (cases "to_i32 (rq_bytes (so_req s t) + r) = ba_size (rq_bufs (so_req s t))")
      case True
      hence "s' = execute_task t ?s2 \<and> ret" using Suc.prems(2) w pos by (auto simp: Let_def)
      thus ?thesis using execute_task_acct[OF h(2)] after_same[OF st2(1)] by metis
    next
      case False
      hence "write_tries i k t ?s2 = Some (s', ret)" using Suc.prems(2) w pos by (simp add: Let_def)
      from Suc.IH[OF h(2) this] show ?thesis using same_frame_trans[OF same_tasks_frame[OF st2(1)]] by blast
    qed
  qed
qed simp

lemma write_impl_acct:
  assumes a: "inhand t x s" and r: "write_impl k t s = Some s'"
  shows "acct x s' \<and> same_frame s s'"
proof (cases "so_fd s = INVALID_SOCKET \<or> so_writes s \<noteq> []")
  case True
  thus ?thesis using r error_acct[OF a] link_acct(2)[OF a] by (auto simp: write_impl_def split: if_splits)
next
  case False
  then obtain s1 ret where t: "write_tries write_try_count k t s = Some (s1, ret)"
    using r by (auto simp: write_impl_def bind_eq_Some_conv)
  note w = write_tries_acct[OF a t]
  have "acct x s' \<and> same_frame s1 s'"
  proof (cases "ret \<or> so_completing s1")
    case True
    thus ?thesis using r False t w link_active_acct(2)[of t x s1] by (auto simp: write_impl_def)
  next
    case reg: False
    obtain s2 ok where g: "so_register k (EPOLLONESHOT OR EPOLL_OUT OR (if so_reads s1 \<noteq> [] then EPOLL_IN else 0)) s1 = (s2, ok)"
      by fastforce
    note st = same_tasks_register[OF g]
    have h: "inhand t x s2" using same_tasks_inhand[OF st] w reg by simp
    have e: "same_tasks s2 (req_error t (so_last_errno s2) s2)" by simp
    have "inhand t x (req_error t (so_last_errno s2) s2)" using h same_tasks_inhand[OF e] by blast
    from after_same[OF e link_acct(4)[OF this]] link_active_acct(2)[OF h]
    have "acct x s' \<and> same_frame s2 s'" using r False t reg g by (auto simp: write_impl_def split: if_splits)
    thus ?thesis by (rule after_same[OF st])
  qed
  thus ?thesis using w same_frame_trans by blast
qed

text \<open>An attempt to connect that fails keeps the task in hand, unless the poller refused it.\<close>

lemma connect_attempt_acct:
  assumes c: "inhand t x s" and r: "connect_attempt k t addr s = Some (s', ok)"
  shows "same_frame s s' \<and> (if ok then acct x s' else inhand t x s')"
proof -
  obtain fd opened n where o: "sock_open_tcp k (addr_family addr) (so_net (so_close_fd k s)) = (fd, opened, n)"
    by (metis surj_pair)
  let ?s1 = "(so_close_fd k s)\<lparr>so_fd := fd, so_net := n\<rparr>"
  obtain nb n2 where b: "set_option (non_blocking k) fd n = (nb, n2)" by fastforce
  let ?s2 = "?s1\<lparr>so_net := n2\<rparr>"
  have st: "same_tasks s ?s1" "same_tasks s ?s2" "same_tasks s (?s2\<lparr>so_net := n3\<rparr>)" for n3
    by (simp_all add: same_tasks_def so_close_fd_def split_beta Let_def)
  consider "\<not> opened" | "opened" "\<not> nb" | (conn) "opened" "nb" by blast
  thus ?thesis
  proof cases
    case conn
    then obtain r3 n3 where t: "so_connect_retry k fd addr n2 = Some (r3, n3)"
      using r o b by (auto simp: connect_attempt_def Let_def bind_eq_Some_conv)
    let ?s3 = "?s2\<lparr>so_net := n3\<rparr>"
    have i: "inhand t x ?s3" using c same_tasks_inhand[OF st(3)] by simp
    have "same_frame ?s3 s' \<and> (if ok then acct x s' else inhand t x s')"
    proof (cases "r3 = 0 \<or> net_errno n3 = EINPROGRESS")
      case True
      let ?s4 = "(link_write_front t ?s3)\<lparr>so_memfn := Handle_Connect_Event\<rparr>"
      obtain s5 reg where g: "so_register k (EPOLL_OUT OR EPOLLONESHOT) ?s4 = (s5, reg)" by fastforce
      have s': "s' = (if reg then so_add_active s5 else s5\<lparr>so_refused := True\<rparr>)" "ok = reg"
        using r conn o b t True g by (simp_all add: connect_attempt_def Let_def split: if_splits)
      have "same_tasks (link_write_front t ?s3) ?s4" by (simp add: same_tasks_def)
      hence s5: "same_tasks (link_write_front t ?s3) s5" using same_tasks_trans same_tasks_register[OF g] by blast
      from before_same[OF link_acct(3)[OF i] this] have a5: "acct x s5 \<and> same_frame ?s3 s5" .
      show ?thesis
      proof (cases reg)
        case True
        thus ?thesis using before_same[OF a5 same_tasks_ops(4)] s' by simp
      next
        case False
        thus ?thesis using a5 s' by (simp add: inhand_def acct_def same_frame_def)
      qed
    next
      case False
      hence "s' = ?s3 \<and> \<not> ok" using r conn o b t by (auto simp: connect_attempt_def Let_def)
      thus ?thesis using i by simp
    qed
    thus ?thesis using same_tasks_frame[OF st(3)] same_frame_trans by blast
  qed (use r o b c same_tasks_inhand[OF st(1)] same_tasks_inhand[OF st(2)] same_tasks_frame[OF st(1)] same_tasks_frame[OF st(2)]
      in \<open>auto simp: connect_attempt_def Let_def\<close>)
qed

lemma connect_loop_acct:
  "inhand t x s \<Longrightarrow> connect_loop k t as s = Some (s', ok) \<Longrightarrow>
   same_frame s s' \<and> (if ok then acct x s' else inhand t x s')"
proof (induction as arbitrary: s)
  case Nil
  have st: "same_tasks s (set_req t (\<lambda>q. q\<lparr>rq_addrs := Some []\<rparr>) s)" by simp
  show ?case using Nil same_tasks_inhand[OF st] same_tasks_frame[OF st] by auto
next
  case (Cons a as)
  let ?s = "set_req t (\<lambda>q. q\<lparr>rq_addrs := Some (a # as)\<rparr>) s"
  have st: "same_tasks s ?s" by simp
  obtain s1 ok1 where t: "connect_attempt k t a ?s = Some (s1, ok1)"
    using Cons.prems(2) by (auto simp: bind_eq_Some_conv)
  have c: "inhand t x ?s" using Cons.prems(1) same_tasks_inhand[OF st] by simp
  note w = connect_attempt_acct[OF c t]
  show ?case
  proof (cases ok1)
    case True
    thus ?thesis using Cons.prems(2) t w same_tasks_frame[OF st] same_frame_trans by auto
  next
    case False
    hence "connect_loop k t as s1 = Some (s', ok)" using Cons.prems(2) t by simp
    from Cons.IH[OF _ this] w False same_tasks_frame[OF st] same_frame_trans show ?thesis by metis
  qed
qed

lemma connect_impl_acct:
  assumes a: "inhand t x s" and r: "connect_impl k t as s = Some s'"
  shows "acct x s' \<and> same_frame s s'"
proof -
  obtain s1 ok where l: "connect_loop k t as s = Some (s1, ok)"
    using r by (auto simp: connect_impl_def bind_eq_Some_conv)
  note w = connect_loop_acct[OF a l]
  show ?thesis
  proof (cases ok)
    case True
    thus ?thesis using r l w by (simp add: connect_impl_def)
  next
    case False
    let ?s2 = "(so_close_fd k s1)\<lparr>so_memfn := Handle_Io_Event\<rparr>"
    let ?s3 = "set_req t (\<lambda>q. q\<lparr>rq_error := so_last_errno ?s2, rq_bytes := 0\<rparr>) ?s2"
    have s': "s' = so_loop_call t ?s3" using r l False by (simp add: connect_impl_def Let_def)
    have st: "same_tasks s1 ?s3" by (simp add: same_tasks_def set_req_def so_close_fd_def split_beta Let_def)
    have "inhand t x ?s3" using w False same_tasks_inhand[OF st] by simp
    from after_same[OF st link_acct(4)[OF this]] w show ?thesis unfolding s' using same_frame_trans by blast
  qed
qed

text \<open>What users and handlers do with the socket: they submit a task when it is not under way already.\<close>

inductive so_api :: "kernel_calls \<Rightarrow> async_socket \<Rightarrow> async_socket \<Rightarrow> bool" for k where
  api_so_connect: "t \<notin># so_held s \<Longrightarrow> so_connect k il addrs t s = Some s' \<Longrightarrow> so_api k s s'"
| api_so_read: "t \<notin># so_held s \<Longrightarrow> so_read k il buf t s = Some s' \<Longrightarrow> so_api k s s'"
| api_so_write: "t \<notin># so_held s \<Longrightarrow> so_write k il buf t s = Some s' \<Longrightarrow> so_api k s s'"
| api_so_close: "t \<notin># so_held s \<Longrightarrow> so_api k s (so_close t s)"
| api_so_accept: "so_api k s (fst (so_accept k fd s))"

definition handlers_ok :: "socket_env \<Rightarrow> bool" where
  "handlers_ok e \<longleftrightarrow> (\<forall>t s s'. se_handler e t s = Some s' \<longrightarrow> (so_api (se_kernel e))\<^sup>*\<^sup>* s s')"

text \<open>Submitting a task, at once or through the loop.\<close>

lemma submit_acct:
  assumes "acct x s" "task_of lt = t" "t \<notin># so_held s"
    "\<And>s s'. inhand t x s \<Longrightarrow> impl s = Some s' \<Longrightarrow> acct x s' \<and> same_frame s s'"
    "(let s1 = so_issue t q s in if il then impl s1 else Some (so_loop_execute lt s1)) = Some s'"
  shows "acct x s' \<and> same_frame s s'"
proof -
  let ?s = "so_issue t q s"
  have i: "inhand t x ?s" "same_frame s ?s" using issue_acct[OF assms(1,3)] by simp_all
  have "acct x s' \<and> same_frame ?s s'"
  proof (cases il)
    case True
    thus ?thesis using assms(4)[OF i(1)] assms(5) by (simp add: Let_def)
  next
    case False
    thus ?thesis using forward_acct[of lt x ?s] i(1) assms(2,5) by (auto simp: Let_def)
  qed
  thus ?thesis using i(2) same_frame_trans by blast
qed

lemma api_acct:
  assumes "so_api k s s'" "acct x s"
  shows "acct x s' \<and> same_frame s s'"
  using assms(1)
proof (cases rule: so_api.cases)
  case (api_so_connect t il addrs)
  show ?thesis
    by (rule submit_acct[OF assms(2), where lt = "Forward_Connect t" and impl = "connect_impl k t addrs"])
      (use api_so_connect connect_impl_acct in \<open>simp_all add: so_connect_def\<close>)
next
  case (api_so_read t il buf)
  show ?thesis
    by (rule submit_acct[OF assms(2), where lt = "Forward_Read t" and impl = "\<lambda>s. Some (read_impl k t s)"])
      (use api_so_read read_impl_acct in \<open>auto simp: so_read_def\<close>)
next
  case (api_so_write t il buf)
  show ?thesis
    by (rule submit_acct[OF assms(2), where lt = "Forward_Write t" and impl = "write_impl k t"])
      (use api_so_write write_impl_acct in \<open>simp_all add: so_write_def\<close>)
next
  case (api_so_close t)
  show ?thesis
    by (rule submit_acct[OF assms(2), where lt = "Close_Internal t" and il = False and t = t and q = "so_req s t" and
          impl = "\<lambda>s. None"]) (use api_so_close in \<open>simp_all add: so_close_def so_issue_def\<close>)
next
  case (api_so_accept fd)
  have st: "same_tasks s s'" unfolding api_so_accept by (rule same_tasks_ops(8))
  show ?thesis using same_tasks_acct[OF st] assms(2) same_tasks_frame[OF st] by simp
qed

lemma apis_acct:
  "(so_api k)\<^sup>*\<^sup>* s s' \<Longrightarrow> acct x s \<Longrightarrow> acct x s' \<and> same_frame s s'"
proof (induction rule: rtranclp_induct)
  case (step s1 s2)
  thus ?case using api_acct[OF step(2), of x] same_frame_trans by blast
qed simp

text \<open>Tasks that only change their queues.\<close>

lemma permute_acct:
  assumes "acct x s" "so_held s' = so_held s" "so_issued s' = so_issued s" "so_called s' = so_called s"
    "so_refused s' = so_refused s" "so_twice s' = so_twice s"
  shows "acct x s'"
  using assms by (simp add: acct_def)

lemma fail_tasks_eq: "\<exists>f. fail_tasks ec ts s = s\<lparr>so_req := f, so_queue := so_queue s @ ts\<rparr>"
proof (induction ts arbitrary: s)
  case Nil
  show ?case by (rule exI[of _ "so_req s"]) simp
next
  case (Cons t ts)
  let ?s = "(req_error t ec s)\<lparr>so_queue := so_queue s @ [t]\<rparr>"
  obtain f where "fail_tasks ec ts ?s = ?s\<lparr>so_req := f, so_queue := so_queue ?s @ ts\<rparr>" using Cons.IH by blast
  thus ?case by (intro exI[of _ f]) (simp add: req_error_def set_req_def)
qed

lemma handle_error_eq:
  "\<exists>f. so_handle_error k ec s = (so_close_fd k s)\<lparr>so_req := f, so_queue := so_queue s @ so_reads s @ so_writes s,
     so_reads := [], so_writes := []\<rparr>"
proof -
  let ?s = "so_close_fd k s"
  have q: "so_queue ?s = so_queue s" "so_reads ?s = so_reads s" "so_writes ?s = so_writes s"
    by (simp_all add: so_close_fd_def split_beta Let_def)
  obtain f where f: "fail_tasks ec (so_reads ?s) ?s = ?s\<lparr>so_req := f, so_queue := so_queue ?s @ so_reads ?s\<rparr>"
    using fail_tasks_eq by blast
  let ?r = "(fail_tasks ec (so_reads ?s) ?s)\<lparr>so_reads := []\<rparr>"
  obtain g where "fail_tasks ec (so_writes ?s) ?r = ?r\<lparr>so_req := g, so_queue := so_queue ?r @ so_writes ?s\<rparr>"
    using fail_tasks_eq by blast
  thus ?thesis using f q by (intro exI[of _ g]) (simp add: so_handle_error_def Let_def)
qed

lemma handle_error_acct:
  assumes "acct x s"
  shows "acct x (so_handle_error k ec s)" "so_completing (so_handle_error k ec s) = so_completing s"
proof -
  obtain f where e: "so_handle_error k ec s = (so_close_fd k s)\<lparr>so_req := f, so_queue := so_queue s @ so_reads s @ so_writes s,
     so_reads := [], so_writes := []\<rparr>" using handle_error_eq by blast
  let ?s = "so_close_fd k s"
  have f: "so_pending ?s = so_pending s" "so_issued ?s = so_issued s" "so_called ?s = so_called s"
    "so_completing ?s = so_completing s" "so_refused ?s = so_refused s" "so_twice ?s = so_twice s"
    by (simp_all add: so_close_fd_def split_beta Let_def)
  show "acct x (so_handle_error k ec s)" unfolding e
    by (rule permute_acct[OF assms]) (simp_all add: so_held_def f ac_simps)
  show "so_completing (so_handle_error k ec s) = so_completing s" using f by (simp add: e)
qed

text \<open>A task that is done goes from the front of its queue to the queue on the stack.\<close>

lemma done_acct:
  "acct x s \<Longrightarrow> so_reads s = t # ts \<Longrightarrow> acct x (s\<lparr>so_reads := ts, so_queue := so_queue s @ [t]\<rparr>)"
  "acct x s \<Longrightarrow> so_writes s = t # ts \<Longrightarrow> acct x (s\<lparr>so_writes := ts, so_queue := so_queue s @ [t]\<rparr>)"
  by (rule permute_acct[of x s], simp_all add: so_held_def ac_simps)+

lemma read_loop_acct:
  "acct x s \<Longrightarrow> so_reads s = ts \<Longrightarrow> read_loop k ts s = Some (s', ec) \<Longrightarrow>
   acct x s' \<and> so_completing s' = so_completing s"
proof (induction ts arbitrary: s)
  case (Cons t ts)
  obtain ret bs n where w: "so_readv_retry k (so_fd s) (map length (rq_bufs (so_req s t))) (so_net s) = Some (ret, bs, n)"
    using Cons.prems(3) by (auto simp: bind_eq_Some_conv)
  let ?s1 = "s\<lparr>so_net := n\<rparr>"
  let ?s2 = "set_req t (\<lambda>q. q\<lparr>rq_bytes := ret, rq_data := bs\<rparr>) ?s1"
  have st: "same_tasks s ?s2" "so_reads ?s2 = t # ts" "so_queue ?s2 = so_queue s" "so_completing ?s2 = so_completing s"
    using Cons.prems(2) by (simp_all add: same_tasks_def set_req_def)
  show ?case
  proof (cases "ret < 0 \<or> (ret = 0 \<and> ba_size (rq_bufs (so_req s t)) \<noteq> 0)")
    case True
    hence "s' = ?s1" using Cons.prems(3) w by (auto simp: Let_def split: if_splits)
    thus ?thesis using Cons.prems(1) by simp
  next
    case False
    hence "read_loop k ts (?s2\<lparr>so_reads := ts, so_queue := so_queue s @ [t]\<rparr>) = Some (s', ec)"
      using Cons.prems(3) w by (auto simp: Let_def split: if_splits)
    from Cons.IH[OF _ _ this] done_acct(1)[of x ?s2 t ts] same_tasks_acct[OF st(1)] st(2-4) Cons.prems(1)
    show ?thesis by simp
  qed
qed simp

lemma writeable_tries_acct:
  "acct x s \<Longrightarrow> writeable_tries i k s = Some (s', ec, cont) \<Longrightarrow> acct x s' \<and> so_completing s' = so_completing s"
proof (induction i arbitrary: s)
  case (Suc i)
  obtain t ts where ts: "so_writes s = t # ts" using Suc.prems(2) by (cases "so_writes s") auto
  obtain ret n where w: "so_writev_retry k (so_fd s) (remain_buffers (so_req s t)) (so_net s) = Some (ret, n)"
    using Suc.prems(2) ts by (auto simp: bind_eq_Some_conv)
  let ?s1 = "s\<lparr>so_net := n\<rparr>"
  let ?s2 = "set_req t (\<lambda>q. q\<lparr>rq_bytes := to_i32 (rq_bytes (so_req s t) + ret)\<rparr>) ?s1"
  let ?s3 = "?s2\<lparr>so_writes := ts, so_queue := so_queue s @ [t]\<rparr>"
  have st: "same_tasks s ?s2" "so_writes ?s2 = t # ts" "so_queue ?s2 = so_queue s" "so_completing ?s2 = so_completing s"
    using ts by (simp_all add: same_tasks_def set_req_def)
  have a: "acct x ?s2" "acct x ?s3" using same_tasks_acct[OF st(1)] Suc.prems(1) done_acct(2)[of x ?s2 t ts] st(2,3) by simp_all
  consider "ret < 0" | (fin) "\<not> ret < 0" "to_i32 (rq_bytes (so_req s t) + ret) = ba_size (rq_bufs (so_req s t))"
    | (part) "\<not> ret < 0" "to_i32 (rq_bytes (so_req s t) + ret) \<noteq> ba_size (rq_bufs (so_req s t))" by blast
  thus ?case
  proof cases
    case 1
    hence "s' = ?s1" using Suc.prems(2) w ts by (auto simp: Let_def split: if_splits)
    thus ?thesis using Suc.prems(1) by simp
  next
    case fin
    hence "writeable_tries i k ?s3 = Some (s', ec, cont)" using Suc.prems(2) w ts by (simp add: Let_def)
    thus ?thesis using Suc.IH a(2) st(4) by fastforce
  next
    case part
    hence "writeable_tries i k ?s2 = Some (s', ec, cont)" using Suc.prems(2) w ts by (simp add: Let_def)
    thus ?thesis using Suc.IH a(1) st(4) by fastforce
  qed
qed simp

lemma writeable_loop_acct:
  assumes "writeable_loop k s = Some (s', ec)" "acct x s"
  shows "acct x s' \<and> so_completing s' = so_completing s"
proof -
  have "acct x s \<longrightarrow> acct x (fst r) \<and> so_completing (fst r) = so_completing s"
    if "writeable_loop k s = Some r" for k s r
  proof (rule writeable_loop.raw_induct[where P = "\<lambda>k s r. acct x s \<longrightarrow> acct x (fst r) \<and>
      so_completing (fst r) = so_completing s", OF _ that], intro impI)
    fix f :: "kernel_calls \<Rightarrow> async_socket \<Rightarrow> (async_socket \<times> error_code) option" and k s r
    assume ih: "\<And>k s r. f k s = Some r \<Longrightarrow> acct x s \<longrightarrow> acct x (fst r) \<and> so_completing (fst r) = so_completing s"
      and r: "(if so_writes s = [] then Some (s, no_error)
      else do {
        (s1, ec, cont) \<leftarrow> writeable_tries write_try_count k s;
        (if cont then f k s1 else Some (s1, ec))
      }) = Some r" and a: "acct x s"
    show "acct x (fst r) \<and> so_completing (fst r) = so_completing s"
    proof (cases "so_writes s = []")
      case True
      thus ?thesis using r a by auto
    next
      case False
      then obtain s1 ec cont where t: "writeable_tries write_try_count k s = Some (s1, ec, cont)"
        using r by (auto simp: bind_eq_Some_conv)
      from writeable_tries_acct[OF a t] r False t ih[of k s1 r] show ?thesis by (auto split: if_splits)
    qed
  qed
  from this[OF assms(1)] assms(2) show ?thesis by simp
qed

lemma dispatch_acct:
  assumes a: "acct x s" and d: "dispatch_event k ev s = Some s'"
  shows "acct x s' \<and> so_completing s' = so_completing s"
proof -
  have sock: "same_tasks s (fst (so_sock_error k s))" by simp
  have rd: "acct x s1 \<and> so_completing s1 = so_completing s" if r: "so_handle_readable k s = Some s1" for s1
  proof -
    obtain s2 ec where "read_loop k (so_reads s) s = Some (s2, ec)" "s1 = (if is_error ec then so_handle_error k ec s2 else s2)"
      using r by (auto simp: so_handle_readable_def bind_eq_Some_conv)
    thus ?thesis using read_loop_acct[OF a refl, of k s2 ec] handle_error_acct[of x s2 k ec] by simp
  qed
  have wr: "acct x s2 \<and> so_completing s2 = so_completing s1" if r: "so_handle_writeable k s1 = Some s2" "acct x s1" for s1 s2
  proof -
    obtain s3 ec where "writeable_loop k s1 = Some (s3, ec)" "s2 = (if is_error ec then so_handle_error k ec s3 else s3)"
      using r by (auto simp: so_handle_writeable_def bind_eq_Some_conv)
    thus ?thesis using writeable_loop_acct[of k s1 s3 ec] r(2) handle_error_acct[of x s3 k ec] by simp
  qed
  consider (err) "ev AND EPOLL_ERR \<noteq> 0" | (hup) "ev AND EPOLL_ERR = 0" "ev AND EPOLL_HUP \<noteq> 0"
    | (io) "ev AND EPOLL_ERR = 0" "ev AND EPOLL_HUP = 0" by blast
  thus ?thesis
  proof cases
    case err
    then obtain ec where "s' = so_handle_error k ec (fst (so_sock_error k s))"
      using d by (auto simp: dispatch_event_def split_beta Let_def)
    thus ?thesis using handle_error_acct[of x "fst (so_sock_error k s)"] same_tasks_acct[OF sock] a sock
      by (simp add: same_tasks_def)
  next
    case hup
    thus ?thesis using d handle_error_acct[OF a] by (auto simp: dispatch_event_def)
  next
    case io
    then obtain s1 where s1: "(if ev AND EPOLL_IN \<noteq> 0 then so_handle_readable k s else Some s) = Some s1"
      "(if ev AND EPOLL_OUT \<noteq> 0 then so_handle_writeable k s1 else Some s1) = Some s'"
      using d by (auto simp: dispatch_event_def bind_eq_Some_conv)
    have "acct x s1 \<and> so_completing s1 = so_completing s" using s1(1) rd a by (auto split: if_splits)
    thus ?thesis using s1(2) wr[of s1 s'] by (auto split: if_splits)
  qed
qed

lemma invoke_acct:
  assumes "handlers_ok e" "so_invoke e t s = Some s'" "acct (add_mset t x) s"
  shows "acct x s' \<and> same_frame s s'"
proof -
  let ?s = "s\<lparr>so_called := so_called s @ [t]\<rparr>"
  have "acct x ?s" "same_frame s ?s"
    using assms(3) by (simp_all add: acct_def so_held_def same_frame_def)
  moreover have "(so_api (se_kernel e))\<^sup>*\<^sup>* ?s s'" using assms(1,2) by (simp add: handlers_ok_def so_invoke_def)
  ultimately show ?thesis using apis_acct[of "se_kernel e" ?s s' x] same_frame_trans by blast
qed

text \<open>Taking a task from a queue.\<close>

lemma take_acct:
  "acct x s \<Longrightarrow> so_queue s = t # ts \<Longrightarrow> inhand t x (s\<lparr>so_queue := ts, so_active := a\<rparr>)"
  "acct x s \<Longrightarrow> so_writes s = t # ts \<Longrightarrow> inhand t x (s\<lparr>so_writes := ts\<rparr>)"
  "acct x s \<Longrightarrow> so_pending s = lt # lts \<Longrightarrow> inhand (task_of lt) x (s\<lparr>so_pending := lts\<rparr>)"
  by (auto simp: inhand_def acct_def so_held_def dest: once_take)

lemma run_queue_acct:
  assumes e: "handlers_ok e" and r: "run_queue e s = Some s'" and a: "acct x s"
  shows "acct x s' \<and> so_queue s' = [] \<and> so_completing s' = so_completing s"
proof -
  have "handlers_ok e \<and> acct x s \<longrightarrow> acct x s' \<and> so_queue s' = [] \<and> so_completing s' = so_completing s"
    if "run_queue e s = Some s'" for e s s'
  proof (rule run_queue.raw_induct[where P = "\<lambda>e s s'. handlers_ok e \<and> acct x s \<longrightarrow>
      acct x s' \<and> so_queue s' = [] \<and> so_completing s' = so_completing s", OF _ that], intro impI)
    fix f :: "socket_env \<Rightarrow> async_socket \<Rightarrow> async_socket option" and e s s'
    assume ih: "\<And>e s s'. f e s = Some s' \<Longrightarrow> handlers_ok e \<and> acct x s \<longrightarrow>
        acct x s' \<and> so_queue s' = [] \<and> so_completing s' = so_completing s"
      and r: "(case so_queue s of
        [] \<Rightarrow> Some s
      | t # ts \<Rightarrow> do {
          s1 \<leftarrow> so_invoke e t (s\<lparr>so_queue := ts, so_active := so_active s - 1\<rparr>);
          f e s1
        }) = Some s'" and a: "handlers_ok e \<and> acct x s"
    show "acct x s' \<and> so_queue s' = [] \<and> so_completing s' = so_completing s"
    proof (cases "so_queue s")
      case Nil
      thus ?thesis using r a by simp
    next
      case (Cons t ts)
      let ?s = "s\<lparr>so_queue := ts, so_active := so_active s - 1\<rparr>"
      obtain s1 where s1: "so_invoke e t ?s = Some s1" "f e s1 = Some s'"
        using r Cons by (auto simp: bind_eq_Some_conv)
      have "acct (add_mset t x) ?s"
        by (rule inhand_acct[OF take_acct(1)]) (use a Cons in simp_all)
      hence "acct x s1 \<and> same_frame ?s s1" using invoke_acct[OF _ s1(1), of x] a by blast
      thus ?thesis using ih[OF s1(2)] a by (simp add: same_frame_def)
    qed
  qed
  thus ?thesis using assms by blast
qed

text \<open>Between two events and tasks, nothing is on the stack.\<close>

definition at_rest :: "async_socket \<Rightarrow> bool" where
  "at_rest s \<longleftrightarrow> acct {#} s \<and> so_queue s = [] \<and> \<not> so_completing s"

lemma frame_rest: "at_rest s \<Longrightarrow> acct {#} s' \<Longrightarrow> same_frame s s' \<Longrightarrow> at_rest s'"
  by (simp add: at_rest_def same_frame_def)

lemma io_event_rest:
  assumes e: "handlers_ok e" and a: "at_rest s" and h: "so_handle_io_event e ev s = Some s'"
  shows "at_rest s'"
proof -
  let ?s = "s\<lparr>so_queue := [], so_completing := True\<rparr>"
  have "acct {#} s" "so_queue s = []" using a by (simp_all add: at_rest_def)
  hence a0: "acct {#} ?s" by (intro permute_acct[of "{#}" s ?s]) (simp_all add: so_held_def)
  obtain s1 s2 where d: "dispatch_event (se_kernel e) ev ?s = Some s1" "run_queue e s1 = Some s2"
    using h by (auto simp: so_handle_io_event_def bind_eq_Some_conv)
  note r = run_queue_acct[OF e d(2) conjunct1[OF dispatch_acct[OF a0 d(1)]]]
  obtain s3 ok where g: "register_again (se_kernel e) (s2\<lparr>so_completing := False\<rparr>) = (s3, ok)" by fastforce
  have st: "same_tasks (s2\<lparr>so_completing := False\<rparr>) s3"
    using g same_tasks_register by (auto simp: register_again_def Let_def split: if_splits)
  hence a3: "acct {#} s3" "so_queue s3 = []" "\<not> so_completing s3"
    using same_tasks_acct[OF st] r by (simp_all add: same_tasks_def)
  show ?thesis
  proof (cases ok)
    case True
    thus ?thesis using h d g a3 by (simp add: so_handle_io_event_def at_rest_def)
  next
    case False
    hence "run_queue e (so_handle_error (se_kernel e) (epoll_error (net_errno (so_net s3))) s3) = Some s'"
      using h d g by (simp add: so_handle_io_event_def)
    from run_queue_acct[OF e this handle_error_acct(1)[OF a3(1)]] handle_error_acct(2)[OF a3(1)] a3(3)
    show ?thesis by (simp add: at_rest_def)
  qed
qed

lemma connect_event_rest:
  assumes e: "handlers_ok e" and a: "at_rest s" and h: "so_handle_connect_event e ev s = Some s'"
  shows "at_rest s'"
proof -
  obtain t ts it where t: "so_writes s = t # ts" "rq_addrs (so_req s t) = Some it"
    using h by (auto simp: so_handle_connect_event_def split: list.splits option.splits)
  let ?s = "s\<lparr>so_writes := ts\<rparr>"
  obtain s1 ec where v: "so_connect_verdict (se_kernel e) ev ?s = (s1, ec)" by fastforce
  have "same_tasks ?s (fst (so_connect_verdict (se_kernel e) ev ?s))"
    using same_tasks_ops(7) by (auto simp: so_connect_verdict_def Let_def split_beta)
  hence st1: "same_tasks ?s s1" using v by simp
  obtain it' again where n: "(if is_error ec then address_next it else (it, False)) = (it', again)" by fastforce
  let ?s3 = "set_req t (\<lambda>q. q\<lparr>rq_addrs := Some it'\<rparr>) (req_error t ec s1)"
  have st3: "same_tasks ?s ?s3" using same_tasks_trans[OF st1] same_tasks_trans[of ?s "req_error t ec s1" ?s3] by simp
  have a3: "inhand t {#} ?s3" "same_frame s ?s3"
    using same_tasks_inhand[OF st3] take_acct(2)[of "{#}" s t ts] t(1) a same_tasks_frame[OF st3]
    by (simp_all add: at_rest_def same_frame_def)
  show ?thesis
  proof (cases again)
    case True
    hence "connect_impl (se_kernel e) t it' ?s3 = Some s'"
      using h t v n by (simp add: so_handle_connect_event_def)
    from connect_impl_acct[OF a3(1) this] a3(2) show ?thesis using frame_rest[OF a] same_frame_trans by blast
  next
    case False
    let ?s4 = "?s3\<lparr>so_memfn := Handle_Io_Event, so_active := so_active ?s3 - 1\<rparr>"
    have "so_invoke e t ?s4 = Some s'" using h t v n False by (simp add: so_handle_connect_event_def Let_def)
    from invoke_acct[OF e this, of "{#}"] a3(2) inhand_acct[OF a3(1)] have "acct {#} s' \<and> same_frame ?s3 s'" by (simp add: same_frame_def)
    thus ?thesis using frame_rest[OF a] same_frame_trans a3(2) by blast
  qed
qed

lemma close_impl_rest:
  assumes e: "handlers_ok e" and a: "acct {#t#} s" "so_queue s = []" "\<not> so_completing s"
    and h: "close_impl e t s = Some s'"
  shows "at_rest s'"
proof -
  have "s\<lparr>so_queue := []\<rparr> = s" using a(2) by (cases s) simp
  then obtain s1 where r: "run_queue e (so_handle_error (se_kernel e) (tdk_error Tdk_User_Abort) s) = Some s1"
    "so_invoke e t s1 = Some s'"
    using h by (auto simp: close_impl_def bind_eq_Some_conv)
  note q = run_queue_acct[OF e r(1) handle_error_acct(1)[OF a(1)]]
  show ?thesis using invoke_acct[OF e r(2), of "{#}"] q a(3) handle_error_acct(2)[OF a(1)]
    by (simp add: at_rest_def same_frame_def)
qed

lemma run_next_rest:
  assumes e: "handlers_ok e" and a: "at_rest s" and h: "so_run_next e s = Some s'"
  shows "at_rest s'"
proof (cases "so_pending s")
  case Nil
  thus ?thesis using a h by (simp add: so_run_next_def)
next
  case (Cons lt lts)
  let ?s = "s\<lparr>so_pending := lts\<rparr>"
  have r: "so_run e lt ?s = Some s'" using h Cons by (simp add: so_run_next_def)
  have b: "inhand (task_of lt) {#} ?s" "same_frame s ?s" "so_queue ?s = []" "\<not> so_completing ?s"
    using take_acct(3)[OF _ Cons, of "{#}"] a by (simp_all add: at_rest_def same_frame_def)
  have fin: "acct {#} s' \<and> same_frame ?s s' \<Longrightarrow> at_rest s'"
    using frame_rest[OF a] same_frame_trans b(2) by blast
  show ?thesis
  proof (cases lt)
    case (Call t)
    thus ?thesis using r invoke_acct[OF e, of t ?s s' "{#}"] inhand_acct[OF b(1)] fin by simp
  next
    case (Forward_Connect t)
    then obtain as where "connect_impl (se_kernel e) t as ?s = Some s'" using r by (auto split: option.splits)
    thus ?thesis using connect_impl_acct[of t "{#}" ?s] b(1) Forward_Connect fin by simp
  next
    case (Forward_Read t)
    thus ?thesis using r read_impl_acct[of t "{#}" ?s] b(1) fin by auto
  next
    case (Forward_Write t)
    thus ?thesis using r write_impl_acct[of t "{#}" ?s] b(1) fin by simp
  next
    case (Close_Internal t)
    thus ?thesis using r close_impl_rest[OF e, of t ?s] inhand_acct[OF b(1)] b by simp
  qed
qed

section \<open>Runs\<close>

inductive so_step :: "socket_env \<Rightarrow> async_socket \<Rightarrow> async_socket \<Rightarrow> bool" for e where
  so_step_task: "so_run_next e s = Some s' \<Longrightarrow> so_step e s s'"
| so_step_event: "so_armed s \<noteq> None \<Longrightarrow> so_on_event e ev s = Some s' \<Longrightarrow> so_step e s s'"
| so_step_user: "so_api (se_kernel e) s s' \<Longrightarrow> so_step e s s'"

lemma so_step_rest:
  assumes "handlers_ok e" "so_step e s s'" "at_rest s"
  shows "at_rest s'"
  using assms(2)
proof (cases rule: so_step.cases)
  case so_step_task
  show ?thesis by (rule run_next_rest[OF assms(1,3) so_step_task])
next
  case (so_step_event ev)
  let ?s = "s\<lparr>so_armed := None, so_evt := ev\<rparr>"
  have "at_rest ?s" using assms(3) by (simp add: at_rest_def)
  moreover have "so_handle_io_event e ev ?s = Some s' \<or> so_handle_connect_event e ev ?s = Some s'"
    using so_step_event(2) by (simp add: so_on_event_def Let_def split: memfn.splits)
  ultimately show ?thesis using io_event_rest[OF assms(1)] connect_event_rest[OF assms(1)] by blast
next
  case so_step_user
  have "acct {#} s" using assms(3) by (simp add: at_rest_def)
  from api_acct[OF so_step_user this] show ?thesis using frame_rest[OF assms(3)] by blast
qed


text \<open>When the poller refuses the descriptor, \<open>connect_impl\<close> goes on with the task linked: the next
  address, or the loop that is to call it with the error, links it again.\<close>

lemma connect_refused_stays_linked:
  assumes "connect_attempt k t a s = Some (s1, False)" "so_refused s1" "\<not> so_refused s"
  shows "t \<in> set (so_writes s1) \<and> so_twice (link_write_front t s1) \<and> so_twice (so_loop_call t s1)"
proof -
  have r: "so_writes (fst (so_register k ev s2)) = so_writes s2" "so_refused (fst (so_register k ev s2)) = so_refused s2"
    for ev s2 using same_tasks_ops(6)[of s2 k ev] by (simp_all add: same_tasks_def)
  have "t \<in> set (so_writes s1)"
    using assms by (auto simp: connect_attempt_def Let_def bind_eq_Some_conv split_beta so_close_fd_def link_write_front_def
        so_link_def r split: if_splits)
  thus ?thesis by (simp add: link_write_front_def so_loop_call_def so_link_def so_linked_def)
qed

section \<open>What is read\<close>

text \<open>\<open>readv\<close> and \<open>writev\<close> of the manual: no more bytes than asked for, and a failure is -1.\<close>

definition vector_io_ok :: "kernel_calls \<Rightarrow> bool" where
  "vector_io_ok k \<longleftrightarrow>
     (\<forall>h fd caps. let r = k h (Sys_Readv fd caps) in
        -1 \<le> r_ret r \<and> r_ret r \<le> int (sum_list caps) \<and> (0 \<le> r_ret r \<longrightarrow> int (length (r_data r)) = r_ret r)) \<and>
     (\<forall>h fd buf. let r = k h (Sys_Writev fd buf) in -1 \<le> r_ret r \<and> r_ret r \<le> int (length (concat buf))) \<and>
     (\<forall>h c. r_ret (k h c) = -1 \<longrightarrow> r_errno (k h c) \<noteq> 0)"

lemma so_readv_retry_returns:
  assumes q: "quiet_after k m" and v: "vector_io_ok k"
  shows "\<exists>ret bs n'. so_readv_retry k fd caps n = Some (ret, bs, n') \<and> net_in n' = net_in n @ bs \<and>
    int (length bs) = (if ret < 0 then 0 else ret) \<and> ret \<le> int (sum_list caps)"
proof (induction "m - length (net_calls n)" arbitrary: n rule: less_induct)
  case less
  obtain r n1 where s: "sys k (Sys_Readv fd caps) n = (r, n1)" by fastforce
  hence r: "r = k (net_calls n) (Sys_Readv fd caps)" "net_calls n1 = net_calls n @ [Sys_Readv fd caps]"
    "net_in n1 = net_in n" "r_ret r = -1 \<Longrightarrow> net_errno n1 = r_errno r"
    by (auto simp: sys_def Let_def)
  have v: "-1 \<le> r_ret r" "r_ret r \<le> int (sum_list caps)" "0 \<le> r_ret r \<Longrightarrow> int (length (r_data r)) = r_ret r"
    using v r(1) by (auto simp: vector_io_ok_def Let_def)
  show ?case
  proof (cases "r_ret r < 0 \<and> net_errno n1 = EINTR")
    case True
    hence "r_ret r = -1" using v by simp
    hence "length (net_calls n) < m" using q True r(1,4) unfolding quiet_after_def not_le[symmetric] by force
    hence "m - length (net_calls n1) < m - length (net_calls n)" using r(2) by simp
    from less[OF this] obtain ret bs n' where "so_readv_retry k fd caps n1 = Some (ret, bs, n')"
      "net_in n' = net_in n @ bs" "int (length bs) = (if ret < 0 then 0 else ret)" "ret \<le> int (sum_list caps)"
      using r(3) by auto
    thus ?thesis using True s by (subst so_readv_retry.simps) auto
  next
    case False
    hence "so_readv_retry k fd caps n =
        Some (r_ret r, take (nat (r_ret r)) (r_data r), n1\<lparr>net_in := net_in n1 @ take (nat (r_ret r)) (r_data r)\<rparr>)"
      using s by (subst so_readv_retry.simps) (auto simp: Let_def)
    thus ?thesis using r(3) v by auto
  qed
qed

definition read_done :: "nat list \<Rightarrow> async_socket \<Rightarrow> async_socket \<Rightarrow> bool" where
  "read_done ts s s' \<longleftrightarrow>
     so_queue s' = so_queue s @ ts \<and>
     net_in (so_net s') = net_in (so_net s) @ concat (map (\<lambda>t. rq_data (so_req s' t)) ts) \<and>
     (\<forall>t\<in>set ts. rq_bytes (so_req s' t) = int (length (rq_data (so_req s' t))) \<and>
        rq_error (so_req s' t) = rq_error (so_req s t) \<and>
        length (rq_data (so_req s' t)) \<le> sum_list (map length (rq_bufs (so_req s t)))) \<and>
     (\<forall>t. t \<notin> set ts \<longrightarrow> so_req s' t = so_req s t)"

lemma read_loop_done:
  assumes q: "quiet_after k m" and v: "vector_io_ok k"
  shows "distinct ts \<Longrightarrow> so_reads s = ts \<Longrightarrow>
    \<exists>s' ec fin. read_loop k ts s = Some (s', ec) \<and> ts = fin @ so_reads s' \<and> read_done fin s s' \<and>
      (is_error ec \<longrightarrow> so_reads s' \<noteq> [])"
proof (induction ts arbitrary: s)
  case Nil
  thus ?case by (simp add: read_done_def is_error_def no_error_def)
next
  case (Cons t ts)
  obtain ret bs n where r: "so_readv_retry k (so_fd s) (map length (rq_bufs (so_req s t))) (so_net s) = Some (ret, bs, n)"
    "net_in n = net_in (so_net s) @ bs" "int (length bs) = (if ret < 0 then 0 else ret)"
    "ret \<le> int (sum_list (map length (rq_bufs (so_req s t))))"
    using so_readv_retry_returns[OF q v] by blast
  let ?s1 = "s\<lparr>so_net := n\<rparr>"
  show ?case
  proof (cases "ret < 0 \<or> (ret = 0 \<and> ba_size (rq_bufs (so_req s t)) \<noteq> 0)")
    case True
    hence "\<exists>ec. read_loop k (t # ts) s = Some (?s1, ec)" using r(1) by (auto simp: Let_def)
    moreover have "bs = []" using True r(3) by (auto split: if_splits)
    ultimately show ?thesis using Cons.prems r(2) by (auto simp: read_done_def intro!: exI[of _ "[]"])
  next
    case False
    let ?s2 = "set_req t (\<lambda>q. q\<lparr>rq_bytes := ret, rq_data := bs\<rparr>) ?s1"
    let ?s3 = "?s2\<lparr>so_reads := ts, so_queue := so_queue s @ [t]\<rparr>"
    have l: "read_loop k (t # ts) s = read_loop k ts ?s3" using False r(1) by (auto simp: Let_def)
    obtain s' ec fin where f: "read_loop k ts ?s3 = Some (s', ec)" "ts = fin @ so_reads s'"
      "read_done fin ?s3 s'" "is_error ec \<longrightarrow> so_reads s' \<noteq> []"
      using Cons.IH[of ?s3] Cons.prems(1) by auto
    have "t \<notin> set fin" using Cons.prems(1) f(2) by (metis Un_iff distinct.simps(2) set_append)
    hence "so_req s' t = (so_req s t)\<lparr>rq_bytes := ret, rq_data := bs\<rparr>"
      using f(3) by (simp add: read_done_def set_req_def)
    moreover have "int (length bs) = ret" using False r(3) by simp
    ultimately have "read_done (t # fin) s s'"
      using f(3) r(2,4) \<open>t \<notin> set fin\<close> unfolding read_done_def set_req_def
      by (auto split: if_splits)
    thus ?thesis using l f by (intro exI[of _ s'] exI[of _ ec] exI[of _ "t # fin"]) simp
  qed
qed

text \<open>Reads of the asynchronous socket: \<open>handle_readable\<close> returns once signals stop
  interrupting. It completes the first of the waiting read tasks, in the order they were submitted,
  and what it puts into their buffers, one after the other, is what the kernel delivered, no more
  than the buffers hold; when it does not fail, the others keep waiting unchanged.\<close>

theorem socket_reads_in_order:
  assumes "quiet_after k m" "vector_io_ok k" "distinct (so_reads s)"
  shows "\<exists>s' ec fin. read_loop k (so_reads s) s = Some (s', ec) \<and>
    so_handle_readable k s = Some (if is_error ec then so_handle_error k ec s' else s') \<and>
    so_reads s = fin @ so_reads s' \<and> so_queue s' = so_queue s @ fin \<and>
    net_in (so_net s') = net_in (so_net s) @ concat (map (\<lambda>t. rq_data (so_req s' t)) fin) \<and>
    (\<forall>t\<in>set fin. rq_bytes (so_req s' t) = int (length (rq_data (so_req s' t))) \<and>
        length (rq_data (so_req s' t)) \<le> sum_list (map length (rq_bufs (so_req s t)))) \<and>
    (\<forall>t\<in>set (so_reads s'). so_req s' t = so_req s t)"
proof -
  obtain s' ec fin where f: "read_loop k (so_reads s) s = Some (s', ec)" "so_reads s = fin @ so_reads s'"
    "read_done fin s s'"
    using read_loop_done[OF assms(1,2,3) refl] by blast
  have "set fin \<inter> set (so_reads s') = {}" using assms(3) f(2) by (metis distinct_append)
  thus ?thesis using f
    by (intro exI[of _ s'] exI[of _ ec] exI[of _ fin]) (auto simp: read_done_def so_handle_readable_def)
qed

section \<open>What is written\<close>

lemma remain_skip:
  "\<forall>b\<in>set bs. length b = l \<Longrightarrow> 0 < l \<Longrightarrow> w < 2 ^ 63 \<Longrightarrow> length bs + length buf \<le> k_buffer_size \<Longrightarrow>
   concat (remain_loop l bs w buf) = concat buf @ drop w (concat bs)"
proof (induction bs arbitrary: w buf)
  case (Cons b bs)
  have l: "length b = l" using Cons.prems(1) by simp
  show ?case
  proof (cases "l \<le> w")
    case True
    hence "nat (to_u64 (int w - int l)) = w - l" using Cons.prems(3) by (simp add: to_u64_def)
    thus ?thesis using True l Cons.IH[of "w - l" buf] Cons.prems by simp
  next
    case False
    have p: "fst (ba_push_back (drop w b) buf) = buf @ [drop w b]"
      using Cons.prems(4) by (simp add: ba_push_back_def ba_count_def)
    show ?thesis using False l p Cons.IH[of 0 "buf @ [drop w b]"] Cons.prems by simp
  qed
qed simp

text \<open>\<open>write_task::remain_buffers\<close> is the rest of the data when all buffers of the task have
  the same size, in particular when there is one.\<close>

theorem remain_buffers_exact:
  assumes "\<forall>b\<in>set (rq_bufs q). length b = l" "0 < l" "length (rq_bufs q) \<le> k_buffer_size"
    "0 \<le> rq_bytes q" "rq_bytes q < 2 ^ 31"
  shows "concat (remain_buffers q) = drop (nat (rq_bytes q)) (concat (rq_bufs q))"
proof (cases "rq_bufs q")
  case Nil
  thus ?thesis by (simp add: remain_buffers_def ba_new_def)
next
  case (Cons b bs)
  have "to_u64 (rq_bytes q) = rq_bytes q" using assms(4,5) by (simp add: to_u64_def)
  moreover have "nat (rq_bytes q) < 2 ^ 63" using assms(5) by simp
  ultimately show ?thesis
    using remain_skip[of "b # bs" l "nat (rq_bytes q)" ba_new] assms(1-3) Cons
    by (simp add: remain_buffers_def ba_new_def)
qed

lemma remain_buffers_exact_witness:
  "concat (remain_buffers (no_request\<lparr>rq_bufs := [[1, 2], [3, 4]], rq_bytes := 3\<rparr>)) = [4]"
  using remain_buffers_exact[of "no_request\<lparr>rq_bufs := [[1, 2], [3, 4]], rq_bytes := 3\<rparr>" 2]
  by (simp add: k_buffer_size_def)

text \<open>With buffers of different sizes \<open>remain_buffers\<close> loses data: it takes the size of the
  first buffer off for every one it skips. When two buffers are written and the third is no longer
  than the second exceeds the first, nothing remains, and the third is never sent.\<close>

theorem remain_buffers_loses:
  assumes "rq_bufs q = [a, b, c]" "rq_bytes q = int (length a + length b)" "rq_bytes q < 2 ^ 31"
    "length a + length c \<le> length b"
  shows "remain_buffers q = [] \<and> drop (nat (rq_bytes q)) (concat (rq_bufs q)) = c"
proof -
  have n: "nat (to_u64 (rq_bytes q)) = length a + length b" using assms(2,3) by (simp add: to_u64_def)
  have d: "nat (to_u64 (int (length a + length b) - int (length a))) = length b"
    "nat (to_u64 (int (length b) - int (length a))) = length b - length a"
    using assms(2-4) by (simp_all add: to_u64_def)
  have "length c \<le> length b - length a" using assms(4) by simp
  thus ?thesis using assms(1,2) n d by (simp add: remain_buffers_def ba_new_def nat_add_distrib)
qed

lemma remain_buffers_loses_witness:
  "remain_buffers (no_request\<lparr>rq_bufs := [[1], [2, 3, 4], [5, 6]], rq_bytes := 4\<rparr>) = []"
  using remain_buffers_loses[of "no_request\<lparr>rq_bufs := [[1], [2, 3, 4], [5, 6]], rq_bytes := 4\<rparr>" "[1]" "[2, 3, 4]" "[5, 6]"]
  by simp

text \<open>One buffer: what \<open>writev\<close> is given and takes.\<close>

lemma so_writev_retry_result:
  assumes "so_writev_retry k fd buf n = Some (ret, n')" "vector_io_ok k"
  shows "-1 \<le> ret \<and> ret \<le> int (length (concat buf)) \<and>
    net_out n' = net_out n @ take (nat ret) (concat buf) \<and> (ret < 0 \<longrightarrow> net_errno n' \<noteq> 0)"
proof -
  have "vector_io_ok k \<longrightarrow> -1 \<le> fst r \<and> fst r \<le> int (length (concat buf)) \<and>
    net_out (snd r) = net_out n @ take (nat (fst r)) (concat buf) \<and> (fst r < 0 \<longrightarrow> net_errno (snd r) \<noteq> 0)"
    if "so_writev_retry k fd buf n = Some r" for k fd buf n r
  proof (rule so_writev_retry.raw_induct[where P = "\<lambda>k fd buf n r. vector_io_ok k \<longrightarrow>
      -1 \<le> fst r \<and> fst r \<le> int (length (concat buf)) \<and>
      net_out (snd r) = net_out n @ take (nat (fst r)) (concat buf) \<and> (fst r < 0 \<longrightarrow> net_errno (snd r) \<noteq> 0)",
      OF _ that], intro impI)
    fix f :: "kernel_calls \<Rightarrow> int \<Rightarrow> buffer_adapter \<Rightarrow> net \<Rightarrow> (int \<times> net) option" and k fd buf n r
    assume ih: "\<And>k fd buf n r. f k fd buf n = Some r \<Longrightarrow> vector_io_ok k \<longrightarrow>
        -1 \<le> fst r \<and> fst r \<le> int (length (concat buf)) \<and>
        net_out (snd r) = net_out n @ take (nat (fst r)) (concat buf) \<and> (fst r < 0 \<longrightarrow> net_errno (snd r) \<noteq> 0)"
      and r: "(let (r, n1) = sys k (Sys_Writev fd buf) n
      in if r_ret r < 0 \<and> net_errno n1 = EINTR then f k fd buf n1
         else Some (r_ret r, n1\<lparr>net_out := net_out n1 @ take (nat (r_ret r)) (concat buf)\<rparr>)) = Some r"
      and v: "vector_io_ok k"
    obtain q n1 where s: "sys k (Sys_Writev fd buf) n = (q, n1)" by fastforce
    hence q: "q = k (net_calls n) (Sys_Writev fd buf)" "net_out n1 = net_out n" "r_ret q = -1 \<Longrightarrow> net_errno n1 = r_errno q"
      by (auto simp: sys_def Let_def)
    have b: "-1 \<le> r_ret q" "r_ret q \<le> int (length (concat buf))" "r_ret q = -1 \<Longrightarrow> r_errno q \<noteq> 0"
      using v q(1) by (auto simp: vector_io_ok_def Let_def)
    show "-1 \<le> fst r \<and> fst r \<le> int (length (concat buf)) \<and>
        net_out (snd r) = net_out n @ take (nat (fst r)) (concat buf) \<and> (fst r < 0 \<longrightarrow> net_errno (snd r) \<noteq> 0)"
    proof (cases "r_ret q < 0 \<and> net_errno n1 = EINTR")
      case True
      hence "f k fd buf n1 = Some r" using r s by simp
      from ih[OF this] v q(2) show ?thesis by simp
    next
      case False
      hence "r = (r_ret q, n1\<lparr>net_out := net_out n1 @ take (nat (r_ret q)) (concat buf)\<rparr>)"
        using r s by (simp split: if_splits)
      thus ?thesis using q(2,3) b by auto
    qed
  qed
  from this[OF assms(1)] assms(2) show ?thesis by simp
qed

text \<open>The state of a write of one buffer \<open>b\<close>, of which \<open>j\<close> bytes are written.\<close>

definition part_written :: "nat \<Rightarrow> u8 list \<Rightarrow> nat \<Rightarrow> async_socket \<Rightarrow> async_socket \<Rightarrow> bool" where
  "part_written t b j s s' \<longleftrightarrow>
     j \<le> length b \<and> rq_bufs (so_req s' t) = [b] \<and> rq_bytes (so_req s' t) = int j \<and>
     net_out (so_net s') = net_out (so_net s) @ take j b \<and> so_writes s' = so_writes s \<and>
     so_completing s' = so_completing s \<and> so_pending s' = so_pending s"

lemma remain_one:
  assumes "rq_bufs q = [b]" "rq_bytes q = int j" "j < length b" "length b < 2 ^ 31"
  shows "concat (remain_buffers q) = drop j b"
  using remain_buffers_exact[of q "length b"] assms by (cases b) (simp_all add: k_buffer_size_def)

lemma write_tries_one:
  "vector_io_ok k \<Longrightarrow> part_written t b j s0 s \<Longrightarrow> j < length b \<Longrightarrow> length b < 2 ^ 31 \<Longrightarrow>
   \<not> so_completing s \<Longrightarrow> rq_error (so_req s t) = no_error \<Longrightarrow> write_tries i k t s = Some (s', ret) \<Longrightarrow>
   (\<not> ret \<and> (\<exists>j'. j' < length b \<and> part_written t b j' s0 s') \<and> rq_error (so_req s' t) = no_error) \<or>
   (ret \<and> (\<exists>s1 j'. part_written t b j' s0 s1 \<and> so_loop_call t s1 = s' \<and>
      (j' = length b \<or> is_error (rq_error (so_req s1 t)))))"
proof (induction i arbitrary: s j)
  case 0
  thus ?case by auto
next
  case (Suc i)
  obtain r n where w: "so_writev_retry k (so_fd s) (remain_buffers (so_req s t)) (so_net s) = Some (r, n)"
    using Suc.prems(7) by (auto simp: bind_eq_Some_conv)
  have rem: "concat (remain_buffers (so_req s t)) = drop j b"
    using remain_one[of "so_req s t" b j] Suc.prems(2-4) by (simp add: part_written_def)
  note q = so_writev_retry_result[OF w Suc.prems(1), unfolded rem]
  let ?s1 = "s\<lparr>so_net := n\<rparr>"
  show ?case
  proof (cases "r < 0")
    case True
    have p: "part_written t b j s0 ?s1" "part_written t b j s0 (req_error t (so_last_errno ?s1) ?s1)"
      using Suc.prems(2) q True by (auto simp: part_written_def req_error_def set_req_def)
    have "is_error (rq_error (so_req (req_error t (so_last_errno ?s1) ?s1) t))"
      using q True by (simp add: req_error_def set_req_def so_last_errno_def is_error_def platform_error_def)
    moreover have "(if net_errno n = EAGAIN then s' = ?s1 \<and> \<not> ret
        else so_loop_call t (req_error t (so_last_errno ?s1) ?s1) = s' \<and> ret)"
      using Suc.prems(5,7) w True by (auto simp: bind_eq_Some_conv Let_def execute_task_def req_error_def set_req_def)
    ultimately show ?thesis using Suc.prems(3,6) p by (cases "net_errno n = EAGAIN") auto
  next
    case False
    define j2 where "j2 = j + nat r"
    have j2: "j2 \<le> length b" "int j + r = int j2" using q False Suc.prems(3) by (auto simp: j2_def)
    have "rq_bytes (so_req s t) + r = int j2" using Suc.prems(2) j2(2) by (simp add: part_written_def)
    moreover have "to_i32 (int j2) = int j2" using j2(1) Suc.prems(4) by (simp add: to_i32_id)
    moreover have "ba_size (rq_bufs (so_req s t)) = int (length b)"
      using Suc.prems(2,4) by (simp add: part_written_def ba_size_def to_i32_id)
    moreover have "rq_bytes (so_req s t) = int j" using Suc.prems(2) by (simp add: part_written_def)
    moreover note eq = calculation
    let ?s2 = "set_req t (\<lambda>q. q\<lparr>rq_bytes := int j2\<rparr>) ?s1"
    have p2: "part_written t b j2 s0 ?s2"
      using Suc.prems(2) q False j2 by (auto simp: part_written_def set_req_def j2_def take_add)
    show ?thesis
    proof (cases "j2 = length b")
      case True
      hence "so_loop_call t ?s2 = s' \<and> ret"
        using Suc.prems(5,7) w False eq by (auto simp: bind_eq_Some_conv Let_def execute_task_def set_req_def)
      thus ?thesis using p2 True by blast
    next
      case F2: False
      hence "write_tries i k t ?s2 = Some (s', ret)" using Suc.prems(7) w False eq by (simp add: Let_def)
      moreover have "\<not> so_completing ?s2" "rq_error (so_req ?s2 t) = no_error"
        using Suc.prems(5,6) by (simp_all add: set_req_def)
      moreover have "j2 < length b" using j2(1) F2 by simp
      ultimately show ?thesis using Suc.IH[OF Suc.prems(1) p2 _ Suc.prems(4)] by blast
    qed
  qed
qed

text \<open>\<open>write\<close> of one buffer on an open socket that writes nothing else: the bytes that reach
  the connection are the first \<open>j\<close> of the buffer, \<open>j\<close> is what \<open>io_bytes\<close> says, and the task is
  completed with all of them, or completed with an error, or waits with its socket registered for
  writing.\<close>

theorem socket_write_one_buffer:
  assumes k: "vector_io_ok k" and q: "rq_bufs (so_req s t) = [b]" "rq_bytes (so_req s t) = 0"
      "rq_error (so_req s t) = no_error" "b \<noteq> []" "length b < 2 ^ 31"
    and o: "so_fd s \<noteq> INVALID_SOCKET" "so_writes s = []" "\<not> so_completing s"
    and w: "write_impl k t s = Some s'"
  shows "\<exists>j \<le> length b. net_out (so_net s') = net_out (so_net s) @ take j b \<and>
    rq_bytes (so_req s' t) = int j \<and>
    (if t \<in> set (so_writes s') then
       so_writes s' = [t] \<and> j < length b \<and> (\<exists>ev. so_armed s' = Some ev \<and> ev AND EPOLL_OUT \<noteq> 0)
     else so_pending s' = so_pending s @ [Call t] \<and> (j = length b \<or> is_error (rq_error (so_req s' t))))"
proof -
  obtain s1 ret where t: "write_tries write_try_count k t s = Some (s1, ret)"
    using w o by (auto simp: write_impl_def bind_eq_Some_conv)
  have p0: "part_written t b 0 s s" using q(1,2) by (simp add: part_written_def)
  have "0 < length b" using q(4) by simp
  note r = write_tries_one[OF k p0 this q(5) o(3) q(3) t]
  show ?thesis
  proof (cases ret)
    case True
    then obtain s2 j where s2: "part_written t b j s s2" "so_loop_call t s2 = s'"
      "j = length b \<or> is_error (rq_error (so_req s2 t))"
      using r w o t by (auto simp: write_impl_def)
    thus ?thesis using s2 o(2) by (intro exI[of _ j]) (auto simp: part_written_def so_loop_call_def so_link_def)
  next
    case False
    then obtain j where j: "j < length b" "part_written t b j s s1" using r by blast
    have c: "\<not> so_completing s1" "so_writes s1 = []" using j(2) o by (simp_all add: part_written_def)
    let ?ev = "EPOLLONESHOT OR EPOLL_OUT OR (if so_reads s1 \<noteq> [] then EPOLL_IN else 0)"
    obtain s2 ok where g: "so_register k ?ev s1 = (s2, ok)" by fastforce
    obtain n where n: "epoll_register k ?ev (so_fd s1) (so_net s1) = (ok, n)"
      "s2 = (if ok then s1\<lparr>so_evt := ?ev, so_net := n, so_armed := Some ?ev\<rparr> else s1\<lparr>so_evt := ?ev, so_net := n\<rparr>)"
      using g by (auto simp: so_register_def Let_def split: prod.splits if_splits)
    have net: "net_out n = net_out (so_net s1)" "\<not> ok \<Longrightarrow> net_errno n \<noteq> 0"
      using n(1) k by (auto simp: epoll_register_def sys_def Let_def vector_io_ok_def)
    show ?thesis
    proof (cases ok)
      case True
      hence "s' = so_add_active (link_write t s2)" using w o t False c g by (simp add: write_impl_def)
      hence "s' = (so_link t s2)\<lparr>so_writes := [t], so_active := so_active s2 + 1\<rparr>"
        using True n(2) c(2) by (simp add: link_write_def so_link_def so_add_active_def)
      moreover have "?ev AND EPOLL_OUT \<noteq> 0"
        by (simp add: EPOLLONESHOT_def EPOLL_OUT_def EPOLL_IN_def)
      ultimately show ?thesis using True n(2) net j by (intro exI[of _ j]) (auto simp: part_written_def so_link_def)
    next
      case F: False
      hence "s' = so_loop_call t (req_error t (so_last_errno s2) s2)"
        using w o t False c g by (simp add: write_impl_def)
      thus ?thesis using F n(2) net j c(2)
        by (intro exI[of _ j]) (auto simp: part_written_def so_loop_call_def so_link_def req_error_def set_req_def so_last_errno_def
            is_error_def platform_error_def)
    qed
  qed
qed

section \<open>Where the socket departs from its intention\<close>

text \<open>A kernel that takes and gives all, and a user that does nothing when he is called.\<close>

definition whole_kernel :: kernel_calls where
  "whole_kernel h c =
     \<lparr>r_ret = (case c of Sys_Socket f t p \<Rightarrow> 5 | Sys_Writev fd buf \<Rightarrow> int (length (concat buf))
        | Sys_Readv fd caps \<Rightarrow> (if length h = 0 \<and> 2 \<le> sum_list caps then 2 else -1) | _ \<Rightarrow> 0),
      r_errno = EAGAIN, r_data = [8, 9], r_addr = [], r_set = False, r_left = (0, 0)\<rparr>"

definition quiet_env :: socket_env where
  "quiet_env = \<lparr>se_kernel = whole_kernel, se_handler = (\<lambda>t s. Some s)\<rparr>"

lemma whole_kernel_ok: "vector_io_ok whole_kernel" "quiet_after whole_kernel 0"
  by (auto simp: vector_io_ok_def whole_kernel_def quiet_after_def EAGAIN_def EINTR_def Let_def
      split: syscall.splits)

lemma quiet_env_ok: "handlers_ok quiet_env"
  by (simp add: handlers_ok_def quiet_env_def)

text \<open>A write that had to wait ends in a fault: when the socket becomes writable and takes the
  rest of the only waiting write task, \<open>handle_writeable\<close> completes the task and, its inner loop
  not being left, takes the front of the empty queue and uses it.\<close>

theorem waiting_write_faults:
  assumes "so_memfn s = Handle_Io_Event" "so_writes s = [t]" "rq_bufs (so_req s t) = [b]"
    "rq_bytes (so_req s t) = int j" "j < length b" "length b < 2 ^ 31"
    "\<And>h fd buf. r_ret (se_kernel e h (Sys_Writev fd buf)) = int (length (concat buf))"
  shows "so_on_event e EPOLL_OUT s = None"
proof -
  let ?k = "se_kernel e"
  let ?s = "s\<lparr>so_armed := None, so_evt := EPOLL_OUT, so_queue := [], so_completing := True\<rparr>"
  have rem: "concat (remain_buffers (so_req s t)) = drop j b" by (rule remain_one[OF assms(3,4,5,6)])
  have "\<exists>n. so_writev_retry ?k (so_fd s) (remain_buffers (so_req s t)) (so_net s) = Some (int (length b - j), n)"
    using rem assms(5,7) by (subst so_writev_retry.simps) (simp add: sys_def Let_def)
  then obtain n where w: "so_writev_retry ?k (so_fd s) (remain_buffers (so_req s t)) (so_net s) = Some (int (length b - j), n)"
    by blast
  have "to_i32 (int j + int (length b - j)) = ba_size [b]" using assms(5,6) by (simp add: ba_size_def)
  hence "writeable_tries write_try_count ?k ?s = None"
    using assms(2-4) w by (simp add: write_try_count_def numeral_eq_Suc Let_def)
  hence "writeable_loop ?k ?s = None" using assms(2) by (subst writeable_loop.simps) simp
  thus ?thesis using assms(1)
    by (simp add: so_on_event_def so_handle_io_event_def dispatch_event_def so_handle_writeable_def
        EPOLL_OUT_def EPOLL_ERR_def EPOLL_HUP_def EPOLL_IN_def)
qed

lemma waiting_write_faults_witness:
  "so_on_event quiet_env EPOLL_OUT
     ((async_socket_new net_new)\<lparr>so_fd := 5, so_writes := [3],
        so_req := (\<lambda>t. no_request\<lparr>rq_bufs := [[1, 2]], rq_bytes := 1\<rparr>)\<rparr>) = None"
  by (rule waiting_write_faults[where t = 3 and b = "[1, 2]" and j = 1])
    (simp_all add: async_socket_new_def quiet_env_def whole_kernel_def)

text \<open>The addresses of a connect task are tried in the wrong cases. When an attempt fails and
  two or more addresses are left, \<open>address_next\<close> returns false and the task is completed with
  the error, the others not tried. When it was the last address, \<open>connect_impl\<close> is called with no
  address: the error of the attempt is replaced by whatever \<open>errno\<close> holds, the task goes to the
  loop, and the active count of the attempt is never given back.\<close>

theorem connect_failover_inverted:
  assumes "so_memfn s = Handle_Connect_Event" "so_writes s = [t]" "rq_addrs (so_req s t) = Some (a # as)"
  shows "if as \<noteq> [] then
      \<exists>s1. so_on_event e EPOLL_HUP s = se_handler e t s1 \<and> so_called s1 = so_called s @ [t] \<and>
        rq_error (so_req s1 t) = tdk_error Tdk_Epoll_Hang_Up \<and> rq_addrs (so_req s1 t) = Some as
    else
      \<exists>s1. so_on_event e EPOLL_HUP s = Some s1 \<and> so_active s1 = so_active s \<and> so_called s1 = so_called s \<and>
        so_pending s1 = so_pending s @ [Call t] \<and>
        rq_error (so_req s1 t) = platform_error (net_errno (so_net s1))"
proof -
  have "is_error (tdk_error Tdk_Epoll_Hang_Up)" by (simp add: is_error_def tdk_error_def)
  thus ?thesis using assms
    by (auto simp: so_on_event_def so_handle_connect_event_def so_connect_verdict_def EPOLL_HUP_def EPOLL_OUT_def
        EPOLL_ERR_def address_next_def address_is_eof_def so_invoke_def set_req_def req_error_def connect_impl_def
        so_loop_call_def so_link_def so_close_fd_def split_beta Let_def
        so_last_errno_def)
qed

lemma connect_failover_inverted_witness:
  "\<exists>s1. so_on_event quiet_env EPOLL_HUP
       ((async_socket_new net_new)\<lparr>so_fd := 5, so_memfn := Handle_Connect_Event, so_writes := [3], so_active := 1,
          so_req := (\<lambda>t. no_request\<lparr>rq_addrs := Some [address_new]\<rparr>)\<rparr>) = Some s1 \<and>
     so_active s1 = 1 \<and> so_pending s1 = [Call 3]"
  using connect_failover_inverted[of "(async_socket_new net_new)\<lparr>so_fd := 5, so_memfn := Handle_Connect_Event,
      so_writes := [3], so_active := 1, so_req := (\<lambda>t. no_request\<lparr>rq_addrs := Some [address_new]\<rparr>)\<rparr>" 3 address_new "[]" quiet_env]
  by (auto simp: async_socket_new_def)

lemma run_queue_quiet:
  assumes "\<And>t s. se_handler e t s = Some s"
  shows "\<exists>s'. run_queue e s = Some s' \<and> so_active s' = so_active s - int (length (so_queue s))"
proof (induction "so_queue s" arbitrary: s)
  case Nil
  thus ?case by (subst run_queue.simps) simp
next
  case (Cons t ts)
  let ?s = "s\<lparr>so_queue := ts, so_active := so_active s - 1, so_called := so_called s @ [t]\<rparr>"
  obtain s' where "run_queue e ?s = Some s'" "so_active s' = so_active ?s - int (length ts)"
    using Cons.hyps(1)[of ?s] by auto
  thus ?case using Cons.hyps(2)[symmetric] assms
    by (subst run_queue.simps) (simp add: so_invoke_def)
qed

text \<open>A write submitted while another one waits is not counted: \<open>write_impl\<close> queues it without
  \<open>add_active\<close>, but its completion gives one back. With one write waiting and counted, a second
  one and \<open>close\<close> leave the active count of the loop one too small, so that \<open>run()\<close> may stop
  while others still wait.\<close>

theorem second_write_uncounted:
  assumes "so_fd s \<noteq> INVALID_SOCKET" "so_writes s = [t]" "so_reads s = []" "so_queue s = []"
    "t2 \<notin> set (so_linked s)" "\<And>t s. se_handler e t s = Some s"
  shows "\<exists>s1 s2. write_impl (se_kernel e) t2 s = Some s1 \<and> so_writes s1 = [t, t2] \<and> so_active s1 = so_active s \<and>
    close_impl e c s1 = Some s2 \<and> so_active s2 = so_active s - 2"
proof -
  let ?s1 = "s\<lparr>so_writes := [t, t2], so_twice := so_twice s\<rparr>"
  have w: "write_impl (se_kernel e) t2 s = Some ?s1"
    using assms by (simp add: write_impl_def link_write_def so_link_def)
  let ?e = "so_handle_error (se_kernel e) (tdk_error Tdk_User_Abort) (?s1\<lparr>so_queue := []\<rparr>)"
  obtain f where "?e = (so_close_fd (se_kernel e) (?s1\<lparr>so_queue := []\<rparr>))\<lparr>so_req := f, so_queue := [] @ so_reads ?s1 @ so_writes ?s1,
     so_reads := [], so_writes := []\<rparr>"
    using handle_error_eq[of "se_kernel e" "tdk_error Tdk_User_Abort" "?s1\<lparr>so_queue := []\<rparr>"] by auto
  hence "so_queue ?e = [t, t2]" "so_active ?e = so_active s"
    using assms(3) by (simp_all add: so_close_fd_def split_beta Let_def)
  then obtain s' where "run_queue e ?e = Some s'" "so_active s' = so_active s - 2"
    using run_queue_quiet[of e ?e, OF assms(6)] by auto
  hence "close_impl e c ?s1 = Some (s'\<lparr>so_called := so_called s' @ [c]\<rparr>)"
    using assms(6) by (simp add: close_impl_def so_invoke_def)
  thus ?thesis using w \<open>so_active s' = so_active s - 2\<close>
    by (intro exI[of _ ?s1] exI[of _ "s'\<lparr>so_called := so_called s' @ [c]\<rparr>"]) simp
qed

lemma second_write_uncounted_witness:
  "\<exists>s1 s2. write_impl whole_kernel 4 ((async_socket_new net_new)\<lparr>so_fd := 5, so_writes := [3], so_active := 1\<rparr>) = Some s1 \<and>
     close_impl quiet_env 6 s1 = Some s2 \<and> so_active s2 = -1"
  using second_write_uncounted[of "(async_socket_new net_new)\<lparr>so_fd := 5, so_writes := [3], so_active := 1\<rparr>" 3 4 quiet_env 6]
  by (auto simp: async_socket_new_def quiet_env_def INVALID_SOCKET_def so_linked_def)


lemma socket_reads_in_order_witness:
  "\<exists>s' ec fin. so_reads s' = [4] \<and> fin = [3] \<and>
     read_loop whole_kernel [3, 4] ((async_socket_new net_new)\<lparr>so_fd := 5, so_reads := [3, 4],
       so_req := (\<lambda>t. no_request\<lparr>rq_bufs := [[0, 0]]\<rparr>)\<rparr>) = Some (s', ec) \<and> net_in (so_net s') = [8, 9]"
proof -
  let ?s = "(async_socket_new net_new)\<lparr>so_fd := 5, so_reads := [3, 4], so_req := (\<lambda>t. no_request\<lparr>rq_bufs := [[0, 0]]\<rparr>)\<rparr>"
  have "\<exists>s' ec. read_loop whole_kernel [3, 4] ?s = Some (s', ec) \<and> so_reads s' = [4] \<and> rq_data (so_req s' 3) = [8, 9]"
    by (simp add: so_readv_retry.simps sys_def whole_kernel_def async_socket_new_def net_new_def set_req_def
        Let_def EAGAIN_def EINTR_def)
  then obtain s' ec where s': "read_loop whole_kernel [3, 4] ?s = Some (s', ec)" "so_reads s' = [4]"
    "rq_data (so_req s' 3) = [8, 9]" by blast
  have "so_reads ?s = [3, 4]" by simp
  with socket_reads_in_order[OF whole_kernel_ok(2,1), of ?s] s'
  have "\<exists>fin. [3, 4] = fin @ [4] \<and> net_in (so_net s') = net_in (so_net ?s) @ concat (map (\<lambda>t. rq_data (so_req s' t)) fin)"
    by auto
  hence "net_in (so_net s') = [8, 9]" using s'(3) by (auto simp: async_socket_new_def net_new_def append_eq_Cons_conv)
  thus ?thesis using s' by blast
qed

lemma socket_write_one_buffer_witness:
  "\<exists>s' j. write_impl whole_kernel 3 ((async_socket_new net_new)\<lparr>so_fd := 5,
       so_req := (\<lambda>t. no_request\<lparr>rq_bufs := [[1, 2]]\<rparr>)\<rparr>) = Some s' \<and>
     net_out (so_net s') = take j [1, 2] \<and> rq_bytes (so_req s' 3) = int j"
proof -
  let ?s = "(async_socket_new net_new)\<lparr>so_fd := 5, so_req := (\<lambda>t. no_request\<lparr>rq_bufs := [[1, 2]]\<rparr>)\<rparr>"
  have "\<exists>s'. write_impl whole_kernel 3 ?s = Some s'"
    by (simp add: write_impl_def write_try_count_def numeral_eq_Suc async_socket_new_def no_request_def
        remain_buffers_def ba_new_def ba_push_back_def ba_count_def k_buffer_size_def so_writev_retry.simps sys_def
        whole_kernel_def set_req_def Let_def ba_size_def execute_task_def so_loop_call_def so_link_def so_linked_def
        INVALID_SOCKET_def to_u64_def to_i32_def)
  then obtain s' where s': "write_impl whole_kernel 3 ?s = Some s'" by blast
  with socket_write_one_buffer[OF whole_kernel_ok(1) _ _ _ _ _ _ _ _ s', of "[1, 2]"] show ?thesis
    by (auto simp: async_socket_new_def no_request_def INVALID_SOCKET_def net_new_def)
qed

end
