(* ===== verification/Strand.thy ===== *)
theory Strand
  imports Slist
begin

text \<open>
  The serialising queue \<open>taskex::queue\<close> (\<open>src/tdk/task/queue.cpp\<close>). Any thread may dispatch
  an operation; the one that finds the queue idle runs it and everything that was queued
  meanwhile, the others leave theirs in the queue. A block under the lock is one step; a handler
  is running between two steps, so that other threads, and the handler itself, may dispatch.
\<close>

section \<open>State\<close>

text \<open>Where a thread is: outside the queue, before the call of the running operation, in its
  handler, or before \<open>fetch\<close>.\<close>

datatype pc = Outside | At_Call | In_Handler | At_Fetch

text \<open>\<open>sq_submitted\<close> and \<open>sq_called\<close> are the operations in the order they were dispatched
  and called.\<close>

record strand =
  sq_links :: links
  sq_ops :: slist
  sq_running :: "node option"
  sq_pc :: "nat \<Rightarrow> pc"
  sq_submitted :: "node list"
  sq_called :: "node list"

definition queue_new :: strand where
  "queue_new =
     \<lparr>sq_links = (\<lambda>n. None), sq_ops = sl_empty, sq_running = None, sq_pc = (\<lambda>t. Outside),
      sq_submitted = [], sq_called = []\<rparr>"

section \<open>Steps of \<open>execute\<close>\<close>

definition set_pc :: "nat \<Rightarrow> pc \<Rightarrow> strand \<Rightarrow> strand" where
  "set_pc t p s = s\<lparr>sq_pc := (sq_pc s)(t := p)\<rparr>"

text \<open>The first block: queue the operation, or take the queue and go on to the calls.\<close>

definition execute_enter :: "nat \<Rightarrow> node \<Rightarrow> strand \<Rightarrow> strand option" where
  "execute_enter t op s0 =
     (let s = s0\<lparr>sq_submitted := sq_submitted s0 @ [op]\<rparr>
      in if sq_running s \<noteq> None then
           (case sl_add_tail (sq_links s) (sq_ops s) op of
              None \<Rightarrow> None
            | Some (nx, q) \<Rightarrow> Some (s\<lparr>sq_links := nx, sq_ops := q\<rparr>))
         else Some (set_pc t At_Call (s\<lparr>sq_running := Some op\<rparr>)))"

text \<open>\<open>(*_running)()\<close>: the call begins, and its handler returns.\<close>

definition call_running :: "nat \<Rightarrow> strand \<Rightarrow> strand option" where
  "call_running t s =
     (case sq_running s of
        None \<Rightarrow> None
      | Some op \<Rightarrow> Some (set_pc t In_Handler (s\<lparr>sq_called := sq_called s @ [op]\<rparr>)))"

definition handler_returns :: "nat \<Rightarrow> strand \<Rightarrow> strand" where
  "handler_returns t s = set_pc t At_Fetch s"

definition fetch :: "strand \<Rightarrow> (strand \<times> bool) option" where
  "fetch s =
     (if \<not> sl_is_empty (sq_ops s) then
        (case sl_front (sq_ops s) of
           None \<Rightarrow> None
         | Some op \<Rightarrow>
             (case sl_pop_front (sq_links s) (sq_ops s) of
                (nx, q) \<Rightarrow> Some (s\<lparr>sq_links := nx, sq_ops := q, sq_running := Some op\<rparr>, True)))
      else Some (s\<lparr>sq_running := None\<rparr>, False))"

text \<open>\<open>while ( fetch() )\<close>\<close>

definition fetch_step :: "nat \<Rightarrow> strand \<Rightarrow> strand option" where
  "fetch_step t s =
     (case fetch s of
        None \<Rightarrow> None
      | Some (s', again) \<Rightarrow> Some (set_pc t (if again then At_Call else Outside) s'))"

text \<open>What the thread \<open>t\<close> does next on its own.\<close>

definition thread_next :: "nat \<Rightarrow> strand \<Rightarrow> strand option" where
  "thread_next t s =
     (case sq_pc s t of
        Outside \<Rightarrow> Some s
      | At_Call \<Rightarrow> call_running t s
      | In_Handler \<Rightarrow> Some (handler_returns t s)
      | At_Fetch \<Rightarrow> fetch_step t s)"

fun thread_runs :: "nat \<Rightarrow> nat \<Rightarrow> strand \<Rightarrow> strand option" where
  "thread_runs t 0 s = Some s"
| "thread_runs t (Suc n) s =
     (case thread_next t s of None \<Rightarrow> None | Some s' \<Rightarrow> thread_runs t n s')"

section \<open>Operations\<close>

text \<open>An operation without a queue calls its handler at once, if it has one.\<close>

record 's operation =
  op_queue :: bool
  op_handler :: "('s \<Rightarrow> 's) option"

definition operation_new :: "bool \<Rightarrow> 's operation" where
  "operation_new q = \<lparr>op_queue = q, op_handler = None\<rparr>"

definition op_set_handler :: "('s \<Rightarrow> 's) option \<Rightarrow> 's operation \<Rightarrow> 's operation" where
  "op_set_handler h p = p\<lparr>op_handler := h\<rparr>"

definition op_call :: "'s operation \<Rightarrow> 's \<Rightarrow> 's" where
  "op_call p st = (case op_handler p of None \<Rightarrow> st | Some h \<Rightarrow> h st)"

definition op_dispatch :: "('s \<Rightarrow> 's) \<Rightarrow> 's operation \<Rightarrow> 's \<Rightarrow> 's" where
  "op_dispatch execute p st = (if op_queue p then execute st else op_call p st)"

section \<open>Interleavings\<close>

text \<open>A thread outside the queue, or inside a handler, dispatches an operation that is not in
  the queue and whose link is clear.\<close>

inductive strand_step :: "strand \<Rightarrow> strand \<Rightarrow> bool" where
  dispatch: "sq_pc s t \<in> {Outside, In_Handler} \<Longrightarrow> sq_links s op = None \<Longrightarrow> sl_tail (sq_ops s) \<noteq> Some op \<Longrightarrow>
     execute_enter t op s = Some s' \<Longrightarrow> strand_step s s'"
| go_on: "sq_pc s t \<noteq> Outside \<Longrightarrow> thread_next t s = Some s' \<Longrightarrow> strand_step s s'"

abbreviation strand_steps :: "strand \<Rightarrow> strand \<Rightarrow> bool" where
  "strand_steps \<equiv> strand_step\<^sup>*\<^sup>*"

text \<open>\<open>xs\<close> are the operations in the queue, \<open>r\<close> the thread that runs them.\<close>

definition strand_inv :: "nat option \<Rightarrow> node list \<Rightarrow> strand \<Rightarrow> bool" where
  "strand_inv r xs s \<longleftrightarrow>
     slist_rep (sq_links s) (sq_ops s) xs \<and>
     (\<forall>t. sq_pc s t \<noteq> Outside \<longleftrightarrow> r = Some t) \<and>
     (sq_running s = None \<longleftrightarrow> r = None) \<and> (r = None \<longrightarrow> xs = []) \<and>
     sq_submitted s =
       sq_called s @ (case r of Some t \<Rightarrow> if sq_pc s t = At_Call then [the (sq_running s)] else [] | None \<Rightarrow> []) @ xs"

lemma strand_inv_new: "strand_inv None [] queue_new"
  by (simp add: strand_inv_def queue_new_def)

text \<open>A node whose link is clear and that is not the last is not in the queue.\<close>

lemma rep_not_in:
  assumes "slist_rep nx q xs" "nx op = None" "sl_tail q \<noteq> Some op"
  shows "op \<notin> set xs"
proof
  assume "op \<in> set xs"
  then obtain ys zs where x: "xs = ys @ op # zs" by (auto simp: in_set_conv_decomp)
  have "chain nx (vs @ op # zs) \<Longrightarrow> chain nx (op # zs)" for vs
    by (induction vs) (simp_all add: chain_Cons)
  hence "chain nx (op # zs)" using assms(1) x by (auto simp only: slist_rep_def)
  hence "zs = []" using assms(2) by (cases zs) auto
  thus False using assms(1,3) x by (simp add: slist_rep_def)
qed

lemma execute_enter_inv:
  assumes "strand_inv r xs s" "sq_pc s t \<in> {Outside, In_Handler}" "sq_links s op = None"
    "sl_tail (sq_ops s) \<noteq> Some op"
  shows "\<exists>s' r' xs'. execute_enter t op s = Some s' \<and> strand_inv r' xs' s'"
proof (cases r)
  case None
  hence "execute_enter t op s = Some (set_pc t At_Call (s\<lparr>sq_submitted := sq_submitted s @ [op], sq_running := Some op\<rparr>))"
    using assms(1) by (simp add: execute_enter_def strand_inv_def)
  moreover have "strand_inv (Some t) [] (set_pc t At_Call (s\<lparr>sq_submitted := sq_submitted s @ [op], sq_running := Some op\<rparr>))"
    using assms(1) None by (auto simp: strand_inv_def set_pc_def)
  ultimately show ?thesis by blast
next
  case (Some u)
  obtain nx q where a: "sl_add_tail (sq_links s) (sq_ops s) op = Some (nx, q)" "slist_rep nx q (xs @ [op])"
    using rep_add_tail[of "sq_links s" "sq_ops s" xs op] rep_not_in[of "sq_links s" "sq_ops s" xs op] assms
    by (auto simp: strand_inv_def)
  hence "execute_enter t op s = Some (s\<lparr>sq_submitted := sq_submitted s @ [op], sq_links := nx, sq_ops := q\<rparr>)"
    using assms(1) Some by (auto simp: execute_enter_def strand_inv_def)
  moreover have "strand_inv (Some u) (xs @ [op]) (s\<lparr>sq_submitted := sq_submitted s @ [op], sq_links := nx, sq_ops := q\<rparr>)"
    using assms(1) Some a(2) by (auto simp: strand_inv_def)
  ultimately show ?thesis by blast
qed

text \<open>How much the running thread still has to do.\<close>

definition strand_work :: "node list \<Rightarrow> pc \<Rightarrow> nat" where
  "strand_work xs p =
     (case p of Outside \<Rightarrow> 0 | At_Call \<Rightarrow> 3 * length xs + 3 | In_Handler \<Rightarrow> 3 * length xs + 2 | At_Fetch \<Rightarrow> 3 * length xs + 1)"

lemma thread_next_inv:
  assumes "strand_inv r xs s" "sq_pc s t \<noteq> Outside"
  shows "\<exists>s' r' xs'. thread_next t s = Some s' \<and> strand_inv r' xs' s' \<and> (r' = Some t \<or> r' = None) \<and>
    sq_submitted s' = sq_submitted s \<and> Suc (strand_work xs' (sq_pc s' t)) = strand_work xs (sq_pc s t)"
proof -
  have r: "r = Some t" using assms by (auto simp: strand_inv_def)
  then obtain op where op: "sq_running s = Some op" using assms by (auto simp: strand_inv_def)
  show ?thesis
  proof (cases "sq_pc s t")
    case Outside
    thus ?thesis using assms(2) by simp
  next
    case At_Call
    thus ?thesis using assms r op
      by (intro exI[of _ "set_pc t In_Handler (s\<lparr>sq_called := sq_called s @ [op]\<rparr>)"] exI[of _ "Some t"] exI[of _ xs])
        (auto simp: thread_next_def call_running_def strand_inv_def set_pc_def strand_work_def)
  next
    case In_Handler
    thus ?thesis using assms r
      by (intro exI[of _ "handler_returns t s"] exI[of _ "Some t"] exI[of _ xs])
        (auto simp: thread_next_def handler_returns_def strand_inv_def set_pc_def strand_work_def)
  next
    case At_Fetch
    show ?thesis
    proof (cases xs)
      case Nil
      thus ?thesis using assms r At_Fetch
        by (intro exI[of _ "set_pc t Outside (s\<lparr>sq_running := None\<rparr>)"] exI[of _ None] exI[of _ "[]"])
          (auto simp: thread_next_def fetch_step_def fetch_def strand_inv_def set_pc_def strand_work_def rep_is_empty)
    next
      case (Cons x ys)
      have rep: "slist_rep (sq_links s) (sq_ops s) (x # ys)" using assms(1) Cons by (simp add: strand_inv_def)
      obtain nx q where p: "sl_pop_front (sq_links s) (sq_ops s) = (nx, q)" "slist_rep nx q ys"
        using rep_pop[OF rep] by blast
      have "thread_next t s = Some (set_pc t At_Call (s\<lparr>sq_links := nx, sq_ops := q, sq_running := Some x\<rparr>))"
        using At_Fetch rep_is_empty[OF rep] rep_front[OF rep] p(1)
        by (simp add: thread_next_def fetch_step_def fetch_def)
      moreover have "strand_inv (Some t) ys (set_pc t At_Call (s\<lparr>sq_links := nx, sq_ops := q, sq_running := Some x\<rparr>))"
        using assms r Cons At_Fetch p(2) by (auto simp: strand_inv_def set_pc_def)
      ultimately show ?thesis using Cons At_Fetch
        by (intro exI[of _ "set_pc t At_Call (s\<lparr>sq_links := nx, sq_ops := q, sq_running := Some x\<rparr>)"] exI[of _ "Some t"] exI[of _ ys])
          (auto simp: set_pc_def strand_work_def)
    qed
  qed
qed

lemma strand_reachable_inv: "strand_steps queue_new s \<Longrightarrow> \<exists>r xs. strand_inv r xs s"
proof (induction rule: rtranclp_induct)
  case base
  thus ?case using strand_inv_new by blast
next
  case (step s s')
  then obtain r xs where i: "strand_inv r xs s" by blast
  from step.hyps(2) show ?case
  proof cases
    case (dispatch t op)
    thus ?thesis using execute_enter_inv[OF i, of t op] by auto
  next
    case (go_on t)
    thus ?thesis using thread_next_inv[OF i, of t] by auto
  qed
qed

lemma thread_runs_inv:
  "strand_inv r xs s \<Longrightarrow> r = Some t \<or> r = None \<Longrightarrow>
   \<exists>s'. thread_runs t (strand_work xs (sq_pc s t)) s = Some s' \<and> strand_inv None [] s' \<and> sq_submitted s' = sq_submitted s"
proof (induction "strand_work xs (sq_pc s t)" arbitrary: r xs s)
  case 0
  hence "sq_pc s t = Outside" by (auto simp: strand_work_def split: pc.splits)
  hence "r = None" "xs = []" using 0 by (auto simp: strand_inv_def)
  thus ?case using 0 by auto
next
  case (Suc n)
  hence "sq_pc s t \<noteq> Outside" by (auto simp: strand_work_def)
  then obtain s1 r1 xs1 where s1: "thread_next t s = Some s1" "strand_inv r1 xs1 s1" "r1 = Some t \<or> r1 = None"
    "sq_submitted s1 = sq_submitted s" "Suc (strand_work xs1 (sq_pc s1 t)) = strand_work xs (sq_pc s t)"
    using thread_next_inv[OF Suc.prems(1)] by blast
  have "n = strand_work xs1 (sq_pc s1 t)" using s1(5) Suc.hyps(2) by simp
  thus ?case using Suc.hyps(1)[OF _ s1(2,3)] s1(1,4,5) Suc.hyps(2) by (metis option.simps(5) thread_runs.simps(2))
qed

text \<open>C21. The serialising queue under every interleaving of the threads: no null pointer is
  followed, at most one thread runs operations, the operations are called in the order of their
  dispatch and none twice, and when no thread is in the queue all of them have been called.\<close>

theorem strand_serial:
  assumes "strand_steps queue_new s"
  shows "(\<forall>t u. sq_pc s t \<noteq> Outside \<and> sq_pc s u \<noteq> Outside \<longrightarrow> t = u) \<and>
    (\<exists>rest. sq_submitted s = sq_called s @ rest \<and> ((\<forall>t. sq_pc s t = Outside) \<longrightarrow> rest = [])) \<and>
    (\<forall>t op. sq_pc s t \<in> {Outside, In_Handler} \<and> sq_links s op = None \<and> sl_tail (sq_ops s) \<noteq> Some op \<longrightarrow>
       execute_enter t op s \<noteq> None) \<and>
    (\<forall>t. thread_next t s \<noteq> None)"
proof -
  obtain r xs where i: "strand_inv r xs s" using strand_reachable_inv[OF assms] by blast
  have "t = u" if "sq_pc s t \<noteq> Outside \<and> sq_pc s u \<noteq> Outside" for t u
    using that i by (auto simp: strand_inv_def)
  moreover have "\<exists>rest. sq_submitted s = sq_called s @ rest \<and> ((\<forall>t. sq_pc s t = Outside) \<longrightarrow> rest = [])"
    using i by (cases r) (auto simp: strand_inv_def)
  moreover have "execute_enter t op s \<noteq> None"
    if "sq_pc s t \<in> {Outside, In_Handler} \<and> sq_links s op = None \<and> sl_tail (sq_ops s) \<noteq> Some op" for t op
    using execute_enter_inv[OF i, of t op] that by auto
  moreover have "thread_next t s \<noteq> None" for t
    using thread_next_inv[OF i, of t] by (cases "sq_pc s t = Outside") (auto simp: thread_next_def)
  ultimately show ?thesis by blast
qed

text \<open>The serialising queue gets done: from every reachable state, the thread that runs the
  operations, going on by itself, has called all that were dispatched and left the queue after at
  most three steps for each of them.\<close>

theorem strand_drains:
  assumes "strand_steps queue_new s" "sq_pc s t \<noteq> Outside"
  shows "\<exists>n s'. n \<le> 3 * Suc (length (sq_submitted s) - length (sq_called s)) \<and> thread_runs t n s = Some s' \<and>
    sq_called s' = sq_submitted s \<and> sq_running s' = None \<and> (\<forall>u. sq_pc s' u = Outside)"
proof -
  obtain r xs where i: "strand_inv r xs s" using strand_reachable_inv[OF assms(1)] by blast
  have r: "r = Some t" using i assms(2) by (auto simp: strand_inv_def)
  obtain s' where s': "thread_runs t (strand_work xs (sq_pc s t)) s = Some s'" "strand_inv None [] s'"
    "sq_submitted s' = sq_submitted s"
    using thread_runs_inv[OF i, of t] r by blast
  have "length xs \<le> length (sq_submitted s) - length (sq_called s)" using i r by (simp add: strand_inv_def)
  hence "strand_work xs (sq_pc s t) \<le> 3 * Suc (length (sq_submitted s) - length (sq_called s))"
    by (auto simp: strand_work_def split: pc.splits)
  thus ?thesis using s' by (auto simp: strand_inv_def)
qed

lemma strand_reaches:
  "strand_steps queue_new (set_pc 1 At_Call (queue_new\<lparr>sq_submitted := [7], sq_running := Some 7\<rparr>))"
  by (rule r_into_rtranclp, rule strand_step.dispatch[where t = 1 and op = 7])
    (simp_all add: queue_new_def execute_enter_def sl_empty_def set_pc_def)

lemma strand_serial_witness:
  "thread_next 1 (set_pc 1 At_Call (queue_new\<lparr>sq_submitted := [7], sq_running := Some 7\<rparr>)) \<noteq> None"
  using strand_serial[OF strand_reaches] by blast

lemma strand_drains_witness:
  "\<exists>n s'. n \<le> 6 \<and> thread_runs 1 n (set_pc 1 At_Call (queue_new\<lparr>sq_submitted := [7], sq_running := Some 7\<rparr>)) = Some s' \<and>
     sq_called s' = [7]"
  using strand_drains[OF strand_reaches, of 1] by (auto simp: queue_new_def set_pc_def)

end
