(* ===== verification/Handler.thy ===== *)
theory Handler
  imports Prelude "HOL-Library.Monad_Syntax"
begin

text \<open>
  The handlers of tasks (\<open>task/handler.hpp\<close>, \<open>taskex::handler\<close>): a callable of any type, in a
  buffer of the handler when it fits and on the heap when it does not. The templates are written
  once for all types: a wrapper is a callable, named by a number, and the size of its wrapper
  object. Reading or freeing memory that holds no object, and a call of an empty handler, have no
  result (\<open>None\<close>); \<open>malloc\<close> does not fail.
\<close>

section \<open>Wrappers\<close>

record wrapper =
  w_function :: nat
  w_size :: nat

datatype place = In_Local_Buffer | Allocated nat

text \<open>\<open>cw_local\<close> is the object in \<open>_local_buffer\<close>, \<open>cw_ptr\<close> is \<open>_call_wrapper\<close>.\<close>

record handler =
  cw_local :: "wrapper option"
  cw_ptr :: "place option"

record wrapper_heap =
  wh_block :: "nat \<Rightarrow> wrapper option"
  wh_next :: nat

definition LOCAL_BUFFER_SIZE :: nat where
  "LOCAL_BUFFER_SIZE = 16"

definition handler_new :: handler where
  "handler_new = \<lparr>cw_local = None, cw_ptr = None\<rparr>"

text \<open>\<open>call_wrapper::bind\<close> into the buffer of the handler, or a new block.\<close>

definition wrapper_bind :: "wrapper \<Rightarrow> handler \<Rightarrow> wrapper_heap \<Rightarrow> handler \<times> wrapper_heap" where
  "wrapper_bind w h m =
     (if LOCAL_BUFFER_SIZE < w_size w then
        (h\<lparr>cw_ptr := Some (Allocated (wh_next m))\<rparr>,
         m\<lparr>wh_block := (wh_block m)(wh_next m := Some w), wh_next := Suc (wh_next m)\<rparr>)
      else (h\<lparr>cw_local := Some w, cw_ptr := Some In_Local_Buffer\<rparr>, m))"

text \<open>The object that \<open>_call_wrapper\<close> points to.\<close>

definition wrapper_at :: "place \<Rightarrow> handler \<Rightarrow> wrapper_heap \<Rightarrow> wrapper option" where
  "wrapper_at p h m = (case p of In_Local_Buffer \<Rightarrow> cw_local h | Allocated n \<Rightarrow> wh_block m n)"

text \<open>\<open>handler::copy\<close> of \<open>rhs\<close> into \<open>h\<close>; the virtual \<open>copy\<close> of the wrapper decides between buffer
  and heap as \<open>bind\<close> does.\<close>

definition handler_copy_into :: "handler \<Rightarrow> handler \<Rightarrow> wrapper_heap \<Rightarrow> (handler \<times> wrapper_heap) option" where
  "handler_copy_into rhs h m =
     (case cw_ptr rhs of
        None \<Rightarrow> Some (h\<lparr>cw_ptr := None\<rparr>, m)
      | Some p \<Rightarrow> do { w \<leftarrow> wrapper_at p rhs m; Some (wrapper_bind w h m) })"

section \<open>Handlers\<close>

definition handler_of :: "wrapper \<Rightarrow> wrapper_heap \<Rightarrow> handler \<times> wrapper_heap" where
  "handler_of w m = wrapper_bind w handler_new m"

definition handler_copy :: "handler \<Rightarrow> wrapper_heap \<Rightarrow> (handler \<times> wrapper_heap) option" where
  "handler_copy rhs m = handler_copy_into rhs handler_new m"

definition is_allocated :: "place \<Rightarrow> bool" where
  "is_allocated p \<longleftrightarrow> p \<noteq> In_Local_Buffer"

definition clean_up :: "handler \<Rightarrow> wrapper_heap \<Rightarrow> (handler \<times> wrapper_heap) option" where
  "clean_up h m =
     (case cw_ptr h of
        None \<Rightarrow> Some (h, m)
      | Some p \<Rightarrow> do {
          w \<leftarrow> wrapper_at p h m;
          Some (if is_allocated p then
                  (h\<lparr>cw_ptr := None\<rparr>,
                   m\<lparr>wh_block := (case p of Allocated n \<Rightarrow> (wh_block m)(n := None) | In_Local_Buffer \<Rightarrow> wh_block m)\<rparr>)
                else (h\<lparr>cw_local := None, cw_ptr := None\<rparr>, m))
        })"

text \<open>\<open>operator=\<close>: through a copy of the right-hand side, which is destroyed at the end.\<close>

definition handler_assign :: "handler \<Rightarrow> handler \<Rightarrow> wrapper_heap \<Rightarrow> (handler \<times> wrapper_heap) option" where
  "handler_assign h rhs m = do {
     (t, m1) \<leftarrow> handler_copy rhs m;
     (h1, m2) \<leftarrow> clean_up h m1;
     (h2, m3) \<leftarrow> handler_copy_into t h1 m2;
     (t1, m4) \<leftarrow> clean_up t m3;
     Some (h2, m4)
   }"

definition handler_assign_function :: "handler \<Rightarrow> wrapper \<Rightarrow> wrapper_heap \<Rightarrow> (handler \<times> wrapper_heap) option" where
  "handler_assign_function h w m = do { (h1, m1) \<leftarrow> clean_up h m; Some (wrapper_bind w h1 m1) }"

definition is_good :: "handler \<Rightarrow> bool" where
  "is_good h \<longleftrightarrow> cw_ptr h \<noteq> None"

definition handler_call :: "handler \<Rightarrow> wrapper_heap \<Rightarrow> nat option" where
  "handler_call h m = do { p \<leftarrow> cw_ptr h; w \<leftarrow> wrapper_at p h m; Some (w_function w) }"

section \<open>Programs over handlers\<close>

text \<open>Handlers are numbered; \<open>hw_called\<close> is the functions called.\<close>

datatype handler_op =
  Make nat
| Make_Of nat wrapper
| Make_Copy nat nat
| Assign nat nat
| Assign_Function nat wrapper
| Call_Handler nat
| Destroy nat

record handler_world =
  hw_handlers :: "nat \<Rightarrow> handler option"
  hw_heap :: wrapper_heap
  hw_called :: "nat list"

definition put_handler :: "nat \<Rightarrow> handler \<times> wrapper_heap \<Rightarrow> handler_world \<Rightarrow> handler_world" where
  "put_handler n hm s = s\<lparr>hw_handlers := (hw_handlers s)(n := Some (fst hm)), hw_heap := snd hm\<rparr>"

fun handler_step :: "handler_op \<Rightarrow> handler_world \<Rightarrow> handler_world option" where
  "handler_step (Make n) s = Some (put_handler n (handler_new, hw_heap s) s)"
| "handler_step (Make_Of n w) s = Some (put_handler n (handler_of w (hw_heap s)) s)"
| "handler_step (Make_Copy n m) s = do {
     r \<leftarrow> hw_handlers s m;
     hm \<leftarrow> handler_copy r (hw_heap s);
     Some (put_handler n hm s) }"
| "handler_step (Assign n m) s = do {
     h \<leftarrow> hw_handlers s n; r \<leftarrow> hw_handlers s m;
     hm \<leftarrow> handler_assign h r (hw_heap s);
     Some (put_handler n hm s) }"
| "handler_step (Assign_Function n w) s = do {
     h \<leftarrow> hw_handlers s n;
     hm \<leftarrow> handler_assign_function h w (hw_heap s);
     Some (put_handler n hm s) }"
| "handler_step (Call_Handler n) s = do {
     h \<leftarrow> hw_handlers s n;
     f \<leftarrow> handler_call h (hw_heap s);
     Some (s\<lparr>hw_called := hw_called s @ [f]\<rparr>) }"
| "handler_step (Destroy n) s = do {
     h \<leftarrow> hw_handlers s n;
     hm \<leftarrow> clean_up h (hw_heap s);
     Some (s\<lparr>hw_handlers := (hw_handlers s)(n := None), hw_heap := snd hm\<rparr>) }"

fun handler_run :: "handler_op list \<Rightarrow> handler_world \<Rightarrow> handler_world option" where
  "handler_run [] s = Some s"
| "handler_run (a # as) s = do { s1 \<leftarrow> handler_step a s; handler_run as s1 }"

definition world_new :: handler_world where
  "world_new = \<lparr>hw_handlers = (\<lambda>n. None), hw_heap = \<lparr>wh_block = (\<lambda>n. None), wh_next = 0\<rparr>, hw_called = []\<rparr>"

section \<open>What handlers promise\<close>

text \<open>A handler is a variable that holds a callable or none. A program is in order when it makes a
  variable that does not exist, uses ones that exist, and calls none that is empty.\<close>

type_synonym vars = "nat \<Rightarrow> wrapper option option"

fun spec_step :: "handler_op \<Rightarrow> vars \<times> nat list \<Rightarrow> (vars \<times> nat list) option" where
  "spec_step (Make n) (v, c) = (if v n = None then Some (v(n := Some None), c) else None)"
| "spec_step (Make_Of n w) (v, c) = (if v n = None then Some (v(n := Some (Some w)), c) else None)"
| "spec_step (Make_Copy n m) (v, c) =
     (case v m of None \<Rightarrow> None | Some x \<Rightarrow> if v n = None then Some (v(n := Some x), c) else None)"
| "spec_step (Assign n m) (v, c) =
     (case v m of None \<Rightarrow> None | Some x \<Rightarrow> if v n = None then None else Some (v(n := Some x), c))"
| "spec_step (Assign_Function n w) (v, c) =
     (if v n = None then None else Some (v(n := Some (Some w)), c))"
| "spec_step (Call_Handler n) (v, c) =
     (case v n of Some (Some w) \<Rightarrow> Some (v, c @ [w_function w]) | _ \<Rightarrow> None)"
| "spec_step (Destroy n) (v, c) = (if v n = None then None else Some (v(n := None), c))"

fun spec_run :: "handler_op list \<Rightarrow> vars \<times> nat list \<Rightarrow> (vars \<times> nat list) option" where
  "spec_run [] s = Some s"
| "spec_run (a # as) s = do { s1 \<leftarrow> spec_step a s; spec_run as s1 }"

text \<open>One handler with its heap stands for a value: an empty one for none, one whose pointer is
  its buffer for the object there, one with a block for the object in the block.\<close>

definition holds :: "handler \<Rightarrow> wrapper_heap \<Rightarrow> wrapper option \<Rightarrow> bool" where
  "holds h m x \<longleftrightarrow>
     (case cw_ptr h of
        None \<Rightarrow> x = None \<and> cw_local h = None
      | Some In_Local_Buffer \<Rightarrow> x \<noteq> None \<and> cw_local h = x
      | Some (Allocated n) \<Rightarrow> x \<noteq> None \<and> wh_block m n = x \<and> cw_local h = None)"

definition block_of :: "handler \<Rightarrow> nat option" where
  "block_of h = (case cw_ptr h of Some (Allocated n) \<Rightarrow> Some n | _ \<Rightarrow> None)"

text \<open>The world: every variable has a handler that holds its value, no two handlers share a block,
  and every block that holds an object belongs to a handler.\<close>

definition world_ok :: "vars \<Rightarrow> handler_world \<Rightarrow> bool" where
  "world_ok v s \<longleftrightarrow>
     (\<forall>n. case hw_handlers s n of None \<Rightarrow> v n = None | Some h \<Rightarrow> \<exists>x. v n = Some x \<and> holds h (hw_heap s) x) \<and>
     (\<forall>n n' h h' b. hw_handlers s n = Some h \<longrightarrow> hw_handlers s n' = Some h' \<longrightarrow> block_of h = Some b \<longrightarrow>
        block_of h' = Some b \<longrightarrow> n = n') \<and>
     (\<forall>b. wh_block (hw_heap s) b \<noteq> None \<longrightarrow> b < wh_next (hw_heap s) \<and>
        (\<exists>n h. hw_handlers s n = Some h \<and> block_of h = Some b))"

section \<open>Ownership of blocks\<close>

definition owned :: "handler \<Rightarrow> nat set" where
  "owned h = set_option (block_of h)"

abbreviation live :: "wrapper_heap \<Rightarrow> nat set" where
  "live m \<equiv> {b. wh_block m b \<noteq> None}"

definition bounded :: "wrapper_heap \<Rightarrow> bool" where
  "bounded m \<longleftrightarrow> (\<forall>b\<in>live m. b < wh_next m)"

text \<open>An operation that turns \<open>h\<close> into \<open>h'\<close> gives up the block of \<open>h\<close>, takes none of another
  handler, and leaves the others as they are.\<close>

definition change :: "handler \<Rightarrow> wrapper_heap \<Rightarrow> handler \<Rightarrow> wrapper_heap \<Rightarrow> bool" where
  "change h m h' m' \<longleftrightarrow>
     (\<forall>b\<in>live m - owned h. wh_block m' b = wh_block m b) \<and>
     live m' = (live m - owned h) \<union> owned h' \<and> owned h' \<inter> (live m - owned h) = {} \<and> bounded m'"

lemma owned_new [simp]: "owned handler_new = {}"
  by (simp add: owned_def block_of_def handler_new_def)

lemma block_of_new [simp]: "block_of handler_new = None"
  by (simp add: block_of_def handler_new_def)

lemma holds_new [simp]: "holds handler_new m None"
  by (simp add: holds_def handler_new_def)

lemma holds_owned: "holds h m x \<Longrightarrow> owned h \<subseteq> live m"
  by (auto simp: holds_def owned_def block_of_def split: option.splits place.splits)

lemma holds_frame: "holds h m x \<Longrightarrow> (\<And>b. b \<in> owned h \<Longrightarrow> wh_block m' b = wh_block m b) \<Longrightarrow> holds h m' x"
  by (auto simp: holds_def owned_def block_of_def split: option.splits place.splits)

lemma holds_null: "holds h m None \<Longrightarrow> h = handler_new"
  by (cases h) (auto simp: holds_def handler_new_def split: option.splits place.splits)

lemma holds_at: "holds h m (Some w) \<Longrightarrow> \<exists>p. cw_ptr h = Some p \<and> wrapper_at p h m = Some w"
  by (auto simp: holds_def wrapper_at_def split: option.splits place.splits)

lemma bind_change:
  assumes "bounded m" "wrapper_bind w handler_new m = (h', m')"
  shows "holds h' m' (Some w) \<and> change handler_new m h' m'"
proof -
  have "wh_block m (wh_next m) = None" using assms(1) by (auto simp: bounded_def)
  thus ?thesis using assms
    by (auto simp: wrapper_bind_def holds_def change_def owned_def block_of_def handler_new_def bounded_def
        less_SucI split: if_splits)
qed

lemma clean_up_change:
  assumes "holds h m x" "bounded m"
  shows "\<exists>m'. clean_up h m = Some (handler_new, m') \<and> change h m handler_new m'"
proof (cases x)
  case None
  hence "h = handler_new" using holds_null assms(1) by simp
  thus ?thesis using assms(2) by (auto simp: clean_up_def change_def handler_new_def owned_def block_of_def)
next
  case (Some w)
  then obtain p where p: "cw_ptr h = Some p" "wrapper_at p h m = Some w" using holds_at assms(1) by blast
  show ?thesis
  proof (cases p)
    case In_Local_Buffer
    have "clean_up h m = Some (handler_new, m)"
      using p In_Local_Buffer by (cases h) (simp add: clean_up_def is_allocated_def handler_new_def)
    thus ?thesis using p In_Local_Buffer assms(2) by (auto simp: change_def owned_def block_of_def handler_new_def)
  next
    case (Allocated n)
    let ?m = "m\<lparr>wh_block := (wh_block m)(n := None)\<rparr>"
    have "cw_local h = None" using assms(1) p Allocated by (simp add: holds_def)
    hence "clean_up h m = Some (handler_new, ?m)"
      using p Allocated by (cases h) (simp add: clean_up_def is_allocated_def handler_new_def)
    moreover have "change h m handler_new ?m"
      using p Allocated assms(2) by (auto simp: change_def owned_def block_of_def handler_new_def bounded_def)
    ultimately show ?thesis by blast
  qed
qed

lemma copy_change:
  assumes "holds r m x" "bounded m"
  shows "\<exists>h' m'. handler_copy_into r handler_new m = Some (h', m') \<and> holds h' m' x \<and> change handler_new m h' m'"
proof (cases x)
  case None
  hence "r = handler_new" using holds_null assms(1) by simp
  thus ?thesis using assms(2) None by (auto simp: handler_copy_into_def handler_new_def holds_def change_def owned_def block_of_def)
next
  case (Some w)
  then obtain p where "cw_ptr r = Some p" "wrapper_at p r m = Some w" using holds_at assms(1) by blast
  hence c: "handler_copy_into r handler_new m = Some (wrapper_bind w handler_new m)" by (simp add: handler_copy_into_def)
  obtain h' m' where "wrapper_bind w handler_new m = (h', m')" by fastforce
  thus ?thesis using bind_change[OF assms(2)] c Some by simp
qed

lemma assign_change:
  assumes h: "holds h m y" and r: "holds r m x" and b: "bounded m"
  shows "\<exists>h' m'. handler_assign h r m = Some (h', m') \<and> holds h' m' x \<and> change h m h' m'"
proof -
  obtain t m1 where t: "handler_copy_into r handler_new m = Some (t, m1)" "holds t m1 x" "change handler_new m t m1"
    using copy_change[OF r b] by blast
  have h1: "holds h m1 y" using holds_frame[OF h] holds_owned[OF h] t(3) by (auto simp: change_def)
  have b1: "bounded m1" "owned t \<inter> owned h = {}" using t(3) holds_owned[OF h] by (auto simp: change_def)
  obtain m2 where m2: "clean_up h m1 = Some (handler_new, m2)" "change h m1 handler_new m2"
    using clean_up_change[OF h1 b1(1)] by blast
  have t2: "holds t m2 x"
  proof (rule holds_frame[OF t(2)])
    fix b assume "b \<in> owned t"
    hence "b \<in> live m1 - owned h" using holds_owned[OF t(2)] b1(2) by blast
    thus "wh_block m2 b = wh_block m1 b" using m2(2) unfolding change_def by blast
  qed
  have "bounded m2" using m2(2) by (simp add: change_def)
  then obtain h' m3 where h': "handler_copy_into t handler_new m2 = Some (h', m3)" "holds h' m3 x" "change handler_new m2 h' m3"
    using copy_change[OF t2] by blast
  have t3: "holds t m3 x"
  proof (rule holds_frame[OF t2])
    fix b assume "b \<in> owned t"
    thus "wh_block m3 b = wh_block m2 b" using holds_owned[OF t2] h'(3) by (auto simp: change_def)
  qed
  have d3: "owned h' \<inter> owned t = {}" using holds_owned[OF t2] h'(3) by (auto simp: change_def)
  have "bounded m3" using h'(3) by (simp add: change_def)
  then obtain m4 where m4: "clean_up t m3 = Some (handler_new, m4)" "change t m3 handler_new m4"
    using clean_up_change[OF t3] by blast
  have "holds h' m4 x"
  proof (rule holds_frame[OF h'(2)])
    fix b assume "b \<in> owned h'"
    hence "b \<in> live m3 - owned t" using holds_owned[OF h'(2)] d3 by blast
    thus "wh_block m4 b = wh_block m3 b" using m4(2) unfolding change_def by blast
  qed
  moreover have "change h m h' m4"
  proof -
    have l: "live m1 = live m \<union> owned t" "live m2 = live m1 - owned h" "live m3 = live m2 \<union> owned h'"
      "live m4 = live m3 - owned t"
      using t(3) m2(2) h'(3) m4(2) unfolding change_def by auto
    have f: "owned t \<inter> live m = {}" "owned h' \<inter> live m2 = {}" using t(3) h'(3) by (auto simp: change_def)
    have "wh_block m4 b = wh_block m b" if "b \<in> live m - owned h" for b
    proof -
      have "wh_block m1 b = wh_block m b" using t(3) that by (simp add: change_def)
      moreover have "wh_block m2 b = wh_block m1 b" using m2(2) that l(1) by (simp add: change_def)
      moreover have b2: "b \<in> live m2" using that l(1,2) by auto
      moreover have "wh_block m3 b = wh_block m2 b" using h'(3) b2 by (simp add: change_def)
      moreover have "b \<notin> owned t" "b \<in> live m3" using f(1) that b2 l(3) by auto
      moreover have "wh_block m4 b = wh_block m3 b" using m4(2) calculation(5,6) by (simp add: change_def)
      ultimately show ?thesis by simp
    qed
    moreover have "live m4 = (live m - owned h) \<union> owned h'" "owned h' \<inter> (live m - owned h) = {}"
      using l f d3 by auto
    moreover have "bounded m4" using m4(2) by (simp add: change_def)
    ultimately show ?thesis by (simp add: change_def)
  qed
  ultimately show ?thesis using t(1) m2(1) h'(1) m4(1) by (simp add: handler_assign_def handler_copy_def)
qed

lemma assign_function_change:
  assumes "holds h m y" "bounded m"
  shows "\<exists>h' m'. handler_assign_function h w m = Some (h', m') \<and> holds h' m' (Some w) \<and> change h m h' m'"
proof -
  obtain m1 where m1: "clean_up h m = Some (handler_new, m1)" "change h m handler_new m1"
    using clean_up_change[OF assms] by blast
  obtain h' m' where b: "wrapper_bind w handler_new m1 = (h', m')" by fastforce
  have "bounded m1" using m1(2) by (simp add: change_def)
  note c = bind_change[OF this b]
  have "change h m h' m'" using c m1(2) unfolding change_def by auto
  thus ?thesis using m1(1) b c by (simp add: handler_assign_function_def)
qed

section \<open>Programs keep the world in order\<close>

lemma world_okI:
  assumes "\<And>n. case hw_handlers s n of None \<Rightarrow> v n = None | Some h \<Rightarrow> \<exists>x. v n = Some x \<and> holds h (hw_heap s) x"
    "\<And>n n' h h' b. hw_handlers s n = Some h \<Longrightarrow> hw_handlers s n' = Some h' \<Longrightarrow> block_of h = Some b \<Longrightarrow>
      block_of h' = Some b \<Longrightarrow> n = n'"
    "\<And>b. b \<in> live (hw_heap s) \<Longrightarrow> b < wh_next (hw_heap s)"
    "\<And>b. b \<in> live (hw_heap s) \<Longrightarrow> \<exists>n h. hw_handlers s n = Some h \<and> block_of h = Some b"
  shows "world_ok v s"
  unfolding world_ok_def by (intro conjI allI impI; (rule assms | erule (3) assms(2)); simp)

lemma world_bounded: "world_ok v s \<Longrightarrow> bounded (hw_heap s)"
  by (simp add: world_ok_def bounded_def)

lemma world_some: "world_ok v s \<Longrightarrow> hw_handlers s n = Some h \<Longrightarrow> \<exists>x. v n = Some x \<and> holds h (hw_heap s) x"
proof -
  assume "world_ok v s" "hw_handlers s n = Some h"
  thus ?thesis unfolding world_ok_def by (auto dest!: spec[of _ n])
qed

lemma world_absent: "world_ok v s \<Longrightarrow> hw_handlers s n = None \<Longrightarrow> v n = None"
proof -
  assume "world_ok v s" "hw_handlers s n = None"
  thus ?thesis unfolding world_ok_def by (auto dest!: spec[of _ n])
qed

lemma world_holds: "world_ok v s \<Longrightarrow> v n = Some x \<Longrightarrow> \<exists>h. hw_handlers s n = Some h \<and> holds h (hw_heap s) x"
  using world_some world_absent by (cases "hw_handlers s n") fastforce+

lemma world_free: "world_ok v s \<Longrightarrow> v n = None \<Longrightarrow> hw_handlers s n = None"
  using world_some by (cases "hw_handlers s n") fastforce+

lemma world_apart:
  assumes "world_ok v s" "hw_handlers s n = Some h" "hw_handlers s j = Some k" "block_of h = Some b" "block_of k = Some b"
  shows "n = j"
proof -
  have "\<forall>n n' h h' b. hw_handlers s n = Some h \<longrightarrow> hw_handlers s n' = Some h' \<longrightarrow> block_of h = Some b \<longrightarrow>
        block_of h' = Some b \<longrightarrow> n = n'" using assms(1) unfolding world_ok_def by (elim conjE)
  thus ?thesis using assms(2-) by (elim allE impE) assumption+
qed

lemma world_owner: "world_ok v s \<Longrightarrow> b \<in> live (hw_heap s) \<Longrightarrow> \<exists>n h. hw_handlers s n = Some h \<and> block_of h = Some b"
  unfolding world_ok_def by (elim conjE allE[of _ b] impE) auto

text \<open>Another handler's block is live and not the one that changes.\<close>

lemma others_apart:
  assumes w: "world_ok v s" and h: "hw_handlers s n = None \<and> h = handler_new \<or> hw_handlers s n = Some h"
    and k: "hw_handlers s j = Some hj" "j \<noteq> n"
  shows "owned hj \<subseteq> live (hw_heap s) - owned h"
proof -
  obtain x where "holds hj (hw_heap s) x" using world_some[OF w k(1)] by (elim exE conjE)
  hence "owned hj \<subseteq> live (hw_heap s)" by (rule holds_owned)
  moreover have "owned hj \<inter> owned h = {}"
  proof (rule ccontr)
    assume "owned hj \<inter> owned h \<noteq> {}"
    then obtain b where "block_of hj = Some b" "block_of h = Some b" by (auto simp: owned_def)
    moreover have "hw_handlers s n = Some h" using h calculation(2) by (auto simp: block_of_def handler_new_def)
    ultimately show False using world_apart[OF w k(1)] k(2) by simp
  qed
  ultimately show ?thesis by blast
qed

lemma world_change:
  assumes w: "world_ok v s" and h: "hw_handlers s n = None \<and> h = handler_new \<or> hw_handlers s n = Some h"
    and c: "change h (hw_heap s) h' m'" and r: "holds h' m' x \<and> o' = Some h' \<and> y = Some x \<or> h' = handler_new \<and> o' = None \<and> y = None"
  shows "world_ok (v(n := y)) (s\<lparr>hw_handlers := (hw_handlers s)(n := o'), hw_heap := m'\<rparr>)"
proof -
  let ?m = "hw_heap s"
  note apart = others_apart[OF w h]
  have keep: "\<exists>x. v j = Some x \<and> holds hj m' x" if j: "hw_handlers s j = Some hj" "j \<noteq> n" for j hj
  proof -
    obtain x where x: "v j = Some x" "holds hj ?m x"
      using world_some[OF w j(1)] by (elim exE conjE)
    have "holds hj m' x" using holds_frame[OF x(2)] apart[OF j] c by (auto simp: change_def)
    thus ?thesis using x(1) by blast
  qed
  have new: "owned h' \<inter> owned hj = {}" if "hw_handlers s j = Some hj" "j \<noteq> n" for j hj
    using apart[OF that] c by (auto simp: change_def)
  have owned: "\<exists>j hj. ((hw_handlers s)(n := o')) j = Some hj \<and> block_of hj = Some b" if b: "b \<in> live m'" for b
  proof (cases "b \<in> owned h'")
    case True
    thus ?thesis using r by (auto simp: owned_def)
  next
    case False
    hence lb: "b \<in> live ?m" "b \<notin> owned h" using b c by (auto simp: change_def)
    then obtain j hj where j: "hw_handlers s j = Some hj" "block_of hj = Some b" using world_owner[OF w lb(1)] by (elim exE conjE)
    have "j \<noteq> n" using j h lb(2) by (auto simp: owned_def)
    thus ?thesis using j by auto
  qed
  have all: "case ((hw_handlers s)(n := o')) j of None \<Rightarrow> (v(n := y)) j = None
      | Some hj \<Rightarrow> \<exists>x. (v(n := y)) j = Some x \<and> holds hj m' x" for j
  proof (cases "j = n")
    case True
    thus ?thesis using r by auto
  next
    case False
    thus ?thesis using keep[of j] world_absent[OF w, of j] by (cases "hw_handlers s j") simp_all
  qed
  have apart': "j = j'" if k: "((hw_handlers s)(n := o')) j = Some a" "((hw_handlers s)(n := o')) j' = Some a'"
    "block_of a = Some b" "block_of a' = Some b" for j j' a a' b
  proof -
    have ab: "b \<in> owned a" "b \<in> owned a'" using k by (simp_all add: owned_def)
    have h': "a = h'" if "j = n" using k(1,3) that r by (auto simp: block_of_def handler_new_def)
    have h'': "a' = h'" if "j' = n" using k(2,4) that r by (auto simp: block_of_def handler_new_def)
    show ?thesis
    proof (cases "j = n \<or> j' = n")
      case True
      thus ?thesis using k(1,2) ab h' h'' new[of j a] new[of j' a'] by (cases "j = n"; cases "j' = n") auto
    next
      case False
      thus ?thesis using world_apart[OF w _ _ k(3,4)] k(1,2) by simp
    qed
  qed
  have bound: "b < wh_next m'" if "b \<in> live m'" for b
  proof -
    have "bounded m'" using c unfolding change_def by (elim conjE)
    thus ?thesis using that unfolding bounded_def by (rule bspec)
  qed
  have sel: "hw_handlers (s\<lparr>hw_handlers := (hw_handlers s)(n := o'), hw_heap := m'\<rparr>) = (hw_handlers s)(n := o')"
    "hw_heap (s\<lparr>hw_handlers := (hw_handlers s)(n := o'), hw_heap := m'\<rparr>) = m'" by simp_all
  show ?thesis
  proof (rule world_okI, unfold sel)
    show "case ((hw_handlers s)(n := o')) j of None \<Rightarrow> (v(n := y)) j = None
      | Some hj \<Rightarrow> \<exists>x. (v(n := y)) j = Some x \<and> holds hj m' x" for j by (rule all)
  qed (erule (3) apart', erule bound, erule owned)
qed

lemma world_update:
  assumes "world_ok v s" "hw_handlers s n = None \<and> h = handler_new \<or> hw_handlers s n = Some h"
    "change h (hw_heap s) h' m'" "holds h' m' x"
  shows "world_ok (v(n := Some x)) (put_handler n (h', m') s)"
  using world_change[OF assms(1-3), of x "Some h'" "Some x"] assms(4) by (simp add: put_handler_def)

lemma change_new: "bounded m \<Longrightarrow> change handler_new m handler_new m"
  by (simp add: change_def)

lemma world_called: "world_ok v (s\<lparr>hw_called := c\<rparr>) = world_ok v s"
  by (simp add: world_ok_def cong: option.case_cong)

text \<open>Each operation does what its line of the specification says.\<close>

lemma make_refines:
  assumes "world_ok v s" "v n = None"
  shows "world_ok (v(n := Some None)) (put_handler n (handler_new, hw_heap s) s)"
    "world_ok (v(n := Some (Some w))) (put_handler n (handler_of w (hw_heap s)) s)"
proof -
  note f = disjI1[OF conjI[OF world_free[OF assms] refl]] and b = world_bounded[OF assms(1)]
  show "world_ok (v(n := Some None)) (put_handler n (handler_new, hw_heap s) s)"
    by (rule world_update[OF assms(1) f change_new[OF b] holds_new])
  obtain h' m' where h': "wrapper_bind w handler_new (hw_heap s) = (h', m')" by fastforce
  note c = bind_change[OF b h']
  show "world_ok (v(n := Some (Some w))) (put_handler n (handler_of w (hw_heap s)) s)"
    unfolding handler_of_def h' by (rule world_update[OF assms(1) f conjunct2[OF c] conjunct1[OF c]])
qed

lemma copy_refines:
  assumes "world_ok v s" "v n = None" "v m = Some x"
  shows "\<exists>s'. handler_step (Make_Copy n m) s = Some s' \<and> world_ok (v(n := Some x)) s' \<and> hw_called s' = hw_called s"
proof -
  note f = disjI1[OF conjI[OF world_free[OF assms(1,2)] refl]] and b = world_bounded[OF assms(1)]
  obtain r where r: "hw_handlers s m = Some r" "holds r (hw_heap s) x"
    using world_holds[OF assms(1,3)] by (elim exE conjE)
  obtain h' m' where h': "handler_copy_into r handler_new (hw_heap s) = Some (h', m')" "holds h' m' x"
    "change handler_new (hw_heap s) h' m'" using copy_change[OF r(2) b] by (elim exE conjE)
  have "world_ok (v(n := Some x)) (put_handler n (h', m') s)" by (rule world_update[OF assms(1) f h'(3,2)])
  thus ?thesis using r(1) h'(1) by (simp add: handler_copy_def put_handler_def)
qed

lemma assign_refines:
  assumes "world_ok v s" "v n = Some y" "v m = Some x"
  shows "\<exists>s'. handler_step (Assign n m) s = Some s' \<and> world_ok (v(n := Some x)) s' \<and> hw_called s' = hw_called s"
proof -
  obtain h where h: "hw_handlers s n = Some h" "holds h (hw_heap s) y"
    using world_holds[OF assms(1,2)] by (elim exE conjE)
  obtain r where r: "hw_handlers s m = Some r" "holds r (hw_heap s) x"
    using world_holds[OF assms(1,3)] by (elim exE conjE)
  obtain h' m' where h': "handler_assign h r (hw_heap s) = Some (h', m')" "holds h' m' x" "change h (hw_heap s) h' m'"
    using assign_change[OF h(2) r(2) world_bounded[OF assms(1)]] by (elim exE conjE)
  have "world_ok (v(n := Some x)) (put_handler n (h', m') s)"
    by (rule world_update[OF assms(1) disjI2[OF h(1)] h'(3,2)])
  thus ?thesis using h(1) r(1) h'(1) by (simp add: put_handler_def)
qed

lemma assign_function_refines:
  assumes "world_ok v s" "v n = Some y"
  shows "\<exists>s'. handler_step (Assign_Function n w) s = Some s' \<and> world_ok (v(n := Some (Some w))) s' \<and> hw_called s' = hw_called s"
proof -
  obtain h where h: "hw_handlers s n = Some h" "holds h (hw_heap s) y"
    using world_holds[OF assms(1,2)] by (elim exE conjE)
  obtain h' m' where h': "handler_assign_function h w (hw_heap s) = Some (h', m')" "holds h' m' (Some w)"
    "change h (hw_heap s) h' m'"
    using assign_function_change[OF h(2) world_bounded[OF assms(1)], of w] by (elim exE conjE)
  have "world_ok (v(n := Some (Some w))) (put_handler n (h', m') s)"
    by (rule world_update[OF assms(1) disjI2[OF h(1)] h'(3,2)])
  thus ?thesis using h(1) h'(1) by (simp add: put_handler_def)
qed

lemma destroy_refines:
  assumes "world_ok v s" "v n = Some y"
  shows "\<exists>s'. handler_step (Destroy n) s = Some s' \<and> world_ok (v(n := None)) s' \<and> hw_called s' = hw_called s"
proof -
  obtain h where h: "hw_handlers s n = Some h" "holds h (hw_heap s) y"
    using world_holds[OF assms(1,2)] by (elim exE conjE)
  obtain m' where m': "clean_up h (hw_heap s) = Some (handler_new, m')" "change h (hw_heap s) handler_new m'"
    using clean_up_change[OF h(2) world_bounded[OF assms(1)]] by (elim exE conjE)
  have "world_ok (v(n := None)) (s\<lparr>hw_handlers := (hw_handlers s)(n := None), hw_heap := m'\<rparr>)"
    using world_change[OF assms(1) disjI2[OF h(1)] m'(2), of None None None] by simp
  thus ?thesis using h(1) m'(1) by simp
qed

lemma call_refines:
  assumes "world_ok v s" "v n = Some (Some w)"
  shows "handler_step (Call_Handler n) s = Some (s\<lparr>hw_called := hw_called s @ [w_function w]\<rparr>)"
proof -
  obtain h where h: "hw_handlers s n = Some h" "holds h (hw_heap s) (Some w)"
    using world_holds[OF assms] by (elim exE conjE)
  obtain p where "cw_ptr h = Some p" "wrapper_at p h (hw_heap s) = Some w" using holds_at[OF h(2)] by (elim exE conjE)
  thus ?thesis using h(1) by (simp add: handler_call_def)
qed

lemma step_refines:
  assumes w: "world_ok v s" and a: "spec_step a (v, hw_called s) = Some (v', c)"
  shows "\<exists>s'. handler_step a s = Some s' \<and> world_ok v' s' \<and> hw_called s' = c"
proof (cases a)
  case (Make n)
  thus ?thesis using a make_refines(1)[OF w] by (auto simp: put_handler_def split: if_splits)
next
  case (Make_Of n w')
  thus ?thesis using a make_refines(2)[OF w] by (auto simp: put_handler_def split: if_splits)
next
  case (Make_Copy n m)
  then obtain x where "v m = Some x" "v n = None" "v' = v(n := Some x)" "c = hw_called s"
    using a by (auto split: option.splits if_splits)
  thus ?thesis unfolding Make_Copy using copy_refines[OF w] by simp
next
  case (Assign n m)
  then obtain x y where "v m = Some x" "v n = Some y" "v' = v(n := Some x)" "c = hw_called s"
    using a by (auto split: option.splits if_splits)
  thus ?thesis unfolding Assign using assign_refines[OF w] by simp
next
  case (Assign_Function n w')
  then obtain y where "v n = Some y" "v' = v(n := Some (Some w'))" "c = hw_called s"
    using a by (auto split: if_splits)
  thus ?thesis unfolding Assign_Function using assign_function_refines[OF w] by simp
next
  case (Call_Handler n)
  then obtain w' where "v n = Some (Some w')" "v' = v" "c = hw_called s @ [w_function w']"
    using a by (auto split: option.splits)
  thus ?thesis unfolding Call_Handler using call_refines[OF w] w by (simp add: world_called)
next
  case (Destroy n)
  then obtain y where "v n = Some y" "v' = v(n := None)" "c = hw_called s" using a by (auto split: if_splits)
  thus ?thesis unfolding Destroy using destroy_refines[OF w] by simp
qed

lemma run_refines:
  "world_ok v s \<Longrightarrow> spec_run as (v, hw_called s) = Some (v', c) \<Longrightarrow>
   \<exists>s'. handler_run as s = Some s' \<and> world_ok v' s' \<and> hw_called s' = c"
proof (induction as arbitrary: v s)
  case Nil
  thus ?case by simp
next
  case (Cons a as)
  then obtain v1 c1 where a: "spec_step a (v, hw_called s) = Some (v1, c1)" "spec_run as (v1, c1) = Some (v', c)"
    by (auto split: bind_splits)
  obtain s1 where s1: "handler_step a s = Some s1" "world_ok v1 s1" "hw_called s1 = c1"
    using step_refines[OF Cons.prems(1) a(1)] by (elim exE conjE)
  show ?case using Cons.IH[OF s1(2)] a(2) s1 by simp
qed

lemma world_ok_new: "world_ok (\<lambda>n. None) world_new"
  by (simp add: world_ok_def world_new_def)

lemma world_empty: "world_ok (\<lambda>n. None) s \<Longrightarrow> live (hw_heap s) = {}"
  using world_owner world_some by fastforce

text \<open>C9. Handlers behave as variables that hold a callable: a program that makes, copies, assigns,
  calls and destroys handlers in order never reads a freed or empty wrapper, frees none twice, calls
  the functions that the variables hold, whatever their sizes, with handlers that hold the values of
  the variables and share no block; and when every handler is destroyed every block is freed.\<close>

theorem handlers_refine:
  assumes "spec_run as (\<lambda>n. None, []) = Some (v, c)"
  shows "\<exists>s. handler_run as world_new = Some s \<and> hw_called s = c \<and> world_ok v s \<and>
    (v = (\<lambda>n. None) \<longrightarrow> (\<forall>b. wh_block (hw_heap s) b = None))"
proof -
  have "spec_run as (\<lambda>n. None, hw_called world_new) = Some (v, c)" using assms by (simp add: world_new_def)
  then obtain s where "handler_run as world_new = Some s" "world_ok v s" "hw_called s = c"
    using run_refines[OF world_ok_new] by blast
  moreover have "\<forall>b. wh_block (hw_heap s) b = None" if "v = (\<lambda>n. None)"
    using world_empty[of s] \<open>world_ok v s\<close> that by auto
  ultimately show ?thesis by blast
qed

text \<open>A small function and a large one, copied, assigned, called and destroyed.\<close>

definition handler_program :: "handler_op list" where
  "handler_program =
     [Make_Of 0 \<lparr>w_function = 7, w_size = 16\<rparr>, Make_Of 1 \<lparr>w_function = 8, w_size = 40\<rparr>, Make_Copy 2 1,
      Assign 1 0, Assign 0 2, Assign 0 0, Call_Handler 0, Call_Handler 1, Destroy 2, Call_Handler 0, Destroy 0, Destroy 1]"

theorem handlers_refine_witness:
  "\<exists>s. handler_run handler_program world_new = Some s \<and> hw_called s = [8, 7, 8] \<and> wh_block (hw_heap s) 0 = None"
proof -
  have "spec_run handler_program (\<lambda>n. None, []) = Some (\<lambda>n. None, [8, 7, 8])"
    by (simp add: handler_program_def fun_eq_iff)
  from handlers_refine[OF this] show ?thesis by blast
qed

end
