(* ===== verification/Recv_Time_Out.thy ===== *)
theory Recv_Time_Out
  imports Event_Loop Tcp_Channel
begin

text \<open>
  The receive time-out filter (\<open>io/ip/tcp/filters/recv_time_out_filter.cpp\<close>): a filter of the
  pipeline of a channel that keeps a timer in the channel's loop while the connection is up, and
  gives the channel the error \<open>timeout\<close> when nothing was received for too long. The loop is the one
  of \<open>Event_Loop\<close>, the events are those the channel of \<open>Tcp_Channel\<close> fires.
\<close>

section \<open>The filter\<close>

text \<open>\<open>rf_timer\<close> is the address of \<open>_on_timer\<close>; \<open>rf_up\<close> the events passed on to the next filter;
  \<open>rf_errors\<close> the errors given to the channel, each with the time read and \<open>_last_recv\<close> then.\<close>

record recv_filter =
  rf_recv :: time_span
  rf_tick :: time_span
  rf_last :: date_time
  rf_timer :: node
  rf_up :: "chan_event list"
  rf_errors :: "(date_time \<times> date_time \<times> error_code) list"

text \<open>The default date is zero.\<close>

definition recv_time_out_filter :: "time_span \<Rightarrow> time_span \<Rightarrow> node \<Rightarrow> recv_filter" where
  "recv_time_out_filter recv tick t =
     \<lparr>rf_recv = recv, rf_tick = tick, rf_last = 0, rf_timer = t, rf_up = [], rf_errors = []\<rparr>"

text \<open>Callbacks run in the thread of the loop, where \<open>schedule\<close> and \<open>cancel\<close> need no new task.\<close>

definition reg_timer :: "(nat \<Rightarrow> date_time) \<Rightarrow> recv_filter \<Rightarrow> loop_state \<Rightarrow> loop_state option" where
  "reg_timer clk f st =
     (let (st1, now) = clock_utc clk st;
          st2 = st1\<lparr>el_expiry := (el_expiry st1)(rf_timer f := dt_plus now (rf_tick f))\<rparr>
      in el_schedule (el_thread st2) (rf_timer f) (rf_timer f) st2)"

definition rf_opened :: "(nat \<Rightarrow> date_time) \<Rightarrow> chan_event \<Rightarrow> recv_filter \<times> loop_state \<Rightarrow> (recv_filter \<times> loop_state) option" where
  "rf_opened clk e s =
     (let (f, st) = s; (st1, now) = clock_utc clk st; f1 = f\<lparr>rf_last := now\<rparr>
      in do { st2 \<leftarrow> reg_timer clk f1 st1; Some (f1\<lparr>rf_up := rf_up f1 @ [e]\<rparr>, st2) })"

definition rf_on_error :: "error_code \<Rightarrow> recv_filter \<times> loop_state \<Rightarrow> (recv_filter \<times> loop_state) option" where
  "rf_on_error ec s =
     (let (f, st) = s
      in do { st1 \<leftarrow> el_cancel (el_thread st) (rf_timer f) (rf_timer f) st;
              Some (f\<lparr>rf_up := rf_up f @ [On_Error ec]\<rparr>, st1) })"

definition rf_on_read :: "(nat \<Rightarrow> date_time) \<Rightarrow> u8 list \<Rightarrow> recv_filter \<times> loop_state \<Rightarrow> (recv_filter \<times> loop_state) option" where
  "rf_on_read clk msg s =
     (let (f, st) = s; (st1, now) = clock_utc clk st
      in Some (f\<lparr>rf_last := now, rf_up := rf_up f @ [On_Read msg]\<rparr>, st1))"

text \<open>The other events are not overridden: the base class passes them on.\<close>

fun rf_event :: "(nat \<Rightarrow> date_time) \<Rightarrow> chan_event \<Rightarrow> recv_filter \<times> loop_state \<Rightarrow> (recv_filter \<times> loop_state) option" where
  "rf_event clk (On_Accepted a) s = rf_opened clk (On_Accepted a) s"
| "rf_event clk On_Connected s = rf_opened clk On_Connected s"
| "rf_event clk (On_Error ec) s = rf_on_error ec s"
| "rf_event clk (On_Read msg) s = rf_on_read clk msg s"
| "rf_event clk e s = Some ((fst s)\<lparr>rf_up := rf_up (fst s) @ [e]\<rparr>, snd s)"

definition rf_on_timer :: "(nat \<Rightarrow> date_time) \<Rightarrow> recv_filter \<times> loop_state \<Rightarrow> (recv_filter \<times> loop_state) option" where
  "rf_on_timer clk s =
     (let (f, st) = s; (st1, now) = clock_utc clk st; diff = dt_diff now (rf_last f)
      in if rf_recv f < diff then
           Some (f\<lparr>rf_errors := rf_errors f @ [(now, rf_last f, platform_timeout)]\<rparr>, st1)
         else do { st2 \<leftarrow> reg_timer clk f st1; Some (f, st2) })"

section \<open>Runs\<close>

text \<open>The events of the channel, the expiry of the timer (as \<open>sch_run\<close> calls it: the first of the
  list, when the clock has reached its time), and whatever else happens on the loop, which leaves
  this timer alone.\<close>

definition elsewhere :: "node \<Rightarrow> loop_state \<Rightarrow> loop_state \<Rightarrow> bool" where
  "elsewhere t st st' \<longleftrightarrow>
     count_list (el_timers st') t = count_list (el_timers st) t \<and> el_expiry st' t = el_expiry st t \<and>
     el_clock st \<le> el_clock st'"

inductive rf_run :: "(nat \<Rightarrow> date_time) \<Rightarrow> recv_filter \<times> loop_state \<Rightarrow> chan_event list \<Rightarrow>
    recv_filter \<times> loop_state \<Rightarrow> bool" for clk s0 where
  rf_start: "rf_run clk s0 [] s0"
| rf_chan: "rf_run clk s0 es s \<Longrightarrow> rf_event clk e s = Some s' \<Longrightarrow> rf_run clk s0 (es @ [e]) s'"
| rf_expire: "rf_run clk s0 es (f, st) \<Longrightarrow> el_timers st = rf_timer f # ts \<Longrightarrow>
    el_expiry st (rf_timer f) \<le> snd (clock_utc clk st) \<Longrightarrow>
    rf_on_timer clk (f, (fst (clock_utc clk st))\<lparr>el_timers := ts\<rparr>) = Some s' \<Longrightarrow> rf_run clk s0 es s'"
| rf_elsewhere: "rf_run clk s0 es (f, st) \<Longrightarrow> elsewhere (rf_timer f) st st' \<Longrightarrow> rf_run clk s0 es (f, st')"

section \<open>The timer\<close>

definition opens :: "chan_event \<Rightarrow> bool" where
  "opens e \<longleftrightarrow> e = On_Connected \<or> (\<exists>a. e = On_Accepted a)"

definition errs :: "chan_event \<Rightarrow> bool" where
  "errs e \<longleftrightarrow> (\<exists>ec. e = On_Error ec)"

text \<open>Events as a channel gives them: it is opened first, and once.\<close>

definition opened_once :: "chan_event list \<Rightarrow> bool" where
  "opened_once es \<longleftrightarrow> (case es of [] \<Rightarrow> True | e # es' \<Rightarrow> opens e \<and> (\<forall>x\<in>set es'. \<not> opens x))"

definition timers_of :: "recv_filter \<times> loop_state \<Rightarrow> nat" where
  "timers_of s = count_list (el_timers (snd s)) (rf_timer (fst s))"

lemma count_sch_insert: "count_list (sch_insert e t ts) x = count_list ts x + (if x = t then 1 else 0)"
proof -
  let ?P = "\<lambda>x. \<not> dt_less (e t) (e x)"
  have "count_list ts x = count_list (takeWhile ?P ts) x + count_list (dropWhile ?P ts) x"
    using count_list_append[of "takeWhile ?P ts" "dropWhile ?P ts" x] by simp
  thus ?thesis by (simp add: sch_insert_def count_list_append)
qed

lemma count_remove1: "count_list (remove1 t ts) t = count_list ts t - 1"
  by (induction ts) auto

lemma clock_simps [simp]:
  "el_timers (fst (clock_utc clk st)) = el_timers st" "el_expiry (fst (clock_utc clk st)) = el_expiry st"
  "el_thread (fst (clock_utc clk st)) = el_thread st" "el_clock (fst (clock_utc clk st)) = Suc (el_clock st)"
  "snd (clock_utc clk st) = clk (el_clock st)"
  by (simp_all add: clock_utc_def)

lemma reg_timer_eq:
  "\<exists>st'. reg_timer clk f st = Some st' \<and>
     count_list (el_timers st') (rf_timer f) = count_list (el_timers st) (rf_timer f) + 1 \<and>
     el_expiry st' (rf_timer f) = dt_plus (clk (el_clock st)) (rf_tick f) \<and> el_clock st' = Suc (el_clock st)"
  by (simp add: reg_timer_def split_beta Let_def el_schedule_def el_in_loop_def el_add_active_def count_sch_insert)

lemma cancel_eq:
  "\<exists>st'. el_cancel (el_thread st) n t st = Some st' \<and>
     count_list (el_timers st') t = count_list (el_timers st) t - 1 \<and>
     el_expiry st' = el_expiry st \<and> el_clock st' = el_clock st"
  by (auto simp: el_cancel_def el_in_loop_def sch_cancel_def el_remove_active_def count_remove1 count_list_0_iff)

text \<open>The clock does not go back, and no sum of its readings and the two spans wraps.\<close>

definition clock_ok :: "(nat \<Rightarrow> date_time) \<Rightarrow> bool" where
  "clock_ok clk \<longleftrightarrow> mono clk \<and> (\<forall>n. 0 \<le> clk n \<and> clk n < 2 ^ 62)"

definition spans_ok :: "recv_filter \<Rightarrow> bool" where
  "spans_ok f \<longleftrightarrow> 0 \<le> rf_recv f \<and> rf_recv f < 2 ^ 62 \<and> 0 \<le> rf_tick f \<and> rf_tick f < 2 ^ 62"

definition armed :: "chan_event list \<Rightarrow> recv_filter \<Rightarrow> bool" where
  "armed es f \<longleftrightarrow> es \<noteq> [] \<and> (\<forall>e\<in>set es. \<not> errs e) \<and> rf_errors f = []"

text \<open>The timer was set by the reading after one that was within \<open>recv\<close> of the last receipt.\<close>

definition due_soon :: "(nat \<Rightarrow> date_time) \<Rightarrow> recv_filter \<Rightarrow> loop_state \<Rightarrow> bool" where
  "due_soon clk f st \<longleftrightarrow>
     (\<exists>n. Suc n < el_clock st \<and> el_expiry st (rf_timer f) = clk (Suc n) + rf_tick f \<and> clk n \<le> rf_last f + rf_recv f)"

definition rf_inv :: "(nat \<Rightarrow> date_time) \<Rightarrow> chan_event list \<Rightarrow> recv_filter \<times> loop_state \<Rightarrow> bool" where
  "rf_inv clk es s \<longleftrightarrow>
     spans_ok (fst s) \<and> timers_of s = (if armed es (fst s) then 1 else 0) \<and>
     (armed es (fst s) \<longrightarrow> due_soon clk (fst s) (snd s)) \<and>
     0 \<le> rf_last (fst s) \<and> rf_last (fst s) \<le> clk (el_clock (snd s)) \<and>
     (es = [] \<longrightarrow> rf_errors (fst s) = []) \<and> length (rf_errors (fst s)) \<le> 1 \<and>
     (\<forall>(now, last, ec)\<in>set (rf_errors (fst s)). rf_recv (fst s) < now - last \<and> ec = platform_timeout)"

lemma clock_mono: "clock_ok clk \<Longrightarrow> m \<le> n \<Longrightarrow> clk m \<le> clk n"
  by (simp add: clock_ok_def mono_def)

lemma clock_range: "clock_ok clk \<Longrightarrow> 0 \<le> clk n \<and> clk n < 2 ^ 62"
  by (simp add: clock_ok_def)

lemma expiry_eq:
  assumes "clock_ok clk" "spans_ok f"
  shows "dt_plus (clk n) (rf_tick f) = clk n + rf_tick f"
  using clock_range[OF assms(1), of n] assms(2) by (simp add: dt_plus_def to_u64_def spans_ok_def)

lemma diff_eq:
  assumes "clock_ok clk" "0 \<le> l" "l \<le> clk n"
  shows "dt_diff (clk n) l = clk n - l"
  using clock_range[OF assms(1), of n] assms(2,3) by (simp add: dt_diff_def to_u64_def to_i64_def)

lemma armed_snoc: "armed (es @ [e]) f \<longleftrightarrow> (\<forall>x\<in>set es. \<not> errs x) \<and> \<not> errs e \<and> rf_errors f = []"
  by (auto simp: armed_def)

lemma rf_opened_inv:
  assumes c: "clock_ok clk" and i: "rf_inv clk [] s" and h: "rf_opened clk e s = Some s'" and e: "\<not> errs e"
  shows "rf_inv clk ([] @ [e]) s'"
proof -
  obtain f st where s: "s = (f, st)" by fastforce
  let ?st = "fst (clock_utc clk st)" and ?f = "f\<lparr>rf_last := clk (el_clock st)\<rparr>"
  obtain st' where st': "reg_timer clk ?f ?st = Some st'"
    "count_list (el_timers st') (rf_timer f) = count_list (el_timers st) (rf_timer f) + 1"
    "el_expiry st' (rf_timer f) = dt_plus (clk (Suc (el_clock st))) (rf_tick f)" "el_clock st' = Suc (Suc (el_clock st))"
    using reg_timer_eq[of clk ?f ?st] by auto
  have s': "s' = (?f\<lparr>rf_up := rf_up f @ [e]\<rparr>, st')" using h s st'(1) by (simp add: rf_opened_def split_beta Let_def)
  have sp: "spans_ok f" using i s by (simp add: rf_inv_def)
  have "due_soon clk (?f\<lparr>rf_up := rf_up f @ [e]\<rparr>) st'"
    unfolding due_soon_def using st'(3,4) expiry_eq[OF c sp] sp by (intro exI[of _ "el_clock st"]) (simp add: spans_ok_def)
  thus ?thesis
    using i s s' st'(2,4) e clock_range[OF c] clock_mono[OF c, of "el_clock st"]
    by (auto simp: rf_inv_def timers_of_def armed_def spans_ok_def)
qed

lemma due_later:
  assumes "due_soon clk f st" "rf_last f \<le> rf_last f'" "rf_recv f' = rf_recv f" "rf_tick f' = rf_tick f"
    "rf_timer f' = rf_timer f" "el_clock st \<le> el_clock st'" "el_expiry st' (rf_timer f) = el_expiry st (rf_timer f)"
  shows "due_soon clk f' st'"
proof -
  obtain n where "Suc n < el_clock st" "el_expiry st (rf_timer f) = clk (Suc n) + rf_tick f" "clk n \<le> rf_last f + rf_recv f"
    using assms(1) by (auto simp: due_soon_def)
  thus ?thesis unfolding due_soon_def using assms(2-) by (intro exI[of _ n]) simp
qed

lemma rf_error_inv:
  assumes c: "clock_ok clk" and i: "rf_inv clk es s" and h: "rf_on_error ec s = Some s'" and e: "es \<noteq> []"
  shows "rf_inv clk (es @ [On_Error ec]) s'"
proof -
  obtain f st where s: "s = (f, st)" by fastforce
  obtain st' where st': "el_cancel (el_thread st) (rf_timer f) (rf_timer f) st = Some st'"
    "count_list (el_timers st') (rf_timer f) = count_list (el_timers st) (rf_timer f) - 1"
    "el_clock st' = el_clock st"
    using cancel_eq[of st "rf_timer f" "rf_timer f"] by auto
  have "s' = (f\<lparr>rf_up := rf_up f @ [On_Error ec]\<rparr>, st')" using h s st'(1) by (simp add: rf_on_error_def)
  thus ?thesis using i s st'(2,3) e
    by (auto simp: rf_inv_def timers_of_def armed_def errs_def spans_ok_def split: if_splits)
qed

lemma rf_passed_inv:
  assumes c: "clock_ok clk" and i: "rf_inv clk es (f, st)" and e: "es \<noteq> []" "\<not> errs e"
    and f: "f' = f\<lparr>rf_last := l, rf_up := u\<rparr>" "rf_last f \<le> l" "l \<le> clk (el_clock st')"
    and st: "el_timers st' = el_timers st" "el_expiry st' = el_expiry st" "el_clock st \<le> el_clock st'"
  shows "rf_inv clk (es @ [e]) (f', st')"
proof -
  have a: "armed (es @ [e]) f' = armed es f" using e f(1) by (auto simp: armed_def)
  moreover have "due_soon clk f' st'" if "armed es f"
    using due_later[of clk f st f' st'] i f st that by (simp add: rf_inv_def)
  ultimately show ?thesis using i e f st by (auto simp: rf_inv_def timers_of_def spans_ok_def)
qed

lemma rf_event_inv:
  assumes c: "clock_ok clk" and i: "rf_inv clk es s" and o: "opened_once (es @ [e])" and h: "rf_event clk e s = Some s'"
  shows "rf_inv clk (es @ [e]) s'"
proof -
  have "opens e \<longleftrightarrow> es = []" using o by (cases es) (auto simp: opened_once_def)
  obtain f st where s: "s = (f, st)" by fastforce
  have l: "rf_last f \<le> clk (el_clock st)" using i s by (simp add: rf_inv_def)
  show ?thesis
  proof (cases "opens e")
    case True
    hence "es = []" "rf_opened clk e s = Some s'" "\<not> errs e"
      using h \<open>opens e \<longleftrightarrow> es = []\<close> by (auto simp: opens_def errs_def)
    thus ?thesis using rf_opened_inv[OF c _ _ , of s e s'] i by simp
  next
    case False
    hence ne: "es \<noteq> []" using \<open>opens e \<longleftrightarrow> es = []\<close> by simp
    show ?thesis
    proof (cases e)
      case (On_Error ec)
      thus ?thesis using rf_error_inv[OF c i _ ne] h by simp
    next
      case (On_Read m)
      have "s' = (f\<lparr>rf_last := clk (el_clock st), rf_up := rf_up f @ [e]\<rparr>, fst (clock_utc clk st))"
        using h s On_Read by (simp add: rf_on_read_def split_beta Let_def)
      thus ?thesis using rf_passed_inv[OF c i[unfolded s] ne, where e = e and l = "clk (el_clock st)" and
            st' = "fst (clock_utc clk st)" and f' = "fst s'" and u = "rf_up f @ [e]"] l
          clock_mono[OF c, of "el_clock st" "Suc (el_clock st)"] On_Read by (simp add: errs_def)
    next
      case (On_Write n b)
      thus ?thesis using rf_passed_inv[OF c i[unfolded s] ne, where e = e and l = "rf_last f" and
            st' = st and f' = "fst s'" and u = "rf_up f @ [e]"] l h s
        by (cases s') (simp add: errs_def)
    next
      case On_Closed
      thus ?thesis using rf_passed_inv[OF c i[unfolded s] ne, where e = e and l = "rf_last f" and
            st' = st and f' = "fst s'" and u = "rf_up f @ [e]"] l h s
        by (cases s') (simp add: errs_def)
    qed (use False in \<open>auto simp: opens_def\<close>)
  qed
qed

lemma rf_expire_inv:
  assumes c: "clock_ok clk" and i: "rf_inv clk es (f, st)" and t: "el_timers st = rf_timer f # ts"
    and h: "rf_on_timer clk (f, (fst (clock_utc clk st))\<lparr>el_timers := ts\<rparr>) = Some s'"
  shows "rf_inv clk es s'"
proof -
  let ?st = "fst (clock_utc clk ((fst (clock_utc clk st))\<lparr>el_timers := ts\<rparr>))" and ?n = "Suc (el_clock st)"
  have a: "armed es f" "count_list ts (rf_timer f) = 0" using i t by (auto simp: rf_inv_def timers_of_def split: if_splits)
  have l: "0 \<le> rf_last f" "rf_last f \<le> clk (el_clock st)" and sp: "spans_ok f" using i by (simp_all add: rf_inv_def)
  have n: "rf_last f \<le> clk ?n" "clk ?n \<le> clk (Suc ?n)" "clk ?n \<le> clk (Suc (Suc ?n))"
    using l(2) clock_mono[OF c, of "el_clock st" ?n] clock_mono[OF c, of ?n "Suc ?n"] clock_mono[OF c, of ?n "Suc (Suc ?n)"] by auto
  note d = diff_eq[OF c l(1) n(1)]
  show ?thesis
  proof (cases "rf_recv f < clk ?n - rf_last f")
    case True
    hence "s' = (f\<lparr>rf_errors := rf_errors f @ [(clk ?n, rf_last f, platform_timeout)]\<rparr>, ?st)"
      using h d by (simp add: rf_on_timer_def split_beta Let_def)
    thus ?thesis using i a True l n by (auto simp: rf_inv_def timers_of_def armed_def spans_ok_def)
  next
    case False
    obtain st' where st': "reg_timer clk f ?st = Some st'"
      "count_list (el_timers st') (rf_timer f) = count_list ts (rf_timer f) + 1"
      "el_expiry st' (rf_timer f) = dt_plus (clk (Suc ?n)) (rf_tick f)" "el_clock st' = Suc (Suc ?n)"
      using reg_timer_eq[of clk f ?st] by auto
    have "s' = (f, st')" using h d False st'(1) by (simp add: rf_on_timer_def split_beta Let_def)
    moreover have "due_soon clk f st'"
      unfolding due_soon_def using st'(3,4) expiry_eq[OF c sp] False by (intro exI[of _ ?n]) simp
    ultimately show ?thesis using i a st'(2,4) l n by (auto simp: rf_inv_def timers_of_def)
  qed
qed

lemma rf_elsewhere_inv:
  assumes c: "clock_ok clk" and i: "rf_inv clk es (f, st)" and e: "elsewhere (rf_timer f) st st'"
  shows "rf_inv clk es (f, st')"
proof -
  have "due_soon clk f st'" if "armed es f"
    using due_later[of clk f st f st'] i e that by (simp add: rf_inv_def elsewhere_def)
  moreover have "clk (el_clock st) \<le> clk (el_clock st')" using clock_mono[OF c] e by (simp add: elsewhere_def)
  ultimately show ?thesis using i e by (auto simp: rf_inv_def timers_of_def elsewhere_def)
qed

lemma opened_once_prefix: "opened_once (es @ fs) \<Longrightarrow> opened_once es"
  by (cases es) (auto simp: opened_once_def)

lemma rf_run_inv:
  assumes c: "clock_ok clk" and r: "rf_run clk s0 es s" and i: "rf_inv clk [] s0" and o: "opened_once es"
  shows "rf_inv clk es s"
  using r o
proof (induction rule: rf_run.induct)
  case rf_start
  show ?case by (rule i)
next
  case (rf_chan es s e s')
  show ?case using rf_event_inv[OF c rf_chan.IH[OF opened_once_prefix[OF rf_chan.prems]] rf_chan.prems rf_chan.hyps(2)] .
next
  case (rf_expire es f st ts s')
  show ?case using rf_expire_inv[OF c rf_expire.IH[OF rf_expire.prems] rf_expire.hyps(2,4)] .
next
  case (rf_elsewhere es f st st')
  show ?case using rf_elsewhere_inv[OF c rf_elsewhere.IH[OF rf_elsewhere.prems] rf_elsewhere.hyps(2)] .
qed

lemma rf_new_inv:
  "spans_ok (recv_time_out_filter recv tick t) \<Longrightarrow> clock_ok clk \<Longrightarrow> t \<notin> set (el_timers st) \<Longrightarrow>
   rf_inv clk [] (recv_time_out_filter recv tick t, st)"
  using clock_range by (auto simp: rf_inv_def recv_time_out_filter_def timers_of_def armed_def count_list_0_iff)

section \<open>The events of a channel\<close>

text \<open>An operation of a channel that adds events other than its opening, and closes it with an error
  only: its bit stays once an error or the close was told.\<close>

definition told_end :: "channel \<Rightarrow> bool" where
  "told_end c \<longleftrightarrow> (\<exists>e\<in>set (ch_trace c). errs e \<or> e = On_Closed)"

lemma unended_told: "unended c \<Longrightarrow> \<not> told_end c"
proof -
  assume "unended c"
  hence "closes_seen c = 0" "errors_seen c = 0" by (simp_all add: unended_def closes_made_def errors_made_def)
  thus ?thesis
    by (auto simp: told_end_def closes_seen_def errors_seen_def errs_def count_list_0_iff filter_empty_conv)
qed

definition goes_on :: "channel \<Rightarrow> channel \<Rightarrow> bool" where
  "goes_on c c' \<longleftrightarrow>
     (\<exists>es. ch_trace c' = ch_trace c @ es \<and> (\<forall>e\<in>set es. \<not> opens e) \<and> (On_Closed \<in> set es \<longrightarrow> has_error c')) \<and>
     (told_end c \<and> has_error c \<longrightarrow> has_error c')"

lemma goes_same: "ch_trace c' = ch_trace c \<Longrightarrow> ch_state c' = ch_state c \<Longrightarrow> goes_on c c'"
  by (auto simp: goes_on_def intro: exI[of _ "[]"])

lemma goes_bit: "ch_trace c' = ch_trace c \<Longrightarrow> ch_state c' = ch_state c OR b \<Longrightarrow> goes_on c c'"
  by (auto simp: goes_on_def bit_or_iff intro: exI[of _ "[]"])

lemma told_end_goes: "goes_on c c' \<Longrightarrow> told_end c \<Longrightarrow> told_end c'"
  by (auto simp: goes_on_def told_end_def)

lemma goes_trans:
  assumes "goes_on c d" "goes_on d e"
  shows "goes_on c e"
proof -
  obtain es where es: "ch_trace d = ch_trace c @ es" "\<forall>e\<in>set es. \<not> opens e" "On_Closed \<in> set es \<longrightarrow> has_error d"
    using assms(1) by (auto simp: goes_on_def)
  obtain fs where fs: "ch_trace e = ch_trace d @ fs" "\<forall>e\<in>set fs. \<not> opens e" "On_Closed \<in> set fs \<longrightarrow> has_error e"
    using assms(2) by (auto simp: goes_on_def)
  have "On_Closed \<in> set es \<longrightarrow> told_end d" using es(1) by (auto simp: told_end_def)
  hence "On_Closed \<in> set (es @ fs) \<longrightarrow> has_error e" using es(3) fs(3) assms(2) by (auto simp: goes_on_def)
  moreover have "told_end c \<and> has_error c \<longrightarrow> has_error e"
    using assms told_end_goes[OF assms(1)] by (simp add: goes_on_def)
  ultimately show ?thesis using es(1,2) fs(1,2) by (auto simp: goes_on_def)
qed

lemma goes_api1: "chan_api c c' \<Longrightarrow> goes_on c c'"
proof (induction rule: chan_api.induct)
  case (api_do_write c m)
  show ?case by (rule goes_same) (simp_all add: chan_ops)
next
  case (api_write c m)
  show ?case by (rule goes_same) (simp_all add: chan_ops)
next
  case (api_continue_read c)
  thus ?case using unended_told by (auto simp: goes_on_def api_trace[OF chan_api.api_continue_read])
qed (rule goes_bit; simp add: chan_ops)+

lemma goes_api: "chan_api\<^sup>*\<^sup>* c c' \<Longrightarrow> goes_on c c'"
proof (induction rule: rtranclp_induct)
  case base
  show ?case by (rule goes_same) simp_all
qed (blast intro: goes_trans goes_api1)

lemma goes_fire:
  assumes "filters_ok p" "\<not> opens e" "e = On_Closed \<longrightarrow> has_error c"
  shows "goes_on c (fire p e c)"
proof -
  have "goes_on c (c\<lparr>ch_trace := ch_trace c @ [e]\<rparr>)" using assms(2,3) by (auto simp: goes_on_def)
  moreover have "goes_on (c\<lparr>ch_trace := ch_trace c @ [e]\<rparr>) (fire p e c)"
    using assms(1) unfolding fire_def filters_ok_def by (intro goes_api) blast
  ultimately show ?thesis by (rule goes_trans)
qed

lemma goes_error: "filters_ok p \<Longrightarrow> goes_on c (fire_on_error p e c)"
  unfolding fire_on_error_def
  by (rule goes_trans[OF goes_same goes_fire]) (auto simp: socket_close_def opens_def)

lemma goes_error_now:
  assumes p: "filters_ok p"
  shows "goes_on c (error_propagation_now p e c) \<and> has_error (error_propagation_now p e c)"
proof -
  let ?c = "c\<lparr>ch_state := ch_state c OR k_error_bit\<rparr>"
  let ?d = "(socket_close ?c)\<lparr>ch_trace := ch_trace c @ [On_Error e]\<rparr>"
  have c: "goes_on c ?c" by (rule goes_bit) simp_all
  have "goes_on ?d (fire_on_error p e ?c)"
    using goes_api p by (simp add: fire_on_error_def fire_def filters_ok_def socket_close_def)
  moreover have "told_end ?d" "has_error ?d" by (auto simp: told_end_def errs_def socket_close_def or_bits)
  ultimately have h: "has_error (fire_on_error p e ?c)" by (simp add: goes_on_def)
  have "goes_on c (fire_on_error p e ?c)" using goes_trans[OF c goes_error[OF p]] .
  moreover have "has_error c \<Longrightarrow> ?c = c" using or_same(2) by simp
  ultimately show ?thesis using c h by (auto simp: error_propagation_now_def split_beta Let_def fetch_or_bits)
qed

lemma goes_release: "goes_on c (release c)" "goes_on c (touch c)"
  by (rule goes_same; simp add: release_def touch_def)+

lemma goes_propagation: "goes_on c (error_propagation e c)"
  by (rule goes_bit; simp add: chan_ops)

lemma goes_register: "goes_on c (register_handle k c)"
proof -
  let ?c = "c\<lparr>ch_reg_events := e, ch_evt := e, ch_calls := n\<rparr>" 
  have "goes_on c (c\<lparr>ch_reg_events := e, ch_evt := e, ch_calls := n\<rparr>)"
    "goes_on c (c\<lparr>ch_reg_events := e, ch_evt := e, ch_calls := n, ch_interest := i\<rparr>)" for e n i
    by (rule goes_same; simp)+
  thus ?thesis using goes_trans[OF _ goes_propagation]
    by (auto simp: register_handle_def Let_def intro: goes_same split: option.split)
qed

lemma goes_close: "filters_ok p \<Longrightarrow> goes_on c (fire_on_close p c)"
proof -
  assume p: "filters_ok p"
  let ?e = "error_propagation_now p (tdk_error Tdk_User_Abort) (socket_close c)"
  have eq: "fire_on_close p c = release (loop_remove_active (fire p On_Closed ?e))"
    by (simp add: fire_on_close_def error_propagation_now_def split_beta Let_def)
  have "goes_on c (socket_close c)" by (rule goes_same) (simp_all add: socket_close_def)
  hence "goes_on c ?e" using goes_error_now[OF p] goes_trans by blast
  moreover have "goes_on ?e (fire p On_Closed ?e)"
    by (rule goes_fire[OF p]) (use goes_error_now[OF p] in \<open>simp_all add: opens_def\<close>)
  ultimately have "goes_on c (fire p On_Closed ?e)" by (rule goes_trans)
  moreover have "goes_on d (loop_remove_active d)" for d by (rule goes_same) (simp_all add: loop_remove_active_def)
  ultimately show ?thesis unfolding eq using goes_release(1) goes_trans by blast
qed

lemma goes_readable:
  assumes p: "filters_ok p" and h: "handle_readable k p c = Some c'"
  shows "goes_on c c'"
proof (cases "is_bits_on (k_error_bit OR k_close_bit OR k_read_pending_bit) c")
  case True
  thus ?thesis using h by (auto simp: handle_readable_def intro: goes_same)
next
  case False
  then obtain res n where c': "c' = (case res of
            Read_Failed e \<Rightarrow> error_propagation_now p (platform_error e) (c\<lparr>ch_calls := n\<rparr>)
          | Received bs \<Rightarrow>
              if bs = [] then error_propagation_now p (tdk_error Tdk_Network_Remote_Closed) (c\<lparr>ch_calls := n\<rparr>)
              else fire_on_read p bs (c\<lparr>ch_calls := n\<rparr>))"
    using h by (auto simp: handle_readable_def bind_eq_Some_conv Let_def)
  have "goes_on (c\<lparr>ch_calls := n\<rparr>) c'" unfolding c' fire_on_read_def
    using goes_error_now[OF p] goes_fire[OF p] by (auto simp: opens_def split: read_result.split)
  moreover have "goes_on c (c\<lparr>ch_calls := n\<rparr>)" by (rule goes_same) simp_all
  ultimately show ?thesis using goes_trans by blast
qed

lemma goes_writeable:
  assumes p: "filters_ok p" and h: "handle_writeable k p c = Some c'"
  shows "goes_on c c'"
proof (cases "is_bits_on (k_error_bit OR k_close_bit) c \<or> ch_queue c = []")
  case True
  thus ?thesis using h by (auto simp: handle_writeable_def intro: goes_same split: if_splits)
next
  case False
  then obtain c1 ok where s: "send_remains k c = Some (c1, ok)"
    and c': "c' = (if is_error (ch_send_error c1) then error_propagation_now p (ch_send_error c1) c1
                   else fire_on_write p (ch_send_bytes c1) (ch_queue c1 = []) c1)"
    using h by (auto simp: handle_writeable_def bind_eq_Some_conv)
  have "goes_on c c1" using send_loop_frame[OF s[unfolded send_remains_def]] by (simp add: goes_same)
  moreover have "goes_on c1 c'" unfolding c' fire_on_write_def using goes_error_now[OF p] goes_fire[OF p] by (auto simp: opens_def)
  ultimately show ?thesis by (rule goes_trans)
qed

lemma goes_io:
  assumes p: "filters_ok p" and h: "handle_io_events k p e c = Some c'"
  shows "goes_on c c'"
proof -
  have t: "goes_on c (touch c)" by (rule goes_release)
  consider (off) "is_bits_on (k_error_bit OR k_close_bit) (touch c)"
    | (err) "\<not> is_bits_on (k_error_bit OR k_close_bit) (touch c)" "e AND EPOLL_ERR \<noteq> 0"
    | (hup) "\<not> is_bits_on (k_error_bit OR k_close_bit) (touch c)" "e AND EPOLL_ERR = 0" "e AND EPOLL_HUP \<noteq> 0"
    | (io) "\<not> is_bits_on (k_error_bit OR k_close_bit) (touch c)" "e AND EPOLL_ERR = 0" "e AND EPOLL_HUP = 0"
    by blast
  thus ?thesis
  proof cases
    case off
    thus ?thesis using h t by (simp add: handle_io_events_def Let_def)
  next
    case err
    have "goes_on c ((touch c)\<lparr>ch_calls := n\<rparr>)" for n by (rule goes_same) (simp_all add: touch_def)
    from goes_trans[OF this conjunct1[OF goes_error_now[OF p]]] show ?thesis
      using h err by (auto simp: handle_io_events_def Let_def)
  next
    case hup
    thus ?thesis using h goes_trans[OF t conjunct1[OF goes_error_now[OF p]]] by (auto simp: handle_io_events_def Let_def)
  next
    case io
    then obtain c1 c2 where s: "(if e AND EPOLL_IN \<noteq> 0 then handle_readable k p (touch c) else Some (touch c)) = Some c1"
      "(if e AND EPOLL_OUT \<noteq> 0 then handle_writeable k p c1 else Some c1) = Some c2"
      "c' = register_handle k c2"
      using h by (auto simp: handle_io_events_def Let_def bind_eq_Some_conv)
    have "goes_on (touch c) c1" using s(1) goes_readable[OF p] by (auto intro: goes_same split: if_splits)
    moreover have "goes_on c1 c2" using s(2) goes_writeable[OF p] by (auto intro: goes_same split: if_splits)
    ultimately have "goes_on c c2" using t goes_trans by blast
    thus ?thesis unfolding s(3) using goes_register by (rule goes_trans)
  qed
qed

lemma goes_around: "goes_on (touch c) d \<Longrightarrow> goes_on c (release d)"
  by (rule goes_trans[OF goes_release(2) goes_trans[OF _ goes_release(1)]])

lemma goes_call:
  assumes p: "filters_ok p" and h: "chan_call k p t c = Some c'"
  shows "goes_on c c'"
proof (cases t)
  case Do_Close
  thus ?thesis using h goes_around[OF goes_close[OF p]] by (auto simp: handle_close_def)
next
  case On_Send
  then obtain d where "handle_io_events k p EPOLL_OUT c = Some d" "c' = release d"
    using h by (auto simp: handle_send_def bind_eq_Some_conv)
  thus ?thesis using goes_trans[OF goes_io[OF p] goes_release(1)] by blast
next
  case Do_Error_Propagation
  thus ?thesis using h goes_around[OF goes_error[OF p]] by (auto simp: handle_error_propagation_def)
next
  case (Write_Shot m)
  have "goes_on d (fire_do_write p m d)" for d
    using p goes_api by (auto simp: fire_do_write_def filters_ok_def intro: goes_same)
  thus ?thesis using h Write_Shot goes_around by (auto simp: handle_write_shot_def)
next
  case Continue_Shot
  thus ?thesis using h goes_around[OF goes_register] by (auto simp: handle_continue_shot_def)
qed

lemma goes_step:
  assumes p: "filters_ok p" and h: "chan_step k p c c'"
  shows "goes_on c c'"
  using h
proof (cases rule: chan_step.cases)
  case step_task
  have t: "goes_on c (c\<lparr>ch_pending := ts\<rparr>)" for ts by (rule goes_same) simp_all
  show ?thesis
  proof (cases "ch_pending c")
    case Nil
    thus ?thesis using step_task by (simp add: chan_run_next_def goes_same)
  next
    case (Cons x ts)
    let ?c = "c\<lparr>ch_pending := ts\<rparr>"
    have "chan_call k p x ?c = Some c'" using step_task Cons by (simp add: chan_run_next_def)
    from goes_trans[OF t goes_call[OF p this]] show ?thesis .
  qed
next
  case (step_event e)
  have "goes_on c (c\<lparr>ch_evt := e\<rparr>)" by (rule goes_same) simp_all
  thus ?thesis using goes_io[OF p] step_event(2) goes_trans by (auto simp: on_io_events_def Let_def)
next
  case step_call
  thus ?thesis using goes_api by blast
qed

text \<open>The trace of a channel: opened first and once, and closed with an error.\<close>

definition trace_ok :: "channel \<Rightarrow> bool" where
  "trace_ok c \<longleftrightarrow> opened_once (ch_trace c) \<and> ch_trace c \<noteq> [] \<and> (On_Closed \<in> set (ch_trace c) \<longrightarrow> has_error c)"

lemma trace_goes: "trace_ok c \<Longrightarrow> goes_on c c' \<Longrightarrow> trace_ok c'"
  by (cases "ch_trace c") (auto simp: trace_ok_def goes_on_def opened_once_def told_end_def)

lemma channel_trace:
  assumes p: "filters_ok p" and r: "(chan_step k p)\<^sup>*\<^sup>* (fire_on_accepted k p addr channel_new) c"
  shows "trace_ok c"
  using r
proof (induction rule: rtranclp_induct)
  case base
  let ?c = "loop_add_active (register_handle k (retain channel_new))"
  have "ch_trace (register_handle k c) = ch_trace c" for c
    by (simp add: register_handle_def error_propagation_def fetch_or_def retain_def touch_def loop_execute_def Let_def
        split: option.split)
  hence "ch_trace ?c = []" by (simp add: loop_add_active_def retain_def touch_def channel_new_def)
  hence "trace_ok (?c\<lparr>ch_trace := ch_trace ?c @ [On_Accepted addr]\<rparr>)" by (simp add: trace_ok_def opened_once_def opens_def)
  moreover have "goes_on (?c\<lparr>ch_trace := ch_trace ?c @ [On_Accepted addr]\<rparr>) (fire_on_accepted k p addr channel_new)"
    unfolding fire_on_accepted_def fire_def using p by (intro goes_api) (simp add: filters_ok_def)
  ultimately show ?case by (rule trace_goes)
next
  case (step d e)
  thus ?case using trace_goes goes_step[OF p] by blast
qed

text \<open>A channel that is deleted has told its filters an error.\<close>

lemma deleted_errs:
  assumes i: "chan_inv 0 0 0 0 c" and d: "ch_deleted c" and t: "trace_ok c"
  shows "\<exists>e\<in>set (ch_trace c). errs e"
proof -
  have c: "ch_refs c = 0" "closes_seen c \<le> 1" using i d seen_le[OF i] by (auto simp: chan_inv_def)
  have "int (length (ch_pending c)) = int (closes_seen c) - 1" using i c(1) by (simp add: chan_inv_def)
  hence "length (ch_pending c) = 0" "closes_seen c = 1" using c(2) by linarith+
  hence "ch_pending c = []" "closes_seen c = 1" by simp_all
  moreover from this(2) have "On_Closed \<in> set (ch_trace c)"
    using count_list_0_iff[of "ch_trace c" On_Closed] by (auto simp: closes_seen_def)
  moreover have "\<not> frozen 0 0 c" using \<open>closes_seen c = 1\<close> by (simp add: frozen_def closes_made_def)
  ultimately have "errors_seen c = 1" using i t by (simp add: chan_inv_def trace_ok_def errors_made_def)
  then obtain e where "e \<in> set (filter (\<lambda>e. case e of On_Error _ \<Rightarrow> True | _ \<Rightarrow> False) (ch_trace c))"
    unfolding errors_seen_def by (cases "filter (\<lambda>e. case e of On_Error _ \<Rightarrow> True | _ \<Rightarrow> False) (ch_trace c)") auto
  thus ?thesis by (intro bexI[of _ e]) (auto simp: errs_def split: chan_event.splits)
qed

section \<open>The filter in its channel and its loop\<close>

text \<open>C10. No timer outlives its channel: when the channel that runs the filter deletes itself, and the
  filter with it, the timer of the filter is not in the list of the loop, in whatever order the
  events of the channel, expiries of the timer and other work of the loop came; filters and users
  call \<open>continue_read\<close> only as long as no error and no close was made (\<open>chan_api\<close>: after a close it sets
  the bit of an error that no filter hears of). At no time is the timer in the list twice.\<close>

theorem time_out_timer_released:
  assumes "filters_ok p" "writev_ok k"
    and ch: "(chan_step k p)\<^sup>*\<^sup>* (fire_on_accepted k p addr channel_new) c"
    and clk: "clock_ok clk" and sp: "spans_ok (recv_time_out_filter recv tick t)"
    and run: "rf_run clk (recv_time_out_filter recv tick t, st0) (ch_trace c) (f, st)"
    and t: "t \<notin> set (el_timers st0)"
  shows "count_list (el_timers st) (rf_timer f) \<le> 1 \<and> (ch_deleted c \<longrightarrow> rf_timer f \<notin> set (el_timers st))"
proof -
  have tr: "trace_ok c" by (rule channel_trace[OF assms(1) ch])
  have i: "rf_inv clk (ch_trace c) (f, st)"
    using rf_run_inv[OF clk run rf_new_inv[OF sp clk t]] tr by (simp add: trace_ok_def)
  have "\<not> armed (ch_trace c) f" if "ch_deleted c"
    using deleted_errs[OF reachable_inv[OF assms(1-3)] that tr] by (auto simp: armed_def)
  thus ?thesis using i by (auto simp: rf_inv_def timers_of_def count_list_0_iff split: if_splits)
qed

text \<open>C26. The filter is neither early nor late. Every error it gives the channel is \<open>timeout\<close>, at a
  time when nothing was received for longer than \<open>recv\<close>, and it gives one at most. As long as the
  connection is up and no error was given, its timer is in the list and expires no later than
  \<open>tick\<close> after the reading \<open>n + 1\<close> of the clock that follows one within \<open>recv\<close> of the last receipt; when it
  expires it either reports or is set again, so that silence is noticed one tick late at most.\<close>

theorem time_out_exact:
  assumes clk: "clock_ok clk" and sp: "spans_ok (recv_time_out_filter recv tick t)"
    and t: "t \<notin> set (el_timers st0)" and o: "opened_once es"
    and run: "rf_run clk (recv_time_out_filter recv tick t, st0) es (f, st)"
  shows "length (rf_errors f) \<le> 1 \<and>
    (\<forall>(now, last, ec)\<in>set (rf_errors f). rf_recv f < now - last \<and> ec = platform_timeout) \<and>
    (es \<noteq> [] \<and> (\<forall>e\<in>set es. \<not> errs e) \<and> rf_errors f = [] \<longrightarrow>
       rf_timer f \<in> set (el_timers st) \<and>
       (\<exists>n. clk n \<le> rf_last f + rf_recv f \<and> el_expiry st (rf_timer f) = clk (Suc n) + rf_tick f))"
proof -
  have i: "rf_inv clk es (f, st)" by (rule rf_run_inv[OF clk run rf_new_inv[OF sp clk t] o])
  hence "armed es f \<longrightarrow> timers_of (f, st) = 1 \<and> due_soon clk f st" by (simp add: rf_inv_def)
  moreover have "rf_timer f \<in> set (el_timers st)" if "timers_of (f, st) = 1"
    using that count_list_0_iff[of "el_timers st" "rf_timer f"] by (auto simp: timers_of_def)
  ultimately show ?thesis using i by (auto simp: rf_inv_def armed_def due_soon_def)
qed

text \<open>The operations of the loop that the filter uses.\<close>

lemma reg_timer_api:
  assumes n: "rf_timer f \<noteq> wk" "not_queued (rf_timer f) st" "rf_timer f \<notin> set (el_timers st)"
    and h: "reg_timer clk f st = Some st'"
  shows "(api wk)\<^sup>*\<^sup>* st st'"
proof -
  let ?t = "rf_timer f" and ?a = "fst (clock_utc clk st)"
  let ?b = "?a\<lparr>el_expiry := (el_expiry ?a)(?t := dt_plus (clk (el_clock st)) (rf_tick f))\<rparr>"
  have "api wk st ?a" by (rule api_clock)
  moreover have "api wk ?a ?b" by (rule api_expiry) (use n(3) in simp)
  moreover have "not_queued ?t ?b" using n(2) by (simp add: not_queued_def queued_def st_pool_def clock_utc_def)
  hence "api wk ?b st'" using n(1) h by (intro api_schedule[where n = ?t and tid = "el_thread ?b"])
      (auto simp: reg_timer_def split_beta Let_def)
  ultimately show ?thesis by (meson converse_rtranclp_into_rtranclp rtranclp.rtrancl_refl)
qed

lemma not_queued_clock: "not_queued n (fst (clock_utc clk st)) = not_queued n st"
  by (simp add: not_queued_def queued_def st_pool_def clock_utc_def)

text \<open>The filter keeps to the operations of the loop, which theory \<open>Event_Loop\<close> requires of
  handlers: an event of the channel is a sequence of them, when the timer is not set at the opening,
  and so is an expiry of the timer, which the loop has taken from its list.\<close>

theorem time_out_keeps_loop:
  assumes n: "rf_timer f \<noteq> wk" "not_queued (rf_timer f) st"
  shows "(rf_event clk e (f, st) = Some s1 \<and> (opens e \<longrightarrow> rf_timer f \<notin> set (el_timers st)) \<longrightarrow> (api wk)\<^sup>*\<^sup>* st (snd s1)) \<and>
    (rf_on_timer clk (f, st) = Some s2 \<and> rf_timer f \<notin> set (el_timers st) \<longrightarrow> (api wk)\<^sup>*\<^sup>* st (snd s2))"
proof -
  let ?a = "fst (clock_utc clk st)"
  have a: "api wk st ?a" by (rule api_clock)
  have reg: "(api wk)\<^sup>*\<^sup>* st st'" if "reg_timer clk g ?a = Some st'" "rf_timer g = rf_timer f" "rf_timer f \<notin> set (el_timers st)" for g st'
  proof -
    have "(api wk)\<^sup>*\<^sup>* ?a st'" using reg_timer_api[of g wk ?a] n that by (simp add: not_queued_clock)
    thus ?thesis using a by (metis converse_rtranclp_into_rtranclp)
  qed
  have cancel: "api wk st st'" if "el_cancel (el_thread st) (rf_timer f) (rf_timer f) st = Some st'" for st'
    by (rule api_cancel[OF n that])
  have op: "(api wk)\<^sup>*\<^sup>* st (snd s1)" if "rf_opened clk e (f, st) = Some s1" "rf_timer f \<notin> set (el_timers st)" for e
    using that reg[of "f\<lparr>rf_last := clk (el_clock st)\<rparr>"]
    by (auto simp: rf_opened_def split_beta Let_def bind_eq_Some_conv)
  have "(api wk)\<^sup>*\<^sup>* st (snd s1)" if h: "rf_event clk e (f, st) = Some s1" "opens e \<longrightarrow> rf_timer f \<notin> set (el_timers st)"
  proof (cases e)
    case (On_Error ec)
    thus ?thesis using h cancel by (auto simp: rf_on_error_def bind_eq_Some_conv)
  next
    case (On_Read m)
    thus ?thesis using h a by (auto simp: rf_on_read_def split_beta Let_def)
  qed (use h op in \<open>auto simp: opens_def\<close>)
  moreover have "(api wk)\<^sup>*\<^sup>* st (snd s2)" if h: "rf_on_timer clk (f, st) = Some s2" "rf_timer f \<notin> set (el_timers st)"
    using h a reg[of f] by (auto simp: rf_on_timer_def split_beta Let_def bind_eq_Some_conv split: if_splits)
  ultimately show ?thesis by blast
qed

section \<open>A silent connection\<close>

text \<open>An hour of the clock passes with every reading.\<close>

definition slow_clock :: "nat \<Rightarrow> date_time" where
  "slow_clock n = min (int n * 3600000000) (2 ^ 61)"

lemma slow_clock_ok: "clock_ok slow_clock"
  by (auto simp: clock_ok_def slow_clock_def mono_def min_def)

definition minute_filter :: recv_filter where
  "minute_filter = recv_time_out_filter 60000000 5000000 3"

lemma minute_simps [simp]:
  "rf_timer minute_filter = 3" "rf_recv minute_filter = 60000000" "rf_tick minute_filter = 5000000"
  "rf_last minute_filter = 0" "rf_up minute_filter = []" "rf_errors minute_filter = []"
  by (simp_all add: minute_filter_def recv_time_out_filter_def)

lemma minute_ok: "spans_ok (recv_time_out_filter 60000000 5000000 3)"
  by (simp add: spans_ok_def recv_time_out_filter_def)

lemma loop_new_simps [simp]:
  "el_timers (event_loop_new tid wk fd) = []" "el_clock (event_loop_new tid wk fd) = 0"
  "el_thread (event_loop_new tid wk fd) = tid"
  by (simp_all add: event_loop_new_def)

lemma slow_steps: "slow_clock 0 = 0" "slow_clock (Suc 0) = 3600000000" "slow_clock (Suc (Suc 0)) = 7200000000" "slow_clock (Suc (Suc (Suc 0))) = 10800000000"
  by (simp_all add: slow_clock_def)

lemma time_out_exact_witness:
  "\<exists>f st. rf_run slow_clock (minute_filter, event_loop_new 7 2 3) [On_Connected] (f, st) \<and>
     map (\<lambda>(now, last, ec). ec) (rf_errors f) = [platform_timeout] \<and> length (rf_errors f) \<le> 1"
proof -
  let ?f = "minute_filter\<lparr>rf_up := [On_Connected]\<rparr>"
  obtain st where st: "rf_event slow_clock On_Connected (minute_filter, event_loop_new 7 2 3) = Some (?f, st)"
    "el_timers st = [3]" "el_expiry st 3 = 3605000000" "el_clock st = Suc (Suc 0)"
    by (simp add: rf_opened_def reg_timer_def el_schedule_def el_in_loop_def el_add_active_def clock_utc_def Let_def
        sch_insert_def slow_steps dt_plus_def to_u64_def)
  have r: "rf_run slow_clock (minute_filter, event_loop_new 7 2 3) ([] @ [On_Connected]) (?f, st)"
    by (rule rf_chan[OF rf_start st(1)])
  have d: "dt_diff 10800000000 0 = 10800000000" by (simp add: dt_diff_def to_u64_def to_i64_def)
  let ?g = "?f\<lparr>rf_errors := [(10800000000, 0, platform_timeout)]\<rparr>"
  obtain st2 where "rf_on_timer slow_clock (?f, (fst (clock_utc slow_clock st))\<lparr>el_timers := []\<rparr>) = Some (?g, st2)"
    using st(4) d slow_steps(4) by (simp add: rf_on_timer_def clock_utc_def Let_def)
  hence e: "rf_run slow_clock (minute_filter, event_loop_new 7 2 3) [On_Connected] (?g, st2)"
    using rf_expire[OF r, of "[]"] st(2-4) slow_steps(3) by simp
  note x = time_out_exact[OF slow_clock_ok minute_ok _ _ e[unfolded minute_filter_def]]
  have "length (rf_errors ?g) \<le> 1" using x by (simp add: opened_once_def opens_def minute_filter_def)
  moreover have "map (\<lambda>(now, last, ec). ec) (rf_errors ?g) = [platform_timeout]" by simp
  ultimately show ?thesis by (intro exI[of _ ?g] exI[of _ st2] conjI) (rule e)
qed

text \<open>An accepted channel that the user closes.\<close>

lemma closing_channel:
  "\<exists>c. (chan_step short_kernel quiet_filters)\<^sup>*\<^sup>* (fire_on_accepted short_kernel quiet_filters 9 channel_new) c \<and>
     ch_deleted c \<and> ch_trace c = [On_Accepted 9, On_Error (tdk_error Tdk_User_Abort), On_Closed]"
proof -
  let ?s = "chan_step short_kernel quiet_filters"
  let ?a = "channel_new\<lparr>ch_refs := 1, ch_handles := 1, ch_reg_events := EPOLL_IN, ch_evt := EPOLL_IN,
      ch_calls := 1, ch_interest := Some EPOLL_IN, ch_trace := [On_Accepted 9]\<rparr>"
  let ?d = "handle_close quiet_filters (?a\<lparr>ch_state := 2, ch_refs := 2\<rparr>)"
  have c0: "fire_on_accepted short_kernel quiet_filters 9 channel_new = ?a"
    by (simp add: fire_on_accepted_def fire_def quiet_filters_def loop_add_active_def register_handle_def
        retain_def touch_def channel_new_def is_bits_on_def Let_def short_kernel_def EPOLL_IN_def)
  have c1: "ch_close ?a = ?a\<lparr>ch_state := 2, ch_refs := 2, ch_pending := [Do_Close]\<rparr>"
    by (simp add: ch_close_def fetch_or_def retain_def touch_def loop_execute_def channel_new_def k_close_bit_def)
  have s: "?s ?a (ch_close ?a)" by (rule step_call[OF _ api_close]) (simp add: channel_new_def)
  have t: "?s (ch_close ?a) ?d" unfolding c1 by (rule step_task) (simp add: chan_run_next_def channel_new_def)
  have "?s\<^sup>*\<^sup>* (fire_on_accepted short_kernel quiet_filters 9 channel_new) ?d"
    unfolding c0 by (rule rtranclp_trans[OF r_into_rtranclp[where r = ?s, OF s] r_into_rtranclp[where r = ?s, OF t]])
  moreover have "ch_deleted ?d" "ch_trace ?d = [On_Accepted 9, On_Error (tdk_error Tdk_User_Abort), On_Closed]"
    by (simp_all add: handle_close_def fire_on_close_def fire_def quiet_filters_def release_def
        loop_remove_active_def fire_on_error_def socket_close_def touch_def fetch_or_def channel_new_def
        k_error_bit_def)
  ultimately show ?thesis by blast
qed

lemma time_out_timer_released_witness:
  "\<exists>(c :: channel) f st. ch_deleted c \<and> rf_run slow_clock (minute_filter, event_loop_new 7 2 3) (ch_trace c) (f, st) \<and>
     rf_up f = ch_trace c \<and> 3 \<notin> set (el_timers st)"
proof -
  obtain c where c: "(chan_step short_kernel quiet_filters)\<^sup>*\<^sup>* (fire_on_accepted short_kernel quiet_filters 9 channel_new) c"
    "ch_deleted c" "ch_trace c = [On_Accepted 9, On_Error (tdk_error Tdk_User_Abort), On_Closed]"
    using closing_channel by blast
  let ?f = "\<lambda>es. minute_filter\<lparr>rf_up := es\<rparr>" and ?ab = "On_Error (tdk_error Tdk_User_Abort)"
  obtain st where st: "rf_event slow_clock (On_Accepted 9) (minute_filter, event_loop_new 7 2 3) = Some (?f [On_Accepted 9], st)"
    by (simp add: rf_opened_def reg_timer_def el_schedule_def el_in_loop_def clock_utc_def Let_def
        slow_steps)
  obtain st2 where st2: "rf_event slow_clock ?ab (?f [On_Accepted 9], st) = Some (?f [On_Accepted 9, ?ab], st2)"
    using cancel_eq[of st 3 3] by (auto simp: rf_on_error_def)
  have st3: "rf_event slow_clock On_Closed (?f [On_Accepted 9, ?ab], st2) = Some (?f [On_Accepted 9, ?ab, On_Closed], st2)"
    by simp
  note r = rf_chan[OF rf_chan[OF rf_chan[OF rf_start st] st2] st3]
  hence run: "rf_run slow_clock (minute_filter, event_loop_new 7 2 3) (ch_trace c) (?f (ch_trace c), st2)" using c(3) by simp
  have "3 \<notin> set (el_timers st2)"
    using time_out_timer_released[OF quiet_filters_ok short_kernel_ok c(1) slow_clock_ok minute_ok run[unfolded minute_filter_def]] c(2)
    by (simp add: recv_time_out_filter_def)
  moreover have "rf_up (?f (ch_trace c)) = ch_trace c" by simp
  ultimately show ?thesis using c(2) run by (intro exI[of _ c] exI[of _ "?f (ch_trace c)"] exI[of _ st2] conjI)
qed

lemma time_out_keeps_loop_witness:
  "\<exists>st. (api 2)\<^sup>*\<^sup>* (event_loop_new 7 2 3) st \<and> 3 \<in> set (el_timers st)"
proof -
  let ?s = "event_loop_new 7 2 3"
  obtain st where st: "rf_event slow_clock (On_Accepted 9) (minute_filter, ?s) = Some (minute_filter\<lparr>rf_up := [On_Accepted 9]\<rparr>, st)"
    "3 \<in> set (el_timers st)"
    by (simp add: rf_opened_def reg_timer_def el_schedule_def el_in_loop_def el_add_active_def clock_utc_def Let_def
        slow_steps)
  have "not_queued 3 ?s" using not_queued_iff[OF new_queued] by simp
  hence "(api 2)\<^sup>*\<^sup>* ?s (snd (minute_filter\<lparr>rf_up := [On_Accepted 9]\<rparr>, st))"
    using time_out_keeps_loop[where f = minute_filter and wk = 2 and st = ?s and clk = slow_clock and e = "On_Accepted 9" and
        ?s1.0 = "(minute_filter\<lparr>rf_up := [On_Accepted 9]\<rparr>, st)"] st(1) by simp
  thus ?thesis using st(2) by auto
qed

end
