(* ===== verification/Strings.thy ===== *)
theory Strings
  imports Prelude "HOL-Library.Monad_Syntax" "HOL-Library.Sublist"
begin

text \<open>
  String functions (\<open>util/string.hpp\<close>, \<open>util/string.cpp\<close>) and the configuration file that uses
  them (\<open>util/conf.cpp\<close>). A \<open>std::basic_string\<close> is a list; a position is \<open>None\<close> for \<open>npos\<close>. What
  is used of the standard library is written out first. The functions on arrays of characters work
  on the characters before the terminating zero, and are \<open>None\<close> where they leave the array.
\<close>

section \<open>Searching, of the standard library\<close>

fun index_of :: "('a \<Rightarrow> bool) \<Rightarrow> 'a list \<Rightarrow> nat option" where
  "index_of P [] = None"
| "index_of P (x # xs) = (if P x then Some 0 else map_option Suc (index_of P xs))"

fun rindex_of :: "('a \<Rightarrow> bool) \<Rightarrow> 'a list \<Rightarrow> nat option" where
  "rindex_of P [] = None"
| "rindex_of P (x # xs) =
     (case rindex_of P xs of Some i \<Rightarrow> Some (Suc i) | None \<Rightarrow> if P x then Some 0 else None)"

definition find_first_of :: "'a list \<Rightarrow> nat \<Rightarrow> 'a list \<Rightarrow> nat option" where
  "find_first_of s pos msg = map_option ((+) pos) (index_of (\<lambda>c. c \<in> set s) (drop pos msg))"

definition find_first_not_of :: "'a list \<Rightarrow> nat \<Rightarrow> 'a list \<Rightarrow> nat option" where
  "find_first_not_of s pos msg = map_option ((+) pos) (index_of (\<lambda>c. c \<notin> set s) (drop pos msg))"

definition find_last_not_of :: "'a list \<Rightarrow> 'a list \<Rightarrow> nat option" where
  "find_last_not_of s msg = rindex_of (\<lambda>c. c \<notin> set s) msg"

fun prefix_at :: "'a list \<Rightarrow> 'a list \<Rightarrow> nat option" where
  "prefix_at p [] = (if p = [] then Some 0 else None)"
| "prefix_at p (x # xs) = (if prefix p (x # xs) then Some 0 else map_option Suc (prefix_at p xs))"

text \<open>\<open>find\<close>: the first occurrence from \<open>pos\<close> on; the empty pattern occurs at the end, not after.\<close>

definition str_find :: "'a list \<Rightarrow> nat \<Rightarrow> 'a list \<Rightarrow> nat option" where
  "str_find p pos msg = (if length msg < pos then None else map_option ((+) pos) (prefix_at p (drop pos msg)))"

definition substr :: "nat \<Rightarrow> nat \<Rightarrow> 'a list \<Rightarrow> 'a list" where
  "substr pos n msg = take n (drop pos msg)"

lemma index_of_Some: "index_of P xs = Some i \<Longrightarrow> i < length xs \<and> P (xs ! i) \<and> take i xs = takeWhile (\<lambda>x. \<not> P x) xs"
  by (induction xs arbitrary: i) (auto split: if_splits)

lemma index_of_None: "index_of P xs = None \<longleftrightarrow> (\<forall>x\<in>set xs. \<not> P x)"
  by (induction xs) auto

lemma index_of_drop: "index_of P xs = Some i \<Longrightarrow> drop i xs = dropWhile (\<lambda>x. \<not> P x) xs"
  by (induction xs arbitrary: i) (auto split: if_splits)

lemma index_of_all: "index_of P xs = None \<Longrightarrow> takeWhile (\<lambda>x. \<not> P x) xs = xs \<and> dropWhile (\<lambda>x. \<not> P x) xs = []"
  by (simp add: index_of_None)

section \<open>Split\<close>

function split_loop :: "'a list \<Rightarrow> 'a list \<Rightarrow> nat option \<Rightarrow> 'a list list" where
  "split_loop msg sep start =
     (case start of
        None \<Rightarrow> []
      | Some i \<Rightarrow>
          if length msg \<le> i then []
          else
            (let stop = (case find_first_of sep i msg of None \<Rightarrow> length msg | Some j \<Rightarrow> j)
             in substr i (stop - i) msg # split_loop msg sep (find_first_not_of sep (stop + 1) msg)))"
  by pat_completeness auto
termination
  by (relation "measure (\<lambda>(msg, sep, start). case start of None \<Rightarrow> 0 | Some i \<Rightarrow> Suc (length msg) - i)")
    (auto simp: find_first_of_def find_first_not_of_def split: option.splits)

declare split_loop.simps [simp del]

definition split :: "'a list \<Rightarrow> 'a list \<Rightarrow> 'a list list" where
  "split msg sep = split_loop msg sep (find_first_not_of sep 0 msg)"

text \<open>The reference: the longest runs of characters that are no separators.\<close>

function runs :: "('a \<Rightarrow> bool) \<Rightarrow> 'a list \<Rightarrow> 'a list list" where
  "runs P xs =
     (case dropWhile (\<lambda>x. \<not> P x) xs of [] \<Rightarrow> [] | y # ys \<Rightarrow> takeWhile P (y # ys) # runs P (dropWhile P (y # ys)))"
  by pat_completeness auto
termination
proof (relation "measure (\<lambda>(P, xs). length xs)", goal_cases)
  case (2 P xs y ys)
  have "P y" using 2 by (metis hd_dropWhile list.distinct(1) list.sel(1))
  moreover have "length (y # ys) \<le> length xs" using 2 by (metis length_dropWhile_le)
  ultimately show ?case using length_dropWhile_le[of P ys] by simp
qed simp

declare runs.simps [simp del]

lemma runs_Nil [simp]: "runs P [] = []"
  by (simp add: runs.simps)

lemma runs_skip: "runs P (dropWhile (\<lambda>x. \<not> P x) xs) = runs P xs"
  by (subst (1 2) runs.simps) (simp add: dropWhile_idem)

lemma runs_skip_in: "runs (\<lambda>c. c \<notin> S) (dropWhile (\<lambda>c. c \<in> S) xs) = runs (\<lambda>c. c \<notin> S) xs"
  using runs_skip[of "\<lambda>c. c \<notin> S" xs] by simp

lemma runs_step:
  assumes "P x"
  shows "runs P (x # xs) = takeWhile P (x # xs) # runs P (dropWhile P (x # xs))"
  by (subst runs.simps) (simp add: assms)

lemma split_loop_runs:
  "split_loop msg sep start = (case start of None \<Rightarrow> [] | Some i \<Rightarrow> runs (\<lambda>c. c \<notin> set sep) (drop i msg))"
  if "\<And>i. start = Some i \<Longrightarrow> i < length msg \<and> msg ! i \<notin> set sep"
  using that
proof (induction msg sep start rule: split_loop.induct)
  case (1 msg sep start)
  let ?P = "\<lambda>c. c \<notin> set sep"
  show ?case
  proof (cases start)
    case None
    thus ?thesis by (simp add: split_loop.simps)
  next
    case (Some i)
    hence i: "i < length msg" "?P (msg ! i)" using 1(2) by auto
    define stop where "stop = (case find_first_of sep i msg of None \<Rightarrow> length msg | Some j \<Rightarrow> j)"
    let ?next = "find_first_not_of sep (stop + 1) msg"
    have d: "drop i msg = msg ! i # drop (Suc i) msg" using i by (simp add: Cons_nth_drop_Suc)
    have tw: "substr i (stop - i) msg = takeWhile ?P (drop i msg)" "drop stop msg = dropWhile ?P (drop i msg)" "i \<le> stop"
    proof -
      show "substr i (stop - i) msg = takeWhile ?P (drop i msg)" "drop stop msg = dropWhile ?P (drop i msg)"
      proof (cases "index_of (\<lambda>c. c \<in> set sep) (drop i msg)", goal_cases)
        case 1
        thus ?case by (simp add: stop_def find_first_of_def substr_def index_of_all[OF 1])
      next
        case (2 l)
        thus ?case using index_of_Some[OF 2] by (simp add: stop_def find_first_of_def substr_def)
      next
        case 3
        show ?case
        proof (cases "index_of (\<lambda>c. c \<in> set sep) (drop i msg)")
          case None
          thus ?thesis by (simp add: stop_def find_first_of_def index_of_all[OF None])
        next
          case (Some l)
          thus ?thesis using index_of_drop[OF Some] by (simp add: stop_def find_first_of_def add.commute)
        qed
      qed
      show "i \<le> stop" using i by (auto simp: stop_def find_first_of_def split: option.split)
    qed
    have n: "(case ?next of None \<Rightarrow> [] | Some j \<Rightarrow> runs ?P (drop j msg)) = runs ?P (drop stop msg)"
    proof (cases "stop < length msg")
      case True
      have "\<not> ?P (msg ! stop)"
        using True tw(2) by (metis Cons_nth_drop_Suc dropWhile_eq_Cons_conv)
      hence s: "runs ?P (drop stop msg) = runs ?P (drop (Suc stop) msg)"
        using True by (metis (mono_tags, lifting) Cons_nth_drop_Suc dropWhile.simps(2) runs_skip)
      show ?thesis
      proof (cases ?next)
        case None
        hence "dropWhile (\<lambda>x. \<not> ?P x) (drop (Suc stop) msg) = []"
          by (auto simp: find_first_not_of_def index_of_None)
        hence "runs ?P (drop (Suc stop) msg) = []" by (subst runs_skip[symmetric]) (simp only: runs_Nil)
        thus ?thesis using None s by simp
      next
        case (Some j)
        then obtain l where l: "index_of ?P (drop (Suc stop) msg) = Some l" "j = Suc stop + l"
          by (auto simp: find_first_not_of_def)
        have "drop j msg = dropWhile (\<lambda>x. \<not> ?P x) (drop (Suc stop) msg)"
          using index_of_drop[OF l(1)] l(2) by (simp add: add.commute)
        thus ?thesis using Some s by (simp add: runs_skip_in)
      qed
    next
      case False
      thus ?thesis by (simp add: find_first_not_of_def)
    qed
    have "i' < length msg \<and> msg ! i' \<notin> set sep" if "?next = Some i'" for i'
      using that index_of_Some[of ?P "drop (stop + 1) msg"] by (fastforce simp: find_first_not_of_def)
    hence "split_loop msg sep ?next = runs ?P (drop stop msg)"
      using 1(1)[OF Some _ stop_def] i n by (simp add: not_le)
    thus ?thesis using Some i tw d runs_step[of ?P "msg ! i" "drop (Suc i) msg"]
      by (subst split_loop.simps) (simp add: stop_def[symmetric])
  qed
qed

lemma split_eq_runs: "split msg sep = runs (\<lambda>c. c \<notin> set sep) msg"
proof -
  let ?P = "\<lambda>c. c \<notin> set sep"
  have "split msg sep = (case find_first_not_of sep 0 msg of None \<Rightarrow> [] | Some i \<Rightarrow> runs ?P (drop i msg))"
    unfolding split_def using index_of_Some[of ?P msg]
    by (intro split_loop_runs) (auto simp: find_first_not_of_def)
  also have "\<dots> = runs ?P (dropWhile (\<lambda>x. \<not> ?P x) msg)"
  proof (cases "index_of ?P msg")
    case None
    show ?thesis by (simp only: index_of_all[OF None] runs_Nil) (simp add: find_first_not_of_def None)
  next
    case (Some i)
    show ?thesis by (simp only: index_of_drop[OF Some, symmetric]) (simp add: find_first_not_of_def Some)
  qed
  finally show ?thesis by (simp only: runs_skip)
qed

fun join :: "'a \<Rightarrow> 'a list list \<Rightarrow> 'a list" where
  "join c [] = []"
| "join c [t] = t"
| "join c (t # ts) = t @ c # join c ts"

lemma takeWhile_field: "\<forall>x\<in>set t. P x \<Longrightarrow> \<not> P c \<Longrightarrow> takeWhile P (t @ c # xs) = t \<and> dropWhile P (t @ c # xs) = c # xs"
  by (induction t) auto

lemma runs_join:
  assumes "\<forall>t\<in>set ts. t \<noteq> [] \<and> (\<forall>x\<in>set t. P x)" "\<not> P c"
  shows "runs P (join c ts) = ts"
  using assms(1)
proof (induction ts rule: induct_list012)
  case (2 t)
  then obtain x xs where "t = x # xs" "P x" by (cases t) auto
  thus ?case using 2 runs_step[of P x xs] by (simp add: takeWhile_eq_all_conv[THEN iffD2] dropWhile_eq_Nil_conv[THEN iffD2])
next
  case (3 t u us)
  then obtain x xs where t: "t = x # xs" "P x" by (cases t) auto
  have "runs P (join c (t # u # us)) = takeWhile P (t @ c # join c (u # us)) # runs P (dropWhile P (t @ c # join c (u # us)))"
    using runs_step[of P x "xs @ c # join c (u # us)"] t by simp
  also have "\<dots> = t # runs P (c # join c (u # us))" using 3 takeWhile_field[of t P c] assms(2) by simp
  also have "runs P (c # join c (u # us)) = runs P (join c (u # us))"
    using assms(2) runs_skip[of P "c # join c (u # us)"] runs_skip[of P "join c (u # us)"] by simp
  finally show ?case using 3 by simp
qed simp

text \<open>\<open>split\<close> (\<open>util/string.hpp\<close>) returns the longest runs of characters that are no separators,
  from left to right: empty fields are dropped, and so are separators at both ends.\<close>

theorem split_runs: "split msg sep = runs (\<lambda>c. c \<notin> set sep) msg"
  by (rule split_eq_runs)

text \<open>\<open>split\<close> undoes joining: fields that are not empty and hold no separator come back in order.\<close>

theorem split_join:
  assumes "\<forall>t\<in>set ts. t \<noteq> [] \<and> (\<forall>x\<in>set t. x \<notin> set sep)" "c \<in> set sep"
  shows "split (join c ts) sep = ts"
  unfolding split_eq_runs by (rule runs_join) (use assms in auto)

lemma split_join_witness: "split (join CHR '','' [''ab'', ''c'']) '','' = [''ab'', ''c'']"
  by (rule split_join) simp_all

section \<open>Replace\<close>

partial_function (option) replace_loop :: "'a list \<Rightarrow> 'a list \<Rightarrow> 'a list \<Rightarrow> nat \<Rightarrow> 'a list option" where
  "replace_loop pattern rep out stop =
     (case str_find pattern stop out of
        None \<Rightarrow> Some out
      | Some start \<Rightarrow>
          replace_loop pattern rep (take start out @ rep @ drop (start + length pattern) out) (start + length pattern))"

definition str_replace :: "'a list \<Rightarrow> 'a list \<Rightarrow> 'a list \<Rightarrow> 'a list option" where
  "str_replace msg pattern rep = replace_loop pattern rep msg 0"

text \<open>The reference: every occurrence, from left to right and without overlap.\<close>

function replaced :: "'a list \<Rightarrow> 'a list \<Rightarrow> 'a list \<Rightarrow> 'a list" where
  "replaced p r xs =
     (if p = [] then xs
      else case xs of
        [] \<Rightarrow> []
      | x # ys \<Rightarrow> if prefix p xs then r @ replaced p r (drop (length p) xs) else x # replaced p r ys)"
  by pat_completeness auto
termination
  by (relation "measure (\<lambda>(p, r, xs). length xs)") (auto simp: prefix_def)

declare replaced.simps [simp del]

lemma replaced_Nil [simp]: "replaced p r [] = []"
  by (simp add: replaced.simps)

lemma prefix_at_Some:
  "prefix_at p xs = Some i \<Longrightarrow> p \<noteq> [] \<Longrightarrow> i + length p \<le> length xs \<and> prefix p (drop i xs) \<and>
     replaced p r xs = take i xs @ r @ replaced p r (drop (i + length p) xs)"
proof (induction p xs arbitrary: i rule: prefix_at.induct)
  case (2 p x xs)
  show ?case
  proof (cases "prefix p (x # xs)")
    case True
    hence "i = 0" using 2 by simp
    thus ?thesis using True 2(3) prefix_length_le[OF True] by (subst replaced.simps) simp
  next
    case False
    then obtain j where j: "prefix_at p xs = Some j" "i = Suc j" using 2 by auto
    thus ?thesis using 2(1)[OF False j(1) 2(3)] False 2(3) by (subst replaced.simps) simp
  qed
qed auto

lemma prefix_at_None: "prefix_at p xs = None \<Longrightarrow> replaced p r xs = xs"
proof (induction p xs rule: prefix_at.induct)
  case (2 p x xs)
  thus ?case by (subst replaced.simps) (auto split: if_splits)
qed (auto split: if_splits)

text \<open>\<open>replace\<close> with a replacement as long as the pattern, which is not empty, returns the string
  with every occurrence replaced, from left to right.\<close>

theorem replace_same_length:
  assumes "p \<noteq> []" "length r = length p"
  shows "str_replace msg p r = Some (replaced p r msg)"
proof -
  have "replace_loop p r out stop = Some (take stop out @ replaced p r (drop stop out))"
    if "stop \<le> length out" for out stop
    using that
  proof (induction "length out - stop" arbitrary: out stop rule: less_induct)
    case less
    show ?case
    proof (cases "prefix_at p (drop stop out)")
      case None
      thus ?thesis using less.prems prefix_at_None[OF None] by (subst replace_loop.simps) (simp add: str_find_def)
    next
      case (Some i)
      note a = prefix_at_Some[OF Some assms(1), of r]
      let ?out = "take (stop + i) out @ r @ drop (stop + i + length p) out" and ?stop = "stop + i + length p"
      have l: "?stop \<le> length out" "length ?out = length out" using a less.prems assms(2) by auto
      have "length ?out - ?stop < length out - stop" using l assms(1) less.prems by (cases p) auto
      hence "replace_loop p r ?out ?stop = Some (take ?stop ?out @ replaced p r (drop ?stop ?out))"
        using less.hyps l by simp
      moreover have "take ?stop ?out = take (stop + i) out @ r" "drop ?stop ?out = drop ?stop out"
        using l assms(2) by auto
      moreover have "take stop out @ replaced p r (drop stop out) = take (stop + i) out @ r @ replaced p r (drop ?stop out)"
        using a using take_add[of stop i out] by (simp add: add.assoc add.commute add.left_commute)
      ultimately show ?thesis using Some less.prems by (subst replace_loop.simps) (simp add: str_find_def)
    qed
  qed
  from this[of 0 msg] show ?thesis by (simp add: str_replace_def)
qed

text \<open>\<open>replace\<close> searches on from the end of the pattern and not of the replacement. When the
  pattern is one character that the replacement holds after its first place, a string with that
  character is never done: every round finds what the last one put in. The same holds for an empty
  pattern and any string.\<close>

theorem replace_hangs:
  assumes "p = [] \<or> (\<exists>c k. p = [c] \<and> c \<in> set msg \<and> 0 < k \<and> k < length r \<and> r ! k = c)"
  shows "str_replace msg p r = None"
proof -
  define found where "found stop out \<longleftrightarrow> stop \<le> length out \<and> (p = [] \<or> (\<exists>c. p = [c] \<and> c \<in> set (drop stop out)))"
    for stop and out :: "'a list"
  have next_found: "\<exists>start. str_find p stop out = Some start \<and>
      found (start + length p) (take start out @ r @ drop (start + length p) out)" if "found stop out" for stop out
  proof (cases "p = []")
    case True
    have "prefix_at p (drop stop out) = Some 0" using True by (cases "drop stop out") auto
    thus ?thesis using that True by (simp add: str_find_def found_def)
  next
    case False
    then obtain c k where c: "p = [c]" "0 < k" "k < length r" "r ! k = c" using assms by auto
    have "c \<in> set xs \<Longrightarrow> \<exists>i. prefix_at [c] xs = Some i \<and> i < length xs" for xs
      by (induction xs) (auto split: if_splits)
    moreover have "c \<in> set (drop stop out)" using that c(1) by (simp add: found_def)
    ultimately obtain i where i: "prefix_at p (drop stop out) = Some i" "i < length (drop stop out)"
      using c(1) by blast
    let ?start = "stop + i"
    let ?out = "take ?start out @ r @ drop (?start + length p) out"
    have l: "length (take ?start out) = ?start" using i(2) by simp
    have "drop (Suc ?start) ?out = drop 1 r @ drop (?start + length p) out"
      using c(2,3) l by (simp add: drop_append Suc_diff_le del: length_take)
    moreover have "c \<in> set (drop 1 r)" using c(2-4) nth_mem[of "k - 1" "drop 1 r"] by simp
    ultimately have "found (?start + length p) ?out" using c l i(2) by (simp add: found_def)
    thus ?thesis using i(1) that by (auto simp: str_find_def found_def)
  qed
  have "\<not> found stop out" if "replace_loop p r out stop = Some y" for out stop y
  proof -
    have "p' = p \<and> r' = r \<longrightarrow> \<not> found stop out" if "replace_loop p' r' out stop = Some y" for p' r' out stop y
    proof (rule replace_loop.raw_induct[where P = "\<lambda>p' r' out stop y. p' = p \<and> r' = r \<longrightarrow> \<not> found stop out", OF _ that], intro impI notI)
      fix f :: "'a list \<Rightarrow> 'a list \<Rightarrow> 'a list \<Rightarrow> nat \<Rightarrow> 'a list option" and p' r' out stop y
      assume ih: "\<And>p' r' out stop y. f p' r' out stop = Some y \<Longrightarrow> p' = p \<and> r' = r \<longrightarrow> \<not> found stop out"
        and h: "(case str_find p' stop out of None \<Rightarrow> Some out
          | Some start \<Rightarrow> f p' r' (take start out @ r' @ drop (start + length p') out) (start + length p')) = Some y"
        and e: "p' = p \<and> r' = r" "found stop out"
      obtain start where s: "str_find p stop out = Some start"
        "found (start + length p) (take start out @ r @ drop (start + length p) out)" using next_found[OF e(2)] by blast
      show False using ih[of p r _ "start + length p" y] h e(1) s by auto
    qed
    thus ?thesis using that by blast
  qed
  moreover have "found 0 msg" using assms by (auto simp: found_def)
  ultimately show ?thesis by (cases "replace_loop p r msg 0") (auto simp: str_replace_def)
qed

section \<open>Trimming\<close>

definition ltrim :: "'a list \<Rightarrow> 'a list \<Rightarrow> 'a list" where
  "ltrim msg t =
     (case find_first_not_of t 0 msg of Some start \<Rightarrow> substr start (length msg - start) msg | None \<Rightarrow> msg)"

definition rtrim :: "'a list \<Rightarrow> 'a list \<Rightarrow> 'a list" where
  "rtrim msg t = (case find_last_not_of t msg of Some e \<Rightarrow> substr 0 (e + 1) msg | None \<Rightarrow> msg)"

definition trim :: "'a list \<Rightarrow> 'a list \<Rightarrow> 'a list" where
  "trim msg t =
     (let msg1 = (case find_last_not_of t msg of Some pos \<Rightarrow> take (pos + 1) msg | None \<Rightarrow> msg)
      in case find_first_not_of t 0 msg1 of Some pos \<Rightarrow> drop pos msg1 | None \<Rightarrow> msg1)"

lemma rindex_of_Some:
  "rindex_of P xs = Some i \<Longrightarrow> i < length xs \<and> take (Suc i) xs = rev (dropWhile (\<lambda>x. \<not> P x) (rev xs))"
proof (induction xs arbitrary: i)
  case (Cons x xs)
  show ?case
  proof (cases "rindex_of P xs")
    case (Some j)
    have "\<exists>y\<in>set (rev xs). P y"
    proof (rule ccontr)
      assume "\<not> (\<exists>y\<in>set (rev xs). P y)"
      hence "rindex_of P xs = None" by (induction xs) auto
      thus False using Some by simp
    qed
    thus ?thesis using Cons.IH[OF Some] Cons.prems Some by (auto simp: dropWhile_append)
  next
    case None
    hence "\<forall>y\<in>set xs. \<not> P y" by (induction xs) (auto split: option.splits if_splits)
    thus ?thesis using Cons.prems None by (auto simp: dropWhile_append split: if_splits)
  qed
qed simp

lemma rindex_of_None: "rindex_of P xs = None \<longleftrightarrow> (\<forall>x\<in>set xs. \<not> P x)"
  by (induction xs) (auto split: option.splits)

text \<open>Trimming removes the characters of \<open>t\<close> at one end or both, unless the string has no
  others: a string of such characters alone is returned as it is, and not the empty string.\<close>

theorem trim_ends:
  defines "dw \<equiv> \<lambda>t xs. dropWhile (\<lambda>c. c \<in> set t) xs"
  shows "(if \<exists>c\<in>set msg. c \<notin> set t
     then ltrim msg t = dw t msg \<and> rtrim msg t = rev (dw t (rev msg)) \<and> trim msg t = dw t (rev (dw t (rev msg)))
     else ltrim msg t = msg \<and> rtrim msg t = msg \<and> trim msg t = msg)"
proof (cases "\<exists>c\<in>set msg. c \<notin> set t")
  case True
  let ?P = "\<lambda>c. c \<notin> set t" and ?r = "rev (dw t (rev msg))"
  have first: "\<exists>i. index_of ?P xs = Some i \<and> drop i xs = dw t xs" if "\<exists>c\<in>set xs. c \<notin> set t" for xs
    using that index_of_None[of ?P xs] index_of_drop[of ?P xs] by (cases "index_of ?P xs") (auto simp: dw_def)
  obtain i where i: "index_of ?P msg = Some i" "drop i msg = dw t msg" using first[OF True] by blast
  obtain j where j: "rindex_of ?P msg = Some j" "take (Suc j) msg = ?r"
    using True rindex_of_None[of ?P msg] rindex_of_Some[of ?P msg] by (cases "rindex_of ?P msg") (auto simp: dw_def)
  have "dw t (rev msg) \<noteq> []" using True by (simp add: dw_def dropWhile_eq_Nil_conv)
  hence "\<exists>c\<in>set ?r. c \<notin> set t" using hd_dropWhile[of "\<lambda>c. c \<in> set t" "rev msg"] hd_in_set[of "dw t (rev msg)"]
    by (metis dw_def set_rev)
  then obtain l where l: "index_of ?P ?r = Some l" "drop l ?r = dw t ?r" using first by blast
  have "ltrim msg t = dw t msg"
  proof -
    have "ltrim msg t = drop i msg" using i(1) by (simp add: ltrim_def find_first_not_of_def substr_def)
    thus ?thesis using i(2) by simp
  qed
  moreover have "rtrim msg t = ?r" using j by (simp add: rtrim_def find_last_not_of_def substr_def)
  moreover have "trim msg t = dw t ?r" using j l by (simp add: trim_def find_last_not_of_def find_first_not_of_def)
  ultimately show ?thesis using True by simp
next
  case False
  hence "index_of (\<lambda>c. c \<notin> set t) msg = None" "rindex_of (\<lambda>c. c \<notin> set t) msg = None"
    by (simp_all add: index_of_None rindex_of_None)
  thus ?thesis using False by (auto simp: ltrim_def rtrim_def trim_def find_first_not_of_def find_last_not_of_def)
qed

text \<open>The versions for arrays of characters, with the zero that ends the text and what follows it.
  An index outside the array is \<open>None\<close>.\<close>

function skip_from :: "u8 \<Rightarrow> u8 list \<Rightarrow> nat \<Rightarrow> nat option" where
  "skip_from ch buf i = (if length buf \<le> i then None else if buf ! i = ch then skip_from ch buf (i + 1) else Some i)"
  by pat_completeness auto
termination by (relation "measure (\<lambda>(ch, buf, i). length buf - i)") auto

function copy_down :: "u8 list \<Rightarrow> nat \<Rightarrow> nat \<Rightarrow> u8 list option" where
  "copy_down buf start i =
     (if length buf \<le> i then None
      else if buf ! i = 0 then Some (buf[start := 0])
      else copy_down (buf[start := buf ! i]) (start + 1) (i + 1))"
  by pat_completeness auto
termination by (relation "measure (\<lambda>(buf, start, i). length buf - i)") auto

declare skip_from.simps [simp del] copy_down.simps [simp del]

definition ltrim_array :: "u8 \<Rightarrow> u8 list \<Rightarrow> u8 list option" where
  "ltrim_array ch buf = do { i \<leftarrow> skip_from ch buf 0; (if i = 0 then Some buf else copy_down buf 0 i) }"

fun back_from :: "u8 \<Rightarrow> u8 list \<Rightarrow> nat \<Rightarrow> nat option" where
  "back_from ch buf 0 = None"
| "back_from ch buf (Suc e) = (if buf ! e = ch then back_from ch buf e else Some e)"

definition str_len :: "u8 list \<Rightarrow> nat" where
  "str_len buf = length (takeWhile (\<lambda>c. c \<noteq> 0) buf)"

definition rtrim_array :: "u8 \<Rightarrow> u8 list \<Rightarrow> u8 list option" where
  "rtrim_array ch buf = do { e \<leftarrow> back_from ch buf (str_len buf); Some (buf[e + 1 := 0]) }"

lemma skip_from_eq:
  "ch \<noteq> 0 \<Longrightarrow> skip_from ch (a @ s @ 0 # rest) (length a) = Some (length a + length (takeWhile (\<lambda>c. c = ch) s))"
proof (induction s arbitrary: a)
  case Nil
  thus ?case by (subst skip_from.simps) simp
next
  case (Cons x s)
  show ?case using Cons.prems Cons.IH[of "a @ [x]"] by (subst skip_from.simps) auto
qed

lemma copy_down_eq:
  "0 \<notin> set s \<Longrightarrow> mid \<noteq> [] \<Longrightarrow>
   \<exists>r. copy_down (pre @ mid @ s @ 0 # rest) (length pre) (length pre + length mid) = Some (pre @ s @ 0 # r)"
proof (induction s arbitrary: pre mid)
  case Nil
  then obtain m ms where "mid = m # ms" by (cases mid) auto
  thus ?case by (subst copy_down.simps) (simp add: nth_append)
next
  case (Cons x s)
  then obtain m ms where m: "mid = m # ms" by (cases mid) auto
  have "copy_down (pre @ mid @ (x # s) @ 0 # rest) (length pre) (length pre + length mid) =
      copy_down ((pre @ [x]) @ (ms @ [x]) @ s @ 0 # rest) (length (pre @ [x])) (length (pre @ [x]) + length (ms @ [x]))"
    using Cons.prems m by (subst copy_down.simps) (simp add: nth_append)
  thus ?case using Cons.IH[of "ms @ [x]" "pre @ [x]"] Cons.prems by simp
qed

lemma text_of: "0 \<notin> set s \<Longrightarrow> takeWhile (\<lambda>c. c \<noteq> 0) (s @ 0 # rest) = s"
  by (induction s) auto

lemma back_from_eq:
  "back_from ch (s @ rest) (length s) =
     (if \<exists>x\<in>set s. x \<noteq> ch then Some (length (dropWhile (\<lambda>c. c = ch) (rev s)) - 1) else None)"
proof (induction s arbitrary: rest rule: rev_induct)
  case (snoc x s)
  show ?case using snoc[of "x # rest"] by (auto simp: nth_append)
qed simp

text \<open>The trimming functions for arrays, on a text \<open>s\<close> that ends with a zero: \<open>ltrim\<close> moves the
  rest of the text to the front. \<open>rtrim\<close> cuts the text after its last other character; when there is
  none, for an empty text already, it goes on reading in front of the array.\<close>

theorem trim_arrays:
  assumes "0 \<notin> set s" "ch \<noteq> 0"
  shows "(\<exists>buf. ltrim_array ch (s @ 0 # rest) = Some buf \<and>
      takeWhile (\<lambda>c. c \<noteq> 0) buf = dropWhile (\<lambda>c. c = ch) s) \<and>
    (if \<exists>x\<in>set s. x \<noteq> ch then
       \<exists>buf. rtrim_array ch (s @ 0 # rest) = Some buf \<and>
         takeWhile (\<lambda>c. c \<noteq> 0) buf = rev (dropWhile (\<lambda>c. c = ch) (rev s))
     else rtrim_array ch (s @ 0 # rest) = None)"
proof (intro conjI)
  let ?a = "takeWhile (\<lambda>c. c = ch) s" and ?b = "dropWhile (\<lambda>c. c = ch) s"
  have s: "?a @ ?b = s" "0 \<notin> set ?b"
    using assms(1) set_dropWhileD[of 0 "\<lambda>c. c = ch" s] by auto
  show "\<exists>buf. ltrim_array ch (s @ 0 # rest) = Some buf \<and> takeWhile (\<lambda>c. c \<noteq> 0) buf = ?b"
  proof (cases "?a = []")
    case True
    hence "?b = s" using s(1) by simp
    thus ?thesis using True skip_from_eq[OF assms(2), of "[]" s rest] text_of[OF assms(1)] by (simp add: ltrim_array_def)
  next
    case False
    obtain r where "copy_down (?a @ ?b @ 0 # rest) 0 (length ?a) = Some (?b @ 0 # r)"
      using copy_down_eq[OF s(2) False, of "[]" rest] by auto
    hence "copy_down (s @ 0 # rest) 0 (length ?a) = Some (?b @ 0 # r)" using s(1) by (metis append.assoc)
    thus ?thesis using False skip_from_eq[OF assms(2), of "[]" s rest] text_of[OF s(2)] by (simp add: ltrim_array_def)
  qed
next
  let ?d = "dropWhile (\<lambda>c. c = ch) (rev s)"
  have l: "str_len (s @ 0 # rest) = length s" by (simp add: str_len_def text_of[OF assms(1)])
  show "if \<exists>x\<in>set s. x \<noteq> ch then
       \<exists>buf. rtrim_array ch (s @ 0 # rest) = Some buf \<and> takeWhile (\<lambda>c. c \<noteq> 0) buf = rev ?d
     else rtrim_array ch (s @ 0 # rest) = None"
  proof (cases "\<exists>x\<in>set s. x \<noteq> ch")
    case True
    hence "?d \<noteq> []" by (simp add: dropWhile_eq_Nil_conv)
    obtain e where e: "rev s = e @ ?d" by (metis takeWhile_dropWhile_id)
    hence s: "s = rev ?d @ rev e" by (metis rev_append rev_rev_ident)
    have "0 \<notin> set (rev ?d)" using assms(1) set_dropWhileD[of 0 "\<lambda>c. c = ch" "rev s"] by auto
    have "rtrim_array ch (s @ 0 # rest) = Some ((s @ 0 # rest)[length ?d := 0])"
      using back_from_eq[of ch s "0 # rest"] True l \<open>?d \<noteq> []\<close> by (simp add: rtrim_array_def)
    also have "(s @ 0 # rest)[length ?d := 0] = rev ?d @ (rev e @ 0 # rest)[0 := 0]"
    proof -
      have "s @ 0 # rest = rev ?d @ rev e @ 0 # rest" using s by (metis append.assoc)
      thus ?thesis by (simp only: list_update_append length_rev) simp
    qed
    also have "(rev e @ 0 # rest)[0 := 0] = 0 # tl (rev e @ 0 # rest)" by (cases "rev e") auto
    finally show ?thesis using True text_of[OF \<open>0 \<notin> set (rev ?d)\<close>] by simp
  next
    case False
    thus ?thesis using back_from_eq[of ch s "0 # rest"] l by (simp add: rtrim_array_def)
  qed
qed

section \<open>Case, hexadecimal digits, parts\<close>

text \<open>\<open>isalpha\<close> of the C locale: the ASCII letters; characters from 128 on are negative, and its
  argument must not be negative but for \<open>EOF\<close> (255).\<close>

definition is_alpha :: "u8 \<Rightarrow> bool option" where
  "is_alpha c = (if 128 \<le> c \<and> c < 255 then None else Some (65 \<le> c \<and> c \<le> 90 \<or> 97 \<le> c \<and> c \<le> 122))"

definition upper_char :: "u8 \<Rightarrow> u8 option" where
  "upper_char c = do { a \<leftarrow> is_alpha c; Some (if a \<and> 97 \<le> c then c - 32 else c) }"

definition lower_char :: "u8 \<Rightarrow> u8 option" where
  "lower_char c = do { a \<leftarrow> is_alpha c; Some (if a \<and> c \<le> 90 then c + 32 else c) }"

fun to_upper :: "u8 list \<Rightarrow> u8 list option" where
  "to_upper [] = Some []"
| "to_upper (c # cs) = do { u \<leftarrow> upper_char c; us \<leftarrow> to_upper cs; Some (u # us) }"

fun to_lower :: "u8 list \<Rightarrow> u8 list option" where
  "to_lower [] = Some []"
| "to_lower (c # cs) = do { u \<leftarrow> lower_char c; us \<leftarrow> to_lower cs; Some (u # us) }"

definition hex_digits :: string where
  "hex_digits = ''0123456789abcdef''"

fun hex_string :: "u8 list \<Rightarrow> string" where
  "hex_string [] = []"
| "hex_string (b # bs) = hex_digits ! unat (drop_bit 4 b) # hex_digits ! unat (b AND 0x0f) # hex_string bs"

definition between :: "'a list \<Rightarrow> 'a list \<Rightarrow> 'a list \<Rightarrow> 'a list" where
  "between src pre post =
     (case str_find pre 0 src of
        None \<Rightarrow> []
      | Some b \<Rightarrow>
          (case str_find post (b + length pre) src of
             None \<Rightarrow> []
           | Some e \<Rightarrow> substr (b + length pre) (e - (b + length pre)) src))"

definition hex_value :: "char \<Rightarrow> nat" where
  "hex_value c = (let n = of_char c in if n < 58 then n - 48 else n - 87)"

fun unhex :: "string \<Rightarrow> u8 list" where
  "unhex (a # b # cs) = of_nat (hex_value a * 16 + hex_value b) # unhex cs"
| "unhex cs = []"

text \<open>The digits of \<open>hex_string\<close> give the bytes back: two for each, the high half first.\<close>

theorem hex_roundtrip: "unhex (hex_string bs) = bs \<and> length (hex_string bs) = 2 * length bs"
proof (induction bs)
  case (Cons b bs)
  have v: "n < 16 \<Longrightarrow> hex_value (hex_digits ! n) = n" for n
  proof -
    have "\<forall>n\<in>set [0..<16]. hex_value (hex_digits ! n) = n" by code_simp
    thus "n < 16 \<Longrightarrow> hex_value (hex_digits ! n) = n" by simp
  qed
  have h: "unat (drop_bit 4 b) = unat b div 16" unfolding unat_drop_bit_eq by (simp only: drop_bit_eq_div) simp
  have l: "unat (b AND 0x0f) = unat b mod 16"
  proof -
    have "b AND 0x0f = take_bit 4 b" by (simp add: take_bit_eq_mask mask_eq_exp_minus_1)
    thus ?thesis by (simp only: unsigned_take_bit_eq) (simp add: take_bit_eq_mod)
  qed
  have "unat b < 256" by (rule unat_u8_less)
  hence "of_nat (unat (drop_bit 4 b) * 16 + unat (b AND 0x0f)) = b" unfolding h l by (simp add: mult.commute)
  moreover have "unat b div 16 < 16" "unat b mod 16 < 16" using less_mult_imp_div_less[of "unat b" 16 16] by simp_all
  ultimately show ?case using Cons v[of "unat b div 16"] v[of "unat b mod 16"]
    by (simp only: hex_string.simps unhex.simps h l) simp
qed simp

lemma prefix_at_first:
  "prefix_at p xs = Some i \<longleftrightarrow> i + length p \<le> length xs \<and> prefix p (drop i xs) \<and> (\<forall>j<i. \<not> prefix p (drop j xs))"
proof (induction p xs arbitrary: i rule: prefix_at.induct)
  case (2 p x xs)
  show ?case
  proof (cases "prefix p (x # xs)")
    case True
    thus ?thesis using prefix_length_le[OF True] by auto
  next
    case False
    have "prefix_at p (x # xs) = Some i \<longleftrightarrow> (\<exists>j. i = Suc j \<and> prefix_at p xs = Some j)" using False by auto
    also have "\<dots> \<longleftrightarrow> i + length p \<le> length (x # xs) \<and> prefix p (drop i (x # xs)) \<and> (\<forall>j<i. \<not> prefix p (drop j (x # xs)))"
      using 2[OF False] False by (cases i) (auto simp: less_Suc_eq_0_disj)
    finally show ?thesis .
  qed
qed auto

lemma prefix_at_none: "prefix_at p xs = None \<longleftrightarrow> (\<forall>j. \<not> (j \<le> length xs \<and> prefix p (drop j xs)))"
proof -
  have "prefix_at p xs \<noteq> None" if "j \<le> length xs" "prefix p (drop j xs)" for j
    using that
  proof (induction p xs arbitrary: j rule: prefix_at.induct)
    case (2 p x xs)
    thus ?case by (cases j) auto
  qed auto
  moreover have "\<exists>j\<le>length xs. prefix p (drop j xs)" if "prefix_at p xs = Some i" for i
    using that prefix_at_first[of p xs i] by (intro exI[of _ i]) simp
  ultimately show ?thesis by (cases "prefix_at p xs") auto
qed

text \<open>\<open>between\<close>: what stands between the first \<open>pre\<close> and the first \<open>post\<close> after it, and the
  empty string when there is no such pair.\<close>

theorem between_first:
  "between (a @ pre @ m @ post @ b) pre post = m"
  if "\<forall>j < length a. \<not> prefix pre (drop j (a @ pre @ m @ post @ b))"
    "\<forall>j < length m. \<not> prefix post (drop j (m @ post @ b))"
proof -
  let ?s = "a @ pre @ m @ post @ b"
  have "prefix_at pre ?s = Some (length a)" using that(1) by (simp add: prefix_at_first)
  moreover have "prefix_at post (m @ post @ b) = Some (length m)" using that(2) by (simp add: prefix_at_first)
  ultimately show ?thesis by (simp add: between_def str_find_def substr_def)
qed

text \<open>\<open>append_format\<close>: \<open>text\<close> is what \<open>vsnprintf\<close> makes of the format, of which the buffer keeps the
  first 4095 characters.\<close>

definition append_format :: "string \<Rightarrow> string \<Rightarrow> string" where
  "append_format msg text = msg @ take 4095 text"

section \<open>The configuration file\<close>

text \<open>\<open>getline\<close> is a parameter: the \<open>n\<close>-th call gives its result and the characters in the buffer.\<close>

type_synonym conf = "string \<rightharpoonup> string"

definition conf_line :: "string \<Rightarrow> conf \<Rightarrow> conf" where
  "conf_line line v =
     (if line = [] \<or> hd line = CHR ''#'' \<or> length line < 3 then v
      else if 3 < length line then
        (case split line ''='' of
           [k, x] \<Rightarrow> if v k = None then v(k \<mapsto> x) else v
         | _ \<Rightarrow> v)
      else v)"

partial_function (option) conf_load :: "(nat \<Rightarrow> int \<times> string) \<Rightarrow> nat \<Rightarrow> conf \<Rightarrow> conf option" where
  "conf_load getline n v =
     (case getline n of (read_size, line) \<Rightarrow>
        if read_size = 0 then Some v else conf_load getline (Suc n) (conf_line line v))"

definition conf_get :: "conf \<Rightarrow> string \<Rightarrow> string option" where
  "conf_get v k = v k"

text \<open>\<open>conf::load\<close> does not return: \<open>getline\<close> gives the length of a line, with its end, or -1 at
  the end of the file and for an error, but the loop waits for 0.\<close>

theorem conf_load_hangs:
  assumes "\<And>n. fst (getline n) = -1 \<or> 0 < fst (getline n)"
  shows "conf_load getline n v = None"
proof -
  have "\<not> (\<forall>n. fst (g n) \<noteq> 0)" if "conf_load g n v = Some y" for g n v y
  proof (rule conf_load.raw_induct[where P = "\<lambda>g n v y. \<not> (\<forall>n. fst (g n) \<noteq> 0)", OF _ that], intro notI)
    fix f :: "(nat \<Rightarrow> int \<times> string) \<Rightarrow> nat \<Rightarrow> conf \<Rightarrow> conf option" and g n v y
    assume ih: "\<And>g n v y. f g n v = Some y \<Longrightarrow> \<not> (\<forall>n. fst (g n) \<noteq> 0)"
      and h: "(case g n of (read_size, line) \<Rightarrow>
        if read_size = 0 then Some v else f g (Suc n) (conf_line line v)) = Some y"
      and all: "\<forall>n. fst (g n) \<noteq> 0"
    have "f g (Suc n) (conf_line (snd (g n)) v) = Some y" using h all by (auto simp: split_beta split: if_splits)
    thus False using ih all by blast
  qed
  moreover have "fst (getline n) \<noteq> 0" for n using assms[of n] by auto
  ultimately show ?thesis by (metis not_None_eq)
qed

section \<open>Instances\<close>

lemma replace_same_length_witness: "str_replace ''a-b-c'' ''-'' ''_'' = Some ''a_b_c''"
  using replace_same_length[of "''-''" "''_''" "''a-b-c''"] by (simp add: replaced.simps)

lemma replace_hangs_witness: "str_replace ''a/b'' ''/'' ''//'' = None"
proof (rule replace_hangs, rule disjI2)
  show "\<exists>c k. ''/'' = [c] \<and> c \<in> set ''a/b'' \<and> 0 < k \<and> k < length ''//'' \<and> ''//'' ! k = c"
    by (intro exI[of _ "CHR ''/''"] exI[of _ 1]) simp
qed

lemma trim_arrays_witness:
  "rtrim_array 32 [0] = None \<and> (\<exists>buf. ltrim_array 32 [32, 32, 65, 32, 0] = Some buf \<and> takeWhile (\<lambda>c. c \<noteq> 0) buf = [65, 32])"
  using trim_arrays[of "[]" 32 "[]"] trim_arrays[of "[32, 32, 65, 32]" 32 "[]"] by simp

lemma between_first_witness: "between ''x=[7]'' ''['' '']'' = ''7''"
  using between_first[of "''x=''" "''[''" "''7''" "'']''" "[]"] by (simp add: less_Suc_eq numeral_eq_Suc)

lemma conf_load_hangs_witness: "conf_load (\<lambda>n. if n = 0 then (4, ''a=b'') else (-1, ''a=b'')) 0 (\<lambda>k. None) = None"
  by (rule conf_load_hangs) simp

end
