(* ===== verification/Rc_Ptr.thy ===== *)
theory Rc_Ptr
  imports Prelude "HOL-Library.Monad_Syntax" "HOL-Library.Multiset"
begin

text \<open>
  Counted pointers (\<open>util/rc_ptr.hpp\<close>). An object is an address; the heap gives the count of each
  object that exists, and a deleted object is \<open>None\<close>: to count its references has no result. The
  objects hold no counted pointers themselves, so that deleting one is one step.
\<close>

section \<open>Counted objects\<close>

type_synonym rc_heap = "nat \<Rightarrow> int option"

text \<open>A pointer to the object, or null.\<close>

type_synonym rc_ptr = "nat option"

definition base_retain :: "nat \<Rightarrow> rc_heap \<Rightarrow> rc_heap option" where
  "base_retain a h = do { c \<leftarrow> h a; Some (h(a := Some (c + 1))) }"

definition base_release :: "nat \<Rightarrow> rc_heap \<Rightarrow> (rc_heap \<times> int) option" where
  "base_release a h = do {
     c \<leftarrow> h a;
     let val = c - 1;
     Some (if val = 0 then h(a := None) else h(a := Some val), val)
   }"

section \<open>Counted pointers\<close>

definition rc_retain :: "rc_ptr \<Rightarrow> rc_heap \<Rightarrow> rc_heap option" where
  "rc_retain p h = (case p of None \<Rightarrow> Some h | Some a \<Rightarrow> base_retain a h)"

definition rc_release :: "rc_ptr \<Rightarrow> rc_heap \<Rightarrow> (rc_ptr \<times> rc_heap) option" where
  "rc_release p h =
     (case p of
        None \<Rightarrow> Some (None, h)
      | Some a \<Rightarrow> do { (h1, val) \<leftarrow> base_release a h; Some (if val = 0 then None else p, h1) })"

definition rc_new :: "nat option \<Rightarrow> rc_heap \<Rightarrow> (rc_ptr \<times> rc_heap) option" where
  "rc_new t h = do { h1 \<leftarrow> rc_retain t h; Some (t, h1) }"

definition rc_copy :: "rc_ptr \<Rightarrow> rc_heap \<Rightarrow> (rc_ptr \<times> rc_heap) option" where
  "rc_copy rhs h = do { h1 \<leftarrow> rc_retain rhs h; Some (rhs, h1) }"

definition rc_destroy :: "rc_ptr \<Rightarrow> rc_heap \<Rightarrow> rc_heap option" where
  "rc_destroy p h = map_option snd (rc_release p h)"

definition rc_attach :: "rc_ptr \<Rightarrow> nat option \<Rightarrow> rc_heap \<Rightarrow> (rc_ptr \<times> rc_heap) option" where
  "rc_attach p t h = do { (p1, h1) \<leftarrow> rc_release p h; Some (t, h1) }"

definition rc_detach :: "rc_ptr \<Rightarrow> rc_ptr \<times> nat option" where
  "rc_detach p = (None, p)"

definition rc_swap :: "rc_ptr \<Rightarrow> rc_ptr \<Rightarrow> rc_ptr \<times> rc_ptr" where
  "rc_swap p other = (other, p)"

text \<open>\<open>reset\<close> and the assignments: a temporary takes the new object, is swapped in, and is destroyed
  with the old one.\<close>

definition rc_reset :: "rc_ptr \<Rightarrow> nat option \<Rightarrow> rc_heap \<Rightarrow> (rc_ptr \<times> rc_heap) option" where
  "rc_reset p t h = do {
     (new_ptr, h1) \<leftarrow> rc_new t h;
     let (p1, new_ptr1) = rc_swap p new_ptr;
     h2 \<leftarrow> rc_destroy new_ptr1 h1;
     Some (p1, h2)
   }"

definition rc_assign :: "rc_ptr \<Rightarrow> rc_ptr \<Rightarrow> rc_heap \<Rightarrow> (rc_ptr \<times> rc_heap) option" where
  "rc_assign p rhs h = do {
     (new_ptr, h1) \<leftarrow> rc_copy rhs h;
     let (p1, new_ptr1) = rc_swap p new_ptr;
     h2 \<leftarrow> rc_destroy new_ptr1 h1;
     Some (p1, h2)
   }"

text \<open>\<open>operator->\<close> and \<open>operator*\<close>: the object must exist.\<close>

definition rc_deref :: "rc_ptr \<Rightarrow> rc_heap \<Rightarrow> nat option" where
  "rc_deref p h = (case p of None \<Rightarrow> None | Some a \<Rightarrow> if h a = None then None else Some a)"

section \<open>Programs\<close>

text \<open>The pointers a program has, and the plain pointers that carry a reference: what \<open>detach\<close> gave.\<close>

record rc_world =
  rw_heap :: rc_heap
  rw_ptrs :: "rc_ptr list"
  rw_raw :: "nat list"

datatype rc_op =
  Rc_Object nat
| Rc_Null
| Rc_Copy nat
| Rc_Assign nat nat
| Rc_Reset nat
| Rc_Assign_Get nat nat
| Rc_Swap nat nat
| Rc_Detach nat
| Rc_Attach nat nat
| Rc_Deref nat
| Rc_Destroy nat

text \<open>\<open>Rc_Object a\<close> is \<open>rc_ptr< T > p( new T )\<close> with a new object at the free address \<open>a\<close>, whose count
  starts at 0. \<open>Rc_Assign_Get i j\<close> is \<open>p = q.get()\<close>; \<open>Rc_Attach i j\<close> gives the \<open>j\<close>-th plain pointer.\<close>

definition set_ptr :: "nat \<Rightarrow> rc_ptr \<times> rc_heap \<Rightarrow> rc_world \<Rightarrow> rc_world" where
  "set_ptr i ph w = w\<lparr>rw_ptrs := (rw_ptrs w)[i := fst ph], rw_heap := snd ph\<rparr>"

fun rc_step :: "rc_op \<Rightarrow> rc_world \<Rightarrow> rc_world option" where
  "rc_step (Rc_Object a) w = do {
     (p, h) \<leftarrow> rc_new (Some a) ((rw_heap w)(a := Some 0));
     Some (w\<lparr>rw_ptrs := rw_ptrs w @ [p], rw_heap := h\<rparr>) }"
| "rc_step Rc_Null w = do { (p, h) \<leftarrow> rc_new None (rw_heap w); Some (w\<lparr>rw_ptrs := rw_ptrs w @ [p], rw_heap := h\<rparr>) }"
| "rc_step (Rc_Copy i) w = do {
     (p, h) \<leftarrow> rc_copy (rw_ptrs w ! i) (rw_heap w);
     Some (w\<lparr>rw_ptrs := rw_ptrs w @ [p], rw_heap := h\<rparr>) }"
| "rc_step (Rc_Assign i j) w = do {
     ph \<leftarrow> rc_assign (rw_ptrs w ! i) (rw_ptrs w ! j) (rw_heap w); Some (set_ptr i ph w) }"
| "rc_step (Rc_Reset i) w = do { ph \<leftarrow> rc_reset (rw_ptrs w ! i) None (rw_heap w); Some (set_ptr i ph w) }"
| "rc_step (Rc_Assign_Get i j) w = do {
     ph \<leftarrow> rc_reset (rw_ptrs w ! i) (rw_ptrs w ! j) (rw_heap w); Some (set_ptr i ph w) }"
| "rc_step (Rc_Swap i j) w =
     (let (p, q) = rc_swap (rw_ptrs w ! i) (rw_ptrs w ! j)
      in Some (w\<lparr>rw_ptrs := (rw_ptrs w)[i := p, j := q]\<rparr>))"
| "rc_step (Rc_Detach i) w =
     (let (p, t) = rc_detach (rw_ptrs w ! i)
      in Some (w\<lparr>rw_ptrs := (rw_ptrs w)[i := p],
                 rw_raw := rw_raw w @ (case t of None \<Rightarrow> [] | Some a \<Rightarrow> [a])\<rparr>))"
| "rc_step (Rc_Attach i j) w = do {
     ph \<leftarrow> rc_attach (rw_ptrs w ! i) (Some (rw_raw w ! j)) (rw_heap w);
     Some ((set_ptr i ph w)\<lparr>rw_raw := take j (rw_raw w) @ drop (Suc j) (rw_raw w)\<rparr>) }"
| "rc_step (Rc_Deref i) w = do { a \<leftarrow> rc_deref (rw_ptrs w ! i) (rw_heap w); Some w }"
| "rc_step (Rc_Destroy i) w = do {
     h \<leftarrow> rc_destroy (rw_ptrs w ! i) (rw_heap w);
     Some (w\<lparr>rw_ptrs := take i (rw_ptrs w) @ drop (Suc i) (rw_ptrs w), rw_heap := h\<rparr>) }"

text \<open>A program in order names pointers that exist, makes objects where there is none, and follows
  no null pointer.\<close>

fun rc_in_order :: "rc_op \<Rightarrow> rc_world \<Rightarrow> bool" where
  "rc_in_order (Rc_Object a) w = (rw_heap w a = None)"
| "rc_in_order Rc_Null w = True"
| "rc_in_order (Rc_Copy i) w = (i < length (rw_ptrs w))"
| "rc_in_order (Rc_Assign i j) w = (i < length (rw_ptrs w) \<and> j < length (rw_ptrs w))"
| "rc_in_order (Rc_Reset i) w = (i < length (rw_ptrs w))"
| "rc_in_order (Rc_Assign_Get i j) w = (i < length (rw_ptrs w) \<and> j < length (rw_ptrs w))"
| "rc_in_order (Rc_Swap i j) w = (i < length (rw_ptrs w) \<and> j < length (rw_ptrs w))"
| "rc_in_order (Rc_Detach i) w = (i < length (rw_ptrs w))"
| "rc_in_order (Rc_Attach i j) w = (i < length (rw_ptrs w) \<and> j < length (rw_raw w))"
| "rc_in_order (Rc_Deref i) w = (i < length (rw_ptrs w) \<and> rw_ptrs w ! i \<noteq> None)"
| "rc_in_order (Rc_Destroy i) w = (i < length (rw_ptrs w))"

fun rc_run :: "rc_op list \<Rightarrow> rc_world \<Rightarrow> rc_world option" where
  "rc_run [] w = Some w"
| "rc_run (a # as) w = do { w1 \<leftarrow> rc_step a w; rc_run as w1 }"

fun rc_ordered :: "rc_op list \<Rightarrow> rc_world \<Rightarrow> bool" where
  "rc_ordered [] w = True"
| "rc_ordered (a # as) w =
     (rc_in_order a w \<and> (case rc_step a w of None \<Rightarrow> True | Some w1 \<Rightarrow> rc_ordered as w1))"

definition rc_world_new :: rc_world where
  "rc_world_new = \<lparr>rw_heap = (\<lambda>a. None), rw_ptrs = [], rw_raw = []\<rparr>"

section \<open>Counts\<close>

text \<open>The references to an object, with \<open>x\<close> more that an operation holds.\<close>

definition refs_to :: "nat multiset \<Rightarrow> rc_ptr multiset \<Rightarrow> nat \<Rightarrow> nat" where
  "refs_to raw ps a = count ps (Some a) + count raw a"

definition counted :: "nat multiset \<Rightarrow> rc_ptr multiset \<Rightarrow> rc_heap \<Rightarrow> bool" where
  "counted raw ps h \<longleftrightarrow> (\<forall>a. h a = (if refs_to raw ps a = 0 then None else Some (int (refs_to raw ps a))))"

abbreviation rc_ok :: "rc_world \<Rightarrow> bool" where
  "rc_ok w \<equiv> counted (mset (rw_raw w)) (mset (rw_ptrs w)) (rw_heap w)"

lemma refs_simps [simp]:
  "refs_to raw (add_mset None ps) a = refs_to raw ps a"
  "refs_to raw (add_mset (Some b) ps) a = refs_to raw ps a + (if a = b then 1 else 0)"
  "refs_to (add_mset b raw) ps a = refs_to raw ps a + (if a = b then 1 else 0)"
  by (simp_all add: refs_to_def)

lemma counted_None [simp]: "counted raw (add_mset None ps) h = counted raw ps h"
  by (simp add: counted_def)

lemma retain_counted:
  assumes "counted raw ps h" "p \<in># ps \<or> p = None"
  shows "\<exists>h'. rc_retain p h = Some h' \<and> counted raw (add_mset p ps) h'"
proof (cases p)
  case None
  thus ?thesis using assms by (simp add: rc_retain_def)
next
  case (Some a)
  hence "0 < refs_to raw ps a" using assms(2) by (auto simp: refs_to_def)
  hence "rc_retain p h = Some (h(a := Some (int (refs_to raw ps a) + 1)))"
    using assms(1) Some by (simp add: rc_retain_def base_retain_def counted_def)
  moreover have "counted raw (add_mset p ps) (h(a := Some (int (refs_to raw ps a) + 1)))"
    using assms(1) Some by (auto simp: counted_def)
  ultimately show ?thesis by blast
qed

lemma release_counted:
  assumes "counted raw (add_mset p ps) h"
  shows "\<exists>p' h'. rc_release p h = Some (p', h') \<and> counted raw ps h'"
proof (cases p)
  case None
  thus ?thesis using assms by (simp add: rc_release_def)
next
  case (Some a)
  let ?n = "refs_to raw ps a"
  let ?h = "if ?n = 0 then h(a := None) else h(a := Some (int ?n))"
  have "h a = Some (int ?n + 1)" using assms Some by (simp add: counted_def)
  hence "rc_release p h = Some (if ?n = 0 then None else p, ?h)"
    using Some by (simp add: rc_release_def base_release_def Let_def)
  moreover have "counted raw ps ?h" using assms Some by (auto simp: counted_def)
  ultimately show ?thesis by blast
qed

lemma destroy_counted: "counted raw (add_mset p ps) h \<Longrightarrow> \<exists>h'. rc_destroy p h = Some h' \<and> counted raw ps h'"
  using release_counted[of raw p ps h] by (auto simp: rc_destroy_def)

lemma assign_counted:
  assumes "counted raw (add_mset p ps) h" "q \<in># add_mset p ps \<or> q = None"
  shows "\<exists>h'. rc_reset p q h = Some (q, h') \<and> counted raw (add_mset q ps) h'"
    "\<exists>h'. rc_assign p q h = Some (q, h') \<and> counted raw (add_mset q ps) h'"
proof -
  obtain h1 where h1: "rc_retain q h = Some h1" "counted raw (add_mset q (add_mset p ps)) h1"
    using retain_counted[OF assms] by blast
  moreover from this(2) obtain h2 where "rc_destroy p h1 = Some h2" "counted raw (add_mset q ps) h2"
    using destroy_counted[of raw p "add_mset q ps" h1] by (auto simp: add_mset_commute)
  ultimately show "\<exists>h'. rc_reset p q h = Some (q, h') \<and> counted raw (add_mset q ps) h'"
    "\<exists>h'. rc_assign p q h = Some (q, h') \<and> counted raw (add_mset q ps) h'"
    by (auto simp: rc_reset_def rc_assign_def rc_new_def rc_copy_def rc_swap_def)
qed

text \<open>A pointer and the others.\<close>

lemma mset_pick: "i < length xs \<Longrightarrow> mset xs = add_mset (xs ! i) (mset (take i xs @ drop (Suc i) xs))"
  by (subst id_take_nth_drop[of i xs]) simp_all

lemma mset_put: "i < length xs \<Longrightarrow> mset (xs[i := x]) = add_mset x (mset (take i xs @ drop (Suc i) xs))"
  by (subst upd_conv_take_nth_drop) simp_all

lemma pick_counted:
  assumes "i < length ps" "counted raw (mset ps) h"
  shows "counted raw (add_mset (ps ! i) (mset (take i ps @ drop (Suc i) ps))) h"
  using assms by (simp only: mset_pick[OF assms(1)])

lemma raw_pointer:
  assumes "i < length (rw_ptrs w)" "j < length (rw_raw w)" "rc_ok w"
  shows "\<exists>ph. rc_attach (rw_ptrs w ! i) (Some (rw_raw w ! j)) (rw_heap w) = Some ph \<and>
    counted (mset (take j (rw_raw w) @ drop (Suc j) (rw_raw w))) (mset ((rw_ptrs w)[i := fst ph])) (snd ph)"
proof -
  let ?ps = "take i (rw_ptrs w) @ drop (Suc i) (rw_ptrs w)" and ?rs = "take j (rw_raw w) @ drop (Suc j) (rw_raw w)"
  obtain p' h' where r: "rc_release (rw_ptrs w ! i) (rw_heap w) = Some (p', h')" "counted (mset (rw_raw w)) (mset ?ps) h'"
    using release_counted[OF pick_counted[OF assms(1,3)]] by blast
  have "counted (add_mset (rw_raw w ! j) (mset ?rs)) (mset ?ps) h'" using r(2) by (simp only: mset_pick[OF assms(2)])
  hence "counted (mset ?rs) (add_mset (Some (rw_raw w ! j)) (mset ?ps)) h'" by (simp add: counted_def)
  hence "counted (mset ?rs) (mset ((rw_ptrs w)[i := Some (rw_raw w ! j)])) h'" by (simp only: mset_put[OF assms(1)])
  thus ?thesis using r(1) by (simp add: rc_attach_def)
qed

lemma assigned_pointer:
  assumes "i < length (rw_ptrs w)" "q = None \<or> q \<in> set (rw_ptrs w)" "rc_ok w"
    "f = rc_reset \<or> f = rc_assign"
  shows "\<exists>h. f (rw_ptrs w ! i) q (rw_heap w) = Some (q, h) \<and> rc_ok (set_ptr i (q, h) w)"
proof -
  let ?ps = "take i (rw_ptrs w) @ drop (Suc i) (rw_ptrs w)"
  have "q \<in># add_mset (rw_ptrs w ! i) (mset ?ps) \<or> q = None"
    using assms(2) by (simp only: mset_pick[OF assms(1), symmetric]) auto
  from assign_counted[OF pick_counted[OF assms(1,3)] this] obtain h where
    "f (rw_ptrs w ! i) q (rw_heap w) = Some (q, h)" "counted (mset (rw_raw w)) (add_mset q (mset ?ps)) h"
    using assms(4) by metis
  moreover from this(2) have "rc_ok (set_ptr i (q, h) w)" unfolding set_ptr_def by (simp add: mset_put[OF assms(1)])
  ultimately show ?thesis by blast
qed

lemma rc_step_ok:
  assumes "rc_ok w" "rc_in_order a w"
  shows "\<exists>w'. rc_step a w = Some w' \<and> rc_ok w'"
proof (cases a)
  case (Rc_Object x)
  have "refs_to (mset (rw_raw w)) (mset (rw_ptrs w)) x = 0" using assms Rc_Object by (auto simp: counted_def split: if_splits)
  thus ?thesis using assms Rc_Object
    by (auto simp: rc_new_def rc_retain_def base_retain_def counted_def)
next
  case Rc_Null
  thus ?thesis using assms by (simp add: rc_new_def rc_retain_def)
next
  case (Rc_Copy i)
  hence "rw_ptrs w ! i \<in># mset (rw_ptrs w)" using assms(2) by simp
  then obtain h where "rc_retain (rw_ptrs w ! i) (rw_heap w) = Some h"
    "counted (mset (rw_raw w)) (add_mset (rw_ptrs w ! i) (mset (rw_ptrs w))) h"
    using retain_counted[OF assms(1)] by blast
  thus ?thesis using Rc_Copy by (simp add: rc_copy_def)
next
  case (Rc_Assign i j)
  thus ?thesis using assigned_pointer[OF _ _ assms(1), of i "rw_ptrs w ! j" rc_assign] assms(2) by auto
next
  case (Rc_Reset i)
  thus ?thesis using assigned_pointer[OF _ _ assms(1), of i None rc_reset] assms(2) by auto
next
  case (Rc_Assign_Get i j)
  thus ?thesis using assigned_pointer[OF _ _ assms(1), of i "rw_ptrs w ! j" rc_reset] assms(2) by auto
next
  case (Rc_Swap i j)
  hence "mset ((rw_ptrs w)[i := rw_ptrs w ! j, j := rw_ptrs w ! i]) = mset (rw_ptrs w)"
    using assms(2) by (simp add: mset_swap)
  thus ?thesis using assms(1) Rc_Swap by (simp add: rc_swap_def)
next
  case (Rc_Detach i)
  let ?p = "rw_ptrs w ! i" and ?ps = "take i (rw_ptrs w) @ drop (Suc i) (rw_ptrs w)"
  have i: "i < length (rw_ptrs w)" using Rc_Detach assms(2) by simp
  have "counted (mset (rw_raw w)) (add_mset ?p (mset ?ps)) (rw_heap w)" by (rule pick_counted[OF i assms(1)])
  hence "counted (mset (rw_raw w @ (case ?p of None \<Rightarrow> [] | Some x \<Rightarrow> [x]))) (add_mset None (mset ?ps)) (rw_heap w)"
    by (cases ?p) (simp_all add: counted_def)
  hence "counted (mset (rw_raw w @ (case ?p of None \<Rightarrow> [] | Some x \<Rightarrow> [x]))) (mset ((rw_ptrs w)[i := None])) (rw_heap w)"
    by (simp only: mset_put[OF i])
  thus ?thesis using Rc_Detach by (simp add: rc_detach_def)
next
  case (Rc_Attach i j)
  thus ?thesis using raw_pointer[OF _ _ assms(1), of i j] assms(2) by (auto simp: set_ptr_def)
next
  case (Rc_Deref i)
  then obtain x where x: "rw_ptrs w ! i = Some x" using assms(2) by auto
  hence "Some x \<in># mset (rw_ptrs w)" using Rc_Deref assms(2) by (metis nth_mem rc_in_order.simps(10) set_mset_mset)
  hence "rw_heap w x \<noteq> None" using assms(1) by (auto simp: counted_def refs_to_def)
  thus ?thesis using x Rc_Deref assms(1) by (auto simp: rc_deref_def)
next
  case (Rc_Destroy i)
  hence i: "i < length (rw_ptrs w)" using assms(2) by simp
  show ?thesis using destroy_counted[OF pick_counted[OF i assms(1)]] Rc_Destroy by auto
qed

lemma count_mset_list: "count (mset xs) y = count_list xs y"
  by (induction xs) auto

lemma rc_run_ok: "rc_ok w \<Longrightarrow> rc_ordered as w \<Longrightarrow> \<exists>w'. rc_run as w = Some w' \<and> rc_ok w'"
proof (induction as arbitrary: w)
  case (Cons a as)
  then obtain w1 where "rc_step a w = Some w1" "rc_ok w1" using rc_step_ok[of w a] by auto
  thus ?case using Cons by auto
qed simp

lemma rc_new_ok: "rc_ok rc_world_new"
  by (simp add: rc_world_new_def counted_def refs_to_def)

text \<open>C15. Programs over counted pointers (\<open>util/rc_ptr.hpp\<close>) are safe: a program in order, with copies,
  assignments also of a pointer to itself, swaps, and references that pass through plain pointers by
  \<open>detach\<close> and \<open>attach\<close>, never touches a deleted object; at its end an object exists exactly when
  something refers to it, and its count is the number of references. So when no reference is left
  nothing is left on the heap.\<close>

theorem rc_programs_safe:
  assumes "rc_ordered as rc_world_new"
  shows "\<exists>w. rc_run as rc_world_new = Some w \<and>
    (\<forall>x. rw_heap w x = (let n = count_list (rw_ptrs w) (Some x) + count_list (rw_raw w) x
                          in if n = 0 then None else Some (int n)))"
proof -
  obtain w where w: "rc_run as rc_world_new = Some w" "rc_ok w" using rc_run_ok[OF rc_new_ok assms] by blast
  hence "rw_heap w x = (let n = count_list (rw_ptrs w) (Some x) + count_list (rw_raw w) x
      in if n = 0 then None else Some (int n))" for x
    unfolding counted_def refs_to_def by (simp add: count_mset_list Let_def)
  thus ?thesis using w(1) by blast
qed

text \<open>Two objects; the second is dropped by an assignment and the first outlives its first pointer.\<close>

definition rc_program :: "rc_op list" where
  "rc_program =
     [Rc_Object 5, Rc_Object 9, Rc_Copy 0, Rc_Assign 1 2, Rc_Assign 1 1, Rc_Detach 0, Rc_Null, Rc_Attach 3 0,
      Rc_Swap 0 1, Rc_Destroy 3, Rc_Reset 2, Rc_Deref 0]"

lemmas rc_defs = rc_new_def rc_copy_def rc_retain_def base_retain_def rc_release_def base_release_def rc_destroy_def
  rc_attach_def rc_detach_def rc_swap_def rc_reset_def rc_assign_def rc_deref_def set_ptr_def

lemma rc_programs_safe_witness:
  "\<exists>w. rc_run rc_program rc_world_new = Some w \<and> rw_ptrs w = [Some 5, None, None] \<and> rw_heap w 5 = Some 1 \<and> rw_heap w 9 = None"
proof -
  have o: "rc_ordered rc_program rc_world_new" and
    p: "map_option rw_ptrs (rc_run rc_program rc_world_new) = Some [Some 5, None, None]" and
    r: "map_option rw_raw (rc_run rc_program rc_world_new) = Some []"
    by (simp_all add: rc_program_def rc_world_new_def rc_defs numeral_eq_Suc Let_def)
  obtain w where w: "rc_run rc_program rc_world_new = Some w"
    "\<forall>x. rw_heap w x = (let n = count_list (rw_ptrs w) (Some x) + count_list (rw_raw w) x
       in if n = 0 then None else Some (int n))"
    using rc_programs_safe[OF o] by blast
  moreover have "rw_ptrs w = [Some 5, None, None]" "rw_raw w = []" using w(1) p r by simp_all
  ultimately show ?thesis by simp
qed

text \<open>\<open>release\<close> is public, and leaves the pointer in place when the object lives on: the destructor
  counts the same pointer down again. With two pointers to an object, releasing one and destroying it
  deletes the object under the other, whose use and destruction then touch a deleted object.\<close>

theorem rc_release_dangles:
  assumes "h a = Some 2"
  shows "\<exists>h1 h2. rc_release (Some a) h = Some (Some a, h1) \<and> rc_destroy (Some a) h1 = Some h2 \<and> h2 a = None \<and>
    rc_deref (Some a) h2 = None \<and> rc_destroy (Some a) h2 = None"
  using assms by (simp add: rc_defs Let_def)

lemma rc_release_dangles_witness:
  "\<exists>h1 h2. rc_release (Some 5) ((\<lambda>a. None)(5 := Some 2)) = Some (Some 5, h1) \<and> rc_destroy (Some 5) h1 = Some h2 \<and>
     rc_deref (Some 5) h2 = None"
  using rc_release_dangles[of "(\<lambda>a. None)(5 := Some 2)" 5] by auto

end
