(* ===== verification/Atomic.thy ===== *)
theory Atomic
  imports Prelude
begin

text \<open>
  Atomic integers of the Linux build (\<open>threading/atomic/atomic_linux.cpp\<close>, \<open>atomic.hpp\<close>). An
  operation takes the value of the cell and gives its new value with the result; \<open>None\<close> is a loop
  that does not end when no other thread writes the cell. \<open>increment\<close> and \<open>decrement\<close> of the 32-bit
  class are compiler operations, which are one step.
\<close>

section \<open>32 bits\<close>

definition atomic32_increment :: "int \<Rightarrow> int \<times> int" where
  "atomic32_increment v = (to_i32 (v + 1), to_i32 (v + 1))"

definition atomic32_decrement :: "int \<Rightarrow> int \<times> int" where
  "atomic32_decrement v = (to_i32 (v - 1), to_i32 (v - 1))"

definition atomic32_exchange :: "int \<Rightarrow> int \<Rightarrow> int \<times> int" where
  "atomic32_exchange v change = (v, 0)"

definition atomic32_compare_and_swap :: "int \<Rightarrow> int \<Rightarrow> int \<Rightarrow> int \<times> int" where
  "atomic32_compare_and_swap v change compare = (v, 0)"

definition atomic32_compare_and_swap_bool :: "int \<Rightarrow> int \<Rightarrow> int \<Rightarrow> int \<times> bool" where
  "atomic32_compare_and_swap_bool v change compare =
     (let (v1, r) = atomic32_compare_and_swap v change compare in (v1, r = compare))"

partial_function (option) atomic32_add :: "int \<Rightarrow> int \<Rightarrow> (int \<times> int) option" where
  "atomic32_add a v =
     (let old = v; (v1, r) = atomic32_compare_and_swap v (to_i32 (old + a)) old
      in if r \<noteq> old then atomic32_add a v1 else Some (v1, to_i32 (old + a)))"

section \<open>64 bits\<close>

definition atomic64_compare_and_swap :: "int \<Rightarrow> int \<Rightarrow> int \<Rightarrow> int \<times> int" where
  "atomic64_compare_and_swap v chg cmp = (v, 0)"

definition atomic64_compare_and_swap_bool :: "int \<Rightarrow> int \<Rightarrow> int \<Rightarrow> int \<times> bool" where
  "atomic64_compare_and_swap_bool v change compare =
     (let (v1, r) = atomic64_compare_and_swap v change compare in (v1, r = compare))"

partial_function (option) atomic64_increment :: "int \<Rightarrow> (int \<times> int) option" where
  "atomic64_increment v =
     (let old = v; (v1, r) = atomic64_compare_and_swap v (to_i64 (old + 1)) old
      in if r \<noteq> old then atomic64_increment v1 else Some (v1, to_i64 (old + 1)))"

partial_function (option) atomic64_decrement :: "int \<Rightarrow> (int \<times> int) option" where
  "atomic64_decrement v =
     (let old = v; (v1, r) = atomic64_compare_and_swap v (to_i64 (old - 1)) old
      in if r \<noteq> old then atomic64_decrement v1 else Some (v1, to_i64 (old - 1)))"

partial_function (option) atomic64_exchange :: "int \<Rightarrow> int \<Rightarrow> (int \<times> int) option" where
  "atomic64_exchange change v =
     (let old = v; (v1, r) = atomic64_compare_and_swap v change old
      in if r \<noteq> old then atomic64_exchange change v1 else Some (v1, old))"

partial_function (option) atomic64_add :: "int \<Rightarrow> int \<Rightarrow> (int \<times> int) option" where
  "atomic64_add a v =
     (let old = v; (v1, r) = atomic64_compare_and_swap v (to_i64 (old + a)) old
      in if r \<noteq> old then atomic64_add a v1 else Some (v1, to_i64 (old + a)))"

text \<open>\<open>atomic::_or\<close> and \<open>_and\<close> of \<open>atomic.hpp\<close>, for a 32-bit type.\<close>

partial_function (option) atomic_or :: "int \<Rightarrow> int \<Rightarrow> (int \<times> int) option" where
  "atomic_or a v =
     (let old = v; (v1, r) = atomic32_compare_and_swap v (old OR a) old
      in if r \<noteq> old then atomic_or a v1 else Some (v1, old))"

partial_function (option) atomic_and :: "int \<Rightarrow> int \<Rightarrow> (int \<times> int) option" where
  "atomic_and a v =
     (let old = v; (v1, r) = atomic32_compare_and_swap v (old AND a) old
      in if r \<noteq> old then atomic_and a v1 else Some (v1, old))"

section \<open>The stub\<close>

text \<open>Every one of the loops tries a compare-and-swap that gives 0 until it gives the value read.\<close>

lemma atomic64_ends:
  "atomic64_increment v = Some y \<Longrightarrow> v = 0" "atomic64_decrement v = Some y \<Longrightarrow> v = 0"
  "atomic64_exchange c v = Some y \<Longrightarrow> v = 0" "atomic64_add a v = Some y \<Longrightarrow> v = 0"
proof -
  show "atomic64_increment v = Some y \<Longrightarrow> v = 0"
    by (rule atomic64_increment.raw_induct[where P = "\<lambda>v y. v = 0"])
      (auto simp: atomic64_compare_and_swap_def Let_def split: if_splits)
  show "atomic64_decrement v = Some y \<Longrightarrow> v = 0"
    by (rule atomic64_decrement.raw_induct[where P = "\<lambda>v y. v = 0"])
      (auto simp: atomic64_compare_and_swap_def Let_def split: if_splits)
  show "atomic64_exchange c v = Some y \<Longrightarrow> v = 0"
    by (rule atomic64_exchange.raw_induct[where P = "\<lambda>c v y. v = 0"])
      (auto simp: atomic64_compare_and_swap_def Let_def split: if_splits)
  show "atomic64_add a v = Some y \<Longrightarrow> v = 0"
    by (rule atomic64_add.raw_induct[where P = "\<lambda>c v y. v = 0"])
      (auto simp: atomic64_compare_and_swap_def Let_def split: if_splits)
qed

lemma atomic64_zero:
  "atomic64_increment 0 = Some (0, 1)" "atomic64_decrement 0 = Some (0, -1)"
  "atomic64_exchange c 0 = Some (0, 0)" "atomic64_add a 0 = Some (0, to_i64 a)"
  by (subst atomic64_increment.simps, simp add: atomic64_compare_and_swap_def to_i64_def)
    (subst atomic64_decrement.simps, simp add: atomic64_compare_and_swap_def to_i64_def,
     subst atomic64_exchange.simps, simp add: atomic64_compare_and_swap_def,
     subst atomic64_add.simps, simp add: atomic64_compare_and_swap_def)

text \<open>The 64-bit atomic operations of Linux do not work: \<open>compare_and_swap\<close> is a stub that returns
  0 and writes nothing, so that \<open>increment\<close>, \<open>decrement\<close>, \<open>exchange\<close> and \<open>add\<close> do not return when the
  cell holds another value than 0, and for 0 return what they should but leave the cell unchanged.\<close>

theorem atomic64_stub:
  "atomic64_increment v = (if v = 0 then Some (0, 1) else None) \<and>
   atomic64_decrement v = (if v = 0 then Some (0, -1) else None) \<and>
   atomic64_exchange c v = (if v = 0 then Some (0, 0) else None) \<and>
   atomic64_add a v = (if v = 0 then Some (0, to_i64 a) else None)"
proof (cases "v = 0")
  case True
  thus ?thesis by (simp add: atomic64_zero)
next
  case False
  have "atomic64_increment v = None" "atomic64_decrement v = None"
    "atomic64_exchange c v = None" "atomic64_add a v = None"
    using False atomic64_ends(1)[of v] apply (cases "atomic64_increment v"; simp)
    using False atomic64_ends(2)[of v] apply (cases "atomic64_decrement v"; simp)
    using False atomic64_ends(3)[of c v] apply (cases "atomic64_exchange c v"; simp)
    using False atomic64_ends(4)[of a v] apply (cases "atomic64_add a v"; simp)
    done
  thus ?thesis using False by simp
qed

end
