(* ===== verification/Byte_Queue.thy ===== *)
theory Byte_Queue
  imports Memory_Block
begin

text \<open>
  Memory blocks as their clients see them: a queue of bytes with some room left, from its
  construction to its destruction.
\<close>

abbreviation view :: "heap \<times> memory_block \<Rightarrow> u8 list" where
  "view s \<equiv> mb_contents (fst s) (snd s)"

text \<open>How much the position for writing may still move.\<close>

definition room :: "heap \<times> memory_block \<Rightarrow> nat" where
  "room s = 2 ^ 31 - 1 - mb_wr (snd s)"

lemma put_chars:
  assumes "mb_live L s" "length xs \<le> room s"
  obtains s' where "mb_put xs s = Some s'" "mb_live L s'" "view s' = view s @ xs" "room s' = room s - length xs"
  using mb_fifo.put_ok[OF assms(1), of xs] assms(2) unfolding room_def by blast

lemma mb_length_contents: "mb_live L (h, x) \<Longrightarrow> mb_length x = length (mb_contents h x)"
  using mb_contents_length[of L h x] by (simp add: mb_ok_sizes mb_live_def)

lemma get_chars:
  assumes "mb_live L (h, x)" "mb_contents h x = c"
  shows "\<exists>x1. mb_get n (h, x) = Some (take n c, h, x1) \<and> mb_live L (h, x1) \<and> mb_contents h x1 = drop n c"
  using assms(2) by (rule_tac mb_read_ok[OF assms(1), of n]) (simp add: mb_get_def)

lemma mb_new_live: "heap_ok h L \<Longrightarrow> sz < 2 ^ 31 \<Longrightarrow> mb_live L (mb_new sz h) \<and> view (mb_new sz h) = [] \<and> room (mb_new sz h) = 2 ^ 31 - 1"
  using bb_new_ok[of h L sz] by (auto simp: mb_new_def mb_live_def mb_ok_def mb_size_def mb_contents_def room_def split: prod.split)

lemma mb_destroy_live:
  assumes "mb_live L (h, x)"
  obtains h1 where "mb_destroy h x = Returns h1" "heap_ok h1 L"
  using assms bb_destroy_ok[of h "mb_base x" L] by (auto simp: mb_live_def mb_destroy_def)

text \<open>A buffer that was cleared.\<close>

definition mb_cleared :: "buffer_base multiset \<Rightarrow> heap \<times> memory_block \<Rightarrow> bool" where
  "mb_cleared L s \<longleftrightarrow> mb_live L s \<and> mb_rd (snd s) = 0 \<and> mb_wr (snd s) = 0"

lemma mb_clear_ok:
  assumes "mb_live L (h, x)"
  obtains h1 x1 where "mb_clear h x = Returns (h1, x1)" "mb_cleared L (h1, x1)"
proof -
  have ok: "heap_ok h (add_mset (mb_base x) L)" and x: "mb_ok x" using assms by (simp_all add: mb_live_def)
  obtain bs where bs: "bb_bytes h (mb_base x) = Some bs" using assms by (rule mb_live_bytes)
  have w: "mb_wr x \<le> mb_size x" "mb_size x < 2 ^ 31" using x by (simp_all add: mb_ok_def)
  obtain h1 x1 where 1: "mb_reserve (mb_size x) h x = Returns (h1, x1)" "mb_live L (h1, x1)"
    using mb_reserve_ok[OF assms w] by metis
  obtain b where b: "bb_reserve (bb_size (mb_base x)) h (mb_base x) = Returns (h1, b)" "mb_base x1 = b"
    using 1(1) by (auto simp: mb_reserve_def mb_size_def split: outcome.splits prod.splits)
  hence "mb_clear h x = Returns (h1, x1\<lparr>mb_rd := 0, mb_wr := 0\<rparr>)" by (simp add: mb_clear_def)
  moreover have "mb_cleared L (h1, x1\<lparr>mb_rd := 0, mb_wr := 0\<rparr>)"
    using 1(2) by (simp add: mb_cleared_def mb_live_def mb_ok_def mb_size_def)
  ultimately show ?thesis by (rule that)
qed

end
