(* ===== verification/Log.thy ===== *)
theory Log
  imports Byte_Queue Time "HOL-Library.Monad_Syntax"
begin

text \<open>
  Loggers (\<open>log/logger.cpp\<close>, \<open>log/record.cpp\<close>, \<open>log/category.cpp\<close>), the Linux branch. A logger is
  a handle to the settings of its category, which are made on first use and kept for ever. What
  \<open>vsnprintf\<close> makes of a format and its arguments is an argument of the writing functions; the
  clock and the contents of records that are not set are parameters. Writers are numbers: what
  they are called with is kept in \<open>ls_calls\<close>.
\<close>

section \<open>Levels, categories and records\<close>

datatype level = Log_Debug | Log_Info | Log_Warn | Log_Error | Log_Fatal

primrec level_value :: "level \<Rightarrow> nat" where
  "level_value Log_Debug = 0"
| "level_value Log_Info = 1"
| "level_value Log_Warn = 2"
| "level_value Log_Error = 3"
| "level_value Log_Fatal = 4"

lemma level_value_inj: "level_value a = level_value b \<longleftrightarrow> a = b"
  by (cases a; cases b) simp_all

text \<open>Levels are compared as the enumeration compares them.\<close>

instantiation level :: linorder
begin

definition less_eq_level :: "level \<Rightarrow> level \<Rightarrow> bool" where
  "less_eq_level a b \<longleftrightarrow> level_value a \<le> level_value b"

definition less_level :: "level \<Rightarrow> level \<Rightarrow> bool" where
  "less_level a b \<longleftrightarrow> level_value a < level_value b"

instance
  by standard (auto simp: less_eq_level_def less_level_def level_value_inj[symmetric])

end

record category =
  ct_hash :: int
  ct_name :: string

text \<open>A character is signed.\<close>

definition signed_char :: "char \<Rightarrow> int" where
  "signed_char c = (let n = of_char c in if n < 128 then n else n - 256)"

definition category_of :: "string \<Rightarrow> category" where
  "category_of name = \<lparr>ct_hash = foldl (\<lambda>h c. to_u32 (h + signed_char c)) 0 name, ct_name = name\<rparr>"

definition k_log_buffer_size :: nat where
  "k_log_buffer_size = 4192"

record log_record =
  lr_level :: level
  lr_category :: category
  lr_message :: "u8 list"
  lr_file :: string
  lr_line :: int
  lr_function :: string
  lr_time :: date_time
  lr_pid :: int
  lr_tid :: int

definition level_string :: "log_record \<Rightarrow> char" where
  "level_string r =
     (case lr_level r of
        Log_Debug \<Rightarrow> CHR ''D'' | Log_Warn \<Rightarrow> CHR ''W'' | Log_Info \<Rightarrow> CHR ''I'' | Log_Error \<Rightarrow> CHR ''E'' | Log_Fatal \<Rightarrow> CHR ''F'')"

text \<open>The text of a message is what stands before its first zero.\<close>

definition lr_text :: "log_record \<Rightarrow> u8 list" where
  "lr_text r = takeWhile (\<lambda>c. c \<noteq> 0) (lr_message r)"

section \<open>Loggers\<close>

record logger_impl =
  im_level :: level
  im_category :: category
  im_writers :: "nat list"

record log_state =
  ls_heap :: heap
  ls_loggers :: "string \<Rightarrow> nat option"
  ls_impls :: "logger_impl list"
  ls_clock :: nat
  ls_calls :: "(nat \<times> log_record) list"

text \<open>The \<open>n\<close>-th reading of the local time, and what the message of a record made then holds.\<close>

record log_env =
  le_local :: "nat \<Rightarrow> date_time"
  le_junk :: "nat \<Rightarrow> u8 list"
  le_pid :: int
  le_tid :: int

definition impl_new :: "category \<Rightarrow> logger_impl" where
  "impl_new cate = \<lparr>im_level = Log_Debug, im_category = cate, im_writers = []\<rparr>"

definition get_instance :: "category \<Rightarrow> log_state \<Rightarrow> log_state \<times> nat" where
  "get_instance cate st =
     (case ls_loggers st (ct_name cate) of
        None \<Rightarrow>
          (let pimpl = length (ls_impls st)
           in (st\<lparr>ls_impls := ls_impls st @ [impl_new cate], ls_loggers := (ls_loggers st)(ct_name cate \<mapsto> pimpl)\<rparr>, pimpl))
      | Some p \<Rightarrow> (st, p))"

definition get_instance_name :: "string \<Rightarrow> log_state \<Rightarrow> log_state \<times> nat" where
  "get_instance_name name st = get_instance (category_of name) st"

definition set_level :: "level \<Rightarrow> nat \<Rightarrow> log_state \<Rightarrow> log_state" where
  "set_level l p st = st\<lparr>ls_impls := (ls_impls st)[p := (ls_impls st ! p)\<lparr>im_level := l\<rparr>]\<rparr>"

definition add_writer :: "nat \<Rightarrow> nat \<Rightarrow> log_state \<Rightarrow> log_state" where
  "add_writer w p st =
     st\<lparr>ls_impls := (ls_impls st)[p := (ls_impls st ! p)\<lparr>im_writers := im_writers (ls_impls st ! p) @ [w]\<rparr>]\<rparr>"

definition logger_with :: "string \<Rightarrow> nat \<Rightarrow> log_state \<Rightarrow> log_state \<times> nat" where
  "logger_with name w st = (let (st1, p) = get_instance_name name st in (add_writer w p st1, p))"

section \<open>Writing\<close>

text \<open>\<open>_write\<close>: every writer of the category gets the record.\<close>

definition log_write_record :: "nat \<Rightarrow> log_record \<Rightarrow> log_state \<Rightarrow> log_state" where
  "log_write_record p r st = st\<lparr>ls_calls := ls_calls st @ map (\<lambda>w. (w, r)) (im_writers (ls_impls st ! p))\<rparr>"

text \<open>Where the call is in the program.\<close>

record log_site =
  si_file :: string
  si_line :: int
  si_function :: string

definition log_record_new :: "log_env \<Rightarrow> level \<Rightarrow> nat \<Rightarrow> log_site \<Rightarrow> log_state \<Rightarrow> log_state \<times> log_record" where
  "log_record_new e l p si st =
     (st\<lparr>ls_clock := Suc (ls_clock st)\<rparr>,
      \<lparr>lr_level = l, lr_category = im_category (ls_impls st ! p), lr_message = le_junk e (ls_clock st),
       lr_file = si_file si, lr_line = si_line si, lr_function = si_function si, lr_time = le_local e (ls_clock st),
       lr_pid = le_pid e, lr_tid = le_tid e\<rparr>)"

text \<open>\<open>vsnprintf\<close>, of the standard library: at most \<open>sz - 1\<close> characters and a zero are stored; the
  result is the length of the whole text, or -1 when it cannot be made.\<close>

definition vsnprintf :: "nat \<Rightarrow> u8 list option \<Rightarrow> u8 list \<Rightarrow> u8 list \<times> int" where
  "vsnprintf sz fmt buf =
     (case fmt of
        None \<Rightarrow> (buf, -1)
      | Some t \<Rightarrow> (overwrite 0 (take (sz - 1) t @ [0]) buf, to_i32 (int (length t))))"

text \<open>\<open>msg\<close> is \<open>None\<close> for a null format.\<close>

definition log_write :: "log_env \<Rightarrow> nat \<Rightarrow> level \<Rightarrow> log_site \<Rightarrow> u8 list option option \<Rightarrow> log_state \<Rightarrow> log_state" where
  "log_write e p l si msg st =
     (if l < im_level (ls_impls st ! p) then st
      else case msg of
             None \<Rightarrow> st
           | Some fmt \<Rightarrow>
               (let (st1, r) = log_record_new e l p si st;
                    (m, _) = vsnprintf k_log_buffer_size fmt (lr_message r)
                in log_write_record p (r\<lparr>lr_message := m\<rparr>) st1))"

text \<open>A store to \<open>message + i\<close>; outside the array it is undefined.\<close>

definition msg_store :: "int \<Rightarrow> u8 list \<Rightarrow> u8 list \<Rightarrow> u8 list option" where
  "msg_store i xs buf =
     (if 0 \<le> i \<and> i + int (length xs) \<le> int (length buf) then Some (overwrite (nat i) xs buf) else None)"

definition chars :: "string \<Rightarrow> u8 list" where
  "chars s = map of_char s"

definition crlf :: "u8 list" where
  "crlf = [13, 10]"

definition i_to_hex :: "u8 \<Rightarrow> u8 list" where
  "i_to_hex ch = [chars ''0123456789ABCDEF'' ! (unat ch div 16), chars ''0123456789ABCDEF'' ! (unat ch mod 16)]"

fun dump_rows :: "nat \<Rightarrow> u8 list \<Rightarrow> heap \<times> memory_block \<Rightarrow> (heap \<times> memory_block) option" where
  "dump_rows i [] s = Some s"
| "dump_rows i (b # bs) s = do {
     s1 \<leftarrow> mb_put (i_to_hex b) s;
     let iii = i mod 16;
     s2 \<leftarrow> (if iii = 15 then mb_put crlf s1
           else do {
             s2 \<leftarrow> mb_put [32] s1;
             if iii = 3 then mb_put [32, 32, 32] s2
             else if iii = 7 then mb_put [32, 32, 32, 32] s2
             else if iii = 11 then mb_put [32, 32, 32] s2
             else Some s2 });
     dump_rows (Suc i) bs s2 }"

text \<open>\<open>read( message + len , size - len - 1 )\<close>: the size is an \<open>int\<close> that becomes a \<open>size_t\<close>.\<close>

partial_function (option) dump_loop :: "log_env \<Rightarrow> nat \<Rightarrow> level \<Rightarrow> log_site \<Rightarrow> u8 list option \<Rightarrow> bool \<Rightarrow>
    memory_block \<Rightarrow> log_state \<Rightarrow> (memory_block \<times> log_state) option" where
  "dump_loop e p l si fmt first x st =
     (if 0 < mb_length x then
        (let (st1, r) = log_record_new e l p si st;
             (m, len) = (if first then vsnprintf k_log_buffer_size fmt (lr_message r) else (lr_message r, 0))
         in do {
           (xs, h, x1) \<leftarrow> mb_get (nat (to_u64 (int k_log_buffer_size - len - 1))) (ls_heap st1, x);
           m1 \<leftarrow> msg_store len xs m;
           let len1 = len + int (length xs);
           m2 \<leftarrow> msg_store len1 [0] m1;
           dump_loop e p l si fmt False x1 (log_write_record p (r\<lparr>lr_message := m2\<rparr>) (st1\<lparr>ls_heap := h\<rparr>)) })
      else Some (x, st))"

definition write_dump :: "log_env \<Rightarrow> nat \<Rightarrow> level \<Rightarrow> log_site \<Rightarrow> u8 list \<Rightarrow> u8 list option option \<Rightarrow> log_state \<Rightarrow> log_state option" where
  "write_dump e p l si buffer msg st =
     (if l < im_level (ls_impls st ! p) then Some st
      else case msg of
             None \<Rightarrow> Some st
           | Some fmt \<Rightarrow> do {
               let s0 = mb_new (nat (to_u64 (to_i32 (int (length buffer) * 4)))) (ls_heap st);
               s1 \<leftarrow> mb_put crlf s0;
               s2 \<leftarrow> dump_rows 0 buffer s1;
               s3 \<leftarrow> mb_put crlf s2;
               (h, x) \<leftarrow> mb_put [0] s3;
               (x1, st1) \<leftarrow> dump_loop e p l si fmt True x (st\<lparr>ls_heap := h\<rparr>);
               h1 \<leftarrow> (case mb_destroy (ls_heap st1) x1 of Returns h1 \<Rightarrow> Some h1 | _ \<Rightarrow> None);
               Some (st1\<lparr>ls_heap := h1\<rparr>) })"

section \<open>What a dump writes\<close>

text \<open>The text of a dump: 16 bytes a row, with wider gaps after the fourth, eighth and twelfth.\<close>

definition dump_gap :: "nat \<Rightarrow> u8 list" where
  "dump_gap i =
     (if i = 15 then crlf else replicate (if i = 7 then 5 else if i = 3 \<or> i = 11 then 4 else 1) 32)"

fun dump_text :: "nat \<Rightarrow> u8 list \<Rightarrow> u8 list" where
  "dump_text i [] = []"
| "dump_text i (b # bs) = i_to_hex b @ dump_gap (i mod 16) @ dump_text (Suc i) bs"

lemma dump_byte:
  assumes "mb_live L s" "7 \<le> room s"
  obtains s' where "dump_rows i (b # bs) s = dump_rows (Suc i) bs s'" "mb_live L s'"
    "view s' = view s @ i_to_hex b @ dump_gap (i mod 16)" "room s - 7 \<le> room s'"
proof -
  obtain s1 where 1: "mb_put (i_to_hex b) s = Some s1" "mb_live L s1" "view s1 = view s @ i_to_hex b" "room s1 = room s - 2"
    by (rule put_chars[OF assms(1), of "i_to_hex b"]) (use assms(2) in \<open>simp_all add: i_to_hex_def\<close>)
  show ?thesis
  proof (cases "i mod 16 = 15")
    case True
    obtain s2 where "mb_put crlf s1 = Some s2" "mb_live L s2" "view s2 = view s1 @ crlf" "room s2 = room s1 - 2"
      by (rule put_chars[OF 1(2), of crlf]) (use assms(2) 1(4) in \<open>simp_all add: crlf_def\<close>)
    thus ?thesis using 1 True by (intro that[of s2]) (simp_all add: dump_gap_def)
  next
    case False
    obtain s2 where 2: "mb_put [32] s1 = Some s2" "mb_live L s2" "view s2 = view s1 @ [32]" "room s2 = room s1 - 1"
      by (rule put_chars[OF 1(2), of "[32]"]) (use assms(2) 1(4) in simp_all)
    have p: "\<exists>s3. mb_put (replicate n 32) s2 = Some s3 \<and> mb_live L s3 \<and> view s3 = view s2 @ replicate n 32 \<and>
        room s3 = room s2 - n" if "n \<le> 4" for n
      by (rule put_chars[OF 2(2), of "replicate n 32"]) (use that assms(2) 1(4) 2(4) in auto)
    have g: "dump_gap 3 = [32] @ [32, 32, 32]" "dump_gap 11 = [32] @ [32, 32, 32]" "dump_gap 7 = [32] @ [32, 32, 32, 32]"
      by (simp_all add: dump_gap_def numeral_eq_Suc)
    have r: "replicate 3 32 = [32, 32, 32 :: u8]" "replicate 4 32 = [32, 32, 32, 32 :: u8]" by (simp_all add: numeral_eq_Suc)
    obtain s3 where 3: "mb_put [32, 32, 32] s2 = Some s3" "mb_live L s3" "view s3 = view s2 @ [32, 32, 32]" "room s3 = room s2 - 3"
      using p[of 3] r by auto
    obtain s4 where 4: "mb_put [32, 32, 32, 32] s2 = Some s4" "mb_live L s4" "view s4 = view s2 @ [32, 32, 32, 32]" "room s4 = room s2 - 4"
      using p[of 4] r by auto
    consider "i mod 16 = 3 \<or> i mod 16 = 11" | "i mod 16 = 7" | "i mod 16 \<notin> {3, 7, 11, 15}" using False by auto
    thus ?thesis
    proof cases
      case c: 1
      have "dump_rows i (b # bs) s = dump_rows (Suc i) bs s3" using c 1(1) 2(1) 3(1) by auto
      moreover have "view s3 = view s @ i_to_hex b @ dump_gap (i mod 16)" using c 1(3) 2(3) 3(3) g by auto
      ultimately show ?thesis using 3(2,4) 1(4) 2(4) by (intro that[of s3]) simp_all
    next
      case c: 2
      have "dump_rows i (b # bs) s = dump_rows (Suc i) bs s4" using c 1(1) 2(1) 4(1) by simp
      moreover have "view s4 = view s @ i_to_hex b @ dump_gap (i mod 16)" using c 1(3) 2(3) 4(3) g by simp
      ultimately show ?thesis using 4(2,4) 1(4) 2(4) by (intro that[of s4]) simp_all
    next
      case c: 3
      have "dump_rows i (b # bs) s = dump_rows (Suc i) bs s2" using c 1(1) 2(1) by simp
      moreover have "view s2 = view s @ i_to_hex b @ dump_gap (i mod 16)" using c 1(3) 2(3) by (simp add: dump_gap_def)
      ultimately show ?thesis using 2(2,4) 1(4) by (intro that[of s2]) simp_all
    qed
  qed
qed

lemma dump_rows_ok:
  "mb_live L s \<Longrightarrow> 7 * length bs \<le> room s \<Longrightarrow>
   \<exists>s'. dump_rows i bs s = Some s' \<and> mb_live L s' \<and> view s' = view s @ dump_text i bs \<and> room s - 7 * length bs \<le> room s'"
proof (induction bs arbitrary: i s)
  case (Cons b bs)
  have "7 \<le> room s" using Cons.prems(2) by simp
  then obtain s1 where 1: "dump_rows i (b # bs) s = dump_rows (Suc i) bs s1" "mb_live L s1"
    "view s1 = view s @ i_to_hex b @ dump_gap (i mod 16)" "room s - 7 \<le> room s1"
    using dump_byte[OF Cons.prems(1), where b = b and bs = bs and i = i] by blast
  have "7 * length bs \<le> room s1" using Cons.prems(2) 1(4) by simp
  then obtain s2 where "dump_rows (Suc i) bs s1 = Some s2" "mb_live L s2" "view s2 = view s1 @ dump_text (Suc i) bs"
    "room s1 - 7 * length bs \<le> room s2" using Cons.IH[OF 1(2)] by blast
  thus ?case using 1 by auto
qed simp

text \<open>The calls of the writers for a sequence of records.\<close>

definition calls_of :: "nat list \<Rightarrow> log_record list \<Rightarrow> (nat \<times> log_record) list" where
  "calls_of ws rs = concat (map (\<lambda>r. map (\<lambda>w. (w, r)) ws) rs)"

lemma text_before_zero: "0 \<notin> set xs \<Longrightarrow> takeWhile (\<lambda>c. c \<noteq> 0) (xs @ 0 # ys) = xs"
  by (induction xs) auto

text \<open>One record: \<open>t\<close> characters of the message, then what fits of the dump.\<close>

lemma message_text:
  assumes m: "length m = k_log_buffer_size" "take (length t) m = t" and t: "length t < k_log_buffer_size"
    and z: "0 \<notin> set t" "0 \<notin> set c"
    and xs: "xs = take (k_log_buffer_size - length t - 1) (c @ [0])"
  obtains m1 m2 where "msg_store (int (length t)) xs m = Some m1" "msg_store (int (length t) + int (length xs)) [0] m1 = Some m2"
    "takeWhile (\<lambda>c. c \<noteq> 0) m2 = t @ take (k_log_buffer_size - length t - 1) c"
proof -
  have l: "length t + length xs < k_log_buffer_size" using xs t by simp
  define m1 where "m1 = overwrite (length t) xs m"
  define m2 where "m2 = overwrite (length t + length xs) [0] m1"
  have lm: "length m1 = k_log_buffer_size" using m(1) l by (simp add: m1_def)
  have "msg_store (int (length t)) xs m = Some m1" using l m(1) by (simp add: msg_store_def m1_def)
  moreover have "msg_store (int (length t) + int (length xs)) [0] m1 = Some m2"
    using l lm nat_int_add by (simp add: msg_store_def m2_def)
  moreover have "takeWhile (\<lambda>c. c \<noteq> 0) m2 = t @ take (k_log_buffer_size - length t - 1) c"
  proof -
    have m1: "m1 = t @ xs @ drop (length t + length xs) m" using l m by (simp add: m1_def overwrite_def)
    have m2: "m2 = t @ xs @ 0 # drop (Suc (length t + length xs)) m1"
      using l lm unfolding m2_def overwrite_def by (subst m1) simp
    show ?thesis
    proof (cases "k_log_buffer_size - length t - 1 \<le> length c")
      case True
      hence "xs = take (k_log_buffer_size - length t - 1) c" using xs by simp
      thus ?thesis using z m2 text_before_zero[of "t @ xs"] by (auto dest: in_set_takeD)
    next
      case False
      hence "xs = c @ [0]" using xs by simp
      thus ?thesis using z m2 False text_before_zero[of "t @ c"] by simp
    qed
  qed
  ultimately show ?thesis by (rule that)
qed

lemma log_record_new_eq:
  assumes "log_record_new e l p si st = (st1, r)"
  shows "st1 = st\<lparr>ls_clock := Suc (ls_clock st)\<rparr>" "lr_message r = le_junk e (ls_clock st)" "lr_level r = l"
    "lr_category r = im_category (ls_impls st ! p)"
  using assms by (auto simp: log_record_new_def)

lemma dump_loop_step:
  assumes live: "mb_live L (ls_heap st, x)" and c: "mb_contents (ls_heap st) x = c @ [0]" "0 \<notin> set c"
    and j: "\<And>n. length (le_junk e n) = k_log_buffer_size"
    and t: "if first then fmt = Some t else t = []" "length t < k_log_buffer_size" "0 \<notin> set t"
  obtains x1 r where
    "dump_loop e p l si fmt first x st =
       dump_loop e p l si fmt False x1 (log_write_record p r (st\<lparr>ls_clock := Suc (ls_clock st)\<rparr>))"
    "mb_live L (ls_heap st, x1)"
    "mb_contents (ls_heap st) x1 = drop (k_log_buffer_size - length t - 1) (c @ [0])"
    "lr_text r = t @ take (k_log_buffer_size - length t - 1) c" "lr_level r = l"
    "lr_category r = im_category (ls_impls st ! p)"
proof -
  let ?st1 = "st\<lparr>ls_clock := Suc (ls_clock st)\<rparr>" and ?n = "k_log_buffer_size - length t - 1"
  obtain r where r: "log_record_new e l p si st = (?st1, r)" "lr_message r = le_junk e (ls_clock st)" "lr_level r = l"
    "lr_category r = im_category (ls_impls st ! p)"
    using log_record_new_eq by (metis prod.collapse)
  define m where "m = (if first then overwrite 0 (t @ [0]) (lr_message r) else lr_message r)"
  have m: "length m = k_log_buffer_size" "take (length t) m = t"
    using t j r(2) by (auto simp: m_def overwrite_def split: if_splits)
  have len: "(if first then vsnprintf k_log_buffer_size fmt (lr_message r) else (lr_message r, 0)) = (m, int (length t))"
  proof (cases first)
    case True
    have "to_i32 (int (length t)) = int (length t)" using t(2) by (simp add: to_i32_id k_log_buffer_size_def)
    moreover have "take (k_log_buffer_size - 1) t = t" using t(2) by simp
    ultimately show ?thesis using True t(1) by (simp add: m_def vsnprintf_def del: take_all_iff)
  next
    case False
    thus ?thesis using t(1) by (simp add: m_def)
  qed
  have sz: "nat (to_u64 (int k_log_buffer_size - int (length t) - 1)) = ?n"
    using t(2) by (subst to_u64_id) (auto simp: k_log_buffer_size_def)
  define xs where "xs = take ?n (c @ [0])"
  obtain x1 where x1: "mb_get ?n (ls_heap ?st1, x) = Some (xs, ls_heap st, x1)"
    "mb_live L (ls_heap st, x1)" "mb_contents (ls_heap st) x1 = drop ?n (c @ [0])"
    using get_chars[OF live c(1), of ?n] by (fastforce simp: xs_def)
  obtain m1 m2 where m2: "msg_store (int (length t)) xs m = Some m1" "msg_store (int (length t) + int (length xs)) [0] m1 = Some m2"
    "takeWhile (\<lambda>c. c \<noteq> 0) m2 = t @ take ?n c"
    by (rule message_text[OF m t(2,3) c(2) xs_def])
  let ?r = "r\<lparr>lr_message := m2\<rparr>"
  have heap_same: "st\<lparr>ls_clock := n, ls_heap := ls_heap st\<rparr> = st\<lparr>ls_clock := n\<rparr>" for n by (cases st) simp
  have pos: "0 < mb_length x" using mb_length_contents[OF live] c(1) by simp
  have "dump_loop e p l si fmt first x st = dump_loop e p l si fmt False x1 (log_write_record p ?r ?st1)"
    by (subst dump_loop.simps) (simp add: pos r(1) len sz x1(1)[simplified] m2(1,2) heap_same del: of_nat_add)
  thus ?thesis using x1(2,3) m2(3) r(3,4) by (intro that[of x1 ?r]) (simp_all add: lr_text_def)
qed

lemma calls_of_Cons: "calls_of ws (r # rs) = map (\<lambda>w. (w, r)) ws @ calls_of ws rs"
  by (simp add: calls_of_def)

text \<open>The effect of a run of records, which leaves everything but the clock and the calls alone.\<close>

definition records_out :: "nat \<Rightarrow> log_record list \<Rightarrow> log_state \<Rightarrow> log_state \<Rightarrow> bool" where
  "records_out p rs st st' \<longleftrightarrow>
     ls_calls st' = ls_calls st @ calls_of (im_writers (ls_impls st ! p)) rs \<and>
     ls_impls st' = ls_impls st \<and> ls_loggers st' = ls_loggers st"

lemma records_out_Cons:
  assumes "records_out p rs (log_write_record p r (st\<lparr>ls_clock := n\<rparr>)) st'"
  shows "records_out p (r # rs) st st'"
  using assms by (simp add: records_out_def log_write_record_def calls_of_Cons)

lemma dump_loop_rest:
  assumes j: "\<And>n. length (le_junk e n) = k_log_buffer_size"
  shows "mb_live L (ls_heap st, x) \<Longrightarrow> mb_contents (ls_heap st) x = [] \<and> c = [] \<or> mb_contents (ls_heap st) x = c @ [0] \<Longrightarrow>
    0 \<notin> set c \<Longrightarrow>
    \<exists>x' st' rs. dump_loop e p l si fmt False x st = Some (x', st') \<and> mb_live L (ls_heap st', x') \<and> records_out p rs st st' \<and>
      concat (map lr_text rs) = c \<and> (\<forall>r\<in>set rs. length (lr_text r) < k_log_buffer_size \<and> lr_level r = l)"
proof (induction "length (mb_contents (ls_heap st) x)" arbitrary: st x c rule: less_induct)
  case less
  show ?case
  proof (cases "mb_contents (ls_heap st) x = []")
    case True
    hence "dump_loop e p l si fmt False x st = Some (x, st)"
      using mb_length_contents[OF less.prems(1)] by (subst dump_loop.simps) simp
    moreover have "records_out p [] st st" by (simp add: records_out_def calls_of_def)
    ultimately show ?thesis using less.prems(1,2) True by (intro exI[of _ x] exI[of _ st] exI[of _ "[]"]) auto
  next
    case False
    let ?n = "k_log_buffer_size - 1"
    have n: "0 < ?n" by (simp add: k_log_buffer_size_def)
    have c: "mb_contents (ls_heap st) x = c @ [0]" using less.prems(2) False by auto
    obtain x1 r where s: "dump_loop e p l si fmt False x st =
       dump_loop e p l si fmt False x1 (log_write_record p r (st\<lparr>ls_clock := Suc (ls_clock st)\<rparr>))"
      "mb_live L (ls_heap st, x1)" "mb_contents (ls_heap st) x1 = drop ?n (c @ [0])" "lr_text r = take ?n c" "lr_level r = l"
      by (rule dump_loop_step[OF less.prems(1) c less.prems(3) j, where first = False and t = "[]" and p = p and l = l
            and si = si and fmt = fmt]) (simp_all add: k_log_buffer_size_def)
    let ?st = "log_write_record p r (st\<lparr>ls_clock := Suc (ls_clock st)\<rparr>)"
    have h: "ls_heap ?st = ls_heap st" by (simp add: log_write_record_def)
    have "length (mb_contents (ls_heap ?st) x1) < length (mb_contents (ls_heap st) x)" using s(3) c n h by simp
    moreover have "mb_live L (ls_heap ?st, x1)" using s(2) h by simp
    moreover have "mb_contents (ls_heap ?st) x1 = [] \<and> drop ?n c = [] \<or> mb_contents (ls_heap ?st) x1 = drop ?n c @ [0]"
      using s(3) h by (cases "?n \<le> length c") (simp_all add: k_log_buffer_size_def)
    moreover have "0 \<notin> set (drop ?n c)" using less.prems(3) by (auto dest: in_set_dropD)
    ultimately obtain x' st' rs where r: "dump_loop e p l si fmt False x1 ?st = Some (x', st')" "mb_live L (ls_heap st', x')"
      "records_out p rs ?st st'" "concat (map lr_text rs) = drop ?n c"
      "\<forall>r\<in>set rs. length (lr_text r) < k_log_buffer_size \<and> lr_level r = l"
      using less.hyps by blast
    have "length (lr_text r) < k_log_buffer_size" using s(4) by (simp add: k_log_buffer_size_def)
    thus ?thesis using s(1,4,5) r records_out_Cons[OF r(3)]
      by (intro exI[of _ x'] exI[of _ st'] exI[of _ "r # rs"]) auto
  qed
qed

text \<open>Up to the loop: the block that holds the dump.\<close>

lemma write_dump_prepared:
  assumes "heap_ok (ls_heap st) L" "7 * length buffer + 8 < 2 ^ 31" "im_level (ls_impls st ! p) \<le> l"
  obtains h x where "mb_live L (h, x)" "mb_contents h x = (crlf @ dump_text 0 buffer @ crlf) @ [0]"
    "write_dump e p l si buffer (Some fmt) st = do {
       (x1, st1) \<leftarrow> dump_loop e p l si fmt True x (st\<lparr>ls_heap := h\<rparr>);
       h1 \<leftarrow> (case mb_destroy (ls_heap st1) x1 of Returns h1 \<Rightarrow> Some h1 | _ \<Rightarrow> None);
       Some (st1\<lparr>ls_heap := h1\<rparr>) }"
proof -
  let ?sz = "nat (to_u64 (to_i32 (int (length buffer) * 4)))" and ?s0 = "mb_new (length buffer * 4) (ls_heap st)"
  have "to_i32 (int (length buffer) * 4) = int (length buffer) * 4" using assms(2) by (simp add: to_i32_id)
  moreover have "to_u64 (int (length buffer) * 4) = int (length buffer) * 4" using assms(2) by (simp add: to_u64_id)
  ultimately have sz: "?sz = length buffer * 4" by simp
  have 0: "mb_live L ?s0" "view ?s0 = []" "room ?s0 = 2 ^ 31 - 1"
    using mb_new_live[OF assms(1), of "length buffer * 4"] assms(2) by simp_all
  have lc: "length crlf = 2" by (simp add: crlf_def)
  obtain s1 where 1: "mb_put crlf ?s0 = Some s1" "mb_live L s1" "view s1 = view ?s0 @ crlf" "room s1 = room ?s0 - length crlf"
    by (rule put_chars[OF 0(1), of crlf]) (simp_all add: 0(3) lc)
  have "7 * length buffer \<le> room s1" using 1(4) 0(3) lc assms(2) by simp
  then obtain s2 where 2: "dump_rows 0 buffer s1 = Some s2" "mb_live L s2" "view s2 = view s1 @ dump_text 0 buffer"
    "room s1 - 7 * length buffer \<le> room s2" using dump_rows_ok[OF 1(2)] by blast
  have r2: "3 \<le> room s2" using 2(4) 1(4) 0(3) lc assms(2) by simp
  obtain s3 where 3: "mb_put crlf s2 = Some s3" "mb_live L s3" "view s3 = view s2 @ crlf" "room s3 = room s2 - length crlf"
    by (rule put_chars[OF 2(2), of crlf]) (use r2 lc in simp_all)
  obtain s4 where 4: "mb_put [0] s3 = Some s4" "mb_live L s4" "view s4 = view s3 @ [0]" "room s4 = room s3 - length [0]"
    by (rule put_chars[OF 3(2), of "[0]"]) (use r2 3(4) lc in simp_all)
  obtain h x where hx: "s4 = (h, x)" by fastforce
  have "\<not> l < im_level (ls_impls st ! p)" using assms(3) by simp
  thus ?thesis using 0(2) 1 2 3 4 hx sz
    by (intro that[of h x]) (simp_all add: write_dump_def)
qed

fun hex_digit :: "u8 \<Rightarrow> nat" where
  "hex_digit c = (if unat c < 65 then unat c - 48 else unat c - 55)"

fun undump :: "u8 list \<Rightarrow> u8 list" where
  "undump (a # b # cs) = of_nat (hex_digit a * 16 + hex_digit b) # undump cs"
| "undump cs = []"

lemma i_to_hex_back: "i_to_hex b = [x, y] \<Longrightarrow> of_nat (hex_digit x * 16 + hex_digit y) = b \<and> 48 \<le> x \<and> 48 \<le> y"
proof -
  assume a: "i_to_hex b = [x, y]"
  have v: "n < 16 \<Longrightarrow> hex_digit (chars ''0123456789ABCDEF'' ! n) = n \<and> 48 \<le> chars ''0123456789ABCDEF'' ! n" for n
  proof -
    have "\<forall>n\<in>set [0..<16]. hex_digit (chars ''0123456789ABCDEF'' ! n) = n \<and> 48 \<le> chars ''0123456789ABCDEF'' ! n" by code_simp
    thus "n < 16 \<Longrightarrow> hex_digit (chars ''0123456789ABCDEF'' ! n) = n \<and> 48 \<le> chars ''0123456789ABCDEF'' ! n" by simp
  qed
  have "unat b div 16 < 16" "unat b mod 16 < 16" using less_mult_imp_div_less[of "unat b" 16 16] unat_u8_less[of b] by simp_all
  hence "hex_digit x = unat b div 16" "hex_digit y = unat b mod 16" "48 \<le> x" "48 \<le> y"
    using a v[of "unat b div 16"] v[of "unat b mod 16"] unfolding i_to_hex_def by simp_all
  moreover have "of_nat (unat b div 16 * 16 + unat b mod 16) = b" by (simp only: div_mult_mod_eq) simp
  ultimately show ?thesis by simp
qed

lemma dump_text_digits: "undump (filter (\<lambda>c. 32 < c) (dump_text i bs)) = bs \<and> 0 \<notin> set (dump_text i bs)"
proof (induction bs arbitrary: i)
  case (Cons b bs)
  obtain x y where b: "i_to_hex b = [x, y]" by (simp add: i_to_hex_def)
  note h = i_to_hex_back[OF b]
  have g: "filter (\<lambda>c. 32 < c) (dump_gap i) = []" "0 \<notin> set (dump_gap i)" for i
    by (auto simp: dump_gap_def crlf_def filter_empty_conv)
  have "32 < x" "32 < y" "x \<noteq> 0" "y \<noteq> 0" using h by (auto simp: word_less_nat_alt word_le_nat_alt)
  thus ?case using Cons b h g by (simp del: hex_digit.simps)
qed simp

text \<open>C23. \<open>write_dump\<close> (\<open>log/logger.cpp\<close>): with a message that fits, every writer of the category gets
  the same records in order; put together their texts are the message and the dump of the buffer,
  in pieces of at most 4191 characters, and the digits of the dump give the buffer back. The block
  the dump was made in is freed.\<close>

theorem write_dump_exact:
  assumes "heap_ok (ls_heap st) L" "7 * length buffer + 8 < 2 ^ 31" "im_level (ls_impls st ! p) \<le> l"
    and j: "\<And>n. length (le_junk e n) = k_log_buffer_size"
    and t: "length t < k_log_buffer_size" "0 \<notin> set t"
  shows "\<exists>st' rs. write_dump e p l si buffer (Some (Some t)) st = Some st' \<and> heap_ok (ls_heap st') L \<and> records_out p rs st st' \<and>
    concat (map lr_text rs) = t @ crlf @ dump_text 0 buffer @ crlf \<and>
    (\<forall>r\<in>set rs. length (lr_text r) < k_log_buffer_size \<and> lr_level r = l) \<and>
    undump (filter (\<lambda>c. 32 < c) (dump_text 0 buffer)) = buffer"
proof -
  let ?d = "crlf @ dump_text 0 buffer @ crlf" and ?n = "k_log_buffer_size - length t - 1"
  obtain h x where p: "mb_live L (h, x)" "mb_contents h x = ?d @ [0]"
    "write_dump e p l si buffer (Some (Some t)) st = do {
       (x1, st1) \<leftarrow> dump_loop e p l si (Some t) True x (st\<lparr>ls_heap := h\<rparr>);
       h1 \<leftarrow> (case mb_destroy (ls_heap st1) x1 of Returns h1 \<Rightarrow> Some h1 | _ \<Rightarrow> None);
       Some (st1\<lparr>ls_heap := h1\<rparr>) }"
    by (rule write_dump_prepared[OF assms(1-3)])
  let ?st = "st\<lparr>ls_heap := h\<rparr>"
  have z: "0 \<notin> set ?d" using dump_text_digits by (simp add: crlf_def)
  have lv: "mb_live L (ls_heap ?st, x)" "mb_contents (ls_heap ?st) x = ?d @ [0]" using p by simp_all
  obtain x1 r where s: "dump_loop e p l si (Some t) True x ?st =
       dump_loop e p l si (Some t) False x1 (log_write_record p r (?st\<lparr>ls_clock := Suc (ls_clock ?st)\<rparr>))"
    "mb_live L (ls_heap ?st, x1)" "mb_contents (ls_heap ?st) x1 = drop ?n (?d @ [0])" "lr_text r = t @ take ?n ?d" "lr_level r = l"
    by (rule dump_loop_step[OF lv z j, where first = True and t = t and p = p and l = l and si = si and fmt = "Some t"])
      (use t in simp_all)
  let ?st1 = "log_write_record p r (?st\<lparr>ls_clock := Suc (ls_clock ?st)\<rparr>)"
  have h: "ls_heap ?st1 = ls_heap ?st" by (simp add: log_write_record_def)
  have a: "mb_live L (ls_heap ?st1, x1)" using s(2) h by simp
  have b: "mb_contents (ls_heap ?st1) x1 = [] \<and> drop ?n ?d = [] \<or> mb_contents (ls_heap ?st1) x1 = drop ?n ?d @ [0]"
  proof (cases "?n \<le> length ?d")
    case True
    thus ?thesis using s(3) h by (simp only: drop_append) simp
  next
    case False
    thus ?thesis using s(3) h by simp
  qed
  have c: "0 \<notin> set (drop ?n ?d)" using z by (meson in_set_dropD)
  obtain x' st' rs where r: "dump_loop e p l si (Some t) False x1 ?st1 = Some (x', st')" "mb_live L (ls_heap st', x')"
    "records_out p rs ?st1 st'" "concat (map lr_text rs) = drop ?n ?d"
    "\<forall>r\<in>set rs. length (lr_text r) < k_log_buffer_size \<and> lr_level r = l"
    using dump_loop_rest[OF j a b c] by blast
  obtain h1 where h1: "mb_destroy (ls_heap st') x' = Returns h1" "heap_ok h1 L" by (rule mb_destroy_live[OF r(2)])
  have "write_dump e p l si buffer (Some (Some t)) st = Some (st'\<lparr>ls_heap := h1\<rparr>)"
    unfolding p(3) s(1) r(1) using h1(1) by simp
  moreover have "records_out p (r # rs) st (st'\<lparr>ls_heap := h1\<rparr>)"
    using r(3) by (simp add: records_out_def log_write_record_def calls_of_Cons)
  moreover have "concat (map lr_text (r # rs)) = t @ ?d" using s(4) r(4) append_take_drop_id[of ?n ?d] by simp
  moreover have "length (lr_text r) < k_log_buffer_size" using s(4) t(1) by simp
  ultimately show ?thesis using r(5) s(5) h1(2) dump_text_digits
    by (intro exI[of _ "st'\<lparr>ls_heap := h1\<rparr>"] exI[of _ "r # rs"] conjI) simp_all
qed

text \<open>\<open>vsnprintf\<close> gives the length of the whole message, also when it did not fit, and -1 for an
  error. \<open>write_dump\<close> goes on at that place: a message of 4192 characters or more, or one that
  cannot be formatted, makes it write outside the record.\<close>

theorem write_dump_overruns:
  assumes "heap_ok (ls_heap st) L" "7 * length buffer + 8 < 2 ^ 31" "im_level (ls_impls st ! p) \<le> l"
    and t: "fmt = None \<or> (\<exists>t. fmt = Some t \<and> k_log_buffer_size \<le> length t \<and> length t < 2 ^ 31)"
    and j: "\<And>n. length (le_junk e n) = k_log_buffer_size"
  shows "write_dump e p l si buffer (Some fmt) st = None"
proof -
  obtain h x where p: "mb_live L (h, x)" "mb_contents h x = (crlf @ dump_text 0 buffer @ crlf) @ [0]"
    "write_dump e p l si buffer (Some fmt) st = do {
       (x1, st1) \<leftarrow> dump_loop e p l si fmt True x (st\<lparr>ls_heap := h\<rparr>);
       h1 \<leftarrow> (case mb_destroy (ls_heap st1) x1 of Returns h1 \<Rightarrow> Some h1 | _ \<Rightarrow> None);
       Some (st1\<lparr>ls_heap := h1\<rparr>) }"
    by (rule write_dump_prepared[OF assms(1-3)])
  let ?st = "st\<lparr>ls_heap := h\<rparr>"
  obtain r where r: "log_record_new e l p si ?st = (?st\<lparr>ls_clock := Suc (ls_clock ?st)\<rparr>, r)" "lr_message r = le_junk e (ls_clock ?st)"
    using log_record_new_eq by (metis prod.collapse)
  obtain m len where m: "vsnprintf k_log_buffer_size fmt (lr_message r) = (m, len)" by fastforce
  have len: "len = -1 \<or> int k_log_buffer_size \<le> len" "length m = k_log_buffer_size"
    using t m j[of "ls_clock st"] r(2) by (auto simp: vsnprintf_def to_i32_id k_log_buffer_size_def)
  have n: "nat (to_u64 (int k_log_buffer_size - len - 1)) > 0"
  proof (cases "len = -1")
    case True
    thus ?thesis by (simp add: to_u64_def k_log_buffer_size_def)
  next
    case False
    hence "int k_log_buffer_size \<le> len" "len < 2 ^ 31" using t m len by (auto simp: vsnprintf_def to_i32_id)
    moreover have "(4191 - len) mod 2 ^ 64 \<noteq> 0"
    proof
      assume "(4191 - len) mod 2 ^ 64 = 0"
      hence "2 ^ 64 dvd len - 4191" by (simp add: mod_eq_0_iff_dvd dvd_diff_commute)
      thus False using zdvd_imp_le[of "2 ^ 64" "len - 4191"] \<open>int k_log_buffer_size \<le> len\<close> \<open>len < 2 ^ 31\<close>
        by (simp add: k_log_buffer_size_def)
    qed
    ultimately show ?thesis by (simp add: to_u64_def k_log_buffer_size_def order.strict_iff_order)
  qed
  have bad: "msg_store len xs m = None" if "xs \<noteq> []" for xs
  proof -
    have "0 < int (length xs)" using that by simp
    hence "\<not> (0 \<le> len \<and> len + int (length xs) \<le> int (length m))" using len by linarith
    thus ?thesis by (simp only: msg_store_def if_False)
  qed
  have pos: "0 < mb_length x" using mb_length_contents[OF p(1)] p(2) by simp
  obtain x1 where "mb_get (nat (to_u64 (int k_log_buffer_size - len - 1))) (h, x) =
      Some (take (nat (to_u64 (int k_log_buffer_size - len - 1))) ((crlf @ dump_text 0 buffer @ crlf) @ [0]), h, x1)"
    using get_chars[OF p(1,2)] by blast
  moreover have "take (nat (to_u64 (int k_log_buffer_size - len - 1))) ((crlf @ dump_text 0 buffer @ crlf) @ [0]) \<noteq> []"
    using n by simp
  ultimately have "dump_loop e p l si fmt True x ?st = None"
    by (subst dump_loop.simps) (use pos r(1) m bad in simp)
  thus ?thesis unfolding p(3) by simp
qed

section \<open>Loggers as settings by name\<close>

text \<open>A program as the macros make it: every call looks the logger up by its name.\<close>

datatype lg_op = Lg_Level string level | Lg_Writer string nat | Lg_Write string level log_site "u8 list"

fun lg_step :: "log_env \<Rightarrow> lg_op \<Rightarrow> log_state \<Rightarrow> log_state" where
  "lg_step e (Lg_Level name l) st = (let (st1, p) = get_instance_name name st in set_level l p st1)"
| "lg_step e (Lg_Writer name w) st = fst (logger_with name w st)"
| "lg_step e (Lg_Write name l si t) st = (let (st1, p) = get_instance_name name st in log_write e p l si (Some (Some t)) st1)"

text \<open>What it means: each name has a level and writers, at first the lowest level and none; a message
  reaches the writers of its name when its level is not below theirs, cut to 4191 characters.\<close>

type_synonym settings = "string \<Rightarrow> level \<times> nat list"

fun lg_spec :: "lg_op \<Rightarrow> settings \<times> (nat \<times> level \<times> string \<times> u8 list) list \<Rightarrow>
    settings \<times> (nat \<times> level \<times> string \<times> u8 list) list" where
  "lg_spec (Lg_Level name l) (f, out) = (f(name := (l, snd (f name))), out)"
| "lg_spec (Lg_Writer name w) (f, out) = (f(name := (fst (f name), snd (f name) @ [w])), out)"
| "lg_spec (Lg_Write name l si t) (f, out) =
     (f, if l < fst (f name) then out else out @ map (\<lambda>w. (w, l, name, take (k_log_buffer_size - 1) t)) (snd (f name)))"

definition settings_of :: "log_state \<Rightarrow> settings" where
  "settings_of st name =
     (case ls_loggers st name of None \<Rightarrow> (Log_Debug, []) | Some p \<Rightarrow> (im_level (ls_impls st ! p), im_writers (ls_impls st ! p)))"

definition output_of :: "log_state \<Rightarrow> (nat \<times> level \<times> string \<times> u8 list) list" where
  "output_of st = map (\<lambda>(w, r). (w, lr_level r, ct_name (lr_category r), lr_text r)) (ls_calls st)"

definition loggers_ok :: "log_state \<Rightarrow> bool" where
  "loggers_ok st \<longleftrightarrow>
     (\<forall>name p. ls_loggers st name = Some p \<longrightarrow> p < length (ls_impls st) \<and> ct_name (im_category (ls_impls st ! p)) = name)"

lemma get_instance_ok:
  assumes "loggers_ok st" "get_instance_name name st = (st1, p)"
  shows "loggers_ok st1" "settings_of st1 = settings_of st" "ls_calls st1 = ls_calls st" "ls_loggers st1 name = Some p"
proof -
  have "loggers_ok st1 \<and> settings_of st1 = settings_of st \<and> ls_calls st1 = ls_calls st \<and> ls_loggers st1 name = Some p"
  proof (cases "ls_loggers st name")
    case None
    let ?i = "impl_new (category_of name)"
    have "st1 = st\<lparr>ls_impls := ls_impls st @ [?i], ls_loggers := (ls_loggers st)(name \<mapsto> length (ls_impls st))\<rparr>"
      and "p = length (ls_impls st)"
      using assms(2) None by (auto simp: get_instance_name_def get_instance_def category_of_def Let_def)
    moreover have "im_level ?i = Log_Debug" "im_writers ?i = []" "ct_name (im_category ?i) = name"
      by (simp_all add: impl_new_def category_of_def)
    ultimately show ?thesis using assms(1) None
      by (auto simp: loggers_ok_def settings_of_def nth_append fun_eq_iff split: option.split dest: less_not_refl2 intro: less_SucI)
  next
    case (Some q)
    hence "st1 = st" "p = q" using assms(2) by (auto simp: get_instance_name_def get_instance_def category_of_def)
    thus ?thesis using assms(1) Some by simp
  qed
  thus "loggers_ok st1" "settings_of st1 = settings_of st" "ls_calls st1 = ls_calls st" "ls_loggers st1 name = Some p" by simp_all
qed

text \<open>An operation that changes the settings of one name.\<close>

lemma update_ok:
  assumes "loggers_ok st" "ls_loggers st name = Some p" "im_category i = im_category (ls_impls st ! p)"
  shows "loggers_ok (st\<lparr>ls_impls := (ls_impls st)[p := i]\<rparr>)"
    "settings_of (st\<lparr>ls_impls := (ls_impls st)[p := i]\<rparr>) = (settings_of st)(name := (im_level i, im_writers i))"
proof -
  have p: "p < length (ls_impls st)" "\<And>q. ls_loggers st q = Some p \<Longrightarrow> q = name" using assms(1,2) by (auto simp: loggers_ok_def)
  show "loggers_ok (st\<lparr>ls_impls := (ls_impls st)[p := i]\<rparr>)" using assms by (auto simp: loggers_ok_def nth_list_update)
  show "settings_of (st\<lparr>ls_impls := (ls_impls st)[p := i]\<rparr>) = (settings_of st)(name := (im_level i, im_writers i))"
  proof
    fix q
    show "settings_of (st\<lparr>ls_impls := (ls_impls st)[p := i]\<rparr>) q = ((settings_of st)(name := (im_level i, im_writers i))) q"
    proof (cases "ls_loggers st q")
      case None
      thus ?thesis using assms(2) by (auto simp: settings_of_def)
    next
      case (Some r)
      show ?thesis
      proof (cases "q = name")
        case True
        thus ?thesis using p(1) assms(2) by (simp add: settings_of_def)
      next
        case False
        hence "p \<noteq> r" using Some p(2) by auto
        thus ?thesis using Some False by (simp add: settings_of_def)
      qed
    qed
  qed
qed

lemma settings_ok: "ls_loggers st name = Some p \<Longrightarrow> settings_of st name = (im_level (ls_impls st ! p), im_writers (ls_impls st ! p))"
  by (simp add: settings_of_def)

lemma log_write_ok:
  assumes ok: "loggers_ok st" "ls_loggers st name = Some p" and j: "\<And>n. length (le_junk e n) = k_log_buffer_size" and t: "0 \<notin> set t"
  shows "loggers_ok (log_write e p l si (Some (Some t)) st)" "settings_of (log_write e p l si (Some (Some t)) st) = settings_of st"
    "output_of (log_write e p l si (Some (Some t)) st) = output_of st @
       (if l < im_level (ls_impls st ! p) then [] else
          map (\<lambda>w. (w, l, name, take (k_log_buffer_size - 1) t)) (im_writers (ls_impls st ! p)))"
proof -
  let ?m = "overwrite 0 (take (k_log_buffer_size - 1) t @ [0]) (le_junk e (ls_clock st))"
  have "?m = take (k_log_buffer_size - 1) t @ 0 # drop (length (take (k_log_buffer_size - 1) t @ [0])) (le_junk e (ls_clock st))"
    by (simp add: overwrite_def)
  moreover have z: "0 \<notin> set (take (k_log_buffer_size - 1) t)" using t by (meson in_set_takeD)
  ultimately have m: "takeWhile (\<lambda>c. c \<noteq> 0) ?m = take (k_log_buffer_size - 1) t" by (metis text_before_zero)
  have c: "ct_name (im_category (ls_impls st ! p)) = name" using ok by (simp add: loggers_ok_def)
  note defs = log_write_def log_record_new_def vsnprintf_def log_write_record_def Let_def
  show "loggers_ok (log_write e p l si (Some (Some t)) st)" using ok by (simp add: defs loggers_ok_def)
  show "settings_of (log_write e p l si (Some (Some t)) st) = settings_of st"
    by (simp add: defs settings_of_def fun_eq_iff split: option.split)
  show "output_of (log_write e p l si (Some (Some t)) st) = output_of st @
       (if l < im_level (ls_impls st ! p) then [] else
          map (\<lambda>w. (w, l, name, take (k_log_buffer_size - 1) t)) (im_writers (ls_impls st ! p)))"
    using m c by (simp add: defs output_of_def lr_text_def)
qed

lemma lg_step_refines:
  assumes ok: "loggers_ok st" and j: "\<And>n. length (le_junk e n) = k_log_buffer_size"
    and t: "\<And>name l si t. op = Lg_Write name l si t \<Longrightarrow> 0 \<notin> set t"
  shows "loggers_ok (lg_step e op st) \<and>
    (settings_of (lg_step e op st), output_of (lg_step e op st)) = lg_spec op (settings_of st, output_of st)"
proof (cases op)
  case (Lg_Level name l)
  obtain st1 p where g: "get_instance_name name st = (st1, p)" by fastforce
  note i = get_instance_ok[OF ok g]
  show ?thesis using update_ok[OF i(1,4), of "(ls_impls st1 ! p)\<lparr>im_level := l\<rparr>"] i(2,3) settings_ok[OF i(4)] Lg_Level g
    by (simp add: set_level_def output_of_def)
next
  case (Lg_Writer name w)
  obtain st1 p where g: "get_instance_name name st = (st1, p)" by fastforce
  note i = get_instance_ok[OF ok g]
  show ?thesis using update_ok[OF i(1,4), of "(ls_impls st1 ! p)\<lparr>im_writers := im_writers (ls_impls st1 ! p) @ [w]\<rparr>"]
      i(2,3) settings_ok[OF i(4)] Lg_Writer g
    by (simp add: logger_with_def add_writer_def output_of_def)
next
  case (Lg_Write name l si t)
  obtain st1 p where g: "get_instance_name name st = (st1, p)" by fastforce
  note i = get_instance_ok[OF ok g]
  have "output_of st1 = output_of st" using i(3) by (simp add: output_of_def)
  thus ?thesis using log_write_ok[OF i(1,4) j, of t] i(2) settings_ok[OF i(4)] Lg_Write g assms(3) by simp
qed

fun lg_run :: "log_env \<Rightarrow> lg_op list \<Rightarrow> log_state \<Rightarrow> log_state" where
  "lg_run e [] st = st"
| "lg_run e (op # ops) st = lg_run e ops (lg_step e op st)"

text \<open>C22. Loggers refine settings by name: for every program, each writer is called with the messages
  that a table of levels and writers by name would give it, in order, with their level, category
  and text; loggers of the same name share their settings and others are not affected.\<close>

theorem loggers_refine:
  assumes "loggers_ok st" and j: "\<And>n. length (le_junk e n) = k_log_buffer_size"
    and "\<And>name l si t. Lg_Write name l si t \<in> set ops \<Longrightarrow> 0 \<notin> set t"
  shows "(settings_of (lg_run e ops st), output_of (lg_run e ops st)) = fold lg_spec ops (settings_of st, output_of st)"
  using assms(1,3)
proof (induction ops arbitrary: st)
  case (Cons op ops)
  have "loggers_ok (lg_step e op st) \<and>
    (settings_of (lg_step e op st), output_of (lg_step e op st)) = lg_spec op (settings_of st, output_of st)"
    by (rule lg_step_refines[OF Cons.prems(1) j]) (use Cons.prems(2) in auto)
  moreover have "(settings_of (lg_run e ops (lg_step e op st)), output_of (lg_run e ops (lg_step e op st))) =
      fold lg_spec ops (settings_of (lg_step e op st), output_of (lg_step e op st))"
    using Cons.IH[of "lg_step e op st"] calculation Cons.prems(2) by auto
  ultimately show ?case by simp
qed simp

section \<open>Instances\<close>

definition log_start :: log_state where
  "log_start = \<lparr>ls_heap = heap_empty, ls_loggers = (\<lambda>name. None), ls_impls = [], ls_clock = 0, ls_calls = []\<rparr>"

definition log_env_zero :: log_env where
  "log_env_zero = \<lparr>le_local = (\<lambda>n. 0), le_junk = (\<lambda>n. replicate k_log_buffer_size 0), le_pid = 1, le_tid = 1\<rparr>"

definition log_here :: log_site where
  "log_here = \<lparr>si_file = ''main.cpp'', si_line = 3, si_function = ''main''\<rparr>"

lemma log_start_heap: "heap_ok (ls_heap st) {#}" if "ls_heap st = heap_empty"
  using that by (simp add: heap_ok_def heap_empty_def)

definition net_logger :: log_state where
  "net_logger = log_start\<lparr>ls_impls := [\<lparr>im_level = Log_Info, im_category = category_of ''net'', im_writers = [7]\<rparr>]\<rparr>"

lemma write_dump_exact_witness:
  "\<exists>st' rs. write_dump log_env_zero 0 Log_Warn log_here [0xBE, 0xEF] (Some (Some (chars ''in''))) net_logger = Some st' \<and>
    records_out 0 rs net_logger st' \<and> concat (map lr_text rs) = chars ''in'' @ crlf @ chars ''BE EF '' @ crlf"
proof -
  have h: "heap_ok (ls_heap net_logger) {#}" by (rule log_start_heap) (simp add: net_logger_def log_start_def)
  have l: "im_level (ls_impls net_logger ! 0) \<le> Log_Warn" by (simp add: net_logger_def less_eq_level_def)
  have d: "dump_text 0 [0xBE, 0xEF] = chars ''BE EF ''" by code_simp
  have t: "length (chars ''in'') < k_log_buffer_size" "0 \<notin> set (chars ''in'')" by (simp_all add: chars_def k_log_buffer_size_def)
  have j: "length (le_junk log_env_zero n) = k_log_buffer_size" for n by (simp add: log_env_zero_def)
  have b: "7 * length [0xBE :: u8, 0xEF] + 8 < 2 ^ 31" by simp
  from write_dump_exact[OF h b l j t, of log_here] show ?thesis unfolding d by blast
qed

lemma write_dump_overruns_witness: "write_dump log_env_zero 0 Log_Warn log_here [1] (Some None) net_logger = None"
proof -
  have h: "heap_ok (ls_heap net_logger) {#}" by (rule log_start_heap) (simp add: net_logger_def log_start_def)
  have l: "im_level (ls_impls net_logger ! 0) \<le> Log_Warn" by (simp add: net_logger_def less_eq_level_def)
  show ?thesis using write_dump_overruns[OF h _ l, of "[1]" None log_env_zero log_here] by (simp add: log_env_zero_def)
qed

definition lg_program :: "lg_op list" where
  "lg_program = [Lg_Writer ''net'' 7, Lg_Level ''net'' Log_Warn, Lg_Writer ''disk'' 9, Lg_Write ''net'' Log_Info log_here [65],
     Lg_Write ''net'' Log_Error log_here [66], Lg_Write ''disk'' Log_Debug log_here [67]]"

lemma loggers_refine_witness:
  "output_of (lg_run log_env_zero lg_program log_start) = [(7, Log_Error, ''net'', [66]), (9, Log_Debug, ''disk'', [67])]"
proof -
  have "loggers_ok log_start" by (simp add: loggers_ok_def log_start_def)
  moreover have "length (le_junk log_env_zero n) = k_log_buffer_size" for n by (simp add: log_env_zero_def)
  moreover have "0 \<notin> set t" if "Lg_Write name l si t \<in> set lg_program" for name l si t using that by (auto simp: lg_program_def)
  ultimately have r: "(settings_of (lg_run log_env_zero lg_program log_start), output_of (lg_run log_env_zero lg_program log_start)) =
      fold lg_spec lg_program (settings_of log_start, output_of log_start)"
    by (rule loggers_refine)
  have "snd (fold lg_spec lg_program (settings_of log_start, output_of log_start)) =
      [(7, Log_Error, ''net'', [66]), (9, Log_Debug, ''disk'', [67])]"
    by (simp add: lg_program_def settings_of_def output_of_def log_start_def less_level_def k_log_buffer_size_def)
  thus ?thesis using r by (metis snd_conv)
qed

end
