(* ===== verification/File_Writer.thy ===== *)
theory File_Writer
  imports Log Strings
begin

text \<open>
  The text of a record (\<open>log/formatter/string_formatter.cpp\<close>) and the writer that keeps log files
  (\<open>log/writer/file_writer.cpp\<close>), Linux branches. The directory of the logs is a list of names and
  entries, in the order of \<open>readdir\<close>, or \<open>None\<close> when there is no such directory; \<open>fopen\<close> and
  \<open>mkdir\<close> may fail as parameters say, and \<open>fwrite\<close> writes all it is given. \<open>getpwuid\<close> finds the
  user.
\<close>

section \<open>Numbers and texts\<close>

definition digit :: "nat \<Rightarrow> char" where
  "digit n = char_of (48 + n)"

fun dec :: "nat \<Rightarrow> string" where
  "dec n = (if n < 10 then [digit n] else dec (n div 10) @ [digit (n mod 10)])"

declare dec.simps [simp del]

text \<open>\<open>%d\<close>, and \<open>%0wd\<close> of a number that is not negative.\<close>

definition fmt_d :: "int \<Rightarrow> string" where
  "fmt_d i = (if i < 0 then CHR ''-'' # dec (nat (- i)) else dec (nat i))"

definition pad :: "nat \<Rightarrow> nat \<Rightarrow> string" where
  "pad w n = replicate (w - length (dec n)) CHR ''0'' @ dec n"

definition date_text :: "systemtime \<Rightarrow> string" where
  "date_text st = pad 4 (nat (wYear st)) @ pad 2 (nat (wMonth st)) @ pad 2 (nat (wDay st))"

definition time_text :: "systemtime \<Rightarrow> string" where
  "time_text st = pad 2 (nat (wHour st)) @ pad 2 (nat (wMinute st)) @ pad 2 (nat (wSecond st))"

text \<open>What \<open>snprintf\<close> makes of a record.\<close>

definition record_text :: "systemtime \<Rightarrow> log_record \<Rightarrow> u8 list" where
  "record_text st r =
     chars (''['' @ date_text st @ '' '' @ time_text st @ '']['' @ [level_string r] @ '']['' @ ct_name (lr_category r) @ '']['') @
     lr_text r @
     chars ('']['' @ lr_function r @ '']['' @ lr_file r @ '':'' @ fmt_d (lr_line r) @ '']['' @ fmt_d (lr_pid r) @ '']['' @
       fmt_d (to_i32 (lr_tid r)) @ '']'') @ crlf"

text \<open>\<open>format\<close>: \<open>snprintf\<close> stores at most \<open>space() - 1\<close> characters and a zero, and \<open>wr_ptr( len )\<close>
  stops at the end of the block.\<close>

definition string_format :: "int \<Rightarrow> log_record \<Rightarrow> heap \<times> memory_block \<Rightarrow> (heap \<times> memory_block) option" where
  "string_format junk r s = do {
     (h1, x1) \<leftarrow> (case mb_reserve 8192 (fst s) (snd s) of Returns y \<Rightarrow> Some y | _ \<Rightarrow> None);
     st \<leftarrow> tick_to_systemtime junk (lr_time r);
     let t = record_text st r;
     h2 \<leftarrow> (case bb_store (mb_wr x1) (take (mb_space x1 - 1) t @ [0]) h1 (mb_base x1) of Returns h2 \<Rightarrow> Some h2 | _ \<Rightarrow> None);
     let (x2, moved) = mb_wr_ptr (to_i32 (int (length t))) x1;
     Some (h2, x2) }"

section \<open>The writer of files\<close>

datatype dir_entry = Sub_Dir | Log_File "u8 list"

text \<open>\<open>fw_file\<close> is the name of the open file.\<close>

record file_writer =
  fw_buffer :: memory_block
  fw_file :: "string option"
  fw_postfix :: string
  fw_day :: int
  fw_lines :: int
  fw_count :: int

record fw_env =
  fe_local :: "nat \<Rightarrow> date_time"
  fe_week :: int
  fe_path :: string
  fe_mkdir :: bool
  fe_open :: "nat \<Rightarrow> bool"

text \<open>\<open>ww_hist\<close> keeps the files opened so far, with what was written to each since.\<close>

record fw_world =
  ww_heap :: heap
  ww_writer :: file_writer
  ww_dir :: "(string \<times> dir_entry) list option"
  ww_clock :: nat
  ww_opens :: nat
  ww_hist :: "(string \<times> u8 list list) list"

definition file_writer_new :: "string \<Rightarrow> heap \<Rightarrow> heap \<times> file_writer" where
  "file_writer_new name h =
     (let (h1, b) = mb_default h
      in (h1, \<lparr>fw_buffer = b, fw_file = None, fw_postfix = name, fw_day = 0, fw_lines = 0, fw_count = 0\<rparr>))"

definition local_systemtime :: "fw_env \<Rightarrow> fw_world \<Rightarrow> (systemtime \<times> fw_world) option" where
  "local_systemtime e w = do {
     st \<leftarrow> tick_to_systemtime (fe_week e) (fe_local e (ww_clock w));
     Some (st, w\<lparr>ww_clock := Suc (ww_clock w)\<rparr>) }"

text \<open>The name is cut with the path by \<open>append_format\<close>, which keeps 4095 characters of \<open>/name\<close>.\<close>

definition log_name :: "systemtime \<Rightarrow> int \<Rightarrow> string \<Rightarrow> string" where
  "log_name st n postfix =
     drop 1 (append_format [] (''/'' @ date_text st @ ''_'' @ time_text st @ ''_'' @ pad 4 (nat n) @ ''_'' @ postfix @ ''.log''))"

text \<open>\<open>fopen( path , "wb" )\<close>: a new file, or an old one emptied; not in place of a directory.\<close>

fun set_entry :: "string \<Rightarrow> dir_entry \<Rightarrow> (string \<times> dir_entry) list \<Rightarrow> (string \<times> dir_entry) list" where
  "set_entry n x [] = [(n, x)]"
| "set_entry n x ((m, y) # es) = (if m = n then (m, x) # es else (m, y) # set_entry n x es)"

definition create_log_file :: "fw_env \<Rightarrow> fw_world \<Rightarrow> (bool \<times> fw_world) option" where
  "create_log_file e w = do {
     let w1 = w\<lparr>ww_dir := (case ww_dir w of None \<Rightarrow> if fe_mkdir e then Some [] else None | d \<Rightarrow> d)\<rparr>;
     (st, w2) \<leftarrow> local_systemtime e w1;
     let name = log_name st (fw_count (ww_writer w2)) (fw_postfix (ww_writer w2));
     let w3 = w2\<lparr>ww_opens := Suc (ww_opens w2)\<rparr>;
     Some (case ww_dir w3 of
        None \<Rightarrow> (False, w3\<lparr>ww_writer := (ww_writer w3)\<lparr>fw_file := None\<rparr>\<rparr>)
      | Some es \<Rightarrow>
          if fe_open e (ww_opens w2) \<and> map_of es name \<noteq> Some Sub_Dir then
            (True, w3\<lparr>ww_dir := Some (set_entry name (Log_File []) es), ww_writer := (ww_writer w3)\<lparr>fw_file := Some name\<rparr>,
                      ww_hist := ww_hist w3 @ [(name, [])]\<rparr>)
          else (False, w3\<lparr>ww_writer := (ww_writer w3)\<lparr>fw_file := None\<rparr>\<rparr>)) }"

text \<open>Strings are compared by their characters, as unsigned.\<close>

fun str_less :: "string \<Rightarrow> string \<Rightarrow> bool" where
  "str_less s [] = False"
| "str_less [] (d # t) = True"
| "str_less (c # s) (d # t) = (if of_char c < (of_char d :: nat) then True else if c = d then str_less s t else False)"

text \<open>The loop over the directory: \<open>sprintf\<close> must not leave \<open>full_path\<close>.\<close>

fun remove_before :: "string \<Rightarrow> string \<Rightarrow> (string \<times> dir_entry) list \<Rightarrow> (string \<times> dir_entry) list option" where
  "remove_before path before [] = Some []"
| "remove_before path before ((n, x) # es) =
     (if 4096 \<le> length path + 1 + length n then None
      else do {
        es1 \<leftarrow> remove_before path before es;
        Some (if x \<noteq> Sub_Dir \<and> str_less n before then es1 else (n, x) # es1) })"

definition delete_old_logs :: "fw_env \<Rightarrow> fw_world \<Rightarrow> fw_world option" where
  "delete_old_logs e w = do {
     st \<leftarrow> tick_to_systemtime (fe_week e) (dt_minus (fe_local e (ww_clock w)) (ts_from_days 30));
     let w1 = w\<lparr>ww_clock := Suc (ww_clock w)\<rparr>;
     let delete_before = append_format [] (date_text st);
     case ww_dir w1 of
       None \<Rightarrow> Some w1
     | Some es \<Rightarrow> do { es1 \<leftarrow> remove_before (fe_path e) delete_before es; Some (w1\<lparr>ww_dir := Some es1\<rparr>) } }"

definition append_file :: "string \<Rightarrow> u8 list \<Rightarrow> (string \<times> dir_entry) list \<Rightarrow> (string \<times> dir_entry) list" where
  "append_file name xs es =
     map (\<lambda>(n, x). (n, if n = name then (case x of Log_File ys \<Rightarrow> Log_File (ys @ xs) | Sub_Dir \<Rightarrow> Sub_Dir) else x)) es"

definition hist_append :: "u8 list \<Rightarrow> (string \<times> u8 list list) list \<Rightarrow> (string \<times> u8 list list) list" where
  "hist_append xs hs = (if hs = [] then [] else butlast hs @ [(fst (last hs), snd (last hs) @ [xs])])"

text \<open>\<open>fwrite\<close> to the open file; an open file that was removed from the directory stays writable.\<close>

definition file_append :: "u8 list \<Rightarrow> fw_world \<Rightarrow> fw_world" where
  "file_append xs w =
     (case fw_file (ww_writer w) of
        None \<Rightarrow> w
      | Some name \<Rightarrow> w\<lparr>ww_dir := map_option (append_file name xs) (ww_dir w), ww_hist := hist_append xs (ww_hist w)\<rparr>)"

definition put_line :: "fw_env \<Rightarrow> log_record \<Rightarrow> fw_world \<Rightarrow> fw_world option" where
  "put_line e r w = do {
     let f = ww_writer w;
     (h1, b1) \<leftarrow> string_format (fe_week e) r (ww_heap w, fw_buffer f);
     xs \<leftarrow> (case mb_peek (mb_length b1) h1 b1 of Returns xs \<Rightarrow> Some xs | _ \<Rightarrow> None);
     (h2, b2) \<leftarrow> (case mb_clear h1 b1 of Returns y \<Rightarrow> Some y | _ \<Rightarrow> None);
     Some ((file_append xs w)\<lparr>ww_heap := h2, ww_writer := f\<lparr>fw_lines := to_u32 (fw_lines f + 1), fw_buffer := b2\<rparr>\<rparr>) }"

definition fw_write :: "fw_env \<Rightarrow> log_record \<Rightarrow> fw_world \<Rightarrow> fw_world option" where
  "fw_write e r w = do {
     (st, w1) \<leftarrow> local_systemtime e w;
     let f = ww_writer w1;
     if fw_file f = None \<or> fw_day f \<noteq> wDay st \<or> 65535 < fw_lines f then do {
       w2 \<leftarrow> (if fw_day f \<noteq> wDay st then do {
                  w2 \<leftarrow> delete_old_logs e w1; Some (w2\<lparr>ww_writer := (ww_writer w2)\<lparr>fw_count := 0\<rparr>\<rparr>) }
              else Some w1);
       (ok, w3) \<leftarrow> create_log_file e w2;
       if \<not> ok then Some w3
       else put_line e r
         (w3\<lparr>ww_writer := (ww_writer w3)\<lparr>fw_count := to_u32 (fw_count (ww_writer w3) + 1), fw_lines := 0, fw_day := wDay st\<rparr>\<rparr>)
     } else put_line e r w1 }"

section \<open>One line\<close>

lemma string_format_ok:
  assumes c: "mb_cleared L (h, x)" and st: "tick_to_systemtime junk (lr_time r) = Some st"
    and t: "length (record_text st r) < 8192"
  obtains h2 x2 where "string_format junk r (h, x) = Some (h2, x2)" "mb_live L (h2, x2)"
    "mb_contents h2 x2 = record_text st r"
proof -
  let ?t = "record_text st r"
  have live: "mb_live L (h, x)" and z: "mb_rd x = 0" "mb_wr x = 0" using c by (simp_all add: mb_cleared_def)
  have w: "mb_wr x \<le> 8192" "(8192 :: nat) < 2 ^ 31" using z by simp_all
  obtain h1 x1 where 1: "mb_reserve 8192 h x = Returns (h1, x1)" "mb_live L (h1, x1)" "exclusive h1 (mb_base x1)"
    "mb_rd x1 = mb_rd x" "mb_wr x1 = mb_wr x" "8192 \<le> mb_size x1"
    using mb_reserve_ok[OF live w] by metis
  have ok1: "heap_ok h1 (add_mset (mb_base x1) L)" and x1: "mb_ok x1" using 1(2) by (simp_all add: mb_live_def)
  obtain bs where bs: "bb_bytes h1 (mb_base x1) = Some bs" "length bs = mb_size x1" using 1(2) by (rule mb_live_bytes)
  have sp: "mb_space x1 = mb_size x1" using 1(5) z by (simp add: mb_ok_sizes[OF x1])
  have tk: "take (mb_space x1 - 1) ?t @ [0] = ?t @ [0]" using sp t 1(6) by simp
  have "0 + length (?t @ [0]) \<le> bb_size (mb_base x1)" using t 1(6) by (simp add: mb_size_def)
  then obtain h2 where 2: "bb_store 0 (?t @ [0]) h1 (mb_base x1) = Returns h2" "heap_ok h2 (add_mset (mb_base x1) L)"
      "bb_bytes h2 (mb_base x1) = Some (overwrite 0 (?t @ [0]) bs)"
    using bb_store_ok[OF ok1 1(3) _ bs(1)] by metis
  let ?x = "x1\<lparr>mb_wr := length ?t\<rparr>"
  have mv: "mb_wr_ptr (to_i32 (int (length ?t))) x1 = (?x, int (length ?t))"
  proof -
    have "to_i32 (int (length ?t)) = int (length ?t)" using t by (simp add: to_i32_id)
    moreover have "size_add_int (mb_wr x1) (int (length ?t)) = length ?t"
      using t 1(5) z by (simp add: size_add_int_small)
    ultimately show ?thesis using t 1(5,6) z
      by (simp only: mb_wr_ptr_def mb_ok_sizes(3)[OF x1] Let_def) (simp add: min_def)
  qed
  have "string_format junk r (h, x) = Some (h2, ?x)"
    using 1(1,5) z st 2(1) mv tk by (simp add: string_format_def Let_def)
  moreover have "mb_live L (h2, ?x)"
    using 2(2) x1 1(4,6) z t by (simp add: mb_live_def mb_ok_def mb_size_def)
  moreover have "mb_contents h2 ?x = ?t" using 2(3) 1(4) z by (simp add: mb_contents_def slice_def overwrite_def)
  ultimately show ?thesis by (rule that)
qed

text \<open>The line of a record.\<close>

definition line_of :: "int \<Rightarrow> log_record \<Rightarrow> u8 list" where
  "line_of junk r = (case tick_to_systemtime junk (lr_time r) of Some st \<Rightarrow> record_text st r | None \<Rightarrow> [])"

definition printable :: "int \<Rightarrow> log_record \<Rightarrow> bool" where
  "printable junk r \<longleftrightarrow> tick_to_systemtime junk (lr_time r) \<noteq> None \<and> length (line_of junk r) < 8192"

definition buffer_ok :: "fw_world \<Rightarrow> bool" where
  "buffer_ok w \<longleftrightarrow> mb_cleared {#} (ww_heap w, fw_buffer (ww_writer w))"

lemma put_line_ok:
  assumes "buffer_ok w" "printable (fe_week e) r"
  obtains h2 b2 where "put_line e r w = Some ((file_append (line_of (fe_week e) r) w)\<lparr>ww_heap := h2,
      ww_writer := (ww_writer w)\<lparr>fw_lines := to_u32 (fw_lines (ww_writer w) + 1), fw_buffer := b2\<rparr>\<rparr>)"
    "mb_cleared {#} (h2, b2)"
proof -
  obtain st where st: "tick_to_systemtime (fe_week e) (lr_time r) = Some st" "line_of (fe_week e) r = record_text st r"
    "length (record_text st r) < 8192" using assms(2) by (auto simp: printable_def line_of_def)
  obtain h1 b1 where 1: "string_format (fe_week e) r (ww_heap w, fw_buffer (ww_writer w)) = Some (h1, b1)" "mb_live {#} (h1, b1)"
    "mb_contents h1 b1 = record_text st r" using string_format_ok[OF _ st(1,3)] assms(1) unfolding buffer_ok_def by metis
  have p: "mb_peek (mb_length b1) h1 b1 = Returns (record_text st r)"
    using mb_peek_ok[OF 1(2), of "mb_length b1"] mb_length_contents[OF 1(2)] 1(3) by simp
  obtain h2 b2 where 2: "mb_clear h1 b1 = Returns (h2, b2)" "mb_cleared {#} (h2, b2)" by (rule mb_clear_ok[OF 1(2)])
  show ?thesis using 1(1) p 2 st(2) by (intro that[of b2 h2]) (simp_all add: put_line_def Let_def)
qed

section \<open>Many lines\<close>

lemma dec_length: "n < 10 ^ Suc k \<Longrightarrow> length (dec n) \<le> Suc k"
proof (induction k arbitrary: n)
  case 0
  thus ?case by (subst dec.simps) simp
next
  case (Suc k)
  have "n div 10 < 10 ^ Suc k" using Suc.prems by (simp add: less_mult_imp_div_less)
  thus ?case using Suc.IH[of "n div 10"] by (subst dec.simps) simp
qed

lemma pad_length: "n < 10 ^ Suc k \<Longrightarrow> length (pad v n) \<le> max v (Suc k)"
  using dec_length[of n k] by (simp add: pad_def)

lemma to_u16_range: "0 \<le> to_u16 x \<and> to_u16 x < 65536"
  by (simp add: to_u16_def)

lemma systemtime_fields:
  assumes "tick_to_systemtime junk v = Some st"
  shows "nat (wYear st) < 10 ^ Suc 4" "nat (wMonth st) < 10 ^ Suc 4" "nat (wDay st) < 10 ^ Suc 4" "nat (wHour st) < 10 ^ Suc 4"
    "nat (wMinute st) < 10 ^ Suc 4" "nat (wSecond st) < 10 ^ Suc 4" "0 \<le> wDay st"
proof -
  obtain tm where tm: "tick_to_tm v = Some tm" using assms by (cases "tick_to_tm v") (simp_all add: tick_to_systemtime_def)
  have st: "wYear st = to_u16 (tm_year tm + 1900)" "wMonth st = to_u16 (tm_mon tm + 1)" "wDay st = to_u16 (tm_mday tm)"
    "wHour st = to_u16 (tm_hour tm)" "wMinute st = to_u16 (tm_min tm)" "wSecond st = to_u16 (tm_sec tm)"
    using assms by (auto simp: tick_to_systemtime_def tm)
  have u: "nat (to_u16 x) < 10 ^ Suc 4" for x using to_u16_range[of x] by (simp add: nat_less_iff)
  show "nat (wYear st) < 10 ^ Suc 4" "nat (wMonth st) < 10 ^ Suc 4" "nat (wDay st) < 10 ^ Suc 4" "nat (wHour st) < 10 ^ Suc 4"
    "nat (wMinute st) < 10 ^ Suc 4" "nat (wSecond st) < 10 ^ Suc 4" "0 \<le> wDay st"
    unfolding st by (simp_all only: u to_u16_range)
qed

lemma log_name_length:
  assumes "tick_to_systemtime junk v = Some st" "n < 2 ^ 32"
  shows "length (log_name st n p) \<le> length p + 47"
proof -
  note f = systemtime_fields[OF assms(1)]
  have "nat n < 10 ^ Suc 9" using assms(2) by simp
  hence "length (pad 4 (nat n)) \<le> 10" using pad_length[of "nat n" 9 4] by simp
  moreover have "length (pad 4 (nat (wYear st))) \<le> 5" "length (pad 2 (nat (wMonth st))) \<le> 5" "length (pad 2 (nat (wDay st))) \<le> 5"
    "length (pad 2 (nat (wHour st))) \<le> 5" "length (pad 2 (nat (wMinute st))) \<le> 5" "length (pad 2 (nat (wSecond st))) \<le> 5"
    using pad_length[OF f(1), of 4] pad_length[OF f(2), of 2] pad_length[OF f(3), of 2] pad_length[OF f(4), of 2]
      pad_length[OF f(5), of 2] pad_length[OF f(6), of 2] by simp_all
  moreover define s where
    "s = ''/'' @ date_text st @ ''_'' @ time_text st @ ''_'' @ pad 4 (nat n) @ ''_'' @ p @ ''.log''"
  ultimately have "length s \<le> length p + 48" by (simp add: date_text_def time_text_def)
  moreover have "length (log_name st n p) \<le> length s - 1"
    unfolding log_name_def append_format_def s_def[symmetric] by simp
  ultimately show ?thesis by simp
qed

lemma map_of_set_entry: "map_of (set_entry n x es) = (map_of es)(n \<mapsto> x)"
  by (induction n x es rule: set_entry.induct) (auto simp: fun_eq_iff)

lemma set_set_entry: "set (set_entry n x es) \<subseteq> insert (n, x) (set es)"
  by (induction n x es rule: set_entry.induct) auto

lemma map_of_append_file:
  "map_of (append_file n xs es) m =
     (if m = n then map_option (\<lambda>x. case x of Log_File ys \<Rightarrow> Log_File (ys @ xs) | Sub_Dir \<Rightarrow> Sub_Dir) (map_of es m) else map_of es m)"
  by (induction es) (auto simp: append_file_def)

definition names_ok :: "string \<Rightarrow> (string \<times> dir_entry) list option \<Rightarrow> bool" where
  "names_ok path d \<longleftrightarrow> (\<forall>es. d = Some es \<longrightarrow> (\<forall>n\<in>fst ` set es. length path + 1 + length n < 4096))"

definition no_sub_dir :: "(string \<times> dir_entry) list option \<Rightarrow> bool" where
  "no_sub_dir d \<longleftrightarrow> (\<forall>es. d = Some es \<longrightarrow> Sub_Dir \<notin> snd ` set es)"

text \<open>\<open>good\<close>: files can always be created.\<close>

definition can_create :: "fw_env \<Rightarrow> bool" where
  "can_create e \<longleftrightarrow> fe_mkdir e \<and> (\<forall>n. fe_open e n)"

definition fw_base :: "bool \<Rightarrow> fw_env \<Rightarrow> u8 list list \<Rightarrow> fw_world \<Rightarrow> bool" where
  "fw_base good e ls w \<longleftrightarrow>
     buffer_ok w \<and> names_ok (fe_path e) (ww_dir w) \<and> length (fe_path e) + length (fw_postfix (ww_writer w)) < 4000 \<and>
     fw_count (ww_writer w) < 2 ^ 32 \<and> (\<forall>(n, l)\<in>set (ww_hist w). length l \<le> 65536) \<and>
     subseq (concat (map snd (ww_hist w))) ls \<and>
     (good \<longrightarrow> can_create e \<and> no_sub_dir (ww_dir w) \<and> concat (map snd (ww_hist w)) = ls)"

definition file_ok :: "fw_world \<Rightarrow> bool" where
  "file_ok w \<longleftrightarrow> (\<forall>n. fw_file (ww_writer w) = Some n \<longrightarrow>
     (\<exists>hs l es. ww_hist w = hs @ [(n, l)] \<and> int (length l) = fw_lines (ww_writer w) \<and> length l \<le> 65536 \<and>
        ww_dir w = Some es \<and> map_of es n = Some (Log_File (concat l))))"

lemma put_line_inv:
  assumes b: "fw_base good e ls w" and f: "file_ok w" and n: "fw_file (ww_writer w) = Some n"
    and l: "fw_lines (ww_writer w) \<le> 65535" and p: "printable (fe_week e) r"
  shows "\<exists>w'. put_line e r w = Some w' \<and> fw_base good e (ls @ [line_of (fe_week e) r]) w' \<and> file_ok w' \<and>
    ww_clock w' = ww_clock w \<and> fw_day (ww_writer w') = fw_day (ww_writer w) \<and>
    fw_postfix (ww_writer w') = fw_postfix (ww_writer w) \<and> ww_hist w' = hist_append (line_of (fe_week e) r) (ww_hist w) \<and>
    fw_file (ww_writer w') = Some n"
proof -
  let ?x = "line_of (fe_week e) r"
  obtain h2 b2 where w': "put_line e r w = Some ((file_append ?x w)\<lparr>ww_heap := h2,
      ww_writer := (ww_writer w)\<lparr>fw_lines := to_u32 (fw_lines (ww_writer w) + 1), fw_buffer := b2\<rparr>\<rparr>)" "mb_cleared {#} (h2, b2)"
    using put_line_ok[OF _ p] b unfolding fw_base_def by metis
  let ?w = "(file_append ?x w)\<lparr>ww_heap := h2,
      ww_writer := (ww_writer w)\<lparr>fw_lines := to_u32 (fw_lines (ww_writer w) + 1), fw_buffer := b2\<rparr>\<rparr>"
  obtain hs ll es where h: "ww_hist w = hs @ [(n, ll)]" "int (length ll) = fw_lines (ww_writer w)" "ww_dir w = Some es"
    "map_of es n = Some (Log_File (concat ll))" using f n by (auto simp: file_ok_def)
  have hist: "ww_hist ?w = hs @ [(n, ll @ [?x])]" using n h(1) by (simp add: file_append_def hist_append_def)
  have dir: "ww_dir ?w = Some (append_file n ?x es)" using n h(3) by (simp add: file_append_def)
  have len: "length ll \<le> 65535" using h(2) l by simp
  have nm: "names_ok (fe_path e) (Some (append_file n ?x es)) = names_ok (fe_path e) (Some es)"
  proof -
    have "fst ` set (append_file n ?x es) = fst ` set es" by (force simp: append_file_def image_iff)
    thus ?thesis by (simp only: names_ok_def option.inject) blast
  qed
  have sd: "Sub_Dir \<notin> snd ` set es \<Longrightarrow> Sub_Dir \<notin> snd ` set (append_file n ?x es)"
    by (auto simp: append_file_def split: if_splits dir_entry.splits)
  have "fw_base good e (ls @ [?x]) ?w"
    unfolding fw_base_def hist dir
    using b h(1,3) len w'(2) nm sd list_emb_append_mono[of "(=)" "concat (map snd hs) @ ll" ls "[?x]" "[?x]"]
    by (auto simp: fw_base_def buffer_ok_def no_sub_dir_def)
  moreover have "file_ok ?w"
    unfolding file_ok_def hist dir using n h len l by (auto simp: map_of_append_file to_u32_id)
  moreover have "ww_clock ?w = ww_clock w" "ww_hist ?w = hist_append ?x (ww_hist w)" using n by (simp_all add: file_append_def)
  ultimately show ?thesis using w'(1) n by (intro exI[of _ ?w]) simp
qed

text \<open>Readings of the clock that can be converted, also 30 days before.\<close>

definition times_ok :: "fw_env \<Rightarrow> bool" where
  "times_ok e \<longleftrightarrow> (\<forall>n. tick_to_systemtime (fe_week e) (fe_local e n) \<noteq> None \<and>
     tick_to_systemtime (fe_week e) (dt_minus (fe_local e n) (ts_from_days 30)) \<noteq> None)"

lemma local_systemtime_ok:
  assumes "times_ok e"
  obtains st where "local_systemtime e w = Some (st, w\<lparr>ww_clock := Suc (ww_clock w)\<rparr>)"
    "tick_to_systemtime (fe_week e) (fe_local e (ww_clock w)) = Some st"
  using assms by (auto simp: times_ok_def local_systemtime_def)

lemma remove_before_ok:
  "names_ok path (Some es) \<Longrightarrow> remove_before path before es = Some (filter (\<lambda>(n, x). x = Sub_Dir \<or> \<not> str_less n before) es)"
  by (induction es) (auto simp: names_ok_def)

lemma base_clock: "fw_base good e ls (w\<lparr>ww_clock := n\<rparr>) = fw_base good e ls w"
  by (simp add: fw_base_def buffer_ok_def)

lemma delete_inv:
  assumes t: "times_ok e" and b: "fw_base good e ls w"
  obtains w' where "delete_old_logs e w = Some w'" "fw_base good e ls w'" "ww_writer w' = ww_writer w"
    "ww_clock w' = Suc (ww_clock w)" "ww_hist w' = ww_hist w"
proof -
  let ?w = "w\<lparr>ww_clock := Suc (ww_clock w)\<rparr>"
  obtain st where st: "tick_to_systemtime (fe_week e) (dt_minus (fe_local e (ww_clock w)) (ts_from_days 30)) = Some st"
    using t by (auto simp: times_ok_def)
  show ?thesis
  proof (cases "ww_dir w")
    case None
    thus ?thesis using st b by (intro that[of ?w]) (simp_all add: delete_old_logs_def base_clock)
  next
    case (Some es)
    let ?es = "filter (\<lambda>(n, x). x = Sub_Dir \<or> \<not> str_less n (append_format [] (date_text st))) es"
    have n: "names_ok (fe_path e) (Some es)" using b Some by (simp add: fw_base_def)
    have "names_ok (fe_path e) (Some ?es)" "no_sub_dir (Some es) \<longrightarrow> no_sub_dir (Some ?es)"
      using n by (auto simp: names_ok_def no_sub_dir_def)
    hence "fw_base good e ls (?w\<lparr>ww_dir := Some ?es\<rparr>)" using b Some by (simp add: fw_base_def buffer_ok_def)
    thus ?thesis using st Some remove_before_ok[OF n]
      by (intro that[of "?w\<lparr>ww_dir := Some ?es\<rparr>"]) (simp_all add: delete_old_logs_def)
  qed
qed

lemma create_inv:
  assumes t: "times_ok e" and b: "fw_base good e ls w"
  shows "(\<exists>w' name. create_log_file e w = Some (True, w') \<and> fw_base good e ls w' \<and>
      (\<exists>st. tick_to_systemtime (fe_week e) (fe_local e (ww_clock w)) = Some st \<and>
        name = log_name st (fw_count (ww_writer w)) (fw_postfix (ww_writer w))) \<and>
      ww_writer w' = (ww_writer w)\<lparr>fw_file := Some name\<rparr> \<and> ww_hist w' = ww_hist w @ [(name, [])] \<and>
      ww_clock w' = Suc (ww_clock w) \<and>
      (\<exists>es. ww_dir w' = Some es \<and> map_of es name = Some (Log_File []))) \<or>
    (\<exists>w'. create_log_file e w = Some (False, w') \<and> \<not> good \<and> fw_base False e ls w' \<and> fw_file (ww_writer w') = None)"
proof -
  let ?d = "case ww_dir w of None \<Rightarrow> if fe_mkdir e then Some [] else None | d \<Rightarrow> d"
  let ?w1 = "w\<lparr>ww_dir := ?d\<rparr>"
  let ?w3 = "?w1\<lparr>ww_clock := Suc (ww_clock w), ww_opens := Suc (ww_opens w)\<rparr>"
  obtain st where st: "local_systemtime e ?w1 = Some (st, ?w1\<lparr>ww_clock := Suc (ww_clock ?w1)\<rparr>)"
    "tick_to_systemtime (fe_week e) (fe_local e (ww_clock ?w1)) = Some st" by (rule local_systemtime_ok[OF t])
  define name where "name = log_name st (fw_count (ww_writer w)) (fw_postfix (ww_writer w))"
  have c: "fw_count (ww_writer w) < 2 ^ 32" "length (fe_path e) + length (fw_postfix (ww_writer w)) < 4000"
    using b by (simp_all add: fw_base_def)
  have ln: "length (fe_path e) + 1 + length name < 4096" using log_name_length[OF st(2) c(1), of "fw_postfix (ww_writer w)"] c(2) by (simp add: name_def)
  have d: "names_ok (fe_path e) ?d" "good \<longrightarrow> no_sub_dir ?d"
    using b by (auto simp: fw_base_def names_ok_def no_sub_dir_def split: option.splits if_splits)
  show ?thesis
  proof (cases "\<exists>es. ?d = Some es \<and> fe_open e (ww_opens w) \<and> map_of es name \<noteq> Some Sub_Dir")
    case True
    then obtain es where es: "?d = Some es" "fe_open e (ww_opens w)" "map_of es name \<noteq> Some Sub_Dir" by blast
    let ?es = "set_entry name (Log_File []) es"
    let ?w = "?w3\<lparr>ww_dir := Some ?es, ww_writer := (ww_writer w)\<lparr>fw_file := Some name\<rparr>, ww_hist := ww_hist w @ [(name, [])]\<rparr>"
    have "create_log_file e w = Some (True, ?w)" using st(1) es by (simp add: create_log_file_def name_def[symmetric])
    moreover have "names_ok (fe_path e) (Some ?es)" "good \<longrightarrow> no_sub_dir (Some ?es)"
      using d es(1) ln set_set_entry[of name "Log_File []" es] by (fastforce simp: names_ok_def no_sub_dir_def)+
    hence "fw_base good e ls ?w" using b by (simp add: fw_base_def buffer_ok_def)
    moreover have "map_of ?es name = Some (Log_File [])" by (simp add: map_of_set_entry)
    ultimately show ?thesis using st(2) by (intro disjI1 exI[of _ ?w] exI[of _ name]) (simp add: name_def)
  next
    case False
    let ?w = "?w3\<lparr>ww_writer := (ww_writer w)\<lparr>fw_file := None\<rparr>\<rparr>"
    have "create_log_file e w = Some (False, ?w)"
    proof (cases ?d)
      case None
      thus ?thesis using st(1) by (simp add: create_log_file_def Let_def)
    next
      case (Some es)
      thus ?thesis using st(1) False by (auto simp: create_log_file_def name_def[symmetric] Let_def)
    qed
    moreover have "\<not> good"
    proof
      assume good
      hence "can_create e" "no_sub_dir ?d" using b d by (simp_all add: fw_base_def)
      moreover from this obtain es where es: "?d = Some es" by (auto simp: can_create_def split: option.splits)
      ultimately have "map_of es name \<noteq> Some Sub_Dir" "fe_open e (ww_opens w)"
        by (force simp: no_sub_dir_def can_create_def dest: map_of_SomeD)+
      thus False using False \<open>?d = Some es\<close> using es by blast
    qed
    moreover have "fw_base False e ls ?w" using b d by (simp add: fw_base_def buffer_ok_def)
    ultimately show ?thesis by (intro disjI2 exI[of _ ?w]) simp
  qed
qed

lemma base_drop: "fw_base good e ls w \<Longrightarrow> fw_base False e (ls @ [x]) w"
  by (auto simp: fw_base_def intro: list_emb_append2)

lemma base_writer:
  "fw_base good e ls w \<Longrightarrow> fw_postfix f = fw_postfix (ww_writer w) \<Longrightarrow> fw_buffer f = fw_buffer (ww_writer w) \<Longrightarrow>
   fw_count f < 2 ^ 32 \<Longrightarrow> fw_base good e ls (w\<lparr>ww_writer := f\<rparr>)"
  by (simp add: fw_base_def buffer_ok_def)

text \<open>A new file, and the line written to it.\<close>

definition new_file_seen :: "fw_env \<Rightarrow> int \<Rightarrow> u8 list \<Rightarrow> fw_world \<Rightarrow> fw_world \<Rightarrow> bool" where
  "new_file_seen e day x w w' \<longleftrightarrow>
     (\<exists>st. tick_to_systemtime (fe_week e) (fe_local e (ww_clock w)) = Some st \<and>
        ww_hist w' = ww_hist w @ [(log_name st (fw_count (ww_writer w)) (fw_postfix (ww_writer w)), [x])]) \<and>
     ww_clock w' = Suc (ww_clock w) \<and> fw_day (ww_writer w') = day \<and> fw_postfix (ww_writer w') = fw_postfix (ww_writer w) \<and>
     fw_file (ww_writer w') \<noteq> None"

lemma new_file_inv:
  assumes t: "times_ok e" and b: "fw_base good e ls w" and p: "printable (fe_week e) r"
  shows "\<exists>w' good'. (do {
       (ok, w3) \<leftarrow> create_log_file e w;
       if \<not> ok then Some w3
       else put_line e r
         (w3\<lparr>ww_writer := (ww_writer w3)\<lparr>fw_count := to_u32 (fw_count (ww_writer w3) + 1), fw_lines := 0, fw_day := day\<rparr>\<rparr>) }) =
     Some w' \<and> fw_base good' e (ls @ [line_of (fe_week e) r]) w' \<and> file_ok w' \<and> (good \<longrightarrow> good' \<and>
       new_file_seen e day (line_of (fe_week e) r) w w')"
  using create_inv[OF t b]
proof (elim disjE exE conjE, goal_cases)
  case (1 w3 name st es)
  let ?f = "(ww_writer w3)\<lparr>fw_count := to_u32 (fw_count (ww_writer w3) + 1), fw_lines := 0, fw_day := day\<rparr>"
  let ?w = "w3\<lparr>ww_writer := ?f\<rparr>"
  have b1: "fw_base good e ls ?w" by (rule base_writer[OF 1(2)]) (simp_all add: to_u32_def)
  have f1: "file_ok ?w" unfolding file_ok_def using 1 by (intro allI impI exI[of _ "ww_hist w"] exI[of _ "[]"] exI[of _ es]) simp
  have n1: "fw_file (ww_writer ?w) = Some name" "fw_lines (ww_writer ?w) \<le> 65535" using 1 by simp_all
  obtain w' where w': "put_line e r ?w = Some w'" "fw_base good e (ls @ [line_of (fe_week e) r]) w'" "file_ok w'"
    "ww_clock w' = ww_clock ?w" "fw_day (ww_writer w') = day" "fw_postfix (ww_writer w') = fw_postfix (ww_writer w3)"
    "ww_hist w' = hist_append (line_of (fe_week e) r) (ww_hist w3)" "fw_file (ww_writer w') = Some name"
    using put_line_inv[OF b1 f1 n1 p] by auto
  hence "new_file_seen e day (line_of (fe_week e) r) w w'" using 1 by (auto simp: new_file_seen_def hist_append_def)
  thus ?case using 1(1) w' by (intro exI[of _ w'] exI[of _ good]) simp
next
  case (2 w3)
  have "file_ok w3" using 2 by (simp add: file_ok_def)
  thus ?case using 2 base_drop[OF 2(3)] by (intro exI[of _ w3] exI[of _ False]) simp
qed

lemma fw_write_inv:
  assumes t: "times_ok e" and b: "fw_base good e ls w" and f: "file_ok w" and p: "printable (fe_week e) r"
  shows "\<exists>w' good'. fw_write e r w = Some w' \<and> fw_base good' e (ls @ [line_of (fe_week e) r]) w' \<and> file_ok w' \<and> (good \<longrightarrow> good')"
proof -
  let ?w = "w\<lparr>ww_clock := Suc (ww_clock w)\<rparr>"
  obtain st where st: "local_systemtime e w = Some (st, ?w)" by (rule local_systemtime_ok[OF t])
  have b1: "fw_base good e ls ?w" using b by (simp add: base_clock)
  have f1: "file_ok ?w" using f by (simp add: file_ok_def)
  have c: "fw_count (ww_writer w) < 2 ^ 32" using b by (simp add: fw_base_def)
  consider "fw_day (ww_writer w) \<noteq> wDay st" |
    "fw_day (ww_writer w) = wDay st" "fw_file (ww_writer w) = None \<or> 65535 < fw_lines (ww_writer w)" |
    n where "fw_day (ww_writer w) = wDay st" "fw_file (ww_writer w) = Some n" "fw_lines (ww_writer w) \<le> 65535"
    by fastforce
  thus ?thesis
  proof cases
    case 1
    obtain w2 where w2: "delete_old_logs e ?w = Some w2" "fw_base good e ls w2" "ww_writer w2 = ww_writer ?w"
      by (rule delete_inv[OF t b1])
    have "fw_base good e ls (w2\<lparr>ww_writer := (ww_writer w2)\<lparr>fw_count := 0\<rparr>\<rparr>)" by (rule base_writer[OF w2(2)]) simp_all
    then obtain w' good' where n: "(do {
       (ok, w3) \<leftarrow> create_log_file e (w2\<lparr>ww_writer := (ww_writer w2)\<lparr>fw_count := 0\<rparr>\<rparr>);
       if \<not> ok then Some w3
       else put_line e r
         (w3\<lparr>ww_writer := (ww_writer w3)\<lparr>fw_count := to_u32 (fw_count (ww_writer w3) + 1), fw_lines := 0, fw_day := wDay st\<rparr>\<rparr>) }) = Some w'"
      "fw_base good' e (ls @ [line_of (fe_week e) r]) w'" "file_ok w'" "good \<longrightarrow> good'"
      using new_file_inv[OF t _ p, of good ls _ "wDay st"] by blast
    have "fw_write e r w = Some w'" using 1 st w2(1) n(1) by (simp add: fw_write_def Let_def)
    thus ?thesis using n by blast
  next
    case 2
    obtain w' good' where n: "(do {
       (ok, w3) \<leftarrow> create_log_file e ?w;
       if \<not> ok then Some w3
       else put_line e r
         (w3\<lparr>ww_writer := (ww_writer w3)\<lparr>fw_count := to_u32 (fw_count (ww_writer w3) + 1), fw_lines := 0, fw_day := wDay st\<rparr>\<rparr>) }) = Some w'"
      "fw_base good' e (ls @ [line_of (fe_week e) r]) w'" "file_ok w'" "good \<longrightarrow> good'"
      using new_file_inv[OF t b1 p, of "wDay st"] by blast
    have "fw_write e r w = Some w'" using 2 st n(1) by (auto simp: fw_write_def Let_def)
    thus ?thesis using n by blast
  next
    case 3
    have f3: "fw_file (ww_writer ?w) = Some n" "fw_lines (ww_writer ?w) \<le> 65535" using 3 by simp_all
    obtain w' where n: "put_line e r ?w = Some w'" "fw_base good e (ls @ [line_of (fe_week e) r]) w'" "file_ok w'"
      using put_line_inv[OF b1 f1 f3 p] by blast
    have "fw_write e r w = Some w'" using 3 st n(1) by (simp add: fw_write_def Let_def)
    thus ?thesis using n by blast
  qed
qed

fun fw_run :: "fw_env \<Rightarrow> log_record list \<Rightarrow> fw_world \<Rightarrow> fw_world option" where
  "fw_run e [] w = Some w"
| "fw_run e (r # rs) w = do { w1 \<leftarrow> fw_write e r w; fw_run e rs w1 }"

lemma fw_run_inv:
  assumes t: "times_ok e"
  shows "fw_base good e ls w \<Longrightarrow> file_ok w \<Longrightarrow> \<forall>r\<in>set rs. printable (fe_week e) r \<Longrightarrow>
    \<exists>w' good'. fw_run e rs w = Some w' \<and> fw_base good' e (ls @ map (line_of (fe_week e)) rs) w' \<and> file_ok w' \<and> (good \<longrightarrow> good')"
proof (induction rs arbitrary: good ls w)
  case Nil
  thus ?case by auto
next
  case (Cons r rs)
  then obtain w1 good1 where 1: "fw_write e r w = Some w1" "fw_base good1 e (ls @ [line_of (fe_week e) r]) w1" "file_ok w1"
    "good \<longrightarrow> good1" using fw_write_inv[OF t, of good ls w r] by auto
  obtain w' good' where "fw_run e rs w1 = Some w'"
    "fw_base good' e ((ls @ [line_of (fe_week e) r]) @ map (line_of (fe_week e)) rs) w'" "file_ok w'" "good1 \<longrightarrow> good'"
    using Cons.IH[OF 1(2,3)] Cons.prems(3) by auto
  thus ?case using 1 by (intro exI[of _ w'] exI[of _ good']) simp
qed

text \<open>A new writer and the directory it finds.\<close>

definition fw_start :: "string \<Rightarrow> (string \<times> dir_entry) list option \<Rightarrow> heap \<Rightarrow> fw_world" where
  "fw_start name dir h =
     (let (h1, f) = file_writer_new name h
      in \<lparr>ww_heap = h1, ww_writer = f, ww_dir = dir, ww_clock = 0, ww_opens = 0, ww_hist = []\<rparr>)"

lemma fw_start_base:
  assumes "heap_ok h {#}" "names_ok (fe_path e) dir" "length (fe_path e) + length name < 4000"
    "good \<longrightarrow> can_create e \<and> no_sub_dir dir"
  shows "fw_base good e [] (fw_start name dir h) \<and> file_ok (fw_start name dir h)"
proof -
  obtain h1 b where b: "mb_default h = (h1, b)" by fastforce
  have "mb_new 0 h = (h1, b)" using b by (simp add: mb_default_def mb_new_def)
  hence "mb_cleared {#} (h1, b)" using mb_new_live[OF assms(1), of 0]
    by (auto simp: mb_cleared_def mb_new_def split: prod.splits)
  thus ?thesis using assms b
    by (auto simp: fw_start_def file_writer_new_def fw_base_def buffer_ok_def file_ok_def)
qed


section \<open>A new day\<close>

lemma fw_write_new_day:
  assumes t: "times_ok e" and b: "fw_base True e ls w" and p: "printable (fe_week e) r"
    and st: "tick_to_systemtime (fe_week e) (fe_local e (ww_clock w)) = Some st" "fw_day (ww_writer w) \<noteq> wDay st"
  obtains w' st1 where "fw_write e r w = Some w'" "fw_base True e (ls @ [line_of (fe_week e) r]) w'" "file_ok w'"
    "tick_to_systemtime (fe_week e) (fe_local e (ww_clock w + 2)) = Some st1"
    "ww_hist w' = ww_hist w @ [(log_name st1 0 (fw_postfix (ww_writer w)), [line_of (fe_week e) r])]"
    "ww_clock w' = ww_clock w + 3" "fw_day (ww_writer w') = wDay st" "fw_postfix (ww_writer w') = fw_postfix (ww_writer w)"
    "fw_file (ww_writer w') \<noteq> None"
proof -
  let ?w = "w\<lparr>ww_clock := Suc (ww_clock w)\<rparr>"
  have l: "local_systemtime e w = Some (st, ?w)" using st(1) by (simp add: local_systemtime_def)
  have b1: "fw_base True e ls ?w" using b by (simp add: base_clock)
  obtain w2 where w2: "delete_old_logs e ?w = Some w2" "fw_base True e ls w2" "ww_writer w2 = ww_writer ?w"
    "ww_clock w2 = Suc (ww_clock ?w)" "ww_hist w2 = ww_hist ?w" by (rule delete_inv[OF t b1])
  let ?w2 = "w2\<lparr>ww_writer := (ww_writer w2)\<lparr>fw_count := 0\<rparr>\<rparr>"
  have b2: "fw_base True e ls ?w2" by (rule base_writer[OF w2(2)]) simp_all
  obtain w' good' where n: "(do {
       (ok, w3) \<leftarrow> create_log_file e ?w2;
       if \<not> ok then Some w3
       else put_line e r
         (w3\<lparr>ww_writer := (ww_writer w3)\<lparr>fw_count := to_u32 (fw_count (ww_writer w3) + 1), fw_lines := 0, fw_day := wDay st\<rparr>\<rparr>) }) = Some w'"
    "fw_base good' e (ls @ [line_of (fe_week e) r]) w'" "file_ok w'" "good'" "new_file_seen e (wDay st) (line_of (fe_week e) r) ?w2 w'"
    using new_file_inv[OF t b2 p, of "wDay st"] by blast
  have "fw_write e r w = Some w'" using st(2) l w2(1) n(1) by (simp add: fw_write_def Let_def)
  moreover obtain st1 where "tick_to_systemtime (fe_week e) (fe_local e (ww_clock w + 2)) = Some st1"
    "ww_hist w' = ww_hist w @ [(log_name st1 0 (fw_postfix (ww_writer w)), [line_of (fe_week e) r])]"
    using n(5) w2(3-5) by (auto simp: new_file_seen_def)
  moreover have "ww_clock w' = ww_clock w + 3" "fw_day (ww_writer w') = wDay st" "fw_postfix (ww_writer w') = fw_postfix (ww_writer w)"
    "fw_file (ww_writer w') \<noteq> None"
    using n(5) w2(3-5) by (auto simp: new_file_seen_def)
  moreover have "fw_base True e (ls @ [line_of (fe_week e) r]) w'" using n(2,4) by simp
  ultimately show ?thesis using n(3) by (intro that[of w' st1])
qed

text \<open>The clock is read again for the name of a new file. When midnight falls between the two
  readings the file is counted to the old day but named after the new one, and the next record, in
  the same second, opens a file of the same name: the first file is emptied and its line is lost.\<close>

theorem midnight_truncates:
  assumes "heap_ok h {#}" "names_ok (fe_path e) dir" "length (fe_path e) + length name < 4000" "times_ok e"
    and r: "printable (fe_week e) r1" "printable (fe_week e) r2" and c: "can_create e" "no_sub_dir dir"
    and s0: "tick_to_systemtime (fe_week e) (fe_local e 0) = Some s0" "wDay s0 \<noteq> 0"
    and s1: "\<And>n. 1 < n \<Longrightarrow> tick_to_systemtime (fe_week e) (fe_local e n) = Some s1" "wDay s1 \<noteq> wDay s0"
  shows "\<exists>w n es. fw_run e [r1, r2] (fw_start name dir h) = Some w \<and> fw_file (ww_writer w) = Some n \<and>
    ww_hist w = [(n, [line_of (fe_week e) r1]), (n, [line_of (fe_week e) r2])] \<and>
    ww_dir w = Some es \<and> map_of es n = Some (Log_File (line_of (fe_week e) r2))"
proof -
  let ?w = "fw_start name dir h"
  have s: "fw_base True e [] ?w" using fw_start_base[OF assms(1-3), of True] c by simp
  have z: "ww_clock ?w = 0" "fw_day (ww_writer ?w) = 0" "ww_hist ?w = []"
    by (simp_all add: fw_start_def file_writer_new_def split_beta)
  have d0: "tick_to_systemtime (fe_week e) (fe_local e (ww_clock ?w)) = Some s0" "fw_day (ww_writer ?w) \<noteq> wDay s0" using s0 z by simp_all
  obtain w1 st1 where 1: "fw_write e r1 ?w = Some w1" "fw_base True e ([] @ [line_of (fe_week e) r1]) w1" "file_ok w1"
    "tick_to_systemtime (fe_week e) (fe_local e (ww_clock ?w + 2)) = Some st1"
    "ww_hist w1 = ww_hist ?w @ [(log_name st1 0 (fw_postfix (ww_writer ?w)), [line_of (fe_week e) r1])]"
    "ww_clock w1 = ww_clock ?w + 3" "fw_day (ww_writer w1) = wDay s0" "fw_postfix (ww_writer w1) = fw_postfix (ww_writer ?w)"
    by (rule fw_write_new_day[OF assms(4) s r(1) d0])
  have d1: "tick_to_systemtime (fe_week e) (fe_local e (ww_clock w1)) = Some s1" "fw_day (ww_writer w1) \<noteq> wDay s1"
    using 1(6,7) z s1(1)[of 3] s1(2) by simp_all
  obtain w2 st2 where 2: "fw_write e r2 w1 = Some w2" "fw_base True e (([] @ [line_of (fe_week e) r1]) @ [line_of (fe_week e) r2]) w2"
    "file_ok w2" "tick_to_systemtime (fe_week e) (fe_local e (ww_clock w1 + 2)) = Some st2"
    "ww_hist w2 = ww_hist w1 @ [(log_name st2 0 (fw_postfix (ww_writer w1)), [line_of (fe_week e) r2])]"
    "fw_file (ww_writer w2) \<noteq> None" by (rule fw_write_new_day[OF assms(4) 1(2) r(2) d1])
  have st: "st1 = s1" "st2 = s1" using 1(4,6) 2(4) z s1(1)[of "Suc (Suc 0)"] s1(1)[of 5] by simp_all
  let ?n = "log_name s1 0 (fw_postfix (ww_writer ?w))"
  have h: "ww_hist w2 = [(?n, [line_of (fe_week e) r1]), (?n, [line_of (fe_week e) r2])]" using 1(5,8) 2(5) z st by simp
  obtain n where n: "fw_file (ww_writer w2) = Some n" using 2(6) by blast
  then obtain hs l es where l: "ww_hist w2 = hs @ [(n, l)]" "ww_dir w2 = Some es" "map_of es n = Some (Log_File (concat l))"
    using 2(3) by (auto simp: file_ok_def)
  hence "n = ?n" "l = [line_of (fe_week e) r2]" using h by (simp_all add: append_eq_Cons_conv append_eq_append_conv2)
  thus ?thesis using 1(1) 2(1) h l n by (intro exI[of _ w2] exI[of _ ?n] exI[of _ es]) simp
qed

section \<open>Dates in names\<close>

definition is_digits :: "string \<Rightarrow> bool" where
  "is_digits s \<longleftrightarrow> (\<forall>c\<in>set s. 48 \<le> (of_char c :: nat) \<and> (of_char c :: nat) < 58)"

definition digits_value :: "string \<Rightarrow> nat" where
  "digits_value s = foldl (\<lambda>v c. v * 10 + (of_char c - 48)) 0 s"

lemma digits_value_append: "digits_value (a @ b) = digits_value a * 10 ^ length b + digits_value b"
proof (induction b rule: rev_induct)
  case (snoc c b)
  have "digits_value (a @ b @ [c]) = digits_value (a @ b) * 10 + (of_char c - 48)"
    by (simp add: digits_value_def)
  moreover have "digits_value (b @ [c]) = digits_value b * 10 + (of_char c - 48)" by (simp add: digits_value_def)
  ultimately show ?case using snoc by (simp add: algebra_simps)
qed (simp add: digits_value_def)

lemma digits_value_single: "digits_value [c] = of_char c - 48"
  by (simp add: digits_value_def)

lemma digits_value_Cons: "digits_value (c # s) = (of_char c - 48) * 10 ^ length s + digits_value s"
  using digits_value_append[of "[c]" s] by (simp add: digits_value_single)

lemma digits_value_bound: "is_digits s \<Longrightarrow> digits_value s < 10 ^ length s"
proof (induction s)
  case (Cons c s)
  have "of_char c - 48 \<le> (9 :: nat)" "digits_value s < 10 ^ length s" using Cons by (auto simp: is_digits_def)
  moreover from this(1) have "(of_char c - 48) * 10 ^ length s \<le> (9 :: nat) * 10 ^ length s" by (rule mult_le_mono1)
  ultimately have "digits_value (c # s) < 9 * 10 ^ length s + 10 ^ length s" unfolding digits_value_Cons by linarith
  thus ?case by simp
qed (simp add: digits_value_def)

lemma str_less_digits:
  "length a = length b \<Longrightarrow> is_digits a \<Longrightarrow> is_digits b \<Longrightarrow> str_less (a @ r) b \<longleftrightarrow> digits_value a < digits_value b"
proof (induction a b rule: list_induct2)
  case (Cons c a d b)
  let ?X = "10 ^ length b :: nat" and ?c = "of_char c - 48 :: nat" and ?d = "of_char d - 48 :: nat"
  have r: "48 \<le> (of_char c :: nat)" "48 \<le> (of_char d :: nat)" using Cons.prems by (auto simp: is_digits_def)
  have b: "digits_value a < ?X" "digits_value b < ?X"
    using Cons.hyps Cons.prems digits_value_bound[of a] digits_value_bound[of b] by (auto simp: is_digits_def)
  have v: "digits_value (c # a) = ?c * ?X + digits_value a" "digits_value (d # b) = ?d * ?X + digits_value b"
    using Cons.hyps by (simp_all add: digits_value_Cons)
  have less: "m * ?X + x < n * ?X + y" if "m < n" "x < ?X" for m n x y :: nat
  proof -
    have "Suc m * ?X \<le> n * ?X" using that(1) by (intro mult_le_mono1) simp
    thus ?thesis using that(2) by simp
  qed
  have ih: "str_less (a @ r) b \<longleftrightarrow> digits_value a < digits_value b" using Cons by (auto simp: is_digits_def)
  consider "(of_char c :: nat) < of_char d" | "(of_char d :: nat) < of_char c" | "c = d"
    using of_char_eq_iff[where 'a = nat] by (metis linorder_neqE_nat)
  thus ?case
  proof cases
    case 1
    thus ?thesis using less[of ?c ?d "digits_value a" "digits_value b"] b r unfolding v by simp
  next
    case 2
    hence "digits_value (d # b) < digits_value (c # a)" using less[of ?d ?c "digits_value b" "digits_value a"] b r unfolding v by simp
    thus ?thesis using 2 by auto
  next
    case 3
    thus ?thesis using ih unfolding v by simp
  qed
qed (simp add: digits_value_def)

lemma dec_digits: "is_digits (dec n) \<and> digits_value (dec n) = n"
proof (induction n rule: dec.induct)
  case (1 n)
  have d: "(of_char (digit m) :: nat) = 48 + m" if "m < 10" for m using that by (simp add: digit_def of_char_of)
  show ?case
  proof (cases "n < 10")
    case True
    thus ?thesis using d by (subst (1 2) dec.simps) (simp add: is_digits_def digits_value_single)
  next
    case False
    have m: "n mod 10 < 10" by simp
    show ?thesis using 1[OF False] False d[OF m]
      by (subst (1 2) dec.simps) (simp add: is_digits_def digits_value_append digits_value_single)
  qed
qed

lemma pad_digits:
  assumes "n < 10 ^ Suc k"
  shows "length (pad (Suc k) n) = Suc k" "is_digits (pad (Suc k) n)" "digits_value (pad (Suc k) n) = n"
proof -
  show "length (pad (Suc k) n) = Suc k" using dec_length[OF assms] by (simp add: pad_def)
  show "is_digits (pad (Suc k) n)" using dec_digits[of n] by (auto simp: pad_def is_digits_def)
  have "digits_value (replicate j CHR ''0'') = 0" for j by (induction j) (auto simp: digits_value_def digits_value_Cons)
  thus "digits_value (pad (Suc k) n) = n" using dec_digits[of n] by (simp add: pad_def digits_value_append)
qed

lemma date_name_less:
  assumes "y < 10000" "m < 100" "d < 100" "y' < 10000" "m' < 100" "d' < 100"
  shows "str_less (pad 4 y @ pad 2 m @ pad 2 d @ rest) (pad 4 y' @ pad 2 m' @ pad 2 d') \<longleftrightarrow>
    y < y' \<or> y = y' \<and> (m < m' \<or> m = m' \<and> d < d')"
proof -
  have 4: "(4 :: nat) = Suc 3" and 2: "(2 :: nat) = Suc 1" by simp_all
  have p: "length (pad 4 n) = 4 \<and> is_digits (pad 4 n) \<and> digits_value (pad 4 n) = n" if "n < 10000" for n
    using pad_digits[of n 3] that unfolding 4[symmetric] by simp
  have q: "length (pad 2 n) = 2 \<and> is_digits (pad 2 n) \<and> digits_value (pad 2 n) = n" if "n < 100" for n
    using pad_digits[of n 1] that unfolding 2[symmetric] by simp
  let ?a = "pad 4 y @ pad 2 m @ pad 2 d" and ?b = "pad 4 y' @ pad 2 m' @ pad 2 d'"
  have "length ?a = length ?b" "is_digits ?a" "is_digits ?b"
    using p[of y] p[of y'] q[of m] q[of d] q[of m'] q[of d'] assms by (auto simp: is_digits_def)
  hence "str_less (?a @ rest) ?b \<longleftrightarrow> digits_value ?a < digits_value ?b" by (rule str_less_digits)
  moreover have "digits_value ?a = y * 10000 + (m * 100 + d)" "digits_value ?b = y' * 10000 + (m' * 100 + d')"
    using p[of y] p[of y'] q[of m] q[of d] q[of m'] q[of d'] assms by (simp_all add: digits_value_append)
  ultimately show ?thesis using assms by auto
qed

text \<open>\<open>_delete_old_logs\<close> removes from the directory exactly the files whose names sort before the
  date of 30 days ago. For the names the writer gives, which begin with a date, these are the files
  dated before it; any other file with such a name, \<open>.profile\<close> say, is removed as well.\<close>

theorem old_logs_removed:
  assumes dir: "ww_dir w = Some es" and n: "names_ok (fe_path e) (ww_dir w)"
    and st: "tick_to_systemtime (fe_week e) (dt_minus (fe_local e (ww_clock w)) (ts_from_days 30)) = Some st"
    and r: "wYear st < 10000" "wMonth st < 100" "wDay st < 100"
  shows "\<exists>w'. delete_old_logs e w = Some w' \<and>
    ww_dir w' = Some (filter (\<lambda>(n, x). x = Sub_Dir \<or> \<not> str_less n (date_text st)) es) \<and>
    (\<forall>y m d rest. y < 10000 \<and> m < 100 \<and> d < 100 \<longrightarrow>
       (str_less (pad 4 y @ pad 2 m @ pad 2 d @ rest) (date_text st) \<longleftrightarrow>
        y < nat (wYear st) \<or> y = nat (wYear st) \<and> (m < nat (wMonth st) \<or> m = nat (wMonth st) \<and> d < nat (wDay st))))"
proof -
  note f = systemtime_fields[OF st]
  have "length (date_text st) \<le> 15"
    using pad_length[OF f(1), of 4] pad_length[OF f(2), of 2] pad_length[OF f(3), of 2] by (simp add: date_text_def)
  hence a: "append_format [] (date_text st) = date_text st" by (simp add: append_format_def)
  have "delete_old_logs e w = Some (w\<lparr>ww_clock := Suc (ww_clock w),
      ww_dir := Some (filter (\<lambda>(n, x). x = Sub_Dir \<or> \<not> str_less n (date_text st)) es)\<rparr>)"
    using dir n st a by (simp add: delete_old_logs_def remove_before_ok)
  moreover have "str_less (pad 4 y @ pad 2 m @ pad 2 d @ rest) (date_text st) \<longleftrightarrow>
      y < nat (wYear st) \<or> y = nat (wYear st) \<and> (m < nat (wMonth st) \<or> m = nat (wMonth st) \<and> d < nat (wDay st))"
    if "y < 10000" "m < 100" "d < 100" for y m d rest
    unfolding date_text_def using that r by (intro date_name_less) auto
  ultimately show ?thesis by (intro exI conjI) (auto simp del: append_assoc)
qed

section \<open>Instances\<close>

text \<open>The last microsecond of January 1970 and the first of February, and 30 days before.\<close>

definition january :: systemtime where
  "january = \<lparr>wYear = 1970, wMonth = 1, wDayOfWeek = 0, wDay = 31, wHour = 23, wMinute = 59, wSecond = 59, wMilliseconds = 999\<rparr>"

definition february :: systemtime where
  "february = \<lparr>wYear = 1970, wMonth = 2, wDayOfWeek = 0, wDay = 1, wHour = 0, wMinute = 0, wSecond = 0, wMilliseconds = 0\<rparr>"

lemma midnight:
  "tick_to_systemtime 0 2678399999999 = Some january" "tick_to_systemtime 0 2678400000000 = Some february"
  "map_option date_text (tick_to_systemtime 0 (dt_minus 2678399999999 (ts_from_days 30))) = Some ''19700101''"
  "map_option wDay (tick_to_systemtime 0 (dt_minus 2678400000000 (ts_from_days 30))) = Some 2"
  "map_option (\<lambda>st. (wYear st, wMonth st, wDay st)) (tick_to_systemtime 0 (dt_minus 2678399999999 (ts_from_days 30))) = Some (1970, 1, 1)"
  unfolding january_def february_def by code_simp+

definition midnight_env :: fw_env where
  "midnight_env = \<lparr>fe_local = (\<lambda>n. if n < 2 then 2678399999999 else 2678400000000), fe_week = 0, fe_path = ''/home/u/logs/p'',
     fe_mkdir = True, fe_open = (\<lambda>n. True)\<rparr>"

definition old_dir :: "(string \<times> dir_entry) list" where
  "old_dir = [(''19691231_235959_0000_x.log'', Log_File []), (''19700101_000000_0000_x.log'', Log_File []), (''.profile'', Log_File [])]"

definition short_record :: "u8 list \<Rightarrow> log_record" where
  "short_record t = \<lparr>lr_level = Log_Info, lr_category = category_of ''net'', lr_message = t @ [0], lr_file = ''a.cpp'', lr_line = 7,
     lr_function = ''f'', lr_time = 2678399999999, lr_pid = 1, lr_tid = 2\<rparr>"

lemma midnight_times: "times_ok midnight_env"
  using midnight(1,2,4,5) by (auto simp: times_ok_def midnight_env_def)

lemma midnight_open: "can_create midnight_env" "no_sub_dir (Some old_dir)" "names_ok (fe_path midnight_env) (Some old_dir)"
  "length (fe_path midnight_env) + length ''x'' < 4000" "heap_ok heap_empty {#}"
  by (simp_all add: can_create_def midnight_env_def no_sub_dir_def old_dir_def names_ok_def heap_ok_def heap_empty_def)

lemma short_line:
  "line_of 0 (short_record [72, 105]) = chars ''[19700131 235959][I][net][Hi][f][a.cpp:7][1][2]'' @ crlf"
  "line_of 0 (short_record [79]) = chars ''[19700131 235959][I][net][O][f][a.cpp:7][1][2]'' @ crlf"
  by code_simp+

lemma short_printable: "printable 0 (short_record [72, 105])" "printable 0 (short_record [79])"
  unfolding printable_def short_line using midnight(1) by (simp_all add: short_record_def chars_def crlf_def)


lemma midnight_truncates_witness:
  "\<exists>w n es. fw_run midnight_env [short_record [72, 105], short_record [79]] (fw_start ''x'' (Some old_dir) heap_empty) = Some w \<and>
    ww_dir w = Some es \<and> map_of es n = Some (Log_File (chars ''[19700131 235959][I][net][O][f][a.cpp:7][1][2]'' @ crlf))"
proof -
  have w: "fe_week midnight_env = 0" by (simp add: midnight_env_def)
  have s0: "tick_to_systemtime (fe_week midnight_env) (fe_local midnight_env 0) = Some january" "wDay january \<noteq> 0"
    using midnight(1) by (simp_all add: midnight_env_def january_def)
  have s1: "tick_to_systemtime (fe_week midnight_env) (fe_local midnight_env n) = Some february" if "1 < n" for n
    using midnight(2) that by (simp add: midnight_env_def)
  have d: "wDay february \<noteq> wDay january" by (simp add: february_def january_def)
  have p: "printable (fe_week midnight_env) (short_record [72, 105])" "printable (fe_week midnight_env) (short_record [79])"
    using short_printable w by simp_all
  from midnight_truncates[OF midnight_open(5,3,4) midnight_times p midnight_open(1,2) s0 s1 d] show ?thesis
    using short_line(2) w by auto
qed

lemma old_logs_removed_witness:
  "\<exists>w'. delete_old_logs midnight_env (fw_start ''x'' (Some old_dir) heap_empty) = Some w' \<and>
    ww_dir w' = Some [(''19700101_000000_0000_x.log'', Log_File [])]"
proof -
  obtain st where st: "tick_to_systemtime 0 (dt_minus 2678399999999 (ts_from_days 30)) = Some st" "date_text st = ''19700101''"
    using midnight(3) by auto
  have r: "wYear st < 10000" "wMonth st < 100" "wDay st < 100" using midnight(5) st(1) by auto
  let ?w = "fw_start ''x'' (Some old_dir) heap_empty"
  have w: "ww_dir ?w = Some old_dir" "ww_clock ?w = 0" by (simp_all add: fw_start_def split_beta)
  have st': "tick_to_systemtime (fe_week midnight_env) (dt_minus (fe_local midnight_env (ww_clock ?w)) (ts_from_days 30)) = Some st"
    using st(1) w(2) by (simp add: midnight_env_def)
  have f: "filter (\<lambda>(n, x). x = Sub_Dir \<or> \<not> str_less n ''19700101'') old_dir = [(''19700101_000000_0000_x.log'', Log_File [])]"
    unfolding old_dir_def by code_simp
  show ?thesis using old_logs_removed[OF w(1) _ st' r] midnight_open(3) w(1) st(2) f by auto
qed

end
