(* ===== verification/Ssl_Filter.thy ===== *)
theory Ssl_Filter
  imports Address "HOL-Library.Monad_Syntax"
begin

text \<open>
  The filter that runs TLS over a channel (\<open>ssl/filter.cpp\<close>). OpenSSL is a parameter: functions on
  an abstract state of one connection with its two memory buffers. The filter keeps what it does in
  \<open>sf_out\<close>: events given to the next filter, messages written to the one before, errors given to the
  channel. What the next filter does in a callback, writing through this filter again for one, comes
  after it here.
\<close>

section \<open>OpenSSL\<close>

text \<open>A result that is not positive says that nothing was done; \<open>SSL_get_error\<close> then gives the reason.
  \<open>SSL_read\<close> and \<open>BIO_read\<close> give the bytes with their number.\<close>

record 's ssl_api =
  SSL_read :: "nat \<Rightarrow> 's \<Rightarrow> int \<times> u8 list \<times> 's"
  SSL_write :: "u8 list \<Rightarrow> 's \<Rightarrow> int \<times> 's"
  BIO_read :: "nat \<Rightarrow> 's \<Rightarrow> int \<times> u8 list \<times> 's"
  BIO_write :: "u8 list \<Rightarrow> 's \<Rightarrow> int \<times> 's"
  BIO_ctrl_pending :: "'s \<Rightarrow> nat"
  BIO_should_retry :: "'s \<Rightarrow> bool"
  SSL_get_error :: "int \<Rightarrow> 's \<Rightarrow> int"
  SSL_is_init_finished :: "'s \<Rightarrow> bool"
  SSL_set_accept_state :: "'s \<Rightarrow> 's"
  SSL_set_connect_state :: "'s \<Rightarrow> 's"

definition SSL_ERROR_NONE :: int where "SSL_ERROR_NONE = 0"
definition SSL_ERROR_WANT_READ :: int where "SSL_ERROR_WANT_READ = 2"
definition SSL_ERROR_WANT_WRITE :: int where "SSL_ERROR_WANT_WRITE = 3"
definition SSL_ERROR_WANT_CONNECT :: int where "SSL_ERROR_WANT_CONNECT = 7"
definition SSL_ERROR_WANT_ACCEPT :: int where "SSL_ERROR_WANT_ACCEPT = 8"

section \<open>The filter\<close>

datatype ssl_event = Up_Accepted address | Up_Connected | Up_Read "u8 list" | Down_Write "u8 list" | Ssl_Error int

definition k_handshake_connect :: int where "k_handshake_connect = 1"
definition k_handshake_accept :: int where "k_handshake_accept = 2"

record 's ssl_filter =
  sf_ssl :: 's
  sf_state :: int
  sf_addr :: address
  sf_out :: "ssl_event list"

text \<open>The constructor sets neither \<open>_handshake_state\<close>, which holds what was there, nor \<open>_accept_addr\<close>,
  a default address.\<close>

definition ssl_filter_new :: "'s \<Rightarrow> int \<Rightarrow> address \<Rightarrow> 's ssl_filter" where
  "ssl_filter_new s junk addr = \<lparr>sf_ssl = s, sf_state = junk, sf_addr = addr, sf_out = []\<rparr>"

definition emit :: "ssl_event \<Rightarrow> 's ssl_filter \<Rightarrow> 's ssl_filter" where
  "emit e f = f\<lparr>sf_out := sf_out f @ [e]\<rparr>"

definition is_fatal_error :: "'s ssl_api \<Rightarrow> int \<Rightarrow> 's ssl_filter \<Rightarrow> bool" where
  "is_fatal_error api ret f =
     (SSL_get_error api ret (sf_ssl f) \<notin>
        {SSL_ERROR_NONE, SSL_ERROR_WANT_READ, SSL_ERROR_WANT_WRITE, SSL_ERROR_WANT_CONNECT, SSL_ERROR_WANT_ACCEPT})"

definition end_handshake :: "'s ssl_filter \<Rightarrow> 's ssl_filter" where
  "end_handshake f =
     (let f1 = (if sf_state f = k_handshake_accept then emit (Up_Accepted (sf_addr f)) f else f);
          f2 = (if sf_state f1 = k_handshake_connect then emit Up_Connected f1 else f1)
      in f2\<lparr>sf_state := 0\<rparr>)"

definition report :: "'s ssl_api \<Rightarrow> int \<Rightarrow> 's ssl_filter \<Rightarrow> 's ssl_filter" where
  "report api ret f = emit (Ssl_Error (SSL_get_error api ret (sf_ssl f))) f"

text \<open>The loops end when OpenSSL says so.\<close>

partial_function (option) send_pending :: "'s ssl_api \<Rightarrow> 's ssl_filter \<Rightarrow> 's ssl_filter option" where
  "send_pending api f =
     (if BIO_ctrl_pending api (sf_ssl f) = 0 then Some f
      else
        (let (ret, xs, s) = BIO_read api 4096 (sf_ssl f); f1 = f\<lparr>sf_ssl := s\<rparr>
         in if ret \<le> 0 then Some (if is_fatal_error api ret f1 then end_handshake (report api ret f1) else f1)
            else send_pending api (emit (Down_Write xs) f1)))"

partial_function (option) read_data_write_bio :: "'s ssl_api \<Rightarrow> u8 list \<Rightarrow> 's ssl_filter \<Rightarrow> (bool \<times> 's ssl_filter) option" where
  "read_data_write_bio api msg f =
     (if msg = [] then Some (True, f)
      else
        (let (len, s) = BIO_write api msg (sf_ssl f); f1 = f\<lparr>sf_ssl := s\<rparr>
         in if len \<le> 0 then
              (if \<not> BIO_should_retry api s then Some (False, end_handshake (report api len f1))
               else read_data_write_bio api msg f1)
            else read_data_write_bio api (drop (nat len) msg) f1))"

partial_function (option) write_data_write_ssl :: "'s ssl_api \<Rightarrow> u8 list \<Rightarrow> 's ssl_filter \<Rightarrow> (bool \<times> 's ssl_filter) option" where
  "write_data_write_ssl api msg f =
     (if msg = [] then Some (True, f)
      else
        (let (len, s) = SSL_write api msg (sf_ssl f); f1 = f\<lparr>sf_ssl := s\<rparr>
         in if len \<le> 0 then
              (if is_fatal_error api len f1 then Some (False, report api len f1)
               else write_data_write_ssl api msg f1)
            else write_data_write_ssl api (drop (nat len) msg) f1))"

definition begin_handshake :: "'s ssl_api \<Rightarrow> 's ssl_filter \<Rightarrow> 's ssl_filter option" where
  "begin_handshake api f =
     (let (ret, xs, s) = SSL_read api 0 (sf_ssl f); f1 = f\<lparr>sf_ssl := s\<rparr>
      in if is_fatal_error api ret f1 then Some (report api ret (end_handshake f1)) else send_pending api f1)"

definition sf_on_accepted :: "'s ssl_api \<Rightarrow> address \<Rightarrow> 's ssl_filter \<Rightarrow> 's ssl_filter option" where
  "sf_on_accepted api addr f =
     begin_handshake api (f\<lparr>sf_state := k_handshake_accept, sf_ssl := SSL_set_accept_state api (sf_ssl f)\<rparr>)"

definition sf_on_connected :: "'s ssl_api \<Rightarrow> 's ssl_filter \<Rightarrow> 's ssl_filter option" where
  "sf_on_connected api f =
     begin_handshake api (f\<lparr>sf_state := k_handshake_connect, sf_ssl := SSL_set_connect_state api (sf_ssl f)\<rparr>)"

text \<open>The loop of \<open>on_read\<close>: whether \<open>send_pending\<close> follows, or an error ended it.\<close>

partial_function (option) read_ssl :: "'s ssl_api \<Rightarrow> 's ssl_filter \<Rightarrow> (bool \<times> 's ssl_filter) option" where
  "read_ssl api f =
     (let (len, xs, s) = SSL_read api 4096 (sf_ssl f); f1 = f\<lparr>sf_ssl := s\<rparr>;
          ec = (if len \<le> 0 \<and> is_fatal_error api len f1 then Some (SSL_get_error api len s) else None);
          f2 = (if sf_state f1 \<noteq> 0 \<and> SSL_is_init_finished api s then end_handshake f1 else f1)
      in if len \<le> 0 then
           (case ec of
              Some c \<Rightarrow> Some (False, emit (Ssl_Error c) (end_handshake f2))
            | None \<Rightarrow> Some (True, f2))
         else read_ssl api (emit (Up_Read xs) f2))"

definition sf_on_read :: "'s ssl_api \<Rightarrow> u8 list \<Rightarrow> 's ssl_filter \<Rightarrow> 's ssl_filter option" where
  "sf_on_read api msg f = do {
     (ok, f1) \<leftarrow> read_data_write_bio api msg f;
     if \<not> ok then Some f1
     else do { (more, f2) \<leftarrow> read_ssl api f1; if more then send_pending api f2 else Some f2 } }"

definition sf_do_write :: "'s ssl_api \<Rightarrow> u8 list \<Rightarrow> 's ssl_filter \<Rightarrow> 's ssl_filter option" where
  "sf_do_write api msg f = do { (ok, f1) \<leftarrow> write_data_write_ssl api msg f; send_pending api f1 }"

section \<open>The order of the events\<close>

text \<open>As documented: \<open>SSL_read\<close> gives data only when the handshake is finished.\<close>

definition data_after_handshake :: "'s ssl_api \<Rightarrow> bool" where
  "data_after_handshake api \<longleftrightarrow> (\<forall>n s r xs s'. SSL_read api n s = (r, xs, s') \<and> 0 < r \<longrightarrow> SSL_is_init_finished api s')"

definition is_open :: "ssl_event \<Rightarrow> bool" where
  "is_open e \<longleftrightarrow> e = Up_Connected \<or> (\<exists>a. e = Up_Accepted a)"

definition is_data :: "ssl_event \<Rightarrow> bool" where
  "is_data e \<longleftrightarrow> (\<exists>xs. e = Up_Read xs)"

text \<open>While the handshake runs nothing was given to the next filter; afterwards one opening event was,
  and no data before it.\<close>

definition sf_inv :: "ssl_event \<Rightarrow> int \<Rightarrow> address \<Rightarrow> 's ssl_filter \<Rightarrow> bool" where
  "sf_inv open k a f \<longleftrightarrow> sf_addr f = a \<and>
     (if sf_state f = 0
      then (\<exists>xs ys. sf_out f = xs @ open # ys \<and> (\<forall>e\<in>set xs. \<not> is_open e \<and> \<not> is_data e) \<and> (\<forall>e\<in>set ys. \<not> is_open e))
      else sf_state f = k \<and> (\<forall>e\<in>set (sf_out f). \<not> is_open e \<and> \<not> is_data e))"

text \<open>The opening event goes with the state: an accepted connection is announced with the address the
  filter was made with.\<close>

definition opened_as :: "ssl_event \<Rightarrow> int \<Rightarrow> address \<Rightarrow> bool" where
  "opened_as open k a \<longleftrightarrow> open = Up_Connected \<and> k = k_handshake_connect \<or> open = Up_Accepted a \<and> k = k_handshake_accept"

lemma opened_as_open: "opened_as open k a \<Longrightarrow> is_open open \<and> \<not> is_data open \<and> k \<noteq> 0"
  by (auto simp: opened_as_def is_open_def is_data_def k_handshake_connect_def k_handshake_accept_def)

lemma sf_inv_ssl [simp]: "sf_inv open k a (f\<lparr>sf_ssl := s\<rparr>) = sf_inv open k a f"
  by (simp add: sf_inv_def)

lemma sf_inv_emit:
  assumes "sf_inv open k a f" "\<not> is_open e" "is_data e \<longrightarrow> sf_state f = 0"
  shows "sf_inv open k a (emit e f)"
proof (cases "sf_state f = 0")
  case True
  then obtain xs ys where "sf_out f = xs @ open # ys" "\<forall>e\<in>set xs. \<not> is_open e \<and> \<not> is_data e" "\<forall>e\<in>set ys. \<not> is_open e"
    using assms(1) by (auto simp: sf_inv_def)
  hence "\<exists>xs ys. sf_out (emit e f) = xs @ open # ys \<and> (\<forall>e\<in>set xs. \<not> is_open e \<and> \<not> is_data e) \<and> (\<forall>e\<in>set ys. \<not> is_open e)"
    using assms(2) by (intro exI[of _ xs] exI[of _ "ys @ [e]"]) (auto simp: emit_def)
  thus ?thesis using True assms(1) by (simp add: sf_inv_def emit_def)
next
  case False
  thus ?thesis using assms by (auto simp: sf_inv_def emit_def)
qed

lemma end_handshake_inv:
  assumes "sf_inv open k a f" "opened_as open k a"
  shows "sf_inv open k a (end_handshake f) \<and> sf_state (end_handshake f) = 0"
proof (cases "sf_state f = 0")
  case True
  thus ?thesis using assms by (simp add: end_handshake_def sf_inv_def k_handshake_connect_def k_handshake_accept_def)
next
  case False
  hence f: "sf_state f = k" "sf_addr f = a" "\<forall>e\<in>set (sf_out f). \<not> is_open e \<and> \<not> is_data e" using assms(1) by (auto simp: sf_inv_def)
  have "end_handshake f = f\<lparr>sf_out := sf_out f @ [open], sf_state := 0\<rparr>"
    using assms(2) f(1,2) by (auto simp: opened_as_def end_handshake_def emit_def k_handshake_connect_def k_handshake_accept_def)
  moreover have "\<exists>xs ys. sf_out f @ [open] = xs @ open # ys \<and> (\<forall>e\<in>set xs. \<not> is_open e \<and> \<not> is_data e) \<and> (\<forall>e\<in>set ys. \<not> is_open e)"
    using f(3) by (intro exI[of _ "sf_out f"] exI[of _ "[]"]) simp
  ultimately show ?thesis using f(2) by (simp add: sf_inv_def)
qed

lemma report_inv: "sf_inv open k a f \<Longrightarrow> sf_inv open k a (report api ret f)"
  unfolding report_def by (rule sf_inv_emit) (simp_all add: is_open_def is_data_def)

lemma send_pending_inv:
  assumes "send_pending api f = Some f'" "sf_inv open k a f" "opened_as open k a"
  shows "sf_inv open k a f'"
proof -
  have "sf_inv open k a f \<longrightarrow> sf_inv open k a f'"
  proof (rule send_pending.raw_induct[where P = "\<lambda>api f f'. sf_inv open k a f \<longrightarrow> sf_inv open k a f'", OF _ assms(1)], intro impI)
    fix g and api :: "'a ssl_api" and f f' :: "'a ssl_filter"
    assume ih: "\<And>api f f'. g api f = Some f' \<Longrightarrow> sf_inv open k a f \<longrightarrow> sf_inv open k a f'" and i: "sf_inv open k a f"
      and h: "(if BIO_ctrl_pending api (sf_ssl f) = 0 then Some f
        else (let (ret, xs, s) = BIO_read api 4096 (sf_ssl f); f1 = f\<lparr>sf_ssl := s\<rparr>
          in if ret \<le> 0 then Some (if is_fatal_error api ret f1 then end_handshake (report api ret f1) else f1)
             else g api (emit (Down_Write xs) f1))) = Some f'"
    obtain ret xs s where r: "BIO_read api 4096 (sf_ssl f) = (ret, xs, s)" by (cases "BIO_read api 4096 (sf_ssl f)")
    have i1: "sf_inv open k a (f\<lparr>sf_ssl := s\<rparr>)" using i by simp
    have "sf_inv open k a (emit (Down_Write xs) (f\<lparr>sf_ssl := s\<rparr>))"
      by (rule sf_inv_emit[OF i1]) (simp_all add: is_open_def is_data_def)
    thus "sf_inv open k a f'"
      using h r i i1 ih end_handshake_inv[OF report_inv[OF i1] assms(3)] by (auto simp: Let_def split: if_splits)
  qed
  thus ?thesis using assms(2) by blast
qed

lemma read_bio_inv:
  assumes "read_data_write_bio api msg f = Some y" "sf_inv open k a f" "opened_as open k a"
  shows "sf_inv open k a (snd y)"
proof -
  have "sf_inv open k a f \<longrightarrow> sf_inv open k a (snd y)"
  proof (rule read_data_write_bio.raw_induct[where P = "\<lambda>api msg f y. sf_inv open k a f \<longrightarrow> sf_inv open k a (snd y)",
        OF _ assms(1)], intro impI)
    fix g and api :: "'a ssl_api" and msg and f :: "'a ssl_filter" and y
    assume ih: "\<And>api msg f y. g api msg f = Some y \<Longrightarrow> sf_inv open k a f \<longrightarrow> sf_inv open k a (snd y)" and i: "sf_inv open k a f"
      and h: "(if msg = [] then Some (True, f)
      else (let (len, s) = BIO_write api msg (sf_ssl f); f1 = f\<lparr>sf_ssl := s\<rparr>
         in if len \<le> 0 then (if \<not> BIO_should_retry api s then Some (False, end_handshake (report api len f1)) else g api msg f1)
            else g api (drop (nat len) msg) f1)) = Some y"
    obtain len s where r: "BIO_write api msg (sf_ssl f) = (len, s)" by fastforce
    have i1: "sf_inv open k a (f\<lparr>sf_ssl := s\<rparr>)" using i by simp
    thus "sf_inv open k a (snd y)"
      using h r i ih end_handshake_inv[OF report_inv[OF i1] assms(3)] by (auto simp: Let_def split: if_splits)
  qed
  thus ?thesis using assms(2) by blast
qed

lemma write_ssl_inv:
  assumes "write_data_write_ssl api msg f = Some y" "sf_inv open k a f" "opened_as open k a"
  shows "sf_inv open k a (snd y)"
proof -
  have "sf_inv open k a f \<longrightarrow> sf_inv open k a (snd y)"
  proof (rule write_data_write_ssl.raw_induct[where P = "\<lambda>api msg f y. sf_inv open k a f \<longrightarrow> sf_inv open k a (snd y)",
        OF _ assms(1)], intro impI)
    fix g and api :: "'a ssl_api" and msg and f :: "'a ssl_filter" and y
    assume ih: "\<And>api msg f y. g api msg f = Some y \<Longrightarrow> sf_inv open k a f \<longrightarrow> sf_inv open k a (snd y)" and i: "sf_inv open k a f"
      and h: "(if msg = [] then Some (True, f)
      else (let (len, s) = SSL_write api msg (sf_ssl f); f1 = f\<lparr>sf_ssl := s\<rparr>
         in if len \<le> 0 then (if is_fatal_error api len f1 then Some (False, report api len f1) else g api msg f1)
            else g api (drop (nat len) msg) f1)) = Some y"
    obtain len s where r: "SSL_write api msg (sf_ssl f) = (len, s)" by fastforce
    have i1: "sf_inv open k a (f\<lparr>sf_ssl := s\<rparr>)" using i by simp
    thus "sf_inv open k a (snd y)" using h r i ih report_inv[OF i1] by (auto simp: Let_def split: if_splits)
  qed
  thus ?thesis using assms(2) by blast
qed

lemma read_ssl_inv:
  assumes "read_ssl api f = Some y" "sf_inv open k a f" "opened_as open k a" "data_after_handshake api"
  shows "sf_inv open k a (snd y)"
proof -
  have "data_after_handshake api \<and> sf_inv open k a f \<longrightarrow> sf_inv open k a (snd y)"
  proof (rule read_ssl.raw_induct[where P = "\<lambda>api f y. data_after_handshake api \<and> sf_inv open k a f \<longrightarrow> sf_inv open k a (snd y)",
        OF _ assms(1)], intro impI)
    fix g and api :: "'a ssl_api" and f :: "'a ssl_filter" and y
    assume ih: "\<And>api f y. g api f = Some y \<Longrightarrow> data_after_handshake api \<and> sf_inv open k a f \<longrightarrow> sf_inv open k a (snd y)"
      and i: "data_after_handshake api \<and> sf_inv open k a f"
      and h: "(let (len, xs, s) = SSL_read api 4096 (sf_ssl f); f1 = f\<lparr>sf_ssl := s\<rparr>;
          ec = (if len \<le> 0 \<and> is_fatal_error api len f1 then Some (SSL_get_error api len s) else None);
          f2 = (if sf_state f1 \<noteq> 0 \<and> SSL_is_init_finished api s then end_handshake f1 else f1)
        in if len \<le> 0 then (case ec of Some c \<Rightarrow> Some (False, emit (Ssl_Error c) (end_handshake f2)) | None \<Rightarrow> Some (True, f2))
           else g api (emit (Up_Read xs) f2)) = Some y"
    obtain len xs s where r: "SSL_read api 4096 (sf_ssl f) = (len, xs, s)" by (cases "SSL_read api 4096 (sf_ssl f)")
    let ?f1 = "f\<lparr>sf_ssl := s\<rparr>"
    let ?f2 = "if sf_state ?f1 \<noteq> 0 \<and> SSL_is_init_finished api s then end_handshake ?f1 else ?f1"
    have i2: "sf_inv open k a ?f2" using i end_handshake_inv[of "open" k a ?f1] assms(3) by simp
    have e: "sf_inv open k a (emit (Ssl_Error c) (end_handshake ?f2))" for c
      using end_handshake_inv[OF i2 assms(3)] by (intro sf_inv_emit) (simp_all add: is_open_def is_data_def)
    show "sf_inv open k a (snd y)"
    proof (cases "len \<le> 0")
      case True
      thus ?thesis using h r i2 e by (auto simp: Let_def split: if_splits)
    next
      case False
      hence "0 < len" by simp
      hence "SSL_is_init_finished api s" using i r unfolding data_after_handshake_def by blast
      hence "sf_state ?f2 = 0" using end_handshake_inv[of "open" k a ?f1] i assms(3) by simp
      hence "sf_inv open k a (emit (Up_Read xs) ?f2)" using i2 by (intro sf_inv_emit) (simp_all add: is_open_def)
      moreover have "g api (emit (Up_Read xs) ?f2) = Some y" using h r False by (simp add: Let_def)
      ultimately show ?thesis using ih i by blast
    qed
  qed
  thus ?thesis using assms by blast
qed

text \<open>The calls of the channel: opened once, then data and writes.\<close>

datatype ssl_call = Sf_Read "u8 list" | Sf_Write "u8 list"

fun sf_call :: "'s ssl_api \<Rightarrow> ssl_call \<Rightarrow> 's ssl_filter \<Rightarrow> 's ssl_filter option" where
  "sf_call api (Sf_Read msg) f = sf_on_read api msg f"
| "sf_call api (Sf_Write msg) f = sf_do_write api msg f"

fun sf_calls :: "'s ssl_api \<Rightarrow> ssl_call list \<Rightarrow> 's ssl_filter \<Rightarrow> 's ssl_filter option" where
  "sf_calls api [] f = Some f"
| "sf_calls api (c # cs) f = do { f1 \<leftarrow> sf_call api c f; sf_calls api cs f1 }"

definition sf_run :: "'s ssl_api \<Rightarrow> address option \<Rightarrow> ssl_call list \<Rightarrow> 's ssl_filter \<Rightarrow> 's ssl_filter option" where
  "sf_run api peer cs f = do {
     f1 \<leftarrow> (case peer of Some addr \<Rightarrow> sf_on_accepted api addr f | None \<Rightarrow> sf_on_connected api f);
     sf_calls api cs f1 }"

lemma sf_call_inv:
  assumes "sf_call api c f = Some f'" "sf_inv open k a f" "opened_as open k a" "data_after_handshake api"
  shows "sf_inv open k a f'"
proof (cases c)
  case (Sf_Read msg)
  obtain ok f1 where 1: "read_data_write_bio api msg f = Some (ok, f1)" using assms(1) Sf_Read
    by (cases "read_data_write_bio api msg f") (auto simp: sf_on_read_def)
  have i1: "sf_inv open k a f1" using read_bio_inv[OF 1 assms(2,3)] by simp
  show ?thesis
  proof (cases ok)
    case True
    then obtain more f2 where 2: "read_ssl api f1 = Some (more, f2)" "(if more then send_pending api f2 else Some f2) = Some f'"
      using assms(1) Sf_Read 1 by (cases "read_ssl api f1") (auto simp: sf_on_read_def)
    have "sf_inv open k a f2" using read_ssl_inv[OF 2(1) i1 assms(3,4)] by simp
    thus ?thesis using 2(2) send_pending_inv[of api f2 f'] assms(3) by (cases more) auto
  next
    case False
    thus ?thesis using assms(1) Sf_Read 1 i1 by (simp add: sf_on_read_def)
  qed
next
  case (Sf_Write msg)
  obtain ok f1 where 1: "write_data_write_ssl api msg f = Some (ok, f1)" using assms(1) Sf_Write
    by (cases "write_data_write_ssl api msg f") (auto simp: sf_do_write_def)
  have "sf_inv open k a f1" using write_ssl_inv[OF 1 assms(2,3)] by simp
  thus ?thesis using assms(1,3) Sf_Write 1 send_pending_inv[of api f1 f'] by (simp add: sf_do_write_def)
qed

lemma sf_calls_inv:
  "sf_calls api cs f = Some f' \<Longrightarrow> sf_inv open k a f \<Longrightarrow> opened_as open k a \<Longrightarrow> data_after_handshake api \<Longrightarrow> sf_inv open k a f'"
proof (induction cs arbitrary: f)
  case (Cons c cs)
  then obtain f1 where "sf_call api c f = Some f1" "sf_calls api cs f1 = Some f'" by (cases "sf_call api c f") auto
  thus ?case using Cons sf_call_inv by blast
qed simp

lemma begin_handshake_inv:
  assumes "begin_handshake api f = Some f'" "sf_inv open k a f" "opened_as open k a"
  shows "sf_inv open k a f'"
proof -
  obtain ret xs s where r: "SSL_read api 0 (sf_ssl f) = (ret, xs, s)" by (cases "SSL_read api 0 (sf_ssl f)")
  have i1: "sf_inv open k a (f\<lparr>sf_ssl := s\<rparr>)" using assms(2) by simp
  show ?thesis
    using assms(1) r send_pending_inv[OF _ i1 assms(3)] report_inv[OF conjunct1[OF end_handshake_inv[OF i1 assms(3)]]]
    by (auto simp: begin_handshake_def Let_def split: if_splits)
qed

text \<open>C25. Every run of the TLS filter (\<open>ssl/filter.cpp\<close>) tells the next filter of the connection once at
  most, and gives it no data before: what it tells is that the connection is established, on the
  side that accepted with the default address in place of the one of the peer, which is lost.\<close>

theorem ssl_opened_once:
  assumes "data_after_handshake api" "sf_run api peer cs (ssl_filter_new s junk a) = Some f"
  shows "(filter is_open (sf_out f) = [] \<or>
      filter is_open (sf_out f) = [if peer = None then Up_Connected else Up_Accepted a]) \<and>
    (\<forall>xs ys zs. sf_out f = xs @ Up_Read ys # zs \<longrightarrow> filter is_open xs \<noteq> [])"
proof -
  define ev where "ev = (if peer = None then Up_Connected else Up_Accepted a)"
  define k where "k = (if peer = None then k_handshake_connect else k_handshake_accept)"
  have o: "opened_as ev k a" by (simp add: opened_as_def ev_def k_def)
  obtain f1 where f1: "(case peer of Some addr \<Rightarrow> sf_on_accepted api addr (ssl_filter_new s junk a)
      | None \<Rightarrow> sf_on_connected api (ssl_filter_new s junk a)) = Some f1" "sf_calls api cs f1 = Some f"
    using assms(2) by (auto simp: sf_run_def bind_eq_Some_conv)
  let ?f0 = "\<lambda>s. \<lparr>sf_ssl = s, sf_state = k, sf_addr = a, sf_out = []\<rparr>"
  have "k \<noteq> 0" using opened_as_open[OF o] by simp
  hence i0: "sf_inv ev k a (?f0 s)" for s by (simp add: sf_inv_def)
  have "\<exists>s. begin_handshake api (?f0 s) = Some f1"
    using f1(1) by (cases peer) (auto simp: sf_on_connected_def sf_on_accepted_def ssl_filter_new_def k_def)
  then obtain s1 where "begin_handshake api (?f0 s1) = Some f1" by blast
  hence "sf_inv ev k a f1" by (rule begin_handshake_inv[OF _ i0 o])
  hence i: "sf_inv ev k a f" using sf_calls_inv[OF f1(2) _ o assms(1)] by blast
  show ?thesis
  proof (cases "sf_state f = 0")
    case True
    then obtain us vs where u: "sf_out f = us @ ev # vs" "\<forall>e\<in>set us. \<not> is_open e \<and> \<not> is_data e" "\<forall>e\<in>set vs. \<not> is_open e"
      using i by (auto simp: sf_inv_def)
    have "filter is_open (sf_out f) = [ev]" using u opened_as_open[OF o] by (auto simp: filter_empty_conv)
    moreover have "filter is_open xs \<noteq> []" if "sf_out f = xs @ Up_Read ys # zs" for xs ys zs
    proof -
      have "length us < length xs"
      proof (rule ccontr)
        assume "\<not> length us < length xs"
        hence "(us @ ev # vs) ! length xs \<in> insert ev (set us)" by (auto simp: nth_append nth_Cons')
        moreover have "(us @ ev # vs) ! length xs = Up_Read ys" using that u(1) by (metis nth_append_length)
        ultimately show False using u(2) opened_as_open[OF o] by (auto simp: is_data_def)
      qed
      hence "xs ! length us = ev" using that u(1) by (metis nth_append nth_append_length)
      hence "ev \<in> set xs" using \<open>length us < length xs\<close> nth_mem by metis
      thus ?thesis using opened_as_open[OF o] by (auto simp: filter_empty_conv)
    qed
    ultimately show ?thesis by (simp add: ev_def)
  next
    case False
    hence n: "\<forall>e\<in>set (sf_out f). \<not> is_open e \<and> \<not> is_data e" using i by (simp add: sf_inv_def)
    hence "filter is_open (sf_out f) = []" by (simp add: filter_empty_conv)
    moreover have "False" if "sf_out f = xs @ Up_Read ys # zs" for xs ys zs using n that by (auto simp: is_data_def)
    ultimately show ?thesis by blast
  qed
qed

text \<open>A message written before the handshake is finished hangs the loop: as long as
  \<open>SSL_write\<close> takes nothing and asks for data from the peer, which only \<open>on_read\<close> could bring, the filter tries
  again and does not return.\<close>

theorem ssl_write_hangs:
  assumes "\<And>s msg. s \<in> S \<Longrightarrow> fst (SSL_write api msg s) \<le> 0 \<and> snd (SSL_write api msg s) \<in> S \<and>
      SSL_get_error api (fst (SSL_write api msg s)) (snd (SSL_write api msg s)) = SSL_ERROR_WANT_READ"
    and "sf_ssl f \<in> S" "msg \<noteq> []"
  shows "sf_do_write api msg f = None"
proof -
  have "write_data_write_ssl api msg f = None"
  proof (rule ccontr)
    assume "write_data_write_ssl api msg f \<noteq> None"
    then obtain y where y: "write_data_write_ssl api msg f = Some y" by blast
    have "api' = api \<and> sf_ssl f \<in> S \<and> msg \<noteq> [] \<longrightarrow> False" if "write_data_write_ssl api' msg f = Some y" for api' msg f y
    proof (rule write_data_write_ssl.raw_induct[where P = "\<lambda>api' msg f y. api' = api \<and> sf_ssl f \<in> S \<and> msg \<noteq> [] \<longrightarrow> False",
          OF _ that], intro impI)
      fix g and api' :: "'a ssl_api" and msg and f :: "'a ssl_filter" and y
      assume ih: "\<And>api' msg f y. g api' msg f = Some y \<Longrightarrow> api' = api \<and> sf_ssl f \<in> S \<and> msg \<noteq> [] \<longrightarrow> False"
        and i: "api' = api \<and> sf_ssl f \<in> S \<and> msg \<noteq> []"
        and h: "(if msg = [] then Some (True, f)
        else (let (len, s) = SSL_write api' msg (sf_ssl f); f1 = f\<lparr>sf_ssl := s\<rparr>
           in if len \<le> 0 then (if is_fatal_error api' len f1 then Some (False, report api' len f1) else g api' msg f1)
              else g api' (drop (nat len) msg) f1)) = Some y"
      obtain len s where r: "SSL_write api msg (sf_ssl f) = (len, s)" by fastforce
      have w: "len \<le> 0" "s \<in> S" "SSL_get_error api len s = SSL_ERROR_WANT_READ" using assms(1)[of "sf_ssl f" msg] i r by simp_all
      hence "g api msg (f\<lparr>sf_ssl := s\<rparr>) = Some y" using h i r by (simp add: is_fatal_error_def)
      thus False using ih[of api msg "f\<lparr>sf_ssl := s\<rparr>" y] i w(2) by simp
    qed
    thus False using y assms(2,3) by blast
  qed
  thus ?thesis by (simp add: sf_do_write_def)
qed

section \<open>Instances\<close>

text \<open>A connection of two buffers that waits for one byte, answers it, and takes the rest as data.\<close>

type_synonym toy = "bool \<times> u8 list \<times> u8 list"

definition toy_read :: "nat \<Rightarrow> toy \<Rightarrow> int \<times> u8 list \<times> toy" where
  "toy_read n t =
     (case t of
        (fin, [], ys) \<Rightarrow> (-1, [], t)
      | (fin, x # xs, ys) \<Rightarrow>
          if n = 0 then (-1, [], t)
          else if fin then (int (length (take n (x # xs))), take n (x # xs), (True, drop n (x # xs), ys))
          else if xs = [] then (-1, [], (True, [], ys @ [x]))
          else (int (length (take n xs)), take n xs, (True, drop n xs, ys @ [x])))"

definition toy_write :: "u8 list \<Rightarrow> toy \<Rightarrow> int \<times> toy" where
  "toy_write m t = (if fst t then (int (length m), (True, fst (snd t), snd (snd t) @ m)) else (-1, t))"

definition toy_api :: "toy ssl_api" where
  "toy_api = \<lparr>SSL_read = toy_read, SSL_write = toy_write,
     BIO_read = (\<lambda>n t. case t of (fin, xs, ys) \<Rightarrow> (int (length (take n ys)), take n ys, (fin, xs, drop n ys))),
     BIO_write = (\<lambda>m t. case t of (fin, xs, ys) \<Rightarrow> (int (length m), (fin, xs @ m, ys))),
     BIO_ctrl_pending = (\<lambda>t. length (snd (snd t))), BIO_should_retry = (\<lambda>t. False),
     SSL_get_error = (\<lambda>r t. if 0 < r then 0 else SSL_ERROR_WANT_READ), SSL_is_init_finished = fst,
     SSL_set_accept_state = id, SSL_set_connect_state = id\<rparr>"

lemma toy_documented: "data_after_handshake toy_api"
  by (auto simp: data_after_handshake_def toy_api_def toy_read_def split: prod.splits list.splits if_splits)

lemma ssl_write_hangs_witness: "sf_do_write toy_api [65] (ssl_filter_new (False, [], []) 0 address_new) = None"
  by (rule ssl_write_hangs[where S = "{(False, [], [])}"])
    (auto simp: toy_api_def toy_write_def ssl_filter_new_def SSL_ERROR_WANT_READ_def)

lemma toy_simps:
  "SSL_read toy_api = toy_read" "SSL_write toy_api = toy_write" "BIO_ctrl_pending toy_api t = length (snd (snd t))"
  "BIO_read toy_api n (fin, xs, ys) = (int (length (take n ys)), take n ys, (fin, xs, drop n ys))"
  "BIO_write toy_api m (fin, xs, ys) = (int (length m), (fin, xs @ m, ys))"
  "SSL_get_error toy_api r t = (if 0 < r then 0 else SSL_ERROR_WANT_READ)" "SSL_is_init_finished toy_api = fst"
  "SSL_set_accept_state toy_api = id"
  by (simp_all add: toy_api_def)

lemma toy_send_none:
  "send_pending toy_api \<lparr>sf_ssl = (fin, xs, []), sf_state = k, sf_addr = a, sf_out = out\<rparr> =
     Some \<lparr>sf_ssl = (fin, xs, []), sf_state = k, sf_addr = a, sf_out = out\<rparr>"
  by (subst send_pending.simps) (simp add: toy_simps)

lemma toy_send:
  "length ys \<le> 4095 \<Longrightarrow> send_pending toy_api \<lparr>sf_ssl = (fin, xs, y # ys), sf_state = k, sf_addr = a, sf_out = out\<rparr> =
     Some \<lparr>sf_ssl = (fin, xs, []), sf_state = k, sf_addr = a, sf_out = out @ [Down_Write (y # ys)]\<rparr>"
  by (subst send_pending.simps) (simp add: toy_simps toy_send_none emit_def)

lemma toy_bio:
  "read_data_write_bio toy_api (c # m) \<lparr>sf_ssl = (fin, xs, ys), sf_state = k, sf_addr = a, sf_out = out\<rparr> =
     Some (True, \<lparr>sf_ssl = (fin, xs @ c # m, ys), sf_state = k, sf_addr = a, sf_out = out\<rparr>)"
  by (subst read_data_write_bio.simps, subst read_data_write_bio.simps) (simp add: toy_simps)

lemma toy_ssl_write:
  "write_data_write_ssl toy_api (c # m) \<lparr>sf_ssl = (True, xs, ys), sf_state = k, sf_addr = a, sf_out = out\<rparr> =
     Some (True, \<lparr>sf_ssl = (True, xs, ys @ c # m), sf_state = k, sf_addr = a, sf_out = out\<rparr>)"
  by (subst write_data_write_ssl.simps, subst write_data_write_ssl.simps) (simp add: toy_simps toy_write_def)

lemma toy_run:
  "sf_run toy_api (Some p) [Sf_Read [1, 65, 66], Sf_Write [67]] (ssl_filter_new (False, [], []) 9 a) =
     Some \<lparr>sf_ssl = (True, [], []), sf_state = 0, sf_addr = a,
       sf_out = [Up_Accepted a, Up_Read [65, 66], Down_Write [1], Down_Write [67]]\<rparr>"
proof -
  let ?f = "\<lambda>t k out. \<lparr>sf_ssl = t, sf_state = k, sf_addr = a, sf_out = out\<rparr>"
  have 1: "sf_on_accepted toy_api p (ssl_filter_new (False, [], []) 9 a) = Some (?f (False, [], []) 2 [])"
    by (simp add: sf_on_accepted_def begin_handshake_def ssl_filter_new_def toy_simps toy_read_def is_fatal_error_def
        k_handshake_accept_def toy_send_none)
  have r2: "read_ssl toy_api (?f (True, [], [1]) 0 [Up_Accepted a, Up_Read [65, 66]]) =
      Some (True, ?f (True, [], [1]) 0 [Up_Accepted a, Up_Read [65, 66]])"
    by (subst read_ssl.simps) (simp add: toy_simps toy_read_def is_fatal_error_def)
  have r1: "read_ssl toy_api (?f (False, [1, 65, 66], []) 2 []) =
      Some (True, ?f (True, [], [1]) 0 [Up_Accepted a, Up_Read [65, 66]])"
    by (subst read_ssl.simps) (simp add: toy_simps toy_read_def end_handshake_def emit_def k_handshake_accept_def
        k_handshake_connect_def r2)
  have 2: "sf_on_read toy_api [1, 65, 66] (?f (False, [], []) 2 []) =
      Some (?f (True, [], []) 0 [Up_Accepted a, Up_Read [65, 66], Down_Write [1]])"
    by (simp add: sf_on_read_def toy_bio r1 toy_send emit_def)
  have 3: "sf_do_write toy_api [67] (?f (True, [], []) 0 out) = Some (?f (True, [], []) 0 (out @ [Down_Write [67]]))" for out
    by (simp add: sf_do_write_def toy_ssl_write toy_send emit_def)
  show ?thesis by (simp add: sf_run_def 1 2 3)
qed

definition peer_address :: address where
  "peer_address = address_v4 (replicate storage_size 0) [127, 0, 0, 1] 80"

lemma ssl_opened_once_witness:
  "\<exists>f. sf_run toy_api (Some peer_address) [Sf_Read [1, 65, 66], Sf_Write [67]]
       (ssl_filter_new (False, [], []) 9 address_new) = Some f \<and>
     filter is_open (sf_out f) = [Up_Accepted address_new] \<and> Up_Read [65, 66] \<in> set (sf_out f)"
  using ssl_opened_once[OF toy_documented toy_run[of peer_address address_new]] toy_run[of peer_address address_new]
  by (auto simp: is_open_def)

end
