(* ===== verification/Padding.thy ===== *)
theory Padding
  imports Byte_Queue Seed "HOL-Library.Monad_Syntax"
begin

text \<open>
  The padding of messages to whole blocks (\<open>crypto/padding.cpp\<close>): \<open>n\<close> bytes of the value \<open>n\<close>, at
  least one. A buffer of zero alignment divides by zero, and an empty message has no last byte:
  both are \<open>None\<close>.
\<close>

section \<open>The code\<close>

fun pad_loop :: "nat \<Rightarrow> u8 \<Rightarrow> heap \<times> memory_block \<Rightarrow> (heap \<times> memory_block) option" where
  "pad_loop 0 p s = Some s"
| "pad_loop (Suc i) p s = do { s1 \<leftarrow> mb_put [p] s; pad_loop i p s1 }"

definition pkcs5_sized :: "nat \<Rightarrow> u8 \<Rightarrow> heap \<times> memory_block \<Rightarrow> (heap \<times> memory_block) option" where
  "pkcs5_sized datasz align s =
     (if align = 0 then None
      else (let aligned_size = size_add datasz (unat align - datasz mod unat align);
                p = (of_nat (size_sub aligned_size datasz) :: u8)
            in pad_loop (unat p) p s))"

definition pkcs5 :: "u8 \<Rightarrow> heap \<times> memory_block \<Rightarrow> (heap \<times> memory_block) option" where
  "pkcs5 align s = pkcs5_sized (mb_length (snd s)) align s"

definition pkcs5_data_size :: "u8 list \<Rightarrow> nat \<Rightarrow> nat option" where
  "pkcs5_data_size data datasz =
     (if datasz = 0 \<or> length data < datasz then None else Some (size_sub datasz (unat (data ! (datasz - 1)))))"

section \<open>Padding and back\<close>

lemma pad_loop_ok:
  "mb_live L s \<Longrightarrow> n \<le> room s \<Longrightarrow>
   \<exists>s'. pad_loop n p s = Some s' \<and> mb_live L s' \<and> view s' = view s @ replicate n p"
proof (induction n arbitrary: s)
  case (Suc n)
  obtain s1 where 1: "mb_put [p] s = Some s1" "mb_live L s1" "view s1 = view s @ [p]" "room s1 = room s - length [p]"
    by (rule put_chars[OF Suc.prems(1), of "[p]"]) (use Suc.prems(2) in simp_all)
  have "n \<le> room s1" using 1(4) Suc.prems(2) by simp
  then obtain s2 where "pad_loop n p s1 = Some s2" "mb_live L s2" "view s2 = view s1 @ replicate n p"
    using Suc.IH[OF 1(2)] by blast
  thus ?case using 1 by simp
qed simp

text \<open>The number of bytes added.\<close>

definition pad_count :: "nat \<Rightarrow> nat \<Rightarrow> nat" where
  "pad_count a n = a - n mod a"

lemma pad_count_range: "0 < a \<Longrightarrow> 0 < pad_count a n \<and> pad_count a n \<le> a \<and> a dvd n + pad_count a n"
proof -
  assume a: "0 < a"
  hence "n mod a < a" by simp
  moreover have "n + pad_count a n = (n div a + 1) * a"
  proof -
    have "n + pad_count a n = n - n mod a + a" using \<open>n mod a < a\<close> by (simp add: pad_count_def)
    thus ?thesis by (simp add: minus_mod_eq_div_mult algebra_simps)
  qed
  ultimately show ?thesis by (auto simp: pad_count_def)
qed

lemma pkcs5_ok:
  assumes "mb_live L s" "0 < unat align" "unat align \<le> room s"
  shows "\<exists>s'. pkcs5 align s = Some s' \<and> mb_live L s' \<and>
    view s' = view s @ replicate (pad_count (unat align) (length (view s))) (of_nat (pad_count (unat align) (length (view s))))"
proof -
  let ?n = "length (view s)" and ?a = "unat align"
  note c = pad_count_range[OF assms(2), of ?n]
  have l: "mb_live L (fst s, snd s)" using assms(1) by simp
  have n: "mb_length (snd s) = ?n" using mb_length_contents[OF l] by simp
  have "?n < 2 ^ 31" using mb_contents_length[OF l] assms(1) by (auto simp: mb_live_def mb_ok_def)
  hence s: "size_add ?n (pad_count ?a ?n) = ?n + pad_count ?a ?n" "size_sub (?n + pad_count ?a ?n) ?n = pad_count ?a ?n"
  proof -
    have "pad_count ?a ?n < 256" using c unat_u8_less[of align] by linarith
    thus "size_add ?n (pad_count ?a ?n) = ?n + pad_count ?a ?n" using \<open>?n < 2 ^ 31\<close> by (intro size_add_small) simp
    show "size_sub (?n + pad_count ?a ?n) ?n = pad_count ?a ?n" by (simp add: size_sub_le)
  qed
  have p: "unat (of_nat (pad_count ?a ?n) :: u8) = pad_count ?a ?n"
  proof -
    have "pad_count ?a ?n < 256" using c unat_u8_less[of align] by linarith
    thus ?thesis by (simp add: unsigned_of_nat take_bit_eq_mod)
  qed
  have r: "pad_count ?a ?n \<le> room s" using c assms(3) by simp
  have "align \<noteq> 0" using assms(2) by auto
  hence "pkcs5 align s = pad_loop (pad_count ?a ?n) (of_nat (pad_count ?a ?n)) s"
    using n s p by (simp add: pkcs5_def pkcs5_sized_def pad_count_def[symmetric] Let_def)
  thus ?thesis using pad_loop_ok[OF assms(1) r] by simp
qed

lemma data_size_padded:
  assumes "0 < p" "p < 256" "data = m @ replicate p (of_nat p)"
  shows "pkcs5_data_size data (length data) = Some (length m)"
proof -
  have l: "length data = length m + p" using assms(3) by simp
  have "\<not> length data - 1 < length m" using l assms(1) by simp
  hence "data ! (length data - 1) = (of_nat p :: u8)" using assms(1,3) l by (simp add: nth_append)
  moreover have "unat (of_nat p :: u8) = p" using assms(2) by (simp add: unsigned_of_nat take_bit_eq_mod)
  ultimately show ?thesis using assms(1) l by (simp add: pkcs5_data_size_def size_sub_le)
qed

text \<open>C32. Padding, encryption, decryption and removal of the padding round-trip: for any contents of a
  memory block, padded to blocks of 16 and encrypted by SEED in a buffer (\<open>crypto/seed.cpp\<close>), the
  size that \<open>pkcs5_data_size\<close> finds in the decrypted buffer is that of the contents, which it begins with.\<close>

theorem padded_seed_roundtrip:
  assumes "mb_live L s" "16 \<le> room s"
  shows "\<exists>s' c d. pkcs5 16 s = Some s' \<and> mb_live L s' \<and>
    seed_encrypt k (Some (view s')) (length (view s')) (replicate (length (view s')) 0) = Some c \<and>
    seed_decrypt k None (length (view s')) c = Some d \<and>
    pkcs5_data_size d (length d) = Some (length (view s)) \<and> take (length (view s)) d = view s"
proof -
  let ?n = "length (view s)" and ?p = "pad_count 16 (length (view s))"
  have a: "0 < unat (16 :: u8)" "unat (16 :: u8) \<le> room s" "unat (16 :: u8) = 16" using assms(2) by simp_all
  obtain s' where s': "pkcs5 16 s = Some s'" "mb_live L s'" "view s' = view s @ replicate ?p (of_nat ?p)"
    using pkcs5_ok[OF assms(1) a(1,2)] unfolding a(3) by blast
  have p: "0 < ?p" "?p < 256" "16 dvd ?n + ?p" using pad_count_range[of 16 ?n] by simp_all
  let ?m = "view s'"
  have m: "16 dvd length ?m" "length ?m \<le> length (replicate (length ?m) (0 :: u8))" using p(3) s'(3) by simp_all
  let ?c = "concat (map (\<lambda>b. SeedEncrypt b (roundKey k)) (blocks 16 ?m))"
  have c: "length ?c = length ?m" using m(1) by (rule length_cipher_text)
  have e: "seed_encrypt k (Some ?m) (length ?m) (replicate (length ?m) 0) = Some ?c" using seed_encrypt_whole(1)[OF m] by simp
  have "16 dvd length ?c" using c m(1) by simp
  from seed_encrypt_whole(4)[OF this order_refl, of k "[]"]
  have d: "seed_decrypt k None (length ?m) ?c = Some ?m" unfolding c seed_cipher.dec_enc_blocks[OF m(1)] by simp
  have "pkcs5_data_size ?m (length ?m) = Some ?n" by (rule data_size_padded[OF p(1,2) s'(3)])
  moreover have "take ?n ?m = view s" using s'(3) by simp
  ultimately show ?thesis using s'(1,2) e d by (intro exI[of _ s'] exI[of _ ?c] exI[of _ ?m] conjI) simp_all
qed

text \<open>\<open>pkcs5_data_size\<close> trusts the last byte: when it is more than the size of the data, the size
  it gives wraps around and is larger than the data.\<close>

theorem bad_padding_wraps:
  assumes "0 < n" "n \<le> length data" "n < unat (data ! (n - 1))"
  shows "\<exists>sz. pkcs5_data_size data n = Some sz \<and> n < sz"
proof -
  have "unat (data ! (n - 1)) < 256" by (rule unat_u8_less)
  moreover have "n < n + 2 ^ 64 - k" if "k < 256" for k :: nat using that by simp
  ultimately have "n < n + 2 ^ 64 - unat (data ! (n - 1))" by blast
  thus ?thesis using assms by (simp add: pkcs5_data_size_def size_sub_def)
qed

lemma padded_seed_roundtrip_witness:
  "\<exists>s' c d. pkcs5 16 (mb_new 4 heap_empty) = Some s' \<and> seed_encrypt seed_sample (Some (view s')) (length (view s'))
      (replicate (length (view s')) 0) = Some c \<and> seed_decrypt seed_sample None (length (view s')) c = Some d \<and>
    pkcs5_data_size d (length d) = Some 0"
proof -
  have "mb_live {#} (mb_new 4 heap_empty)" "view (mb_new 4 heap_empty) = []" "16 \<le> room (mb_new 4 heap_empty)"
    using mb_new_live[of heap_empty "{#}" 4] by (simp_all add: heap_ok_def heap_empty_def)
  thus ?thesis using padded_seed_roundtrip[of "{#}" "mb_new 4 heap_empty" seed_sample] by auto
qed

lemma bad_padding_wraps_witness: "\<exists>sz. pkcs5_data_size [1, 2, 200] 3 = Some sz \<and> 3 < sz"
  using bad_padding_wraps[of 3 "[1, 2, 200]"] by simp

end
