(* ===== verification/Marshal.thy ===== *)
theory Marshal
  imports Byte_Queue "HOL-Library.Monad_Syntax"
begin

unbundle bit_operations_syntax

text \<open>
  Numbers in memory blocks (\<open>buffer/marshal.hpp\<close>, \<open>marshal.cpp\<close>, compiled on Windows): the writer
  converts to the order of the network and appends the bytes, the reader takes the bytes and converts
  back. A \<open>float\<close> or \<open>double\<close> is its bit pattern.
\<close>

section \<open>Bytes of a number\<close>

text \<open>The processors of Windows store the low byte first.\<close>

definition mem_bytes :: "'a::len word \<Rightarrow> u8 list" where
  "mem_bytes w = map (\<lambda>i. ucast (drop_bit (8 * i) w)) [0..<LENGTH('a) div 8]"

fun mem_word :: "u8 list \<Rightarrow> 'a::len word" where
  "mem_word [] = 0"
| "mem_word (b # bs) = ucast b OR push_bit 8 (mem_word bs)"

lemma length_mem_bytes [simp]: "length (mem_bytes (w :: 'a::len word)) = LENGTH('a) div 8"
  by (simp add: mem_bytes_def)

lemma bit_mem_word:
  "bit (mem_word bs :: 'a::len word) n \<longleftrightarrow> n < LENGTH('a) \<and> n div 8 < length bs \<and> bit (bs ! (n div 8)) (n mod 8)"
proof (induction bs arbitrary: n)
  case (Cons b bs)
  show ?case
  proof (cases "n < 8")
    case True
    thus ?thesis by (auto simp: bit_or_iff bit_push_bit_iff bit_ucast_iff)
  next
    case False
    hence "n div 8 = Suc ((n - 8) div 8)" "n mod 8 = (n - 8) mod 8" by (simp_all add: le_div_geq le_mod_geq)
    moreover have "\<not> bit b n" using False bit_imp_le_length[of b n] by auto
    ultimately show ?thesis using False by (auto simp: bit_or_iff bit_push_bit_iff bit_ucast_iff Cons)
  qed
qed simp

lemma mem_word_bytes:
  assumes "8 dvd LENGTH('a::len)" shows "mem_word (mem_bytes w) = (w :: 'a word)"
proof (rule bit_word_eqI)
  fix n assume n: "n < LENGTH('a)"
  hence "n div 8 < LENGTH('a) div 8" using assms by (auto elim!: dvdE)
  thus "bit (mem_word (mem_bytes w) :: 'a word) n = bit w n"
    using n by (simp add: bit_mem_word) (simp add: mem_bytes_def bit_ucast_iff bit_drop_bit_eq)
qed

lemma mem_bytes_word:
  assumes "8 * length bs = LENGTH('a::len)" shows "mem_bytes (mem_word bs :: 'a word) = bs"
proof (rule nth_equalityI)
  show "length (mem_bytes (mem_word bs :: 'a word)) = length bs" using assms[symmetric] by simp
  fix i assume "i < length (mem_bytes (mem_word bs :: 'a word))"
  hence i: "i < length bs" using assms[symmetric] by simp
  show "mem_bytes (mem_word bs :: 'a word) ! i = bs ! i"
  proof (rule bit_word_eqI)
    fix n assume "n < LENGTH(8)"
    hence n: "n < 8" by simp
    hence "8 * i + n < LENGTH('a)" using i assms[symmetric] by simp
    moreover have "(8 * i + n) div 8 = i" "(8 * i + n) mod 8 = n" using n by simp_all
    ultimately show "bit (mem_bytes (mem_word bs :: 'a word) ! i) n = bit (bs ! i) n"
      using i n assms[symmetric] by (simp add: mem_bytes_def bit_ucast_iff bit_drop_bit_eq bit_mem_word)
  qed
qed

text \<open>\<open>htons\<close>, \<open>htonl\<close>, \<open>htonll\<close> and their inverses reverse the bytes; \<open>htonf\<close> and \<open>htond\<close> those of the
  bit pattern.\<close>

definition swap_bytes :: "'a::len word \<Rightarrow> 'a word" where
  "swap_bytes w = mem_word (rev (mem_bytes w))"

lemma swap_bytes_twice:
  assumes "8 dvd LENGTH('a::len)" shows "swap_bytes (swap_bytes w) = (w :: 'a word)"
proof -
  have "8 * length (rev (mem_bytes w)) = LENGTH('a)" using assms by simp
  from mem_bytes_word[OF this] show ?thesis using mem_word_bytes[OF assms, of w] by (simp add: swap_bytes_def)
qed

lemma swap_bytes_wire:
  assumes "8 dvd LENGTH('a::len)" shows "mem_bytes (swap_bytes w) = rev (mem_bytes (w :: 'a word))"
  using assms by (simp add: swap_bytes_def mem_bytes_word)

section \<open>Writer and reader\<close>

datatype endian = Big | Little

text \<open>\<open>host_endian\<close>: the static variable is -1 until the first call; the first byte of 1 tells.\<close>

definition host_endian :: "int \<Rightarrow> int \<times> endian" where
  "host_endian host =
     (let h = (if host = -1 then (if hd (mem_bytes (1 :: u16)) = 1 then 1 else 0) else host)
      in (h, if h = 1 then Little else Big))"

datatype marshal_value = M_Byte u8 | M_Short u16 | M_Int u32 | M_Long u64 | M_Float u32 | M_Double u64
datatype marshal_type = T_Byte | T_Short | T_Int | T_Long | T_Float | T_Double

fun type_of_value :: "marshal_value \<Rightarrow> marshal_type" where
  "type_of_value (M_Byte _) = T_Byte"
| "type_of_value (M_Short _) = T_Short"
| "type_of_value (M_Int _) = T_Int"
| "type_of_value (M_Long _) = T_Long"
| "type_of_value (M_Float _) = T_Float"
| "type_of_value (M_Double _) = T_Double"

text \<open>\<open>host_to_network::value\<close> and then the \<open>operator<<\<close> of \<open>memory_block\<close>, which writes the object's
  bytes; a byte is written as it is.\<close>

fun marshal_write :: "marshal_value \<Rightarrow> heap \<times> memory_block \<Rightarrow> (heap \<times> memory_block) option" where
  "marshal_write (M_Byte v) s = mb_put [v] s"
| "marshal_write (M_Short v) s = mb_put (mem_bytes (swap_bytes v)) s"
| "marshal_write (M_Int v) s = mb_put (mem_bytes (swap_bytes v)) s"
| "marshal_write (M_Long v) s = mb_put (mem_bytes (swap_bytes v)) s"
| "marshal_write (M_Float v) s = mb_put (mem_bytes (swap_bytes v)) s"
| "marshal_write (M_Double v) s = mb_put (mem_bytes (swap_bytes v)) s"

text \<open>\<open>operator>>\<close>: \<open>None\<close> when the block has too few bytes, and the variable keeps some of its old
  ones.\<close>

definition get_object :: "nat \<Rightarrow> heap \<times> memory_block \<Rightarrow> (u8 list \<times> heap \<times> memory_block) option" where
  "get_object n s = do { (bs, s1) \<leftarrow> mb_get n s; if length bs < n then None else Some (bs, s1) }"

fun marshal_read :: "marshal_type \<Rightarrow> heap \<times> memory_block \<Rightarrow> (marshal_value \<times> heap \<times> memory_block) option" where
  "marshal_read T_Byte s = do { (bs, s1) \<leftarrow> get_object 1 s; Some (M_Byte (mem_word bs), s1) }"
| "marshal_read T_Short s = do { (bs, s1) \<leftarrow> get_object 2 s; Some (M_Short (swap_bytes (mem_word bs)), s1) }"
| "marshal_read T_Int s = do { (bs, s1) \<leftarrow> get_object 4 s; Some (M_Int (swap_bytes (mem_word bs)), s1) }"
| "marshal_read T_Long s = do { (bs, s1) \<leftarrow> get_object 8 s; Some (M_Long (swap_bytes (mem_word bs)), s1) }"
| "marshal_read T_Float s = do { (bs, s1) \<leftarrow> get_object 4 s; Some (M_Float (swap_bytes (mem_word bs)), s1) }"
| "marshal_read T_Double s = do { (bs, s1) \<leftarrow> get_object 8 s; Some (M_Double (swap_bytes (mem_word bs)), s1) }"

fun marshal_write_all :: "marshal_value list \<Rightarrow> heap \<times> memory_block \<Rightarrow> (heap \<times> memory_block) option" where
  "marshal_write_all [] s = Some s"
| "marshal_write_all (v # vs) s = do { s1 \<leftarrow> marshal_write v s; marshal_write_all vs s1 }"

fun marshal_read_all :: "marshal_type list \<Rightarrow> heap \<times> memory_block \<Rightarrow> (marshal_value list \<times> heap \<times> memory_block) option" where
  "marshal_read_all [] s = Some ([], s)"
| "marshal_read_all (t # ts) s =
     do { (v, s1) \<leftarrow> marshal_read t s; (vs, s2) \<leftarrow> marshal_read_all ts s1; Some (v # vs, s2) }"

section \<open>Round trip\<close>

text \<open>The format: the high byte first.\<close>

fun marshal_bytes :: "marshal_value \<Rightarrow> u8 list" where
  "marshal_bytes (M_Byte v) = [v]"
| "marshal_bytes (M_Short v) = rev (mem_bytes v)"
| "marshal_bytes (M_Int v) = rev (mem_bytes v)"
| "marshal_bytes (M_Long v) = rev (mem_bytes v)"
| "marshal_bytes (M_Float v) = rev (mem_bytes v)"
| "marshal_bytes (M_Double v) = rev (mem_bytes v)"

lemma marshal_write_put: "marshal_write v s = mb_put (marshal_bytes v) s"
  by (cases v) (simp_all add: swap_bytes_wire)

lemma write_all_put:
  assumes "mb_live L s" "length (concat (map marshal_bytes vs)) \<le> room s"
  shows "\<exists>s'. marshal_write_all vs s = Some s' \<and> mb_live L s' \<and> view s' = view s @ concat (map marshal_bytes vs)"
  using assms
proof (induction vs arbitrary: s)
  case (Cons v vs)
  have n: "length (marshal_bytes v) \<le> room s" using Cons.prems(2) by simp
  obtain s1 where s1: "mb_put (marshal_bytes v) s = Some s1" "mb_live L s1" "view s1 = view s @ marshal_bytes v"
    "room s1 = room s - length (marshal_bytes v)"
    using put_chars[OF Cons.prems(1) n] .
  have "length (concat (map marshal_bytes vs)) \<le> room s1" using Cons.prems(2) s1(4) by simp
  from Cons.IH[OF s1(2) this] s1 show ?case by (auto simp: marshal_write_put)
qed simp

lemma get_object_ok:
  assumes "mb_live L s" "view s = bs @ rest"
  shows "\<exists>s1. get_object (length bs) s = Some (bs, s1) \<and> mb_live L s1 \<and> view s1 = rest"
proof -
  obtain h x where s: "s = (h, x)" by (cases s)
  have "mb_contents h x = bs @ rest" using assms(2) s by simp
  from get_chars[of L h x, OF _ this, of "length bs"] assms(1) s show ?thesis by (auto simp: get_object_def)
qed

lemma swap_read:
  assumes "8 dvd LENGTH('a::len)" shows "swap_bytes (mem_word (rev (mem_bytes w))) = (w :: 'a word)"
  using swap_bytes_twice[OF assms, of w] by (simp add: swap_bytes_def)

lemma marshal_read_ok:
  assumes "mb_live L s" "view s = marshal_bytes v @ rest"
  shows "\<exists>s1. marshal_read (type_of_value v) s = Some (v, s1) \<and> mb_live L s1 \<and> view s1 = rest"
proof -
  obtain s1 where s1: "get_object (length (marshal_bytes v)) s = Some (marshal_bytes v, s1)" "mb_live L s1" "view s1 = rest"
    using get_object_ok[OF assms] by blast
  show ?thesis using s1 by (cases v) (simp_all add: swap_read)
qed

lemma read_all_ok:
  assumes "mb_live L s" "view s = concat (map marshal_bytes vs) @ rest"
  shows "\<exists>s1. marshal_read_all (map type_of_value vs) s = Some (vs, s1) \<and> mb_live L s1 \<and> view s1 = rest"
  using assms
proof (induction vs arbitrary: s)
  case (Cons v vs)
  have "view s = marshal_bytes v @ concat (map marshal_bytes vs) @ rest" using Cons.prems(2) by simp
  from marshal_read_ok[OF Cons.prems(1) this] obtain s1 where
    s1: "marshal_read (type_of_value v) s = Some (v, s1)" "mb_live L s1" "view s1 = concat (map marshal_bytes vs) @ rest" by blast
  from Cons.IH[OF s1(2,3)] s1(1) show ?case by auto
qed simp

text \<open>C33. \<open>marshal_writer\<close> and \<open>marshal_reader\<close> over a memory block: the numbers written, of any widths,
  are stored high byte first after what was in the block, and reading an emptied block with the same
  types gives the same numbers and leaves it empty.\<close>

theorem marshal_roundtrip:
  assumes "mb_live L s" "view s = []" "length (concat (map marshal_bytes vs)) \<le> room s"
  shows "\<exists>s1 s2. marshal_write_all vs s = Some s1 \<and> view s1 = concat (map marshal_bytes vs) \<and>
    marshal_read_all (map type_of_value vs) s1 = Some (vs, s2) \<and> view s2 = []"
proof -
  obtain s1 where s1: "marshal_write_all vs s = Some s1" "mb_live L s1" "view s1 = concat (map marshal_bytes vs)"
    using write_all_put[OF assms(1,3)] assms(2) by auto
  have "view s1 = concat (map marshal_bytes vs) @ []" using s1(3) by simp
  from read_all_ok[OF s1(2) this] s1 show ?thesis by auto
qed

theorem marshal_roundtrip_witness:
  "\<exists>s1 s2. marshal_write_all [M_Short 0x0102, M_Byte 7] (mb_default heap_empty) = Some s1 \<and> view s1 = [1, 2, 7] \<and>
    marshal_read_all [T_Short, T_Byte] s1 = Some ([M_Short 0x0102, M_Byte 7], s2)"
proof -
  have v: "view (mb_default heap_empty) = []" "room (mb_default heap_empty) = 2 ^ 31 - 1"
    by (simp_all add: mb_contents_def mb_default_def room_def split: prod.split)
  have b: "mem_bytes (0x0102 :: u16) = [2, 1]" by (simp add: mem_bytes_def upt_rec drop_bit_eq_div)
  have "length (concat (map marshal_bytes [M_Short 0x0102, M_Byte 7])) \<le> room (mb_default heap_empty)" using v(2) b by simp
  from marshal_roundtrip[OF mb_default_live v(1) this] obtain s1 s2 where
    s: "marshal_write_all [M_Short 0x0102, M_Byte 7] (mb_default heap_empty) = Some s1"
      "view s1 = concat (map marshal_bytes [M_Short 0x0102, M_Byte 7])"
      "marshal_read_all (map type_of_value [M_Short 0x0102, M_Byte 7]) s1 = Some ([M_Short 0x0102, M_Byte 7], s2)"
    by blast
  have "concat (map marshal_bytes [M_Short 0x0102, M_Byte 7]) = [1, 2, 7]" using b by simp
  moreover have "map type_of_value [M_Short 0x0102, M_Byte 7] = [T_Short, T_Byte]" by simp
  ultimately show ?thesis using s by metis
qed

end
