(* ===== verification/Task_Objects.thy ===== *)
theory Task_Objects
  imports Errors Time "HOL-Library.Monad_Syntax"
begin

text \<open>
  The task objects (\<open>event_loop/task.cpp\<close>, \<open>timer_task.cpp\<close>, \<open>io/task.cpp\<close> on both platforms) and
  the completion port of Windows (\<open>io/iocp.cpp\<close>). A handler is a number, and so is a context; null
  is \<open>None\<close>. What the members of the port do between two calls of the system is one step, so that
  the threads that wake the loop up interleave with the one that waits.
\<close>

section \<open>Tasks\<close>

record task_obj =
  tk_handler :: "nat option"
  tk_ctx :: "nat option"

definition task_new :: task_obj where
  "task_new = \<lparr>tk_handler = None, tk_ctx = None\<rparr>"

definition obj_task_of :: "nat option \<Rightarrow> nat option \<Rightarrow> task_obj" where
  "obj_task_of h ctx = \<lparr>tk_handler = h, tk_ctx = ctx\<rparr>"

definition set_handler :: "nat option \<Rightarrow> nat option \<Rightarrow> 'a task_obj_scheme \<Rightarrow> 'a task_obj_scheme" where
  "set_handler h ctx t = t\<lparr>tk_handler := h, tk_ctx := ctx\<rparr>"

definition task_context :: "'a task_obj_scheme \<Rightarrow> nat option" where
  "task_context t = tk_ctx t"

text \<open>\<open>operator()\<close>: \<open>run\<close> is what a handler does to the state of the program.\<close>

definition task_invoke :: "(nat \<Rightarrow> 'a task_obj_scheme \<Rightarrow> 's \<Rightarrow> 's) \<Rightarrow> 'a task_obj_scheme \<Rightarrow> 's \<Rightarrow> 's" where
  "task_invoke run t s = (case tk_handler t of None \<Rightarrow> s | Some h \<Rightarrow> run h t s)"

record timer_task = task_obj +
  tt_error :: error_code
  tt_expired :: date_time

definition timer_task_of :: "date_time \<Rightarrow> nat option \<Rightarrow> nat option \<Rightarrow> timer_task" where
  "timer_task_of now h ctx = \<lparr>tk_handler = h, tk_ctx = ctx, tt_error = no_error, tt_expired = now\<rparr>"

definition timer_task_new :: "date_time \<Rightarrow> timer_task" where
  "timer_task_new now = timer_task_of now None None"

definition tt_set_error :: "error_code \<Rightarrow> timer_task \<Rightarrow> timer_task" where
  "tt_set_error ec t = t\<lparr>tt_error := ec\<rparr>"

definition tt_set_expired :: "date_time \<Rightarrow> timer_task \<Rightarrow> timer_task" where
  "tt_set_expired d t = t\<lparr>tt_expired := d\<rparr>"

section \<open>Input and output tasks\<close>

text \<open>On Linux the task holds the \<open>epoll_event\<close> it is registered with: the events, and a pointer
  to the task itself.\<close>

record io_task = task_obj +
  it_events :: u32
  it_data :: nat
  it_error :: error_code
  it_bytes :: int

definition io_task_of :: "nat \<Rightarrow> nat option \<Rightarrow> nat option \<Rightarrow> io_task" where
  "io_task_of this h ctx =
     \<lparr>tk_handler = h, tk_ctx = ctx, it_events = 0, it_data = this, it_error = no_error, it_bytes = 0\<rparr>"

definition it_set_error :: "error_code \<Rightarrow> io_task \<Rightarrow> io_task" where
  "it_set_error ec t = t\<lparr>it_error := ec\<rparr>"

definition it_set_bytes :: "int \<Rightarrow> io_task \<Rightarrow> io_task" where
  "it_set_bytes n t = t\<lparr>it_bytes := n\<rparr>"

text \<open>On Windows it is an \<open>OVERLAPPED\<close> with that pointer after it: the error code is kept in two of
  its members, the second a pointer to the category, which is null after \<open>memset\<close>. To read the
  error then makes a reference of a null pointer.\<close>

record overlapped =
  ov_internal :: u64
  ov_high :: "err_category option"
  ov_offset :: u32
  ov_data :: nat

definition ov_reset :: "nat \<Rightarrow> overlapped" where
  "ov_reset this = \<lparr>ov_internal = 0, ov_high = None, ov_offset = 0, ov_data = this\<rparr>"

definition ov_error :: "overlapped \<Rightarrow> error_code option" where
  "ov_error t = (case ov_high t of
       None \<Rightarrow> None
     | Some c \<Rightarrow> Some \<lparr>ec_value = to_i32 (uint (ov_internal t)), ec_category = c\<rparr>)"

definition ov_set_error :: "error_code \<Rightarrow> overlapped \<Rightarrow> overlapped" where
  "ov_set_error ec t = t\<lparr>ov_internal := word_of_int (ec_value ec), ov_high := Some (ec_category ec)\<rparr>"

definition ov_bytes :: "overlapped \<Rightarrow> int" where
  "ov_bytes t = to_i32 (uint (ov_offset t))"

definition ov_set_bytes :: "int \<Rightarrow> overlapped \<Rightarrow> overlapped" where
  "ov_set_bytes n t = t\<lparr>ov_offset := word_of_int n\<rparr>"

text \<open>What \<open>iocp::wait\<close> puts in the task of an operation that completed.\<close>

definition ov_result :: "bool \<Rightarrow> u32 \<Rightarrow> int \<Rightarrow> overlapped \<Rightarrow> overlapped" where
  "ov_result result bytes err t =
     ov_set_bytes (uint bytes) (ov_set_error (if result then no_error else platform_error err) t)"

lemma to_i32_mod: "to_i32 (v mod 2 ^ 64) = to_i32 v" "to_i32 (v mod 2 ^ 32) = to_i32 v"
proof -
  have "(v mod 2 ^ 64 + 2 ^ 31) mod 2 ^ 32 = ((v mod 2 ^ 64) mod 2 ^ 32 + 2 ^ 31) mod 2 ^ 32"
    by (simp add: mod_simps)
  also have "(v mod 2 ^ 64) mod 2 ^ 32 = v mod 2 ^ 32" by (simp add: mod_mod_cancel)
  finally show "to_i32 (v mod 2 ^ 64) = to_i32 v" by (simp add: to_i32_def mod_simps)
  show "to_i32 (v mod 2 ^ 32) = to_i32 v" by (simp add: to_i32_def mod_simps)
qed

lemma overlapped_fields:
  assumes "- (2 ^ 31) \<le> ec_value ec" "ec_value ec < 2 ^ 31" "- (2 ^ 31) \<le> n" "n < 2 ^ 31"
  shows "ov_error (ov_set_error ec t) = Some ec" "ov_bytes (ov_set_bytes n t) = n"
    "ov_error (ov_set_bytes n t) = ov_error t" "ov_bytes (ov_set_error ec t) = ov_bytes t"
    "ov_error (ov_reset this) = None"
  using assms
  by (simp_all add: ov_error_def ov_set_error_def ov_bytes_def ov_set_bytes_def ov_reset_def uint_word_of_int
      to_i32_mod[simplified] to_i32_id split: option.split)

lemma ov_result_error:
  "ov_error (ov_result result bytes err t) =
     Some (if result then no_error else \<lparr>ec_value = to_i32 err, ec_category = Platform_Category\<rparr>)"
  by (simp add: ov_result_def ov_error_def ov_set_bytes_def ov_set_error_def no_error_def platform_error_def
      uint_word_of_int to_i32_mod[simplified] to_i32_id)

lemma ov_result_bytes: "ov_bytes (ov_result result bytes err t) = to_i32 (uint bytes)"
  by (simp add: ov_result_def ov_bytes_def ov_set_bytes_def)

section \<open>The completion port\<close>

text \<open>A packet of the port: a wake-up, whose \<open>OVERLAPPED\<close> is null, or an operation that completed, with
  its task, whether it succeeded, the bytes it transferred and the error otherwise.\<close>

datatype packet = Wake_Packet | Io_Packet nat bool u32 int

text \<open>Where a thread is in \<open>wake_up\<close>: outside, before \<open>PostQueuedCompletionStatus\<close>, and after it
  has failed. Where the loop is in \<open>wait\<close>: outside, in \<open>GetQueuedCompletionStatus\<close>, and before the
  reset when there was no task.\<close>

datatype waker = Waker_Out | At_Post | At_Unpost
datatype waiter = Wait_Out | In_Wait | At_Null

text \<open>\<open>io_called\<close> are the tasks called, \<open>io_arrived\<close> those whose operations completed, in order;
  \<open>io_wanted\<close> records that a thread has asked for a wake-up since the loop last returned from
  \<open>wait\<close>, \<open>io_post_failed\<close> that a post failed.\<close>

record iocp =
  io_posted :: int
  io_port :: "packet list"
  io_waker :: "nat \<Rightarrow> waker"
  io_waiter :: waiter
  io_overlapped :: "nat \<Rightarrow> overlapped"
  io_called :: "nat list"
  io_arrived :: "nat list"
  io_wanted :: bool
  io_post_failed :: bool

definition iocp_new :: iocp where
  "iocp_new = \<lparr>io_posted = 0, io_port = [], io_waker = (\<lambda>t. Waker_Out), io_waiter = Wait_Out, io_overlapped = ov_reset,
     io_called = [], io_arrived = [], io_wanted = False, io_post_failed = False\<rparr>"

text \<open>\<open>wake_up\<close>: the exchange, and what follows the call of the system when it was won.\<close>

definition wake_try :: "nat \<Rightarrow> iocp \<Rightarrow> iocp" where
  "wake_try t s =
     (if io_posted s = 0 then s\<lparr>io_posted := 1, io_waker := (io_waker s)(t := At_Post), io_wanted := True\<rparr>
      else s\<lparr>io_wanted := True\<rparr>)"

definition wake_post :: "nat \<Rightarrow> bool \<Rightarrow> iocp \<Rightarrow> iocp" where
  "wake_post t ok s =
     (if ok then s\<lparr>io_port := io_port s @ [Wake_Packet], io_waker := (io_waker s)(t := Waker_Out)\<rparr>
      else s\<lparr>io_waker := (io_waker s)(t := At_Unpost), io_post_failed := True\<rparr>)"

definition wake_unpost :: "nat \<Rightarrow> iocp \<Rightarrow> iocp" where
  "wake_unpost t s = s\<lparr>io_posted := 0, io_waker := (io_waker s)(t := Waker_Out)\<rparr>"

text \<open>\<open>wait\<close> after the call of the system: without a task the flag is reset, and a task gets its
  result and is called.\<close>

definition wait_null :: "iocp \<Rightarrow> iocp" where
  "wait_null s = s\<lparr>io_waiter := At_Null\<rparr>"

definition wait_reset :: "iocp \<Rightarrow> iocp" where
  "wait_reset s = s\<lparr>io_posted := 0, io_waiter := Wait_Out, io_wanted := False\<rparr>"

definition wait_task :: "nat \<Rightarrow> bool \<Rightarrow> u32 \<Rightarrow> int \<Rightarrow> iocp \<Rightarrow> iocp" where
  "wait_task t result bytes err s =
     s\<lparr>io_overlapped := (io_overlapped s)(t := ov_result result bytes err (io_overlapped s t)),
       io_called := io_called s @ [t], io_waiter := Wait_Out, io_wanted := False\<rparr>"

inductive iocp_step :: "iocp \<Rightarrow> iocp \<Rightarrow> bool" where
  ic_try: "io_waker s t = Waker_Out \<Longrightarrow> iocp_step s (wake_try t s)"
| ic_post: "io_waker s t = At_Post \<Longrightarrow> iocp_step s (wake_post t ok s)"
| ic_unpost: "io_waker s t = At_Unpost \<Longrightarrow> iocp_step s (wake_unpost t s)"
| ic_complete: "iocp_step s (s\<lparr>io_port := io_port s @ [Io_Packet t r n e], io_arrived := io_arrived s @ [t]\<rparr>)"
| ic_wait: "io_waiter s = Wait_Out \<Longrightarrow> iocp_step s (s\<lparr>io_waiter := In_Wait\<rparr>)"
| ic_time_out: "io_waiter s = In_Wait \<Longrightarrow> iocp_step s (wait_null s)"
| ic_woken: "io_waiter s = In_Wait \<Longrightarrow> io_port s = Wake_Packet # ps \<Longrightarrow> iocp_step s (wait_null (s\<lparr>io_port := ps\<rparr>))"
| ic_reset: "io_waiter s = At_Null \<Longrightarrow> iocp_step s (wait_reset s)"
| ic_task: "io_waiter s = In_Wait \<Longrightarrow> io_port s = Io_Packet t r n e # ps \<Longrightarrow>
    iocp_step s (wait_task t r n e (s\<lparr>io_port := ps\<rparr>))"

definition io_tasks :: "packet list \<Rightarrow> nat list" where
  "io_tasks ps = concat (map (\<lambda>p. case p of Wake_Packet \<Rightarrow> [] | Io_Packet t _ _ _ \<Rightarrow> [t]) ps)"

text \<open>A set flag is on its way to the loop: somebody is about to post, the packet is in the port, or
  the loop is about to reset the flag.\<close>

definition iocp_inv :: "iocp \<Rightarrow> bool" where
  "iocp_inv s \<longleftrightarrow>
     (\<not> io_post_failed s \<longrightarrow> (\<forall>t. io_waker s t \<noteq> At_Unpost) \<and>
        (io_posted s \<noteq> 0 \<longrightarrow> io_waiter s = At_Null \<or> Wake_Packet \<in> set (io_port s) \<or> (\<exists>t. io_waker s t = At_Post)) \<and>
        (io_wanted s \<longrightarrow> io_waiter s = At_Null \<or> Wake_Packet \<in> set (io_port s) \<or> (\<exists>t. io_waker s t = At_Post))) \<and>
     io_called s @ io_tasks (io_port s) = io_arrived s"

lemmas iocp_ops = wake_try_def wake_post_def wake_unpost_def wait_null_def wait_reset_def wait_task_def Let_def

lemma iocp_step_inv: "iocp_step s s' \<Longrightarrow> iocp_inv s \<Longrightarrow> iocp_inv s'"
proof (induction rule: iocp_step.induct)
  case (ic_post s t ok)
  thus ?case by (cases ok) (auto simp: iocp_ops iocp_inv_def io_tasks_def)
next
  case (ic_try s t)
  thus ?case by (auto simp: iocp_ops iocp_inv_def)
qed (auto simp: iocp_ops iocp_inv_def io_tasks_def)

lemma iocp_new_inv: "iocp_inv iocp_new"
  by (simp add: iocp_inv_def iocp_new_def io_tasks_def)

lemma iocp_reachable_inv: "iocp_step\<^sup>*\<^sup>* iocp_new s \<Longrightarrow> iocp_inv s"
  by (induction rule: rtranclp_induct) (auto intro: iocp_new_inv iocp_step_inv)

text \<open>C8. No wake-up is lost, under every interleaving of the threads that call \<open>wake_up\<close> with the loop
  (\<open>io/iocp.cpp\<close>), as long as no post fails: when one has asked for a wake-up since the loop last
  returned from \<open>wait\<close>, the loop waits and no thread is about to post, a wake-up is in the port, so
  that the loop will return. The operations that completed are called in their order, each once.\<close>

theorem iocp_no_lost_wake_up:
  assumes "iocp_step\<^sup>*\<^sup>* iocp_new s"
  shows "(io_wanted s \<and> \<not> io_post_failed s \<and> io_waiter s = In_Wait \<and> (\<forall>t. io_waker s t \<noteq> At_Post) \<longrightarrow>
      Wake_Packet \<in> set (io_port s)) \<and>
    io_called s @ io_tasks (io_port s) = io_arrived s"
  using iocp_reachable_inv[OF assms] by (auto simp: iocp_inv_def)

text \<open>Two threads ask for a wake-up while an operation completes: one of them posts.\<close>

lemma iocp_no_lost_wake_up_witness:
  "\<exists>s. iocp_step\<^sup>*\<^sup>* iocp_new s \<and> io_wanted s \<and> io_waiter s = In_Wait \<and> Wake_Packet \<in> set (io_port s) \<and>
     io_called s = [] \<and> io_arrived s = [9]"
proof -
  let ?a = "iocp_new\<lparr>io_waiter := In_Wait\<rparr>"
  let ?b = "wake_try 1 ?a"
  let ?c = "wake_try 2 ?b"
  let ?d = "?c\<lparr>io_port := io_port ?c @ [Io_Packet 9 True 3 0], io_arrived := io_arrived ?c @ [9]\<rparr>"
  let ?e = "wake_post 1 True ?d"
  have 1: "iocp_step iocp_new ?a" by (rule ic_wait) (simp add: iocp_new_def)
  have 2: "iocp_step ?a ?b" by (rule ic_try) (simp add: iocp_new_def)
  have 3: "iocp_step ?b ?c" by (rule ic_try) (simp add: iocp_new_def wake_try_def)
  have 4: "iocp_step ?c ?d" by (rule ic_complete)
  have 5: "iocp_step ?d ?e" by (rule ic_post) (simp add: iocp_new_def wake_try_def)
  have r: "iocp_step\<^sup>*\<^sup>* iocp_new ?e"
    using 1 2 3 4 5 by (meson converse_rtranclp_into_rtranclp rtranclp.rtrancl_refl)
  have e: "io_wanted ?e" "\<not> io_post_failed ?e" "io_waiter ?e = In_Wait" "\<forall>t. io_waker ?e t \<noteq> At_Post"
    "io_called ?e = []" "io_arrived ?e = [9]"
    by (simp_all add: iocp_new_def iocp_ops)
  show ?thesis using iocp_no_lost_wake_up[OF r] r e by blast
qed

text \<open>When the post fails the wake-ups that others left to it are lost: nobody posts, and the loop
  waits on.\<close>

theorem iocp_failed_post_loses:
  "\<exists>s. iocp_step\<^sup>*\<^sup>* iocp_new s \<and> io_wanted s \<and> io_waiter s = In_Wait \<and> io_port s = [] \<and> (\<forall>t. io_waker s t = Waker_Out)"
proof -
  let ?a = "iocp_new\<lparr>io_waiter := In_Wait\<rparr>"
  let ?b = "wake_try 1 ?a"
  let ?c = "wake_post 1 False ?b"
  let ?d = "wake_try 2 ?c"
  let ?e = "wake_unpost 1 ?d"
  have 1: "iocp_step iocp_new ?a" by (rule ic_wait) (simp add: iocp_new_def)
  have 2: "iocp_step ?a ?b" by (rule ic_try) (simp add: iocp_new_def)
  have 3: "iocp_step ?b ?c" by (rule ic_post) (simp add: iocp_new_def iocp_ops)
  have 4: "iocp_step ?c ?d" by (rule ic_try) (simp add: iocp_new_def iocp_ops)
  have 5: "iocp_step ?d ?e" by (rule ic_unpost) (simp add: iocp_new_def iocp_ops)
  have "iocp_step\<^sup>*\<^sup>* iocp_new ?e"
    using 1 2 3 4 5 by (meson converse_rtranclp_into_rtranclp rtranclp.rtrancl_refl)
  moreover have "io_wanted ?e" "io_waiter ?e = In_Wait" "io_port ?e = []" "\<forall>t. io_waker ?e t = Waker_Out"
    by (simp_all add: iocp_new_def iocp_ops)
  ultimately show ?thesis by blast
qed

end
