(* ===== verification/Iocp_Channel.thy ===== *)
theory Iocp_Channel
  imports Task_Objects Tcp_Channel
begin

text \<open>
  What the channels of Windows share (\<open>io/ip/tcp/channel_iocp.cpp\<close>, \<open>io/ip/udp/channel_iocp.cpp\<close>).
  They hand a buffer to the kernel with an \<open>OVERLAPPED\<close>, which is the kernel's until the operation
  completes; each operation under way holds a reference of the channel and one of the active count of
  its loop. The two files spell the same functions; here they are one definition over a record that
  both channels extend. The kernel and the filters of the pipeline are parameters.
\<close>

section \<open>State\<close>

text \<open>The tasks a channel gives to its loop; \<open>'m\<close> are those of one kind of channel only.\<close>

datatype 'm iocp_task = Iocp_Close | Iocp_Error error_code | Iocp_Continue | Iocp_Task 'm

text \<open>The callbacks of the filters: \<open>'o\<close> is how the channel was opened, \<open>'r\<close> what it reads.\<close>

datatype ('o, 'r) iocp_event = Ev_Opened 'o | Ev_Read 'r | Ev_Write int bool | Ev_Error error_code | Ev_Closed

text \<open>\<open>wc_receiving\<close>: the kernel owns \<open>_on_recv\<close>. \<open>wc_active\<close> is the channel's share of the active
  count, \<open>wc_trace\<close> the callbacks made, \<open>wc_continued\<close> that \<open>continue_read\<close> was called, \<open>wc_fault\<close>
  that a deleted channel or an \<open>OVERLAPPED\<close> of the kernel was used.\<close>

record ('o, 'r, 'm) iocp_chan =
  wc_state :: u32
  wc_refs :: int
  wc_open :: bool
  wc_deleted :: bool
  wc_tasks :: "'m iocp_task list"
  wc_recv :: overlapped
  wc_receiving :: bool
  wc_active :: int
  wc_calls :: nat
  wc_trace :: "('o, 'r) iocp_event list"
  wc_continued :: bool
  wc_fault :: bool

definition WSA_IO_PENDING :: int where
  "WSA_IO_PENDING = 997"

section \<open>References, bits and tasks\<close>

definition wc_touch :: "('o, 'r, 'm, 'z) iocp_chan_scheme \<Rightarrow> ('o, 'r, 'm, 'z) iocp_chan_scheme" where
  "wc_touch c = c\<lparr>wc_fault := wc_fault c \<or> wc_deleted c\<rparr>"

definition wc_retain :: "('o, 'r, 'm, 'z) iocp_chan_scheme \<Rightarrow> ('o, 'r, 'm, 'z) iocp_chan_scheme" where
  "wc_retain c = (wc_touch c)\<lparr>wc_refs := wc_refs c + 1\<rparr>"

definition wc_release :: "('o, 'r, 'm, 'z) iocp_chan_scheme \<Rightarrow> ('o, 'r, 'm, 'z) iocp_chan_scheme" where
  "wc_release c = (wc_touch c)\<lparr>wc_refs := wc_refs c - 1, wc_deleted := wc_deleted c \<or> wc_refs c - 1 = 0\<rparr>"

definition wc_bits :: "u32 \<Rightarrow> ('o, 'r, 'm, 'z) iocp_chan_scheme \<Rightarrow> bool" where
  "wc_bits b c \<longleftrightarrow> wc_state c AND b \<noteq> 0"

definition wc_fetch_or :: "u32 \<Rightarrow> ('o, 'r, 'm, 'z) iocp_chan_scheme \<Rightarrow> ('o, 'r, 'm, 'z) iocp_chan_scheme \<times> bool" where
  "wc_fetch_or b c = (c\<lparr>wc_state := wc_state c OR b\<rparr>, wc_state c AND b \<noteq> 0)"

definition wc_execute :: "'m iocp_task \<Rightarrow> ('o, 'r, 'm, 'z) iocp_chan_scheme \<Rightarrow> ('o, 'r, 'm, 'z) iocp_chan_scheme" where
  "wc_execute t c = c\<lparr>wc_tasks := wc_tasks c @ [t]\<rparr>"

definition wc_add_active :: "('o, 'r, 'm, 'z) iocp_chan_scheme \<Rightarrow> ('o, 'r, 'm, 'z) iocp_chan_scheme" where
  "wc_add_active c = c\<lparr>wc_active := wc_active c + 1\<rparr>"

definition wc_remove_active :: "('o, 'r, 'm, 'z) iocp_chan_scheme \<Rightarrow> ('o, 'r, 'm, 'z) iocp_chan_scheme" where
  "wc_remove_active c = c\<lparr>wc_active := wc_active c - 1\<rparr>"

definition wc_close :: "('o, 'r, 'm, 'z) iocp_chan_scheme \<Rightarrow> ('o, 'r, 'm, 'z) iocp_chan_scheme" where
  "wc_close c =
     (let (c1, was) = wc_fetch_or k_close_bit (wc_touch c)
      in if was then c1 else wc_execute Iocp_Close (wc_retain c1))"

text \<open>\<open>write\<close>: a one-shot task.\<close>

definition wc_post :: "'m \<Rightarrow> ('o, 'r, 'm, 'z) iocp_chan_scheme \<Rightarrow> ('o, 'r, 'm, 'z) iocp_chan_scheme" where
  "wc_post m c = wc_execute (Iocp_Task m) (wc_retain c)"

definition wc_pending_read :: "('o, 'r, 'm, 'z) iocp_chan_scheme \<Rightarrow> ('o, 'r, 'm, 'z) iocp_chan_scheme" where
  "wc_pending_read c = (wc_touch c)\<lparr>wc_state := wc_state c OR k_read_pending_bit\<rparr>"

definition wc_continue_read :: "('o, 'r, 'm, 'z) iocp_chan_scheme \<Rightarrow> ('o, 'r, 'm, 'z) iocp_chan_scheme" where
  "wc_continue_read c =
     (let old = wc_state c; c1 = (wc_touch c)\<lparr>wc_state := old XOR NOT k_read_pending_bit, wc_continued := True\<rparr>
      in if old AND k_read_pending_bit \<noteq> 0 then wc_execute Iocp_Continue (wc_retain c1) else c1)"

definition wc_error_propagation :: "error_code \<Rightarrow> ('o, 'r, 'm, 'z) iocp_chan_scheme \<Rightarrow> ('o, 'r, 'm, 'z) iocp_chan_scheme" where
  "wc_error_propagation err c =
     (let (c1, was) = wc_fetch_or k_error_bit (wc_touch c)
      in if was then c1 else wc_execute (Iocp_Error err) (wc_retain c1))"

section \<open>Callbacks\<close>

type_synonym ('o, 'r, 'm, 'z) iocp_filters =
  "('o, 'r) iocp_event \<Rightarrow> ('o, 'r, 'm, 'z) iocp_chan_scheme \<Rightarrow> ('o, 'r, 'm, 'z) iocp_chan_scheme"

definition wc_fire :: "('o, 'r, 'm, 'z) iocp_filters \<Rightarrow> ('o, 'r) iocp_event \<Rightarrow>
    ('o, 'r, 'm, 'z) iocp_chan_scheme \<Rightarrow> ('o, 'r, 'm, 'z) iocp_chan_scheme" where
  "wc_fire p e c = p e (c\<lparr>wc_trace := wc_trace c @ [e]\<rparr>)"

definition wc_fire_on_error :: "('o, 'r, 'm, 'z) iocp_filters \<Rightarrow> error_code \<Rightarrow>
    ('o, 'r, 'm, 'z) iocp_chan_scheme \<Rightarrow> ('o, 'r, 'm, 'z) iocp_chan_scheme" where
  "wc_fire_on_error p ec c = wc_fire p (Ev_Error ec) (c\<lparr>wc_open := False\<rparr>)"

definition wc_fire_on_close :: "('o, 'r, 'm, 'z) iocp_filters \<Rightarrow>
    ('o, 'r, 'm, 'z) iocp_chan_scheme \<Rightarrow> ('o, 'r, 'm, 'z) iocp_chan_scheme" where
  "wc_fire_on_close p c =
     (let (c1, was) = wc_fetch_or k_error_bit (c\<lparr>wc_open := False\<rparr>);
          c2 = (if was then c1 else wc_fire_on_error p (tdk_error Tdk_User_Abort) c1)
      in wc_release (wc_fire p Ev_Closed c2))"

definition wc_error_now :: "('o, 'r, 'm, 'z) iocp_filters \<Rightarrow> error_code \<Rightarrow>
    ('o, 'r, 'm, 'z) iocp_chan_scheme \<Rightarrow> ('o, 'r, 'm, 'z) iocp_chan_scheme" where
  "wc_error_now p err c =
     (let (c1, was) = wc_fetch_or k_error_bit c in if was then c1 else wc_fire_on_error p err c1)"

section \<open>Receiving\<close>

text \<open>\<open>rv\<close> is the kernel: the \<open>n\<close>-th call returns 0 (\<open>None\<close>) or fails with an error; a completion
  follows unless the error is another than \<open>WSA_IO_PENDING\<close>.\<close>

definition wsa_failed :: "int option \<Rightarrow> int option" where
  "wsa_failed r = (case r of None \<Rightarrow> None | Some e \<Rightarrow> if e \<noteq> WSA_IO_PENDING then Some e else None)"

definition wc_do_recv :: "(nat \<Rightarrow> int option) \<Rightarrow> ('o, 'r, 'm, 'z) iocp_filters \<Rightarrow>
    ('o, 'r, 'm, 'z) iocp_chan_scheme \<Rightarrow> ('o, 'r, 'm, 'z) iocp_chan_scheme" where
  "wc_do_recv rv p c =
     (if wc_bits (k_error_bit OR k_close_bit OR k_read_pending_bit) c then c
      else
        (let c1 = c\<lparr>wc_fault := wc_fault c \<or> wc_receiving c, wc_recv := ov_reset 0, wc_calls := Suc (wc_calls c)\<rparr>
         in case wsa_failed (rv (wc_calls c)) of
              Some e \<Rightarrow> wc_error_now p (platform_error e) c1
            | None \<Rightarrow> wc_add_active (wc_retain (c1\<lparr>wc_receiving := True\<rparr>))))"

text \<open>\<open>handle_recv\<close>: \<open>buf\<close> is what the receive buffer holds, \<open>rd\<close> makes of its bytes what the filters
  get. \<open>None\<close> is the error of a task that has none.\<close>

definition wc_handle_recv :: "(nat \<Rightarrow> int option) \<Rightarrow> ('o, 'r, 'm, 'z) iocp_filters \<Rightarrow> (u8 list \<Rightarrow> 'r) \<Rightarrow> u8 list \<Rightarrow>
    ('o, 'r, 'm, 'z) iocp_chan_scheme \<Rightarrow> ('o, 'r, 'm, 'z) iocp_chan_scheme option" where
  "wc_handle_recv rv p rd buf c =
     (if wc_bits (k_error_bit OR k_close_bit) c then Some c
      else
        let c1 = (if ov_bytes (wc_recv c) = 0
                  then c\<lparr>wc_recv := ov_set_error (tdk_error Tdk_Network_Remote_Closed) (wc_recv c)\<rparr> else c)
        in do {
          ec \<leftarrow> ov_error (wc_recv c1);
          Some (if is_error ec then wc_error_now p ec c1
                else wc_do_recv rv p (wc_fire p (Ev_Read (rd (take (nat (ov_bytes (wc_recv c1))) buf))) c1))
        })"

text \<open>The loop has taken the completion from the port, and calls \<open>_handle_recv\<close>.\<close>

definition wc_on_recv :: "(nat \<Rightarrow> int option) \<Rightarrow> ('o, 'r, 'm, 'z) iocp_filters \<Rightarrow> (u8 list \<Rightarrow> 'r) \<Rightarrow>
    bool \<Rightarrow> u32 \<Rightarrow> int \<Rightarrow> u8 list \<Rightarrow> ('o, 'r, 'm, 'z) iocp_chan_scheme \<Rightarrow> ('o, 'r, 'm, 'z) iocp_chan_scheme option" where
  "wc_on_recv rv p rd ok n err buf c = do {
     c1 \<leftarrow> wc_handle_recv rv p rd buf
       (wc_touch (c\<lparr>wc_receiving := False, wc_recv := ov_result ok n err (wc_recv c)\<rparr>));
     Some (wc_release (wc_remove_active c1)) }"

section \<open>The tasks\<close>

definition wc_handle_close :: "('o, 'r, 'm, 'z) iocp_filters \<Rightarrow>
    ('o, 'r, 'm, 'z) iocp_chan_scheme \<Rightarrow> ('o, 'r, 'm, 'z) iocp_chan_scheme" where
  "wc_handle_close p c = wc_release (wc_fire_on_close p (wc_touch c))"

definition wc_error_shot :: "('o, 'r, 'm, 'z) iocp_filters \<Rightarrow> error_code \<Rightarrow>
    ('o, 'r, 'm, 'z) iocp_chan_scheme \<Rightarrow> ('o, 'r, 'm, 'z) iocp_chan_scheme" where
  "wc_error_shot p err c = wc_release (wc_fire_on_error p err (wc_touch c))"

definition wc_continue_shot :: "(nat \<Rightarrow> int option) \<Rightarrow> ('o, 'r, 'm, 'z) iocp_filters \<Rightarrow>
    ('o, 'r, 'm, 'z) iocp_chan_scheme \<Rightarrow> ('o, 'r, 'm, 'z) iocp_chan_scheme" where
  "wc_continue_shot rv p c = wc_release (wc_do_recv rv p (wc_touch c))"

text \<open>What the loop makes of the next task; \<open>own\<close> runs those of one kind of channel.\<close>

definition wc_run_next :: "(nat \<Rightarrow> int option) \<Rightarrow> ('o, 'r, 'm, 'z) iocp_filters \<Rightarrow>
    ('m \<Rightarrow> ('o, 'r, 'm, 'z) iocp_chan_scheme \<Rightarrow> ('o, 'r, 'm, 'z) iocp_chan_scheme option) \<Rightarrow>
    ('o, 'r, 'm, 'z) iocp_chan_scheme \<Rightarrow> ('o, 'r, 'm, 'z) iocp_chan_scheme option" where
  "wc_run_next rv p own c =
     (case wc_tasks c of
        [] \<Rightarrow> Some c
      | t # ts \<Rightarrow>
          (let c1 = c\<lparr>wc_tasks := ts\<rparr>
           in case t of
                Iocp_Close \<Rightarrow> Some (wc_handle_close p c1)
              | Iocp_Error e \<Rightarrow> Some (wc_error_shot p e c1)
              | Iocp_Continue \<Rightarrow> Some (wc_continue_shot rv p c1)
              | Iocp_Task m \<Rightarrow> own m c1))"

section \<open>The life of a channel\<close>

abbreviation wc_has_error :: "('o, 'r, 'm, 'z) iocp_chan_scheme \<Rightarrow> bool" where
  "wc_has_error c \<equiv> bit (wc_state c) 0"

abbreviation wc_has_close :: "('o, 'r, 'm, 'z) iocp_chan_scheme \<Rightarrow> bool" where
  "wc_has_close c \<equiv> bit (wc_state c) 1"

fun is_error_event :: "('o, 'r) iocp_event \<Rightarrow> bool" where
  "is_error_event (Ev_Error _) = True"
| "is_error_event _ = False"

fun is_close_event :: "('o, 'r) iocp_event \<Rightarrow> bool" where
  "is_close_event Ev_Closed = True"
| "is_close_event _ = False"

fun is_error_task :: "'m iocp_task \<Rightarrow> bool" where
  "is_error_task (Iocp_Error _) = True"
| "is_error_task _ = False"

fun is_close_task :: "'m iocp_task \<Rightarrow> bool" where
  "is_close_task Iocp_Close = True"
| "is_close_task _ = False"

definition how_many :: "('a \<Rightarrow> bool) \<Rightarrow> 'a list \<Rightarrow> nat" where
  "how_many P xs = length (filter P xs)"

lemma how_many_simps [simp]:
  "how_many P [] = 0" "how_many P (x # xs) = of_bool (P x) + how_many P xs"
  "how_many P (xs @ ys) = how_many P xs + how_many P ys"
  by (simp_all add: how_many_def)

definition wc_errors :: "('o, 'r, 'm, 'z) iocp_chan_scheme \<Rightarrow> nat" where
  "wc_errors c = how_many is_error_event (wc_trace c)"

definition wc_closes :: "('o, 'r, 'm, 'z) iocp_chan_scheme \<Rightarrow> nat" where
  "wc_closes c = how_many is_close_event (wc_trace c)"

text \<open>The closes and errors made: told to the filters, under way, or posted.\<close>

definition wc_closed :: "nat \<Rightarrow> ('o, 'r, 'm, 'z) iocp_chan_scheme \<Rightarrow> nat" where
  "wc_closed z c = wc_closes c + z + how_many is_close_task (wc_tasks c)"

definition wc_failed :: "nat \<Rightarrow> ('o, 'r, 'm, 'z) iocp_chan_scheme \<Rightarrow> nat" where
  "wc_failed y c = wc_errors c + y + how_many is_error_task (wc_tasks c)"

text \<open>
  The invariant while handlers that hold \<open>r\<close> references run; \<open>z\<close> and \<open>y\<close> are 1 while the closing task
  and an error task have been taken but have not yet called the pipeline, \<open>w\<close> is 1 between
  \<open>on_closed\<close> and the release of the channel's own reference, \<open>x\<close> are the operations in the active
  count besides the receive under way. The bits of an error and a close tell whether one was made;
  \<open>continue_read\<close> sets both of a channel of which neither was made, and then no error and no close is
  ever made, unless it is called again.
\<close>

definition wc_inv :: "nat \<Rightarrow> nat \<Rightarrow> nat \<Rightarrow> nat \<Rightarrow> int \<Rightarrow> ('o, 'r, 'm, 'z) iocp_chan_scheme \<Rightarrow> bool" where
  "wc_inv r z y w x c \<longleftrightarrow>
     \<not> wc_fault c \<and>
     wc_refs c = 1 - int (wc_closes c) + int w + of_bool (wc_receiving c) + int (length (wc_tasks c) + r) \<and>
     wc_deleted c = (wc_refs c = 0) \<and> w \<le> wc_closes c \<and>
     wc_active c = of_bool (wc_receiving c) + x \<and>
     (wc_closed z c = of_bool (wc_has_close c) \<and> wc_failed y c = of_bool (wc_has_error c) \<or>
      wc_closed z c = 0 \<and> wc_failed y c = 0 \<and> wc_has_close c \<and> wc_has_error c) \<and>
     (Iocp_Continue \<in> set (wc_tasks c) \<longrightarrow> bit (wc_state c) 2)"

text \<open>Neither an error nor a close has been made.\<close>

definition wc_unended :: "('o, 'r, 'm, 'z) iocp_chan_scheme \<Rightarrow> bool" where
  "wc_unended c \<longleftrightarrow> wc_closed 0 c = 0 \<and> wc_failed 0 c = 0"

text \<open>What filters, the user and other threads do with any channel. They post the tasks of its kind
  besides. \<open>continue_read\<close> is for a channel of which no error and no close has been made (what it does
  after one is shown below).\<close>

inductive wc_api :: "('o, 'r, 'm, 'z) iocp_chan_scheme \<Rightarrow> ('o, 'r, 'm, 'z) iocp_chan_scheme \<Rightarrow> bool" where
  wa_close: "wc_api c (wc_close c)"
| wa_pending_read: "wc_api c (wc_pending_read c)"
| wa_error: "wc_api c (wc_error_propagation e c)"
| wa_continue_read: "wc_unended c \<Longrightarrow> wc_api c (wc_continue_read c)"

text \<open>A handler tells the filters an error or a close before they can call back.\<close>

definition wc_settled :: "nat \<Rightarrow> nat \<Rightarrow> ('o, 'r, 'm, 'z) iocp_chan_scheme \<Rightarrow> bool" where
  "wc_settled z y c \<longleftrightarrow> z = 0 \<and> y = 0 \<or> 0 < wc_closes c + wc_errors c"

lemma wc_settled_zero [simp]: "wc_settled 0 0 c"
  by (simp add: wc_settled_def)

lemma wc_settled_trace: "wc_trace c' = wc_trace c \<Longrightarrow> wc_settled z y c \<Longrightarrow> wc_settled z y c'"
  by (simp add: wc_settled_def wc_closes_def wc_errors_def)

lemmas wc_invs = wc_inv_def wc_closed_def wc_failed_def wc_errors_def wc_closes_def

lemma wc_fetch_or_bits:
  "snd (wc_fetch_or k_error_bit c) = wc_has_error c" "snd (wc_fetch_or k_close_bit c) = wc_has_close c"
  "fst (wc_fetch_or b c) = c\<lparr>wc_state := wc_state c OR b\<rparr>"
  by (simp_all add: wc_fetch_or_def k_error_bit_def k_close_bit_def and_bit)

lemma wc_is_bits:
  "wc_bits (k_error_bit OR k_close_bit) c = (wc_has_error c \<or> wc_has_close c)"
  "wc_bits (k_error_bit OR k_close_bit OR k_read_pending_bit) c = (wc_has_error c \<or> wc_has_close c \<or> bit (wc_state c) 2)"
  unfolding wc_bits_def and_or_bits by (simp_all add: k_error_bit_def k_close_bit_def k_read_pending_bit_def and_bit)

lemmas wc_ops = wc_close_def wc_post_def wc_pending_read_def wc_error_propagation_def wc_retain_def wc_touch_def
  wc_execute_def Let_def split_beta wc_fetch_or_bits or_bits or_bits[unfolded One_nat_def]

lemma wc_touch_live: "wc_inv r z y w x c \<Longrightarrow> 0 < wc_refs c \<Longrightarrow> wc_touch c = c"
  by (cases c) (auto simp: wc_inv_def wc_touch_def)

lemma wc_continue_bits:
  "wc_has_error (wc_continue_read c) = (\<not> wc_has_error c)" "wc_has_close (wc_continue_read c) = (\<not> wc_has_close c)"
  "bit (wc_state (wc_continue_read c)) 2 = bit (wc_state c) 2"
proof -
  have st: "wc_state (wc_continue_read c) = wc_state c XOR NOT k_read_pending_bit"
    by (simp add: wc_continue_read_def Let_def wc_execute_def wc_retain_def wc_touch_def)
  show "wc_has_error (wc_continue_read c) = (\<not> wc_has_error c)" "wc_has_close (wc_continue_read c) = (\<not> wc_has_close c)"
    "bit (wc_state (wc_continue_read c)) 2 = bit (wc_state c) 2"
    unfolding st by (simp_all add: bit_xor_iff bit_not_iff k_read_pending_bit_def bit_numeral_rec flip: numeral_2_eq_2)
qed

lemma wc_continue_fields:
  "wc_tasks (wc_continue_read c) = wc_tasks c @ (if bit (wc_state c) 2 then [Iocp_Continue] else [])"
  "wc_trace (wc_continue_read c) = wc_trace c" "wc_receiving (wc_continue_read c) = wc_receiving c"
  "wc_refs (wc_continue_read c) = wc_refs c + of_bool (bit (wc_state c) 2)" "wc_deleted (wc_continue_read c) = wc_deleted c"
  "wc_active (wc_continue_read c) = wc_active c" "wc_fault (wc_continue_read c) = (wc_fault c \<or> wc_deleted c)"
  "iocp_chan.more (wc_continue_read c) = iocp_chan.more c" "wc_continued (wc_continue_read c)"
  by (auto simp: wc_continue_read_def Let_def wc_execute_def wc_retain_def wc_touch_def k_read_pending_bit_def and_bit)

lemma wc_continue_inv:
  assumes u: "wc_unended c" "wc_settled z y c" and i: "wc_inv r z y w x c" "0 < wc_refs c"
  shows "wc_inv r z y w x (wc_continue_read c)" "0 < wc_refs (wc_continue_read c)"
proof -
  have zy: "z = 0" "y = 0" using u by (auto simp: wc_unended_def wc_settled_def wc_closed_def wc_failed_def)
  have m: "wc_closed z (wc_continue_read c) = 0" "wc_failed y (wc_continue_read c) = 0" "wc_closes (wc_continue_read c) = wc_closes c"
    using u(1) zy by (auto simp: wc_unended_def wc_closed_def wc_failed_def wc_closes_def wc_errors_def wc_continue_fields)
  show "wc_inv r z y w x (wc_continue_read c)"
    using i u(1) zy m by (auto simp: wc_inv_def wc_unended_def wc_continue_bits wc_continue_bits[unfolded One_nat_def]
        wc_continue_fields)
  show "0 < wc_refs (wc_continue_read c)" using i(2) by (simp add: wc_continue_fields)
qed

lemma wc_api_inv:
  assumes "wc_api c c'" "wc_inv r z y w x c" "0 < wc_refs c" "wc_settled z y c"
  shows "wc_inv r z y w x c' \<and> 0 < wc_refs c'"
  using assms
proof (cases rule: wc_api.cases)
  case wa_close
  thus ?thesis using assms(2,3) by (auto simp: wc_ops wc_invs)
next
  case wa_pending_read
  thus ?thesis using assms(2,3) by (auto simp: wc_ops wc_invs)
next
  case wa_error
  thus ?thesis using assms(2,3) by (auto simp: wc_ops wc_invs)
next
  case wa_continue_read
  thus ?thesis using assms wc_continue_inv by blast
qed

lemma wc_api_trace: "wc_api c c' \<Longrightarrow> wc_trace c' = wc_trace c"
  by (induction rule: wc_api.induct) (auto simp: wc_ops wc_continue_fields)

lemma wc_post_inv:
  assumes "wc_inv r z y w x c" "0 < wc_refs c"
  shows "wc_inv r z y w x (wc_post m c) \<and> 0 < wc_refs (wc_post m c)"
  using assms by (auto simp: wc_ops wc_invs)

lemma wc_release_inv:
  assumes "wc_inv (Suc r) z y w x c" "0 < wc_refs c"
  shows "wc_inv r z y w x (wc_release c)"
  using assms by (auto simp: wc_release_def wc_touch_def wc_invs)

lemma wc_made_le: "wc_inv r z y w x c \<Longrightarrow> wc_closed z c \<le> 1 \<and> wc_failed y c \<le> 1"
  unfolding wc_inv_def by (elim conjE disjE) simp_all

lemma wc_open_bits: "wc_inv r z y w x c \<Longrightarrow> wc_closes c \<le> 1 \<and> wc_errors c \<le> 1"
  using wc_made_le[of r z y w x c] by (simp add: wc_closed_def wc_failed_def)

lemma wc_release_closed:
  assumes "wc_inv r 0 y (Suc 0) x c" "0 < wc_refs c" "0 < r"
  shows "wc_inv r 0 y 0 x (wc_release c) \<and> 0 < wc_refs (wc_release c)"
proof -
  have "wc_closes c = 1" using assms(1) wc_open_bits[OF assms(1)] by (simp add: wc_inv_def)
  thus ?thesis using assms by (auto simp: wc_release_def wc_touch_def wc_invs)
qed

text \<open>A task taken from the queue: its reference is held by the handler now.\<close>

lemma wc_take_inv:
  assumes i: "wc_inv r 0 0 0 x c" and t: "wc_tasks c = t # ts"
  shows "wc_inv (Suc r) (of_bool (is_close_task t)) (of_bool (is_error_task t)) 0 x (c\<lparr>wc_tasks := ts\<rparr>)"
    "0 < wc_refs (c\<lparr>wc_tasks := ts\<rparr>)"
proof -
  let ?c = "c\<lparr>wc_tasks := ts\<rparr>"
  have "wc_closed (of_bool (is_close_task t)) ?c = wc_closed 0 c" "wc_failed (of_bool (is_error_task t)) ?c = wc_failed 0 c"
    "wc_closes ?c = wc_closes c"
    using t by (simp_all add: wc_closed_def wc_failed_def wc_closes_def wc_errors_def)
  thus "wc_inv (Suc r) (of_bool (is_close_task t)) (of_bool (is_error_task t)) 0 x ?c"
    using i t unfolding wc_inv_def by simp
  show "0 < wc_refs ?c" using i t wc_open_bits[OF i] by (simp add: wc_inv_def)
qed

section \<open>The contract with the callbacks\<close>

text \<open>
  What those who are called back do with a channel keeps the invariant. \<open>sending\<close> is the number of
  sends the kernel has, \<open>failed\<close> marks the tasks that report a send it refused; both hold a reference
  and one of the active count. They do not depend on what the channels share, besides the tasks.
  \<open>extra\<close> is the invariant of one kind of channel on its own fields: it may also depend on how many
  of those tasks there are, and on the bits of an error and a close not being set.
\<close>

definition wc_conn :: "(('o, 'r, 'm, 'z) iocp_chan_scheme \<Rightarrow> nat) \<Rightarrow> ('m iocp_task \<Rightarrow> bool) \<Rightarrow>
    nat \<Rightarrow> nat \<Rightarrow> nat \<Rightarrow> nat \<Rightarrow> nat \<Rightarrow> ('o, 'r, 'm, 'z) iocp_chan_scheme \<Rightarrow> bool" where
  "wc_conn sending failed r h z y w c \<longleftrightarrow>
     wc_inv (r + sending c) z y w (int (h + sending c + how_many failed (wc_tasks c))) c"

locale iocp_client =
  fixes sending :: "('o, 'r, 'm, 'z) iocp_chan_scheme \<Rightarrow> nat"
    and failed :: "'m iocp_task \<Rightarrow> bool"
    and extra :: "('o, 'r, 'm, 'z) iocp_chan_scheme \<Rightarrow> bool"
    and calls :: "('o, 'r, 'm, 'z) iocp_chan_scheme \<Rightarrow> ('o, 'r, 'm, 'z) iocp_chan_scheme \<Rightarrow> bool"
  assumes sending_frame: "iocp_chan.more c = iocp_chan.more c' \<Longrightarrow> sending c = sending c'"
    and failed_own: "failed t \<Longrightarrow> \<exists>m. t = Iocp_Task m"
    and extra_frame: "extra c \<Longrightarrow> iocp_chan.more c' = iocp_chan.more c \<Longrightarrow>
      how_many failed (wc_tasks c') = how_many failed (wc_tasks c) \<Longrightarrow>
      (wc_has_error c \<Longrightarrow> wc_has_error c') \<Longrightarrow> (wc_has_close c \<Longrightarrow> wc_has_close c') \<Longrightarrow>
      (wc_continued c \<Longrightarrow> wc_continued c') \<Longrightarrow> extra c'"
    and calls_inv: "calls c c' \<Longrightarrow> wc_conn sending failed r h z y w c \<Longrightarrow> extra c \<Longrightarrow> 0 < wc_refs c \<Longrightarrow>
      wc_settled z y c \<Longrightarrow> wc_conn sending failed r h z y w c' \<and> extra c' \<and> 0 < wc_refs c'"
    and calls_trace: "calls c c' \<Longrightarrow> wc_trace c' = wc_trace c"
    and calls_receiving: "calls c c' \<Longrightarrow> wc_receiving c' = wc_receiving c"
begin

abbreviation kept :: "nat \<Rightarrow> nat \<Rightarrow> nat \<Rightarrow> nat \<Rightarrow> nat \<Rightarrow> ('o, 'r, 'm, 'z) iocp_chan_scheme \<Rightarrow> bool" where
  "kept r h z y w c \<equiv> wc_conn sending failed r h z y w c \<and> extra c"

abbreviation conn :: "nat \<Rightarrow> nat \<Rightarrow> nat \<Rightarrow> nat \<Rightarrow> nat \<Rightarrow> ('o, 'r, 'm, 'z) iocp_chan_scheme \<Rightarrow> bool" where
  "conn r h z y w c \<equiv> kept r h z y w c \<and> 0 < wc_refs c"

lemma not_failed: "\<not> failed Iocp_Close" "\<not> failed (Iocp_Error e)" "\<not> failed Iocp_Continue"
  using failed_own by blast+

lemma calls_conn: "calls c c' \<Longrightarrow> conn r h z y w c \<Longrightarrow> wc_settled z y c \<Longrightarrow> conn r h z y w c'"
  using calls_inv by blast

text \<open>What changes nothing the invariant looks at.\<close>

lemma kept_cong:
  assumes "kept r h z y w c" "iocp_chan.more c' = iocp_chan.more c"
    "wc_state c' = wc_state c" "wc_refs c' = wc_refs c" "wc_deleted c' = wc_deleted c" "wc_tasks c' = wc_tasks c"
    "wc_receiving c' = wc_receiving c" "wc_active c' = wc_active c" "wc_trace c' = wc_trace c"
    "wc_fault c' = wc_fault c" "wc_continued c' = wc_continued c"
  shows "kept r h z y w c'"
  using assms sending_frame[OF assms(2)] extra_frame[of c c']
  by (simp add: wc_conn_def wc_invs)

lemma fire_conn:
  assumes p: "\<And>e c. calls c (p e c)" and i: "conn r h z y w c" "wc_settled z y c" and e: "\<not> is_error_event e" "\<not> is_close_event e"
  shows "conn r h z y w (wc_fire p e c)"
proof -
  let ?c = "c\<lparr>wc_trace := wc_trace c @ [e]\<rparr>"
  have "conn r h z y w ?c"
    using i e sending_frame[of ?c c] extra_frame[of c ?c]
    by (simp add: wc_conn_def wc_invs)
  moreover have "wc_settled z y ?c" using i(2) e by (simp add: wc_settled_def wc_closes_def wc_errors_def)
  ultimately show ?thesis unfolding wc_fire_def by (rule calls_conn[OF p])
qed

lemma fire_trace: "(\<And>e c. calls c (p e c)) \<Longrightarrow> wc_trace (wc_fire p e c) = wc_trace c @ [e]"
  using calls_trace[of "c\<lparr>wc_trace := wc_trace c @ [e]\<rparr>"] by (simp add: wc_fire_def)

lemma fire_error_conn:
  assumes p: "\<And>e c. calls c (p e c)" and i: "conn r h z (Suc y) w c"
  shows "conn r h z y w (wc_fire_on_error p e c)"
proof -
  let ?c = "c\<lparr>wc_open := False, wc_trace := wc_trace c @ [Ev_Error e]\<rparr>"
  have "conn r h z y w ?c"
    using i sending_frame[of ?c c] extra_frame[of c ?c]
    by (simp add: wc_conn_def wc_invs)
  moreover have "wc_settled z y ?c" by (simp add: wc_settled_def wc_errors_def)
  ultimately have "conn r h z y w (p (Ev_Error e) ?c)" by (rule calls_conn[OF p])
  thus ?thesis by (simp add: wc_fire_on_error_def wc_fire_def)
qed

lemma error_now_conn:
  assumes p: "\<And>e c. calls c (p e c)" and i: "conn r h z y w c"
  shows "conn r h z y w (wc_error_now p e c)"
proof (cases "wc_has_error c")
  case True
  have "wc_state c OR k_error_bit = wc_state c"
    using True by (intro bit_word_eqI) (auto simp: bit_or_iff k_error_bit_def bit_1_iff)
  thus ?thesis using True i by (simp add: wc_error_now_def split_beta Let_def wc_fetch_or_bits)
next
  case False
  let ?c = "c\<lparr>wc_state := wc_state c OR k_error_bit\<rparr>"
  have "extra ?c" by (rule extra_frame[of c]) (use i in \<open>simp_all add: or_bits or_bits[unfolded One_nat_def]\<close>)
  hence "conn r h z (Suc y) w ?c"
    using i False sending_frame[of ?c c]
    by (auto simp: wc_conn_def or_bits or_bits[unfolded One_nat_def] wc_invs)
  from fire_error_conn[OF p this] False show ?thesis
    by (simp add: wc_error_now_def split_beta Let_def wc_fetch_or_bits)
qed

lemma release_more:
  "sending (wc_release c) = sending c" "extra (wc_release c) = extra c" "wc_tasks (wc_release c) = wc_tasks c"
  by (auto simp: wc_release_def wc_touch_def intro: sending_frame elim: extra_frame)

lemma fire_close_conn:
  assumes p: "\<And>e c. calls c (p e c)" and i: "conn r h (Suc 0) y 0 c" and r: "0 < r"
  shows "conn r h 0 y 0 (wc_fire_on_close p c)"
proof -
  let ?s = "c\<lparr>wc_open := False\<rparr>"
  have s: "conn r h (Suc 0) y 0 ?s" using i kept_cong[of r h "Suc 0" y 0 c ?s] by simp
  let ?e = "wc_error_now p (tdk_error Tdk_User_Abort) ?s"
  let ?d = "?e\<lparr>wc_trace := wc_trace ?e @ [Ev_Closed]\<rparr>"
  have e: "conn r h (Suc 0) y 0 ?e" by (rule error_now_conn[OF p s])
  have "conn r h 0 y (Suc 0) ?d"
    using e sending_frame[of ?d ?e] extra_frame[of ?e ?d]
    by (auto simp: wc_conn_def wc_invs)
  moreover have "wc_settled 0 y ?d" by (simp add: wc_settled_def wc_closes_def)
  ultimately have f: "conn r h 0 y (Suc 0) (wc_fire p Ev_Closed ?e)" unfolding wc_fire_def by (rule calls_conn[OF p])
  let ?f = "wc_fire p Ev_Closed ?e"
  have eq: "wc_fire_on_close p c = wc_release ?f"
    by (simp add: wc_fire_on_close_def wc_error_now_def split_beta Let_def)
  have "wc_inv (r + sending ?f) 0 y (Suc 0) (int (h + sending ?f + how_many failed (wc_tasks ?f))) ?f"
    "0 < wc_refs ?f" "0 < r + sending ?f"
    using f r by (simp_all add: wc_conn_def)
  from wc_release_closed[OF this] f show ?thesis unfolding eq wc_conn_def by (simp add: release_more)
qed

lemma release_kept:
  assumes "conn (Suc r) h z y w c"
  shows "kept r h z y w (wc_release c)"
  using assms by (simp add: wc_conn_def wc_release_inv release_more)

lemma do_recv_conn:
  assumes p: "\<And>e c. calls c (p e c)" and i: "conn r h z y w c" and n: "\<not> wc_receiving c"
  shows "conn r h z y w (wc_do_recv rv p c)"
proof (cases "wc_bits (k_error_bit OR k_close_bit OR k_read_pending_bit) c")
  case False
  let ?c = "c\<lparr>wc_fault := wc_fault c \<or> wc_receiving c, wc_recv := ov_reset 0, wc_calls := Suc (wc_calls c)\<rparr>"
  have c: "conn r h z y w ?c" using i n kept_cong[of r h z y w c ?c] by auto
  let ?d = "wc_add_active (wc_retain (?c\<lparr>wc_receiving := True\<rparr>))"
  have "\<not> wc_fault c" "\<not> wc_deleted c" using i by (auto simp: wc_conn_def wc_inv_def)
  moreover have "sending ?d = sending c" "extra ?d"
    using i by (auto simp: wc_add_active_def wc_retain_def wc_touch_def intro: sending_frame elim: extra_frame)
  ultimately have "conn r h z y w ?d"
    using i n by (simp add: wc_conn_def wc_invs wc_add_active_def wc_retain_def wc_touch_def)
  thus ?thesis using False error_now_conn[OF p c] by (auto simp: wc_do_recv_def Let_def split: option.split)
qed (use i in \<open>simp add: wc_do_recv_def\<close>)

lemma fire_receiving: "(\<And>e c. calls c (p e c)) \<Longrightarrow> wc_receiving (wc_fire p e c) = wc_receiving c"
  using calls_receiving[of "c\<lparr>wc_trace := wc_trace c @ [e]\<rparr>"] by (simp add: wc_fire_def)

text \<open>A handler that runs holds one reference, and one of the active count when it is a completion's.\<close>

lemma remove_active_conn:
  assumes "conn r (Suc h) z y w c" shows "conn r h z y w (wc_remove_active c)"
proof -
  have "sending (wc_remove_active c) = sending c" "extra (wc_remove_active c)"
    using assms by (auto simp: wc_remove_active_def intro: sending_frame elim: extra_frame)
  thus ?thesis using assms by (simp add: wc_conn_def wc_invs wc_remove_active_def)
qed

lemma touch_conn: "conn r h z y w c \<Longrightarrow> wc_touch c = c"
  using wc_touch_live unfolding wc_conn_def by blast

lemma handle_recv_conn:
  assumes p: "\<And>e c. calls c (p e c)" and i: "conn r h 0 0 0 c" and n: "\<not> wc_receiving c"
    and h: "wc_handle_recv rv p rd buf c = Some c'"
  shows "conn r h 0 0 0 c'"
proof (cases "wc_bits (k_error_bit OR k_close_bit) c")
  case False
  let ?c = "if ov_bytes (wc_recv c) = 0
     then c\<lparr>wc_recv := ov_set_error (tdk_error Tdk_Network_Remote_Closed) (wc_recv c)\<rparr> else c"
  have c: "conn r h 0 0 0 ?c" "\<not> wc_receiving ?c" using i n kept_cong[of r h 0 0 0 c ?c] by simp_all
  let ?f = "\<lambda>bs. wc_fire p (Ev_Read bs) ?c"
  have "conn r h 0 0 0 (wc_do_recv rv p (?f bs))" for bs
    by (rule do_recv_conn[OF p fire_conn[OF p c(1)]]) (use fire_receiving[OF p] c(2) in \<open>simp_all add: wc_settled_def\<close>)
  thus ?thesis
    using h False error_now_conn[OF p c(1)] by (auto simp: wc_handle_recv_def Let_def bind_eq_Some_conv split: if_splits)
qed (use h i in \<open>simp add: wc_handle_recv_def\<close>)

lemma on_recv_kept:
  assumes p: "\<And>e c. calls c (p e c)" and i: "kept 0 0 0 0 0 c" and n: "wc_receiving c"
    and h: "wc_on_recv rv p rd ok n err buf c = Some c'"
  shows "kept 0 0 0 0 0 c'"
proof -
  let ?c = "c\<lparr>wc_receiving := False, wc_recv := ov_result ok n err (wc_recv c)\<rparr>"
  have "wc_closes c \<le> 1" using i unfolding wc_conn_def by (blast dest: wc_open_bits)
  hence c: "conn (Suc 0) (Suc 0) 0 0 0 ?c"
    using i n sending_frame[of ?c c] extra_frame[of c ?c]
    by (auto simp: wc_conn_def wc_invs)
  then obtain c1 where c1: "wc_handle_recv rv p rd buf ?c = Some c1" "c' = wc_release (wc_remove_active c1)"
    using h touch_conn[OF c] by (auto simp: wc_on_recv_def bind_eq_Some_conv)
  have "conn (Suc 0) (Suc 0) 0 0 0 c1" by (rule handle_recv_conn[OF p c _ c1(1)]) simp
  thus ?thesis using remove_active_conn release_kept c1(2) by blast
qed

text \<open>The tasks all channels have; those of one kind keep the invariant by assumption.\<close>

lemma run_next_kept:
  assumes p: "\<And>e c. calls c (p e c)" and i: "kept 0 0 0 0 0 c"
    and own: "\<And>m ts. wc_tasks c = Iocp_Task m # ts \<Longrightarrow>
        wc_conn sending failed (Suc 0) (of_bool (failed (Iocp_Task m))) 0 0 0 (c\<lparr>wc_tasks := ts\<rparr>) \<Longrightarrow>
        0 < wc_refs (c\<lparr>wc_tasks := ts\<rparr>) \<Longrightarrow> own m (c\<lparr>wc_tasks := ts\<rparr>) = Some c' \<Longrightarrow> kept 0 0 0 0 0 c'"
    and h: "wc_run_next rv p own c = Some c'"
  shows "kept 0 0 0 0 0 c'"
proof (cases "wc_tasks c")
  case Nil
  thus ?thesis using i h by (simp add: wc_run_next_def)
next
  case (Cons t ts)
  let ?c = "c\<lparr>wc_tasks := ts\<rparr>"
  have s: "sending ?c = sending c" by (rule sending_frame) simp
  have "wc_inv (sending c) 0 0 0 (int (sending c + how_many failed (wc_tasks c))) c" using i by (simp add: wc_conn_def)
  note taken = wc_take_inv[OF this Cons] and refs = wc_take_inv(2)[OF this Cons]
  from taken(1) have t: "wc_conn sending failed (Suc 0) (of_bool (failed t)) (of_bool (is_close_task t)) (of_bool (is_error_task t)) 0 ?c"
    using s Cons by (simp add: wc_conn_def ac_simps)
  have touch: "wc_touch ?c = ?c" using t refs wc_touch_live unfolding wc_conn_def by blast
  have e: "\<not> failed t \<Longrightarrow> extra ?c" using i Cons by (auto elim!: extra_frame)
  show ?thesis
  proof (cases t)
    case Iocp_Close
    hence a: "conn (Suc 0) 0 (Suc 0) 0 0 ?c" using t e refs not_failed by simp
    have "c' = wc_release (wc_fire_on_close p ?c)"
      using h Cons Iocp_Close touch by (simp add: wc_run_next_def wc_handle_close_def)
    thus ?thesis using release_kept[OF fire_close_conn[OF p a]] by simp
  next
    case (Iocp_Error err)
    hence a: "conn (Suc 0) 0 0 (Suc 0) 0 ?c" using t e refs not_failed by simp
    have "c' = wc_release (wc_fire_on_error p err ?c)"
      using h Cons Iocp_Error touch by (simp add: wc_run_next_def wc_error_shot_def)
    thus ?thesis using release_kept[OF fire_error_conn[OF p a]] by simp
  next
    case Iocp_Continue
    hence b: "bit (wc_state c) 2" using i Cons by (simp add: wc_conn_def wc_inv_def)
    hence "wc_do_recv rv p ?c = ?c" by (simp add: wc_do_recv_def wc_is_bits)
    hence "c' = wc_release ?c" using h Cons Iocp_Continue touch by (simp add: wc_run_next_def wc_continue_shot_def)
    moreover have "conn (Suc 0) 0 0 0 0 ?c" using t e refs not_failed Iocp_Continue by simp
    ultimately show ?thesis using release_kept[of 0 0 0 0 0 ?c] by blast
  next
    case (Iocp_Task m)
    thus ?thesis using t refs h Cons own[of m ts] by (simp add: wc_run_next_def)
  qed
qed

end

section \<open>Receives without bytes\<close>

text \<open>A receive that fails has no bytes, and \<open>handle_recv\<close> then overwrites its error: whatever it was,
  the user is told that the other side has closed. The same is said of an empty datagram.\<close>

lemma iocp_recv_error_masked:
  assumes "\<not> wc_bits (k_error_bit OR k_close_bit) c"
  shows "\<exists>d. wc_on_recv rv p rd ok 0 err buf c =
    Some (wc_release (wc_remove_active (wc_fire_on_error p (tdk_error Tdk_Network_Remote_Closed) d)))"
proof -
  have b: "bit (wc_state c) 0 = False" using assms by (auto simp: wc_is_bits)
  have "is_error (tdk_error Tdk_Network_Remote_Closed)" by (simp add: is_error_def tdk_error_def)
  moreover have "ov_error (ov_set_error (tdk_error Tdk_Network_Remote_Closed) x) = Some (tdk_error Tdk_Network_Remote_Closed)"
    for x by (simp add: ov_error_def ov_set_error_def tdk_error_def to_i32_def)
  moreover have "ov_bytes (ov_result ok 0 err x) = 0" for x by (simp add: ov_result_bytes to_i32_def)
  ultimately show ?thesis
    using assms b by (auto simp: wc_on_recv_def wc_handle_recv_def wc_touch_def wc_error_now_def split_beta Let_def
        wc_fetch_or_bits wc_bits_def)
qed

text \<open>After \<open>continue_read\<close> of an open channel, \<open>close\<close> posts nothing.\<close>

lemma iocp_continue_read_loses_close:
  assumes "\<not> wc_has_close c"
  shows "wc_tasks (wc_close (wc_continue_read c)) = wc_tasks (wc_continue_read c)"
proof -
  have "wc_has_close (wc_touch (wc_continue_read c))" using assms by (simp add: wc_touch_def wc_continue_bits wc_continue_bits[unfolded One_nat_def])
  thus ?thesis unfolding wc_close_def split_beta Let_def wc_fetch_or_bits by (simp add: wc_touch_def)
qed

end
