(* ===== verification/Iocp_Tcp.thy ===== *)
theory Iocp_Tcp
  imports Iocp_Channel "HOL-Library.Sublist"
begin

text \<open>
  The TCP channel of Windows (\<open>io/ip/tcp/channel_iocp.cpp\<close>): the parts of \<open>Iocp_Channel\<close> with the
  send queue. The bytes of a send are the kernel's until it completes, and stay in the queue as long.
\<close>

section \<open>State\<close>

datatype tcp_opening = Tcp_Connected | Tcp_Accepted nat

text \<open>The one-shot task of \<open>write\<close>, and \<open>_on_send\<close> queued by the channel itself when the kernel refused
  the send.\<close>

datatype tcp_shot = Tcp_Write "u8 list" | Tcp_Send_Failed

text \<open>\<open>wt_flight\<close> is what the kernel is sending, \<open>wt_wire\<close> the bytes it has sent, \<open>wt_given\<close> the messages
  given to \<open>do_write\<close>.\<close>

record iocp_tcp = "(tcp_opening, u8 list, tcp_shot) iocp_chan" +
  wt_queue :: "u8 list list"
  wt_send :: overlapped
  wt_flight :: "buffer_adapter option"
  wt_wire :: "u8 list"
  wt_given :: "u8 list list"

definition iocp_tcp_new :: iocp_tcp where
  "iocp_tcp_new =
     \<lparr>wc_state = 0, wc_refs = 0, wc_open = True, wc_deleted = False, wc_tasks = [], wc_recv = ov_reset 0,
      wc_receiving = False, wc_active = 0, wc_calls = 0, wc_trace = [], wc_continued = False, wc_fault = False,
      wt_queue = [], wt_send = ov_reset 1, wt_flight = None, wt_wire = [], wt_given = []\<rparr>"

text \<open>\<open>WSARecv\<close> and \<open>WSASend\<close>: 0, or an error.\<close>

record wsa =
  wsa_recv :: "nat \<Rightarrow> int option"
  wsa_send :: "nat \<Rightarrow> int option"

record tcp_filters =
  tf_in :: "(tcp_opening, u8 list) iocp_event \<Rightarrow> iocp_tcp \<Rightarrow> iocp_tcp"
  tf_out :: "u8 list \<Rightarrow> iocp_tcp \<Rightarrow> iocp_tcp"

section \<open>Sending\<close>

definition wt_send_remains :: "wsa \<Rightarrow> iocp_tcp \<Rightarrow> iocp_tcp" where
  "wt_send_remains k c =
     (if wc_bits (k_error_bit OR k_close_bit) c then c
      else if wt_queue c = [] then c
      else
        (let buf = fill_adapter ba_new (wt_queue c);
             c1 = (wc_add_active (wc_retain c))
               \<lparr>wc_fault := wc_fault (wc_retain c) \<or> wt_flight c \<noteq> None, wt_send := ov_reset 1, wc_calls := Suc (wc_calls c)\<rparr>
         in case wsa_failed (wsa_send k (wc_calls c)) of
              Some e \<Rightarrow> wc_execute (Iocp_Task Tcp_Send_Failed) (c1\<lparr>wt_send := ov_set_error (platform_error e) (wt_send c1)\<rparr>)
            | None \<Rightarrow> c1\<lparr>wt_flight := Some buf\<rparr>))"

definition wt_do_write :: "wsa \<Rightarrow> u8 list \<Rightarrow> iocp_tcp \<Rightarrow> iocp_tcp" where
  "wt_do_write k msg c =
     (let process = (wt_queue c = []);
          c1 = (wc_touch c)\<lparr>wt_queue := wt_queue c @ [msg], wt_given := wt_given c @ [msg]\<rparr>
      in if \<not> process then c1 else wt_send_remains k c1)"

definition wt_fire_do_write :: "tcp_filters \<Rightarrow> u8 list \<Rightarrow> iocp_tcp \<Rightarrow> iocp_tcp" where
  "wt_fire_do_write p msg c = (if wc_bits (k_error_bit OR k_close_bit) c then c else tf_out p msg c)"

text \<open>\<open>None\<close>: the error of a task that has none, or the front of an empty queue.\<close>

definition wt_handle_send :: "wsa \<Rightarrow> tcp_filters \<Rightarrow> iocp_tcp \<Rightarrow> iocp_tcp option" where
  "wt_handle_send k p c =
     (if wc_bits (k_error_bit OR k_close_bit) c then Some c
      else do {
        ec \<leftarrow> ov_error (wt_send c);
        if is_error ec then Some (wc_error_now (tf_in p) ec c)
        else do {
          let write_size = ov_bytes (wt_send c);
          q \<leftarrow> consume (wt_queue c) (nat write_size);
          let c1 = c\<lparr>wt_queue := q\<rparr>;
          let flushed = (wt_queue c1 = []);
          let c2 = wc_fire (tf_in p) (Ev_Write write_size flushed) c1;
          Some (if \<not> flushed then wt_send_remains k c2 else c2)
        }
      })"

definition wt_on_send :: "wsa \<Rightarrow> tcp_filters \<Rightarrow> iocp_tcp \<Rightarrow> iocp_tcp option" where
  "wt_on_send k p c = do {
     c1 \<leftarrow> wt_handle_send k p (wc_touch c);
     Some (wc_release (wc_remove_active c1)) }"

text \<open>A send completes: the loop has taken its packet, with the number of bytes sent, from the port.\<close>

definition wt_sent :: "wsa \<Rightarrow> tcp_filters \<Rightarrow> bool \<Rightarrow> u32 \<Rightarrow> int \<Rightarrow> iocp_tcp \<Rightarrow> iocp_tcp option" where
  "wt_sent k p ok n err c =
     wt_on_send k p (c\<lparr>wt_flight := None, wt_send := ov_result ok n err (wt_send c),
       wt_wire := wt_wire c @ take (unat n) (concat (the (wt_flight c)))\<rparr>)"

section \<open>Connection and tasks\<close>

definition wt_fire_on_connected :: "wsa \<Rightarrow> tcp_filters \<Rightarrow> iocp_tcp \<Rightarrow> iocp_tcp" where
  "wt_fire_on_connected k p c =
     wc_do_recv (wsa_recv k) (tf_in p) (wc_fire (tf_in p) (Ev_Opened Tcp_Connected) (wc_retain c))"

definition wt_fire_on_accepted :: "wsa \<Rightarrow> tcp_filters \<Rightarrow> nat \<Rightarrow> iocp_tcp \<Rightarrow> iocp_tcp" where
  "wt_fire_on_accepted k p addr c =
     wc_do_recv (wsa_recv k) (tf_in p) (wc_fire (tf_in p) (Ev_Opened (Tcp_Accepted addr)) (wc_retain c))"

fun wt_call :: "wsa \<Rightarrow> tcp_filters \<Rightarrow> tcp_shot \<Rightarrow> iocp_tcp \<Rightarrow> iocp_tcp option" where
  "wt_call k p (Tcp_Write msg) c = Some (wc_release (wt_fire_do_write p msg (wc_touch c)))"
| "wt_call k p Tcp_Send_Failed c = wt_on_send k p c"

definition wt_run_next :: "wsa \<Rightarrow> tcp_filters \<Rightarrow> iocp_tcp \<Rightarrow> iocp_tcp option" where
  "wt_run_next k p c = wc_run_next (wsa_recv k) (tf_in p) (wt_call k p) c"

definition recv_buffer_size :: nat where
  "recv_buffer_size = 4096"

text \<open>What filters and the user do with a channel; the loop runs its tasks and the completions of its
  operations. The kernel writes at most the receive buffer, and sends at most what it was given.\<close>

inductive tcp_api :: "wsa \<Rightarrow> iocp_tcp \<Rightarrow> iocp_tcp \<Rightarrow> bool" for k where
  ta_base: "wc_api c c' \<Longrightarrow> tcp_api k c c'"
| ta_write: "tcp_api k c (wc_post (Tcp_Write m) c)"
| ta_do_write: "tcp_api k c (wt_do_write k m c)"

definition tcp_filters_ok :: "wsa \<Rightarrow> tcp_filters \<Rightarrow> bool" where
  "tcp_filters_ok k p \<longleftrightarrow> (\<forall>e c. (tcp_api k)\<^sup>*\<^sup>* c (tf_in p e c)) \<and> (\<forall>m c. (tcp_api k)\<^sup>*\<^sup>* c (tf_out p m c))"

inductive tcp_step :: "wsa \<Rightarrow> tcp_filters \<Rightarrow> iocp_tcp \<Rightarrow> iocp_tcp \<Rightarrow> bool" for k p where
  ts_task: "wt_run_next k p c = Some c' \<Longrightarrow> tcp_step k p c c'"
| ts_recv: "wc_receiving c \<Longrightarrow> length bs \<le> recv_buffer_size \<Longrightarrow>
    wc_on_recv (wsa_recv k) (tf_in p) id ok (of_nat (length bs)) err bs c = Some c' \<Longrightarrow> tcp_step k p c c'"
| ts_sent: "wt_flight c = Some buf \<Longrightarrow> unat n \<le> length (concat buf) \<Longrightarrow> unat n < 2 ^ 31 \<Longrightarrow>
    wt_sent k p ok n err c = Some c' \<Longrightarrow> tcp_step k p c c'"
| ts_call: "\<not> wc_deleted c \<Longrightarrow> tcp_api k c c' \<Longrightarrow> tcp_step k p c c'"

section \<open>The invariant\<close>

definition wt_sending :: "iocp_tcp \<Rightarrow> nat" where
  "wt_sending c = of_bool (wt_flight c \<noteq> None)"

fun is_failed_send :: "tcp_shot iocp_task \<Rightarrow> bool" where
  "is_failed_send (Iocp_Task Tcp_Send_Failed) = True"
| "is_failed_send _ = False"

definition wt_off :: "iocp_tcp \<Rightarrow> bool" where
  "wt_off c \<longleftrightarrow> wc_has_error c \<or> wc_has_close c"

text \<open>\<open>continue_read\<close> opens a channel again that it has made look closed; a send that completed in
  between has left its bytes in the queue. A channel is steady when it is open and was never continued.\<close>

definition wt_steady :: "iocp_tcp \<Rightarrow> bool" where
  "wt_steady c \<longleftrightarrow> \<not> wt_off c \<and> \<not> wc_continued c"

definition wt_busy :: "bool \<Rightarrow> iocp_tcp \<Rightarrow> nat" where
  "wt_busy g c = wt_sending c + how_many is_failed_send (wc_tasks c) + of_bool g"

text \<open>One send at a time. As long as the channel is steady, what is in the queue is being sent; \<open>g\<close> marks
  the callback of a send that has left something in the queue. What was sent and what is queued are
  the messages given, in order.\<close>

definition wt_queued :: "bool \<Rightarrow> iocp_tcp \<Rightarrow> bool" where
  "wt_queued g c \<longleftrightarrow>
     wt_busy g c \<le> 1 \<and> (wt_queue c = [] \<longrightarrow> wt_busy g c = 0) \<and>
     (wt_steady c \<and> wt_queue c \<noteq> [] \<longrightarrow> wt_busy g c = 1) \<and>
     (\<forall>b. wt_flight c = Some b \<longrightarrow> prefix b (wt_queue c)) \<and>
     (how_many is_failed_send (wc_tasks c) \<noteq> 0 \<longrightarrow> ov_bytes (wt_send c) = 0) \<and>
     prefix (wt_wire c) (concat (wt_given c)) \<and>
     (wt_busy g c = 1 \<or> wt_queue c = [] \<longrightarrow> wt_wire c @ concat (wt_queue c) = concat (wt_given c))"

lemma wt_queued_same:
  assumes "wt_queued g c" "iocp_chan.more c' = iocp_chan.more c"
    "how_many is_failed_send (wc_tasks c') = how_many is_failed_send (wc_tasks c)" "wt_steady c' \<Longrightarrow> wt_steady c"
  shows "wt_queued g c'"
proof -
  have "wt_queue c' = wt_queue c \<and> wt_flight c' = wt_flight c \<and> wt_wire c' = wt_wire c \<and> wt_given c' = wt_given c \<and>
      wt_send c' = wt_send c"
    using assms(2) by (cases c; cases c') simp
  thus ?thesis using assms(1,3,4) unfolding wt_queued_def wt_busy_def wt_sending_def by auto
qed

lemma wt_queued_frame:
  assumes "wt_queued g c" "iocp_chan.more c' = iocp_chan.more c"
    "how_many is_failed_send (wc_tasks c') = how_many is_failed_send (wc_tasks c)"
    "wc_has_error c \<Longrightarrow> wc_has_error c'" "wc_has_close c \<Longrightarrow> wc_has_close c'" "wc_continued c \<Longrightarrow> wc_continued c'"
  shows "wt_queued g c'"
  by (rule wt_queued_same[OF assms(1-3)]) (use assms(4-6) in \<open>auto simp: wt_steady_def wt_off_def\<close>)

text \<open>A send when nothing else is being sent: the kernel has it, or its failure is queued.\<close>

definition wt_same :: "iocp_tcp \<Rightarrow> iocp_tcp \<Rightarrow> bool" where
  "wt_same c d \<longleftrightarrow> wc_state d = wc_state c \<and> wc_refs d = wc_refs c + 1 \<and> wc_deleted d = wc_deleted c \<and>
     wc_receiving d = wc_receiving c \<and> wc_active d = wc_active c + 1 \<and> wc_trace d = wc_trace c \<and>
     wc_fault d = (wc_fault c \<or> wc_deleted c) \<and> wt_queue d = wt_queue c \<and> wt_wire d = wt_wire c \<and> wt_given d = wt_given c"

lemma send_remains_result:
  assumes "\<not> wt_off c" "wt_queue c \<noteq> []" "wt_flight c = None"
  shows "wt_same c (wt_send_remains k c) \<and>
    (wt_flight (wt_send_remains k c) = Some (take k_buffer_size (wt_queue c)) \<and> wc_tasks (wt_send_remains k c) = wc_tasks c \<or>
     wt_flight (wt_send_remains k c) = None \<and> ov_bytes (wt_send (wt_send_remains k c)) = 0 \<and>
       wc_tasks (wt_send_remains k c) = wc_tasks c @ [Iocp_Task Tcp_Send_Failed])"
proof -
  have b: "\<not> wc_bits (k_error_bit OR k_close_bit) c" using assms(1) by (simp add: wc_is_bits wt_off_def)
  have f: "fill_adapter ba_new (wt_queue c) = take k_buffer_size (wt_queue c)"
    using fill_adapter_take[of ba_new] by (simp add: ba_new_def)
  define c1 where "c1 = (wc_add_active (wc_retain c))
    \<lparr>wc_fault := wc_fault (wc_retain c) \<or> wt_flight c \<noteq> None, wt_send := ov_reset 1, wc_calls := Suc (wc_calls c)\<rparr>"
  have e: "wt_send_remains k c = (case wsa_failed (wsa_send k (wc_calls c)) of
      Some e \<Rightarrow> wc_execute (Iocp_Task Tcp_Send_Failed) (c1\<lparr>wt_send := ov_set_error (platform_error e) (wt_send c1)\<rparr>)
    | None \<Rightarrow> c1\<lparr>wt_flight := Some (take k_buffer_size (wt_queue c))\<rparr>)"
    using b assms(2) f by (simp only: wt_send_remains_def Let_def c1_def if_False)
  have c1: "wt_same c c1" "wt_flight c1 = None" "wc_tasks c1 = wc_tasks c" "wt_send c1 = ov_reset 1"
    using assms(3) by (auto simp: wt_same_def c1_def wc_add_active_def wc_retain_def wc_touch_def)
  have z: "ov_bytes (ov_set_error x (ov_reset 1)) = 0" for x
    by (simp add: ov_bytes_def ov_set_error_def ov_reset_def to_i32_def)
  show ?thesis
    unfolding e using c1 z
    by (cases "wsa_failed (wsa_send k (wc_calls c))") (simp_all add: wc_execute_def wt_same_def)
qed

lemma send_remains_kept:
  assumes i: "wc_conn wt_sending is_failed_send r h z y w c" "0 < wc_refs c"
    and s: "wt_sending c = 0" "how_many is_failed_send (wc_tasks c) = 0"
  shows "wc_conn wt_sending is_failed_send r h z y w (wt_send_remains k c) \<and> 0 < wc_refs (wt_send_remains k c)"
proof (cases "wt_off c \<or> wt_queue c = []")
  case True
  thus ?thesis using i by (auto simp: wt_send_remains_def wt_off_def wc_is_bits)
next
  case False
  let ?d = "wt_send_remains k c"
  have n: "wt_flight c = None" using s(1) by (simp add: wt_sending_def split: if_splits)
  have "\<not> wt_off c" "wt_queue c \<noteq> []" using False by simp_all
  note r = send_remains_result[OF this n, of k]
  have live: "\<not> wc_deleted c" using i by (simp add: wc_conn_def wc_inv_def)
  have same: "wt_same c ?d" using r by blast
  hence e: "wc_errors ?d = wc_errors c" "wc_closes ?d = wc_closes c" "0 < wc_refs ?d"
    using i(2) by (simp_all add: wt_same_def wc_errors_def wc_closes_def)
  from r have "wc_conn wt_sending is_failed_send r h z y w ?d"
  proof (elim conjE disjE)
    assume "wt_flight ?d = Some (take k_buffer_size (wt_queue c))" "wc_tasks ?d = wc_tasks c"
    moreover from this have "wc_closed z ?d = wc_closed z c" "wc_failed y ?d = wc_failed y c"
      using e by (simp_all add: wc_closed_def wc_failed_def)
    ultimately show ?thesis using i s same e live unfolding wc_conn_def wc_inv_def wt_same_def wt_sending_def by simp
  next
    assume "wt_flight ?d = None" "wc_tasks ?d = wc_tasks c @ [Iocp_Task Tcp_Send_Failed]"
    moreover from this have "wc_closed z ?d = wc_closed z c" "wc_failed y ?d = wc_failed y c"
      using e by (simp_all add: wc_closed_def wc_failed_def)
    ultimately show ?thesis using i s same e live unfolding wc_conn_def wc_inv_def wt_same_def wt_sending_def by simp
  qed
  thus ?thesis using e(3) by blast
qed

lemma send_remains_queued:
  assumes s: "wt_sending c = 0" "how_many is_failed_send (wc_tasks c) = 0"
    and w: "wt_wire c @ concat (wt_queue c) = concat (wt_given c)"
  shows "wt_queued False (wt_send_remains k c)"
proof -
  have n: "wt_flight c = None" using s(1) by (simp add: wt_sending_def split: if_splits)
  have p: "prefix (wt_wire c) (concat (wt_given c))" using w by (metis prefixI)
  show ?thesis
  proof (cases "wt_off c \<or> wt_queue c = []")
    case True
    hence "wt_send_remains k c = c" by (auto simp: wt_send_remains_def wc_is_bits wt_off_def)
    thus ?thesis using s w n True p by (auto simp: wt_queued_def wt_busy_def wt_steady_def)
  next
    case False
    let ?d = "wt_send_remains k c"
    have "\<not> wt_off c" "wt_queue c \<noteq> []" using False by simp_all
    note r = send_remains_result[OF this n, of k]
    have e: "wt_queue ?d = wt_queue c" "wt_wire ?d = wt_wire c" "wt_given ?d = wt_given c"
      using r by (simp_all add: wt_same_def)
    from r show ?thesis
    proof (elim conjE disjE)
      assume 1: "wt_flight ?d = Some (take k_buffer_size (wt_queue c))" "wc_tasks ?d = wc_tasks c"
      thus ?thesis unfolding wt_queued_def wt_busy_def wt_sending_def e using s(2) w p False by (simp add: take_is_prefix)
    next
      assume 2: "wt_flight ?d = None" "ov_bytes (wt_send ?d) = 0" "wc_tasks ?d = wc_tasks c @ [Iocp_Task Tcp_Send_Failed]"
      thus ?thesis unfolding wt_queued_def wt_busy_def wt_sending_def e using s(2) w p False by simp
    qed
  qed
qed

lemma do_write_kept:
  assumes i: "wc_conn wt_sending is_failed_send r h z y w c" "wt_queued g c" "0 < wc_refs c"
  shows "wc_conn wt_sending is_failed_send r h z y w (wt_do_write k m c) \<and> wt_queued g (wt_do_write k m c) \<and>
    0 < wc_refs (wt_do_write k m c)"
proof -
  let ?c = "c\<lparr>wt_queue := wt_queue c @ [m], wt_given := wt_given c @ [m]\<rparr>"
  have t: "wc_touch c = c" using i wc_touch_live unfolding wc_conn_def by blast
  have c: "wc_conn wt_sending is_failed_send r h z y w ?c" "0 < wc_refs ?c"
    using i by (simp_all add: wc_conn_def wc_invs wt_sending_def)
  show ?thesis
  proof (cases "wt_queue c = []")
    case True
    hence e: "wt_sending ?c = 0" "how_many is_failed_send (wc_tasks ?c) = 0" "g = False"
      using i(2) by (auto simp: wt_queued_def wt_busy_def wt_sending_def)
    have "wt_wire ?c @ concat (wt_queue ?c) = concat (wt_given ?c)"
      using i(2) True by (auto simp: wt_queued_def)
    from send_remains_queued[OF e(1,2) this] send_remains_kept[OF c e(1,2)] True t e(3) show ?thesis
      by (simp add: wt_do_write_def)
  next
    case False
    hence "wt_queued g ?c" using i(2) by (auto simp: wt_queued_def wt_busy_def wt_sending_def wt_steady_def wt_off_def)
    thus ?thesis using c False t by (simp add: wt_do_write_def)
  qed
qed

lemma base_api_kept:
  assumes a: "wc_api c c'" and i: "wc_conn wt_sending is_failed_send r h z y w c" "wt_queued g c" "0 < wc_refs c" "wc_settled z y c"
  shows "wc_conn wt_sending is_failed_send r h z y w c' \<and> wt_queued g c' \<and> 0 < wc_refs c'"
proof -
  have m: "iocp_chan.more c' = iocp_chan.more c" "how_many is_failed_send (wc_tasks c') = how_many is_failed_send (wc_tasks c)"
    using a by (induction rule: wc_api.induct) (auto simp: wc_ops wc_continue_fields)
  have "wt_steady c' \<Longrightarrow> wt_steady c"
    using a by (induction rule: wc_api.induct) (auto simp: wc_ops wc_continue_fields wt_steady_def wt_off_def split: if_splits)
  note q = wt_queued_same[OF i(2) m this]
  have "wt_sending c' = wt_sending c" using m(1) by (cases c; cases c') (simp add: wt_sending_def)
  thus ?thesis using wc_api_inv[OF a] q i(1,3,4) m(2) by (simp add: wc_conn_def)
qed

lemma tcp_api_kept:
  assumes a: "tcp_api k c c'" and i: "wc_conn wt_sending is_failed_send r h z y w c" "wt_queued g c" "0 < wc_refs c" "wc_settled z y c"
  shows "wc_conn wt_sending is_failed_send r h z y w c' \<and> wt_queued g c' \<and> 0 < wc_refs c'"
  using a
proof (cases rule: tcp_api.cases)
  case ta_base
  thus ?thesis using base_api_kept i by blast
next
  case (ta_write m)
  let ?c = "wc_post (Tcp_Write m) c"
  have "wt_queued g ?c" by (rule wt_queued_frame[OF i(2)]) (auto simp: wc_ops)
  moreover have "wt_sending ?c = wt_sending c" "how_many is_failed_send (wc_tasks ?c) = how_many is_failed_send (wc_tasks c)"
    by (simp_all add: wc_ops wt_sending_def)
  ultimately show ?thesis using wc_post_inv i ta_write by (simp add: wc_conn_def)
next
  case (ta_do_write m)
  thus ?thesis using do_write_kept i by blast
qed

lemma send_remains_frame: "wc_receiving (wt_send_remains k c) = wc_receiving c" "wc_trace (wt_send_remains k c) = wc_trace c"
  by (auto simp: wt_send_remains_def wc_retain_def wc_touch_def wc_execute_def wc_add_active_def Let_def split: option.split)

lemma do_write_frame: "wc_receiving (wt_do_write k m c) = wc_receiving c" "wc_trace (wt_do_write k m c) = wc_trace c"
  by (simp_all add: wt_do_write_def Let_def wc_touch_def send_remains_frame)

lemma wc_api_receiving: "wc_api c c' \<Longrightarrow> wc_receiving c' = wc_receiving c"
  by (induction rule: wc_api.induct) (auto simp: wc_ops wc_continue_fields)

lemma tcp_api_frame:
  assumes "tcp_api k c c'" shows "wc_receiving c' = wc_receiving c" "wc_trace c' = wc_trace c"
  using assms by (induction rule: tcp_api.induct) (simp_all add: wc_api_receiving wc_api_trace do_write_frame, simp_all add: wc_ops)

lemma tcp_apis_frame: "(tcp_api k)\<^sup>*\<^sup>* c c' \<Longrightarrow> wc_receiving c' = wc_receiving c \<and> wc_trace c' = wc_trace c"
  by (induction rule: rtranclp_induct) (auto dest: tcp_api_frame)

lemma tcp_apis_kept:
  "(tcp_api k)\<^sup>*\<^sup>* c c' \<Longrightarrow> wc_conn wt_sending is_failed_send r h z y w c \<Longrightarrow> wt_queued g c \<Longrightarrow> 0 < wc_refs c \<Longrightarrow>
   wc_settled z y c \<Longrightarrow> wc_conn wt_sending is_failed_send r h z y w c' \<and> wt_queued g c' \<and> 0 < wc_refs c'"
proof (induction rule: rtranclp_induct)
  case (step a b)
  hence "wc_settled z y a" using wc_settled_trace tcp_apis_frame by blast
  thus ?case using step tcp_api_kept by blast
qed simp

interpretation wt: iocp_client wt_sending is_failed_send "wt_queued g" "(tcp_api k)\<^sup>*\<^sup>*" for g k
proof unfold_locales
  fix c c' :: iocp_tcp
  assume "iocp_chan.more c = iocp_chan.more c'"
  thus "wt_sending c = wt_sending c'" by (cases c; cases c') (simp add: wt_sending_def)
next
  fix t assume "is_failed_send t"
  thus "\<exists>m. t = Iocp_Task m" by (cases t) auto
next
  fix c c' assume "(tcp_api k)\<^sup>*\<^sup>* c c'"
  thus "wc_trace c' = wc_trace c" "wc_receiving c' = wc_receiving c" using tcp_apis_frame by blast+
next
  fix c c' r h z y w
  assume "(tcp_api k)\<^sup>*\<^sup>* c c'" "wc_conn wt_sending is_failed_send r h z y w c" "wt_queued g c" "0 < wc_refs c" "wc_settled z y c"
  thus "wc_conn wt_sending is_failed_send r h z y w c' \<and> wt_queued g c' \<and> 0 < wc_refs c'" by (rule tcp_apis_kept)
qed (rule wt_queued_frame)

section \<open>Every step keeps it\<close>

lemma tcp_filters_in: "tcp_filters_ok k p \<Longrightarrow> (tcp_api k)\<^sup>*\<^sup>* c (tf_in p e c)"
  and tcp_filters_out: "tcp_filters_ok k p \<Longrightarrow> (tcp_api k)\<^sup>*\<^sup>* c (tf_out p m c)"
  by (simp_all add: tcp_filters_ok_def)

text \<open>The send that has just completed is no longer counted; what it has sent is on the wire, and is
  still in the queue.\<close>

definition wt_idle :: "iocp_tcp \<Rightarrow> bool" where
  "wt_idle c \<longleftrightarrow> wt_sending c = 0 \<and> how_many is_failed_send (wc_tasks c) = 0 \<and> wt_queue c \<noteq> [] \<and>
     prefix (wt_wire c) (concat (wt_given c))"

definition wt_completed :: "nat \<Rightarrow> iocp_tcp \<Rightarrow> bool" where
  "wt_completed n c \<longleftrightarrow> wt_idle c \<and> n \<le> length (concat (wt_queue c)) \<and>
     wt_wire c @ drop n (concat (wt_queue c)) = concat (wt_given c)"

lemma queued_off: "wt_idle c \<Longrightarrow> wt_off c \<Longrightarrow> wt_queued False c"
  by (auto simp: wt_idle_def wt_queued_def wt_busy_def wt_steady_def wt_sending_def split: if_splits)

lemma consume_rest_frame:
  assumes "wt_completed n c"
  obtains q where "consume (wt_queue c) n = Some q"
    "wt_queued (q \<noteq> []) (c\<lparr>wt_queue := q\<rparr>)"
proof -
  have "n \<le> length (concat (wt_queue c))" using assms by (simp add: wt_completed_def)
  then obtain q where q: "consume (wt_queue c) n = Some q" "concat q = drop n (concat (wt_queue c))"
    using consume_exact by blast
  have "wt_queued (q \<noteq> []) (c\<lparr>wt_queue := q\<rparr>)"
    using assms q(2) by (auto simp: wt_completed_def wt_idle_def wt_queued_def wt_busy_def wt_sending_def split: if_splits)
  thus ?thesis using that q(1) by blast
qed

lemma handle_send_kept:
  assumes p: "tcp_filters_ok k p" and i: "wc_conn wt_sending is_failed_send r h 0 0 0 c" "0 < wc_refs c"
    and n: "wt_idle c" "\<And>ec. ov_error (wt_send c) = Some ec \<Longrightarrow> \<not> is_error ec \<Longrightarrow> wt_completed (nat (ov_bytes (wt_send c))) c"
    and h: "wt_handle_send k p c = Some c'"
  shows "wc_conn wt_sending is_failed_send r h 0 0 0 c' \<and> wt_queued False c' \<and> 0 < wc_refs c'"
proof (cases "wc_bits (k_error_bit OR k_close_bit) c")
  case True
  hence "c' = c" "wt_off c" using h by (simp_all add: wt_handle_send_def wc_is_bits wt_off_def)
  thus ?thesis using i n queued_off by blast
next
  case False
  hence on: "\<not> wt_off c" by (simp add: wc_is_bits wt_off_def)
  obtain ec where ec: "ov_error (wt_send c) = Some ec" using h False by (auto simp: wt_handle_send_def bind_eq_Some_conv)
  show ?thesis
  proof (cases "is_error ec")
    case True
    let ?m = "c\<lparr>wc_state := wc_state c OR k_error_bit\<rparr>"
    have "c' = wc_fire_on_error (tf_in p) ec ?m"
      using h False ec True on by (auto simp: wt_handle_send_def wc_error_now_def wt_off_def split_beta Let_def wc_fetch_or_bits)
    moreover have "wc_conn wt_sending is_failed_send r h 0 (Suc 0) 0 ?m"
      using i on by (auto simp: wc_conn_def wc_invs or_bits or_bits[unfolded One_nat_def]
          wt_sending_def wt_off_def)
    moreover have "wt_queued False ?m"
    proof (rule queued_off)
      show "wt_idle ?m" using n(1) by (simp add: wt_idle_def wt_sending_def)
    qed (simp add: wt_off_def or_bits)
    ultimately show ?thesis
      using wt.fire_error_conn[where p = "tf_in p" and k = k, OF tcp_filters_in[OF p]] i(2) by simp
  next
    case False2: False
    hence w: "wt_completed (nat (ov_bytes (wt_send c))) c" using n(2) ec by blast
    from consume_rest_frame[OF this] obtain q where q: "consume (wt_queue c) (nat (ov_bytes (wt_send c))) = Some q"
      "wt_queued (q \<noteq> []) (c\<lparr>wt_queue := q\<rparr>)" by blast
    let ?c = "c\<lparr>wt_queue := q\<rparr>"
    let ?f = "wc_fire (tf_in p) (Ev_Write (ov_bytes (wt_send c)) (q = [])) ?c"
    have "wc_conn wt_sending is_failed_send r h 0 0 0 ?c"
      using i by (simp add: wc_conn_def wc_invs wt_sending_def)
    hence f: "wc_conn wt_sending is_failed_send r h 0 0 0 ?f" "wt_queued (q \<noteq> []) ?f" "0 < wc_refs ?f"
      using wt.fire_conn[where p = "tf_in p" and k = k and g = "q \<noteq> []", OF tcp_filters_in[OF p], of r h 0 0 0 ?c] q(2) i(2)
      by simp_all
    have c': "c' = (if q \<noteq> [] then wt_send_remains k ?f else ?f)"
      using h False ec False2 q(1) by (auto simp: wt_handle_send_def Let_def)
    show ?thesis
    proof (cases "q = []")
      case False
      hence s: "wt_sending ?f = 0" "how_many is_failed_send (wc_tasks ?f) = 0"
        "wt_wire ?f @ concat (wt_queue ?f) = concat (wt_given ?f)"
        using f(2) by (auto simp: wt_queued_def wt_busy_def)
      thus ?thesis using send_remains_kept[OF f(1,3) s(1,2)] send_remains_queued[OF s] c' False by simp
    qed (use f c' in simp)
  qed
qed

lemma wt_on_send_kept:
  assumes p: "tcp_filters_ok k p" and i: "wc_conn wt_sending is_failed_send (Suc 0) (Suc 0) 0 0 0 c" "0 < wc_refs c"
    and n: "wt_idle c" "\<And>ec. ov_error (wt_send c) = Some ec \<Longrightarrow> \<not> is_error ec \<Longrightarrow> wt_completed (nat (ov_bytes (wt_send c))) c"
    and h: "wt_on_send k p c = Some c'"
  shows "wc_conn wt_sending is_failed_send 0 0 0 0 0 c' \<and> wt_queued False c'"
proof -
  have t: "wc_touch c = c" using i wc_touch_live unfolding wc_conn_def by blast
  then obtain c1 where c1: "wt_handle_send k p c = Some c1" "c' = wc_release (wc_remove_active c1)"
    using h by (auto simp: wt_on_send_def bind_eq_Some_conv)
  have "wc_conn wt_sending is_failed_send (Suc 0) (Suc 0) 0 0 0 c1" "wt_queued False c1" "0 < wc_refs c1"
    using handle_send_kept[OF p i n(1) _ c1(1)] n(2) by blast+
  hence "wc_conn wt_sending is_failed_send (Suc 0) 0 0 0 0 (wc_remove_active c1)" "wt_queued False (wc_remove_active c1)"
    "0 < wc_refs (wc_remove_active c1)"
    using wt.remove_active_conn[of "Suc 0" 0 0 0 0 c1 False] by simp_all
  thus ?thesis using wt.release_kept[of 0 0 0 0 0 "wc_remove_active c1" False] c1(2) by simp
qed

text \<open>A send that completed: its bytes are on the wire.\<close>

lemma sent_kept:
  assumes p: "tcp_filters_ok k p" and i: "wc_conn wt_sending is_failed_send 0 0 0 0 0 c" "wt_queued False c"
    and b: "wt_flight c = Some buf" "unat n \<le> length (concat buf)" "unat n < 2 ^ 31"
    and h: "wt_sent k p ok n err c = Some c'"
  shows "wc_conn wt_sending is_failed_send 0 0 0 0 0 c' \<and> wt_queued False c'"
proof -
  let ?c = "c\<lparr>wt_flight := None, wt_send := ov_result ok n err (wt_send c), wt_wire := wt_wire c @ take (unat n) (concat buf)\<rparr>"
  have "wc_closes c \<le> 1" using i unfolding wc_conn_def by (blast dest: wc_open_bits)
  hence c: "wc_conn wt_sending is_failed_send (Suc 0) (Suc 0) 0 0 0 ?c" "0 < wc_refs ?c"
    using i(1) b(1) unfolding wc_conn_def wc_invs wt_sending_def by simp_all
  obtain rest where q: "wt_queue c = buf @ rest" using i(2) b(1) by (auto simp: wt_queued_def prefix_def)
  have busy: "wt_busy False c = 1" "wt_queue c \<noteq> []" using i(2) b(1) by (auto simp: wt_queued_def wt_busy_def wt_sending_def)
  hence g: "wt_wire c @ concat buf @ concat rest = concat (wt_given c)" using i(2) q by (simp add: wt_queued_def)
  have "prefix (wt_wire c @ take (unat n) (concat buf)) (wt_wire c @ concat buf @ concat rest)"
    by (simp add: prefix_def) (metis append_assoc append_take_drop_id)
  hence idle: "wt_idle ?c" using busy b(1) g by (simp add: wt_idle_def wt_busy_def wt_sending_def)
  have "int (unat n) < int (2 ^ 31)" using b(3) by (simp only: of_nat_less_iff)
  hence "to_i32 (uint n) = uint n" by (intro to_i32_id) (simp_all add: order_trans[OF _ uint_ge_0])
  hence m: "nat (ov_bytes (wt_send ?c)) = unat n"
    by (simp add: ov_result_bytes)
  have "take (unat n) (concat buf) @ drop (unat n) (concat buf @ concat rest) = concat buf @ concat rest"
    using b(2) by (simp add: append_assoc[symmetric] del: append_assoc)
  hence "(wt_wire c @ take (unat n) (concat buf)) @ drop (unat n) (concat (wt_queue c)) = concat (wt_given c)"
    using g q by simp
  hence "wt_completed (unat n) ?c" using idle b(2) q by (simp add: wt_completed_def)
  thus ?thesis using wt_on_send_kept[OF p c idle] m h b(1) by (simp add: wt_sent_def)
qed

lemma wt_run_next_kept:
  assumes p: "tcp_filters_ok k p" and i: "wc_conn wt_sending is_failed_send 0 0 0 0 0 c" "wt_queued False c"
    and h: "wt_run_next k p c = Some c'"
  shows "wc_conn wt_sending is_failed_send 0 0 0 0 0 c' \<and> wt_queued False c'"
proof (rule wt.run_next_kept[where k = k, OF tcp_filters_in[OF p] _ _ h[unfolded wt_run_next_def]])
  fix m ts
  let ?c = "c\<lparr>wc_tasks := ts\<rparr>"
  assume t: "wc_tasks c = Iocp_Task m # ts"
    and c: "wc_conn wt_sending is_failed_send (Suc 0) (of_bool (is_failed_send (Iocp_Task m))) 0 0 0 ?c" "0 < wc_refs ?c"
    and o: "wt_call k p m ?c = Some c'"
  show "wc_conn wt_sending is_failed_send 0 0 0 0 0 c' \<and> wt_queued False c'"
  proof (cases m)
    case (Tcp_Write msg)
    have q: "wt_queued False ?c" by (rule wt_queued_frame[OF i(2)]) (use t Tcp_Write in simp_all)
    let ?f = "wt_fire_do_write p msg ?c"
    have "wc_touch ?c = ?c" using c wc_touch_live unfolding wc_conn_def by blast
    hence c': "c' = wc_release ?f" using o Tcp_Write by simp
    have k: "wc_conn wt_sending is_failed_send (Suc 0) 0 0 0 0 ?c \<and> wt_queued False ?c \<and> 0 < wc_refs ?c"
      using c q Tcp_Write by simp
    have "wc_conn wt_sending is_failed_send (Suc 0) 0 0 0 0 ?f \<and> wt_queued False ?f \<and> 0 < wc_refs ?f"
      using k wt.calls_inv[OF tcp_filters_out[OF p], of "Suc 0" 0 0 0 0 ?c False msg] by (simp add: wt_fire_do_write_def)
    thus ?thesis using wt.release_kept[of 0 0 0 0 0 ?f False] c' by simp
  next
    case Tcp_Send_Failed
    have s: "wt_sending c = 0" "how_many is_failed_send ts = 0" "ov_bytes (wt_send c) = 0"
      using i(2) t Tcp_Send_Failed by (auto simp: wt_queued_def wt_busy_def)
    have busy: "wt_busy False c = 1" "wt_queue c \<noteq> []" using i(2) t Tcp_Send_Failed by (auto simp: wt_queued_def wt_busy_def)
    have idle: "wt_idle ?c" using s busy i(2) by (simp add: wt_idle_def wt_sending_def wt_queued_def)
    moreover have "wt_completed 0 ?c" using idle busy(1) i(2) by (simp add: wt_completed_def wt_queued_def)
    ultimately show ?thesis using wt_on_send_kept[OF p _ c(2)] c(1) o s(3) Tcp_Send_Failed by simp
  qed
qed (use i in simp)

lemma tcp_step_kept:
  assumes p: "tcp_filters_ok k p" and s: "tcp_step k p c c'"
    and i: "wc_conn wt_sending is_failed_send 0 0 0 0 0 c" "wt_queued False c"
  shows "wc_conn wt_sending is_failed_send 0 0 0 0 0 c' \<and> wt_queued False c'"
  using s
proof (cases rule: tcp_step.cases)
  case ts_task
  thus ?thesis using wt_run_next_kept[OF p i] by blast
next
  case (ts_recv bs ok err)
  show ?thesis
    using wt.on_recv_kept[where k = k, OF tcp_filters_in[OF p] _ ts_recv(1,3), of False] i by simp
next
  case (ts_sent buf n ok err)
  thus ?thesis using sent_kept[OF p i] by blast
next
  case ts_call
  have "0 < wc_refs c" using i(1) ts_call(1) wc_open_bits unfolding wc_conn_def by (fastforce simp: wc_inv_def)
  thus ?thesis using tcp_api_kept[OF ts_call(2) i] by simp
qed

lemma accepted_kept:
  assumes p: "tcp_filters_ok k p"
  shows "wc_conn wt_sending is_failed_send 0 0 0 0 0 (wt_fire_on_accepted k p addr iocp_tcp_new) \<and>
    wt_queued False (wt_fire_on_accepted k p addr iocp_tcp_new)"
proof -
  let ?c = "wc_retain iocp_tcp_new"
  let ?f = "wc_fire (tf_in p) (Ev_Opened (Tcp_Accepted addr)) ?c"
  have c: "wc_conn wt_sending is_failed_send 0 0 0 0 0 ?c \<and> wt_queued False ?c \<and> 0 < wc_refs ?c" "\<not> wc_receiving ?c"
    by (simp_all add: wc_conn_def wc_invs wc_retain_def wc_touch_def iocp_tcp_new_def
        wt_sending_def wt_queued_def wt_busy_def)
  have "wc_conn wt_sending is_failed_send 0 0 0 0 0 ?f \<and> wt_queued False ?f \<and> 0 < wc_refs ?f"
    using wt.fire_conn[where k = k and g = False, OF tcp_filters_in[OF p], of 0 0 0 0 0 ?c] c by simp
  moreover have "\<not> wc_receiving ?f" using wt.fire_receiving[OF tcp_filters_in[OF p]] c(2) by simp
  ultimately show ?thesis
    using wt.do_recv_conn[where k = k and g = False, OF tcp_filters_in[OF p], of 0 0 0 0 0 ?f]
    by (simp add: wt_fire_on_accepted_def)
qed

lemma wt_reachable_kept:
  assumes p: "tcp_filters_ok k p" and r: "(tcp_step k p)\<^sup>*\<^sup>* (wt_fire_on_accepted k p addr iocp_tcp_new) c"
  shows "wc_conn wt_sending is_failed_send 0 0 0 0 0 c \<and> wt_queued False c"
  using r
proof (induction rule: rtranclp_induct)
  case base
  show ?case by (rule accepted_kept[OF p])
next
  case (step c c')
  thus ?case using tcp_step_kept[OF p] by blast
qed

text \<open>A channel with filters that pass everything on, over a system that accepts every operation.\<close>

definition wsa_accepts :: wsa where
  "wsa_accepts = \<lparr>wsa_recv = \<lambda>_. None, wsa_send = \<lambda>_. None\<rparr>"

definition plain_filters :: tcp_filters where
  "plain_filters = \<lparr>tf_in = \<lambda>e c. c, tf_out = wt_do_write wsa_accepts\<rparr>"

lemma plain_filters_ok: "tcp_filters_ok wsa_accepts plain_filters"
  by (auto simp: tcp_filters_ok_def plain_filters_def intro: ta_do_write)

abbreviation wt_accepted :: iocp_tcp where
  "wt_accepted \<equiv> wt_fire_on_accepted wsa_accepts plain_filters 7 iocp_tcp_new"

lemmas wt_eval = wt_fire_on_accepted_def wc_fire_def plain_filters_def wsa_accepts_def iocp_tcp_new_def wc_retain_def
  wc_touch_def wc_do_recv_def wc_bits_def wsa_failed_def wc_add_active_def wt_do_write_def wt_send_remains_def
  wt_sent_def wt_on_send_def wt_handle_send_def wc_release_def wc_remove_active_def ov_error_def ov_bytes_def ov_result_def
  ov_set_error_def ov_set_bytes_def ov_reset_def is_error_def no_error_def platform_error_def ba_new_def to_i32_def
  k_error_bit_def k_close_bit_def k_read_pending_bit_def k_buffer_size_def ba_push_back_def ba_count_def

text \<open>C5. The life of a TCP channel of Windows (\<open>channel_iocp.cpp\<close>): in every run, with filters and users
  that keep to the channel's operations, and call \<open>continue_read\<close> only while no error and no close has
  been made or posted (what it does later is \<open>iocp_continue_read_uses_deleted\<close>), it is never used after it
  has deleted itself, and hands no
  \<open>OVERLAPPED\<close> to the kernel that the kernel still has; one error and one close are reported at most;
  its share of the active count of the loop is the operations under way; and when it deletes itself
  the kernel has none of its buffers.\<close>

theorem iocp_tcp_lifecycle:
  assumes "tcp_filters_ok k p" "(tcp_step k p)\<^sup>*\<^sup>* (wt_fire_on_accepted k p addr iocp_tcp_new) c"
  shows "\<not> wc_fault c \<and> wc_errors c \<le> 1 \<and> wc_closes c \<le> 1 \<and>
    wc_active c = of_bool (wc_receiving c) + int (wt_sending c + how_many is_failed_send (wc_tasks c)) \<and>
    (wc_deleted c \<longleftrightarrow> wc_closes c = 1 \<and> wc_tasks c = [] \<and> \<not> wc_receiving c \<and> wt_flight c = None)"
proof -
  have "wc_conn wt_sending is_failed_send 0 0 0 0 0 c \<and> wt_queued False c"
    by (rule wt_reachable_kept[OF assms])
  hence i: "wc_inv (wt_sending c) 0 0 0 (int (wt_sending c + how_many is_failed_send (wc_tasks c))) c"
    by (simp add: wc_conn_def)
  note b = wc_open_bits[OF i]
  have "wc_refs c = 0 \<longleftrightarrow> wc_closes c = 1 \<and> wc_tasks c = [] \<and> \<not> wc_receiving c \<and> wt_flight c = None"
    using i b by (cases "wc_tasks c") (auto simp: wc_inv_def wt_sending_def split: if_splits)
  thus ?thesis using i b by (simp add: wc_inv_def)
qed

theorem iocp_tcp_lifecycle_witness:
  "\<exists>c. (tcp_step wsa_accepts plain_filters)\<^sup>*\<^sup>* wt_accepted c \<and> wc_closes c = 1 \<and> wc_deleted c \<and> \<not> wc_fault c \<and>
     wc_active c = 0 \<and> wc_trace c = [Ev_Opened (Tcp_Accepted 7), Ev_Error (tdk_error Tdk_User_Abort), Ev_Closed]"
proof -
  let ?s = "tcp_step wsa_accepts plain_filters"
  let ?a = "wc_close wt_accepted"
  obtain b where b: "wt_run_next wsa_accepts plain_filters ?a = Some b"
    "wc_receiving b" "wc_refs b = 1" "wc_tasks b = []" "wc_bits (k_error_bit OR k_close_bit) b"
    "wc_trace b = [Ev_Opened (Tcp_Accepted 7), Ev_Error (tdk_error Tdk_User_Abort), Ev_Closed]" "\<not> wc_deleted b"
    by (simp add: wt_eval wt_run_next_def wc_run_next_def wc_close_def wc_fetch_or_def wc_execute_def wc_handle_close_def
        wc_fire_on_close_def wc_fire_on_error_def)
  obtain c where c: "wc_on_recv (wsa_recv wsa_accepts) (tf_in plain_filters) id False (of_nat (length [])) 995 [] b = Some c"
    "wc_trace c = wc_trace b" "wc_deleted c"
    using b by (simp add: wc_on_recv_def wc_handle_recv_def wc_touch_def wc_release_def wc_remove_active_def wc_bits_def)
  have "?s wt_accepted ?a" by (intro ts_call ta_base wa_close) (simp add: wt_eval)
  moreover have "?s ?a b" by (rule ts_task[OF b(1)])
  moreover have "?s b c" using c(1) by (intro ts_recv[OF b(2), where bs = "[]"]) simp_all
  ultimately have r: "?s\<^sup>*\<^sup>* wt_accepted c" by (meson converse_rtranclp_into_rtranclp rtranclp.rtrancl_refl)
  have "wc_tasks c = []" "\<not> wc_receiving c" "wt_flight c = None" "wc_closes c = 1" "\<not> wc_fault c"
    using iocp_tcp_lifecycle[OF plain_filters_ok r] c(3) by simp_all
  moreover have "wc_active c = 0"
    using iocp_tcp_lifecycle[OF plain_filters_ok r] calculation by (simp add: wt_sending_def)
  ultimately show ?thesis using r c(2,3) b(6) by auto
qed

text \<open>C13. What a TCP channel of Windows puts on the wire is always a beginning of the messages given to
  \<open>do_write\<close>, in their order, also after partial sends; as long as it is open, and \<open>continue_read\<close> was
  not called, the rest is in its queue, and one send is under way, or about to be reported, whenever
  there is a rest.\<close>

theorem iocp_tcp_wire:
  assumes "tcp_filters_ok k p" "(tcp_step k p)\<^sup>*\<^sup>* (wt_fire_on_accepted k p addr iocp_tcp_new) c"
  shows "prefix (wt_wire c) (concat (wt_given c)) \<and>
    (\<not> wt_off c \<and> \<not> wc_continued c \<longrightarrow> wt_wire c @ concat (wt_queue c) = concat (wt_given c) \<and>
       (wt_queue c \<noteq> [] \<longrightarrow> wt_flight c \<noteq> None \<or> Iocp_Task Tcp_Send_Failed \<in> set (wc_tasks c)))"
proof -
  have "wt_queued False c" using wt_reachable_kept[OF assms] by blast
  moreover have "how_many is_failed_send ts \<noteq> 0 \<Longrightarrow> Iocp_Task Tcp_Send_Failed \<in> set ts" for ts
    by (induction ts) (auto elim!: is_failed_send.elims split: if_splits)
  ultimately show ?thesis by (cases "wt_flight c = None") (auto simp: wt_queued_def wt_busy_def wt_steady_def wt_sending_def)
qed

theorem iocp_tcp_wire_witness:
  "\<exists>c. (tcp_step wsa_accepts plain_filters)\<^sup>*\<^sup>* wt_accepted c \<and> wt_wire c = [1, 2] \<and> wt_queue c = [[3]] \<and>
     wt_flight c = Some [[3]] \<and> prefix (wt_wire c) (concat (wt_given c)) \<and>
     wt_wire c @ concat (wt_queue c) = concat (wt_given c)"
proof -
  let ?s = "tcp_step wsa_accepts plain_filters"
  let ?a = "wt_do_write wsa_accepts [1, 2, 3] wt_accepted"
  obtain b where b: "wt_sent wsa_accepts plain_filters True 2 0 ?a = Some b"
    "wt_wire b = [1, 2]" "wt_queue b = [[3]]" "wt_flight b = Some [[3]]" "wc_state b = 0" "\<not> wc_continued b"
    by (simp add: wt_eval)
  have "?s wt_accepted ?a" by (intro ts_call ta_do_write) (simp add: wt_eval)
  moreover have "?s ?a b" by (rule ts_sent[where buf = "[[1, 2, 3]]", OF _ _ _ b(1)]) (simp_all add: wt_eval)
  ultimately have r: "?s\<^sup>*\<^sup>* wt_accepted b" by (meson converse_rtranclp_into_rtranclp rtranclp.rtrancl_refl)
  have "\<not> wt_off b" using b(5) by (simp add: wt_off_def)
  thus ?thesis using iocp_tcp_wire[OF plain_filters_ok r] r b by blast
qed

section \<open>What the code does besides\<close>

text \<open>\<open>do_write\<close> of an empty message: the send completes with no bytes, nothing is removed from the
  queue, and the channel sends it again, forever.\<close>

lemma iocp_empty_message_spins:
  assumes "\<not> wt_off c" "wt_queue c = [[]]" "wt_flight c = Some [[]]" "wsa_send k (wc_calls c) = None"
    "\<And>e c. tf_in p e c = c"
  shows "\<exists>c'. wt_sent k p True 0 0 c = Some c' \<and> \<not> wt_off c' \<and> wt_queue c' = [[]] \<and> wt_flight c' = Some [[]] \<and>
    wc_calls c' = Suc (wc_calls c)"
proof -
  have "wc_state c AND 3 = 0" using assms(1) wc_is_bits(1)[of c] by (simp add: wt_off_def wc_bits_def k_error_bit_def k_close_bit_def)
  thus ?thesis
    using assms by (simp add: wt_eval wt_off_def)
qed

text \<open>\<open>continue_read\<close> flips all bits but the one it means: the bit of a close that was posted is
  cleared, \<open>close\<close> posts the task a second time, and the channel that both tasks release is used
  after it was deleted.\<close>

lemma iocp_continue_read_uses_deleted:
  "case wt_run_next wsa_accepts plain_filters (wc_close (wc_continue_read (wc_close wt_accepted))) of
     None \<Rightarrow> False
   | Some b \<Rightarrow>
       (case wt_run_next wsa_accepts plain_filters b of
          None \<Rightarrow> False
        | Some d \<Rightarrow> wc_closes d = 2 \<and> wc_deleted d \<and> wc_receiving d)"
  by (simp add: wt_eval wt_run_next_def wc_run_next_def wc_close_def wc_continue_read_def wc_fetch_or_def wc_execute_def
      wc_handle_close_def wc_fire_on_close_def wc_fire_on_error_def wc_closes_def)

end
