(* ===== verification/Iocp_Udp.thy ===== *)
theory Iocp_Udp
  imports Iocp_Channel Address
begin

text \<open>
  The UDP channel of Windows (\<open>io/ip/udp/channel_iocp.cpp\<close>): the parts of \<open>Iocp_Channel\<close>, with
  datagrams that are sent at once. The address a datagram came from is written by the kernel when
  the receive completes.
\<close>

section \<open>State\<close>

datatype udp_shot = Udp_Write address "u8 list"

text \<open>\<open>wu_sent\<close> is what the kernel has taken.\<close>

record iocp_udp = "(unit, address \<times> u8 list, udp_shot) iocp_chan" +
  wu_sent :: "(address \<times> u8 list) list"

definition iocp_udp_new :: iocp_udp where
  "iocp_udp_new =
     \<lparr>wc_state = 0, wc_refs = 0, wc_open = True, wc_deleted = False, wc_tasks = [], wc_recv = ov_reset 0,
      wc_receiving = False, wc_active = 0, wc_calls = 0, wc_trace = [], wc_continued = False, wc_fault = False, wu_sent = []\<rparr>"

text \<open>\<open>WSARecvFrom\<close> and \<open>WSASendTo\<close>: 0, or an error.\<close>

record wsa_from =
  wsa_recvfrom :: "nat \<Rightarrow> int option"
  wsa_sendto :: "nat \<Rightarrow> int option"

record wu_filters =
  uf_in :: "(unit, address \<times> u8 list) iocp_event \<Rightarrow> iocp_udp \<Rightarrow> iocp_udp"
  uf_out :: "address \<Rightarrow> u8 list \<Rightarrow> iocp_udp \<Rightarrow> iocp_udp"

section \<open>Operations\<close>

text \<open>\<open>do_write\<close>: the call has no \<open>OVERLAPPED\<close>, so every error of it is an error of the channel.\<close>

definition wu_do_write :: "wsa_from \<Rightarrow> address \<Rightarrow> u8 list \<Rightarrow> iocp_udp \<Rightarrow> iocp_udp" where
  "wu_do_write k addr msg c =
     (if wc_bits (k_error_bit OR k_close_bit) c then c
      else
        (let c1 = (wc_touch c)\<lparr>wc_calls := Suc (wc_calls c)\<rparr>
         in case wsa_sendto k (wc_calls c) of
              Some e \<Rightarrow> wc_error_propagation (platform_error e) c1
            | None \<Rightarrow> c1\<lparr>wu_sent := wu_sent c1 @ [(addr, msg)]\<rparr>))"

definition wu_fire_do_write :: "wu_filters \<Rightarrow> address \<Rightarrow> u8 list \<Rightarrow> iocp_udp \<Rightarrow> iocp_udp" where
  "wu_fire_do_write p addr msg c =
     (if wc_bits (k_error_bit OR k_close_bit) c then c else uf_out p addr msg c)"

definition wu_fire_on_open :: "wsa_from \<Rightarrow> wu_filters \<Rightarrow> iocp_udp \<Rightarrow> iocp_udp" where
  "wu_fire_on_open k p c =
     wc_do_recv (wsa_recvfrom k) (uf_in p) (wc_fire (uf_in p) (Ev_Opened ()) (wc_retain c))"

text \<open>\<open>_handle_recv\<close>: \<open>from\<close> is \<open>_recv_addr\<close> as the kernel has left it, \<open>buf\<close> the buffer.\<close>

definition wu_on_recv :: "wsa_from \<Rightarrow> wu_filters \<Rightarrow> bool \<Rightarrow> u32 \<Rightarrow> int \<Rightarrow> address \<Rightarrow> u8 list \<Rightarrow> iocp_udp \<Rightarrow> iocp_udp option" where
  "wu_on_recv k p ok n err addr buf c =
     wc_on_recv (wsa_recvfrom k) (uf_in p) (\<lambda>bs. (addr, bs)) ok n err buf c"

fun wu_call :: "wu_filters \<Rightarrow> udp_shot \<Rightarrow> iocp_udp \<Rightarrow> iocp_udp option" where
  "wu_call p (Udp_Write addr msg) c = Some (wc_release (wu_fire_do_write p addr msg (wc_touch c)))"

definition wu_run_next :: "wsa_from \<Rightarrow> wu_filters \<Rightarrow> iocp_udp \<Rightarrow> iocp_udp option" where
  "wu_run_next k p c = wc_run_next (wsa_recvfrom k) (uf_in p) (wu_call p) c"

definition wu_mtu :: nat where
  "wu_mtu = 1440"

inductive wu_api :: "wsa_from \<Rightarrow> iocp_udp \<Rightarrow> iocp_udp \<Rightarrow> bool" for k where
  ua_base: "wc_api c c' \<Longrightarrow> wu_api k c c'"
| ua_write: "wu_api k c (wc_post (Udp_Write a m) c)"
| ua_do_write: "wu_api k c (wu_do_write k a m c)"

definition wu_filters_ok :: "wsa_from \<Rightarrow> wu_filters \<Rightarrow> bool" where
  "wu_filters_ok k p \<longleftrightarrow> (\<forall>e c. (wu_api k)\<^sup>*\<^sup>* c (uf_in p e c)) \<and> (\<forall>a m c. (wu_api k)\<^sup>*\<^sup>* c (uf_out p a m c))"

text \<open>A datagram that completes has at most the bytes of the buffer.\<close>

inductive wu_step :: "wsa_from \<Rightarrow> wu_filters \<Rightarrow> iocp_udp \<Rightarrow> iocp_udp \<Rightarrow> bool" for k p where
  us_task: "wu_run_next k p c = Some c' \<Longrightarrow> wu_step k p c c'"
| us_recv: "wc_receiving c \<Longrightarrow> length bs \<le> wu_mtu \<Longrightarrow>
    wu_on_recv k p ok (of_nat (length bs)) err addr bs c = Some c' \<Longrightarrow> wu_step k p c c'"
| us_call: "\<not> wc_deleted c \<Longrightarrow> wu_api k c c' \<Longrightarrow> wu_step k p c c'"

section \<open>The life of the channel\<close>

text \<open>The kernel keeps nothing of a datagram that was sent: only the receive is ever under way.\<close>

definition wu_sending :: "iocp_udp \<Rightarrow> nat" where
  "wu_sending c = 0"

definition wu_failed :: "udp_shot iocp_task \<Rightarrow> bool" where
  "wu_failed t = False"

lemma wu_conn: "wc_conn wu_sending wu_failed r h z y w c = wc_inv r z y w (int h) c"
  by (simp add: wc_conn_def wu_sending_def wu_failed_def how_many_def)

lemma wu_send_inv:
  assumes "wc_inv r z y w x c" "0 < wc_refs c" "wc_settled z y c"
  shows "wc_inv r z y w x (wu_do_write k a m c) \<and> 0 < wc_refs (wu_do_write k a m c)"
proof (cases "wc_bits (k_error_bit OR k_close_bit) c")
  case False
  let ?c = "c\<lparr>wc_calls := Suc (wc_calls c)\<rparr>"
  have t: "wc_touch c = c" using assms wc_touch_live by blast
  have c: "wc_inv r z y w x ?c" "0 < wc_refs ?c" "wc_settled z y ?c"
    using assms by (simp_all add: wc_invs wc_settled_def)
  have "wc_inv r z y w x (?c\<lparr>wu_sent := s\<rparr>)" for s
    using c by (simp add: wc_invs)
  thus ?thesis using False t c wc_api_inv[OF wa_error c] by (simp add: wu_do_write_def Let_def split: option.split)
qed (use assms in \<open>simp add: wu_do_write_def\<close>)

lemma udp_api_inv:
  assumes "wu_api k c c'" "wc_inv r z y w x c" "0 < wc_refs c" "wc_settled z y c"
  shows "wc_inv r z y w x c' \<and> 0 < wc_refs c'"
  using assms by (cases rule: wu_api.cases) (simp_all add: wc_api_inv wc_post_inv wu_send_inv)

lemma udp_api_trace: "wu_api k c c' \<Longrightarrow> wc_trace c' = wc_trace c"
  by (induction rule: wu_api.induct) (auto simp: wc_api_trace wc_ops wu_do_write_def split: option.split)

lemma udp_api_receiving: "wu_api k c c' \<Longrightarrow> wc_receiving c' = wc_receiving c"
proof (induction rule: wu_api.induct)
  case (ua_base c c')
  thus ?case by (induction rule: wc_api.induct) (auto simp: wc_ops wc_continue_fields)
qed (auto simp: wc_ops wu_do_write_def split: option.split)

lemma udp_apis_trace: "(wu_api k)\<^sup>*\<^sup>* c c' \<Longrightarrow> wc_trace c' = wc_trace c"
  by (induction rule: rtranclp_induct) (auto dest: udp_api_trace)

lemma udp_apis_inv:
  "(wu_api k)\<^sup>*\<^sup>* c c' \<Longrightarrow> wc_inv r z y w x c \<Longrightarrow> 0 < wc_refs c \<Longrightarrow> wc_settled z y c \<Longrightarrow>
   wc_inv r z y w x c' \<and> 0 < wc_refs c'"
proof (induction rule: rtranclp_induct)
  case (step a b)
  hence "wc_settled z y a" using wc_settled_trace[OF udp_apis_trace] by blast
  thus ?case using step udp_api_inv by blast
qed simp

interpretation wu: iocp_client wu_sending wu_failed "\<lambda>_. True" "(wu_api k)\<^sup>*\<^sup>*" for k
proof unfold_locales
  fix c c' r h z y w
  assume "(wu_api k)\<^sup>*\<^sup>* c c'" "wc_conn wu_sending wu_failed r h z y w c" "0 < wc_refs c" "wc_settled z y c"
  thus "wc_conn wu_sending wu_failed r h z y w c' \<and> True \<and> 0 < wc_refs c'"
    using udp_apis_inv by (simp add: wu_conn)
next
  fix c c' assume "(wu_api k)\<^sup>*\<^sup>* c c'"
  thus "wc_receiving c' = wc_receiving c" by (induction rule: rtranclp_induct) (auto dest: udp_api_receiving)
qed (simp_all add: wu_sending_def wu_failed_def udp_apis_trace)

lemma wu_filters_in: "wu_filters_ok k p \<Longrightarrow> (wu_api k)\<^sup>*\<^sup>* c (uf_in p e c)"
  and wu_filters_out: "wu_filters_ok k p \<Longrightarrow> (wu_api k)\<^sup>*\<^sup>* c (uf_out p a m c)"
  by (simp_all add: wu_filters_ok_def)

lemma wu_run_next_inv:
  assumes p: "wu_filters_ok k p" and i: "wc_inv 0 0 0 0 0 c" and h: "wu_run_next k p c = Some c'"
  shows "wc_inv 0 0 0 0 0 c'"
proof -
  have "wc_conn wu_sending wu_failed 0 0 0 0 0 c' \<and> True"
  proof (rule wu.run_next_kept[where k = k, OF wu_filters_in[OF p] _ _ h[unfolded wu_run_next_def]])
    fix m ts
    let ?c = "c\<lparr>wc_tasks := ts\<rparr>"
    assume c: "wc_conn wu_sending wu_failed (Suc 0) (of_bool (wu_failed (Iocp_Task m))) 0 0 0 ?c" "0 < wc_refs ?c"
      and o: "wu_call p m ?c = Some c'"
    have i1: "wc_inv (Suc 0) 0 0 0 0 ?c" using c(1) by (simp add: wu_conn wu_failed_def)
    obtain a b where m: "m = Udp_Write a b" by (cases m)
    let ?f = "wu_fire_do_write p a b ?c"
    have c': "c' = wc_release ?f" using o m wc_touch_live[OF i1 c(2)] by simp
    have "wc_inv (Suc 0) 0 0 0 0 ?f \<and> 0 < wc_refs ?f"
      using wu.calls_inv[OF wu_filters_out[OF p], of "Suc 0" 0 0 0 0 ?c a b] i1 c(2) by (simp add: wu_fire_do_write_def wu_conn)
    thus "wc_conn wu_sending wu_failed 0 0 0 0 0 c' \<and> True" using wc_release_inv[of 0 0 0 0 0 ?f] c' by (simp add: wu_conn)
  qed (use i in \<open>simp add: wu_conn\<close>)
  thus ?thesis by (simp add: wu_conn)
qed

lemma wu_step_inv:
  assumes p: "wu_filters_ok k p" and s: "wu_step k p c c'" and i: "wc_inv 0 0 0 0 0 c"
  shows "wc_inv 0 0 0 0 0 c'"
  using s
proof (cases rule: wu_step.cases)
  case us_task
  thus ?thesis using wu_run_next_inv[OF p i] by blast
next
  case (us_recv bs ok err addr)
  show ?thesis
    using wu.on_recv_kept[where k = k, OF wu_filters_in[OF p] _ us_recv(1) us_recv(3)[unfolded wu_on_recv_def]] i
    by (simp add: wu_conn)
next
  case us_call
  have "0 < wc_refs c" using i us_call(1) wc_open_bits[OF i] by (auto simp: wc_inv_def)
  thus ?thesis using udp_api_inv[OF us_call(2) i] by simp
qed

lemma wu_opened_inv:
  assumes p: "wu_filters_ok k p"
  shows "wc_inv 0 0 0 0 0 (wu_fire_on_open k p iocp_udp_new)"
proof -
  let ?c = "wc_retain iocp_udp_new"
  let ?f = "wc_fire (uf_in p) (Ev_Opened ()) ?c"
  have c: "wc_conn wu_sending wu_failed 0 0 0 0 0 ?c" "0 < wc_refs ?c" "\<not> wc_receiving ?c"
    by (simp_all add: wu_conn wc_invs wc_retain_def wc_touch_def iocp_udp_new_def)
  have "wc_conn wu_sending wu_failed 0 0 0 0 0 ?f \<and> 0 < wc_refs ?f"
    using wu.fire_conn[where k = k, OF wu_filters_in[OF p], of 0 0 0 0 0 ?c] c by simp
  moreover have "\<not> wc_receiving ?f" using wu.fire_receiving[OF wu_filters_in[OF p]] c(3) by simp
  ultimately show ?thesis
    using wu.do_recv_conn[where k = k, OF wu_filters_in[OF p], of 0 0 0 0 0 ?f]
    by (simp add: wu_fire_on_open_def wu_conn)
qed

text \<open>The life of a UDP channel of Windows (\<open>channel_iocp.cpp\<close>): in every run, with filters and
  users that keep to the channel's operations (\<open>continue_read\<close> while no error and no close has been made
  or posted), it is never used after it has deleted itself, never
  hands its \<open>OVERLAPPED\<close> to the kernel twice, reports one error and one close at most, counts in the
  active count of its loop exactly while it receives, and deletes itself when it was closed and
  neither the loop nor the kernel has anything of it.\<close>

theorem iocp_udp_lifecycle:
  assumes "wu_filters_ok k p" "(wu_step k p)\<^sup>*\<^sup>* (wu_fire_on_open k p iocp_udp_new) c"
  shows "\<not> wc_fault c \<and> wc_errors c \<le> 1 \<and> wc_closes c \<le> 1 \<and> wc_active c = of_bool (wc_receiving c) \<and>
    (wc_deleted c \<longleftrightarrow> wc_closes c = 1 \<and> wc_tasks c = [] \<and> \<not> wc_receiving c)"
proof -
  from assms(2) have i: "wc_inv 0 0 0 0 0 c"
    by (induction rule: rtranclp_induct) (blast intro: wu_opened_inv[OF assms(1)] dest: wu_step_inv[OF assms(1)])+
  note b = wc_open_bits[OF i]
  have "wc_refs c = 0 \<longleftrightarrow> wc_closes c = 1 \<and> wc_tasks c = [] \<and> \<not> wc_receiving c"
    using i b by (cases "wc_tasks c") (auto simp: wc_inv_def)
  thus ?thesis using i b by (simp add: wc_inv_def)
qed

definition wsa_full :: wsa_from where
  "wsa_full = \<lparr>wsa_recvfrom = \<lambda>_. Some WSA_IO_PENDING, wsa_sendto = \<lambda>n. Some 10055\<rparr>"

definition wu_plain :: wu_filters where
  "wu_plain = \<lparr>uf_in = \<lambda>e c. c, uf_out = wu_do_write wsa_full\<rparr>"

lemmas wu_eval = wu_fire_on_open_def wc_fire_def wu_plain_def wsa_full_def iocp_udp_new_def wc_retain_def wc_touch_def
  wc_do_recv_def wc_bits_def wsa_failed_def wc_add_active_def wu_do_write_def wc_release_def wc_error_propagation_def
  wc_fetch_or_def wc_execute_def wu_run_next_def wc_run_next_def wc_error_shot_def wc_fire_on_error_def k_error_bit_def
  k_close_bit_def k_read_pending_bit_def WSA_IO_PENDING_def

text \<open>The kernel has no buffers for a datagram: the error is reported, and the receive goes on.\<close>

theorem iocp_udp_lifecycle_witness:
  "\<exists>c. (wu_step wsa_full wu_plain)\<^sup>*\<^sup>* (wu_fire_on_open wsa_full wu_plain iocp_udp_new) c \<and>
     wc_trace c = [Ev_Opened (), Ev_Error (platform_error 10055)] \<and> wc_receiving c \<and> \<not> wc_deleted c \<and> wc_active c = 1"
proof -
  let ?s = "wu_step wsa_full wu_plain"
  let ?o = "wu_fire_on_open wsa_full wu_plain iocp_udp_new"
  let ?a = "wu_do_write wsa_full address_new [1] ?o"
  obtain b where b: "wu_run_next wsa_full wu_plain ?a = Some b" "wc_receiving b"
    "wc_trace b = [Ev_Opened (), Ev_Error (platform_error 10055)]"
    by (simp add: wu_eval)
  have "?s ?o ?a" by (intro us_call ua_do_write) (simp add: wu_eval)
  moreover have "?s ?a b" by (rule us_task[OF b(1)])
  ultimately have r: "?s\<^sup>*\<^sup>* ?o b" by (meson converse_rtranclp_into_rtranclp rtranclp.rtrancl_refl)
  have "wu_filters_ok wsa_full wu_plain"
    by (auto simp: wu_filters_ok_def wu_plain_def intro: ua_do_write)
  from iocp_udp_lifecycle[OF this r] r b(2,3) show ?thesis by auto
qed

text \<open>An empty datagram, which any host may send, is reported as a closed connection and is the end of
  the channel, although UDP has no connections.\<close>

lemma iocp_udp_empty_datagram:
  assumes "\<not> wc_bits (k_error_bit OR k_close_bit) c"
  shows "\<exists>d. wu_on_recv k p True 0 0 addr [] c =
    Some (wc_release (wc_remove_active (wc_fire_on_error (uf_in p) (tdk_error Tdk_Network_Remote_Closed) d)))"
  using iocp_recv_error_masked[OF assms] by (simp add: wu_on_recv_def)

end
