(* ===== verification/Singleton.thy ===== *)
theory Singleton
  imports Prelude "HOL-Library.Monad_Syntax"
begin

text \<open>
  Locks (\<open>threading/spin_lock.cpp\<close>, \<open>spin_lock.hpp\<close>) and the one instance of a class
  (\<open>util/singleton.hpp\<close>), as the steps of threads.
\<close>

section \<open>Locks\<close>

text \<open>\<open>spin_lock\<close> is a recursive mutex of pthread.\<close>

record spin_lock =
  sl_owner :: "nat option"
  sl_depth :: nat

definition spin_lock_new :: spin_lock where
  "spin_lock_new = \<lparr>sl_owner = None, sl_depth = 0\<rparr>"

text \<open>\<open>lock\<close> of thread \<open>t\<close>: \<open>None\<close> while another thread has it.\<close>

definition sl_lock :: "nat \<Rightarrow> spin_lock \<Rightarrow> spin_lock option" where
  "sl_lock t l =
     (case sl_owner l of
        None \<Rightarrow> Some \<lparr>sl_owner = Some t, sl_depth = 1\<rparr>
      | Some u \<Rightarrow> if u = t then Some (l\<lparr>sl_depth := Suc (sl_depth l)\<rparr>) else None)"

definition sl_unlock :: "nat \<Rightarrow> spin_lock \<Rightarrow> spin_lock" where
  "sl_unlock t l =
     (if sl_owner l \<noteq> Some t then l
      else if sl_depth l = 1 then spin_lock_new
      else l\<lparr>sl_depth := sl_depth l - 1\<rparr>)"

definition sl_trylock :: "nat \<Rightarrow> spin_lock \<Rightarrow> spin_lock \<times> bool" where
  "sl_trylock t l = (case sl_lock t l of None \<Rightarrow> (l, False) | Some l' \<Rightarrow> (l', True))"

text \<open>The guards: \<open>body\<close> is what runs in their scope, on a state that has the lock \<open>lk\<close>. The lock may be
  taken by others only where the body waits.\<close>

definition scoped_lock :: "nat \<Rightarrow> (spin_lock \<Rightarrow> spin_lock option) \<Rightarrow> spin_lock \<Rightarrow> spin_lock option" where
  "scoped_lock t body l = do { l1 \<leftarrow> sl_lock t l; l2 \<leftarrow> body l1; Some (sl_unlock t l2) }"

definition scoped_unlock :: "nat \<Rightarrow> (spin_lock \<Rightarrow> spin_lock option) \<Rightarrow> spin_lock \<Rightarrow> spin_lock option" where
  "scoped_unlock t body l = do { l2 \<leftarrow> body (sl_unlock t l); sl_lock t l2 }"

definition scoped_try_lock :: "nat \<Rightarrow> (bool \<Rightarrow> spin_lock \<Rightarrow> spin_lock option) \<Rightarrow> spin_lock \<Rightarrow> spin_lock option" where
  "scoped_try_lock t body l =
     (let (l1, locked) = sl_trylock t l
      in do { l2 \<leftarrow> body locked l1; Some (if locked then sl_unlock t l2 else l2) })"

definition sl_ok :: "spin_lock \<Rightarrow> bool" where
  "sl_ok l \<longleftrightarrow> (sl_owner l = None) = (sl_depth l = 0)"

lemma sl_lock_ok: "sl_ok l \<Longrightarrow> sl_lock t l = Some l' \<Longrightarrow> sl_ok l' \<and> sl_owner l' = Some t \<and> sl_depth l' = Suc (sl_depth l)"
  by (auto simp: sl_ok_def sl_lock_def split: option.splits if_splits)

lemma sl_unlock_lock: "sl_ok l \<Longrightarrow> sl_lock t l = Some l' \<Longrightarrow> sl_unlock t l' = l"
  by (cases l) (auto simp: sl_ok_def sl_lock_def sl_unlock_def spin_lock_new_def split: option.splits if_splits)

text \<open>A guard leaves the lock as it was; what it encloses runs with the lock, unless it is that of
  \<open>scoped_unlock\<close> in a thread that has the lock more than once, which still has it.\<close>

lemma scoped_lock_balanced:
  assumes "sl_ok l" "\<And>x. body x = Some x"
  shows "scoped_lock t body l = (if sl_owner l = None \<or> sl_owner l = Some t then Some l else None)"
proof (cases "sl_lock t l")
  case None
  thus ?thesis by (auto simp: scoped_lock_def sl_lock_def split: option.splits if_splits)
next
  case (Some l')
  moreover from Some have "sl_owner l = None \<or> sl_owner l = Some t" by (auto simp: sl_lock_def split: option.splits if_splits)
  ultimately show ?thesis using sl_unlock_lock[OF assms(1) Some] assms(2) by (auto simp: scoped_lock_def)
qed

lemma scoped_unlock_keeps:
  assumes "sl_owner l = Some t" "1 < sl_depth l"
  shows "sl_owner (sl_unlock t l) = Some t"
  using assms by (simp add: sl_unlock_def)

section \<open>The singleton\<close>

text \<open>The calls of \<open>instance\<close> and \<open>release\<close>, cut at the accesses to what the threads share; an object
  is a number, new ones count up.\<close>

datatype sg_pc =
    Sg_Out
  | I_Load | I_Lock | I_Load_Again | I_Create | I_Store nat | I_Unlock nat | I_Return nat
  | R_Lock | R_Load | R_Delete nat | R_Store | R_Unlock

record singleton =
  sg_instance :: "nat option"
  sg_lock :: spin_lock
  sg_pc :: "nat \<Rightarrow> sg_pc"
  sg_created :: nat
  sg_alive :: "nat list"
  sg_returned :: "(nat \<times> nat) list"
  sg_fault :: bool

definition singleton_new :: singleton where
  "singleton_new =
     \<lparr>sg_instance = None, sg_lock = spin_lock_new, sg_pc = (\<lambda>_. Sg_Out), sg_created = 0, sg_alive = [],
      sg_returned = [], sg_fault = False\<rparr>"

definition sg_goto :: "nat \<Rightarrow> sg_pc \<Rightarrow> singleton \<Rightarrow> singleton" where
  "sg_goto t pc s = s\<lparr>sg_pc := (sg_pc s)(t := pc)\<rparr>"

definition sg_acquire :: "nat \<Rightarrow> sg_pc \<Rightarrow> singleton \<Rightarrow> singleton option" where
  "sg_acquire t pc s = do { l \<leftarrow> sl_lock t (sg_lock s); Some (sg_goto t pc (s\<lparr>sg_lock := l\<rparr>)) }"

text \<open>The next step of thread \<open>t\<close> in a call; \<open>None\<close> while it waits for the lock.\<close>

fun sg_next :: "nat \<Rightarrow> singleton \<Rightarrow> singleton option" where
  "sg_next t s =
     (case sg_pc s t of
        Sg_Out \<Rightarrow> None
      | I_Load \<Rightarrow> Some (sg_goto t (case sg_instance s of None \<Rightarrow> I_Lock | Some x \<Rightarrow> I_Return x) s)
      | I_Lock \<Rightarrow> sg_acquire t I_Load_Again s
      | I_Load_Again \<Rightarrow> Some (sg_goto t (case sg_instance s of None \<Rightarrow> I_Create | Some x \<Rightarrow> I_Unlock x) s)
      | I_Create \<Rightarrow>
          Some (sg_goto t (I_Store (sg_created s))
            (s\<lparr>sg_created := Suc (sg_created s), sg_alive := sg_alive s @ [sg_created s]\<rparr>))
      | I_Store x \<Rightarrow> Some (sg_goto t (I_Unlock x) (s\<lparr>sg_instance := Some x\<rparr>))
      | I_Unlock x \<Rightarrow> Some (sg_goto t (I_Return x) (s\<lparr>sg_lock := sl_unlock t (sg_lock s)\<rparr>))
      | I_Return x \<Rightarrow> Some (sg_goto t Sg_Out (s\<lparr>sg_returned := sg_returned s @ [(t, x)]\<rparr>))
      | R_Lock \<Rightarrow> sg_acquire t R_Load s
      | R_Load \<Rightarrow> Some (sg_goto t (case sg_instance s of None \<Rightarrow> R_Unlock | Some x \<Rightarrow> R_Delete x) s)
      | R_Delete x \<Rightarrow>
          Some (sg_goto t R_Store (s\<lparr>sg_alive := filter (\<lambda>y. y \<noteq> x) (sg_alive s), sg_fault := sg_fault s \<or> x \<notin> set (sg_alive s)\<rparr>))
      | R_Store \<Rightarrow> Some (sg_goto t R_Unlock (s\<lparr>sg_instance := None\<rparr>))
      | R_Unlock \<Rightarrow> Some (sg_goto t Sg_Out (s\<lparr>sg_lock := sl_unlock t (sg_lock s)\<rparr>)))"

declare sg_next.simps [simp del]

text \<open>Any thread may call \<open>instance\<close> at any time, and \<open>release\<close> when \<open>rel\<close>.\<close>

inductive sg_step :: "bool \<Rightarrow> singleton \<Rightarrow> singleton \<Rightarrow> bool" for rel where
  sg_instance: "sg_pc s t = Sg_Out \<Longrightarrow> sg_step rel s (sg_goto t I_Load s)"
| sg_release: "rel \<Longrightarrow> sg_pc s t = Sg_Out \<Longrightarrow> sg_step rel s (sg_goto t R_Lock s)"
| sg_next: "sg_next t s = Some s' \<Longrightarrow> sg_step rel s s'"

section \<open>One object at a time\<close>

fun sg_holds :: "sg_pc \<Rightarrow> bool" where
  "sg_holds pc \<longleftrightarrow> pc \<in> {I_Load_Again, I_Create, R_Load, R_Store, R_Unlock} \<or> (\<exists>x. pc \<in> {I_Store x, I_Unlock x, R_Delete x})"

text \<open>What the thread that has the lock knows of the instance and of the objects.\<close>

fun sg_knows :: "sg_pc \<Rightarrow> nat option \<Rightarrow> nat list \<Rightarrow> bool" where
  "sg_knows I_Create i a \<longleftrightarrow> i = None \<and> a = []"
| "sg_knows (I_Store x) i a \<longleftrightarrow> i = None \<and> a = [x]"
| "sg_knows (R_Delete x) i a \<longleftrightarrow> i = Some x \<and> a = [x]"
| "sg_knows R_Store i a \<longleftrightarrow> a = []"
| "sg_knows pc i a \<longleftrightarrow> a = (case i of None \<Rightarrow> [] | Some x \<Rightarrow> [x])"

definition sg_inv :: "singleton \<Rightarrow> bool" where
  "sg_inv s \<longleftrightarrow> \<not> sg_fault s \<and> sl_ok (sg_lock s) \<and> sl_depth (sg_lock s) \<le> 1 \<and>
     (\<forall>t. sg_holds (sg_pc s t) = (sl_owner (sg_lock s) = Some t)) \<and>
     (case sl_owner (sg_lock s) of
        None \<Rightarrow> sg_knows Sg_Out (sg_instance s) (sg_alive s)
      | Some t \<Rightarrow> sg_knows (sg_pc s t) (sg_instance s) (sg_alive s))"

text \<open>Without \<open>release\<close> every object that is known is the one there is.\<close>

fun sg_target :: "sg_pc \<Rightarrow> nat option" where
  "sg_target (I_Unlock x) = Some x"
| "sg_target (I_Return x) = Some x"
| "sg_target _ = None"

fun sg_releases :: "sg_pc \<Rightarrow> bool" where
  "sg_releases R_Lock = True"
| "sg_releases R_Load = True"
| "sg_releases (R_Delete _) = True"
| "sg_releases R_Store = True"
| "sg_releases R_Unlock = True"
| "sg_releases _ = False"

definition sg_only :: "singleton \<Rightarrow> bool" where
  "sg_only s \<longleftrightarrow> sg_created s = length (sg_alive s) \<and>
     (\<forall>t. sg_target (sg_pc s t) \<in> {None, sg_instance s}) \<and>
     (\<forall>p \<in> set (sg_returned s). sg_instance s = Some (snd p)) \<and>
     (\<forall>t. \<not> sg_releases (sg_pc s t))"

lemma holds_simps [simp]:
  "\<not> sg_holds Sg_Out" "\<not> sg_holds I_Load" "\<not> sg_holds I_Lock" "sg_holds I_Load_Again" "sg_holds I_Create"
  "sg_holds (I_Store x)" "sg_holds (I_Unlock x)" "\<not> sg_holds (I_Return x)" "\<not> sg_holds R_Lock" "sg_holds R_Load"
  "sg_holds (R_Delete x)" "sg_holds R_Store" "sg_holds R_Unlock"
  by simp_all

declare sg_holds.simps [simp del]

lemma knows_any: "\<not> sg_holds pc \<Longrightarrow> sg_knows pc i a = sg_knows Sg_Out i a"
  by (cases pc) auto

text \<open>A step of the thread that has the lock, one outside of it, and the two that take and give it.\<close>

lemma sg_inv_inside:
  assumes i: "sg_inv s" and t: "sl_owner (sg_lock s) = Some t" "sg_holds pc" "sg_knows pc (sg_instance s') (sg_alive s')"
    and e: "sg_lock s' = sg_lock s" "sg_pc s' = (sg_pc s)(t := pc)" "\<not> sg_fault s'"
  shows "sg_inv s'"
  using assms by (auto simp: sg_inv_def)

lemma sg_inv_outside:
  assumes i: "sg_inv s" and t: "\<not> sg_holds (sg_pc s t)" "\<not> sg_holds pc"
    and e: "sg_lock s' = sg_lock s" "sg_pc s' = (sg_pc s)(t := pc)" "\<not> sg_fault s'" "sg_instance s' = sg_instance s" "sg_alive s' = sg_alive s"
  shows "sg_inv s'"
proof -
  have o: "sl_owner (sg_lock s) \<noteq> Some t" using i t(1) unfolding sg_inv_def by blast
  have "sg_holds (sg_pc s' u) = (sl_owner (sg_lock s') = Some u)" for u
    using i e(1,2) t o by (cases "u = t") (simp_all add: sg_inv_def)
  thus ?thesis using i e o by (cases "sl_owner (sg_lock s)") (simp_all add: sg_inv_def)
qed

lemma sg_inv_acquire:
  assumes i: "sg_inv s" and h: "\<not> sg_holds (sg_pc s t)" "sg_holds pc" "\<And>i a. sg_knows pc i a = sg_knows Sg_Out i a"
    and a: "sg_acquire t pc s = Some s'"
  shows "sg_inv s'"
proof -
  have n: "sl_owner (sg_lock s) \<noteq> Some t" using i h by (auto simp: sg_inv_def)
  obtain l where l: "sl_lock t (sg_lock s) = Some l" "s' = sg_goto t pc (s\<lparr>sg_lock := l\<rparr>)"
    using a by (auto simp: sg_acquire_def bind_eq_Some_conv)
  have o: "sl_owner (sg_lock s) = None" using l(1) n by (auto simp: sl_lock_def split: option.splits if_splits)
  moreover have "l = \<lparr>sl_owner = Some t, sl_depth = 1\<rparr>" using l(1) o by (simp add: sl_lock_def)
  ultimately show ?thesis using i h l(2) by (auto simp: sg_inv_def sg_goto_def sl_ok_def)
qed

lemma sg_inv_unlock:
  assumes i: "sg_inv s" and h: "sg_holds (sg_pc s t)" "\<not> sg_holds pc" "sg_knows Sg_Out (sg_instance s) (sg_alive s)"
  shows "sg_inv (sg_goto t pc (s\<lparr>sg_lock := sl_unlock t (sg_lock s)\<rparr>))"
proof -
  have o: "sl_owner (sg_lock s) = Some t" "sl_depth (sg_lock s) = 1" using i h by (auto simp: sg_inv_def sl_ok_def le_Suc_eq)
  hence "sl_unlock t (sg_lock s) = spin_lock_new" by (simp add: sl_unlock_def)
  thus ?thesis using i h o by (auto simp: sg_inv_def sg_goto_def sl_ok_def spin_lock_new_def)
qed

lemma sg_next_inv:
  assumes i: "sg_inv s" and n: "sg_next t s = Some s'"
  shows "sg_inv s'"
proof -
  have f: "\<not> sg_fault s" using i by (simp add: sg_inv_def)
  have own: "sg_holds (sg_pc s t) \<Longrightarrow> sl_owner (sg_lock s) = Some t \<and> sg_knows (sg_pc s t) (sg_instance s) (sg_alive s)"
    using i by (auto simp: sg_inv_def split: option.splits)
  show ?thesis
  proof (cases "sg_pc s t")
    case Sg_Out
    thus ?thesis using n by (simp add: sg_next.simps)
  next
    case I_Load
    show ?thesis by (rule sg_inv_outside[OF i, of t "case sg_instance s of None \<Rightarrow> I_Lock | Some x \<Rightarrow> I_Return x"])
        (use n I_Load f in \<open>auto simp: sg_next.simps sg_goto_def split: option.splits\<close>)
  next
    case I_Lock
    show ?thesis by (rule sg_inv_acquire[OF i, of t I_Load_Again]) (use n I_Lock in \<open>auto simp: sg_next.simps\<close>)
  next
    case I_Load_Again
    show ?thesis by (rule sg_inv_inside[OF i, of t "case sg_instance s of None \<Rightarrow> I_Create | Some x \<Rightarrow> I_Unlock x"])
        (use n I_Load_Again f own in \<open>auto simp: sg_next.simps sg_goto_def split: option.splits\<close>)
  next
    case I_Create
    show ?thesis by (rule sg_inv_inside[OF i, of t "I_Store (sg_created s)"])
        (use n I_Create f own in \<open>auto simp: sg_next.simps sg_goto_def\<close>)
  next
    case (I_Store x)
    show ?thesis by (rule sg_inv_inside[OF i, of t "I_Unlock x"])
        (use n I_Store f own in \<open>auto simp: sg_next.simps sg_goto_def\<close>)
  next
    case (I_Unlock x)
    show ?thesis using n I_Unlock own sg_inv_unlock[OF i, of t "I_Return x"] by (simp add: sg_next.simps)
  next
    case (I_Return x)
    show ?thesis by (rule sg_inv_outside[OF i, of t]) (use n I_Return f in \<open>auto simp: sg_next.simps sg_goto_def\<close>)
  next
    case R_Lock
    show ?thesis by (rule sg_inv_acquire[OF i, of t R_Load]) (use n R_Lock in \<open>auto simp: sg_next.simps\<close>)
  next
    case R_Load
    show ?thesis by (rule sg_inv_inside[OF i, of t "case sg_instance s of None \<Rightarrow> R_Unlock | Some x \<Rightarrow> R_Delete x"])
        (use n R_Load f own in \<open>auto simp: sg_next.simps sg_goto_def split: option.splits\<close>)
  next
    case (R_Delete x)
    show ?thesis by (rule sg_inv_inside[OF i, of t R_Store])
        (use n R_Delete f own in \<open>auto simp: sg_next.simps sg_goto_def\<close>)
  next
    case R_Store
    show ?thesis by (rule sg_inv_inside[OF i, of t R_Unlock])
        (use n R_Store f own in \<open>auto simp: sg_next.simps sg_goto_def\<close>)
  next
    case R_Unlock
    show ?thesis using n R_Unlock own sg_inv_unlock[OF i, of t Sg_Out] by (simp add: sg_next.simps)
  qed
qed

lemma sg_step_inv: "sg_step rel s s' \<Longrightarrow> sg_inv s \<Longrightarrow> sg_inv s'"
proof (induction rule: sg_step.induct)
  case (sg_instance s t)
  moreover have "\<not> sg_fault s" using sg_instance by (simp add: sg_inv_def)
  ultimately show ?case by - (rule sg_inv_outside[of s t I_Load], simp_all add: sg_goto_def)
next
  case (sg_release s t)
  moreover have "\<not> sg_fault s" using sg_release by (simp add: sg_inv_def)
  ultimately show ?case by - (rule sg_inv_outside[of s t R_Lock], simp_all add: sg_goto_def)
qed (rule sg_next_inv)

lemma sg_only_update:
  assumes o: "sg_only s" and e: "sg_pc s' = (sg_pc s)(t := pc)" "\<not> sg_releases pc" "sg_target pc \<in> {None, sg_instance s'}"
    "sg_created s' = length (sg_alive s')" "sg_instance s' = sg_instance s \<or> sg_instance s = None"
    "\<forall>p \<in> set (sg_returned s'). sg_instance s' = Some (snd p)"
  shows "sg_only s'"
proof -
  have u: "sg_target (sg_pc s u) = None \<or> sg_target (sg_pc s u) = sg_instance s" "\<not> sg_releases (sg_pc s u)" for u
    using o by (simp_all add: sg_only_def)
  have "sg_target (sg_pc s u) = None \<or> sg_target (sg_pc s u) = sg_instance s'" for u
    using e(5) u(1)[of u] by (elim disjE) simp_all
  thus ?thesis using e(1-4,6) u(2) by (simp add: sg_only_def)
qed

lemma sg_only_next:
  assumes i: "sg_inv s" "sg_only s" and n: "sg_next t s = Some s'"
  shows "sg_only s'"
proof -
  have own: "sg_holds (sg_pc s t) \<Longrightarrow> sg_knows (sg_pc s t) (sg_instance s) (sg_alive s)"
    using i(1) by (auto simp: sg_inv_def split: option.splits)
  have t: "sg_target (sg_pc s t) \<in> {None, sg_instance s}" "\<not> sg_releases (sg_pc s t)" "sg_created s = length (sg_alive s)"
    "\<forall>p \<in> set (sg_returned s). sg_instance s = Some (snd p)"
    using i(2) by (simp_all add: sg_only_def)
  have r: "sg_instance s = None \<Longrightarrow> sg_returned s = []" using t(4) by (cases "sg_returned s") auto
  note upd = sg_only_update[OF i(2), of s' t]
  show ?thesis
  proof (cases "sg_pc s t")
    case I_Load
    thus ?thesis using n own t r
      by - (rule upd[of "case sg_instance s of None \<Rightarrow> I_Lock | Some x \<Rightarrow> I_Return x"], auto simp: sg_next.simps sg_goto_def sg_acquire_def bind_eq_Some_conv split: option.splits)
  next
    case I_Lock
    thus ?thesis using n own t r
      by - (rule upd[of "I_Load_Again"], auto simp: sg_next.simps sg_goto_def sg_acquire_def bind_eq_Some_conv split: option.splits)
  next
    case I_Load_Again
    thus ?thesis using n own t r
      by - (rule upd[of "case sg_instance s of None \<Rightarrow> I_Create | Some x \<Rightarrow> I_Unlock x"], auto simp: sg_next.simps sg_goto_def sg_acquire_def bind_eq_Some_conv split: option.splits)
  next
    case I_Create
    thus ?thesis using n own t r
      by - (rule upd[of "I_Store (sg_created s)"], auto simp: sg_next.simps sg_goto_def sg_acquire_def bind_eq_Some_conv split: option.splits)
  next
    case (I_Store x)
    thus ?thesis using n own t r
      by - (rule upd[of "I_Unlock x"], auto simp: sg_next.simps sg_goto_def sg_acquire_def bind_eq_Some_conv split: option.splits)
  next
    case (I_Unlock x)
    thus ?thesis using n own t r
      by - (rule upd[of "I_Return x"], auto simp: sg_next.simps sg_goto_def sg_acquire_def bind_eq_Some_conv split: option.splits)
  next
    case (I_Return x)
    thus ?thesis using n own t r
      by - (rule upd[of "Sg_Out"], auto simp: sg_next.simps sg_goto_def sg_acquire_def bind_eq_Some_conv split: option.splits)
  qed (use n t in \<open>simp_all add: sg_next.simps\<close>)
qed

lemma sg_only_step: "sg_step False s s' \<Longrightarrow> sg_inv s \<Longrightarrow> sg_only s \<Longrightarrow> sg_only s'"
proof (induction rule: sg_step.induct)
  case (sg_instance s t)
  thus ?case by - (rule sg_only_update[of s _ t I_Load], simp_all add: sg_goto_def sg_only_def)
qed (auto intro: sg_only_next)

lemma singleton_new_inv: "sg_inv singleton_new" "sg_only singleton_new"
  by (auto simp: sg_inv_def sg_only_def singleton_new_def spin_lock_new_def sl_ok_def)

text \<open>A thread that waits for the lock waits for one that can go on.\<close>

lemma sg_not_stuck:
  assumes i: "sg_inv s" and t: "sg_pc s t \<noteq> Sg_Out"
  shows "\<exists>u s'. sg_next u s = Some s'"
proof (cases "sl_owner (sg_lock s)")
  case None
  thus ?thesis using t by (intro exI[of _ t], cases "sg_pc s t") (auto simp: sg_next.simps sg_acquire_def sl_lock_def)
next
  case (Some u)
  hence "sg_holds (sg_pc s u)" using i by (simp add: sg_inv_def)
  thus ?thesis by (intro exI[of _ u], cases "sg_pc s u") (auto simp: sg_next.simps)
qed

text \<open>C20. \<open>singleton::instance\<close>, whatever threads call it and however their steps interleave: one object
  is made at most, every caller gets that object, no call is stuck; also with \<open>release\<close> there is one
  object at most, and none is deleted twice.\<close>

theorem singleton_one_object:
  assumes "(sg_step rel)\<^sup>*\<^sup>* singleton_new s"
  shows "length (sg_alive s) \<le> 1 \<and> \<not> sg_fault s \<and>
    (\<forall>t. sg_pc s t \<noteq> Sg_Out \<longrightarrow> (\<exists>u s'. sg_next u s = Some s')) \<and>
    (\<not> rel \<longrightarrow> sg_created s \<le> 1 \<and>
      (\<forall>(t, x) \<in> set (sg_returned s). sg_instance s = Some x \<and> sg_alive s = [x]))"
proof -
  have i: "sg_inv s \<and> (\<not> rel \<longrightarrow> sg_only s)"
    using assms by (induction rule: rtranclp_induct) (auto simp: singleton_new_inv intro: sg_step_inv sg_only_step)
  have k: "case sl_owner (sg_lock s) of
      None \<Rightarrow> sg_knows Sg_Out (sg_instance s) (sg_alive s)
    | Some t \<Rightarrow> sg_knows (sg_pc s t) (sg_instance s) (sg_alive s)"
    using i by (simp add: sg_inv_def)
  hence "\<exists>pc. sg_knows pc (sg_instance s) (sg_alive s)" by (cases "sl_owner (sg_lock s)") (simp_all only: option.case, blast+)
  hence l: "length (sg_alive s) \<le> 1"
  proof
    fix pc assume "sg_knows pc (sg_instance s) (sg_alive s)"
    thus ?thesis by (cases pc) (auto split: option.splits)
  qed
  have one: "sg_alive s = [x]" if "\<not> rel" "sg_instance s = Some x" for x
  proof (cases "sl_owner (sg_lock s)")
    case None
    thus ?thesis using k that(2) by simp
  next
    case (Some u)
    hence "sg_knows (sg_pc s u) (sg_instance s) (sg_alive s)" "\<not> sg_releases (sg_pc s u)"
      using k i that(1) by (simp_all add: sg_only_def)
    thus ?thesis using that(2) by (cases "sg_pc s u") auto
  qed
  have "sg_created s \<le> 1 \<and> (\<forall>(t, x) \<in> set (sg_returned s). sg_instance s = Some x \<and> sg_alive s = [x])" if "\<not> rel"
    using i l one that by (auto simp: sg_only_def)
  moreover have "\<not> sg_fault s" using i by (simp add: sg_inv_def)
  ultimately show ?thesis using i l sg_not_stuck by blast
qed

text \<open>Two threads that both find no instance.\<close>

fun sg_run :: "nat list \<Rightarrow> singleton \<Rightarrow> singleton" where
  "sg_run [] s = s"
| "sg_run (t # ts) s = sg_run ts (case sg_next t s of None \<Rightarrow> s | Some s' \<Rightarrow> s')"

lemma sg_run_steps: "(sg_step rel)\<^sup>*\<^sup>* s (sg_run ts s)"
proof (induction ts s rule: sg_run.induct)
  case (2 t ts s)
  show ?case
  proof (cases "sg_next t s")
    case None
    thus ?thesis using 2 by simp
  next
    case (Some s')
    hence "sg_step rel s s'" by (rule sg_next)
    thus ?thesis using 2 Some by simp
  qed
qed simp

theorem singleton_one_object_witness:
  "\<exists>s. (sg_step False)\<^sup>*\<^sup>* singleton_new s \<and> sg_returned s = [(1, 0), (2, 0)] \<and> sg_created s = 1 \<and> sg_alive s = [0]"
proof -
  let ?b = "sg_goto 2 I_Load (sg_goto 1 I_Load singleton_new)"
  let ?s = "sg_run [1, 2, 1, 1, 1, 1, 2, 1, 2, 2, 2, 1, 2] ?b"
  have "sg_step False singleton_new (sg_goto 1 I_Load singleton_new)"
    by (rule sg_instance) (simp add: singleton_new_def)
  moreover have "sg_step False (sg_goto 1 I_Load singleton_new) ?b"
    by (rule sg_instance) (simp add: singleton_new_def sg_goto_def)
  ultimately have r: "(sg_step False)\<^sup>*\<^sup>* singleton_new ?s"
    using sg_run_steps[of False ?b] by (meson converse_rtranclp_into_rtranclp)
  have v: "sg_returned ?s = [(1, 0), (2, 0)] \<and> sg_created ?s = 1"
    by (simp add: singleton_new_def sg_goto_def sg_next.simps sg_acquire_def sl_lock_def sl_unlock_def spin_lock_new_def)
  obtain s where s: "s = ?s" by blast
  have "sg_alive s = [0]"
    using singleton_one_object[OF r[folded s]] v[folded s] by simp
  thus ?thesis using r[folded s] v[folded s] by blast
qed

text \<open>\<open>release\<close> deletes the object before it clears the pointer, which \<open>instance\<close> reads without the
  lock: a caller may get an object that was already deleted.\<close>

theorem singleton_release_dangles:
  "\<exists>s. (sg_step True)\<^sup>*\<^sup>* singleton_new s \<and> (2, 0) \<in> set (sg_returned s) \<and> sg_alive s = [] \<and> sg_pc s 1 = R_Store"
proof -
  let ?i = "sg_goto 1 I_Load singleton_new"
  let ?m = "sg_run [1, 1, 1, 1, 1, 1, 1] ?i"
  let ?d = "sg_run [1, 1, 1] (sg_goto 1 R_Lock ?m)"
  let ?s = "sg_run [2, 2] (sg_goto 2 I_Load ?d)"
  note eval = singleton_new_def sg_goto_def sg_next.simps sg_acquire_def sl_lock_def sl_unlock_def spin_lock_new_def
  have "(sg_step True)\<^sup>*\<^sup>* singleton_new ?i"
    by (rule r_into_rtranclp, rule sg_instance) (simp add: singleton_new_def)
  moreover have "(sg_step True)\<^sup>*\<^sup>* ?m (sg_goto 1 R_Lock ?m)" by (rule r_into_rtranclp, rule sg_release) (simp_all add: eval)
  moreover have "(sg_step True)\<^sup>*\<^sup>* ?d (sg_goto 2 I_Load ?d)" by (rule r_into_rtranclp, rule sg_instance) (simp add: eval)
  ultimately have "(sg_step True)\<^sup>*\<^sup>* singleton_new ?s"
    using sg_run_steps[of True] by (meson rtranclp_trans)
  moreover have "(2, 0) \<in> set (sg_returned ?s)" "sg_alive ?s = []" "sg_pc ?s 1 = R_Store" by (simp_all add: eval)
  ultimately show ?thesis by (intro exI[of _ ?s]) simp
qed

end
