(* ===== verification/Util_Objects.thy ===== *)
theory Util_Objects
  imports Task_Objects
begin

text \<open>
  Small classes: the run-time types of \<open>util/rtti.hpp\<close> and \<open>rtti.cpp\<close>, the rectangle of \<open>geo.hpp\<close>, the
  waits of \<open>threading/mutex_win32.cpp\<close> and \<open>auto_reset_event_win32.cpp\<close>, the task of an accept
  (\<open>io/ip/tcp/socket/accept_task.cpp\<close>), the configuration of a channel, the hooks of \<open>alloc.cpp\<close> and
  the keys of \<open>threading/thread_local.cpp\<close>.
\<close>

section \<open>Run-time types\<close>

text \<open>The object of a class: its address, its name and that of the class it is derived from.\<close>

datatype rtti = Rtti (rtti_addr: nat) (rtti_name: string) (rtti_base: "rtti option")

fun is_kind_of :: "rtti \<Rightarrow> nat \<Rightarrow> bool" where
  "is_kind_of (Rtti a n b) t = (if a = t then True else case b of None \<Rightarrow> False | Some r \<Rightarrow> is_kind_of r t)"

text \<open>\<open>get_handler\<close>, for classes without virtual methods: null until a constructor sets it.\<close>

definition get_handler_call :: "(unit \<Rightarrow> rtti) option \<Rightarrow> rtti option" where
  "get_handler_call h = (case h of None \<Rightarrow> None | Some f \<Rightarrow> Some (f ()))"

definition object_is_kind_of :: "(unit \<Rightarrow> rtti) option \<Rightarrow> nat \<Rightarrow> bool" where
  "object_is_kind_of h t = (case get_handler_call h of None \<Rightarrow> False | Some r \<Rightarrow> is_kind_of r t)"

text \<open>The constructors of a class and of those it is derived from run in this order, each with
  \<open>set_handler\<close> (\<open>IMPL_RTTI_CTOR_WITH_OUT_VFTABLE\<close>).\<close>

fun construct :: "rtti list \<Rightarrow> (unit \<Rightarrow> rtti) option \<Rightarrow> (unit \<Rightarrow> rtti) option" where
  "construct [] h = h"
| "construct (r # rs) h = construct rs (Some (\<lambda>_. r))"

text \<open>The classes from the root to the class of an object.\<close>

fun lineage :: "rtti \<Rightarrow> rtti list" where
  "lineage (Rtti a n b) = (case b of None \<Rightarrow> [] | Some r \<Rightarrow> lineage r) @ [Rtti a n b]"

lemma is_kind_of_lineage: "is_kind_of r t = (t \<in> rtti_addr ` set (lineage r))"
  by (induction r t rule: is_kind_of.induct) (auto split: option.split)

lemma construct_append: "construct (rs @ [r]) h = Some (\<lambda>_. r)"
  by (induction rs arbitrary: h) simp_all

lemma lineage_last: "\<exists>rs. lineage r = rs @ [r]"
  by (cases r) auto

text \<open>\<open>is_kind_of\<close> (\<open>util/rtti.hpp\<close>) of an object whose constructors have run, from the root class
  down: true of exactly its class and the classes this is derived from, whichever constructor set the
  handler last.\<close>

theorem rtti_kind_of:
  "object_is_kind_of (construct (lineage r) None) t \<longleftrightarrow> t \<in> rtti_addr ` set (lineage r)"
proof -
  obtain rs where "lineage r = rs @ [r]" using lineage_last by blast
  hence "construct (lineage r) None = Some (\<lambda>_. r)" using construct_append[of rs r None] by simp
  thus ?thesis by (simp add: object_is_kind_of_def get_handler_call_def is_kind_of_lineage)
qed

section \<open>Rectangles\<close>

record rect =
  rc_left :: int
  rc_top :: int
  rc_right :: int
  rc_bottom :: int

definition rect_of :: "int \<Rightarrow> int \<Rightarrow> int \<Rightarrow> int \<Rightarrow> rect" where
  "rect_of l t r b = \<lparr>rc_left = l, rc_top = t, rc_right = r, rc_bottom = b\<rparr>"

definition rect_assign :: "rect \<Rightarrow> rect \<Rightarrow> rect" where
  "rect_assign a b =
     a\<lparr>rc_left := rc_left b, rc_top := rc_top b, rc_right := rc_right b, rc_bottom := rc_bottom b\<rparr>"

definition rect_width :: "rect \<Rightarrow> int" where
  "rect_width r = to_i32 (max (rc_right r) (rc_left r) - min (rc_right r) (rc_left r))"

definition rect_height :: "rect \<Rightarrow> int" where
  "rect_height r = to_i32 (max (rc_top r) (rc_bottom r) - min (rc_top r) (rc_bottom r))"

text \<open>\<open>operator==\<close> calls \<open>memcpy\<close>, which copies and returns its first argument, never null: the rectangle
  after it, and the result.\<close>

definition rect_equal :: "rect \<Rightarrow> rect \<Rightarrow> rect \<times> bool" where
  "rect_equal a r = (r, False)"

lemma rect_equal_copies: "fst (rect_equal a r) = r" "\<not> snd (rect_equal r r)"
  by (simp_all add: rect_equal_def)

lemma rect_size_nonneg:
  assumes "\<bar>rc_right r - rc_left r\<bar> < 2 ^ 31" "\<bar>rc_bottom r - rc_top r\<bar> < 2 ^ 31"
  shows "rect_width r = \<bar>rc_right r - rc_left r\<bar>" "rect_height r = \<bar>rc_bottom r - rc_top r\<bar>"
  using assms by (auto simp: rect_width_def rect_height_def max_def min_def to_i32_id)

section \<open>Waiting on Windows\<close>

datatype wait_ret = Wait_Object | Wait_Failed int | Wait_Timeout | Wait_Other int

datatype win_handle = Handle_Invalid | Handle_Null | Handle_Open

text \<open>\<open>wait\<close> of a mutex and of an event: the result, and the error that is set.\<close>

definition win_wait :: "win_handle \<Rightarrow> wait_ret \<Rightarrow> bool \<times> error_code option" where
  "win_wait h r =
     (if h = Handle_Invalid then (False, Some (platform_error 6))
      else case r of
             Wait_Object \<Rightarrow> (True, None)
           | Wait_Failed e \<Rightarrow> (False, Some (platform_error e))
           | Wait_Timeout \<Rightarrow> (False, Some (platform_error 258))
           | Wait_Other c \<Rightarrow> (False, Some (platform_error c)))"

definition mutex_create :: "int option \<Rightarrow> win_handle \<times> bool \<times> error_code option" where
  "mutex_create r =
     (case r of None \<Rightarrow> (Handle_Open, True, None) | Some e \<Rightarrow> (Handle_Null, False, Some (platform_error e)))"

definition mutex_close :: "win_handle \<Rightarrow> win_handle \<times> bool" where
  "mutex_close h = (Handle_Invalid, h \<noteq> Handle_Invalid)"

text \<open>A mutex whose owner ended is given to the one that waits, with \<open>WAIT_ABANDONED\<close>; the caller is
  told that it failed.\<close>

definition wait_grants :: "wait_ret \<Rightarrow> bool" where
  "wait_grants r \<longleftrightarrow> r = Wait_Object \<or> r = Wait_Other 0x80"

lemma mutex_abandoned: "wait_grants (Wait_Other 0x80) \<and> win_wait Handle_Open (Wait_Other 0x80) = (False, Some (platform_error 0x80))"
  by (simp add: wait_grants_def win_wait_def)

section \<open>Allocation\<close>

text \<open>The hooks of \<open>alloc.cpp\<close>: the functions in use, as numbers. Each setter gives the function before.\<close>

record alloc_hooks =
  ah_alloc :: nat
  ah_realloc :: nat
  ah_free :: nat

definition alloc_hook :: "nat \<Rightarrow> alloc_hooks \<Rightarrow> alloc_hooks \<times> nat" where
  "alloc_hook f s = (s\<lparr>ah_alloc := f\<rparr>, ah_alloc s)"

definition realloc_hook :: "nat \<Rightarrow> alloc_hooks \<Rightarrow> alloc_hooks \<times> nat" where
  "realloc_hook f s = (s\<lparr>ah_realloc := f\<rparr>, ah_realloc s)"

definition free_hook :: "nat \<Rightarrow> alloc_hooks \<Rightarrow> alloc_hooks \<times> nat" where
  "free_hook f s = (s\<lparr>ah_free := f\<rparr>, ah_free s)"

text \<open>Hooks put in one after the other and taken out in the opposite order leave what was there.\<close>

lemma hooks_nest:
  assumes "alloc_hook f s = (s1, f0)" "free_hook g s1 = (s2, g0)" "realloc_hook h s2 = (s3, h0)"
  shows "fst (alloc_hook f0 (fst (free_hook g0 (fst (realloc_hook h0 s3))))) = s"
  using assms by (auto simp: alloc_hook_def free_hook_def realloc_hook_def)

section \<open>Thread-local storage\<close>

text \<open>\<open>threading/thread_local.cpp\<close>: the values of a key by thread. A key the system did not give is \<open>None\<close>:
  nothing is stored then.\<close>

record tls_key =
  tls_index :: "nat option"

type_synonym tls_store = "nat \<Rightarrow> nat \<Rightarrow> nat option"

definition tls_set :: "tls_key \<Rightarrow> nat \<Rightarrow> nat option \<Rightarrow> tls_store \<Rightarrow> tls_store" where
  "tls_set k t v st = (case tls_index k of None \<Rightarrow> st | Some i \<Rightarrow> st(i := (st i)(t := v)))"

definition tls_get :: "tls_key \<Rightarrow> nat \<Rightarrow> tls_store \<Rightarrow> nat option" where
  "tls_get k t st = (case tls_index k of None \<Rightarrow> None | Some i \<Rightarrow> st i t)"

lemma tls_get_set:
  "tls_get k t (tls_set l u v st) =
     (if tls_index k \<noteq> None \<and> tls_index k = tls_index l \<and> t = u then v else tls_get k t st)"
  by (auto simp: tls_get_def tls_set_def split: option.split)

section \<open>Tasks of an accept, and the configuration\<close>

text \<open>\<open>None\<close>: the constructor with a handler does not initialize the descriptor.\<close>

record accept_task = io_task +
  at_fd :: "int option"

definition accept_task_new :: "nat \<Rightarrow> accept_task" where
  "accept_task_new this = io_task.extend (io_task_of this None None) \<lparr>at_fd = Some (-1)\<rparr>"

definition accept_task_of :: "nat \<Rightarrow> nat option \<Rightarrow> nat option \<Rightarrow> accept_task" where
  "accept_task_of this h ctx = io_task.extend (io_task_of this h ctx) \<lparr>at_fd = None\<rparr>"

definition at_accepted :: "accept_task \<Rightarrow> int option" where
  "at_accepted t = at_fd t"

definition at_set_accepted :: "int \<Rightarrow> accept_task \<Rightarrow> accept_task" where
  "at_set_accepted fd t = t\<lparr>at_fd := Some fd\<rparr>"

record config =
  cfg_recv_buffer_size :: int

definition config_of :: "int \<Rightarrow> config" where
  "config_of rbs = \<lparr>cfg_recv_buffer_size = rbs\<rparr>"

definition default_config :: config where
  "default_config = config_of 4096"

end
