(* ===== verification/Task_Engine.thy ===== *)
theory Task_Engine
  imports Event_Loop Errors "HOL-Library.Monad_Syntax" "HOL-Library.Sublist"
begin

text \<open>
  The library \<open>tdk.task\<close>, an event loop over a completion port of Windows: operations
  (\<open>task/operation.cpp\<close>), the port (\<open>task/win32/io_completion_port.cpp\<close>), the engine
  (\<open>task/win32/io_engine.cpp\<close>), timers (\<open>task/scheduler.cpp\<close>, \<open>task/timer.cpp\<close>) and the loop
  (\<open>task/event_loop.cpp\<close>). An operation is a number; what its \<open>operator()\<close> does to the loop is the
  parameter \<open>call\<close>.
\<close>

section \<open>Operations\<close>

text \<open>An \<open>OVERLAPPED\<close>, as in \<open>io/task.cpp\<close>; \<open>hEvent\<close> is meant for the object the operation is on.\<close>

record operation =
  op_internal :: u64
  op_high :: "err_category option"
  op_offset :: u32
  op_event :: "nat option"

definition op_error :: "operation \<Rightarrow> error_code option" where
  "op_error o1 = (case op_high o1 of
       None \<Rightarrow> None
     | Some c \<Rightarrow> Some \<lparr>ec_value = to_i32 (uint (op_internal o1)), ec_category = c\<rparr>)"

definition op_set_error :: "error_code \<Rightarrow> operation \<Rightarrow> operation" where
  "op_set_error ec o1 = o1\<lparr>op_internal := word_of_int (ec_value ec), op_high := Some (ec_category ec)\<rparr>"

definition op_io_byte :: "operation \<Rightarrow> int" where
  "op_io_byte o1 = to_i32 (uint (op_offset o1))"

definition op_set_io_byte :: "int \<Rightarrow> operation \<Rightarrow> operation" where
  "op_set_io_byte b o1 = o1\<lparr>op_offset := word_of_int b\<rparr>"

definition op_object :: "operation \<Rightarrow> nat option" where
  "op_object o1 = op_event o1"

text \<open>The setter does not look at its argument.\<close>

definition op_set_object :: "nat option \<Rightarrow> operation \<Rightarrow> operation" where
  "op_set_object obj o1 = o1\<lparr>op_event := None\<rparr>"

definition op_reset :: operation where
  "op_reset = \<lparr>op_internal = 0, op_high = None, op_offset = 0, op_event = None\<rparr>"

section \<open>State\<close>

text \<open>\<open>CreateIoCompletionPort\<close> fails with \<open>NULL\<close>; a port that is not open is \<open>INVALID_HANDLE_VALUE\<close>.\<close>

datatype port_handle = Port_Invalid | Port_Null | Port_Open

text \<open>\<open>tl_packets\<close> are the packets posted to the port, \<open>tl_flight\<close> the operations of the kernel,
  \<open>tl_extra\<close> what users have added to the count, \<open>tl_called\<close> the operations called.\<close>

record task_loop =
  tl_handle :: port_handle
  tl_ref :: int
  tl_current :: bool
  tl_packets :: "nat list"
  tl_flight :: "nat list"
  tl_queue :: "nat list"
  tl_post_failed :: int
  tl_timers :: "nat list"
  tl_cancelled :: "nat list"
  tl_expires :: "nat \<Rightarrow> date_time"
  tl_op :: "nat \<Rightarrow> operation"
  tl_extra :: int
  tl_called :: "nat list"

text \<open>\<open>_ref\<close> and \<open>_post_failed\<close> have no initializer: the loop starts at 0 when its storage is static.\<close>

definition task_loop_new :: task_loop where
  "task_loop_new =
     \<lparr>tl_handle = Port_Invalid, tl_ref = 0, tl_current = False, tl_packets = [], tl_flight = [], tl_queue = [],
      tl_post_failed = 0, tl_timers = [], tl_cancelled = [], tl_expires = (\<lambda>_. 0), tl_op = (\<lambda>_. op_reset), tl_extra = 0,
      tl_called = []\<rparr>"

type_synonym op_body = "nat \<Rightarrow> task_loop \<Rightarrow> task_loop"

definition upd_op :: "nat \<Rightarrow> (operation \<Rightarrow> operation) \<Rightarrow> task_loop \<Rightarrow> task_loop" where
  "upd_op i f s = s\<lparr>tl_op := (tl_op s)(i := f (tl_op s i))\<rparr>"

definition increment_ref :: "task_loop \<Rightarrow> task_loop" where
  "increment_ref s = s\<lparr>tl_ref := tl_ref s + 1\<rparr>"

definition decrement_ref :: "task_loop \<Rightarrow> task_loop" where
  "decrement_ref s = s\<lparr>tl_ref := tl_ref s - 1\<rparr>"

section \<open>The port\<close>

text \<open>\<open>open\<close>: the handle is compared with the wrong value, so it succeeds always.\<close>

definition port_open :: "bool \<Rightarrow> task_loop \<Rightarrow> task_loop \<times> bool" where
  "port_open created s =
     (let h = (if created then Port_Open else Port_Null) in (s\<lparr>tl_handle := h\<rparr>, h \<noteq> Port_Invalid))"

definition port_close :: "task_loop \<Rightarrow> task_loop" where
  "port_close s = s\<lparr>tl_handle := Port_Invalid\<rparr>"

definition port_bind :: "nat option \<Rightarrow> bool \<Rightarrow> task_loop \<Rightarrow> bool" where
  "port_bind fd bound s = (tl_handle s \<noteq> Port_Null \<and> fd \<noteq> None \<and> bound)"

text \<open>\<open>ok\<close>: what \<open>PostQueuedCompletionStatus\<close> returns.\<close>

definition port_post :: "bool \<Rightarrow> nat \<Rightarrow> task_loop \<Rightarrow> task_loop \<times> bool" where
  "port_post ok op s =
     (if tl_handle s = Port_Null \<or> \<not> ok then (s, False) else (s\<lparr>tl_packets := tl_packets s @ [op]\<rparr>, True))"

text \<open>What \<open>GetQueuedCompletionStatus\<close> returns: an error without a packet, or a packet with its bytes,
  its key, and an error unless \<open>ok\<close>.\<close>

datatype gqcs = Gqcs_Error int | Gqcs_Packet bool int "nat option" nat int

definition WAIT_TIMEOUT :: int where "WAIT_TIMEOUT = 258"
definition ERROR_ABANDONED_WAIT_0 :: int where "ERROR_ABANDONED_WAIT_0 = 735"
definition ERROR_OPERATION_ABORTED :: int where "ERROR_OPERATION_ABORTED = 995"
definition ERROR_INVALID_PARAMETER :: int where "ERROR_INVALID_PARAMETER = 87"

definition posted_operation :: int where
  "posted_operation = -1"

definition eng_on_complete ::
  "op_body \<Rightarrow> error_code option \<Rightarrow> int \<Rightarrow> nat option \<Rightarrow> nat option \<Rightarrow> task_loop \<Rightarrow> task_loop" where
  "eng_on_complete call code io_byte key ov s =
     (case ov of
        None \<Rightarrow> s
      | Some op \<Rightarrow>
          (let s1 = (if io_byte \<noteq> posted_operation
                     then upd_op op (op_set_object key \<circ> op_set_io_byte io_byte \<circ> op_set_error (the code)) s else s)
           in decrement_ref (call op (s1\<lparr>tl_called := tl_called s1 @ [op]\<rparr>))))"

definition port_wait :: "op_body \<Rightarrow> gqcs \<Rightarrow> task_loop \<Rightarrow> task_loop \<times> int" where
  "port_wait call g s =
     (case g of
        Gqcs_Error e \<Rightarrow>
          if e = WAIT_TIMEOUT then (s, 0)
          else if e = ERROR_ABANDONED_WAIT_0 then (s, -1)
          else (eng_on_complete call (Some (platform_error e)) 0 None None s, 1)
      | Gqcs_Packet ok n key op e \<Rightarrow>
          if \<not> ok \<and> e = WAIT_TIMEOUT then (s, 0)
          else if \<not> ok \<and> e = ERROR_ABANDONED_WAIT_0 then (s, -1)
          else (eng_on_complete call (Some (if ok then no_error else platform_error e)) n key (Some op) s, 1))"

section \<open>The engine\<close>

definition eng_post :: "bool \<Rightarrow> nat \<Rightarrow> task_loop \<Rightarrow> task_loop" where
  "eng_post ok op s =
     (let (s1, posted) = port_post ok op s
      in if posted then s1 else s1\<lparr>tl_queue := tl_queue s1 @ [op], tl_post_failed := 1\<rparr>)"

fun eng_drain :: "op_body \<Rightarrow> nat list \<Rightarrow> task_loop \<Rightarrow> task_loop" where
  "eng_drain call [] s = s"
| "eng_drain call (op # ops) s =
     eng_drain call ops
       (eng_on_complete call (op_error (tl_op s op)) posted_operation (op_object (tl_op s op)) (Some op) s)"

text \<open>The calls of the system that start an operation: \<open>None\<close> when a completion will follow, an error
  otherwise; \<open>ok\<close> is for the post of the failed operation.\<close>

definition eng_start :: "int option \<Rightarrow> bool \<Rightarrow> nat \<Rightarrow> task_loop \<Rightarrow> task_loop" where
  "eng_start r ok op s =
     (case r of
        None \<Rightarrow> s\<lparr>tl_flight := tl_flight s @ [op]\<rparr>
      | Some e \<Rightarrow> eng_post ok op (upd_op op (op_set_error (platform_error e)) s))"

definition add_recv_io :: "int option \<Rightarrow> bool \<Rightarrow> nat \<Rightarrow> task_loop \<Rightarrow> task_loop" where
  "add_recv_io r ok op s = eng_start r ok op (upd_op op (\<lambda>_. op_reset) (increment_ref s))"

definition add_recvfrom_io :: "int option \<Rightarrow> bool \<Rightarrow> nat \<Rightarrow> task_loop \<Rightarrow> task_loop" where
  "add_recvfrom_io r ok op s = eng_start r ok op (upd_op op (\<lambda>_. op_reset) (increment_ref s))"

text \<open>\<open>add_send_io\<close>: the buffers that are not empty, 256 of them at most.\<close>

definition send_buffer_size :: nat where "send_buffer_size = 256"

fun send_wsabufs :: "u8 list list \<Rightarrow> nat \<Rightarrow> u8 list list" where
  "send_wsabufs [] i = []"
| "send_wsabufs (b # bs) i =
     (let i1 = (if length b > 0 then Suc i else i)
      in (if length b > 0 then [b] else []) @ (if i1 \<ge> send_buffer_size then [] else send_wsabufs bs i1))"

definition add_send_io :: "u8 list list \<Rightarrow> int option \<Rightarrow> bool \<Rightarrow> nat \<Rightarrow> task_loop \<Rightarrow> task_loop" where
  "add_send_io bufs r ok op s =
     (let s1 = upd_op op (\<lambda>_. op_reset) (increment_ref s)
      in if send_wsabufs bufs 0 = [] then eng_start (Some ERROR_INVALID_PARAMETER) ok op s1 else eng_start r ok op s1)"

definition add_accept_io :: "int option \<Rightarrow> int option \<Rightarrow> bool \<Rightarrow> nat \<Rightarrow> task_loop \<Rightarrow> task_loop" where
  "add_accept_io opened r ok op s =
     (let s1 = upd_op op (\<lambda>_. op_reset) (increment_ref s)
      in case opened of Some e \<Rightarrow> eng_start (Some e) ok op s1 | None \<Rightarrow> eng_start r ok op s1)"

text \<open>\<open>add_connect_io\<close>: \<open>prep\<close> are the results of the calls before \<open>ConnectEx\<close> (the socket, the channel,
  \<open>bind\<close>, the address of the function); the operation is reset after them.\<close>

definition add_connect_io :: "int option list \<Rightarrow> int option \<Rightarrow> bool \<Rightarrow> nat \<Rightarrow> task_loop \<Rightarrow> task_loop" where
  "add_connect_io prep r ok op s =
     (case find (\<lambda>p. p \<noteq> None) prep of
        Some e \<Rightarrow> eng_start e ok op (increment_ref s)
      | None \<Rightarrow> eng_start r ok op (upd_op op (\<lambda>_. op_reset) (increment_ref s)))"

section \<open>Timers\<close>

definition tsk_schedule :: "nat \<Rightarrow> task_loop \<Rightarrow> task_loop" where
  "tsk_schedule i s = increment_ref (s\<lparr>tl_timers := sch_insert (tl_expires s) i (tl_timers s)\<rparr>)"

definition tsk_cancel :: "nat \<Rightarrow> task_loop \<Rightarrow> task_loop \<times> bool" where
  "tsk_cancel i s =
     (if i \<in> set (tl_timers s)
      then (s\<lparr>tl_cancelled := tl_cancelled s @ [i], tl_timers := remove1 i (tl_timers s)\<rparr>, True) else (s, False))"

text \<open>\<open>timer::schedule\<close>\<close>

definition timer_schedule :: "nat \<Rightarrow> date_time \<Rightarrow> task_loop \<Rightarrow> task_loop" where
  "timer_schedule i at s = tsk_schedule i (s\<lparr>tl_expires := (tl_expires s)(i := at)\<rparr>)"

definition timer_cancel :: "nat \<Rightarrow> task_loop \<Rightarrow> task_loop" where
  "timer_cancel i s = fst (tsk_cancel i s)"

definition next_schedule :: "date_time \<Rightarrow> task_loop \<Rightarrow> time_span" where
  "next_schedule local s =
     (if tl_cancelled s \<noteq> [] then ts_from_seconds 0
      else case tl_timers s of
             [] \<Rightarrow> ts_from_milli_seconds 100
           | t # _ \<Rightarrow> if tl_expires s t \<le> local then ts_from_milli_seconds 100 else dt_diff (tl_expires s t) local)"

text \<open>The two loops of \<open>drain\<close>, which may go on when the callbacks schedule or cancel.\<close>

definition timer_call :: "op_body \<Rightarrow> error_code \<Rightarrow> nat \<Rightarrow> task_loop \<Rightarrow> task_loop" where
  "timer_call call ec i s =
     (let s1 = upd_op i (op_set_error ec) s in decrement_ref (call i (s1\<lparr>tl_called := tl_called s1 @ [i]\<rparr>)))"

partial_function (option) drain_cancelled :: "op_body \<Rightarrow> task_loop \<Rightarrow> task_loop option" where
  "drain_cancelled call s =
     (case tl_cancelled s of
        [] \<Rightarrow> Some s
      | i # is \<Rightarrow> drain_cancelled call (timer_call call (platform_error ERROR_OPERATION_ABORTED) i (s\<lparr>tl_cancelled := is\<rparr>)))"

partial_function (option) drain_timers :: "op_body \<Rightarrow> date_time \<Rightarrow> task_loop \<Rightarrow> task_loop option" where
  "drain_timers call local s =
     (case tl_timers s of
        [] \<Rightarrow> Some s
      | i # is \<Rightarrow>
          if tl_expires s i \<le> local
          then drain_timers call local (timer_call call (platform_error 0) i (s\<lparr>tl_timers := is\<rparr>))
          else Some s)"

definition tsk_drain :: "op_body \<Rightarrow> date_time \<Rightarrow> task_loop \<Rightarrow> task_loop option" where
  "tsk_drain call local s = do { s1 \<leftarrow> drain_cancelled call s; drain_timers call local s1 }"

section \<open>The loop\<close>

definition tl_post :: "bool \<Rightarrow> nat \<Rightarrow> task_loop \<Rightarrow> task_loop" where
  "tl_post ok op s = eng_post ok op (increment_ref s)"

text \<open>What the system gives to a round: what other threads do to the loop until the port answers
  (\<open>in_others\<close>), the answer, and the clock of \<open>drain\<close>. An answer with a packet takes it from the port,
  or is the completion of an operation of the kernel.\<close>

datatype delivery = Deliver_Post | Deliver_Io nat bool int "nat option" int | Deliver_None int

record loop_input =
  in_others :: "task_loop \<Rightarrow> task_loop"
  in_delivery :: delivery
  in_local :: date_time

definition port_take :: "delivery \<Rightarrow> task_loop \<Rightarrow> task_loop \<times> gqcs" where
  "port_take d s =
     (case d of
        Deliver_None e \<Rightarrow> (s, Gqcs_Error e)
      | Deliver_Post \<Rightarrow>
          (case tl_packets s of
             [] \<Rightarrow> (s, Gqcs_Error WAIT_TIMEOUT)
           | op # ops \<Rightarrow> (s\<lparr>tl_packets := ops\<rparr>, Gqcs_Packet True posted_operation None op 0))
      | Deliver_Io op ok n key e \<Rightarrow>
          if op \<in> set (tl_flight s) \<and> n \<noteq> posted_operation \<and> e \<notin> {WAIT_TIMEOUT, ERROR_ABANDONED_WAIT_0}
          then (s\<lparr>tl_flight := remove1 op (tl_flight s)\<rparr>, Gqcs_Packet ok n key op e)
          else (s, Gqcs_Error WAIT_TIMEOUT))"

text \<open>\<open>io_engine::run\<close>: the queue is drained when the flag is 0, and the flag is then 1.\<close>

definition eng_run :: "op_body \<Rightarrow> loop_input \<Rightarrow> task_loop \<Rightarrow> task_loop \<times> bool" where
  "eng_run call i s =
     (let s1 = (if tl_post_failed s = 0
                then eng_drain call (tl_queue s) (s\<lparr>tl_post_failed := 1, tl_queue := []\<rparr>) else s);
          (s2, g) = port_take (in_delivery i) (in_others i s1);
          (s3, r) = port_wait call g s2
      in (s3, r \<ge> 0))"

definition tl_round :: "op_body \<Rightarrow> loop_input \<Rightarrow> task_loop \<Rightarrow> task_loop option" where
  "tl_round call i s = tsk_drain call (in_local i) (fst (eng_run call i s))"

text \<open>\<open>run\<close>: the count is read before the round and looked at after it. \<open>False\<close>: the loop still runs
  when the inputs are used up.\<close>

fun tl_run :: "op_body \<Rightarrow> loop_input list \<Rightarrow> task_loop \<Rightarrow> (task_loop \<times> bool) option" where
  "tl_run call [] s = Some (s, False)"
| "tl_run call (i # is) s =
     do { s1 \<leftarrow> tl_round call i (s\<lparr>tl_current := True\<rparr>);
          if tl_ref s = 0 then Some (s1, True) else tl_run call is s1 }"

definition tl_run_once :: "op_body \<Rightarrow> time_span \<Rightarrow> loop_input \<Rightarrow> task_loop \<Rightarrow> (task_loop \<times> bool) option" where
  "tl_run_once call wait i s =
     (let s0 = s\<lparr>tl_current := True\<rparr>
      in if tl_ref s0 = 0 then Some (s0, False)
         else do { s1 \<leftarrow> tl_round call i s0; Some (s1\<lparr>tl_current := False\<rparr>, True) })"

section \<open>Threads of loops\<close>

text \<open>\<open>event_loop_thread::open\<close>: the thread is started when the port was opened, and the result is
  \<open>false\<close> in both cases. The group (\<open>event_loop_group.cpp\<close>) stops at the first that fails.\<close>

definition thread_open :: "bool \<Rightarrow> bool \<times> bool" where
  "thread_open opened = (opened, False)"

fun group_open :: "bool list \<Rightarrow> bool list \<times> bool" where
  "group_open [] = ([], True)"
| "group_open (opened # rest) =
     (let (started, ok) = thread_open opened
      in if \<not> ok then ([started], False)
         else let (threads, r) = group_open rest in (started # threads, r))"

text \<open>\<open>next_loop\<close>: the loop and the next index; \<open>None\<close>: there are no threads.\<close>

definition next_loop :: "'l list \<Rightarrow> nat \<Rightarrow> ('l \<times> nat) option" where
  "next_loop threads idx =
     (if idx < length threads then Some (threads ! idx, Suc idx mod length threads) else None)"

fun next_loops :: "nat \<Rightarrow> 'l list \<Rightarrow> nat \<Rightarrow> ('l list \<times> nat) option" where
  "next_loops 0 threads idx = Some ([], idx)"
| "next_loops (Suc n) threads idx =
     do { (l, idx1) \<leftarrow> next_loop threads idx; (ls, idx2) \<leftarrow> next_loops n threads idx1; Some (l # ls, idx2) }"

lemma next_loops_round_robin:
  "idx < length ts \<Longrightarrow>
   next_loops n ts idx = Some (map (\<lambda>k. ts ! ((idx + k) mod length ts)) [0..<n], (idx + n) mod length ts)"
proof (induction n arbitrary: idx)
  case (Suc n)
  have "Suc idx mod length ts < length ts" using Suc.prems by (cases ts) simp_all
  from Suc.IH[OF this] Suc.prems show ?case
    by (simp add: next_loop_def mod_simps upt_conv_Cons map_Suc_upt[symmetric] o_def del: upt_Suc)
qed simp

lemma group_open_fails: "group_open (o1 # os) = ([o1], False)"
  by (simp add: thread_open_def)

section \<open>The count of the loop\<close>

text \<open>What operations and other threads do with a loop. A timer is scheduled when it is not already.\<close>

inductive tl_api :: "task_loop \<Rightarrow> task_loop \<Rightarrow> bool" where
  tla_post: "tl_api s (tl_post ok op s)"
| tla_recv: "tl_api s (add_recv_io r ok op s)"
| tla_recvfrom: "tl_api s (add_recvfrom_io r ok op s)"
| tla_send: "tl_api s (add_send_io bufs r ok op s)"
| tla_accept: "tl_api s (add_accept_io opened r ok op s)"
| tla_connect: "tl_api s (add_connect_io prep r ok op s)"
| tla_schedule: "i \<notin> set (tl_timers s) \<union> set (tl_cancelled s) \<Longrightarrow> tl_api s (timer_schedule i at s)"
| tla_cancel: "tl_api s (timer_cancel i s)"
| tla_increment: "tl_api s ((increment_ref s)\<lparr>tl_extra := tl_extra s + 1\<rparr>)"
| tla_decrement: "0 < tl_extra s \<Longrightarrow> tl_api s ((decrement_ref s)\<lparr>tl_extra := tl_extra s - 1\<rparr>)"

definition calls_ok :: "op_body \<Rightarrow> bool" where
  "calls_ok call \<longleftrightarrow> (\<forall>op s. tl_api\<^sup>*\<^sup>* s (call op s))"

definition inputs_ok :: "loop_input list \<Rightarrow> bool" where
  "inputs_ok ins \<longleftrightarrow> (\<forall>i \<in> set ins. \<forall>s. tl_api\<^sup>*\<^sup>* s (in_others i s))"

definition tl_outstanding :: "task_loop \<Rightarrow> nat" where
  "tl_outstanding s = length (tl_packets s) + length (tl_flight s) + length (tl_queue s) + length (tl_timers s) +
     length (tl_cancelled s)"

text \<open>The count of the loop is what is outstanding, what users have added, and \<open>j\<close> for the operations
  that are being called.\<close>

definition tl_inv :: "nat \<Rightarrow> task_loop \<Rightarrow> bool" where
  "tl_inv j s \<longleftrightarrow> tl_ref s = int (j + tl_outstanding s) + tl_extra s \<and> 0 \<le> tl_extra s \<and>
     distinct (tl_timers s @ tl_cancelled s) \<and> sorted (map (tl_expires s) (tl_timers s))"

text \<open>What the inside of the loop never undoes: a failed post stays in the queue when the flag is set.\<close>

definition tl_stuck :: "nat list \<Rightarrow> task_loop \<Rightarrow> bool" where
  "tl_stuck q s \<longleftrightarrow> tl_post_failed s \<noteq> 0 \<and> prefix q (tl_queue s)"

lemmas tl_counts = tl_inv_def tl_outstanding_def increment_ref_def decrement_ref_def upd_op_def

lemma upd_op_inv [simp]: "tl_inv j (upd_op op f s) = tl_inv j s"
  by (simp add: tl_counts)

lemma increment_inv [simp]: "tl_inv (Suc j) (increment_ref s) = tl_inv j s"
  by (auto simp: tl_counts)

lemma decrement_inv: "tl_inv (Suc j) s \<Longrightarrow> tl_inv j (decrement_ref s)"
  by (auto simp: tl_counts)

lemma post_inv: "tl_inv (Suc j) s \<Longrightarrow> tl_inv j (eng_post ok op s)"
  by (auto simp: eng_post_def port_post_def tl_counts)

lemma start_inv: "tl_inv (Suc j) s \<Longrightarrow> tl_inv j (eng_start r ok op s)"
proof (cases r)
  case None
  moreover assume "tl_inv (Suc j) s"
  ultimately show ?thesis by (auto simp: eng_start_def tl_counts)
qed (simp add: eng_start_def post_inv)

lemma tl_schedule_inv:
  assumes "i \<notin> set (tl_timers s) \<union> set (tl_cancelled s)" "tl_inv j s"
  shows "tl_inv j (timer_schedule i at s)"
proof -
  have "map ((tl_expires s)(i := at)) (tl_timers s) = map (tl_expires s) (tl_timers s)" using assms(1) by auto
  hence m: "sorted (map ((tl_expires s)(i := at)) (tl_timers s))" using assms(2) by (simp only: tl_inv_def)
  have "mset (sch_insert e i ts) = add_mset i (mset ts)" for e ts by (induction ts) (auto simp: sch_insert_Cons)
  hence "distinct (sch_insert e i ts) = distinct (i # ts)" for e ts
    by (metis mset.simps(2) mset_eq_imp_distinct_iff)
  moreover have "sorted (map ((tl_expires s)(i := at)) (sch_insert ((tl_expires s)(i := at)) i (tl_timers s)))"
    by (rule sorted_sch_insert[OF m])
  ultimately show ?thesis using assms by (auto simp: timer_schedule_def tsk_schedule_def tl_counts)
qed

lemma sorted_remove1: "sorted (map f xs) \<Longrightarrow> sorted (map f (remove1 x xs))"
  by (induction xs) (auto dest: set_remove1_subset[THEN subsetD])

lemma tl_cancel_inv:
  assumes "tl_inv j s" shows "tl_inv j (timer_cancel i s)"
proof (cases "i \<in> set (tl_timers s)")
  case True
  hence "length (tl_timers s) = Suc (length (remove1 i (tl_timers s)))"
    by (simp add: length_remove1) (metis Suc_pred length_pos_if_in_set)
  thus ?thesis
    using assms True set_remove1_subset[of i "tl_timers s"]
    by (auto simp: timer_cancel_def tsk_cancel_def tl_counts sorted_remove1)
qed (use assms in \<open>simp add: timer_cancel_def tsk_cancel_def\<close>)

lemma tl_api_inv: "tl_api s s' \<Longrightarrow> tl_inv j s \<Longrightarrow> tl_inv j s'"
proof (induction rule: tl_api.induct)
  case (tla_increment s)
  thus ?case by (auto simp: tl_counts)
next
  case (tla_decrement s)
  thus ?case by (auto simp: tl_counts)
qed (simp_all add: tl_post_def add_recv_io_def add_recvfrom_io_def add_send_io_def add_accept_io_def add_connect_io_def Let_def
    post_inv start_inv tl_schedule_inv tl_cancel_inv split: option.split)

lemma tl_apis_inv: "tl_api\<^sup>*\<^sup>* s s' \<Longrightarrow> tl_inv j s \<Longrightarrow> tl_inv j s'"
  by (induction rule: rtranclp_induct) (auto intro: tl_api_inv)

section \<open>What every round keeps\<close>

text \<open>A property of the loop that its parts keep: the calls of operations that were taken from the
  port, the kernel or the timers, what others do, and the draining of the queue.\<close>

locale loop_keeps =
  fixes call :: op_body and P :: "task_loop \<Rightarrow> bool"
  assumes api: "tl_api s s' \<Longrightarrow> P s \<Longrightarrow> P s'"
    and posted: "tl_packets s = op # ops \<Longrightarrow> P s \<Longrightarrow>
      P (eng_on_complete call c posted_operation None (Some op) (s\<lparr>tl_packets := ops\<rparr>))"
    and completed: "op \<in> set (tl_flight s) \<Longrightarrow> P s \<Longrightarrow>
      P (eng_on_complete call (Some ec) n key (Some op) (s\<lparr>tl_flight := remove1 op (tl_flight s)\<rparr>))"
    and cancelled: "tl_cancelled s = i # is \<Longrightarrow> P s \<Longrightarrow> P (timer_call call ec i (s\<lparr>tl_cancelled := is\<rparr>))"
    and expired: "tl_timers s = i # is \<Longrightarrow> P s \<Longrightarrow> P (timer_call call ec i (s\<lparr>tl_timers := is\<rparr>))"
    and drained: "tl_post_failed s = 0 \<Longrightarrow> P s \<Longrightarrow> P (eng_drain call (tl_queue s) (s\<lparr>tl_post_failed := 1, tl_queue := []\<rparr>))"
    and current: "P s \<Longrightarrow> P (s\<lparr>tl_current := True\<rparr>)"
begin

lemma apis: "tl_api\<^sup>*\<^sup>* s s' \<Longrightarrow> P s \<Longrightarrow> P s'"
  by (induction rule: rtranclp_induct) (auto intro: api)

lemma take_wait:
  assumes "P s"
  shows "P (fst (port_wait call (snd (port_take d s)) (fst (port_take d s))))"
proof (cases d)
  case Deliver_Post
  thus ?thesis using assms posted[of s]
    by (cases "tl_packets s") (auto simp: port_take_def port_wait_def)
next
  case (Deliver_Io op ok n key e)
  thus ?thesis using assms completed[of op s]
    by (auto simp: port_take_def port_wait_def)
next
  case (Deliver_None e)
  thus ?thesis using assms by (auto simp: port_take_def port_wait_def eng_on_complete_def)
qed

lemma engine:
  assumes "P s" "\<And>s. tl_api\<^sup>*\<^sup>* s (in_others i s)"
  shows "P (fst (eng_run call i s))"
proof -
  let ?s1 = "if tl_post_failed s = 0 then eng_drain call (tl_queue s) (s\<lparr>tl_post_failed := 1, tl_queue := []\<rparr>) else s"
  have "P (in_others i ?s1)" by (rule apis[OF assms(2)]) (use assms(1) drained in simp)
  from take_wait[OF this, of "in_delivery i"] show ?thesis by (simp add: eng_run_def Let_def split_beta)
qed

lemma drain_cancelled_kept:
  assumes "drain_cancelled call s = Some s'" "P s"
  shows "P s'"
proof -
  have "c = call \<longrightarrow> P s \<longrightarrow> P s'" if "drain_cancelled c s = Some s'" for c s s'
  proof (rule drain_cancelled.raw_induct[where P = "\<lambda>c s s'. c = call \<longrightarrow> P s \<longrightarrow> P s'", OF _ that], intro impI)
    fix f :: "op_body \<Rightarrow> task_loop \<Rightarrow> task_loop option" and c s s'
    assume ih: "\<And>c s s'. f c s = Some s' \<Longrightarrow> c = call \<longrightarrow> P s \<longrightarrow> P s'"
      and r: "(case tl_cancelled s of
          [] \<Rightarrow> Some s
        | i # is \<Rightarrow> f c (timer_call c (platform_error ERROR_OPERATION_ABORTED) i (s\<lparr>tl_cancelled := is\<rparr>))) = Some s'"
      and c: "c = call" and i: "P s"
    show "P s'"
    proof (cases "tl_cancelled s")
      case (Cons t ts)
      thus ?thesis using ih r c cancelled[OF Cons i] by simp
    qed (use r i in simp)
  qed
  thus ?thesis using assms by blast
qed

lemma drain_timers_kept:
  assumes "drain_timers call local s = Some s'" "P s"
  shows "P s'"
proof -
  have "c = call \<longrightarrow> P s \<longrightarrow> P s'" if "drain_timers c local s = Some s'" for c local s s'
  proof (rule drain_timers.raw_induct[where P = "\<lambda>c local s s'. c = call \<longrightarrow> P s \<longrightarrow> P s'", OF _ that], intro impI)
    fix f :: "op_body \<Rightarrow> date_time \<Rightarrow> task_loop \<Rightarrow> task_loop option" and c local s s'
    assume ih: "\<And>c local s s'. f c local s = Some s' \<Longrightarrow> c = call \<longrightarrow> P s \<longrightarrow> P s'"
      and r: "(case tl_timers s of
          [] \<Rightarrow> Some s
        | i # is \<Rightarrow>
            if tl_expires s i \<le> local then f c local (timer_call c (platform_error 0) i (s\<lparr>tl_timers := is\<rparr>)) else Some s) = Some s'"
      and c: "c = call" and i: "P s"
    show "P s'"
    proof (cases "tl_timers s")
      case (Cons t ts)
      show ?thesis
      proof (cases "tl_expires s t \<le> local")
        case True
        thus ?thesis using ih r c Cons expired[OF Cons i] by simp
      qed (use r i Cons in simp)
    qed (use r i in simp)
  qed
  thus ?thesis using assms by blast
qed

lemma round:
  assumes "tl_round call i s = Some s'" "P s" "\<And>s. tl_api\<^sup>*\<^sup>* s (in_others i s)"
  shows "P s'"
  using assms engine[OF assms(2,3)]
  by (auto simp: tl_round_def tsk_drain_def bind_eq_Some_conv intro: drain_cancelled_kept drain_timers_kept)

lemma run:
  assumes "tl_run call ins s = Some (s', fin)" "P s" "inputs_ok ins"
  shows "P s'"
  using assms
proof (induction ins arbitrary: s)
  case (Cons i ins)
  then obtain s1 where s1: "tl_round call i (s\<lparr>tl_current := True\<rparr>) = Some s1"
    "if tl_ref s = 0 then (s', fin) = (s1, True) else tl_run call ins s1 = Some (s', fin)"
    by (auto simp: bind_eq_Some_conv split: if_splits)
  have o: "tl_api\<^sup>*\<^sup>* s (in_others i s)" for s using Cons.prems(3) by (simp add: inputs_ok_def)
  have "P s1" using round[OF s1(1) current[OF Cons.prems(2)] o] .
  thus ?case using s1(2) Cons.IH[of s1] Cons.prems(3) by (auto simp: inputs_ok_def split: if_splits)
qed simp

end

section \<open>The loop counts what is outstanding\<close>

lemma called_inv [simp]: "tl_inv j (s\<lparr>tl_called := cs\<rparr>) = tl_inv j s"
  by (simp add: tl_counts)

lemma tl_call_inv: "calls_ok call \<Longrightarrow> tl_inv j s \<Longrightarrow> tl_inv j (call op s)"
  using tl_apis_inv[of s "call op s"] by (simp add: calls_ok_def)

lemma complete_inv: "calls_ok call \<Longrightarrow> tl_inv (Suc j) s \<Longrightarrow> tl_inv j (eng_on_complete call c n key (Some op) s)"
  by (simp add: eng_on_complete_def Let_def decrement_inv tl_call_inv)

lemma timer_call_inv: "calls_ok call \<Longrightarrow> tl_inv (Suc j) s \<Longrightarrow> tl_inv j (timer_call call ec i s)"
  by (simp add: timer_call_def Let_def decrement_inv tl_call_inv)

lemma eng_drain_inv: "calls_ok call \<Longrightarrow> tl_inv (length ops + j) s \<Longrightarrow> tl_inv j (eng_drain call ops s)"
  by (induction ops arbitrary: s) (simp_all add: complete_inv)

lemma taken_inv:
  "tl_packets s = op # ops \<Longrightarrow> tl_inv j s \<Longrightarrow> tl_inv (Suc j) (s\<lparr>tl_packets := ops\<rparr>)"
  "op \<in> set (tl_flight s) \<Longrightarrow> tl_inv j s \<Longrightarrow> tl_inv (Suc j) (s\<lparr>tl_flight := remove1 op (tl_flight s)\<rparr>)"
  "tl_cancelled s = i # is \<Longrightarrow> tl_inv j s \<Longrightarrow> tl_inv (Suc j) (s\<lparr>tl_cancelled := is\<rparr>)"
  "tl_timers s = i # is \<Longrightarrow> tl_inv j s \<Longrightarrow> tl_inv (Suc j) (s\<lparr>tl_timers := is\<rparr>)"
  "tl_inv j s \<Longrightarrow> tl_inv (length (tl_queue s) + j) (s\<lparr>tl_post_failed := 1, tl_queue := []\<rparr>)"
proof -
  have "op \<in> set xs \<Longrightarrow> length xs = Suc (length (remove1 op xs))" for xs :: "nat list"
    by (simp add: length_remove1) (metis Suc_pred length_pos_if_in_set)
  thus "op \<in> set (tl_flight s) \<Longrightarrow> tl_inv j s \<Longrightarrow> tl_inv (Suc j) (s\<lparr>tl_flight := remove1 op (tl_flight s)\<rparr>)"
    by (auto simp: tl_counts)
qed (auto simp: tl_counts)

interpretation counted: loop_keeps call "\<lambda>s. calls_ok call \<longrightarrow> tl_inv 0 s" for call
proof unfold_locales
  fix s s' assume "tl_api s s'" "calls_ok call \<longrightarrow> tl_inv 0 s"
  thus "calls_ok call \<longrightarrow> tl_inv 0 s'" using tl_api_inv by blast
next
  fix s op ops c assume "tl_packets s = op # ops" "calls_ok call \<longrightarrow> tl_inv 0 s"
  thus "calls_ok call \<longrightarrow> tl_inv 0 (eng_on_complete call c posted_operation None (Some op) (s\<lparr>tl_packets := ops\<rparr>))"
    by (simp add: complete_inv taken_inv(1))
next
  fix s op ec n key assume "op \<in> set (tl_flight s)" "calls_ok call \<longrightarrow> tl_inv 0 s"
  thus "calls_ok call \<longrightarrow>
      tl_inv 0 (eng_on_complete call (Some ec) n key (Some op) (s\<lparr>tl_flight := remove1 op (tl_flight s)\<rparr>))"
    by (simp add: complete_inv taken_inv(2))
next
  fix s i "is" ec assume "tl_cancelled s = i # is" "calls_ok call \<longrightarrow> tl_inv 0 s"
  thus "calls_ok call \<longrightarrow> tl_inv 0 (timer_call call ec i (s\<lparr>tl_cancelled := is\<rparr>))"
    by (simp add: timer_call_inv taken_inv(3))
next
  fix s i "is" ec assume "tl_timers s = i # is" "calls_ok call \<longrightarrow> tl_inv 0 s"
  thus "calls_ok call \<longrightarrow> tl_inv 0 (timer_call call ec i (s\<lparr>tl_timers := is\<rparr>))"
    by (simp add: timer_call_inv taken_inv(4))
next
  fix s assume "calls_ok call \<longrightarrow> tl_inv 0 s"
  thus "calls_ok call \<longrightarrow> tl_inv 0 (eng_drain call (tl_queue s) (s\<lparr>tl_post_failed := 1, tl_queue := []\<rparr>))"
    using eng_drain_inv taken_inv(5)[of 0 s] by blast
next
  fix s assume "calls_ok call \<longrightarrow> tl_inv 0 s"
  thus "calls_ok call \<longrightarrow> tl_inv 0 (s\<lparr>tl_current := True\<rparr>)" by (simp add: tl_counts)
qed

text \<open>A failed post, once the flag is set.\<close>

lemma api_stuck: "tl_api s s' \<Longrightarrow> tl_stuck q s \<Longrightarrow> tl_stuck q s'"
  by (induction rule: tl_api.induct)
    (auto simp: tl_post_def add_recv_io_def add_recvfrom_io_def add_send_io_def add_accept_io_def add_connect_io_def Let_def
      eng_start_def eng_post_def port_post_def increment_ref_def decrement_ref_def upd_op_def tl_stuck_def timer_schedule_def
      tsk_schedule_def timer_cancel_def tsk_cancel_def split: option.split)

lemma call_stuck: "calls_ok call \<Longrightarrow> tl_stuck q s \<Longrightarrow> tl_stuck q (call op s)"
proof -
  assume "calls_ok call" "tl_stuck q s"
  hence "tl_api\<^sup>*\<^sup>* s (call op s)" by (simp add: calls_ok_def)
  thus ?thesis by (induction rule: rtranclp_induct) (auto intro: api_stuck \<open>tl_stuck q s\<close>)
qed

lemma stuck_simps [simp]:
  "tl_stuck q (upd_op op f s) = tl_stuck q s" "tl_stuck q (decrement_ref s) = tl_stuck q s"
  "tl_stuck q (s\<lparr>tl_called := cs\<rparr>) = tl_stuck q s" "tl_stuck q (s\<lparr>tl_packets := ps\<rparr>) = tl_stuck q s"
  "tl_stuck q (s\<lparr>tl_flight := fs\<rparr>) = tl_stuck q s" "tl_stuck q (s\<lparr>tl_cancelled := is\<rparr>) = tl_stuck q s"
  "tl_stuck q (s\<lparr>tl_timers := is\<rparr>) = tl_stuck q s" "tl_stuck q (s\<lparr>tl_current := b\<rparr>) = tl_stuck q s"
  by (simp_all add: tl_stuck_def upd_op_def decrement_ref_def)

interpretation stuck: loop_keeps call "\<lambda>s. calls_ok call \<longrightarrow> tl_stuck q s" for call q
proof unfold_locales
  fix s :: task_loop assume "tl_post_failed s = 0" "calls_ok call \<longrightarrow> tl_stuck q s"
  thus "calls_ok call \<longrightarrow> tl_stuck q (eng_drain call (tl_queue s) (s\<lparr>tl_post_failed := 1, tl_queue := []\<rparr>))"
    by (simp add: tl_stuck_def)
qed (auto intro: api_stuck simp: eng_on_complete_def timer_call_def Let_def call_stuck)

lemma tl_run_idle:
  assumes "calls_ok call" "inputs_ok ins" "tl_inv 0 s" "tl_run call ins s = Some (s', True)"
  shows "\<exists>ins1 i ins2 s1. ins = ins1 @ i # ins2 \<and> tl_run call ins1 s = Some (s1, False) \<and> tl_outstanding s1 = 0 \<and> tl_extra s1 = 0"
  using assms
proof (induction ins arbitrary: s)
  case (Cons i ins)
  show ?case
  proof (cases "tl_ref s = 0")
    case True
    hence "tl_outstanding s = 0" "tl_extra s = 0" using Cons.prems(3) by (auto simp: tl_inv_def)
    thus ?thesis by (intro exI[of _ "[]"] exI[of _ i] exI[of _ ins] exI[of _ s]) simp
  next
    case False
    then obtain s1 where s1: "tl_round call i (s\<lparr>tl_current := True\<rparr>) = Some s1" "tl_run call ins s1 = Some (s', True)"
      using Cons.prems(4) by (auto simp: bind_eq_Some_conv)
    have "tl_inv 0 s1"
      using counted.round[OF s1(1)] Cons.prems by (simp add: inputs_ok_def tl_counts)
    from Cons.IH[OF Cons.prems(1) _ this s1(2)] Cons.prems(2)
    obtain ins1 k ins2 s2 where "ins = ins1 @ k # ins2" "tl_run call ins1 s1 = Some (s2, False)" "tl_outstanding s2 = 0" "tl_extra s2 = 0"
      by (auto simp: inputs_ok_def)
    thus ?thesis using s1(1) False
      by (intro exI[of _ "i # ins1"] exI[of _ k] exI[of _ ins2] exI[of _ s2]) simp
  qed
qed simp


abbreviation quiet_input :: loop_input where
  "quiet_input \<equiv> \<lparr>in_others = \<lambda>s. s, in_delivery = Deliver_None WAIT_TIMEOUT, in_local = 50\<rparr>"

abbreviation posted_input :: loop_input where
  "posted_input \<equiv> \<lparr>in_others = \<lambda>s. s, in_delivery = Deliver_Post, in_local = 50\<rparr>"

lemma quiet_ok: "calls_ok (\<lambda>op s. s)" "inputs_ok [posted_input, quiet_input]" "inputs_ok [posted_input]" "inputs_ok [quiet_input]"
  by (simp_all add: calls_ok_def inputs_ok_def)




section \<open>What drain does\<close>

definition leaves_timers :: "op_body \<Rightarrow> bool" where
  "leaves_timers call \<longleftrightarrow> (\<forall>op s. tl_timers (call op s) = tl_timers s \<and> tl_cancelled (call op s) = tl_cancelled s \<and>
     tl_expires (call op s) = tl_expires s \<and> tl_called (call op s) = tl_called s)"

lemma timer_call_fields:
  assumes "leaves_timers call"
  shows "tl_timers (timer_call call ec i s) = tl_timers s" "tl_cancelled (timer_call call ec i s) = tl_cancelled s"
    "tl_expires (timer_call call ec i s) = tl_expires s" "tl_called (timer_call call ec i s) = tl_called s @ [i]"
  using assms by (simp_all add: leaves_timers_def timer_call_def Let_def decrement_ref_def upd_op_def)

lemma drain_cancelled_all:
  assumes "leaves_timers call"
  shows "\<exists>s'. drain_cancelled call s = Some s' \<and> tl_called s' = tl_called s @ tl_cancelled s \<and> tl_cancelled s' = [] \<and>
    tl_timers s' = tl_timers s \<and> tl_expires s' = tl_expires s"
proof (induction "tl_cancelled s" arbitrary: s)
  case Nil
  thus ?case by (simp add: drain_cancelled.simps)
next
  case (Cons i "is")
  let ?s = "timer_call call (platform_error ERROR_OPERATION_ABORTED) i (s\<lparr>tl_cancelled := is\<rparr>)"
  have e: "is = tl_cancelled ?s" "tl_timers ?s = tl_timers s" "tl_expires ?s = tl_expires s" "tl_called ?s = tl_called s @ [i]"
    using timer_call_fields[OF assms] by simp_all
  from Cons(1)[OF e(1)] e Cons(2)[symmetric] show ?case by (subst drain_cancelled.simps) auto
qed

lemma drain_timers_due:
  assumes "leaves_timers call"
  shows "\<exists>s'. drain_timers call local s = Some s' \<and>
    tl_called s' = tl_called s @ takeWhile (\<lambda>t. tl_expires s t \<le> local) (tl_timers s) \<and>
    tl_timers s' = dropWhile (\<lambda>t. tl_expires s t \<le> local) (tl_timers s) \<and> tl_cancelled s' = tl_cancelled s"
proof (induction "tl_timers s" arbitrary: s)
  case Nil
  thus ?case by (simp add: drain_timers.simps)
next
  case (Cons i "is")
  let ?s = "timer_call call (platform_error 0) i (s\<lparr>tl_timers := is\<rparr>)"
  have e: "is = tl_timers ?s" "tl_cancelled ?s = tl_cancelled s" "tl_expires ?s = tl_expires s" "tl_called ?s = tl_called s @ [i]"
    using timer_call_fields[OF assms] by simp_all
  from Cons(1)[OF e(1)] e Cons(2)[symmetric] show ?case by (subst drain_timers.simps) auto
qed

lemma sorted_split:
  "sorted (map f xs) \<Longrightarrow> takeWhile (\<lambda>x. f x \<le> (k::'a::linorder)) xs = filter (\<lambda>x. f x \<le> k) xs \<and>
     dropWhile (\<lambda>x. f x \<le> k) xs = filter (\<lambda>x. \<not> f x \<le> k) xs"
proof (induction xs)
  case (Cons x xs)
  show ?case
  proof (cases "f x \<le> k")
    case False
    hence "\<forall>y \<in> set xs. \<not> f y \<le> k" using Cons.prems by force
    thus ?thesis using False by simp
  qed (use Cons in simp)
qed simp

text \<open>C35. \<open>scheduler::drain\<close>, with timers that do not schedule or cancel when they are called: it ends, and
  has called every timer that was cancelled, then every timer that has expired, by the time of its
  expiry; the others stay.\<close>

theorem task_drain_result:
  assumes "leaves_timers call" "tl_api\<^sup>*\<^sup>* task_loop_new s"
  shows "\<exists>s'. tsk_drain call local s = Some s' \<and> tl_cancelled s' = [] \<and>
    tl_called s' = tl_called s @ tl_cancelled s @ filter (\<lambda>t. tl_expires s t \<le> local) (tl_timers s) \<and>
    tl_timers s' = filter (\<lambda>t. local < tl_expires s t) (tl_timers s) \<and> sorted (map (tl_expires s) (tl_timers s))"
proof -
  have "tl_inv 0 task_loop_new" by (simp add: tl_counts task_loop_new_def)
  hence so: "sorted (map (tl_expires s) (tl_timers s))" using tl_apis_inv assms(2) by (auto simp: tl_inv_def)
  obtain s1 where s1: "drain_cancelled call s = Some s1" "tl_called s1 = tl_called s @ tl_cancelled s" "tl_cancelled s1 = []"
    "tl_timers s1 = tl_timers s" "tl_expires s1 = tl_expires s"
    using drain_cancelled_all[OF assms(1)] by blast
  show ?thesis
    using drain_timers_due[OF assms(1), of local s1] s1 sorted_split[OF so, of local] so by (auto simp: tsk_drain_def not_le)
qed

theorem task_drain_result_witness:
  "\<exists>s s'. tl_api\<^sup>*\<^sup>* task_loop_new s \<and> tsk_drain (\<lambda>op s. s) 20 s = Some s' \<and> tl_called s' = [4, 3, 1] \<and> tl_timers s' = [2]"
proof -
  let ?a = "timer_schedule 1 20 task_loop_new"
  let ?b = "timer_schedule 2 30 ?a"
  let ?c = "timer_schedule 3 10 ?b"
  let ?d = "timer_schedule 4 15 ?c"
  let ?s = "timer_cancel 4 ?d"
  note eval = timer_schedule_def tsk_schedule_def sch_insert_def increment_ref_def task_loop_new_def timer_cancel_def tsk_cancel_def
    dt_less_def
  have "tl_api task_loop_new ?a" by (rule tla_schedule) (simp add: eval)
  moreover have "tl_api ?a ?b" by (rule tla_schedule) (simp add: eval)
  moreover have "tl_api ?b ?c" by (rule tla_schedule) (simp add: eval)
  moreover have "tl_api ?c ?d" by (rule tla_schedule) (simp add: eval)
  moreover have "tl_api ?d ?s" by (rule tla_cancel)
  ultimately have r: "tl_api\<^sup>*\<^sup>* task_loop_new ?s" by (meson converse_rtranclp_into_rtranclp rtranclp.rtrancl_refl)
  have "leaves_timers (\<lambda>op s. s)" by (simp add: leaves_timers_def)
  from task_drain_result[OF this r, of 20] obtain s' where "tsk_drain (\<lambda>op s. s) 20 ?s = Some s'"
    "tl_called s' = tl_called ?s @ tl_cancelled ?s @ filter (\<lambda>t. tl_expires ?s t \<le> 20) (tl_timers ?s)"
    "tl_timers s' = filter (\<lambda>t. 20 < tl_expires ?s t) (tl_timers ?s)"
    by blast
  moreover have "tl_called ?s = [] \<and> tl_cancelled ?s = [4] \<and> tl_timers ?s = [3, 1, 2] \<and> tl_expires ?s 1 = 20 \<and>
      tl_expires ?s 2 = 30 \<and> tl_expires ?s 3 = 10"
    by (simp add: eval)
  ultimately show ?thesis using r by (intro exI[of _ ?s] exI[of _ s']) simp
qed

text \<open>A timer that is due is waited for: the loop is to wait 100 milliseconds, as when there is none.\<close>

lemma task_due_timer_waits:
  assumes "tl_cancelled s = []" "tl_timers s = t # ts" "tl_expires s t \<le> local"
  shows "next_schedule local s = ts_from_milli_seconds 100"
  using assms by (simp add: next_schedule_def)

text \<open>\<open>run\<close> returns from inside its loop and leaves the loop of the thread set; the object of an
  operation is never kept; the failure to open a port is not seen.\<close>

interpretation running: loop_keeps call "\<lambda>s. calls_ok call \<longrightarrow> tl_current s" for call
proof -
  have a: "tl_api s s' \<Longrightarrow> tl_current s' = tl_current s" for s s'
    by (induction rule: tl_api.induct)
      (auto simp: tl_post_def add_recv_io_def add_recvfrom_io_def add_send_io_def add_accept_io_def add_connect_io_def Let_def
        eng_start_def eng_post_def port_post_def increment_ref_def decrement_ref_def upd_op_def timer_schedule_def
        tsk_schedule_def timer_cancel_def tsk_cancel_def split: option.split)
  have "tl_current s' = tl_current s" if "tl_api\<^sup>*\<^sup>* s s'" for s s'
    using that by (induction rule: rtranclp_induct) (auto simp: a)
  hence c: "calls_ok call \<Longrightarrow> tl_current (call op s) = tl_current s" for op s by (simp add: calls_ok_def)
  have o: "calls_ok call \<Longrightarrow> tl_current (eng_on_complete call ec n key (Some op) s) = tl_current s" for ec n key op s
    by (simp add: eng_on_complete_def Let_def decrement_ref_def upd_op_def c)
  have d: "calls_ok call \<Longrightarrow> tl_current (eng_drain call ops s) = tl_current s" for ops s
    by (induction ops arbitrary: s) (simp_all add: o)
  show "loop_keeps call (\<lambda>s. calls_ok call \<longrightarrow> tl_current s)"
    by unfold_locales (auto simp: a o d timer_call_def Let_def decrement_ref_def upd_op_def c)
qed

lemma task_run_leaves_current:
  assumes "calls_ok call" "inputs_ok ins" "tl_run call ins s = Some (s', True)"
  shows "tl_current s'"
proof (cases ins)
  case (Cons i "is")
  have "tl_run call ins (s\<lparr>tl_current := True\<rparr>) = tl_run call ins s" using Cons by simp
  thus ?thesis using running.run[of call ins "s\<lparr>tl_current := True\<rparr>"] assms by simp
qed (use assms in simp)

lemma op_object_lost: "op_object (op_set_object obj o1) = None"
  by (simp add: op_object_def op_set_object_def)

lemma port_open_always: "snd (port_open created s)"
  by (simp add: port_open_def)

end
