(* ===== verification/Stream_Channel.thy ===== *)
theory Stream_Channel
  imports Task_Engine
begin

text \<open>
  Streams of \<open>tdk.task\<close> (\<open>network/tcp/stream.cpp\<close>, with the operations of \<open>send_operation.cpp\<close> and
  \<open>recv_operation.cpp\<close>): one receive and one send are under way at a time; an error and the close are
  reported by closures posted to the loop. Every operation runs under the lock of the stream, or on
  its loop. The handler, the kernel and other threads are parameters.
\<close>

section \<open>State\<close>

datatype post_status = Not_Post | Begin_Post | End_Post

datatype stream_event = On_Recv "u8 list" | On_Send int int | On_Error error_code | On_Close

datatype stream_post = Post_Error error_code | Post_Close | Post_Fd_Close

text \<open>\<open>st_recv\<close> is the room of the buffer of the receive under way, \<open>st_flight\<close> the blocks of the send
  under way. \<open>st_given\<close> and \<open>st_wire\<close> are the blocks accepted by \<open>send\<close> and the bytes that were sent,
  \<open>st_loop_ref\<close> is the stream's share of the count of its loop.\<close>

record stream =
  st_closed :: bool
  st_sending :: bool
  st_send_buffer :: "u8 list list"
  st_ref :: int
  st_error_post :: post_status
  st_close_post :: post_status
  st_recv :: "nat option"
  st_flight :: "u8 list list option"
  st_posts :: "stream_post list"
  st_fd_open :: bool
  st_loop_ref :: int
  st_given :: "u8 list list"
  st_wire :: "u8 list"
  st_trace :: "stream_event list"

text \<open>The constructor; \<open>_ref_count\<close> has no initializer, and is 0 when the storage was.\<close>

definition stream_new :: stream where
  "stream_new =
     \<lparr>st_closed = False, st_sending = False, st_send_buffer = [], st_ref = 0, st_error_post = Not_Post,
      st_close_post = Not_Post, st_recv = None, st_flight = None, st_posts = [], st_fd_open = False, st_loop_ref = 0,
      st_given = [], st_wire = [], st_trace = []\<rparr>"

type_synonym stream_handler = "stream_event \<Rightarrow> stream \<Rightarrow> stream"

definition st_fire :: "stream_handler \<Rightarrow> stream_event \<Rightarrow> stream \<Rightarrow> stream" where
  "st_fire p e s = p e (s\<lparr>st_trace := st_trace s @ [e]\<rparr>)"

definition st_loop_post :: "stream_post \<Rightarrow> stream \<Rightarrow> stream" where
  "st_loop_post q s = s\<lparr>st_posts := st_posts s @ [q]\<rparr>"

section \<open>Opening and closing\<close>

text \<open>\<open>open( handler )\<close>; that of a descriptor opens the channel before.\<close>

definition stream_open :: "stream \<Rightarrow> stream" where
  "stream_open s = s\<lparr>st_fd_open := True, st_loop_ref := st_loop_ref s + 1\<rparr>"

definition stream_open_fd :: "bool \<Rightarrow> stream \<Rightarrow> stream \<times> bool" where
  "stream_open_fd bound s = (if bound then (stream_open s, True) else (s, False))"

text \<open>\<open>channel::close\<close>: at once on the thread of the loop (\<open>here\<close>), by a closure on others.\<close>

definition st_channel_close :: "bool \<Rightarrow> stream \<Rightarrow> stream" where
  "st_channel_close here s = (if here then s\<lparr>st_fd_open := False\<rparr> else st_loop_post Post_Fd_Close s)"

definition st_post_close :: "stream \<Rightarrow> stream" where
  "st_post_close s =
     (if \<not> st_closed s then s
      else if st_close_post s \<noteq> Not_Post then s
      else if st_error_post s \<noteq> End_Post then s
      else if st_ref s = 0 then st_loop_post Post_Close (s\<lparr>st_close_post := Begin_Post\<rparr>)
      else s)"

definition st_post_error :: "error_code \<Rightarrow> stream \<Rightarrow> stream \<times> bool" where
  "st_post_error code s =
     (if st_error_post s = Not_Post then (st_loop_post (Post_Error code) (s\<lparr>st_error_post := Begin_Post\<rparr>), True)
      else (s, False))"

definition st_internal_close :: "bool \<Rightarrow> error_code \<Rightarrow> bool \<Rightarrow> stream \<Rightarrow> stream" where
  "st_internal_close here code closed s =
     (let s1 = (if \<not> st_closed s then s\<lparr>st_closed := closed\<rparr> else s);
          (s2, posted) = st_post_error code (st_channel_close here s1)
      in if posted then s2 else st_post_close s2)"

definition stream_close :: "bool \<Rightarrow> stream \<Rightarrow> stream" where
  "stream_close here s = st_internal_close here (tdk_error Tdk_Network_User_Abort) True s"

definition st_is_closed :: "stream \<Rightarrow> bool" where
  "st_is_closed s = (if st_closed s then True else if st_error_post s \<noteq> Not_Post then True else False)"

text \<open>What the loop does with the closures.\<close>

fun st_run_post :: "stream_handler \<Rightarrow> stream_post \<Rightarrow> stream \<Rightarrow> stream" where
  "st_run_post p (Post_Error code) s = st_fire p (On_Error code) (st_post_close (s\<lparr>st_error_post := End_Post\<rparr>))"
| "st_run_post p Post_Close s =
     st_fire p On_Close (s\<lparr>st_close_post := End_Post, st_loop_ref := st_loop_ref s - 1\<rparr>)"
| "st_run_post p Post_Fd_Close s = s\<lparr>st_fd_open := False\<rparr>"

section \<open>Receiving and sending\<close>

definition stream_recv :: "nat \<Rightarrow> stream \<Rightarrow> stream" where
  "stream_recv space s = s\<lparr>st_ref := st_ref s + 1, st_recv := Some space\<rparr>"

definition st_start_send :: "u8 list list \<Rightarrow> stream \<Rightarrow> stream" where
  "st_start_send bufs s = s\<lparr>st_ref := st_ref s + 1, st_flight := Some bufs\<rparr>"

definition stream_send :: "u8 list \<Rightarrow> stream \<Rightarrow> stream" where
  "stream_send mb s =
     (if st_is_closed s then s
      else
        (let s1 = s\<lparr>st_given := st_given s @ [mb]\<rparr>
         in if st_sending s1 then s1\<lparr>st_send_buffer := st_send_buffer s1 @ [mb]\<rparr>
            else st_start_send [mb] (s1\<lparr>st_sending := True\<rparr>)))"

text \<open>\<open>_on_recv\<close>, the completion of a receive: \<open>bs\<close> are the bytes, \<open>err\<close> the error.\<close>

definition st_on_recv :: "stream_handler \<Rightarrow> error_code \<Rightarrow> u8 list \<Rightarrow> stream \<Rightarrow> stream" where
  "st_on_recv p err bs s =
     (let space = the (st_recv s) - length bs;
          s1 = s\<lparr>st_recv := None, st_ref := st_ref s - 1\<rparr>
      in if is_error err then st_internal_close True err False s1
         else if length bs = 0 \<and> space \<noteq> 0 then st_internal_close True (tdk_error Tdk_Network_Remote_Closed) False s1
         else st_fire p (On_Recv bs) s1)"

text \<open>\<open>send_operation::operator()\<close>: the bytes sent are skipped, block by block. The bound of its loop is
  written \<open>i , size()\<close>, so that only the bytes end it; \<open>None\<close> is a block after the last one.\<close>

fun send_skip :: "u8 list list \<Rightarrow> nat \<Rightarrow> u8 list list option" where
  "send_skip [] n = None"
| "send_skip (b # bs) n =
     (let rd = min (length b) n
      in if n - rd = 0 then Some (drop rd b # bs)
         else map_option ((#) (drop rd b)) (send_skip bs (n - rd)))"

definition total_req_size :: "u8 list list \<Rightarrow> nat" where
  "total_req_size bufs = sum_list (map length bufs)"

definition st_remain_buffers :: "u8 list list \<Rightarrow> u8 list list \<Rightarrow> nat \<Rightarrow> u8 list list \<Rightarrow> u8 list list" where
  "st_remain_buffers bufs rest n buffer = (if total_req_size bufs \<noteq> n then filter (\<lambda>b. length b > 0) rest else []) @ buffer"

definition st_on_send :: "stream_handler \<Rightarrow> error_code \<Rightarrow> nat \<Rightarrow> stream \<Rightarrow> stream option" where
  "st_on_send p err n s = do {
     let bufs = the (st_flight s);
     rest \<leftarrow> send_skip bufs n;
     let s1 = s\<lparr>st_flight := None, st_ref := st_ref s - 1, st_wire := st_wire s @ take n (concat bufs)\<rparr>;
     if is_error err then Some (st_internal_close True err False s1)
     else do {
       let remain = st_remain_buffers bufs rest n (st_send_buffer s1);
       let s2 = s1\<lparr>st_send_buffer := [], st_sending := st_sending s1 \<and> remain \<noteq> []\<rparr>;
       let s3 = (if remain \<noteq> [] then st_start_send remain s2 else s2);
       Some (st_fire p (On_Send (int n) (int (total_req_size remain))) s3)
     } }"

text \<open>\<open>reset\<close> deletes the operations.\<close>

definition stream_reset :: "stream \<Rightarrow> stream" where
  "stream_reset s =
     s\<lparr>st_recv := None, st_flight := None, st_send_buffer := [], st_sending := False, st_closed := False,
       st_error_post := Not_Post, st_close_post := Not_Post\<rparr>"

section \<open>Runs\<close>

text \<open>What handlers and users do: they receive when no receive is under way and the close is not being
  reported.\<close>

inductive stream_api :: "stream \<Rightarrow> stream \<Rightarrow> bool" where
  sa_close: "stream_api s (stream_close here s)"
| sa_send: "stream_api s (stream_send mb s)"
| sa_recv: "st_recv s = None \<Longrightarrow> st_close_post s = Not_Post \<Longrightarrow> stream_api s (stream_recv space s)"

definition handler_ok :: "stream_handler \<Rightarrow> bool" where
  "handler_ok p \<longleftrightarrow> (\<forall>e s. stream_api\<^sup>*\<^sup>* s (p e s))"

text \<open>The kernel writes no more than there is room, and sends no more than it was given (theory
  \<open>Task_Engine\<close>, \<open>add_send_io\<close>); a send of nothing fails.\<close>

inductive stream_step :: "stream_handler \<Rightarrow> stream \<Rightarrow> stream \<Rightarrow> bool" for p where
  ss_call: "stream_api s s' \<Longrightarrow> stream_step p s s'"
| ss_recv: "st_recv s = Some space \<Longrightarrow> length bs \<le> space \<Longrightarrow> stream_step p s (st_on_recv p err bs s)"
| ss_send: "st_flight s = Some bufs \<Longrightarrow> n \<le> length (concat (send_wsabufs bufs 0)) \<Longrightarrow>
    send_wsabufs bufs 0 = [] \<longrightarrow> is_error err \<Longrightarrow> st_on_send p err n s = Some s' \<Longrightarrow> stream_step p s s'"
| ss_post: "st_posts s = q # qs \<Longrightarrow> stream_step p s (st_run_post p q (s\<lparr>st_posts := qs\<rparr>))"

section \<open>The invariant\<close>

definition st_errors :: "stream \<Rightarrow> nat" where
  "st_errors s = length (filter (\<lambda>e. case e of On_Error _ \<Rightarrow> True | _ \<Rightarrow> False) (st_trace s))"

definition st_closes :: "stream \<Rightarrow> nat" where
  "st_closes s = length (filter (\<lambda>e. e = On_Close) (st_trace s))"

definition posted_errors :: "stream \<Rightarrow> nat" where
  "posted_errors s = length (filter (\<lambda>q. case q of Post_Error _ \<Rightarrow> True | _ \<Rightarrow> False) (st_posts s))"

definition posted_closes :: "stream \<Rightarrow> nat" where
  "posted_closes s = length (filter (\<lambda>q. q = Post_Close) (st_posts s))"

definition st_posts_ok :: "stream \<Rightarrow> bool" where
  "st_posts_ok s \<longleftrightarrow>
     posted_errors s = of_bool (st_error_post s = Begin_Post) \<and> st_errors s = of_bool (st_error_post s = End_Post) \<and>
     posted_closes s = of_bool (st_close_post s = Begin_Post) \<and> st_closes s = of_bool (st_close_post s = End_Post) \<and>
     st_loop_ref s = 1 - of_bool (st_close_post s = End_Post)"

definition st_pending_ok :: "stream \<Rightarrow> bool" where
  "st_pending_ok s \<longleftrightarrow>
     st_ref s = of_bool (st_recv s \<noteq> None) + of_bool (st_flight s \<noteq> None) \<and>
     (st_flight s \<noteq> None \<longrightarrow> st_sending s \<and> the (st_flight s) \<noteq> []) \<and>
     (st_close_post s \<noteq> Not_Post \<longrightarrow> st_closed s \<and> st_error_post s = End_Post \<and> st_recv s = None \<and> st_flight s = None) \<and>
     (st_closed s \<longrightarrow> st_error_post s \<noteq> Not_Post)"

definition st_bytes_ok :: "stream \<Rightarrow> bool" where
  "st_bytes_ok s \<longleftrightarrow>
     (st_flight s = None \<and> st_error_post s = Not_Post \<longrightarrow> \<not> st_sending s) \<and>
     (\<not> st_sending s \<longrightarrow> st_send_buffer s = []) \<and>
     prefix (st_wire s) (concat (st_given s)) \<and>
     (st_flight s \<noteq> None \<longrightarrow> st_wire s @ concat (the (st_flight s)) @ concat (st_send_buffer s) = concat (st_given s)) \<and>
     (st_flight s = None \<and> \<not> st_sending s \<longrightarrow> st_wire s = concat (st_given s))"

definition stream_inv :: "stream \<Rightarrow> bool" where
  "stream_inv s \<longleftrightarrow> st_posts_ok s \<and> st_pending_ok s \<and> st_bytes_ok s"

lemmas st_counts = st_posts_ok_def st_pending_ok_def st_bytes_ok_def posted_errors_def posted_closes_def st_errors_def st_closes_def
  st_loop_post_def

lemma channel_close_inv: "stream_inv s \<Longrightarrow> stream_inv (st_channel_close here s)"
  by (auto simp: stream_inv_def st_counts st_channel_close_def)

lemma post_close_inv: "stream_inv s \<Longrightarrow> stream_inv (st_post_close s)"
  by (auto simp: stream_inv_def st_counts st_post_close_def split: if_splits)

lemma internal_close_inv:
  assumes "stream_inv s" shows "stream_inv (st_internal_close here code closed s)"
proof -
  let ?s = "if \<not> st_closed s then s\<lparr>st_closed := closed\<rparr> else s"
  show ?thesis
  proof (cases "st_error_post s = Not_Post")
    case True
    let ?c = "st_channel_close here ?s"
    have e: "st_internal_close here code closed s = st_loop_post (Post_Error code) (?c\<lparr>st_error_post := Begin_Post\<rparr>)"
      using True by (simp add: st_internal_close_def st_post_error_def st_channel_close_def st_loop_post_def Let_def)
    show ?thesis
      using assms True unfolding e by (auto simp: stream_inv_def st_counts st_channel_close_def split: if_splits)
  next
    case False
    hence "stream_inv ?s" using assms by (auto simp: stream_inv_def st_counts)
    from post_close_inv[OF channel_close_inv[OF this]] False show ?thesis
      by (simp add: st_internal_close_def st_post_error_def st_channel_close_def st_loop_post_def Let_def)
  qed
qed

lemma api_kept: "stream_api s s' \<Longrightarrow> stream_inv s \<Longrightarrow> stream_inv s'"
proof (induction rule: stream_api.induct)
  case (sa_close s here)
  thus ?case by (simp add: stream_close_def internal_close_inv)
next
  case (sa_send s mb)
  show ?case
  proof (cases "st_is_closed s")
    case False
    hence "\<not> st_closed s" "st_error_post s = Not_Post" by (auto simp: st_is_closed_def split: if_splits)
    thus ?thesis using sa_send False
      by (auto simp: stream_send_def st_start_send_def Let_def stream_inv_def st_counts)
  qed (use sa_send in \<open>simp add: stream_send_def\<close>)
next
  case (sa_recv s space)
  thus ?case by (auto simp: stream_recv_def stream_inv_def st_counts)
qed

lemma apis_kept: "stream_api\<^sup>*\<^sup>* s s' \<Longrightarrow> stream_inv s \<Longrightarrow> stream_inv s'"
  by (induction rule: rtranclp_induct) (auto intro: api_kept)

lemma fire_kept:
  assumes "handler_ok p" "stream_inv (s\<lparr>st_trace := st_trace s @ [e]\<rparr>)"
  shows "stream_inv (st_fire p e s)"
  using apis_kept[of "s\<lparr>st_trace := st_trace s @ [e]\<rparr>" "st_fire p e s"] assms by (simp add: st_fire_def handler_ok_def)

lemma stream_traced_inv:
  assumes "stream_inv s" "\<And>c. e \<noteq> On_Error c" "e \<noteq> On_Close"
  shows "stream_inv (s\<lparr>st_trace := st_trace s @ [e]\<rparr>)"
proof -
  have "\<not> (case e of On_Error _ \<Rightarrow> True | _ \<Rightarrow> False)" using assms(2) by (cases e) auto
  thus ?thesis using assms(1,3) by (simp add: stream_inv_def st_counts)
qed

lemma stream_on_recv_kept:
  assumes p: "handler_ok p" and i: "stream_inv s" "st_recv s = Some space"
  shows "stream_inv (st_on_recv p err bs s)"
proof -
  let ?s = "s\<lparr>st_recv := None, st_ref := st_ref s - 1\<rparr>"
  have "stream_inv ?s" using i by (auto simp: stream_inv_def st_counts)
  thus ?thesis
    using internal_close_inv fire_kept[OF p stream_traced_inv] by (simp add: st_on_recv_def Let_def)
qed

lemma run_post_kept:
  assumes p: "handler_ok p" and i: "stream_inv s" "st_posts s = q # qs"
  shows "stream_inv (st_run_post p q (s\<lparr>st_posts := qs\<rparr>))"
proof (cases q)
  case (Post_Error c)
  let ?e = "s\<lparr>st_posts := qs, st_error_post := End_Post\<rparr>"
  have b: "st_error_post s = Begin_Post"
    using i Post_Error by (auto simp: stream_inv_def st_counts of_bool_def split: if_splits)
  hence "stream_inv (?e\<lparr>st_trace := st_trace ?e @ [On_Error c]\<rparr>)"
    using i Post_Error by (auto simp: stream_inv_def st_counts)
  moreover have "(st_post_close ?e)\<lparr>st_trace := st_trace (st_post_close ?e) @ [On_Error c]\<rparr> =
      st_post_close (?e\<lparr>st_trace := st_trace ?e @ [On_Error c]\<rparr>)"
    by (cases s) (simp add: st_post_close_def st_loop_post_def)
  ultimately have "stream_inv ((st_post_close ?e)\<lparr>st_trace := st_trace (st_post_close ?e) @ [On_Error c]\<rparr>)"
    using post_close_inv by simp
  from fire_kept[OF p this] Post_Error show ?thesis by simp
next
  case Post_Close
  let ?e = "s\<lparr>st_posts := qs, st_close_post := End_Post, st_loop_ref := st_loop_ref s - 1\<rparr>"
  have b: "st_close_post s = Begin_Post"
    using i Post_Close by (auto simp: stream_inv_def st_counts of_bool_def split: if_splits)
  hence "stream_inv (?e\<lparr>st_trace := st_trace ?e @ [On_Close]\<rparr>)"
    using i Post_Close by (auto simp: stream_inv_def st_counts)
  from fire_kept[OF p this] Post_Close show ?thesis by simp
next
  case Post_Fd_Close
  thus ?thesis using i by (auto simp: stream_inv_def st_counts)
qed

section \<open>A send that completes\<close>

lemma wsabufs_length: "length (concat (send_wsabufs bs i)) \<le> length (concat bs)"
  by (induction bs i rule: send_wsabufs.induct) (auto simp: Let_def intro: trans_le_add2)

lemma send_skip_some:
  "bs \<noteq> [] \<Longrightarrow> n \<le> length (concat bs) \<Longrightarrow> \<exists>rest. send_skip bs n = Some rest \<and> concat rest = drop n (concat bs)"
proof (induction bs n rule: send_skip.induct)
  case (2 b bs n)
  show ?case
  proof (cases "n \<le> length b")
    case False
    hence "bs \<noteq> []" "n - length b \<le> length (concat bs)" using 2(3) by auto
    thus ?thesis using 2(1)[of "length b"] False by (auto simp: Let_def)
  qed (simp add: Let_def)
qed simp

lemma total_req_size_concat: "total_req_size bs = length (concat bs)"
  by (simp add: total_req_size_def length_concat)

lemma concat_filter_nonempty: "concat (filter (\<lambda>b. b \<noteq> []) bs) = concat bs"
  by (induction bs) auto

lemma stream_on_send_kept:
  assumes p: "handler_ok p" and i: "stream_inv s" "st_flight s = Some bufs" and n: "n \<le> length (concat bufs)"
    and h: "st_on_send p err n s = Some s'"
  shows "stream_inv s'"
proof -
  let ?s = "s\<lparr>st_flight := None, st_ref := st_ref s - 1, st_wire := st_wire s @ take n (concat bufs)\<rparr>"
  have ne: "bufs \<noteq> []" "st_sending s" "st_close_post s = Not_Post" using i by (auto simp: stream_inv_def st_pending_ok_def)
  obtain rest where r: "send_skip bufs n = Some rest" "concat rest = drop n (concat bufs)" using send_skip_some[OF ne(1) n] by blast
  have w: "st_wire s @ concat bufs @ concat (st_send_buffer s) = concat (st_given s)"
    using i by (simp add: stream_inv_def st_bytes_ok_def)
  have g: "(st_wire s @ take n (concat bufs)) @ drop n (concat bufs) @ concat (st_send_buffer s) = concat (st_given s)"
    using w by (metis append_assoc append_take_drop_id)
  have pre: "prefix (st_wire s @ take n (concat bufs)) (concat (st_given s))" unfolding g[symmetric] by (rule prefixI[OF refl])
  show ?thesis
  proof (cases "is_error err")
    case True
    hence s': "s' = st_internal_close True err False ?s" using h i(2) r by (simp add: st_on_send_def)
    show ?thesis
    proof (cases "st_error_post s = Not_Post")
      case False
      hence "stream_inv ?s" using i ne pre by (auto simp: stream_inv_def st_counts)
      thus ?thesis using internal_close_inv s' by simp
    next
      case e: True
      let ?c = "st_channel_close True (if \<not> st_closed s then ?s\<lparr>st_closed := False\<rparr> else ?s)"
      have "s' = st_loop_post (Post_Error err) (?c\<lparr>st_error_post := Begin_Post\<rparr>)"
        using e by (simp add: s' st_internal_close_def st_post_error_def st_channel_close_def Let_def)
      thus ?thesis using i ne pre e by (auto simp: stream_inv_def st_counts st_channel_close_def)
    qed
  next
    case False
    define R where "R = st_remain_buffers bufs rest n (st_send_buffer s)"
    let ?a = "?s\<lparr>st_send_buffer := [], st_sending := R \<noteq> []\<rparr>"
    let ?b = "if R \<noteq> [] then st_start_send R ?a else ?a"
    have R: "concat R = drop n (concat bufs) @ concat (st_send_buffer s)"
      using r(2) n by (auto simp: R_def st_remain_buffers_def total_req_size_concat concat_filter_nonempty)
    have s': "s' = st_fire p (On_Send (int n) (int (total_req_size R))) ?b"
      using h i(2) r(1) False ne(2)
      by (cases "st_remain_buffers bufs rest n (st_send_buffer s) = []") (simp_all add: st_on_send_def R_def Let_def)
    have gR: "(st_wire s @ take n (concat bufs)) @ concat R = concat (st_given s)" using g R by simp
    have "stream_inv ?b"
    proof (cases "R = []")
      case True
      hence "st_wire s @ take n (concat bufs) = concat (st_given s)" using gR by simp
      thus ?thesis using True i ne pre by (simp add: stream_inv_def st_counts)
    next
      case False
      thus ?thesis using i ne pre gR by (simp add: stream_inv_def st_counts st_start_send_def)
    qed
    thus ?thesis using fire_kept[OF p stream_traced_inv] s' by simp
  qed
qed

lemma step_kept:
  assumes p: "handler_ok p" and i: "stream_inv s" and s: "stream_step p s s'"
  shows "stream_inv s'"
  using s
proof (cases rule: stream_step.cases)
  case ss_call
  thus ?thesis using api_kept i by blast
next
  case (ss_recv space bs err)
  thus ?thesis using stream_on_recv_kept[OF p i] by simp
next
  case (ss_send bufs n err)
  thus ?thesis using stream_on_send_kept[OF p i] wsabufs_length[of bufs 0] by (meson le_trans)
next
  case (ss_post q qs)
  thus ?thesis using run_post_kept[OF p i] by simp
qed

lemma stream_opened_inv: "stream_inv (stream_open stream_new)"
  by (simp add: stream_inv_def st_counts stream_open_def stream_new_def)

lemma stream_reachable_inv:
  assumes "handler_ok p" "(stream_step p)\<^sup>*\<^sup>* (stream_open stream_new) s"
  shows "stream_inv s"
  using assms(2) by (induction rule: rtranclp_induct) (auto intro: stream_opened_inv step_kept[OF assms(1)])

section \<open>Properties\<close>



text \<open>A handler that does nothing.\<close>

definition idle_handler :: stream_handler where
  "idle_handler e s = s"

lemma idle_handler_ok: "handler_ok idle_handler"
  by (simp add: handler_ok_def idle_handler_def)

lemmas st_eval = st_fire_def idle_handler_def stream_new_def stream_open_def stream_close_def st_internal_close_def st_post_error_def
  st_channel_close_def st_loop_post_def st_post_close_def stream_recv_def st_on_recv_def stream_send_def st_start_send_def
  st_is_closed_def is_error_def no_error_def



text \<open>A receive that completes after \<open>close\<close> was called and the error reported does not look whether it was
  the last operation: when the handler does not ask for more, \<open>on_close\<close> is never called and the
  stream counts for its loop forever.\<close>

theorem stream_close_lost:
  "\<exists>s. (stream_step idle_handler)\<^sup>*\<^sup>* (stream_open stream_new) s \<and> st_closed s \<and> st_errors s = 1 \<and> st_closes s = 0 \<and>
     st_posts s = [] \<and> st_recv s = None \<and> st_flight s = None \<and> st_loop_ref s = 1"
proof -
  let ?r = "stream_recv 8 (stream_open stream_new)"
  let ?a = "stream_close True ?r"
  let ?e = "st_run_post idle_handler (Post_Error (tdk_error Tdk_Network_User_Abort)) (?a\<lparr>st_posts := []\<rparr>)"
  let ?s = "st_on_recv idle_handler no_error [1] ?e"
  have "stream_step idle_handler (stream_open stream_new) ?r" by (intro ss_call sa_recv) (simp_all add: st_eval)
  moreover have "stream_step idle_handler ?r ?a" by (intro ss_call sa_close)
  moreover have "stream_step idle_handler ?a ?e" by (rule ss_post) (simp add: st_eval)
  moreover have "stream_step idle_handler ?e ?s" by (rule ss_recv[where space = 8]) (simp_all add: st_eval)
  ultimately have "(stream_step idle_handler)\<^sup>*\<^sup>* (stream_open stream_new) ?s"
    by (meson converse_rtranclp_into_rtranclp rtranclp.rtrancl_refl)
  moreover have "st_closed ?s \<and> st_errors ?s = 1 \<and> st_closes ?s = 0 \<and> st_posts ?s = [] \<and> st_recv ?s = None \<and> st_flight ?s = None \<and>
      st_loop_ref ?s = 1"
    by (simp add: st_eval st_errors_def st_closes_def)
  ultimately show ?thesis by blast
qed

text \<open>An empty message is an error of the stream: the engine has no buffer for it, and every completion
  of the send that follows carries \<open>ERROR_INVALID_PARAMETER\<close>.\<close>

lemma stream_empty_message: "send_wsabufs [[]] 0 = []" "add_send_io [[]] r ok op s =
    eng_start (Some ERROR_INVALID_PARAMETER) ok op (upd_op op (\<lambda>_. op_reset) (increment_ref s))"
  by (simp_all add: add_send_io_def send_buffer_size_def)

end
