(* ===== verification/Atomic_Win.thy ===== *)
theory Atomic_Win
  imports Prelude
begin

text \<open>
  Atomic integers of the Windows build (\<open>threading/atomic/atomic_win32.cpp\<close>), of 32 or 64 bits. The
  locked instructions and \<open>Interlocked\<close> functions are one step; the loops around a
  compare-and-swap, which the 32-bit build uses for all 64-bit operations, take one step to read the
  cell and one to swap, and any number of threads run them side by side.
\<close>

section \<open>The operations\<close>

definition win_increment :: "'a::len word \<Rightarrow> 'a word \<times> 'a word" where
  "win_increment v = (v + 1, v + 1)"

definition win_decrement :: "'a::len word \<Rightarrow> 'a word \<times> 'a word" where
  "win_decrement v = (v - 1, v - 1)"

definition win_exchange :: "'a::len word \<Rightarrow> 'a word \<Rightarrow> 'a word \<times> 'a word" where
  "win_exchange change v = (change, v)"

definition win_cas :: "'a::len word \<Rightarrow> 'a word \<Rightarrow> 'a word \<Rightarrow> 'a word \<times> 'a word" where
  "win_cas change compare v = (if v = compare then change else v, v)"

definition win_cas_bool :: "'a::len word \<Rightarrow> 'a word \<Rightarrow> 'a word \<Rightarrow> 'a word \<times> bool" where
  "win_cas_bool change compare v = (let (v1, r) = win_cas change compare v in (v1, r = compare))"

text \<open>Where a thread is in the loop: before it reads the cell, or before it swaps what it read for
  the new value. A step gives the cell and where the thread is then, or its result.\<close>

datatype 'a cas_place = At_Read | At_Swap 'a

definition cas_loop ::
  "('a::len word \<Rightarrow> 'a word) \<Rightarrow> ('a word \<Rightarrow> 'a word) \<Rightarrow> 'a word cas_place \<Rightarrow> 'a word \<Rightarrow> 'a word \<times> ('a word cas_place + 'a word)" where
  "cas_loop new result pl v =
     (case pl of
        At_Read \<Rightarrow> (v, Inl (At_Swap v))
      | At_Swap old \<Rightarrow>
          (let (v1, r) = win_cas (new old) old v in (v1, if r \<noteq> old then Inl At_Read else Inr (result old))))"

definition win_add where
  "win_add a = cas_loop (\<lambda>old. old + a) (\<lambda>old. old + a)"

definition win64_increment where
  "win64_increment = cas_loop (\<lambda>old. old + 1) (\<lambda>old. old + 1)"

definition win64_decrement where
  "win64_decrement = cas_loop (\<lambda>old. old - 1) (\<lambda>old. old - 1)"

definition win64_exchange where
  "win64_exchange change = cas_loop (\<lambda>old. change) (\<lambda>old. old)"

text \<open>\<open>_or\<close> and \<open>_and\<close> of the class template in \<open>atomic.hpp\<close>.\<close>

definition win_or where
  "win_or a = cas_loop (\<lambda>old. or old a) (\<lambda>old. old)"

definition win_and where
  "win_and a = cas_loop (\<lambda>old. and old a) (\<lambda>old. old)"

section \<open>Threads\<close>

datatype 'a atomic_op =
  At_Increment | At_Decrement | At_Exchange 'a | At_Cas 'a 'a | At_Add 'a | At_Or 'a | At_And 'a

text \<open>One step of an operation, of 64 bits on a 32-bit machine when \<open>wide\<close>.\<close>

definition one_step :: "'a::len word \<times> 'a word \<Rightarrow> 'a word \<times> ('a word cas_place + 'a word)" where
  "one_step p = (fst p, Inr (snd p))"

fun op_step ::
  "bool \<Rightarrow> 'a::len word atomic_op \<Rightarrow> 'a word cas_place \<Rightarrow> 'a word \<Rightarrow> 'a word \<times> ('a word cas_place + 'a word)" where
  "op_step wide At_Increment pl v = (if wide then win64_increment pl v else one_step (win_increment v))"
| "op_step wide At_Decrement pl v = (if wide then win64_decrement pl v else one_step (win_decrement v))"
| "op_step wide (At_Exchange c) pl v = (if wide then win64_exchange c pl v else one_step (win_exchange c v))"
| "op_step wide (At_Cas c cmp) pl v = one_step (win_cas c cmp v)"
| "op_step wide (At_Add a) pl v = win_add a pl v"
| "op_step wide (At_Or a) pl v = win_or a pl v"
| "op_step wide (At_And a) pl v = win_and a pl v"

text \<open>A cell and the threads in one of its operations. The other fields record history: the
  operations that have returned, with their results, in the order of their last steps; how many of
  them there were when a thread read the cell last; and how often a swap of a thread has failed.\<close>

record 'a atomic_cell =
  ac_value :: 'a
  ac_calls :: "nat \<Rightarrow> ('a atomic_op \<times> 'a cas_place) option"
  ac_done :: "(nat \<times> 'a atomic_op \<times> 'a) list"
  ac_read_at :: "nat \<Rightarrow> nat"
  ac_failed :: "nat \<Rightarrow> nat"

definition cell_new :: "'a \<Rightarrow> 'a atomic_cell" where
  "cell_new v = \<lparr>ac_value = v, ac_calls = (\<lambda>t. None), ac_done = [], ac_read_at = (\<lambda>t. 0), ac_failed = (\<lambda>t. 0)\<rparr>"

definition cell_start :: "nat \<Rightarrow> 'a atomic_op \<Rightarrow> 'a atomic_cell \<Rightarrow> 'a atomic_cell" where
  "cell_start t op s =
     s\<lparr>ac_calls := (ac_calls s)(t \<mapsto> (op, At_Read))\<rparr>"

definition cell_run :: "bool \<Rightarrow> nat \<Rightarrow> 'a::len word atomic_op \<Rightarrow> 'a word cas_place \<Rightarrow> 'a word atomic_cell \<Rightarrow> 'a word atomic_cell" where
  "cell_run wide t op pl s =
     (case op_step wide op pl (ac_value s) of
        (v, Inl (At_Swap old)) \<Rightarrow>
          s\<lparr>ac_value := v, ac_calls := (ac_calls s)(t \<mapsto> (op, At_Swap old)), ac_read_at := (ac_read_at s)(t := length (ac_done s))\<rparr>
      | (v, Inl At_Read) \<Rightarrow>
          s\<lparr>ac_value := v, ac_calls := (ac_calls s)(t \<mapsto> (op, At_Read)), ac_failed := (ac_failed s)(t := Suc (ac_failed s t))\<rparr>
      | (v, Inr r) \<Rightarrow>
          s\<lparr>ac_value := v, ac_calls := (ac_calls s)(t := None), ac_done := ac_done s @ [(t, op, r)]\<rparr>)"

inductive cell_step :: "bool \<Rightarrow> 'a::len word atomic_cell \<Rightarrow> 'a word atomic_cell \<Rightarrow> bool" for wide where
  cs_start: "ac_calls s t = None \<Longrightarrow> cell_step wide s (cell_start t op s)"
| cs_run: "ac_calls s t = Some (op, pl) \<Longrightarrow> cell_step wide s (cell_run wide t op pl s)"

section \<open>What an operation means\<close>

fun op_spec :: "'a::len word atomic_op \<Rightarrow> 'a word \<Rightarrow> 'a word \<times> 'a word" where
  "op_spec At_Increment v = (v + 1, v + 1)"
| "op_spec At_Decrement v = (v - 1, v - 1)"
| "op_spec (At_Exchange c) v = (c, v)"
| "op_spec (At_Cas c cmp) v = (if v = cmp then c else v, v)"
| "op_spec (At_Add a) v = (v + a, v + a)"
| "op_spec (At_Or a) v = (or v a, v)"
| "op_spec (At_And a) v = (and v a, v)"

text \<open>The value of the cell after the operations, one after the other, if each has its result.\<close>

fun replay :: "'a::len word \<Rightarrow> (nat \<times> 'a word atomic_op \<times> 'a word) list \<Rightarrow> 'a word option" where
  "replay v [] = Some v"
| "replay v ((t, op, r) # xs) = (if snd (op_spec op v) = r then replay (fst (op_spec op v)) xs else None)"

lemma replay_snoc:
  "replay v xs = Some w \<Longrightarrow> snd (op_spec op w) = r \<Longrightarrow> replay v (xs @ [(t, op, r)]) = Some (fst (op_spec op w))"
  by (induction v xs rule: replay.induct) (auto split: if_splits)

text \<open>What a step does: it reads, or finds another value than it has read and starts again, or
  does the operation on the value the cell has.\<close>

lemma op_step_cases:
  obtains (Read) "op_step wide op pl v = (v, Inl (At_Swap v))" "pl = At_Read"
  | (Again) old where "op_step wide op pl v = (v, Inl At_Read)" "pl = At_Swap old" "old \<noteq> v"
  | (Done) "op_step wide op pl v = (fst (op_spec op v), Inr (snd (op_spec op v)))"
proof -
  have "op_step wide op pl v = (v, Inl (At_Swap v)) \<and> pl = At_Read \<or>
    (\<exists>old. op_step wide op pl v = (v, Inl At_Read) \<and> pl = At_Swap old \<and> old \<noteq> v) \<or>
    op_step wide op pl v = (fst (op_spec op v), Inr (snd (op_spec op v)))"
    by (cases op; cases pl)
      (auto simp: cas_loop_def win_cas_def one_step_def win_add_def win64_increment_def win64_decrement_def
        win64_exchange_def win_or_def win_and_def win_increment_def win_decrement_def win_exchange_def)
  thus ?thesis using Read Again Done by blast
qed

definition cell_inv :: "'a::len word \<Rightarrow> 'a word atomic_cell \<Rightarrow> bool" where
  "cell_inv v0 s \<longleftrightarrow> replay v0 (ac_done s) = Some (ac_value s) \<and>
     (\<forall>t. ac_read_at s t \<le> length (ac_done s) \<and> ac_failed s t \<le> length (ac_done s)) \<and>
     (\<forall>t op old. ac_calls s t = Some (op, At_Swap old) \<longrightarrow>
        ac_failed s t \<le> ac_read_at s t \<and> replay v0 (take (ac_read_at s t) (ac_done s)) = Some old)"

lemma cell_start_inv: "cell_inv v0 s \<Longrightarrow> cell_inv v0 (cell_start t op s)"
  by (auto simp: cell_inv_def cell_start_def)

lemma cell_run_inv:
  assumes "cell_inv v0 s" "ac_calls s t = Some (op, pl)"
  shows "cell_inv v0 (cell_run wide t op pl s)"
proof (cases rule: op_step_cases[of wide op pl "ac_value s"])
  case Read
  thus ?thesis using assms by (auto simp: cell_inv_def cell_run_def)
next
  case (Again old)
  have i: "ac_failed s t \<le> ac_read_at s t" "replay v0 (take (ac_read_at s t) (ac_done s)) = Some old"
    "ac_read_at s t \<le> length (ac_done s)" "replay v0 (ac_done s) = Some (ac_value s)"
    using assms Again(2) by (simp_all add: cell_inv_def)
  hence "ac_read_at s t \<noteq> length (ac_done s)" using Again(3) by auto
  hence "Suc (ac_failed s t) \<le> length (ac_done s)" using i by linarith
  thus ?thesis using assms Again(1) by (auto simp: cell_inv_def cell_run_def)
next
  case Done
  have "replay v0 (ac_done s @ [(t, op, snd (op_spec op (ac_value s)))]) = Some (fst (op_spec op (ac_value s)))"
    using assms(1) by (intro replay_snoc) (simp_all add: cell_inv_def)
  moreover have "take n (ac_done s @ [x]) = take n (ac_done s)" if "n \<le> length (ac_done s)" for n x
    using that by simp
  ultimately show ?thesis using assms Done
    by (auto simp: cell_inv_def cell_run_def le_SucI)
qed

lemma cell_reachable_inv:
  assumes "(cell_step wide)\<^sup>*\<^sup>* (cell_new v0) s"
  shows "cell_inv v0 s"
  using assms
proof (induction rule: rtranclp_induct)
  case base
  show ?case by (simp add: cell_inv_def cell_new_def)
next
  case (step y z)
  from step(2) show ?case by cases (simp_all add: step.IH cell_start_inv cell_run_inv)
qed

text \<open>A thread that runs alone.\<close>

definition returns_in :: "bool \<Rightarrow> nat \<Rightarrow> nat \<Rightarrow> 'a::len word atomic_cell \<Rightarrow> bool" where
  "returns_in wide t n s \<longleftrightarrow>
     (\<exists>m \<le> n. \<exists>s'. (cell_step wide ^^ m) s s' \<and> ac_calls s' t = None \<and> length (ac_done s') = Suc (length (ac_done s)))"

lemma returns_in_step:
  assumes "cell_step wide s s1" "ac_done s1 = ac_done s" "returns_in wide t n s1"
  shows "returns_in wide t (Suc n) s"
proof -
  obtain m s' where m: "m \<le> n" "(cell_step wide ^^ m) s1 s'" "ac_calls s' t = None" "length (ac_done s') = Suc (length (ac_done s1))"
    using assms(3) by (auto simp: returns_in_def)
  have "(cell_step wide ^^ Suc m) s s'" using assms(1) m(2) by (rule relpowp_Suc_I2)
  thus ?thesis using m(1,3,4) assms(2) unfolding returns_in_def by (metis Suc_le_mono)
qed

lemma returns_in_mono: "returns_in wide t n s \<Longrightarrow> n \<le> k \<Longrightarrow> returns_in wide t k s"
  unfolding returns_in_def using le_trans by blast

lemma cell_run_done:
  assumes "ac_calls s t = Some (op, pl)" "op_step wide op pl (ac_value s) = (v, Inr r)"
  shows "returns_in wide t (Suc n) s"
proof -
  let ?s = "cell_run wide t op pl s"
  have "(cell_step wide ^^ 1) s ?s" using cs_run[OF assms(1), of wide] by (simp only: relpowp_1)
  moreover have "ac_calls ?s t = None" "length (ac_done ?s) = Suc (length (ac_done s))"
    using assms(2) by (simp_all add: cell_run_def)
  ultimately show ?thesis unfolding returns_in_def by (metis Suc_le_mono le0 One_nat_def)
qed

lemma swap_alone: "ac_calls s t = Some (op, At_Swap (ac_value s)) \<Longrightarrow> returns_in wide t (Suc n) s"
  by (cases rule: op_step_cases[of wide op "At_Swap (ac_value s)" "ac_value s"]) (simp_all add: cell_run_done)

lemma read_alone:
  assumes "ac_calls s t = Some (op, At_Read)"
  shows "returns_in wide t 2 s"
proof (cases rule: op_step_cases[of wide op At_Read "ac_value s"])
  case Read
  let ?s = "cell_run wide t op At_Read s"
  have "ac_calls ?s t = Some (op, At_Swap (ac_value ?s))" "ac_done ?s = ac_done s" using Read by (simp_all add: cell_run_def)
  thus ?thesis using returns_in_step[OF cs_run[OF assms], of wide t 1] swap_alone[of ?s t op wide 0] by (simp add: numeral_2_eq_2)
next
  case Done
  thus ?thesis using cell_run_done[OF assms Done, of 1] by (simp add: numeral_2_eq_2)
qed simp

lemma cell_run_alone:
  assumes "ac_calls s t = Some (op, pl)"
  shows "returns_in wide t 3 s"
proof (cases rule: op_step_cases[of wide op pl "ac_value s"])
  case Read
  thus ?thesis using read_alone[of s t op wide] assms by (auto intro: returns_in_mono)
next
  case (Again old)
  let ?s = "cell_run wide t op pl s"
  have "ac_calls ?s t = Some (op, At_Read)" "ac_done ?s = ac_done s" using Again(1) by (simp_all add: cell_run_def)
  thus ?thesis using returns_in_step[OF cs_run[OF assms], of wide t 2] read_alone[of ?s t op wide] by (simp add: numeral_3_eq_3 numeral_2_eq_2)
next
  case Done
  thus ?thesis using cell_run_done[OF assms Done, of 2] by (simp add: numeral_3_eq_3 numeral_2_eq_2)
qed



end
