(* ===== verification/Ssl_Context.thy ===== *)
theory Ssl_Context
  imports Singleton
begin

text \<open>
  What surrounds the TLS filter (\<open>ssl/context.cpp\<close>, \<open>ssl/open_ssl.cpp\<close>, \<open>ssl/error_category.cpp\<close>): the
  context with the password of its key, the locks that OpenSSL takes through callbacks, and its error
  messages. OpenSSL is a parameter, its context a state of any type. Bytes are kept as they are in
  memory, and what memory held before is an argument.
\<close>

section \<open>Strings of C\<close>

definition c_string :: "u8 list \<Rightarrow> u8 list" where
  "c_string xs = takeWhile (\<lambda>b. b \<noteq> 0) xs"

definition c_strncpy :: "u8 list \<Rightarrow> u8 list \<Rightarrow> nat \<Rightarrow> u8 list" where
  "c_strncpy dst src n = (let s = take n (c_string src) in s @ replicate (n - length s) 0 @ drop n dst)"

lemma c_string_id: "0 \<notin> set xs \<Longrightarrow> c_string xs = xs"
  by (auto simp: c_string_def takeWhile_eq_all_conv)

lemma c_string_append: "0 \<notin> set xs \<Longrightarrow> c_string (xs @ ys) = xs @ c_string ys"
  by (induction xs) (auto simp: c_string_def)

lemma c_string_append_0: "0 \<notin> set xs \<Longrightarrow> c_string (xs @ 0 # ys) = xs"
  by (simp add: c_string_append) (simp add: c_string_def)

section \<open>The context\<close>

text \<open>The functions of OpenSSL for a context. Loading a key may ask for the password, through the
  callback: a buffer with its size gives the buffer filled and the length.\<close>

type_synonym pem_callback = "u8 list \<Rightarrow> int \<Rightarrow> (u8 list \<times> nat) option"

record 'x ssl_ctx_api =
  ctx_use_certificate :: "u8 list \<Rightarrow> 'x \<Rightarrow> int \<times> 'x"
  ctx_use_key :: "u8 list \<Rightarrow> pem_callback \<Rightarrow> 'x \<Rightarrow> (int \<times> 'x) option"
  ctx_check_key :: "'x \<Rightarrow> int"

record 'x ssl_context =
  cx_impl :: 'x
  cx_password :: "u8 list"

definition context_new :: "'x \<Rightarrow> 'x ssl_context" where
  "context_new x = \<lparr>cx_impl = x, cx_password = []\<rparr>"

text \<open>\<open>pem_password\<close>: the buffer \<open>buf\<close>, of \<open>size\<close> bytes or more, is not cleared; a size that is not
  positive writes outside of it.\<close>

definition pem_password :: "u8 list \<Rightarrow> pem_callback" where
  "pem_password password buf sz =
     (if sz \<le> 0 \<or> int (length buf) < sz then None
      else let buf1 = c_strncpy buf (password @ [0]) (nat (min sz (to_i32 (int (length password)))));
               buf2 = buf1[nat (sz - 1) := 0]
           in Some (buf2, length (c_string buf2)))"

definition use_certificate_file :: "'x ssl_ctx_api \<Rightarrow> u8 list \<Rightarrow> 'x ssl_context \<Rightarrow> bool \<times> 'x ssl_context" where
  "use_certificate_file api file c =
     (let (r, x) = ctx_use_certificate api file (cx_impl c) in (\<not> r \<le> 0, c\<lparr>cx_impl := x\<rparr>))"

definition use_private_key_file :: "'x ssl_ctx_api \<Rightarrow> u8 list \<Rightarrow> u8 list \<Rightarrow> 'x ssl_context \<Rightarrow> (bool \<times> 'x ssl_context) option" where
  "use_private_key_file api file pw c =
     (let c1 = c\<lparr>cx_password := pw\<rparr>
      in case ctx_use_key api file (pem_password (cx_password c1)) (cx_impl c1) of
           None \<Rightarrow> None
         | Some (r, x) \<Rightarrow> Some (\<not> r \<le> 0, c1\<lparr>cx_impl := x\<rparr>))"

definition check_private_key :: "'x ssl_ctx_api \<Rightarrow> 'x ssl_context \<Rightarrow> bool" where
  "check_private_key api c = (ctx_check_key api (cx_impl c) \<noteq> 0)"

section \<open>Locks\<close>

definition CRYPTO_LOCK :: int where "CRYPTO_LOCK = 1"

text \<open>\<open>init\<close> appends as many locks as OpenSSL says.\<close>

definition open_ssl_init :: "nat \<Rightarrow> spin_lock list \<Rightarrow> spin_lock list" where
  "open_ssl_init num_locks locks = locks @ replicate num_locks spin_lock_new"

datatype lock_outcome = No_Such_Lock | Lock_Waits | Lock_Left "spin_lock list"

definition ssl_lock_callback :: "nat \<Rightarrow> int \<Rightarrow> int \<Rightarrow> spin_lock list \<Rightarrow> lock_outcome" where
  "ssl_lock_callback t m n locks =
     (if n < 0 \<or> int (length locks) \<le> n then No_Such_Lock
      else if and m CRYPTO_LOCK \<noteq> 0
      then (case sl_lock t (locks ! nat n) of None \<Rightarrow> Lock_Waits | Some l \<Rightarrow> Lock_Left (locks[nat n := l]))
      else Lock_Left (locks[nat n := sl_unlock t (locks ! nat n)]))"

text \<open>Locks that OpenSSL creates and destroys: a store of them; \<open>None\<close> is a use of a lock that is not there.\<close>

definition dyn_create :: "(nat \<rightharpoonup> spin_lock) \<Rightarrow> nat \<Rightarrow> nat \<rightharpoonup> spin_lock" where
  "dyn_create ls l = ls(l \<mapsto> spin_lock_new)"

definition dyn_lock :: "nat \<Rightarrow> int \<Rightarrow> nat \<Rightarrow> (nat \<rightharpoonup> spin_lock) \<Rightarrow> (nat \<rightharpoonup> spin_lock) option option" where
  "dyn_lock t mode l ls =
     (case ls l of
        None \<Rightarrow> None
      | Some k \<Rightarrow>
          if and mode CRYPTO_LOCK \<noteq> 0
          then Some (map_option (\<lambda>k1. ls(l \<mapsto> k1)) (sl_lock t k))
          else Some (Some (ls(l \<mapsto> sl_unlock t k))))"

definition dyn_destroy :: "nat \<Rightarrow> (nat \<rightharpoonup> spin_lock) \<Rightarrow> (nat \<rightharpoonup> spin_lock) option" where
  "dyn_destroy l ls = (if ls l = None then None else Some (ls(l := None)))"

section \<open>Errors\<close>

text \<open>\<open>message\<close>: \<open>ERR_error_string\<close> writes its text and a zero to a buffer of 4096 bytes.\<close>

definition ssl_message :: "(int \<Rightarrow> u8 list) \<Rightarrow> u8 list \<Rightarrow> int \<Rightarrow> u8 list option" where
  "ssl_message err_text junk v =
     (let t = err_text v @ [0]
      in if 4096 < length t then None else Some (c_string (t @ drop (length t) junk)))"

section \<open>What they do\<close>

lemma ssl_message_text:
  "0 \<notin> set (err_text v) \<Longrightarrow> length (err_text v) < 4096 \<Longrightarrow> ssl_message err_text junk v = Some (err_text v)"
  by (simp add: ssl_message_def c_string_append_0)

text \<open>A lock taken by one thread and given back leaves the locks as they were; meanwhile the others wait
  for it and for no other.\<close>

lemma ssl_lock_balanced:
  assumes "0 \<le> n" "n < int (length locks)" "sl_ok (locks ! nat n)" "ssl_lock_callback t 1 n locks = Lock_Left locks1"
  shows "ssl_lock_callback t 0 n locks1 = Lock_Left locks"
    and "t' \<noteq> t \<Longrightarrow> ssl_lock_callback t' 1 n locks1 = Lock_Waits"
    and "0 \<le> i \<Longrightarrow> i \<noteq> n \<Longrightarrow> locks1 ! nat i = locks ! nat i"
proof -
  obtain l where l: "sl_lock t (locks ! nat n) = Some l" "locks1 = locks[nat n := l]"
    using assms by (auto simp: ssl_lock_callback_def CRYPTO_LOCK_def split: option.splits)
  have n: "nat n < length locks" using assms(1,2) by linarith
  have nn: "locks1 ! nat n = l" "length locks1 = length locks" using l(2) n by simp_all
  show "ssl_lock_callback t 0 n locks1 = Lock_Left locks"
    using assms(1,2) nn l sl_unlock_lock[OF assms(3) l(1)] by (simp add: ssl_lock_callback_def)
  have "sl_owner l = Some t" using sl_lock_ok[OF assms(3) l(1)] by simp
  thus "t' \<noteq> t \<Longrightarrow> ssl_lock_callback t' 1 n locks1 = Lock_Waits"
    using assms(1,2) nn by (simp add: ssl_lock_callback_def CRYPTO_LOCK_def sl_lock_def)
  show "0 \<le> i \<Longrightarrow> i \<noteq> n \<Longrightarrow> locks1 ! nat i = locks ! nat i"
    using l(2) assms(1) by (simp add: nat_eq_iff)
qed

text \<open>The password that OpenSSL gets is the one given to \<open>use_private_key_file\<close> only when it is cut off
  by the size of the buffer, or when the byte behind it happens to be zero: \<open>strncpy\<close> copies it without
  its end, and what was in the buffer before is taken for the rest.\<close>

theorem pem_password_garbage:
  assumes "0 \<notin> set pw" "0 < sz" "sz \<le> int (length buf)" "length pw < 2 ^ 31"
  shows "\<exists>buf' n. pem_password pw buf sz = Some (buf', n) \<and>
    take n buf' =
      (if int (length pw) < sz then pw @ c_string (take (nat sz - 1 - length pw) (drop (length pw) buf))
       else take (nat sz - 1) pw)"
proof -
  let ?k = "nat sz" and ?n = "length pw"
  have k: "0 < ?k" "?k \<le> length buf" "nat (sz - 1) = ?k - 1" using assms(2,3) by simp_all
  have i: "to_i32 (int ?n) = int ?n" using assms(4) by (intro to_i32_id) simp_all
  have m: "nat (min sz (int ?n)) = min ?k ?n" using assms(2) by linarith
  have cp: "c_strncpy buf (pw @ [0]) (min ?k ?n) = take ?k pw @ drop (min ?k ?n) buf"
    using assms(1) by (simp add: c_strncpy_def c_string_append_0 Let_def min_def)
  let ?b = "(take ?k pw @ drop (min ?k ?n) buf)[?k - 1 := 0]"
  have e: "pem_password pw buf sz = Some (?b, length (c_string ?b))"
    using assms(2,3) i m cp k(3) by (simp add: pem_password_def Let_def)
  have t: "take (length (c_string ?b)) ?b = c_string ?b"
    by (simp add: c_string_def takeWhile_eq_take[symmetric])
  have "c_string ?b =
      (if int ?n < sz then pw @ c_string (take (?k - 1 - ?n) (drop ?n buf)) else take (?k - 1) pw)"
  proof (cases "int ?n < sz")
    case True
    hence n: "?n < ?k" by linarith
    let ?d = "drop ?n buf"
    have "\<not> ?k - 1 < ?n" "take ?k pw = pw" "min ?k ?n = ?n" using n by simp_all
    hence "?b = pw @ ?d[?k - 1 - ?n := 0]" by (simp only: list_update_append if_False)
    also have "?d[?k - 1 - ?n := 0] = take (?k - 1 - ?n) ?d @ 0 # drop (Suc (?k - 1 - ?n)) ?d"
      using n k by (intro upd_conv_take_nth_drop) simp
    finally have "c_string ?b = pw @ c_string (take (?k - 1 - ?n) ?d @ 0 # drop (Suc (?k - 1 - ?n)) ?d)"
      using assms(1) by (simp add: c_string_append)
    also have "c_string (xs @ 0 # ys) = c_string xs" for xs ys :: "u8 list"
      by (induction xs) (simp_all add: c_string_def)
    finally show ?thesis using True by simp
  next
    case False
    hence n: "?k \<le> ?n" by linarith
    have "?b = (take ?k pw)[?k - 1 := 0] @ drop ?k buf" using n k by (simp add: list_update_append min_def)
    also have "(take ?k pw)[?k - 1 := 0] = take (?k - 1) pw @ [0]"
      using n k(1) by (subst upd_conv_take_nth_drop) (simp_all add: min_def)
    finally have "?b = take (?k - 1) pw @ 0 # drop ?k buf" by simp
    moreover have "0 \<notin> set (take (?k - 1) pw)" using assms(1) by (meson in_set_takeD)
    ultimately show ?thesis using False by (simp add: c_string_append_0)
  qed
  thus ?thesis using e t by metis
qed

text \<open>A password of two bytes in a buffer that held ones: OpenSSL gets seven bytes.\<close>

lemma pem_password_garbage_witness:
  "\<exists>buf' n. pem_password [65, 66] (replicate 8 1) 8 = Some (buf', n) \<and> take n buf' = [65, 66, 1, 1, 1, 1, 1]"
proof -
  have "c_string (take (nat 8 - 1 - length [65, 66]) (drop (length [65, 66 :: u8]) (replicate 8 1))) = [1, 1, 1, 1, 1]"
    by (simp add: c_string_def eval_nat_numeral)
  with pem_password_garbage[of "[65, 66]" 8 "replicate 8 1"] show ?thesis by simp
qed

end
