(* ===== verification/Zlib.thy ===== *)
theory Zlib
  imports Byte_Queue "HOL-Library.Monad_Syntax"
begin

text \<open>
  Compression of memory blocks (\<open>util/zlib.cpp\<close>). The library zlib is a parameter: functions on a stream
  of any type, which is given its whole input at once. The block read is the list of its bytes.
\<close>

section \<open>zlib\<close>

definition Z_NO_FLUSH :: int where "Z_NO_FLUSH = 0"
definition Z_FINISH :: int where "Z_FINISH = 4"
definition Z_OK :: int where "Z_OK = 0"
definition Z_STREAM_END :: int where "Z_STREAM_END = 1"
definition Z_NEED_DICT :: int where "Z_NEED_DICT = 2"
definition Z_STREAM_ERROR :: int where "Z_STREAM_ERROR = -2"
definition Z_DATA_ERROR :: int where "Z_DATA_ERROR = -3"
definition Z_MEM_ERROR :: int where "Z_MEM_ERROR = -4"
definition Z_BUF_ERROR :: int where "Z_BUF_ERROR = -5"

lemmas z_codes = Z_NO_FLUSH_def Z_FINISH_def Z_OK_def Z_STREAM_END_def Z_NEED_DICT_def Z_STREAM_ERROR_def
  Z_DATA_ERROR_def Z_MEM_ERROR_def Z_BUF_ERROR_def

text \<open>\<open>deflate\<close> and \<open>inflate\<close> take the way to flush and the size of the output buffer, and give the
  result, the bytes put into the buffer and the stream.\<close>

type_synonym 'z z_coder = "int \<Rightarrow> nat \<Rightarrow> 'z \<Rightarrow> int \<times> u8 list \<times> 'z"

record 'z zlib_api =
  z_deflate_init :: "int \<Rightarrow> int \<times> 'z"
  z_inflate_init :: "int \<times> 'z"
  z_input :: "u8 list \<Rightarrow> 'z \<Rightarrow> 'z"
  z_deflate :: "'z z_coder"
  z_inflate :: "'z z_coder"

section \<open>The code\<close>

definition ZLIB_CHUNK_SIZE :: nat where "ZLIB_CHUNK_SIZE = 16384"

text \<open>The loop of both functions: \<open>bad\<close> are the results that end it with \<open>false\<close>. The rest of the
  buffer is what \<open>avail_out\<close> says, so that the loop goes on when the buffer was filled.\<close>

partial_function (option) z_loop ::
  "(nat \<Rightarrow> 'z \<Rightarrow> int \<times> u8 list \<times> 'z) \<Rightarrow> (int \<Rightarrow> bool) \<Rightarrow> 'z \<Rightarrow> heap \<times> memory_block \<Rightarrow> (bool \<times> heap \<times> memory_block) option"
where
  "z_loop coder bad z s =
     (let (ret, bs, z1) = coder ZLIB_CHUNK_SIZE z
      in if bad ret then Some (False, s)
         else do {
           s1 \<leftarrow> mb_put bs s;
           if ZLIB_CHUNK_SIZE - length bs = 0 then z_loop coder bad z1 s1 else Some (True, s1)
         })"

definition zlib_compress :: "'z zlib_api \<Rightarrow> u8 list \<Rightarrow> heap \<times> memory_block \<Rightarrow> (bool \<times> heap \<times> memory_block) option" where
  "zlib_compress api inp s =
     (let (ret, z) = z_deflate_init api 1
      in if ret \<noteq> Z_OK then Some (False, s)
         else z_loop (z_deflate api Z_FINISH) (\<lambda>ret. ret = Z_STREAM_ERROR \<or> ret = Z_BUF_ERROR) (z_input api inp z) s)"

definition zlib_uncompress :: "'z zlib_api \<Rightarrow> u8 list \<Rightarrow> heap \<times> memory_block \<Rightarrow> (bool \<times> heap \<times> memory_block) option" where
  "zlib_uncompress api inp s =
     (let (ret, z) = z_inflate_init api
      in if ret \<noteq> Z_OK then Some (False, s)
         else z_loop (z_inflate api Z_NO_FLUSH) (\<lambda>ret. ret = Z_NEED_DICT \<or> ret = Z_DATA_ERROR \<or> ret = Z_MEM_ERROR)
                (z_input api inp z) s)"

section \<open>What zlib promises\<close>

text \<open>A coder that fills the buffer as long as there is output: \<open>rest\<close> is the output a stream has still
  to give.\<close>

definition z_coder_ok :: "(nat \<Rightarrow> 'z \<Rightarrow> int \<times> u8 list \<times> 'z) \<Rightarrow> ('z \<Rightarrow> u8 list) \<Rightarrow> bool" where
  "z_coder_ok coder rest \<longleftrightarrow>
     (\<forall>n z. case coder n z of (ret, bs, z1) \<Rightarrow> ret \<in> {Z_OK, Z_STREAM_END} \<and> bs = take n (rest z) \<and> rest z1 = drop n (rest z))"

text \<open>\<open>compressed\<close> is the format: what \<open>deflate\<close> makes of an input, and \<open>inflate\<close> undoes.\<close>

definition zlib_ok :: "'z zlib_api \<Rightarrow> (u8 list \<Rightarrow> u8 list) \<Rightarrow> ('z \<Rightarrow> u8 list) \<Rightarrow> ('z \<Rightarrow> u8 list) \<Rightarrow> bool" where
  "zlib_ok api compressed drest irest \<longleftrightarrow>
     z_coder_ok (z_deflate api Z_FINISH) drest \<and> z_coder_ok (z_inflate api Z_NO_FLUSH) irest \<and>
     fst (z_deflate_init api 1) = Z_OK \<and> fst (z_inflate_init api) = Z_OK \<and>
     (\<forall>xs. drest (z_input api xs (snd (z_deflate_init api 1))) = compressed xs \<and>
           irest (z_input api (compressed xs) (snd (z_inflate_init api))) = xs)"

section \<open>Round trip\<close>

lemma z_loop_all:
  assumes "z_coder_ok coder rest" "\<not> bad Z_OK" "\<not> bad Z_STREAM_END" "mb_live L s" "length (rest z) \<le> room s"
  shows "\<exists>s'. z_loop coder bad z s = Some (True, s') \<and> mb_live L s' \<and> view s' = view s @ rest z"
  using assms(4,5)
proof (induction "length (rest z)" arbitrary: z s rule: less_induct)
  case less
  let ?n = ZLIB_CHUNK_SIZE
  obtain ret bs z1 where c: "coder ?n z = (ret, bs, z1)" by (cases "coder ?n z") auto
  hence "ret \<in> {Z_OK, Z_STREAM_END}" and ok': "bs = take ?n (rest z)" "rest z1 = drop ?n (rest z)"
    using assms(1) by (auto simp: z_coder_ok_def split: prod.splits)
  with assms(2,3) have "\<not> bad ret" by auto
  note ok = this ok'
  have "length bs \<le> room s" using ok(2) less.prems(2) by simp
  then obtain s1 where s1: "mb_put bs s = Some s1" "mb_live L s1" "view s1 = view s @ bs" "room s1 = room s - length bs"
    by (rule put_chars[OF less.prems(1)])
  show ?case
  proof (cases "length bs < ?n")
    case True
    hence "\<not> ?n - length bs = 0" "rest z = bs" using ok(2) by simp_all
    hence "z_loop coder bad z s = Some (True, s1)"
      using c ok(1) s1(1) by (subst z_loop.simps) (simp only: c prod.case Let_def if_False Option.bind.simps)
    thus ?thesis using s1 \<open>rest z = bs\<close> by blast
  next
    case False
    hence l: "?n - length bs = 0" "length (rest z1) < length (rest z)" using ok(2,3) by (simp_all add: ZLIB_CHUNK_SIZE_def)
    have "length (rest z1) \<le> room s1" using ok(2,3) s1(4) less.prems(2) by simp
    then obtain s2 where s2: "z_loop coder bad z1 s1 = Some (True, s2)" "mb_live L s2" "view s2 = view s1 @ rest z1"
      using less.hyps[OF l(2) s1(2)] by blast
    have "z_loop coder bad z s = Some (True, s2)"
      using ok(1) s1(1) l(1) s2(1) by (subst z_loop.simps) (simp only: c prod.case Let_def if_False if_True simp_thms Option.bind.simps)
    thus ?thesis using s2 s1(3) ok(2,3) by simp
  qed
qed

lemma zlib_compress_ok:
  assumes "zlib_ok api compressed drest irest" "mb_live L s" "length (compressed xs) \<le> room s"
  shows "\<exists>s'. zlib_compress api xs s = Some (True, s') \<and> mb_live L s' \<and> view s' = view s @ compressed xs"
proof -
  obtain r z where z: "z_deflate_init api 1 = (r, z)" by fastforce
  have o: "z_coder_ok (z_deflate api Z_FINISH) drest" "r = Z_OK" "drest (z_input api xs z) = compressed xs"
    using assms(1) z by (simp_all add: zlib_ok_def)
  have "\<exists>s'. z_loop (z_deflate api Z_FINISH) (\<lambda>ret. ret = Z_STREAM_ERROR \<or> ret = Z_BUF_ERROR) (z_input api xs z) s = Some (True, s') \<and>
      mb_live L s' \<and> view s' = view s @ drest (z_input api xs z)"
    by (rule z_loop_all[OF o(1) _ _ assms(2)]) (simp_all add: z_codes o(3) assms(3))
  thus ?thesis using z o by (simp add: zlib_compress_def)
qed

lemma zlib_uncompress_ok:
  assumes "zlib_ok api compressed drest irest" "mb_live L s" "length xs \<le> room s"
  shows "\<exists>s'. zlib_uncompress api (compressed xs) s = Some (True, s') \<and> mb_live L s' \<and> view s' = view s @ xs"
proof -
  obtain r z where z: "z_inflate_init api = (r, z)" by fastforce
  have o: "z_coder_ok (z_inflate api Z_NO_FLUSH) irest" "r = Z_OK" "irest (z_input api (compressed xs) z) = xs"
    using assms(1) z by (simp_all add: zlib_ok_def)
  have "\<exists>s'. z_loop (z_inflate api Z_NO_FLUSH) (\<lambda>ret. ret = Z_NEED_DICT \<or> ret = Z_DATA_ERROR \<or> ret = Z_MEM_ERROR)
      (z_input api (compressed xs) z) s = Some (True, s') \<and> mb_live L s' \<and> view s' = view s @ irest (z_input api (compressed xs) z)"
    by (rule z_loop_all[OF o(1) _ _ assms(2)]) (simp_all add: z_codes o(3) assms(3))
  thus ?thesis using z o by (simp add: zlib_uncompress_def)
qed

text \<open>\<open>compress\<close> into an empty memory block and \<open>uncompress\<close> into another round-trip, chunk by chunk
  of 16384 bytes and also where the output ends at the end of a chunk, over any zlib that fills the
  buffer it is given while it has output. Both return.\<close>

theorem zlib_roundtrip:
  assumes "zlib_ok api compressed drest irest" "mb_live L s" "view s = []" "length (compressed xs) \<le> room s"
    "mb_live K t" "length xs \<le> room t"
  shows "\<exists>s' t'. zlib_compress api xs s = Some (True, s') \<and> zlib_uncompress api (view s') t = Some (True, t') \<and>
    view t' = view t @ xs"
proof -
  obtain s' where "zlib_compress api xs s = Some (True, s')" "view s' = compressed xs"
    using zlib_compress_ok[OF assms(1,2,4)] assms(3) by auto
  thus ?thesis using zlib_uncompress_ok[OF assms(1,5,6)] by auto
qed

text \<open>A library that stores its input as it is.\<close>

definition stored_coder :: "u8 list z_coder" where
  "stored_coder flush n z = (if length z < n then Z_STREAM_END else Z_OK, take n z, drop n z)"

definition stored_zlib :: "u8 list zlib_api" where
  "stored_zlib = \<lparr>z_deflate_init = (\<lambda>level. (Z_OK, [])), z_inflate_init = (Z_OK, []), z_input = (\<lambda>xs z. xs),
     z_deflate = stored_coder, z_inflate = stored_coder\<rparr>"

lemma stored_zlib_ok: "zlib_ok stored_zlib id id id"
  by (simp add: zlib_ok_def z_coder_ok_def stored_zlib_def stored_coder_def)

lemma zlib_roundtrip_witness:
  "\<exists>s' t'. zlib_compress stored_zlib (replicate 16384 7) (mb_default heap_empty) = Some (True, s') \<and>
     zlib_uncompress stored_zlib (view s') (mb_default heap_empty) = Some (True, t') \<and> view t' = replicate 16384 7"
proof -
  have v: "view (mb_default heap_empty) = []" "room (mb_default heap_empty) = 2 ^ 31 - 1"
    by (simp_all add: mb_contents_def mb_default_def room_def split: prod.split)
  show ?thesis
    using zlib_roundtrip[OF stored_zlib_ok mb_default_live v(1) _ mb_default_live, of "replicate 16384 7"] v by simp
qed

text \<open>\<open>uncompress\<close> does not ask for the end of the stream: input that was cut off is a success with
  the bytes there are, because \<open>inflate\<close> then fills less than the buffer and its result, \<open>Z_BUF_ERROR\<close>
  or \<open>Z_OK\<close>, is none of the three that are looked at.\<close>

theorem zlib_truncated_accepted:
  assumes "z_inflate_init api = (Z_OK, z)" "z_inflate api Z_NO_FLUSH ZLIB_CHUNK_SIZE (z_input api xs z) = (ret, bs, z1)"
    "ret \<in> {Z_OK, Z_BUF_ERROR}" "length bs < ZLIB_CHUNK_SIZE" "mb_live L s" "length bs \<le> room s"
  shows "\<exists>s'. zlib_uncompress api xs s = Some (True, s') \<and> view s' = view s @ bs"
proof -
  obtain s1 where s1: "mb_put bs s = Some s1" "view s1 = view s @ bs" by (rule put_chars[OF assms(5,6)])
  have "\<not> (ret = Z_NEED_DICT \<or> ret = Z_DATA_ERROR \<or> ret = Z_MEM_ERROR)" "\<not> ZLIB_CHUNK_SIZE - length bs = 0"
    using assms(3,4) by (auto simp: z_codes)
  hence "zlib_uncompress api xs s = Some (True, s1)"
    using assms(1,2) s1(1) by (simp only: zlib_uncompress_def Let_def prod.case simp_thms if_False)
      (subst z_loop.simps, simp only: Let_def prod.case if_False Option.bind.simps)
  thus ?thesis using s1(2) by blast
qed

end
