(* ===== verification/Wide_Strings.thy ===== *)
theory Wide_Strings
  imports Prelude "HOL-Library.Signed_Division"
begin

text \<open>
  Strings of the Windows build (\<open>util/string_win32.cpp\<close>): conversions between encodings, and the
  parts of a Korean syllable. The conversions of the system and the three tables of letters, whose
  encoding is lost in the sources, are parameters. A wide character has 16 bits.
\<close>

section \<open>Conversions\<close>

text \<open>\<open>WideCharToMultiByte\<close> and \<open>MultiByteToWideChar\<close> for a string that ends with a zero: the characters
  without the zero, or nothing when the string cannot be converted. The first call gives their number
  with the zero, the second fills the vector.\<close>

type_synonym ('a, 'b) converter = "'a list \<Rightarrow> 'b list option"

definition c_text :: "'a::zero list \<Rightarrow> 'a list" where
  "c_text xs = takeWhile (\<lambda>c. c \<noteq> 0) xs"

definition converted_size :: "('a::zero, 'b) converter \<Rightarrow> 'a list \<Rightarrow> nat" where
  "converted_size conv xs = (case conv (c_text xs) of None \<Rightarrow> 0 | Some ys \<Rightarrow> Suc (length ys))"

definition converted_text :: "('a::zero, 'b::zero) converter \<Rightarrow> 'a list \<Rightarrow> 'b list" where
  "converted_text conv xs = (case conv (c_text xs) of None \<Rightarrow> [] | Some ys \<Rightarrow> ys @ [0])"

text \<open>The body the four conversions have in common.\<close>

definition convert_string :: "('a::zero, 'b::zero) converter \<Rightarrow> 'a list \<Rightarrow> 'b list" where
  "convert_string conv inp =
     (if length inp \<noteq> 0
      then (let n = converted_size conv inp in if n \<noteq> 0 then c_text (converted_text conv inp) else [])
      else [])"

definition wcs_to_mbs :: "(u16, u8) converter \<Rightarrow> u16 list \<Rightarrow> u8 list" where
  "wcs_to_mbs cp_acp inp = convert_string cp_acp inp"

definition mbs_to_wcs :: "(u8, u16) converter \<Rightarrow> u8 list \<Rightarrow> u16 list" where
  "mbs_to_wcs cp_acp inp = convert_string cp_acp inp"

definition wcs_to_utf_8 :: "(u16, u8) converter \<Rightarrow> u16 list \<Rightarrow> u8 list" where
  "wcs_to_utf_8 cp_utf8 inp = convert_string cp_utf8 inp"

definition utf_8_to_wcs :: "(u8, u16) converter \<Rightarrow> u8 list \<Rightarrow> u16 list" where
  "utf_8_to_wcs cp_utf8 inp = convert_string cp_utf8 inp"

definition mbs_to_utf_8 :: "(u8, u16) converter \<Rightarrow> (u16, u8) converter \<Rightarrow> u8 list \<Rightarrow> u8 list" where
  "mbs_to_utf_8 acp utf8 inp = wcs_to_utf_8 utf8 (mbs_to_wcs acp inp)"

definition utf_8_to_mbs :: "(u8, u16) converter \<Rightarrow> (u16, u8) converter \<Rightarrow> u8 list \<Rightarrow> u8 list" where
  "utf_8_to_mbs utf8 acp inp = wcs_to_mbs acp (utf_8_to_wcs utf8 inp)"

section \<open>Hangul\<close>

definition HangulUnicodeStart :: u16 where "HangulUnicodeStart = 0xAC00"
definition HangulUnicodeEnd :: u16 where "HangulUnicodeEnd = 0xD79F"

definition is_hangul :: "u16 \<Rightarrow> bool" where
  "is_hangul ch = (ch \<ge> HangulUnicodeStart \<and> ch \<le> HangulUnicodeEnd)"

record hangul =
  cho_sung :: u16
  jung_sung :: u16
  jong_sung :: u16

text \<open>The indices are \<open>int\<close>, with the signs of C.\<close>

definition hangul_indices :: "u16 \<Rightarrow> int \<times> int \<times> int" where
  "hangul_indices ch =
     (let i0 = uint ch - uint HangulUnicodeStart;
          jong = i0 smod 28; i1 = i0 sdiv 28;
          jung = i1 smod 21; i2 = i1 sdiv 21
      in (i2, jung, jong))"

text \<open>\<open>None\<close>: an index outside of its table.\<close>

definition table_at :: "u16 list \<Rightarrow> int \<Rightarrow> u16 option" where
  "table_at t i = (if 0 \<le> i \<and> i < int (length t) then Some (t ! nat i) else None)"

definition extract_hangul :: "u16 list \<Rightarrow> u16 list \<Rightarrow> u16 list \<Rightarrow> u16 \<Rightarrow> hangul option" where
  "extract_hangul chos jungs jongs ch =
     (let (cho, jung, jong) = hangul_indices ch
      in case (table_at chos cho, table_at jungs jung, table_at jongs jong) of
           (Some a, Some b, Some c) \<Rightarrow> Some \<lparr>cho_sung = a, jung_sung = b, jong_sung = c\<rparr>
         | _ \<Rightarrow> None)"

section \<open>What they do\<close>

lemma c_text_id: "0 \<notin> set xs \<Longrightarrow> c_text xs = xs"
  by (auto simp: c_text_def takeWhile_eq_all_conv)

lemma c_text_end: "0 \<notin> set xs \<Longrightarrow> c_text (xs @ [0]) = xs"
  by (induction xs) (auto simp: c_text_def)

lemma convert_string_ok:
  assumes "0 \<notin> set xs" "conv xs = Some ys" "0 \<notin> set ys" "xs = [] \<longrightarrow> ys = []"
  shows "convert_string conv xs = ys"
  using assms by (auto simp: convert_string_def converted_size_def converted_text_def c_text_id c_text_end)

text \<open>What follows a zero in the string is lost.\<close>

lemma convert_string_cut: "xs \<noteq> [] \<Longrightarrow> convert_string conv (xs @ 0 # ys) = convert_string conv (xs @ 0 # zs)"
proof -
  have "c_text (xs @ 0 # us) = c_text xs" for us by (induction xs) (simp_all add: c_text_def)
  thus ?thesis by (simp add: convert_string_def converted_size_def converted_text_def)
qed

text \<open>A text that the system can convert and convert back, and that has no zero, is the same after both.\<close>

theorem utf_8_roundtrip:
  assumes "0 \<notin> set xs" "utf8 xs = Some ys" "0 \<notin> set ys" "wide ys = Some xs" "xs = [] \<longleftrightarrow> ys = []"
  shows "utf_8_to_wcs wide (wcs_to_utf_8 utf8 xs) = xs"
  using convert_string_ok[of xs utf8 ys] convert_string_ok[of ys wide xs] assms
  by (simp add: wcs_to_utf_8_def utf_8_to_wcs_def)

text \<open>The syllables of Unicode are numbered by initial, vowel and final; \<open>jong\<close> is 0 without a final.\<close>

definition syllable :: "nat \<Rightarrow> nat \<Rightarrow> nat \<Rightarrow> u16" where
  "syllable cho jung jong = 0xAC00 + of_nat ((cho * 21 + jung) * 28 + jong)"

lemma uint_small: "n < 2 ^ 16 \<Longrightarrow> uint (word_of_nat n :: u16) = int n"
  by (simp add: unsigned_of_nat take_bit_nat_eq_self)

lemma signed_parts:
  assumes "b < n"
  shows "int (a * n + b) smod int n = int b" "int (a * n + b) sdiv int n = int a"
proof -
  define k where "k = a * n + b"
  have "int k smod int n = int k mod int n" "int k sdiv int n = int k div int n"
    by (cases "k = 0"; cases "n = 0"; simp add: signed_modulo_int_def signed_divide_int_def)+
  moreover have "int k mod int n = int b" "int k div int n = int a"
    using assms by (simp_all add: k_def flip: zmod_int zdiv_int)
  ultimately show "int (a * n + b) smod int n = int b" "int (a * n + b) sdiv int n = int a" by (simp_all add: k_def)
qed

lemma hangul_indices_syllable:
  assumes "cho < 19" "jung < 21" "jong < 28"
  shows "hangul_indices (syllable cho jung jong) = (int cho, int jung, int jong)"
proof -
  define i where "i = (cho * 21 + jung) * 28 + jong"
  have "cho \<le> 18" "jung \<le> 20" "jong \<le> 27" using assms by simp_all
  hence i: "0xAC00 + i < 2 ^ 16" by (simp add: i_def distrib_right)
  have "syllable cho jung jong = word_of_nat (0xAC00 + i)" by (simp add: syllable_def i_def)
  hence "uint (syllable cho jung jong) = int (0xAC00 + i)"
    using uint_small[OF i] by simp
  hence e: "uint (syllable cho jung jong) - uint HangulUnicodeStart = int i"
    by (simp add: HangulUnicodeStart_def)
  have d: "int i smod 28 = int jong" "int i sdiv 28 = int (cho * 21 + jung)"
    using signed_parts[OF assms(3), of "cho * 21 + jung"] by (simp_all add: i_def)
  have "int (cho * 21 + jung) smod 21 = int jung" "int (cho * 21 + jung) sdiv 21 = int cho"
    using signed_parts[OF assms(2), of cho] by simp_all
  thus ?thesis using e d by (simp only: hangul_indices_def Let_def)
qed

text \<open>\<open>extract_hangul\<close> of a syllable gives its letters.\<close>

theorem extract_hangul_syllable:
  assumes "cho < 19" "jung < 21" "jong < 28" "length chos = 19" "length jungs = 21" "length jongs = 28"
  shows "extract_hangul chos jungs jongs (syllable cho jung jong) =
    Some \<lparr>cho_sung = chos ! cho, jung_sung = jungs ! jung, jong_sung = jongs ! jong\<rparr>"
  using assms by (simp add: extract_hangul_def hangul_indices_syllable table_at_def)

text \<open>\<open>is_hangul\<close> is false for the last four syllables, whose letters can be extracted nevertheless.\<close>

theorem last_syllables_missed:
  assumes "24 \<le> jong" "jong < 28"
  shows "\<not> is_hangul (syllable 18 20 jong)"
proof -
  have "jong = 24 \<or> jong = 25 \<or> jong = 26 \<or> jong = 27" using assms by linarith
  thus ?thesis by (auto simp: is_hangul_def syllable_def HangulUnicodeStart_def HangulUnicodeEnd_def)
qed

end
