(* ===== verification/Win_System.thy ===== *)
theory Win_System
  imports Prelude "HOL-Library.Monad_Syntax"
begin

text \<open>
  The classes over the services of Windows (\<open>util/win32/env.cpp\<close>, \<open>service.cpp\<close>,
  \<open>service_manager.cpp\<close>, \<open>registry.cpp\<close>). What the system answers is a parameter; handles are numbers,
  with the ones that are open, so that what is left open is visible.
\<close>

section \<open>The environment\<close>

datatype version =
    Unknown | Windows_31 | Windows_9x | Windows_95 | Windows_95osr2 | Windows_98 | Windows_98se | Windows_me
  | Windows_nt | Windows_nt3 | Windows_nt4 | Windows_2000 | Windows_xphome | Windows_xp
  | Windows_xpprofessionalx64edition | Windows_server2003 | Windows_homeserver | Windows_server2003r2
  | Windows_vista | Windows_server2008 | Windows_server2008r2 | Windows_7

text \<open>\<open>OSVERSIONINFOEX\<close>, \<open>SYSTEM_INFO\<close> and \<open>GetSystemMetrics(SM_SERVERR2)\<close>; \<open>os_csd\<close> is the text of the
  service pack, 128 characters.\<close>

datatype platform_id = Platform_Win32s | Platform_Windows | Platform_Nt | Platform_Other

record os_info =
  os_platform :: platform_id
  os_major :: nat
  os_minor :: nat
  os_build :: nat
  os_csd :: "nat \<Rightarrow> char"
  os_workstation :: bool
  os_home_server :: bool
  os_amd64 :: bool
  os_server_r2 :: int

text \<open>The cases of the switches one by one, each with the case it falls through to when no \<open>return\<close> is
  reached. This is the build with \<open>_MSC_VER\<close> at least 1600.\<close>

definition os_case_6 :: "os_info \<Rightarrow> version" where
  "os_case_6 i =
     (if os_minor i = 0 then (if os_workstation i then Windows_vista else Windows_server2008)
      else if os_minor i = 1 then (if os_workstation i then Windows_7 else Windows_server2008r2)
      else Unknown)"

definition os_case_5 :: "os_info \<Rightarrow> version" where
  "os_case_5 i =
     (if os_minor i = 0 then Windows_2000
      else if os_minor i = 1 then Windows_xp
      else if os_minor i = 2 then
        (if os_workstation i \<and> os_amd64 i then Windows_xpprofessionalx64edition
         else if os_home_server i then Windows_homeserver
         else if os_server_r2 i = 0 then Windows_server2003 else Windows_server2003r2)
      else os_case_6 i)"

definition os_case_nt :: "os_info \<Rightarrow> version" where
  "os_case_nt i =
     (if os_major i = 3 then Windows_nt3
      else if os_major i = 4 then Windows_nt4
      else if os_major i = 5 then os_case_5 i
      else if os_major i = 6 then os_case_6 i
      else Unknown)"

definition os_case_windows :: "os_info \<Rightarrow> version" where
  "os_case_windows i =
     (if os_minor i = 0 then (if os_csd i 1 = CHR ''B'' then Windows_95osr2 else Windows_95)
      else if os_minor i = 10 then (if os_csd i 1 = CHR ''A'' then Windows_98se else Windows_98)
      else if os_minor i = 90 then (if os_build i = 73010104 then Windows_me else Windows_9x)
      else os_case_nt i)"

definition os_version :: "os_info \<Rightarrow> version" where
  "os_version i =
     (case os_platform i of
        Platform_Win32s \<Rightarrow> Windows_31
      | Platform_Windows \<Rightarrow> os_case_windows i
      | Platform_Nt \<Rightarrow> os_case_nt i
      | Platform_Other \<Rightarrow> Unknown)"

fun version_string :: "version \<Rightarrow> string" where
  "version_string Unknown = ''unknown''"
| "version_string Windows_31 = ''windows_31''"
| "version_string Windows_9x = ''windows_9x''"
| "version_string Windows_95 = ''windows_95''"
| "version_string Windows_95osr2 = ''windows_95osr2''"
| "version_string Windows_98 = ''windows_98''"
| "version_string Windows_98se = ''windows_98se''"
| "version_string Windows_me = ''windows_me''"
| "version_string Windows_nt = ''windows_nt''"
| "version_string Windows_nt3 = ''windows_nt3''"
| "version_string Windows_nt4 = ''windows_nt4''"
| "version_string Windows_2000 = ''windows_2000''"
| "version_string Windows_xphome = ''windows_xphome''"
| "version_string Windows_xp = ''windows_xp''"
| "version_string Windows_xpprofessionalx64edition = ''windows_xpprofessionalx64edition''"
| "version_string Windows_server2003 = ''windows_server2003''"
| "version_string Windows_homeserver = ''windows_homeserver''"
| "version_string Windows_server2003r2 = ''windows_server2003r2''"
| "version_string Windows_vista = ''windows_vista''"
| "version_string Windows_server2008 = ''windows_server2008''"
| "version_string Windows_server2008r2 = ''windows_server2008r2''"
| "version_string Windows_7 = ''windows_7''"

definition os_version_string :: "os_info \<Rightarrow> string" where
  "os_version_string i = version_string (os_version i)"

text \<open>Paths. \<open>process_name\<close> looks for the first backslash, \<open>process_directory\<close> for the last; this ends
  the text behind the backslash and returns what is there.\<close>

definition tcschr :: "char \<Rightarrow> string \<Rightarrow> string option" where
  "tcschr c s = (case dropWhile (\<lambda>x. x \<noteq> c) s of [] \<Rightarrow> None | r \<Rightarrow> Some r)"

definition tcsrchr :: "char \<Rightarrow> string \<Rightarrow> string option" where
  "tcsrchr c s =
     (if c \<in> set s then Some (c # rev (takeWhile (\<lambda>x. x \<noteq> c) (rev s))) else None)"

definition backslash :: char where "backslash = CHR 0x5C"

definition process_name :: "string \<Rightarrow> string" where
  "process_name path = (case tcschr backslash path of Some r \<Rightarrow> r | None \<Rightarrow> [])"

definition process_directory :: "string \<Rightarrow> string" where
  "process_directory path = (case tcsrchr backslash path of Some r \<Rightarrow> take 0 (tl r) | None \<Rightarrow> [])"

section \<open>Services\<close>

text \<open>A service object is a number. \<open>None\<close> in the results is the use of an object that was destroyed.\<close>

record service =
  sv_name :: string
  sv_main :: "nat option"
  sv_event :: "nat option"
  sv_status :: nat
  sv_registered :: bool

record services =
  ss_map :: "string \<rightharpoonup> nat"
  ss_objects :: "nat \<rightharpoonup> service"
  ss_called :: "(nat \<times> nat) list"
  ss_reported :: "(nat \<times> nat) list"

definition services_new :: services where
  "services_new = \<lparr>ss_map = Map.empty, ss_objects = Map.empty, ss_called = [], ss_reported = []\<rparr>"

definition service_new :: "nat \<Rightarrow> string \<Rightarrow> services \<Rightarrow> services" where
  "service_new i name s =
     s\<lparr>ss_objects := (ss_objects s)(i \<mapsto> \<lparr>sv_name = name, sv_main = None, sv_event = None, sv_status = 0, sv_registered = False\<rparr>)\<rparr>"

definition service_destroy :: "nat \<Rightarrow> services \<Rightarrow> services" where
  "service_destroy i s = s\<lparr>ss_objects := (ss_objects s)(i := None)\<rparr>"

text \<open>\<open>run\<close>: the handle for the status, then the main handler if there is one.\<close>

definition service_run :: "nat \<Rightarrow> services \<Rightarrow> services option" where
  "service_run i s =
     do { o1 \<leftarrow> ss_objects s i;
          let s1 = s\<lparr>ss_objects := (ss_objects s)(i \<mapsto> o1\<lparr>sv_registered := True\<rparr>)\<rparr>;
          Some (case sv_main o1 of None \<Rightarrow> s1 | Some h \<Rightarrow> s1\<lparr>ss_called := ss_called s1 @ [(h, i)]\<rparr>) }"

text \<open>\<open>_service_main\<close>, which the system calls with the name of the service.\<close>

definition service_main :: "string \<Rightarrow> services \<Rightarrow> services option" where
  "service_main name s = (case ss_map s name of None \<Rightarrow> Some s | Some i \<Rightarrow> service_run i s)"

text \<open>\<open>insert\<close> of \<open>std::map\<close> keeps an entry that is there. \<open>dispatched\<close>: whether the dispatcher of the
  system started, which then calls \<open>_service_main\<close>.\<close>

definition service_start :: "bool \<Rightarrow> nat \<Rightarrow> nat option \<Rightarrow> nat option \<Rightarrow> services \<Rightarrow> (services \<times> bool) option" where
  "service_start dispatched i main event s =
     do { o1 \<leftarrow> ss_objects s i;
          let s1 = s\<lparr>ss_objects := (ss_objects s)(i \<mapsto> o1\<lparr>sv_main := main, sv_event := event\<rparr>),
                     ss_map := (if ss_map s (sv_name o1) = None then (ss_map s)(sv_name o1 \<mapsto> i) else ss_map s)\<rparr>;
          if dispatched then do { s2 \<leftarrow> service_main (sv_name o1) s1; Some (s2, True) } else Some (s1, False) }"

text \<open>The handler is called with the object that registered it.\<close>

definition service_handle_event :: "nat \<Rightarrow> services \<Rightarrow> services option" where
  "service_handle_event i s =
     do { o1 \<leftarrow> ss_objects s i;
          Some (case sv_event o1 of None \<Rightarrow> s | Some h \<Rightarrow> s\<lparr>ss_called := ss_called s @ [(h, i)]\<rparr>) }"

definition service_change_status :: "nat \<Rightarrow> nat \<Rightarrow> services \<Rightarrow> services option" where
  "service_change_status i state s =
     do { o1 \<leftarrow> ss_objects s i;
          Some (s\<lparr>ss_objects := (ss_objects s)(i \<mapsto> o1\<lparr>sv_status := state\<rparr>), ss_reported := ss_reported s @ [(i, state)]\<rparr>) }"

section \<open>The service manager\<close>

text \<open>What the system answers: the handles of the manager and of the service, which states it reports
  one after the other (\<open>None\<close>: the query fails), and whether the service is deleted.\<close>

record scm =
  scm_open :: "nat option"
  scm_service :: "nat option"
  scm_query :: "nat \<Rightarrow> nat option"
  scm_delete :: bool

record manager =
  sm_handle :: "nat option"
  sm_handles :: "nat list"
  sm_stops :: nat
  sm_queries :: nat

definition SERVICE_STOPPED :: nat where "SERVICE_STOPPED = 1"

definition service_install :: "scm \<Rightarrow> manager \<Rightarrow> manager \<times> bool" where
  "service_install k m =
     (let m1 = m\<lparr>sm_handle := scm_open k\<rparr>
      in case scm_open k of
           None \<Rightarrow> (m1, False)
         | Some h \<Rightarrow>
             (let m2 = m1\<lparr>sm_handles := h # sm_handles m1\<rparr>
              in case scm_service k of
                   None \<Rightarrow> (m2, False)
                 | Some sv \<Rightarrow>
                     \<comment> \<open>the description is set, and the handle of the service closed\<close>
                     (m2\<lparr>sm_handles := remove1 sv (sv # sm_handles m2)\<rparr>, True)))"

text \<open>The loop of \<open>uninstall\<close>: \<open>req_stop\<close>, and the number of the query. It may not end.\<close>

partial_function (option) stop_loop :: "scm \<Rightarrow> bool \<Rightarrow> manager \<Rightarrow> manager option" where
  "stop_loop k req_stop m =
     (case scm_query k (sm_queries m) of
        None \<Rightarrow> Some m
      | Some state \<Rightarrow>
          (let m1 = m\<lparr>sm_queries := Suc (sm_queries m)\<rparr>
           in if state = SERVICE_STOPPED then Some m1
              else if \<not> req_stop then stop_loop k True (m1\<lparr>sm_stops := Suc (sm_stops m1)\<rparr>)
              else stop_loop k req_stop m1))"

definition service_uninstall :: "scm \<Rightarrow> manager \<Rightarrow> (manager \<times> bool) option" where
  "service_uninstall k m =
     (let m1 = m\<lparr>sm_handle := scm_open k\<rparr>
      in case scm_open k of
           None \<Rightarrow> Some (m1, False)
         | Some h \<Rightarrow>
             (let m2 = m1\<lparr>sm_handles := h # sm_handles m1\<rparr>
              in case scm_service k of
                   None \<Rightarrow> Some (m2, False)
                 | Some sv \<Rightarrow>
                     do { m3 \<leftarrow> stop_loop k False (m2\<lparr>sm_handles := sv # sm_handles m2\<rparr>);
                          Some (m3, scm_delete k) }))"

text \<open>The destructor closes the last handle; a manager that was never used has no value in it.\<close>

definition manager_destroy :: "manager \<Rightarrow> manager" where
  "manager_destroy m = (case sm_handle m of None \<Rightarrow> m | Some h \<Rightarrow> m\<lparr>sm_handles := remove1 h (sm_handles m)\<rparr>)"

section \<open>The registry\<close>

text \<open>The registry of the system: keys by root and path, their values by name. Text is kept as the
  characters that were given.\<close>

datatype reg_value = Reg_Dword u32 | Reg_Sz string

record registry =
  rg_root :: nat
  rg_subkey :: string
  rg_key :: "(nat \<times> string) option"

type_synonym hive = "nat \<times> string \<rightharpoonup> string \<rightharpoonup> reg_value"

definition registry_open :: "hive \<Rightarrow> nat \<Rightarrow> string \<Rightarrow> registry \<Rightarrow> registry \<times> bool" where
  "registry_open hv root subkey r =
     (let r1 = r\<lparr>rg_root := root, rg_subkey := subkey\<rparr>
      in if hv (root, subkey) = None then (r1, False) else (r1\<lparr>rg_key := Some (root, subkey)\<rparr>, True))"

definition reg_set :: "registry \<Rightarrow> string \<Rightarrow> reg_value \<Rightarrow> hive \<Rightarrow> hive \<times> bool" where
  "reg_set r name v hv =
     (case rg_key r of
        None \<Rightarrow> (hv, False)
      | Some k \<Rightarrow> (case hv k of None \<Rightarrow> (hv, False) | Some vs \<Rightarrow> (hv(k \<mapsto> vs(name \<mapsto> v)), True)))"

definition registry_set_dword :: "registry \<Rightarrow> string \<Rightarrow> u32 \<Rightarrow> hive \<Rightarrow> hive \<times> bool" where
  "registry_set_dword r name v = reg_set r name (Reg_Dword v)"

definition registry_set_string :: "registry \<Rightarrow> string \<Rightarrow> string \<Rightarrow> hive \<Rightarrow> hive \<times> bool" where
  "registry_set_string r name v = reg_set r name (Reg_Sz v)"

definition registry_get_dword :: "registry \<Rightarrow> string \<Rightarrow> hive \<Rightarrow> u32 option" where
  "registry_get_dword r name hv =
     (case hv (rg_root r, rg_subkey r) of
        Some vs \<Rightarrow> (case vs name of Some (Reg_Dword v) \<Rightarrow> Some v | _ \<Rightarrow> None)
      | None \<Rightarrow> None)"

text \<open>A buffer of 4096 characters; a text for which there is no room with its end fails.\<close>

definition registry_get_string :: "registry \<Rightarrow> string \<Rightarrow> hive \<Rightarrow> string option" where
  "registry_get_string r name hv =
     (case hv (rg_root r, rg_subkey r) of
        Some vs \<Rightarrow>
          (case vs name of
             Some (Reg_Sz v) \<Rightarrow> if length v < 4096 then Some (takeWhile (\<lambda>c. c \<noteq> CHR 0x00) v) else None
           | _ \<Rightarrow> None)
      | None \<Rightarrow> None)"

definition registry_delete :: "registry \<Rightarrow> string \<Rightarrow> hive \<Rightarrow> hive \<times> bool" where
  "registry_delete r name hv =
     (case rg_key r of
        None \<Rightarrow> (hv, False)
      | Some k \<Rightarrow>
          (case hv k of
             None \<Rightarrow> (hv, False)
           | Some vs \<Rightarrow> if vs name = None then (hv, False) else (hv(k \<mapsto> vs(name := None)), True)))"

section \<open>What they do\<close>

text \<open>Two of the versions are never the result, and versions after 6.1 are \<open>unknown\<close>; a version of the 9x
  line that is not listed is taken for NT.\<close>

lemma os_version_range: "os_version i \<notin> {Windows_nt, Windows_xphome}"
  by (auto simp: os_version_def os_case_windows_def os_case_nt_def os_case_5_def os_case_6_def split: platform_id.split)

lemma os_version_falls_through:
  "os_platform i = Platform_Windows \<Longrightarrow> os_minor i \<notin> {0, 10, 90} \<Longrightarrow> os_major i = 4 \<Longrightarrow> os_version i = Windows_nt4"
  by (simp add: os_version_def os_case_windows_def os_case_nt_def)

theorem os_version_later:
  assumes "os_platform i = Platform_Nt" "6 < os_major i \<or> os_major i = 6 \<and> 1 < os_minor i"
  shows "os_version_string i = ''unknown''"
  using assms by (auto simp: os_version_string_def os_version_def os_case_nt_def os_case_6_def)

text \<open>The name has every folder of the path but the drive; the directory is always empty.\<close>

theorem process_paths:
  "process_directory path = [] \<and>
   (backslash \<notin> set drive \<longrightarrow> process_name (drive @ backslash # rest) = backslash # rest)"
proof -
  have "dropWhile (\<lambda>x. x \<noteq> backslash) (drive @ backslash # rest) = backslash # rest" if "backslash \<notin> set drive"
    using that by (simp add: dropWhile_append3 dropWhile_append split: if_splits)
  thus ?thesis by (simp add: process_directory_def process_name_def tcschr_def split: option.split)
qed

text \<open>The map keeps what was put in first, also after it was destroyed: a second service of the same
  name runs the first one's main handler, or a deleted object.\<close>

theorem service_name_taken:
  assumes "ss_objects s i = Some o1" "ss_objects s j = Some o2" "sv_name o1 = sv_name o2" "i \<noteq> j"
    "ss_map s (sv_name o1) = Some i"
  shows "service_start True j main event (service_destroy i s) = None"
    and "sv_main o1 = Some h \<Longrightarrow> \<exists>s'. service_start True j main event s = Some (s', True) \<and> ss_called s' = ss_called s @ [(h, i)]"
proof -
  show "service_start True j main event (service_destroy i s) = None"
    using assms by (simp add: service_start_def service_destroy_def service_main_def service_run_def Let_def)
  show "\<exists>s'. service_start True j main event s = Some (s', True) \<and> ss_called s' = ss_called s @ [(h, i)]"
    if "sv_main o1 = Some h"
    using assms that by (simp add: service_start_def service_main_def service_run_def Let_def)
qed

text \<open>The loop asks for the end of the service once.\<close>

lemma stop_loop_ends:
  assumes "scm_query k (n + d) \<in> {None, Some SERVICE_STOPPED}" "\<forall>i < d. scm_query k (n + i) \<notin> {None, Some SERVICE_STOPPED}"
    "sm_queries m = n"
  shows "\<exists>m'. stop_loop k req m = Some m' \<and> sm_handles m' = sm_handles m \<and> sm_handle m' = sm_handle m \<and>
    sm_stops m' = sm_stops m + of_bool (\<not> req \<and> 0 < d)"
  using assms
proof (induction d arbitrary: n req m)
  case 0
  thus ?case by (subst stop_loop.simps) (auto split: option.split)
next
  case (Suc d)
  obtain st where st: "scm_query k n = Some st" "st \<noteq> SERVICE_STOPPED"
    using Suc.prems(2) by (auto dest: spec[of _ 0])
  have p: "scm_query k (Suc n + d) \<in> {None, Some SERVICE_STOPPED}" "\<forall>i < d. scm_query k (Suc n + i) \<notin> {None, Some SERVICE_STOPPED}"
    using Suc.prems(1,2) by (simp, fastforce)
  let ?m = "m\<lparr>sm_queries := Suc n\<rparr>"
  show ?case
  proof (cases req)
    case True
    obtain m' where "stop_loop k True ?m = Some m'" "sm_handles m' = sm_handles m" "sm_handle m' = sm_handle m" "sm_stops m' = sm_stops m"
      using Suc.IH[OF p, of ?m True] by auto
    thus ?thesis using True st Suc.prems(3) by (subst stop_loop.simps) (auto simp: Let_def)
  next
    case False
    obtain m' where "stop_loop k True (?m\<lparr>sm_stops := Suc (sm_stops ?m)\<rparr>) = Some m'" "sm_handles m' = sm_handles m"
        "sm_handle m' = sm_handle m" "sm_stops m' = Suc (sm_stops m)"
      using Suc.IH[OF p, of "?m\<lparr>sm_stops := Suc (sm_stops ?m)\<rparr>" True] by auto
    thus ?thesis using False st Suc.prems(3) by (subst stop_loop.simps) (auto simp: Let_def)
  qed
qed

text \<open>\<open>uninstall\<close> returns once the service stops or the query fails, asking it to stop at most once; it
  leaves the handle of the service open, so that Windows does not remove the service before the
  process ends. \<open>install\<close> leaves the handle of the manager to the destructor.\<close>

theorem uninstall_outcome:
  assumes "scm_open k = Some h" "scm_service k = Some sv" "h \<noteq> sv" "sm_handles m = []" "sm_queries m = 0" "sm_stops m = 0"
    "scm_query k d \<in> {None, Some SERVICE_STOPPED}"
  shows "\<exists>m'. service_uninstall k m = Some (m', scm_delete k) \<and> sm_stops m' \<le> 1 \<and> sm_handles (manager_destroy m') = [sv]"
proof -
  define e where "e = (LEAST d. scm_query k d \<in> {None, Some SERVICE_STOPPED})"
  have e: "scm_query k (0 + e) \<in> {None, Some SERVICE_STOPPED}" "\<forall>i < e. scm_query k (0 + i) \<notin> {None, Some SERVICE_STOPPED}"
    unfolding e_def using LeastI[of "\<lambda>d. scm_query k d \<in> {None, Some SERVICE_STOPPED}", OF assms(7)]
    by (auto dest: not_less_Least)
  let ?m = "m\<lparr>sm_handle := Some h, sm_handles := sv # h # sm_handles m\<rparr>"
  obtain m' where "stop_loop k False ?m = Some m'" "sm_handles m' = sm_handles ?m" "sm_handle m' = Some h" "sm_stops m' \<le> 1"
    using stop_loop_ends[OF e, of ?m False] assms(5,6) by auto
  thus ?thesis using assms by (auto simp: service_uninstall_def manager_destroy_def Let_def)
qed

theorem install_handles:
  assumes "scm_open k = Some h" "sm_handles m = []"
  shows "sm_handles (manager_destroy (fst (service_install k m))) = []"
  using assms by (simp add: service_install_def manager_destroy_def Let_def split: option.split)

text \<open>The registry gives back what was set, text up to its first zero, unless it is too long to read.\<close>

theorem registry_roundtrip:
  assumes "hv (root, subkey) = Some vs" "registry_open hv root subkey r = (r1, ok)"
  shows "ok \<and> (\<exists>hv1. registry_set_dword r1 name v hv = (hv1, True) \<and> registry_get_dword r1 name hv1 = Some v) \<and>
    (\<exists>hv1. registry_set_string r1 name t hv = (hv1, True) \<and>
       (length t < 4096 \<longrightarrow> registry_get_string r1 name hv1 = Some (takeWhile (\<lambda>c. c \<noteq> CHR 0x00) t)) \<and>
       fst (registry_delete r1 name hv1) = hv((root, subkey) \<mapsto> vs(name := None)))"
  using assms by (auto simp: registry_open_def registry_set_dword_def registry_set_string_def reg_set_def
    registry_get_dword_def registry_get_string_def registry_delete_def Let_def split: if_splits)

end
