(* ===== verification/Log_Writers.thy ===== *)
theory Log_Writers
  imports File_Writer Socket
begin

text \<open>
  The writers of the log that keep no files: to the standard error (\<open>log/writer/stderr_writer.cpp\<close>), to
  a peer (\<open>udp_writer.cpp\<close>) and to the console of Windows (\<open>console_writer.cpp\<close>). The formatter of the
  first two is that of theory \<open>File_Writer\<close>; \<open>fwrite\<close> writes all it is given.
\<close>

section \<open>The code\<close>

text \<open>What the writers share: the record is formatted into the buffer of the writer, what is in it goes
  to \<open>out\<close>, and the buffer is cleared.\<close>

definition write_buffered :: "int \<Rightarrow> log_record \<Rightarrow> (u8 list \<Rightarrow> 's \<Rightarrow> 's) \<Rightarrow> heap \<times> memory_block \<Rightarrow> 's \<Rightarrow> ((heap \<times> memory_block) \<times> 's) option" where
  "write_buffered junk r out s w = do {
     (h1, b1) \<leftarrow> string_format junk r s;
     xs \<leftarrow> (case mb_peek (mb_length b1) h1 b1 of Returns xs \<Rightarrow> Some xs | _ \<Rightarrow> None);
     s2 \<leftarrow> (case mb_clear h1 b1 of Returns y \<Rightarrow> Some y | _ \<Rightarrow> None);
     Some (s2, out xs w) }"

definition stderr_write :: "int \<Rightarrow> log_record \<Rightarrow> (heap \<times> memory_block) \<times> u8 list \<Rightarrow> ((heap \<times> memory_block) \<times> u8 list) option" where
  "stderr_write junk r w = write_buffered junk r (\<lambda>xs err. err @ xs) (fst w) (snd w)"

record udp_writer =
  uw_buffer :: "heap \<times> memory_block"
  uw_fd :: int
  uw_net :: net

definition log_udp_write :: "kernel_calls \<Rightarrow> int \<Rightarrow> address \<Rightarrow> log_record \<Rightarrow> udp_writer \<Rightarrow> udp_writer option" where
  "log_udp_write k junk endpoint r w =
     (let w1 = (if sock_eq (uw_fd w) invalid_socket
                then (case sock_open k AF_INET SOCK_DGRAM IPPROTO_UDP (uw_net w) of (fd, ok, n) \<Rightarrow> w\<lparr>uw_fd := fd, uw_net := n\<rparr>)
                else w)
      in if \<not> sock_eq (uw_fd w1) invalid_socket
         then do {
           (s, n) \<leftarrow> write_buffered junk r (\<lambda>xs n. snd (sock_sendto k (uw_fd w1) xs endpoint 0 n)) (uw_buffer w1) (uw_net w1);
           Some (w1\<lparr>uw_buffer := s, uw_net := n\<rparr>) }
         else Some w1)"

text \<open>The console: its attributes, and what was written with the attributes of each part. \<open>text\<close> is the
  record as the formatter of Windows gives it; \<open>None\<close> is a console that is not there.\<close>

record console =
  cs_attributes :: nat
  cs_written :: "(nat \<times> u8 list) list"

definition console_colors :: "nat list" where
  "console_colors = [0x0a, 0x02, 0x0b, 0x0c, 0x0e]"

fun level_index :: "level \<Rightarrow> nat" where
  "level_index Log_Debug = 0"
| "level_index Log_Info = 1"
| "level_index Log_Warn = 2"
| "level_index Log_Error = 3"
| "level_index Log_Fatal = 4"

definition console_write :: "(log_record \<Rightarrow> u8 list) \<Rightarrow> log_record \<Rightarrow> console option \<Rightarrow> console option" where
  "console_write text r c =
     (case c of
        None \<Rightarrow> None
      | Some c0 \<Rightarrow>
          (let info = cs_attributes c0;
               c1 = c0\<lparr>cs_attributes := console_colors ! level_index (lr_level r)\<rparr>;
               c2 = c1\<lparr>cs_written := cs_written c1 @ [(cs_attributes c1, text r)]\<rparr>
           in Some (c2\<lparr>cs_attributes := info\<rparr>)))"

section \<open>One record\<close>

lemma write_buffered_ok:
  assumes "mb_cleared L s" "printable junk r"
  obtains s' where "write_buffered junk r out s w = Some (s', out (line_of junk r) w)" "mb_cleared L s'"
proof -
  obtain h x where s: "s = (h, x)" by (cases s)
  obtain st where st: "tick_to_systemtime junk (lr_time r) = Some st" "line_of junk r = record_text st r"
    "length (record_text st r) < 8192" using assms(2) by (auto simp: printable_def line_of_def)
  obtain h1 b1 where 1: "string_format junk r (h, x) = Some (h1, b1)" "mb_live L (h1, b1)"
    "mb_contents h1 b1 = record_text st r" using string_format_ok[OF _ st(1,3)] assms(1) s by metis
  have p: "mb_peek (mb_length b1) h1 b1 = Returns (record_text st r)"
    using mb_peek_ok[OF 1(2), of "mb_length b1"] mb_length_contents[OF 1(2)] 1(3) by simp
  obtain h2 b2 where 2: "mb_clear h1 b1 = Returns (h2, b2)" "mb_cleared L (h2, b2)" by (rule mb_clear_ok[OF 1(2)])
  show ?thesis using 1(1) p 2 st(2) s by (intro that[of "(h2, b2)"]) (simp_all add: write_buffered_def)
qed

text \<open>Every console record is written in the colour of its level, all different, and the attributes
  are what they were.\<close>

theorem console_write_colors:
  "\<exists>c'. console_write text r (Some c) = Some c' \<and> cs_attributes c' = cs_attributes c \<and>
     cs_written c' = cs_written c @ [(console_colors ! level_index (lr_level r), text r)]"
  "console_colors ! level_index a = console_colors ! level_index b \<Longrightarrow> a = b"
  by (simp add: console_write_def Let_def) (cases a; cases b; simp add: console_colors_def)

section \<open>Many records\<close>

fun stderr_all :: "int \<Rightarrow> log_record list \<Rightarrow> (heap \<times> memory_block) \<times> u8 list \<Rightarrow> ((heap \<times> memory_block) \<times> u8 list) option" where
  "stderr_all junk [] w = Some w"
| "stderr_all junk (r # rs) w = do { w1 \<leftarrow> stderr_write junk r w; stderr_all junk rs w1 }"

theorem stderr_writes_all:
  assumes "mb_cleared L s" "\<forall>r \<in> set rs. printable junk r"
  shows "\<exists>s'. stderr_all junk rs (s, err) = Some (s', err @ concat (map (line_of junk) rs)) \<and> mb_cleared L s'"
  using assms
proof (induction rs arbitrary: s err)
  case (Cons r rs)
  have "printable junk r" using Cons.prems(2) by simp
  then obtain s1 where "write_buffered junk r (\<lambda>xs err. err @ xs) s err = Some (s1, err @ line_of junk r)" "mb_cleared L s1"
    by (rule write_buffered_ok[OF Cons.prems(1)])
  thus ?case using Cons.IH[of s1 "err @ line_of junk r"] Cons.prems(2) by (simp add: stderr_write_def)
qed simp

fun log_udp_write_all :: "kernel_calls \<Rightarrow> int \<Rightarrow> address \<Rightarrow> log_record list \<Rightarrow> udp_writer \<Rightarrow> udp_writer option" where
  "log_udp_write_all k junk endpoint [] w = Some w"
| "log_udp_write_all k junk endpoint (r # rs) w =
     do { w1 \<leftarrow> log_udp_write k junk endpoint r w; log_udp_write_all k junk endpoint rs w1 }"

text \<open>The datagrams of a socket that is open.\<close>

definition datagrams :: "int \<Rightarrow> int \<Rightarrow> address \<Rightarrow> log_record list \<Rightarrow> syscall list" where
  "datagrams fd junk endpoint rs = map (\<lambda>r. Sys_Sendto fd (line_of junk r) 0 endpoint) rs"

definition open_call :: syscall where
  "open_call = Sys_Socket AF_INET SOCK_DGRAM IPPROTO_UDP"

lemma log_udp_write_sends:
  assumes "mb_cleared L (uw_buffer w)" "printable junk r" "uw_fd w \<noteq> -1"
  obtains w' where "log_udp_write k junk endpoint r w = Some w'" "mb_cleared L (uw_buffer w')" "uw_fd w' = uw_fd w"
    "net_calls (uw_net w') = net_calls (uw_net w) @ datagrams (uw_fd w) junk endpoint [r]"
proof -
  obtain s' where s': "write_buffered junk r (\<lambda>xs n. snd (sock_sendto k (uw_fd w) xs endpoint 0 n)) (uw_buffer w) (uw_net w) =
      Some (s', snd (sock_sendto k (uw_fd w) (line_of junk r) endpoint 0 (uw_net w)))" "mb_cleared L s'"
    by (rule write_buffered_ok[OF assms(1,2)])
  show ?thesis
    using s' assms(3) by (intro that[of "w\<lparr>uw_buffer := s', uw_net := snd (sock_sendto k (uw_fd w) (line_of junk r) endpoint 0 (uw_net w))\<rparr>"])
      (simp_all add: log_udp_write_def sock_eq_def invalid_socket_def datagrams_def sock_sendto_def sys_def Let_def)
qed

lemma udp_open_sends:
  assumes "mb_cleared L (uw_buffer w)" "\<forall>r \<in> set rs. printable junk r" "uw_fd w \<noteq> -1"
  shows "\<exists>w'. log_udp_write_all k junk endpoint rs w = Some w' \<and> mb_cleared L (uw_buffer w') \<and> uw_fd w' = uw_fd w \<and>
    net_calls (uw_net w') = net_calls (uw_net w) @ datagrams (uw_fd w) junk endpoint rs"
  using assms
proof (induction rs arbitrary: w)
  case Nil
  thus ?case by (simp add: datagrams_def)
next
  case (Cons r rs)
  have "printable junk r" using Cons.prems(2) by simp
  then obtain w1 where w1: "log_udp_write k junk endpoint r w = Some w1" "mb_cleared L (uw_buffer w1)" "uw_fd w1 = uw_fd w"
      "net_calls (uw_net w1) = net_calls (uw_net w) @ datagrams (uw_fd w) junk endpoint [r]"
    by (rule log_udp_write_sends[OF Cons.prems(1) _ Cons.prems(3)])
  thus ?case using Cons.IH[of w1] Cons.prems(2,3) by (auto simp: datagrams_def)
qed

text \<open>The writer to a peer returns for every run of records: until its socket can be opened every record
  is lost, with one try for each; from then on each record is one datagram, in order, whatever comes of
  the sends.\<close>

theorem udp_writer_datagrams:
  assumes "mb_cleared L (uw_buffer w)" "\<forall>r \<in> set rs. printable junk r" "uw_fd w = -1"
  shows "\<exists>w' lost sent. log_udp_write_all k junk endpoint rs w = Some w' \<and> rs = lost @ sent \<and> mb_cleared L (uw_buffer w') \<and>
    net_calls (uw_net w') = net_calls (uw_net w) @ replicate (length lost) open_call @
      (if sent = [] then [] else open_call # datagrams (uw_fd w') junk endpoint sent)"
  using assms
proof (induction rs arbitrary: w)
  case Nil
  thus ?case by (intro exI[of _ w] exI[of _ "[]"]) simp
next
  case (Cons r rs)
  obtain fd ok n where n: "sock_open k AF_INET SOCK_DGRAM IPPROTO_UDP (uw_net w) = (fd, ok, n)" using prod_cases3 by blast
  hence c: "net_calls n = net_calls (uw_net w) @ [open_call]"
    by (auto simp: sock_open_def sys_def set_error_def open_call_def Let_def split: if_splits)
  let ?w = "w\<lparr>uw_fd := fd, uw_net := n\<rparr>"
  show ?case
  proof (cases "fd = -1")
    case True
    hence "log_udp_write k junk endpoint r w = Some ?w"
      using n Cons.prems(3) by (simp add: log_udp_write_def sock_eq_def invalid_socket_def)
    moreover obtain w' lost sent where "log_udp_write_all k junk endpoint rs ?w = Some w'" "rs = lost @ sent" "mb_cleared L (uw_buffer w')"
        "net_calls (uw_net w') = net_calls n @ replicate (length lost) open_call @
          (if sent = [] then [] else open_call # datagrams (uw_fd w') junk endpoint sent)"
      using Cons.IH[of ?w] Cons.prems(1,2) True by auto
    ultimately show ?thesis using c by (intro exI[of _ w'] exI[of _ "r # lost"] exI[of _ sent]) simp
  next
    case False
    have "log_udp_write k junk endpoint r w = log_udp_write k junk endpoint r ?w"
      using n Cons.prems(3) False by (simp add: log_udp_write_def sock_eq_def invalid_socket_def)
    hence "log_udp_write_all k junk endpoint (r # rs) w = log_udp_write_all k junk endpoint (r # rs) ?w" by simp
    moreover obtain w' where "log_udp_write_all k junk endpoint (r # rs) ?w = Some w'" "mb_cleared L (uw_buffer w')" "uw_fd w' = fd"
        "net_calls (uw_net w') = net_calls n @ datagrams fd junk endpoint (r # rs)"
      using udp_open_sends[of L ?w "r # rs" junk k endpoint] Cons.prems(1,2) False by auto
    ultimately show ?thesis using c by (intro exI[of _ w'] exI[of _ "[]"] exI[of _ "r # rs"]) simp
  qed
qed

end
