(* ===== verification/Udp_Pipeline.thy ===== *)
theory Udp_Pipeline
  imports Pipeline Iocp_Udp
begin

text \<open>
  The pipeline of UDP channels (\<open>io/ip/udp/pipeline/\<close>): filters linked as those of TCP (theory
  \<open>Pipeline\<close>), whose store and chain it uses, with the events of datagrams. The channel a filter
  writes to at the end is given as what its \<open>do_write\<close> does.
\<close>

section \<open>The code\<close>

definition up_filter_new :: "nat \<Rightarrow> filter_store \<Rightarrow> filter_store" where
  "up_filter_new f s =
     s\<lparr>fl_channel := (fl_channel s)(f := None), fl_in := (fl_in s)(f := None),
       fl_out := (fl_out s)(f := None), fl_name := (fl_name s)(f := [])\<rparr>"

text \<open>\<open>on_open\<close>, \<open>on_error\<close>, \<open>on_read\<close> and \<open>on_closed\<close>: the filters passed.\<close>

partial_function (option) up_on_event :: "filter_store \<Rightarrow> nat \<Rightarrow> nat list option" where
  "up_on_event s f =
     (case fl_in s f of
        Some g \<Rightarrow> do { fs \<leftarrow> up_on_event s g; Some (f # fs) }
      | None \<Rightarrow> Some [f])"

text \<open>\<open>do_write\<close> and \<open>write_out_bound\<close>: the filters passed, and the state after the channel's \<open>do_write\<close>.\<close>

partial_function (option) up_do_write :: "filter_store \<Rightarrow> (nat \<Rightarrow> 'c \<Rightarrow> 'c) \<Rightarrow> nat \<Rightarrow> 'c \<Rightarrow> (nat list \<times> 'c) option" where
  "up_do_write s channel_write f c =
     (case fl_out s f of
        Some g \<Rightarrow> do { (fs, c1) \<leftarrow> up_do_write s channel_write g c; Some (f # fs, c1) }
      | None \<Rightarrow> (case fl_channel s f of None \<Rightarrow> None | Some ch \<Rightarrow> Some ([f], channel_write ch c)))"

definition up_on_delete :: "nat \<Rightarrow> filter_store \<Rightarrow> filter_store" where
  "up_on_delete f s = s\<lparr>fl_deleted := fl_deleted s @ [f]\<rparr>"

definition up_chain_add :: "nat \<Rightarrow> filter_chain \<Rightarrow> filter_store \<Rightarrow> filter_chain \<times> filter_store" where
  "up_chain_add f ch s =
     (case chain_tail ch of
        None \<Rightarrow> (ch\<lparr>chain_head := Some f, chain_tail := Some f\<rparr>, s)
      | Some t \<Rightarrow> (ch\<lparr>chain_tail := Some f\<rparr>, set_out_bound f (Some t) (set_in_bound t (Some f) s)))"

partial_function (option) up_chain_destroy :: "nat option \<Rightarrow> filter_store \<Rightarrow> filter_store option" where
  "up_chain_destroy h s =
     (case h of
        None \<Rightarrow> Some s
      | Some d \<Rightarrow> if d \<in> set (fl_deleted s) then None else up_chain_destroy (fl_in s d) (up_on_delete d s))"

definition up_pipeline_add :: "string \<Rightarrow> nat \<Rightarrow> pipeline \<Rightarrow> filter_store \<Rightarrow> pipeline \<times> filter_store" where
  "up_pipeline_add name f p s =
     (let (ch, s') = up_chain_add f (pl_chain p) (set_channel f (pl_channel p) (set_name f name s))
      in (p\<lparr>pl_chain := ch\<rparr>, s'))"

partial_function (option) up_find_from :: "string \<Rightarrow> filter_store \<Rightarrow> nat option \<Rightarrow> nat option option" where
  "up_find_from name s fp =
     (case fp of
        None \<Rightarrow> Some None
      | Some f \<Rightarrow> if fl_name s f = name then Some (Some f) else up_find_from name s (fl_in s f))"

definition up_find :: "string \<Rightarrow> pipeline \<Rightarrow> filter_store \<Rightarrow> nat option option" where
  "up_find name p s = up_find_from name s (in_bound_filter (pl_chain p))"

text \<open>A pipeline of a channel to which filters were added.\<close>

fun up_add_all :: "(nat \<times> string) list \<Rightarrow> pipeline \<Rightarrow> filter_store \<Rightarrow> pipeline \<times> filter_store" where
  "up_add_all [] p s = (p, s)"
| "up_add_all ((f, n) # fs) p s = (let (p', s') = up_pipeline_add n f p (up_filter_new f s) in up_add_all fs p' s')"

section \<open>The pipeline of TCP\<close>

lemma up_same: "up_filter_new = filter_new" "up_on_delete = on_delete" "up_chain_add = chain_add"
  "up_pipeline_add = pipeline_add"
  by (intro ext; simp add: up_filter_new_def filter_new_def up_on_delete_def on_delete_def up_chain_add_def chain_add_def
      up_pipeline_add_def pipeline_add_def)+

lemma up_add_all_same: "up_add_all fs p s = add_all fs p s"
  by (induction fs p s rule: up_add_all.induct) (auto simp: up_same split: prod.split)

lemma up_on_event_linked: "linked (fl_in s) (f # fs) \<Longrightarrow> up_on_event s f = Some (f # fs)"
  by (induction fs arbitrary: f) (simp_all add: up_on_event.simps)

lemma up_do_write_linked:
  "linked (fl_out s) (f # fs) \<Longrightarrow> \<forall>g\<in>set (f # fs). fl_channel s g = Some ch \<Longrightarrow>
   up_do_write s w f c = Some (f # fs, w ch c)"
  by (induction fs arbitrary: f) (simp_all add: up_do_write.simps)

lemma up_find_linked:
  "linked (fl_in s) fs \<Longrightarrow>
   up_find_from name s (if fs = [] then None else Some (hd fs)) = Some (find (\<lambda>f. fl_name s f = name) fs)"
proof (induction fs)
  case (Cons f fs)
  thus ?case by (subst up_find_from.simps) (simp add: linked_Cons split: if_splits)
qed (simp add: up_find_from.simps)

lemma up_destroy_linked:
  "linked (fl_in s) fs \<Longrightarrow> distinct fs \<Longrightarrow> set fs \<inter> set (fl_deleted s) = {} \<Longrightarrow>
   up_chain_destroy (if fs = [] then None else Some (hd fs)) s = Some (s\<lparr>fl_deleted := fl_deleted s @ fs\<rparr>)"
proof (induction fs arbitrary: s)
  case (Cons f fs)
  have "up_chain_destroy (if fs = [] then None else Some (hd fs)) (up_on_delete f s) =
      Some ((up_on_delete f s)\<lparr>fl_deleted := fl_deleted (up_on_delete f s) @ fs\<rparr>)"
    using Cons.prems by (intro Cons.IH) (auto simp: linked_Cons up_on_delete_def)
  thus ?case using Cons.prems by (subst up_chain_destroy.simps) (simp add: linked_Cons up_on_delete_def)
qed (simp add: up_chain_destroy.simps)

section \<open>A channel with its pipeline\<close>

text \<open>What filters of the base class are for a channel of \<open>Iocp_Udp\<close>: the last one drops the events, the
  first one writes to the channel.\<close>

definition base_filters :: "wsa_from \<Rightarrow> wu_filters" where
  "base_filters k = \<lparr>uf_in = \<lambda>e c. c, uf_out = wu_do_write k\<rparr>"

lemma base_filters_ok: "wu_filters_ok k (base_filters k)"
  by (auto simp: wu_filters_ok_def base_filters_def intro: ua_do_write)

lemma up_pipeline_order:
  assumes "distinct (map fst fs)" "fs \<noteq> []" "up_add_all fs (pipeline_new ch) s0 = (p, s)" "fl_deleted s0 = []"
  shows "\<exists>h t. in_bound_filter (pl_chain p) = Some h \<and> out_bound_filter (pl_chain p) = Some t \<and>
    up_on_event s h = Some (map fst fs) \<and> up_do_write s w t c = Some (rev (map fst fs), w ch c) \<and>
    up_find name p s = Some (map_option fst (find (\<lambda>(f, n). n = name) fs)) \<and>
    up_chain_destroy (chain_head (pl_chain p)) s = Some (s\<lparr>fl_deleted := map fst fs\<rparr>)"
proof -
  have r: "chain_rep s p fs" "pl_channel p = ch" "fl_deleted s = []"
    using add_all_rep[OF new_rep[of s0 ch], of fs] assms(1,3,4) by (auto simp: pipeline_new_def up_add_all_same)
  obtain f n gs where fs: "fs = (f, n) # gs" using assms(2) by (cases fs) auto
  obtain t m' hs where tl: "fs = hs @ [(t, m')]" using assms(2) by (metis rev_exhaust surj_pair)
  have ends: "in_bound_filter (pl_chain p) = Some f" "out_bound_filter (pl_chain p) = Some t"
    using r(1) fs by (simp add: chain_rep_def in_bound_filter_def)
      (use r(1) tl in \<open>simp add: chain_rep_def out_bound_filter_def\<close>)
  have "up_on_event s f = Some (map fst fs)"
    using up_on_event_linked[of s f "map fst gs"] r(1) fs by (simp add: chain_rep_def)
  moreover have "\<forall>g\<in>set (t # rev (map fst hs)). fl_channel s g = Some ch"
    using r tl by (fastforce simp: chain_rep_def)
  hence "up_do_write s w t c = Some (rev (map fst fs), w ch c)"
    using up_do_write_linked[of s t "rev (map fst hs)" ch w c] r tl by (simp add: chain_rep_def)
  moreover have "up_find name p s = Some (map_option fst (find (\<lambda>(f, n). n = name) fs))"
  proof -
    have "find (\<lambda>f. fl_name s f = name) (map fst xs) = map_option fst (find (\<lambda>(f, n). n = name) xs)"
      if "set xs \<subseteq> set fs" for xs
      using that r(1) by (induction xs) (auto simp: chain_rep_def)
    thus ?thesis using up_find_linked[of s "map fst fs" name] r(1) assms(2)
      by (auto simp: up_find_def in_bound_filter_def chain_rep_def hd_map)
  qed
  moreover have "up_chain_destroy (chain_head (pl_chain p)) s = Some (s\<lparr>fl_deleted := map fst fs\<rparr>)"
    using up_destroy_linked[of s "map fst fs"] r(1,3) assms(1,2) by (simp add: chain_rep_def hd_map)
  ultimately show ?thesis using ends by blast
qed

text \<open>A UDP channel of Windows with a pipeline of base filters: events pass the filters in the order they
  were added, a write passes them in the opposite order and is then the channel's own \<open>do_write\<close>, the
  destructor deletes each filter once, and in every run the channel keeps its life cycle.\<close>

theorem udp_pipeline_channel:
  assumes "distinct (map fst fs)" "fs \<noteq> []" "up_add_all fs (pipeline_new ch) s0 = (p, s)" "fl_deleted s0 = []"
    "(wu_step k (base_filters k))\<^sup>*\<^sup>* (wu_fire_on_open k (base_filters k) iocp_udp_new) c"
  shows "\<exists>h t. in_bound_filter (pl_chain p) = Some h \<and> out_bound_filter (pl_chain p) = Some t \<and>
    up_on_event s h = Some (map fst fs) \<and>
    up_do_write s (\<lambda>_. wu_do_write k a m) t c = Some (rev (map fst fs), uf_out (base_filters k) a m c) \<and>
    up_find name p s = Some (map_option fst (find (\<lambda>(f, n). n = name) fs)) \<and>
    up_chain_destroy (chain_head (pl_chain p)) s = Some (s\<lparr>fl_deleted := map fst fs\<rparr>) \<and>
    \<not> wc_fault c \<and> wc_errors c \<le> 1 \<and> wc_closes c \<le> 1"
proof -
  have "wc_inv 0 0 0 0 0 c"
    using assms(5) by (induction rule: rtranclp_induct) (blast intro: wu_opened_inv[OF base_filters_ok] dest: wu_step_inv[OF base_filters_ok])+
  note b = this wc_open_bits[OF this]
  have "\<not> wc_fault c" "wc_errors c \<le> 1" "wc_closes c \<le> 1" using b by (simp_all add: wc_inv_def)
  moreover have "wu_do_write k a m c = uf_out (base_filters k) a m c" by (simp add: base_filters_def)
  ultimately show ?thesis
    using up_pipeline_order[OF assms(1-4), of "\<lambda>_. wu_do_write k a m" c name] by (simp only: simp_thms)
qed

lemma udp_pipeline_channel_witness:
  "\<exists>p s h t. up_add_all [(4, ''log''), (7, ''app'')] (pipeline_new 1)
      \<lparr>fl_channel = (\<lambda>f. None), fl_in = (\<lambda>f. None), fl_out = (\<lambda>f. None), fl_name = (\<lambda>f. []), fl_deleted = []\<rparr> = (p, s) \<and>
    in_bound_filter (pl_chain p) = Some h \<and> up_on_event s h = Some [4, 7] \<and> out_bound_filter (pl_chain p) = Some t"
proof -
  let ?s = "\<lparr>fl_channel = (\<lambda>f. None), fl_in = (\<lambda>f. None), fl_out = (\<lambda>f. None), fl_name = (\<lambda>f. []), fl_deleted = []\<rparr> :: filter_store"
  let ?k = "wsa_full"
  obtain p s' where a: "up_add_all [(4, ''log''), (7, ''app'')] (pipeline_new 1) ?s = (p, s')" by (metis surj_pair)
  let ?c = "wu_fire_on_open ?k (base_filters ?k) iocp_udp_new"
  obtain h t where "in_bound_filter (pl_chain p) = Some h" "out_bound_filter (pl_chain p) = Some t"
      "up_on_event s' h = Some (map fst [(4, ''log''), (7 :: nat, ''app'')])"
    using udp_pipeline_channel[OF _ _ a _ rtranclp.rtrancl_refl[of _ ?c], where m = "[]" and name = "[]"] by force
  thus ?thesis using a by (intro exI[of _ p] exI[of _ s'] exI[of _ h] exI[of _ t]) simp
qed

end
