(* ===== verification/Iocp_Connector.thy ===== *)
theory Iocp_Connector
  imports Connector Task_Objects
begin

text \<open>
  The connector of TCP channels on Windows (\<open>io/ip/tcp/channel_connector.cpp\<close>): an overlapped
  \<open>ConnectEx\<close> in place of readiness. What the calls of the system return is a parameter, by the
  number of the call: \<open>None\<close>, or an error; a socket is named by the number of the call that made it.
\<close>

definition io_pending :: int where "io_pending = 997"

section \<open>State and operations\<close>

datatype connect_call = Call_Socket | Call_Non_Block | Call_Register | Call_Bind | Call_Ioctl | Call_Connect_Ex address

text \<open>\<open>ic_task\<close> is the \<open>OVERLAPPED\<close> of \<open>_on_connect\<close>, \<open>ic_flight\<close> says that the kernel has it, \<open>ic_pending\<close> how
  often it is queued on the loop, \<open>ic_last\<close> the last error of the thread.\<close>

record iocp_connector =
  ic_addrs :: "address list"
  ic_index :: nat
  ic_time_out :: time_span
  ic_fd :: "nat option"
  ic_task :: overlapped
  ic_flight :: bool
  ic_pending :: nat
  ic_active :: int
  ic_last :: int
  ic_calls :: nat
  ic_outcomes :: "outcome list"
  ic_channels :: "nat list"

record iocp_connector_env =
  ie_call :: "nat \<Rightarrow> connect_call \<Rightarrow> int option"
  ie_on_connect :: "address \<Rightarrow> bool"
  ie_build :: "nat \<Rightarrow> error_code"

definition iocp_connector_new :: iocp_connector where
  "iocp_connector_new =
     \<lparr>ic_addrs = [], ic_index = 0, ic_time_out = 0, ic_fd = None, ic_task = ov_reset 0, ic_flight = False, ic_pending = 0,
      ic_active = 0, ic_last = 0, ic_calls = 0, ic_outcomes = [], ic_channels = []\<rparr>"

definition ic_call :: "iocp_connector_env \<Rightarrow> connect_call \<Rightarrow> iocp_connector \<Rightarrow> iocp_connector \<times> int option" where
  "ic_call e cl c =
     (let r = ie_call e (ic_calls c) cl
      in (c\<lparr>ic_calls := Suc (ic_calls c), ic_last := (case r of None \<Rightarrow> ic_last c | Some er \<Rightarrow> er)\<rparr>, r))"

definition ic_add_active :: "int \<Rightarrow> iocp_connector \<Rightarrow> iocp_connector" where
  "ic_add_active d c = c\<lparr>ic_active := ic_active c + d\<rparr>"

text \<open>Calls that must succeed one after the other.\<close>

fun ic_calls_all :: "iocp_connector_env \<Rightarrow> connect_call list \<Rightarrow> iocp_connector \<Rightarrow> iocp_connector \<times> bool" where
  "ic_calls_all e [] c = (c, True)"
| "ic_calls_all e (cl # cls) c =
     (let (c1, r) = ic_call e cl c in if r \<noteq> None then (c1, False) else ic_calls_all e cls c1)"

definition ic_attempt :: "iocp_connector_env \<Rightarrow> address \<Rightarrow> iocp_connector \<Rightarrow> iocp_connector \<times> bool" where
  "ic_attempt e addr c0 =
     (let (c1, r) = ic_call e Call_Socket (c0\<lparr>ic_fd := None\<rparr>)
      in if r \<noteq> None then (c1, False)
         else
           (let (c2, ready) = ic_calls_all e [Call_Non_Block, Call_Register, Call_Bind, Call_Ioctl] (c1\<lparr>ic_fd := Some (ic_calls c0)\<rparr>)
            in if \<not> ready then (c2, False)
               else
                 (let (c3, r) = ic_call e (Call_Connect_Ex addr) (c2\<lparr>ic_task := ov_reset 0\<rparr>)
                  in if r = None \<or> r = Some io_pending then (ic_add_active 1 (c3\<lparr>ic_flight := True\<rparr>), True)
                     else (c3, False))))"

text \<open>What an attempt leaves alone, and its result.\<close>

definition ic_attempted :: "iocp_connector \<Rightarrow> iocp_connector \<Rightarrow> bool \<Rightarrow> bool" where
  "ic_attempted c c1 ok \<longleftrightarrow>
     ic_addrs c1 = ic_addrs c \<and> ic_index c1 = ic_index c \<and> ic_pending c1 = ic_pending c \<and> ic_outcomes c1 = ic_outcomes c \<and>
     ic_flight c1 = (ok \<or> ic_flight c) \<and> ic_active c1 = ic_active c + of_bool ok"

lemma ic_call_keeps: "ic_call e cl c = (c1, r) \<Longrightarrow>
    ic_attempted c c1 False \<and> ic_fd c1 = ic_fd c \<and> ic_task c1 = ic_task c \<and> (\<forall>er. r = Some er \<longrightarrow> ic_last c1 = er)"
  by (auto simp: ic_call_def ic_attempted_def Let_def)

lemma ic_attempted_trans: "ic_attempted a b False \<Longrightarrow> ic_attempted b c ok \<Longrightarrow> ic_attempted a c ok"
  by (simp add: ic_attempted_def)

declare ic_calls_all.simps(2) [simp del]

lemma ic_calls_all_keeps: "ic_calls_all e cls c = (c1, ok) \<Longrightarrow> ic_attempted c c1 False \<and> ic_fd c1 = ic_fd c \<and> ic_task c1 = ic_task c"
proof (induction cls arbitrary: c)
  case Nil
  thus ?case by (simp add: ic_attempted_def)
next
  case (Cons cl cls)
  obtain c2 r where r: "ic_call e cl c = (c2, r)" by fastforce
  note k = ic_call_keeps[OF r]
  show ?case
  proof (cases "r = None")
    case True
    hence "ic_calls_all e cls c2 = (c1, ok)" using Cons.prems r by (simp add: ic_calls_all.simps(2))
    thus ?thesis using Cons.IH[of c2] k ic_attempted_trans by metis
  next
    case False
    hence "c1 = c2" using Cons.prems r by (auto simp: ic_calls_all.simps(2))
    thus ?thesis using k by blast
  qed
qed

lemma ic_attempt_cases:
  assumes "ic_attempt e addr c = (c1, ok)"
  obtains (no_socket) r where "ic_call e Call_Socket (c\<lparr>ic_fd := None\<rparr>) = (c1, Some r)" "\<not> ok"
  | (not_ready) d where "ic_call e Call_Socket (c\<lparr>ic_fd := None\<rparr>) = (d, None)" "\<not> ok"
      "ic_calls_all e [Call_Non_Block, Call_Register, Call_Bind, Call_Ioctl] (d\<lparr>ic_fd := Some (ic_calls c)\<rparr>) = (c1, False)"
  | (refused) d d2 r where "ic_call e Call_Socket (c\<lparr>ic_fd := None\<rparr>) = (d, None)" "\<not> ok"
      "ic_calls_all e [Call_Non_Block, Call_Register, Call_Bind, Call_Ioctl] (d\<lparr>ic_fd := Some (ic_calls c)\<rparr>) = (d2, True)"
      "ic_call e (Call_Connect_Ex addr) (d2\<lparr>ic_task := ov_reset 0\<rparr>) = (c1, Some r)" "r \<noteq> io_pending"
  | (started) d d2 d3 r where "ic_call e Call_Socket (c\<lparr>ic_fd := None\<rparr>) = (d, None)" ok
      "ic_calls_all e [Call_Non_Block, Call_Register, Call_Bind, Call_Ioctl] (d\<lparr>ic_fd := Some (ic_calls c)\<rparr>) = (d2, True)"
      "ic_call e (Call_Connect_Ex addr) (d2\<lparr>ic_task := ov_reset 0\<rparr>) = (d3, r)" "c1 = ic_add_active 1 (d3\<lparr>ic_flight := True\<rparr>)"
proof -
  obtain d r where d: "ic_call e Call_Socket (c\<lparr>ic_fd := None\<rparr>) = (d, r)" by fastforce
  obtain d2 ready where d2: "ic_calls_all e [Call_Non_Block, Call_Register, Call_Bind, Call_Ioctl] (d\<lparr>ic_fd := Some (ic_calls c)\<rparr>) = (d2, ready)"
    by fastforce
  obtain d3 r3 where d3: "ic_call e (Call_Connect_Ex addr) (d2\<lparr>ic_task := ov_reset 0\<rparr>) = (d3, r3)" by fastforce
  have a: "(if r \<noteq> None then (d, False) else if \<not> ready then (d2, False)
      else if r3 = None \<or> r3 = Some io_pending then (ic_add_active 1 (d3\<lparr>ic_flight := True\<rparr>), True) else (d3, False)) = (c1, ok)"
    using assms unfolding ic_attempt_def d Let_def prod.case d2 d3 .
  consider "r \<noteq> None" | "r = None" "\<not> ready" | "r = None" ready "r3 = None \<or> r3 = Some io_pending"
    | "r = None" ready "r3 \<noteq> None" "r3 \<noteq> Some io_pending" by blast
  thus thesis
  proof cases
    case 1 thus ?thesis using a d no_socket by auto
  next
    case 2 thus ?thesis using a d d2 not_ready by auto
  next
    case 3 thus ?thesis using a d d2 d3 started by auto
  next
    case 4
    then obtain er where er: "r3 = Some er" "er \<noteq> io_pending" by blast
    have "ok = False" "d3 = c1" "ready" using a 4 by auto
    thus ?thesis using refused[of d d2 er] d d2 d3 4 er by simp
  qed
qed

lemma ic_attempt_keeps:
  assumes "ic_attempt e addr c = (c1, ok)"
  shows "ic_attempted c c1 ok \<and> (ok \<longrightarrow> ic_fd c1 \<noteq> None)"
  using assms
proof (cases rule: ic_attempt_cases)
  case (no_socket r)
  thus ?thesis using ic_call_keeps[OF no_socket(1)] by (simp add: ic_attempted_def)
next
  case (not_ready d)
  thus ?thesis using ic_call_keeps[OF not_ready(1)] ic_calls_all_keeps[OF not_ready(3)] by (simp add: ic_attempted_def)
next
  case (refused d d2 r)
  thus ?thesis using ic_call_keeps[OF refused(1)] ic_calls_all_keeps[OF refused(3)] ic_call_keeps[OF refused(4)]
    by (simp add: ic_attempted_def)
next
  case (started d d2 d3 r)
  thus ?thesis using ic_call_keeps[OF started(1)] ic_calls_all_keeps[OF started(3)] ic_call_keeps[OF started(4)]
    by (simp add: ic_attempted_def ic_add_active_def)
qed

function ic_try :: "iocp_connector_env \<Rightarrow> iocp_connector \<Rightarrow> iocp_connector \<times> bool" where
  "ic_try e c =
     (if ic_index c < length (ic_addrs c) then
        (case ic_attempt e (ic_addrs c ! ic_index c) (c\<lparr>ic_index := Suc (ic_index c)\<rparr>) of
           (c1, ok) \<Rightarrow> if ok then (c1, True) else ic_try e c1)
      else (c, False))"
  by pat_completeness auto
termination
  by (relation "measure (\<lambda>(e, c). length (ic_addrs c) - ic_index c)")
    (auto dest!: sym[of "(_, _)"] dest: ic_attempt_keeps simp: ic_attempted_def)

declare ic_try.simps [simp del]

definition ic_execute :: "iocp_connector \<Rightarrow> iocp_connector" where
  "ic_execute c = ic_add_active 1 (c\<lparr>ic_pending := Suc (ic_pending c)\<rparr>)"

definition ic_set_error :: "error_code \<Rightarrow> iocp_connector \<Rightarrow> iocp_connector" where
  "ic_set_error ec c = c\<lparr>ic_task := ov_set_error ec (ic_task c)\<rparr>"

definition ic_connect :: "iocp_connector_env \<Rightarrow> address list \<Rightarrow> iocp_connector \<Rightarrow> iocp_connector" where
  "ic_connect e addrs c0 =
     (let c = c0\<lparr>ic_addrs := addrs, ic_index := 0\<rparr>
      in if addrs \<noteq> [] then
           (let (c1, ok) = ic_try e c in if ok then c1 else ic_execute (ic_set_error (platform_error (ic_last c1)) c1))
         else ic_execute (ic_set_error (tdk_error Tdk_Invalid_Call) c))"

definition ic_reconnect :: "iocp_connector_env \<Rightarrow> iocp_connector \<Rightarrow> iocp_connector" where
  "ic_reconnect e c =
     (let (c1, ok) = ic_try e (c\<lparr>ic_index := 0\<rparr>)
      in if ok then c1 else ic_execute (ic_set_error (platform_error (ic_last c1)) c1))"

lemma ic_reconnect_again: "ic_addrs c \<noteq> [] \<Longrightarrow> ic_reconnect e c = ic_connect e (ic_addrs c) c"
  by (simp add: ic_reconnect_def ic_connect_def)

text \<open>The time is kept, but no timer is scheduled on Windows.\<close>

definition ic_connect_time_out :: "iocp_connector_env \<Rightarrow> address list \<Rightarrow> time_span \<Rightarrow> iocp_connector \<Rightarrow> iocp_connector" where
  "ic_connect_time_out e addrs time c = ic_connect e addrs (c\<lparr>ic_time_out := time\<rparr>)"

definition ic_told :: "outcome \<Rightarrow> iocp_connector \<Rightarrow> iocp_connector" where
  "ic_told out c = c\<lparr>ic_outcomes := ic_outcomes c @ [out]\<rparr>"

text \<open>The handler; \<open>None\<close> is the use of a category that is null, or of an address or socket that is
  not there.\<close>

definition ic_handler :: "iocp_connector_env \<Rightarrow> iocp_connector \<Rightarrow> iocp_connector option" where
  "ic_handler e c0 = do {
     let c = ic_add_active (-1) c0;
     ec \<leftarrow> ov_error (ic_task c);
     if is_error ec then
       (let (c1, ok) = ic_try e (c\<lparr>ic_fd := None\<rparr>)
        in if ok then Some c1 else do { ec1 \<leftarrow> ov_error (ic_task c1); Some (ic_told (Connect_Fail ec1) c1) })
     else if ic_index c = 0 \<or> length (ic_addrs c) < ic_index c then None
     else
       (let addr = ic_addrs c ! (ic_index c - 1)
        in if \<not> ie_on_connect e addr then Some (ic_told (Declined addr) c)
           else do {
             fd \<leftarrow> ic_fd c;
             Some (if is_error (ie_build e fd) then ic_told (Build_Error addr (ie_build e fd)) c
                   else (ic_told (Connected addr) c)\<lparr>ic_channels := ic_channels c @ [fd]\<rparr>) }) }"

text \<open>What the loop delivers: the completion of \<open>ConnectEx\<close>, or the queued task.\<close>

datatype ic_event = Connect_Done bool int | Connect_Queued

fun ic_enabled :: "iocp_connector \<Rightarrow> ic_event \<Rightarrow> bool" where
  "ic_enabled c (Connect_Done ok er) = ic_flight c"
| "ic_enabled c Connect_Queued = (0 < ic_pending c)"

fun ic_deliver :: "iocp_connector_env \<Rightarrow> ic_event \<Rightarrow> iocp_connector \<Rightarrow> iocp_connector option" where
  "ic_deliver e (Connect_Done ok er) c = ic_handler e (c\<lparr>ic_flight := False, ic_task := ov_result ok 0 er (ic_task c)\<rparr>)"
| "ic_deliver e Connect_Queued c = ic_handler e (c\<lparr>ic_pending := ic_pending c - 1\<rparr>)"

inductive ic_reaches :: "iocp_connector_env \<Rightarrow> iocp_connector \<Rightarrow> nat \<Rightarrow> iocp_connector \<Rightarrow> bool" for e c where
  ic_start: "ic_reaches e c 0 c"
| ic_next: "ic_reaches e c n c1 \<Longrightarrow> ic_enabled c1 ev \<Longrightarrow> ic_deliver e ev c1 = Some c2 \<Longrightarrow> ic_reaches e c (Suc n) c2"

section \<open>One outcome\<close>

text \<open>\<open>ConnectEx\<close> waits: it does not fail at once. Errors are not 0.\<close>

definition connect_ex_waits :: "iocp_connector_env \<Rightarrow> bool" where
  "connect_ex_waits e \<longleftrightarrow>
     (\<forall>n addr. ie_call e n (Call_Connect_Ex addr) \<in> {None, Some io_pending}) \<and>
     (\<forall>n cl er. ie_call e n cl = Some er \<longrightarrow> 0 < er \<and> er < 2 ^ 31)"

text \<open>Where a request is: \<open>b\<close> is the active count before it, \<open>outs\<close> what was reported before it.\<close>

definition ic_waiting :: "int \<Rightarrow> outcome list \<Rightarrow> iocp_connector \<Rightarrow> bool" where
  "ic_waiting b outs c \<longleftrightarrow>
     ic_flight c \<and> ic_pending c = 0 \<and> ic_active c = b + 1 \<and> ic_outcomes c = outs \<and> ic_fd c \<noteq> None \<and>
     0 < ic_index c \<and> ic_index c \<le> length (ic_addrs c)"

definition ic_queued :: "int \<Rightarrow> outcome list \<Rightarrow> iocp_connector \<Rightarrow> bool" where
  "ic_queued b outs c \<longleftrightarrow>
     \<not> ic_flight c \<and> ic_pending c = 1 \<and> ic_active c = b + 1 \<and> ic_outcomes c = outs \<and> ic_index c = length (ic_addrs c) \<and>
     (\<exists>ec. ov_error (ic_task c) = Some ec \<and> is_error ec)"

definition ic_done :: "int \<Rightarrow> outcome list \<Rightarrow> iocp_connector \<Rightarrow> bool" where
  "ic_done b outs c \<longleftrightarrow> \<not> ic_flight c \<and> ic_pending c = 0 \<and> ic_active c = b \<and> (\<exists>out. ic_outcomes c = outs @ [out])"

definition ic_idle :: "iocp_connector \<Rightarrow> bool" where
  "ic_idle c \<longleftrightarrow> \<not> ic_flight c \<and> ic_pending c = 0"

definition ic_phase :: "int \<Rightarrow> outcome list \<Rightarrow> nat \<Rightarrow> iocp_connector \<Rightarrow> bool" where
  "ic_phase b outs k c \<longleftrightarrow>
     ic_waiting b outs c \<and> k = Suc (length (ic_addrs c) - ic_index c) \<or> ic_queued b outs c \<and> k = 1 \<or> ic_done b outs c \<and> k = 0"

lemma ic_call_error:
  assumes "connect_ex_waits e" "ic_call e cl c = (c1, r)"
  shows "if r = None then ic_last c1 = ic_last c else 0 < ic_last c1 \<and> ic_last c1 < 2 ^ 31"
  using assms by (auto simp: ic_call_def connect_ex_waits_def Let_def)

lemma ic_calls_all_error:
  assumes "connect_ex_waits e"
  shows "ic_calls_all e cls c = (c1, ok) \<Longrightarrow> if ok then ic_last c1 = ic_last c else 0 < ic_last c1 \<and> ic_last c1 < 2 ^ 31"
proof (induction cls arbitrary: c)
  case (Cons cl cls)
  obtain c2 r where r: "ic_call e cl c = (c2, r)" by fastforce
  note k = ic_call_error[OF assms r]
  show ?case
  proof (cases "r = None")
    case True
    thus ?thesis using Cons.IH[of c2] Cons.prems r k by (cases ok) (simp_all add: ic_calls_all.simps(2) del: power_numeral)
  next
    case False
    thus ?thesis using Cons.prems r k by (auto simp: ic_calls_all.simps(2))
  qed
qed simp

lemma ic_attempt_fails:
  assumes e: "connect_ex_waits e" and a: "ic_attempt e addr c = (c1, False)"
  shows "ic_task c1 = ic_task c \<and> 0 < ic_last c1 \<and> ic_last c1 < 2 ^ 31"
  using a
proof (cases rule: ic_attempt_cases)
  case (no_socket r)
  thus ?thesis using ic_call_keeps[OF no_socket(1)] ic_call_error[OF e no_socket(1)] by simp
next
  case (not_ready d)
  thus ?thesis
    using ic_call_keeps[OF not_ready(1)] ic_calls_all_keeps[OF not_ready(3)] ic_calls_all_error[OF e not_ready(3)] by simp
next
  case (refused d d2 r)
  hence "ie_call e (ic_calls d2) (Call_Connect_Ex addr) = Some r" by (simp add: ic_call_def Let_def)
  moreover have "ie_call e (ic_calls d2) (Call_Connect_Ex addr) \<in> {None, Some io_pending}"
    using e by (auto simp: connect_ex_waits_def)
  ultimately show ?thesis using refused(5) by auto
next
  case (started d d2 d3 r)
  thus ?thesis by simp
qed

text \<open>Trying the addresses that are left.\<close>

lemma ic_try_result:
  "connect_ex_waits e \<Longrightarrow> ic_try e c = (c1, ok) \<Longrightarrow> ic_index c \<le> length (ic_addrs c) \<Longrightarrow>
     ic_addrs c1 = ic_addrs c \<and> ic_index c \<le> ic_index c1 \<and> ic_index c1 \<le> length (ic_addrs c) \<and>
     ic_pending c1 = ic_pending c \<and> ic_outcomes c1 = ic_outcomes c \<and> ic_active c1 = ic_active c + of_bool ok \<and>
     ic_flight c1 = (ok \<or> ic_flight c) \<and>
     (if ok then ic_index c < ic_index c1 \<and> ic_fd c1 \<noteq> None
      else ic_index c1 = length (ic_addrs c) \<and> ic_task c1 = ic_task c \<and>
           (ic_index c < length (ic_addrs c) \<longrightarrow> 0 < ic_last c1 \<and> ic_last c1 < 2 ^ 31))"
proof (induction e c arbitrary: c1 rule: ic_try.induct)
  case (1 e c)
  show ?case
  proof (cases "ic_index c < length (ic_addrs c)")
    case True
    obtain d o1 where d: "ic_attempt e (ic_addrs c ! ic_index c) (c\<lparr>ic_index := Suc (ic_index c)\<rparr>) = (d, o1)" by fastforce
    note k = ic_attempt_keeps[OF d]
    show ?thesis
    proof (cases o1)
      case o1: True
      hence "c1 = d" "ok" using 1(3) True d by (simp_all add: ic_try.simps)
      thus ?thesis using k o1 True by (simp add: ic_attempted_def)
    next
      case o1: False
      hence t: "ic_try e d = (c1, ok)" using 1(3) True d by (simp add: ic_try.simps)
      have f: "ic_task d = ic_task c \<and> 0 < ic_last d \<and> ic_last d < 2 ^ 31"
        using ic_attempt_fails[OF 1(2)] d o1 by fastforce
      have t': "ic_try e d = (c1, ok) \<Longrightarrow> ic_index d = length (ic_addrs d) \<Longrightarrow> c1 = d \<and> \<not> ok" by (simp add: ic_try.simps)
      show ?thesis
        using 1(1)[OF True d[symmetric] o1 1(2) t] k f t t' True o1 by (auto simp: ic_attempted_def)
    qed
  next
    case False
    thus ?thesis using 1(3,4) by (auto simp: ic_try.simps)
  qed
qed

lemma ov_error_set: "0 \<le> ec_value ec \<Longrightarrow> ec_value ec < 2 ^ 31 \<Longrightarrow> ov_error (ov_set_error ec t) = Some ec"
  using overlapped_fields(1)[of ec 0 t] by simp

lemma ov_error_reset: "ov_error (ov_reset this) = None"
  by (simp add: ov_error_def ov_reset_def)

lemma ic_connect_phase:
  assumes e: "connect_ex_waits e" and c: "ic_idle c"
  obtains k where "ic_phase (ic_active c) (ic_outcomes c) k (ic_connect e addrs c)" "k \<le> max 1 (length addrs)"
proof (cases "addrs = []")
  case True
  hence "ic_queued (ic_active c) (ic_outcomes c) (ic_connect e addrs c)"
    using c by (simp add: ic_connect_def ic_queued_def ic_idle_def ic_execute_def ic_add_active_def ic_set_error_def
        ov_error_set tdk_error_def is_error_def)
  thus ?thesis using that[of 1] by (simp add: ic_phase_def)
next
  case False
  obtain c1 ok where r: "ic_try e (c\<lparr>ic_addrs := addrs, ic_index := 0\<rparr>) = (c1, ok)" by fastforce
  note t = ic_try_result[OF e r]
  have d: "ic_connect e addrs c = (if ok then c1 else ic_execute (ic_set_error (platform_error (ic_last c1)) c1))"
    using False r by (simp add: ic_connect_def)
  show ?thesis
  proof (cases ok)
    case True
    hence "ic_waiting (ic_active c) (ic_outcomes c) c1" "ic_addrs c1 = addrs" "0 < ic_index c1"
      using t c by (auto simp: ic_waiting_def ic_idle_def)
    thus ?thesis using that[of "Suc (length addrs - ic_index c1)"] d True by (simp add: ic_phase_def)
  next
    case ok: False
    hence "ic_queued (ic_active c) (ic_outcomes c) (ic_connect e addrs c)"
      using t c d False by (simp add: ic_queued_def ic_idle_def ic_execute_def ic_add_active_def ic_set_error_def
          ov_error_set platform_error_def is_error_def)
    thus ?thesis using that[of 1] by (simp add: ic_phase_def)
  qed
qed

text \<open>The handler, on a result that is there.\<close>

lemma ic_handler_phase:
  assumes e: "connect_ex_waits e" and ec: "ov_error (ic_task c) = Some ec"
    and c: "\<not> ic_flight c" "ic_pending c = 0" "ic_active c = b + 1" "ic_outcomes c = outs" "ic_index c \<le> length (ic_addrs c)"
    and ok: "\<not> is_error ec \<Longrightarrow> 0 < ic_index c \<and> ic_fd c \<noteq> None"
  obtains c1 k where "ic_handler e c = Some c1" "ic_phase b outs k c1" "k \<le> length (ic_addrs c) - ic_index c"
proof (cases "is_error ec")
  case True
  obtain c1 ok1 where r: "ic_try e ((ic_add_active (-1) c)\<lparr>ic_fd := None\<rparr>) = (c1, ok1)" by fastforce
  note t = ic_try_result[OF e r]
  show ?thesis
  proof (cases ok1)
    case ok1: True
    have "ic_handler e c = Some c1" using True ec r ok1 by (simp add: ic_handler_def ic_add_active_def Let_def)
    moreover have "ic_waiting b outs c1" using t c ok1 by (auto simp: ic_waiting_def ic_add_active_def)
    moreover have "ic_index c < ic_index c1" "ic_index c1 \<le> length (ic_addrs c)" "ic_addrs c1 = ic_addrs c"
      using t c ok1 by (auto simp: ic_add_active_def)
    ultimately show ?thesis using that[of c1 "Suc (length (ic_addrs c) - ic_index c1)"] by (simp add: ic_phase_def)
  next
    case False
    hence "ov_error (ic_task c1) = Some ec" using t c ec by (simp add: ic_add_active_def)
    hence "ic_handler e c = Some (ic_told (Connect_Fail ec) c1)"
      using True ec r False by (simp add: ic_handler_def ic_add_active_def Let_def)
    moreover have "ic_done b outs (ic_told (Connect_Fail ec) c1)"
      using t c False by (simp add: ic_done_def ic_told_def ic_add_active_def)
    ultimately show ?thesis using that[of _ 0] by (simp add: ic_phase_def)
  qed
next
  case False
  then obtain fd where fd: "ic_fd c = Some fd" "0 < ic_index c" using ok by blast
  define addr where "addr = ic_addrs c ! (ic_index c - 1)"
  have "\<exists>c1. ic_handler e c = Some c1 \<and> ic_done b outs c1"
  proof (cases "ie_on_connect e addr")
    case True
    thus ?thesis using fd False ec c unfolding addr_def
      by (cases "is_error (ie_build e fd)") (simp_all add: ic_handler_def ic_add_active_def Let_def ic_done_def ic_told_def)
  next
    case declined: False
    thus ?thesis using declined fd False ec c unfolding addr_def
      by (simp add: ic_handler_def ic_add_active_def Let_def ic_done_def ic_told_def)
  qed
  thus ?thesis using that[of _ 0] by (auto simp: ic_phase_def)
qed

lemma ic_deliver_phase:
  assumes e: "connect_ex_waits e" and c: "ic_phase b outs k c" "ic_enabled c ev"
  obtains c1 k1 where "ic_deliver e ev c = Some c1" "ic_phase b outs k1 c1" "k1 < k"
proof (cases ev)
  case (Connect_Done ok er)
  hence w: "ic_waiting b outs c" "k = Suc (length (ic_addrs c) - ic_index c)"
    using c by (auto simp: ic_phase_def ic_queued_def ic_done_def)
  have "\<exists>ec. ov_error (ov_result ok 0 er (ic_task c)) = Some ec" by (simp add: ov_result_error)
  then obtain ec where ec: "ov_error (ov_result ok 0 er (ic_task c)) = Some ec" ..
  obtain c1 k1 where "ic_handler e (c\<lparr>ic_flight := False, ic_task := ov_result ok 0 er (ic_task c)\<rparr>) = Some c1"
    "ic_phase b outs k1 c1" "k1 \<le> length (ic_addrs c) - ic_index c"
    by (rule ic_handler_phase[OF e, of "c\<lparr>ic_flight := False, ic_task := ov_result ok 0 er (ic_task c)\<rparr>" ec b outs])
      (use w ec in \<open>auto simp: ic_waiting_def\<close>)
  thus ?thesis using that w Connect_Done by simp
next
  case Connect_Queued
  hence q: "ic_queued b outs c" "k = 1" using c by (auto simp: ic_phase_def ic_waiting_def ic_done_def)
  then obtain ec where ec: "ov_error (ic_task c) = Some ec" "is_error ec" by (auto simp: ic_queued_def)
  obtain c1 k1 where "ic_handler e (c\<lparr>ic_pending := ic_pending c - 1\<rparr>) = Some c1"
    "ic_phase b outs k1 c1" "k1 \<le> length (ic_addrs c) - ic_index c"
    by (rule ic_handler_phase[OF e, of "c\<lparr>ic_pending := ic_pending c - 1\<rparr>" ec b outs])
      (use q ec in \<open>auto simp: ic_queued_def\<close>)
  thus ?thesis using that q Connect_Queued by (simp add: ic_queued_def)
qed

lemma ic_reaches_phase:
  assumes e: "connect_ex_waits e" and "ic_reaches e c n c1" "ic_phase b outs k c"
  shows "\<exists>k1. ic_phase b outs k1 c1 \<and> k1 + n \<le> k"
  using assms(2)
proof induction
  case ic_start
  show ?case using assms(3) by auto
next
  case (ic_next n c1 ev c2)
  then obtain k1 where k1: "ic_phase b outs k1 c1" "k1 + n \<le> k" by blast
  obtain c3 k2 where "ic_deliver e ev c1 = Some c3" "ic_phase b outs k2 c3" "k2 < k1"
    using ic_deliver_phase[OF e k1(1) ic_next(2)] .
  thus ?case using ic_next(3) k1 by (intro exI[of _ k2]) auto
qed

lemma ic_phase_open: "ic_phase b outs k c \<Longrightarrow>
    if \<exists>ev. ic_enabled c ev then ic_active c = b + 1 \<and> ic_outcomes c = outs else ic_active c = b \<and> (\<exists>out. ic_outcomes c = outs @ [out])"
proof -
  assume p: "ic_phase b outs k c"
  have x: "(\<exists>ev. ic_enabled c ev) \<longleftrightarrow> ic_flight c \<or> 0 < ic_pending c"
    by (metis ic_enabled.elims(2) ic_enabled.simps)
  show ?thesis using p unfolding x by (auto simp: ic_phase_def ic_waiting_def ic_queued_def ic_done_def)
qed

text \<open>A request ends with one outcome: after as many events at most as there are addresses the loop
  counts one operation less and one outcome was reported; before that none was, and the loop is kept
  alive. No event uses a null category.\<close>

theorem iocp_connector_one_outcome:
  assumes "connect_ex_waits e" "ic_idle c"
  shows "ic_reaches e (ic_connect e addrs c) n c1 \<longrightarrow>
    n \<le> max 1 (length addrs) \<and> (\<forall>ev. ic_enabled c1 ev \<longrightarrow> ic_deliver e ev c1 \<noteq> None) \<and>
    (if \<exists>ev. ic_enabled c1 ev then ic_active c1 = ic_active c + 1 \<and> ic_outcomes c1 = ic_outcomes c
     else ic_active c1 = ic_active c \<and> (\<exists>out. ic_outcomes c1 = ic_outcomes c @ [out]))"
proof
  assume r: "ic_reaches e (ic_connect e addrs c) n c1"
  obtain k where k: "ic_phase (ic_active c) (ic_outcomes c) k (ic_connect e addrs c)" "k \<le> max 1 (length addrs)"
    using ic_connect_phase[OF assms] .
  obtain k1 where k1: "ic_phase (ic_active c) (ic_outcomes c) k1 c1" "k1 + n \<le> k"
    using ic_reaches_phase[OF assms(1) r k(1)] by blast
  have "ic_deliver e ev c1 \<noteq> None" if "ic_enabled c1 ev" for ev
    using ic_deliver_phase[OF assms(1) k1(1) that] by (metis option.distinct(1))
  thus "n \<le> max 1 (length addrs) \<and> (\<forall>ev. ic_enabled c1 ev \<longrightarrow> ic_deliver e ev c1 \<noteq> None) \<and>
    (if \<exists>ev. ic_enabled c1 ev then ic_active c1 = ic_active c + 1 \<and> ic_outcomes c1 = ic_outcomes c
     else ic_active c1 = ic_active c \<and> (\<exists>out. ic_outcomes c1 = ic_outcomes c @ [out]))"
    using ic_phase_open[OF k1(1)] k1 k by auto
qed

text \<open>When \<open>ConnectEx\<close> fails at once on the last address, the handler has reset its task, and reads the
  error of it: the category is a null pointer.\<close>

definition refusing_env :: iocp_connector_env where
  "refusing_env = \<lparr>ie_call = (\<lambda>n cl. case cl of Call_Connect_Ex a \<Rightarrow> if n < 6 then Some io_pending else Some 10051 | _ \<Rightarrow> None),
     ie_on_connect = (\<lambda>a. True), ie_build = (\<lambda>fd. no_error)\<rparr>"

lemma iocp_connector_null_category:
  "ic_deliver refusing_env (Connect_Done False 10061) (ic_connect refusing_env [address_new, address_new] iocp_connector_new) = None"
  by (simp add: ic_connect_def iocp_connector_new_def ic_try.simps ic_attempt_def ic_calls_all.simps(2) ic_call_def refusing_env_def
      ic_add_active_def ic_handler_def Let_def ov_result_error io_pending_def is_error_def to_i32_def ov_error_reset)

end
