(* ===== verification/Iocp_Acceptor.thy ===== *)
theory Iocp_Acceptor
  imports Address Task_Objects
begin

text \<open>
  The acceptor of TCP channels on Windows (\<open>io/ip/tcp/channel_acceptor.cpp\<close>): one overlapped
  \<open>AcceptEx\<close> after the other, each with a socket made for it. What the calls of the system return is a
  parameter, by the number of the call: \<open>None\<close>, or an error; a socket is named by the number of
  the call that made it.
\<close>

section \<open>State\<close>

definition accept_pending :: int where "accept_pending = 997"

datatype accept_call = Make_Socket | Make_Non_Block | Make_Reuse | Make_Bind | Make_Listen | Make_Register | Make_Accept_Ex "nat option"

text \<open>\<open>wa_task\<close> is the \<open>OVERLAPPED\<close> of \<open>_on_accept\<close>, \<open>wa_accepted\<close> its socket (no value before it is
  set), \<open>wa_flight\<close> says that the kernel has it, \<open>wa_pending\<close> how often it is queued on the loop,
  \<open>wa_last\<close> the last error of the thread; \<open>wa_made\<close>, \<open>wa_closed\<close> and \<open>wa_channels\<close> are the sockets the
  system made, those that were closed and those given to a channel.\<close>

record iocp_acceptor =
  wa_fd :: "nat option"
  wa_task :: overlapped
  wa_accepted :: "nat option"
  wa_flight :: bool
  wa_pending :: nat
  wa_active :: int
  wa_last :: int
  wa_calls :: nat
  wa_made :: "nat list"
  wa_closed :: "nat list"
  wa_channels :: "(nat \<times> address) list"

record iocp_acceptor_env =
  we_call :: "nat \<Rightarrow> accept_call \<Rightarrow> int option"
  we_remote :: "nat \<Rightarrow> address"
  we_condition :: "address \<Rightarrow> bool"
  we_build :: "nat \<Rightarrow> error_code"

definition iocp_acceptor_new :: iocp_acceptor where
  "iocp_acceptor_new =
     \<lparr>wa_fd = None, wa_task = ov_reset 0, wa_accepted = None, wa_flight = False, wa_pending = 0, wa_active = 0,
      wa_last = 0, wa_calls = 0, wa_made = [], wa_closed = [], wa_channels = []\<rparr>"

section \<open>Operations\<close>

definition wa_call :: "iocp_acceptor_env \<Rightarrow> accept_call \<Rightarrow> iocp_acceptor \<Rightarrow> iocp_acceptor \<times> bool" where
  "wa_call e cl a =
     (let r = we_call e (wa_calls a) cl
      in (a\<lparr>wa_calls := Suc (wa_calls a), wa_last := (case r of None \<Rightarrow> wa_last a | Some er \<Rightarrow> er)\<rparr>, r = None))"

fun wa_calls_all :: "iocp_acceptor_env \<Rightarrow> accept_call list \<Rightarrow> iocp_acceptor \<Rightarrow> iocp_acceptor \<times> bool" where
  "wa_calls_all e [] a = (a, True)"
| "wa_calls_all e (cl # cls) a =
     (let (a1, ok) = wa_call e cl a in if ok then wa_calls_all e cls a1 else (a1, False))"

definition wa_add_active :: "int \<Rightarrow> iocp_acceptor \<Rightarrow> iocp_acceptor" where
  "wa_add_active d a = a\<lparr>wa_active := wa_active a + d\<rparr>"

definition wa_close_fd :: "nat \<Rightarrow> iocp_acceptor \<Rightarrow> iocp_acceptor" where
  "wa_close_fd fd a = a\<lparr>wa_closed := wa_closed a @ [fd]\<rparr>"

text \<open>The error of the thread into the task, and the task onto the queue of the loop.\<close>

definition wa_fail :: "iocp_acceptor \<Rightarrow> iocp_acceptor" where
  "wa_fail a = a\<lparr>wa_task := ov_set_error (platform_error (wa_last a)) (wa_task a), wa_pending := Suc (wa_pending a)\<rparr>"

definition wa_socket :: "iocp_acceptor_env \<Rightarrow> iocp_acceptor \<Rightarrow> iocp_acceptor \<times> nat option" where
  "wa_socket e a =
     (let (a1, made) = wa_call e Make_Socket a
      in if made then (a1\<lparr>wa_made := wa_made a1 @ [wa_calls a]\<rparr>, Some (wa_calls a)) else (a1, None))"

definition do_accept :: "iocp_acceptor_env \<Rightarrow> iocp_acceptor \<Rightarrow> iocp_acceptor" where
  "do_accept e a0 =
     (case wa_socket e a0 of
        (a1, None) \<Rightarrow> wa_fail a1
      | (a1, Some fd) \<Rightarrow>
          (let (a2, _) = wa_call e Make_Non_Block a1;
               (a3, started) = wa_call e (Make_Accept_Ex (wa_fd a2)) (a2\<lparr>wa_task := ov_reset 0, wa_accepted := Some fd\<rparr>);
               a4 = (if started \<or> wa_last a3 = accept_pending then a3\<lparr>wa_flight := True\<rparr> else wa_fail a3)
           in wa_add_active 1 a4))"

definition wa_open :: "iocp_acceptor_env \<Rightarrow> iocp_acceptor \<Rightarrow> iocp_acceptor \<times> bool" where
  "wa_open e a0 =
     (case wa_socket e a0 of
        (a1, None) \<Rightarrow> (a1\<lparr>wa_fd := None\<rparr>, False)
      | (a1, Some fd) \<Rightarrow>
          (let (a2, ready) = wa_calls_all e [Make_Non_Block, Make_Reuse, Make_Bind, Make_Listen, Make_Register] (a1\<lparr>wa_fd := Some fd\<rparr>)
           in if ready then (do_accept e a2, True) else ((wa_close_fd fd a2)\<lparr>wa_fd := None\<rparr>, False)))"

text \<open>\<open>close\<close> on the loop.\<close>

definition wa_close :: "iocp_acceptor \<Rightarrow> iocp_acceptor" where
  "wa_close a = (case wa_fd a of None \<Rightarrow> a | Some fd \<Rightarrow> wa_add_active (-1) ((wa_close_fd fd a)\<lparr>wa_fd := None\<rparr>))"

text \<open>The handler; \<open>None\<close> is the use of a category that is null, or of a socket with no value.\<close>

definition wa_accept_handler :: "iocp_acceptor_env \<Rightarrow> iocp_acceptor \<Rightarrow> iocp_acceptor option" where
  "wa_accept_handler e a = do {
     ec \<leftarrow> ov_error (wa_task a);
     fd \<leftarrow> wa_accepted a;
     Some (do_accept e
       (if is_error ec \<or> \<not> we_condition e (we_remote e fd) \<or> is_error (we_build e fd) then wa_close_fd fd a
        else a\<lparr>wa_channels := wa_channels a @ [(fd, we_remote e fd)]\<rparr>)) }"

definition wa_on_accept :: "iocp_acceptor_env \<Rightarrow> iocp_acceptor \<Rightarrow> iocp_acceptor option" where
  "wa_on_accept e a = map_option (wa_add_active (-1)) (wa_accept_handler e a)"

datatype wa_event = Accept_Done bool int | Accept_Queued | Close_Now

fun wa_enabled :: "iocp_acceptor \<Rightarrow> wa_event \<Rightarrow> bool" where
  "wa_enabled a (Accept_Done ok er) = wa_flight a"
| "wa_enabled a Accept_Queued = (0 < wa_pending a)"
| "wa_enabled a Close_Now = True"

fun wa_deliver :: "iocp_acceptor_env \<Rightarrow> wa_event \<Rightarrow> iocp_acceptor \<Rightarrow> iocp_acceptor option" where
  "wa_deliver e (Accept_Done ok er) a = wa_on_accept e (a\<lparr>wa_flight := False, wa_task := ov_result ok 0 er (wa_task a)\<rparr>)"
| "wa_deliver e Accept_Queued a = wa_on_accept e (a\<lparr>wa_pending := wa_pending a - 1\<rparr>)"
| "wa_deliver e Close_Now a = Some (wa_close a)"

inductive wa_reaches :: "iocp_acceptor_env \<Rightarrow> iocp_acceptor \<Rightarrow> iocp_acceptor \<Rightarrow> bool" for e a where
  wa_start: "wa_reaches e a a"
| wa_next: "wa_reaches e a a1 \<Longrightarrow> wa_enabled a1 ev \<Longrightarrow> wa_deliver e ev a1 = Some a2 \<Longrightarrow> wa_reaches e a a2"

section \<open>One operation, every socket accounted for\<close>

text \<open>The system makes every socket it is asked for, and an error is not 0.\<close>

definition sockets_made :: "iocp_acceptor_env \<Rightarrow> bool" where
  "sockets_made e \<longleftrightarrow>
     (\<forall>n. we_call e n Make_Socket = None) \<and> (\<forall>n cl er. we_call e n cl = Some er \<longrightarrow> 0 < er \<and> er < 2 ^ 31)"

text \<open>The sockets that were closed or given to a channel, those that are still held, and the numbers
  they come from.\<close>

definition wa_gone :: "iocp_acceptor \<Rightarrow> nat list" where
  "wa_gone a = wa_closed a @ List.map fst (wa_channels a)"

definition wa_listening :: "iocp_acceptor \<Rightarrow> nat list" where
  "wa_listening a = (case wa_fd a of None \<Rightarrow> [] | Some l \<Rightarrow> [l])"

definition wa_holds :: "iocp_acceptor \<Rightarrow> nat list \<Rightarrow> bool" where
  "wa_holds a held \<longleftrightarrow>
     distinct (wa_gone a @ held @ wa_listening a) \<and> set (wa_made a) = set (wa_gone a @ held @ wa_listening a) \<and>
     (\<forall>s\<in>set (wa_made a). s < wa_calls a)"

definition wa_sound :: "iocp_acceptor \<Rightarrow> bool" where
  "wa_sound a \<longleftrightarrow>
     (\<exists>fd. wa_accepted a = Some fd \<and> wa_holds a [fd]) \<and>
     (wa_flight a \<and> wa_pending a = 0 \<or> \<not> wa_flight a \<and> wa_pending a = 1 \<and> (\<exists>ec. ov_error (wa_task a) = Some ec \<and> is_error ec))"

text \<open>The same between the end of an operation and the next: no operation, no socket for it.\<close>

definition wa_between :: "iocp_acceptor \<Rightarrow> bool" where
  "wa_between a \<longleftrightarrow> wa_holds a [] \<and> \<not> wa_flight a \<and> wa_pending a = 0"

lemma wa_call_keeps:
  assumes "wa_call e cl a = (a1, ok)"
  shows "wa_closed a1 = wa_closed a \<and> wa_channels a1 = wa_channels a \<and> wa_fd a1 = wa_fd a \<and> wa_accepted a1 = wa_accepted a \<and>
      wa_calls a1 = Suc (wa_calls a) \<and> wa_flight a1 = wa_flight a \<and> wa_pending a1 = wa_pending a \<and> wa_active a1 = wa_active a \<and>
      wa_task a1 = wa_task a \<and> wa_made a1 = wa_made a" "ok \<longleftrightarrow> we_call e (wa_calls a) cl = None"
    "\<not> ok \<Longrightarrow> sockets_made e \<Longrightarrow> 0 < wa_last a1 \<and> wa_last a1 < 2 ^ 31"
    "\<not> ok \<Longrightarrow> we_call e (wa_calls a) cl = Some (wa_last a1)"
  using assms by (auto simp: wa_call_def Let_def sockets_made_def)

lemma wa_calls_all_keeps: "wa_calls_all e cls a = (a1, ok) \<Longrightarrow>
    wa_closed a1 = wa_closed a \<and> wa_channels a1 = wa_channels a \<and> wa_fd a1 = wa_fd a \<and> wa_calls a \<le> wa_calls a1 \<and>
    wa_flight a1 = wa_flight a \<and> wa_pending a1 = wa_pending a \<and> wa_active a1 = wa_active a \<and> wa_made a1 = wa_made a"
proof (induction cls arbitrary: a)
  case (Cons cl cls)
  obtain a2 r where r: "wa_call e cl a = (a2, r)" by fastforce
  show ?case
  proof (cases r)
    case True
    hence "wa_calls_all e cls a2 = (a1, ok)" using Cons.prems r by simp
    thus ?thesis using Cons.IH[of a2] wa_call_keeps(1)[OF r] by simp
  next
    case False
    hence "a1 = a2" using Cons.prems r by simp
    thus ?thesis using wa_call_keeps(1)[OF r] by simp
  qed
qed simp

lemma wa_error_set: "0 \<le> ec_value ec \<Longrightarrow> ec_value ec < 2 ^ 31 \<Longrightarrow> ov_error (ov_set_error ec t) = Some ec"
  using overlapped_fields(1)[of ec 0 t] by simp

definition closed_refused :: "iocp_acceptor_env \<Rightarrow> bool" where
  "closed_refused e \<longleftrightarrow> (\<forall>n. \<exists>er. we_call e n (Make_Accept_Ex None) = Some er \<and> er \<noteq> accept_pending)"

lemma do_accept_sound:
  assumes e: "sockets_made e" and a: "wa_between a"
  shows "wa_sound (do_accept e a)" "wa_active (do_accept e a) = wa_active a + 1" "wa_fd (do_accept e a) = wa_fd a"
    "wa_closed (do_accept e a) = wa_closed a" "wa_fd a = None \<Longrightarrow> closed_refused e \<Longrightarrow> \<not> wa_flight (do_accept e a)"
proof -
  obtain a0 m where c1: "wa_call e Make_Socket a = (a0, m)" by fastforce
  define a1 where "a1 = a0\<lparr>wa_made := wa_made a0 @ [wa_calls a]\<rparr>"
  obtain a2 n where c2: "wa_call e Make_Non_Block a1 = (a2, n)" by fastforce
  obtain a3 s where c3: "wa_call e (Make_Accept_Ex (wa_fd a2)) (a2\<lparr>wa_task := ov_reset 0, wa_accepted := Some (wa_calls a)\<rparr>) = (a3, s)"
    by fastforce
  have m: "m" using wa_call_keeps(2)[OF c1] e by (simp add: sockets_made_def)
  have d: "do_accept e a = wa_add_active 1 (if s \<or> wa_last a3 = accept_pending then a3\<lparr>wa_flight := True\<rparr> else wa_fail a3)"
    using m by (simp add: do_accept_def wa_socket_def c1 a1_def[symmetric] c2 c3 Let_def)
  have a3: "wa_closed a3 = wa_closed a" "wa_channels a3 = wa_channels a" "wa_fd a3 = wa_fd a" "wa_accepted a3 = Some (wa_calls a)"
    "wa_calls a3 = wa_calls a + 3" "wa_flight a3 = wa_flight a" "wa_pending a3 = wa_pending a" "wa_active a3 = wa_active a"
    "wa_made a3 = wa_made a @ [wa_calls a]" "wa_fd a2 = wa_fd a"
    using wa_call_keeps(1)[OF c1] wa_call_keeps(1)[OF c2] wa_call_keeps(1)[OF c3] by (simp_all add: a1_def)
  have l: "0 < wa_last a3 \<and> wa_last a3 < 2 ^ 31" if "\<not> s" using wa_call_keeps(3)[OF c3 that e] .
  show "wa_active (do_accept e a) = wa_active a + 1" "wa_fd (do_accept e a) = wa_fd a" "wa_closed (do_accept e a) = wa_closed a"
    unfolding d by (simp_all add: wa_add_active_def wa_fail_def a3)
  have g: "wa_gone a3 = wa_gone a" "wa_listening a3 = wa_listening a" by (simp_all add: wa_gone_def wa_listening_def a3)
  have "wa_calls a \<notin> set (wa_made a)" using a by (auto simp: wa_between_def wa_holds_def)
  hence "wa_holds a3 [wa_calls a]" using a by (auto simp: wa_between_def wa_holds_def g a3 intro: trans_less_add1)
  hence "wa_sound (if s \<or> wa_last a3 = accept_pending then a3\<lparr>wa_flight := True\<rparr> else wa_fail a3)"
    using a l by (auto simp: wa_sound_def wa_fail_def a3 g wa_gone_def wa_listening_def wa_holds_def wa_between_def wa_error_set platform_error_def is_error_def)
  thus "wa_sound (do_accept e a)" unfolding d by (simp add: wa_sound_def wa_add_active_def wa_gone_def wa_listening_def wa_holds_def)
  show "\<not> wa_flight (do_accept e a)" if "wa_fd a = None" "closed_refused e"
  proof -
    have "\<not> s" "wa_last a3 \<noteq> accept_pending"
      using wa_call_keeps(2,4)[OF c3] that a3(10) unfolding closed_refused_def by (metis option.distinct(1) option.inject)+
    thus ?thesis unfolding d using a by (simp add: wa_add_active_def wa_fail_def a3 wa_between_def)
  qed
qed

lemma wa_on_accept_sound:
  assumes e: "sockets_made e" and a: "wa_accepted a = Some fd" "ov_error (wa_task a) = Some ec" "\<not> wa_flight a" "wa_pending a = 0"
    and b: "wa_holds a [fd]"
  obtains a1 where "wa_on_accept e a = Some a1" "wa_sound a1" "wa_active a1 = wa_active a" "wa_fd a1 = wa_fd a"
    "is_error ec \<longrightarrow> length (wa_closed a1) = Suc (length (wa_closed a))"
    "wa_fd a = None \<longrightarrow> closed_refused e \<longrightarrow> \<not> wa_flight a1"
proof -
  define x where "x = (if is_error ec \<or> \<not> we_condition e (we_remote e fd) \<or> is_error (we_build e fd) then wa_close_fd fd a
        else a\<lparr>wa_channels := wa_channels a @ [(fd, we_remote e fd)]\<rparr>)"
  have x: "wa_between x" "wa_active x = wa_active a" "wa_fd x = wa_fd a"
    "is_error ec \<Longrightarrow> wa_closed x = wa_closed a @ [fd]"
    using a b by (auto simp: x_def wa_between_def wa_holds_def wa_gone_def wa_listening_def wa_close_fd_def)
  have "wa_on_accept e a = Some (wa_add_active (-1) (do_accept e x))"
    using a by (simp add: wa_on_accept_def wa_accept_handler_def x_def)
  thus ?thesis using do_accept_sound[OF e x(1)] x(2-) that
    by (simp add: wa_add_active_def wa_sound_def wa_gone_def wa_holds_def wa_listening_def)
qed

lemma wa_deliver_sound:
  assumes e: "sockets_made e" and a: "wa_sound a" "wa_enabled a ev" "ev \<noteq> Close_Now"
  obtains a1 where "wa_deliver e ev a = Some a1" "wa_sound a1" "wa_active a1 = wa_active a" "wa_fd a1 = wa_fd a"
    "ev = Accept_Queued \<longrightarrow> length (wa_closed a1) = Suc (length (wa_closed a))"
    "wa_fd a = None \<longrightarrow> closed_refused e \<longrightarrow> \<not> wa_flight a1"
proof (cases ev)
  case (Accept_Done ok er)
  then obtain fd where fd: "wa_accepted a = Some fd" "wa_holds a [fd]" "wa_flight a" "wa_pending a = 0"
    using a by (auto simp: wa_sound_def)
  obtain ec where ec: "ov_error (ov_result ok 0 er (wa_task a)) = Some ec" by (simp add: ov_result_error)
  show ?thesis
    by (rule wa_on_accept_sound[OF e, of "a\<lparr>wa_flight := False, wa_task := ov_result ok 0 er (wa_task a)\<rparr>" fd ec])
      (use fd ec Accept_Done that in \<open>auto simp: wa_gone_def wa_holds_def wa_listening_def\<close>)
next
  case Accept_Queued
  then obtain fd ec where fd: "wa_accepted a = Some fd" "wa_holds a [fd]" "\<not> wa_flight a" "wa_pending a = 1"
    "ov_error (wa_task a) = Some ec" "is_error ec"
    using a by (auto simp: wa_sound_def)
  show ?thesis
    by (rule wa_on_accept_sound[OF e, of "a\<lparr>wa_pending := wa_pending a - 1\<rparr>" fd ec])
      (use fd Accept_Queued that in \<open>auto simp: wa_gone_def wa_holds_def wa_listening_def\<close>)
qed (use a in simp)

text \<open>From \<open>open\<close> on: the active count is that of the operation while the acceptor is open.\<close>

definition wa_running :: "iocp_acceptor \<Rightarrow> bool" where
  "wa_running a \<longleftrightarrow> wa_sound a \<and> wa_active a = of_bool (wa_fd a \<noteq> None)"

lemma wa_open_running:
  assumes e: "sockets_made e" and o: "wa_open e iocp_acceptor_new = (a, True)"
  shows "wa_running a"
proof -
  obtain a0 where a0: "wa_call e Make_Socket iocp_acceptor_new = (a0, True)"
    using e by (simp add: wa_call_def sockets_made_def iocp_acceptor_new_def)
  define a1 where "a1 = a0\<lparr>wa_made := [0], wa_fd := Some 0\<rparr>"
  obtain a2 r where r: "wa_calls_all e [Make_Non_Block, Make_Reuse, Make_Bind, Make_Listen, Make_Register] a1 = (a2, r)" by fastforce
  have k0: "wa_made a0 = []" "wa_calls iocp_acceptor_new = 0" using wa_call_keeps(1)[OF a0] by (simp_all add: iocp_acceptor_new_def)
  have a: "a = do_accept e a2"
    using o r a0 k0 by (simp add: wa_open_def wa_socket_def a1_def Let_def split: if_splits)
  have "wa_between a2" "wa_fd a2 = Some 0" "wa_active a2 = 0"
    using wa_calls_all_keeps[OF r] wa_call_keeps(1)[OF a0]
    by (auto simp: wa_between_def wa_holds_def a1_def wa_gone_def wa_listening_def iocp_acceptor_new_def)
  thus ?thesis using do_accept_sound[OF e] a by (simp add: wa_running_def)
qed

lemma wa_close_running: "wa_running a \<Longrightarrow> wa_running (wa_close a)"
  by (auto simp: wa_running_def wa_sound_def wa_close_def wa_close_fd_def wa_add_active_def wa_holds_def wa_gone_def wa_listening_def
      split: option.splits)

lemma wa_reaches_running:
  assumes e: "sockets_made e" and r: "wa_reaches e a a1" and a: "wa_running a"
  shows "wa_running a1"
  using r
proof induction
  case (wa_next a1 ev a2)
  show ?case
  proof (cases "ev = Close_Now")
    case True
    thus ?thesis using wa_next wa_close_running by auto
  next
    case False
    obtain a3 where "wa_deliver e ev a1 = Some a3" "wa_sound a3" "wa_active a3 = wa_active a1" "wa_fd a3 = wa_fd a1"
      using wa_deliver_sound[OF e _ wa_next(2) False] wa_next(4) unfolding wa_running_def by metis
    thus ?thesis using wa_next(3,4) by (simp add: wa_running_def)
  qed
qed (rule a)

section \<open>Properties\<close>

text \<open>As long as sockets can be made, whatever the system answers and however completions, queued
  tasks and \<open>close\<close> are ordered, one accept is under way at any time, the handler never reads a
  null category, the active count is 1 while the acceptor is open and 0 after \<open>close\<close>, and every
  socket that was made was closed once, or given to one channel, or is the one held for the next
  connection, or the one that listens.\<close>

theorem iocp_acceptor_sockets:
  assumes "sockets_made e" "wa_open e iocp_acceptor_new = (a, True)" "wa_reaches e a a1"
  shows "wa_flight a1 \<noteq> (0 < wa_pending a1)" "\<forall>ev. wa_enabled a1 ev \<longrightarrow> wa_deliver e ev a1 \<noteq> None"
    "wa_active a1 = (if wa_fd a1 = None then 0 else 1)"
    "\<exists>fd. wa_accepted a1 = Some fd \<and> distinct (wa_closed a1 @ List.map fst (wa_channels a1) @ [fd] @ wa_listening a1) \<and>
       set (wa_made a1) = set (wa_closed a1 @ List.map fst (wa_channels a1) @ [fd] @ wa_listening a1)"
proof -
  have r: "wa_running a1" using wa_reaches_running[OF assms(1,3)] wa_open_running[OF assms(1,2)] .
  thus "wa_flight a1 \<noteq> (0 < wa_pending a1)" "wa_active a1 = (if wa_fd a1 = None then 0 else 1)"
    by (auto simp: wa_running_def wa_sound_def)
  show "\<forall>ev. wa_enabled a1 ev \<longrightarrow> wa_deliver e ev a1 \<noteq> None"
  proof (intro allI impI)
    fix ev assume en: "wa_enabled a1 ev"
    show "wa_deliver e ev a1 \<noteq> None"
    proof (cases "ev = Close_Now")
      case False
      show ?thesis using wa_deliver_sound[OF assms(1) _ en False] r unfolding wa_running_def by (metis option.distinct(1))
    qed simp
  qed
  show "\<exists>fd. wa_accepted a1 = Some fd \<and> distinct (wa_closed a1 @ List.map fst (wa_channels a1) @ [fd] @ wa_listening a1) \<and>
       set (wa_made a1) = set (wa_closed a1 @ List.map fst (wa_channels a1) @ [fd] @ wa_listening a1)"
    using r by (auto simp: wa_running_def wa_sound_def wa_holds_def wa_gone_def)
qed

definition willing_env :: iocp_acceptor_env where
  "willing_env = \<lparr>we_call = (\<lambda>n cl. case cl of Make_Accept_Ex fd \<Rightarrow> if fd = None then Some 10038 else Some accept_pending | _ \<Rightarrow> None),
     we_remote = (\<lambda>fd. address_new), we_condition = (\<lambda>a. True), we_build = (\<lambda>fd. no_error)\<rparr>"

lemma willing_env_ok: "sockets_made willing_env" "closed_refused willing_env"
  by (auto simp: sockets_made_def closed_refused_def willing_env_def accept_pending_def split: accept_call.splits if_splits)

definition willing_open :: iocp_acceptor where
  "willing_open = fst (wa_open willing_env iocp_acceptor_new)"

lemma willing_opens: "wa_open willing_env iocp_acceptor_new = (willing_open, True)"
  by (simp add: willing_open_def wa_open_def wa_socket_def wa_call_def willing_env_def iocp_acceptor_new_def)

lemma iocp_acceptor_sockets_witness:
  "wa_flight (wa_close willing_open) \<noteq> (0 < wa_pending (wa_close willing_open))"
  by (rule iocp_acceptor_sockets(1)[OF willing_env_ok(1) willing_opens
        wa_next[OF wa_start, where ev = Close_Now]]) simp_all

text \<open>After \<open>close\<close> no accept can start: the queued task makes a socket, fails, closes it and is queued
  again. The active count is 0, and the queue is never empty.\<close>

fun wa_spin :: "iocp_acceptor_env \<Rightarrow> nat \<Rightarrow> iocp_acceptor \<Rightarrow> iocp_acceptor option" where
  "wa_spin e 0 a = Some a"
| "wa_spin e (Suc n) a = do { a1 \<leftarrow> wa_deliver e Accept_Queued a; wa_spin e n a1 }"

lemma wa_spins:
  assumes e: "sockets_made e" "closed_refused e"
  shows "wa_running a \<Longrightarrow> wa_fd a = None \<Longrightarrow> \<not> wa_flight a \<Longrightarrow>
    \<exists>a1. wa_spin e n a = Some a1 \<and> length (wa_closed a1) = length (wa_closed a) + n \<and> wa_active a1 = 0 \<and> wa_pending a1 = 1"
proof (induction n arbitrary: a)
  case 0
  thus ?case by (auto simp: wa_running_def wa_sound_def)
next
  case (Suc n)
  hence s: "wa_sound a" "wa_enabled a Accept_Queued" by (auto simp: wa_running_def wa_sound_def)
  obtain a1 where a1: "wa_deliver e Accept_Queued a = Some a1" "wa_sound a1" "wa_active a1 = wa_active a" "wa_fd a1 = wa_fd a"
    "length (wa_closed a1) = Suc (length (wa_closed a))" "\<not> wa_flight a1"
    using wa_deliver_sound[OF e(1) s] e(2) Suc.prems(2) by blast
  thus ?case using Suc.IH[of a1] Suc.prems by (simp add: wa_running_def)
qed

theorem iocp_acceptor_spins:
  assumes "sockets_made e" "closed_refused e" "wa_open e iocp_acceptor_new = (a, True)" "wa_reaches e a a1" "wa_fd a1 = None" "\<not> wa_flight a1"
  shows "\<exists>a2. wa_spin e n a1 = Some a2 \<and> length (wa_closed a2) = length (wa_closed a1) + n \<and> wa_active a2 = 0 \<and> wa_pending a2 = 1"
  using wa_spins[OF assms(1,2) wa_reaches_running[OF assms(1,4) wa_open_running[OF assms(1,3)]] assms(5,6)] .

text \<open>When a socket cannot be made, the task still holds the socket of the last connection: the handler
  closes it under its channel, and takes one from the active count that was not added.\<close>

definition starved_env :: iocp_acceptor_env where
  "starved_env = willing_env\<lparr>we_call := (\<lambda>n cl. if n = 9 then Some 10024 else we_call willing_env n cl)\<rparr>"

lemma iocp_acceptor_closes_live:
  "\<exists>a1 a2. wa_deliver starved_env (Accept_Done True 0) (fst (wa_open starved_env iocp_acceptor_new)) = Some a1 \<and>
     wa_deliver starved_env Accept_Queued a1 = Some a2 \<and>
     wa_channels a2 = [(6, address_new)] \<and> wa_closed a2 = [6] \<and> wa_fd a2 = Some 0 \<and> wa_flight a2 \<and> wa_active a2 = 0"
  by (simp add: starved_env_def willing_env_def wa_open_def wa_socket_def wa_call_def iocp_acceptor_new_def do_accept_def
      wa_add_active_def wa_on_accept_def wa_accept_handler_def ov_result_error no_error_def is_error_def Let_def
      accept_pending_def wa_fail_def wa_error_set platform_error_def wa_close_fd_def)

end
